(* ===== verification/Prelude.thy ===== *)
theory Prelude
  imports Main "HOL-Library.Word"
begin

unbundle bit_operations_syntax

text \<open>
  The vocabulary every component shares: limbs, the limb memory and the number a memory region
  holds.

  A limb (\<open>mp_limb_t\<close>) is a 32-bit word: \<open>gmp-mparam.h\<close> sets \<open>BITS_PER_MP_LIMB\<close> to 32 and
  \<open>gmp.h\<close> sets \<open>GMP_NAIL_BITS\<close> to 0, so \<open>GMP_NUMB_BITS = 32\<close> and \<open>GMP_NUMB_MASK\<close> is all ones
  (masking with it is the identity and is left out).  The memory is a map from addresses to limbs;
  an \<open>mp_ptr\<close> is the address of a limb, so pointer arithmetic and overlapping operands are exactly
  those of the C code.  \<open>mval m p n\<close> is the number the region \<open>{p,n}\<close> holds, least significant
  limb first.
\<close>

section \<open>Limbs\<close>

type_synonym limb = "32 word"
type_synonym ptr = nat
type_synonym mem = "nat \<Rightarrow> limb"

text \<open>The base of the limb representation, \<open>2^32\<close>.\<close>

definition LB :: nat where
  "LB = 4294967296"

lemma LB_gt [simp]: "0 < LB" "1 < LB" "LB \<noteq> 0" "Suc 0 < LB" "Suc 0 \<le> LB"
  by (simp_all add: LB_def)

lemma LB_power: "LB = 2 ^ 32"
  by (simp add: LB_def)

lemma unat_lt_LB: "unat (x :: limb) < LB"
  using unsigned_less [of x, where 'a = nat] by (simp add: LB_def)

lemma unat_plus_limb: "unat (x + y :: limb) = (unat x + unat y) mod LB"
  by (simp add: unat_word_ariths LB_def)

lemma unat_times_limb: "unat (x * y :: limb) = (unat x * unat y) mod LB"
  by (simp add: unat_word_ariths LB_def)

lemma unat_of_nat_limb: "unat (of_nat n :: limb) = n mod LB"
  by (simp add: unat_of_nat LB_def)

lemma of_nat_unat_small: "n < LB \<Longrightarrow> unat (of_nat n :: limb) = n"
  by (simp add: unat_of_nat_limb)

lemma unat_of_bool_limb [simp]: "unat (of_bool b :: limb) = of_bool b"
  by simp

lemma limb_eq_iff: "(x = y) = (unat (x :: limb) = unat y)"
  by (simp add: word_unat_eq_iff)

lemma limb_le_iff: "(x \<le> y) = (unat (x :: limb) \<le> unat y)"
  by (simp add: word_le_nat_alt)

lemma limb_less_iff: "(x < y) = (unat (x :: limb) < unat y)"
  by (simp add: word_less_nat_alt)

subsection \<open>Carry and borrow out of a limb\<close>

text \<open>The C code detects a carry of \<open>s = x + y\<close> by \<open>s < x\<close> and a borrow of \<open>s = x - y\<close> by \<open>s > x\<close>
  (or \<open>x < y\<close>).\<close>

lemma unat_plus_if: "unat (x + y :: limb) =
    (if unat x + unat y < LB then unat x + unat y else unat x + unat y - LB)"
proof -
  have "(unat x + unat y - LB) mod LB = unat x + unat y - LB" if "LB \<le> unat x + unat y"
    using unat_lt_LB [of x] unat_lt_LB [of y] by (intro mod_less) linarith
  then show ?thesis
    by (simp add: unat_plus_limb le_mod_geq)
qed

lemma add_carry: "unat (x + y :: limb) + LB * of_bool (x + y < x) = unat x + unat y"
  using unat_lt_LB [of x] unat_lt_LB [of y] by (auto simp: limb_less_iff unat_plus_if)

lemma add_carry': "unat (x + y :: limb) + LB * of_bool (x + y < y) = unat x + unat y"
  using add_carry [of y x] by (simp add: add.commute)

lemma add_carry_iff: "(x + y < (x :: limb)) = (LB \<le> unat x + unat y)"
  using unat_lt_LB [of x] unat_lt_LB [of y] by (auto simp: limb_less_iff unat_plus_if)

lemma add_carry_iff': "(x + y < (y :: limb)) = (LB \<le> unat x + unat y)"
  using add_carry_iff [of y x] by (simp add: add.commute)

lemma unat_minus_if: "unat (x - y :: limb) =
    (if unat y \<le> unat x then unat x - unat y else unat x + LB - unat y)"
proof -
  have "unat (x - y + y) + LB * of_bool (x - y + y < y) = unat (x - y) + unat y"
    by (rule add_carry')
  then have "unat x + LB * of_bool (x < y) = unat (x - y) + unat y"
    by simp
  then show ?thesis
    by (auto simp: limb_less_iff split: if_splits)
qed

lemma sub_borrow: "unat (x - y :: limb) + unat y = unat x + LB * of_bool (x < y)"
  using unat_lt_LB [of y] by (auto simp: unat_minus_if limb_less_iff)

lemma sub_borrow_iff: "(x < x - (y :: limb)) = (x < y)"
  using unat_lt_LB [of x] unat_lt_LB [of y] by (auto simp: unat_minus_if limb_less_iff)

lemma unat_minus_limb: "y \<le> x \<Longrightarrow> unat (x - y :: limb) = unat x - unat y"
  by (simp add: unat_minus_if limb_le_iff)

lemma sub_borrow': "unat (x - y :: limb) + unat y = unat x + LB * of_bool (x < x - y)"
  using sub_borrow [of x y] by (simp add: sub_borrow_iff)

text \<open>A limb is determined by a modular equation on its value: this turns the wrap-around chains of
  the C code into one equation between numbers.\<close>

lemma unat_eqI: "w + y = x \<Longrightarrow> v < LB \<Longrightarrow> (v + unat y) mod LB = unat x \<Longrightarrow> unat (w :: limb) = v"
proof -
  assume 1: "w + y = x" "v < LB" "(v + unat y) mod LB = unat x"
  have "unat (of_nat v + y :: limb) = unat x"
    using 1 by (simp add: unat_plus_limb unat_of_nat_limb)
  then have "of_nat v + y = w + y"
    using 1(1) by (simp add: limb_eq_iff)
  with 1(2) show ?thesis
    using of_nat_unat_small [of v] by simp
qed

subsection \<open>Shifted limbs\<close>

lemma unat_or_disjoint: "x AND y = (0 :: limb) \<Longrightarrow> unat (x OR y) = unat x + unat y"
proof -
  assume "x AND y = (0 :: limb)"
  then have "unat x AND unat y = 0"
    by (simp flip: unsigned_and_eq)
  then have "unat x + unat y = unat x OR unat y"
    by (rule disjunctive_add_eq_or)
  then show ?thesis
    by (simp add: unsigned_or_eq)
qed

lemma push_and_small: "unat y < 2 ^ k \<Longrightarrow> push_bit k x AND y = (0 :: limb)"
proof (rule bit_eqI)
  fix n
  assume "unat y < 2 ^ k"
  then have "take_bit k (unat y) = unat y"
    by (simp add: take_bit_nat_eq_self)
  then have "take_bit k y = y"
    by (simp add: limb_eq_iff unsigned_take_bit_eq)
  then have "\<not> bit y n" if "k \<le> n"
    using that by (metis bit_take_bit_iff not_less)
  then show "bit (push_bit k x AND y) n = bit (0 :: limb) n"
    by (auto simp: bit_simps)
qed

lemma unat_push_or: "unat y < 2 ^ k \<Longrightarrow> unat (push_bit k x OR y :: limb) = unat (push_bit k x) + unat y"
  by (rule unat_or_disjoint) (rule push_and_small)

lemma unat_drop_limb: "unat (drop_bit k (x :: limb)) = unat x div 2 ^ k"
  unfolding unat_drop_bit_eq by (rule drop_bit_eq_div)

lemma unat_push_limb:
  assumes "k \<le> 32"
  shows "unat (push_bit k (x :: limb)) = 2 ^ k * (unat x mod 2 ^ (32 - k))"
proof -
  have "LB = 2 ^ k * 2 ^ (32 - k)"
    using assms by (simp add: LB_power flip: power_add)
  moreover have "unat (push_bit k x) = (2 ^ k * unat x) mod LB"
  proof -
    have "unat (push_bit k x) = take_bit LENGTH(32) (push_bit k (unat x))"
      by (rule unsigned_push_bit_eq)
    then show ?thesis
      by (simp only: push_bit_eq_mult take_bit_eq_mod LB_power mult.commute) simp
  qed
  ultimately show ?thesis
    by (metis mod_mult_mult1)
qed

lemma unat_push_small:
  assumes "k \<le> 32" "2 ^ k * unat (x :: limb) < LB"
  shows "unat (push_bit k x) = 2 ^ k * unat x"
proof -
  have "LB = 2 ^ k * 2 ^ (32 - k)"
    using assms(1) by (simp add: LB_power flip: power_add)
  then have "2 ^ k * unat x < 2 ^ k * 2 ^ (32 - k)"
    using assms(2) by simp
  then have "unat x < 2 ^ (32 - k)"
    by (simp only: mult_less_cancel1)
  then show ?thesis
    using unat_push_limb [OF assms(1), of x] by simp
qed

lemma limb_and_low: "k < 32 \<Longrightarrow> unat (x AND (push_bit k 1 - 1) :: limb) = unat x mod 2 ^ k"
proof -
  have "x AND (push_bit k 1 - 1) = take_bit k x"
    by (simp add: take_bit_eq_mask mask_eq_exp_minus_1 push_bit_eq_mult)
  moreover have "unat (take_bit k x) = unat x mod 2 ^ k"
    unfolding unsigned_take_bit_eq by (rule take_bit_eq_mod)
  ultimately show ?thesis by (simp only:)
qed

section \<open>Regions of the limb memory\<close>

subsection \<open>The number a region holds\<close>

primrec mval :: "mem \<Rightarrow> ptr \<Rightarrow> nat \<Rightarrow> nat" where
  "mval m p 0 = 0"
| "mval m p (Suc n) = unat (m p) + LB * mval m (Suc p) n"

lemma mval_cong:
  "(\<And>i. i < n \<Longrightarrow> m (p + i) = m' (q + i)) \<Longrightarrow> mval m p n = mval m' q n"
proof (induction n arbitrary: p q)
  case 0
  then show ?case by simp
next
  case (Suc n)
  have "m (Suc p + i) = m' (Suc q + i)" if "i < n" for i
    using Suc.prems [of "Suc i"] that by simp
  then have "mval m (Suc p) n = mval m' (Suc q) n"
    by (rule Suc.IH)
  with Suc.prems [of 0] show ?case by simp
qed

lemma mval_high: "mval m p (Suc n) = mval m p n + LB ^ n * unat (m (p + n))"
  by (induction n arbitrary: p) (simp_all add: algebra_simps)

lemma mval_add: "mval m p (k + n) = mval m p k + LB ^ k * mval m (p + k) n"
  by (induction k arbitrary: p) (simp_all add: algebra_simps)

lemma mval_split: "k \<le> n \<Longrightarrow> mval m p n = mval m p k + LB ^ k * mval m (p + k) (n - k)"
  using mval_add [of m p k "n - k"] by simp

lemma mval_less: "mval m p n < LB ^ n"
proof (induction n arbitrary: p)
  case 0
  then show ?case by simp
next
  case (Suc n)
  have "mval m (Suc p) n + 1 \<le> LB ^ n"
    using Suc.IH [of "Suc p"] by simp
  then have "LB * (mval m (Suc p) n + 1) \<le> LB * LB ^ n"
    by (rule mult_le_mono2)
  then show ?case
    using unat_lt_LB [of "m p"] by simp
qed

text \<open>The number determines the limbs.\<close>

lemma mval_inj: "mval m p n = mval m' q n \<Longrightarrow> i < n \<Longrightarrow> m (p + i) = m' (q + i)"
proof (induction n)
  case (Suc n)
  have "unat (m (p + n)) = unat (m' (q + n)) \<and> mval m p n = mval m' q n"
  proof -
    have e: "mval m p n + LB ^ n * unat (m (p + n)) = mval m' q n + LB ^ n * unat (m' (q + n))"
      using Suc.prems(1) by (simp add: mval_high del: mval.simps)
    have "unat (m (p + n)) = (mval m p n + LB ^ n * unat (m (p + n))) div LB ^ n" using mval_less [of m p n] by simp
    also have "\<dots> = unat (m' (q + n))" unfolding e using mval_less [of m' q n] by simp
    finally show ?thesis using e by simp
  qed
  then show ?case using Suc by (cases "i = n") (auto simp: word_unat_eq_iff)
qed simp

lemma mval_upd_out [simp]: "a < p \<or> p + n \<le> a \<Longrightarrow> mval (m(a := x)) p n = mval m p n"
  by (rule mval_cong) auto

lemma mval_one [simp]: "mval m p (Suc 0) = unat (m p)"
  by simp

lemma mval_eq_0_iff: "mval m p n = 0 \<longleftrightarrow> (\<forall>i<n. m (p + i) = 0)"
proof (induction n arbitrary: p)
  case 0
  then show ?case by simp
next
  case (Suc n)
  have "(\<forall>i<Suc n. m (p + i) = 0) \<longleftrightarrow> m p = 0 \<and> (\<forall>i<n. m (Suc p + i) = 0)"
    by (auto simp: less_Suc_eq_0_disj)
  then show ?case
    by (simp add: Suc.IH unat_eq_0)
qed

lemma mval_zero [simp]: "(\<And>i. i < n \<Longrightarrow> m (p + i) = 0) \<Longrightarrow> mval m p n = 0"
  by (simp add: mval_eq_0_iff)

lemma mval_lower: "0 < n \<Longrightarrow> m (p + n - 1) \<noteq> 0 \<Longrightarrow> LB ^ (n - 1) \<le> mval m p n"
proof (cases n)
  case (Suc k)
  assume "m (p + n - 1) \<noteq> 0"
  with Suc have "0 < unat (m (p + k))"
    by (simp add: unat_gt_0)
  then have "LB ^ k * 1 \<le> LB ^ k * unat (m (p + k))"
    by (intro mult_le_mono2) simp
  then have "LB ^ k \<le> mval m p k + LB ^ k * unat (m (p + k))"
    by linarith
  with Suc show ?thesis
    by (simp add: mval_high del: mval.simps)
qed simp

subsection \<open>Frames\<close>

text \<open>\<open>only_in p n m m'\<close>: the step from \<open>m\<close> to \<open>m'\<close> writes inside \<open>{p,n}\<close> only.\<close>

definition only_in :: "ptr \<Rightarrow> nat \<Rightarrow> mem \<Rightarrow> mem \<Rightarrow> bool" where
  "only_in p n m m' \<longleftrightarrow> (\<forall>a. a < p \<or> p + n \<le> a \<longrightarrow> m' a = m a)"

lemma only_inI: "(\<And>a. a < p \<or> p + n \<le> a \<Longrightarrow> m' a = m a) \<Longrightarrow> only_in p n m m'"
  by (simp add: only_in_def)

lemma only_inD: "only_in p n m m' \<Longrightarrow> a < p \<or> p + n \<le> a \<Longrightarrow> m' a = m a"
  by (auto simp: only_in_def)

lemma only_in_refl [simp]: "only_in p n m m"
  by (simp add: only_in_def)

lemma only_in_upd [simp]: "p \<le> a \<Longrightarrow> a < p + n \<Longrightarrow> only_in p n m (m(a := x))"
  by (auto simp: only_in_def)

lemma only_in_mono: "only_in q k m m' \<Longrightarrow> p \<le> q \<Longrightarrow> q + k \<le> p + n \<Longrightarrow> only_in p n m m'"
  by (auto simp: only_in_def)

lemma only_in_trans: "only_in p n m m' \<Longrightarrow> only_in p n m' m'' \<Longrightarrow> only_in p n m m''"
  by (auto simp: only_in_def)

lemma only_in_mval:
  "only_in p n m m' \<Longrightarrow> q + k \<le> p \<or> p + n \<le> q \<Longrightarrow> mval m' q k = mval m q k"
  by (rule mval_cong) (auto simp: only_in_def)

text \<open>\<open>only_at S m m'\<close>: the step writes at addresses in \<open>S\<close> only, for operations that write in more
  than one region.\<close>

definition only_at :: "nat set \<Rightarrow> mem \<Rightarrow> mem \<Rightarrow> bool" where
  "only_at S m m' \<longleftrightarrow> (\<forall>a. a \<notin> S \<longrightarrow> m' a = m a)"

lemma only_atD: "only_at S m m' \<Longrightarrow> a \<notin> S \<Longrightarrow> m' a = m a"
  by (simp add: only_at_def)

lemma only_at_refl [simp]: "only_at S m m"
  by (simp add: only_at_def)

lemma only_at_upd: "a \<in> S \<Longrightarrow> only_at S m (m(a := x))"
  by (simp add: only_at_def)

lemma only_at_mono: "only_at S m m' \<Longrightarrow> S \<subseteq> T \<Longrightarrow> only_at T m m'"
  by (auto simp: only_at_def)

lemma only_at_trans: "only_at S m m' \<Longrightarrow> only_at S m' m'' \<Longrightarrow> only_at S m m''"
  by (auto simp: only_at_def)

lemma only_in_at: "only_in p n m m' \<Longrightarrow> {p..<p + n} \<subseteq> S \<Longrightarrow> only_at S m m'"
  by (simp add: only_in_def only_at_def subset_iff) (metis not_le)

lemma only_at_in: "only_at {p..<p + n} m m' \<longleftrightarrow> only_in p n m m'"
  by (auto simp: only_in_def only_at_def)

lemma only_at_mval: "only_at S m m' \<Longrightarrow> {q..<q + k} \<inter> S = {} \<Longrightarrow> mval m' q k = mval m q k"
  by (rule mval_cong) (simp add: only_at_def disjoint_iff)

section \<open>Overlap conditions (\<open>gmp-impl.h\<close>)\<close>

definition MPN_OVERLAP_P :: "ptr \<Rightarrow> nat \<Rightarrow> ptr \<Rightarrow> nat \<Rightarrow> bool" where
  "MPN_OVERLAP_P xp xsize yp ysize \<longleftrightarrow> xp + xsize > yp \<and> yp + ysize > xp"

definition MPN_SAME_OR_SEPARATE2_P :: "ptr \<Rightarrow> nat \<Rightarrow> ptr \<Rightarrow> nat \<Rightarrow> bool" where
  "MPN_SAME_OR_SEPARATE2_P xp xsize yp ysize \<longleftrightarrow> xp = yp \<or> \<not> MPN_OVERLAP_P xp xsize yp ysize"

definition MPN_SAME_OR_SEPARATE_P :: "ptr \<Rightarrow> ptr \<Rightarrow> nat \<Rightarrow> bool" where
  "MPN_SAME_OR_SEPARATE_P xp yp n \<longleftrightarrow> MPN_SAME_OR_SEPARATE2_P xp n yp n"

definition MPN_SAME_OR_INCR2_P :: "ptr \<Rightarrow> nat \<Rightarrow> ptr \<Rightarrow> nat \<Rightarrow> bool" where
  "MPN_SAME_OR_INCR2_P dst dsize src ssize \<longleftrightarrow> dst \<le> src \<or> \<not> MPN_OVERLAP_P dst dsize src ssize"

definition MPN_SAME_OR_INCR_P :: "ptr \<Rightarrow> ptr \<Rightarrow> nat \<Rightarrow> bool" where
  "MPN_SAME_OR_INCR_P dst src n \<longleftrightarrow> MPN_SAME_OR_INCR2_P dst n src n"

definition MPN_SAME_OR_DECR2_P :: "ptr \<Rightarrow> nat \<Rightarrow> ptr \<Rightarrow> nat \<Rightarrow> bool" where
  "MPN_SAME_OR_DECR2_P dst dsize src ssize \<longleftrightarrow> dst \<ge> src \<or> \<not> MPN_OVERLAP_P dst dsize src ssize"

definition MPN_SAME_OR_DECR_P :: "ptr \<Rightarrow> ptr \<Rightarrow> nat \<Rightarrow> bool" where
  "MPN_SAME_OR_DECR_P dst src n \<longleftrightarrow> MPN_SAME_OR_DECR2_P dst n src n"

lemmas overlap_defs = MPN_OVERLAP_P_def MPN_SAME_OR_SEPARATE2_P_def MPN_SAME_OR_SEPARATE_P_def
  MPN_SAME_OR_INCR2_P_def MPN_SAME_OR_INCR_P_def MPN_SAME_OR_DECR2_P_def MPN_SAME_OR_DECR_P_def

section \<open>Tuning thresholds (\<open>gmp-impl.h\<close>)\<close>

definition MP_SIZE_T_MAX :: nat where
  "MP_SIZE_T_MAX = 2 ^ 31 - 1"

definition ABOVE_THRESHOLD :: "nat \<Rightarrow> nat \<Rightarrow> bool" where
  "ABOVE_THRESHOLD sz thresh \<longleftrightarrow> thresh = 0 \<or> (thresh \<noteq> MP_SIZE_T_MAX \<and> sz \<ge> thresh)"

definition BELOW_THRESHOLD :: "nat \<Rightarrow> nat \<Rightarrow> bool" where
  "BELOW_THRESHOLD sz thresh \<longleftrightarrow> \<not> ABOVE_THRESHOLD sz thresh"

section \<open>Errors (\<open>gmp.h\<close>, \<open>errno.c\<close>)\<close>

datatype gmp_error = GMP_ERROR_NONE | GMP_ERROR_UNSUPPORTED_ARGUMENT | GMP_ERROR_DIVISION_BY_ZERO
  | GMP_ERROR_SQRT_OF_NEGATIVE | GMP_ERROR_INVALID_ARGUMENT | GMP_ERROR_ALLOCATE | GMP_ERROR_BAD_STRING
  | GMP_ERROR_UNUSED_ERROR

definition DIVIDE_BY_ZERO :: "gmp_error + 'a" where
  "DIVIDE_BY_ZERO = Inl GMP_ERROR_DIVISION_BY_ZERO"

end
