(* ===== verification/Longlong.thy ===== *)
theory Longlong
  imports Prelude
begin

text \<open>
  The double-limb primitives: the plain C macros of \<open>longlong.h\<close> (no assembler is configured) and
  the single-limb inverses of \<open>gmp-impl.h\<close>.  A macro that assigns several of its arguments is a
  function that returns them as a tuple, in the order of the macro's parameter list.
\<close>

section \<open>Half limbs\<close>

definition W_TYPE_SIZE :: nat where
  "W_TYPE_SIZE = 32"

definition ll_B :: limb where
  "ll_B = push_bit (W_TYPE_SIZE div 2) 1"

definition ll_lowpart :: "limb \<Rightarrow> limb" where
  "ll_lowpart t = t AND (ll_B - 1)"

definition ll_highpart :: "limb \<Rightarrow> limb" where
  "ll_highpart t = drop_bit (W_TYPE_SIZE div 2) t"

text \<open>\<open>HB\<close> is the base of a half limb.\<close>

definition HB :: nat where
  "HB = 65536"

lemma LB_HB: "LB = HB * HB"
  by (simp add: LB_def HB_def)

lemma HB_pos [simp]: "0 < HB" "HB \<noteq> 0"
  by (simp_all add: HB_def)

lemma unat_ll_B [simp]: "unat ll_B = HB"
  by (simp add: ll_B_def W_TYPE_SIZE_def HB_def)

lemma unat_lowpart: "unat (ll_lowpart t) = unat t mod HB"
proof -
  have "ll_lowpart t = take_bit 16 t"
    by (simp add: ll_lowpart_def ll_B_def W_TYPE_SIZE_def take_bit_eq_mask mask_eq_exp_minus_1)
  then have "unat (ll_lowpart t) = take_bit 16 (unat t)"
    by (simp only: unsigned_take_bit_eq)
  then show ?thesis
    by (simp add: take_bit_eq_mod HB_def)
qed

lemma unat_highpart: "unat (ll_highpart t) = unat t div HB"
  by (simp add: ll_highpart_def W_TYPE_SIZE_def HB_def drop_bit_eq_div unat_div)

lemma half_split: "unat t = HB * (unat t div HB) + unat t mod HB"
  by simp

lemma half_bounds: "unat (t :: limb) div HB < HB" "unat t mod HB < HB"
  using unat_lt_LB [of t] by (simp_all add: LB_HB less_mult_imp_div_less)

section \<open>Double-limb addition, subtraction and multiplication\<close>

definition add_ssaaaa :: "limb \<Rightarrow> limb \<Rightarrow> limb \<Rightarrow> limb \<Rightarrow> limb \<times> limb" where
  "add_ssaaaa ah al bh bl =
     (let x = al + bl
      in (ah + bh + of_bool (x < al), x))"

definition sub_ddmmss :: "limb \<Rightarrow> limb \<Rightarrow> limb \<Rightarrow> limb \<Rightarrow> limb \<times> limb" where
  "sub_ddmmss ah al bh bl =
     (let x = al - bl
      in (ah - bh - of_bool (x > al), x))"

definition umul_ppmm :: "limb \<Rightarrow> limb \<Rightarrow> limb \<times> limb" where
  "umul_ppmm u v =
     (let ul = ll_lowpart u;
          uh = ll_highpart u;
          vl = ll_lowpart v;
          vh = ll_highpart v;
          x0 = ul * vl;
          x1 = ul * vh;
          x2 = uh * vl;
          x3 = uh * vh;
          x1 = x1 + ll_highpart x0;
          x1 = x1 + x2;
          x3 = (if x1 < x2 then x3 + ll_B else x3)
      in (x3 + ll_highpart x1, push_bit (W_TYPE_SIZE div 2) x1 + ll_lowpart x0))"

text \<open>The number a pair of limbs (high, low) stands for.\<close>

definition dval :: "limb \<times> limb \<Rightarrow> nat" where
  "dval hl = LB * unat (fst hl) + unat (snd hl)"

lemma dval_pair [simp]: "dval (h, l) = LB * unat h + unat l"
  by (simp add: dval_def)

lemma dval_less: "dval hl < LB * LB"
proof -
  have "LB * (unat (fst hl) + 1) \<le> LB * LB"
    using unat_lt_LB [of "fst hl"] by (intro mult_le_mono2) simp
  then show ?thesis
    using unat_lt_LB [of "snd hl"] by (simp add: dval_def)
qed

lemma add_ssaaaa_dval:
  "dval (add_ssaaaa ah al bh bl) = (dval (ah, al) + dval (bh, bl)) mod (LB * LB)"
proof -
  let ?c = "of_bool (al + bl < al) :: nat"
  have low: "unat (al + bl) + LB * ?c = unat al + unat bl"
    by (rule add_carry)
  have high: "unat (ah + bh + of_bool (al + bl < al)) = (unat ah + unat bh + ?c) mod LB"
    by (simp add: unat_plus_limb mod_simps)
  have "dval (ah, al) + dval (bh, bl) = LB * (unat ah + unat bh + ?c) + unat (al + bl)"
    using low by (simp add: algebra_simps)
  also have "\<dots> mod (LB * LB) = LB * ((unat ah + unat bh + ?c) mod LB) + unat (al + bl)"
    using unat_lt_LB [of "al + bl"] by (simp add: mod_mult2_eq)
  finally show ?thesis
    using high by (simp add: add_ssaaaa_def Let_def)
qed

lemma sub_ddmmss_dval:
  "(dval (sub_ddmmss ah al bh bl) + dval (bh, bl)) mod (LB * LB) = dval (ah, al)"
proof -
  let ?c = "of_bool (al < al - bl) :: nat"
  let ?h = "ah - bh - of_bool (al < al - bl)"
  have low: "unat (al - bl) + unat bl = unat al + LB * ?c"
    using sub_borrow [of al bl] by (simp add: sub_borrow_iff)
  have "unat (?h + of_bool (al < al - bl) + bh) = unat ah"
    by simp
  then have high: "(unat ?h + ?c + unat bh) mod LB = unat ah"
    by (simp only: unat_plus_limb unat_of_bool_limb mod_simps)
  have "dval (sub_ddmmss ah al bh bl) + dval (bh, bl) = LB * (unat ?h + ?c + unat bh) + unat al"
    using low by (simp add: sub_ddmmss_def Let_def algebra_simps)
  also have "\<dots> mod (LB * LB) = LB * ((unat ?h + ?c + unat bh) mod LB) + unat al"
    using unat_lt_LB [of al] by (simp add: mod_mult2_eq)
  finally show ?thesis
    using high by simp
qed

lemma mult_less_HB: "a < HB \<Longrightarrow> b < HB \<Longrightarrow> a * b + 2 * (HB - 1) < HB * HB"
proof -
  assume "a < HB" "b < HB"
  then have "a * b \<le> (HB - 1) * (HB - 1)"
    by (intro mult_le_mono) simp_all
  then show ?thesis
    by (simp add: HB_def)
qed

lemma umul_ppmm_correct: "dval (umul_ppmm u v) = unat u * unat v"
proof -
  define ul uh vl vh where "ul = ll_lowpart u" "uh = ll_highpart u" "vl = ll_lowpart v" "vh = ll_highpart v"
  note parts = this
  have b: "unat ul < HB" "unat uh < HB" "unat vl < HB" "unat vh < HB"
    by (simp_all add: parts unat_lowpart unat_highpart half_bounds)
  have x0: "unat (ul * vl) = unat ul * unat vl" and x1: "unat (ul * vh) = unat ul * unat vh"
    and x2: "unat (uh * vl) = unat uh * unat vl" and x3: "unat (uh * vh) = unat uh * unat vh"
    using b mult_less_HB [of "unat ul" "unat vl"] mult_less_HB [of "unat ul" "unat vh"]
      mult_less_HB [of "unat uh" "unat vl"] mult_less_HB [of "unat uh" "unat vh"]
    by (simp_all add: unat_times_limb LB_HB)
  define y1 where "y1 = ul * vh + ll_highpart (ul * vl)"
  have y1: "unat y1 = unat ul * unat vh + unat ul * unat vl div HB"
    using half_bounds(1) [of "ul * vl"] mult_less_HB [OF b(1) b(4)]
    by (simp add: y1_def unat_plus_limb x1 unat_highpart x0 LB_HB)
  define c :: nat where "c = of_bool (y1 + uh * vl < uh * vl)"
  define z1 where "z1 = y1 + uh * vl"
  have z1: "unat z1 + LB * c = unat y1 + unat uh * unat vl"
    using add_carry' [of y1 "uh * vl"] by (simp add: z1_def c_def x2)
  define z3 where "z3 = (if z1 < uh * vl then uh * vh + ll_B else uh * vh)"
  have z3: "unat z3 = unat uh * unat vh + c * HB"
    using mult_less_HB [OF b(2) b(4)]
    by (simp add: z3_def z1_def c_def unat_plus_limb x3 LB_HB HB_def)
  have eq: "umul_ppmm u v = (z3 + ll_highpart z1, push_bit 16 z1 + ll_lowpart (ul * vl))"
    by (simp add: umul_ppmm_def Let_def parts z3_def z1_def y1_def W_TYPE_SIZE_def)
  have low: "unat (push_bit 16 z1 + ll_lowpart (ul * vl)) = HB * (unat z1 mod HB) + unat ul * unat vl mod HB"
  proof -
    have "unat (push_bit 16 z1) = HB * (unat z1 mod HB)"
    proof -
      have "unat (push_bit 16 z1) = (HB * unat z1) mod (HB * HB)"
        by (simp add: push_bit_eq_mult unat_times_limb LB_HB HB_def mult.commute)
      then show ?thesis
        by (simp only: mod_mult_mult1)
    qed
    moreover have "HB * (unat z1 mod HB) + unat ul * unat vl mod HB < LB"
    proof -
      have "HB * (unat z1 mod HB + 1) \<le> HB * HB"
        by (intro mult_le_mono2) (simp add: Suc_leI)
      moreover have "unat ul * unat vl mod HB < HB" by simp
      ultimately show ?thesis unfolding LB_HB by (simp only: distrib_left mult_1_right)
    qed
    ultimately show ?thesis
      by (simp add: unat_plus_limb unat_lowpart x0)
  qed
  have prod: "unat u * unat v = HB * HB * (unat uh * unat vh) + HB * (unat ul * unat vh + unat uh * unat vl) + unat ul * unat vl"
  proof -
    have "unat u = HB * unat uh + unat ul" "unat v = HB * unat vh + unat vl"
      by (simp_all add: parts unat_lowpart unat_highpart)
    then show ?thesis by (simp add: algebra_simps)
  qed
  have sum: "HB * HB * (unat z3 + unat z1 div HB) + (HB * (unat z1 mod HB) + unat ul * unat vl mod HB) = unat u * unat v"
  proof -
    let ?a = "unat z1 div HB" and ?b = "unat z1 mod HB" and ?p0 = "unat ul * unat vl"
    have "HB * HB * (unat z3 + ?a) + (HB * ?b + ?p0 mod HB) =
        HB * HB * (unat uh * unat vh) + HB * ((HB * ?a + ?b) + HB * HB * c) + ?p0 mod HB"
      unfolding z3 by (simp only: algebra_simps)
    also have "(HB * ?a + ?b) + HB * HB * c = unat y1 + unat uh * unat vl"
      using z1 by (simp add: LB_HB)
    also have "HB * HB * (unat uh * unat vh) + HB * (unat y1 + unat uh * unat vl) + ?p0 mod HB =
        HB * HB * (unat uh * unat vh) + HB * (unat ul * unat vh + unat uh * unat vl) + (HB * (?p0 div HB) + ?p0 mod HB)"
      unfolding y1 by (simp only: algebra_simps)
    finally show ?thesis
      unfolding prod by (simp only: mult_div_mod_eq add.assoc)
  qed
  have "unat z3 + unat z1 div HB < LB"
  proof -
    have "unat u * unat v < LB * LB"
      by (intro mult_strict_mono) (simp_all add: unat_lt_LB)
    then have "LB * (unat z3 + unat z1 div HB) < LB * LB"
      using sum unfolding LB_HB by linarith
    then show ?thesis by simp
  qed
  then have "unat (z3 + ll_highpart z1) = unat z3 + unat z1 div HB"
    by (simp add: unat_plus_limb unat_highpart)
  with low sum show ?thesis
    by (simp add: eq LB_HB)
qed

section \<open>Division of a double limb by a limb\<close>

text \<open>One half-limb step of \<open>__udiv_qrnnd_c\<close>: the macro has it twice, once with the high half of
  \<open>n0\<close> and once with the low half.\<close>

definition udiv_qrnnd_c_half :: "limb \<Rightarrow> limb \<Rightarrow> limb \<Rightarrow> limb \<times> limb" where
  "udiv_qrnnd_c_half n1 k d =
     (let d1 = ll_highpart d;
          d0 = ll_lowpart d;
          q = n1 div d1;
          r = n1 - q * d1;
          m = q * d0;
          r = r * ll_B OR k;
          (q, r) =
            (if r < m
             then (let q = q - 1; r = r + d
                   in if r \<ge> d then if r < m then (q - 1, r + d) else (q, r) else (q, r))
             else (q, r))
      in (q, r - m))"

definition udiv_qrnnd_c :: "limb \<Rightarrow> limb \<Rightarrow> limb \<Rightarrow> limb \<times> limb" where
  "udiv_qrnnd_c n1 n0 d =
     (let (q1, r1) = udiv_qrnnd_c_half n1 (ll_highpart n0) d;
          (q0, r0) = udiv_qrnnd_c_half r1 (ll_lowpart n0) d
      in (q1 * ll_B OR q0, r0))"

text \<open>\<open>#define udiv_qrnnd __udiv_qrnnd_c\<close>, and \<open>UDIV_NEEDS_NORMALIZATION\<close> is 1.\<close>

abbreviation udiv_qrnnd :: "limb \<Rightarrow> limb \<Rightarrow> limb \<Rightarrow> limb \<times> limb" where
  "udiv_qrnnd \<equiv> udiv_qrnnd_c"

lemma mult_ll_B: "x * ll_B = push_bit 16 x"
  by (simp add: ll_B_def W_TYPE_SIZE_def push_bit_eq_mult)

lemma unat_half_join:
  assumes "unat x < HB" "unat y < HB"
  shows "unat (x * ll_B OR y) = unat x * HB + unat y"
  using assms by (simp add: mult_ll_B unat_push_or unat_push_limb HB_def)

lemma udiv_half_estimate:
  assumes "N < d1 * HB + d0" "d0 < HB" "HB \<le> 2 * d1" "d1 < HB"
  shows "N div d1 * d0 < LB"
proof -
  have d1: "0 < d1" using assms(3) by (auto simp: HB_def)
  have "N < d1 * (HB + 2)"
    using assms by (simp add: algebra_simps)
  then have "N div d1 \<le> HB + 1"
    using d1 less_mult_imp_div_less [of N "HB + 2" d1] by (simp add: mult.commute)
  moreover have "d0 \<le> HB - 1"
    using assms(2) by linarith
  ultimately have "N div d1 * d0 \<le> (HB + 1) * (HB - 1)"
    by (rule mult_le_mono)
  then show ?thesis
    by (simp add: LB_def HB_def)
qed

text \<open>The half step returns the quotient and remainder of \<open>n1 * HB + k\<close> by \<open>d\<close>.\<close>

lemma udiv_qrnnd_c_half_correct:
  assumes norm: "LB \<le> 2 * unat d" and lt: "n1 < d" and k: "unat k < HB"
    and eq: "udiv_qrnnd_c_half n1 k d = (q, r)"
  shows "unat q * unat d + unat r = unat n1 * HB + unat k \<and> unat r < unat d"
proof -
  define d1 where "d1 = ll_highpart d"
  define d0 where "d0 = ll_lowpart d"
  define D D1 D0 N where "D = unat d" and "D1 = unat d1" and "D0 = unat d0" and "N = unat n1"
  note defs = d1_def d0_def D_def D1_def D0_def N_def
  have D: "D = D1 * HB + D0" and D0: "D0 < HB" and D1: "D1 < HB"
    by (simp_all add: defs unat_lowpart unat_highpart half_bounds)
  have D1': "HB \<le> 2 * D1"
    using norm D0 D by (simp add: D_def LB_HB HB_def)
  define Q where "Q = N div D1"
  define R where "R = (N mod D1) * HB + unat k"
  define M where "M = Q * D0"
  have N: "N < D"
    using lt by (simp add: defs limb_less_iff)
  have M: "M < LB"
    unfolding M_def Q_def by (rule udiv_half_estimate [OF _ D0 D1' D1]) (use N D in simp)
  have RD: "R < D1 * HB"
  proof -
    have "(N mod D1 + 1) * HB \<le> D1 * HB"
      using D1' by (intro mult_le_mono1) (simp add: Suc_leI HB_def)
    then show ?thesis
      using k by (simp add: R_def)
  qed
  have DL: "D < LB"
    by (simp add: D_def unat_lt_LB)
  have uq: "unat (n1 div d1) = Q"
    by (simp add: unat_div Q_def defs)
  have ur0: "unat (n1 - n1 div d1 * d1) = N mod D1"
  proof -
    have "N div D1 * D1 \<le> N" by simp
    also have "N < LB" by (simp add: N_def unat_lt_LB)
    finally have "unat (n1 div d1 * d1) = N div D1 * D1"
      by (simp add: unat_times_limb unat_div flip: N_def D1_def)
    then show ?thesis
      by (simp add: unat_minus_if N_def [symmetric] modulo_nat_def mult.commute)
  qed
  define m where "m = n1 div d1 * d0"
  define x where "x = (n1 - n1 div d1 * d1) * ll_B OR k"
  have um: "unat m = M"
    using M by (simp add: m_def unat_times_limb uq M_def D0_def)
  have ux: "unat x = R"
  proof -
    have "0 < D1"
      using D1' by (simp add: HB_def)
    then have "N mod D1 < D1"
      by (rule mod_less_divisor)
    with D1 have "N mod D1 < HB" by linarith
    then show ?thesis
      using k by (simp add: x_def unat_half_join ur0 R_def)
  qed
  have key: "N * HB + unat k + M = Q * D + R"
  proof -
    have "N * HB + unat k = (Q * D1 + N mod D1) * HB + unat k"
      by (simp add: Q_def)
    then show ?thesis
      by (simp add: M_def R_def D algebra_simps)
  qed
  let ?q = "n1 div d1"
  have res: "udiv_qrnnd_c_half n1 k d =
      (if x < m
       then if x + d \<ge> d
            then if x + d < m then (?q - 1 - 1, x + d + d - m) else (?q - 1, x + d - m)
            else (?q - 1, x + d - m)
       else (?q, x - m))"
    by (simp add: udiv_qrnnd_c_half_def Let_def d1_def d0_def m_def x_def)
  consider (exact) "M \<le> R" | (one) "R < M" "M \<le> R + D" | (two) "R + D < M"
    by linarith
  then show ?thesis
  proof cases
    case exact
    then have "q = ?q" "r = x - m"
      using eq res by (simp_all add: limb_less_iff ux um)
    then have "unat q = Q" "unat r = R - M"
      using exact by (simp_all add: uq unat_minus_if ux um)
    moreover have "Q * D + (R - M) = N * HB + unat k" "R - M < D"
      using key exact RD D by linarith+
    ultimately show ?thesis
      by (simp flip: D_def N_def)
  next
    case one
    have "\<not> (x + d \<ge> d \<and> x + d < m)"
      using one M by (auto simp: limb_less_iff limb_le_iff unat_plus_if ux um simp flip: D_def)
    then have q: "q = ?q - 1" and r: "r = x + d - m"
      using eq res one by (auto simp: limb_less_iff ux um split: if_splits)
    have "Q \<noteq> 0"
      using one by (cases Q) (auto simp: M_def)
    then have uq1: "unat q = Q - 1"
      by (simp add: q unat_minus_if uq)
    have ur: "unat r = R + D - M"
      by (rule unat_eqI [of _ m "x + d"]) (use one DL in \<open>simp_all add: r unat_plus_limb ux um D_def\<close>)
    obtain Q' where "Q = Suc Q'"
      using \<open>Q \<noteq> 0\<close> not0_implies_Suc by blast
    with key have "N * HB + unat k + M = D + Q' * D + R" "unat q = Q'"
      by (simp_all add: uq1)
    moreover from this one have "Q' * D + (R + D - M) = N * HB + unat k" "R + D - M < D"
      by linarith+
    ultimately show ?thesis
      by (simp add: ur flip: D_def N_def)
  next
    case two
    then have nc: "R + D < LB"
      using M by simp
    then have "x < m" "x + d \<ge> d" "x + d < m"
      using two by (simp_all add: limb_less_iff limb_le_iff unat_plus_if ux um flip: D_def)
    then have q: "q = ?q - 1 - 1" and r: "r = x + d + d - m"
      using eq res by simp_all
    have Q2: "2 \<le> Q"
    proof (rule ccontr)
      assume "\<not> 2 \<le> Q"
      then have "Q * D \<le> 1 * D"
        by (intro mult_le_mono1) linarith
      then show False
        using key two by linarith
    qed
    have uq2: "unat q = Q - 2"
      using Q2 by (simp add: q unat_minus_if uq)
    have ux2: "unat (x + d + d) = (R + D + D) mod LB"
      by (simp only: unat_plus_limb mod_simps ux D_def)
    have ur: "unat r = R + D + D - M"
    proof (rule unat_eqI [of _ m "x + d + d"])
      show "R + D + D - M < LB"
        using two M DL by linarith
      have "R + D + D - M + unat m = R + D + D"
        using two M norm um unfolding D_def by linarith
      then show "(R + D + D - M + unat m) mod LB = unat (x + d + d)"
        unfolding ux2 by (rule arg_cong)
    qed (simp add: r)
    obtain Q' where "Q = Suc (Suc Q')"
      using Q2 by (metis Suc_le_D Suc_le_mono numeral_2_eq_2)
    with key have "N * HB + unat k + M = D + (D + Q' * D) + R" "unat q = Q'"
      by (simp_all add: uq2)
    moreover from this two M norm have "Q' * D + (R + D + D - M) = N * HB + unat k" "R + D + D - M < D"
      unfolding D_def [symmetric] by linarith+
    ultimately show ?thesis
      by (simp add: ur flip: D_def N_def)
  qed
qed

lemma udiv_qrnnd_c_half_quotient:
  fixes n1 d k q r :: limb
  assumes "unat q * unat d + unat r = unat n1 * HB + unat k" "n1 < d" "unat k < HB"
  shows "unat q < HB"
proof -
  have "(unat n1 + 1) * HB \<le> unat d * HB"
    using assms(2) unfolding limb_less_iff by (intro mult_le_mono1) linarith
  then have "unat n1 * HB + HB \<le> unat d * HB"
    by (simp only: add_mult_distrib mult_1)
  then have "unat q * unat d < unat d * HB"
    using assms(1,3) by linarith
  then show ?thesis
    by (simp add: mult.commute)
qed

theorem udiv_qrnnd_c_correct:
  assumes norm: "LB \<le> 2 * unat d" and lt: "n1 < d"
    and eq: "udiv_qrnnd_c n1 n0 d = (q, r)"
  shows "unat q * unat d + unat r = dval (n1, n0)" and "r < d"
proof -
  obtain q1 r1 where h1: "udiv_qrnnd_c_half n1 (ll_highpart n0) d = (q1, r1)"
    by fastforce
  obtain q0 r0 where h0: "udiv_qrnnd_c_half r1 (ll_lowpart n0) d = (q0, r0)"
    by fastforce
  have k: "unat (ll_highpart n0) < HB" "unat (ll_lowpart n0) < HB"
    by (simp_all add: unat_highpart unat_lowpart half_bounds)
  have s1: "unat q1 * unat d + unat r1 = unat n1 * HB + unat (ll_highpart n0)" "unat r1 < unat d"
    using udiv_qrnnd_c_half_correct [OF norm lt k(1) h1] by simp_all
  then have lt1: "r1 < d"
    by (simp add: limb_less_iff)
  have s0: "unat q0 * unat d + unat r0 = unat r1 * HB + unat (ll_lowpart n0)" "unat r0 < unat d"
    using udiv_qrnnd_c_half_correct [OF norm lt1 k(2) h0] by simp_all
  have q: "q = q1 * ll_B OR q0" "r = r0"
    using eq by (simp_all add: udiv_qrnnd_c_def h1 h0)
  have uq: "unat q = unat q1 * HB + unat q0"
    using udiv_qrnnd_c_half_quotient [OF s1(1) lt k(1)] udiv_qrnnd_c_half_quotient [OF s0(1) lt1 k(2)]
    by (simp add: q unat_half_join)
  have "unat q * unat d + unat r = HB * (unat q1 * unat d) + (unat q0 * unat d + unat r0)"
    unfolding uq q(2) by (simp add: algebra_simps)
  also have "\<dots> = HB * (unat q1 * unat d + unat r1) + unat (ll_lowpart n0)"
    unfolding s0(1) by (simp only: algebra_simps)
  also have "\<dots> = HB * HB * unat n1 + (HB * unat (ll_highpart n0) + unat (ll_lowpart n0))"
    unfolding s1(1) by (simp only: algebra_simps)
  also have "HB * unat (ll_highpart n0) + unat (ll_lowpart n0) = unat n0"
    by (simp add: unat_highpart unat_lowpart)
  finally show "unat q * unat d + unat r = dval (n1, n0)"
    by (simp add: LB_HB)
  show "r < d"
    using s0 by (simp add: q limb_less_iff)
qed

section \<open>Division by a precomputed inverse (\<open>gmp-impl.h\<close>)\<close>

definition invert_limb :: "limb \<Rightarrow> limb" where
  "invert_limb xl = (if push_bit 1 xl = 0 then NOT 0 else fst (udiv_qrnnd (- xl) 0 xl))"

definition udiv_qrnnd_preinv :: "limb \<Rightarrow> limb \<Rightarrow> limb \<Rightarrow> limb \<Rightarrow> limb \<times> limb" where
  "udiv_qrnnd_preinv nh nl d di =
     (let (q, ql) = umul_ppmm nh di;
          q = q + nh;
          (xh, xl) = umul_ppmm q d;
          (xh, r) = sub_ddmmss nh nl xh xl;
          (q, r) =
            (if xh \<noteq> 0
             then (let (xh, r) = sub_ddmmss xh r 0 d;
                       q = q + 1
                   in if xh \<noteq> 0 then (q + 1, r - d) else (q, r))
             else (q, r));
          (q, r) = (if r \<ge> d then (q + 1, r - d) else (q, r))
      in (q, r))"

text \<open>What the comment on \<open>udiv_qrnnd_preinv\<close> asks of \<open>di\<close>: \<open>LB + di\<close> is the largest number whose
  product with \<open>d\<close> stays below \<open>LB * LB\<close>.\<close>

definition is_inverse :: "limb \<Rightarrow> limb \<Rightarrow> bool" where
  "is_inverse di d \<longleftrightarrow> unat d * (LB + unat di) < LB * LB \<and> LB * LB \<le> unat d * (LB + unat di + 1)"

lemma push_1_eq_0_iff: "push_bit 1 (x :: limb) = 0 \<longleftrightarrow> 2 * unat x mod LB = 0"
proof -
  have "push_bit 1 x = 0 \<longleftrightarrow> unat (push_bit 1 x) = 0"
    by (simp add: unat_eq_0)
  also have "unat (push_bit 1 x) = 2 * (unat x mod (LB div 2))"
    using unat_push_limb [of 1 x] by (simp only: LB_def) simp
  also have "2 * (unat x mod (LB div 2)) = 2 * unat x mod LB"
    by (simp add: mult_mod_right LB_def)
  finally show ?thesis .
qed

lemma dvd_power_two: "(d :: nat) dvd 2 ^ n \<Longrightarrow> \<exists>k\<le>n. d = 2 ^ k"
proof (induction n arbitrary: d)
  case 0
  then show ?case by simp
next
  case (Suc n)
  show ?case
  proof (cases "even d")
    case True
    then obtain c where c: "d = 2 * c" by (rule evenE)
    with Suc.prems have "c dvd 2 ^ n" by simp
    then obtain k where "k \<le> n" "c = 2 ^ k" using Suc.IH by blast
    with c show ?thesis by (intro exI [of _ "Suc k"]) simp
  next
    case False
    then have "coprime d (2 ^ Suc n)" by simp
    then have "coprime d d" using Suc.prems by (rule coprime_divisors [OF dvd_refl, rotated])
    then show ?thesis by (intro exI [of _ 0]) simp
  qed
qed

lemma invert_limb_correct:
  assumes norm: "LB \<le> 2 * unat d"
  shows "is_inverse (invert_limb d) d"
proof (cases "push_bit 1 d = 0")
  case True
  have "LB dvd 2 * unat d"
    using True unfolding push_1_eq_0_iff by (rule mod_0_imp_dvd)
  then obtain k where k: "2 * unat d = LB * k"
    by (rule dvdE)
  have "LB * k < LB * 2" "LB * 1 \<le> LB * k"
    using norm unat_lt_LB [of d] by (simp_all flip: k)
  then have "k < 2" "1 \<le> k"
    by (simp_all only: mult_less_cancel1 mult_le_cancel1 LB_gt simp_thms)
  with k have d: "2 * unat d = LB"
    by (cases k) auto
  have "invert_limb d = NOT 0"
    unfolding invert_limb_def using True by (rule if_P)
  then have "unat (invert_limb d) = LB - 1"
    by (simp add: LB_def unsigned_minus_1_eq_mask mask_eq_exp_minus_1)
  then show ?thesis
    using d by (simp add: is_inverse_def LB_def)
next
  case False
  obtain q r where eq: "udiv_qrnnd (- d) 0 d = (q, r)"
    by fastforce
  have inv: "invert_limb d = q"
    unfolding invert_limb_def using False by (simp only: if_False eq fst_conv)
  have d0: "d \<noteq> 0" using norm by auto
  have ne: "2 * unat d \<noteq> LB"
    using False unfolding push_1_eq_0_iff by (metis mod_self)
  have um: "unat (- d) = LB - unat d"
    using unat_minus_if [of 0 d] d0 by (simp add: unat_eq_0)
  have lt: "- d < d"
    using norm ne by (simp add: limb_less_iff um)
  have div: "unat q * unat d + unat r = LB * (LB - unat d)" "r < d"
    using udiv_qrnnd_c_correct [OF norm lt eq] by (simp_all add: um)
  have r: "unat r < unat d"
    using div(2) by (simp add: limb_less_iff)
  have tot: "unat d * (LB + unat q) + unat r = LB * LB"
  proof -
    have "unat d * (LB + unat q) + unat r = LB * unat d + LB * (LB - unat d)"
      using div(1) by (simp add: algebra_simps)
    also have "\<dots> = LB * (unat d + (LB - unat d))"
      by (rule distrib_left [symmetric])
    finally show ?thesis
      using unat_lt_LB [of d] by simp
  qed
  have "unat r \<noteq> 0"
  proof
    assume "unat r = 0"
    with tot have "unat d dvd LB * LB" by (metis add_0_right dvd_triv_left)
    then have "unat d dvd 2 ^ 64" by (simp add: LB_def)
    then obtain k where k: "unat d = 2 ^ k" "k \<le> 64"
      using dvd_power_two by blast
    have "2 ^ k < (2::nat) ^ 32" "(2::nat) ^ 31 \<le> 2 ^ k"
      using unat_lt_LB [of d] norm by (simp_all add: k(1) LB_def)
    then have "k < 32" "31 \<le> k"
      by (simp_all only: power_strict_increasing_iff power_increasing_iff one_less_numeral_iff semiring_norm)
    then have "k = 31" by simp
    with k ne show False by (simp add: LB_def)
  qed
  then show ?thesis
    using tot r by (simp add: is_inverse_def inv algebra_simps)
qed

text \<open>The estimate \<open>floor (nh * (LB + di) / LB)\<close> is at most three below the quotient, and the partial
  remainder it leaves is below \<open>LB + 2 * d\<close>.\<close>

lemma preinv_estimate:
  fixes nh nl d di q :: nat
  assumes inv: "d * (LB + di) < LB * LB" "LB * LB \<le> d * (LB + di + 1)"
    and nh: "nh < d" and nl: "nl < LB" and d: "d < LB"
    and q: "q = nh * di div LB + nh"
  shows "q * d \<le> LB * nh + nl" and "LB * nh + nl < q * d + LB + 2 * d"
proof -
  define t where "t = nh * di mod LB"
  define e where "e = LB * LB - d * (LB + di)"
  have qv: "LB * q + t = nh * (LB + di)"
    by (simp add: q t_def algebra_simps)
  have e: "d * (LB + di) + e = LB * LB" "e \<le> d"
    using inv by (simp_all add: e_def algebra_simps)
  have t: "t < LB" by (simp add: t_def)
  have "LB * (q * d) + d * t = nh * (d * (LB + di))"
    using arg_cong [OF qv, of "\<lambda>x. d * x"] by (simp add: algebra_simps)
  then have main: "LB * (LB * nh + nl) = LB * (q * d) + (LB * nl + nh * e + d * t)"
    using arg_cong [OF e(1), of "\<lambda>x. nh * x"] by (simp add: algebra_simps)
  then have "LB * (q * d) \<le> LB * (LB * nh + nl)"
    by linarith
  then show "q * d \<le> LB * nh + nl"
    by simp
  have "nh * e \<le> LB * d"
    using nh d e(2) by (intro mult_le_mono) simp_all
  moreover have "d * t \<le> LB * d"
    using t by (simp add: mult.commute mult_le_mono)
  moreover have "LB * nl < LB * LB"
    using nl by simp
  ultimately have "LB * (LB * nh + nl) < LB * (q * d) + (LB * LB + LB * d + LB * d)"
    unfolding main by linarith
  then have "LB * (LB * nh + nl) < LB * (q * d + LB + 2 * d)"
    by (simp add: algebra_simps)
  then show "LB * nh + nl < q * d + LB + 2 * d"
    by (simp only: mult_less_cancel1)
qed

text \<open>\<open>sub_ddmmss\<close> without wrap-around subtracts.\<close>

lemma sub_ddmmss_exact:
  "dval (bh, bl) \<le> dval (ah, al) \<Longrightarrow> dval (sub_ddmmss ah al bh bl) = dval (ah, al) - dval (bh, bl)"
proof -
  assume le: "dval (bh, bl) \<le> dval (ah, al)"
  let ?x = "dval (sub_ddmmss ah al bh bl)" and ?b = "dval (bh, bl)" and ?a = "dval (ah, al)"
  have lt: "?x < LB * LB" "?b < LB * LB" "?a < LB * LB"
    by (rule dval_less)+
  have "(?x + ?b) mod (LB * LB) = ?a"
    by (rule sub_ddmmss_dval)
  then have "?x + ?b = ?a"
    using lt le by (auto simp: mod_if split: if_splits)
  then show ?thesis by simp
qed

theorem udiv_qrnnd_preinv_correct:
  assumes norm: "LB \<le> 2 * unat d" and lt: "nh < d" and inv: "is_inverse di d"
    and eq: "udiv_qrnnd_preinv nh nl d di = (q, r)"
  shows "unat q * unat d + unat r = dval (nh, nl)" and "r < d"
proof -
  define N D where "N = dval (nh, nl)" and "D = unat d"
  have D: "LB \<le> 2 * D" "D < LB"
    using norm by (simp_all add: D_def unat_lt_LB)
  define qe where "qe = fst (umul_ppmm nh di) + nh"
  define Q where "Q = unat nh * unat di div LB + unat nh"
  have est: "Q * D \<le> N" "N < Q * D + LB + 2 * D"
    using preinv_estimate [of "unat d" "unat di" "unat nh" "unat nl" Q] inv lt
    by (simp_all add: is_inverse_def limb_less_iff unat_lt_LB Q_def N_def D_def)
  have ND: "N < D * LB"
  proof -
    have "LB * (unat nh + 1) \<le> LB * D"
      using lt unfolding D_def limb_less_iff by (intro mult_le_mono2) linarith
    then show ?thesis
      using unat_lt_LB [of nl] by (simp add: N_def mult.commute)
  qed
  have QL: "Q < LB"
  proof -
    have "Q * D < LB * D"
      using est(1) ND unfolding mult.commute [of LB] by linarith
    then show ?thesis by simp
  qed
  have mulhi: "unat (fst (umul_ppmm nh di)) = unat nh * unat di div LB"
  proof -
    have "dval (umul_ppmm nh di) = unat nh * unat di" by (rule umul_ppmm_correct)
    then have "(LB * unat (fst (umul_ppmm nh di)) + unat (snd (umul_ppmm nh di))) div LB = unat nh * unat di div LB"
      by (simp add: dval_def)
    then show ?thesis
      by (simp add: unat_lt_LB)
  qed
  have uq: "unat qe = Q"
    using QL by (simp add: qe_def unat_plus_limb mulhi Q_def)
  define x where "x = umul_ppmm qe d"
  have ux: "dval x = Q * D"
    by (simp add: x_def umul_ppmm_correct uq D_def)
  define y where "y = sub_ddmmss nh nl (fst x) (snd x)"
  have uy: "dval y = N - Q * D"
    using sub_ddmmss_exact [of "fst x" "snd x" nh nl] ux est(1) by (simp add: y_def N_def)
  define z where "z = sub_ddmmss (fst y) (snd y) 0 d"
  have uz: "dval z = N - Q * D - D" if "fst y \<noteq> 0"
  proof -
    have "0 < unat (fst y)" using that by (simp add: unat_gt_0)
    then have "LB * 1 \<le> LB * unat (fst y)" by (intro mult_le_mono2) simp
    then have "D \<le> dval y" using D unfolding dval_def by linarith
    then show ?thesis
      using sub_ddmmss_exact [of 0 d "fst y" "snd y"] uy by (simp add: z_def D_def)
  qed
  define w where "w = (if fst y \<noteq> 0 then if fst z \<noteq> 0 then (qe + 1 + 1, snd z - d) else (qe + 1, snd z) else (qe, snd y))"
  have res: "(q, r) = (if snd w \<ge> d then (fst w + 1, snd w - d) else w)"
    unfolding eq [symmetric] udiv_qrnnd_preinv_def Let_def
    by (simp add: w_def z_def y_def x_def qe_def case_prod_beta)
  have le: "LB * unat (fst p) \<le> dval p" "fst p = 0 \<Longrightarrow> dval p = unat (snd p)" for p
    by (simp_all add: dval_def)
  have big: "LB \<le> dval p" if "fst p \<noteq> 0" for p
  proof -
    have "LB * 1 \<le> LB * unat (fst p)"
      using that by (intro mult_le_mono2) (simp add: Suc_leI unat_gt_0)
    with le(1) [of p] show ?thesis by linarith
  qed
  have fit: "Q + k < LB" if "(Q + k) * D \<le> N" for k
  proof -
    have "(Q + k) * D < LB * D"
      using that ND unfolding mult.commute [of LB] by linarith
    then show ?thesis by simp
  qed
  have mid: "\<exists>k. Q + k < LB \<and> unat (fst w) = Q + k \<and> (Q + k) * D + unat (snd w) = N \<and> unat (snd w) < 2 * D"
  proof -
    consider (zero) "fst y = 0" | (one) "fst y \<noteq> 0" "fst z = 0" | (two) "fst y \<noteq> 0" "fst z \<noteq> 0"
      by blast
    then show ?thesis
    proof cases
      case zero
      then have "w = (qe, snd y)" "unat (snd y) = N - Q * D"
        using uy le(2) [of y] by (simp_all add: w_def)
      then show ?thesis
        using est(1) D(1) unat_lt_LB [of "snd y"] QL uq by (intro exI [of _ 0]) (simp del: unat_eq_0)
    next
      case one
      then have w: "w = (qe + 1, snd z)" and s: "unat (snd z) = N - Q * D - D"
        using uz le(2) [of z] by (simp_all add: w_def)
      have "D \<le> N - Q * D"
        using big [OF one(1)] uy D by linarith
      then have tot: "(Q + 1) * D + unat (snd z) = N"
        using s est(1) by (simp add: add_mult_distrib)
      then have f: "Q + 1 < LB"
        by (intro fit) linarith
      then have "unat (qe + 1) = Q + 1"
        by (simp add: unat_plus_limb uq)
      with w tot f show ?thesis
        using D(1) unat_lt_LB [of "snd z"] by (intro exI [of _ 1]) simp
    next
      case two
      then have w: "w = (qe + 1 + 1, snd z - d)"
        by (simp add: w_def)
      have zb: "LB \<le> N - Q * D - D"
        using big [OF two(2)] uz [OF two(1)] by simp
      have zv: "LB * unat (fst z) + unat (snd z) = N - Q * D - D"
        using uz [OF two(1)] by (simp add: dval_def)
      have "LB * unat (fst z) < LB * 2"
        using zv est(2) D by linarith
      then have "unat (fst z) = 1"
        using two(2) unat_gt_0 [of "fst z"] by simp
      with zv have sz: "unat (snd z) + LB = N - Q * D - D"
        by simp
      then have s: "unat (snd z - d) = N - Q * D - D - D"
        using est(2) D zb by (simp add: unat_minus_if flip: D_def)
      have tot: "(Q + 2) * D + unat (snd z - d) = N"
        using s zb D by (simp add: add_mult_distrib)
      then have f: "Q + 2 < LB"
        by (intro fit) linarith
      then have "unat (qe + 1 + 1) = Q + 2"
        by (simp add: unat_plus_limb uq mod_simps)
      with w tot f show ?thesis
        using D(1) unat_lt_LB [of "snd z - d"] by (intro exI [of _ 2]) simp
    qed
  qed
  then obtain k where k: "Q + k < LB" "unat (fst w) = Q + k" "(Q + k) * D + unat (snd w) = N"
      "unat (snd w) < 2 * D"
    by blast
  have "unat q * D + unat r = N \<and> unat r < D"
  proof (cases "snd w \<ge> d")
    case True
    then have qr: "q = fst w + 1" "r = snd w - d" and ge: "D \<le> unat (snd w)"
      using res by (simp_all add: limb_le_iff D_def)
    have ur: "unat r = unat (snd w) - D"
      using True by (simp add: qr unat_minus_limb D_def)
    have tot: "(Q + (k + 1)) * D + unat r = N"
      using k(3) ge ur by (simp add: add_mult_distrib)
    then have "Q + (k + 1) < LB"
      by (intro fit) linarith
    then have "unat q = Q + (k + 1)"
      by (simp add: qr unat_plus_limb k(2))
    with tot ur k(4) ge show ?thesis
      by (simp del: unat_eq_0)
  next
    case False
    then have "q = fst w" "r = snd w" "unat r < D"
      using res by (cases w; simp add: limb_le_iff D_def)+
    with k show ?thesis by simp
  qed
  then show "unat q * unat d + unat r = dval (nh, nl)" and "r < d"
    unfolding D_def N_def limb_less_iff by blast+
qed

section \<open>Counting zero bits\<close>

text \<open>\<open>__clz_tab\<close> (\<open>mp_clz_tab.c\<close>).\<close>

definition clz_tab :: "limb list" where
  "clz_tab =
  [1,2,3,3,4,4,4,4,5,5,5,5,5,5,5,5,6,6,6,6,6,6,6,6,6,6,6,6,6,6,6,6,
   7,7,7,7,7,7,7,7,7,7,7,7,7,7,7,7,7,7,7,7,7,7,7,7,7,7,7,7,7,7,7,7,
   8,8,8,8,8,8,8,8,8,8,8,8,8,8,8,8,8,8,8,8,8,8,8,8,8,8,8,8,8,8,8,8,
   8,8,8,8,8,8,8,8,8,8,8,8,8,8,8,8,8,8,8,8,8,8,8,8,8,8,8,8,8,8,8,8]"

text \<open>\<open>__BITS4\<close> is \<open>W_TYPE_SIZE / 4 = 8\<close>; only the \<open>W_TYPE_SIZE == 32\<close> branch is compiled.\<close>

definition BITS4 :: nat where
  "BITS4 = W_TYPE_SIZE div 4"

definition count_leading_zeros :: "limb \<Rightarrow> limb" where
  "count_leading_zeros x =
     (let a = (if x < push_bit (2 * BITS4) 1
               then (if x < push_bit BITS4 1 then 1 else BITS4 + 1)
               else (if x < push_bit (3 * BITS4) 1 then 2 * BITS4 + 1 else 3 * BITS4 + 1))
      in of_nat W_TYPE_SIZE + 1 - of_nat a - clz_tab ! unat (drop_bit a x))"

definition count_trailing_zeros :: "limb \<Rightarrow> limb" where
  "count_trailing_zeros x =
     (let c = count_leading_zeros (x AND - x)
      in of_nat W_TYPE_SIZE - 1 - c)"

lemma clz_tab_all: "list_all (\<lambda>(t, i). 1 \<le> unat t \<and> unat t \<le> 8 \<and> 2 ^ (unat t - 1) \<le> max 1 (2 * i) \<and> 2 * i + 1 < 2 ^ unat t)
   (zip clz_tab [0..<128])"
  by (simp add: clz_tab_def upt_rec)

lemma clz_tab_bits:
  assumes "1 \<le> z" "z < 256"
  defines "t \<equiv> unat (clz_tab ! (z div 2))"
  shows "1 \<le> t" "t \<le> 8" "2 ^ (t - 1) \<le> z" "z < 2 ^ t"
proof -
  have z: "z div 2 < 128" using assms(2) by linarith
  have l: "length clz_tab = 128" by (simp add: clz_tab_def)
  have "1 \<le> t \<and> t \<le> 8 \<and> 2 ^ (t - 1) \<le> max 1 (2 * (z div 2)) \<and> 2 * (z div 2) + 1 < 2 ^ t"
    using clz_tab_all z unfolding list_all_length t_def by (auto simp: l)
  moreover have "z \<le> 2 * (z div 2) + 1" "max 1 (2 * (z div 2)) \<le> z" using assms(1) by auto
  ultimately show "1 \<le> t" "t \<le> 8" "2 ^ (t - 1) \<le> z" "z < 2 ^ t" by linarith+
qed

text \<open>The number of leading zeros: shifting by it sets the top bit and loses none.\<close>

lemma clz_shift:
  assumes x: "x \<noteq> (0 :: limb)"
  obtains a t where "1 \<le> a" "a \<le> 25" "1 \<le> t" "t \<le> 8" "2 ^ (t - 1) \<le> unat x div 2 ^ (a - 1)"
    "unat x div 2 ^ (a - 1) < 2 ^ t" "unat (count_leading_zeros x) = 33 - a - t"
proof -
  define a where "a = (if x < push_bit (2 * BITS4) 1
               then (if x < push_bit BITS4 1 then 1 else BITS4 + 1)
               else (if x < push_bit (3 * BITS4) 1 then 2 * BITS4 + 1 else 3 * BITS4 + 1))"
  define z where "z = unat x div 2 ^ (a - 1)"
  define t where "t = unat (clz_tab ! (z div 2))"
  have x0: "0 < unat x" using x by (simp add: unat_gt_0)
  have X: "unat x < 4294967296" using unat_lt_LB [of x] by (simp only: LB_def)
  have a: "a \<in> {1, 9, 17, 25}"
    by (simp add: a_def BITS4_def W_TYPE_SIZE_def)
  have z: "1 \<le> z" "z < 256"
    using x0 X by (auto simp: z_def a_def BITS4_def W_TYPE_SIZE_def limb_less_iff split: if_splits)
  have idx: "unat (drop_bit a x) = z div 2"
  proof -
    have "(2::nat) ^ a = 2 ^ (a - 1) * 2" using a by auto
    then show ?thesis by (simp only: unat_drop_limb z_def div_mult2_eq)
  qed
  have "count_leading_zeros x = of_nat 32 + 1 - of_nat a - clz_tab ! unat (drop_bit a x)"
    by (simp add: count_leading_zeros_def Let_def a_def W_TYPE_SIZE_def)
  also have "clz_tab ! unat (drop_bit a x) = of_nat t"
    by (simp add: idx t_def)
  finally have c: "count_leading_zeros x = of_nat 33 - of_nat a - of_nat t" by simp
  have t: "1 \<le> t" "t \<le> 8" "2 ^ (t - 1) \<le> z" "z < 2 ^ t"
    unfolding t_def by (rule clz_tab_bits [OF z])+
  have "count_leading_zeros x = of_nat (33 - a - t)"
    using a t c by auto
  then have "unat (count_leading_zeros x) = (33 - a - t) mod LB"
    by (simp only: unat_of_nat_limb)
  then have "unat (count_leading_zeros x) = 33 - a - t" by (simp add: LB_def)
  with that [of a t] a t show ?thesis by (auto simp: z_def)
qed

theorem count_leading_zeros_correct:
  assumes x: "x \<noteq> 0"
  shows "unat (count_leading_zeros x) < 32"
    and "LB \<le> 2 * (2 ^ unat (count_leading_zeros x) * unat x)"
    and "2 ^ unat (count_leading_zeros x) * unat x < LB"
proof -
  obtain a t where at: "1 \<le> a" "a \<le> 25" "1 \<le> t" "t \<le> 8" and lo: "2 ^ (t - 1) \<le> unat x div 2 ^ (a - 1)"
    and hi: "unat x div 2 ^ (a - 1) < 2 ^ t" and c: "unat (count_leading_zeros x) = 33 - a - t"
    using clz_shift [OF x] by blast
  define c where "c = 33 - a - t"
  have p1: "(2::nat) ^ c * (2 ^ (a - 1) * 2 ^ (t - 1)) = 2 ^ 31" 
    using at by (simp add: c_def flip: power_add)
  have p2: "(2::nat) ^ c * (2 ^ (a - 1) * 2 ^ t) = 2 ^ 32" 
    using at by (simp add: c_def flip: power_add)
  have "2 ^ (t - 1) * 2 ^ (a - 1) \<le> unat x" using lo by (simp add: less_eq_div_iff_mult_less_eq)
  then have "2 ^ c * (2 ^ (a - 1) * 2 ^ (t - 1)) \<le> 2 ^ c * unat x"
    by (intro mult_le_mono2) (simp add: mult.commute)
  moreover have "unat x < 2 ^ t * 2 ^ (a - 1)" using hi by (simp add: div_less_iff_less_mult)
  then have "2 ^ c * unat x < 2 ^ c * (2 ^ (a - 1) * 2 ^ t)" by (simp add: mult.commute)
  ultimately show "LB \<le> 2 * (2 ^ unat (count_leading_zeros x) * unat x)" "2 ^ unat (count_leading_zeros x) * unat x < LB"
    unfolding p1 p2 c c_def [symmetric] LB_def by (simp_all add: mult.commute)
  show "unat (count_leading_zeros x) < 32" using c at by simp
qed

lemma lowest_bit:
  fixes J :: limb
  assumes x: "x = push_bit (Suc k) J + push_bit k 1" and k: "k < 32"
  shows "x AND - x = push_bit k 1"
proof -
  have x': "x = push_bit (Suc k) J OR push_bit k 1"
    unfolding x by (rule disjunctive_add_eq_or) (rule bit_eqI, auto simp: bit_simps simp del: push_bit_Suc)
  have "x - 1 = push_bit (Suc k) J + (push_bit k 1 - 1)"
    unfolding x by simp
  also have "push_bit k 1 - 1 = (mask k :: limb)"
    by (simp add: mask_eq_exp_minus_1 push_bit_eq_mult)
  also have "push_bit (Suc k) J + mask k = push_bit (Suc k) J OR mask k"
    by (rule disjunctive_add_eq_or) (rule bit_eqI, auto simp: bit_simps simp del: push_bit_Suc)
  finally have m: "- x = NOT (push_bit (Suc k) J OR mask k)"
    by (simp add: minus_eq_not_minus_1)
  show ?thesis
    unfolding m unfolding x' by (rule bit_eqI) (auto simp: bit_simps simp del: push_bit_Suc)
qed

lemma trailing_split: "x \<noteq> 0 \<Longrightarrow> \<exists>k j. (x :: nat) = 2 ^ k * (2 * j + 1)"
proof (induction x rule: less_induct)
  case (less x)
  show ?case
  proof (cases "even x")
    case True
    then obtain y where y: "x = 2 * y" by (rule evenE)
    with less.prems have "y < x" "y \<noteq> 0" by auto
    then obtain k j where "y = 2 ^ k * (2 * j + 1)" using less.IH by blast
    with y have "x = 2 ^ Suc k * (2 * j + 1)" by simp
    then show ?thesis by blast
  next
    case False
    then obtain j where "x = 2 * j + 1" by (rule oddE)
    then have "x = 2 ^ 0 * (2 * j + 1)" by simp
    then show ?thesis by blast
  qed
qed

theorem count_trailing_zeros_correct:
  assumes x: "x \<noteq> 0"
  obtains j where "unat x = 2 ^ unat (count_trailing_zeros x) * (2 * j + 1)"
    and "unat (count_trailing_zeros x) < 32"
proof -
  obtain k j where kj: "unat x = 2 ^ k * (2 * j + 1)"
    using trailing_split [of "unat x"] x by (auto simp: unat_eq_0)
  have "(2::nat) ^ k * 1 \<le> 2 ^ k * (2 * j + 1)" by (intro mult_le_mono2) simp
  then have "(2::nat) ^ k < 2 ^ 32" using unat_lt_LB [of x] by (simp add: kj LB_def)
  then have k: "k < 32" by (rule power_less_imp_less_exp [rotated]) simp
  have "of_nat (unat x) = (of_nat (2 ^ k * (2 * j + 1)) :: limb)" by (simp only: kj)
  then have "x = push_bit (Suc k) (of_nat j) + push_bit k 1"
    by (simp add: push_bit_eq_mult algebra_simps)
  then have low: "x AND - x = push_bit k 1"
    using k by (rule lowest_bit)
  define y where "y = push_bit k (1 :: limb)"
  have uy: "unat y = 2 ^ k"
    using k unat_push_limb [of k 1] by (simp add: y_def)
  then have "y \<noteq> 0" by (metis power_not_zero unat_0 zero_neq_numeral)
  then have c: "unat (count_leading_zeros y) < 32" "LB \<le> 2 * (2 ^ unat (count_leading_zeros y) * 2 ^ k)"
    "2 ^ unat (count_leading_zeros y) * 2 ^ k < LB"
    using count_leading_zeros_correct [of y] by (simp_all add: uy)
  then have "(2::nat) ^ 32 \<le> 2 ^ Suc (unat (count_leading_zeros y) + k)" "2 ^ (unat (count_leading_zeros y) + k) < (2::nat) ^ 32"
    by (simp_all add: LB_def power_add)
  then have "32 \<le> Suc (unat (count_leading_zeros y) + k)" "unat (count_leading_zeros y) + k < 32"
    by (simp_all only: power_increasing_iff power_strict_increasing_iff one_less_numeral_iff semiring_norm)
  then have "unat (count_leading_zeros y) = 31 - k" "k \<le> 31" by simp_all
  moreover have "count_trailing_zeros x = 31 - count_leading_zeros y"
    unfolding count_trailing_zeros_def Let_def low y_def by (simp add: W_TYPE_SIZE_def)
  ultimately have "unat (count_trailing_zeros x) = k"
    by (simp add: unat_minus_if)
  with kj k that show ?thesis by simp
qed

section \<open>Inverse modulo \<open>2^32\<close>\<close>

text \<open>\<open>modlimb_invert_table\<close> (\<open>mp_minv_tab.c\<close>).\<close>

definition modlimb_invert_table :: "limb list" where
  "modlimb_invert_table =
  [0x01, 0xAB, 0xCD, 0xB7, 0x39, 0xA3, 0xC5, 0xEF,
   0xF1, 0x1B, 0x3D, 0xA7, 0x29, 0x13, 0x35, 0xDF,
   0xE1, 0x8B, 0xAD, 0x97, 0x19, 0x83, 0xA5, 0xCF,
   0xD1, 0xFB, 0x1D, 0x87, 0x09, 0xF3, 0x15, 0xBF,
   0xC1, 0x6B, 0x8D, 0x77, 0xF9, 0x63, 0x85, 0xAF,
   0xB1, 0xDB, 0xFD, 0x67, 0xE9, 0xD3, 0xF5, 0x9F,
   0xA1, 0x4B, 0x6D, 0x57, 0xD9, 0x43, 0x65, 0x8F,
   0x91, 0xBB, 0xDD, 0x47, 0xC9, 0xB3, 0xD5, 0x7F,
   0x81, 0x2B, 0x4D, 0x37, 0xB9, 0x23, 0x45, 0x6F,
   0x71, 0x9B, 0xBD, 0x27, 0xA9, 0x93, 0xB5, 0x5F,
   0x61, 0x0B, 0x2D, 0x17, 0x99, 0x03, 0x25, 0x4F,
   0x51, 0x7B, 0x9D, 0x07, 0x89, 0x73, 0x95, 0x3F,
   0x41, 0xEB, 0x0D, 0xF7, 0x79, 0xE3, 0x05, 0x2F,
   0x31, 0x5B, 0x7D, 0xE7, 0x69, 0x53, 0x75, 0x1F,
   0x21, 0xCB, 0xED, 0xD7, 0x59, 0xC3, 0xE5, 0x0F,
   0x11, 0x3B, 0x5D, 0xC7, 0x49, 0x33, 0x55, 0xFF]"

definition modlimb_invert :: "limb \<Rightarrow> limb" where
  "modlimb_invert n =
     (let inv = modlimb_invert_table ! unat ((n div 2) AND 0x7F);
          inv = 2 * inv - inv * inv * n;
          inv = 2 * inv - inv * inv * n
      in inv)"


lemma minv_all: "list_all (\<lambda>(t, k). take_bit 8 (t * k) = 1) (zip modlimb_invert_table (map (\<lambda>i. 2 * of_nat i + 1) [0..<128]))"
  by (simp add: modlimb_invert_table_def upt_rec)

lemma minv_nth: "i < 128 \<Longrightarrow> take_bit 8 (modlimb_invert_table ! i * (2 * of_nat i + 1)) = 1"
proof -
  assume i: "i < 128"
  have l: "length modlimb_invert_table = 128" by (simp add: modlimb_invert_table_def)
  show ?thesis
    using minv_all i by (auto simp: list_all_length l)
qed

lemma newton_step:
  fixes v n :: limb
  assumes "v * n = 1 + 2 ^ k * e"
  shows "(2 * v - v * v * n) * n = 1 + 2 ^ (2 * k) * - (e * e)"
proof -
  have "(2 * v - v * v * n) * n = 1 - (v * n - 1) * (v * n - 1)"
    by (simp add: algebra_simps)
  also have "(v * n - 1) * (v * n - 1) = 2 ^ (2 * k) * (e * e)"
    by (simp only: assms mult_2 power_add add_diff_cancel_left' mult.assoc mult.left_commute)
  also have "1 - 2 ^ (2 * k) * (e * e) = 1 + 2 ^ (2 * k) * - (e * e)"
    by simp
  finally show ?thesis .
qed

lemma unat_take_8: "unat (take_bit 8 (x :: limb)) = unat x mod 256"
  unfolding unsigned_take_bit_eq by (simp add: take_bit_eq_mod)

lemma unat_times_8: "unat (x * y :: limb) mod 256 = (unat x * unat y) mod 256"
  by (simp add: unat_times_limb LB_def mod_mod_cancel)

theorem modlimb_invert_correct:
  assumes odd: "odd n"
  shows "modlimb_invert n * n = 1"
proof -
  define i where "i = unat n div 2 mod 128"
  define v where "v = modlimb_invert_table ! i"
  have idx: "unat ((n div 2) AND 0x7F) = i"
  proof -
    have "(n div 2) AND 0x7F = take_bit 7 (n div 2)"
      by (simp add: take_bit_eq_mask mask_eq_exp_minus_1)
    then have "unat ((n div 2) AND 0x7F) = take_bit 7 (unat (n div 2))"
      by (simp only: unsigned_take_bit_eq)
    then show ?thesis by (simp add: take_bit_eq_mod unat_div i_def)
  qed
  have n8: "take_bit 8 n = 2 * of_nat i + 1"
  proof -
    have "odd (unat n)"
      using odd by transfer (simp add: even_take_bit_eq even_nat_iff)
    then have "unat n mod 256 = 2 * i + 1"
      using mod_mult2_eq [of "unat n" 2 128] by (simp add: i_def odd_iff_mod_2_eq_one)
    then have "unat (take_bit 8 n) = 2 * i + 1"
      unfolding unsigned_take_bit_eq by (simp add: take_bit_eq_mod)
    then have "of_nat (unat (take_bit 8 n)) = (of_nat (2 * i + 1) :: limb)" by (simp only:)
    then show ?thesis by simp
  qed
  have "unat (take_bit 8 (v * n)) = unat (take_bit 8 (v * take_bit 8 n))"
    by (simp only: unat_take_8 unat_times_8 mod_simps)
  then have "take_bit 8 (v * n) = take_bit 8 (v * take_bit 8 n)"
    by (simp only: limb_eq_iff)
  also have "\<dots> = 1"
    unfolding n8 v_def by (rule minv_nth) (simp add: i_def)
  finally have "v * n = 1 + 2 ^ 8 * drop_bit 8 (v * n)"
    using bits_ident [of 8 "v * n"] by (simp add: push_bit_eq_mult mult.commute add.commute)
  then obtain e where "(2 * v - v * v * n) * n = 1 + 2 ^ (2 * 8) * e"
    using newton_step by blast
  then obtain e' where s: "(2 * (2 * v - v * v * n) - (2 * v - v * v * n) * (2 * v - v * v * n) * n) * n
      = 1 + 2 ^ (2 * (2 * 8)) * e'"
    using newton_step by blast
  have "(2::limb) ^ (2 * (2 * 8)) = 0"
    by simp
  with s have "(2 * (2 * v - v * v * n) - (2 * v - v * v * n) * (2 * v - v * v * n) * n) * n = 1"
    by (simp only: mult_zero_left add_0_right)
  then show ?thesis
    unfolding modlimb_invert_def Let_def idx v_def .
qed

end
