(* ===== verification/Mpn_Basic.thy ===== *)
theory Mpn_Basic
  imports Longlong
begin

text \<open>
  The linear-time operations on limb regions: the copies, \<open>MPN_ZERO\<close>, \<open>MPN_NORMALIZE\<close>,
  \<open>mpn_incr_u\<close>, \<open>mpn_decr_u\<close>, \<open>mpn_com_n\<close> and the logical operations of \<open>gmp-impl.h\<close>; the inline
  \<open>mpn_add\<close>, \<open>mpn_sub\<close>, \<open>mpn_add_1\<close>, \<open>mpn_sub_1\<close> and \<open>mpn_cmp\<close> of \<open>gmp.h\<close>; and
  \<open>mpn/generic/add_n.c\<close>, \<open>sub_n.c\<close>, \<open>lshift.c\<close> and \<open>rshift.c\<close>.  An operation takes the pointers and
  sizes the C function takes and the memory, and returns the C result with the new memory.  Each
  specification states the value written, under the overlap condition the C code asserts, and the
  region it writes in.
\<close>

section \<open>Copying, zeroing, normalizing\<close>

fun copy_incr_loop :: "nat \<Rightarrow> ptr \<Rightarrow> ptr \<Rightarrow> limb \<Rightarrow> mem \<Rightarrow> mem" where
  "copy_incr_loop 0 dst src x m = m(dst := x)"
| "copy_incr_loop (Suc n) dst src x m =
     (let m = m(dst := x); x = m src
      in copy_incr_loop n (dst + 1) (src + 1) x m)"

definition MPN_COPY_INCR :: "ptr \<Rightarrow> ptr \<Rightarrow> nat \<Rightarrow> mem \<Rightarrow> mem" where
  "MPN_COPY_INCR dst src n m = (if n \<noteq> 0 then copy_incr_loop (n - 1) dst (src + 1) (m src) m else m)"

definition MPN_COPY :: "ptr \<Rightarrow> ptr \<Rightarrow> nat \<Rightarrow> mem \<Rightarrow> mem" where
  "MPN_COPY d s n m = MPN_COPY_INCR d s n m"

text \<open>The descending pointers of the loop are \<open>dst + n\<close> and \<open>src + n\<close>, \<open>n\<close> counting down.\<close>

fun copy_decr_loop :: "nat \<Rightarrow> ptr \<Rightarrow> ptr \<Rightarrow> limb \<Rightarrow> mem \<Rightarrow> mem" where
  "copy_decr_loop 0 dst src x m = m(dst := x)"
| "copy_decr_loop (Suc n) dst src x m =
     (let m = m(dst + Suc n := x); x = m (src + n)
      in copy_decr_loop n dst src x m)"

definition MPN_COPY_DECR :: "ptr \<Rightarrow> ptr \<Rightarrow> nat \<Rightarrow> mem \<Rightarrow> mem" where
  "MPN_COPY_DECR dst src n m = (if n \<noteq> 0 then copy_decr_loop (n - 1) dst src (m (src + (n - 1))) m else m)"

fun MPN_ZERO :: "ptr \<Rightarrow> nat \<Rightarrow> mem \<Rightarrow> mem" where
  "MPN_ZERO dst 0 m = m"
| "MPN_ZERO dst (Suc n) m = MPN_ZERO (dst + 1) n (m(dst := 0))"

text \<open>\<open>__GMPN_COPY_REST\<close> copies the limbs from index \<open>j = start\<close> on; \<open>n\<close> is \<open>size - j\<close>.\<close>

fun copy_rest_loop :: "nat \<Rightarrow> nat \<Rightarrow> ptr \<Rightarrow> ptr \<Rightarrow> mem \<Rightarrow> mem" where
  "copy_rest_loop 0 j dst src m = m"
| "copy_rest_loop (Suc n) j dst src m = copy_rest_loop n (j + 1) dst src (m(dst + j := m (src + j)))"

definition GMPN_COPY_REST :: "ptr \<Rightarrow> ptr \<Rightarrow> nat \<Rightarrow> nat \<Rightarrow> mem \<Rightarrow> mem" where
  "GMPN_COPY_REST dst src n start m = copy_rest_loop (n - start) start dst src m"

fun MPN_NORMALIZE :: "mem \<Rightarrow> ptr \<Rightarrow> nat \<Rightarrow> nat" where
  "MPN_NORMALIZE m dst 0 = 0"
| "MPN_NORMALIZE m dst (Suc n) = (if m (dst + n) \<noteq> 0 then Suc n else MPN_NORMALIZE m dst n)"

text \<open>What every copy of this file does when its overlap condition holds: the region \<open>{dst,n}\<close> gets the
  limbs \<open>{src,n}\<close> had, and nothing else changes.\<close>

definition mcopy :: "ptr \<Rightarrow> ptr \<Rightarrow> nat \<Rightarrow> mem \<Rightarrow> mem" where
  "mcopy dst src n m = (\<lambda>a. if dst \<le> a \<and> a < dst + n then m (src + (a - dst)) else m a)"

lemma mcopy_0 [simp]: "mcopy dst src 0 m = m"
  by (auto simp: mcopy_def fun_eq_iff)

lemma mcopy_same [simp]: "mcopy p p n m = m"
  by (auto simp: mcopy_def)

lemma mcopy_nth [simp]: "i < n \<Longrightarrow> mcopy dst src n m (dst + i) = m (src + i)"
  by (simp add: mcopy_def)

lemma mcopy_out [simp]: "a < dst \<or> dst + n \<le> a \<Longrightarrow> mcopy dst src n m a = m a"
  by (auto simp: mcopy_def)

lemma only_in_mcopy [simp]: "only_in dst n m (mcopy dst src n m)"
  by (auto simp: only_in_def)

lemma mval_mcopy [simp]: "k \<le> n \<Longrightarrow> mval (mcopy dst src n m) dst k = mval m src k"
  by (rule mval_cong) simp

lemma copy_incr_loop_spec:
  assumes "dst < src \<or> src + n \<le> dst"
  shows "copy_incr_loop n dst src x m = (\<lambda>a. if a = dst then x
           else if dst < a \<and> a \<le> dst + n then m (src + (a - Suc dst)) else m a)"
  using assms
proof (induction n arbitrary: dst src x m)
  case 0
  then show ?case by auto
next
  case (Suc n)
  have "dst \<noteq> src" using Suc.prems by auto
  have "copy_incr_loop (Suc n) dst src x m = copy_incr_loop n (dst + 1) (src + 1) (m src) (m(dst := x))"
    using \<open>dst \<noteq> src\<close> by (simp add: Let_def)
  also have "\<dots> = (\<lambda>a. if a = dst + 1 then m src else if dst + 1 < a \<and> a \<le> dst + 1 + n
       then (m(dst := x)) (src + 1 + (a - Suc (dst + 1))) else (m(dst := x)) a)"
    by (rule Suc.IH) (use Suc.prems in auto)
  finally show ?case
    using Suc.prems by (auto simp: fun_eq_iff Suc_diff_Suc)
qed

lemma MPN_COPY_INCR_spec:
  assumes "MPN_SAME_OR_INCR_P dst src n"
  shows "MPN_COPY_INCR dst src n m = mcopy dst src n m"
proof (cases n)
  case 0
  then show ?thesis by (simp add: MPN_COPY_INCR_def)
next
  case (Suc k)
  have "dst < src + 1 \<or> src + 1 + k \<le> dst"
    using assms Suc by (auto simp: overlap_defs)
  then show ?thesis
    using Suc by (auto simp: MPN_COPY_INCR_def copy_incr_loop_spec mcopy_def fun_eq_iff Suc_diff_Suc)
qed

lemma copy_decr_loop_spec:
  assumes "src \<le> dst \<or> dst + n < src"
  shows "copy_decr_loop n dst src x m = (\<lambda>a. if a = dst + n then x
           else if dst \<le> a \<and> a < dst + n then m (src + (a - dst)) else m a)"
  using assms
proof (induction n arbitrary: x m)
  case 0
  then show ?case by auto
next
  case (Suc n)
  have ne: "dst + Suc n \<noteq> src + n" using Suc.prems by auto
  have "copy_decr_loop (Suc n) dst src x m = copy_decr_loop n dst src (m (src + n)) (m(dst + Suc n := x))"
    using ne by (simp add: Let_def)
  also have "\<dots> = (\<lambda>a. if a = dst + n then m (src + n) else if dst \<le> a \<and> a < dst + n
       then (m(dst + Suc n := x)) (src + (a - dst)) else (m(dst + Suc n := x)) a)"
    by (rule Suc.IH) (use Suc.prems in auto)
  finally show ?case
    using Suc.prems by (auto simp: fun_eq_iff)
qed

lemma MPN_COPY_DECR_spec:
  assumes "MPN_SAME_OR_DECR_P dst src n"
  shows "MPN_COPY_DECR dst src n m = mcopy dst src n m"
proof (cases n)
  case 0
  then show ?thesis by (simp add: MPN_COPY_DECR_def)
next
  case (Suc k)
  have "src \<le> dst \<or> dst + k < src"
    using assms Suc by (auto simp: overlap_defs)
  then show ?thesis
    using Suc by (auto simp: MPN_COPY_DECR_def copy_decr_loop_spec mcopy_def fun_eq_iff)
qed

lemma MPN_ZERO_spec: "MPN_ZERO dst n m = (\<lambda>a. if dst \<le> a \<and> a < dst + n then 0 else m a)"
  by (induction n arbitrary: dst m) (auto intro!: ext)

lemma copy_rest_loop_spec:
  assumes "dst \<le> src \<or> src + j + n \<le> dst + j"
  shows "copy_rest_loop n j dst src m =
    (\<lambda>a. if dst + j \<le> a \<and> a < dst + j + n then m (src + (a - dst)) else m a)"
  using assms
proof (induction n arbitrary: j m)
  case 0
  then show ?case by (auto simp: fun_eq_iff)
next
  case (Suc n)
  have "copy_rest_loop n (j + 1) dst src (m(dst + j := m (src + j))) =
    (\<lambda>a. if dst + (j + 1) \<le> a \<and> a < dst + (j + 1) + n then (m(dst + j := m (src + j))) (src + (a - dst))
      else (m(dst + j := m (src + j))) a)"
    by (rule Suc.IH) (use Suc.prems in auto)
  then show ?case
    using Suc.prems by (auto simp: fun_eq_iff)
qed

lemma GMPN_COPY_REST_spec:
  assumes "dst \<le> src \<or> src + n \<le> dst" "start \<le> n"
  shows "GMPN_COPY_REST dst src n start m = mcopy (dst + start) (src + start) (n - start) m"
  using assms by (auto simp: GMPN_COPY_REST_def copy_rest_loop_spec mcopy_def fun_eq_iff)

lemma MPN_COPY_spec:
  "MPN_SAME_OR_SEPARATE_P dst src n \<Longrightarrow> MPN_COPY dst src n m = mcopy dst src n m"
  unfolding MPN_COPY_def by (rule MPN_COPY_INCR_spec) (auto simp: overlap_defs)

lemma MPN_ZERO_mval [simp]: "mval (MPN_ZERO dst n m) dst n = 0"
  by (simp add: MPN_ZERO_spec)

lemma only_in_MPN_ZERO [simp]: "only_in dst n m (MPN_ZERO dst n m)"
  by (auto simp: MPN_ZERO_spec only_in_def)

text \<open>\<open>MPN_NORMALIZE\<close> drops high zero limbs: the value stays and the top limb is not zero.\<close>

lemma MPN_NORMALIZE_le: "MPN_NORMALIZE m p n \<le> n"
  by (induction n) auto

lemma MPN_NORMALIZE_mval: "mval m p (MPN_NORMALIZE m p n) = mval m p n"
  by (induction n) (simp_all add: mval_high del: mval.simps)

lemma MPN_NORMALIZE_top: "MPN_NORMALIZE m p n = 0 \<or> m (p + MPN_NORMALIZE m p n - 1) \<noteq> 0"
  by (induction n) auto

lemma MPN_NORMALIZE_0_iff: "MPN_NORMALIZE m p n = 0 \<longleftrightarrow> mval m p n = 0"
  by (induction n) (auto simp: mval_high unat_eq_0 simp del: mval.simps)

section \<open>Addition and subtraction of equal-sized operands\<close>

text \<open>The \<open>do ... while (--n != 0)\<close> loops run once per limb; \<open>n >= 1\<close> is a precondition of the C code
  (an \<open>ASSERT\<close>).\<close>

fun add_n_loop :: "nat \<Rightarrow> ptr \<Rightarrow> ptr \<Rightarrow> ptr \<Rightarrow> limb \<Rightarrow> mem \<Rightarrow> limb \<times> mem" where
  "add_n_loop 0 rp up vp cy m = (cy, m)"
| "add_n_loop (Suc n) rp up vp cy m =
     (let ul = m up;
          vl = m vp;
          sl = ul + vl;
          cy1 = of_bool (sl < ul);
          rl = sl + cy;
          cy2 = of_bool (rl < sl);
          cy = cy1 OR cy2
      in add_n_loop n (rp + 1) (up + 1) (vp + 1) cy (m(rp := rl)))"

definition mpn_add_n :: "ptr \<Rightarrow> ptr \<Rightarrow> ptr \<Rightarrow> nat \<Rightarrow> mem \<Rightarrow> limb \<times> mem" where
  "mpn_add_n rp up vp n m = add_n_loop n rp up vp 0 m"

fun sub_n_loop :: "nat \<Rightarrow> ptr \<Rightarrow> ptr \<Rightarrow> ptr \<Rightarrow> limb \<Rightarrow> mem \<Rightarrow> limb \<times> mem" where
  "sub_n_loop 0 rp up vp cy m = (cy, m)"
| "sub_n_loop (Suc n) rp up vp cy m =
     (let ul = m up;
          vl = m vp;
          sl = ul - vl;
          cy1 = of_bool (sl > ul);
          rl = sl - cy;
          cy2 = of_bool (rl > sl);
          cy = cy1 OR cy2
      in sub_n_loop n (rp + 1) (up + 1) (vp + 1) cy (m(rp := rl)))"

definition mpn_sub_n :: "ptr \<Rightarrow> ptr \<Rightarrow> ptr \<Rightarrow> nat \<Rightarrow> mem \<Rightarrow> limb \<times> mem" where
  "mpn_sub_n rp up vp n m = sub_n_loop n rp up vp 0 m"

lemma of_bool_or: "of_bool a OR of_bool b = (of_bool (a \<or> b) :: limb)"
  by (cases a; cases b) simp_all

lemma add_limb_step:
  assumes "unat (cy :: limb) \<le> 1"
  shows "unat (ul + vl + cy) + LB * of_bool (ul + vl < ul \<or> ul + vl + cy < ul + vl) = unat ul + unat vl + unat cy"
proof -
  have "unat (ul + vl + cy) + LB * of_bool (ul + vl + cy < ul + vl) = unat (ul + vl) + unat cy"
    "unat (ul + vl) + LB * of_bool (ul + vl < ul) = unat ul + unat vl"
    by (rule add_carry)+
  moreover have "unat ul + unat vl \<le> 2 * LB - 2"
    using unat_lt_LB [of ul] unat_lt_LB [of vl] by linarith
  ultimately show ?thesis
    using assms unat_lt_LB [of "ul + vl + cy"] by (cases "ul + vl < ul"; cases "ul + vl + cy < ul + vl") simp_all
qed

lemma sub_limb_step:
  assumes "unat (cy :: limb) \<le> 1"
  shows "unat (ul - vl - cy) + unat vl + unat cy = unat ul + LB * of_bool (ul < ul - vl \<or> ul - vl < ul - vl - cy)"
proof -
  have "unat (ul - vl - cy) + unat cy = unat (ul - vl) + LB * of_bool (ul - vl < ul - vl - cy)"
    "unat (ul - vl) + unat vl = unat ul + LB * of_bool (ul < ul - vl)"
    by (rule sub_borrow')+
  moreover have "unat vl < LB" "unat (ul - vl - cy) < LB"
    by (rule unat_lt_LB)+
  ultimately show ?thesis
    using assms by (cases "ul < ul - vl"; cases "ul - vl < ul - vl - cy") simp_all
qed

lemma add_n_loop_spec:
  assumes "add_n_loop n rp up vp cy m = (cy', m')" and "unat cy \<le> 1"
    and "rp \<le> up \<or> up + n \<le> rp" and "rp \<le> vp \<or> vp + n \<le> rp"
  shows "mval m' rp n + LB ^ n * unat cy' = mval m up n + mval m vp n + unat cy
    \<and> unat cy' \<le> 1 \<and> only_in rp n m m'"
  using assms
proof (induction n arbitrary: rp up vp cy m)
  case 0
  then show ?case by simp
next
  case (Suc n)
  define sl where "sl = m up + m vp"
  define b where "b \<longleftrightarrow> sl < m up \<or> sl + cy < sl"
  define m1 where "m1 = m(rp := sl + cy)"
  have rec: "add_n_loop n (rp + 1) (up + 1) (vp + 1) (of_bool b) m1 = (cy', m')"
    using Suc.prems(1) by (simp add: Let_def sl_def b_def m1_def of_bool_or)
  have IH: "mval m' (rp + 1) n + LB ^ n * unat cy' = mval m1 (up + 1) n + mval m1 (vp + 1) n + of_bool b"
    "unat cy' \<le> 1" "only_in (rp + 1) n m1 m'"
    using Suc.IH [OF rec] Suc.prems(3,4) by auto
  have vals: "mval m1 (up + 1) n = mval m (up + 1) n" "mval m1 (vp + 1) n = mval m (vp + 1) n"
    unfolding m1_def using Suc.prems(3,4) by (auto intro!: mval_upd_out)
  have rl: "m' rp = sl + cy"
    using only_inD [OF IH(3), of rp] by (simp add: m1_def)
  have step: "unat (sl + cy) + LB * of_bool b = unat (m up) + unat (m vp) + unat cy"
    using add_limb_step [OF Suc.prems(2)] by (simp add: sl_def b_def)
  have "mval m' rp (Suc n) + LB ^ Suc n * unat cy' = unat (sl + cy) + LB * (mval m' (rp + 1) n + LB ^ n * unat cy')"
    by (simp add: rl algebra_simps)
  also have "\<dots> = (unat (sl + cy) + LB * of_bool b) + LB * (mval m (up + 1) n + mval m (vp + 1) n)"
    unfolding IH(1) vals by (simp add: algebra_simps)
  also have "\<dots> = mval m up (Suc n) + mval m vp (Suc n) + unat cy"
    unfolding step by (simp add: algebra_simps)
  finally show ?case
    using IH(2) only_in_trans [of rp "Suc n" m m1 m'] only_in_mono [OF IH(3), of rp "Suc n"]
    by (simp add: m1_def)
qed

lemma sub_n_loop_spec:
  assumes "sub_n_loop n rp up vp cy m = (cy', m')" and "unat cy \<le> 1"
    and "rp \<le> up \<or> up + n \<le> rp" and "rp \<le> vp \<or> vp + n \<le> rp"
  shows "mval m' rp n + mval m vp n + unat cy = mval m up n + LB ^ n * unat cy'
    \<and> unat cy' \<le> 1 \<and> only_in rp n m m'"
  using assms
proof (induction n arbitrary: rp up vp cy m)
  case 0
  then show ?case by simp
next
  case (Suc n)
  define sl where "sl = m up - m vp"
  define b where "b \<longleftrightarrow> m up < sl \<or> sl < sl - cy"
  define m1 where "m1 = m(rp := sl - cy)"
  have rec: "sub_n_loop n (rp + 1) (up + 1) (vp + 1) (of_bool b) m1 = (cy', m')"
    using Suc.prems(1) by (simp add: Let_def sl_def b_def m1_def of_bool_or)
  have IH: "mval m' (rp + 1) n + mval m1 (vp + 1) n + of_bool b = mval m1 (up + 1) n + LB ^ n * unat cy'"
    "unat cy' \<le> 1" "only_in (rp + 1) n m1 m'"
    using Suc.IH [OF rec] Suc.prems(3,4) by auto
  have vals: "mval m1 (up + 1) n = mval m (up + 1) n" "mval m1 (vp + 1) n = mval m (vp + 1) n"
    unfolding m1_def using Suc.prems(3,4) by (auto intro!: mval_upd_out)
  have rl: "m' rp = sl - cy"
    using only_inD [OF IH(3), of rp] by (simp add: m1_def)
  have step: "unat (sl - cy) + unat (m vp) + unat cy = unat (m up) + LB * of_bool b"
    using sub_limb_step [OF Suc.prems(2)] by (simp add: sl_def b_def)
  have "mval m' rp (Suc n) + mval m vp (Suc n) + unat cy =
      (unat (sl - cy) + unat (m vp) + unat cy) + LB * (mval m' (rp + 1) n + mval m (vp + 1) n)"
    by (simp add: rl algebra_simps)
  also have "\<dots> = unat (m up) + LB * (mval m' (rp + 1) n + mval m (vp + 1) n + of_bool b)"
    unfolding step by (simp add: algebra_simps)
  also have "\<dots> = mval m up (Suc n) + LB ^ Suc n * unat cy'"
    unfolding IH(1) [unfolded vals] by (simp add: algebra_simps)
  finally show ?case
    using IH(2) only_in_trans [of rp "Suc n" m m1 m'] only_in_mono [OF IH(3), of rp "Suc n"]
    by (simp add: m1_def)
qed

lemma mpn_add_n_spec:
  assumes "mpn_add_n rp up vp n m = (cy, m')"
    and "MPN_SAME_OR_INCR_P rp up n" and "MPN_SAME_OR_INCR_P rp vp n"
  shows "mval m' rp n + LB ^ n * unat cy = mval m up n + mval m vp n" and "unat cy \<le> 1"
    and "only_in rp n m m'"
proof -
  have "mval m' rp n + LB ^ n * unat cy = mval m up n + mval m vp n \<and> unat cy \<le> 1 \<and> only_in rp n m m'"
  proof (cases "n = 0")
    case False
    then show ?thesis
      using add_n_loop_spec [of n rp up vp 0 m cy m'] assms by (auto simp: mpn_add_n_def overlap_defs)
  qed (use assms in \<open>auto simp: mpn_add_n_def\<close>)
  then show "mval m' rp n + LB ^ n * unat cy = mval m up n + mval m vp n" "unat cy \<le> 1" "only_in rp n m m'"
    by blast+
qed

lemma mpn_sub_n_spec:
  assumes "mpn_sub_n rp up vp n m = (cy, m')"
    and "MPN_SAME_OR_INCR_P rp up n" and "MPN_SAME_OR_INCR_P rp vp n"
  shows "mval m' rp n + mval m vp n = mval m up n + LB ^ n * unat cy" and "unat cy \<le> 1"
    and "only_in rp n m m'"
proof -
  have "mval m' rp n + mval m vp n = mval m up n + LB ^ n * unat cy \<and> unat cy \<le> 1 \<and> only_in rp n m m'"
  proof (cases "n = 0")
    case False
    then show ?thesis
      using sub_n_loop_spec [of n rp up vp 0 m cy m'] assms by (auto simp: mpn_sub_n_def overlap_defs)
  qed (use assms in \<open>auto simp: mpn_sub_n_def\<close>)
  then show "mval m' rp n + mval m vp n = mval m up n + LB ^ n * unat cy" "unat cy \<le> 1" "only_in rp n m m'"
    by blast+
qed

section \<open>The inline operations of \<open>gmp.h\<close>\<close>

text \<open>\<open>__GMPN_AORS\<close>: \<open>fn\<close> is the macro's \<open>FUNCTION\<close>; \<open>tst x\<close> is its \<open>TEST\<close>: the limb it stores at
  \<open>wp[i++]\<close> and whether the loop goes on.  \<open>k\<close> is \<open>xsize - i\<close>; the loop returns whether it jumped to
  \<open>__gmp_done\<close>, the index it stopped at and the memory.\<close>

fun aors_carry :: "(limb \<Rightarrow> limb \<times> bool) \<Rightarrow> nat \<Rightarrow> nat \<Rightarrow> ptr \<Rightarrow> ptr \<Rightarrow> mem \<Rightarrow> bool \<times> nat \<times> mem" where
  "aors_carry tst 0 i wp xp m = (True, i, m)"
| "aors_carry tst (Suc k) i wp xp m =
     (let x = m (xp + i);
          (r, go) = tst x;
          m = m(wp + i := r)
      in if go then aors_carry tst k (i + 1) wp xp m else (False, i + 1, m))"

definition GMPN_AORS ::
  "(ptr \<Rightarrow> ptr \<Rightarrow> ptr \<Rightarrow> nat \<Rightarrow> mem \<Rightarrow> limb \<times> mem) \<Rightarrow> (limb \<Rightarrow> limb \<times> bool) \<Rightarrow>
     ptr \<Rightarrow> ptr \<Rightarrow> nat \<Rightarrow> ptr \<Rightarrow> nat \<Rightarrow> mem \<Rightarrow> limb \<times> mem" where
  "GMPN_AORS fn tst wp xp xsize yp ysize m =
     (let (fin, i, m) =
            (if ysize \<noteq> 0
             then (let (c, m) = fn wp xp yp ysize m
                   in if c \<noteq> 0 then aors_carry tst (xsize - ysize) ysize wp xp m else (False, ysize, m))
             else (False, ysize, m))
      in if fin then (1, m)
         else (let m = (if wp \<noteq> xp then GMPN_COPY_REST wp xp xsize i m else m) in (0, m)))"

definition add_test :: "limb \<Rightarrow> limb \<times> bool" where
  "add_test x = (x + 1, x + 1 = 0)"

definition sub_test :: "limb \<Rightarrow> limb \<times> bool" where
  "sub_test x = (x - 1, x = 0)"

definition mpn_add :: "ptr \<Rightarrow> ptr \<Rightarrow> nat \<Rightarrow> ptr \<Rightarrow> nat \<Rightarrow> mem \<Rightarrow> limb \<times> mem" where
  "mpn_add wp xp xsize yp ysize m = GMPN_AORS mpn_add_n add_test wp xp xsize yp ysize m"

definition mpn_sub :: "ptr \<Rightarrow> ptr \<Rightarrow> nat \<Rightarrow> ptr \<Rightarrow> nat \<Rightarrow> mem \<Rightarrow> limb \<times> mem" where
  "mpn_sub wp xp xsize yp ysize m = GMPN_AORS mpn_sub_n sub_test wp xp xsize yp ysize m"

text \<open>\<open>__GMPN_AORS_1\<close> with its parameters \<open>OP\<close> and \<open>CB\<close>; \<open>k\<close> is \<open>n - i\<close>.\<close>

fun aors_1_loop :: "(limb \<Rightarrow> limb \<Rightarrow> limb) \<Rightarrow> (limb \<Rightarrow> limb \<Rightarrow> limb \<Rightarrow> bool) \<Rightarrow> nat \<Rightarrow> nat \<Rightarrow> ptr \<Rightarrow> ptr \<Rightarrow>
    nat \<Rightarrow> mem \<Rightarrow> limb \<times> mem" where
  "aors_1_loop opr cb 0 i dst src n m = (1, m)"
| "aors_1_loop opr cb (Suc k) i dst src n m =
     (let x = m (src + i);
          r = opr x 1;
          m = m(dst + i := r);
          i = i + 1
      in if \<not> cb r x 1
         then (0, if src \<noteq> dst then GMPN_COPY_REST dst src n i m else m)
         else aors_1_loop opr cb k i dst src n m)"

definition GMPN_AORS_1 :: "(limb \<Rightarrow> limb \<Rightarrow> limb) \<Rightarrow> (limb \<Rightarrow> limb \<Rightarrow> limb \<Rightarrow> bool) \<Rightarrow>
    ptr \<Rightarrow> ptr \<Rightarrow> nat \<Rightarrow> limb \<Rightarrow> mem \<Rightarrow> limb \<times> mem" where
  "GMPN_AORS_1 opr cb dst src n v m =
     (let x = m src;
          r = opr x v;
          m = m(dst := r)
      in if cb r x v
         then aors_1_loop opr cb (n - 1) 1 dst src n m
         else (0, if src \<noteq> dst then GMPN_COPY_REST dst src n 1 m else m))"

definition GMPN_ADDCB :: "limb \<Rightarrow> limb \<Rightarrow> limb \<Rightarrow> bool" where
  "GMPN_ADDCB r x y \<longleftrightarrow> r < y"

definition GMPN_SUBCB :: "limb \<Rightarrow> limb \<Rightarrow> limb \<Rightarrow> bool" where
  "GMPN_SUBCB r x y \<longleftrightarrow> x < y"

definition mpn_add_1 :: "ptr \<Rightarrow> ptr \<Rightarrow> nat \<Rightarrow> limb \<Rightarrow> mem \<Rightarrow> limb \<times> mem" where
  "mpn_add_1 dst src n v m = GMPN_AORS_1 (+) GMPN_ADDCB dst src n v m"

definition mpn_sub_1 :: "ptr \<Rightarrow> ptr \<Rightarrow> nat \<Rightarrow> limb \<Rightarrow> mem \<Rightarrow> limb \<times> mem" where
  "mpn_sub_1 dst src n v m = GMPN_AORS_1 (-) GMPN_SUBCB dst src n v m"

text \<open>The contract of the two macros, with \<open>s = 1\<close> for addition and \<open>s = -1\<close> for subtraction: what
  \<open>FUNCTION\<close>, \<open>TEST\<close>, \<open>OP\<close> and \<open>CB\<close> must satisfy for the result to be the sum or difference.\<close>

locale aors =
  fixes s :: int
    and fn :: "ptr \<Rightarrow> ptr \<Rightarrow> ptr \<Rightarrow> nat \<Rightarrow> mem \<Rightarrow> limb \<times> mem"
    and tst :: "limb \<Rightarrow> limb \<times> bool"
    and opr :: "limb \<Rightarrow> limb \<Rightarrow> limb"
    and cb :: "limb \<Rightarrow> limb \<Rightarrow> limb \<Rightarrow> bool"
  assumes fn_spec: "fn wp xp yp n m = (c, m') \<Longrightarrow> MPN_SAME_OR_INCR_P wp xp n \<Longrightarrow> MPN_SAME_OR_INCR_P wp yp n \<Longrightarrow>
      int (mval m' wp n) + s * int (LB ^ n * unat c) = int (mval m xp n) + s * int (mval m yp n)
      \<and> unat c \<le> 1 \<and> only_in wp n m m'"
    and tst_spec: "tst x = (r, go) \<Longrightarrow> int (unat r) + s * int (LB * of_bool go) = int (unat x) + s"
    and opr_spec: "int (unat (opr x v)) + s * int (LB * of_bool (cb (opr x v) x v)) = int (unat x) + s * int (unat v)"
begin

lemma carry_spec:
  assumes "aors_carry tst k i wp xp m = (fin, j, m')"
    and "wp = xp \<or> wp + i + k \<le> xp \<or> xp + i + k \<le> wp"
  shows "int (mval m' (wp + i) (j - i)) + s * int (LB ^ (j - i) * of_bool fin) = int (mval m (xp + i) (j - i)) + s
    \<and> i \<le> j \<and> j \<le> i + k \<and> (fin \<longrightarrow> j = i + k) \<and> only_in (wp + i) (j - i) m m'"
  using assms
proof (induction k arbitrary: i m)
  case 0
  then show ?case by auto
next
  case (Suc k)
  obtain r go where t: "tst (m (xp + i)) = (r, go)" by fastforce
  note ts = tst_spec [OF t]
  define m1 where "m1 = m(wp + i := r)"
  show ?case
  proof (cases go)
    case False
    with Suc.prems(1) t have "fin = False" "j = i + 1" "m' = m1"
      by (auto simp: Let_def m1_def)
    with ts False show ?thesis by (simp add: m1_def only_in_def)
  next
    case True
    with Suc.prems(1) t have rec: "aors_carry tst k (i + 1) wp xp m1 = (fin, j, m')"
      by (simp add: Let_def m1_def)
    have IH: "int (mval m' (wp + (i + 1)) (j - (i + 1))) + s * int (LB ^ (j - (i + 1)) * of_bool fin)
        = int (mval m1 (xp + (i + 1)) (j - (i + 1))) + s"
      "i + 1 \<le> j" "j \<le> i + 1 + k" "fin \<longrightarrow> j = i + 1 + k" "only_in (wp + (i + 1)) (j - (i + 1)) m1 m'"
      using Suc.IH [OF rec] Suc.prems(2) by auto
    obtain d where d: "j = i + 1 + d" using IH(2) le_Suc_ex by blast
    have v: "mval m1 (xp + (i + 1)) d = mval m (xp + (i + 1)) d"
      unfolding m1_def using Suc.prems(2) IH(3) d by (intro mval_upd_out) auto
    have r: "m' (wp + i) = r"
      using only_inD [OF IH(5), of "wp + i"] by (simp add: m1_def)
    have "int (mval m' (wp + i) (Suc d)) + s * int (LB ^ Suc d * of_bool fin)
        = int (unat r) + int LB * (int (mval m' (wp + (i + 1)) d) + s * int (LB ^ d * of_bool fin))"
      by (simp only: mval.simps r) (simp add: algebra_simps)
    also have "int (mval m' (wp + (i + 1)) d) + s * int (LB ^ d * of_bool fin) = int (mval m (xp + (i + 1)) d) + s"
      using IH(1) v by (simp add: d)
    also have "int (unat r) + int LB * (int (mval m (xp + (i + 1)) d) + s)
        = (int (unat r) + s * int LB) + int LB * int (mval m (xp + (i + 1)) d)"
      by (simp add: algebra_simps)
    also have "\<dots> = int (mval m (xp + i) (Suc d)) + s"
      using ts True by (simp add: algebra_simps)
    finally show ?thesis
      using IH d only_in_trans [of "wp + i" "Suc d" m m1 m'] only_in_mono [OF IH(5), of "wp + i" "Suc d"]
      by (simp add: m1_def)
  qed
qed

lemma aors_spec:
  assumes eq: "GMPN_AORS fn tst wp xp xn yp yn m = (c, m')" and le: "yn \<le> xn"
    and x: "MPN_SAME_OR_SEPARATE2_P wp xn xp xn" and y: "MPN_SAME_OR_SEPARATE2_P wp xn yp yn"
  shows "int (mval m' wp xn) + s * int (LB ^ xn * unat c) = int (mval m xp xn) + s * int (mval m yp yn)
    \<and> unat c \<le> 1 \<and> only_in wp xn m m'"
proof -
  define ph where "ph = (if yn \<noteq> 0
             then (let (c, m) = fn wp xp yp yn m
                   in if c \<noteq> 0 then aors_carry tst (xn - yn) yn wp xp m else (False, yn, m))
             else (False, yn, m))"
  obtain fin i m1 where ph1: "ph = (fin, i, m1)" by (cases ph) auto
  have P: "int (mval m1 wp i) + s * int (LB ^ i * of_bool fin) = int (mval m xp i) + s * int (mval m yp yn)
      \<and> i \<le> xn \<and> (fin \<longrightarrow> i = xn) \<and> only_in wp i m m1"
  proof (cases "yn = 0")
    case True
    then show ?thesis using ph1 by (auto simp: ph_def)
  next
    case False
    obtain c0 m0 where f: "fn wp xp yp yn m = (c0, m0)" by fastforce
    have fs: "int (mval m0 wp yn) + s * int (LB ^ yn * unat c0) = int (mval m xp yn) + s * int (mval m yp yn)"
      "unat c0 \<le> 1" "only_in wp yn m m0"
      using fn_spec [OF f] x y le False by (auto simp: overlap_defs)
    show ?thesis
    proof (cases "c0 = 0")
      case True
      then show ?thesis using ph1 f fs le False by (auto simp: ph_def)
    next
      case c0: False
      then have u: "unat c0 = 1" using fs(2) unat_gt_0 [of c0] by simp
      have ac: "aors_carry tst (xn - yn) yn wp xp m0 = (fin, i, m1)"
        using ph1 f c0 False by (simp add: ph_def)
      have sep: "wp = xp \<or> wp + yn + (xn - yn) \<le> xp \<or> xp + yn + (xn - yn) \<le> wp"
        using x le by (auto simp: overlap_defs)
      note cs = carry_spec [OF ac sep]
      obtain d where d: "i = yn + d" using cs le_Suc_ex by blast
      have xv: "mval m0 (xp + yn) d = mval m (xp + yn) d"
        using fs(3) sep cs d le by (intro only_in_mval [OF fs(3)]) auto
      have wv: "mval m1 wp yn = mval m0 wp yn"
        using cs by (intro only_in_mval [of "wp + yn" "i - yn"]) auto
      have "int (mval m1 wp i) + s * int (LB ^ i * of_bool fin)
          = int (mval m0 wp yn) + int (LB ^ yn) * (int (mval m1 (wp + yn) d) + s * int (LB ^ d * of_bool fin))"
        unfolding d mval_add [of m1 wp yn d] wv power_add by (simp add: algebra_simps)
      also have "\<dots> = (int (mval m0 wp yn) + s * int (LB ^ yn)) + int (LB ^ yn) * int (mval m (xp + yn) d)"
        using cs by (simp add: d xv distrib_left)
      also have "\<dots> = int (mval m xp i) + s * int (mval m yp yn)"
        using fs(1) unfolding d mval_add [of m xp yn d] by (simp add: u)
      finally have sum: "int (mval m1 wp i) + s * int (LB ^ i * of_bool fin) = int (mval m xp i) + s * int (mval m yp yn)" .
      have "only_in wp i m m0"
        by (rule only_in_mono [OF fs(3)]) (use d in auto)
      moreover have "only_in wp i m0 m1"
        by (rule only_in_mono [of "wp + yn" "i - yn"]) (use cs d in auto)
      ultimately have "only_in wp i m m1"
        by (rule only_in_trans)
      moreover have "i \<le> xn" "fin \<longrightarrow> i = xn"
        using cs le by (simp_all del: of_nat_mult)
      ultimately show ?thesis
        using sum by blast
    qed
  qed
  have res: "(c, m') = (if fin then (1, m1) else (0, if wp \<noteq> xp then GMPN_COPY_REST wp xp xn i m1 else m1))"
    using eq ph1 by (simp add: GMPN_AORS_def Let_def ph_def split: if_splits)
  show ?thesis
  proof (cases fin)
    case True
    then have "xn = i" "c = 1" "m' = m1" using res P by simp_all
    with P True show ?thesis by simp
  next
    case False
    have "wp = xp \<or> wp + xn \<le> xp \<or> xp + xn \<le> wp"
      using x by (auto simp: overlap_defs)
    then have m': "m' = mcopy (wp + i) (xp + i) (xn - i) m1" and c: "c = 0"
      using res False P GMPN_COPY_REST_spec [of wp xp xn i m1] by (auto split: if_splits)
    have xv: "mval m1 (xp + i) (xn - i) = mval m (xp + i) (xn - i)"
      using P x by (intro only_in_mval [of wp i]) (auto simp: overlap_defs)
    have wv: "mval m' wp i = mval m1 wp i"
      unfolding m' by (intro only_in_mval [OF only_in_mcopy]) simp
    have "mval m' wp xn = mval m' wp i + LB ^ i * mval m' (wp + i) (xn - i)"
      using P by (intro mval_split) simp
    also have "\<dots> = mval m1 wp i + LB ^ i * mval m (xp + i) (xn - i)"
      unfolding wv by (simp add: m' xv)
    finally have "int (mval m' wp xn) = (int (mval m xp i) + s * int (mval m yp yn)) + int (LB ^ i * mval m (xp + i) (xn - i))"
      using P False by simp
    also have "\<dots> = int (mval m xp xn) + s * int (mval m yp yn)"
      using mval_split [of i xn m xp] P by simp
    finally have "int (mval m' wp xn) = int (mval m xp xn) + s * int (mval m yp yn)" .
    moreover have "only_in wp xn m m'"
    proof (rule only_in_trans)
      show "only_in wp xn m m1"
        by (rule only_in_mono [of wp i]) (use P in simp_all)
      show "only_in wp xn m1 m'"
        unfolding m' by (rule only_in_mono [OF only_in_mcopy]) (use P in simp_all)
    qed
    ultimately show ?thesis by (simp add: c)
  qed
qed

lemma aors_1_loop_spec:
  assumes "aors_1_loop opr cb k i dst src n m = (c, m')" and "n = i + k"
    and "dst = src \<or> dst + n \<le> src \<or> src + n \<le> dst"
  shows "int (mval m' (dst + i) k) + s * int (LB ^ k * unat c) = int (mval m (src + i) k) + s
    \<and> unat c \<le> 1 \<and> only_in (dst + i) k m m'"
  using assms
proof (induction k arbitrary: i m)
  case 0
  then show ?case by auto
next
  case (Suc k)
  define x where "x = m (src + i)"
  define r where "r = opr x 1"
  define m1 where "m1 = m(dst + i := r)"
  note os = opr_spec [of x 1, folded r_def]
  have upd: "only_in (dst + i) (Suc k) m m1" by (simp add: m1_def only_in_def)
  have xv: "mval m1 (src + (i + 1)) k = mval m (src + (i + 1)) k"
    unfolding m1_def using Suc.prems by (intro mval_upd_out) auto
  show ?case
  proof (cases "cb r x 1")
    case True
    then have rec: "aors_1_loop opr cb k (i + 1) dst src n m1 = (c, m')"
      using Suc.prems(1) by (simp add: Let_def x_def r_def m1_def)
    have IH: "int (mval m' (dst + (i + 1)) k) + s * int (LB ^ k * unat c) = int (mval m1 (src + (i + 1)) k) + s"
      "unat c \<le> 1" "only_in (dst + (i + 1)) k m1 m'"
      using Suc.IH [OF rec] Suc.prems(2,3) by auto
    have rv: "m' (dst + i) = r"
      using only_inD [OF IH(3), of "dst + i"] by (simp add: m1_def)
    have "int (mval m' (dst + i) (Suc k)) + s * int (LB ^ Suc k * unat c)
        = int (unat r) + int LB * (int (mval m' (dst + (i + 1)) k) + s * int (LB ^ k * unat c))"
      by (simp add: rv algebra_simps)
    also have "\<dots> = (int (unat r) + s * int LB) + int LB * int (mval m (src + (i + 1)) k)"
      unfolding IH(1) xv by (simp add: algebra_simps)
    also have "\<dots> = int (mval m (src + i) (Suc k)) + s"
      using os True by (simp add: x_def algebra_simps)
    finally show ?thesis
      using IH only_in_trans [OF upd, of m'] only_in_mono [OF IH(3), of "dst + i" "Suc k"] by simp
  next
    case False
    then have c: "c = 0" and m': "m' = mcopy (dst + (i + 1)) (src + (i + 1)) k m1"
      using Suc.prems GMPN_COPY_REST_spec [of dst src n "i + 1" m1]
      by (auto simp: Let_def x_def r_def m1_def split: if_splits)
    have rv: "m' (dst + i) = r" unfolding m' by (subst mcopy_out) (simp_all add: m1_def)
    have "int (mval m' (dst + i) (Suc k)) = int (unat r) + int LB * int (mval m (src + (i + 1)) k)"
      using xv by (simp add: rv) (simp add: m')
    also have "\<dots> = int (mval m (src + i) (Suc k)) + s"
      using os False by (simp add: x_def)
    finally show ?thesis
      using only_in_trans [OF upd, of m'] only_in_mono [OF only_in_mcopy, of "dst + i" "dst + (i + 1)" k "Suc k" m1 "src + (i + 1)"]
      by (simp add: c m')
  qed
qed

lemma aors_1_spec:
  assumes eq: "GMPN_AORS_1 opr cb dst src n v m = (c, m')" and n: "1 \<le> n"
    and ov: "MPN_SAME_OR_SEPARATE_P dst src n"
  shows "int (mval m' dst n) + s * int (LB ^ n * unat c) = int (mval m src n) + s * int (unat v)
    \<and> unat c \<le> 1 \<and> only_in dst n m m'"
proof -
  obtain k where k: "n = Suc k" using n by (cases n) auto
  have sep: "dst = src \<or> dst + n \<le> src \<or> src + n \<le> dst"
    using ov by (auto simp: overlap_defs)
  define r where "r = opr (m src) v"
  define m1 where "m1 = m(dst := r)"
  note os = opr_spec [of "m src" v, folded r_def]
  have upd: "only_in dst n m m1" using k by (simp add: m1_def only_in_def)
  have xv: "mval m1 (src + 1) k = mval m (src + 1) k"
    unfolding m1_def using sep k by (intro mval_upd_out) auto
  show ?thesis
  proof (cases "cb r (m src) v")
    case True
    then have rec: "aors_1_loop opr cb k 1 dst src n m1 = (c, m')"
      using eq k by (simp add: GMPN_AORS_1_def Let_def r_def m1_def)
    have L: "int (mval m' (dst + 1) k) + s * int (LB ^ k * unat c) = int (mval m1 (src + 1) k) + s"
      "unat c \<le> 1" "only_in (dst + 1) k m1 m'"
      using aors_1_loop_spec [OF rec _ sep] k by auto
    have rv: "m' dst = r"
      using only_inD [OF L(3), of dst] by (simp add: m1_def)
    have "int (mval m' dst n) + s * int (LB ^ n * unat c)
        = int (unat r) + int LB * (int (mval m' (dst + 1) k) + s * int (LB ^ k * unat c))"
      by (simp add: k rv algebra_simps)
    also have "\<dots> = (int (unat r) + s * int LB) + int LB * int (mval m (src + 1) k)"
      unfolding L(1) xv by (simp add: algebra_simps)
    also have "\<dots> = int (mval m src n) + s * int (unat v)"
      using os True by (simp add: k algebra_simps)
    finally show ?thesis
      using L only_in_trans [OF upd, of m'] only_in_mono [OF L(3), of dst n] k by simp
  next
    case False
    then have c: "c = 0" and m': "m' = mcopy (dst + 1) (src + 1) k m1"
      using eq k sep GMPN_COPY_REST_spec [of dst src n 1 m1]
      by (auto simp: GMPN_AORS_1_def Let_def r_def m1_def split: if_splits)
    have rv: "m' dst = r" unfolding m' by (subst mcopy_out) (simp_all add: m1_def)
    have "int (mval m' dst n) = int (unat r) + int LB * int (mval m (src + 1) k)"
      using xv by (simp add: k rv) (simp add: m')
    also have "\<dots> = int (mval m src n) + s * int (unat v)"
      using os False by (simp add: k)
    finally show ?thesis
      using only_in_trans [OF upd, of m'] only_in_mono [OF only_in_mcopy, of dst "dst + 1" k n m1 "src + 1"] k
      by (simp add: c m')
  qed
qed

end

interpretation addition: aors 1 mpn_add_n add_test "(+)" GMPN_ADDCB
proof unfold_locales
  fix wp xp yp n m c m'
  assume "mpn_add_n wp xp yp n m = (c, m')" "MPN_SAME_OR_INCR_P wp xp n" "MPN_SAME_OR_INCR_P wp yp n"
  from mpn_add_n_spec [OF this]
  show "int (mval m' wp n) + 1 * int (LB ^ n * unat c) = int (mval m xp n) + 1 * int (mval m yp n)
      \<and> unat c \<le> 1 \<and> only_in wp n m m'"
    by (simp flip: of_nat_add of_nat_mult of_nat_power)
next
  fix x r go
  assume "add_test x = (r, go)"
  then have "r = x + 1" "go = (x + 1 < 1)" by (auto simp: add_test_def)
  then show "int (unat r) + 1 * int (LB * of_bool go) = int (unat x) + 1"
    using arg_cong [OF add_carry' [of x 1], of int] by simp
next
  fix x v
  show "int (unat (x + v)) + 1 * int (LB * of_bool (GMPN_ADDCB (x + v) x v)) = int (unat x) + 1 * int (unat v)"
    using arg_cong [OF add_carry' [of x v], of int] by (simp add: GMPN_ADDCB_def)
qed

interpretation subtraction: aors "-1" mpn_sub_n sub_test "(-)" GMPN_SUBCB
proof unfold_locales
  fix wp xp yp n m c m'
  assume "mpn_sub_n wp xp yp n m = (c, m')" "MPN_SAME_OR_INCR_P wp xp n" "MPN_SAME_OR_INCR_P wp yp n"
  from mpn_sub_n_spec [OF this]
  have "int (mval m' wp n + mval m yp n) = int (mval m xp n + LB ^ n * unat c)" "unat c \<le> 1" "only_in wp n m m'"
    by simp_all
  then show "int (mval m' wp n) + - 1 * int (LB ^ n * unat c) = int (mval m xp n) + - 1 * int (mval m yp n)
      \<and> unat c \<le> 1 \<and> only_in wp n m m'"
    by simp
next
  fix x r go
  assume "sub_test x = (r, go)"
  then have "r = x - 1" "go = (x < 1)" by (auto simp: sub_test_def)
  then show "int (unat r) + - 1 * int (LB * of_bool go) = int (unat x) + - 1"
    using arg_cong [OF sub_borrow [of x 1], of int] by simp
next
  fix x v
  show "int (unat (x - v)) + - 1 * int (LB * of_bool (GMPN_SUBCB (x - v) x v)) = int (unat x) + - 1 * int (unat v)"
    using arg_cong [OF sub_borrow [of x v], of int] by (simp add: GMPN_SUBCB_def)
qed

lemma mpn_add_spec:
  assumes "mpn_add wp xp xn yp yn m = (c, m')" and "yn \<le> xn"
    and "MPN_SAME_OR_SEPARATE2_P wp xn xp xn" and "MPN_SAME_OR_SEPARATE2_P wp xn yp yn"
  shows "mval m' wp xn + LB ^ xn * unat c = mval m xp xn + mval m yp yn" and "unat c \<le> 1"
    and "only_in wp xn m m'"
  using addition.aors_spec [OF assms(1) [unfolded mpn_add_def] assms(2-4)]
  by (simp_all flip: of_nat_add of_nat_mult of_nat_power)

lemma mpn_sub_spec:
  assumes "mpn_sub wp xp xn yp yn m = (c, m')" and "yn \<le> xn"
    and "MPN_SAME_OR_SEPARATE2_P wp xn xp xn" and "MPN_SAME_OR_SEPARATE2_P wp xn yp yn"
  shows "mval m' wp xn + mval m yp yn = mval m xp xn + LB ^ xn * unat c" and "unat c \<le> 1"
    and "only_in wp xn m m'"
proof -
  note sp = subtraction.aors_spec [OF assms(1) [unfolded mpn_sub_def] assms(2-4)]
  then have "int (mval m' wp xn + mval m yp yn) = int (mval m xp xn + LB ^ xn * unat c)"
    by simp
  then show "mval m' wp xn + mval m yp yn = mval m xp xn + LB ^ xn * unat c"
    by (simp only: of_nat_eq_iff)
  show "unat c \<le> 1" "only_in wp xn m m'"
    using sp by blast+
qed

lemma mpn_add_1_spec:
  assumes "mpn_add_1 dst src n v m = (c, m')" and "1 \<le> n" and "MPN_SAME_OR_SEPARATE_P dst src n"
  shows "mval m' dst n + LB ^ n * unat c = mval m src n + unat v" and "unat c \<le> 1"
    and "only_in dst n m m'"
proof -
  note sp = addition.aors_1_spec [OF assms(1) [unfolded mpn_add_1_def] assms(2-3)]
  then have "int (mval m' dst n + LB ^ n * unat c) = int (mval m src n + unat v)"
    by simp
  then show "mval m' dst n + LB ^ n * unat c = mval m src n + unat v"
    by (simp only: of_nat_eq_iff)
  show "unat c \<le> 1" "only_in dst n m m'"
    using sp by blast+
qed

lemma mpn_sub_1_spec:
  assumes "mpn_sub_1 dst src n v m = (c, m')" and "1 \<le> n" and "MPN_SAME_OR_SEPARATE_P dst src n"
  shows "mval m' dst n + unat v = mval m src n + LB ^ n * unat c" and "unat c \<le> 1"
    and "only_in dst n m m'"
proof -
  note sp = subtraction.aors_1_spec [OF assms(1) [unfolded mpn_sub_1_def] assms(2-3)]
  then have "int (mval m' dst n + unat v) = int (mval m src n + LB ^ n * unat c)"
    by simp
  then show "mval m' dst n + unat v = mval m src n + LB ^ n * unat c"
    by (simp only: of_nat_eq_iff)
  show "unat c \<le> 1" "only_in dst n m m'"
    using sp by blast+
qed

section \<open>Comparison\<close>

text \<open>\<open>__GMPN_CMP\<close>: the loop looks at index \<open>i - 1\<close> first.\<close>

fun mpn_cmp :: "mem \<Rightarrow> ptr \<Rightarrow> ptr \<Rightarrow> nat \<Rightarrow> int" where
  "mpn_cmp m xp yp 0 = 0"
| "mpn_cmp m xp yp (Suc i) =
     (let x = m (xp + i);
          y = m (yp + i)
      in if x \<noteq> y then (if x > y then 1 else -1) else mpn_cmp m xp yp i)"

text \<open>A difference in a high limb outweighs everything below it.\<close>

lemma high_limb_less:
  fixes a b :: nat
  assumes "a < b" "x < LB ^ n"
  shows "x + LB ^ n * a < y + LB ^ n * b"
proof -
  have "LB ^ n * (a + 1) \<le> LB ^ n * b"
    using assms(1) by (intro mult_le_mono2) simp
  then show ?thesis
    using assms(2) by simp
qed

lemma mpn_cmp_spec:
  "mpn_cmp m xp yp n = (if mval m xp n < mval m yp n then -1 else if mval m xp n = mval m yp n then 0 else 1)"
proof (induction n)
  case 0
  then show ?case by simp
next
  case (Suc i)
  consider "m (xp + i) = m (yp + i)" | "unat (m (xp + i)) < unat (m (yp + i))" | "unat (m (yp + i)) < unat (m (xp + i))"
    unfolding limb_eq_iff by linarith
  then show ?case
  proof cases
    case 1
    then show ?thesis
      by (simp add: Suc.IH mval_high del: mval.simps)
  next
    case 2
    then have d: "m (xp + i) \<noteq> m (yp + i)" "\<not> m (yp + i) < m (xp + i)"
      unfolding limb_less_iff by auto
    from high_limb_less [OF 2 mval_less [of m xp i], of "mval m yp i"]
    have "mval m xp (Suc i) < mval m yp (Suc i)"
      unfolding mval_high .
    with d show ?thesis
      by (simp add: Let_def del: mval.simps)
  next
    case 3
    then have d: "m (xp + i) \<noteq> m (yp + i)" "m (yp + i) < m (xp + i)"
      unfolding limb_less_iff by auto
    from high_limb_less [OF 3 mval_less [of m yp i], of "mval m xp i"]
    have "mval m yp (Suc i) < mval m xp (Suc i)"
      unfolding mval_high .
    with d show ?thesis
      by (simp add: Let_def del: mval.simps)
  qed
qed

section \<open>Shifts\<close>

text \<open>\<open>mpn_lshift\<close> works from the top limb down: \<open>i\<close> is the loop counter, and the decremented pointers
  of the loop are \<open>up + i\<close> and \<open>rp + i + 1\<close>.\<close>

fun lshift_loop :: "nat \<Rightarrow> ptr \<Rightarrow> ptr \<Rightarrow> nat \<Rightarrow> nat \<Rightarrow> limb \<Rightarrow> mem \<Rightarrow> mem" where
  "lshift_loop 0 rp up cnt tnc high_limb m = m(rp := high_limb)"
| "lshift_loop (Suc i) rp up cnt tnc high_limb m =
     (let low_limb = m (up + i);
          m = m(rp + i + 1 := high_limb OR drop_bit tnc low_limb);
          high_limb = push_bit cnt low_limb
      in lshift_loop i rp up cnt tnc high_limb m)"

definition mpn_lshift :: "ptr \<Rightarrow> ptr \<Rightarrow> nat \<Rightarrow> nat \<Rightarrow> mem \<Rightarrow> limb \<times> mem" where
  "mpn_lshift rp up n cnt m =
     (let tnc = 32 - cnt;
          low_limb = m (up + (n - 1));
          retval = drop_bit tnc low_limb;
          high_limb = push_bit cnt low_limb
      in (retval, lshift_loop (n - 1) rp up cnt tnc high_limb m))"

fun rshift_loop :: "nat \<Rightarrow> ptr \<Rightarrow> ptr \<Rightarrow> nat \<Rightarrow> nat \<Rightarrow> limb \<Rightarrow> mem \<Rightarrow> mem" where
  "rshift_loop 0 rp up cnt tnc low_limb m = m(rp := low_limb)"
| "rshift_loop (Suc i) rp up cnt tnc low_limb m =
     (let high_limb = m up;
          m = m(rp := low_limb OR push_bit tnc high_limb);
          low_limb = drop_bit cnt high_limb
      in rshift_loop i (rp + 1) (up + 1) cnt tnc low_limb m)"

definition mpn_rshift :: "ptr \<Rightarrow> ptr \<Rightarrow> nat \<Rightarrow> nat \<Rightarrow> mem \<Rightarrow> limb \<times> mem" where
  "mpn_rshift rp up n cnt m =
     (let tnc = 32 - cnt;
          high_limb = m up;
          retval = push_bit tnc high_limb;
          low_limb = drop_bit cnt high_limb
      in (retval, rshift_loop (n - 1) rp (up + 1) cnt tnc low_limb m))"

text \<open>Shifting a limb by \<open>cnt\<close> splits \<open>2^cnt\<close> times its value at the limb boundary.\<close>

lemma limb_shift_split:
  assumes "cnt \<le> 32"
  shows "2 ^ cnt * unat (x :: limb) = unat (push_bit cnt x) + LB * unat (drop_bit (32 - cnt) x)"
proof -
  have LB: "LB = 2 ^ cnt * 2 ^ (32 - cnt)"
    using assms by (simp add: LB_power flip: power_add)
  have "2 ^ cnt * unat x = 2 ^ cnt * (unat x mod 2 ^ (32 - cnt) + 2 ^ (32 - cnt) * (unat x div 2 ^ (32 - cnt)))"
    by simp
  also have "\<dots> = 2 ^ cnt * (unat x mod 2 ^ (32 - cnt)) + LB * (unat x div 2 ^ (32 - cnt))"
    unfolding LB by (simp only: algebra_simps)
  finally show ?thesis
    using assms by (simp only: unat_push_limb unat_drop_limb)
qed

lemma drop_top_less: "cnt \<le> 32 \<Longrightarrow> unat (drop_bit (32 - cnt) (x :: limb)) < 2 ^ cnt"
proof -
  assume "cnt \<le> 32"
  then have "LB = 2 ^ cnt * 2 ^ (32 - cnt)"
    by (simp add: LB_power flip: power_add)
  then show ?thesis
    using unat_lt_LB [of x] by (simp only: unat_drop_limb less_mult_imp_div_less)
qed

lemma lshift_loop_spec:
  assumes "cnt \<le> 32" and "up \<le> rp \<or> rp + Suc i \<le> up"
    and "lshift_loop i rp up cnt (32 - cnt) (push_bit cnt x) m = m'"
  shows "mval m' rp (Suc i) = LB ^ i * unat (push_bit cnt x) + 2 ^ cnt * mval m up i \<and> only_in rp (Suc i) m m'"
  using assms(2,3)
proof (induction i arbitrary: x m)
  case 0
  then show ?case by (auto simp: only_in_def)
next
  case (Suc i)
  define lo where "lo = m (up + i)"
  define hi where "hi = push_bit cnt x OR drop_bit (32 - cnt) lo"
  define m1 where "m1 = m(rp + Suc i := hi)"
  have uhi: "unat hi = unat (push_bit cnt x) + unat (drop_bit (32 - cnt) lo)"
    unfolding hi_def by (rule unat_push_or) (rule drop_top_less [OF assms(1)])
  have ne: "lshift_loop i rp up cnt (32 - cnt) (push_bit cnt lo) m1 = m'"
    using Suc.prems by (simp add: Let_def lo_def hi_def m1_def)
  have IH: "mval m' rp (Suc i) = LB ^ i * unat (push_bit cnt lo) + 2 ^ cnt * mval m1 up i"
    "only_in rp (Suc i) m1 m'"
    using Suc.IH [OF _ ne] Suc.prems(1) by auto
  have v: "mval m1 up i = mval m up i"
    unfolding m1_def using Suc.prems(1) by (intro mval_upd_out) auto
  have top: "m' (rp + Suc i) = hi"
    using only_inD [OF IH(2), of "rp + Suc i"] by (simp add: m1_def)
  have "mval m' rp (Suc (Suc i)) = mval m' rp (Suc i) + LB ^ Suc i * unat hi"
    unfolding mval_high [of m' rp "Suc i"] top ..
  also have "\<dots> = LB ^ Suc i * unat (push_bit cnt x)
      + (LB ^ i * (unat (push_bit cnt lo) + LB * unat (drop_bit (32 - cnt) lo)) + 2 ^ cnt * mval m up i)"
    unfolding IH(1) v uhi by (simp add: algebra_simps)
  also have "\<dots> = LB ^ Suc i * unat (push_bit cnt x) + 2 ^ cnt * mval m up (Suc i)"
    unfolding limb_shift_split [OF assms(1), symmetric] mval_high lo_def by (simp add: algebra_simps)
  finally show ?case
    using only_in_trans [of rp "Suc (Suc i)" m m1 m'] only_in_mono [OF IH(2), of rp "Suc (Suc i)"]
    by (simp add: m1_def)
qed

lemma mpn_lshift_spec:
  assumes "mpn_lshift rp up n cnt m = (r, m')" and "1 \<le> n" and "cnt < 32"
    and "MPN_SAME_OR_DECR_P rp up n"
  shows "mval m' rp n + LB ^ n * unat r = 2 ^ cnt * mval m up n" and "unat r < 2 ^ cnt"
    and "only_in rp n m m'"
proof -
  obtain i where n: "n = Suc i" using assms(2) by (cases n) auto
  have c: "cnt \<le> 32" using assms(3) by simp
  define x where "x = m (up + i)"
  have r: "r = drop_bit (32 - cnt) x" and L: "lshift_loop i rp up cnt (32 - cnt) (push_bit cnt x) m = m'"
    using assms(1) by (simp_all add: mpn_lshift_def Let_def n x_def)
  have ov: "up \<le> rp \<or> rp + Suc i \<le> up"
    using assms(4) n by (auto simp: overlap_defs)
  note sp = lshift_loop_spec [OF c ov L]
  have "mval m' rp n + LB ^ n * unat r
      = LB ^ i * (unat (push_bit cnt x) + LB * unat (drop_bit (32 - cnt) x)) + 2 ^ cnt * mval m up i"
    using sp by (simp add: n r algebra_simps del: mval.simps)
  also have "\<dots> = 2 ^ cnt * mval m up n"
    unfolding limb_shift_split [OF c, symmetric] n mval_high x_def by (simp add: algebra_simps)
  finally show "mval m' rp n + LB ^ n * unat r = 2 ^ cnt * mval m up n" .
  show "unat r < 2 ^ cnt" unfolding r by (rule drop_top_less [OF c])
  show "only_in rp n m m'" using sp by (simp add: n)
qed

lemma unat_or_push: "unat y < 2 ^ k \<Longrightarrow> unat (y OR push_bit k x :: limb) = unat y + unat (push_bit k x)"
  using unat_push_or [of y k x] by (simp add: or.commute)

lemma drop_low_less: "cnt \<le> 32 \<Longrightarrow> unat (drop_bit cnt (x :: limb)) < 2 ^ (32 - cnt)"
  using drop_top_less [of "32 - cnt" x] by simp

text \<open>The same split from the other side: the limb's low bits at the top of the limb below.\<close>

lemma limb_rshift_split:
  assumes "cnt \<le> 32"
  shows "LB * unat (x :: limb) = 2 ^ cnt * (unat (push_bit (32 - cnt) x) + LB * unat (drop_bit cnt x))"
proof -
  have "2 ^ cnt * (2 ^ (32 - cnt) * unat x) = 2 ^ cnt * (unat (push_bit (32 - cnt) x) + LB * unat (drop_bit cnt x))"
    using limb_shift_split [of "32 - cnt" x] assms by simp
  moreover have "LB = 2 ^ cnt * 2 ^ (32 - cnt)"
    using assms by (simp add: LB_power flip: power_add)
  ultimately show ?thesis
    by (metis mult.assoc)
qed

lemma rshift_loop_spec:
  assumes "cnt \<le> 32" and "rp < up \<or> up + i \<le> rp"
    and "unat low < 2 ^ (32 - cnt)"
    and "rshift_loop i rp up cnt (32 - cnt) low m = m'"
  shows "2 ^ cnt * mval m' rp (Suc i) = 2 ^ cnt * unat low + LB * mval m up i \<and> only_in rp (Suc i) m m'"
  using assms(2-4)
proof (induction i arbitrary: rp up low m)
  case 0
  then show ?case by (auto simp: only_in_def)
next
  case (Suc i)
  define hi where "hi = m up"
  define w where "w = low OR push_bit (32 - cnt) hi"
  define m1 where "m1 = m(rp := w)"
  have uw: "unat w = unat low + unat (push_bit (32 - cnt) hi)"
    unfolding w_def by (rule unat_or_push) (rule Suc.prems(2))
  have ne: "rshift_loop i (rp + 1) (up + 1) cnt (32 - cnt) (drop_bit cnt hi) m1 = m'"
    using Suc.prems by (simp add: Let_def hi_def w_def m1_def)
  have IH: "2 ^ cnt * mval m' (rp + 1) (Suc i) = 2 ^ cnt * unat (drop_bit cnt hi) + LB * mval m1 (up + 1) i"
    "only_in (rp + 1) (Suc i) m1 m'"
    using Suc.IH [OF _ drop_low_less [OF assms(1)] ne] Suc.prems(1) by auto
  have v: "mval m1 (up + 1) i = mval m (up + 1) i"
    unfolding m1_def using Suc.prems(1) by (intro mval_upd_out) auto
  have low: "m' rp = w"
    using only_inD [OF IH(2), of rp] by (simp add: m1_def)
  have "2 ^ cnt * mval m' rp (Suc (Suc i)) = 2 ^ cnt * unat w + LB * (2 ^ cnt * mval m' (rp + 1) (Suc i))"
    unfolding mval.simps(2) [of m' rp] low by (simp add: algebra_simps)
  also have "\<dots> = 2 ^ cnt * unat low
      + (2 ^ cnt * (unat (push_bit (32 - cnt) hi) + LB * unat (drop_bit cnt hi)) + LB * (LB * mval m (up + 1) i))"
    unfolding IH(1) v uw by (simp only: algebra_simps)
  also have "\<dots> = 2 ^ cnt * unat low + LB * mval m up (Suc i)"
    unfolding limb_rshift_split [OF assms(1), symmetric] hi_def by (simp add: algebra_simps)
  finally show ?case
    using only_in_trans [of rp "Suc (Suc i)" m m1 m'] only_in_mono [OF IH(2), of rp "Suc (Suc i)"]
    by (simp add: m1_def)
qed

lemma mpn_rshift_spec:
  assumes "mpn_rshift rp up n cnt m = (r, m')" and "1 \<le> n" and "cnt \<le> 32"
    and "MPN_SAME_OR_INCR_P rp up n"
  shows "LB * mval m up n = 2 ^ cnt * (LB * mval m' rp n + unat r)" and "only_in rp n m m'"
proof -
  obtain i where n: "n = Suc i" using assms(2) by (cases n) auto
  define x where "x = m up"
  have r: "r = push_bit (32 - cnt) x" and L: "rshift_loop i rp (up + 1) cnt (32 - cnt) (drop_bit cnt x) m = m'"
    using assms(1) by (simp_all add: mpn_rshift_def Let_def n x_def)
  have ov: "rp < up + 1 \<or> up + 1 + i \<le> rp"
    using assms(4) n by (auto simp: overlap_defs)
  note sp = rshift_loop_spec [OF assms(3) ov drop_low_less [OF assms(3)] L]
  have "2 ^ cnt * (LB * mval m' rp n + unat r) = LB * (2 ^ cnt * mval m' rp n) + 2 ^ cnt * unat r"
    by (simp only: algebra_simps)
  also have "\<dots> = 2 ^ cnt * (unat (push_bit (32 - cnt) x) + LB * unat (drop_bit cnt x)) + LB * (LB * mval m (up + 1) i)"
    using sp unfolding n r by (simp only: algebra_simps)
  also have "\<dots> = LB * mval m up n"
    unfolding limb_rshift_split [OF assms(3), symmetric] n x_def by (simp add: algebra_simps)
  finally show "LB * mval m up n = 2 ^ cnt * (LB * mval m' rp n + unat r)" ..
  show "only_in rp n m m'" using sp by (simp add: n)
qed

section \<open>Increment and decrement without a carry out\<close>

text \<open>\<open>mpn_incr_u\<close> and \<open>mpn_decr_u\<close> propagate the carry as far as it goes, with no bound: the caller
  promises that it stops inside the region.  The loops are partial functions, and the
  specifications prove that they return under that promise.\<close>

partial_function (option) incr_loop :: "ptr \<Rightarrow> mem \<Rightarrow> mem option" where
  "incr_loop p m =
     (let p = p + 1;
          x = m p + 1;
          m = m(p := x)
      in if x = 0 then incr_loop p m else Some m)"

definition mpn_incr_u :: "ptr \<Rightarrow> limb \<Rightarrow> mem \<Rightarrow> mem option" where
  "mpn_incr_u p incr m =
     (let x = m p + incr;
          m = m(p := x)
      in if x < incr then incr_loop p m else Some m)"

partial_function (option) decr_loop :: "ptr \<Rightarrow> mem \<Rightarrow> mem option" where
  "decr_loop p m =
     (let p = p + 1;
          x = m p;
          m = m(p := x - 1)
      in if x = 0 then decr_loop p m else Some m)"

definition mpn_decr_u :: "ptr \<Rightarrow> limb \<Rightarrow> mem \<Rightarrow> mem option" where
  "mpn_decr_u p incr m =
     (let x = m p;
          m = m(p := x - incr)
      in if x < incr then decr_loop p m else Some m)"

text \<open>One limb of the chain: the low limb and a carry into the rest.\<close>

lemma only_in_step:
  assumes "only_in (p + 1) n (m(p := x)) m'"
  shows "only_in p (Suc n) m m'" and "mval m' p (Suc n) = unat x + LB * mval m' (p + 1) n"
proof -
  have "m' p = x" using only_inD [OF assms, of p] by simp
  then show "mval m' p (Suc n) = unat x + LB * mval m' (p + 1) n" by simp
  show "only_in p (Suc n) m m'"
  proof (rule only_in_trans)
    show "only_in p (Suc n) m (m(p := x))" by simp
    show "only_in p (Suc n) (m(p := x)) m'" by (rule only_in_mono [OF assms]) simp_all
  qed
qed

lemma incr_loop_spec:
  "mval m (p + 1) n + 1 < LB ^ n \<Longrightarrow>
   \<exists>m'. incr_loop p m = Some m' \<and> mval m' (p + 1) n = mval m (p + 1) n + 1 \<and> only_in (p + 1) n m m'"
proof (induction n arbitrary: p m)
  case 0
  then show ?case by simp
next
  case (Suc n)
  define q where "q = p + 1"
  define x where "x = m q + 1"
  define m1 where "m1 = m(q := x)"
  have eq: "incr_loop p m = (if x = 0 then incr_loop q m1 else Some m1)"
    by (subst incr_loop.simps) (simp add: Let_def q_def x_def m1_def)
  have V: "mval m q (Suc n) = unat (m q) + LB * mval m (q + 1) n" by simp
  have v1: "mval m1 (q + 1) n = mval m (q + 1) n" unfolding m1_def by simp
  have x: "unat x + LB * of_bool (x < 1) = unat (m q) + 1"
    using add_carry' [of "m q" 1] by (simp add: x_def)
  show ?case
  proof (cases "x = 0")
    case False
    then have u: "unat x = unat (m q) + 1" using x by simp
    have "mval m1 q (Suc n) = mval m q (Suc n) + 1" using v1 u by (simp add: m1_def)
    moreover have "only_in q (Suc n) m m1" by (simp add: m1_def)
    ultimately show ?thesis
      using eq False by (simp add: q_def del: mval.simps)
  next
    case True
    then have u: "unat (m q) + 1 = LB" using x by simp
    have "mval m1 (q + 1) n + 1 < LB ^ n"
    proof -
      have "LB * (mval m (q + 1) n + 1) < LB * LB ^ n"
        using Suc.prems u V by (simp add: q_def)
      then show ?thesis using v1 by (simp only: mult_less_cancel1 v1)
    qed
    from Suc.IH [OF this] obtain m' where
      m': "incr_loop q m1 = Some m'" "mval m' (q + 1) n = mval m1 (q + 1) n + 1" "only_in (q + 1) n m1 m'"
      by blast
    note st = only_in_step [OF m'(3) [unfolded m1_def]]
    have "mval m' q (Suc n) = mval m q (Suc n) + 1"
      unfolding st(2) m'(2) v1 V using u True by (simp add: algebra_simps)
    then show ?thesis
      using eq True m'(1) st(1) by (simp add: q_def del: mval.simps)
  qed
qed

lemma mpn_incr_u_spec:
  assumes "mval m p n + unat v < LB ^ n"
  shows "\<exists>m'. mpn_incr_u p v m = Some m' \<and> mval m' p n = mval m p n + unat v \<and> (v \<noteq> 0 \<longrightarrow> only_in p n m m') \<and> only_in p (max n 1) m m'"
proof (cases n)
  case 0
  then have "v = 0" using assms by (simp add: unat_eq_0)
  then show ?thesis using 0 by (simp add: mpn_incr_u_def Let_def)
next
  case (Suc k)
  define x where "x = m p + v"
  define m1 where "m1 = m(p := x)"
  have eq: "mpn_incr_u p v m = (if x < v then incr_loop p m1 else Some m1)"
    by (simp add: mpn_incr_u_def Let_def x_def m1_def)
  have v1: "mval m1 (p + 1) k = mval m (p + 1) k" unfolding m1_def by simp
  have V: "mval m p (Suc k) = unat (m p) + LB * mval m (p + 1) k" by simp
  have x: "unat x + LB * of_bool (x < v) = unat (m p) + unat v"
    unfolding x_def by (rule add_carry')
  show ?thesis
  proof (cases "x < v")
    case False
    then have u: "unat x = unat (m p) + unat v" using x by simp
    have "mval m1 p (Suc k) = mval m p (Suc k) + unat v" using v1 u by (simp add: m1_def)
    moreover have "only_in p (Suc k) m m1" by (simp add: m1_def)
    ultimately show ?thesis
      using eq False Suc by (simp del: mval.simps)
  next
    case True
    then have u: "unat x + LB = unat (m p) + unat v" using x by simp
    have "LB * (mval m (p + 1) k + 1) < LB * LB ^ k"
      using assms u V Suc by simp
    then have "mval m1 (p + 1) k + 1 < LB ^ k" by (simp only: mult_less_cancel1 v1)
    from incr_loop_spec [OF this] obtain m' where
      m': "incr_loop p m1 = Some m'" "mval m' (p + 1) k = mval m1 (p + 1) k + 1" "only_in (p + 1) k m1 m'"
      by blast
    note st = only_in_step [OF m'(3) [unfolded m1_def]]
    have "mval m' p (Suc k) = mval m p (Suc k) + unat v"
      unfolding st(2) m'(2) v1 V using u by (simp add: algebra_simps)
    then show ?thesis
      using eq True m'(1) st(1) Suc by (simp del: mval.simps)
  qed
qed

lemma decr_loop_spec:
  "1 \<le> mval m (p + 1) n \<Longrightarrow>
   \<exists>m'. decr_loop p m = Some m' \<and> mval m' (p + 1) n + 1 = mval m (p + 1) n \<and> only_in (p + 1) n m m'"
proof (induction n arbitrary: p m)
  case 0
  then show ?case by simp
next
  case (Suc n)
  define q where "q = p + 1"
  define x where "x = m q"
  define m1 where "m1 = m(q := x - 1)"
  have eq: "decr_loop p m = (if x = 0 then decr_loop q m1 else Some m1)"
    by (subst decr_loop.simps) (simp add: Let_def q_def x_def m1_def)
  have V: "mval m q (Suc n) = unat x + LB * mval m (q + 1) n" by (simp add: x_def)
  have v1: "mval m1 (q + 1) n = mval m (q + 1) n" unfolding m1_def by simp
  have x: "unat (x - 1) + 1 = unat x + LB * of_bool (x < 1)"
    using sub_borrow [of x 1] by simp
  show ?case
  proof (cases "x = 0")
    case False
    then have u: "unat (x - 1) + 1 = unat x" using x by simp
    have "mval m1 q (Suc n) + 1 = mval m q (Suc n)" unfolding V using v1 u by (simp add: m1_def)
    moreover have "only_in q (Suc n) m m1" by (simp add: m1_def)
    ultimately show ?thesis
      using eq False by (simp add: q_def del: mval.simps)
  next
    case True
    then have u: "unat (x - 1) + 1 = LB" using x by simp
    have "1 \<le> mval m1 (q + 1) n"
      using Suc.prems V v1 True by (simp add: q_def Suc_le_eq)
    from Suc.IH [OF this] obtain m' where
      m': "decr_loop q m1 = Some m'" "mval m' (q + 1) n + 1 = mval m1 (q + 1) n" "only_in (q + 1) n m1 m'"
      by blast
    note st = only_in_step [OF m'(3) [unfolded m1_def]]
    have "mval m' q (Suc n) + 1 = mval m q (Suc n)"
      unfolding st(2) V v1 [symmetric] m'(2) [symmetric] using u True by (simp add: algebra_simps)
    then show ?thesis
      using eq True m'(1) st(1) by (simp add: q_def del: mval.simps)
  qed
qed

lemma mpn_decr_u_spec:
  assumes "unat v \<le> mval m p n"
  shows "\<exists>m'. mpn_decr_u p v m = Some m' \<and> mval m' p n + unat v = mval m p n \<and> (v \<noteq> 0 \<longrightarrow> only_in p n m m') \<and> only_in p (max n 1) m m'"
proof (cases n)
  case 0
  then have "v = 0" using assms by (simp add: unat_eq_0)
  then show ?thesis using 0 by (simp add: mpn_decr_u_def Let_def)
next
  case (Suc k)
  define x where "x = m p"
  define m1 where "m1 = m(p := x - v)"
  have eq: "mpn_decr_u p v m = (if x < v then decr_loop p m1 else Some m1)"
    by (simp add: mpn_decr_u_def Let_def x_def m1_def)
  have v1: "mval m1 (p + 1) k = mval m (p + 1) k" unfolding m1_def by simp
  have V: "mval m p (Suc k) = unat x + LB * mval m (p + 1) k" by (simp add: x_def)
  have x: "unat (x - v) + unat v = unat x + LB * of_bool (x < v)"
    by (rule sub_borrow)
  show ?thesis
  proof (cases "x < v")
    case False
    then have u: "unat (x - v) + unat v = unat x" using x by simp
    have "mval m1 p (Suc k) + unat v = mval m p (Suc k)" unfolding V using v1 u by (simp add: m1_def)
    moreover have "only_in p (Suc k) m m1" by (simp add: m1_def)
    ultimately show ?thesis
      using eq False Suc by (simp del: mval.simps)
  next
    case True
    then have u: "unat (x - v) + unat v = unat x + LB" using x by simp
    have "unat x < unat v" using True unfolding limb_less_iff .
    then have "mval m (p + 1) k \<noteq> 0"
      using assms V Suc by (intro notI) simp
    then have "1 \<le> mval m1 (p + 1) k" unfolding v1 by simp
    from decr_loop_spec [OF this] obtain m' where
      m': "decr_loop p m1 = Some m'" "mval m' (p + 1) k + 1 = mval m1 (p + 1) k" "only_in (p + 1) k m1 m'"
      by blast
    note st = only_in_step [OF m'(3) [unfolded m1_def]]
    have "mval m' p (Suc k) + unat v = mval m p (Suc k)"
      unfolding st(2) V v1 [symmetric] m'(2) [symmetric] using u by (simp add: algebra_simps)
    then show ?thesis
      using eq True m'(1) st(1) Suc by (simp del: mval.simps)
  qed
qed

section \<open>Logical operations\<close>

fun mpn_com_n :: "ptr \<Rightarrow> ptr \<Rightarrow> nat \<Rightarrow> mem \<Rightarrow> mem" where
  "mpn_com_n d s 0 m = m"
| "mpn_com_n d s (Suc n) m = mpn_com_n (d + 1) (s + 1) n (m(d := NOT (m s)))"

text \<open>\<open>MPN_LOGOPS_N_INLINE\<close>, with the limb operation of the macro's argument.\<close>

fun MPN_LOGOPS_N :: "(limb \<Rightarrow> limb \<Rightarrow> limb) \<Rightarrow> ptr \<Rightarrow> ptr \<Rightarrow> ptr \<Rightarrow> nat \<Rightarrow> mem \<Rightarrow> mem" where
  "MPN_LOGOPS_N f d s1 s2 0 m = m"
| "MPN_LOGOPS_N f d s1 s2 (Suc n) m =
     MPN_LOGOPS_N f (d + 1) (s1 + 1) (s2 + 1) n (m(d := f (m s1) (m s2)))"

definition mpn_and_n :: "ptr \<Rightarrow> ptr \<Rightarrow> ptr \<Rightarrow> nat \<Rightarrow> mem \<Rightarrow> mem" where
  "mpn_and_n = MPN_LOGOPS_N (\<lambda>a b. a AND b)"

definition mpn_andn_n :: "ptr \<Rightarrow> ptr \<Rightarrow> ptr \<Rightarrow> nat \<Rightarrow> mem \<Rightarrow> mem" where
  "mpn_andn_n = MPN_LOGOPS_N (\<lambda>a b. a AND NOT b)"

definition mpn_nand_n :: "ptr \<Rightarrow> ptr \<Rightarrow> ptr \<Rightarrow> nat \<Rightarrow> mem \<Rightarrow> mem" where
  "mpn_nand_n = MPN_LOGOPS_N (\<lambda>a b. NOT (a AND b))"

definition mpn_ior_n :: "ptr \<Rightarrow> ptr \<Rightarrow> ptr \<Rightarrow> nat \<Rightarrow> mem \<Rightarrow> mem" where
  "mpn_ior_n = MPN_LOGOPS_N (\<lambda>a b. a OR b)"

definition mpn_iorn_n :: "ptr \<Rightarrow> ptr \<Rightarrow> ptr \<Rightarrow> nat \<Rightarrow> mem \<Rightarrow> mem" where
  "mpn_iorn_n = MPN_LOGOPS_N (\<lambda>a b. a OR NOT b)"

definition mpn_nior_n :: "ptr \<Rightarrow> ptr \<Rightarrow> ptr \<Rightarrow> nat \<Rightarrow> mem \<Rightarrow> mem" where
  "mpn_nior_n = MPN_LOGOPS_N (\<lambda>a b. NOT (a OR b))"

definition mpn_xor_n :: "ptr \<Rightarrow> ptr \<Rightarrow> ptr \<Rightarrow> nat \<Rightarrow> mem \<Rightarrow> mem" where
  "mpn_xor_n = MPN_LOGOPS_N (\<lambda>a b. a XOR b)"

definition mpn_xnor_n :: "ptr \<Rightarrow> ptr \<Rightarrow> ptr \<Rightarrow> nat \<Rightarrow> mem \<Rightarrow> mem" where
  "mpn_xnor_n = MPN_LOGOPS_N (\<lambda>a b. NOT (a XOR b))"

lemma MPN_LOGOPS_N_spec:
  assumes "MPN_SAME_OR_INCR_P d s1 n" "MPN_SAME_OR_INCR_P d s2 n"
  shows "MPN_LOGOPS_N f d s1 s2 n m =
    (\<lambda>a. if d \<le> a \<and> a < d + n then f (m (s1 + (a - d))) (m (s2 + (a - d))) else m a)"
proof -
  have "d \<le> s1 \<or> s1 + n \<le> d" "d \<le> s2 \<or> s2 + n \<le> d"
    using assms by (auto simp: overlap_defs)
  then show ?thesis
  proof (induction n arbitrary: d s1 s2 m)
    case 0
    then show ?case by (auto simp: fun_eq_iff)
  next
    case (Suc n)
    have "MPN_LOGOPS_N f (d + 1) (s1 + 1) (s2 + 1) n (m(d := f (m s1) (m s2))) =
      (\<lambda>a. if d + 1 \<le> a \<and> a < d + 1 + n
           then f ((m(d := f (m s1) (m s2))) (s1 + 1 + (a - (d + 1)))) ((m(d := f (m s1) (m s2))) (s2 + 1 + (a - (d + 1))))
           else (m(d := f (m s1) (m s2))) a)"
      by (rule Suc.IH) (use Suc.prems in auto)
    then show ?case
      using Suc.prems by (auto simp: fun_eq_iff Suc_diff_Suc)
  qed
qed

lemma mpn_com_n_spec:
  assumes "MPN_SAME_OR_INCR_P d s n"
  shows "mpn_com_n d s n m = (\<lambda>a. if d \<le> a \<and> a < d + n then NOT (m (s + (a - d))) else m a)"
proof -
  have "mpn_com_n d s n m = MPN_LOGOPS_N (\<lambda>a b. NOT a) d s s n m" for d s m
    by (induction n arbitrary: d s m) simp_all
  then show ?thesis
    using assms by (simp only: MPN_LOGOPS_N_spec)
qed

text \<open>One's complement of a region is subtraction from \<open>LB^n - 1\<close>.\<close>

lemma unat_not_limb: "unat (NOT x :: limb) + unat x + 1 = LB"
proof -
  have "NOT x = - 1 - x" by (simp add: not_eq_complement)
  moreover have m1: "unat (- 1 :: limb) = LB - 1"
    using sub_borrow [of 0 "1 :: limb"] by (simp add: LB_def del: unsigned_minus_1_eq_mask)
  ultimately have "unat (NOT x) + unat x = LB - 1 + LB * of_bool (- 1 < x)"
    using sub_borrow [of "- 1" x] by (simp only:)
  moreover have "\<not> - 1 < x"
    unfolding limb_less_iff m1 using unat_lt_LB [of x] by linarith
  ultimately show ?thesis by (simp only: of_bool_eq) simp
qed

lemma mpn_com_n_mval:
  assumes "MPN_SAME_OR_INCR_P d s n"
  shows "mval (mpn_com_n d s n m) d n + mval m s n + 1 = LB ^ n" and "only_in d n m (mpn_com_n d s n m)"
proof -
  show "only_in d n m (mpn_com_n d s n m)"
    unfolding mpn_com_n_spec [OF assms] by (auto simp: only_in_def)
  have "(\<And>i. i < n \<Longrightarrow> m' (d + i) = NOT (m (s + i))) \<Longrightarrow> mval m' d n + mval m s n + 1 = LB ^ n" for m' d s
  proof (induction n arbitrary: d s)
    case 0
    then show ?case by simp
  next
    case (Suc n)
    have "mval m' (Suc d) n + mval m (Suc s) n + 1 = LB ^ n"
      using Suc.prems [of "Suc i" for i] by (intro Suc.IH) auto
    then have "LB * (mval m' (Suc d) n + mval m (Suc s) n + 1) = LB * LB ^ n" by simp
    moreover have "unat (m' d) + unat (m s) + 1 = LB"
      using Suc.prems [of 0] unat_not_limb [of "m s"] by simp
    ultimately show ?case by (simp add: distrib_left)
  qed
  then show "mval (mpn_com_n d s n m) d n + mval m s n + 1 = LB ^ n"
    by (simp add: mpn_com_n_spec [OF assms])
qed

end
