(* ===== verification/Mpn_Mul.thy ===== *)
theory Mpn_Mul
  imports Mpn_Basic
begin

text \<open>
  Multiplication: \<open>mpn/generic/mul_1.c\<close>, \<open>addmul_1.c\<close> and \<open>submul_1.c\<close> (a region times one limb, the
  product stored, added or subtracted), and on top of them the schoolbook \<open>mul_basecase.c\<close> and
  \<open>sqr_basecase.c\<close>.  The locale \<open>mul_row\<close> states what one limb of a row has to do for the row to
  compute its product, and the three one-limb routines are its interpretations.
\<close>

section \<open>A region times one limb\<close>

fun mul_1_loop :: "nat \<Rightarrow> ptr \<Rightarrow> ptr \<Rightarrow> limb \<Rightarrow> limb \<Rightarrow> mem \<Rightarrow> limb \<times> mem" where
  "mul_1_loop 0 rp up vl cl m = (cl, m)"
| "mul_1_loop (Suc n) rp up vl cl m =
     (let ul = m up;
          (hpl, lpl) = umul_ppmm ul vl;
          lpl = lpl + cl;
          cl = of_bool (lpl < cl) + hpl
      in mul_1_loop n (rp + 1) (up + 1) vl cl (m(rp := lpl)))"

definition mpn_mul_1 :: "ptr \<Rightarrow> ptr \<Rightarrow> nat \<Rightarrow> limb \<Rightarrow> mem \<Rightarrow> limb \<times> mem" where
  "mpn_mul_1 rp up n vl m = mul_1_loop n rp up vl 0 m"

fun addmul_1_loop :: "nat \<Rightarrow> ptr \<Rightarrow> ptr \<Rightarrow> limb \<Rightarrow> limb \<Rightarrow> mem \<Rightarrow> limb \<times> mem" where
  "addmul_1_loop 0 rp up vl cl m = (cl, m)"
| "addmul_1_loop (Suc n) rp up vl cl m =
     (let ul = m up;
          (hpl, lpl) = umul_ppmm ul vl;
          lpl = lpl + cl;
          cl = of_bool (lpl < cl) + hpl;
          rl = m rp;
          lpl = rl + lpl;
          cl = cl + of_bool (lpl < rl)
      in addmul_1_loop n (rp + 1) (up + 1) vl cl (m(rp := lpl)))"

definition mpn_addmul_1 :: "ptr \<Rightarrow> ptr \<Rightarrow> nat \<Rightarrow> limb \<Rightarrow> mem \<Rightarrow> limb \<times> mem" where
  "mpn_addmul_1 rp up n vl m = addmul_1_loop n rp up vl 0 m"

fun submul_1_loop :: "nat \<Rightarrow> ptr \<Rightarrow> ptr \<Rightarrow> limb \<Rightarrow> limb \<Rightarrow> mem \<Rightarrow> limb \<times> mem" where
  "submul_1_loop 0 rp up vl cl m = (cl, m)"
| "submul_1_loop (Suc n) rp up vl cl m =
     (let ul = m up;
          (hpl, lpl) = umul_ppmm ul vl;
          lpl = lpl + cl;
          cl = of_bool (lpl < cl) + hpl;
          rl = m rp;
          lpl = rl - lpl;
          cl = cl + of_bool (lpl > rl)
      in submul_1_loop n (rp + 1) (up + 1) vl cl (m(rp := lpl)))"

definition mpn_submul_1 :: "ptr \<Rightarrow> ptr \<Rightarrow> nat \<Rightarrow> limb \<Rightarrow> mem \<Rightarrow> limb \<times> mem" where
  "mpn_submul_1 rp up n vl m = submul_1_loop n rp up vl 0 m"

subsection \<open>One limb of the row\<close>

lemma limb_product_bound:
  "unat (u :: limb) * unat (v :: limb) + unat (c :: limb) + unat (r :: limb) < LB * LB"
proof -
  define L where "L = LB - 1"
  have b: "unat u \<le> L" "unat v \<le> L" "unat c \<le> L" "unat r \<le> L"
    using unat_lt_LB [of u] unat_lt_LB [of v] unat_lt_LB [of c] unat_lt_LB [of r] by (simp_all add: L_def)
  have "unat u * unat v \<le> L * L"
    using b by (intro mult_le_mono)
  moreover have "LB * LB = L * L + 2 * L + 1"
    by (simp add: L_def LB_def)
  ultimately show ?thesis using b by linarith
qed

lemma carry_fits:
  assumes "LB * (unat (c :: limb) + of_bool b) + l < LB * LB"
  shows "unat (c + of_bool b) = unat c + of_bool b" and "unat (of_bool b + c) = unat c + of_bool b"
proof -
  have "LB * (unat c + of_bool b) < LB * LB" using assms by linarith
  then have "unat c + of_bool b < LB" by (simp only: mult_less_cancel1)
  then show "unat (c + of_bool b) = unat c + of_bool b"
    by (simp add: unat_plus_limb)
  then show "unat (of_bool b + c) = unat c + of_bool b"
    by (simp only: add.commute)
qed

lemma mul_limb_step:
  assumes "umul_ppmm ul vl = (hpl, lpl)"
  shows "unat (lpl + cl) + LB * unat (of_bool (lpl + cl < cl) + hpl) = unat ul * unat vl + unat cl"
proof -
  have p: "LB * unat hpl + unat lpl = unat ul * unat vl"
    using umul_ppmm_correct [of ul vl] assms by (simp add: dval_def)
  have s: "unat (lpl + cl) + LB * of_bool (lpl + cl < cl) = unat lpl + unat cl"
    by (rule add_carry')
  have t: "LB * (unat hpl + of_bool (lpl + cl < cl)) + unat (lpl + cl) = unat ul * unat vl + unat cl"
    using p s by (simp only: distrib_left)
  then have "LB * (unat hpl + of_bool (lpl + cl < cl)) + unat (lpl + cl) < LB * LB"
    using limb_product_bound [of ul vl cl 0] by simp
  from carry_fits(2) [OF this] show ?thesis
    using t by (simp only: add.commute)
qed

lemma addmul_limb_step:
  fixes ul vl hpl lpl rl cl :: limb
  assumes "umul_ppmm ul vl = (hpl, lpl)"
  defines "l \<equiv> lpl + cl" and "c \<equiv> of_bool (lpl + cl < cl) + hpl"
  shows "unat (rl + l) + LB * unat (c + of_bool (rl + l < rl)) = unat rl + unat ul * unat vl + unat cl"
proof -
  have p: "unat l + LB * unat c = unat ul * unat vl + unat cl"
    unfolding l_def c_def by (rule mul_limb_step [OF assms(1)])
  have s: "unat (rl + l) + LB * of_bool (rl + l < rl) = unat rl + unat l"
    by (rule add_carry)
  have t: "LB * (unat c + of_bool (rl + l < rl)) + unat (rl + l) = unat rl + unat ul * unat vl + unat cl"
    using p s by (simp only: distrib_left)
  then have "LB * (unat c + of_bool (rl + l < rl)) + unat (rl + l) < LB * LB"
    using limb_product_bound [of ul vl cl rl] by simp
  from carry_fits(1) [OF this] show ?thesis
    using t by (simp only: add.commute)
qed

lemma submul_limb_step:
  fixes ul vl hpl lpl rl cl :: limb
  assumes "umul_ppmm ul vl = (hpl, lpl)"
  defines "l \<equiv> lpl + cl" and "c \<equiv> of_bool (lpl + cl < cl) + hpl"
  shows "unat (rl - l) + unat ul * unat vl + unat cl = unat rl + LB * unat (c + of_bool (rl < rl - l))"
proof -
  have p: "unat l + LB * unat c = unat ul * unat vl + unat cl"
    unfolding l_def c_def by (rule mul_limb_step [OF assms(1)])
  have s: "unat (rl - l) + unat l = unat rl + LB * of_bool (rl < rl - l)"
    by (rule sub_borrow')
  have t: "unat (rl - l) + (unat ul * unat vl + unat cl) = unat rl + LB * (unat c + of_bool (rl < rl - l))"
    using p s by (simp only: distrib_left)
  have "unat (rl - l) + (unat ul * unat vl + unat cl) < LB * LB"
    using limb_product_bound [of ul vl cl "rl - l"] by simp
  then have "LB * (unat c + of_bool (rl < rl - l)) + 0 < LB * LB"
    using t by linarith
  from carry_fits(1) [OF this] show ?thesis
    using t by (simp only: add.commute add.left_commute)
qed

subsection \<open>The row contract\<close>

text \<open>The three routines are one loop over different limb steps: from the limb \<open>ul\<close> of the multiplicand,
  the limb \<open>rl\<close> of the destination and the carry \<open>cl\<close>, \<open>step\<close> gives the limb to write and the
  next carry, with \<open>s\<close> the sign of the product and \<open>a\<close> telling whether the destination is added to.\<close>

locale mul_row =
  fixes loop :: "nat \<Rightarrow> ptr \<Rightarrow> ptr \<Rightarrow> limb \<Rightarrow> limb \<Rightarrow> mem \<Rightarrow> limb \<times> mem"
    and step :: "limb \<Rightarrow> limb \<Rightarrow> limb \<Rightarrow> limb \<Rightarrow> limb \<times> limb"
    and a :: int and s :: int
  assumes loop_0: "loop 0 rp up vl cl m = (cl, m)"
    and loop_Suc: "loop (Suc n) rp up vl cl m =
      (case step (m up) vl (m rp) cl of (l, c) \<Rightarrow> loop n (rp + 1) (up + 1) vl c (m(rp := l)))"
    and step_spec: "step ul vl rl cl = (l, c) \<Longrightarrow>
      int (unat l) + s * int (LB * unat c) = a * int (unat rl) + s * int (unat ul * unat vl + unat cl)"
begin

lemma loop_spec:
  assumes "loop n rp up vl cl m = (c, m')" and "rp \<le> up \<or> up + n \<le> rp"
  shows "int (mval m' rp n) + s * int (LB ^ n * unat c)
    = a * int (mval m rp n) + s * int (mval m up n * unat vl + unat cl) \<and> only_in rp n m m'"
  using assms
proof (induction n arbitrary: rp up cl m)
  case 0
  then show ?case by (simp add: loop_0)
next
  case (Suc n)
  obtain l c1 where st: "step (m up) vl (m rp) cl = (l, c1)" by fastforce
  define m1 where "m1 = m(rp := l)"
  have rec: "loop n (rp + 1) (up + 1) vl c1 m1 = (c, m')"
    using Suc.prems(1) st by (simp add: loop_Suc m1_def)
  have IH: "int (mval m' (rp + 1) n) + s * int (LB ^ n * unat c)
      = a * int (mval m1 (rp + 1) n) + s * int (mval m1 (up + 1) n * unat vl + unat c1)"
    "only_in (rp + 1) n m1 m'"
    using Suc.IH [OF rec] Suc.prems(2) by auto
  have v: "mval m1 (rp + 1) n = mval m (rp + 1) n" "mval m1 (up + 1) n = mval m (up + 1) n"
    unfolding m1_def using Suc.prems(2) by (auto intro!: mval_upd_out)
  note fr = only_in_step [OF IH(2) [unfolded m1_def]]
  have "int (mval m' rp (Suc n)) + s * int (LB ^ Suc n * unat c)
      = int (unat l) + int LB * (int (mval m' (rp + 1) n) + s * int (LB ^ n * unat c))"
    unfolding fr(2) by (simp add: algebra_simps)
  also have "\<dots> = (int (unat l) + s * int (LB * unat c1))
      + int LB * (a * int (mval m (rp + 1) n) + s * int (mval m (up + 1) n * unat vl))"
    unfolding IH(1) v by (simp add: algebra_simps)
  also have "\<dots> = a * int (mval m rp (Suc n)) + s * int (mval m up (Suc n) * unat vl + unat cl)"
    unfolding step_spec [OF st] by (simp add: algebra_simps)
  finally show ?case using fr(1) by blast
qed

end

definition mul_step :: "limb \<Rightarrow> limb \<Rightarrow> limb \<Rightarrow> limb \<Rightarrow> limb \<times> limb" where
  "mul_step ul vl rl cl =
     (case umul_ppmm ul vl of (hpl, lpl) \<Rightarrow> (lpl + cl, of_bool (lpl + cl < cl) + hpl))"

definition addmul_step :: "limb \<Rightarrow> limb \<Rightarrow> limb \<Rightarrow> limb \<Rightarrow> limb \<times> limb" where
  "addmul_step ul vl rl cl =
     (case mul_step ul vl rl cl of (l, c) \<Rightarrow> (rl + l, c + of_bool (rl + l < rl)))"

definition submul_step :: "limb \<Rightarrow> limb \<Rightarrow> limb \<Rightarrow> limb \<Rightarrow> limb \<times> limb" where
  "submul_step ul vl rl cl =
     (case mul_step ul vl rl cl of (l, c) \<Rightarrow> (rl - l, c + of_bool (rl - l > rl)))"

interpretation mul_1: mul_row mul_1_loop mul_step 0 1
proof unfold_locales
  fix ul vl rl cl l c
  assume "mul_step ul vl rl cl = (l, c)"
  then have "unat l + LB * unat c = unat ul * unat vl + unat cl"
    by (auto simp: mul_step_def mul_limb_step split: prod.splits)
  from arg_cong [OF this, of int]
  show "int (unat l) + 1 * int (LB * unat c) = 0 * int (unat rl) + 1 * int (unat ul * unat vl + unat cl)"
    by (simp del: of_nat_mult)
qed (simp_all add: mul_step_def Let_def split: prod.splits)

interpretation addmul_1: mul_row addmul_1_loop addmul_step 1 1
proof unfold_locales
  fix ul vl rl cl l c
  assume "addmul_step ul vl rl cl = (l, c)"
  moreover obtain hpl lpl where u: "umul_ppmm ul vl = (hpl, lpl)" by fastforce
  ultimately have "l = rl + (lpl + cl)" "c = of_bool (lpl + cl < cl) + hpl + of_bool (rl + (lpl + cl) < rl)"
    by (auto simp only: addmul_step_def mul_step_def prod.case prod.inject)
  then have "unat l + LB * unat c = unat rl + unat ul * unat vl + unat cl"
    by (simp only: addmul_limb_step [OF u])
  from arg_cong [OF this, of int]
  show "int (unat l) + 1 * int (LB * unat c) = 1 * int (unat rl) + 1 * int (unat ul * unat vl + unat cl)"
    by (simp del: of_nat_mult)
qed (simp_all add: addmul_step_def mul_step_def Let_def split: prod.splits)

interpretation submul_1: mul_row submul_1_loop submul_step 1 "-1"
proof unfold_locales
  fix ul vl rl cl l c
  assume "submul_step ul vl rl cl = (l, c)"
  moreover obtain hpl lpl where u: "umul_ppmm ul vl = (hpl, lpl)" by fastforce
  ultimately have "l = rl - (lpl + cl)" "c = of_bool (lpl + cl < cl) + hpl + of_bool (rl - (lpl + cl) > rl)"
    by (auto simp only: submul_step_def mul_step_def prod.case prod.inject)
  then have "unat l + unat ul * unat vl + unat cl = unat rl + LB * unat c"
    by (simp only: submul_limb_step [OF u])
  from arg_cong [OF this, of int]
  show "int (unat l) + - 1 * int (LB * unat c) = 1 * int (unat rl) + - 1 * int (unat ul * unat vl + unat cl)"
    by (simp del: of_nat_mult)
qed (simp_all add: submul_step_def mul_step_def Let_def split: prod.splits)

lemma mpn_mul_1_spec:
  assumes "mpn_mul_1 rp up n vl m = (c, m')" and "MPN_SAME_OR_INCR_P rp up n"
  shows "mval m' rp n + LB ^ n * unat c = mval m up n * unat vl" and "only_in rp n m m'"
proof -
  have "rp \<le> up \<or> up + n \<le> rp" using assms(2) by (auto simp: overlap_defs)
  note sp = mul_1.loop_spec [OF assms(1) [unfolded mpn_mul_1_def] this]
  then have "int (mval m' rp n + LB ^ n * unat c) = int (mval m up n * unat vl)" by simp
  then show "mval m' rp n + LB ^ n * unat c = mval m up n * unat vl" by (simp only: of_nat_eq_iff)
  show "only_in rp n m m'" using sp by blast
qed

lemma mpn_addmul_1_spec:
  assumes "mpn_addmul_1 rp up n vl m = (c, m')" and "MPN_SAME_OR_INCR_P rp up n"
  shows "mval m' rp n + LB ^ n * unat c = mval m rp n + mval m up n * unat vl" and "only_in rp n m m'"
proof -
  have "rp \<le> up \<or> up + n \<le> rp" using assms(2) by (auto simp: overlap_defs)
  note sp = addmul_1.loop_spec [OF assms(1) [unfolded mpn_addmul_1_def] this]
  then have "int (mval m' rp n + LB ^ n * unat c) = int (mval m rp n + mval m up n * unat vl)" by simp
  then show "mval m' rp n + LB ^ n * unat c = mval m rp n + mval m up n * unat vl" by (simp only: of_nat_eq_iff)
  show "only_in rp n m m'" using sp by blast
qed

lemma mpn_submul_1_spec:
  assumes "mpn_submul_1 rp up n vl m = (c, m')" and "MPN_SAME_OR_INCR_P rp up n"
  shows "mval m' rp n + mval m up n * unat vl = mval m rp n + LB ^ n * unat c" and "only_in rp n m m'"
proof -
  have "rp \<le> up \<or> up + n \<le> rp" using assms(2) by (auto simp: overlap_defs)
  note sp = submul_1.loop_spec [OF assms(1) [unfolded mpn_submul_1_def] this]
  then have "int (mval m' rp n + mval m up n * unat vl) = int (mval m rp n + LB ^ n * unat c)" by simp
  then show "mval m' rp n + mval m up n * unat vl = mval m rp n + LB ^ n * unat c" by (simp only: of_nat_eq_iff)
  show "only_in rp n m m'" using sp by blast
qed

section \<open>Schoolbook multiplication\<close>

fun mul_basecase_loop :: "nat \<Rightarrow> ptr \<Rightarrow> ptr \<Rightarrow> nat \<Rightarrow> ptr \<Rightarrow> mem \<Rightarrow> mem" where
  "mul_basecase_loop 0 rp up un vp m = m"
| "mul_basecase_loop (Suc vn) rp up un vp m =
     (let (cy, m) = mpn_addmul_1 rp up un (m vp) m;
          m = m(rp + un := cy)
      in mul_basecase_loop vn (rp + 1) up un (vp + 1) m)"

definition mpn_mul_basecase :: "ptr \<Rightarrow> ptr \<Rightarrow> nat \<Rightarrow> ptr \<Rightarrow> nat \<Rightarrow> mem \<Rightarrow> mem" where
  "mpn_mul_basecase rp up un vp vn m =
     (let (cy, m) = mpn_mul_1 rp up un (m vp) m;
          m = m(rp + un := cy)
      in mul_basecase_loop (vn - 1) (rp + 1) up un (vp + 1) m)"

lemma mul_basecase_loop_spec:
  assumes "mul_basecase_loop vn rp up un vp m = m'"
    and "\<not> MPN_OVERLAP_P rp (un + vn) up un" and "vp + vn \<le> rp \<or> rp + un + vn \<le> vp"
  shows "mval m' rp (un + vn) = mval m rp un + mval m up un * mval m vp vn \<and> only_in rp (un + vn) m m'"
  using assms
proof (induction vn arbitrary: rp vp m)
  case 0
  then show ?case by simp
next
  case (Suc vn)
  obtain cy m0 where a: "mpn_addmul_1 rp up un (m vp) m = (cy, m0)" by fastforce
  define m1 where "m1 = m0(rp + un := cy)"
  have "MPN_SAME_OR_INCR_P rp up un"
    using Suc.prems(2) by (auto simp: overlap_defs)
  note sp = mpn_addmul_1_spec [OF a this]
  have m1: "mval m1 rp (Suc un) = mval m rp un + mval m up un * unat (m vp)"
    unfolding mval_high using sp(1) by (simp add: m1_def)
  have fr: "only_in rp (un + Suc vn) m m1"
    unfolding m1_def by (rule only_in_trans [OF only_in_mono [OF sp(2)]]) simp_all
  have up: "mval m1 up un = mval m up un"
    by (rule only_in_mval [OF fr]) (use Suc.prems(2) in \<open>auto simp: overlap_defs\<close>)
  have vp: "mval m1 (vp + 1) vn = mval m (vp + 1) vn"
    by (rule only_in_mval [OF fr]) (use Suc.prems(3) in auto)
  have rec: "mul_basecase_loop vn (rp + 1) up un (vp + 1) m1 = m'"
    using Suc.prems(1) a by (simp add: m1_def)
  have "\<not> MPN_OVERLAP_P (rp + 1) (un + vn) up un" "vp + 1 + vn \<le> rp + 1 \<or> rp + 1 + un + vn \<le> vp + 1"
    using Suc.prems(2,3) by (auto simp: overlap_defs)
  from Suc.IH [OF rec this]
  have IH: "mval m' (rp + 1) (un + vn) = mval m1 (rp + 1) un + mval m up un * mval m (vp + 1) vn"
    "only_in (rp + 1) (un + vn) m1 m'"
    unfolding up vp by blast+
  have low: "m' rp = m1 rp"
    using only_inD [OF IH(2), of rp] by simp
  have "mval m' rp (un + Suc vn) = unat (m1 rp) + LB * mval m' (rp + 1) (un + vn)"
    by (simp add: low)
  also have "\<dots> = mval m1 rp (Suc un) + LB * (mval m up un * mval m (vp + 1) vn)"
    unfolding IH(1) by (simp add: distrib_left)
  also have "\<dots> = mval m rp un + mval m up un * mval m vp (Suc vn)"
    unfolding m1 by (simp add: algebra_simps)
  finally have "mval m' rp (un + Suc vn) = mval m rp un + mval m up un * mval m vp (Suc vn)" .
  moreover have "only_in rp (un + Suc vn) m1 m'"
    by (rule only_in_mono [OF IH(2)]) simp_all
  ultimately show ?case
    using only_in_trans [OF fr] by blast
qed

lemma mpn_mul_basecase_spec:
  assumes "mpn_mul_basecase rp up un vp vn m = m'" and "1 \<le> vn"
    and "\<not> MPN_OVERLAP_P rp (un + vn) up un" and "\<not> MPN_OVERLAP_P rp (un + vn) vp vn"
  shows "mval m' rp (un + vn) = mval m up un * mval m vp vn" and "only_in rp (un + vn) m m'"
proof -
  obtain k where k: "vn = Suc k" using assms(2) by (cases vn) auto
  obtain cy m0 where a: "mpn_mul_1 rp up un (m vp) m = (cy, m0)" by fastforce
  define m1 where "m1 = m0(rp + un := cy)"
  have "MPN_SAME_OR_INCR_P rp up un"
    using assms(3) by (auto simp: overlap_defs)
  note sp = mpn_mul_1_spec [OF a this]
  have m1: "mval m1 rp (Suc un) = mval m up un * unat (m vp)"
    unfolding mval_high using sp(1) by (simp add: m1_def)
  have fr: "only_in rp (un + vn) m m1"
    unfolding m1_def by (rule only_in_trans [OF only_in_mono [OF sp(2)]]) (simp_all add: k)
  have sep: "vp + vn \<le> rp \<or> rp + un + vn \<le> vp"
    using assms(4) k by (auto simp: overlap_defs)
  have up: "mval m1 up un = mval m up un"
    by (rule only_in_mval [OF fr]) (use assms(3) in \<open>auto simp: overlap_defs\<close>)
  have vp: "mval m1 (vp + 1) k = mval m (vp + 1) k"
    by (rule only_in_mval [OF fr]) (use sep k in auto)
  have rec: "mul_basecase_loop k (rp + 1) up un (vp + 1) m1 = m'"
    using assms(1) a by (simp add: mpn_mul_basecase_def m1_def k)
  have "\<not> MPN_OVERLAP_P (rp + 1) (un + k) up un" "vp + 1 + k \<le> rp + 1 \<or> rp + 1 + un + k \<le> vp + 1"
    using assms(3) sep k by (auto simp: overlap_defs)
  from mul_basecase_loop_spec [OF rec this]
  have L: "mval m' (rp + 1) (un + k) = mval m1 (rp + 1) un + mval m up un * mval m (vp + 1) k"
    "only_in (rp + 1) (un + k) m1 m'"
    unfolding up vp by blast+
  have low: "m' rp = m1 rp"
    using only_inD [OF L(2), of rp] by simp
  have "mval m' rp (un + vn) = unat (m1 rp) + LB * mval m' (rp + 1) (un + k)"
    by (simp add: low k)
  also have "\<dots> = mval m1 rp (Suc un) + LB * (mval m up un * mval m (vp + 1) k)"
    unfolding L(1) by (simp add: distrib_left)
  also have "\<dots> = mval m up un * mval m vp vn"
    unfolding m1 by (simp add: k algebra_simps)
  finally show "mval m' rp (un + vn) = mval m up un * mval m vp vn" .
  have "only_in rp (un + vn) m1 m'"
    by (rule only_in_mono [OF L(2)]) (simp_all add: k)
  then show "only_in rp (un + vn) m m'"
    by (rule only_in_trans [OF fr])
qed

section \<open>Schoolbook squaring\<close>

text \<open>\<open>tp\<close> is the address of the local array \<open>tarr\<close>.  The first loop builds the products of two
  different limbs, the second the squares of the limbs; the \<open>for\<close> loops run \<open>n - i\<close> more times.\<close>

fun sqr_off_loop :: "nat \<Rightarrow> nat \<Rightarrow> ptr \<Rightarrow> ptr \<Rightarrow> nat \<Rightarrow> mem \<Rightarrow> mem" where
  "sqr_off_loop 0 i tp up n m = m"
| "sqr_off_loop (Suc k) i tp up n m =
     (let (cy, m) = mpn_addmul_1 (tp + 2 * i - 2) (up + i) (n - i) (m (up + i - 1)) m;
          m = m(tp + n + i - 2 := cy)
      in sqr_off_loop k (i + 1) tp up n m)"

fun sqr_diag_loop :: "nat \<Rightarrow> nat \<Rightarrow> ptr \<Rightarrow> ptr \<Rightarrow> mem \<Rightarrow> mem" where
  "sqr_diag_loop 0 i prodp up m = m"
| "sqr_diag_loop (Suc k) i prodp up m =
     (let ul = m (up + i);
          (ph, pl) = umul_ppmm ul ul;
          m = m(prodp + 2 * i + 1 := ph, prodp + 2 * i := pl)
      in sqr_diag_loop k (i + 1) prodp up m)"

definition mpn_sqr_basecase :: "ptr \<Rightarrow> ptr \<Rightarrow> nat \<Rightarrow> ptr \<Rightarrow> mem \<Rightarrow> mem" where
  "mpn_sqr_basecase prodp up n tp m =
     (let ul = m up;
          (argh, pl) = umul_ppmm ul ul;
          m = m(prodp := pl);
          m = m(prodp + 1 := argh)
      in if n > 1
         then (let (cy, m) = mpn_mul_1 tp (up + 1) (n - 1) (m up) m;
                   m = m(tp + (n - 1) := cy);
                   m = sqr_off_loop (n - 2) 2 tp up n m;
                   m = sqr_diag_loop (n - 1) 1 prodp up m;
                   (cy, m) = mpn_lshift tp tp (2 * n - 2) 1 m;
                   (c, m) = mpn_add_n (prodp + 1) (prodp + 1) tp (2 * n - 2) m;
                   cy = cy + c
               in m(prodp + 2 * n - 1 := m (prodp + 2 * n - 1) + cy))
         else m)"

text \<open>The square of a number splits into the squares of its limbs and twice the products of two
  different limbs, the latter one limb higher.\<close>

fun sq_diag :: "mem \<Rightarrow> ptr \<Rightarrow> nat \<Rightarrow> nat" where
  "sq_diag m p 0 = 0"
| "sq_diag m p (Suc n) = unat (m p) * unat (m p) + LB * LB * sq_diag m (p + 1) n"

fun sq_off :: "mem \<Rightarrow> ptr \<Rightarrow> nat \<Rightarrow> nat" where
  "sq_off m p 0 = 0"
| "sq_off m p (Suc n) = unat (m p) * mval m (p + 1) n + LB * LB * sq_off m (p + 1) n"

lemma square_split: "sq_diag m p n + 2 * LB * sq_off m p n = mval m p n * mval m p n"
proof (induction n arbitrary: p)
  case 0
  then show ?case by simp
next
  case (Suc n)
  have "mval m p (Suc n) * mval m p (Suc n) = unat (m p) * unat (m p) + 2 * LB * (unat (m p) * mval m (p + 1) n)
      + LB * LB * (mval m (p + 1) n * mval m (p + 1) n)"
    by (simp add: algebra_simps)
  then show ?case
    unfolding Suc.IH [symmetric] by (simp add: algebra_simps)
qed

lemma sq_off_cong: "(\<And>i. i < n \<Longrightarrow> m' (p + i) = m (p + i)) \<Longrightarrow> sq_off m' p n = sq_off m p n"
proof (induction n arbitrary: p)
  case 0
  then show ?case by simp
next
  case (Suc n)
  have s: "m' (p + 1 + i) = m (p + 1 + i)" if "i < n" for i
    using Suc.prems [of "Suc i"] that by simp
  then have "sq_off m' (p + 1) n = sq_off m (p + 1) n" "mval m' (p + 1) n = mval m (p + 1) n"
    by (auto intro: Suc.IH mval_cong)
  with Suc.prems [of 0] show ?case by simp
qed

lemma sqr_off_loop_spec:
  assumes "sqr_off_loop k i tp up n m = m'" and "1 \<le> i" and "n = i + k"
    and "tp + (2 * n - 2) \<le> up \<or> up + n \<le> tp"
  shows "mval m' (tp + 2 * i - 2) (2 * k) = mval m (tp + 2 * i - 2) k + sq_off m (up + i - 1) (Suc k)
    \<and> only_in (tp + 2 * i - 2) (2 * k) m m'"
  using assms(1-3)
proof (induction k arbitrary: i m)
  case 0
  then show ?case by simp
next
  case (Suc k)
  define tq where "tq = tp + 2 * i - 2"
  have tq: "tp + 2 * i - 2 = tq" "tp + n + i - 2 = tq + Suc k" "tp + 2 * (i + 1) - 2 = tq + 2"
    "up + (i + 1) - 1 = up + i" "up + i - 1 + 1 = up + i"
    using Suc.prems(2,3) by (simp_all add: tq_def)
  have nk: "n - i = Suc k" using Suc.prems(3) by simp
  have sep: "tq + 2 * Suc k \<le> up \<or> up + n \<le> tq"
    using assms(4) Suc.prems(2,3) by (auto simp: tq_def)
  obtain cy m0 where a: "mpn_addmul_1 tq (up + i) (Suc k) (m (up + i - 1)) m = (cy, m0)" by fastforce
  define m1 where "m1 = m0(tq + Suc k := cy)"
  have "MPN_SAME_OR_INCR_P tq (up + i) (Suc k)"
    using sep Suc.prems by (auto simp: overlap_defs)
  note sp = mpn_addmul_1_spec [OF a this]
  have m1: "mval m1 tq (Suc (Suc k)) = mval m tq (Suc k) + mval m (up + i) (Suc k) * unat (m (up + i - 1))"
    unfolding mval_high [of m1 tq "Suc k"] using sp(1) by (simp add: m1_def del: mval.simps)
  have fr: "only_in tq (2 * Suc k) m m1"
    unfolding m1_def by (rule only_in_trans [OF only_in_mono [OF sp(2)]]) simp_all
  have off: "sq_off m1 (up + i) (Suc k) = sq_off m (up + i) (Suc k)"
    by (rule sq_off_cong, rule only_inD [OF fr]) (use sep Suc.prems in auto)
  have rec: "sqr_off_loop k (i + 1) tp up n m1 = m'"
    using Suc.prems(1) a nk unfolding m1_def by (simp only: sqr_off_loop.simps tq Let_def prod.case)
  from Suc.IH [OF rec] Suc.prems(2,3)
  have IH: "mval m' (tq + 2) (2 * k) = mval m1 (tq + 2) k + sq_off m (up + i) (Suc k)"
    "only_in (tq + 2) (2 * k) m1 m'"
    unfolding tq off by auto
  have low: "mval m' tq 2 = mval m1 tq 2"
    by (rule only_in_mval [OF IH(2)]) simp
  have "mval m' tq (2 * Suc k) = mval m1 tq 2 + LB ^ 2 * mval m1 (tq + 2) k + LB ^ 2 * sq_off m (up + i) (Suc k)"
    using mval_add [of m' tq 2 "2 * k"] unfolding IH(1) low by (simp add: distrib_left del: mval.simps sq_off.simps)
  also have "\<dots> = mval m tq (Suc k) + sq_off m (up + i - 1) (Suc (Suc k))"
    using mval_add [of m1 tq 2 k] m1 unfolding sq_off.simps(2) [of m "up + i - 1"] tq
    by (simp add: power2_eq_square mult.commute del: mval.simps sq_off.simps)
  finally show ?case
    using only_in_trans [OF fr only_in_mono [OF IH(2)]] unfolding tq by simp
qed

lemma sq_diag_cong: "(\<And>i. i < n \<Longrightarrow> m' (p + i) = m (p + i)) \<Longrightarrow> sq_diag m' p n = sq_diag m p n"
proof (induction n arbitrary: p)
  case 0
  then show ?case by simp
next
  case (Suc n)
  have "m' (p + 1 + i) = m (p + 1 + i)" if "i < n" for i
    using Suc.prems [of "Suc i"] that by simp
  then show ?case using Suc.IH [of "p + 1"] Suc.prems [of 0] by simp
qed

text \<open>The last step: the doubled products, one limb up, are added to the squares, and the two carries go
  into the top limb.\<close>

lemma sqr_combine:
  assumes "mval m4 p (Suc (Suc N)) = D" and "mval m4 tp N = off" and "D + 2 * LB * off < LB ^ Suc (Suc N)"
    and l: "mpn_lshift tp tp N 1 m4 = (cl, m5)" and ad: "mpn_add_n (p + 1) (p + 1) tp N m5 = (ca, m6)"
    and N: "1 \<le> N" and sep: "tp + N \<le> p \<or> p + Suc (Suc N) \<le> tp"
  defines "m7 \<equiv> m6(p + Suc N := m6 (p + Suc N) + (cl + ca))"
  shows "mval m7 p (Suc (Suc N)) = D + 2 * LB * off"
    and "only_at ({p..<p + Suc (Suc N)} \<union> {tp..<tp + N}) m4 m7"
proof -
  define S where "S = {p..<p + Suc (Suc N)} \<union> {tp..<tp + N}"
  have "MPN_SAME_OR_DECR_P tp tp N" "MPN_SAME_OR_INCR_P (p + 1) (p + 1) N" "MPN_SAME_OR_INCR_P (p + 1) tp N"
    using sep N by (auto simp: overlap_defs)
  note ls = mpn_lshift_spec [OF l N _ this(1), simplified] and as = mpn_add_n_spec [OF ad this(2,3)]
  define q where "q = p + 1"
  have q: "p + Suc N = q + N" "Suc p = q" by (simp_all add: q_def)
  define top where "top = m4 (q + N)"
  have low: "m6 p = m4 p" "m5 p = m4 p"
    using only_inD [of "p + 1" N m5 m6 p] as only_inD [of tp N m4 m5 p] ls(3) sep by auto
  have tops: "m6 (q + N) = top"
    using only_inD [of "p + 1" N m5 m6 "q + N"] as only_inD [of tp N m4 m5 "q + N"] ls(3) sep
    by (auto simp: q_def top_def)
  have q5: "mval m5 q N = mval m4 q N"
    by (rule only_in_mval [OF ls(3)]) (use sep in \<open>auto simp: q_def\<close>)
  have V4: "mval m p (Suc (Suc N)) = unat (m p) + LB * (mval m q N + LB ^ N * unat (m (q + N)))" for m
    by (simp only: mval.simps(2) [of m p "Suc N"] q(2) mval_high [of m q N])
  have sum: "mval m6 q N + LB ^ N * (unat cl + unat ca) = mval m4 q N + 2 * off"
    using as ls(1) q5 assms(2) unfolding q_def [symmetric] by (simp add: distrib_left)
  have eq: "unat (m4 p) + LB * (mval m6 q N + LB ^ N * (unat top + (unat cl + unat ca))) = D + 2 * LB * off"
  proof -
    have "LB * (mval m6 q N + LB ^ N * (unat cl + unat ca)) = LB * mval m4 q N + 2 * LB * off"
      unfolding sum by (simp add: algebra_simps)
    then show ?thesis
      using assms(1) unfolding V4 top_def [symmetric] by (simp only: distrib_left)
  qed
  have fits: "unat top + (unat cl + unat ca) < LB"
  proof -
    have "LB * LB ^ N * (unat top + (unat cl + unat ca)) < LB * LB ^ N * LB"
      using eq assms(3) by (simp add: distrib_left mult_ac)
    then show ?thesis by (simp only: mult_less_cancel1)
  qed
  then have "unat (cl + ca) = unat cl + unat ca"
    by (simp add: unat_plus_limb)
  then have "unat (top + (cl + ca)) = unat top + (unat cl + unat ca)"
    using fits by (simp add: unat_plus_limb)
  then show "mval m7 p (Suc (Suc N)) = D + 2 * LB * off"
    unfolding V4 m7_def q tops using eq low(1) by (simp add: q_def)
  have "only_at S m4 m5"
    by (rule only_in_at [OF ls(3)]) (simp add: S_def)
  moreover have "only_at S m5 m6"
    by (rule only_in_at [of "p + 1" N]) (use as in \<open>auto simp: S_def\<close>)
  moreover have "only_at S m6 m7"
    unfolding m7_def by (rule only_at_upd) (simp add: S_def)
  ultimately show "only_at ({p..<p + Suc (Suc N)} \<union> {tp..<tp + N}) m4 m7"
    unfolding S_def [symmetric] using only_at_trans by blast
qed

lemma sqr_diag_loop_spec:
  assumes "sqr_diag_loop k i prodp up m = m'" and "n = i + k"
    and "prodp + 2 * n \<le> up \<or> up + n \<le> prodp"
  shows "mval m' (prodp + 2 * i) (2 * k) = sq_diag m (up + i) k \<and> only_in (prodp + 2 * i) (2 * k) m m'"
  using assms(1,2)
proof (induction k arbitrary: i m)
  case 0
  then show ?case by simp
next
  case (Suc k)
  define q where "q = prodp + 2 * i"
  have q: "prodp + 2 * i = q" "prodp + 2 * i + 1 = q + 1" "prodp + 2 * (i + 1) = q + 2" "up + (i + 1) = up + i + 1"
    by (simp_all add: q_def)
  obtain ph pl where u: "umul_ppmm (m (up + i)) (m (up + i)) = (ph, pl)" by fastforce
  define m1 where "m1 = m(q + 1 := ph, q := pl)"
  have uv: "unat pl + LB * unat ph = unat (m (up + i)) * unat (m (up + i))"
    using umul_ppmm_correct [of "m (up + i)" "m (up + i)"] u by simp
  have fr: "only_in q (2 * Suc k) m m1"
    by (auto simp: m1_def only_in_def)
  have diag: "sq_diag m1 (up + i + 1) k = sq_diag m (up + i + 1) k"
    by (rule sq_diag_cong, rule only_inD [OF fr]) (use Suc.prems assms(3) in \<open>auto simp: q_def\<close>)
  have rec: "sqr_diag_loop k (i + 1) prodp up m1 = m'"
    using Suc.prems(1) u by (simp add: Let_def q m1_def)
  from Suc.IH [OF rec] Suc.prems(2)
  have IH: "mval m' (q + 2) (2 * k) = sq_diag m (up + i + 1) k" "only_in (q + 2) (2 * k) m1 m'"
    unfolding q diag by auto
  have low: "mval m' q 2 = mval m1 q 2"
    by (rule only_in_mval [OF IH(2)]) simp
  have "mval m1 q 2 = unat pl + LB * unat ph"
    by (simp add: m1_def numeral_2_eq_2)
  then have "mval m' q (2 * Suc k) = sq_diag m (up + i) (Suc k)"
    using mval_add [of m' q 2 "2 * k"] low IH(1) uv by (simp add: power2_eq_square del: mval.simps)
  then show ?case
    using only_in_trans [OF fr only_in_mono [OF IH(2)]] unfolding q by simp
qed

lemma mpn_sqr_basecase_spec:
  assumes "mpn_sqr_basecase prodp up n tp m = m'" and "1 \<le> n"
    and ov: "\<not> MPN_OVERLAP_P prodp (2 * n) up n"
    and tp: "\<not> MPN_OVERLAP_P tp (2 * n - 2) up n" "\<not> MPN_OVERLAP_P tp (2 * n - 2) prodp (2 * n)"
  shows "mval m' prodp (2 * n) = mval m up n * mval m up n"
    and "only_at ({prodp..<prodp + 2 * n} \<union> {tp..<tp + (2 * n - 2)}) m m'"
proof -
  obtain ph pl where u: "umul_ppmm (m up) (m up) = (ph, pl)" by fastforce
  define m1 where "m1 = m(prodp := pl, prodp + 1 := ph)"
  define S where "S = {prodp..<prodp + 2 * n} \<union> {tp..<tp + (2 * n - 2)}"
  have uv: "unat pl + LB * unat ph = unat (m up) * unat (m up)"
    using umul_ppmm_correct [of "m up" "m up"] u by simp
  have fr1: "only_in prodp (2 * n) m m1"
    using assms(2) by (auto simp: m1_def only_in_def)
  have usep: "prodp + 2 * n \<le> up \<or> up + n \<le> prodp"
    using ov assms(2) by (auto simp: overlap_defs)
  have v1: "mval m1 prodp 2 = unat (m up) * unat (m up)"
    using uv by (simp add: m1_def numeral_2_eq_2)
  have "mval m' prodp (2 * n) = mval m up n * mval m up n \<and> only_at S m m'"
  proof (cases "n > 1")
    case False
    then have n: "n = 1" using assms(2) by simp
    then have "m' = m1" using assms(1) u by (simp add: mpn_sqr_basecase_def m1_def)
    then show ?thesis using v1 fr1 n only_in_at [OF fr1, of S] by (simp add: S_def)
  next
    case True
    then obtain k where k: "n = Suc (Suc k)"
      using less_imp_Suc_add [OF True] by auto
    have tsep: "tp + (2 * n - 2) \<le> up \<or> up + n \<le> tp" "tp + (2 * n - 2) \<le> prodp \<or> prodp + 2 * n \<le> tp"
      using tp True by (auto simp: overlap_defs)
    obtain cy m2a where a: "mpn_mul_1 tp (up + 1) (n - 1) (m1 up) m1 = (cy, m2a)" by fastforce
    define m2 where "m2 = m2a(tp + (n - 1) := cy)"
    define m3 where "m3 = sqr_off_loop (n - 2) 2 tp up n m2"
    define m4 where "m4 = sqr_diag_loop (n - 1) 1 prodp up m3"
    obtain cl m5 where l: "mpn_lshift tp tp (2 * n - 2) 1 m4 = (cl, m5)" by fastforce
    obtain ca m6 where ad: "mpn_add_n (prodp + 1) (prodp + 1) tp (2 * n - 2) m5 = (ca, m6)" by fastforce
    define top where "top = m6 (prodp + 2 * n - 1)"
    have m': "m' = m6(prodp + 2 * n - 1 := top + (cl + ca))"
      using assms(1) True u a l ad unfolding m1_def m2_def m3_def m4_def top_def
      by (simp only: mpn_sqr_basecase_def Let_def prod.case if_True)
    have upeq: "mval mm (up + j) i = mval m (up + j) i" if "only_at S m mm" "j + i \<le> n" for mm i j
      by (rule only_at_mval [OF that(1)]) (use that(2) usep tsep in \<open>auto simp: S_def\<close>)
    have f1: "only_at S m m1" by (rule only_in_at [OF fr1]) (simp add: S_def)
    have u1: "m1 up = m up" by (rule only_atD [OF f1]) (use usep tsep True in \<open>auto simp: S_def\<close>)
    have "MPN_SAME_OR_INCR_P tp (up + 1) (n - 1)"
      using tsep k by (auto simp: overlap_defs)
    note s2 = mpn_mul_1_spec [OF a this]
    have v2: "mval m2 tp n = mval m (up + 1) (n - 1) * unat (m up)"
    proof -
      have "mval m2 tp n = mval m2a tp (n - 1) + LB ^ (n - 1) * unat cy"
        using mval_high [of m2 tp "n - 1"] k by (simp add: m2_def)
      then show ?thesis using s2(1) upeq [OF f1, of 1 "n - 1"] u1 k by simp
    qed
    have fr2: "only_in tp (2 * n - 2) m1 m2"
      unfolding m2_def by (rule only_in_trans [OF only_in_mono [OF s2(2)]]) (simp_all add: k)
    have f2: "only_at S m m2" by (rule only_at_trans [OF f1 only_in_at [OF fr2]]) (simp add: S_def)
    have n2: "n - 2 = k" "n - 1 = Suc k" "2 + k = n" "2 + 2 * k = 2 * n - 2" using k by simp_all
    from sqr_off_loop_spec [of k 2 tp up n m2 m3] tsep k
    have m3: "mval m3 (tp + 2) (2 * k) = mval m2 (tp + 2) k + sq_off m2 (up + 1) (Suc k)"
      "only_in (tp + 2) (2 * k) m2 m3"
      by (simp_all add: m3_def n2 del: mval.simps sq_off.simps)
    have fr3: "only_in tp (2 * n - 2) m2 m3"
      by (rule only_in_mono [OF m3(2)]) (simp_all add: k)
    have f3: "only_at S m m3" by (rule only_at_trans [OF f2 only_in_at [OF fr3]]) (simp add: S_def)
    have off2: "sq_off m2 (up + 1) (Suc k) = sq_off m (up + 1) (Suc k)"
      by (rule sq_off_cong, rule only_atD [OF f2]) (use usep tsep k in \<open>auto simp: S_def\<close>)
    have v3: "mval m3 tp (2 * n - 2) = sq_off m up n"
    proof -
      have "mval m3 tp 2 = mval m2 tp 2"
        by (rule only_in_mval [OF m3(2)]) simp
      then have "mval m3 tp (2 * n - 2) = mval m2 tp n + LB ^ 2 * sq_off m (up + 1) (Suc k)"
        using mval_add [of m3 tp 2 "2 * k"] mval_add [of m2 tp 2 k] m3(1)
        unfolding n2 off2 by (simp add: distrib_left del: mval.simps sq_off.simps)
      then show ?thesis
        using v2 k by (simp add: power2_eq_square mult.commute)
    qed
    from sqr_diag_loop_spec [of "n - 1" 1 prodp up m3 m4 n] usep k
    have m4: "mval m4 (prodp + 2) (2 * (n - 1)) = sq_diag m3 (up + 1) (n - 1)"
      "only_in (prodp + 2) (2 * (n - 1)) m3 m4"
      by (simp_all add: m4_def n2 del: mval.simps sq_diag.simps)
    have f4: "only_at S m m4"
      by (rule only_at_trans [OF f3 only_in_at [OF m4(2)]]) (use k in \<open>auto simp: S_def\<close>)
    have diag3: "sq_diag m3 (up + 1) (n - 1) = sq_diag m (up + 1) (n - 1)"
      by (rule sq_diag_cong, rule only_atD [OF f3]) (use usep tsep k in \<open>auto simp: S_def\<close>)
    have v4: "mval m4 prodp (2 * n) = sq_diag m up n"
    proof -
      have "mval m4 prodp 2 = mval m3 prodp 2" "mval m3 prodp 2 = mval m2 prodp 2" "mval m2 prodp 2 = mval m1 prodp 2"
        by (rule only_in_mval [OF m4(2)] only_in_mval [OF fr3] only_in_mval [OF fr2]; use tsep k in auto)+
      then show ?thesis
        using mval_add [of m4 prodp 2 "2 * (n - 1)"] m4(1) v1 k unfolding diag3
        by (simp add: power2_eq_square del: mval.simps)
    qed
    have t4: "mval m4 tp (2 * n - 2) = sq_off m up n"
      unfolding v3 [symmetric] by (rule only_in_mval [OF m4(2)]) (use tsep k in auto)
    define N where "N = 2 * n - 2"
    have N: "2 * n = Suc (Suc N)" "2 * n - 2 = N" "prodp + 2 * n - 1 = prodp + Suc N" "1 \<le> N"
      using k by (simp_all add: N_def)
    have "sq_diag m up n + 2 * LB * sq_off m up n < LB ^ Suc (Suc N)"
    proof -
      have "mval m up n * mval m up n < LB ^ n * LB ^ n"
        by (intro mult_strict_mono mval_less) simp_all
      also have "LB ^ n * LB ^ n = LB ^ Suc (Suc N)"
        unfolding N(1) [symmetric] mult_2 power_add ..
      finally show ?thesis by (simp only: square_split)
    qed
    from sqr_combine [OF v4 [unfolded N(1)] t4 [unfolded N(2)] this l [unfolded N(2)] ad [unfolded N(2)]
        N(4) tsep(2) [unfolded N(2), unfolded N(1)]]
    show ?thesis
      unfolding m' top_def N(3) square_split S_def [unfolded N(2), unfolded N(1), symmetric] N(1)
      using only_at_trans [OF f4] by (simp del: mval.simps)
  qed
  then show "mval m' prodp (2 * n) = mval m up n * mval m up n"
    "only_at ({prodp..<prodp + 2 * n} \<union> {tp..<tp + (2 * n - 2)}) m m'"
    unfolding S_def by blast+
qed

end
