(* ===== verification/Mpn_Kara.thy ===== *)
theory Mpn_Kara
  imports Mpn_Mul "HOL-Library.Monad_Syntax"
begin

text \<open>
  Karatsuba multiplication and squaring (\<open>mpn/generic/mul_n.c\<close>).  An operand of \<open>n\<close> limbs is split into a
  low half of \<open>n3\<close> limbs and a high half of \<open>n2\<close>; the product is put together from the products of the
  halves and of their differences, all in the product region \<open>p\<close> and the workspace \<open>ws\<close>.  The last step is
  a carry propagation without bound (\<open>mpn_incr_u\<close>), so the routines are partial: the specifications show
  that they return.
\<close>


section \<open>Karatsuba multiplication\<close>

definition MUL_KARATSUBA_THRESHOLD :: nat where
  "MUL_KARATSUBA_THRESHOLD = 22"

definition SQR_BASECASE_THRESHOLD :: nat where
  "SQR_BASECASE_THRESHOLD = 0"

definition SQR_KARATSUBA_THRESHOLD :: nat where
  "SQR_KARATSUBA_THRESHOLD = 58"

definition MPN_KARA_MUL_N_TSIZE :: "nat \<Rightarrow> nat" where
  "MPN_KARA_MUL_N_TSIZE n = 2 * (n + 32)"

definition MPN_KARA_SQR_N_TSIZE :: "nat \<Rightarrow> nat" where
  "MPN_KARA_SQR_N_TSIZE n = 2 * (n + 32)"

text \<open>The downward scan of the two halves for the first pair of limbs that differ (the last pair if none
  does).\<close>

fun high_diff :: "mem \<Rightarrow> ptr \<Rightarrow> ptr \<Rightarrow> nat \<Rightarrow> limb \<times> limb" where
  "high_diff m x y 0 = (m x, m y)"
| "high_diff m x y (Suc i) =
     (let w0 = m (x + i);
          w1 = m (y + i)
      in if w0 = w1 \<and> i \<noteq> 0 then high_diff m x y i else (w0, w1))"

text \<open>The absolute difference of the two halves of an operand, stored at \<open>p\<close>, and whether the low half is the
  smaller one: for an odd length the low half \<open>a\<close> has a limb more than the high half at \<open>a + n3\<close>.\<close>

definition kara_diff_odd :: "ptr \<Rightarrow> ptr \<Rightarrow> nat \<Rightarrow> nat \<Rightarrow> mem \<Rightarrow> bool \<times> mem" where
  "kara_diff_odd p a n2 n3 m =
     (let w = m (a + n2);
          (sign, w, m) =
            (if w \<noteq> 0
             then (let (cy, m) = mpn_sub_n p a (a + n3) n2 m in (False, w - cy, m))
             else (let (w0, w1) = high_diff m a (a + n3) n2;
                       (x, y, sign) = (if w0 < w1 then (a + n3, a, True) else (a, a + n3, False));
                       (cy, m) = mpn_sub_n p x y n2 m
                   in (sign, w, m)))
      in (sign, m(p + n2 := w)))"

definition kara_diff_even :: "ptr \<Rightarrow> ptr \<Rightarrow> nat \<Rightarrow> mem \<Rightarrow> bool \<times> mem" where
  "kara_diff_even p a n2 m =
     (let (w0, w1) = high_diff m a (a + n2) n2;
          (x, y, sign) = (if w0 < w1 then (a + n2, a, True) else (a, a + n2, False));
          (cy, m) = mpn_sub_n p x y n2 m
      in (sign, m))"

text \<open>The middle product from the three products, added in: \<open>sign\<close> says that the product of the
  differences is to be added.\<close>

definition kara_interp_odd :: "ptr \<Rightarrow> nat \<Rightarrow> ptr \<Rightarrow> bool \<Rightarrow> mem \<Rightarrow> mem option" where
  "kara_interp_odd p n ws sign m =
     (let n2 = n div 2;
          n3 = n - n2;
          n1 = n + 1;
          (_, m) = (if sign then mpn_add_n ws p ws n1 m else mpn_sub_n ws p ws n1 m);
          nm1 = n - 1;
          (c, m) = mpn_add_n ws (p + n1) ws nm1 m;
          m = (if c \<noteq> 0
               then (let x = m (ws + nm1) + 1;
                         m = m(ws + nm1 := x)
                     in if x = 0 then m(ws + n := m (ws + n) + 1) else m)
               else m);
          (c, m) = mpn_add_n (p + n3) (p + n3) ws n1 m
      in if c \<noteq> 0 then mpn_incr_u (p + n1 + n3) 1 m else Some m)"

definition kara_interp_even :: "ptr \<Rightarrow> nat \<Rightarrow> ptr \<Rightarrow> bool \<Rightarrow> mem \<Rightarrow> mem option" where
  "kara_interp_even p n ws sign m =
     (let n2 = n div 2;
          (w, m) = (if sign then mpn_add_n ws p ws n m
                    else (let (cy, m) = mpn_sub_n ws p ws n m in (- cy, m)));
          (c, m) = mpn_add_n ws (p + n) ws n m;
          w = w + c;
          (c, m) = mpn_add_n (p + n2) (p + n2) ws n m;
          w = w + c
      in mpn_incr_u (p + n2 + n) w m)"

function mpn_kara_mul_n :: "ptr \<Rightarrow> ptr \<Rightarrow> ptr \<Rightarrow> nat \<Rightarrow> ptr \<Rightarrow> mem \<Rightarrow> mem option" where
  "mpn_kara_mul_n p a b n ws m =
     (let n2 = n div 2
      in if odd n
         then (let n3 = n - n2;
                   (sign, m) = kara_diff_odd p a n2 n3 m;
                   (sign', m) = kara_diff_odd (p + n3) b n2 n3 m;
                   sign = (sign \<noteq> sign');
                   n1 = n + 1
               in do {
                 m \<leftarrow> (if n2 < MUL_KARATSUBA_THRESHOLD
                       then do {
                         m \<leftarrow> (if n3 < MUL_KARATSUBA_THRESHOLD
                               then do {
                                 m \<leftarrow> Some (mpn_mul_basecase ws p n3 (p + n3) n3 m);
                                 Some (mpn_mul_basecase p a n3 b n3 m)
                               }
                               else do {
                                 m \<leftarrow> mpn_kara_mul_n ws p (p + n3) n3 (ws + n1) m;
                                 mpn_kara_mul_n p a b n3 (ws + n1) m
                               });
                         Some (mpn_mul_basecase (p + n1) (a + n3) n2 (b + n3) n2 m)
                       }
                       else do {
                         m \<leftarrow> mpn_kara_mul_n ws p (p + n3) n3 (ws + n1) m;
                         m \<leftarrow> mpn_kara_mul_n p a b n3 (ws + n1) m;
                         mpn_kara_mul_n (p + n1) (a + n3) (b + n3) n2 (ws + n1) m
                       });
                 kara_interp_odd p n ws sign m
               })
         else (let (sign, m) = kara_diff_even p a n2 m;
                   (sign', m) = kara_diff_even (p + n2) b n2 m;
                   sign = (sign \<noteq> sign')
               in do {
                 m \<leftarrow> (if n2 < MUL_KARATSUBA_THRESHOLD
                       then do {
                         m \<leftarrow> Some (mpn_mul_basecase ws p n2 (p + n2) n2 m);
                         m \<leftarrow> Some (mpn_mul_basecase p a n2 b n2 m);
                         Some (mpn_mul_basecase (p + n) (a + n2) n2 (b + n2) n2 m)
                       }
                       else do {
                         m \<leftarrow> mpn_kara_mul_n ws p (p + n2) n2 (ws + n) m;
                         m \<leftarrow> mpn_kara_mul_n p a b n2 (ws + n) m;
                         mpn_kara_mul_n (p + n) (a + n2) (b + n2) n2 (ws + n) m
                       });
                 kara_interp_even p n ws sign m
               }))"
  by pat_completeness auto
termination
  by (relation "measure (\<lambda>(p, a, b, n, ws, m). n)") (auto simp: MUL_KARATSUBA_THRESHOLD_def)

declare mpn_kara_mul_n.simps [simp del]

function mpn_kara_sqr_n :: "ptr \<Rightarrow> ptr \<Rightarrow> nat \<Rightarrow> ptr \<Rightarrow> ptr \<Rightarrow> mem \<Rightarrow> mem option" where
  "mpn_kara_sqr_n p a n ws tp m =
     (let n2 = n div 2
      in if odd n
         then (let n3 = n - n2;
                   (_, m) = kara_diff_odd p a n2 n3 m;
                   n1 = n + 1
               in do {
                 m \<leftarrow> (if BELOW_THRESHOLD n3 SQR_BASECASE_THRESHOLD
                       then do {
                         m \<leftarrow> Some (mpn_mul_basecase ws p n3 p n3 m);
                         Some (mpn_mul_basecase p a n3 a n3 m)
                       }
                       else if BELOW_THRESHOLD n3 SQR_KARATSUBA_THRESHOLD
                       then do {
                         m \<leftarrow> Some (mpn_sqr_basecase ws p n3 tp m);
                         Some (mpn_sqr_basecase p a n3 tp m)
                       }
                       else do {
                         m \<leftarrow> mpn_kara_sqr_n ws p n3 (ws + n1) tp m;
                         mpn_kara_sqr_n p a n3 (ws + n1) tp m
                       });
                 m \<leftarrow> (if BELOW_THRESHOLD n2 SQR_BASECASE_THRESHOLD
                       then Some (mpn_mul_basecase (p + n1) (a + n3) n2 (a + n3) n2 m)
                       else if BELOW_THRESHOLD n2 SQR_KARATSUBA_THRESHOLD
                       then Some (mpn_sqr_basecase (p + n1) (a + n3) n2 tp m)
                       else mpn_kara_sqr_n (p + n1) (a + n3) n2 (ws + n1) tp m);
                 kara_interp_odd p n ws False m
               })
         else (let (_, m) = kara_diff_even p a n2 m
               in do {
                 m \<leftarrow> (if BELOW_THRESHOLD n2 SQR_BASECASE_THRESHOLD
                       then do {
                         m \<leftarrow> Some (mpn_mul_basecase ws p n2 p n2 m);
                         m \<leftarrow> Some (mpn_mul_basecase p a n2 a n2 m);
                         Some (mpn_mul_basecase (p + n) (a + n2) n2 (a + n2) n2 m)
                       }
                       else if BELOW_THRESHOLD n2 SQR_KARATSUBA_THRESHOLD
                       then do {
                         m \<leftarrow> Some (mpn_sqr_basecase ws p n2 tp m);
                         m \<leftarrow> Some (mpn_sqr_basecase p a n2 tp m);
                         Some (mpn_sqr_basecase (p + n) (a + n2) n2 tp m)
                       }
                       else do {
                         m \<leftarrow> mpn_kara_sqr_n ws p n2 (ws + n) tp m;
                         m \<leftarrow> mpn_kara_sqr_n p a n2 (ws + n) tp m;
                         mpn_kara_sqr_n (p + n) (a + n2) n2 (ws + n) tp m
                       });
                 kara_interp_even p n ws False m
               }))"
  by pat_completeness auto
termination
  by (relation "measure (\<lambda>(p, a, n, ws, tp, m). n)") (auto simp: SQR_KARATSUBA_THRESHOLD_def SQR_BASECASE_THRESHOLD_def BELOW_THRESHOLD_def ABOVE_THRESHOLD_def MP_SIZE_T_MAX_def)

declare mpn_kara_sqr_n.simps [simp del]

subsection \<open>The differences\<close>

lemma high_diff_less:
  assumes "high_diff m x y n = (w0, w1)" "1 \<le> n"
  shows "w0 < w1 \<longleftrightarrow> mval m x n < mval m y n"
  using assms
proof (induction n)
  case (Suc i)
  show ?case
  proof (cases "m (x + i) = m (y + i) \<and> i \<noteq> 0")
    case True
    then have "w0 < w1 \<longleftrightarrow> mval m x i < mval m y i" using Suc by simp
    then show ?thesis using True by (simp add: mval_high del: mval.simps)
  next
    case False
    then have w: "w0 = m (x + i)" "w1 = m (y + i)" using Suc.prems by auto
    consider "i = 0" | "w0 < w1" | "w1 < w0" using False w by (meson linorder_neqE)
    then show ?thesis
    proof cases
      case 1
      then show ?thesis using w by (simp add: limb_less_iff)
    next
      case 2
      then show ?thesis
        using high_limb_less [of "unat w0" "unat w1" "mval m x i" i "mval m y i"] mval_less [of m x i] w
        by (simp add: mval_high limb_less_iff del: mval.simps)
    next
      case 3
      then have "mval m y (Suc i) < mval m x (Suc i)"
        using high_limb_less [of "unat w1" "unat w0" "mval m y i" i "mval m x i"] mval_less [of m y i] w
        by (simp add: mval_high limb_less_iff del: mval.simps)
      then show ?thesis using 3 by simp
    qed
  qed
qed simp

text \<open>The chosen order of the operands gives no borrow.\<close>

lemma sub_n_exact:
  assumes "mpn_sub_n p x y n m = (c, m')" "mval m y n \<le> mval m x n" "\<not> MPN_OVERLAP_P p n x n" "\<not> MPN_OVERLAP_P p n y n"
  shows "mval m' p n + mval m y n = mval m x n" "only_in p n m m'"
proof -
  have o: "MPN_SAME_OR_INCR_P p x n" "MPN_SAME_OR_INCR_P p y n" using assms(3,4) by (auto simp: overlap_defs)
  note S = mpn_sub_n_spec [OF assms(1) o]
  have "unat c = 0"
  proof (rule ccontr)
    assume "unat c \<noteq> 0"
    then have "LB ^ n * 1 \<le> LB ^ n * unat c" by (intro mult_le_mono2) simp
    then show False using S(1) assms(2) mval_less [of m' p n] by linarith
  qed
  then show "mval m' p n + mval m y n = mval m x n" using S(1) by simp
  show "only_in p n m m'" by (rule S(3))
qed

lemma kara_diff_even_spec:
  assumes eq: "kara_diff_even p a n2 m = (s, m')" and n2: "1 \<le> n2" and sep: "\<not> MPN_OVERLAP_P p n2 a (2 * n2)"
  shows "s \<longleftrightarrow> mval m a n2 < mval m (a + n2) n2"
    and "int (mval m' p n2) = \<bar>int (mval m a n2) - int (mval m (a + n2) n2)\<bar>"
    and "only_in p n2 m m'"
proof -
  obtain w0 w1 where h: "high_diff m a (a + n2) n2 = (w0, w1)" by fastforce
  note less = high_diff_less [OF h n2]
  have o: "\<not> MPN_OVERLAP_P p n2 a n2" "\<not> MPN_OVERLAP_P p n2 (a + n2) n2"
    using sep by (auto simp: MPN_OVERLAP_P_def)
  have "(s \<longleftrightarrow> mval m a n2 < mval m (a + n2) n2)
    \<and> int (mval m' p n2) = \<bar>int (mval m a n2) - int (mval m (a + n2) n2)\<bar> \<and> only_in p n2 m m'"
  proof (cases "w0 < w1")
    case True
    obtain c m1 where e: "mpn_sub_n p (a + n2) a n2 m = (c, m1)" by fastforce
    have r: "s" "m' = m1" using eq h True e by (auto simp: kara_diff_even_def)
    show ?thesis using sub_n_exact [OF e _ o(2,1)] True less r by auto
  next
    case False
    obtain c m1 where e: "mpn_sub_n p a (a + n2) n2 m = (c, m1)" by fastforce
    have r: "\<not> s" "m' = m1" using eq h False e by (auto simp: kara_diff_even_def)
    show ?thesis using sub_n_exact [OF e _ o] False less r by auto
  qed
  then show "s \<longleftrightarrow> mval m a n2 < mval m (a + n2) n2"
    "int (mval m' p n2) = \<bar>int (mval m a n2) - int (mval m (a + n2) n2)\<bar>" "only_in p n2 m m'" by blast+
qed

lemma kara_diff_odd_spec:
  assumes eq: "kara_diff_odd p a n2 (Suc n2) m = (s, m')" and n2: "1 \<le> n2" and sep: "\<not> MPN_OVERLAP_P p (Suc n2) a (2 * n2 + 1)"
  shows "s \<longleftrightarrow> mval m a (Suc n2) < mval m (a + Suc n2) n2"
    and "int (mval m' p (Suc n2)) = \<bar>int (mval m a (Suc n2)) - int (mval m (a + Suc n2) n2)\<bar>"
    and "only_in p (Suc n2) m m'"
proof -
  have o: "\<not> MPN_OVERLAP_P p n2 a n2" "\<not> MPN_OVERLAP_P p n2 (a + Suc n2) n2"
    using sep by (auto simp: MPN_OVERLAP_P_def)
  have up: "only_in p (Suc n2) m (m1(p + n2 := w))" if "only_in p n2 m m1" for m1 w
    by (rule only_in_trans [OF only_in_mono [OF that] only_in_upd]) auto
  have val: "mval (m1(p + n2 := w)) p (Suc n2) = mval m1 p n2 + LB ^ n2 * unat w" for m1 w
    by (simp add: mval_high del: mval.simps)
  have A: "mval m a (Suc n2) = mval m a n2 + LB ^ n2 * unat (m (a + n2))" by (rule mval_high)
  have "(s \<longleftrightarrow> mval m a (Suc n2) < mval m (a + Suc n2) n2)
    \<and> int (mval m' p (Suc n2)) = \<bar>int (mval m a (Suc n2)) - int (mval m (a + Suc n2) n2)\<bar> \<and> only_in p (Suc n2) m m'"
  proof (cases "m (a + n2) = 0")
    case False
    obtain c m1 where e: "mpn_sub_n p a (a + Suc n2) n2 m = (c, m1)" by fastforce
    have r: "\<not> s" "m' = m1(p + n2 := m (a + n2) - c)" using eq False e by (auto simp: kara_diff_odd_def)
    have i: "MPN_SAME_OR_INCR_P p a n2" "MPN_SAME_OR_INCR_P p (a + Suc n2) n2" using o by (auto simp: overlap_defs)
    note S = mpn_sub_n_spec [OF e i]
    have w: "1 \<le> unat (m (a + n2))" using False by (simp add: unat_gt_0 Suc_leI)
    then have wc: "unat (m (a + n2) - c) + unat c = unat (m (a + n2))" using S(2) by (simp add: unat_minus_if)
    have "mval m' p (Suc n2) + mval m (a + Suc n2) n2 = mval m a (Suc n2)"
      unfolding r val A using S(1) wc by (simp add: distrib_left flip: wc)
    then have "int (mval m' p (Suc n2)) = \<bar>int (mval m a (Suc n2)) - int (mval m (a + Suc n2) n2)\<bar>"
      and "\<not> mval m a (Suc n2) < mval m (a + Suc n2) n2" by linarith+
    then show ?thesis using r up [OF S(3)] by blast
  next
    case True
    obtain w0 w1 where h: "high_diff m a (a + Suc n2) n2 = (w0, w1)" by fastforce
    note less = high_diff_less [OF h n2]
    have A0: "mval m a (Suc n2) = mval m a n2" using A True by simp
    show ?thesis
    proof (cases "w0 < w1")
      case t: True
      obtain c m1 where e: "mpn_sub_n p (a + Suc n2) a n2 m = (c, m1)" by fastforce
      have r: "s" "m' = m1(p + n2 := 0)" using eq h True t e by (auto simp: kara_diff_odd_def)
      show ?thesis unfolding r(2) val A0 using sub_n_exact [OF e _ o(2,1)] t less r up by auto
    next
      case f: False
      obtain c m1 where e: "mpn_sub_n p a (a + Suc n2) n2 m = (c, m1)" by fastforce
      have r: "\<not> s" "m' = m1(p + n2 := 0)" using eq h True f e by (auto simp: kara_diff_odd_def)
      show ?thesis unfolding r(2) val A0 using sub_n_exact [OF e _ o] f less r up by auto
    qed
  qed
  then show "s \<longleftrightarrow> mval m a (Suc n2) < mval m (a + Suc n2) n2"
    "int (mval m' p (Suc n2)) = \<bar>int (mval m a (Suc n2)) - int (mval m (a + Suc n2) n2)\<bar>" "only_in p (Suc n2) m m'" by blast+
qed

subsection \<open>The three products\<close>

text \<open>A step that returns, writes the product of \<open>{x,nx}\<close> and \<open>{y,ny}\<close> to \<open>dst\<close> and nothing outside \<open>S\<close>.\<close>

definition product_step :: "(mem \<Rightarrow> mem option) \<Rightarrow> ptr \<Rightarrow> ptr \<Rightarrow> nat \<Rightarrow> ptr \<Rightarrow> nat \<Rightarrow> nat set \<Rightarrow> bool" where
  "product_step f dst x nx y ny S \<longleftrightarrow>
     (\<forall>m. \<exists>m'. f m = Some m' \<and> mval m' dst (nx + ny) = mval m x nx * mval m y ny \<and> only_at S m m')"

lemma product_stepE:
  assumes "product_step f dst x nx y ny S"
  obtains m' where "f m = Some m'" "mval m' dst (nx + ny) = mval m x nx * mval m y ny" "only_at S m m'"
  using assms unfolding product_step_def by metis

lemma product_step_mono: "product_step f dst x nx y ny S \<Longrightarrow> S \<subseteq> T \<Longrightarrow> product_step f dst x nx y ny T"
  unfolding product_step_def by (meson only_at_mono)

lemma only_at_mval_sub:
  "only_at S m m' \<Longrightarrow> R \<inter> S = {} \<Longrightarrow> {q..<q + k} \<subseteq> R \<Longrightarrow> mval m' q k = mval m q k"
  by (rule only_at_mval) auto

lemma kara_products:
  assumes f1: "product_step f1 ws x n3 y n3 ({ws..<ws + 2 * n3} \<union> W)"
    and f2: "product_step f2 p a n3 b n3 ({p..<p + 2 * n3} \<union> W)"
    and f3: "product_step f3 (p + 2 * n3) (a + n3) n2 (b + n3) n2 ({p + 2 * n3..<p + 2 * n3 + 2 * n2} \<union> W)"
    and dab: "({a..<a + n3 + n2} \<union> {b..<b + n3 + n2}) \<inter> ({ws..<ws + 2 * n3} \<union> {p..<p + 2 * n3 + 2 * n2} \<union> W) = {}"
    and dws: "{ws..<ws + 2 * n3} \<inter> ({p..<p + 2 * n3 + 2 * n2} \<union> W) = {}"
    and dp: "{p..<p + 2 * n3 + 2 * n2} \<inter> W = {}"
  obtains m1 m2 m3 where "f1 m = Some m1" "f2 m1 = Some m2" "f3 m2 = Some m3"
    "mval m3 ws (2 * n3) = mval m x n3 * mval m y n3"
    "mval m3 p (2 * n3) = mval m a n3 * mval m b n3"
    "mval m3 (p + 2 * n3) (2 * n2) = mval m (a + n3) n2 * mval m (b + n3) n2"
    "only_at ({ws..<ws + 2 * n3} \<union> {p..<p + 2 * n3 + 2 * n2} \<union> W) m m3"
proof -
  obtain m1 where 1: "f1 m = Some m1" "mval m1 ws (n3 + n3) = mval m x n3 * mval m y n3" "only_at ({ws..<ws + 2 * n3} \<union> W) m m1"
    using f1 by (rule product_stepE)
  obtain m2 where 2: "f2 m1 = Some m2" "mval m2 p (n3 + n3) = mval m1 a n3 * mval m1 b n3" "only_at ({p..<p + 2 * n3} \<union> W) m1 m2"
    using f2 by (rule product_stepE)
  obtain m3 where 3: "f3 m2 = Some m3" "mval m3 (p + 2 * n3) (n2 + n2) = mval m2 (a + n3) n2 * mval m2 (b + n3) n2"
      "only_at ({p + 2 * n3..<p + 2 * n3 + 2 * n2} \<union> W) m2 m3"
    using f3 by (rule product_stepE)
  define R S where "R = {a..<a + n3 + n2} \<union> {b..<b + n3 + n2}" and "S = {ws..<ws + 2 * n3} \<union> {p..<p + 2 * n3 + 2 * n2} \<union> W"
  have RS: "R \<inter> S = {}" using dab by (simp add: R_def S_def)
  have S1: "only_at S m m1" by (rule only_at_mono [OF 1(3)]) (auto simp: S_def)
  have S2: "only_at S m1 m2" by (rule only_at_mono [OF 2(3)]) (auto simp: S_def)
  have S3: "only_at S m2 m3" by (rule only_at_mono [OF 3(3)]) (auto simp: S_def)
  note S12 = only_at_trans [OF S1 S2]
  have lo: "mval m1 a n3 = mval m a n3" "mval m1 b n3 = mval m b n3"
    by (rule only_at_mval_sub [OF S1 RS]; force simp: R_def)+
  have hi: "mval m2 (a + n3) n2 = mval m (a + n3) n2" "mval m2 (b + n3) n2 = mval m (b + n3) n2"
    by (rule only_at_mval_sub [OF S12 RS]; force simp: R_def)+
  have "mval m3 ws (2 * n3) = mval m2 ws (2 * n3)"
    by (rule only_at_mval [OF 3(3)]) (use dws in \<open>auto simp: disjoint_iff\<close>)
  also have "\<dots> = mval m1 ws (2 * n3)"
    by (rule only_at_mval [OF 2(3)]) (use dws in \<open>auto simp: disjoint_iff\<close>)
  finally have "mval m3 ws (2 * n3) = mval m x n3 * mval m y n3" using 1(2) by (simp add: mult_2)
  moreover have "mval m3 p (2 * n3) = mval m2 p (2 * n3)"
    by (rule only_at_mval [OF 3(3)]) (use dp in \<open>auto simp: disjoint_iff\<close>)
  then have "mval m3 p (2 * n3) = mval m a n3 * mval m b n3" using 2(2) lo by (simp add: mult_2)
  moreover have "mval m3 (p + 2 * n3) (2 * n2) = mval m (a + n3) n2 * mval m (b + n3) n2"
    using 3(2) hi by (simp add: mult_2)
  moreover have "only_at S m m3" by (rule only_at_trans [OF S12 S3])
  ultimately show thesis using that 1(1) 2(1) 3(1) by (simp add: S_def)
qed

subsection \<open>The interpolation\<close>

lemma flag_limb: "unat (c :: limb) \<le> 1 \<Longrightarrow> c = 0 \<or> c = 1"
  by (cases "unat c") (auto simp: limb_eq_iff)

lemma kara_interp_even_spec:
  fixes M :: nat
  assumes n: "n = 2 * n2" "1 \<le> n2" and sep: "\<not> MPN_OVERLAP_P ws n p (2 * n)"
    and L: "L = mval m p n" and H: "H = mval m (p + n) n" and D: "D = mval m ws n"
    and M: "int M = int L + int H + (if sign then int D else - int D)"
    and T: "L + LB ^ n2 * M + LB ^ n * H < LB ^ (2 * n)"
  shows "\<exists>m'. kara_interp_even p n ws sign m = Some m' \<and> mval m' p (2 * n) = L + LB ^ n2 * M + LB ^ n * H
    \<and> only_at ({p..<p + 2 * n} \<union> {ws..<ws + n}) m m'"
proof -
  have sepi: "ws + n \<le> p \<or> p + 2 * n \<le> ws" using sep n by (auto simp: MPN_OVERLAP_P_def)
  have i: "MPN_SAME_OR_INCR_P ws p n" "MPN_SAME_OR_INCR_P ws ws n" "MPN_SAME_OR_INCR_P ws (p + n) n"
    "MPN_SAME_OR_INCR_P (p + n2) (p + n2) n" "MPN_SAME_OR_INCR_P (p + n2) ws n"
    using sepi n by (auto simp: overlap_defs)
  obtain w1 m1 where 1: "(if sign then mpn_add_n ws p ws n m else (let (cy, m) = mpn_sub_n ws p ws n m in (- cy, m))) = (w1, m1)"
    by fastforce
  obtain c1 where c1: "int (mval m1 ws n) + int (LB ^ n) * (if sign then int (unat c1) else - int (unat c1)) = int L + (if sign then int D else - int D)"
    and w1: "w1 = (if sign then c1 else - c1)" "unat c1 \<le> 1" and f1: "only_in ws n m m1"
  proof (cases sign)
    case True
    then have e: "mpn_add_n ws p ws n m = (w1, m1)" using 1 by simp
    note S = mpn_add_n_spec [OF e i(1,2)]
    have "int (mval m1 ws n + LB ^ n * unat w1) = int (L + D)" using S(1) by (simp only: L D)
    then show thesis using that [of w1] S(2,3) True by simp
  next
    case False
    obtain cy where e: "mpn_sub_n ws p ws n m = (cy, m1)" "w1 = - cy" using 1 False by (auto split: prod.splits)
    note S = mpn_sub_n_spec [OF e(1) i(1,2)]
    have "int (mval m1 ws n + D) = int (L + LB ^ n * unat cy)" using S(1) by (simp only: L D)
    then show thesis using that [of cy] S(2,3) False e(2) by (simp add: algebra_simps)
  qed
  obtain c2 m2 where 2: "mpn_add_n ws (p + n) ws n m1 = (c2, m2)" by fastforce
  note S2 = mpn_add_n_spec [OF 2 i(3,2)]
  have H1: "mval m1 (p + n) n = H" unfolding H by (rule only_in_mval [OF f1]) (use sepi in auto)
  obtain c3 m3 where 3: "mpn_add_n (p + n2) (p + n2) ws n m2 = (c3, m3)" by fastforce
  note S3 = mpn_add_n_spec [OF 3 i(4,5)]
  define w where "w = w1 + c2 + c3"
  define k where "k = (if sign then int (unat c1) else - int (unat c1)) + int (unat c2)"
  have Mk: "int M = int (mval m2 ws n) + int (LB ^ n) * k"
  proof -
    have "int (mval m2 ws n) + int (LB ^ n) * int (unat c2) = int H + int (mval m1 ws n)"
      using S2(1) [unfolded H1] by (simp only: of_nat_add [symmetric] of_nat_mult [symmetric])
    then show ?thesis unfolding M k_def distrib_left using c1 by linarith
  qed
  have k0: "0 \<le> k"
  proof (rule ccontr)
    assume "\<not> 0 \<le> k"
    then have "int (LB ^ n) * k \<le> int (LB ^ n) * - 1" by (intro mult_left_mono) auto
    moreover have "int (mval m2 ws n) < int (LB ^ n)" using mval_less by (simp only: of_nat_less_iff)
    ultimately show False using Mk by linarith
  qed
  have wv: "int (unat w) = k + int (unat c3)"
    using flag_limb [OF w1(2)] flag_limb [OF S2(2)] flag_limb [OF S3(2)] k0
    by (cases sign) (auto simp: k_def w_def w1(1))
  have mid: "mval m3 (p + n2) n + LB ^ n * unat c3 = mval m2 (p + n2) n + mval m2 ws n" by (rule S3(1))
  have f2: "only_in ws n m m2" by (rule only_in_trans [OF f1 S2(3)])
  have split: "mval m'' p (2 * n) = mval m'' p n2 + LB ^ n2 * mval m'' (p + n2) n + LB ^ (n2 + n) * mval m'' (p + n2 + n) n2" for m''
  proof -
    have "2 * n = n2 + (n + n2)" using n by simp
    then show ?thesis by (simp only: mval_add power_add distrib_left mult.assoc add.assoc)
  qed
  have p2: "mval m2 p (2 * n) = L + LB ^ n * H"
  proof -
    have "mval m2 p (2 * n) = mval m p (2 * n)" by (rule only_in_mval [OF f2]) (use sepi in auto)
    then show ?thesis using mval_add [of m p n n] by (simp add: L H mult_2)
  qed
  have lo3: "mval m3 p n2 = mval m2 p n2" by (rule only_in_mval [OF S3(3)]) simp
  have hi3: "mval m3 (p + n2 + n) n2 = mval m2 (p + n2 + n) n2" by (rule only_in_mval [OF S3(3)]) simp
  have tot: "mval m3 p n2 + LB ^ n2 * mval m3 (p + n2) n + LB ^ (n2 + n) * (mval m3 (p + n2 + n) n2 + unat w)
      = L + LB ^ n2 * M + LB ^ n * H" (is "?lhs = ?rhs")
  proof -
    have "int M = int (mval m2 ws n + LB ^ n * nat k)" using Mk k0 by simp
    then have M': "M = mval m2 ws n + LB ^ n * nat k" by (simp only: of_nat_eq_iff)
    have uw: "unat w = nat k + unat c3" using wv k0 by linarith
    have "?lhs = mval m2 p n2 + LB ^ n2 * (mval m3 (p + n2) n + LB ^ n * unat c3) + LB ^ (n2 + n) * (mval m2 (p + n2 + n) n2 + nat k)"
      unfolding lo3 hi3 uw by (simp add: algebra_simps power_add)
    also have "\<dots> = mval m2 p (2 * n) + LB ^ n2 * (mval m2 ws n + LB ^ n * nat k)"
      unfolding mid split by (simp add: algebra_simps power_add)
    finally show ?thesis unfolding p2 M' by simp
  qed
  have "LB ^ (2 * n) = LB ^ (n2 + n) * LB ^ n2" unfolding power_add [symmetric] n(1) by simp
  then have "LB ^ (n2 + n) * (mval m3 (p + n2 + n) n2 + unat w) < LB ^ (n2 + n) * LB ^ n2"
    using tot T by linarith
  then have room: "mval m3 (p + n2 + n) n2 + unat w < LB ^ n2" by (simp only: mult_less_cancel1)
  obtain m4 where 4: "mpn_incr_u (p + n2 + n) w m3 = Some m4" "mval m4 (p + n2 + n) n2 = mval m3 (p + n2 + n) n2 + unat w"
    "only_in (p + n2 + n) n2 m3 m4"
    using mpn_incr_u_spec [OF room] n(2) by (auto simp: max_def)
  have "kara_interp_even p n ws sign m = Some m4"
    using 1 2 3 4(1) n unfolding kara_interp_even_def Let_def by (simp add: w_def add.assoc)
  moreover have "mval m4 p (2 * n) = L + LB ^ n2 * M + LB ^ n * H"
  proof -
    have "mval m4 p n2 = mval m3 p n2" "mval m4 (p + n2) n = mval m3 (p + n2) n"
      by (rule only_in_mval [OF 4(3)]; simp)+
    then show ?thesis unfolding split 4(2) using tot by simp
  qed
  moreover have "only_at ({p..<p + 2 * n} \<union> {ws..<ws + n}) m m4"
    by (intro only_at_trans [OF only_in_at [OF f2] only_at_trans [OF only_in_at [OF S3(3)] only_in_at [OF 4(3)]]]) (use n in auto)
  ultimately show ?thesis by blast
qed

text \<open>The carry into the two top limbs, modulo their size.\<close>

lemma carry_two_limbs:
  fixes m :: mem and p :: ptr and c :: limb
  assumes "unat c \<le> 1"
  defines "m' \<equiv> (if c \<noteq> 0
      then (let x = m p + 1; m = m(p := x) in if x = 0 then m(p + 1 := m (p + 1) + 1) else m)
      else m)"
  shows "mval m' p 2 = (mval m p 2 + unat c) mod (LB * LB)" and "only_in p 2 m m'"
proof -
  have v: "mval h p 2 = unat (h p) + LB * unat (h (Suc p))" for h by (simp add: numeral_2_eq_2)
  have f: "mval m p 2 < LB * LB" using mval_less [of m p 2] by (simp add: power2_eq_square)
  consider "c = 0" | "c = 1" "m p + 1 \<noteq> 0" | "c = 1" "m p + 1 = 0" using flag_limb [OF assms(1)] by blast
  then have "mval m' p 2 = (mval m p 2 + unat c) mod (LB * LB) \<and> only_in p 2 m m'"
  proof cases
    case 1
    then show ?thesis using f by (simp add: m'_def)
  next
    case 2
    then have u: "unat (m p + 1) = unat (m p) + 1" using unat_lt_LB [of "m p"] by (auto simp: unat_plus_if limb_eq_iff split: if_splits)
    have m': "m' = m(p := m p + 1)" using 2 by (simp add: m'_def Let_def)
    have "mval m' p 2 = mval m p 2 + 1" unfolding v m' using u by simp
    then show ?thesis using mval_less [of m' p 2] 2 by (simp add: power2_eq_square m')
  next
    case 3
    then have "LB \<le> unat (m p) + 1" by (auto simp: unat_plus_if limb_eq_iff split: if_splits)
    then have u: "unat (m p) + 1 = LB" using unat_lt_LB [of "m p"] by linarith
    have m': "m' = m(p := 0, p + 1 := m (p + 1) + 1)" using 3 by (simp add: m'_def Let_def)
    have "mval m p 2 + 1 = LB * (1 + unat (m (p + 1)))" unfolding v using u by (simp add: algebra_simps)
    moreover have "(LB * (1 + unat (m (p + 1)))) mod (LB * LB) = LB * unat (m (p + 1) + 1)"
      unfolding mod_mult_mult1 by (simp add: unat_plus_limb add.commute)
    ultimately have "(mval m p 2 + unat c) mod (LB * LB) = LB * unat (m (p + 1) + 1)" using 3 by simp
    moreover have "mval m' p 2 = LB * unat (m (p + 1) + 1)" unfolding v m' by simp
    moreover have "only_in p 2 m m'"
      unfolding m' by (rule only_in_trans [OF only_in_upd only_in_upd]) auto
    ultimately show ?thesis by simp
  qed
  then show "mval m' p 2 = (mval m p 2 + unat c) mod (LB * LB)" "only_in p 2 m m'" by blast+
qed

lemma kara_interp_odd_spec:
  fixes M :: nat
  assumes n: "n = 2 * n2 + 1" "1 \<le> n2" and sep: "\<not> MPN_OVERLAP_P ws (n + 1) p (2 * n)"
    and L: "L = mval m p (n + 1)" and H: "H = mval m (p + (n + 1)) (n - 1)" and D: "D = mval m ws (n + 1)"
    and M: "int M = int L + int H + (if sign then int D else - int D)" "M < LB ^ (n + 1)"
    and T: "L + LB ^ Suc n2 * M + LB ^ (n + 1) * H < LB ^ (2 * n)"
  shows "\<exists>m'. kara_interp_odd p n ws sign m = Some m' \<and> mval m' p (2 * n) = L + LB ^ Suc n2 * M + LB ^ (n + 1) * H
    \<and> only_at ({p..<p + 2 * n} \<union> {ws..<ws + (n + 1)}) m m'"
proof -
  define n1 n3 where "n1 = n + 1" and "n3 = Suc n2"
  have sepi: "ws + n1 \<le> p \<or> p + 2 * n \<le> ws" using sep n by (auto simp: MPN_OVERLAP_P_def n1_def)
  have nn: "n1 = 2 * n2 + 2" "n - 1 = 2 * n2" "n - n2 = n3" "n div 2 = n2" using n by (simp_all add: n1_def n3_def)
  have i: "MPN_SAME_OR_INCR_P ws p n1" "MPN_SAME_OR_INCR_P ws ws n1" "MPN_SAME_OR_INCR_P ws ws (n - 1)"
    "MPN_SAME_OR_INCR_P ws (p + n1) (n - 1)" "MPN_SAME_OR_INCR_P (p + n3) (p + n3) n1" "MPN_SAME_OR_INCR_P (p + n3) ws n1"
    using sepi n by (auto simp: overlap_defs n1_def n3_def)
  obtain w1 m1 where 1: "(if sign then mpn_add_n ws p ws n1 m else mpn_sub_n ws p ws n1 m) = (w1, m1)" by fastforce
  obtain e where e: "int (mval m1 ws n1) = int L + (if sign then int D else - int D) + int (LB ^ n1) * e" and f1: "only_in ws n1 m m1"
  proof (cases sign)
    case True
    then have q: "mpn_add_n ws p ws n1 m = (w1, m1)" using 1 by simp
    note S = mpn_add_n_spec [OF q i(1,2)]
    have "int (mval m1 ws n1 + LB ^ n1 * unat w1) = int (L + D)" using S(1) by (simp only: L D n1_def)
    then show thesis using that [of "- int (unat w1)"] S(3) True by (simp add: algebra_simps)
  next
    case False
    then have q: "mpn_sub_n ws p ws n1 m = (w1, m1)" using 1 by simp
    note S = mpn_sub_n_spec [OF q i(1,2)]
    have "int (mval m1 ws n1 + D) = int (L + LB ^ n1 * unat w1)" using S(1) by (simp only: L D n1_def)
    then show thesis using that [of "int (unat w1)"] S(3) False by (simp add: algebra_simps)
  qed
  obtain c2 m2 where 2: "mpn_add_n ws (p + n1) ws (n - 1) m1 = (c2, m2)" by fastforce
  note S2 = mpn_add_n_spec [OF 2 i(4,3)]
  have H1: "mval m1 (p + n1) (n - 1) = H"
    unfolding H n1_def [symmetric] by (rule only_in_mval [OF f1]) (use sepi n in \<open>auto simp: n1_def\<close>)
  define wt where "wt = ws + (n - 1)"
  define m3 where "m3 = (if c2 \<noteq> 0
      then (let x = m2 wt + 1; m = m2(wt := x) in if x = 0 then m(wt + 1 := m (wt + 1) + 1) else m) else m2)"
  note C = carry_two_limbs [OF S2(2), where m = m2 and p = wt, folded m3_def]
  have top1: "mval m2 wt 2 = mval m1 wt 2" by (rule only_in_mval [OF S2(3)]) (simp add: wt_def)
  have low2: "mval m3 ws (n - 1) = mval m2 ws (n - 1)" by (rule only_in_mval [OF C(2)]) (simp add: wt_def)
  have sp: "mval h ws n1 = mval h ws (n - 1) + LB ^ (n - 1) * mval h wt 2" for h
    using mval_add [of h ws "n - 1" 2] nn by (simp add: wt_def del: mval.simps)
  have pw: "LB ^ n1 = LB ^ (n - 1) * (LB * LB)" unfolding nn by (simp add: power_add power2_eq_square)
  have "mval m3 ws n1 = (H + mval m1 ws n1) mod LB ^ n1"
  proof -
    have "H + mval m1 ws n1 = mval m2 ws (n - 1) + LB ^ (n - 1) * (mval m1 wt 2 + unat c2)"
      using S2(1) unfolding H1 sp by (simp add: algebra_simps)
    then have "(H + mval m1 ws n1) mod LB ^ n1 = mval m2 ws (n - 1) + LB ^ (n - 1) * ((mval m1 wt 2 + unat c2) mod (LB * LB))"
      unfolding pw mod_mult2_eq using mval_less [of m2 ws "n - 1"] by simp
    then show ?thesis unfolding sp low2 C(1) top1 by simp
  qed
  then have "int (mval m3 ws n1) = (int H + int (mval m1 ws n1)) mod int (LB ^ n1)"
    by (simp only: of_nat_add of_nat_mod)
  also have "int H + int (mval m1 ws n1) = int M + int (LB ^ n1) * e" unfolding M(1) e by simp
  also have "(int M + int (LB ^ n1) * e) mod int (LB ^ n1) = int M mod int (LB ^ n1)" by simp
  also have "\<dots> = int M" using M(2) unfolding n1_def [symmetric] of_nat_mod [symmetric] by (simp only: mod_less)
  finally have m3: "mval m3 ws n1 = M" by simp
  have f3: "only_in ws n1 m m3"
    by (intro only_in_trans [OF f1] only_in_trans [OF only_in_mono [OF S2(3)] only_in_mono [OF C(2)]]) (use nn in \<open>auto simp: wt_def\<close>)
  obtain c4 m4 where 4: "mpn_add_n (p + n3) (p + n3) ws n1 m3 = (c4, m4)" by fastforce
  note S4 = mpn_add_n_spec [OF 4 i(5,6), unfolded m3]
  have len: "2 * n = n3 + (n1 + (n2 - 1))" using n by (simp add: n1_def n3_def)
  have split: "mval h p (2 * n) = mval h p n3 + LB ^ n3 * mval h (p + n3) n1 + LB ^ n3 * LB ^ n1 * mval h (p + n3 + n1) (n2 - 1)" for h
    unfolding len by (simp only: mval_add distrib_left mult.assoc add.assoc)
  have p3: "mval m3 p (2 * n) = L + LB ^ n1 * H"
  proof -
    have "mval m3 p (2 * n) = mval m p (2 * n)" by (rule only_in_mval [OF f3]) (use sepi in auto)
    moreover have "2 * n = n1 + (n - 1)" using n by (simp add: n1_def)
    ultimately show ?thesis by (simp only: mval_add L H n1_def)
  qed
  have lo: "mval m4 p n3 = mval m3 p n3" by (rule only_in_mval [OF S4(3)]) simp
  have hi: "mval m4 (p + n3 + n1) (n2 - 1) = mval m3 (p + n3 + n1) (n2 - 1)" by (rule only_in_mval [OF S4(3)]) simp
  have tot: "mval m4 p n3 + LB ^ n3 * mval m4 (p + n3) n1 + LB ^ n3 * LB ^ n1 * (mval m4 (p + n3 + n1) (n2 - 1) + unat c4)
      = L + LB ^ n3 * M + LB ^ n1 * H" (is "?lhs = ?rhs")
  proof -
    have "?lhs = mval m3 p n3 + LB ^ n3 * (mval m4 (p + n3) n1 + LB ^ n1 * unat c4) + LB ^ n3 * LB ^ n1 * mval m3 (p + n3 + n1) (n2 - 1)"
      unfolding lo hi by (simp add: algebra_simps)
    also have "\<dots> = mval m3 p (2 * n) + LB ^ n3 * M" unfolding S4(1) split by (simp add: algebra_simps)
    finally show ?thesis unfolding p3 by simp
  qed
  have "LB ^ (2 * n) = LB ^ n3 * LB ^ n1 * LB ^ (n2 - 1)" unfolding len power_add by (simp add: mult.assoc)
  then have "LB ^ n3 * LB ^ n1 * (mval m4 (p + n3 + n1) (n2 - 1) + unat c4) < LB ^ n3 * LB ^ n1 * LB ^ (n2 - 1)"
    using tot T unfolding n1_def [symmetric] n3_def [symmetric] by linarith
  then have room: "mval m4 (p + n3 + n1) (n2 - 1) + unat c4 < LB ^ (n2 - 1)" by (simp only: mult_less_cancel1)
  define r where "r = (if c4 \<noteq> 0 then mpn_incr_u (p + n1 + n3) 1 m4 else Some m4)"
  obtain m5 where 5: "r = Some m5" "mval m5 (p + n3 + n1) (n2 - 1) = mval m4 (p + n3 + n1) (n2 - 1) + unat c4"
    "only_in (p + n3 + n1) (n2 - 1) m4 m5"
  proof (cases "c4 = 0")
    case True
    then show thesis using that [of m4] by (simp add: r_def)
  next
    case False
    then have c: "c4 = 1" using flag_limb [OF S4(2)] by simp
    obtain m5 where "mpn_incr_u (p + n3 + n1) c4 m4 = Some m5" "mval m5 (p + n3 + n1) (n2 - 1) = mval m4 (p + n3 + n1) (n2 - 1) + unat c4"
      "only_in (p + n3 + n1) (n2 - 1) m4 m5"
      using mpn_incr_u_spec [OF room] False by blast
    then show thesis using that [of m5] c by (simp add: r_def add.assoc add.commute [of n3])
  qed
  have "kara_interp_odd p n ws sign m = r"
  proof -
    have "ws + n = wt + 1" using n by (simp add: wt_def)
    then show ?thesis
      by (simp only: kara_interp_odd_def Let_def nn(3,4) n1_def [symmetric] wt_def [symmetric] 1 2 case_prod_conv
          m3_def [unfolded Let_def, symmetric] 4 r_def)
  qed
  moreover have "mval m5 p (2 * n) = L + LB ^ n3 * M + LB ^ n1 * H"
  proof -
    have "mval m5 p n3 = mval m4 p n3" "mval m5 (p + n3) n1 = mval m4 (p + n3) n1"
      by (rule only_in_mval [OF 5(3)]; simp)+
    then show ?thesis unfolding split 5(2) using tot by simp
  qed
  moreover have "only_at ({p..<p + 2 * n} \<union> {ws..<ws + n1}) m m5"
    by (intro only_at_trans [OF only_in_at [OF f3] only_at_trans [OF only_in_at [OF S4(3)] only_in_at [OF 5(3)]]])
      (use n in \<open>auto simp: n1_def n3_def\<close>)
  ultimately show ?thesis using 5(1) unfolding n1_def n3_def by metis
qed

subsection \<open>The whole step\<close>

lemma kara_identity:
  fixes A0 A1 B0 B1 K :: nat
  assumes "(if s then - int D else int D) = (int A0 - int A1) * (int B0 - int B1)"
  shows "int (A0 * B1 + A1 * B0) = int (A0 * B0) + int (A1 * B1) + (if s then int D else - int D)"
    and "A0 * B0 + K * (A0 * B1 + A1 * B0) + K * K * (A1 * B1) = (A0 + K * A1) * (B0 + K * B1)"
proof -
  have "int (A0 * B1 + A1 * B0) = int (A0 * B0) + int (A1 * B1) - (int A0 - int A1) * (int B0 - int B1)"
    by (simp add: algebra_simps)
  then show "int (A0 * B1 + A1 * B0) = int (A0 * B0) + int (A1 * B1) + (if s then int D else - int D)"
    unfolding assms [symmetric] by simp
qed (simp add: algebra_simps)

lemma less_power_mult: "a < LB ^ i \<Longrightarrow> b < LB ^ j \<Longrightarrow> a * b < LB ^ (i + j)"
  by (simp add: power_add mult_strict_mono)

lemma kara_assemble_odd:
  assumes n: "n = 2 * n2 + 1" "1 \<le> n2" "n3 = Suc n2"
    and f: "product_step f1 ws x n3 y n3 ({ws..<ws + 2 * n3} \<union> W)"
      "product_step f2 p a n3 b n3 ({p..<p + 2 * n3} \<union> W)"
      "product_step f3 (p + 2 * n3) (a + n3) n2 (b + n3) n2 ({p + 2 * n3..<p + 2 * n3 + 2 * n2} \<union> W)"
    and d: "({a..<a + n3 + n2} \<union> {b..<b + n3 + n2}) \<inter> ({ws..<ws + 2 * n3} \<union> {p..<p + 2 * n3 + 2 * n2} \<union> W) = {}"
      "{ws..<ws + 2 * n3} \<inter> ({p..<p + 2 * n3 + 2 * n2} \<union> W) = {}" "{p..<p + 2 * n3 + 2 * n2} \<inter> W = {}"
    and X: "(if s then - int (mval m x n3 * mval m y n3) else int (mval m x n3 * mval m y n3)) =
      (int (mval m a n3) - int (mval m (a + n3) n2)) * (int (mval m b n3) - int (mval m (b + n3) n2))"
  shows "\<exists>m'. do { m \<leftarrow> f1 m; m \<leftarrow> f2 m; m \<leftarrow> f3 m; kara_interp_odd p n ws s m } = Some m'
    \<and> mval m' p (2 * n) = mval m a n * mval m b n
    \<and> only_at ({ws..<ws + 2 * n3} \<union> {p..<p + 2 * n3 + 2 * n2} \<union> W) m m'"
proof -
  obtain m1 m2 m3 where 1: "f1 m = Some m1" "f2 m1 = Some m2" "f3 m2 = Some m3"
    and D: "mval m3 ws (2 * n3) = mval m x n3 * mval m y n3"
    and L: "mval m3 p (2 * n3) = mval m a n3 * mval m b n3"
    and H: "mval m3 (p + 2 * n3) (2 * n2) = mval m (a + n3) n2 * mval m (b + n3) n2"
    and fr: "only_at ({ws..<ws + 2 * n3} \<union> {p..<p + 2 * n3 + 2 * n2} \<union> W) m m3"
    by (rule kara_products [OF f d, of m])
  define A0 A1 B0 B1 where "A0 = mval m a n3" and "A1 = mval m (a + n3) n2" and "B0 = mval m b n3" and "B1 = mval m (b + n3) n2"
  note defs = A0_def [symmetric] A1_def [symmetric] B0_def [symmetric] B1_def [symmetric]
  note I = kara_identity(1) [OF X [unfolded defs]] kara_identity(2) [OF X [unfolded defs], where K = "LB ^ n3"]
  have AB: "mval m a n = A0 + LB ^ n3 * A1" "mval m b n = B0 + LB ^ n3 * B1"
    using mval_add [of m a n3 n2] mval_add [of m b n3 n2] n by (simp_all add: A0_def A1_def B0_def B1_def mult_2)
  have len: "n + 1 = 2 * n3" "n - 1 = 2 * n2" "2 * n = n + n" using n by simp_all
  have "mval m a n * mval m b n < LB ^ (2 * n)" unfolding len(3) by (intro less_power_mult mval_less)
  then have T: "A0 * B0 + LB ^ n3 * (A0 * B1 + A1 * B0) + LB ^ (2 * n3) * (A1 * B1) < LB ^ (2 * n)"
    unfolding AB I(2) [symmetric] by (simp add: mult_2 power_add)
  have M: "A0 * B1 + A1 * B0 < LB ^ (2 * n3)"
  proof -
    have "n3 + n2 = n" "n2 + n3 = n" using n by simp_all
    then have "A0 * B1 < LB ^ n" "A1 * B0 < LB ^ n"
      using less_power_mult [OF mval_less mval_less, of m a n3 m "b + n3" n2] less_power_mult [OF mval_less mval_less, of m "a + n3" n2 m b n3]
      by (simp_all only: defs)
    moreover have "2 * LB ^ n \<le> LB ^ (2 * n3)" unfolding len(1) [symmetric] by (simp add: LB_def)
    ultimately show ?thesis by linarith
  qed
  have sep: "\<not> MPN_OVERLAP_P ws (n + 1) p (2 * n)"
  proof
    assume "MPN_OVERLAP_P ws (n + 1) p (2 * n)"
    then have "max ws p \<in> {ws..<ws + 2 * n3} \<inter> {p..<p + 2 * n3 + 2 * n2}" using n by (auto simp: MPN_OVERLAP_P_def)
    then show False using d(2) by blast
  qed
  have "\<exists>m'. kara_interp_odd p n ws s m3 = Some m'
      \<and> mval m' p (2 * n) = A0 * B0 + LB ^ Suc n2 * (A0 * B1 + A1 * B0) + LB ^ (n + 1) * (A1 * B1)
      \<and> only_at ({p..<p + 2 * n} \<union> {ws..<ws + (n + 1)}) m3 m'"
    using I(1) M T by (intro kara_interp_odd_spec [OF n(1,2) sep]) (simp_all only: len D L H defs n(3) [symmetric])
  then obtain m' where m': "kara_interp_odd p n ws s m3 = Some m'"
    "mval m' p (2 * n) = A0 * B0 + LB ^ n3 * (A0 * B1 + A1 * B0) + LB ^ n3 * LB ^ n3 * (A1 * B1)"
    "only_at ({p..<p + 2 * n} \<union> {ws..<ws + 2 * n3}) m3 m'"
    unfolding len(1) n(3) [symmetric] by (auto simp: mult_2 power_add)
  have "only_at ({ws..<ws + 2 * n3} \<union> {p..<p + 2 * n3 + 2 * n2} \<union> W) m m'"
    by (rule only_at_trans [OF fr only_at_mono [OF m'(3)]]) (use n in auto)
  then show ?thesis using 1 m'(1,2) by (auto simp: AB I(2))
qed

lemma kara_assemble_even:
  assumes n: "n = 2 * n2" "1 \<le> n2"
    and f: "product_step f1 ws x n2 y n2 ({ws..<ws + 2 * n2} \<union> W)"
      "product_step f2 p a n2 b n2 ({p..<p + 2 * n2} \<union> W)"
      "product_step f3 (p + 2 * n2) (a + n2) n2 (b + n2) n2 ({p + 2 * n2..<p + 2 * n2 + 2 * n2} \<union> W)"
    and d: "({a..<a + n2 + n2} \<union> {b..<b + n2 + n2}) \<inter> ({ws..<ws + 2 * n2} \<union> {p..<p + 2 * n2 + 2 * n2} \<union> W) = {}"
      "{ws..<ws + 2 * n2} \<inter> ({p..<p + 2 * n2 + 2 * n2} \<union> W) = {}" "{p..<p + 2 * n2 + 2 * n2} \<inter> W = {}"
    and X: "(if s then - int (mval m x n2 * mval m y n2) else int (mval m x n2 * mval m y n2)) =
      (int (mval m a n2) - int (mval m (a + n2) n2)) * (int (mval m b n2) - int (mval m (b + n2) n2))"
  shows "\<exists>m'. do { m \<leftarrow> f1 m; m \<leftarrow> f2 m; m \<leftarrow> f3 m; kara_interp_even p n ws s m } = Some m'
    \<and> mval m' p (2 * n) = mval m a n * mval m b n
    \<and> only_at ({ws..<ws + 2 * n2} \<union> {p..<p + 2 * n2 + 2 * n2} \<union> W) m m'"
proof -
  obtain m1 m2 m3 where 1: "f1 m = Some m1" "f2 m1 = Some m2" "f3 m2 = Some m3"
    and D: "mval m3 ws (2 * n2) = mval m x n2 * mval m y n2"
    and L: "mval m3 p (2 * n2) = mval m a n2 * mval m b n2"
    and H: "mval m3 (p + 2 * n2) (2 * n2) = mval m (a + n2) n2 * mval m (b + n2) n2"
    and fr: "only_at ({ws..<ws + 2 * n2} \<union> {p..<p + 2 * n2 + 2 * n2} \<union> W) m m3"
    by (rule kara_products [OF f d, of m])
  define A0 A1 B0 B1 where "A0 = mval m a n2" and "A1 = mval m (a + n2) n2" and "B0 = mval m b n2" and "B1 = mval m (b + n2) n2"
  note defs = A0_def [symmetric] A1_def [symmetric] B0_def [symmetric] B1_def [symmetric]
  note I = kara_identity(1) [OF X [unfolded defs]] kara_identity(2) [OF X [unfolded defs], where K = "LB ^ n2"]
  have AB: "mval m a n = A0 + LB ^ n2 * A1" "mval m b n = B0 + LB ^ n2 * B1"
    using mval_add [of m a n2 n2] mval_add [of m b n2 n2] n by (simp_all add: A0_def A1_def B0_def B1_def mult_2)
  have "2 * n = n + n" by simp
  then have "mval m a n * mval m b n < LB ^ (2 * n)" by (simp only:) (intro less_power_mult mval_less)
  then have T: "A0 * B0 + LB ^ n2 * (A0 * B1 + A1 * B0) + LB ^ n * (A1 * B1) < LB ^ (2 * n)"
    unfolding AB I(2) [symmetric] by (simp add: n mult_2 power_add)
  have sep: "\<not> MPN_OVERLAP_P ws n p (2 * n)"
  proof
    assume "MPN_OVERLAP_P ws n p (2 * n)"
    then have "max ws p \<in> {ws..<ws + 2 * n2} \<inter> {p..<p + 2 * n2 + 2 * n2}" using n by (auto simp: MPN_OVERLAP_P_def)
    then show False using d(2) by blast
  qed
  have "\<exists>m'. kara_interp_even p n ws s m3 = Some m'
      \<and> mval m' p (2 * n) = A0 * B0 + LB ^ n2 * (A0 * B1 + A1 * B0) + LB ^ n * (A1 * B1)
      \<and> only_at ({p..<p + 2 * n} \<union> {ws..<ws + n}) m3 m'"
    using I(1) T by (intro kara_interp_even_spec [OF n sep]) (simp_all only: n(1) D L H defs)
  then obtain m' where m': "kara_interp_even p n ws s m3 = Some m'"
    "mval m' p (2 * n) = A0 * B0 + LB ^ n2 * (A0 * B1 + A1 * B0) + LB ^ n2 * LB ^ n2 * (A1 * B1)"
    "only_at ({p..<p + 2 * n} \<union> {ws..<ws + n}) m3 m'"
    by (auto simp: n mult_2 power_add)
  have "only_at ({ws..<ws + 2 * n2} \<union> {p..<p + 2 * n2 + 2 * n2} \<union> W) m m'"
    by (rule only_at_trans [OF fr only_at_mono [OF m'(3)]]) (use n in auto)
  then show ?thesis using 1 m'(1,2) by (auto simp: AB I(2))
qed

subsection \<open>Multiplication\<close>

text \<open>The workspace a call uses: the product of the differences, then what the recursive calls use.  It fits
  the size the callers reserve.\<close>

fun kara_room :: "nat \<Rightarrow> nat" where
  "kara_room n = (if n \<le> 1 then 0 else 2 * (n - n div 2) + kara_room (n - n div 2))"

declare kara_room.simps [simp del]

lemma kara_room_step: "2 \<le> n \<Longrightarrow> kara_room n = 2 * (n - n div 2) + kara_room (n - n div 2)"
  by (subst kara_room.simps) simp

lemma kara_room_mono: "a \<le> b \<Longrightarrow> kara_room a \<le> kara_room b"
proof (induction b arbitrary: a rule: less_induct)
  case (less b)
  show ?case
  proof (cases "a \<le> 1")
    case True
    then show ?thesis by (simp add: kara_room.simps [of a])
  next
    case False
    then have "a - a div 2 \<le> b - b div 2" "b - b div 2 < b" using less.prems by linarith+
    then have "kara_room (a - a div 2) \<le> kara_room (b - b div 2)" by (intro less.IH)
    then show ?thesis
      using False less.prems \<open>a - a div 2 \<le> b - b div 2\<close> by (simp add: kara_room_step)
  qed
qed

lemma kara_room_bound: "n \<le> 2 ^ k \<Longrightarrow> kara_room n \<le> 2 * (n + k)"
proof (induction k arbitrary: n)
  case 0
  then show ?case by (simp add: kara_room.simps [of n])
next
  case (Suc k)
  show ?case
  proof (cases "n \<le> 1")
    case False
    define h where "h = n - n div 2"
    have "h \<le> 2 ^ k" using Suc.prems by (simp add: h_def)
    then have "kara_room h \<le> 2 * (h + k)" by (rule Suc.IH)
    moreover have "2 * h \<le> n + 1" "2 \<le> n" using False unfolding h_def by linarith+
    ultimately show ?thesis using kara_room_step [of n, folded h_def] by simp
  qed (simp add: kara_room.simps [of n])
qed

lemma kara_room_TSIZE:
  assumes "n < LB"
  shows "kara_room n \<le> MPN_KARA_MUL_N_TSIZE n" "kara_room n \<le> MPN_KARA_SQR_N_TSIZE n"
  using kara_room_bound [of n 32] assms by (simp_all add: MPN_KARA_MUL_N_TSIZE_def MPN_KARA_SQR_N_TSIZE_def LB_def)

text \<open>Regions without overlap are disjoint sets of addresses.\<close>

lemma sep_disjoint: "\<not> MPN_OVERLAP_P x k y l \<Longrightarrow> {x..<x + k} \<inter> {y..<y + l} = {}"
  by (auto simp: MPN_OVERLAP_P_def)

lemma basecase_step:
  assumes "1 \<le> vn" "\<not> MPN_OVERLAP_P rp (un + vn) up un" "\<not> MPN_OVERLAP_P rp (un + vn) vp vn" "{rp..<rp + (un + vn)} \<subseteq> S"
  shows "product_step (\<lambda>m. Some (mpn_mul_basecase rp up un vp vn m)) rp up un vp vn S"
  unfolding product_step_def using mpn_mul_basecase_spec [OF refl assms(1-3)] only_in_at [OF _ assms(4)] by simp

text \<open>The multiplication the code selects for a half of \<open>k\<close> limbs.\<close>

definition kara_mul :: "nat \<Rightarrow> ptr \<Rightarrow> ptr \<Rightarrow> ptr \<Rightarrow> ptr \<Rightarrow> mem \<Rightarrow> mem option" where
  "kara_mul k p a b ws m =
     (if k < MUL_KARATSUBA_THRESHOLD then Some (mpn_mul_basecase p a k b k m) else mpn_kara_mul_n p a b k ws m)"

lemma mpn_kara_mul_n_odd:
  assumes "odd n" "n2 = n div 2" "n3 = n - n2"
    and "kara_diff_odd p a n2 n3 m = (sa, m1)" "kara_diff_odd (p + n3) b n2 n3 m1 = (sb, m2)"
  shows "mpn_kara_mul_n p a b n ws m =
    do { m \<leftarrow> kara_mul n3 ws p (p + n3) (ws + (n + 1)) m2; m \<leftarrow> kara_mul n3 p a b (ws + (n + 1)) m;
         m \<leftarrow> kara_mul n2 (p + (n + 1)) (a + n3) (b + n3) (ws + (n + 1)) m; kara_interp_odd p n ws (sa \<noteq> sb) m }"
proof -
  have "n2 \<le> n3" using assms(2,3) by simp
  then show ?thesis
    unfolding mpn_kara_mul_n.simps [of p a b n ws m] Let_def assms(2) [symmetric] assms(3) [symmetric] assms(4)
      case_prod_conv assms(5) kara_mul_def
    using assms(1) by (cases "n2 < MUL_KARATSUBA_THRESHOLD"; cases "n3 < MUL_KARATSUBA_THRESHOLD") simp_all
qed

lemma mpn_kara_mul_n_even:
  assumes "even n" "n2 = n div 2"
    and "kara_diff_even p a n2 m = (sa, m1)" "kara_diff_even (p + n2) b n2 m1 = (sb, m2)"
  shows "mpn_kara_mul_n p a b n ws m =
    do { m \<leftarrow> kara_mul n2 ws p (p + n2) (ws + n) m2; m \<leftarrow> kara_mul n2 p a b (ws + n) m;
         m \<leftarrow> kara_mul n2 (p + n) (a + n2) (b + n2) (ws + n) m; kara_interp_even p n ws (sa \<noteq> sb) m }"
  unfolding mpn_kara_mul_n.simps [of p a b n ws m] Let_def assms(2) [symmetric] assms(3) case_prod_conv assms(4) kara_mul_def
  using assms(1) by (cases "n2 < MUL_KARATSUBA_THRESHOLD") simp_all

lemma abs_diff_product:
  fixes X Y A0 A1 B0 B1 :: nat
  assumes "int X = \<bar>int A0 - int A1\<bar>" "int Y = \<bar>int B0 - int B1\<bar>"
  shows "(if (A0 < A1) \<noteq> (B0 < B1) then - int (X * Y) else int (X * Y)) = (int A0 - int A1) * (int B0 - int B1)"
  unfolding of_nat_mult assms
  by (cases "A0 < A1"; cases "B0 < B1") (simp_all add: abs_if algebra_simps)

lemma mpn_kara_mul_n_spec:
  assumes "2 \<le> n" "\<not> MPN_OVERLAP_P p (2 * n) a n" "\<not> MPN_OVERLAP_P p (2 * n) b n"
    and "\<not> MPN_OVERLAP_P ws (kara_room n) a n" "\<not> MPN_OVERLAP_P ws (kara_room n) b n"
    and "\<not> MPN_OVERLAP_P ws (kara_room n) p (2 * n)"
  shows "product_step (mpn_kara_mul_n p a b n ws) p a n b n ({p..<p + 2 * n} \<union> {ws..<ws + kara_room n})"
  using assms
proof (induction n arbitrary: p a b ws rule: less_induct)
  case (less n)
  define n2 n3 where "n2 = n div 2" and "n3 = n - n2"
  define r W where "r = kara_room n3" and "W = {ws + 2 * n3..<ws + 2 * n3 + r}"
  have room: "kara_room n = 2 * n3 + r" using kara_room_step [OF less.prems(1)] by (simp add: n3_def n2_def r_def)
  have n23: "1 \<le> n2" "n2 \<le> n3" "n3 < n" "n = n3 + n2" using less.prems(1) by (auto simp: n3_def n2_def)
  have sep: "p + 2 * n \<le> a \<or> a + n \<le> p" "p + 2 * n \<le> b \<or> b + n \<le> p" "ws + (2 * n3 + r) \<le> a \<or> a + n \<le> ws"
    "ws + (2 * n3 + r) \<le> b \<or> b + n \<le> ws" "ws + (2 * n3 + r) \<le> p \<or> p + 2 * n \<le> ws"
    using less.prems(2-6) unfolding room by (auto simp: MPN_OVERLAP_P_def)
  have mul: "product_step (kara_mul k dst x y (ws + 2 * n3)) dst x k y k ({dst..<dst + 2 * k} \<union> W)"
    if k: "k = n2 \<or> k = n3" and o: "\<not> MPN_OVERLAP_P dst (2 * k) x k" "\<not> MPN_OVERLAP_P dst (2 * k) y k"
      "\<not> MPN_OVERLAP_P (ws + 2 * n3) r x k" "\<not> MPN_OVERLAP_P (ws + 2 * n3) r y k" "\<not> MPN_OVERLAP_P (ws + 2 * n3) r dst (2 * k)"
    for k dst x y
  proof (cases "k < MUL_KARATSUBA_THRESHOLD")
    case True
    have "product_step (\<lambda>m. Some (mpn_mul_basecase dst x k y k m)) dst x k y k ({dst..<dst + 2 * k} \<union> W)"
      using k n23 o(1,2) by (intro basecase_step) (auto simp: mult_2)
    then show ?thesis using True unfolding kara_mul_def [abs_def] by simp
  next
    case False
    then have kr: "kara_room k \<le> r" "2 \<le> k" "k < n"
      using k n23 by (auto simp: r_def MUL_KARATSUBA_THRESHOLD_def intro: kara_room_mono)
    have "product_step (mpn_kara_mul_n dst x y k (ws + 2 * n3)) dst x k y k ({dst..<dst + 2 * k} \<union> {ws + 2 * n3..<ws + 2 * n3 + kara_room k})"
      using o kr by (intro less.IH) (auto simp: MPN_OVERLAP_P_def)
    then have "product_step (mpn_kara_mul_n dst x y k (ws + 2 * n3)) dst x k y k ({dst..<dst + 2 * k} \<union> W)"
      by (rule product_step_mono) (use kr in \<open>auto simp: W_def\<close>)
    then show ?thesis using False unfolding kara_mul_def [abs_def] by simp
  qed
  have f: "product_step (kara_mul n3 ws p (p + n3) (ws + 2 * n3)) ws p n3 (p + n3) n3 ({ws..<ws + 2 * n3} \<union> W)"
    "product_step (kara_mul n3 p a b (ws + 2 * n3)) p a n3 b n3 ({p..<p + 2 * n3} \<union> W)"
    "product_step (kara_mul n2 (p + 2 * n3) (a + n3) (b + n3) (ws + 2 * n3)) (p + 2 * n3) (a + n3) n2 (b + n3) n2
      ({p + 2 * n3..<p + 2 * n3 + 2 * n2} \<union> W)"
    by (rule mul; use sep n23 in \<open>auto simp: MPN_OVERLAP_P_def\<close>)+
  have d: "({a..<a + n3 + n2} \<union> {b..<b + n3 + n2}) \<inter> ({ws..<ws + 2 * n3} \<union> {p..<p + 2 * n3 + 2 * n2} \<union> W) = {}"
      "{ws..<ws + 2 * n3} \<inter> ({p..<p + 2 * n3 + 2 * n2} \<union> W) = {}" "{p..<p + 2 * n3 + 2 * n2} \<inter> W = {}"
    using sep n23 by (auto simp: W_def)
  txt \<open>What is left after the differences \<open>{p,n3}\<close> and \<open>{p+n3,n3}\<close> were computed.\<close>
  have dif: "(if (sa \<noteq> sb) then - int (mval m2 p n3 * mval m2 (p + n3) n3) else int (mval m2 p n3 * mval m2 (p + n3) n3)) =
      (int (mval m2 a n3) - int (mval m2 (a + n3) n2)) * (int (mval m2 b n3) - int (mval m2 (b + n3) n2))
      \<and> mval m2 a n = mval m a n \<and> mval m2 b n = mval m b n \<and> only_in p (2 * n) m m2"
    if "sa \<longleftrightarrow> mval m a n3 < mval m (a + n3) n2" "int (mval m1 p n3) = \<bar>int (mval m a n3) - int (mval m (a + n3) n2)\<bar>" "only_in p n3 m m1"
      "sb \<longleftrightarrow> mval m1 b n3 < mval m1 (b + n3) n2" "int (mval m2 (p + n3) n3) = \<bar>int (mval m1 b n3) - int (mval m1 (b + n3) n2)\<bar>"
      "only_in (p + n3) n3 m1 m2" "n3 + n3 \<le> 2 * n" for sa sb m m1 m2
  proof -
    have fr: "only_in p (2 * n) m m1" "only_in p (2 * n) m1 m2"
      using only_in_mono [OF that(3), of p "2 * n"] only_in_mono [OF that(6), of p "2 * n"] that(7) by auto
    note f2 = only_in_trans [OF fr]
    have eqs: "mval m1 b n3 = mval m b n3" "mval m1 (b + n3) n2 = mval m (b + n3) n2"
      by (rule only_in_mval [OF fr(1)]; use sep n23 in auto)+
    have eqs2: "mval m2 a n3 = mval m a n3" "mval m2 (a + n3) n2 = mval m (a + n3) n2" "mval m2 b n3 = mval m b n3"
      "mval m2 (b + n3) n2 = mval m (b + n3) n2" "mval m2 a n = mval m a n" "mval m2 b n = mval m b n"
      by (rule only_in_mval [OF f2]; use sep n23 in auto)+
    have "mval m2 p n3 = mval m1 p n3" by (rule only_in_mval [OF that(6)]) simp
    then have "int (mval m2 p n3) = \<bar>int (mval m a n3) - int (mval m (a + n3) n2)\<bar>" using that(2) by (simp only:)
    from abs_diff_product [OF this that(5) [unfolded eqs]] show ?thesis
      using eqs2 f2 that(1) that(4) [unfolded eqs] by (simp only:)
  qed
  have "\<exists>m'. mpn_kara_mul_n p a b n ws m = Some m' \<and> mval m' p (n + n) = mval m a n * mval m b n
      \<and> only_at ({p..<p + 2 * n} \<union> {ws..<ws + kara_room n}) m m'" for m
  proof (cases "odd n")
    case True
    then have n: "n = 2 * n2 + 1" "n3 = Suc n2" by (auto simp: n3_def n2_def elim: oddE)
    obtain sa m1 sb m2 where e: "kara_diff_odd p a n2 n3 m = (sa, m1)" "kara_diff_odd (p + n3) b n2 n3 m1 = (sb, m2)" by fastforce
    have o: "\<not> MPN_OVERLAP_P p (Suc n2) a (2 * n2 + 1)" "\<not> MPN_OVERLAP_P (p + n3) (Suc n2) b (2 * n2 + 1)"
      using sep n by (auto simp: MPN_OVERLAP_P_def)
    note D1 = kara_diff_odd_spec [OF e(1) [unfolded n(2)] n23(1) o(1), folded n(2)]
    note D2 = kara_diff_odd_spec [OF e(2) [unfolded n(2)] n23(1) o(2) [unfolded n(2)], folded n(2)]
    note D = dif [OF D1 D2]
    have n1: "n + 1 = 2 * n3" "2 * n = 2 * n3 + 2 * n2" "2 * n = n + n" "n3 + n3 \<le> 2 * n" using n by simp_all
    note D = D [OF n1(4)]
    from kara_assemble_odd [OF n(1) n23(1) n(2) f d, where m = m2 and s = "sa \<noteq> sb"] D
    obtain m' where m': "mpn_kara_mul_n p a b n ws m = Some m'" "mval m' p (2 * n) = mval m a n * mval m b n"
      "only_at ({ws..<ws + 2 * n3} \<union> {p..<p + 2 * n3 + 2 * n2} \<union> W) m2 m'"
      unfolding mpn_kara_mul_n_odd [OF True n2_def n3_def e] n1(1) by auto
    have "only_at ({p..<p + 2 * n} \<union> {ws..<ws + kara_room n}) m m'"
      by (rule only_at_trans [OF only_in_at only_at_mono [OF m'(3)]])
        (use D n1(2) in \<open>auto simp: room W_def\<close>)
    moreover have "mval m' p (n + n) = mval m a n * mval m b n" using m'(2) by (simp only: n1(3))
    ultimately show ?thesis using m'(1) by blast
  next
    case False
    then have n: "n = 2 * n2" "n3 = n2" by (auto simp: n3_def n2_def elim: evenE)
    obtain sa m1 sb m2 where e: "kara_diff_even p a n2 m = (sa, m1)" "kara_diff_even (p + n2) b n2 m1 = (sb, m2)" by fastforce
    have o: "\<not> MPN_OVERLAP_P p n2 a (2 * n2)" "\<not> MPN_OVERLAP_P (p + n2) n2 b (2 * n2)"
      using sep n by (auto simp: MPN_OVERLAP_P_def)
    note D1 = kara_diff_even_spec [OF e(1) n23(1) o(1)]
    note D2 = kara_diff_even_spec [OF e(2) n23(1) o(2)]
    have n1: "2 * n = 2 * n2 + 2 * n2" "2 * n = n + n" "n2 + n2 \<le> 2 * n" using n by simp_all
    note D = dif [unfolded n(2), OF D1 D2 n1(3)]
    from kara_assemble_even [OF n(1) n23(1) f [unfolded n(2)] d [unfolded n(2)], where m = m2 and s = "sa \<noteq> sb"] D
    obtain m' where m': "mpn_kara_mul_n p a b n ws m = Some m'" "mval m' p (2 * n) = mval m a n * mval m b n"
      "only_at ({ws..<ws + 2 * n2} \<union> {p..<p + 2 * n2 + 2 * n2} \<union> W) m2 m'"
      unfolding mpn_kara_mul_n_even [OF False [simplified] n2_def e] n(1) [symmetric] by auto
    have "only_at ({p..<p + 2 * n} \<union> {ws..<ws + kara_room n}) m m'"
    proof (rule only_at_trans [OF only_in_at only_at_mono [OF m'(3)]])
      show "only_in p (2 * n) m m2" using D by blast
      show "{ws..<ws + 2 * n2} \<union> {p..<p + 2 * n2 + 2 * n2} \<union> W \<subseteq> {p..<p + 2 * n} \<union> {ws..<ws + kara_room n}"
        unfolding room W_def n(2) n1(1) by auto
    qed simp
    moreover have "mval m' p (n + n) = mval m a n * mval m b n" using m'(2) by (simp only: n1(2))
    ultimately show ?thesis using m'(1) by blast
  qed
  then show ?case unfolding product_step_def by blast
qed

subsection \<open>Squaring\<close>

lemma sqr_basecase_step:
  assumes "1 \<le> n" "\<not> MPN_OVERLAP_P prodp (2 * n) up n" "\<not> MPN_OVERLAP_P tp (2 * n - 2) up n"
    and "\<not> MPN_OVERLAP_P tp (2 * n - 2) prodp (2 * n)" "{prodp..<prodp + 2 * n} \<union> {tp..<tp + (2 * n - 2)} \<subseteq> S"
  shows "product_step (\<lambda>m. Some (mpn_sqr_basecase prodp up n tp m)) prodp up n up n S"
  unfolding product_step_def using mpn_sqr_basecase_spec [OF refl assms(1-4)] only_at_mono [OF _ assms(5)] by (simp add: mult_2)

definition kara_sqr :: "nat \<Rightarrow> ptr \<Rightarrow> ptr \<Rightarrow> ptr \<Rightarrow> ptr \<Rightarrow> mem \<Rightarrow> mem option" where
  "kara_sqr k p a ws tp m =
     (if BELOW_THRESHOLD k SQR_BASECASE_THRESHOLD then Some (mpn_mul_basecase p a k a k m)
      else if BELOW_THRESHOLD k SQR_KARATSUBA_THRESHOLD then Some (mpn_sqr_basecase p a k tp m)
      else mpn_kara_sqr_n p a k ws tp m)"

lemma below_sqr_kara: "BELOW_THRESHOLD k SQR_KARATSUBA_THRESHOLD \<longleftrightarrow> k < SQR_KARATSUBA_THRESHOLD"
  by (simp add: BELOW_THRESHOLD_def ABOVE_THRESHOLD_def SQR_KARATSUBA_THRESHOLD_def MP_SIZE_T_MAX_def not_le)

lemma mpn_kara_sqr_n_odd:
  assumes "odd n" "n2 = n div 2" "n3 = n - n2" "kara_diff_odd p a n2 n3 m = (sa, m1)"
  shows "mpn_kara_sqr_n p a n ws tp m =
    do { m \<leftarrow> kara_sqr n3 ws p (ws + (n + 1)) tp m1; m \<leftarrow> kara_sqr n3 p a (ws + (n + 1)) tp m;
         m \<leftarrow> kara_sqr n2 (p + (n + 1)) (a + n3) (ws + (n + 1)) tp m; kara_interp_odd p n ws False m }"
  unfolding mpn_kara_sqr_n.simps [of p a n ws tp m] Let_def assms(2) [symmetric] assms(3) [symmetric] assms(4)
    case_prod_conv kara_sqr_def
  using assms(1) by (cases "BELOW_THRESHOLD n3 SQR_BASECASE_THRESHOLD"; cases "BELOW_THRESHOLD n3 SQR_KARATSUBA_THRESHOLD") simp_all

lemma mpn_kara_sqr_n_even:
  assumes "even n" "n2 = n div 2" "kara_diff_even p a n2 m = (sa, m1)"
  shows "mpn_kara_sqr_n p a n ws tp m =
    do { m \<leftarrow> kara_sqr n2 ws p (ws + n) tp m1; m \<leftarrow> kara_sqr n2 p a (ws + n) tp m;
         m \<leftarrow> kara_sqr n2 (p + n) (a + n2) (ws + n) tp m; kara_interp_even p n ws False m }"
  unfolding mpn_kara_sqr_n.simps [of p a n ws tp m] Let_def assms(2) [symmetric] assms(3) case_prod_conv kara_sqr_def
  using assms(1) by (cases "BELOW_THRESHOLD n2 SQR_BASECASE_THRESHOLD"; cases "BELOW_THRESHOLD n2 SQR_KARATSUBA_THRESHOLD") simp_all

lemma mpn_kara_sqr_n_spec:
  defines "t \<equiv> 2 * SQR_KARATSUBA_THRESHOLD"
  assumes "2 \<le> n" "\<not> MPN_OVERLAP_P p (2 * n) a n" "\<not> MPN_OVERLAP_P ws (kara_room n) a n"
    and "\<not> MPN_OVERLAP_P ws (kara_room n) p (2 * n)" "\<not> MPN_OVERLAP_P tp t a n" "\<not> MPN_OVERLAP_P tp t p (2 * n)"
    and "\<not> MPN_OVERLAP_P tp t ws (kara_room n)"
  shows "product_step (mpn_kara_sqr_n p a n ws tp) p a n a n ({p..<p + 2 * n} \<union> {ws..<ws + kara_room n} \<union> {tp..<tp + t})"
  using assms(2-)
proof (induction n arbitrary: p a ws rule: less_induct)
  case (less n)
  define n2 n3 where "n2 = n div 2" and "n3 = n - n2"
  define r W where "r = kara_room n3" and "W = {ws + 2 * n3..<ws + 2 * n3 + r} \<union> {tp..<tp + t}"
  have room: "kara_room n = 2 * n3 + r" using kara_room_step [OF less.prems(1)] by (simp add: n3_def n2_def r_def)
  have n23: "1 \<le> n2" "n2 \<le> n3" "n3 < n" "n = n3 + n2" using less.prems(1) by (auto simp: n3_def n2_def)
  have t0: "2 \<le> t" by (simp add: t_def SQR_KARATSUBA_THRESHOLD_def)
  have sep: "p + 2 * n \<le> a \<or> a + n \<le> p" "ws + (2 * n3 + r) \<le> a \<or> a + n \<le> ws" "ws + (2 * n3 + r) \<le> p \<or> p + 2 * n \<le> ws"
    "tp + t \<le> a \<or> a + n \<le> tp" "tp + t \<le> p \<or> p + 2 * n \<le> tp" "tp + t \<le> ws \<or> ws + (2 * n3 + r) \<le> tp"
    using less.prems(2-7) unfolding room by (auto simp: MPN_OVERLAP_P_def)
  have mul: "product_step (kara_sqr k dst x (ws + 2 * n3) tp) dst x k x k ({dst..<dst + 2 * k} \<union> W)"
    if k: "k = n2 \<or> k = n3" and o: "\<not> MPN_OVERLAP_P dst (2 * k) x k" "\<not> MPN_OVERLAP_P (ws + 2 * n3) r x k"
      "\<not> MPN_OVERLAP_P (ws + 2 * n3) r dst (2 * k)" "\<not> MPN_OVERLAP_P tp t x k" "\<not> MPN_OVERLAP_P tp t dst (2 * k)"
    for k dst x
  proof -
    have k1: "1 \<le> k" "k < n" using k n23 by auto
    consider "BELOW_THRESHOLD k SQR_BASECASE_THRESHOLD"
      | "\<not> BELOW_THRESHOLD k SQR_BASECASE_THRESHOLD" "BELOW_THRESHOLD k SQR_KARATSUBA_THRESHOLD"
      | "\<not> BELOW_THRESHOLD k SQR_BASECASE_THRESHOLD" "\<not> BELOW_THRESHOLD k SQR_KARATSUBA_THRESHOLD" by blast
    then show ?thesis
    proof cases
      case 1
      have "product_step (\<lambda>m. Some (mpn_mul_basecase dst x k x k m)) dst x k x k ({dst..<dst + 2 * k} \<union> W)"
        using k1 o(1) by (intro basecase_step) (auto simp: mult_2)
      then show ?thesis using 1 unfolding kara_sqr_def [abs_def] by simp
    next
      case 2
      then have kt: "2 * k - 2 \<le> t" by (simp add: t_def below_sqr_kara)
      have "product_step (\<lambda>m. Some (mpn_sqr_basecase dst x k tp m)) dst x k x k ({dst..<dst + 2 * k} \<union> W)"
        using k1 o kt by (intro sqr_basecase_step) (auto simp: MPN_OVERLAP_P_def W_def)
      then show ?thesis using 2 unfolding kara_sqr_def [abs_def] by simp
    next
      case 3
      then have "SQR_KARATSUBA_THRESHOLD \<le> k" by (simp add: below_sqr_kara)
      then have kr: "kara_room k \<le> r" "2 \<le> k"
        using k n23 by (auto simp: r_def SQR_KARATSUBA_THRESHOLD_def intro: kara_room_mono)
      have "product_step (mpn_kara_sqr_n dst x k (ws + 2 * n3) tp) dst x k x k
          ({dst..<dst + 2 * k} \<union> {ws + 2 * n3..<ws + 2 * n3 + kara_room k} \<union> {tp..<tp + t})"
        using o kr k1 sep(6) by (intro less.IH) (auto simp: MPN_OVERLAP_P_def)
      then have "product_step (mpn_kara_sqr_n dst x k (ws + 2 * n3) tp) dst x k x k ({dst..<dst + 2 * k} \<union> W)"
        by (rule product_step_mono) (use kr in \<open>auto simp: W_def\<close>)
      then show ?thesis using 3 unfolding kara_sqr_def [abs_def] by simp
    qed
  qed
  have f: "product_step (kara_sqr n3 ws p (ws + 2 * n3) tp) ws p n3 p n3 ({ws..<ws + 2 * n3} \<union> W)"
    "product_step (kara_sqr n3 p a (ws + 2 * n3) tp) p a n3 a n3 ({p..<p + 2 * n3} \<union> W)"
    "product_step (kara_sqr n2 (p + 2 * n3) (a + n3) (ws + 2 * n3) tp) (p + 2 * n3) (a + n3) n2 (a + n3) n2
      ({p + 2 * n3..<p + 2 * n3 + 2 * n2} \<union> W)"
    by (rule mul; use sep n23 in \<open>auto simp: MPN_OVERLAP_P_def\<close>)+
  have d: "({a..<a + n3 + n2} \<union> {a..<a + n3 + n2}) \<inter> ({ws..<ws + 2 * n3} \<union> {p..<p + 2 * n3 + 2 * n2} \<union> W) = {}"
      "{ws..<ws + 2 * n3} \<inter> ({p..<p + 2 * n3 + 2 * n2} \<union> W) = {}" "{p..<p + 2 * n3 + 2 * n2} \<inter> W = {}"
    using sep n23 by (auto simp: W_def)
  have dif: "int (mval m1 p n3 * mval m1 p n3) =
      (int (mval m1 a n3) - int (mval m1 (a + n3) n2)) * (int (mval m1 a n3) - int (mval m1 (a + n3) n2))
      \<and> mval m1 a n = mval m a n \<and> only_in p (2 * n) m m1"
    if "int (mval m1 p n3) = \<bar>int (mval m a n3) - int (mval m (a + n3) n2)\<bar>" "only_in p n3 m m1" for m m1
  proof -
    have fr: "only_in p (2 * n) m m1" using only_in_mono [OF that(2), of p "2 * n"] n23 by auto
    have "mval m1 a n3 = mval m a n3" "mval m1 (a + n3) n2 = mval m (a + n3) n2" "mval m1 a n = mval m a n"
      by (rule only_in_mval [OF fr]; use sep n23 in auto)+
    then show ?thesis using fr abs_diff_product [OF that(1) that(1)] by simp
  qed
  have sub: "{ws..<ws + 2 * n3} \<union> {p..<p + 2 * n3 + 2 * n2} \<union> W \<subseteq> {p..<p + 2 * n} \<union> {ws..<ws + kara_room n} \<union> {tp..<tp + t}"
    unfolding room W_def using n23 by auto
  have "\<exists>m'. mpn_kara_sqr_n p a n ws tp m = Some m' \<and> mval m' p (2 * n) = mval m a n * mval m a n
      \<and> only_at ({p..<p + 2 * n} \<union> {ws..<ws + kara_room n} \<union> {tp..<tp + t}) m m'" for m
  proof -
    have "\<exists>m1 m'. only_in p (2 * n) m m1 \<and> mpn_kara_sqr_n p a n ws tp m = Some m' \<and> mval m' p (2 * n) = mval m a n * mval m a n
      \<and> only_at ({ws..<ws + 2 * n3} \<union> {p..<p + 2 * n3 + 2 * n2} \<union> W) m1 m'"
    proof (cases "odd n")
      case True
      then have n: "n = 2 * n2 + 1" "n3 = Suc n2" by (auto simp: n3_def n2_def elim: oddE)
      obtain sa m1 where e: "kara_diff_odd p a n2 n3 m = (sa, m1)" by fastforce
      have o: "\<not> MPN_OVERLAP_P p (Suc n2) a (2 * n2 + 1)" using sep n by (auto simp: MPN_OVERLAP_P_def)
      note D = dif [OF kara_diff_odd_spec(2,3) [OF e [unfolded n(2)] n23(1) o, folded n(2)]]
      have n1: "n + 1 = 2 * n3" using n by simp
      show ?thesis
        using kara_assemble_odd [OF n(1) n23(1) n(2) f d, where m = m1 and s = False] D
        unfolding mpn_kara_sqr_n_odd [OF True n2_def n3_def e] n1 by auto
    next
      case False
      then have n: "n = 2 * n2" "n3 = n2" by (auto simp: n3_def n2_def elim: evenE)
      obtain sa m1 where e: "kara_diff_even p a n2 m = (sa, m1)" by fastforce
      have o: "\<not> MPN_OVERLAP_P p n2 a (2 * n2)" using sep n by (auto simp: MPN_OVERLAP_P_def)
      note D = dif [unfolded n(2), OF kara_diff_even_spec(2,3) [OF e n23(1) o]]
      show ?thesis
        using kara_assemble_even [OF n(1) n23(1) f [unfolded n(2)] d [unfolded n(2)], where m = m1 and s = False] D
        unfolding mpn_kara_sqr_n_even [OF False [simplified] n2_def e] n(1) [symmetric] n(2) by auto
    qed
    then obtain m1 m' where m': "only_in p (2 * n) m m1" "mpn_kara_sqr_n p a n ws tp m = Some m'"
      "mval m' p (2 * n) = mval m a n * mval m a n" "only_at ({ws..<ws + 2 * n3} \<union> {p..<p + 2 * n3 + 2 * n2} \<union> W) m1 m'" by blast
    have "only_at ({p..<p + 2 * n} \<union> {ws..<ws + kara_room n} \<union> {tp..<tp + t}) m m1" by (rule only_in_at [OF m'(1)]) auto
    from only_at_trans [OF this only_at_mono [OF m'(4) sub]] m'(2,3) show ?thesis by blast
  qed
  then show ?case unfolding product_step_def mult_2 by blast
qed

end
