(* ===== verification/Mpn_Product.thy ===== *)
theory Mpn_Product
  imports Mpn_Kara
begin

text \<open>
  Products of any two operands (\<open>mpn/generic/mul.c\<close>, and \<open>mpn_mul_n\<close> of \<open>mul_n.c\<close>): the choice of an
  algorithm by size, and for operands of different sizes the long multiplication by blocks of the
  smaller one.  \<open>None\<close> stands for the sizes at which the code goes on to Toom-3 and FFT
  multiplication, which are not modelled.  The local arrays and \<open>TMP_ALLOC\<close> blocks are the arguments
  \<open>ws\<close> and \<open>tp\<close>.
\<close>

definition MUL_TOOM3_THRESHOLD :: nat where
  "MUL_TOOM3_THRESHOLD = 278"

definition SQR_TOOM3_THRESHOLD :: nat where
  "SQR_TOOM3_THRESHOLD = 226"

definition mpn_mul_n :: "ptr \<Rightarrow> ptr \<Rightarrow> ptr \<Rightarrow> nat \<Rightarrow> ptr \<Rightarrow> mem \<Rightarrow> mem option" where
  "mpn_mul_n p a b n ws m =
     (if n < MUL_KARATSUBA_THRESHOLD then Some (mpn_mul_basecase p a n b n m)
      else if n < MUL_TOOM3_THRESHOLD then mpn_kara_mul_n p a b n ws m
      else None)"

definition mpn_sqr_n :: "ptr \<Rightarrow> ptr \<Rightarrow> nat \<Rightarrow> ptr \<Rightarrow> ptr \<Rightarrow> mem \<Rightarrow> mem option" where
  "mpn_sqr_n prodp up un ws tp m =
     (if un = 0 then Some m
      else if BELOW_THRESHOLD un SQR_BASECASE_THRESHOLD then Some (mpn_mul_basecase prodp up un up un m)
      else if BELOW_THRESHOLD un SQR_KARATSUBA_THRESHOLD then Some (mpn_sqr_basecase prodp up un tp m)
      else if BELOW_THRESHOLD un SQR_TOOM3_THRESHOLD then mpn_kara_sqr_n prodp up un ws tp m
      else None)"

text \<open>Adding a block \<open>{ws,n}\<close> to the partial product: \<open>{prodp,l}\<close> and the carry \<open>t\<close> above it.\<close>

definition mul_accumulate :: "ptr \<Rightarrow> ptr \<Rightarrow> nat \<Rightarrow> nat \<Rightarrow> limb \<Rightarrow> mem \<Rightarrow> limb \<times> nat \<times> mem" where
  "mul_accumulate prodp ws n l t m =
     (if l \<le> n
      then (let (c, m) = mpn_add_n prodp prodp ws l m;
                t = t + c
            in if l \<noteq> n
               then (let (t, m) = mpn_add_1 (prodp + l) (ws + l) (n - l) t m in (t, n, m))
               else (t, l, m))
      else (let (c, m) = mpn_add_n prodp prodp ws n m;
                (c, m) = mpn_add_1 (prodp + n) (prodp + n) (l - n) c m
            in (t + c, l, m)))"

function mpn_mul_blocks :: "ptr \<Rightarrow> ptr \<Rightarrow> ptr \<Rightarrow> nat \<Rightarrow> ptr \<Rightarrow> nat \<Rightarrow> ptr \<Rightarrow> nat \<Rightarrow> limb \<Rightarrow> mem \<Rightarrow> (limb \<times> mem) option" where
  "mpn_mul_blocks ws tp prodp l up un vp vn t m =
     (if vn \<ge> MUL_KARATSUBA_THRESHOLD
      then do {
        m \<leftarrow> mpn_mul_n ws up vp vn tp m;
        let (t, l, m) = mul_accumulate prodp ws (2 * vn) l t m;
        let prodp = prodp + vn;
        let l = l - vn;
        let up = up + vn;
        let un = un - vn;
        if un < vn then mpn_mul_blocks ws tp prodp l vp vn up un t m
        else mpn_mul_blocks ws tp prodp l up un vp vn t m
      }
      else (let m = (if vn \<noteq> 0
                     then (let m = mpn_mul_basecase ws up un vp vn m;
                               (t, l, m) = mul_accumulate prodp ws (un + vn) l t m
                           in m)
                     else m)
            in Some (m (prodp + un + vn - 1), m)))"
  by pat_completeness auto
termination
  by (relation "measures [\<lambda>(ws, tp, prodp, l, up, un, vp, vn, t, m). vn, \<lambda>(ws, tp, prodp, l, up, un, vp, vn, t, m). un]") (auto simp: MUL_KARATSUBA_THRESHOLD_def)

declare mpn_mul_blocks.simps [simp del]

definition mpn_mul :: "ptr \<Rightarrow> ptr \<Rightarrow> nat \<Rightarrow> ptr \<Rightarrow> nat \<Rightarrow> ptr \<Rightarrow> ptr \<Rightarrow> mem \<Rightarrow> (limb \<times> mem) option" where
  "mpn_mul prodp up un vp vn ws tp m =
     (if up = vp \<and> un = vn
      then do { m \<leftarrow> mpn_sqr_n prodp up un ws tp m; Some (m (prodp + 2 * un - 1), m) }
      else if vn < MUL_KARATSUBA_THRESHOLD
      then (let m = mpn_mul_basecase prodp up un vp vn m in Some (m (prodp + un + vn - 1), m))
      else do {
        m \<leftarrow> mpn_mul_n prodp up vp vn tp m;
        if un \<noteq> vn
        then (let prodp = prodp + vn;
                  l = vn;
                  up = up + vn;
                  un = un - vn
              in if un < vn then mpn_mul_blocks ws tp prodp l vp vn up un 0 m
                 else mpn_mul_blocks ws tp prodp l up un vp vn 0 m)
        else Some (m (prodp + un + vn - 1), m)
      })"

section \<open>Correctness\<close>

lemma mpn_mul_n_step:
  assumes n: "1 \<le> n" "n < MUL_TOOM3_THRESHOLD" and o: "\<not> MPN_OVERLAP_P p (2 * n) a n" "\<not> MPN_OVERLAP_P p (2 * n) b n"
    "\<not> MPN_OVERLAP_P ws r a n" "\<not> MPN_OVERLAP_P ws r b n" "\<not> MPN_OVERLAP_P ws r p (2 * n)" and r: "kara_room n \<le> r"
  shows "product_step (mpn_mul_n p a b n ws) p a n b n ({p..<p + 2 * n} \<union> {ws..<ws + r})"
proof (cases "n < MUL_KARATSUBA_THRESHOLD")
  case True
  have "product_step (\<lambda>m. Some (mpn_mul_basecase p a n b n m)) p a n b n ({p..<p + 2 * n} \<union> {ws..<ws + r})"
    using n o(1,2) by (intro basecase_step) (auto simp: mult_2)
  then show ?thesis using True unfolding mpn_mul_n_def [abs_def] by simp
next
  case False
  then have "2 \<le> n" by (simp add: MUL_KARATSUBA_THRESHOLD_def)
  then have "product_step (mpn_kara_mul_n p a b n ws) p a n b n ({p..<p + 2 * n} \<union> {ws..<ws + kara_room n})"
    using o r by (intro mpn_kara_mul_n_spec) (auto simp: MPN_OVERLAP_P_def)
  then have "product_step (mpn_kara_mul_n p a b n ws) p a n b n ({p..<p + 2 * n} \<union> {ws..<ws + r})"
    by (rule product_step_mono) (use r in auto)
  then show ?thesis using False n unfolding mpn_mul_n_def [abs_def] by simp
qed

lemma mpn_sqr_n_step:
  assumes n: "1 \<le> n" "n < SQR_TOOM3_THRESHOLD" and o: "\<not> MPN_OVERLAP_P p (2 * n) a n" "\<not> MPN_OVERLAP_P ws r a n"
    "\<not> MPN_OVERLAP_P ws r p (2 * n)" and r: "kara_room n \<le> r"
    and t: "\<not> MPN_OVERLAP_P tp (2 * SQR_KARATSUBA_THRESHOLD) a n" "\<not> MPN_OVERLAP_P tp (2 * SQR_KARATSUBA_THRESHOLD) p (2 * n)"
      "\<not> MPN_OVERLAP_P tp (2 * SQR_KARATSUBA_THRESHOLD) ws r"
  shows "product_step (mpn_sqr_n p a n ws tp) p a n a n ({p..<p + 2 * n} \<union> {ws..<ws + r} \<union> {tp..<tp + 2 * SQR_KARATSUBA_THRESHOLD})"
proof -
  consider "BELOW_THRESHOLD n SQR_BASECASE_THRESHOLD"
    | "\<not> BELOW_THRESHOLD n SQR_BASECASE_THRESHOLD" "BELOW_THRESHOLD n SQR_KARATSUBA_THRESHOLD"
    | "\<not> BELOW_THRESHOLD n SQR_BASECASE_THRESHOLD" "\<not> BELOW_THRESHOLD n SQR_KARATSUBA_THRESHOLD" by blast
  then show ?thesis
  proof cases
    case 1
    have "product_step (\<lambda>m. Some (mpn_mul_basecase p a n a n m)) p a n a n
        ({p..<p + 2 * n} \<union> {ws..<ws + r} \<union> {tp..<tp + 2 * SQR_KARATSUBA_THRESHOLD})"
      using n o(1,2) by (intro basecase_step) (auto simp: mult_2)
    then show ?thesis using 1 n unfolding mpn_sqr_n_def [abs_def] by simp
  next
    case 2
    then have "2 * n - 2 \<le> 2 * SQR_KARATSUBA_THRESHOLD" by (simp add: below_sqr_kara)
    then have "product_step (\<lambda>m. Some (mpn_sqr_basecase p a n tp m)) p a n a n
        ({p..<p + 2 * n} \<union> {ws..<ws + r} \<union> {tp..<tp + 2 * SQR_KARATSUBA_THRESHOLD})"
      using n o t by (intro sqr_basecase_step) (auto simp: MPN_OVERLAP_P_def)
    then show ?thesis using 2 n unfolding mpn_sqr_n_def [abs_def] by simp
  next
    case 3
    then have "SQR_KARATSUBA_THRESHOLD \<le> n" by (simp add: below_sqr_kara)
    then have "2 \<le> n" by (simp add: SQR_KARATSUBA_THRESHOLD_def)
    then have "product_step (mpn_kara_sqr_n p a n ws tp) p a n a n
        ({p..<p + 2 * n} \<union> {ws..<ws + kara_room n} \<union> {tp..<tp + 2 * SQR_KARATSUBA_THRESHOLD})"
      using o t r by (intro mpn_kara_sqr_n_spec) (auto simp: MPN_OVERLAP_P_def)
    then have "product_step (mpn_kara_sqr_n p a n ws tp) p a n a n
        ({p..<p + 2 * n} \<union> {ws..<ws + r} \<union> {tp..<tp + 2 * SQR_KARATSUBA_THRESHOLD})"
      by (rule product_step_mono) (use r in auto)
    moreover have "BELOW_THRESHOLD n SQR_TOOM3_THRESHOLD"
      using n by (simp add: BELOW_THRESHOLD_def ABOVE_THRESHOLD_def SQR_TOOM3_THRESHOLD_def MP_SIZE_T_MAX_def)
    ultimately show ?thesis using 3 n unfolding mpn_sqr_n_def [abs_def] by simp
  qed
qed

lemma carry_chain:
  fixes x y r s c d L K t :: nat
  assumes "x + L * c = r" "y + K * d = s + c"
  shows "(x + L * y) + L * K * (t + d) = r + L * s + L * K * t"
proof -
  have "L * (y + K * d) = L * (s + c)" using assms(2) by simp
  then have "L * y + L * K * d = L * s + L * c" by (simp only: distrib_left mult.assoc)
  then show ?thesis using assms(1) by (simp add: distrib_left)
qed

text \<open>Adding a block keeps the value of the partial product with its carry.\<close>

lemma mul_accumulate_spec:
  assumes eq: "mul_accumulate prodp ws n l t m = (t', l', m')" and l: "1 \<le> l" "1 \<le> n" and t: "unat t \<le> 1"
    and sep: "\<not> MPN_OVERLAP_P prodp (max l n) ws n"
  shows "l' = max l n" and "only_in prodp (max l n) m m'"
    and "mval m' prodp l' + LB ^ l' * unat t' = mval m prodp l + LB ^ l * unat t + mval m ws n"
proof -
  have sepi: "prodp + max l n \<le> ws \<or> ws + n \<le> prodp" using sep l by (auto simp: MPN_OVERLAP_P_def)
  have "l' = max l n \<and> only_in prodp (max l n) m m'
    \<and> mval m' prodp l' + LB ^ l' * unat t' = mval m prodp l + LB ^ l * unat t + mval m ws n"
  proof (cases "l \<le> n")
    case True
    obtain c m1 where 1: "mpn_add_n prodp prodp ws l m = (c, m1)" by fastforce
    have "MPN_SAME_OR_INCR_P prodp prodp l" "MPN_SAME_OR_INCR_P prodp ws l" using sepi True by (auto simp: overlap_defs)
    note S1 = mpn_add_n_spec [OF 1 this]
    have tc: "unat (t + c) = unat t + unat c" using t S1(2) by (simp add: unat_plus_if LB_def)
    show ?thesis
    proof (cases "l = n")
      case True
      then have r: "t' = t + c" "l' = l" "m' = m1" using eq 1 by (auto simp: mul_accumulate_def)
      show ?thesis unfolding r tc using S1(1,3) True by (simp add: distrib_left)
    next
      case False
      obtain t2 m2 where 2: "mpn_add_1 (prodp + l) (ws + l) (n - l) (t + c) m1 = (t2, m2)" by fastforce
      have r: "t' = t2" "l' = n" "m' = m2" using eq 1 2 True False by (auto simp: mul_accumulate_def)
      have "1 \<le> n - l" "MPN_SAME_OR_SEPARATE_P (prodp + l) (ws + l) (n - l)" using sepi True False by (auto simp: overlap_defs)
      note S2 = mpn_add_1_spec [OF 2 this]
      have "mval m1 (ws + l) (n - l) = mval m (ws + l) (n - l)" by (rule only_in_mval [OF S1(3)]) (use sepi True in auto)
      moreover have "mval m2 prodp l = mval m1 prodp l" by (rule only_in_mval [OF S2(3)]) simp
      moreover have "only_in prodp n m m2"
        by (rule only_in_trans [OF only_in_mono [OF S1(3)] only_in_mono [OF S2(3)]]) (use True in auto)
      moreover have "LB ^ n = LB ^ l * LB ^ (n - l)" using True by (simp flip: power_add)
      moreover have "mval m2 (prodp + l) (n - l) + LB ^ (n - l) * unat t2 = (mval m (ws + l) (n - l) + unat t) + unat c"
        using S2(1) calculation(1) tc by simp
      note carry_chain [OF S1(1) this, of 0]
      ultimately show ?thesis
        unfolding r mval_split [OF True, of m2] mval_split [OF True, of m ws] using True
        by (simp add: distrib_left ac_simps)
    qed
  next
    case False
    obtain c m1 where 1: "mpn_add_n prodp prodp ws n m = (c, m1)" by fastforce
    have "MPN_SAME_OR_INCR_P prodp prodp n" "MPN_SAME_OR_INCR_P prodp ws n" using sepi False by (auto simp: overlap_defs)
    note S1 = mpn_add_n_spec [OF 1 this]
    obtain c2 m2 where 2: "mpn_add_1 (prodp + n) (prodp + n) (l - n) c m1 = (c2, m2)" by fastforce
    have "1 \<le> l - n" "MPN_SAME_OR_SEPARATE_P (prodp + n) (prodp + n) (l - n)" using False by (auto simp: overlap_defs)
    note S2 = mpn_add_1_spec [OF 2 this]
    have r: "t' = t + c2" "l' = l" "m' = m2" using eq 1 2 False by (auto simp: mul_accumulate_def)
    have tc: "unat (t + c2) = unat t + unat c2" using t S2(2) by (simp add: unat_plus_if LB_def)
    have nl: "n \<le> l" using False by simp
    have "mval m1 (prodp + n) (l - n) = mval m (prodp + n) (l - n)" by (rule only_in_mval [OF S1(3)]) simp
    moreover have "mval m2 prodp n = mval m1 prodp n" by (rule only_in_mval [OF S2(3)]) simp
    moreover have "only_in prodp l m m2"
      by (rule only_in_trans [OF only_in_mono [OF S1(3)] only_in_mono [OF S2(3)]]) (use nl in auto)
    moreover have "LB ^ l = LB ^ n * LB ^ (l - n)" using nl by (simp flip: power_add)
    moreover have "mval m2 (prodp + n) (l - n) + LB ^ (l - n) * unat c2 = mval m (prodp + n) (l - n) + unat c"
      using S2(1) calculation(1) by simp
    note carry_chain [OF S1(1) this, of "unat t"]
    ultimately show ?thesis
      unfolding r mval_split [OF nl, of m2] mval_split [OF nl, of m prodp] using False tc
      by (simp add: ac_simps)
  qed
  then show "l' = max l n" "only_in prodp (max l n) m m'"
    "mval m' prodp l' + LB ^ l' * unat t' = mval m prodp l + LB ^ l * unat t + mval m ws n" by blast+
qed


lemma no_overlap_iff: "\<not> MPN_OVERLAP_P p n q k \<longleftrightarrow> p + n \<le> q \<or> q + k \<le> p"
  by (auto simp: MPN_OVERLAP_P_def)

lemma no_overlap_sub:
  assumes "\<not> MPN_OVERLAP_P p n q k" "p \<le> p'" "p' + n' \<le> p + n" "q \<le> q'" "q' + k' \<le> q + k"
  shows "\<not> MPN_OVERLAP_P p' n' q' k'"
  using assms unfolding no_overlap_iff by linarith

lemma ivl_disjoint: "b \<le> c \<or> d \<le> a \<Longrightarrow> {a..<b} \<inter> {c..<d :: nat} = {}"
  by auto

text \<open>The bound that keeps the carry of the partial product a bit.\<close>

lemma carry_bit:
  fixes x t l v :: nat
  assumes "x + LB ^ l * t + 2 \<le> LB ^ l + LB ^ v" "v \<le> l"
  shows "t \<le> 1"
proof (rule ccontr)
  assume "\<not> t \<le> 1"
  then have "LB ^ l * 2 \<le> LB ^ l * t" by (intro mult_le_mono2) simp
  moreover have "LB ^ v \<le> LB ^ l" using assms(2) by (intro power_increasing) (simp_all add: LB_def)
  ultimately show False using assms(1) by linarith
qed

lemma block_bound:
  fixes acc acc' lo u0 v :: nat
  assumes b: "acc + 2 \<le> LB ^ l + LB ^ n" and p: "u0 < LB ^ n" "v < LB ^ n" and l: "n \<le> l"
    and eq: "lo + LB ^ n * acc' = acc + u0 * v"
  shows "acc' + 2 \<le> LB ^ (l - n) + LB ^ n"
proof -
  define B C where "B = LB ^ n" and "C = LB ^ (l - n)"
  have l: "LB ^ l = B * C" using l by (simp add: B_def C_def flip: power_add)
  have "u0 \<le> B - 1" "v \<le> B - 1" "1 \<le> B" using p by (simp_all add: B_def)
  then obtain D where D: "B = Suc D" "u0 \<le> D" "v \<le> D" by (cases B) auto
  have "u0 * v \<le> D * D" using D by (intro mult_le_mono)
  then have "B * acc' < B * (C + D)" using b eq D(1) unfolding l B_def [symmetric] by (simp add: distrib_left)
  then have "acc' < C + D" by simp
  then show ?thesis using D(1) unfolding C_def [symmetric] B_def [symmetric] by simp
qed

lemma mpn_mul_blocks_spec:
  assumes "vn \<le> l" "l \<le> un" "vn = 0 \<longrightarrow> l = un" "1 \<le> un" "vn < MUL_TOOM3_THRESHOLD"
    and "kara_room vn \<le> r \<or> vn < MUL_KARATSUBA_THRESHOLD"
    and "if MUL_KARATSUBA_THRESHOLD \<le> vn then 2 * vn \<le> s else un + vn \<le> s"
    and "\<not> MPN_OVERLAP_P prodp (un + vn) up un" "\<not> MPN_OVERLAP_P prodp (un + vn) vp vn"
    and "\<not> MPN_OVERLAP_P prodp (un + vn) ws s" "\<not> MPN_OVERLAP_P prodp (un + vn) tp r"
    and "\<not> MPN_OVERLAP_P ws s up un" "\<not> MPN_OVERLAP_P ws s vp vn" "\<not> MPN_OVERLAP_P ws s tp r"
    and "\<not> MPN_OVERLAP_P tp r up un" "\<not> MPN_OVERLAP_P tp r vp vn"
    and "mval m prodp l + LB ^ l * unat t + 2 \<le> LB ^ l + LB ^ vn"
    and "mval m prodp l + LB ^ l * unat t + mval m up un * mval m vp vn < LB ^ (un + vn)"
  shows "\<exists>m'. mpn_mul_blocks ws tp prodp l up un vp vn t m = Some (m' (prodp + un + vn - 1), m')
    \<and> mval m' prodp (un + vn) = mval m prodp l + LB ^ l * unat t + mval m up un * mval m vp vn
    \<and> only_at ({prodp..<prodp + (un + vn)} \<union> {ws..<ws + s} \<union> {tp..<tp + r}) m m'"
  using assms
proof (induction "un + vn" arbitrary: prodp l up un vp vn t m rule: less_induct)
  case less
  have t: "unat t \<le> 1" by (rule carry_bit [OF less.prems(17,1)])
  show ?case
  proof (cases "MUL_KARATSUBA_THRESHOLD \<le> vn")
    case False
    have s: "un + vn \<le> s" using less.prems(7) False by simp
    show ?thesis
    proof (cases "vn = 0")
      case True
      have "unat t = 0"
      proof (rule ccontr)
        assume "unat t \<noteq> 0"
        then have "LB ^ l * 1 \<le> LB ^ l * unat t" by (intro mult_le_mono2) simp
        moreover have "mval m prodp l + LB ^ l * unat t < LB ^ l" using less.prems(3,18) True by simp
        ultimately show False by linarith
      qed
      then show ?thesis using less.prems(3) True False by (simp add: mpn_mul_blocks.simps only_at_def)
    next
      case False
      obtain m1 where m1: "mpn_mul_basecase ws up un vp vn m = m1" "mval m1 ws (un + vn) = mval m up un * mval m vp vn"
        "only_at {ws..<ws + s} m m1"
        using basecase_step [of vn ws un up vp "{ws..<ws + s}"] False less.prems(12,13) s
        by (auto simp: product_step_def MPN_OVERLAP_P_def)
      obtain t' l' m2 where acc: "mul_accumulate prodp ws (un + vn) l t m1 = (t', l', m2)" by (metis prod_cases3)
      have mx: "max l (un + vn) = un + vn" using less.prems(2) by simp
      have o: "\<not> MPN_OVERLAP_P prodp (max l (un + vn)) ws (un + vn)"
        using less.prems(10) s mx by (auto simp: MPN_OVERLAP_P_def)
      have l1: "1 \<le> l" "1 \<le> un + vn" using False less.prems(1) by auto
      note A = mul_accumulate_spec [OF acc l1 t o, unfolded mx]
      have e: "mval m1 prodp l = mval m prodp l"
        by (rule only_at_mval [OF m1(3)]) (use less.prems(2,10) in \<open>auto simp: MPN_OVERLAP_P_def\<close>)
      have sum: "mval m2 prodp (un + vn) + LB ^ (un + vn) * unat t'
          = mval m prodp l + LB ^ l * unat t + mval m up un * mval m vp vn"
        using A(1,3) m1(2) e by simp
      have "unat t' = 0"
      proof (rule ccontr)
        assume "unat t' \<noteq> 0"
        then have "LB ^ (un + vn) * 1 \<le> LB ^ (un + vn) * unat t'" by (intro mult_le_mono2) simp
        then show False using sum less.prems(18) by linarith
      qed
      then have "mval m2 prodp (un + vn) = mval m prodp l + LB ^ l * unat t + mval m up un * mval m vp vn"
        using sum by simp
      moreover have "only_at ({prodp..<prodp + (un + vn)} \<union> {ws..<ws + s} \<union> {tp..<tp + r}) m m2"
        by (rule only_at_trans [OF only_at_mono [OF m1(3)] only_in_at [OF A(2)]]) auto
      moreover have "mpn_mul_blocks ws tp prodp l up un vp vn t m = Some (m2 (prodp + un + vn - 1), m2)"
        using \<open>\<not> MUL_KARATSUBA_THRESHOLD \<le> vn\<close> False
        by (subst mpn_mul_blocks.simps) (simp add: m1(1) acc)
      ultimately show ?thesis by blast
    qed
  next
    case True
    have vn: "1 \<le> vn" "vn \<le> un" using True less.prems(1,2) by (auto simp: MUL_KARATSUBA_THRESHOLD_def)
    have r: "kara_room vn \<le> r" and s: "2 * vn \<le> s" using less.prems(6,7) True by auto
    have reg: "prodp + (un + vn) \<le> up \<or> up + un \<le> prodp" "prodp + (un + vn) \<le> vp \<or> vp + vn \<le> prodp"
      "prodp + (un + vn) \<le> ws \<or> ws + s \<le> prodp" "prodp + (un + vn) \<le> tp \<or> tp + r \<le> prodp"
      "ws + s \<le> up \<or> up + un \<le> ws" "ws + s \<le> vp \<or> vp + vn \<le> ws" "ws + s \<le> tp \<or> tp + r \<le> ws"
      "tp + r \<le> up \<or> up + un \<le> tp" "tp + r \<le> vp \<or> vp + vn \<le> tp"
      using less.prems(8-16) by (simp_all only: no_overlap_iff)
    define S where "S = {prodp..<prodp + (un + vn)} \<union> {ws..<ws + s} \<union> {tp..<tp + r}"
    have "product_step (mpn_mul_n ws up vp vn tp) ws up vn vp vn ({ws..<ws + 2 * vn} \<union> {tp..<tp + r})"
      by (rule mpn_mul_n_step [OF vn(1) less.prems(5)]; (unfold no_overlap_iff)?; use reg(5-9) r s vn in linarith)
    then obtain m1 where m1: "mpn_mul_n ws up vp vn tp m = Some m1"
      "mval m1 ws (2 * vn) = mval m up vn * mval m vp vn" "only_at ({ws..<ws + 2 * vn} \<union> {tp..<tp + r}) m m1"
      by (auto simp: mult_2 elim!: product_stepE)
    obtain t' l' m2 where acc: "mul_accumulate prodp ws (2 * vn) l t m1 = (t', l', m2)" by (metis prod_cases3)
    define l2 where "l2 = max l (2 * vn)"
    have l2: "vn \<le> l2" "l2 - vn = max (l - vn) vn" "l2 \<le> un + vn" using less.prems(1,2) vn by (auto simp: l2_def)
    have o: "\<not> MPN_OVERLAP_P prodp (max l (2 * vn)) ws (2 * vn)"
      using reg(3) s l2(3) by (auto simp: MPN_OVERLAP_P_def l2_def)
    have l1: "1 \<le> l" "1 \<le> 2 * vn" using less.prems(1) vn by auto
    note A = mul_accumulate_spec [OF acc l1 t o, folded l2_def]
    have at1: "only_at S m m1" by (rule only_at_mono [OF m1(3)]) (use s in \<open>auto simp: S_def\<close>)
    have at2: "only_at S m m2"
      by (rule only_at_trans [OF at1 only_in_at [OF A(2)]]) (use l2 in \<open>auto simp: S_def\<close>)
    have keep: "mval m2 q k = mval m q k" if "{q..<q + k} \<inter> S = {}" for q k by (rule only_at_mval [OF at2 that])
    have kU: "mval m2 up un = mval m up un" "mval m2 (up + vn) (un - vn) = mval m (up + vn) (un - vn)"
      and kV: "mval m2 vp vn = mval m vp vn"
      by (rule keep; unfold S_def Int_Un_distrib Un_empty; intro conjI ivl_disjoint; use reg vn in linarith)+
    have e: "mval m1 prodp l = mval m prodp l"
      by (rule only_at_mval [OF m1(3)]; unfold Int_Un_distrib Un_empty; intro conjI ivl_disjoint; use reg s less.prems(2) in linarith)
    define lo acc' where "lo = mval m2 prodp vn" and "acc' = mval m2 (prodp + vn) (l2 - vn) + LB ^ (l2 - vn) * unat t'"
    have "LB ^ l2 = LB ^ vn * LB ^ (l2 - vn)" using l2(1) by (simp flip: power_add)
    then have sum: "lo + LB ^ vn * acc' = (mval m prodp l + LB ^ l * unat t) + mval m up vn * mval m vp vn"
      using A(1,3) m1(2) e by (simp add: lo_def acc'_def mval_split [OF l2(1), of m2] distrib_left mult.assoc)
    have bound: "acc' + 2 \<le> LB ^ (l - vn) + LB ^ vn"
      by (rule block_bound [OF less.prems(17) mval_less mval_less less.prems(1) sum])
    have total: "mval m prodp l + LB ^ l * unat t + mval m up un * mval m vp vn
        = lo + LB ^ vn * (acc' + mval m2 (up + vn) (un - vn) * mval m2 vp vn)"
      unfolding kU(2) kV mval_split [OF vn(2), of m up] using sum by (simp add: algebra_simps)
    have lim: "acc' + mval m2 (up + vn) (un - vn) * mval m2 vp vn < LB ^ un"
    proof -
      have "LB ^ vn * (acc' + mval m2 (up + vn) (un - vn) * mval m2 vp vn) < LB ^ vn * LB ^ un"
        using less.prems(18) unfolding total power_add [symmetric] by (simp add: add.commute)
      then show ?thesis by simp
    qed
    have b2: "acc' + 2 \<le> LB ^ (l2 - vn) + LB ^ k" if "vn \<le> k \<or> l2 - vn = vn \<and> l - vn \<le> k" for k
    proof (cases "vn \<le> k \<and> l - vn \<le> l2 - vn")
      case True
      then have "LB ^ vn \<le> LB ^ k" "LB ^ (l - vn) \<le> LB ^ (l2 - vn)" by (auto intro!: power_increasing simp: LB_def)
      then show ?thesis using bound by linarith
    next
      case False
      then have "LB ^ (l - vn) \<le> LB ^ k" "l2 - vn = vn" using that l2 by (auto intro!: power_increasing simp: LB_def)
      then show ?thesis using bound unfolding \<open>l2 - vn = vn\<close> by linarith
    qed
    have fin: "\<exists>m'. mpn_mul_blocks ws tp prodp l up un vp vn t m = Some (m' (prodp + un + vn - 1), m')
      \<and> mval m' prodp (un + vn) = mval m prodp l + LB ^ l * unat t + mval m up un * mval m vp vn \<and> only_at S m m'"
      if run: "mpn_mul_blocks ws tp prodp l up un vp vn t m = Some (m' (prodp + vn + un - 1), m')"
        and val: "mval m' (prodp + vn) un = acc' + mval m2 (up + vn) (un - vn) * mval m2 vp vn"
        and fr: "only_at ({prodp + vn..<prodp + vn + un} \<union> {ws..<ws + s} \<union> {tp..<tp + r}) m2 m'" for m'
    proof -
      have "only_at S m2 m'" by (rule only_at_mono [OF fr]) (auto simp: S_def)
      with at2 have "only_at S m m'" by (rule only_at_trans)
      moreover have "mval m' prodp vn = lo" unfolding lo_def
        by (rule only_at_mval [OF fr]; unfold Int_Un_distrib Un_empty; intro conjI ivl_disjoint; use reg vn in linarith)
      then have "mval m' prodp (un + vn) = mval m prodp l + LB ^ l * unat t + mval m up un * mval m vp vn"
        unfolding total mval_split [of vn "un + vn" m' prodp, simplified] by (simp add: val)
      ultimately show ?thesis using run by (auto simp: ac_simps)
    qed
    have q: "\<not> MPN_OVERLAP_P (prodp + vn) un (up + vn) (un - vn)" "\<not> MPN_OVERLAP_P (prodp + vn) un vp vn"
      "\<not> MPN_OVERLAP_P (prodp + vn) un ws s" "\<not> MPN_OVERLAP_P (prodp + vn) un tp r"
      "\<not> MPN_OVERLAP_P ws s (up + vn) (un - vn)" "\<not> MPN_OVERLAP_P tp r (up + vn) (un - vn)"
      using no_overlap_sub [OF less.prems(8)] no_overlap_sub [OF less.prems(9)] no_overlap_sub [OF less.prems(10)] no_overlap_sub [OF less.prems(11)] no_overlap_sub [OF less.prems(12)] no_overlap_sub [OF less.prems(15)] vn by simp_all
    show ?thesis
    proof (cases "un - vn < vn")
      case sw: True
      have run: "mpn_mul_blocks ws tp prodp l up un vp vn t m = mpn_mul_blocks ws tp (prodp + vn) (l2 - vn) vp vn (up + vn) (un - vn) t' m2"
        using True sw A(1) by (subst mpn_mul_blocks.simps) (simp add: m1(1) acc)
      have sz: "vn + (un - vn) = un" using vn by simp
      have "\<exists>m'. mpn_mul_blocks ws tp (prodp + vn) (l2 - vn) vp vn (up + vn) (un - vn) t' m2
            = Some (m' (prodp + vn + vn + (un - vn) - 1), m')
        \<and> mval m' (prodp + vn) (vn + (un - vn)) = mval m2 (prodp + vn) (l2 - vn) + LB ^ (l2 - vn) * unat t'
            + mval m2 vp vn * mval m2 (up + vn) (un - vn)
        \<and> only_at ({prodp + vn..<prodp + vn + (vn + (un - vn))} \<union> {ws..<ws + s} \<union> {tp..<tp + r}) m2 m'"
      proof (rule less.hyps)
        show "kara_room (un - vn) \<le> r \<or> un - vn < MUL_KARATSUBA_THRESHOLD"
          using r sw kara_room_mono [of "un - vn" vn] by simp
        show "if MUL_KARATSUBA_THRESHOLD \<le> un - vn then 2 * (un - vn) \<le> s else vn + (un - vn) \<le> s"
          using s sw by (simp split: if_split)
        show "mval m2 (prodp + vn) (l2 - vn) + LB ^ (l2 - vn) * unat t' + 2 \<le> LB ^ (l2 - vn) + LB ^ (un - vn)"
          using b2 [of "un - vn"] l2 less.prems(2) sw by (auto simp: acc'_def)
        show "mval m2 (prodp + vn) (l2 - vn) + LB ^ (l2 - vn) * unat t' + mval m2 vp vn * mval m2 (up + vn) (un - vn) < LB ^ (vn + (un - vn))"
          using lim sz by (simp add: acc'_def mult.commute)
      qed (use q less.prems(2,5,6,7,13,14,16) vn l2 s True sw in \<open>simp_all add: sz\<close>)
      then obtain m' where m': "mpn_mul_blocks ws tp prodp l up un vp vn t m = Some (m' (prodp + vn + un - 1), m')"
        "mval m' (prodp + vn) un = acc' + mval m2 (up + vn) (un - vn) * mval m2 vp vn"
        "only_at ({prodp + vn..<prodp + vn + un} \<union> {ws..<ws + s} \<union> {tp..<tp + r}) m2 m'"
        unfolding run add.assoc sz acc'_def by (auto simp: mult.commute)
      show ?thesis using fin [OF m'] unfolding S_def .
    next
      case ns: False
      have run: "mpn_mul_blocks ws tp prodp l up un vp vn t m = mpn_mul_blocks ws tp (prodp + vn) (l2 - vn) (up + vn) (un - vn) vp vn t' m2"
        using True ns A(1) by (subst mpn_mul_blocks.simps) (simp add: m1(1) acc)
      have sz: "un - vn + vn = un" using vn by simp
      have "\<exists>m'. mpn_mul_blocks ws tp (prodp + vn) (l2 - vn) (up + vn) (un - vn) vp vn t' m2
            = Some (m' (prodp + vn + (un - vn) + vn - 1), m')
        \<and> mval m' (prodp + vn) ((un - vn) + vn) = mval m2 (prodp + vn) (l2 - vn) + LB ^ (l2 - vn) * unat t'
            + mval m2 (up + vn) (un - vn) * mval m2 vp vn
        \<and> only_at ({prodp + vn..<prodp + vn + ((un - vn) + vn)} \<union> {ws..<ws + s} \<union> {tp..<tp + r}) m2 m'"
      proof (rule less.hyps)
        show "mval m2 (prodp + vn) (l2 - vn) + LB ^ (l2 - vn) * unat t' + 2 \<le> LB ^ (l2 - vn) + LB ^ vn"
          using b2 [of vn] by (simp add: acc'_def)
        show "mval m2 (prodp + vn) (l2 - vn) + LB ^ (l2 - vn) * unat t' + mval m2 (up + vn) (un - vn) * mval m2 vp vn < LB ^ (un - vn + vn)"
          using lim sz by (simp add: acc'_def)
      qed (use q less.prems(2,5,6,7,13,14,16) vn l2 s True ns in \<open>simp_all add: sz\<close>)
      then obtain m' where m': "mpn_mul_blocks ws tp prodp l up un vp vn t m = Some (m' (prodp + vn + un - 1), m')"
        "mval m' (prodp + vn) un = acc' + mval m2 (up + vn) (un - vn) * mval m2 vp vn"
        "only_at ({prodp + vn..<prodp + vn + un} \<union> {ws..<ws + s} \<union> {tp..<tp + r}) m2 m'"
        unfolding run add.assoc sz acc'_def by auto
      show ?thesis using fin [OF m'] unfolding S_def .
    qed
  qed
qed

text \<open>The product of any two operands below the Toom-3 sizes, and its top limb.\<close>

theorem mpn_mul_spec:
  defines "t \<equiv> 2 * SQR_KARATSUBA_THRESHOLD"
  assumes n: "1 \<le> vn" "vn \<le> un" "vn < MUL_TOOM3_THRESHOLD" "up = vp \<and> un = vn \<longrightarrow> un < SQR_TOOM3_THRESHOLD"
    and sz: "up = vp \<and> un = vn \<longrightarrow> kara_room un \<le> s" "2 * vn \<le> s" "kara_room vn \<le> r" "t \<le> r"
    and o: "\<not> MPN_OVERLAP_P prodp (un + vn) up un" "\<not> MPN_OVERLAP_P prodp (un + vn) vp vn"
      "\<not> MPN_OVERLAP_P prodp (un + vn) ws s" "\<not> MPN_OVERLAP_P prodp (un + vn) tp r"
      "\<not> MPN_OVERLAP_P ws s up un" "\<not> MPN_OVERLAP_P ws s vp vn" "\<not> MPN_OVERLAP_P ws s tp r"
      "\<not> MPN_OVERLAP_P tp r up un" "\<not> MPN_OVERLAP_P tp r vp vn"
  shows "\<exists>m'. mpn_mul prodp up un vp vn ws tp m = Some (m' (prodp + un + vn - 1), m')
    \<and> mval m' prodp (un + vn) = mval m up un * mval m vp vn
    \<and> only_at ({prodp..<prodp + (un + vn)} \<union> {ws..<ws + s} \<union> {tp..<tp + r}) m m'"
proof -
  note reg = o [unfolded no_overlap_iff]
  define S where "S = {prodp..<prodp + (un + vn)} \<union> {ws..<ws + s} \<union> {tp..<tp + r}"
  consider "up = vp \<and> un = vn" | "\<not> (up = vp \<and> un = vn)" "vn < MUL_KARATSUBA_THRESHOLD"
    | "\<not> (up = vp \<and> un = vn)" "\<not> vn < MUL_KARATSUBA_THRESHOLD" by blast
  then have "\<exists>m'. mpn_mul prodp up un vp vn ws tp m = Some (m' (prodp + un + vn - 1), m')
    \<and> mval m' prodp (un + vn) = mval m up un * mval m vp vn \<and> only_at S m m'" (is ?goal)
  proof cases
    case 1
    have "product_step (mpn_sqr_n prodp up un ws tp) prodp up un up un ({prodp..<prodp + 2 * un} \<union> {ws..<ws + s} \<union> {tp..<tp + t})"
      unfolding t_def
      by (rule mpn_sqr_n_step; (unfold no_overlap_iff t_def [symmetric])?; use n reg sz 1 in \<open>simp; fail | linarith\<close>)
    then have "product_step (mpn_sqr_n prodp up un ws tp) prodp up un up un S"
      by (rule product_step_mono) (use sz 1 in \<open>auto simp: S_def\<close>)
    then obtain m' where "mpn_sqr_n prodp up un ws tp m = Some m'" "mval m' prodp (un + un) = mval m up un * mval m up un" "only_at S m m'"
      by (rule product_stepE)
    then show ?goal using 1 by (auto simp: mpn_mul_def mult_2 add.assoc S_def)
  next
    case 2
    have "product_step (\<lambda>m. Some (mpn_mul_basecase prodp up un vp vn m)) prodp up un vp vn S"
      using n(1) o(1,2) by (intro basecase_step) (auto simp: S_def)
    then obtain m' where "mpn_mul_basecase prodp up un vp vn m = m'" "mval m' prodp (un + vn) = mval m up un * mval m vp vn"
      "only_at S m m'" by (auto simp: product_step_def)
    then show ?goal using 2 unfolding mpn_mul_def by auto
  next
    case 3
    have "product_step (mpn_mul_n prodp up vp vn tp) prodp up vn vp vn ({prodp..<prodp + 2 * vn} \<union> {tp..<tp + r})"
      by (rule mpn_mul_n_step; (unfold no_overlap_iff)?; use n(1-3) reg(1,2,4,8,9) sz(2-4) in linarith)
    then obtain m1 where m1: "mpn_mul_n prodp up vp vn tp m = Some m1" "mval m1 prodp (2 * vn) = mval m up vn * mval m vp vn"
      and at: "only_at ({prodp..<prodp + 2 * vn} \<union> {tp..<tp + r}) m m1" by (auto simp: mult_2 elim!: product_stepE)
    have atS: "only_at S m m1" by (rule only_at_mono [OF at]) (use n(2) in \<open>auto simp: S_def\<close>)
    have keep: "mval m1 q k = mval m q k" if "{q..<q + k} \<inter> S = {}" for q k by (rule only_at_mval [OF atS that])
    have kU: "mval m1 up un = mval m up un" "mval m1 (up + vn) (un - vn) = mval m (up + vn) (un - vn)"
      and kV: "mval m1 vp vn = mval m vp vn"
      by (rule keep; unfold S_def Int_Un_distrib Un_empty; intro conjI ivl_disjoint; use reg n in linarith)+
    define lo hi where "lo = mval m1 prodp vn" and "hi = mval m1 (prodp + vn) vn"
    have sum: "lo + LB ^ vn * hi = mval m up vn * mval m vp vn"
      using m1(2) by (simp add: lo_def hi_def mval_split [of vn "2 * vn"])
    have total: "mval m up un * mval m vp vn = lo + LB ^ vn * (hi + mval m (up + vn) (un - vn) * mval m vp vn)"
      unfolding mval_split [OF n(2), of m up] using sum by (simp add: algebra_simps)
    have lim: "hi + mval m (up + vn) (un - vn) * mval m vp vn < LB ^ un"
    proof -
      have "mval m up un * mval m vp vn < LB ^ un * LB ^ vn" by (intro mult_strict_mono mval_less) (auto simp: LB_def)
      then have "LB ^ vn * (hi + mval m (up + vn) (un - vn) * mval m vp vn) < LB ^ vn * LB ^ un"
        unfolding total by (simp only: mult.commute [of "LB ^ un"])
      then show ?thesis by simp
    qed
    have q: "\<not> MPN_OVERLAP_P (prodp + vn) un (up + vn) (un - vn)" "\<not> MPN_OVERLAP_P (prodp + vn) un vp vn"
      "\<not> MPN_OVERLAP_P (prodp + vn) un ws s" "\<not> MPN_OVERLAP_P (prodp + vn) un tp r"
      "\<not> MPN_OVERLAP_P ws s (up + vn) (un - vn)" "\<not> MPN_OVERLAP_P tp r (up + vn) (un - vn)"
      using no_overlap_sub [OF o(1)] no_overlap_sub [OF o(2)] no_overlap_sub [OF o(3)] no_overlap_sub [OF o(4)] no_overlap_sub [OF o(5)] no_overlap_sub [OF o(8)] n(2) by simp_all
    show ?goal
    proof (cases "un = vn")
      case True
      then show ?goal using 3 m1 atS by (auto simp: mpn_mul_def mult_2 add.assoc)
    next
      case False
      have fin: "\<exists>m'. mpn_mul prodp up un vp vn ws tp m = Some (m' (prodp + un + vn - 1), m')
        \<and> mval m' prodp (un + vn) = mval m up un * mval m vp vn \<and> only_at S m m'"
        if run: "mpn_mul prodp up un vp vn ws tp m = Some (m' (prodp + vn + un - 1), m')"
          and val: "mval m' (prodp + vn) un = hi + mval m (up + vn) (un - vn) * mval m vp vn"
          and fr: "only_at ({prodp + vn..<prodp + vn + un} \<union> {ws..<ws + s} \<union> {tp..<tp + r}) m1 m'" for m'
      proof -
        have "only_at S m1 m'" by (rule only_at_mono [OF fr]) (auto simp: S_def)
        with atS have "only_at S m m'" by (rule only_at_trans)
        moreover have "mval m' prodp vn = lo" unfolding lo_def
          by (rule only_at_mval [OF fr]; unfold Int_Un_distrib Un_empty; intro conjI ivl_disjoint; use reg n in linarith)
        then have "mval m' prodp (un + vn) = mval m up un * mval m vp vn"
          unfolding total mval_split [of vn "un + vn" m' prodp, simplified] by (simp add: val)
        ultimately show ?goal using run by (auto simp: ac_simps)
      qed
      have hib: "hi < LB ^ vn" unfolding hi_def by (rule mval_less)
      show ?goal
      proof (cases "un - vn < vn")
        case sw: True
        have run: "mpn_mul prodp up un vp vn ws tp m = mpn_mul_blocks ws tp (prodp + vn) vn vp vn (up + vn) (un - vn) 0 m1"
          using 3 False sw m1(1) by (auto simp: mpn_mul_def)
        have sz': "vn + (un - vn) = un" using n by simp
        have pos: "1 \<le> LB ^ (un - vn)" by (simp add: LB_def)
        have "\<exists>m'. mpn_mul_blocks ws tp (prodp + vn) vn vp vn (up + vn) (un - vn) 0 m1
              = Some (m' (prodp + vn + vn + (un - vn) - 1), m')
          \<and> mval m' (prodp + vn) (vn + (un - vn)) = mval m1 (prodp + vn) vn + LB ^ vn * unat (0 :: limb)
              + mval m1 vp vn * mval m1 (up + vn) (un - vn)
          \<and> only_at ({prodp + vn..<prodp + vn + (vn + (un - vn))} \<union> {ws..<ws + s} \<union> {tp..<tp + r}) m1 m'"
        proof (rule mpn_mul_blocks_spec)
          show "kara_room (un - vn) \<le> r \<or> un - vn < MUL_KARATSUBA_THRESHOLD"
            using sz sw kara_room_mono [of "un - vn" vn] by simp
          show "if MUL_KARATSUBA_THRESHOLD \<le> un - vn then 2 * (un - vn) \<le> s else vn + (un - vn) \<le> s"
            using sz sw by (simp split: if_split)
          show "mval m1 (prodp + vn) vn + LB ^ vn * unat (0 :: limb) + 2 \<le> LB ^ vn + LB ^ (un - vn)"
          proof -
            have "LB ^ 1 \<le> LB ^ (un - vn)" using False n(2) by (intro power_increasing) (auto simp: LB_def)
            then have "2 \<le> LB ^ (un - vn)" by (simp add: LB_def)
            then show ?thesis using hib by (simp add: hi_def)
          qed
          show "mval m1 (prodp + vn) vn + LB ^ vn * unat (0 :: limb) + mval m1 vp vn * mval m1 (up + vn) (un - vn) < LB ^ (vn + (un - vn))"
            using lim sz' kU(2) kV by (simp add: hi_def mult.commute)
        qed (use q n o(6,7,9) sz False sw in \<open>simp_all add: sz'\<close>)
        then obtain m' where m': "mpn_mul prodp up un vp vn ws tp m = Some (m' (prodp + vn + un - 1), m')"
          "mval m' (prodp + vn) un = hi + mval m (up + vn) (un - vn) * mval m vp vn"
          "only_at ({prodp + vn..<prodp + vn + un} \<union> {ws..<ws + s} \<union> {tp..<tp + r}) m1 m'"
          unfolding run add.assoc sz' hi_def kU kV by (auto simp: mult.commute)
        show ?goal by (rule fin [OF m'])
      next
        case ns: False
        have run: "mpn_mul prodp up un vp vn ws tp m = mpn_mul_blocks ws tp (prodp + vn) vn (up + vn) (un - vn) vp vn 0 m1"
          using 3 False ns m1(1) by (auto simp: mpn_mul_def)
        have sz': "un - vn + vn = un" using n by simp
        have "\<exists>m'. mpn_mul_blocks ws tp (prodp + vn) vn (up + vn) (un - vn) vp vn 0 m1
              = Some (m' (prodp + vn + (un - vn) + vn - 1), m')
          \<and> mval m' (prodp + vn) ((un - vn) + vn) = mval m1 (prodp + vn) vn + LB ^ vn * unat (0 :: limb)
              + mval m1 (up + vn) (un - vn) * mval m1 vp vn
          \<and> only_at ({prodp + vn..<prodp + vn + ((un - vn) + vn)} \<union> {ws..<ws + s} \<union> {tp..<tp + r}) m1 m'"
        proof (rule mpn_mul_blocks_spec)
          show "mval m1 (prodp + vn) vn + LB ^ vn * unat (0 :: limb) + 2 \<le> LB ^ vn + LB ^ vn"
          proof -
            have "LB ^ 1 \<le> LB ^ vn" using n(1) by (intro power_increasing) (auto simp: LB_def)
            then have "2 \<le> LB ^ vn" by (simp add: LB_def)
            then show ?thesis using hib by (simp add: hi_def)
          qed
          show "mval m1 (prodp + vn) vn + LB ^ vn * unat (0 :: limb) + mval m1 (up + vn) (un - vn) * mval m1 vp vn < LB ^ (un - vn + vn)"
            using lim sz' kU(2) kV by (simp add: hi_def)
        qed (use q n o(6,7,9) sz False ns 3(2) in \<open>simp_all add: sz'\<close>)
        then obtain m' where m': "mpn_mul prodp up un vp vn ws tp m = Some (m' (prodp + vn + un - 1), m')"
          "mval m' (prodp + vn) un = hi + mval m (up + vn) (un - vn) * mval m vp vn"
          "only_at ({prodp + vn..<prodp + vn + un} \<union> {ws..<ws + s} \<union> {tp..<tp + r}) m1 m'"
          unfolding run add.assoc sz' hi_def kU kV by auto
        show ?goal by (rule fin [OF m'])
      qed
    qed
  qed
  then show ?thesis unfolding S_def .
qed

end
