(* ===== verification/Mpn_Div1.thy ===== *)
theory Mpn_Div1
  imports Mpn_Mul
begin

text \<open>
  Division by one limb: \<open>mpn/generic/divrem_1.c\<close> and \<open>mod_1.c\<close>.  Both have a branch for a divisor
  with its high bit set and one that shifts the divisor (and the dividend, limb by limb), and in each
  branch the division step is either the macro \<open>udiv_qrnnd\<close> or \<open>udiv_qrnnd_preinv\<close>.  The locale
  \<open>udiv_step\<close> states what the loops need of that step; the two macros are its interpretations.  The
  specifications hold whatever the tuning thresholds are.
\<close>

section \<open>Thresholds (\<open>gmp-impl.h\<close>, \<open>gmp-mparam.h\<close>)\<close>

definition DIVREM_1_NORM_THRESHOLD :: nat where "DIVREM_1_NORM_THRESHOLD = 0"
definition DIVREM_1_UNNORM_THRESHOLD :: nat where "DIVREM_1_UNNORM_THRESHOLD = 0"
definition MOD_1_NORM_THRESHOLD :: nat where "MOD_1_NORM_THRESHOLD = 0"
definition MOD_1_UNNORM_THRESHOLD :: nat where "MOD_1_UNNORM_THRESHOLD = 0"

definition GMP_LIMB_HIGHBIT :: limb where
  "GMP_LIMB_HIGHBIT = NOT 0 XOR drop_bit 1 (NOT 0)"

lemma highbit_iff: "d AND GMP_LIMB_HIGHBIT \<noteq> 0 \<longleftrightarrow> LB \<le> 2 * unat (d :: limb)"
proof -
  have hb: "GMP_LIMB_HIGHBIT = push_bit 31 1"
    unfolding GMP_LIMB_HIGHBIT_def by (rule bit_word_eqI) (simp only: bit_simps, auto)
  have "d AND push_bit 31 1 \<noteq> 0 \<longleftrightarrow> bit d 31"
    by (simp only: push_bit_of_1 and_exp_eq_0_iff_not_bit not_not)
  also have "\<dots> \<longleftrightarrow> odd (unat d div 2 ^ 31)"
    by (simp only: bit_iff_odd [of "unat d", symmetric]) (simp add: bit_simps)
  also have "\<dots> \<longleftrightarrow> LB \<le> 2 * unat d"
  proof -
    have "unat d div 2 ^ 31 < 2"
      using unat_lt_LB [of d] by (simp add: LB_def)
    then have "odd (unat d div 2 ^ 31) \<longleftrightarrow> unat d div 2 ^ 31 = 1"
      by (auto simp: less_2_cases_iff)
    then show ?thesis
      using unat_lt_LB [of d] by (auto simp: LB_def)
  qed
  finally show ?thesis unfolding hb .
qed

section \<open>Division by one limb\<close>

text \<open>The code has each loop twice, once on \<open>udiv_qrnnd\<close> and once on \<open>udiv_qrnnd_preinv\<close> with the
  inverse of the divisor; \<open>udiv\<close> is the macro a loop uses.  The C pointer \<open>qp\<close> walks down; here it
  stays at the least significant quotient limb the loop writes, and the limb of step \<open>i\<close> goes to
  \<open>qp + i\<close>.\<close>

type_synonym udiv = "limb \<Rightarrow> limb \<Rightarrow> limb \<Rightarrow> limb \<times> limb"

fun divrem_1_loop :: "udiv \<Rightarrow> nat \<Rightarrow> ptr \<Rightarrow> ptr \<Rightarrow> limb \<Rightarrow> limb \<Rightarrow> mem \<Rightarrow> limb \<times> mem" where
  "divrem_1_loop udiv 0 qp up d r m = (r, m)"
| "divrem_1_loop udiv (Suc i) qp up d r m =
     (let n0 = m (up + i);
          (q, r) = udiv r n0 d
      in divrem_1_loop udiv i qp up d r (m(qp + i := q)))"

fun divrem_1_frac :: "udiv \<Rightarrow> nat \<Rightarrow> ptr \<Rightarrow> limb \<Rightarrow> limb \<Rightarrow> mem \<Rightarrow> limb \<times> mem" where
  "divrem_1_frac udiv 0 qp d r m = (r, m)"
| "divrem_1_frac udiv (Suc i) qp d r m =
     (let (q, r) = udiv r 0 d
      in divrem_1_frac udiv i qp d r (m(qp + i := q)))"

text \<open>The loop for a divisor shifted by \<open>norm\<close>, which shifts the dividend as it goes: \<open>n1\<close> is the limb
  above \<open>up + i\<close>.\<close>

fun divrem_1_shift :: "udiv \<Rightarrow> nat \<Rightarrow> ptr \<Rightarrow> ptr \<Rightarrow> nat \<Rightarrow> limb \<Rightarrow> limb \<Rightarrow> limb \<Rightarrow> mem \<Rightarrow> limb \<times> mem" where
  "divrem_1_shift udiv 0 qp up norm d n1 r m =
     (let (q, r) = udiv r (push_bit norm n1) d
      in (r, m(qp := q)))"
| "divrem_1_shift udiv (Suc i) qp up norm d n1 r m =
     (let n0 = m (up + i);
          (q, r) = udiv r (push_bit norm n1 OR drop_bit (32 - norm) n0) d
      in divrem_1_shift udiv i qp up norm d n0 r (m(qp + Suc i := q)))"

definition divrem_1_norm :: "udiv \<Rightarrow> ptr \<Rightarrow> nat \<Rightarrow> ptr \<Rightarrow> nat \<Rightarrow> limb \<Rightarrow> limb \<Rightarrow> mem \<Rightarrow> limb \<times> mem" where
  "divrem_1_norm udiv qp qxn up un d r m =
     (let (r, m) = divrem_1_loop udiv un (qp + qxn) up d r m
      in divrem_1_frac udiv qxn qp d r m)"

definition divrem_1_unnorm :: "udiv \<Rightarrow> ptr \<Rightarrow> nat \<Rightarrow> ptr \<Rightarrow> nat \<Rightarrow> nat \<Rightarrow> limb \<Rightarrow> limb \<Rightarrow> mem \<Rightarrow> limb \<times> mem" where
  "divrem_1_unnorm udiv qp qxn up un norm d r m =
     (let (r, m) =
        (if un \<noteq> 0
         then (let n1 = m (up + (un - 1));
                   r = r OR drop_bit (32 - norm) n1
               in divrem_1_shift udiv (un - 1) (qp + qxn) up norm d n1 r m)
         else (r, m));
        (r, m) = divrem_1_frac udiv qxn qp d r m
      in (drop_bit norm r, m))"

text \<open>The two halves of \<open>mpn_divrem_1\<close> after the step that may be skipped: \<open>n\<close> divisions remain.\<close>

definition divrem_1_norm_rest :: "ptr \<Rightarrow> nat \<Rightarrow> ptr \<Rightarrow> nat \<Rightarrow> nat \<Rightarrow> limb \<Rightarrow> limb \<Rightarrow> mem \<Rightarrow> limb \<times> mem" where
  "divrem_1_norm_rest qp qxn up un n d r m =
     (if BELOW_THRESHOLD n DIVREM_1_NORM_THRESHOLD
      then divrem_1_norm udiv_qrnnd qp qxn up un d r m
      else (let dinv = invert_limb d
            in divrem_1_norm (\<lambda>nh nl d. udiv_qrnnd_preinv nh nl d dinv) qp qxn up un d r m))"

definition divrem_1_unnorm_rest :: "ptr \<Rightarrow> nat \<Rightarrow> ptr \<Rightarrow> nat \<Rightarrow> nat \<Rightarrow> limb \<Rightarrow> limb \<Rightarrow> mem \<Rightarrow> limb \<times> mem" where
  "divrem_1_unnorm_rest qp qxn up un n d r m =
     (let norm = unat (count_leading_zeros d);
          d = push_bit norm d;
          r = push_bit norm r
      in if BELOW_THRESHOLD n DIVREM_1_UNNORM_THRESHOLD
         then divrem_1_unnorm udiv_qrnnd qp qxn up un norm d r m
         else (let dinv = invert_limb d
               in divrem_1_unnorm (\<lambda>nh nl d. udiv_qrnnd_preinv nh nl d dinv) qp qxn up un norm d r m))"

definition mpn_divrem_1 :: "ptr \<Rightarrow> nat \<Rightarrow> ptr \<Rightarrow> nat \<Rightarrow> limb \<Rightarrow> mem \<Rightarrow> limb \<times> mem" where
  "mpn_divrem_1 qp qxn up un d m =
     (let r = 0;
          n = un + qxn
      in if n = 0 then (0, m)
         else if d AND GMP_LIMB_HIGHBIT \<noteq> 0
         then (let (r, n, un, m) =
                 (if un \<noteq> 0
                  then (let r = m (up + (un - 1));
                            q = of_bool (r \<ge> d);
                            m = m(qp + (n - 1) := q);
                            r = r - (d AND - q)
                        in (r, n - 1, un - 1, m))
                  else (r, n, un, m))
               in divrem_1_norm_rest qp qxn up un n d r m)
         else (let (r, n, un, m) =
                 (if un \<noteq> 0
                  then (let n1 = m (up + (un - 1))
                        in if n1 < d then (n1, n - 1, un - 1, m(qp + (n - 1) := 0)) else (r, n, un, m))
                  else (r, n, un, m))
               in if n = 0 then (r, m)
                  else divrem_1_unnorm_rest qp qxn up un n d r m))"

fun mod_1_loop :: "udiv \<Rightarrow> mem \<Rightarrow> nat \<Rightarrow> ptr \<Rightarrow> limb \<Rightarrow> limb \<Rightarrow> limb" where
  "mod_1_loop udiv m 0 up d r = r"
| "mod_1_loop udiv m (Suc i) up d r =
     (let n0 = m (up + i);
          (dummy, r) = udiv r n0 d
      in mod_1_loop udiv m i up d r)"

fun mod_1_shift :: "udiv \<Rightarrow> mem \<Rightarrow> nat \<Rightarrow> ptr \<Rightarrow> nat \<Rightarrow> limb \<Rightarrow> limb \<Rightarrow> limb \<Rightarrow> limb" where
  "mod_1_shift udiv m 0 up norm d n1 r =
     (let (dummy, r) = udiv r (push_bit norm n1) d
      in drop_bit norm r)"
| "mod_1_shift udiv m (Suc i) up norm d n1 r =
     (let n0 = m (up + i);
          (dummy, r) = udiv r (push_bit norm n1 OR drop_bit (32 - norm) n0) d
      in mod_1_shift udiv m i up norm d n0 r)"

text \<open>The two halves of \<open>mpn_mod_1\<close> after the step that may be skipped.\<close>

definition mod_1_norm_rest :: "mem \<Rightarrow> ptr \<Rightarrow> nat \<Rightarrow> limb \<Rightarrow> limb \<Rightarrow> limb" where
  "mod_1_norm_rest m up un d r =
     (if BELOW_THRESHOLD un MOD_1_NORM_THRESHOLD
      then mod_1_loop udiv_qrnnd m un up d r
      else (let inv = invert_limb d
            in mod_1_loop (\<lambda>nh nl d. udiv_qrnnd_preinv nh nl d inv) m un up d r))"

definition mod_1_unnorm_rest :: "mem \<Rightarrow> ptr \<Rightarrow> nat \<Rightarrow> limb \<Rightarrow> limb \<Rightarrow> limb" where
  "mod_1_unnorm_rest m up un d r =
     (let norm = unat (count_leading_zeros d);
          d = push_bit norm d;
          n1 = m (up + (un - 1));
          r = push_bit norm r OR drop_bit (32 - norm) n1
      in if BELOW_THRESHOLD un MOD_1_UNNORM_THRESHOLD
         then mod_1_shift udiv_qrnnd m (un - 1) up norm d n1 r
         else (let inv = invert_limb d
               in mod_1_shift (\<lambda>nh nl d. udiv_qrnnd_preinv nh nl d inv) m (un - 1) up norm d n1 r))"

definition mpn_mod_1 :: "mem \<Rightarrow> ptr \<Rightarrow> nat \<Rightarrow> limb \<Rightarrow> limb" where
  "mpn_mod_1 m up un d =
     (if un = 0 then 0
      else if d AND GMP_LIMB_HIGHBIT \<noteq> 0
      then (let r = m (up + (un - 1));
                r = (if r \<ge> d then r - d else r);
                un = un - 1
            in if un = 0 then r else mod_1_norm_rest m up un d r)
      else (let r = m (up + (un - 1))
            in if r < d
               then (let un = un - 1 in if un = 0 then r else mod_1_unnorm_rest m up un d r)
               else mod_1_unnorm_rest m up un d 0))"

text \<open>Undoing the shift of divisor and dividend.\<close>

lemma unshift:
  fixes X P D r Y :: nat
  assumes "X * (P * D) + r = P * Y" and "r < P * D"
  shows "X * D + r div P = Y" and "r div P < D"
proof -
  have P: "0 < P" using assms(2) by (cases P) auto
  have "P dvd r"
    using assms(1) by (metis dvd_add_right_iff dvd_triv_left mult.left_commute)
  then obtain k where k: "r = P * k" by (rule dvdE)
  then have "P * (X * D + k) = P * Y"
    using assms(1) by (simp add: algebra_simps)
  then show "X * D + r div P = Y" using P k by simp
  show "r div P < D" using assms(2) k P by simp
qed

subsection \<open>The contract of a limb division\<close>

text \<open>What the loops rely on: for a divisor \<open>udiv\<close> accepts (which has its high bit set), a two-limb
  dividend whose high limb is below the divisor is divided with remainder.\<close>

locale udiv_step =
  fixes udiv :: udiv and ok :: "limb \<Rightarrow> bool"
  assumes udiv_spec: "ok d \<Longrightarrow> nh < d \<Longrightarrow> udiv nh nl d = (q, r) \<Longrightarrow>
    unat q * unat d + unat r = LB * unat nh + unat nl \<and> r < d"
begin

lemma loop_spec:
  assumes "divrem_1_loop udiv k qp up d r m = (r', m')" and "ok d" and "r < d"
    and "up \<le> qp \<or> qp + k \<le> up"
  shows "mval m' qp k * unat d + unat r' = LB ^ k * unat r + mval m up k \<and> r' < d \<and> only_in qp k m m'"
  using assms(1,3,4)
proof (induction k arbitrary: r m)
  case 0
  then show ?case by simp
next
  case (Suc k)
  obtain q r1 where u: "udiv r (m (up + k)) d = (q, r1)" by fastforce
  note us = udiv_spec [OF assms(2) Suc.prems(2) u]
  define m1 where "m1 = m(qp + k := q)"
  have rec: "divrem_1_loop udiv k qp up d r1 m1 = (r', m')"
    using Suc.prems(1) u by (simp add: m1_def)
  have v: "mval m1 up k = mval m up k"
    unfolding m1_def using Suc.prems(3) by (intro mval_upd_out) auto
  have IH: "mval m' qp k * unat d + unat r' = LB ^ k * unat r1 + mval m up k" "r' < d" "only_in qp k m1 m'"
    using Suc.IH [OF rec] us Suc.prems(3) v by auto
  have top: "m' (qp + k) = q"
    using only_inD [OF IH(3), of "qp + k"] by (simp add: m1_def)
  have "mval m' qp (Suc k) * unat d + unat r' = LB ^ k * (unat q * unat d + unat r1) + mval m up k"
    using IH(1) unfolding mval_high top by (simp add: algebra_simps)
  also have "\<dots> = LB ^ Suc k * unat r + mval m up (Suc k)"
    using us unfolding mval_high by (simp add: algebra_simps)
  finally show ?case
    using IH(2) only_in_trans [of qp "Suc k" m m1 m'] only_in_mono [OF IH(3), of qp "Suc k"]
    by (simp add: m1_def del: mval.simps)
qed

lemma frac_spec:
  assumes "divrem_1_frac udiv k qp d r m = (r', m')" and "ok d" and "r < d"
  shows "mval m' qp k * unat d + unat r' = LB ^ k * unat r \<and> r' < d \<and> only_in qp k m m'"
  using assms(1,3)
proof (induction k arbitrary: r m)
  case 0
  then show ?case by simp
next
  case (Suc k)
  obtain q r1 where u: "udiv r 0 d = (q, r1)" by fastforce
  note us = udiv_spec [OF assms(2) Suc.prems(2) u]
  define m1 where "m1 = m(qp + k := q)"
  have rec: "divrem_1_frac udiv k qp d r1 m1 = (r', m')"
    using Suc.prems(1) u by (simp add: m1_def)
  have IH: "mval m' qp k * unat d + unat r' = LB ^ k * unat r1" "r' < d" "only_in qp k m1 m'"
    using Suc.IH [OF rec] us by auto
  have top: "m' (qp + k) = q"
    using only_inD [OF IH(3), of "qp + k"] by (simp add: m1_def)
  have "mval m' qp (Suc k) * unat d + unat r' = LB ^ k * (unat q * unat d + unat r1)"
    using IH(1) unfolding mval_high top by (simp add: algebra_simps)
  also have "\<dots> = LB ^ Suc k * unat r"
    using us by simp
  finally show ?case
    using IH(2) only_in_trans [of qp "Suc k" m m1 m'] only_in_mono [OF IH(3), of qp "Suc k"]
    by (simp add: m1_def del: mval.simps)
qed

lemma shift_spec:
  assumes "divrem_1_shift udiv k qp up norm d n1 r m = (r', m')" and "ok d" and "r < d" and "norm \<le> 32"
    and "up \<le> qp \<or> qp + Suc k \<le> up"
  shows "mval m' qp (Suc k) * unat d + unat r'
      = LB ^ Suc k * unat r + (LB ^ k * unat (push_bit norm n1) + 2 ^ norm * mval m up k)
    \<and> r' < d \<and> only_in qp (Suc k) m m'"
  using assms(1,3,5)
proof (induction k arbitrary: n1 r m)
  case 0
  obtain q r1 where u: "udiv r (push_bit norm n1) d = (q, r1)" by fastforce
  from udiv_spec [OF assms(2) 0(2) u] 0(1) u show ?case by (auto simp: only_in_def)
next
  case (Suc k)
  define n0 where "n0 = m (up + k)"
  define w where "w = push_bit norm n1 OR drop_bit (32 - norm) n0"
  have w: "unat w = unat (push_bit norm n1) + unat (drop_bit (32 - norm) n0)"
    unfolding w_def by (rule unat_push_or) (rule drop_top_less [OF assms(4)])
  obtain q r1 where u: "udiv r w d = (q, r1)" by fastforce
  note us = udiv_spec [OF assms(2) Suc.prems(2) u]
  define m1 where "m1 = m(qp + Suc k := q)"
  have rec: "divrem_1_shift udiv k qp up norm d n0 r1 m1 = (r', m')"
    using Suc.prems(1) u by (simp add: n0_def w_def m1_def)
  have v: "mval m1 up k = mval m up k"
    unfolding m1_def using Suc.prems(3) by (intro mval_upd_out) auto
  have IH: "mval m' qp (Suc k) * unat d + unat r'
      = LB ^ Suc k * unat r1 + (LB ^ k * unat (push_bit norm n0) + 2 ^ norm * mval m up k)"
    "r' < d" "only_in qp (Suc k) m1 m'"
    using Suc.IH [OF rec] us Suc.prems(3) unfolding v by auto
  have top: "m' (qp + Suc k) = q"
    using only_inD [OF IH(3), of "qp + Suc k"] by (simp add: m1_def)
  have "mval m' qp (Suc (Suc k)) * unat d + unat r'
      = (mval m' qp (Suc k) * unat d + unat r') + LB ^ Suc k * (unat q * unat d)"
    unfolding mval_high [of m' qp "Suc k"] top by (simp add: algebra_simps del: mval.simps)
  also have "\<dots> = LB ^ Suc k * (unat q * unat d + unat r1) + (LB ^ k * unat (push_bit norm n0) + 2 ^ norm * mval m up k)"
    unfolding IH(1) by (simp add: distrib_left)
  also have "\<dots> = LB ^ Suc (Suc k) * unat r + (LB ^ Suc k * unat (push_bit norm n1)
      + (LB ^ k * (unat (push_bit norm n0) + LB * unat (drop_bit (32 - norm) n0)) + 2 ^ norm * mval m up k))"
    unfolding conjunct1 [OF us] w by (simp add: algebra_simps)
  also have "\<dots> = LB ^ Suc (Suc k) * unat r + (LB ^ Suc k * unat (push_bit norm n1) + 2 ^ norm * mval m up (Suc k))"
    unfolding limb_shift_split [OF assms(4), symmetric] mval_high n0_def by (simp add: algebra_simps)
  finally show ?case
    using IH(2) only_in_trans [of qp "Suc (Suc k)" m m1 m'] only_in_mono [OF IH(3), of qp "Suc (Suc k)"]
    by (simp add: m1_def del: mval.simps)
qed

lemma norm_spec:
  assumes "divrem_1_norm udiv qp qxn up un d r m = (r', m')" and "ok d" and "r < d"
    and "up \<le> qp + qxn \<or> qp + qxn + un \<le> up"
  shows "mval m' qp (qxn + un) * unat d + unat r' = LB ^ qxn * (LB ^ un * unat r + mval m up un)
    \<and> r' < d \<and> only_in qp (qxn + un) m m'"
proof -
  obtain r1 m1 where l: "divrem_1_loop udiv un (qp + qxn) up d r m = (r1, m1)" by fastforce
  have f: "divrem_1_frac udiv qxn qp d r1 m1 = (r', m')"
    using assms(1) l by (simp add: divrem_1_norm_def)
  note ls = loop_spec [OF l assms(2-4)]
  then have fs: "mval m' qp qxn * unat d + unat r' = LB ^ qxn * unat r1" "r' < d" "only_in qp qxn m1 m'"
    using frac_spec [OF f assms(2)] by blast+
  have hi: "mval m' (qp + qxn) un = mval m1 (qp + qxn) un"
    by (rule only_in_mval [OF fs(3)]) simp
  have "mval m' qp (qxn + un) * unat d + unat r'
      = (mval m' qp qxn * unat d + unat r') + LB ^ qxn * (mval m1 (qp + qxn) un * unat d)"
    unfolding mval_add hi by (simp add: algebra_simps)
  also have "\<dots> = LB ^ qxn * (mval m1 (qp + qxn) un * unat d + unat r1)"
    unfolding fs(1) by (simp add: distrib_left)
  also have "\<dots> = LB ^ qxn * (LB ^ un * unat r + mval m up un)"
    using ls by simp
  finally have "mval m' qp (qxn + un) * unat d + unat r' = LB ^ qxn * (LB ^ un * unat r + mval m up un)" .
  moreover have "only_in qp (qxn + un) m m'"
  proof (rule only_in_trans)
    show "only_in qp (qxn + un) m m1" by (rule only_in_mono [of "qp + qxn" un]) (use ls in simp_all)
    show "only_in qp (qxn + un) m1 m'" by (rule only_in_mono [OF fs(3)]) simp_all
  qed
  ultimately show ?thesis using fs(2) by blast
qed

lemma unnorm_spec:
  assumes "divrem_1_unnorm udiv qp qxn up un norm (push_bit norm d) (push_bit norm r) m = (r', m')"
    and ok: "ok (push_bit norm d)" and lt: "r < d" and norm: "norm \<le> 32" "2 ^ norm * unat d < LB"
    and ov: "up \<le> qp + qxn \<or> qp + qxn + un \<le> up"
  shows "mval m' qp (qxn + un) * unat d + unat r' = LB ^ qxn * (LB ^ un * unat r + mval m up un)
    \<and> r' < d \<and> only_in qp (qxn + un) m m'"
proof -
  define P :: nat where "P = 2 ^ norm"
  define ds where "ds = push_bit norm d"
  have sh: "unat (push_bit norm x) = P * unat x" if "unat x \<le> unat d" for x :: limb
  proof -
    have "P * unat x \<le> P * unat d" using that by (rule mult_le_mono2)
    then show ?thesis
      using norm unfolding P_def by (intro unat_push_small) linarith+
  qed
  have ltn: "unat r < unat d" using lt unfolding limb_less_iff .
  have uds: "unat ds = P * unat d" and ur: "unat (push_bit norm r) = P * unat r"
    using ltn by (simp_all add: ds_def sh)
  have step: "P * unat r + x < P * unat d" if "x < P" for x
  proof -
    have "P * (unat r + 1) \<le> P * unat d" using ltn by (intro mult_le_mono2) simp
    then show ?thesis using that by simp
  qed
  have "\<exists>r1 m1. (if un \<noteq> 0
         then (let n1 = m (up + (un - 1)); r = push_bit norm r OR drop_bit (32 - norm) n1
               in divrem_1_shift udiv (un - 1) (qp + qxn) up norm ds n1 r m)
         else (push_bit norm r, m)) = (r1, m1)
      \<and> mval m1 (qp + qxn) un * unat ds + unat r1 = P * (LB ^ un * unat r + mval m up un)
      \<and> r1 < ds \<and> only_in (qp + qxn) un m m1"
  proof (cases un)
    case 0
    then show ?thesis
      using ur step [of 0] by (simp add: limb_less_iff uds P_def)
  next
    case (Suc k)
    define n1 where "n1 = m (up + k)"
    define w where "w = push_bit norm r OR drop_bit (32 - norm) n1"
    have w: "unat w = P * unat r + unat (drop_bit (32 - norm) n1)"
      unfolding w_def ur [symmetric] by (rule unat_push_or) (rule drop_top_less [OF norm(1)])
    then have wlt: "w < ds"
      unfolding limb_less_iff uds using step drop_top_less [OF norm(1), of n1] by (simp add: P_def)
    obtain r1 m1 where s: "divrem_1_shift udiv k (qp + qxn) up norm ds n1 w m = (r1, m1)" by fastforce
    have ss: "mval m1 (qp + qxn) (Suc k) * unat ds + unat r1
        = LB ^ Suc k * unat w + (LB ^ k * unat (push_bit norm n1) + 2 ^ norm * mval m up k)"
      "r1 < ds" "only_in (qp + qxn) (Suc k) m m1"
      using shift_spec [OF s _ wlt norm(1)] ok ov Suc unfolding ds_def by auto
    have "mval m1 (qp + qxn) (Suc k) * unat ds + unat r1
        = P * (LB ^ Suc k * unat r) + (LB ^ k * (unat (push_bit norm n1) + LB * unat (drop_bit (32 - norm) n1)) + P * mval m up k)"
      unfolding ss(1) w P_def by (simp add: algebra_simps)
    also have "\<dots> = P * (LB ^ Suc k * unat r + mval m up (Suc k))"
      unfolding limb_shift_split [OF norm(1), symmetric] mval_high n1_def P_def by (simp add: algebra_simps)
    finally show ?thesis
      using s ss(2,3) Suc by (simp add: n1_def w_def del: mval.simps)
  qed
  then obtain r1 m1 where e: "(if un \<noteq> 0
         then (let n1 = m (up + (un - 1)); r = push_bit norm r OR drop_bit (32 - norm) n1
               in divrem_1_shift udiv (un - 1) (qp + qxn) up norm ds n1 r m)
         else (push_bit norm r, m)) = (r1, m1)"
    and ls: "mval m1 (qp + qxn) un * unat ds + unat r1 = P * (LB ^ un * unat r + mval m up un)"
      "r1 < ds" "only_in (qp + qxn) un m m1" by blast
  obtain r2 m2 where f: "divrem_1_frac udiv qxn qp ds r1 m1 = (r2, m2)" by fastforce
  have res: "r' = drop_bit norm r2" "m' = m2"
    using assms(1) e f unfolding divrem_1_unnorm_def ds_def by (simp_all del: push_bit_eq_mult)
  have fs: "mval m2 qp qxn * unat ds + unat r2 = LB ^ qxn * unat r1" "r2 < ds" "only_in qp qxn m1 m2"
    using frac_spec [OF f _ ls(2)] ok unfolding ds_def by blast+
  have hi: "mval m2 (qp + qxn) un = mval m1 (qp + qxn) un"
    by (rule only_in_mval [OF fs(3)]) simp
  have "mval m2 qp (qxn + un) * unat ds + unat r2
      = (mval m2 qp qxn * unat ds + unat r2) + LB ^ qxn * (mval m1 (qp + qxn) un * unat ds)"
    unfolding mval_add hi by (simp add: algebra_simps)
  also have "\<dots> = LB ^ qxn * (mval m1 (qp + qxn) un * unat ds + unat r1)"
    unfolding fs(1) by (simp add: distrib_left)
  also have "\<dots> = P * (LB ^ qxn * (LB ^ un * unat r + mval m up un))"
    unfolding ls(1) by (simp add: algebra_simps)
  finally have tot: "mval m2 qp (qxn + un) * (P * unat d) + unat r2 = P * (LB ^ qxn * (LB ^ un * unat r + mval m up un))"
    unfolding uds .
  have "unat r2 < P * unat d"
    using fs(2) unfolding limb_less_iff uds .
  note U = unshift [OF tot this]
  have ur': "unat r' = unat r2 div P"
    unfolding res P_def by (rule unat_drop_limb)
  have "only_in qp (qxn + un) m m'"
  proof (rule only_in_trans)
    show "only_in qp (qxn + un) m m1" by (rule only_in_mono [OF ls(3)]) simp_all
    show "only_in qp (qxn + un) m1 m'" unfolding res by (rule only_in_mono [OF fs(3)]) simp_all
  qed
  then show ?thesis
    using U unfolding limb_less_iff ur' res(2) by blast
qed

end

interpretation plain: udiv_step udiv_qrnnd "\<lambda>d. LB \<le> 2 * unat d"
proof unfold_locales
  fix d nh nl q r
  assume "LB \<le> 2 * unat d" "nh < d" "udiv_qrnnd nh nl d = (q, r)"
  from udiv_qrnnd_c_correct [OF this]
  show "unat q * unat d + unat r = LB * unat nh + unat nl \<and> r < d" by simp
qed

interpretation preinv: udiv_step "\<lambda>nh nl d. udiv_qrnnd_preinv nh nl d dinv"
  "\<lambda>d. LB \<le> 2 * unat d \<and> is_inverse dinv d" for dinv
proof unfold_locales
  fix d nh nl q r
  assume "LB \<le> 2 * unat d \<and> is_inverse dinv d" "nh < d" "udiv_qrnnd_preinv nh nl d dinv = (q, r)"
  from udiv_qrnnd_preinv_correct [OF _ this(2) _ this(3)] this(1)
  show "unat q * unat d + unat r = LB * unat nh + unat nl \<and> r < d" by simp
qed

subsection \<open>\<open>mpn_divrem_1\<close>\<close>

text \<open>The normalized divisor the unnormalized branch works with.\<close>

lemma normalize_limb:
  assumes "d \<noteq> 0"
  defines "norm \<equiv> unat (count_leading_zeros d)"
  shows "norm \<le> 32" and "2 ^ norm * unat d < LB" and "LB \<le> 2 * unat (push_bit norm d)"
    and "unat (push_bit norm d) = 2 ^ norm * unat d"
proof -
  note clz = count_leading_zeros_correct [OF assms(1), folded norm_def]
  show n: "norm \<le> 32" using clz(1) by simp
  show l: "2 ^ norm * unat d < LB" by (rule clz(3))
  show u: "unat (push_bit norm d) = 2 ^ norm * unat d"
    by (rule unat_push_small [OF n l])
  show "LB \<le> 2 * unat (push_bit norm d)"
    unfolding u by (rule clz(2))
qed

text \<open>A quotient limb on top of a partial division: \<open>a\<close> is the top dividend limb, \<open>q\<close> its quotient limb
  and \<open>r1\<close> what it leaves.\<close>

lemma divrem_top:
  assumes "mval m' qp (qxn + u) * D + r' = LB ^ qxn * (LB ^ u * r1 + mval m up u)"
    and "only_in qp (qxn + u) (m(qp + (qxn + u) := q)) m'"
    and "r1 + unat q * D = unat (m (up + u))"
  shows "mval m' qp (qxn + Suc u) * D + r' = LB ^ qxn * mval m up (Suc u)"
    and "only_in qp (qxn + Suc u) m m'"
proof -
  have top: "m' (qp + (qxn + u)) = q"
    using only_inD [OF assms(2), of "qp + (qxn + u)"] by simp
  have "mval m' qp (qxn + Suc u) * D + r'
      = (mval m' qp (qxn + u) * D + r') + LB ^ qxn * LB ^ u * (unat q * D)"
    unfolding add_Suc_right mval_high top by (simp add: power_add algebra_simps)
  also have "\<dots> = LB ^ qxn * (LB ^ u * (r1 + unat q * D) + mval m up u)"
    unfolding assms(1) by (simp add: algebra_simps)
  finally show "mval m' qp (qxn + Suc u) * D + r' = LB ^ qxn * mval m up (Suc u)"
    unfolding assms(3) mval_high by (simp add: algebra_simps)
  show "only_in qp (qxn + Suc u) m m'"
  proof (rule only_in_trans)
    show "only_in qp (qxn + Suc u) m (m(qp + (qxn + u) := q))" by simp
    show "only_in qp (qxn + Suc u) (m(qp + (qxn + u) := q)) m'"
      by (rule only_in_mono [OF assms(2)]) simp_all
  qed
qed

lemma mask_of_bool: "d AND - of_bool b = (if b then d else 0 :: limb)"
  by simp

lemma norm_rest_spec:
  assumes "divrem_1_norm_rest qp qxn up un n d r m = (r', m')" and "LB \<le> 2 * unat d" and "r < d"
    and "up \<le> qp + qxn \<or> qp + qxn + un \<le> up"
  shows "mval m' qp (qxn + un) * unat d + unat r' = LB ^ qxn * (LB ^ un * unat r + mval m up un)
    \<and> r' < d \<and> only_in qp (qxn + un) m m'"
  using assms plain.norm_spec [of qp qxn up un d r m r' m'] invert_limb_correct [of d]
    preinv.norm_spec [of "invert_limb d" qp qxn up un d r m r' m']
  by (auto simp: divrem_1_norm_rest_def Let_def split: if_splits)

lemma unnorm_rest_spec:
  assumes "divrem_1_unnorm_rest qp qxn up un n d r m = (r', m')" and "d \<noteq> 0" "r < d"
    and "up \<le> qp + qxn \<or> qp + qxn + un \<le> up"
  shows "mval m' qp (qxn + un) * unat d + unat r' = LB ^ qxn * (LB ^ un * unat r + mval m up un)
    \<and> r' < d \<and> only_in qp (qxn + un) m m'"
proof -
  define norm where "norm = unat (count_leading_zeros d)"
  note n = normalize_limb [OF assms(2), folded norm_def]
  note pl = plain.unnorm_spec [OF _ n(3) assms(3) n(1,2) assms(4), where r' = r' and m' = m' and m = m]
  have "LB \<le> 2 * unat (push_bit norm d) \<and> is_inverse (invert_limb (push_bit norm d)) (push_bit norm d)"
    using n(3) invert_limb_correct [OF n(3)] by blast
  note pr = preinv.unnorm_spec [OF _ this assms(3) n(1,2) assms(4), where r' = r' and m' = m' and m = m]
  show ?thesis
    using assms(1) pl pr unfolding divrem_1_unnorm_rest_def Let_def norm_def [symmetric]
    by (simp split: if_splits)
qed

lemma mpn_divrem_1_spec:
  assumes eq: "mpn_divrem_1 qp qxn up un d m = (r, m')" and d: "d \<noteq> 0"
    and ov: "MPN_SAME_OR_DECR_P (qp + qxn) up un"
  shows "mval m' qp (qxn + un) * unat d + unat r = LB ^ qxn * mval m up un" and "r < d"
    and "only_in qp (qxn + un) m m'"
proof -
  have sep: "up \<le> qp + qxn \<or> qp + qxn + un \<le> up"
    using ov by (auto simp: overlap_defs)
  have d0: "0 < d" using d by (simp add: word_neq_0_conv)
  let ?goal = "mval m' qp (qxn + un) * unat d + unat r = LB ^ qxn * mval m up un \<and> r < d \<and> only_in qp (qxn + un) m m'"
  have ?goal
  proof (cases "un = 0 \<and> qxn = 0")
    case True
    then show ?thesis using eq d0 by (simp add: mpn_divrem_1_def)
  next
    case nz: False
    show ?thesis
    proof (cases "LB \<le> 2 * unat d")
      case norm: True
      then have hb: "d AND GMP_LIMB_HIGHBIT \<noteq> 0" by (simp only: highbit_iff)
      show ?thesis
      proof (cases un)
        case 0
        then have "divrem_1_norm_rest qp qxn up 0 qxn d 0 m = (r, m')"
          using eq hb nz by (simp add: mpn_divrem_1_def Let_def)
        from norm_rest_spec [OF this norm d0] 0 sep show ?thesis by simp
      next
        case (Suc u)
        define a where "a = m (up + u)"
        define q :: limb where "q = of_bool (a \<ge> d)"
        define m1 where "m1 = m(qp + (qxn + u) := q)"
        define r1 where "r1 = a - (d AND - q)"
        have "divrem_1_norm_rest qp qxn up u (u + qxn) d r1 m1 = (r, m')"
          using eq hb Suc by (simp add: mpn_divrem_1_def Let_def a_def q_def m1_def r1_def add.commute)
        note rec = this
        have r1: "unat r1 + unat q * unat d = unat a \<and> r1 < d"
          using norm unat_lt_LB [of a] unat_minus_limb [of d a]
          unfolding r1_def q_def limb_less_iff limb_le_iff by simp linarith
        from norm_rest_spec [OF rec norm] r1 sep Suc
        have "mval m' qp (qxn + u) * unat d + unat r = LB ^ qxn * (LB ^ u * unat r1 + mval m1 up u)"
          "r < d" "only_in qp (qxn + u) m1 m'" by auto
        moreover have "mval m1 up u = mval m up u"
          unfolding m1_def using sep Suc by (intro mval_upd_out) auto
        ultimately show ?thesis
          using divrem_top [of m' qp qxn u "unat d" "unat r" "unat r1" m up q] r1 Suc
          unfolding m1_def a_def by simp
      qed
    next
      case False
      then have hb: "d AND GMP_LIMB_HIGHBIT = 0" by (metis highbit_iff)
      show ?thesis
      proof (cases un)
        case 0
        then have "divrem_1_unnorm_rest qp qxn up 0 qxn d 0 m = (r, m')"
          using eq hb nz by (simp add: mpn_divrem_1_def Let_def)
        from unnorm_rest_spec [OF this d d0] 0 sep show ?thesis by simp
      next
        case (Suc u)
        define a where "a = m (up + u)"
        show ?thesis
        proof (cases "a < d")
          case True
          define m1 where "m1 = m(qp + (qxn + u) := 0)"
          have v: "mval m1 up u = mval m up u"
            unfolding m1_def using sep Suc by (intro mval_upd_out) auto
          have "mval m' qp (qxn + u) * unat d + unat r = LB ^ qxn * (LB ^ u * unat a + mval m1 up u)
            \<and> r < d \<and> only_in qp (qxn + u) m1 m'"
          proof (cases "u + qxn = 0")
            case z: True
            then have "r = a" "m' = m1"
              using eq hb Suc True by (simp_all add: mpn_divrem_1_def Let_def a_def m1_def)
            then show ?thesis using z True by simp
          next
            case False
            then have "divrem_1_unnorm_rest qp qxn up u (u + qxn) d a m1 = (r, m')"
              using eq hb Suc True False by (auto simp: mpn_divrem_1_def Let_def a_def m1_def add.commute split: if_splits)
            from unnorm_rest_spec [OF this d True] sep Suc show ?thesis by auto
          qed
          then show ?thesis
            using divrem_top [of m' qp qxn u "unat d" "unat r" "unat a" m up 0] Suc v
            unfolding m1_def a_def by simp
        next
          case False
          then have "divrem_1_unnorm_rest qp qxn up un (un + qxn) d 0 m = (r, m')"
            using eq hb Suc by (simp add: mpn_divrem_1_def Let_def a_def)
          from unnorm_rest_spec [OF this d d0 sep] show ?thesis by simp
        qed
      qed
    qed
  qed
  then show "mval m' qp (qxn + un) * unat d + unat r = LB ^ qxn * mval m up un" "r < d"
    "only_in qp (qxn + un) m m'" by blast+
qed

subsection \<open>\<open>mpn_mod_1\<close>\<close>

text \<open>The remainder loops are the division loops without the quotient.\<close>

lemma mod_1_loop_eq:
  assumes "\<And>i. i < k \<Longrightarrow> m' (up + i) = m (up + i)" and "up \<le> qp"
  shows "mod_1_loop udiv m' k up d r = fst (divrem_1_loop udiv k qp up d r m)"
  using assms(1)
proof (induction k arbitrary: r m)
  case 0
  then show ?case by simp
next
  case (Suc k)
  have "mod_1_loop udiv m' k up d r1 = fst (divrem_1_loop udiv k qp up d r1 (m(qp + k := q)))" for q r1
    by (rule Suc.IH) (use Suc.prems assms(2) in auto)
  with Suc.prems [of k] show ?case by (simp split: prod.splits)
qed

lemma mod_1_shift_eq:
  assumes "\<And>i. i < k \<Longrightarrow> m' (up + i) = m (up + i)" and "up \<le> qp"
  shows "mod_1_shift udiv m' k up norm d n1 r = drop_bit norm (fst (divrem_1_shift udiv k qp up norm d n1 r m))"
  using assms(1)
proof (induction k arbitrary: n1 r m)
  case 0
  then show ?case by (simp split: prod.splits)
next
  case (Suc k)
  have "mod_1_shift udiv m' k up norm d n0 r1 = drop_bit norm (fst (divrem_1_shift udiv k qp up norm d n0 r1 (m(qp + Suc k := q))))" for n0 q r1
    by (rule Suc.IH) (use Suc.prems assms(2) in auto)
  with Suc.prems [of k] show ?case by (simp add: Let_def split: prod.splits)
qed

lemma mod_eqI: "q * d + r = n \<Longrightarrow> r < d \<Longrightarrow> r = n mod (d :: nat)"
  by (metis mod_less mod_mult_self3)

lemma mod_1_norm_rest_spec:
  assumes "LB \<le> 2 * unat d" and "r < d"
  shows "unat (mod_1_norm_rest m up un d r) = (LB ^ un * unat r + mval m up un) mod unat d"
proof -
  define dinv where "dinv = invert_limb d"
  obtain r1 m1 r2 m2 where l: "divrem_1_loop udiv_qrnnd un up up d r m = (r1, m1)"
    "divrem_1_loop (\<lambda>nh nl d. udiv_qrnnd_preinv nh nl d dinv) un up up d r m = (r2, m2)"
    by fastforce
  have "mval m1 up un * unat d + unat r1 = LB ^ un * unat r + mval m up un \<and> r1 < d"
    using plain.loop_spec [OF l(1) assms(1,2)] by simp
  moreover have "mval m2 up un * unat d + unat r2 = LB ^ un * unat r + mval m up un \<and> r2 < d"
    using preinv.loop_spec [OF l(2) _ assms(2)] invert_limb_correct [OF assms(1)] assms(1) by (simp add: dinv_def)
  moreover have "mod_1_norm_rest m up un d r = (if BELOW_THRESHOLD un MOD_1_NORM_THRESHOLD then r1 else r2)"
    unfolding mod_1_norm_rest_def Let_def dinv_def [symmetric] by (simp add: mod_1_loop_eq [of un m up m up] l)
  ultimately show ?thesis
    unfolding limb_less_iff by (auto intro: mod_eqI)
qed

lemma mod_1_unnorm_rest_spec:
  assumes "d \<noteq> 0" and "r < d"
  shows "unat (mod_1_unnorm_rest m up (Suc k) d r) = (LB ^ Suc k * unat r + mval m up (Suc k)) mod unat d"
proof -
  define norm where "norm = unat (count_leading_zeros d)"
  define dinv where "dinv = invert_limb (push_bit norm d)"
  note nl = normalize_limb [OF assms(1), folded norm_def]
  obtain a m1 c m2 where l: "divrem_1_unnorm udiv_qrnnd up 0 up (Suc k) norm (push_bit norm d) (push_bit norm r) m = (a, m1)"
    "divrem_1_unnorm (\<lambda>nh nl d. udiv_qrnnd_preinv nh nl d dinv) up 0 up (Suc k) norm (push_bit norm d) (push_bit norm r) m = (c, m2)"
    by fastforce
  have "mval m1 up (Suc k) * unat d + unat a = LB ^ Suc k * unat r + mval m up (Suc k) \<and> a < d"
    using plain.unnorm_spec [OF l(1) nl(3) assms(2) nl(1,2)] by simp
  moreover have "mval m2 up (Suc k) * unat d + unat c = LB ^ Suc k * unat r + mval m up (Suc k) \<and> c < d"
    using preinv.unnorm_spec [OF l(2) _ assms(2) nl(1,2)] nl(3) invert_limb_correct [OF nl(3)]
    by (simp add: dinv_def)
  moreover have "mod_1_unnorm_rest m up (Suc k) d r = (if BELOW_THRESHOLD (Suc k) MOD_1_UNNORM_THRESHOLD then a else c)"
    using l unfolding mod_1_unnorm_rest_def Let_def norm_def [symmetric] dinv_def [symmetric]
    by (auto simp: divrem_1_unnorm_def Let_def mod_1_shift_eq [of k m up m up] split: prod.splits)
  ultimately show ?thesis
    unfolding limb_less_iff by (auto intro: mod_eqI)
qed

lemma mpn_mod_1_spec:
  assumes "d \<noteq> 0"
  shows "unat (mpn_mod_1 m up un d) = mval m up un mod unat d"
proof (cases un)
  case 0
  then show ?thesis by (simp add: mpn_mod_1_def)
next
  case (Suc u)
  define a where "a = m (up + u)"
  have d0: "0 < d" using assms by (simp add: word_neq_0_conv)
  show ?thesis
  proof (cases "LB \<le> 2 * unat d")
    case True
    then have hb: "d AND GMP_LIMB_HIGHBIT \<noteq> 0" by (simp only: highbit_iff)
    define r1 where "r1 = (if a \<ge> d then a - d else a)"
    have r1: "unat r1 < unat d" "unat r1 mod unat d = unat a mod unat d"
      using True unat_lt_LB [of a] unat_minus_limb [of d a]
      by (auto simp: r1_def limb_le_iff le_mod_geq)
    have "mpn_mod_1 m up un d = (if u = 0 then r1 else mod_1_norm_rest m up u d r1)"
      using hb Suc by (simp add: mpn_mod_1_def Let_def r1_def a_def)
    then have "unat (mpn_mod_1 m up un d) = (LB ^ u * unat r1 + mval m up u) mod unat d"
      using mod_1_norm_rest_spec [OF True, of r1 m up u] r1 unfolding limb_less_iff by auto
    also have "\<dots> = (LB ^ u * unat a + mval m up u) mod unat d"
      using r1(2) by (metis mod_add_left_eq mod_mult_right_eq)
    finally show ?thesis
      unfolding Suc mval_high a_def by (simp add: add.commute)
  next
    case False
    then have hb: "d AND GMP_LIMB_HIGHBIT = 0" by (metis highbit_iff)
    have eq: "mpn_mod_1 m up un d = (if a < d then if u = 0 then a else mod_1_unnorm_rest m up u d a
        else mod_1_unnorm_rest m up (Suc u) d 0)"
      using hb Suc by (simp add: mpn_mod_1_def Let_def a_def)
    show ?thesis
    proof (cases "a < d")
      case True
      have "unat (mpn_mod_1 m up un d) = (LB ^ u * unat a + mval m up u) mod unat d"
        using eq True mod_1_unnorm_rest_spec [OF assms True, of m up "u - 1"]
        by (cases u) (simp_all add: limb_less_iff del: mval.simps(2))
      then show ?thesis
        unfolding Suc mval_high a_def by (simp add: add.commute)
    next
      case False
      then show ?thesis
        using eq Suc mod_1_unnorm_rest_spec [OF assms d0, of m up u] by (simp del: mval.simps)
    qed
  qed
qed

end
