(* ===== verification/Mpn_Div.thy ===== *)
theory Mpn_Div
  imports Mpn_Div1
begin

text \<open>
  Division of a region by a region, schoolbook: \<open>mpn/generic/sb_divrem_mn.c\<close>.  A quotient limb is
  estimated from the top limbs, the product subtracted, and the estimate corrected by adding the
  divisor back at most once; the lemmas of the first part bound the error of the estimates.
\<close>

section \<open>Schoolbook division (\<open>sb_divrem_mn.c\<close>)\<close>

definition DIV_SB_PREINV_THRESHOLD :: nat where
  "DIV_SB_PREINV_THRESHOLD = MP_SIZE_T_MAX"

text \<open>The quotient limb from the two top limbs of the remainder and the top limb of the divisor, corrected
  once with the next limb of each: \<open>sb_estimate\<close> is the code from the division step to the point
  where the two top limbs \<open>r1\<close>, \<open>r0\<close> of the new remainder and the sign limb \<open>rx\<close> are known.\<close>

definition sb_estimate :: "udiv \<Rightarrow> limb \<Rightarrow> limb \<Rightarrow> limb \<Rightarrow> limb \<Rightarrow> limb \<Rightarrow> limb \<times> limb \<times> limb \<times> limb" where
  "sb_estimate udiv nx n1 r0 dx d1 =
     (let (q, r1) = udiv nx n1 dx;
          (p1, p0) = umul_ppmm d1 q;
          rx = 0;
          (q, r1, rx, p1, p0) =
            (if r1 < p1 \<or> (r1 = p1 \<and> r0 < p0)
             then (let p1 = p1 - of_bool (p0 < d1);
                       p0 = p0 - d1;
                       q = q - 1;
                       r1 = r1 + dx;
                       rx = of_bool (r1 < dx)
                   in (q, r1, rx, p1, p0))
             else (q, r1, rx, p1, p0));
          p1 = p1 + of_bool (r0 < p0);
          rx = rx - of_bool (r1 < p1);
          r1 = r1 - p1;
          r0 = r0 - p0
      in (q, rx, r1, r0))"

text \<open>One step of the loop, \<open>np\<close> being the pointer after the decrement: the quotient limb and the memory
  with the new remainder in \<open>{np,dn}\<close>.\<close>

definition sb_divrem_step :: "udiv \<Rightarrow> ptr \<Rightarrow> ptr \<Rightarrow> nat \<Rightarrow> limb \<Rightarrow> limb \<Rightarrow> mem \<Rightarrow> limb \<times> mem" where
  "sb_divrem_step udiv np dp dn dx d1 m =
     (let nx = m (np + dn)
      in if nx = dx
         then (let q = NOT 0;
                   (cy_limb, m) = mpn_submul_1 np dp dn q m
               in if nx \<noteq> cy_limb
                  then (let (cy, m) = mpn_add_n np np dp dn m in (q - 1, m))
                  else (q, m))
         else (let (q, rx, r1, r0) = sb_estimate udiv nx (m (np + dn - 1)) (m (np + dn - 2)) dx d1;
                   (cy_limb, m) = mpn_submul_1 np dp (dn - 2) q m;
                   cy1 = of_bool (r0 < cy_limb);
                   r0 = r0 - cy_limb;
                   cy2 = of_bool (r1 < cy1);
                   r1 = r1 - cy1;
                   m = m(np + dn - 1 := r1);
                   m = m(np + dn - 2 := r0)
               in if cy2 \<noteq> rx
                  then (let (cy, m) = mpn_add_n np np dp dn m in (q - 1, m))
                  else (q, m)))"

fun sb_divrem_loop :: "udiv \<Rightarrow> nat \<Rightarrow> ptr \<Rightarrow> ptr \<Rightarrow> ptr \<Rightarrow> nat \<Rightarrow> limb \<Rightarrow> limb \<Rightarrow> mem \<Rightarrow> mem" where
  "sb_divrem_loop udiv 0 qp np dp dn dx d1 m = m"
| "sb_divrem_loop udiv (Suc i) qp np dp dn dx d1 m =
     (let (q, m) = sb_divrem_step udiv (np + i) dp dn dx d1 m
      in sb_divrem_loop udiv i qp np dp dn dx d1 (m(qp + i := q)))"

definition mpn_sb_divrem_mn :: "ptr \<Rightarrow> ptr \<Rightarrow> nat \<Rightarrow> ptr \<Rightarrow> nat \<Rightarrow> mem \<Rightarrow> limb \<times> mem" where
  "mpn_sb_divrem_mn qp np nn dp dn m =
     (let qn = nn - dn;
          nh = np + qn;
          dx = m (dp + dn - 1);
          d1 = m (dp + dn - 2);
          n0 = m (nh + dn - 1);
          (most_significant_q_limb, m) =
            (if n0 \<ge> dx
             then (if n0 > dx \<or> mpn_cmp m nh dp (dn - 1) \<ge> 0
                   then (let (cy, m) = mpn_sub_n nh nh dp dn m in (1, m))
                   else (0, m))
             else (0, m));
          use_preinv = ABOVE_THRESHOLD qn DIV_SB_PREINV_THRESHOLD;
          m = (if use_preinv
               then (let dxinv = invert_limb dx
                     in sb_divrem_loop (\<lambda>nh nl d. udiv_qrnnd_preinv nh nl d dxinv) qn qp np dp dn dx d1 m)
               else sb_divrem_loop udiv_qrnnd qn qp np dp dn dx d1 m)
      in (most_significant_q_limb, m))"

subsection \<open>The quotient estimates, on numbers\<close>

text \<open>A quotient limb estimated from the top limbs is never too small and at most \<open>k\<close> too large;
  \<open>B\<close> is the weight of the limbs left out, \<open>t\<close> the top of the dividend and \<open>d\<close> the top of the divisor.\<close>

lemma estimate_low:
  fixes q q0 t d B W D :: nat
  assumes "q0 * D \<le> W" and "W < (t + 1) * B" and "d * B \<le> D" and "t < q * d"
  shows "q0 < q"
proof (rule ccontr)
  assume "\<not> q0 < q"
  then have "q * d \<le> q0 * d" by (intro mult_le_mono1) simp
  then have "t + 1 \<le> q0 * d" using assms(4) by linarith
  then have "(t + 1) * B \<le> q0 * d * B" by (rule mult_le_mono1)
  moreover have "q0 * d * B \<le> q0 * D"
    using mult_le_mono2 [OF assms(3), of q0] by (simp add: mult.assoc)
  ultimately show False using assms(1,2) by linarith
qed

lemma estimate_high:
  fixes q t d B W D k :: nat
  assumes "q * d \<le> t" and "t * B \<le> W" and "D \<le> (d + 1) * B" and "q \<le> k * d + k"
  shows "(q - k) * D \<le> W"
proof -
  have "(q - k) * (d + 1) \<le> q * d"
  proof (cases "k \<le> q")
    case True
    then obtain j where "q = k + j" using le_Suc_ex by blast
    then show ?thesis using assms(4) by (simp add: algebra_simps)
  qed simp
  then have "(q - k) * (d + 1) \<le> t"
    using assms(1) by linarith
  then have "(q - k) * (d + 1) * B \<le> t * B"
    by (rule mult_le_mono1)
  then have "(q - k) * ((d + 1) * B) \<le> t * B"
    by (simp only: mult.assoc)
  moreover have "(q - k) * D \<le> (q - k) * ((d + 1) * B)"
    using assms(3) by (rule mult_le_mono2)
  ultimately show ?thesis using assms(2) by linarith
qed

text \<open>Three words of a signed difference: subtracting \<open>p1,p0\<close> from \<open>r1,r0\<close> gives \<open>r1 - p1', r0 - p0\<close>
  and a borrow.\<close>

lemma sub_pair:
  fixes r1 r0 p1 p0 :: limb
  assumes "unat p1 + of_bool (r0 < p0) < LB"
  defines "p \<equiv> p1 + of_bool (r0 < p0)"
  shows "int (LB * unat r1 + unat r0) - int (LB * unat p1 + unat p0)
    = int (LB * unat (r1 - p) + unat (r0 - p0)) - int (LB * LB) * of_bool (r1 < p)"
proof -
  have p: "unat p = unat p1 + of_bool (r0 < p0)"
    using assms(1) by (simp add: p_def unat_plus_limb)
  have lo: "unat (r0 - p0) + unat p0 = unat r0 + LB * of_bool (r0 < p0)" by (rule sub_borrow)
  have "unat (r1 - p) + unat p = unat r1 + LB * of_bool (r1 < p)" by (rule sub_borrow)
  then have "LB * unat (r1 - p) + LB * (unat p1 + of_bool (r0 < p0)) = LB * unat r1 + LB * LB * of_bool (r1 < p)"
    unfolding p by (simp only: distrib_left [symmetric] mult.assoc)
  then have "LB * unat r1 + unat r0 + LB * LB * of_bool (r1 < p) = LB * unat (r1 - p) + unat (r0 - p0) + (LB * unat p1 + unat p0)"
    using lo unfolding distrib_left by linarith
  then have "int (LB * unat r1 + unat r0 + LB * LB * of_bool (r1 < p)) = int (LB * unat (r1 - p) + unat (r0 - p0) + (LB * unat p1 + unat p0))"
    by (rule arg_cong)
  then show ?thesis by (cases "r1 < p") simp_all
qed


lemma sub_limb_pair:
  fixes r1 r0 c :: limb
  shows "int (LB * unat r1 + unat r0) - int (unat c)
    = int (LB * unat (r1 - of_bool (r0 < c)) + unat (r0 - c)) - int (LB * LB) * of_bool (r1 < of_bool (r0 < c))"
  using sub_pair [of 0 r0 c r1] by simp

lemma pair_less_iff:
  fixes r1 p1 r0 p0 :: limb
  shows "r1 < p1 \<or> (r1 = p1 \<and> r0 < p0) \<longleftrightarrow> LB * unat r1 + unat r0 < LB * unat p1 + unat p0"
proof -
  have *: "LB * a + x < LB * b + y" if "a < b" "x < LB" for a b x y :: nat
  proof -
    have "LB * (a + 1) \<le> LB * b" using that(1) by (intro mult_le_mono2) simp
    then show ?thesis using that(2) by simp
  qed
  consider "unat r1 < unat p1" | "unat r1 = unat p1" | "unat p1 < unat r1" by linarith
  then show ?thesis
  proof cases
    case 1
    then have "r1 < p1" unfolding limb_less_iff .
    then show ?thesis using * [OF 1 unat_lt_LB [of r0]] by simp
  next
    case 2
    then show ?thesis by (simp add: limb_less_iff limb_eq_iff)
  next
    case 3
    then have "\<not> r1 < p1" "r1 \<noteq> p1" unfolding limb_less_iff by auto
    then show ?thesis using * [OF 3 unat_lt_LB [of p0], of "unat r0"] by simp
  qed
qed

lemma no_borrow: "int A = int X - int Y * of_bool c \<Longrightarrow> X < Y \<Longrightarrow> \<not> c"
  by (cases c) auto

lemma product_high_limb:
  assumes "LB * unat (p1 :: limb) + x = a * b" and "a < LB" and "b < LB"
  shows "unat p1 + of_bool c < LB"
proof -
  define L where "L = LB - 1"
  have L: "LB = L + 1" by (simp add: L_def)
  have "a * b \<le> L * L" using assms(2,3) L by (intro mult_le_mono) auto
  also have "\<dots> < LB * L" by (simp add: L_def LB_def)
  finally have "LB * unat p1 < LB * L" using assms(1) by linarith
  then have "unat p1 < L" by (simp only: mult_less_cancel1)
  then show ?thesis using L by simp
qed

text \<open>What \<open>sb_estimate\<close> computes: the three words \<open>rx, r1, r0\<close> are the signed difference of the top
  three limbs of the dividend and \<open>q\<close> times the top two of the divisor, and \<open>q\<close> is the quotient
  \<open>qh\<close> of the leading limbs, reduced by one just when \<open>qh\<close> was too large for the limbs looked at.\<close>

context udiv_step
begin

lemma sb_estimate_spec:
  assumes eq: "sb_estimate udiv nx n1 n0 dx d1 = (q, rx, r1, r0)" and ok: "ok dx" and lt: "nx < dx"
  shows "\<exists>c b qh. rx = of_bool c - of_bool b
    \<and> int (LB * (LB * unat nx + unat n1) + unat n0) - int (unat q * (LB * unat dx + unat d1))
        = int (LB * unat r1 + unat r0) + int (LB * LB) * (of_bool c - of_bool b)
    \<and> qh * unat dx \<le> LB * unat nx + unat n1 \<and> LB * unat nx + unat n1 < (qh + 1) * unat dx \<and> qh < LB
    \<and> ((unat q = qh \<and> qh * (LB * unat dx + unat d1) \<le> LB * (LB * unat nx + unat n1) + unat n0)
      \<or> (qh = unat q + 1 \<and> LB * (LB * unat nx + unat n1) + unat n0 < qh * (LB * unat dx + unat d1)))"
proof -
  obtain q0 s1 where u: "udiv nx n1 dx = (q0, s1)" by fastforce
  have us: "unat q0 * unat dx + unat s1 = LB * unat nx + unat n1" "unat s1 < unat dx"
    using udiv_spec [OF ok lt u] by (simp_all add: limb_less_iff)
  obtain p1 p0 where m: "umul_ppmm d1 q0 = (p1, p0)" by fastforce
  have ms: "LB * unat p1 + unat p0 = unat q0 * unat d1"
    using umul_ppmm_correct [of d1 q0] m by (simp add: mult.commute)
  have T: "LB * (LB * unat nx + unat n1) + unat n0 = unat q0 * (LB * unat dx) + (LB * unat s1 + unat n0)"
    unfolding us(1) [symmetric] by (simp add: algebra_simps)
  have qh: "unat q0 * unat dx \<le> LB * unat nx + unat n1" "LB * unat nx + unat n1 < (unat q0 + 1) * unat dx" "unat q0 < LB"
    using us unat_lt_LB [of q0] by (simp_all flip: us(1))
  have test: "s1 < p1 \<or> (s1 = p1 \<and> n0 < p0) \<longleftrightarrow> LB * unat s1 + unat n0 < unat q0 * unat d1"
    unfolding pair_less_iff ms ..
  show ?thesis
  proof (cases "LB * unat s1 + unat n0 < unat q0 * unat d1")
    case False
    with test eq u m have r: "q = q0" "rx = of_bool False - of_bool (s1 < p1 + of_bool (n0 < p0))"
      "r1 = s1 - (p1 + of_bool (n0 < p0))" "r0 = n0 - p0"
      by (auto simp: sb_estimate_def Let_def)
    have fit: "unat p1 + of_bool (n0 < p0) < LB"
      by (rule product_high_limb [OF ms unat_lt_LB unat_lt_LB])
    have "int (LB * unat s1 + unat n0) - int (unat q0 * unat d1)
        = int (LB * unat r1 + unat r0) + int (LB * LB) * (of_bool False - of_bool (s1 < p1 + of_bool (n0 < p0)))"
      using sub_pair [OF fit, of s1] unfolding ms r(3,4) by simp
    moreover have "unat q = unat q0 \<and> unat q0 * (LB * unat dx + unat d1) \<le> LB * (LB * unat nx + unat n1) + unat n0"
      unfolding T r(1) using False by (simp add: distrib_left)
    moreover have "int (LB * (LB * unat nx + unat n1) + unat n0) - int (unat q * (LB * unat dx + unat d1))
        = int (LB * unat s1 + unat n0) - int (unat q0 * unat d1)"
      unfolding T r(1) by (simp add: algebra_simps)
    ultimately show ?thesis using r(2) qh by metis
  next
    case True
    define p1' where "p1' = p1 - of_bool (p0 < d1)"
    define p0' where "p0' = p0 - d1"
    define s1' where "s1' = s1 + dx"
    define c where "c \<longleftrightarrow> s1' < dx"
    from True test eq u m have r: "q = q0 - 1" "rx = of_bool c - of_bool (s1' < p1' + of_bool (n0 < p0'))"
      "r1 = s1' - (p1' + of_bool (n0 < p0'))" "r0 = n0 - p0'"
      by (auto simp: sb_estimate_def Let_def p1'_def p0'_def s1'_def c_def)
    have "unat q0 \<noteq> 0" using True by (intro notI) simp
    then have q1: "unat q0 = unat q + 1"
      unfolding r(1) using unat_minus_limb [of 1 q0] by (simp add: limb_le_iff)
    have ms': "LB * unat p1' + unat p0' = unat q * unat d1"
    proof -
      have e: "int (unat q0 * unat d1) - int (unat d1) = int (LB * unat p1' + unat p0') - int (LB * LB) * of_bool (p1 < of_bool (p0 < d1))"
        using sub_limb_pair [of p1 p0 d1] unfolding ms p1'_def p0'_def .
      have lhs: "int (unat q0 * unat d1) - int (unat d1) = int (unat q * unat d1)"
        unfolding q1 by (simp add: algebra_simps)
      have "LB * unat p1' + unat p0' < LB * LB"
        using dval_less [of "(p1', p0')"] by (simp only: dval_pair)
      then have "\<not> p1 < of_bool (p0 < d1)"
        by (rule no_borrow [OF e [unfolded lhs]])
      then show ?thesis using e unfolding lhs by (simp del: of_nat_mult of_nat_add)
    qed
    have fit: "unat p1' + of_bool (n0 < p0') < LB"
      by (rule product_high_limb [OF ms' unat_lt_LB unat_lt_LB])
    have s1': "unat s1' + LB * of_bool c = unat s1 + unat dx"
      unfolding s1'_def c_def by (rule add_carry')
    have sp: "int (LB * unat s1' + unat n0) - int (unat q * unat d1)
        = int (LB * unat r1 + unat r0) - int (LB * LB) * of_bool (s1' < p1' + of_bool (n0 < p0'))"
      using sub_pair [OF fit, of s1'] unfolding ms' r(3,4) .
    have "int (LB * (LB * unat nx + unat n1) + unat n0) - int (unat q * (LB * unat dx + unat d1))
        = int (LB * (unat s1 + unat dx) + unat n0) - int (unat q * unat d1)"
      unfolding T q1 by (simp add: algebra_simps)
    also have "\<dots> = (int (LB * unat s1' + unat n0) - int (unat q * unat d1)) + int (LB * LB) * of_bool c"
      unfolding s1' [symmetric] by (simp add: algebra_simps)
    also have "\<dots> = int (LB * unat r1 + unat r0) + int (LB * LB) * (of_bool c - of_bool (s1' < p1' + of_bool (n0 < p0')))"
      unfolding sp by (simp add: algebra_simps)
    finally have "int (LB * (LB * unat nx + unat n1) + unat n0) - int (unat q * (LB * unat dx + unat d1))
        = int (LB * unat r1 + unat r0) + int (LB * LB) * (of_bool c - of_bool (s1' < p1' + of_bool (n0 < p0')))" .
    moreover have "LB * (LB * unat nx + unat n1) + unat n0 < unat q0 * (LB * unat dx + unat d1)"
      unfolding T using True by (simp add: distrib_left)
    ultimately show ?thesis using r(2) qh q1 by metis
  qed
qed

end

lemma quotient_digit_bounds:
  fixes q qh dx D2 t T W D k :: nat
  assumes W: "T * LB ^ k \<le> W" "W < (T + 1) * LB ^ k" "t * LB ^ Suc k \<le> W" "W < (t + 1) * LB ^ Suc k"
    and D: "D2 * LB ^ k \<le> D" "D < (D2 + 1) * LB ^ k" "dx * LB ^ Suc k \<le> D" "D < (dx + 1) * LB ^ Suc k"
    and norm: "LB \<le> 2 * dx" and D2: "LB * dx \<le> D2"
    and qh: "qh * dx \<le> t" "t < (qh + 1) * dx" "qh < LB"
    and q: "(q = qh \<and> qh * D2 \<le> T) \<or> (qh = q + 1 \<and> T < qh * D2)"
  shows "(q - 1) * D \<le> W" and "W < (q + 1) * D"
proof -
  have "2 * dx \<le> D2"
    using mult_le_mono1 [of 2 LB dx] D2 by (simp add: LB_def)
  then have "qh \<le> D2" using qh(3) norm by linarith
  have D': "D \<le> (D2 + 1) * LB ^ k" "D \<le> (dx + 1) * LB ^ Suc k"
    using D by (simp_all add: less_imp_le)
  from q show "(q - 1) * D \<le> W"
  proof
    assume "q = qh \<and> qh * D2 \<le> T"
    then show ?thesis
      using estimate_high [of q D2 T "LB ^ k" W D 1] W(1) D'(1) \<open>qh \<le> D2\<close> by simp
  next
    assume a: "qh = q + 1 \<and> T < qh * D2"
    have "(qh - 2) * D \<le> W"
      using estimate_high [OF qh(1) W(3) D'(2)] qh(3) norm by simp
    then show ?thesis using a by simp
  qed
  show "W < (q + 1) * D"
  proof (rule ccontr)
    assume "\<not> W < (q + 1) * D"
    then have le: "(q + 1) * D \<le> W" by simp
    from q show False
    proof
      assume "q = qh \<and> qh * D2 \<le> T"
      then show False
        using estimate_low [OF le W(4) D(3), of "qh + 1"] qh(2) by simp
    next
      assume a: "qh = q + 1 \<and> T < qh * D2"
      have "q + 1 < qh"
        by (rule estimate_low [OF le W(2) D(1)]) (use a in blast)
      then show False using a by simp
    qed
  qed
qed

text \<open>The fix-up: \<open>V\<close> is what is left in memory of \<open>W - q * D\<close>, \<open>e\<close> the limbs above it.\<close>

lemma fixup:
  fixes W q D V Bn :: nat and e :: int
  assumes eq: "int W - int (q * D) = int V + int Bn * e" and V: "V < Bn" and D: "D \<le> Bn"
    and lo: "(q - 1) * D \<le> W" and hi: "W < (q + 1) * D"
  shows "e = 0 \<Longrightarrow> q * D + V = W \<and> V < D"
    and "e \<noteq> 0 \<Longrightarrow> 1 \<le> q \<and> (\<exists>R. V + D = Bn + R \<and> (q - 1) * D + R = W \<and> R < D)"
proof -
  assume "e = 0"
  then have "int (q * D + V) = int W" using eq by simp
  then have "q * D + V = W" by (simp only: of_nat_eq_iff)
  then show "q * D + V = W \<and> V < D" using hi by simp
next
  assume ne: "e \<noteq> 0"
  have neg: "W < q * D"
  proof (rule ccontr)
    assume "\<not> W < q * D"
    then have "int W - int (q * D) \<ge> 0" by (simp only: of_nat_le_iff diff_ge_0_iff_ge not_less)
    moreover have "int W - int (q * D) < int Bn"
    proof -
      have "W < D + q * D" using hi by simp
      then have "int W < int D + int (q * D)" by (simp only: of_nat_less_iff flip: of_nat_add)
      then show ?thesis using D by linarith
    qed
    ultimately have b: "0 \<le> int V + int Bn * e" "int V + int Bn * e < int Bn" using eq by simp_all
    consider "e < 0" | "0 < e" using ne by linarith
    then show False
    proof cases
      case 1
      then have "int Bn * e \<le> int Bn * (- 1)" by (intro mult_left_mono) simp_all
      then show False using b(1) V by linarith
    next
      case 2
      then have "int Bn * 1 \<le> int Bn * e" by (intro mult_left_mono) simp_all
      then show False using b(2) by linarith
    qed
  qed
  then have q: "1 \<le> q" by (cases q) auto
  then obtain j where j: "q = Suc j" by (cases q) auto
  define R where "R = W - j * D"
  have R: "j * D + R = W" "R < D" using lo neg j by (auto simp: R_def)
  have "int W - int (q * D) = int R - int D" using R(1) j by (simp flip: R(1))
  then have "int R - int D = int V + int Bn * e" using eq by simp
  moreover have "e = - 1"
  proof -
    have b: "- int Bn \<le> int V + int Bn * e" "int V + int Bn * e < 0"
      using calculation R(2) D by simp_all
    consider "e < - 1" | "e = - 1" | "0 < e" using ne by linarith
    then show ?thesis
    proof cases
      case 1
      then have "int Bn * e \<le> int Bn * (- 2)" by (intro mult_left_mono) simp_all
      then show ?thesis using b(1) V by linarith
    next
      case 3
      then have "int Bn * 1 \<le> int Bn * e" by (intro mult_left_mono) simp_all
      then show ?thesis using b(2) by linarith
    qed
  qed
  ultimately have "int (V + D) = int (Bn + R)" by simp
  then have "V + D = Bn + R" by (simp only: of_nat_eq_iff)
  then show "1 \<le> q \<and> (\<exists>R. V + D = Bn + R \<and> (q - 1) * D + R = W \<and> R < D)"
    using q R j by auto
qed

lemma bool_word_eq: "(of_bool e = of_bool c - (of_bool b :: limb)) \<longleftrightarrow> (of_bool c - of_bool b - of_bool e = (0 :: int))"
  by (cases e; cases c; cases b) simp_all

text \<open>Adding the divisor back.\<close>

lemma add_back:
  assumes "mpn_add_n np np dp dn m = (cy, m')" and "\<not> MPN_OVERLAP_P np dn dp dn"
    and "mval m np dn + mval m dp dn = LB ^ dn + R" and "R < mval m dp dn"
  shows "mval m' np dn = R" and "only_in np dn m m'"
proof -
  have "MPN_SAME_OR_INCR_P np np dn" "MPN_SAME_OR_INCR_P np dp dn"
    using assms(2) by (auto simp: overlap_defs)
  note as = mpn_add_n_spec [OF assms(1) this]
  have "mval m' np dn + LB ^ dn * unat cy = LB ^ dn + R" "unat cy \<le> 1"
    using as assms(3) by auto
  moreover have "mval m' np dn < LB ^ dn" "R < LB ^ dn"
    using mval_less [of m' np dn] mval_less [of m dp dn] assms(4) by auto
  ultimately show "mval m' np dn = R"
    by (cases "unat cy = 0") (auto simp: le_Suc_eq)
  show "only_in np dn m m'" using as by blast
qed

text \<open>The region a step works on, split at its top limbs.\<close>

lemma top_split2: "mval m p (Suc (Suc k)) = mval m p k + LB ^ k * (unat (m (p + k)) + LB * unat (m (p + Suc k)))"
  unfolding mval_high by (simp add: algebra_simps)

lemma top_split3: "mval m p (Suc (Suc (Suc k)))
    = mval m p k + LB ^ k * (LB * (LB * unat (m (p + Suc (Suc k))) + unat (m (p + Suc k))) + unat (m (p + k)))"
  unfolding mval_high by (simp add: algebra_simps)

lemma top_bounds:
  fixes v y X :: nat
  assumes "X = v + LB ^ j * y" and "v < LB ^ j"
  shows "y * LB ^ j \<le> X" and "X < (y + 1) * LB ^ j"
  using assms by (simp_all add: algebra_simps)

lemma sb_step_finish:
  fixes q :: limb
  assumes "(if b then (let (cy, m1) = mpn_add_n np np dp dn m in (q - 1, m1)) else (q, m)) = (q', m')"
    and "int W - int (unat q * mval m dp dn) = int (mval m np dn) + int (LB ^ dn) * e" and "b \<longleftrightarrow> e \<noteq> 0"
    and "(unat q - 1) * mval m dp dn \<le> W" and "W < (unat q + 1) * mval m dp dn"
    and "\<not> MPN_OVERLAP_P np dn dp dn"
  shows "unat q' * mval m dp dn + mval m' np dn = W \<and> mval m' np dn < mval m dp dn \<and> only_in np dn m m'"
proof -
  have D: "mval m dp dn \<le> LB ^ dn" using mval_less [of m dp dn] by simp
  note fx = fixup [OF assms(2) mval_less D assms(4,5)]
  show ?thesis
  proof (cases "e = 0")
    case True
    then have "q' = q" "m' = m" using assms(1,3) by auto
    then show ?thesis using fx(1) [OF True] by simp
  next
    case False
    obtain cy m1 where a: "mpn_add_n np np dp dn m = (cy, m1)" by fastforce
    have q': "q' = q - 1" "m' = m1" using assms(1,3) False a by auto
    obtain R where R: "1 \<le> unat q" "mval m np dn + mval m dp dn = LB ^ dn + R"
      "(unat q - 1) * mval m dp dn + R = W" "R < mval m dp dn"
      using fx(2) [OF False] by blast
    have "unat q' = unat q - 1"
      unfolding q' using R(1) unat_minus_limb [of 1 q] by (simp add: limb_le_iff)
    then show ?thesis
      using add_back [OF a assms(6) R(2,4)] R(3,4) by (simp add: q'(2))
  qed
qed

context udiv_step
begin

lemma sb_divrem_step_spec:
  assumes eq: "sb_divrem_step udiv np dp dn dx d1 m = (q, m')" and dn: "2 \<le> dn"
    and dx: "dx = m (dp + dn - 1)" "d1 = m (dp + dn - 2)" and ok: "ok dx" and norm: "LB \<le> 2 * unat dx"
    and lt: "mval m (np + 1) dn < mval m dp dn" and sep: "\<not> MPN_OVERLAP_P np (dn + 1) dp dn"
  shows "unat q * mval m dp dn + mval m' np dn = mval m np (dn + 1) \<and> mval m' np dn < mval m dp dn
    \<and> only_in np dn m m'"
proof -
  obtain k where k: "dn = Suc (Suc k)" using dn by (metis le_Suc_ex add_2_eq_Suc)
  define D where "D = mval m dp dn"
  define W where "W = mval m np (dn + 1)"
  define nx where "nx = m (np + dn)"
  define n1 where "n1 = m (np + dn - 1)"
  define n0 where "n0 = m (np + dn - 2)"
  define D2 where "D2 = LB * unat dx + unat d1"
  define t where "t = LB * unat nx + unat n1"
  define T where "T = LB * t + unat n0"
  have D_split: "D = mval m dp k + LB ^ k * D2"
    unfolding D_def k top_split2 D2_def dx by (simp add: k add.commute)
  have D_split1: "D = mval m dp (Suc k) + LB ^ Suc k * unat dx"
    unfolding D_def k dx by (simp add: mval_high [of m dp "Suc k"] del: mval.simps)
  have W_split: "W = mval m np k + LB ^ k * T"
    unfolding W_def T_def t_def nx_def n1_def n0_def k by (simp add: top_split3 del: mval.simps)
  have W_split1: "W = mval m np (Suc k) + LB ^ Suc k * t"
    unfolding W_def t_def nx_def n1_def k by (simp add: mval_high [of m np "Suc k"] mval_high [of m np "Suc (Suc k)"] algebra_simps del: mval.simps)
  have W_split2: "W = mval m np dn + LB ^ dn * unat nx"
    unfolding W_def nx_def using mval_high [of m np dn] by simp
  have W_R: "W = unat (m np) + LB * mval m (np + 1) dn"
    unfolding W_def by simp
  note Wb = top_bounds [OF W_split mval_less] top_bounds [OF W_split1 mval_less]
  note Db = top_bounds [OF D_split mval_less] top_bounds [OF D_split1 mval_less]
  have W_lt: "W < LB * D"
  proof -
    have "LB * (mval m (np + 1) dn + 1) \<le> LB * D"
      using lt by (intro mult_le_mono2) (simp add: D_def)
    then show ?thesis unfolding W_R using unat_lt_LB [of "m np"] by simp
  qed
  have nx_le: "unat nx \<le> unat dx"
  proof (rule ccontr)
    assume "\<not> unat nx \<le> unat dx"
    then have "(unat dx + 1) * LB ^ Suc k \<le> unat nx * LB ^ Suc k" by (intro mult_le_mono1) simp
    also have "\<dots> \<le> mval m (np + 1) dn"
      using mval_high [of m "np + 1" "Suc k"] by (simp add: k nx_def mult.commute del: mval.simps)
    finally show False using lt Db(4) unfolding D_def by linarith
  qed
  have sub_ok: "MPN_SAME_OR_INCR_P np dp j" if "j \<le> dn" for j
    using sep that k by (auto simp: overlap_defs)
  have sep': "\<not> MPN_OVERLAP_P np dn dp dn"
    using sep by (auto simp: overlap_defs)
  have dp_eq: "mval m1 dp j = mval m dp j" if "only_in np dn m m1" "j \<le> dn" for m1 j
    by (rule only_in_mval [OF that(1)]) (use sep k that(2) in \<open>auto simp: overlap_defs\<close>)
  show ?thesis
  proof (cases "nx = dx")
    case True
    define q0 :: limb where "q0 = NOT 0"
    have q0: "unat q0 = LB - 1" unfolding q0_def using unat_not_limb [of 0] by simp
    obtain cy m1 where s: "mpn_submul_1 np dp dn q0 m = (cy, m1)" by fastforce
    note ss = mpn_submul_1_spec [OF s sub_ok [OF order_refl]]
    have rest: "(if nx \<noteq> cy then (let (c, m2) = mpn_add_n np np dp dn m1 in (q0 - 1, m2)) else (q0, m1)) = (q, m')"
      using eq True s unfolding sb_divrem_step_def Let_def nx_def [symmetric] q0_def [symmetric] by simp
    have D1: "mval m1 dp dn = D" unfolding D_def by (rule dp_eq [OF ss(2) order_refl])
    have val: "int W - int (unat q0 * mval m1 dp dn) = int (mval m1 np dn) + int (LB ^ dn) * (int (unat nx) - int (unat cy))"
    proof -
      have "int (mval m1 np dn + D * unat q0) = int (mval m np dn + LB ^ dn * unat cy)"
        using ss(1) unfolding D_def by (simp only:)
      then show ?thesis unfolding D1 W_split2 by (simp add: algebra_simps)
    qed
    have b: "nx \<noteq> cy \<longleftrightarrow> int (unat nx) - int (unat cy) \<noteq> 0"
      unfolding limb_eq_iff by linarith
    have "unat dx * LB \<le> t" unfolding t_def True by simp
    then have "(LB - 2) * D \<le> W"
      using estimate_high [of LB "unat dx" t "LB ^ Suc k" W D 2] Wb(3) Db(4) norm by (simp add: mult.commute)
    then have lo: "(unat q0 - 1) * mval m1 dp dn \<le> W" unfolding D1 q0 by (simp add: numeral_2_eq_2)
    have hi: "W < (unat q0 + 1) * mval m1 dp dn" unfolding D1 q0 using W_lt by simp
    from sb_step_finish [OF rest val b lo hi sep']
    show ?thesis
      unfolding D1 using only_in_trans [OF ss(2)] by (simp add: D_def W_def)
  next
    case False
    then have nlt: "nx < dx" using nx_le unfolding limb_less_iff limb_eq_iff by linarith
    obtain q0 rx r1 r0 where e: "sb_estimate udiv nx n1 n0 dx d1 = (q0, rx, r1, r0)"
      by (metis prod_cases4)
    from sb_estimate_spec [OF e ok nlt]
    obtain c b qh where es: "rx = of_bool c - of_bool b"
      "int T - int (unat q0 * D2) = int (LB * unat r1 + unat r0) + int (LB * LB) * (of_bool c - of_bool b)"
      "qh * unat dx \<le> t" "t < (qh + 1) * unat dx" "qh < LB"
      "(unat q0 = qh \<and> qh * D2 \<le> T) \<or> (qh = unat q0 + 1 \<and> T < qh * D2)"
      unfolding T_def t_def D2_def by blast
    have qb: "(unat q0 - 1) * D \<le> W" "W < (unat q0 + 1) * D"
      using quotient_digit_bounds [OF Wb Db norm _ es(3-6)] by (simp_all add: D2_def)
    obtain cy m1 where s: "mpn_submul_1 np dp k q0 m = (cy, m1)" by fastforce
    have "MPN_SAME_OR_INCR_P np dp k" by (rule sub_ok) (simp add: k)
    note ss = mpn_submul_1_spec [OF s this]
    define r0' where "r0' = r0 - cy"
    define cy1 :: limb where "cy1 = of_bool (r0 < cy)"
    define e2 where "e2 \<longleftrightarrow> r1 < cy1"
    define r1' where "r1' = r1 - cy1"
    define m2 where "m2 = m1(np + Suc k := r1', np + k := r0')"
    have rest: "(if of_bool e2 \<noteq> rx then (let (c, m3) = mpn_add_n np np dp dn m2 in (q0 - 1, m3)) else (q0, m2)) = (q, m')"
    proof -
      have "dn - 2 = k" "np + dn - 1 = np + Suc k" "np + dn - 2 = np + k" using k by simp_all
      note idx = this
      show ?thesis
        using eq False e s
        unfolding sb_divrem_step_def Let_def nx_def [symmetric] n1_def [symmetric] n0_def [symmetric]
        unfolding idx m2_def r0'_def r1'_def e2_def cy1_def
        by simp
    qed
    have fr2: "only_in np dn m m2"
      unfolding m2_def by (rule only_in_trans [OF only_in_mono [OF ss(2)]]) (auto simp: k only_in_def)
    have D1: "mval m2 dp dn = D" unfolding D_def by (rule dp_eq [OF fr2 order_refl])
    have V: "mval m2 np dn = mval m1 np k + LB ^ k * (LB * unat r1' + unat r0')"
      unfolding k top_split2 by (simp add: m2_def add.commute)
    have pr: "int (LB * unat r1 + unat r0) - int (unat cy) = int (LB * unat r1' + unat r0') - int (LB * LB) * of_bool e2"
      unfolding e2_def r1'_def r0'_def cy1_def by (rule sub_limb_pair)
    have val: "int W - int (unat q0 * mval m2 dp dn)
        = int (mval m2 np dn) + int (LB ^ dn) * (of_bool c - of_bool b - of_bool e2)"
    proof -
      have lo: "int (mval m np k) - int (unat q0) * int (mval m dp k) = int (mval m1 np k) - int (LB ^ k) * int (unat cy)"
        using arg_cong [OF ss(1), of int] by (simp add: algebra_simps)
      have "int W - int (unat q0 * D)
          = (int (mval m np k) - int (unat q0) * int (mval m dp k)) + int (LB ^ k) * (int T - int (unat q0 * D2))"
        unfolding W_split D_split by (simp add: algebra_simps)
      also have "\<dots> = int (mval m1 np k) + int (LB ^ k) * ((int (LB * unat r1 + unat r0) - int (unat cy)) + int (LB * LB) * (of_bool c - of_bool b))"
        unfolding lo es(2) by (simp only: algebra_simps)
      also have "\<dots> = int (mval m2 np dn) + int (LB ^ dn) * (of_bool c - of_bool b - of_bool e2)"
        unfolding pr V by (simp add: k algebra_simps)
      finally show ?thesis unfolding D1 .
    qed
    have bq: "of_bool e2 \<noteq> rx \<longleftrightarrow> (of_bool c - of_bool b - of_bool e2 :: int) \<noteq> 0"
      unfolding es(1) bool_word_eq ..
    from sb_step_finish [OF rest val bq qb [folded D1] sep']
    show ?thesis
      unfolding D1 using only_in_trans [OF fr2] by (simp add: D_def W_def)
  qed
qed

end

context udiv_step
begin

lemma sb_divrem_loop_spec:
  assumes eq: "sb_divrem_loop udiv k qp np dp dn dx d1 m = m'" and dn: "2 \<le> dn"
    and dx: "dx = m (dp + dn - 1)" "d1 = m (dp + dn - 2)" and ok: "ok dx" and norm: "LB \<le> 2 * unat dx"
    and lt: "mval m (np + k) dn < mval m dp dn"
    and ndp: "\<not> MPN_OVERLAP_P np (dn + k) dp dn" and qdp: "\<not> MPN_OVERLAP_P qp k dp dn"
    and qnp: "np + dn \<le> qp \<or> qp + k \<le> np"
  shows "mval m' qp k * mval m dp dn + mval m' np dn = mval m np (k + dn) \<and> mval m' np dn < mval m dp dn
    \<and> only_at ({qp..<qp + k} \<union> {np..<np + (k + dn)}) m m'"
  using eq dx lt ndp qdp qnp
proof (induction k arbitrary: m)
  case 0
  then show ?case by simp
next
  case (Suc k)
  obtain q m1 where st: "sb_divrem_step udiv (np + k) dp dn dx d1 m = (q, m1)" by fastforce
  have sep: "\<not> MPN_OVERLAP_P (np + k) (dn + 1) dp dn"
    using Suc.prems(5) by (auto simp: overlap_defs)
  have lt': "mval m (np + k + 1) dn < mval m dp dn"
    using Suc.prems(4) by simp
  note ss = sb_divrem_step_spec [OF st dn Suc.prems(2,3) ok norm lt' sep]
  define m2 where "m2 = m1(qp + k := q)"
  define D where "D = mval m dp dn"
  have fr1: "only_in (np + k) dn m m1" using ss by blast
  have live: "mval m2 (np + k) dn = mval m1 (np + k) dn"
    unfolding m2_def using Suc.prems(7) by (intro mval_upd_out) auto
  have low: "mval m2 np k = mval m np k"
  proof -
    have "mval m2 np k = mval m1 np k"
      unfolding m2_def using Suc.prems(7) by (intro mval_upd_out) auto
    also have "\<dots> = mval m np k"
      by (rule only_in_mval [OF fr1]) simp
    finally show ?thesis .
  qed
  have qk: "qp + k < dp \<or> dp + dn \<le> qp + k"
    using Suc.prems(6) dn by (auto simp: overlap_defs)
  have dpl: "m2 a = m a" if "dp \<le> a" "a < dp + dn" for a
  proof -
    have "m2 a = m1 a" unfolding m2_def using qk that by auto
    also have "m1 a = m a" by (rule only_inD [OF fr1]) (use sep that dn in \<open>auto simp: overlap_defs\<close>)
    finally show ?thesis .
  qed
  have D2: "mval m2 dp dn = D"
    unfolding D_def by (rule mval_cong) (rule dpl, simp_all)
  have rec: "sb_divrem_loop udiv k qp np dp dn dx d1 m2 = m'"
    using Suc.prems(1) st by (simp add: m2_def)
  have IH: "mval m' qp k * D + mval m' np dn = mval m2 np (k + dn) \<and> mval m' np dn < D
    \<and> only_at ({qp..<qp + k} \<union> {np..<np + (k + dn)}) m2 m'"
  proof -
    have "mval m' qp k * mval m2 dp dn + mval m' np dn = mval m2 np (k + dn) \<and> mval m' np dn < mval m2 dp dn
      \<and> only_at ({qp..<qp + k} \<union> {np..<np + (k + dn)}) m2 m'"
    proof (rule Suc.IH [OF rec])
      show "dx = m2 (dp + dn - 1)" using dpl [of "dp + dn - 1"] Suc.prems(2) dn by simp
      show "d1 = m2 (dp + dn - 2)" using dpl [of "dp + dn - 2"] Suc.prems(3) dn by simp
      show "mval m2 (np + k) dn < mval m2 dp dn" using ss live D2 unfolding D_def by simp
    qed (use Suc.prems(5-7) in \<open>auto simp: overlap_defs\<close>)
    then show ?thesis unfolding D2 .
  qed
  have top: "m' (qp + k) = q"
  proof -
    have "m' (qp + k) = m2 (qp + k)"
      by (rule only_atD [of "{qp..<qp + k} \<union> {np..<np + (k + dn)}"]) (use IH Suc.prems(7) in auto)
    then show ?thesis by (simp add: m2_def)
  qed
  have "mval m' qp (Suc k) * D + mval m' np dn = mval m2 np (k + dn) + LB ^ k * (unat q * D)"
    unfolding mval_high top using IH by (simp add: algebra_simps)
  also have "\<dots> = mval m np k + LB ^ k * (unat q * D + mval m1 (np + k) dn)"
    unfolding mval_add low live by (simp add: algebra_simps)
  also have "\<dots> = mval m np (Suc k + dn)"
    using ss mval_add [of m np k "dn + 1"] unfolding D_def by (simp del: mval.simps)
  finally have "mval m' qp (Suc k) * D + mval m' np dn = mval m np (Suc k + dn)" .
  moreover have "only_at ({qp..<qp + Suc k} \<union> {np..<np + (Suc k + dn)}) m m'"
  proof (rule only_at_trans)
    show "only_at ({qp..<qp + Suc k} \<union> {np..<np + (Suc k + dn)}) m m1"
      by (rule only_in_at [OF fr1]) auto
    show "only_at ({qp..<qp + Suc k} \<union> {np..<np + (Suc k + dn)}) m1 m'"
    proof (rule only_at_trans)
      show "only_at ({qp..<qp + Suc k} \<union> {np..<np + (Suc k + dn)}) m1 m2"
        unfolding m2_def by (rule only_at_upd) simp
      show "only_at ({qp..<qp + Suc k} \<union> {np..<np + (Suc k + dn)}) m2 m'"
        by (rule only_at_mono [of "{qp..<qp + k} \<union> {np..<np + (k + dn)}"]) (use IH in auto)
    qed
  qed
  ultimately show ?case using IH unfolding D_def by blast
qed

end

lemma mpn_sb_divrem_mn_spec:
  assumes eq: "mpn_sb_divrem_mn qp np nn dp dn m = (qh, m')" and dn: "2 \<le> dn" "dn \<le> nn"
    and norm: "LB \<le> 2 * unat (m (dp + dn - 1))"
    and ndp: "\<not> MPN_OVERLAP_P np nn dp dn" and qdp: "\<not> MPN_OVERLAP_P qp (nn - dn) dp dn"
    and qnp: "\<not> MPN_OVERLAP_P qp (nn - dn) np nn \<or> np + dn \<le> qp"
  shows "(mval m' qp (nn - dn) + LB ^ (nn - dn) * unat qh) * mval m dp dn + mval m' np dn = mval m np nn"
    and "mval m' np dn < mval m dp dn" and "qh \<le> 1"
    and "only_at ({qp..<qp + (nn - dn)} \<union> {np..<np + nn}) m m'"
proof -
  define qn where "qn = nn - dn"
  have nn: "nn = qn + dn" using dn by (simp add: qn_def)
  define nh where "nh = np + qn"
  define dx where "dx = m (dp + dn - 1)"
  define d1 where "d1 = m (dp + dn - 2)"
  define n0 where "n0 = m (nh + dn - 1)"
  define D where "D = mval m dp dn"
  obtain k where k: "dn = Suc k" using dn by (cases dn) auto
  have idx: "dp + dn - 1 = dp + k" "nh + dn - 1 = nh + k" "dn - 1 = k" using k by simp_all
  have Dk: "mval mm p dn = mval mm p k + LB ^ k * unat (mm (p + k))" for mm p
    unfolding k by (rule mval_high)
  have VD: "D = mval m dp k + LB ^ k * unat dx" and VN: "mval m nh dn = mval m nh k + LB ^ k * unat n0"
    unfolding D_def dx_def n0_def idx by (rule Dk)+
  have qsep: "np + dn \<le> qp \<or> qp + qn \<le> np \<or> qn = 0"
    using qnp dn by (auto simp: overlap_defs qn_def)
  obtain msq :: limb and m1 where ph: "(if n0 \<ge> dx
       then (if n0 > dx \<or> mpn_cmp m nh dp (dn - 1) \<ge> 0
             then (let (cy, m) = mpn_sub_n nh nh dp dn m in (1, m)) else (0, m))
       else (0, m)) = (msq, m1)" by fastforce
  have P: "unat msq * D + mval m1 nh dn = mval m nh dn \<and> mval m1 nh dn < D \<and> msq \<le> 1 \<and> only_in nh dn m m1"
  proof -
    have ge: "D \<le> mval m nh dn \<longleftrightarrow> n0 > dx \<or> (n0 = dx \<and> mpn_cmp m nh dp k \<ge> 0)"
    proof -
      consider "unat n0 < unat dx" | "n0 = dx" | "unat dx < unat n0"
        unfolding limb_eq_iff by linarith
      then show ?thesis
      proof cases
        case 1
        then have "\<not> dx < n0" "n0 \<noteq> dx" unfolding limb_less_iff limb_eq_iff by auto
        moreover have "mval m nh dn < D"
          unfolding VD VN by (rule high_limb_less [OF 1 mval_less])
        ultimately show ?thesis by auto
      next
        case 2
        then show ?thesis
          unfolding VD VN mpn_cmp_spec by auto
      next
        case 3
        then have "dx < n0" unfolding limb_less_iff .
        moreover have "D < mval m nh dn"
          unfolding VD VN by (rule high_limb_less [OF 3 mval_less])
        ultimately show ?thesis by auto
      qed
    qed
    show ?thesis
    proof (cases "D \<le> mval m nh dn")
      case False
      then have "msq = 0" "m1 = m"
        using ph ge unfolding idx by (auto split: if_splits)
      then show ?thesis using False by simp
    next
      case True
      obtain cy m2 where s: "mpn_sub_n nh nh dp dn m = (cy, m2)" by fastforce
      have r: "msq = 1" "m1 = m2"
        using ph True ge s unfolding idx by (auto split: if_splits)
      have "MPN_SAME_OR_INCR_P nh nh dn" "MPN_SAME_OR_INCR_P nh dp dn"
        using ndp dn by (auto simp: overlap_defs nh_def qn_def)
      note ss = mpn_sub_n_spec [OF s this]
      have e: "mval m2 nh dn + D = mval m nh dn + LB ^ dn * unat cy" using ss by (simp add: D_def)
      have "mval m2 nh dn < LB ^ dn" by (rule mval_less)
      then have "unat cy = 0"
        using e True ss by (cases "unat cy = 0") (auto simp: le_Suc_eq)
      then have v: "mval m2 nh dn + D = mval m nh dn" using e by simp
      have "mval m nh dn < 2 * D"
      proof -
        have "LB ^ dn \<le> 2 * (LB ^ k * unat dx)"
          using mult_le_mono2 [OF norm, of "LB ^ k"] by (simp add: k dx_def mult_ac)
        then show ?thesis
          using mval_less [of m nh dn] unfolding VD by simp
      qed
      then show ?thesis using v r ss by simp
    qed
  qed
  have dpl: "m1 a = m a" if "dp \<le> a" "a < dp + dn" for a
  proof -
    have "only_in nh dn m m1" using P by blast
    then show ?thesis
      by (rule only_inD) (use that ndp dn in \<open>auto simp: overlap_defs nh_def qn_def\<close>)
  qed
  have D1: "mval m1 dp dn = D"
    unfolding D_def by (rule mval_cong) (rule dpl, simp_all)
  have dd: "dx = m1 (dp + dn - 1)" "d1 = m1 (dp + dn - 2)"
    using dpl [of "dp + dn - 1"] dpl [of "dp + dn - 2"] dn by (simp_all add: dx_def d1_def)
  have nrm: "LB \<le> 2 * unat dx" using norm by (simp add: dx_def)
  have lt1: "mval m1 (np + qn) dn < mval m1 dp dn" using P D1 by (simp add: nh_def)
  have s1: "\<not> MPN_OVERLAP_P np (dn + qn) dp dn" "\<not> MPN_OVERLAP_P qp qn dp dn"
    using ndp qdp by (simp_all add: nn add.commute flip: qn_def)
  have res: "qh = msq"
    "m' = (if ABOVE_THRESHOLD qn DIV_SB_PREINV_THRESHOLD
           then sb_divrem_loop (\<lambda>nh nl d. udiv_qrnnd_preinv nh nl d (invert_limb dx)) qn qp np dp dn dx d1 m1
           else sb_divrem_loop udiv_qrnnd qn qp np dp dn dx d1 m1)"
    using eq ph unfolding mpn_sb_divrem_mn_def Let_def qn_def [symmetric] nh_def [symmetric]
      dx_def [symmetric] d1_def [symmetric] n0_def [symmetric] by (auto split: if_splits)
  have L: "mval m' qp qn * D + mval m' np dn = mval m1 np (qn + dn) \<and> mval m' np dn < D
    \<and> only_at ({qp..<qp + qn} \<union> {np..<np + (qn + dn)}) m1 m'"
  proof (cases "qn = 0")
    case True
    then have "m' = m1" using res(2) by simp
    then show ?thesis using True lt1 D1 by simp
  next
    case False
    then have s2: "np + dn \<le> qp \<or> qp + qn \<le> np" using qsep by blast
    have "LB \<le> 2 * unat dx \<and> is_inverse (invert_limb dx) dx"
      using nrm invert_limb_correct [OF nrm] by blast
    then show ?thesis
      using res(2) plain.sb_divrem_loop_spec [OF _ dn(1) dd nrm nrm lt1 s1 s2, of m']
        preinv.sb_divrem_loop_spec [OF _ dn(1) dd _ nrm lt1 s1 s2, of "invert_limb dx" m']
      unfolding D1 by (cases "ABOVE_THRESHOLD qn DIV_SB_PREINV_THRESHOLD") auto
  qed
  have low: "mval m1 np qn = mval m np qn"
    using P by (intro only_in_mval [of nh dn]) (auto simp: nh_def)
  show "(mval m' qp (nn - dn) + LB ^ (nn - dn) * unat qh) * mval m dp dn + mval m' np dn = mval m np nn"
  proof -
    have "(mval m' qp qn + LB ^ qn * unat qh) * D + mval m' np dn = mval m1 np (qn + dn) + LB ^ qn * (unat msq * D)"
      using L res(1) by (simp add: algebra_simps)
    also have "\<dots> = mval m np qn + LB ^ qn * (unat msq * D + mval m1 nh dn)"
      unfolding mval_add low nh_def by (simp add: distrib_left)
    also have "\<dots> = mval m np (qn + dn)"
      using P unfolding mval_add nh_def by simp
    finally show ?thesis unfolding D_def by (simp only: nn add_diff_cancel_right')
  qed
  show "mval m' np dn < mval m dp dn" using L by (simp add: D_def)
  show "qh \<le> 1" using P res(1) by simp
  have "only_at ({qp..<qp + qn} \<union> {np..<np + (qn + dn)}) m m1"
    using P by (intro only_in_at [of nh dn]) (auto simp: nh_def)
  then show "only_at ({qp..<qp + (nn - dn)} \<union> {np..<np + nn}) m m'"
    using L by (simp only: nn add_diff_cancel_right') (blast intro: only_at_trans)
qed

section \<open>Division by two limbs (\<open>divrem_2.c\<close>)\<close>

definition DIVREM_2_THRESHOLD :: nat where
  "DIVREM_2_THRESHOLD = MP_SIZE_T_MAX"

text \<open>The loop at the label \<open>q_test\<close>: while the product \<open>n1,n0\<close> exceeds the remainder \<open>r,n2\<close>, take the
  divisor off the product, until the remainder no longer fits a limb.\<close>

partial_function (option) q_test :: "limb \<Rightarrow> limb \<Rightarrow> limb \<Rightarrow> limb \<Rightarrow> limb \<Rightarrow> limb \<Rightarrow> limb \<Rightarrow> (limb \<times> limb \<times> limb \<times> limb) option" where
  "q_test q r n1 n0 n2 d1 d0 =
     (if n1 > r \<or> (n1 = r \<and> n0 > n2)
      then (let q = q - 1;
                n = sub_ddmmss n1 n0 0 d0;
                r = r + d1
            in if r \<ge> d1
               then q_test q r (fst n) (snd n) n2 d1 d0
               else Some (q, r, fst n, snd n))
      else Some (q, r, n1, n0))"

text \<open>One step of the main loop; \<open>n2\<close> is the dividend limb \<open>np[0]\<close>, the result is the quotient limb
  with the two new remainder limbs.\<close>

definition divrem_2_step :: "udiv \<Rightarrow> limb \<Rightarrow> limb \<Rightarrow> limb \<Rightarrow> limb \<Rightarrow> limb \<Rightarrow> (limb \<times> limb \<times> limb) option" where
  "divrem_2_step udiv n2 n1 n0 d1 d0 =
     (if n1 = d1 \<and> n0 + d1 < d1
      then (let r = n0 + d1;
                (n1, n0) = add_ssaaaa (r - d0) n2 0 d0
            in Some (NOT 0, n1, n0))
      else (let (q, r, n1, n0) =
              (if n1 = d1
               then (NOT 0, n0 + d1, d0 - of_bool (d0 \<noteq> 0), - d0)
               else (let (q, r) = udiv n1 n0 d1;
                         (n1, n0) = umul_ppmm d0 q
                     in (q, r, n1, n0)))
            in case q_test q r n1 n0 n2 d1 d0 of
                 None \<Rightarrow> None
               | Some (q, r, n1, n0) \<Rightarrow>
                   (let (n1, n0) = sub_ddmmss r n2 n1 n0
                    in Some (q, n1, n0))))"

text \<open>The pointer \<open>np\<close> of the C loop is \<open>np + (i - qxn)\<close> here: it stops at the lowest limb, which the
  fraction steps set to zero.\<close>

fun divrem_2_loop :: "udiv \<Rightarrow> nat \<Rightarrow> ptr \<Rightarrow> nat \<Rightarrow> ptr \<Rightarrow> limb \<Rightarrow> limb \<Rightarrow> limb \<Rightarrow> limb \<Rightarrow> mem \<Rightarrow> (limb \<times> limb \<times> mem) option" where
  "divrem_2_loop udiv 0 qp qxn np d1 d0 n1 n0 m = Some (n1, n0, m)"
| "divrem_2_loop udiv (Suc i) qp qxn np d1 d0 n1 n0 m =
     (let m = (if i \<ge> qxn then m else m(np := 0));
          n2 = m (np + (i - qxn))
      in case divrem_2_step udiv n2 n1 n0 d1 d0 of
           None \<Rightarrow> None
         | Some (q, n1, n0) \<Rightarrow> divrem_2_loop udiv i qp qxn np d1 d0 n1 n0 (m(qp + i := q)))"

definition mpn_divrem_2 :: "ptr \<Rightarrow> nat \<Rightarrow> ptr \<Rightarrow> nat \<Rightarrow> ptr \<Rightarrow> mem \<Rightarrow> (limb \<times> mem) option" where
  "mpn_divrem_2 qp qxn np nn dp m =
     (let nh = np + (nn - 2);
          d1 = m (dp + 1);
          d0 = m dp;
          n1 = m (nh + 1);
          n0 = m nh;
          (most_significant_q_limb, n1, n0) =
            (if n1 \<ge> d1 \<and> (n1 > d1 \<or> n0 \<ge> d0)
             then (let (n1, n0) = sub_ddmmss n1 n0 d1 d0 in (1, n1, n0))
             else (0, n1, n0));
          use_preinv = ABOVE_THRESHOLD (qxn + nn - 2) DIVREM_2_THRESHOLD
      in case (if use_preinv
               then (let d1inv = invert_limb d1
                     in divrem_2_loop (\<lambda>nh nl d. udiv_qrnnd_preinv nh nl d d1inv) (qxn + nn - 2) qp qxn np d1 d0 n1 n0 m)
               else divrem_2_loop udiv_qrnnd (qxn + nn - 2) qp qxn np d1 d0 n1 n0 m) of
           None \<Rightarrow> None
         | Some (n1, n0, m) \<Rightarrow> Some (most_significant_q_limb, m(np + 1 := n1, np := n0)))"

lemma add_no_carry: "y \<le> x + y \<Longrightarrow> unat (x + y :: limb) = unat x + unat y"
  using add_carry' [of x y] by (cases "x + y < y") (simp_all add: not_less)

lemma add_with_carry: "\<not> y \<le> x + y \<Longrightarrow> unat (x + y :: limb) + LB = unat x + unat y"
  using add_carry' [of x y] by (cases "x + y < y") (simp_all add: not_less)

text \<open>The state at \<open>q_test\<close>: \<open>n1,n0\<close> is \<open>q\<close> times the low divisor limb and \<open>r\<close> what \<open>q\<close> leaves of
  the leading limbs \<open>t\<close>.  On return \<open>q\<close> is the quotient of the three-limb dividend, and the remainder is
  the two-limb difference.\<close>

lemma q_test_spec:
  assumes t: "unat q * unat d1 + unat r = t" and p: "dval (n1, n0) = unat q * unat d0"
    and hi: "LB * t + unat n2 < (unat q + 1) * dval (d1, d0)" and d1: "d1 \<noteq> 0"
  shows "\<exists>q' r' n1' n0'. q_test q r n1 n0 n2 d1 d0 = Some (q', r', n1', n0')
    \<and> (\<exists>R. unat q' * dval (d1, d0) + R = LB * t + unat n2 \<and> R < dval (d1, d0)
        \<and> (R + dval (n1', n0')) mod (LB * LB) = dval (r', n2))"
  using t p hi
proof (induction "LB - unat r" arbitrary: q r n1 n0 rule: less_induct)
  case less
  define D where "D = dval (d1, d0)"
  have D: "D = LB * unat d1 + unat d0" by (simp add: D_def)
  have W: "LB * t + unat n2 + dval (n1, n0) = unat q * D + dval (r, n2)"
    unfolding less.prems(1) [symmetric] less.prems(2) D by (simp add: algebra_simps)
  have test: "n1 > r \<or> (n1 = r \<and> n0 > n2) \<longleftrightarrow> LB * t + unat n2 < unat q * D"
  proof -
    have "n1 > r \<or> (n1 = r \<and> n0 > n2) \<longleftrightarrow> dval (r, n2) < dval (n1, n0)"
      unfolding dval_pair pair_less_iff [symmetric] by auto
    then show ?thesis using W by linarith
  qed
  show ?case
  proof (cases "LB * t + unat n2 < unat q * D")
    case False
    define R where "R = LB * t + unat n2 - unat q * D"
    have R: "unat q * D + R = LB * t + unat n2" using False by (simp add: R_def)
    have "R < D" using less.prems(3) R by (simp add: D_def)
    have "R + dval (n1, n0) = dval (r, n2)" using R W by linarith
    then have "(R + dval (n1, n0)) mod (LB * LB) = dval (r, n2)"
      using dval_less [of "(r, n2)"] by simp
    moreover have "q_test q r n1 n0 n2 d1 d0 = Some (q, r, n1, n0)"
      using False unfolding test [symmetric] by (subst q_test.simps) (simp only: if_False)
    ultimately show ?thesis using R \<open>R < D\<close> unfolding D_def by blast
  next
    case True
    obtain a b where s: "sub_ddmmss n1 n0 0 d0 = (a, b)" by fastforce
    have "unat q \<noteq> 0" using True by (intro notI) simp
    then have q1: "unat q = unat (q - 1) + 1"
      using unat_minus_limb [of 1 q] by (simp add: limb_le_iff)
    have p': "dval (a, b) = unat (q - 1) * unat d0"
      using sub_ddmmss_exact [of 0 d0 n1 n0] s less.prems(2) unfolding q1 by simp
    have step: "q_test q r n1 n0 n2 d1 d0 = (if r + d1 \<ge> d1 then q_test (q - 1) (r + d1) a b n2 d1 d0
        else Some (q - 1, r + d1, a, b))"
      using True unfolding test [symmetric] by (subst q_test.simps) (simp only: if_True Let_def s fst_conv snd_conv)
    have hi': "LB * t + unat n2 < (unat (q - 1) + 1) * dval (d1, d0)"
      using True q1 by (simp add: D_def)
    show ?thesis
    proof (cases "r + d1 \<ge> d1")
      case nc: True
      then have u: "unat (r + d1) = unat r + unat d1" by (rule add_no_carry)
      have "LB - unat (r + d1) < LB - unat r"
        unfolding u using unat_gt_0 [of d1] d1 unat_lt_LB [of r] by simp
      moreover have "unat (q - 1) * unat d1 + unat (r + d1) = t"
        using less.prems(1) u unfolding q1 by simp
      ultimately show ?thesis
        using less.hyps [OF _ _ p' hi'] nc by (simp add: step)
    next
      case c: False
      then have u: "unat (r + d1) + LB = unat r + unat d1" by (rule add_with_carry)
      have W': "LB * t + unat n2 + dval (a, b) = unat (q - 1) * D + (LB * LB + dval (r + d1, n2))"
      proof -
        have "LB * t = LB * (unat (q - 1) * unat d1) + LB * (unat r + unat d1)"
          unfolding less.prems(1) [symmetric] q1 by (simp add: algebra_simps)
        then show ?thesis unfolding p' D u [symmetric] by (simp add: algebra_simps)
      qed
      have ge: "unat (q - 1) * D \<le> LB * t + unat n2"
        using W' dval_less [of "(a, b)"] by linarith
      define R where "R = LB * t + unat n2 - unat (q - 1) * D"
      have R: "unat (q - 1) * D + R = LB * t + unat n2" using ge by (simp add: R_def)
      have "R < D" using hi' R by (simp add: D_def)
      have "R + dval (a, b) = LB * LB + dval (r + d1, n2)" using R W' by linarith
      then have "(R + dval (a, b)) mod (LB * LB) = dval (r + d1, n2)"
        using dval_less [of "(r + d1, n2)"] by simp
      then show ?thesis
        using R \<open>R < D\<close> c unfolding step D_def by auto
    qed
  qed
qed


lemma mod_add_cancel:
  fixes a b c M :: nat
  assumes "(a + c) mod M = (b + c) mod M" and "a < M" and "b < M"
  shows "a = b"
proof -
  obtain q1 q2 where "a + c + M * q1 = b + c + M * q2"
    using assms(1) by (auto simp: nat_mod_eq_iff)
  then have "a + M * q1 = b + M * q2" by simp
  then have "a mod M = b mod M" by (auto simp: nat_mod_eq_iff)
  then show ?thesis using assms(2,3) by simp
qed

context udiv_step
begin

lemma divrem_2_step_spec:
  assumes ok: "ok d1" and norm: "LB \<le> 2 * unat d1" and lt: "dval (n1, n0) < dval (d1, d0)"
  shows "\<exists>q n1' n0'. divrem_2_step udiv n2 n1 n0 d1 d0 = Some (q, n1', n0')
    \<and> unat q * dval (d1, d0) + dval (n1', n0') = LB * dval (n1, n0) + unat n2 \<and> dval (n1', n0') < dval (d1, d0)"
proof -
  define D where "D = dval (d1, d0)"
  define t where "t = dval (n1, n0)"
  have d1: "d1 \<noteq> 0" using norm by auto
  have D: "D = LB * unat d1 + unat d0" and t: "t = LB * unat n1 + unat n0" by (simp_all add: D_def t_def)
  have n1d1: "n1 \<le> d1"
  proof (rule ccontr)
    assume "\<not> n1 \<le> d1"
    then have "dval (d1, d0) < dval (n1, n0)"
      unfolding dval_pair pair_less_iff [symmetric] by auto
    then show False using lt by simp
  qed
  have WD: "LB * t + unat n2 < LB * D"
  proof -
    have "LB * (t + 1) \<le> LB * D" using lt by (intro mult_le_mono2) (simp add: t_def D_def)
    then show ?thesis using unat_lt_LB [of n2] by simp
  qed
  have finish: "\<exists>q' n1' n0'. (case q_test q r a b n2 d1 d0 of None \<Rightarrow> None
        | Some (q, r, n1, n0) \<Rightarrow> (let (n1, n0) = sub_ddmmss r n2 n1 n0 in Some (q, n1, n0))) = Some (q', n1', n0')
      \<and> unat q' * D + dval (n1', n0') = LB * t + unat n2 \<and> dval (n1', n0') < D"
    if prem: "unat q * unat d1 + unat r = t" "dval (a, b) = unat q * unat d0" "LB * t + unat n2 < (unat q + 1) * D"
    for q r a b
  proof -
    obtain q' r' a' b' R where qt: "q_test q r a b n2 d1 d0 = Some (q', r', a', b')"
      "unat q' * D + R = LB * t + unat n2" "R < D" "(R + dval (a', b')) mod (LB * LB) = dval (r', n2)"
      using q_test_spec [OF prem(1,2) prem(3) [unfolded D_def] d1] unfolding D_def by blast
    obtain n1' n0' where s: "sub_ddmmss r' n2 a' b' = (n1', n0')" by fastforce
    have "(dval (n1', n0') + dval (a', b')) mod (LB * LB) = (R + dval (a', b')) mod (LB * LB)"
      using sub_ddmmss_dval [of r' n2 a' b'] s qt(4) by simp
    moreover have "R < LB * LB" using qt(3) dval_less [of "(d1, d0)"] by (simp add: D_def)
    ultimately have "dval (n1', n0') = R" by (rule mod_add_cancel [OF _ dval_less])
    then show ?thesis using qt s by simp
  qed
  show ?thesis
  proof (cases "n1 = d1")
    case eq: True
    have q: "unat (NOT 0 :: limb) = LB - 1" using unat_not_limb [of 0] by simp
    have "0 < LB" by simp
    then obtain L where L: "LB = L + 1" by (metis Suc_eq_plus1 gr0_implies_Suc)
    have low: "unat n0 < unat d0" using lt eq by simp
    show ?thesis
    proof (cases "n0 + d1 < d1")
      case True
      obtain a b where s: "add_ssaaaa (n0 + d1 - d0) n2 0 d0 = (a, b)" by fastforce
      have st: "divrem_2_step udiv n2 n1 n0 d1 d0 = Some (NOT 0, a, b)"
        using eq True s by (simp add: divrem_2_step_def)
      have u: "unat (n0 + d1) + LB = unat n0 + unat d1"
        using True by (intro add_with_carry) simp
      have u2: "unat (n0 + d1 - d0) + unat d0 = unat n0 + unat d1"
      proof -
        have "n0 + d1 < d0"
          unfolding limb_less_iff using u low unat_lt_LB [of d1] by linarith
        then show ?thesis using sub_borrow [of "n0 + d1" d0] u by simp
      qed
      define R where "R = LB * unat (n0 + d1 - d0) + unat n2 + unat d0"
      have "unat (NOT 0 :: limb) * D + R = LB * t + unat n2"
      proof -
        have "LB * unat (n0 + d1 - d0) + LB * unat d0 = LB * unat n0 + LB * unat d1"
          using u2 by (simp only: distrib_left [symmetric])
        then show ?thesis unfolding q R_def D t eq L by (simp add: algebra_simps)
      qed
      moreover have "R < D"
        using calculation WD unfolding q L by (simp add: algebra_simps)
      moreover have "dval (a, b) = R"
        using add_ssaaaa_dval [of "n0 + d1 - d0" n2 0 d0] s \<open>R < D\<close> dval_less [of "(d1, d0)"]
        by (simp add: R_def D_def)
      ultimately show ?thesis using st unfolding D_def t_def by blast
    next
      case False
      then have r: "unat (n0 + d1) = unat n0 + unat d1" by (intro add_no_carry) simp
      have "dval (d0 - of_bool (d0 \<noteq> 0), - d0) = unat (NOT 0 :: limb) * unat d0"
      proof (cases "d0 = 0")
        case False
        have "unat (- d0) + unat d0 = LB"
          using sub_borrow [of 0 d0] False by (simp add: word_greater_zero_iff)
        moreover have "unat (d0 - 1) + 1 = unat d0"
          using sub_borrow [of d0 1] False by simp
        ultimately have a: "unat d0 = unat (d0 - 1) + 1" and b: "unat (- d0) + unat (d0 - 1) = L"
          using L by simp_all
        have "(L + 1) * unat (d0 - 1) + unat (- d0) = L * unat (d0 - 1) + (unat (- d0) + unat (d0 - 1))"
          by simp
        also have "\<dots> = L * unat d0"
          unfolding b a by simp
        finally have "(L + 1) * unat (d0 - 1) + unat (- d0) = L * unat d0" .
        then show ?thesis
          using False unfolding q dval_pair unfolding L by simp
      qed simp
      moreover have "unat (NOT 0 :: limb) * unat d1 + unat (n0 + d1) = t"
        unfolding r q t eq L by simp
      moreover have "LB * t + unat n2 < (unat (NOT 0 :: limb) + 1) * D"
        using WD q L by simp
      ultimately show ?thesis
        using finish [of "NOT 0" "n0 + d1" "d0 - of_bool (d0 \<noteq> 0)" "- d0"] eq False
        unfolding divrem_2_step_def D_def t_def by simp
    qed
  next
    case False
    then have nlt: "n1 < d1" using n1d1 by simp
    obtain q r where u: "udiv n1 n0 d1 = (q, r)" by fastforce
    have us: "unat q * unat d1 + unat r = t" "unat r < unat d1"
      using udiv_spec [OF ok nlt u] by (simp_all add: t limb_less_iff)
    obtain a b where p: "umul_ppmm d0 q = (a, b)" by fastforce
    have ps: "dval (a, b) = unat q * unat d0"
      using umul_ppmm_correct [of d0 q] p by (simp add: mult.commute)
    have "LB * t + unat n2 < (unat q + 1) * D"
    proof -
      have "LB * (t + 1) \<le> LB * ((unat q + 1) * unat d1)"
        using us by (intro mult_le_mono2) (simp add: distrib_right)
      also have "\<dots> \<le> (unat q + 1) * D"
        unfolding D by (simp add: algebra_simps)
      finally show ?thesis using unat_lt_LB [of n2] by simp
    qed
    from finish [OF us(1) ps this] show ?thesis
      using False u p unfolding divrem_2_step_def D_def t_def by simp
  qed
qed

end

context udiv_step
begin

lemma divrem_2_loop_spec:
  assumes ok: "ok d1" and norm: "LB \<le> 2 * unat d1" and lt: "dval (n1, n0) < dval (d1, d0)"
    and sep: "np + 1 \<le> qp \<or> qp + k \<le> np"
  shows "\<exists>n1' n0' m'. divrem_2_loop udiv k qp qxn np d1 d0 n1 n0 m = Some (n1', n0', m')
    \<and> mval m' qp k * dval (d1, d0) + dval (n1', n0') = LB ^ k * dval (n1, n0) + LB ^ qxn * mval m np (k - qxn)
    \<and> dval (n1', n0') < dval (d1, d0) \<and> only_at ({qp..<qp + k} \<union> {np..<np + 1}) m m'"
  using lt sep
proof (induction k arbitrary: n1 n0 m)
  case 0
  then show ?case by simp
next
  case (Suc k)
  define D where "D = dval (d1, d0)"
  define ma where "ma = (if k \<ge> qxn then m else m(np := 0))"
  define n2 where "n2 = ma (np + (k - qxn))"
  from divrem_2_step_spec [OF ok norm Suc.prems(1), of n2]
  obtain q r1 r0 where st: "divrem_2_step udiv n2 n1 n0 d1 d0 = Some (q, r1, r0)"
    "unat q * D + dval (r1, r0) = LB * dval (n1, n0) + unat n2" "dval (r1, r0) < D"
    unfolding D_def by blast
  define m2 where "m2 = ma(qp + k := q)"
  have sep': "np + 1 \<le> qp \<or> qp + k \<le> np" using Suc.prems(2) by auto
  from Suc.IH [of r1 r0 m2] st(3) sep'
  obtain n1' n0' m' where IH: "divrem_2_loop udiv k qp qxn np d1 d0 r1 r0 m2 = Some (n1', n0', m')"
    "mval m' qp k * D + dval (n1', n0') = LB ^ k * dval (r1, r0) + LB ^ qxn * mval m2 np (k - qxn)"
    "dval (n1', n0') < D" "only_at ({qp..<qp + k} \<union> {np..<np + 1}) m2 m'"
    unfolding D_def by blast
  have eq: "divrem_2_loop udiv (Suc k) qp qxn np d1 d0 n1 n0 m = Some (n1', n0', m')"
    using st(1) IH(1) by (simp add: Let_def flip: ma_def) (simp add: m2_def flip: n2_def)
  have top: "m' (qp + k) = q"
  proof -
    have "m' (qp + k) = m2 (qp + k)"
      by (rule only_atD [OF IH(4)]) (use Suc.prems(2) in auto)
    then show ?thesis by (simp add: m2_def)
  qed
  have low: "mval m2 np (k - qxn) = mval m np (k - qxn)"
  proof -
    have "mval m2 np (k - qxn) = mval ma np (k - qxn)"
      unfolding m2_def using Suc.prems(2) by (intro mval_upd_out) auto
    then show ?thesis by (auto simp: ma_def)
  qed
  have val: "LB ^ k * unat n2 + LB ^ qxn * mval m np (k - qxn) = LB ^ qxn * mval m np (Suc k - qxn)"
  proof (cases "qxn \<le> k")
    case True
    then obtain j where j: "k = qxn + j" using le_Suc_ex by blast
    have "n2 = m (np + j)" by (simp add: n2_def ma_def j)
    then show ?thesis
      using mval_high [of m np j] by (simp add: j power_add distrib_left Suc_diff_le del: mval.simps)
  next
    case False
    then show ?thesis by (simp add: n2_def ma_def)
  qed
  have "mval m' qp (Suc k) * D + dval (n1', n0') = LB ^ k * (unat q * D + dval (r1, r0)) + LB ^ qxn * mval m np (k - qxn)"
    using IH(2) unfolding mval_high top low by (simp add: algebra_simps)
  also have "\<dots> = LB ^ Suc k * dval (n1, n0) + LB ^ qxn * mval m np (Suc k - qxn)"
    unfolding st(2) val [symmetric] by (simp add: algebra_simps)
  finally have "mval m' qp (Suc k) * D + dval (n1', n0') = LB ^ Suc k * dval (n1, n0) + LB ^ qxn * mval m np (Suc k - qxn)" .
  moreover have "only_at ({qp..<qp + Suc k} \<union> {np..<np + 1}) m m'"
  proof (rule only_at_trans)
    show "only_at ({qp..<qp + Suc k} \<union> {np..<np + 1}) m m2"
      unfolding m2_def ma_def by (auto simp: only_at_def)
    show "only_at ({qp..<qp + Suc k} \<union> {np..<np + 1}) m2 m'"
      by (rule only_at_mono [OF IH(4)]) auto
  qed
  ultimately show ?case using eq IH(3) unfolding D_def by blast
qed

end

lemma mpn_divrem_2_spec:
  assumes nn: "2 \<le> nn" and norm: "LB \<le> 2 * unat (m (dp + 1))"
    and qnp: "qp + (nn - 2 + qxn) \<le> np \<or> np + 2 \<le> qp"
  shows "\<exists>qh m'. mpn_divrem_2 qp qxn np nn dp m = Some (qh, m')
    \<and> (mval m' qp (qxn + nn - 2) + LB ^ (qxn + nn - 2) * unat qh) * mval m dp 2 + mval m' np 2 = LB ^ qxn * mval m np nn
    \<and> mval m' np 2 < mval m dp 2 \<and> qh \<le> 1
    \<and> only_at ({qp..<qp + (qxn + nn - 2)} \<union> {np..<np + 2}) m m'"
proof -
  obtain j where j: "nn = j + 2" using nn by (metis le_add_diff_inverse2)
  define nh where "nh = np + j"
  define d1 d0 n1 n0 where "d1 = m (dp + 1)" "d0 = m dp" "n1 = m (nh + 1)" "n0 = m nh"
  note defs = this
  define D where "D = dval (d1, d0)"
  have mv2: "mval mm p 2 = dval (mm (p + 1), mm p)" for mm p
    by (simp add: numeral_2_eq_2)
  have D: "D = mval m dp 2" unfolding mv2 D_def defs ..
  have nrm: "LB \<le> 2 * unat d1" using norm by (simp add: defs)
  have D2: "LB * LB \<le> 2 * D"
    using mult_le_mono2 [OF nrm, of LB]
    by (simp only: D_def dval_pair distrib_left mult.left_commute [of LB 2] trans_le_add1)
  have test: "n1 \<ge> d1 \<and> (n1 > d1 \<or> n0 \<ge> d0) \<longleftrightarrow> D \<le> dval (n1, n0)"
  proof -
    have "n1 \<ge> d1 \<and> (n1 > d1 \<or> n0 \<ge> d0) \<longleftrightarrow> \<not> (n1 < d1 \<or> (n1 = d1 \<and> n0 < d0))" by auto
    then show ?thesis unfolding pair_less_iff D_def dval_pair by (simp only: not_less)
  qed
  obtain qh :: limb and r1 r0 where ph: "(if n1 \<ge> d1 \<and> (n1 > d1 \<or> n0 \<ge> d0)
      then (let (n1, n0) = sub_ddmmss n1 n0 d1 d0 in (1, n1, n0)) else (0, n1, n0)) = (qh, r1, r0)"
    using prod_cases3 by blast
  have P: "unat qh * D + dval (r1, r0) = dval (n1, n0) \<and> dval (r1, r0) < D \<and> qh \<le> 1"
  proof (cases "D \<le> dval (n1, n0)")
    case True
    obtain a b where s: "sub_ddmmss n1 n0 d1 d0 = (a, b)" by fastforce
    have r: "qh = 1" "r1 = a" "r0 = b" using ph True unfolding test by (auto simp: s)
    have "dval (a, b) = dval (n1, n0) - D"
      using sub_ddmmss_exact [of d1 d0 n1 n0] True s by (simp add: D_def)
    moreover have "dval (n1, n0) < 2 * D" using D2 dval_less [of "(n1, n0)"] by linarith
    ultimately show ?thesis using True r by simp
  next
    case False
    then have "qh = 0" "r1 = n1" "r0 = n0" using ph unfolding test by auto
    then show ?thesis using False by simp
  qed
  define k where "k = qxn + j"
  define loop where "loop = (if ABOVE_THRESHOLD k DIVREM_2_THRESHOLD
      then divrem_2_loop (\<lambda>nh nl d. udiv_qrnnd_preinv nh nl d (invert_limb d1)) k qp qxn np d1 d0 r1 r0 m
      else divrem_2_loop udiv_qrnnd k qp qxn np d1 d0 r1 r0 m)"
  have sep: "np + 1 \<le> qp \<or> qp + k \<le> np" using qnp j by (auto simp: k_def)
  have inv: "LB \<le> 2 * unat d1 \<and> is_inverse (invert_limb d1) d1"
    using nrm invert_limb_correct [OF nrm] by blast
  have lt: "dval (r1, r0) < dval (d1, d0)" using P by (simp add: D_def)
  obtain s1 s0 m1 where L: "loop = Some (s1, s0, m1)"
    "mval m1 qp k * D + dval (s1, s0) = LB ^ k * dval (r1, r0) + LB ^ qxn * mval m np j"
    "dval (s1, s0) < D" "only_at ({qp..<qp + k} \<union> {np..<np + 1}) m m1"
    using plain.divrem_2_loop_spec [OF nrm nrm lt sep, of qxn m] preinv.divrem_2_loop_spec [OF inv nrm lt sep, of qxn m]
    unfolding loop_def D_def by (cases "ABOVE_THRESHOLD k DIVREM_2_THRESHOLD") (auto simp: k_def)
  define m' where "m' = m1(np + 1 := s1, np := s0)"
  have idx: "nn - 2 = j" "qxn + nn - 2 = k" using j by (simp_all add: k_def)
  have res: "mpn_divrem_2 qp qxn np nn dp m = Some (qh, m')"
    using L(1) ph unfolding mpn_divrem_2_def Let_def idx nh_def [symmetric] defs [symmetric] m'_def loop_def
    by (simp split: if_splits)
  have q: "mval m' qp k = mval m1 qp k"
    unfolding m'_def using qnp j by (auto simp: k_def idx intro!: mval_upd_out)
  have r: "mval m' np 2 = dval (s1, s0)" unfolding mv2 m'_def by simp
  have N: "mval m np nn = mval m np j + LB ^ j * dval (n1, n0)"
    unfolding j mval_add mv2 defs nh_def ..
  have "(mval m1 qp k + LB ^ k * unat qh) * D + dval (s1, s0) = LB ^ k * (unat qh * D + dval (r1, r0)) + LB ^ qxn * mval m np j"
    using L(2) by (simp add: algebra_simps)
  also have "\<dots> = LB ^ qxn * mval m np nn"
    using P unfolding N k_def by (simp add: power_add algebra_simps)
  finally have val: "(mval m' qp k + LB ^ k * unat qh) * mval m dp 2 + mval m' np 2 = LB ^ qxn * mval m np nn"
    unfolding q r D .
  have "only_at ({qp..<qp + k} \<union> {np..<np + 2}) m m'"
  proof (rule only_at_trans)
    show "only_at ({qp..<qp + k} \<union> {np..<np + 2}) m m1"
      by (rule only_at_mono [OF L(4)]) auto
    show "only_at ({qp..<qp + k} \<union> {np..<np + 2}) m1 m'"
      unfolding m'_def by (auto simp: only_at_def)
  qed
  moreover have "mval m' np 2 < mval m dp 2" using L(3) unfolding r D .
  ultimately show ?thesis
    using res val P unfolding idx by blast
qed

end
