(* ===== verification/Mpn_DivDc.thy ===== *)
theory Mpn_DivDc
  imports Mpn_Div Mpn_Product
begin

text \<open>
  Divide-and-conquer division (\<open>mpn/generic/dc_divrem_n.c\<close>) by a normalized divisor: \<open>{np,2n}\<close> by \<open>{dp,n}\<close>, by
  two divisions of three halves by two, each of which divides the high parts recursively, subtracts the product
  with the low part of the divisor and corrects the quotient while the remainder is negative.  The temporary
  blocks are taken from \<open>fp\<close> upwards.  \<open>None\<close> stands for the sizes at which \<open>mpn_mul_n\<close> goes on to Toom-3.
\<close>

unbundle bit_operations_syntax

section \<open>The functions\<close>

definition DIV_DC_THRESHOLD :: nat where
  "DIV_DC_THRESHOLD = 92"

text \<open>The correction of an estimate that is too large: \<open>cc\<close> is what was borrowed from above \<open>{np,n}\<close>.\<close>

partial_function (option) dc_correct :: "ptr \<Rightarrow> nat \<Rightarrow> ptr \<Rightarrow> ptr \<Rightarrow> nat \<Rightarrow> limb \<Rightarrow> limb \<Rightarrow> mem \<Rightarrow> (limb \<times> mem) option" where
  "dc_correct qp qn np dp n qhl cc m =
     (if cc \<noteq> 0
      then (let (c, m) = mpn_sub_1 qp qp qn 1 m;
                qhl = qhl - c;
                (c, m) = mpn_add_n np np dp n m;
                cc = cc - c
            in dc_correct qp qn np dp n qhl cc m)
      else Some (qhl, m))"

function mpn_dc_divrem_n :: "ptr \<Rightarrow> ptr \<Rightarrow> ptr \<Rightarrow> nat \<Rightarrow> ptr \<Rightarrow> mem \<Rightarrow> (limb \<times> mem) option"
  and mpn_dc_div_3_halves_by_2 :: "ptr \<Rightarrow> ptr \<Rightarrow> ptr \<Rightarrow> nat \<Rightarrow> ptr \<Rightarrow> mem \<Rightarrow> (limb \<times> mem) option" where
  "mpn_dc_divrem_n qp np dp n fp m =
     (if odd n
      then do {
        (qhl, m) \<leftarrow> mpn_dc_divrem_n (qp + 1) (np + 2) (dp + 1) (n - 1) fp m;
        let (cc, m) = mpn_submul_1 (np + 1) (qp + 1) (n - 1) (m dp) m;
        let (cc, m) = mpn_sub_1 (np + n) (np + n) 1 cc m;
        let (cc, m) = (if qhl \<noteq> 0 then (let (c, m) = mpn_sub_1 (np + n) (np + n) 1 (m dp) m in (cc + c, m)) else (cc, m));
        (qhl, m) \<leftarrow> dc_correct (qp + 1) (n - 1) (np + 1) dp n qhl cc m;
        let (h, m) = mpn_sb_divrem_mn qp np (n + 1) dp n m;
        let (c, m) = mpn_add_1 (qp + 1) (qp + 1) (n - 1) h m;
        Some (qhl + c, m)
      }
      else do {
        let n2 = n div 2;
        (qhl, m) \<leftarrow> mpn_dc_div_3_halves_by_2 (qp + n2) (np + n2) dp n2 fp m;
        (h, m) \<leftarrow> mpn_dc_div_3_halves_by_2 qp np dp n2 fp m;
        let (c, m) = mpn_add_1 (qp + n2) (qp + n2) n2 h m;
        Some (qhl + c, m)
      })"
| "mpn_dc_div_3_halves_by_2 qp np dp n fp m =
     do {
       let twon = n + n;
       (qhl, m) \<leftarrow> (if n < DIV_DC_THRESHOLD then Some (mpn_sb_divrem_mn qp (np + n) twon (dp + n) n m)
                    else mpn_dc_divrem_n qp (np + n) (dp + n) n fp m);
       let tmp = fp;
       m \<leftarrow> mpn_mul_n tmp qp dp n (fp + twon) m;
       let (cc, m) = mpn_sub_n np np tmp twon m;
       let (cc, m) = (if qhl \<noteq> 0 then (let (c, m) = mpn_sub_n (np + n) (np + n) dp n m in (cc + c, m)) else (cc, m));
       dc_correct qp n np dp twon qhl cc m
     }"
  by pat_completeness auto
termination
  by (relation "measure (case_sum (\<lambda>(qp, np, dp, n, fp, m). 2 * n + 1) (\<lambda>(qp, np, dp, n, fp, m). if n < DIV_DC_THRESHOLD then 0 else 2 * n + 2))")
    (auto simp: DIV_DC_THRESHOLD_def elim!: oddE)

section \<open>Normalized divisors\<close>

lemma top_limb_bounds:
  fixes n :: nat
  assumes "1 \<le> n"
  shows "LB ^ (n - 1) * unat (m (p + n - 1)) \<le> mval m p n" "mval m p n < LB ^ (n - 1) * (unat (m (p + n - 1)) + 1)"
proof -
  obtain k where n: "n = Suc k" using assms by (cases n) auto
  show "LB ^ (n - 1) * unat (m (p + n - 1)) \<le> mval m p n" "mval m p n < LB ^ (n - 1) * (unat (m (p + n - 1)) + 1)"
    unfolding n mval_high using mval_less [of m p k] by simp_all
qed

lemma normalized_iff: "1 \<le> n \<Longrightarrow> LB \<le> 2 * unat (m (p + n - 1)) \<longleftrightarrow> LB ^ n \<le> 2 * mval m p n"
proof -
  assume n: "1 \<le> n"
  define k t where "k = n - 1" and "t = unat (m (p + n - 1))"
  note b = top_limb_bounds [OF n, of m p, folded k_def t_def]
  have L: "LB ^ n = LB ^ k * LB" using n by (simp add: k_def flip: power_Suc2)
  show "LB \<le> 2 * t \<longleftrightarrow> LB ^ n \<le> 2 * mval m p n"
  proof
    assume "LB \<le> 2 * t"
    then have "LB ^ k * LB \<le> LB ^ k * (2 * t)" by (rule mult_le_mono2)
    then show "LB ^ n \<le> 2 * mval m p n" using b(1) L unfolding mult.left_commute [of "LB ^ k" 2] by linarith
  next
    assume "LB ^ n \<le> 2 * mval m p n"
    then have "LB ^ k * LB < LB ^ k * (2 * (t + 1))" using b(2) L by (simp add: algebra_simps)
    then have "LB < 2 * (t + 1)" by (rule mult_less_cancel1 [THEN iffD1, THEN conjunct2])
    then show "LB \<le> 2 * t" by (simp add: LB_def)
  qed
qed

lemma even_bound: "a \<le> y \<Longrightarrow> y \<le> 2 * x + 1 \<Longrightarrow> even a \<Longrightarrow> a \<le> 2 * (x :: nat)"
  by presburger

lemma normalized_high:
  assumes "LB ^ (i + n) \<le> 2 * D" "1 \<le> n"
  shows "LB ^ n \<le> 2 * (D div LB ^ i)"
proof (rule even_bound)
  have e: "(LB ^ i * x) div LB ^ i = x" for x by (simp add: LB_def)
  have "LB ^ i * LB ^ n \<le> 2 * D" using assms(1) unfolding power_add .
  then show "LB ^ n \<le> (2 * D) div LB ^ i" using div_le_mono [of _ "2 * D" "LB ^ i"] e by metis
  have "D < LB ^ i * (D div LB ^ i + 1)" by (simp add: LB_def dividend_less_times_div)
  then have "2 * D < LB ^ i * (2 * (D div LB ^ i) + 2)" by (simp add: distrib_left)
  then have "(2 * D) div LB ^ i < 2 * (D div LB ^ i) + 2" by (simp add: less_mult_imp_div_less mult.commute)
  then show "(2 * D) div LB ^ i \<le> 2 * (D div LB ^ i) + 1" by simp
  show "even (LB ^ n)" using assms(2) by (simp add: LB_def)
qed

lemma quotient_high_zero:
  assumes "(q + LB ^ n * h) * d + r = a" "r < d" "a < d * LB ^ n"
  shows "h = 0" "q = a div d" "r = a mod (d :: nat)"
proof -
  show h: "h = 0"
  proof (rule ccontr)
    assume "h \<noteq> 0"
    then have "LB ^ n * 1 \<le> LB ^ n * h" by (intro mult_le_mono2) simp
    then have "LB ^ n \<le> q + LB ^ n * h" by linarith
    then have "LB ^ n * d \<le> (q + LB ^ n * h) * d" by (rule mult_le_mono1)
    then show False using assms(1,3) unfolding mult.commute [of d] by linarith
  qed
  have e: "a = r + q * d" using assms(1) h by simp
  show "q = a div d" "r = a mod d" using assms(2) unfolding e by simp_all
qed

section \<open>The correction\<close>

lemma dc_correct_spec:
  fixes N D :: nat and V :: int
  assumes D: "mval m dp n = D" "0 < D" and sz: "1 \<le> qn" "1 \<le> n"
    and V: "V = int (mval m np n) - int (LB ^ n * unat cc)" "V < int D"
    and N: "int N = int (mval m qp qn + LB ^ qn * unat qhl) * int D + V"
    and o: "\<not> MPN_OVERLAP_P qp qn np n" "\<not> MPN_OVERLAP_P qp qn dp n" "\<not> MPN_OVERLAP_P np n dp n"
  shows "\<exists>h m'. dc_correct qp qn np dp n qhl cc m = Some (h, m')
    \<and> mval m' qp qn + LB ^ qn * unat h = N div D \<and> mval m' np n = N mod D
    \<and> only_at ({qp..<qp + qn} \<union> {np..<np + n}) m m'"
  using assms
proof (induction "nat (- V)" arbitrary: V cc qhl m rule: less_induct)
  case less
  let ?S = "{qp..<qp + qn} \<union> {np..<np + n}"
  note o' = less.prems(8-10) [unfolded no_overlap_iff]
  show ?case
  proof (cases "cc = 0")
    case True
    have V: "V = int (mval m np n)" using less.prems(5) True by simp
    then have "mval m np n < D" using less.prems(6) by simp
    moreover have "N = mval m np n + (mval m qp qn + LB ^ qn * unat qhl) * D" using less.prems(7) unfolding V by (simp flip: of_nat_mult of_nat_add)
    ultimately have "mval m qp qn + LB ^ qn * unat qhl = N div D" "mval m np n = N mod D" by simp_all
    moreover have "dc_correct qp qn np dp n qhl cc m = Some (qhl, m)" using True by (subst dc_correct.simps) simp
    ultimately show ?thesis by simp
  next
    case False
    then have c1: "1 \<le> unat cc" by (simp add: Suc_le_eq unat_gt_0)
    obtain b m1 where s1: "mpn_sub_1 qp qp qn 1 m = (b, m1)" by fastforce
    obtain c m2 where s2: "mpn_add_n np np dp n m1 = (c, m2)" by fastforce
    have "MPN_SAME_OR_SEPARATE_P qp qp qn" by (simp add: overlap_defs)
    note S1 = mpn_sub_1_spec [OF s1 less.prems(3) this]
    have "MPN_SAME_OR_INCR_P np np n" "MPN_SAME_OR_INCR_P np dp n" using less.prems(10) by (auto simp: overlap_defs)
    note S2 = mpn_add_n_spec [OF s2 this]
    have v1: "mval m1 np n = mval m np n" "mval m1 dp n = D"
      using only_in_mval [OF S1(3), of np n] only_in_mval [OF S1(3), of dp n] o' less.prems(1) by auto
    have v2: "mval m2 dp n = D" "mval m2 qp qn = mval m1 qp qn"
      using only_in_mval [OF S2(3), of dp n] only_in_mval [OF S2(3), of qp qn] o' v1 by auto
    have "LB ^ n * 1 \<le> LB ^ n * unat cc" using c1 by (rule mult_le_mono2)
    then have neg: "V < 0" using less.prems(5) mval_less [of m np n] by linarith
    have q1: "1 \<le> mval m qp qn + LB ^ qn * unat qhl"
    proof (rule ccontr)
      assume "\<not> ?thesis"
      then have "mval m qp qn + LB ^ qn * unat qhl = 0" by linarith
      then have "int N = V" using less.prems(7) by simp
      then show False using neg by simp
    qed
    have bq: "unat b \<le> unat qhl"
    proof (cases "unat b = 0")
      case nb: False
      then have "unat b = 1" using S1(2) by simp
      then have "mval m qp qn = 0" using S1(1) mval_less [of m1 qp qn] by simp
      then show ?thesis using q1 S1(2) by (cases "unat qhl") auto
    qed simp
    have cb: "unat c \<le> unat cc" using S2(2) c1 by simp
    have ub: "unat (qhl - b) = unat qhl - unat b" "unat (cc - c) = unat cc - unat c"
      using bq cb by (simp_all add: unat_minus_limb limb_le_iff)
    have Q: "mval m2 qp qn + LB ^ qn * unat (qhl - b) + 1 = mval m qp qn + LB ^ qn * unat qhl"
    proof -
      have "LB ^ qn * unat b \<le> LB ^ qn * unat qhl" using bq by (rule mult_le_mono2)
      moreover have "mval m1 qp qn + 1 = mval m qp qn + LB ^ qn * unat b" using S1(1) by simp
      ultimately show ?thesis unfolding v2 ub diff_mult_distrib2 by linarith
    qed
    have R: "int (mval m2 np n) - int (LB ^ n * unat (cc - c)) = V + int D"
    proof -
      have "int (mval m2 np n + LB ^ n * unat c) = int (mval m np n + D)" using S2(1) unfolding v1 by (simp only:)
      moreover have "int (LB ^ n * unat (cc - c)) = int (LB ^ n * unat cc) - int (LB ^ n * unat c)"
        unfolding ub using cb by (simp add: diff_mult_distrib2 of_nat_diff)
      ultimately show ?thesis using less.prems(5) unfolding of_nat_add by linarith
    qed
    have N2: "int N = int (mval m2 qp qn + LB ^ qn * unat (qhl - b)) * int D + (V + int D)"
      using less.prems(7) unfolding Q [symmetric] by (simp add: algebra_simps)
    have "nat (- (V + int D)) < nat (- V)" using neg less.prems(2) by simp
    from less.hyps [OF this v2(1) less.prems(2-4) R [symmetric] _ N2 less.prems(8-10)] neg
    obtain h m' where I: "dc_correct qp qn np dp n (qhl - b) (cc - c) m2 = Some (h, m')"
        "mval m' qp qn + LB ^ qn * unat h = N div D" "mval m' np n = N mod D" "only_at ?S m2 m'" by auto
    have "dc_correct qp qn np dp n qhl cc m = Some (h, m')" using I(1) False s1 s2 by (subst dc_correct.simps) simp
    moreover have "only_at ?S m m'"
      using only_in_at [OF S1(3), of ?S] only_in_at [OF S2(3), of ?S] I(4) by (meson Un_upper1 Un_upper2 only_at_trans)
    ultimately show ?thesis using I by blast
  qed
qed


section \<open>Three halves by two\<close>

text \<open>A division of \<open>{np,nn}\<close> by \<open>{dp,dn}\<close> that returns the high limb of the quotient.\<close>

definition dc_divides :: "(limb \<times> mem) option \<Rightarrow> ptr \<Rightarrow> nat \<Rightarrow> ptr \<Rightarrow> nat \<Rightarrow> ptr \<Rightarrow> nat \<Rightarrow> ptr \<Rightarrow> mem \<Rightarrow> bool" where
  "dc_divides r qp qn np nn dp dn fp m \<longleftrightarrow>
     (\<exists>h m'. r = Some (h, m') \<and> mval m' qp qn + LB ^ qn * unat h = mval m np nn div mval m dp dn
        \<and> mval m' np dn = mval m np nn mod mval m dp dn \<and> only_at ({qp..<qp + qn} \<union> {np..<np + nn} \<union> {fp..}) m m')"

definition dc_regions :: "ptr \<Rightarrow> nat \<Rightarrow> ptr \<Rightarrow> nat \<Rightarrow> ptr \<Rightarrow> nat \<Rightarrow> ptr \<Rightarrow> bool" where
  "dc_regions qp qn np nn dp dn fp \<longleftrightarrow> qp + qn \<le> fp \<and> np + nn \<le> fp \<and> dp + dn \<le> fp
     \<and> (qp + qn \<le> np \<or> np + nn \<le> qp) \<and> (qp + qn \<le> dp \<or> dp + dn \<le> qp) \<and> (np + nn \<le> dp \<or> dp + dn \<le> np)"

lemma dc_sub_regions:
  "dc_regions qp qn np nn dp dn fp \<Longrightarrow> qp \<le> qp' \<Longrightarrow> qp' + qn' \<le> qp + qn \<Longrightarrow> np \<le> np' \<Longrightarrow> np' + nn' \<le> np + nn \<Longrightarrow>
    dp \<le> dp' \<Longrightarrow> dp' + dn' \<le> dp + dn \<Longrightarrow> dc_regions qp' qn' np' nn' dp' dn' fp"
  unfolding dc_regions_def by auto

lemma sb_divides:
  assumes "dc_regions qp (nn - dn) np nn dp dn fp" "2 \<le> dn" "dn \<le> nn" "LB ^ dn \<le> 2 * mval m dp dn"
  shows "dc_divides (Some (mpn_sb_divrem_mn qp np nn dp dn m)) qp (nn - dn) np nn dp dn fp m"
proof -
  obtain h m' where e: "mpn_sb_divrem_mn qp np nn dp dn m = (h, m')" by fastforce
  have n: "LB \<le> 2 * unat (m (dp + dn - 1))" using assms(2,4) normalized_iff [of dn m dp] by simp
  have "\<not> MPN_OVERLAP_P np nn dp dn" "\<not> MPN_OVERLAP_P qp (nn - dn) dp dn" "\<not> MPN_OVERLAP_P qp (nn - dn) np nn \<or> np + dn \<le> qp"
    using assms(1) by (auto simp: dc_regions_def no_overlap_iff)
  note S = mpn_sb_divrem_mn_spec [OF e assms(2,3) n this]
  have "mval m np nn = mval m' np dn + (mval m' qp (nn - dn) + LB ^ (nn - dn) * unat h) * mval m dp dn" using S(1) by simp
  then have "mval m' qp (nn - dn) + LB ^ (nn - dn) * unat h = mval m np nn div mval m dp dn" "mval m' np dn = mval m np nn mod mval m dp dn"
    using S(2) by simp_all
  then show ?thesis unfolding dc_divides_def e using only_at_mono [OF S(4)] by blast
qed

lemma quotient_bit:
  assumes "LB ^ dn \<le> 2 * D" "N < LB ^ (qn + dn)" "q + LB ^ qn * h = N div D"
  shows "h \<le> (1 :: nat)"
proof -
  have "N < LB ^ qn * LB ^ dn" using assms(2) by (simp add: power_add)
  also have "\<dots> \<le> LB ^ qn * (2 * D)" by (rule mult_le_mono2 [OF assms(1)])
  finally have "N < (2 * LB ^ qn) * D" by (simp add: mult.commute mult.left_commute)
  then have "N div D < 2 * LB ^ qn" by (rule less_mult_imp_div_less)
  then have "LB ^ qn * h < LB ^ qn * 2" using assms(3) by linarith
  then have "h < 2" by (simp only: mult_less_cancel1)
  then show ?thesis by simp
qed

lemma dc_div_3_halves_spec:
  assumes n: "2 \<le> n" "n < MUL_TOOM3_THRESHOLD" and reg: "dc_regions qp n np (3 * n) dp (2 * n) fp"
    and D: "LB ^ (2 * n) \<le> 2 * mval m dp (2 * n)"
    and rec: "DIV_DC_THRESHOLD \<le> n \<Longrightarrow> dc_divides (mpn_dc_divrem_n qp (np + n) (dp + n) n fp m) qp n (np + n) (2 * n) (dp + n) n fp m"
  shows "dc_divides (mpn_dc_div_3_halves_by_2 qp np dp n fp m) qp n np (3 * n) dp (2 * n) fp m"
proof -
  define S where "S = {qp..<qp + n} \<union> {np..<np + 3 * n} \<union> {fp..}"
  define N D D1 D0 N1 N0 where "N = mval m np (3 * n)" and "D = mval m dp (2 * n)" and "D1 = mval m (dp + n) n" and "D0 = mval m dp n"
    and "N1 = mval m (np + n) (2 * n)" and "N0 = mval m np n"
  note R = reg [unfolded dc_regions_def]
  have Ds: "D = D0 + LB ^ n * D1" "N = N0 + LB ^ n * N1"
    using mval_add [of m dp n n] mval_split [of n "3 * n" m np] by (simp_all add: D_def D0_def D1_def N_def N0_def N1_def mult_2)
  have n1: "LB ^ n \<le> 2 * D1"
  proof -
    have "D div LB ^ n = D1" using mval_less [of m dp n] unfolding Ds D0_def [symmetric] by simp
    then show ?thesis using normalized_high [of n n D] D n(1) unfolding D_def [symmetric] mult_2 [symmetric] by simp
  qed
  then have D1: "0 < D1" "0 < D" using Ds(1) by (cases "D1 = 0"; simp add: LB_def)+
  define r where "r = (if n < DIV_DC_THRESHOLD then Some (mpn_sb_divrem_mn qp (np + n) (n + n) (dp + n) n m) else mpn_dc_divrem_n qp (np + n) (dp + n) n fp m)"
  have "dc_divides r qp n (np + n) (2 * n) (dp + n) n fp m"
  proof (cases "n < DIV_DC_THRESHOLD")
    case True
    have "dc_regions qp n (np + n) (2 * n) (dp + n) n fp" by (rule dc_sub_regions [OF reg]) simp_all
    then show ?thesis using sb_divides [of qp "2 * n" n "np + n" "dp + n" fp m] n(1) n1 True by (simp add: r_def D1_def mult_2)
  next
    case False
    then show ?thesis using rec by (simp add: r_def)
  qed
  then obtain qhl m1 where r: "r = Some (qhl, m1)" and q: "mval m1 qp n + LB ^ n * unat qhl = N1 div D1" and rem: "mval m1 (np + n) n = N1 mod D1"
    and f1: "only_at ({qp..<qp + n} \<union> {np + n..<np + n + 2 * n} \<union> {fp..}) m m1"
    unfolding dc_divides_def N1_def [symmetric] D1_def [symmetric] by blast
  have v1: "mval m1 np n = N0" "mval m1 dp n = D0" "mval m1 (dp + n) n = D1" "mval m1 dp (2 * n) = D"
    unfolding N0_def D0_def D1_def D_def by (rule only_at_mval [OF f1]; use R in auto)+
  have "product_step (mpn_mul_n fp qp dp n (fp + (n + n))) fp qp n dp n ({fp..<fp + 2 * n} \<union> {fp + (n + n)..<fp + (n + n) + kara_room n})"
    by (rule mpn_mul_n_step) (use n R in \<open>auto simp: no_overlap_iff\<close>)
  then obtain m2 where s2: "mpn_mul_n fp qp dp n (fp + (n + n)) m1 = Some m2" and p2: "mval m2 fp (n + n) = mval m1 qp n * mval m1 dp n"
    and "only_at ({fp..<fp + 2 * n} \<union> {fp + (n + n)..<fp + (n + n) + kara_room n}) m1 m2" by (rule product_stepE)
  then have f2: "only_at {fp..} m1 m2" by (elim only_at_mono) auto
  have w2: "mval m2 qp n = mval m1 qp n" "mval m2 np n = mval m1 np n" "mval m2 (np + n) n = mval m1 (np + n) n"
    "mval m2 dp n = mval m1 dp n" "mval m2 dp (2 * n) = mval m1 dp (2 * n)"
    by (rule only_at_mval [OF f2]; use R in auto)+
  note v2 = w2 [unfolded v1 rem]
  obtain c1 m3 where s3: "mpn_sub_n np np fp (n + n) m2 = (c1, m3)" by fastforce
  have "MPN_SAME_OR_INCR_P np np (n + n)" "MPN_SAME_OR_INCR_P np fp (n + n)" using R by (auto simp: overlap_defs)
  note S3 = mpn_sub_n_spec [OF s3 this]
  have np2: "mval m2 np (n + n) = N0 + LB ^ n * (N1 mod D1)" unfolding mval_add v2 ..
  have v3: "mval m3 qp n = mval m1 qp n" "mval m3 dp n = D0" "mval m3 dp (2 * n) = D"
    unfolding v2 [symmetric] by (rule only_in_mval [OF S3(3)]; use R in auto)+
  define r4 where "r4 = (if qhl \<noteq> 0 then (let (c, m) = mpn_sub_n (np + n) (np + n) dp n m3 in (c1 + c, m)) else (c1, m3))"
  obtain cc m4 where s4: "r4 = (cc, m4)" by fastforce
  have qb: "unat qhl \<le> 1"
    by (rule quotient_bit [OF n1 _ q]) (use mval_less [of m "np + n" "2 * n"] in \<open>simp add: N1_def mult_2\<close>)
  have A: "int (mval m4 np (2 * n)) - int (LB ^ (2 * n) * unat cc) = int (mval m3 np (2 * n)) - int (LB ^ (2 * n) * unat c1) - int (LB ^ n * unat qhl * D0)
      \<and> only_in (np + n) n m3 m4"
  proof (cases "qhl = 0")
    case True
    then show ?thesis using s4 by (auto simp: r4_def)
  next
    case False
    then have q1: "unat qhl = 1" using qb by (simp add: unat_eq_0 le_Suc_eq)
    obtain c m4' where s: "mpn_sub_n (np + n) (np + n) dp n m3 = (c, m4')" by fastforce
    have "MPN_SAME_OR_INCR_P (np + n) (np + n) n" "MPN_SAME_OR_INCR_P (np + n) dp n" using R by (auto simp: overlap_defs)
    note S4 = mpn_sub_n_spec [OF s this]
    have e: "m4 = m4'" "cc = c1 + c" using s4 s False by (simp_all add: r4_def)
    have low: "mval m4' np n = mval m3 np n" by (rule only_in_mval [OF S4(3)]) simp
    have "unat cc = unat c1 + unat c" unfolding e using S3(2) S4(2) unat_plus_if [of c1 c] by (simp add: LB_def)
    moreover have "mval m4' np (2 * n) + LB ^ n * D0 = mval m3 np (2 * n) + LB ^ (2 * n) * unat c"
    proof -
      have "LB ^ n * (mval m4' (np + n) n + D0) = LB ^ n * (mval m3 (np + n) n + LB ^ n * unat c)" using S4(1) v3(2) by simp
      then show ?thesis unfolding mult_2 mval_add low power_add by (simp add: algebra_simps)
    qed
    ultimately show ?thesis using S4(3) unfolding e(1) q1 by (simp add: algebra_simps flip: of_nat_add of_nat_mult)
  qed
  define V where "V = int N0 + int (LB ^ n * (N1 mod D1)) - int ((N1 div D1) * D0)"
  have V: "V = int (mval m4 np (2 * n)) - int (LB ^ (2 * n) * unat cc)"
  proof -
    have "mval m3 np (2 * n) + mval m1 qp n * D0 = N0 + LB ^ n * (N1 mod D1) + LB ^ (2 * n) * unat c1"
      using S3(1) p2 np2 unfolding v1(2) mult_2 [symmetric] by simp
    then have "int (mval m3 np (2 * n)) - int (LB ^ (2 * n) * unat c1) = int N0 + int (LB ^ n * (N1 mod D1)) - int (mval m1 qp n * D0)"
      by (simp flip: of_nat_add of_nat_mult)
    then show ?thesis using A unfolding V_def q [symmetric] by (simp add: algebra_simps)
  qed
  have VD: "V < int D"
  proof -
    have "N0 + LB ^ n * (N1 mod D1) < LB ^ n * 1 + LB ^ n * (N1 mod D1)" using mval_less [of m np n] by (simp add: N0_def)
    also have "\<dots> \<le> LB ^ n * D1" unfolding distrib_left [symmetric] by (rule mult_le_mono2) (use D1 in \<open>simp add: Suc_le_eq\<close>)
    also have "\<dots> \<le> D" unfolding Ds by simp
    finally show ?thesis unfolding V_def by linarith
  qed
  have NV: "int N = int (N1 div D1) * int D + V"
  proof -
    have "int N1 = int (N1 div D1) * int D1 + int (N1 mod D1)" by (simp flip: of_nat_add of_nat_mult)
    then show ?thesis unfolding V_def Ds of_nat_add of_nat_mult by (simp add: algebra_simps)
  qed
  note f4 = A [THEN conjunct2]
  have v4: "mval m4 dp (2 * n) = D" "mval m4 qp n = mval m1 qp n"
    unfolding v3 [symmetric] by (rule only_in_mval [OF f4]; use R in auto)+
  have "int N = int (mval m4 qp n + LB ^ n * unat qhl) * int D + V" unfolding v4 q by (rule NV)
  from dc_correct_spec [OF v4(1) D1(2) _ _ V VD this]
  obtain h m5 where s5: "dc_correct qp n np dp (2 * n) qhl cc m4 = Some (h, m5)" and QR: "mval m5 qp n + LB ^ n * unat h = N div D" "mval m5 np (2 * n) = N mod D"
    and f5: "only_at ({qp..<qp + n} \<union> {np..<np + 2 * n}) m4 m5" using n(1) R by (auto simp: no_overlap_iff)
  have run: "mpn_dc_div_3_halves_by_2 qp np dp n fp m = Some (h, m5)"
    unfolding mpn_dc_div_3_halves_by_2.simps Let_def r_def [symmetric] r bind.bind_lunit prod.case s2 s3 r4_def [unfolded Let_def, symmetric] s4 s5 [unfolded mult_2] ..
  have "only_at S m m1" by (rule only_at_mono [OF f1]) (auto simp: S_def)
  moreover have "only_at S m1 m2" by (rule only_at_mono [OF f2]) (auto simp: S_def)
  moreover have "only_at S m2 m3" by (rule only_in_at [OF S3(3)]) (auto simp: S_def)
  moreover have "only_at S m3 m4" by (rule only_in_at [OF f4]) (auto simp: S_def)
  moreover have "only_at S m4 m5" by (rule only_at_mono [OF f5]) (auto simp: S_def)
  ultimately have "only_at S m m5" by (blast intro: only_at_trans)
  then show ?thesis unfolding dc_divides_def N_def [symmetric] D_def [symmetric] S_def using run QR by blast
qed


section \<open>Two halves by one\<close>

text \<open>A dividend below \<open>D * LB ^ qn\<close> has no high quotient limb.\<close>

lemma dc_divides_low:
  assumes "dc_divides r qp qn np nn dp dn fp m" "mval m np nn < mval m dp dn * LB ^ qn"
  shows "\<exists>m'. r = Some (0, m') \<and> mval m' qp qn = mval m np nn div mval m dp dn \<and> mval m' np dn = mval m np nn mod mval m dp dn
    \<and> only_at ({qp..<qp + qn} \<union> {np..<np + nn} \<union> {fp..}) m m'"
proof -
  define N D where "N = mval m np nn" and "D = mval m dp dn"
  obtain h m' where r: "r = Some (h, m')" and q: "mval m' qp qn + LB ^ qn * unat h = N div D" and e: "mval m' np dn = N mod D"
    "only_at ({qp..<qp + qn} \<union> {np..<np + nn} \<union> {fp..}) m m'"
    using assms(1) unfolding dc_divides_def N_def D_def by blast
  have D: "0 < D" using assms(2) by (cases "D = 0") (simp_all add: D_def)
  have "(mval m' qp qn + LB ^ qn * unat h) * D + N mod D = N" unfolding q by simp
  from quotient_high_zero [OF this mod_less_divisor [OF D]] assms(2) have "unat h = 0" by (simp add: N_def D_def)
  then show ?thesis using r q e by (simp add: unat_eq_0 N_def D_def)
qed

text \<open>A quotient computed in two parts, the high one first.\<close>

lemma two_part_quotient:
  fixes N1 N0 D :: nat
  assumes "N = N0 + B * N1" "0 < D"
  shows "N div D = (N0 + B * (N1 mod D)) div D + B * (N1 div D)" "N mod D = (N0 + B * (N1 mod D)) mod D"
proof -
  have "N1 = N1 mod D + D * (N1 div D)" by simp
  then have "B * N1 = B * (N1 mod D) + B * (D * (N1 div D))" by (metis distrib_left)
  then have "N = N0 + B * (N1 mod D) + D * (B * (N1 div D))" unfolding assms(1) by simp
  then show "N div D = (N0 + B * (N1 mod D)) div D + B * (N1 div D)" "N mod D = (N0 + B * (N1 mod D)) mod D"
    using assms(2) by simp_all
qed

lemma two_part_less: "(N0 :: nat) < B \<Longrightarrow> r < D \<Longrightarrow> N0 + B * r < D * B"
proof -
  assume a: "N0 < B" "r < D"
  then have "N0 + B * r < B * (r + 1)" by simp
  moreover have "B * (r + 1) \<le> B * D" by (rule mult_le_mono2) (use a in simp)
  ultimately show ?thesis by (simp add: mult.commute)
qed

lemma dc_even_spec:
  fixes n :: nat
  defines "h \<equiv> n div 2"
  assumes n: "even n" "4 \<le> n" "h < MUL_TOOM3_THRESHOLD" and reg: "dc_regions qp n np (2 * n) dp n fp"
    and D: "LB ^ n \<le> 2 * mval m dp n"
    and rec: "\<And>qp np dp m. DIV_DC_THRESHOLD \<le> h \<Longrightarrow> dc_regions qp h np (2 * h) dp h fp \<Longrightarrow> LB ^ h \<le> 2 * mval m dp h \<Longrightarrow>
      dc_divides (mpn_dc_divrem_n qp np dp h fp m) qp h np (2 * h) dp h fp m"
  shows "dc_divides (mpn_dc_divrem_n qp np dp n fp m) qp n np (2 * n) dp n fp m"
proof -
  have nh: "n = 2 * h" "2 \<le> h" using n(1,2) by (simp_all add: h_def)
  note R = reg [unfolded dc_regions_def]
  define S where "S = {qp..<qp + n} \<union> {np..<np + 2 * n} \<union> {fp..}"
  have three: "dc_divides (mpn_dc_div_3_halves_by_2 q p dp h fp m') q h p (3 * h) dp n fp m'"
    if g: "dc_regions q h p (3 * h) dp n fp" and D': "LB ^ n \<le> 2 * mval m' dp n" for q p m'
    unfolding nh(1)
  proof (rule dc_div_3_halves_spec [OF nh(2) n(3) g [unfolded nh(1)] D' [unfolded nh(1)]])
    have "LB ^ h \<le> 2 * (mval m' dp n div LB ^ h)" using normalized_high [of h h "mval m' dp n"] D' nh by (simp add: mult_2)
    moreover have "mval m' dp n div LB ^ h = mval m' (dp + h) h"
      using mval_add [of m' dp h h] mval_less [of m' dp h] by (simp add: nh(1) mult_2)
    ultimately show "dc_divides (mpn_dc_divrem_n q (p + h) (dp + h) h fp m') q h (p + h) (2 * h) (dp + h) h fp m'" if "DIV_DC_THRESHOLD \<le> h"
      using that g nh by (intro rec dc_sub_regions [OF g]) simp_all
  qed
  define N D' N1 N0 where "N = mval m np (2 * n)" and "D' = mval m dp n" and "N1 = mval m (np + h) (3 * h)" and "N0 = mval m np h"
  have N: "N = N0 + LB ^ h * N1" using mval_split [of h "2 * n" m np] nh by (simp add: N_def N0_def N1_def)
  have Dp: "0 < D'" using D by (cases "D' = 0") (simp_all add: D'_def LB_def)
  have "dc_regions (qp + h) h (np + h) (3 * h) dp n fp" by (rule dc_sub_regions [OF reg]) (use nh in simp_all)
  from three [OF this D] obtain qhl m1 where s1: "mpn_dc_div_3_halves_by_2 (qp + h) (np + h) dp h fp m = Some (qhl, m1)"
    and q1: "mval m1 (qp + h) h + LB ^ h * unat qhl = N1 div D'" "mval m1 (np + h) n = N1 mod D'"
    and f1: "only_at ({qp + h..<qp + h + h} \<union> {np + h..<np + h + 3 * h} \<union> {fp..}) m m1"
    unfolding dc_divides_def N1_def [symmetric] D'_def [symmetric] by blast
  have v1: "mval m1 dp n = D'" "mval m1 np h = N0"
    unfolding D'_def N0_def by (rule only_at_mval [OF f1]; use R nh in auto)+
  have N2: "mval m1 np (3 * h) = N0 + LB ^ h * (N1 mod D')"
    using mval_split [of h "3 * h" m1 np] q1(2) v1(2) nh(1) by simp
  have "dc_regions qp h np (3 * h) dp n fp" by (rule dc_sub_regions [OF reg]) (use nh in simp_all)
  from three [OF this] have T: "dc_divides (mpn_dc_div_3_halves_by_2 qp np dp h fp m1) qp h np (3 * h) dp n fp m1" using D v1 by (simp add: D'_def)
  have L: "mval m1 np (3 * h) < mval m1 dp n * LB ^ h"
    unfolding N2 v1 by (rule two_part_less) (use mval_less [of m np h] Dp in \<open>simp_all add: N0_def\<close>)
  from dc_divides_low [OF T L] obtain m2 where s2: "mpn_dc_div_3_halves_by_2 qp np dp h fp m1 = Some (0, m2)"
    and q2: "mval m2 qp h = (N0 + LB ^ h * (N1 mod D')) div D'" "mval m2 np n = (N0 + LB ^ h * (N1 mod D')) mod D'"
    and f2: "only_at ({qp..<qp + h} \<union> {np..<np + 3 * h} \<union> {fp..}) m1 m2"
    unfolding N2 v1 by blast
  have v2: "mval m2 (qp + h) h = mval m1 (qp + h) h" by (rule only_at_mval [OF f2]) (use R nh in auto)
  obtain c m3 where s3: "mpn_add_1 (qp + h) (qp + h) h 0 m2 = (c, m3)" by fastforce
  have "1 \<le> h" "MPN_SAME_OR_SEPARATE_P (qp + h) (qp + h) h" using nh by (simp_all add: overlap_defs)
  note S3 = mpn_add_1_spec [OF s3 this]
  have c: "c = 0" "mval m3 (qp + h) h = mval m2 (qp + h) h"
    using S3(1,2) mval_less [of m2 "qp + h" h] by (cases "unat c"; simp add: unat_eq_0)+
  have v3: "mval m3 qp h = mval m2 qp h" "mval m3 np n = mval m2 np n"
    by (rule only_in_mval [OF S3(3)]; use R nh in auto)+
  have "mval m3 qp n + LB ^ n * unat qhl = mval m2 qp h + LB ^ h * (N1 div D')"
    unfolding q1(1) [symmetric] v2 [symmetric] c(2) [symmetric] v3 [symmetric] nh(1) mult_2 mval_add by (simp add: power_add distrib_left)
  then have Q: "mval m3 qp n + LB ^ n * unat qhl = N div D'" "mval m3 np n = N mod D'"
    unfolding two_part_quotient [OF N Dp] q2(1) v3 q2(2) by simp_all
  have run: "mpn_dc_divrem_n qp np dp n fp m = Some (qhl, m3)"
    using n(1) unfolding mpn_dc_divrem_n.simps [of qp np dp n] h_def [symmetric] Let_def s1 bind.bind_lunit prod.case s2 s3 c(1) by simp
  have "only_at S m m1" by (rule only_at_mono [OF f1]) (use nh in \<open>auto simp: S_def\<close>)
  moreover have "only_at S m1 m2" by (rule only_at_mono [OF f2]) (use nh in \<open>auto simp: S_def\<close>)
  moreover have "only_at S m2 m3" by (rule only_in_at [OF S3(3)]) (use nh in \<open>auto simp: S_def\<close>)
  ultimately have "only_at S m m3" by (blast intro: only_at_trans)
  then show ?thesis unfolding dc_divides_def N_def [symmetric] D'_def [symmetric] S_def using run Q by blast
qed


lemma sub_top_limb:
  assumes "mpn_sub_1 (p + k) (p + k) 1 x m = (c, m')"
  shows "mval m' p (Suc k) + LB ^ k * unat x = mval m p (Suc k) + LB ^ Suc k * unat c" "unat c \<le> 1" "only_in (p + k) 1 m m'"
proof -
  have "MPN_SAME_OR_SEPARATE_P (p + k) (p + k) 1" by (simp add: overlap_defs)
  note S = mpn_sub_1_spec [OF assms order_refl this]
  have "mval m' p k = mval m p k" by (rule only_in_mval [OF S(3)]) simp
  moreover have "LB ^ k * (unat (m' (p + k)) + unat x) = LB ^ k * (unat (m (p + k)) + LB * unat c)" using S(1) by simp
  ultimately show "mval m' p (Suc k) + LB ^ k * unat x = mval m p (Suc k) + LB ^ Suc k * unat c"
    by (simp add: mval_high algebra_simps del: mval.simps)
qed (use mpn_sub_1_spec [OF assms order_refl] in \<open>simp_all add: overlap_defs\<close>)

lemma dc_odd_spec:
  fixes n :: nat
  assumes n: "odd n" "5 \<le> n" and reg: "dc_regions qp n np (2 * n) dp n fp"
    and D: "LB ^ n \<le> 2 * mval m dp n"
    and rec: "\<And>qp np dp m. dc_regions qp (n - 1) np (2 * (n - 1)) dp (n - 1) fp \<Longrightarrow> LB ^ (n - 1) \<le> 2 * mval m dp (n - 1) \<Longrightarrow>
      dc_divides (mpn_dc_divrem_n qp np dp (n - 1) fp m) qp (n - 1) np (2 * (n - 1)) dp (n - 1) fp m"
  shows "dc_divides (mpn_dc_divrem_n qp np dp n fp m) qp n np (2 * n) dp n fp m"
proof -
  define k where "k = n - 1"
  have nk: "n = Suc k" "4 \<le> k" "np + n = np + 1 + k" using n by (simp_all add: k_def)
  note R = reg [unfolded dc_regions_def]
  define S where "S = {qp..<qp + n} \<union> {np..<np + 2 * n} \<union> {fp..}"
  define N D D1 d0 NH N1 x1 N0 where "N = mval m np (2 * n)" and "D = mval m dp n" and "D1 = mval m (dp + 1) k" and "d0 = unat (m dp)"
    and "NH = mval m (np + 1) (Suc (2 * k))" and "N1 = mval m (np + 2) (2 * k)" and "x1 = unat (m (np + 1))" and "N0 = mval m np 1"
  have N: "N = N0 + LB ^ 1 * NH" "NH = x1 + LB * N1" "D = d0 + LB * D1"
    by (simp_all add: N_def N0_def NH_def x1_def N1_def D_def d0_def D1_def nk(1))
  have Dp: "0 < D" using D by (cases "D = 0") (simp_all add: D_def LB_def)
  have nD1: "LB ^ k \<le> 2 * D1"
  proof -
    have "D div LB ^ 1 = D1" using unat_lt_LB [of "m dp"] unfolding N(3) d0_def [symmetric] by simp
    then show ?thesis using normalized_high [of 1 k D] D nk unfolding D_def [symmetric] by simp
  qed
  then have D1p: "0 < D1" by (cases "D1 = 0") (simp_all add: LB_def)
  have "dc_regions (qp + 1) k (np + 2) (2 * k) (dp + 1) k fp" by (rule dc_sub_regions [OF reg]) (use nk in simp_all)
  from this nD1 have "dc_divides (mpn_dc_divrem_n (qp + 1) (np + 2) (dp + 1) k fp m) (qp + 1) k (np + 2) (2 * k) (dp + 1) k fp m"
    unfolding D1_def by (rule rec [folded k_def])
  then obtain qhl m1 where s1: "mpn_dc_divrem_n (qp + 1) (np + 2) (dp + 1) k fp m = Some (qhl, m1)"
    and q1: "mval m1 (qp + 1) k + LB ^ k * unat qhl = N1 div D1" "mval m1 (np + 2) k = N1 mod D1"
    and f1: "only_at ({qp + 1..<qp + 1 + k} \<union> {np + 2..<np + 2 + 2 * k} \<union> {fp..}) m m1"
    unfolding dc_divides_def N1_def [symmetric] D1_def [symmetric] by blast
  have qb: "unat qhl \<le> 1"
    by (rule quotient_bit [OF nD1 _ q1(1)]) (use mval_less [of m "np + 2" "2 * k"] in \<open>simp add: N1_def mult_2\<close>)
  have w1: "m1 (np + 1) = m (np + 1)" "m1 dp = m dp" by (rule only_atD [OF f1]; use R nk in auto)+
  have v1: "mval m1 dp n = D" "mval m1 np 1 = N0" unfolding D_def N0_def by (rule only_at_mval [OF f1]; use R nk in auto)+
  have p1: "mval m1 (np + 1) n = x1 + LB * (N1 mod D1)" using q1(2) w1 by (simp add: nk(1) x1_def)
  obtain c2 m2 where s2: "mpn_submul_1 (np + 1) (qp + 1) k (m1 dp) m1 = (c2, m2)" by fastforce
  have "MPN_SAME_OR_INCR_P (np + 1) (qp + 1) k" using R nk by (auto simp: overlap_defs)
  note S2 = mpn_submul_1_spec [OF s2 this, unfolded w1(2) d0_def [symmetric]]
  have p2: "mval m2 (np + 1) n + mval m1 (qp + 1) k * d0 = mval m1 (np + 1) n + LB ^ k * unat c2"
    using S2(1) only_inD [OF S2(2), of "np + 1 + k"] by (simp add: nk(1) mval_high del: mval.simps)
  obtain c3 m3 where s3: "mpn_sub_1 (np + n) (np + n) 1 c2 m2 = (c3, m3)" by fastforce
  note S3 = sub_top_limb [OF s3 [unfolded nk(3)], folded nk(1)]
  have w3: "m3 dp = m dp" using only_inD [OF S3(3), of dp] only_inD [OF S2(2), of dp] w1 R nk by auto
  define r4 where "r4 = (if qhl \<noteq> 0 then (let (c, m) = mpn_sub_1 (np + n) (np + n) 1 (m3 dp) m3 in (c3 + c, m)) else (c3, m3))"
  obtain cc m4 where s4: "r4 = (cc, m4)" by fastforce
  have A: "mval m4 (np + 1) n + LB ^ k * unat qhl * d0 + LB ^ n * unat c3 = mval m3 (np + 1) n + LB ^ n * unat cc \<and> only_in (np + 1 + k) 1 m3 m4"
  proof (cases "qhl = 0")
    case True
    then show ?thesis using s4 by (auto simp: r4_def)
  next
    case False
    then have q1: "unat qhl = 1" using qb by (simp add: unat_eq_0 le_Suc_eq)
    obtain c m4' where s: "mpn_sub_1 (np + n) (np + n) 1 (m3 dp) m3 = (c, m4')" by fastforce
    note S4 = sub_top_limb [OF s [unfolded nk(3)], folded nk(1)]
    have e: "m4 = m4'" "cc = c3 + c" using s4 s False by (simp_all add: r4_def)
    have "unat cc = unat c3 + unat c" unfolding e using S3(2) S4(2) unat_plus_if [of c3 c] by (simp add: LB_def)
    then show ?thesis using S4(1,3) unfolding e(1) q1 w3 d0_def [symmetric] by (simp add: distrib_left)
  qed
  note f4 = A [THEN conjunct2]
  define V where "V = int (x1 + LB * (N1 mod D1)) - int ((N1 div D1) * d0)"
  have V: "V = int (mval m4 (np + 1) n) - int (LB ^ n * unat cc)"
  proof -
    have "mval m4 (np + 1) n + (N1 div D1) * d0 = x1 + LB * (N1 mod D1) + LB ^ n * unat cc"
      using A S3(1) p2 p1 unfolding q1(1) [symmetric] distrib_right by linarith
    then show ?thesis unfolding V_def by (simp flip: of_nat_add of_nat_mult)
  qed
  have VD: "V < int D"
  proof -
    have "x1 + LB * (N1 mod D1) < D1 * LB" by (rule two_part_less) (use D1p in \<open>simp_all add: x1_def unat_lt_LB\<close>)
    also have "\<dots> \<le> D" unfolding N(3) by simp
    finally have "int (x1 + LB * (N1 mod D1)) < int D" by (simp only: of_nat_less_iff)
    then show ?thesis unfolding V_def using of_nat_0_le_iff [of "(N1 div D1) * d0"] by linarith
  qed
  have NV: "int NH = int (N1 div D1) * int D + V"
  proof -
    have "int N1 = int (N1 div D1) * int D1 + int (N1 mod D1)" by (simp flip: of_nat_add of_nat_mult)
    then show ?thesis unfolding V_def N of_nat_add of_nat_mult by (simp add: algebra_simps)
  qed
  have v4: "mval m4 dp n = D" "mval m4 (qp + 1) k = mval m1 (qp + 1) k" "mval m4 np 1 = N0"
  proof -
    have "mval m4 p j = mval m1 p j" if "p + j \<le> np + 1 \<or> np + 1 + n \<le> p" for p j
      using only_in_mval [OF f4, of p j] only_in_mval [OF S3(3), of p j] only_in_mval [OF S2(2), of p j] that nk by auto
    from this [of dp n] this [of "qp + 1" k] this [of np 1] show "mval m4 dp n = D" "mval m4 (qp + 1) k = mval m1 (qp + 1) k" "mval m4 np 1 = N0"
      using v1 R nk by auto
  qed
  have "int NH = int (mval m4 (qp + 1) k + LB ^ k * unat qhl) * int D + V" unfolding v4 q1 by (rule NV)
  from dc_correct_spec [OF v4(1) Dp _ _ V VD this]
  obtain h m5 where s5: "dc_correct (qp + 1) k (np + 1) dp n qhl cc m4 = Some (h, m5)" and QH: "mval m5 (qp + 1) k + LB ^ k * unat h = NH div D" "mval m5 (np + 1) n = NH mod D"
    and f5: "only_at ({qp + 1..<qp + 1 + k} \<union> {np + 1..<np + 1 + n}) m4 m5" using nk R by (auto simp: no_overlap_iff)
  have v5: "mval m5 dp n = D" "mval m5 np 1 = N0" unfolding v4 [symmetric] by (rule only_at_mval [OF f5]; use R nk in auto)+
  have N5: "mval m5 np (n + 1) = N0 + LB ^ 1 * (NH mod D)" using mval_add [of m5 np 1 n] QH(2) v5(2) by (simp add: add.commute del: mval.simps)
  obtain h6 m6 where s6: "mpn_sb_divrem_mn qp np (n + 1) dp n m5 = (h6, m6)" by fastforce
  have "dc_regions qp (n + 1 - n) np (n + 1) dp n fp" by (rule dc_sub_regions [OF reg]) (use nk in simp_all)
  from sb_divides [OF this, of m5] have T: "dc_divides (Some (h6, m6)) qp 1 np (n + 1) dp n fp m5" using D nk unfolding s6 v5 D_def by simp
  have L: "mval m5 np (n + 1) < mval m5 dp n * LB ^ 1" unfolding N5 v5
    by (rule two_part_less) (use Dp unat_lt_LB [of "m np"] in \<open>simp_all add: N0_def\<close>)
  from dc_divides_low [OF T L] have q6: "h6 = 0" "mval m6 qp 1 = (N0 + LB ^ 1 * (NH mod D)) div D" "mval m6 np n = (N0 + LB ^ 1 * (NH mod D)) mod D"
    and f6: "only_at ({qp..<qp + 1} \<union> {np..<np + (n + 1)} \<union> {fp..}) m5 m6" unfolding N5 v5 by auto
  obtain c m7 where s7: "mpn_add_1 (qp + 1) (qp + 1) k h6 m6 = (c, m7)" by fastforce
  have "1 \<le> k" "MPN_SAME_OR_SEPARATE_P (qp + 1) (qp + 1) k" using nk by (simp_all add: overlap_defs)
  note S7 = mpn_add_1_spec [OF s7 this]
  have c: "c = 0" "mval m7 (qp + 1) k = mval m6 (qp + 1) k"
    using S7(1,2) mval_less [of m6 "qp + 1" k] q6(1) by (cases "unat c"; simp add: unat_eq_0)+
  have v6: "mval m6 (qp + 1) k = mval m5 (qp + 1) k" by (rule only_at_mval [OF f6]) (use R nk in auto)
  have v7: "mval m7 qp 1 = mval m6 qp 1" "mval m7 np n = mval m6 np n" by (rule only_in_mval [OF S7(3)]; use R nk in auto)+
  have "mval m7 qp n + LB ^ n * unat h = mval m6 qp 1 + LB ^ 1 * (NH div D)"
    unfolding QH(1) [symmetric] v6 [symmetric] c(2) [symmetric] v7(1) [symmetric] nk(1) by (simp add: distrib_left)
  then have Q: "mval m7 qp n + LB ^ n * unat h = N div D" "mval m7 np n = N mod D"
    unfolding two_part_quotient [OF N(1) Dp] q6(2) v7 q6(3) by simp_all
  have run: "mpn_dc_divrem_n qp np dp n fp m = Some (h, m7)"
    using n(1) s7 c(1) unfolding mpn_dc_divrem_n.simps [of qp np dp n] k_def [symmetric] Let_def s1 bind.bind_lunit prod.case s2 s3 r4_def [unfolded Let_def, symmetric] s4 s5 s6 by simp
  have "only_at S m m1" by (rule only_at_mono [OF f1]) (use nk in \<open>auto simp: S_def\<close>)
  moreover have "only_at S m1 m2" by (rule only_in_at [OF S2(2)]) (use nk in \<open>auto simp: S_def\<close>)
  moreover have "only_at S m2 m3" by (rule only_in_at [OF S3(3)]) (use nk in \<open>auto simp: S_def\<close>)
  moreover have "only_at S m3 m4" by (rule only_in_at [OF f4]) (use nk in \<open>auto simp: S_def\<close>)
  moreover have "only_at S m4 m5" by (rule only_at_mono [OF f5]) (use nk in \<open>auto simp: S_def\<close>)
  moreover have "only_at S m5 m6" by (rule only_at_mono [OF f6]) (use nk in \<open>auto simp: S_def\<close>)
  moreover have "only_at S m6 m7" by (rule only_in_at [OF S7(3)]) (use nk in \<open>auto simp: S_def\<close>)
  ultimately have "only_at S m m7" by (blast intro: only_at_trans)
  then show ?thesis unfolding dc_divides_def N_def [symmetric] D_def [symmetric] S_def using run Q by blast
qed

theorem mpn_dc_divrem_n_spec:
  assumes "4 \<le> n" "n < 2 * MUL_TOOM3_THRESHOLD" "dc_regions qp n np (2 * n) dp n fp" "LB ^ n \<le> 2 * mval m dp n"
  shows "dc_divides (mpn_dc_divrem_n qp np dp n fp m) qp n np (2 * n) dp n fp m"
  using assms
proof (induction n arbitrary: qp np dp m rule: less_induct)
  case (less n)
  show ?case
  proof (cases "even n")
    case True
    show ?thesis
      by (rule dc_even_spec [OF True less.prems(1) _ less.prems(3,4) less.IH])
        (use less.prems(1,2) in \<open>simp_all add: DIV_DC_THRESHOLD_def\<close>)
  next
    case False
    then have "5 \<le> n" using less.prems(1) by (cases "n = 4") auto
    with False show ?thesis
      by (intro dc_odd_spec [OF _ _ less.prems(3,4)] less.IH) (use less.prems(1,2) in simp_all)
  qed
qed

end
