(* ===== verification/Mpn_TdivOps.thy ===== *)
theory Mpn_TdivOps
  imports Mpn_DivDc
begin

text \<open>
  Division of any two operands (\<open>mpn/generic/tdiv_qr.c\<close>): quotient and remainder of \<open>{np,nn}\<close> by \<open>{dp,dn}\<close>
  without a change of the operands.  The temporary blocks are taken from the address \<open>fp\<close> upwards, above all
  operands.  \<open>None\<close> stands for a call that does not return (\<open>abort\<close>), and for the sizes at which the
  multiplication goes on to Toom-3.
\<close>

unbundle bit_operations_syntax

section \<open>Two-limb divisors and long quotients\<close>

definition tdiv_qr_two :: "ptr \<Rightarrow> ptr \<Rightarrow> ptr \<Rightarrow> nat \<Rightarrow> ptr \<Rightarrow> ptr \<Rightarrow> mem \<Rightarrow> mem option" where
  "tdiv_qr_two qp rp np nn dp fp m =
     (if m (dp + 1) AND GMP_LIMB_HIGHBIT = 0
      then (let cnt = unat (count_leading_zeros (m (dp + 1)));
                d2p = fp;
                m = m(d2p + 1 := push_bit cnt (m (dp + 1)) OR drop_bit (32 - cnt) (m dp));
                m = m(d2p := push_bit cnt (m dp));
                n2p = fp + 2;
                (cy, m) = mpn_lshift n2p np nn cnt m;
                m = m(n2p + nn := cy)
            in do {
              (qhl, m) \<leftarrow> mpn_divrem_2 qp 0 n2p (nn + of_bool (cy \<noteq> 0)) d2p m;
              let m = (if cy = 0 then m(qp + (nn - 2) := qhl) else m);
              let (_, m) = mpn_rshift rp n2p 2 cnt m;
              Some m
            })
      else (let n2p = fp;
                m = MPN_COPY n2p np nn m
            in do {
              (qhl, m) \<leftarrow> mpn_divrem_2 qp 0 n2p nn dp m;
              let m = m(qp + (nn - 2) := qhl);
              Some (MPN_COPY rp n2p 2 m)
            }))"

definition tdiv_qr_normalize :: "ptr \<Rightarrow> nat \<Rightarrow> ptr \<Rightarrow> nat \<Rightarrow> ptr \<Rightarrow> mem \<Rightarrow> nat \<times> ptr \<times> ptr \<times> mem" where
  "tdiv_qr_normalize np nn dp dn fp m =
     (if m (dp + dn - 1) AND GMP_LIMB_HIGHBIT = 0
      then (let cnt = unat (count_leading_zeros (m (dp + dn - 1)));
                d2p = fp;
                (_, m) = mpn_lshift d2p dp dn cnt m;
                n2p = fp + dn;
                (cy, m) = mpn_lshift n2p np nn cnt m
            in (cnt, d2p, n2p, m(n2p + nn := cy)))
      else (let d2p = dp;
                n2p = fp;
                m = MPN_COPY n2p np nn m
            in (0, d2p, n2p, m(n2p + nn := 0))))"

text \<open>The quotient limbs below the first \<open>dn\<close>, in blocks of \<open>dn\<close> limbs as long as the dividend lasts, and the rest.\<close>

partial_function (option) dc_blocks :: "ptr \<Rightarrow> ptr \<Rightarrow> ptr \<Rightarrow> nat \<Rightarrow> nat \<Rightarrow> ptr \<Rightarrow> mem \<Rightarrow> (ptr \<times> nat \<times> mem) option" where
  "dc_blocks q2p n2p d2p nn dn fp m =
     (if nn \<ge> 2 * dn
      then do {
        let q2p = q2p - dn;
        let n2p = n2p - dn;
        (c, m) \<leftarrow> mpn_dc_divrem_n q2p n2p d2p dn fp m;
        if c \<noteq> 0 then None else dc_blocks q2p n2p d2p (nn - dn) dn fp m
      }
      else Some (n2p, nn, m))"

definition dc_rest :: "ptr \<Rightarrow> ptr \<Rightarrow> nat \<Rightarrow> ptr \<Rightarrow> nat \<Rightarrow> mem \<Rightarrow> (ptr \<times> mem) option" where
  "dc_rest qp n2p nn d2p dn m =
     (if nn \<noteq> dn
      then (let n2p = n2p - (nn - dn)
            in if dn = 2 then map_option (\<lambda>(_, m). (n2p, m)) (mpn_divrem_2 qp 0 n2p nn d2p m)
               else (let (_, m) = mpn_sb_divrem_mn qp n2p nn d2p dn m in Some (n2p, m)))
      else Some (n2p, m))"

definition long_quotient :: "ptr \<Rightarrow> ptr \<Rightarrow> nat \<Rightarrow> ptr \<Rightarrow> nat \<Rightarrow> ptr \<Rightarrow> mem \<Rightarrow> (ptr \<times> mem) option" where
  "long_quotient qp n2p nn d2p dn fp m =
     (if dn = 2 then map_option (\<lambda>(_, m). (n2p, m)) (mpn_divrem_2 qp 0 n2p nn d2p m)
      else if dn < DIV_DC_THRESHOLD then (let (_, m) = mpn_sb_divrem_mn qp n2p nn d2p dn m in Some (n2p, m))
      else do {
        let q2p = qp + (nn - 2 * dn);
        let n2p = n2p + (nn - 2 * dn);
        (_, m) \<leftarrow> mpn_dc_divrem_n q2p n2p d2p dn fp m;
        (n2p, nn, m) \<leftarrow> dc_blocks q2p n2p d2p (nn - dn) dn fp m;
        dc_rest qp n2p nn d2p dn m
      })"

definition tdiv_qr_long :: "ptr \<Rightarrow> ptr \<Rightarrow> ptr \<Rightarrow> nat \<Rightarrow> ptr \<Rightarrow> nat \<Rightarrow> nat \<Rightarrow> ptr \<Rightarrow> mem \<Rightarrow> mem option" where
  "tdiv_qr_long qp rp np nn dp dn adjust fp m =
     (let m = m(qp + (nn - dn) := 0);
          (cnt, d2p, n2p, m) = tdiv_qr_normalize np nn dp dn fp m;
          ws = fp + dn + nn + 1;
          nn = nn + adjust
      in do {
        (n2p, m) \<leftarrow> long_quotient qp n2p nn d2p dn ws m;
        Some (if cnt \<noteq> 0 then snd (mpn_rshift rp n2p dn cnt m) else MPN_COPY rp n2p dn m)
      })"

section \<open>Short quotients\<close>

text \<open>The quotient of the high limbs of the operands, normalized: \<open>inn\<close> low limbs are left out.\<close>

definition short_operands :: "ptr \<Rightarrow> nat \<Rightarrow> ptr \<Rightarrow> nat \<Rightarrow> nat \<Rightarrow> nat \<Rightarrow> ptr \<Rightarrow> mem \<Rightarrow> nat \<times> ptr \<times> ptr \<times> mem" where
  "short_operands np nn dp dn qn adjust fp m =
     (let inn = dn - qn;
          n2p = fp + qn
      in if m (dp + dn - 1) AND GMP_LIMB_HIGHBIT = 0
         then (let cnt = unat (count_leading_zeros (m (dp + dn - 1)));
                   d2p = fp;
                   (_, m) = mpn_lshift d2p (dp + inn) qn cnt m;
                   m = m(d2p := m d2p OR drop_bit (32 - cnt) (m (dp + inn - 1)));
                   (cy, m) = mpn_lshift n2p (np + (nn - 2 * qn)) (2 * qn) cnt m
               in if adjust \<noteq> 0 then (cnt, d2p, n2p + 1, m(n2p + 2 * qn := cy))
                  else (cnt, d2p, n2p, m(n2p := m n2p OR drop_bit (32 - cnt) (m (np + (nn - 2 * qn) - 1)))))
         else (let d2p = dp + inn;
                   m = MPN_COPY n2p (np + (nn - 2 * qn)) (2 * qn) m
               in if adjust \<noteq> 0 then (0, d2p, n2p + 1, m(n2p + 2 * qn := 0))
                  else (0, d2p, n2p, m)))"

definition short_quotient :: "ptr \<Rightarrow> ptr \<Rightarrow> ptr \<Rightarrow> nat \<Rightarrow> ptr \<Rightarrow> mem \<Rightarrow> mem option" where
  "short_quotient qp n2p d2p qn fp m =
     (if qn = 1
      then (let (q0, r0) = udiv_qrnnd (m (n2p + 1)) (m n2p) (m d2p)
            in Some (m(n2p := r0, qp := q0)))
      else if qn = 2 then map_option snd (mpn_divrem_2 qp 0 n2p 4 d2p m)
      else if qn < DIV_DC_THRESHOLD then Some (snd (mpn_sb_divrem_mn qp n2p (2 * qn) d2p qn m))
      else map_option snd (mpn_dc_divrem_n qp n2p d2p qn fp m))"

text \<open>The test with the first limb left out: it finds every estimate that is too large by 2.\<close>

definition short_test :: "ptr \<Rightarrow> ptr \<Rightarrow> ptr \<Rightarrow> ptr \<Rightarrow> nat \<Rightarrow> nat \<Rightarrow> nat \<Rightarrow> mem \<Rightarrow> (nat \<times> mem) option" where
  "short_test qp n2p d2p dp inn qn cnt m =
     (let dl = (if int inn - 2 < 0 then 0 else m (dp + inn - 2));
          x = push_bit cnt (m (dp + inn - 1)) OR drop_bit (unat (NOT (of_nat cnt :: limb) mod 32)) (drop_bit 1 dl);
          (h, l) = umul_ppmm x (m (qp + qn - 1))
      in if m (n2p + qn - 1) < h
         then do {
           m \<leftarrow> mpn_decr_u qp 1 m;
           let (cy, m) = mpn_add_n n2p n2p d2p qn m;
           Some (if cy \<noteq> 0 then (qn + 1, m(n2p + qn := cy)) else (qn, m))
         }
         else Some (qn, m))"

text \<open>The limbs of which only a part was used, when the operands were shifted.\<close>

definition short_partial :: "ptr \<Rightarrow> ptr \<Rightarrow> ptr \<Rightarrow> ptr \<Rightarrow> nat \<Rightarrow> nat \<Rightarrow> nat \<Rightarrow> nat \<Rightarrow> mem \<Rightarrow> (bool \<times> nat \<times> nat \<times> mem) option" where
  "short_partial qp n2p np dp inn qn rn cnt m =
     (if cnt \<noteq> 0
      then (let (cy1, m) = mpn_lshift n2p n2p rn (32 - cnt) m;
                m = m(n2p := m n2p OR (m (np + inn - 1) AND drop_bit cnt (- 1)));
                (cy2, m) = mpn_submul_1 n2p qp qn (m (dp + inn - 1) AND drop_bit cnt (- 1)) m
            in if qn \<noteq> rn
               then (if m (n2p + qn) < cy2 then None
                     else Some (False, rn, inn - 1, m(n2p + qn := m (n2p + qn) - cy2)))
               else Some (cy1 < cy2, rn + 1, inn - 1, m(n2p + qn := cy1 - cy2)))
      else Some (False, rn, inn, m))"

definition short_remainder :: "ptr \<Rightarrow> ptr \<Rightarrow> ptr \<Rightarrow> ptr \<Rightarrow> nat \<Rightarrow> ptr \<Rightarrow> nat \<Rightarrow> ptr \<Rightarrow> bool \<Rightarrow> nat \<Rightarrow> nat \<Rightarrow> mem \<Rightarrow> (bool \<times> mem) option" where
  "short_remainder qp rp np dp dn n2p qn tp quotient_too_large rn inn m =
     (let ws = tp + dn;
          ws' = ws + 2 * dn
      in if inn < qn \<and> inn = 0
         then (let m = MPN_COPY rp n2p rn m
               in if rn \<noteq> dn then None else Some (quotient_too_large, m))
         else do {
           (_, m) \<leftarrow> (if inn < qn then mpn_mul tp qp qn dp inn ws ws' m else mpn_mul tp dp inn qp qn ws ws' m);
           let (cy, m) = mpn_sub n2p n2p rn (tp + inn) qn m;
           let m = MPN_COPY (rp + inn) n2p (dn - inn) m;
           let quotient_too_large = (quotient_too_large \<or> cy \<noteq> 0);
           let (cy, m) = mpn_sub_n rp np tp inn m;
           let (cy, m) = mpn_sub_1 (rp + inn) (rp + inn) rn cy m;
           Some (quotient_too_large \<or> cy \<noteq> 0, m)
         })"

definition tdiv_qr_short :: "ptr \<Rightarrow> ptr \<Rightarrow> ptr \<Rightarrow> nat \<Rightarrow> ptr \<Rightarrow> nat \<Rightarrow> nat \<Rightarrow> ptr \<Rightarrow> mem \<Rightarrow> mem option" where
  "tdiv_qr_short qp rp np nn dp dn adjust fp m =
     (let qn = nn - dn;
          m = m(qp + qn := 0);
          qn = qn + adjust
      in if qn = 0 then Some (MPN_COPY rp np dn m)
         else (let inn = dn - qn;
                   (cnt, d2p, n2p, m) = short_operands np nn dp dn qn adjust fp m;
                   tp = fp + 3 * qn + 1
               in do {
                 m \<leftarrow> short_quotient qp n2p d2p qn tp m;
                 (rn, m) \<leftarrow> short_test qp n2p d2p dp inn qn cnt m;
                 (quotient_too_large, rn, inn, m) \<leftarrow> short_partial qp n2p np dp inn qn rn cnt m;
                 (quotient_too_large, m) \<leftarrow> short_remainder qp rp np dp dn n2p qn tp quotient_too_large rn inn m;
                 if quotient_too_large
                 then do {
                   m \<leftarrow> mpn_decr_u qp 1 m;
                   let (_, m) = mpn_add_n rp rp dp dn m;
                   Some m
                 }
                 else Some m
               }))"

section \<open>The function\<close>

definition mpn_tdiv_qr :: "ptr \<Rightarrow> ptr \<Rightarrow> nat \<Rightarrow> ptr \<Rightarrow> nat \<Rightarrow> ptr \<Rightarrow> nat \<Rightarrow> ptr \<Rightarrow> mem \<Rightarrow> (gmp_error + mem) option" where
  "mpn_tdiv_qr qp rp qxn np nn dp dn fp m =
     (if qxn \<noteq> 0 then None
      else if dn = 0 then Some DIVIDE_BY_ZERO
      else if dn = 1
      then (let (r, m) = mpn_divrem_1 qp 0 np nn (m dp) m in Some (Inr (m(rp := r))))
      else if dn = 2 then map_option Inr (tdiv_qr_two qp rp np nn dp fp m)
      else (let adjust = of_bool (m (np + nn - 1) \<ge> m (dp + dn - 1))
            in if nn + adjust \<ge> 2 * dn then map_option Inr (tdiv_qr_long qp rp np nn dp dn adjust fp m)
               else map_option Inr (tdiv_qr_short qp rp np nn dp dn adjust fp m)))"

section \<open>Shifted operands\<close>

lemma LB_pow2: "c \<le> 32 \<Longrightarrow> LB = 2 ^ c * 2 ^ (32 - c)"
  by (simp add: LB_def flip: power_add)

text \<open>The bits that a shift by \<open>c\<close> moves out of \<open>i\<close> low limbs are the high bits of their top limb.\<close>

lemma top_bits:
  assumes "1 \<le> i" "c \<le> 32"
  shows "(2 ^ c * mval m p i) div LB ^ i = unat (m (p + i - 1)) div 2 ^ (32 - c)"
proof -
  obtain j where i: "i = Suc j" using assms(1) by (cases i) auto
  define lo x where "lo = mval m p j" and "x = unat (m (p + j))"
  have lo: "lo < LB ^ j" by (simp add: lo_def mval_less)
  have "2 ^ c * lo < 2 ^ c * LB ^ j" using lo by simp
  then have e: "2 ^ c * lo div LB ^ j < 2 ^ c" by (simp add: less_mult_imp_div_less mult.commute)
  have "(2 ^ c * mval m p i) div LB ^ i = ((2 ^ c * lo + LB ^ j * (2 ^ c * x)) div LB ^ j) div LB"
    unfolding i mval_high lo_def [symmetric] x_def [symmetric] power_Suc2 div_mult2_eq by (simp add: distrib_left mult.left_commute)
  also have "(2 ^ c * lo + LB ^ j * (2 ^ c * x)) div LB ^ j = 2 ^ c * x + 2 ^ c * lo div LB ^ j"
    by (simp add: LB_def)
  also have "(2 ^ c * x + 2 ^ c * lo div LB ^ j) div LB = ((2 ^ c * x + 2 ^ c * lo div LB ^ j) div 2 ^ c) div 2 ^ (32 - c)"
    by (subst LB_pow2 [OF assms(2)]) (rule div_mult2_eq)
  also have "(2 ^ c * x + 2 ^ c * lo div LB ^ j) div 2 ^ c = x" using e by simp
  finally show ?thesis by (simp add: x_def i)
qed

lemma or_low:
  fixes x y :: limb
  assumes "unat x mod 2 ^ c = 0" "unat y < 2 ^ c" "c < 32"
  shows "unat (x OR y) = unat x + unat y"
proof (rule unat_or_disjoint, rule bit_word_eqI)
  fix n
  assume "n < LENGTH(32)"
  show "bit (x AND y) n = bit (0 :: limb) n"
  proof (cases "n < c")
    case True
    have "take_bit c (unat x) = 0" using assms(1) by (simp add: take_bit_eq_mod)
    then have "\<not> bit (take_bit c (unat x)) n" by simp
    then have "\<not> bit x n" using True by (simp add: bit_take_bit_iff bit_unsigned_iff)
    then show ?thesis by (simp add: bit_and_iff)
  next
    case False
    have "take_bit c (unat y) = unat y" using assms(2) by (simp add: take_bit_nat_eq_self)
    then have "\<not> bit (unat y) n" using False by (metis bit_take_bit_iff)
    then show ?thesis by (simp add: bit_and_iff bit_unsigned_iff)
  qed
qed

text \<open>A shift to the left with the bits of \<open>y\<close> appended.\<close>

lemma lshift_append:
  assumes eq: "mpn_lshift rp up n c m = (r, m1)" and n: "1 \<le> n" and c: "c < 32" and o: "MPN_SAME_OR_DECR_P rp up n"
    and y: "unat y < 2 ^ c"
  shows "mval (m1(rp := m1 rp OR y)) rp n + LB ^ n * unat r = 2 ^ c * mval m up n + unat y"
    and "unat r < 2 ^ c" and "only_in rp n m (m1(rp := m1 rp OR y))"
proof -
  note S = mpn_lshift_spec [OF eq n c o]
  obtain k where k: "n = Suc k" using n by (cases n) auto
  have mv: "mval mm rp n = unat (mm rp) + LB * mval mm (rp + 1) k" for mm by (simp add: k)
  have "LB = 2 ^ c * 2 ^ (32 - c)" using c by (intro LB_pow2) simp
  then obtain w where w: "LB = 2 ^ c * w" by blast
  have "unat (m1 rp) + 2 ^ c * (w * mval m1 (rp + 1) k + w * LB ^ k * unat r) = 2 ^ c * mval m up n"
    using S(1) unfolding mv k power_Suc by (simp add: w algebra_simps)
  then have "(unat (m1 rp) + 2 ^ c * (w * mval m1 (rp + 1) k + w * LB ^ k * unat r)) mod 2 ^ c = 0" by simp
  then have "unat (m1 rp) mod 2 ^ c = 0" by simp
  from or_low [OF this y c] have "unat (m1 rp OR y) = unat (m1 rp) + unat y" .
  moreover have "mval (m1(rp := m1 rp OR y)) (rp + 1) k = mval m1 (rp + 1) k" by (intro mval_cong) simp
  ultimately show "mval (m1(rp := m1 rp OR y)) rp n + LB ^ n * unat r = 2 ^ c * mval m up n + unat y"
    using S(1) unfolding mv by simp
  show "unat r < 2 ^ c" by (rule S(2))
  show "only_in rp n m (m1(rp := m1 rp OR y))"
    by (rule only_in_trans [OF S(3)]) (use n in \<open>auto intro: only_in_upd\<close>)
qed

lemma drop_bits_less: "c \<le> 32 \<Longrightarrow> unat (drop_bit (32 - c) x :: limb) = unat x div 2 ^ (32 - c)" "c \<le> 32 \<Longrightarrow> unat (drop_bit (32 - c) x :: limb) < 2 ^ c"
  by (rule unat_drop_limb) (rule drop_top_less)

lemma low_bits_mask: "c \<le> 32 \<Longrightarrow> unat (x AND drop_bit c (- 1) :: limb) = unat x mod 2 ^ (32 - c)"
proof -
  assume c: "c \<le> 32"
  have "x AND drop_bit c (- 1) = take_bit (32 - c) x"
    by (rule bit_word_eqI) (use c in \<open>auto simp: bit_and_iff bit_take_bit_iff bit_drop_bit_eq bit_mask_iff\<close>)
  then have "unat (x AND drop_bit c (- 1)) = take_bit (32 - c) (unat x)" by (simp only: unsigned_take_bit_eq)
  then show ?thesis by (simp only: take_bit_eq_mod)
qed

text \<open>A top limb bounds the number.\<close>

lemma normalize_shift:
  assumes "1 \<le> n" "m (p + n - 1) \<noteq> 0" "m (p + n - 1) AND GMP_LIMB_HIGHBIT = 0"
  defines "c \<equiv> unat (count_leading_zeros (m (p + n - 1)))"
  shows "1 \<le> c" "c < 32" "LB \<le> 2 * (2 ^ c * unat (m (p + n - 1)))" "2 ^ c * (unat (m (p + n - 1)) + 1) \<le> LB"
    "LB ^ n \<le> 2 * (2 ^ c * mval m p n)" "2 ^ c * mval m p n < LB ^ n"
proof -
  define t where "t = unat (m (p + n - 1))"
  note z = count_leading_zeros_correct [OF assms(2), folded c_def t_def]
  have nt: "2 * t < LB" using assms(3) highbit_iff [of "m (p + n - 1)"] by (simp add: t_def not_le [symmetric] del: not_le)
  show c: "c < 32" using z(1) by simp
  have w: "LB = 2 ^ c * 2 ^ (32 - c)" using c by (intro LB_pow2) simp
  show l: "LB \<le> 2 * (2 ^ c * t)" using z by (simp add: mult_ac)
  show "1 \<le> c" using l nt by (cases c) auto
  have "2 ^ c * t < 2 ^ c * 2 ^ (32 - c)" using z w by (simp add: mult_ac)
  then have "t + 1 \<le> 2 ^ (32 - c)" by simp
  then show h: "2 ^ c * (t + 1) \<le> LB" unfolding w by (rule mult_le_mono2)
  define k where "k = n - 1"
  have L: "LB ^ n = LB ^ k * LB" using assms(1) by (simp add: k_def flip: power_Suc2)
  note b = top_limb_bounds [OF assms(1), of m p, folded k_def t_def]
  have "LB ^ k * LB \<le> LB ^ k * (2 * (2 ^ c * t))" by (rule mult_le_mono2 [OF l])
  also have "\<dots> = 2 * 2 ^ c * (LB ^ k * t)" by simp
  also have "\<dots> \<le> 2 * 2 ^ c * mval m p n" by (rule mult_le_mono2 [OF b(1)])
  finally show "LB ^ n \<le> 2 * (2 ^ c * mval m p n)" by (simp add: L)
  have "2 ^ c * mval m p n < 2 ^ c * (LB ^ k * (t + 1))" using b(2) by simp
  also have "\<dots> = LB ^ k * (2 ^ c * (t + 1))" by (simp add: algebra_simps)
  also have "\<dots> \<le> LB ^ k * LB" by (rule mult_le_mono2 [OF h])
  finally show "2 ^ c * mval m p n < LB ^ n" by (simp add: L)
qed

text \<open>The high limbs of a shifted number, from its high limbs and the bits that come from below.\<close>

lemma shifted_high:
  assumes "i \<le> n" "1 \<le> i" "c \<le> 32"
  shows "(2 ^ c * mval m p n) div LB ^ i = 2 ^ c * mval m (p + i) (n - i) + unat (m (p + i - 1)) div 2 ^ (32 - c)"
  unfolding mval_split [OF assms(1), of m p] top_bits [OF assms(2,3), symmetric]
  by (simp add: distrib_left mult.left_commute [of _ "LB ^ i"])

text \<open>Seen from one limb further down, the high limbs and the low bits of the limb that was split.\<close>

lemma partial_limb:
  assumes "i < n" "c \<le> 32"
  shows "mval m p n div LB ^ i = 2 ^ (32 - c) * ((2 ^ c * mval m p n) div LB ^ Suc i) + unat (m (p + i)) mod 2 ^ (32 - c)"
proof -
  define M where "M = mval m (p + Suc i) (n - Suc i)"
  define x where "x = unat (m (p + i))"
  have hi: "mval m p n = mval m p i + LB ^ i * (x + LB * M)"
    using mval_split [of "Suc i" n m p] assms(1) unfolding M_def x_def mval_high by (simp add: distrib_left)
  have "mval m p n div LB ^ i = x + LB * M" unfolding hi using mval_less [of m p i] by (simp add: LB_def)
  moreover have "(2 ^ c * mval m p n) div LB ^ Suc i = 2 ^ c * M + x div 2 ^ (32 - c)"
    using shifted_high [of "Suc i" n c m p] assms by (simp add: M_def x_def)
  moreover have "LB = 2 ^ (32 - c) * 2 ^ c" using LB_pow2 [OF assms(2)] by (simp add: mult.commute)
  ultimately show ?thesis by (simp add: distrib_left x_def)
qed

section \<open>The operands of a short quotient\<close>

lemma quotient_fits:
  assumes "1 \<le> dn" "1 \<le> qn" "nn + adjust = dn + qn" "adjust \<le> 1" "m (dp + dn - 1) \<noteq> 0" "qn < dn"
    "adjust = 0 \<Longrightarrow> m (np + nn - 1) < m (dp + dn - 1)"
    and c: "2 * 2 ^ c \<le> LB" and n: "LB ^ dn \<le> 2 * (2 ^ c * mval m dp dn)"
  shows "(2 ^ c * mval m np nn) div LB ^ (dn - qn) < (2 ^ c * mval m dp dn) div LB ^ (dn - qn) * LB ^ qn"
proof -
  define i where "i = dn - qn"
  define D where "D = 2 ^ c * mval m dp dn"
  have dn: "dn = i + qn" using assms(6) by (simp add: i_def)
  have e: "(LB ^ i * x) div LB ^ i = x" for x by (simp add: LB_def)
  show ?thesis
  proof (cases "adjust = 0")
    case True
    define j where "j = nn - 1"
    define t where "t = unat (m (dp + dn - 1))"
    have nn: "nn - 1 = qn + (dn - 1)" "1 \<le> nn" using True assms(1,3) by simp_all
    have "unat (m (np + nn - 1)) + 1 \<le> t" using assms(7) True by (simp add: limb_less_iff t_def)
    then have "mval m np nn < LB ^ (nn - 1) * t"
      using top_limb_bounds(2) [OF nn(2), of m np] mult_le_mono2 less_le_trans by blast
    then have "mval m np nn < LB ^ qn * (LB ^ (dn - 1) * t)" unfolding nn(1) by (simp add: power_add mult.assoc)
    then have "2 ^ c * mval m np nn < 2 ^ c * (LB ^ qn * (LB ^ (dn - 1) * t))" by simp
    also have "\<dots> = LB ^ i * (LB ^ qn * (LB ^ (qn - 1) * (2 ^ c * t)))"
    proof -
      have "dn - 1 = i + (qn - 1)" using dn assms(2) by simp
      then show ?thesis by (simp add: power_add mult_ac)
    qed
    finally have a: "(2 ^ c * mval m np nn) div LB ^ i < LB ^ qn * (LB ^ (qn - 1) * (2 ^ c * t))"
      by (simp add: less_mult_imp_div_less mult.commute)
    have b: "LB ^ (qn - 1) * (2 ^ c * t) \<le> D div LB ^ i"
    proof -
      have "LB ^ (dn - 1) * t \<le> mval m dp dn" unfolding t_def by (rule top_limb_bounds(1) [OF assms(1)])
      then have "2 ^ c * (LB ^ (dn - 1) * t) \<le> D" unfolding D_def by (rule mult_le_mono2)
      moreover have "2 ^ c * (LB ^ (dn - 1) * t) = LB ^ i * (LB ^ (qn - 1) * (2 ^ c * t))"
      proof -
        have "dn - 1 = i + (qn - 1)" using dn assms(2) by simp
        then show ?thesis by (simp add: power_add mult_ac)
      qed
      ultimately show ?thesis using div_le_mono [of _ D "LB ^ i"] e by metis
    qed
    show ?thesis unfolding i_def [symmetric] D_def [symmetric] mult.commute [of _ "LB ^ qn"]
      by (rule less_le_trans [OF a mult_le_mono2 [OF b]])
  next
    case False
    then have nn: "nn = i + (qn + (qn - 1))" using assms(2,3,4) dn by simp
    have "2 ^ c * mval m np nn < 2 ^ c * LB ^ nn" using mval_less by simp
    then have "2 ^ c * mval m np nn < LB ^ i * (2 ^ c * (LB ^ qn * LB ^ (qn - 1)))" unfolding nn power_add by (simp add: mult_ac)
    then have a: "(2 ^ c * mval m np nn) div LB ^ i < 2 ^ c * (LB ^ qn * LB ^ (qn - 1))" by (simp add: less_mult_imp_div_less mult.commute)
    have L: "LB ^ qn = LB * LB ^ (qn - 1)" using assms(2) by (simp flip: power_Suc)
    have "LB ^ qn \<le> 2 * (D div LB ^ i)" by (rule normalized_high [OF _ assms(2)]) (use n in \<open>simp add: D_def flip: dn\<close>)
    moreover have "2 * (2 ^ c * LB ^ (qn - 1)) \<le> LB ^ qn" using mult_le_mono1 [OF c, of "LB ^ (qn - 1)"] L by (simp add: mult_ac)
    ultimately have "2 ^ c * LB ^ (qn - 1) \<le> D div LB ^ i" by linarith
    then have "LB ^ qn * (2 ^ c * LB ^ (qn - 1)) \<le> LB ^ qn * (D div LB ^ i)" by (rule mult_le_mono2)
    then show ?thesis unfolding i_def [symmetric] D_def [symmetric] mult.commute [of _ "LB ^ qn"]
      using a unfolding mult.left_commute [of "2 ^ c" "LB ^ qn"] by (rule less_le_trans [rotated])
  qed
qed


lemma short_divisor:
  assumes eq: "mpn_lshift fp (dp + i) qn c m = (r, ma)" and sz: "1 \<le> qn" "dn = i + qn" "1 \<le> i" "dp + dn \<le> fp" "c < 32"
    and less: "2 ^ c * mval m dp dn < LB ^ dn"
  defines "mb \<equiv> ma(fp := ma fp OR drop_bit (32 - c) (m (dp + i - 1)))"
  shows "ma (dp + i - 1) = m (dp + i - 1)" "mval mb fp qn = (2 ^ c * mval m dp dn) div LB ^ i" "only_in fp qn m mb"
proof -
  define y where "y = drop_bit (32 - c) (m (dp + i - 1))"
  have c32: "c \<le> 32" using sz by simp
  have o: "MPN_SAME_OR_DECR_P fp (dp + i) qn" using sz by (auto simp: overlap_defs)
  have y: "unat y = unat (m (dp + i - 1)) div 2 ^ (32 - c)" "unat y < 2 ^ c"
    unfolding y_def by (rule drop_bits_less [OF c32])+
  note A = lshift_append [OF eq sz(1,5) o y(2), unfolded y_def, folded mb_def, folded y_def]
  show "ma (dp + i - 1) = m (dp + i - 1)"
    by (rule only_inD [OF mpn_lshift_spec(3) [OF eq sz(1,5) o]]) (use sz in linarith)
  show "only_in fp qn m mb" by (rule A(3))
  have "(2 ^ c * mval m dp dn) div LB ^ i = 2 ^ c * mval m (dp + i) qn + unat y"
    using shifted_high [of i dn c m dp] sz y by simp
  then have e: "mval mb fp qn + LB ^ qn * unat r = (2 ^ c * mval m dp dn) div LB ^ i" using A(1) by simp
  have "(2 ^ c * mval m dp dn) div LB ^ i < LB ^ qn"
    using less unfolding sz(2) power_add by (simp add: less_mult_imp_div_less mult.commute)
  then have "unat r = 0" using e by (cases "unat r") auto
  then show "mval mb fp qn = (2 ^ c * mval m dp dn) div LB ^ i" using e by simp
qed

text \<open>The dividend when its top limb goes into a limb of its own.\<close>

lemma short_dividend_adjusted:
  assumes eq: "mpn_lshift n2 (np + (i - 1)) (2 * qn) c m = (cy, ma)" and sz: "1 \<le> qn" "nn = i - 1 + 2 * qn" "1 \<le> i" "np + nn \<le> n2" "c < 32"
  defines "mb \<equiv> ma(n2 + 2 * qn := cy)"
  shows "mval mb (n2 + 1) (2 * qn) = (2 ^ c * mval m np nn) div LB ^ i" "only_in n2 (2 * qn + 1) m mb"
proof -
  define M where "M = mval m (np + (i - 1)) (2 * qn)"
  have o: "MPN_SAME_OR_DECR_P n2 (np + (i - 1)) (2 * qn)" using sz by (auto simp: overlap_defs)
  have q2: "1 \<le> 2 * qn" using sz by simp
  note S = mpn_lshift_spec [OF eq q2 sz(5) o, folded M_def]
  show "only_in n2 (2 * qn + 1) m mb" unfolding mb_def
    by (rule only_in_trans [OF only_in_mono [OF S(3)]]) (auto intro: only_in_upd)
  have "mval mb n2 (Suc (2 * qn)) = 2 ^ c * M" using S(1) unfolding mval_high by (simp add: mb_def)
  moreover have "mval mb (n2 + 1) (2 * qn) = mval mb n2 (Suc (2 * qn)) div LB" using unat_lt_LB [of "mb n2"] by simp
  ultimately have v: "mval mb (n2 + 1) (2 * qn) = (2 ^ c * M) div LB" by simp
  define z where "z = (2 ^ c * mval m np (i - 1)) div LB ^ (i - 1)"
  have i1: "i - 1 \<le> nn" "nn - (i - 1) = 2 * qn" using sz by simp_all
  have L: "LB ^ i = LB ^ (i - 1) * LB" using sz by (simp flip: power_Suc2)
  have "2 ^ c * mval m np (i - 1) < 2 ^ c * LB ^ (i - 1)" using mval_less by simp
  then have z: "z < 2 ^ c" unfolding z_def by (simp add: less_mult_imp_div_less mult.commute)
  have sp: "mval m np nn = mval m np (i - 1) + LB ^ (i - 1) * M"
    using mval_split [OF i1(1), of m np] i1(2) by (simp add: M_def)
  have "(2 ^ c * mval m np nn) div LB ^ (i - 1) = z + 2 ^ c * M"
    unfolding z_def sp distrib_left mult.left_commute [of _ "LB ^ (i - 1)"] by simp
  moreover have "(z + 2 ^ c * M) div LB = (2 ^ c * M) div LB"
    using z by (subst (1 2) LB_pow2 [of c]) (use sz in \<open>simp_all add: div_mult2_eq\<close>)
  ultimately show "mval mb (n2 + 1) (2 * qn) = (2 ^ c * mval m np nn) div LB ^ i" unfolding v L div_mult2_eq by simp
qed

lemma short_dividend:
  assumes eq: "mpn_lshift n2 (np + i) (2 * qn) c m = (cy, ma)" and sz: "1 \<le> qn" "nn = i + 2 * qn" "1 \<le> i" "np + nn \<le> n2" "c < 32"
    and top: "2 ^ c * (unat (m (np + nn - 1)) + 1) \<le> LB"
  defines "mb \<equiv> ma(n2 := ma n2 OR drop_bit (32 - c) (m (np + i - 1)))"
  shows "mval mb n2 (2 * qn) = (2 ^ c * mval m np nn) div LB ^ i" "only_in n2 (2 * qn) m mb"
proof -
  define w where "w = drop_bit (32 - c) (m (np + i - 1))"
  have c32: "c \<le> 32" using sz by simp
  have o: "MPN_SAME_OR_DECR_P n2 (np + i) (2 * qn)" using sz by (auto simp: overlap_defs)
  have w: "unat w = unat (m (np + i - 1)) div 2 ^ (32 - c)" "unat w < 2 ^ c"
    unfolding w_def by (rule drop_bits_less [OF c32])+
  have q2: "1 \<le> 2 * qn" using sz by simp
  note A = lshift_append [OF eq q2 sz(5) o w(2), unfolded w_def, folded mb_def, folded w_def]
  show "only_in n2 (2 * qn) m mb" by (rule A(3))
  have v: "mval mb n2 (2 * qn) + LB ^ (2 * qn) * unat cy = (2 ^ c * mval m np nn) div LB ^ i"
    using A(1) w(1) shifted_high [of i nn c m np] sz by simp
  have nn1: "1 \<le> nn" using sz by simp
  have "2 ^ c * mval m np nn < 2 ^ c * (LB ^ (nn - 1) * (unat (m (np + nn - 1)) + 1))"
    using top_limb_bounds(2) [OF nn1, of m np] by simp
  also have "\<dots> = LB ^ (nn - 1) * (2 ^ c * (unat (m (np + nn - 1)) + 1))" by (simp add: algebra_simps)
  also have "\<dots> \<le> LB ^ (nn - 1) * LB" by (rule mult_le_mono2 [OF top])
  also have "\<dots> = LB ^ nn" using nn1 by (simp flip: power_Suc2)
  finally have "(2 ^ c * mval m np nn) div LB ^ i < LB ^ (2 * qn)"
    unfolding sz(2) power_add by (simp add: less_mult_imp_div_less mult.commute)
  then have "unat cy = 0" using v by (cases "unat cy") auto
  then show "mval mb n2 (2 * qn) = (2 ^ c * mval m np nn) div LB ^ i" using v by simp
qed

text \<open>The case of a divisor that is normalized already.\<close>

lemma short_operands_normalized:
  assumes eq: "short_operands np nn dp dn qn adjust fp m = (c, d2p, n2p, m1)"
    and hb: "m (dp + dn - 1) AND GMP_LIMB_HIGHBIT \<noteq> 0"
    and sz: "1 \<le> qn" "qn < dn" "nn + adjust = dn + qn" "adjust \<le> 1" and lo: "np + nn \<le> fp" "dp + dn \<le> fp"
  shows "c = 0" "mval m1 d2p qn = mval m dp dn div LB ^ (dn - qn)" "mval m1 n2p (2 * qn) = mval m np nn div LB ^ (dn - qn)"
    "only_in fp (3 * qn + 1) m m1" "d2p = dp + (dn - qn)" "n2p = fp + qn \<or> n2p = fp + qn + 1"
proof -
  define i n2 where "i = dn - qn" and "n2 = fp + qn"
  define ma where "ma = MPN_COPY n2 (np + (nn - 2 * qn)) (2 * qn) m"
  have i: "dn = i + qn" "1 \<le> i" "nn - 2 * qn = i - adjust" "nn = (i - adjust) + 2 * qn" using sz by (simp_all add: i_def)
  have hi: "mval m p k div LB ^ j = mval m (p + j) (k - j)" if "j \<le> k" for p k j
    using mval_split [OF that, of m p] mval_less [of m p j] by (simp add: LB_def)
  have ma: "ma = mcopy n2 (np + (nn - 2 * qn)) (2 * qn) m" unfolding ma_def
    by (rule MPN_COPY_spec) (use i lo in \<open>auto simp: overlap_defs n2_def\<close>)
  have R: "c = 0" "d2p = dp + i" "n2p = n2 + adjust" "m1 = (if adjust = 0 then ma else ma(n2 + 2 * qn := 0))"
    using eq hb sz(4) by (auto simp add: short_operands_def Let_def i_def [symmetric] n2_def [symmetric] ma_def [symmetric] split: if_splits)
  show "c = 0" "d2p = dp + (dn - qn)" "n2p = fp + qn \<or> n2p = fp + qn + 1" using R sz(4) by (auto simp: i_def n2_def)
  show fr: "only_in fp (3 * qn + 1) m m1"
    unfolding R ma by (intro only_inI) (auto simp: n2_def)
  have "mval m1 (dp + i) qn = mval m (dp + i) qn" by (rule only_in_mval [OF fr]) (use lo i in simp)
  also have "\<dots> = mval m dp dn div LB ^ i" using hi [of i dn] i by simp
  finally show "mval m1 d2p qn = mval m dp dn div LB ^ (dn - qn)" using R by (simp add: i_def)
  show "mval m1 n2p (2 * qn) = mval m np nn div LB ^ (dn - qn)"
  proof (cases "adjust = 0")
    case True
    then show ?thesis using R ma hi [of i nn np] i by (simp add: i_def [symmetric])
  next
    case False
    then have adj: "adjust = 1" using sz(4) by simp
    have e: "nn - (i - 1) = 2 * qn" "i - 1 \<le> nn" using i adj by simp_all
    have L: "LB ^ i = LB ^ (i - 1) * LB" using i by (simp flip: power_Suc2)
    have "mval m1 n2 (Suc (2 * qn)) = mval m np nn div LB ^ (i - 1)"
      using hi [OF e(2), of np] e i(3) adj unfolding mval_high by (simp add: R ma)
    then have "mval m1 n2 (Suc (2 * qn)) div LB = mval m np nn div LB ^ i" unfolding L div_mult2_eq by simp
    moreover have "mval m1 n2 (Suc (2 * qn)) div LB = mval m1 (n2 + 1) (2 * qn)" using unat_lt_LB [of "m1 n2"] by simp
    ultimately show ?thesis using R(3) adj by (simp add: i_def)
  qed
qed

text \<open>Both operands without their \<open>dn - qn\<close> low limbs, shifted so that the divisor is normalized.\<close>

lemma short_operands_spec:
  assumes eq: "short_operands np nn dp dn qn adjust fp m = (c, d2p, n2p, m1)"
    and sz: "1 \<le> qn" "qn < dn" "nn + adjust = dn + qn" "adjust \<le> 1"
    and d: "m (dp + dn - 1) \<noteq> 0" and top: "adjust = 0 \<Longrightarrow> m (np + nn - 1) < m (dp + dn - 1)"
    and lo: "np + nn \<le> fp" "dp + dn \<le> fp"
  defines "i \<equiv> dn - qn"
  shows "c < 32 \<and> LB ^ dn \<le> 2 * (2 ^ c * mval m dp dn) \<and> 2 ^ c * mval m dp dn < LB ^ dn
    \<and> mval m1 d2p qn = (2 ^ c * mval m dp dn) div LB ^ i \<and> mval m1 n2p (2 * qn) = (2 ^ c * mval m np nn) div LB ^ i
    \<and> only_in fp (3 * qn + 1) m m1 \<and> (d2p = fp \<or> d2p = dp + i) \<and> (n2p = fp + qn \<or> n2p = fp + qn + 1)"
proof (cases "m (dp + dn - 1) AND GMP_LIMB_HIGHBIT = 0")
  case False
  have dn1: "1 \<le> dn" using sz by simp
  have "LB \<le> 2 * unat (m (dp + dn - 1))" using False by (simp add: highbit_iff)
  then have "LB ^ dn \<le> 2 * mval m dp dn" using normalized_iff [OF dn1] by blast
  then show ?thesis using short_operands_normalized [OF eq False sz lo] mval_less [of m dp dn] by (simp add: i_def)
next
  case True
  define n2 where "n2 = fp + qn"
  define cnt where "cnt = unat (count_leading_zeros (m (dp + dn - 1)))"
  have dn1: "1 \<le> dn" using sz by simp
  note Z = normalize_shift [of dn m dp, OF dn1 d True, folded cnt_def]
  have i: "dn = i + qn" "1 \<le> i" "nn - 2 * qn = i - adjust" "nn = (i - adjust) + 2 * qn" using sz by (simp_all add: i_def)
  obtain r1 ma where l1: "mpn_lshift fp (dp + i) qn cnt m = (r1, ma)" by fastforce
  define mb where "mb = ma(fp := ma fp OR drop_bit (32 - cnt) (m (dp + i - 1)))"
  note D = short_divisor [OF l1 sz(1) i(1,2) lo(2) Z(2,6), folded mb_def]
  obtain cy mc where l2: "mpn_lshift n2 (np + (i - adjust)) (2 * qn) cnt mb = (cy, mc)" by fastforce
  define m2 where "m2 = (if adjust = 0 then mc(n2 := mc n2 OR drop_bit (32 - cnt) (mb (np + i - 1))) else mc(n2 + 2 * qn := cy))"
  have npn: "np + nn \<le> n2" using lo by (simp add: n2_def)
  have Nb: "mval mb np nn = mval m np nn" by (rule only_in_mval [OF D(3)]) (use lo in simp)
  have vn: "mval m2 (n2 + adjust) (2 * qn) = (2 ^ cnt * mval m np nn) div LB ^ i" "only_in n2 (2 * qn + 1) mb m2"
  proof -
    have "mval m2 (n2 + adjust) (2 * qn) = (2 ^ cnt * mval mb np nn) div LB ^ i \<and> only_in n2 (2 * qn + 1) mb m2"
    proof (cases "adjust = 0")
      case False
      then have a: "adjust = 1" using sz(4) by simp
      show ?thesis using short_dividend_adjusted [OF l2 [unfolded a] sz(1) i(4) [unfolded a] i(2) npn Z(2)] by (simp add: m2_def a)
    next
      case a: True
      have "mb (np + nn - 1) = m (np + nn - 1)" by (rule only_inD [OF D(3)]) (use lo i sz in linarith)
      then have "unat (mb (np + nn - 1)) + 1 \<le> unat (m (dp + dn - 1)) + 1" using top [OF a] by (simp add: limb_less_iff)
      then have "2 ^ cnt * (unat (mb (np + nn - 1)) + 1) \<le> LB" using Z(4) mult_le_mono2 le_trans by blast
      from short_dividend [OF l2 [unfolded a diff_zero] sz(1) i(4) [unfolded a diff_zero] i(2) npn Z(2) this]
      show ?thesis by (simp add: m2_def a only_in_mono)
    qed
    then show "mval m2 (n2 + adjust) (2 * qn) = (2 ^ cnt * mval m np nn) div LB ^ i" "only_in n2 (2 * qn + 1) mb m2"
      unfolding Nb by simp_all
  qed
  have mcw: "mc (np + i - 1) = mb (np + i - 1)" if "adjust = 0"
  proof (rule only_inD [OF mpn_lshift_spec(3) [OF l2 _ Z(2)]])
    show "MPN_SAME_OR_DECR_P n2 (np + (i - adjust)) (2 * qn)" using npn i(4) by (auto simp: overlap_defs)
  qed (use npn i sz that in linarith)+
  have "(c, d2p, n2p, m1) = (if adjust \<noteq> 0 then (cnt, fp, n2 + 1, mc(n2 + 2 * qn := cy))
      else (cnt, fp, n2, mc(n2 := mc n2 OR drop_bit (32 - cnt) (mc (np + (i - adjust) - 1)))))"
    unfolding eq [symmetric] short_operands_def i_def [symmetric] Let_def i(3) if_P [OF True]
      cnt_def [symmetric] l1 prod.case D(1) mb_def [symmetric] n2_def [symmetric] l2 ..
  then have R: "c = cnt" "d2p = fp" "n2p = n2 + adjust" "m1 = m2"
    using mcw sz(4) by (auto simp: m2_def split: if_splits)
  have "mval m1 fp qn = mval mb fp qn" unfolding R by (rule only_in_mval [OF vn(2)]) (simp add: n2_def)
  moreover have "only_in fp (3 * qn + 1) m m1" unfolding R
    by (rule only_in_trans [OF only_in_mono [OF D(3)] only_in_mono [OF vn(2)]]) (simp_all add: n2_def)
  ultimately show ?thesis using R Z(2,5,6) vn(1) D(2) sz(4) by (auto simp: n2_def)
qed

section \<open>The estimate of a short quotient\<close>

lemma estimate_ge:
  fixes A B P a b :: nat
  assumes "a < P" "0 < B"
  shows "(A * P + a) div (B * P + b) \<le> A div B"
proof -
  define q where "q = (A * P + a) div (B * P + b)"
  have "q * (B * P + b) \<le> A * P + a" unfolding q_def by (rule div_times_less_eq_dividend)
  then have "(q * B) * P \<le> A * P + a" by (simp add: distrib_left mult.assoc)
  then have "(q * B) * P < (A + 1) * P" using assms(1) by simp
  then have "q * B \<le> A" by (simp only: mult_less_cancel2) simp
  then show ?thesis unfolding q_def [symmetric] using assms(2) by (simp add: less_eq_div_iff_mult_less_eq)
qed

text \<open>The test compares the top limb of the remainder with the high limb of the product of the quotient's top
  limb and the first limb left out.\<close>

lemma test_large:
  fixes q b r W V :: nat
  assumes "qt * W \<le> q" "x * V \<le> b" "r < (rt + 1) * W" "rt < h" "h * LB \<le> x * qt"
  shows "(r + 1) * (V * LB) \<le> q * b"
proof -
  have "r + 1 \<le> (rt + 1) * W" using assms(3) by linarith
  also have "\<dots> \<le> h * W" using assms(4) by (intro mult_le_mono1) simp
  finally have "(r + 1) * (V * LB) \<le> (h * W) * (V * LB)" by (rule mult_le_mono1)
  also have "\<dots> = (h * LB) * (W * V)" by (simp add: mult_ac)
  also have "\<dots> \<le> (x * qt) * (W * V)" by (rule mult_le_mono1 [OF assms(5)])
  also have "\<dots> = (qt * W) * (x * V)" by (simp add: mult_ac)
  also have "\<dots> \<le> q * b" by (rule mult_le_mono [OF assms(1,2)])
  finally show ?thesis .
qed

lemma test_small:
  fixes q b r W V :: nat
  assumes "q < (qt + 1) * W" "b < (x + 1) * V" "rt * W \<le> r" "h \<le> rt" "x * qt < (h + 1) * LB" "qt < LB" "x < LB"
    and D: "3 * (W * (V * LB)) \<le> D"
  shows "q * b \<le> r * (V * LB) + D"
proof -
  have "q * b \<le> ((qt + 1) * W) * ((x + 1) * V)" by (rule mult_le_mono) (use assms(1,2) in simp_all)
  also have "\<dots> = ((qt + 1) * (x + 1)) * (W * V)" by (simp only: mult_ac)
  also have "\<dots> \<le> ((h + 3) * LB) * (W * V)"
  proof (rule mult_le_mono1)
    have "(qt + 1) * (x + 1) = x * qt + (qt + x + 1)" by (simp add: algebra_simps)
    then have "(qt + 1) * (x + 1) \<le> (h + 1) * LB + 2 * LB" using assms(5-7) by linarith
    then show "(qt + 1) * (x + 1) \<le> (h + 3) * LB" by (simp add: distrib_right)
  qed
  also have "\<dots> = (h * W) * (V * LB) + 3 * (W * (V * LB))" by (simp add: algebra_simps)
  also have "(h * W) * (V * LB) \<le> r * (V * LB)"
    by (rule mult_le_mono1) (use mult_le_mono1 [OF assms(4), of W] assms(3) in linarith)
  finally show ?thesis using D by linarith
qed

text \<open>The first limb left out, of the shifted divisor.\<close>

definition next_limb :: "mem \<Rightarrow> ptr \<Rightarrow> nat \<Rightarrow> nat \<Rightarrow> limb" where
  "next_limb m dp inn cnt =
     push_bit cnt (m (dp + inn - 1)) OR drop_bit (unat (NOT (of_nat cnt :: limb) mod 32)) (drop_bit 1 (if int inn - 2 < 0 then 0 else m (dp + inn - 2)))"

lemma complement_shift: "c < 32 \<Longrightarrow> unat (NOT (of_nat c :: limb) mod 32) = 31 - c"
proof -
  assume c: "c < 32"
  have "unat (NOT (of_nat c :: limb)) + c + 1 = LB"
    using unat_not_limb [of "of_nat c"] c by (simp add: of_nat_unat_small LB_def)
  then have "unat (NOT (of_nat c :: limb)) = 31 - c + 32 * 134217727" using c unfolding LB_def by linarith
  moreover have "(31 - c + 32 * 134217727) mod 32 = 31 - c" by (subst mod_mult_self2) simp
  ultimately show ?thesis by (simp add: unat_mod_distrib)
qed

lemma next_limb_spec:
  fixes m :: mem and p i c :: nat
  assumes "1 \<le> i" "c < 32"
  defines "b \<equiv> (2 ^ c * mval m p i) mod LB ^ i"
  shows "unat (next_limb m p i c) * LB ^ (i - 1) \<le> b" "b < (unat (next_limb m p i c) + 1) * LB ^ (i - 1)"
proof -
  obtain j where i: "i = Suc j" using assms(1) by (cases i) auto
  define d y where "d = m (p + j)" and "y = (2 ^ c * mval m p j) div LB ^ j"
  define dl where "dl = (if int i - 2 < 0 then 0 else m (p + i - 2))"
  have "31 - c + 1 = 32 - c" using assms(2) by linarith
  then have "drop_bit (31 - c) (drop_bit 1 dl) = drop_bit (32 - c) dl" by (simp only: drop_bit_drop_bit)
  then have n: "next_limb m p i c = push_bit c d OR drop_bit (32 - c) dl"
    unfolding next_limb_def dl_def [symmetric] complement_shift [OF assms(2)] by (simp add: i d_def)
  have c32: "c \<le> 32" using assms(2) by simp
  have y: "unat (drop_bit (32 - c) dl) = y"
  proof (cases j)
    case 0
    then show ?thesis by (simp add: dl_def y_def i)
  next
    case (Suc l)
    then show ?thesis unfolding y_def using top_bits [of j c m p] c32 by (simp add: dl_def i drop_bits_less(1))
  qed
  have lt: "unat (drop_bit (32 - c) dl) < 2 ^ c" by (rule drop_bits_less(2) [OF c32])
  have u: "unat (next_limb m p i c) = (2 ^ c * unat d) mod LB + y"
    unfolding n unat_push_or [OF lt] y unat_push_limb [OF c32] LB_pow2 [OF c32] mod_mult_mult1 ..
  then have x: "unat (next_limb m p i c) = (2 ^ c * unat d + y) mod LB"
    using unat_lt_LB [of "next_limb m p i c"] by (metis mod_add_left_eq mod_less)
  have "(2 ^ c * mval m p i) div LB ^ j = y + 2 ^ c * unat d"
    unfolding i mval_high d_def [symmetric] y_def distrib_left mult.left_commute [of _ "LB ^ j"] by simp
  then have "b div LB ^ j = (y + 2 ^ c * unat d) mod LB"
    unfolding b_def i power_Suc2 mod_mult2_eq by simp
  then have e: "unat (next_limb m p i c) = b div LB ^ j" using x by (simp add: add.commute)
  show "unat (next_limb m p i c) * LB ^ (i - 1) \<le> b" "b < (unat (next_limb m p i c) + 1) * LB ^ (i - 1)"
    unfolding e by (simp_all add: i dividend_less_div_times)
qed

lemma short_quotient_spec:
  assumes qn: "1 \<le> qn" "qn < MUL_TOOM3_THRESHOLD" and norm: "LB ^ qn \<le> 2 * mval m d2p qn"
    and fits: "mval m n2p (2 * qn) < mval m d2p qn * LB ^ qn"
    and o: "d2p + qn \<le> n2p" "qp + qn \<le> n2p" "qp + qn \<le> d2p \<or> d2p + qn \<le> qp" "n2p + 2 * qn \<le> fp"
  shows "\<exists>m'. short_quotient qp n2p d2p qn fp m = Some m'
    \<and> mval m' qp qn = mval m n2p (2 * qn) div mval m d2p qn \<and> mval m' n2p qn = mval m n2p (2 * qn) mod mval m d2p qn
    \<and> only_at ({qp..<qp + qn} \<union> {n2p..<n2p + 2 * qn} \<union> {fp..}) m m'"
proof -
  note nm = norm [folded normalized_iff [OF qn(1)]]
  consider "qn = 1" | "qn = 2" | "3 \<le> qn" using qn(1) by linarith
  then show ?thesis
  proof cases
    case 1
    define d n1 n0 where "d = m d2p" and "n1 = m (n2p + 1)" and "n0 = m n2p"
    obtain q r where u: "udiv_qrnnd n1 n0 d = (q, r)" by fastforce
    define m' where "m' = m(n2p := r, qp := q)"
    have V: "mval m d2p qn = unat d" "mval m n2p (2 * qn) = dval (n1, n0)"
      by (simp_all add: 1 d_def n1_def n0_def numeral_2_eq_2)
    have "LB * unat n1 + unat n0 < LB * unat d" using fits unfolding V dval_pair by (simp add: 1 mult.commute)
    then have "LB * unat n1 < LB * unat d" by linarith
    then have lt: "n1 < d" by (simp add: limb_less_iff)
    have "LB \<le> 2 * unat d" using nm by (simp add: 1 d_def)
    note U = udiv_qrnnd_c_correct [OF this lt u]
    have "dval (n1, n0) = unat r + unat q * unat d" using U(1) by simp
    then have "unat q = dval (n1, n0) div unat d" "unat r = dval (n1, n0) mod unat d"
      using U(2) by (simp_all add: limb_less_iff)
    moreover have "short_quotient qp n2p d2p qn fp m = Some m'"
      using u by (simp add: short_quotient_def 1 m'_def d_def n1_def n0_def)
    moreover have "only_at ({qp..<qp + qn} \<union> {n2p..<n2p + 2 * qn} \<union> {fp..}) m m'"
      by (auto simp: only_at_def m'_def 1)
    ultimately show ?thesis using o V by (simp add: 1 m'_def)
  next
    case 2
    have "LB \<le> 2 * unat (m (d2p + 1))" using nm by (simp add: 2)
    from mpn_divrem_2_spec [of 4 m d2p qp 0 n2p, OF _ this] o(2)
    obtain qh m' where r: "mpn_divrem_2 qp 0 n2p 4 d2p m = Some (qh, m')"
      and v: "(mval m' qp 2 + LB ^ 2 * unat qh) * mval m d2p 2 + mval m' n2p 2 = mval m n2p 4" "mval m' n2p 2 < mval m d2p 2"
      and f: "only_at ({qp..<qp + 2} \<union> {n2p..<n2p + 2}) m m'"
      by (auto simp: 2)
    have "mval m n2p 4 < mval m d2p 2 * LB ^ 2" using fits by (simp add: 2)
    from quotient_high_zero [OF v this] r f show ?thesis
      by (auto simp: short_quotient_def 2 intro: only_at_mono)
  next
    case 3
    have reg: "dc_regions qp (2 * qn - qn) n2p (2 * qn) d2p qn fp" using o by (auto simp: dc_regions_def)
    have "2 \<le> qn" "qn \<le> 2 * qn" using 3 by simp_all
    note S = sb_divides [OF reg this norm, simplified]
    show ?thesis
    proof (cases "qn < DIV_DC_THRESHOLD")
      case True
      obtain qh m' where r: "mpn_sb_divrem_mn qp n2p (2 * qn) d2p qn m = (qh, m')" by fastforce
      have "short_quotient qp n2p d2p qn fp m = Some m'" using r 3 True by (simp add: short_quotient_def)
      then show ?thesis using dc_divides_low [OF S fits] r by auto
    next
      case False
      have "4 \<le> qn" "qn < 2 * MUL_TOOM3_THRESHOLD" using False qn(2) by (simp_all add: DIV_DC_THRESHOLD_def)
      from dc_divides_low [OF mpn_dc_divrem_n_spec [OF this _ norm] fits] reg
      obtain m' where "mpn_dc_divrem_n qp n2p d2p qn fp m = Some (0, m')"
        "mval m' qp qn = mval m n2p (2 * qn) div mval m d2p qn \<and> mval m' n2p qn = mval m n2p (2 * qn) mod mval m d2p qn
          \<and> only_at ({qp..<qp + qn} \<union> {n2p..<n2p + 2 * qn} \<union> {fp..}) m m'" by auto
      then show ?thesis using 3 False by (simp add: short_quotient_def)
    qed
  qed
qed

text \<open>After the test the estimate is the quotient or one more.  When the remainder needs another limb, what the
  test compared keeps the rest of the computation in range.\<close>

lemma short_test_spec:
  fixes m :: mem
  assumes sz: "1 \<le> qn" "1 \<le> i" "c < 32" and o: "qp + qn \<le> n2p" "d2p + qn \<le> n2p" "qp + qn \<le> d2p \<or> d2p + qn \<le> qp"
    and d: "dp + i \<le> n2p"
  defines "P \<equiv> LB ^ i" and "B \<equiv> mval m d2p qn" and "b \<equiv> (2 ^ c * mval m dp i) mod LB ^ i"
  assumes a: "a < P" and norm: "LB ^ qn \<le> 2 * B" and q: "mval m qp qn = A div B" "mval m n2p qn = A mod B"
  defines "q \<equiv> (A * P + a) div (B * P + b)"
  shows "\<exists>rn m' q1 r1. short_test qp n2p d2p dp i qn c m = Some (rn, m')
    \<and> mval m' qp qn = q1 \<and> mval m' n2p rn = r1 \<and> A = q1 * B + r1 \<and> q \<le> q1 \<and> q1 \<le> q + 1
    \<and> (rn = qn \<or> rn = qn + 1 \<and> LB ^ qn \<le> r1 \<and> r1 < 2 * LB ^ qn \<and> (r1 + 1) * P \<le> q1 * b + (B * P + b))
    \<and> only_at ({qp..<qp + qn} \<union> {n2p..<n2p + qn + 1}) m m'"
proof -
  define D W V where "D = B * P + b" and "W = LB ^ (qn - 1)" and "V = LB ^ (i - 1)"
  have P: "P = V * LB" "0 < P" using sz(2) unfolding P_def V_def by (simp_all flip: power_Suc2)
  have WL: "LB ^ qn = LB * W" using sz(1) unfolding W_def by (simp flip: power_Suc)
  have "0 < LB ^ qn" by simp
  then have B: "0 < B" using norm by linarith
  have bP: "b < P" unfolding b_def P_def by simp
  define qe r where "qe = A div B" and "r = A mod B"
  have A: "A = qe * B + r" "r < B" using B by (simp_all add: qe_def r_def)
  define qt rt where "qt = m (qp + qn - 1)" and "rt = m (n2p + qn - 1)"
  obtain h l where hl: "umul_ppmm (next_limb m dp i c) qt = (h, l)" by fastforce
  have hl': "LB * unat h + unat l = unat (next_limb m dp i c) * unat qt"
    using umul_ppmm_correct [of "next_limb m dp i c" qt] hl by simp
  note NL = next_limb_spec [OF sz(2,3), of m dp, folded V_def b_def]
  note qb = top_limb_bounds [OF sz(1), of m qp, folded W_def qt_def, unfolded q, folded qe_def]
  note rb = top_limb_bounds [OF sz(1), of m n2p, folded W_def rt_def, unfolded q, folded r_def]
  have qD: "q * D \<le> A * P + a" "A * P + a < (q + 1) * D"
  proof -
    have "0 < D" using B P unfolding D_def by simp
    then show "q * D \<le> A * P + a" "A * P + a < (q + 1) * D"
      unfolding q_def D_def [symmetric] using div_times_less_eq_dividend dividend_less_div_times [of D "A * P + a"] by (simp_all add: add.commute)
  qed
  have qle: "q \<le> qe" unfolding q_def qe_def by (rule estimate_ge [OF a B])
  have AP: "A * P = qe * (B * P) + r * P" unfolding A(1) by (simp add: algebra_simps)
  have qDe: "qe * D = qe * (B * P) + qe * b" unfolding D_def by (simp add: algebra_simps)
  have qe2: "qe \<le> q + 2"
  proof -
    have "qe < LB ^ qn" using mval_less [of m qp qn] q(1) by (simp add: qe_def)
    then have "qe * b \<le> LB ^ qn * P" using bP by (intro mult_le_mono) simp_all
    also have "\<dots> \<le> 2 * (B * P)" using mult_le_mono1 [OF norm, of P] by simp
    also have "\<dots> \<le> 2 * D" by (simp add: D_def)
    finally have "qe * D \<le> A * P + a + 2 * D" unfolding qDe AP by linarith
    also have "\<dots> < (q + 3) * D" using qD(2) by (simp add: distrib_right)
    finally have "qe < q + 3" by (simp only: mult_less_cancel2)
    then show ?thesis by simp
  qed
  have run: "short_test qp n2p d2p dp i qn c m = (if rt < h
      then do {
        m \<leftarrow> mpn_decr_u qp 1 m;
        let (cy, m) = mpn_add_n n2p n2p d2p qn m;
        Some (if cy \<noteq> 0 then (qn + 1, m(n2p + qn := cy)) else (qn, m))
      }
      else Some (qn, m))"
    unfolding short_test_def Let_def next_limb_def [symmetric] qt_def [symmetric] rt_def [symmetric] hl prod.case ..
  show ?thesis
  proof (cases "rt < h")
    case False
    have s: "qe * b \<le> r * P + D" unfolding P(1)
    proof (rule test_small [where V = V and W = W and qt = "unat qt" and rt = "unat rt" and x = "unat (next_limb m dp i c)" and h = "unat h"])
      show "qe < (unat qt + 1) * W" "unat rt * W \<le> r" using qb rb by (simp_all add: mult.commute)
      show "b < (unat (next_limb m dp i c) + 1) * V" by (rule NL(2))
      show "unat h \<le> unat rt" using False by (simp add: limb_le_iff [symmetric])
      show "unat (next_limb m dp i c) * unat qt < (unat h + 1) * LB" using hl' unat_lt_LB [of l] by (simp add: algebra_simps)
      have "2 * (3 * W) \<le> LB ^ qn" unfolding WL by (simp add: LB_def)
      then have "3 * W \<le> B" using norm by linarith
      then have "(3 * W) * P \<le> B * P" by (rule mult_le_mono1)
      then show "3 * (W * (V * LB)) \<le> D" unfolding D_def P(1) mult.assoc by (rule trans_le_add1)
    qed (rule unat_lt_LB)+
    have "qe * D \<le> A * P + a + D" using s unfolding qDe AP by linarith
    then have "qe * D < (q + 2) * D" using qD(2) by simp
    then have "qe \<le> q + 1" by (simp only: mult_less_cancel2) simp
    moreover have "short_test qp n2p d2p dp i qn c m = Some (qn, m)" using run False by simp
    ultimately show ?thesis using qle A(1) q [folded qe_def r_def] only_at_refl by blast
  next
    case True
    have g: "(r + 1) * P \<le> qe * b" unfolding P(1)
    proof (rule test_large [where V = V and W = W and qt = "unat qt" and rt = "unat rt" and x = "unat (next_limb m dp i c)" and h = "unat h"])
      show "unat qt * W \<le> qe" "r < (unat rt + 1) * W" using qb rb by (simp_all add: mult.commute)
      show "unat (next_limb m dp i c) * V \<le> b" by (rule NL(1))
      show "unat rt < unat h" using True by (simp add: limb_less_iff)
      show "unat h * LB \<le> unat (next_limb m dp i c) * unat qt" using hl' by (simp add: mult.commute)
    qed
    then have "A * P + a < qe * D" using a unfolding qDe AP by simp
    then have "q * D < qe * D" using qD(1) by linarith
    then have qlt: "q < qe" by simp
    have "unat (1 :: limb) \<le> mval m qp qn" using qlt q(1) by (simp add: qe_def)
    then obtain m1 where d1: "mpn_decr_u qp 1 m = Some m1" "mval m1 qp qn + 1 = qe" "only_in qp qn m m1"
      using mpn_decr_u_spec [of 1 m qp qn] q(1) by (auto simp: qe_def)
    obtain cy m2 where a2: "mpn_add_n n2p n2p d2p qn m1 = (cy, m2)" by fastforce
    have "MPN_SAME_OR_INCR_P n2p n2p qn" "MPN_SAME_OR_INCR_P n2p d2p qn" using o by (auto simp: overlap_defs)
    note S = mpn_add_n_spec [OF a2 this]
    have m1: "mval m1 n2p qn = r" "mval m1 d2p qn = B"
      using only_in_mval [OF d1(3), of n2p qn] only_in_mval [OF d1(3), of d2p qn] o q(2) by (auto simp: B_def r_def)
    have v: "mval m2 n2p qn + LB ^ qn * unat cy = r + B" using S(1) m1 by simp
    define rn m3 where "rn = (if cy \<noteq> 0 then qn + 1 else qn)" and "m3 = (if cy \<noteq> 0 then m2(n2p + qn := cy) else m2)"
    have r: "short_test qp n2p d2p dp i qn c m = Some (rn, m3)" using run True d1(1) a2 by (simp add: rn_def m3_def)
    have mq: "mval m3 qp qn = qe - 1"
    proof -
      have "mval m3 qp qn = mval m2 qp qn" using o by (simp add: m3_def)
      also have "\<dots> = mval m1 qp qn" by (rule only_in_mval [OF S(3)]) (use o in simp)
      finally show ?thesis using d1(2) by simp
    qed
    have mn: "mval m3 n2p rn = r + B"
      using v by (auto simp: rn_def m3_def mval_high simp del: mval.simps)
    have "A = (qe - 1) * B + (r + B)" using A(1) qlt by (cases qe) auto
    moreover have "q \<le> qe - 1" "qe - 1 \<le> q + 1"
      using qlt qe2 by linarith+
    moreover have "rn = qn \<or> rn = qn + 1 \<and> LB ^ qn \<le> r + B \<and> r + B < 2 * LB ^ qn \<and> (r + B + 1) * P \<le> (qe - 1) * b + (B * P + b)"
    proof (cases "cy = 0")
      case False
      then have "1 \<le> unat cy" by (simp add: unat_gt_0 Suc_leI)
      then have "LB ^ qn * 1 \<le> LB ^ qn * unat cy" by (rule mult_le_mono2)
      then have "LB ^ qn \<le> r + B" using v by linarith
      moreover have "r + B < 2 * LB ^ qn" using A(2) mval_less [of m d2p qn] by (simp add: B_def)
      moreover have "(qe - 1) * b + b = qe * b" using qlt by (cases qe) auto
      then have "(r + B + 1) * P \<le> (qe - 1) * b + (B * P + b)" using g by (simp add: algebra_simps)
      ultimately show ?thesis using False by (simp add: rn_def)
    qed (simp add: rn_def)
    moreover have "only_at ({qp..<qp + qn} \<union> {n2p..<n2p + qn + 1}) m m3"
    proof -
      have "only_at ({qp..<qp + qn} \<union> {n2p..<n2p + qn + 1}) m m1" by (rule only_in_at [OF d1(3)]) auto
      moreover have "only_at ({qp..<qp + qn} \<union> {n2p..<n2p + qn + 1}) m1 m2" by (rule only_in_at [OF S(3)]) auto
      moreover have "only_at ({qp..<qp + qn} \<union> {n2p..<n2p + qn + 1}) m2 m3" by (auto simp: only_at_def m3_def)
      ultimately show ?thesis by (blast intro: only_at_trans)
    qed
    ultimately show ?thesis using r mq mn by blast
  qed
qed

end
