(* ===== verification/Mpn_TdivShort.thy ===== *)
theory Mpn_TdivShort
  imports Mpn_TdivOps
begin

text \<open>
  The second half of a short division (\<open>mpn/generic/tdiv_qr.c\<close>): the partial remainder, the subtraction of the
  quotient times the low limbs of the divisor, the last correction, and the correctness of the whole branch.
\<close>

unbundle bit_operations_syntax

section \<open>The remainder of a short quotient\<close>

text \<open>With \<open>N1\<close> and \<open>D1\<close> the operands from the limb \<open>j\<close> on, the partial remainder at \<open>n2p\<close> is \<open>N1 - q * D1\<close>,
  a borrow out of its \<open>rn\<close> limbs left aside.\<close>

lemma short_partial_spec:
  fixes m :: mem and np dp nn dn i :: nat
  defines "N \<equiv> mval m np nn" and "D \<equiv> mval m dp dn" and "j \<equiv> i - 1"
  assumes c: "c \<noteq> 0" "c < 32" and sz: "1 \<le> qn" "1 \<le> i" "i \<le> nn" "i \<le> dn" and rn: "rn = qn \<or> rn = qn + 1 \<and> LB ^ qn \<le> r \<and> r < 2 * LB ^ qn"
    and o: "qp + qn \<le> n2p" "np + i \<le> n2p" "dp + i \<le> n2p"
    and q: "mval m qp qn = q" "mval m n2p rn = r" and r: "(2 ^ c * N) div LB ^ i = q * ((2 ^ c * D) div LB ^ i) + r"
  shows "\<exists>big m'. short_partial qp n2p np dp i qn rn c m = Some (big, qn + 1, j, m')
    \<and> mval m' n2p (qn + 1) + q * (D div LB ^ j) = N div LB ^ j + LB ^ (qn + 1) * of_bool big
    \<and> only_in n2p (qn + 1) m m'"
proof -
  define B where "B = (2 ^ c * D) div LB ^ i"
  define s where "s = 32 - c"
  have s: "s < 32" "1 \<le> s" "32 - s = c" "c \<le> 32" using c by (simp_all add: s_def)
  have j: "i = Suc j" "j < nn" "j < dn" "i - 1 = j" using sz by (simp_all add: j_def)
  define nb db where "nb = m (np + i - 1) AND drop_bit c (- 1)" and "db = m (dp + i - 1) AND drop_bit c (- 1)"
  have nb: "unat nb = unat (m (np + j)) mod 2 ^ s" "unat nb < 2 ^ s" and db: "unat db = unat (m (dp + j)) mod 2 ^ s" "unat db < 2 ^ s"
    unfolding nb_def db_def low_bits_mask [OF s(4), folded s_def] by (simp_all add: j(1))
  have N1: "N div LB ^ j = 2 ^ s * (q * B + r) + unat nb"
    using partial_limb [OF j(2) s(4), of m np, folded N_def s_def j(1)] r nb by (simp add: B_def)
  have D1: "D div LB ^ j = 2 ^ s * B + unat db"
    using partial_limb [OF j(3) s(4), of m dp, folded D_def s_def j(1)] db by (simp add: B_def)
  have rn1: "1 \<le> rn" "rn \<le> qn + 1" "qn \<le> rn" using rn sz(1) by auto
  obtain cy1 m1 where l1: "mpn_lshift n2p n2p rn s m = (cy1, m1)" by fastforce
  define m2 where "m2 = m1(n2p := m1 n2p OR nb)"
  have nb2: "unat nb < 2 ^ s" by (rule nb(2))
  have "MPN_SAME_OR_DECR_P n2p n2p rn" by (simp add: overlap_defs)
  note A = lshift_append [OF l1 rn1(1) s(1) this nb2, folded m2_def, unfolded q]
  have f1: "only_in n2p rn m m1" by (rule mpn_lshift_spec(3) [OF l1 rn1(1) s(1)]) (simp add: overlap_defs)
  have m1: "m1 (np + i - 1) = m (np + i - 1)" by (rule only_inD [OF f1]) (use o sz in linarith)
  have m2: "m2 (dp + i - 1) = m (dp + i - 1)" by (rule only_inD [OF A(3)]) (use o sz in linarith)
  have m2q: "mval m2 qp qn = q" using only_in_mval [OF A(3), of qp qn] o q(1) by simp
  obtain cy2 m3 where l3: "mpn_submul_1 n2p qp qn db m2 = (cy2, m3)" by fastforce
  have "MPN_SAME_OR_INCR_P n2p qp qn" using o by (auto simp: overlap_defs)
  note S = mpn_submul_1_spec [OF l3 this, unfolded m2q]
  have m3: "m3 (n2p + qn) = m2 (n2p + qn)" by (rule only_inD [OF S(2)]) simp
  have run: "short_partial qp n2p np dp i qn rn c m = (if qn \<noteq> rn
               then (if m3 (n2p + qn) < cy2 then None else Some (False, rn, j, m3(n2p + qn := m3 (n2p + qn) - cy2)))
               else Some (cy1 < cy2, rn + 1, j, m3(n2p + qn := cy1 - cy2)))"
    unfolding short_partial_def if_P [OF c(1)] s_def [symmetric] l1 prod.case Let_def m1 nb_def [symmetric] m2_def [symmetric] m2 db_def [symmetric] l3 j(4) ..
  have goalN: "X + q * (D div LB ^ j) = N div LB ^ j + Y" if "X + q * unat db = 2 ^ s * r + unat nb + Y" for X Y
    unfolding N1 D1 using that by (simp add: algebra_simps)
  show ?thesis
  proof (cases "rn = qn")
    case True
    define m4 where "m4 = m3(n2p + qn := cy1 - cy2)"
    have v: "mval m4 n2p (qn + 1) = mval m3 n2p qn + LB ^ qn * unat (cy1 - cy2)" by (simp add: m4_def mval_high del: mval.simps)
    have "LB ^ qn * unat (cy1 - cy2) + LB ^ qn * unat cy2 = LB ^ qn * unat cy1 + LB ^ (qn + 1) * of_bool (cy1 < cy2)"
      using arg_cong [OF sub_borrow [of cy1 cy2], of "(*) (LB ^ qn)"] by (simp add: distrib_left)
    then have "mval m4 n2p (qn + 1) + q * unat db = 2 ^ s * r + unat nb + LB ^ (qn + 1) * of_bool (cy1 < cy2)"
      using v S(1) A(1) unfolding True by linarith
    note g = goalN [OF this]
    have "only_in n2p (qn + 1) m m4"
      by (rule only_in_trans [OF only_in_mono [OF A(3)] only_in_trans [OF only_in_mono [OF S(2)]]]) (auto simp: True m4_def intro: only_in_upd)
    then show ?thesis using run True g by (auto simp: m4_def)
  next
    case False
    then have rn': "rn = qn + 1" "LB ^ qn \<le> r" "r < 2 * LB ^ qn" using rn by auto
    have "2 ^ s * 2 \<le> LB" using power_increasing [of "Suc s" 32 "2 :: nat"] s c unfolding LB_power by (simp add: s_def)
    have "2 ^ s * r + unat nb < LB ^ rn"
    proof -
      have "r + 1 \<le> 2 * LB ^ qn" using rn' by simp
      then have "2 ^ s * (r + 1) \<le> 2 ^ s * (2 * LB ^ qn)" by (rule mult_le_mono2)
      also have "\<dots> = (2 ^ s * 2) * LB ^ qn" by simp
      also have "\<dots> \<le> LB * LB ^ qn" by (rule mult_le_mono1) fact
      finally show ?thesis using nb2 rn' by simp
    qed
    then have cy1: "unat cy1 = 0" using A(1) by (cases "unat cy1") auto
    define t where "t = m2 (n2p + qn)"
    have V: "mval m2 n2p qn + LB ^ qn * unat t = 2 ^ s * r + unat nb" using A(1) cy1 unfolding rn'(1) by (simp add: mval_high t_def del: mval.simps)
    have "q * unat db \<le> 2 ^ s * r + unat nb"
    proof -
      have "q < LB ^ qn" using mval_less [of m qp qn] q(1) by simp
      then have "q * unat db \<le> LB ^ qn * 2 ^ s" using db(2) by (intro mult_le_mono) simp_all
      also have "\<dots> \<le> r * 2 ^ s" by (rule mult_le_mono1 [OF rn'(2)])
      finally show ?thesis by (simp add: mult.commute)
    qed
    then have "LB ^ qn * unat cy2 < LB ^ qn * (unat t + 1)"
      using V S(1) mval_less [of m3 n2p qn] by (simp add: distrib_left)
    then have t: "unat cy2 \<le> unat t" by (simp only: mult_less_cancel1) simp
    define m4 where "m4 = m3(n2p + qn := t - cy2)"
    have "mval m4 n2p (qn + 1) = mval m3 n2p qn + LB ^ qn * (unat t - unat cy2)"
      using t by (simp add: m4_def mval_high unat_minus_limb limb_le_iff del: mval.simps)
    moreover have "LB ^ qn * (unat t - unat cy2) + LB ^ qn * unat cy2 = LB ^ qn * unat t" using t by (simp flip: distrib_left)
    ultimately have "mval m4 n2p (qn + 1) + q * unat db = 2 ^ s * r + unat nb + 0"
      using S(1) V by linarith
    note g = goalN [OF this]
    have "only_in n2p (qn + 1) m m4"
      by (rule only_in_trans [OF only_in_mono [OF A(3)] only_in_trans [OF only_in_mono [OF S(2)]]]) (auto simp: rn' m4_def intro: only_in_upd)
    moreover have "\<not> t < cy2" using t by (simp add: limb_less_iff)
    ultimately show ?thesis using run g by (auto simp: rn' m4_def m3 t_def)
  qed
qed

lemma remainder_value:
  fixes L P R :: nat
  assumes 1: "X + q * D1 = N1 + R * t" and 2: "X2 + T = X + R * c1" and 3: "L + tlo = Nlo + P * c2" and 4: "Y + c2 = X2 + R * c3"
    and 5: "q * Dlo = tlo + P * T"
  shows "(L + P * Y) + q * (Dlo + P * D1) = (Nlo + P * N1) + (P * R) * (t + c1 + c3)"
proof -
  have "(L + P * Y) + q * (Dlo + P * D1) = (L + tlo) + P * (Y + T + q * D1)" using 5 by (simp add: algebra_simps)
  also have "\<dots> = Nlo + P * ((Y + c2) + T + q * D1)" unfolding 3 by (simp add: algebra_simps)
  also have "\<dots> = Nlo + P * ((X2 + T) + R * c3 + q * D1)" unfolding 4 by (simp add: algebra_simps)
  also have "\<dots> = Nlo + P * ((X + q * D1) + R * (c1 + c3))" unfolding 2 by (simp add: algebra_simps)
  also have "\<dots> = (Nlo + P * N1) + (P * R) * (t + c1 + c3)" unfolding 1 by (simp add: algebra_simps)
  finally show ?thesis .
qed

lemma borrow_is_bit:
  fixes D N :: nat
  assumes "R + q * D = N + L * k" "R < L" "D \<le> L" "q * D \<le> N + D"
  shows "k \<le> 1"
proof (rule ccontr)
  assume "\<not> k \<le> 1"
  then have "L * 2 \<le> L * k" by (intro mult_le_mono2) simp
  then show False using assms by linarith
qed

text \<open>The product of the quotient with the low limbs of the divisor, by \<open>mpn_mul\<close> with the longer operand first.\<close>

lemma short_product:
  assumes sz: "1 \<le> qn" "1 \<le> j" "qn < MUL_TOOM3_THRESHOLD" "j + qn \<le> dn" and o: "qp + qn \<le> tp" "dp + j \<le> tp" "qp + qn \<le> dp \<or> dp + dn \<le> qp"
  shows "\<exists>h m'. (if j < qn then mpn_mul tp qp qn dp j (tp + dn) (tp + dn + 2 * dn) m else mpn_mul tp dp j qp qn (tp + dn) (tp + dn + 2 * dn) m) = Some (h, m')
    \<and> mval m' tp (qn + j) = mval m qp qn * mval m dp j \<and> only_at {tp..} m m'"
proof -
  have g: "\<exists>h m'. mpn_mul tp up un vp vn (tp + dn) (tp + dn + 2 * dn) m = Some (h, m')
    \<and> mval m' tp (un + vn) = mval m up un * mval m vp vn \<and> only_at {tp..} m m'"
    if "1 \<le> vn" "vn \<le> un" "un + vn \<le> dn" "vn < MUL_TOOM3_THRESHOLD" "up \<noteq> vp" "up + un \<le> tp" "vp + vn \<le> tp" for up un vp vn
  proof -
    define r where "r = kara_room vn + 2 * SQR_KARATSUBA_THRESHOLD"
    have "\<exists>m'. mpn_mul tp up un vp vn (tp + dn) (tp + dn + 2 * dn) m = Some (m' (tp + un + vn - 1), m')
      \<and> mval m' tp (un + vn) = mval m up un * mval m vp vn
      \<and> only_at ({tp..<tp + (un + vn)} \<union> {tp + dn..<tp + dn + 2 * dn} \<union> {tp + dn + 2 * dn..<tp + dn + 2 * dn + r}) m m'"
      by (rule mpn_mul_spec; (unfold no_overlap_iff)?) (use that in \<open>auto simp: MUL_TOOM3_THRESHOLD_def r_def\<close>)
    moreover have "{tp..<tp + (un + vn)} \<union> {tp + dn..<tp + dn + 2 * dn} \<union> {tp + dn + 2 * dn..<tp + dn + 2 * dn + r} \<subseteq> {tp..}" by auto
    ultimately show ?thesis by (blast intro: only_at_mono)
  qed
  have ne: "qp \<noteq> dp" using o sz by auto
  show ?thesis
  proof (cases "j < qn")
    case True
    then show ?thesis using g [of j qn qp dp] True sz o ne by simp
  next
    case False
    then show ?thesis using g [of qn j dp qp] False sz o ne by (simp add: add.commute mult.commute)
  qed
qed

lemma mval_unique:
  assumes "A + LB ^ n * a = B + LB ^ n * b" "A < LB ^ n" "B < LB ^ n"
  shows "A = B" "a = b"
proof -
  have "(A + LB ^ n * a) mod LB ^ n = (B + LB ^ n * b) mod LB ^ n" using assms(1) by simp
  then show "A = B" using assms(2,3) by simp
  then show "a = b" using assms(1) by simp
qed

text \<open>The low limbs of the remainder: a subtraction from the dividend's low limbs, with the borrow into the
  limbs copied above.  The second form is the one where the partial remainder has a limb too many: then the
  borrow stops inside the remainder, and the limb behind it keeps its value.\<close>

lemma short_low:
  assumes s: "mpn_sub_n rp np tp j m = (cy, m1)" "mpn_sub_1 (rp + j) (rp + j) rn cy m1 = (c3, m2)"
    and rn: "1 \<le> rn" and o: "rp + dn \<le> tp" "np + j \<le> rp \<or> rp + dn \<le> np" "j + rn = dn \<or> j + rn = dn + 1 \<and> 1 \<le> mval m (rp + j) (rn - 1)" "j \<le> dn"
  defines "k \<equiv> dn - j"
  shows "\<exists>c2 c3'. mval m2 rp j + mval m tp j = mval m np j + LB ^ j * of_bool c2
    \<and> mval m2 (rp + j) k + of_bool c2 = mval m (rp + j) k + LB ^ k * of_bool c3' \<and> (c3 \<noteq> 0) = c3' \<and> only_in rp dn m m2"
proof -
  have "MPN_SAME_OR_INCR_P rp np j" "MPN_SAME_OR_INCR_P rp tp j" using o by (auto simp: overlap_defs)
  note A = mpn_sub_n_spec [OF s(1) this]
  note B = mpn_sub_1_spec [OF s(2) rn]
  have B1: "mval m2 (rp + j) rn + unat cy = mval m1 (rp + j) rn + LB ^ rn * unat c3" "unat c3 \<le> 1" "only_in (rp + j) rn m1 m2"
    using B by (simp_all add: overlap_defs)
  have bit: "unat x = of_bool (x \<noteq> 0)" if "unat x \<le> 1" for x :: limb
    using that by (cases "x = 0") (auto simp: le_Suc_eq unat_eq_0)
  have m1k: "mval m1 (rp + j) l = mval m (rp + j) l" for l by (rule only_in_mval [OF A(3)]) simp
  have m2j: "mval m2 rp j = mval m1 rp j" by (rule only_in_mval [OF B1(3)]) simp
  have v1: "mval m2 rp j + mval m tp j = mval m np j + LB ^ j * of_bool (cy \<noteq> 0)" using A(1,2) bit m2j by simp
  show ?thesis
  proof (cases "j + rn = dn")
    case True
    then have k: "k = rn" by (simp add: k_def)
    have "only_in rp dn m m2" by (rule only_in_trans [OF only_in_mono [OF A(3)] only_in_mono [OF B1(3)]]) (use True in simp_all)
    then show ?thesis using v1 B1(1,2) bit A(2) unfolding m1k k by (intro exI [of _ "cy \<noteq> 0"] exI [of _ "c3 \<noteq> 0"]) simp
  next
    case False
    then have "j + rn = dn + 1" "1 \<le> mval m (rp + j) (rn - 1)" using o(3) by blast+
    moreover from this o(4) have "rn = Suc k" by (simp add: k_def)
    ultimately have r: "rn = Suc k" "1 \<le> mval m (rp + j) k" by simp_all
    define t t' where "t = unat (m1 (rp + j + k))" and "t' = unat (m2 (rp + j + k))"
    have tm: "m1 (rp + j + k) = m (rp + j + k)" by (rule only_inD [OF A(3)]) simp
    have cy: "unat cy \<le> mval m (rp + j) k" using A(2) r(2) by linarith
    have "mval m2 (rp + j) k + LB ^ k * t' + unat cy = mval m (rp + j) k + LB ^ k * t + LB ^ k * (LB * unat c3)"
      using B1(1) unfolding r(1) mval_high m1k t_def t'_def by simp
    then have e: "mval m2 (rp + j) k + LB ^ k * t' = (mval m (rp + j) k - unat cy) + LB ^ k * (t + LB * unat c3)"
      using cy by (simp add: distrib_left)
    have lt: "mval m (rp + j) k - unat cy < LB ^ k" using mval_less [of m "rp + j" k] by linarith
    note U = mval_unique [OF e mval_less lt]
    have c3: "unat c3 = 0" using U(2) unat_lt_LB [of "m2 (rp + j + k)"] unfolding t'_def by (cases "unat c3") auto
    then have "t' = t" using U(2) by simp
    then have "m2 (rp + j + k) = m (rp + j + k)" using tm by (simp add: t_def t'_def limb_eq_iff)
    moreover have "only_in rp (dn + 1) m m2" by (rule only_in_trans [OF only_in_mono [OF A(3)] only_in_mono [OF B1(3)]]) (use r o in \<open>simp_all add: k_def\<close>)
    ultimately have "only_in rp dn m m2" using o(4) by (auto simp: only_in_def k_def) (metis le_antisym not_less_eq_eq add_Suc_right)
    moreover have "mval m2 (rp + j) k + of_bool (cy \<noteq> 0) = mval m (rp + j) k + LB ^ k * of_bool False" using U(1) cy bit A(2) by simp
    moreover have "c3 = 0" using c3 by (simp add: unat_eq_0)
    ultimately show ?thesis using v1 by blast
  qed
qed

lemma short_remainder_spec:
  fixes m :: mem and np dp nn dn j qp qn n2p rn :: nat
  defines "N \<equiv> mval m np nn" and "D \<equiv> mval m dp dn" and "Dl \<equiv> mval m dp j" and "q \<equiv> mval m qp qn" and "X \<equiv> mval m n2p rn"
  assumes sz: "1 \<le> qn" "qn < MUL_TOOM3_THRESHOLD" "qn < dn" "dn \<le> nn" "rn = qn \<or> rn = qn + 1"
    and X: "X + q * (D div LB ^ j) = N div LB ^ j + LB ^ rn * of_bool big" and qD: "q * D \<le> N + D"
    and j: "j + rn = dn \<or> j + qn = dn \<and> rn = qn + 1 \<and> \<not> big \<and> LB ^ qn \<le> X \<and> X < (q * Dl) div LB ^ j + LB ^ qn"
    and o: "rp + dn \<le> n2p" "qp + qn \<le> n2p" "np + nn \<le> n2p" "dp + dn \<le> n2p" "n2p + rn \<le> tp"
      "rp + dn \<le> np \<or> np + nn \<le> rp" "qp + qn \<le> dp \<or> dp + dn \<le> qp"
  shows "\<exists>b m'. short_remainder qp rp np dp dn n2p qn tp big rn j m = Some (b, m')
    \<and> mval m' rp dn + q * D = N + LB ^ dn * of_bool b \<and> only_at ({rp..<rp + dn} \<union> {n2p..}) m m'"
proof -
  define P S where "P = LB ^ j" and "S = {rp..<rp + dn} \<union> {n2p..}"
  have jd: "j \<le> dn" "j \<le> nn" "1 \<le> rn" "qn \<le> rn" using j sz by auto
  have D: "D = Dl + P * (D div P)" using mval_less [of m dp j] mval_split [OF jd(1), of m dp] unfolding P_def D_def Dl_def by simp
  have N: "N = mval m np j + P * (N div P)" using mval_less [of m np j] mval_split [OF jd(2), of m np] unfolding P_def N_def by simp
  show ?thesis
  proof (cases "j = 0")
    case True
    then have rn: "rn = dn" "P = 1" "j < qn" using j sz by (auto simp: P_def)
    define m1 where "m1 = MPN_COPY rp n2p rn m"
    have m1: "m1 = mcopy rp n2p rn m" unfolding m1_def by (rule MPN_COPY_spec) (use o rn in \<open>auto simp: overlap_defs\<close>)
    have "short_remainder qp rp np dp dn n2p qn tp big rn j m = Some (big, m1)"
      using True rn sz by (simp add: short_remainder_def Let_def m1_def)
    moreover have "mval m1 rp dn + q * D = N + LB ^ dn * of_bool big" using X True unfolding m1 rn(1) by (simp add: X_def rn)
    moreover have "only_at S m m1" unfolding m1 by (rule only_in_at [OF only_in_mcopy]) (simp add: S_def rn)
    ultimately show ?thesis unfolding S_def by blast
  next
    case False
    have jq: "j + qn \<le> dn" "1 \<le> j" using j jd False by auto
    have oq: "qp + qn \<le> tp" "dp + j \<le> tp" using o jd by linarith+
    obtain h m1 where p: "(if j < qn then mpn_mul tp qp qn dp j (tp + dn) (tp + dn + 2 * dn) m else mpn_mul tp dp j qp qn (tp + dn) (tp + dn + 2 * dn) m) = Some (h, m1)"
      and v1: "mval m1 tp (qn + j) = q * Dl" and f1: "only_at {tp..} m m1"
      using short_product [OF sz(1) jq(2) sz(2) jq(1) oq o(7), of m] unfolding q_def Dl_def by blast
    define T tlo where "T = mval m1 (tp + j) qn" and "tlo = mval m1 tp j"
    have T: "q * Dl = tlo + P * T" using v1 mval_add [of m1 tp j qn] by (simp add: T_def tlo_def P_def add.commute)
    have TP: "T = (q * Dl) div P" unfolding T using mval_less [of m1 tp j] by (simp add: P_def tlo_def)
    have k1: "mval m1 a l = mval m a l" if "a + l \<le> tp" for a l
      by (rule only_at_mval [OF f1]) (use that in auto)
    obtain c1 m2 where s2: "mpn_sub n2p n2p rn (tp + j) qn m1 = (c1, m2)" by fastforce
    have "MPN_SAME_OR_SEPARATE2_P n2p rn n2p rn" "MPN_SAME_OR_SEPARATE2_P n2p rn (tp + j) qn" using o by (auto simp: overlap_defs)
    note S2 = mpn_sub_spec [OF s2 jd(4) this, folded T_def]
    have x2: "mval m2 n2p rn + T = X + LB ^ rn * unat c1" using S2(1) k1 [of n2p rn] o by (simp add: X_def)
    define k where "k = dn - j"
    define m3 where "m3 = MPN_COPY (rp + j) n2p k m2"
    have m3: "m3 = mcopy (rp + j) n2p k m2" unfolding m3_def
      by (rule MPN_COPY_spec) (use o jd in \<open>auto simp: overlap_defs k_def\<close>)
    obtain cy m4 where s4: "mpn_sub_n rp np tp j m3 = (cy, m4)" by fastforce
    obtain c3 m5 where s5: "mpn_sub_1 (rp + j) (rp + j) rn cy m4 = (c3, m5)" by fastforce
    have run: "short_remainder qp rp np dp dn n2p qn tp big rn j m = Some ((big \<or> c1 \<noteq> 0) \<or> c3 \<noteq> 0, m5)"
    proof -
      have "short_remainder qp rp np dp dn n2p qn tp big rn j m = do {
           (_, m) \<leftarrow> (if j < qn then mpn_mul tp qp qn dp j (tp + dn) (tp + dn + 2 * dn) m else mpn_mul tp dp j qp qn (tp + dn) (tp + dn + 2 * dn) m);
           let (cy, m) = mpn_sub n2p n2p rn (tp + j) qn m;
           let m = MPN_COPY (rp + j) n2p (dn - j) m;
           let quotient_too_large = (big \<or> cy \<noteq> 0);
           let (cy, m) = mpn_sub_n rp np tp j m;
           let (cy, m) = mpn_sub_1 (rp + j) (rp + j) rn cy m;
           Some (quotient_too_large \<or> cy \<noteq> 0, m)
         }"
        using False unfolding short_remainder_def Let_def by (simp only: simp_thms if_False)
      then show ?thesis unfolding p k_def [symmetric] by (simp add: s2 s4 s5 m3_def [symmetric])
    qed
    have f2: "only_in n2p rn m1 m2" by (rule S2(3))
    have f3: "only_in rp dn m2 m3" unfolding m3 by (rule only_in_mono [OF only_in_mcopy]) (use jd in \<open>simp_all add: k_def\<close>)
    have low: "mval m3 tp j = tlo" "mval m3 np j = mval m np j"
      unfolding tlo_def
      using only_in_mval [OF f3, of tp j] only_in_mval [OF f2, of tp j] only_in_mval [OF f3, of np j] only_in_mval [OF f2, of np j] k1 [of np j] o jd
      by auto
    have bit: "unat c1 = of_bool (c1 \<noteq> 0)" using S2(2) by (cases "c1 = 0") (auto simp: le_Suc_eq unat_eq_0)
    have hi: "mval m3 (rp + j) k = mval m2 n2p k" unfolding m3 by simp
    have sp: "j + rn = dn \<or> j + rn = dn + 1 \<and> 1 \<le> mval m3 (rp + j) (rn - 1)"
      and kr: "mval m2 n2p k + T = X + (if j + rn = dn then LB ^ k * of_bool (c1 \<noteq> 0) else 0)" "j + rn = dn \<or> c1 = 0"
    proof -
      have "(j + rn = dn \<or> j + rn = dn + 1 \<and> 1 \<le> mval m3 (rp + j) (rn - 1))
        \<and> mval m2 n2p k + T = X + (if j + rn = dn then LB ^ k * of_bool (c1 \<noteq> 0) else 0) \<and> (j + rn = dn \<or> c1 = 0)"
      proof (cases "j + rn = dn")
        case True
        then have "k = rn" by (simp add: k_def)
        then show ?thesis using x2 bit True by simp
      next
        case F: False
        then have a: "j + qn = dn" "rn = qn + 1" "LB ^ qn \<le> X" "X < T + LB ^ qn" using j TP by (auto simp: P_def)
        then have k: "k = qn" by (simp add: k_def)
        have "T < LB ^ qn" unfolding T_def by (rule mval_less)
        then have TX: "T < X" using a(3) by linarith
        define t where "t = unat (m2 (n2p + qn))"
        have "mval m2 n2p qn + LB ^ qn * t + T = X + LB ^ qn * (LB * unat c1)"
          using x2 unfolding a(2) by (simp add: mval_high t_def mult.left_commute del: mval.simps)
        then have e: "mval m2 n2p qn + LB ^ qn * t = (X - T) + LB ^ qn * (LB * unat c1)" using TX by simp
        have "X - T < LB ^ qn" using a(4) TX by linarith
        note U = mval_unique [OF e mval_less this]
        have "unat c1 = 0" using U(2) unat_lt_LB [of "m2 (n2p + qn)"] unfolding t_def by (cases "unat c1") auto
        moreover have "1 \<le> mval m3 (rp + j) (rn - 1)" using hi U(1) TX unfolding k a(2) by simp
        ultimately show ?thesis using U(1) TX a F unfolding k by (simp add: unat_eq_0)
      qed
      then show "j + rn = dn \<or> j + rn = dn + 1 \<and> 1 \<le> mval m3 (rp + j) (rn - 1)"
        "mval m2 n2p k + T = X + (if j + rn = dn then LB ^ k * of_bool (c1 \<noteq> 0) else 0)" "j + rn = dn \<or> c1 = 0"
        by blast+
    qed
    have nr: "np + j \<le> rp \<or> rp + dn \<le> np" and rt: "rp + dn \<le> tp" using o jd by auto
    obtain c2 c3' where L: "mval m5 rp j + tlo = mval m np j + P * of_bool c2"
      "mval m5 (rp + j) k + of_bool c2 = mval m2 n2p k + LB ^ k * of_bool c3'" "(c3 \<noteq> 0) = c3'" "only_in rp dn m3 m5"
      using short_low [OF s4 s5 jd(3) rt nr sp jd(1)] unfolding low hi k_def [symmetric] P_def [symmetric] by blast
    have X': "X + q * (D div P) = N div P + LB ^ k * of_bool big"
      using X j by (auto simp: P_def k_def)
    have kr': "mval m2 n2p k + T = X + LB ^ k * of_bool (c1 \<noteq> 0)" using kr by (auto split: if_splits)
    define b where "b = (of_bool big + of_bool (c1 \<noteq> 0) + of_bool c3' :: nat)"
    have "mval m5 rp dn = mval m5 rp j + P * mval m5 (rp + j) k" using mval_split [OF jd(1), of m5 rp] by (simp add: P_def k_def)
    moreover have "P * LB ^ k = LB ^ dn" using jd by (simp add: P_def k_def flip: power_add)
    ultimately have R: "mval m5 rp dn + q * D = N + LB ^ dn * b"
      using remainder_value [OF X' kr' L(1,2) T] D N unfolding b_def by simp
    have "b \<le> 1" by (rule borrow_is_bit [OF R mval_less _ qD]) (simp add: D_def mval_less less_imp_le)
    then have bb: "b = of_bool ((big \<or> c1 \<noteq> 0) \<or> c3 \<noteq> 0)" unfolding b_def L(3) by (auto split: if_splits)
    have "only_at S m m5"
    proof -
      have "only_at S m m1" by (rule only_at_mono [OF f1]) (use o in \<open>auto simp: S_def\<close>)
      moreover have "only_at S m1 m2" by (rule only_in_at [OF f2]) (auto simp: S_def)
      moreover have "only_at S m2 m3" by (rule only_in_at [OF f3]) (auto simp: S_def)
      moreover have "only_at S m3 m5" by (rule only_in_at [OF L(4)]) (auto simp: S_def)
      ultimately show ?thesis by (blast intro: only_at_trans)
    qed
    then show ?thesis using run R unfolding bb S_def by blast
  qed
qed

section \<open>Short quotients, composed\<close>

lemma frame_disjoint: "b \<le> c \<or> d \<le> a \<Longrightarrow> b \<le> e \<Longrightarrow> {a..<b} \<inter> ({c..<d} \<union> {e..}) = {}" for a b c d e :: nat
  by auto

lemma shifted_mod: "i \<le> n \<Longrightarrow> (2 ^ c * mval m p n) mod LB ^ i = (2 ^ c * mval m p i) mod LB ^ i"
  unfolding mval_split [of i n m p] by (simp add: distrib_left mult.left_commute [of _ "LB ^ i"])

text \<open>Up to the partial remainder.\<close>

lemma short_estimate:
  fixes m :: mem and np dp nn dn qn :: nat
  defines "N \<equiv> mval m np nn" and "D \<equiv> mval m dp dn" and "i \<equiv> dn - qn"
  assumes sz: "1 \<le> qn" "qn < dn" "nn + adjust = dn + qn" "adjust \<le> 1" "qn < MUL_TOOM3_THRESHOLD"
    and d: "m (dp + dn - 1) \<noteq> 0" and top: "adjust = 0 \<Longrightarrow> m (np + nn - 1) < m (dp + dn - 1)"
    and o: "np + nn \<le> fp" "dp + dn \<le> fp" "qp + qn \<le> fp" "qp + qn \<le> dp \<or> dp + dn \<le> qp" "qp + qn \<le> np \<or> np + nn \<le> qp"
  shows "\<exists>c d2p n2p m1 m2 rn0 m3 big rn j m4 q X. short_operands np nn dp dn qn adjust fp m = (c, d2p, n2p, m1)
    \<and> short_quotient qp n2p d2p qn (fp + 3 * qn + 1) m1 = Some m2 \<and> short_test qp n2p d2p dp i qn c m2 = Some (rn0, m3)
    \<and> short_partial qp n2p np dp i qn rn0 c m3 = Some (big, rn, j, m4)
    \<and> fp \<le> n2p \<and> n2p + rn \<le> fp + 3 * qn + 1 \<and> (rn = qn \<or> rn = qn + 1)
    \<and> q = mval m4 qp qn \<and> X = mval m4 n2p rn
    \<and> X + q * (D div LB ^ j) = N div LB ^ j + LB ^ rn * of_bool big \<and> N div D \<le> q \<and> q \<le> N div D + 1
    \<and> (j + rn = dn \<or> j + qn = dn \<and> rn = qn + 1 \<and> \<not> big \<and> LB ^ qn \<le> X \<and> X < (q * mval m dp j) div LB ^ j + LB ^ qn)
    \<and> only_at ({qp..<qp + qn} \<union> {fp..}) m m4"
proof -
  define S where "S = {qp..<qp + qn} \<union> {fp..}"
  obtain c d2p n2p m1 where e1: "short_operands np nn dp dn qn adjust fp m = (c, d2p, n2p, m1)"
    by (metis prod_cases4)
  define P D' N' where "P = LB ^ i" and "D' = 2 ^ c * D" and "N' = 2 ^ c * N"
  have E: "c < 32" "LB ^ dn \<le> 2 * D'" "D' < LB ^ dn" "mval m1 d2p qn = D' div P" "mval m1 n2p (2 * qn) = N' div P"
    "only_in fp (3 * qn + 1) m m1" "d2p = fp \<or> d2p = dp + i" "n2p = fp + qn \<or> n2p = fp + qn + 1"
    using short_operands_spec [OF e1 sz(1-4) d top o(1,2)] unfolding P_def D'_def N'_def N_def D_def i_def by blast+
  have i: "dn = i + qn" "1 \<le> i" "i \<le> dn" "i \<le> nn" using sz by (simp_all add: i_def)
  have n2: "fp \<le> n2p" "n2p + 2 * qn \<le> fp + 3 * qn + 1" "fp + qn \<le> n2p" using E(8) by auto
  have dd: "d2p + qn \<le> n2p" "qp + qn \<le> d2p \<or> d2p + qn \<le> qp" using E(7) n2 o i by auto
  have qn2: "qp + qn \<le> n2p" "np + i \<le> n2p" "dp + i \<le> n2p" using o n2 i by linarith+
  define A B where "A = N' div P" and "B = D' div P"
  have nm: "LB ^ qn \<le> 2 * B" unfolding B_def P_def by (rule normalized_high [OF _ sz(1)]) (use E(2) i(1) in simp)
  have "2 ^ c * 2 \<le> LB" using power_increasing [of "Suc c" 32 "2 :: nat"] E(1) unfolding LB_power by simp
  then have "2 * 2 ^ c \<le> LB" by simp
  then have ft: "A < B * LB ^ qn"
    using quotient_fits [OF _ sz(1,3,4) d sz(2) top _ E(2) [unfolded D'_def D_def]] sz
    unfolding A_def B_def P_def N'_def D'_def N_def D_def i_def by simp
  obtain m2 where e2: "short_quotient qp n2p d2p qn (fp + 3 * qn + 1) m1 = Some m2" "mval m2 qp qn = A div B" "mval m2 n2p qn = A mod B"
    and f2: "only_at ({qp..<qp + qn} \<union> {n2p..<n2p + 2 * qn} \<union> {fp + 3 * qn + 1..}) m1 m2"
    using short_quotient_spec [OF sz(1,5), where m = m1 and d2p = d2p and n2p = n2p and qp = qp and fp = "fp + 3 * qn + 1"] nm ft dd qn2 n2(2) unfolding E(4,5) A_def [symmetric] B_def [symmetric] by blast
  have F1: "only_at S m m1" by (rule only_in_at [OF E(6)]) (auto simp: S_def)
  have F2: "only_at S m m2" by (rule only_at_trans [OF F1 only_at_mono [OF f2]]) (use n2 in \<open>auto simp: S_def\<close>)
  have keep: "mval m' p k = mval m p k" if "only_at S m m'" "p + k \<le> fp" "qp + qn \<le> p \<or> p + k \<le> qp" for m' p k
    by (rule only_at_mval [OF that(1)]) (use that in \<open>auto simp: S_def\<close>)
  have Dm: "mval m' dp dn = D" "mval m' np nn = N" "mval m' dp i = mval m dp i" if "only_at S m m'" for m'
    unfolding D_def N_def by (rule keep [OF that]; use o i in linarith)+
  define a b where "a = N' mod P" and "b = D' mod P"
  have NA: "N' = A * P + a" and DB: "D' = B * P + b" unfolding A_def a_def B_def b_def by (simp_all only: div_mult_mod_eq)
  have aP: "a < P" by (simp add: a_def P_def)
  have qN: "(A * P + a) div (B * P + b) = N div D" unfolding NA [symmetric] DB [symmetric] N'_def D'_def by simp
  have B2: "mval m2 d2p qn = B"
    unfolding B_def E(4) [symmetric] by (rule only_at_mval [OF f2]) (use dd n2 in auto)
  have b2: "(2 ^ c * mval m2 dp i) mod P = b"
    unfolding Dm(3) [OF F2] b_def D'_def D_def P_def by (rule shifted_mod [OF i(3), symmetric])
  obtain rn m3 q1 r1 where e3: "short_test qp n2p d2p dp i qn c m2 = Some (rn, m3)" "mval m3 qp qn = q1" "mval m3 n2p rn = r1"
    "A = q1 * B + r1" "N div D \<le> q1" "q1 \<le> N div D + 1"
    and rn: "rn = qn \<or> rn = qn + 1 \<and> LB ^ qn \<le> r1 \<and> r1 < 2 * LB ^ qn \<and> (r1 + 1) * P \<le> q1 * b + (B * P + b)"
    and f3: "only_at ({qp..<qp + qn} \<union> {n2p..<n2p + qn + 1}) m2 m3"
    using short_test_spec [OF sz(1) i(2) E(1) qn2(1) dd(1,2) qn2(3), of a m2 A] aP nm e2(2,3)
    unfolding B2 b2 P_def [symmetric] qN by blast
  have F3: "only_at S m m3" by (rule only_at_trans [OF F2 only_at_mono [OF f3]]) (use n2 in \<open>auto simp: S_def\<close>)
  show ?thesis
  proof (cases "c = 0")
    case True
    have e4: "short_partial qp n2p np dp i qn rn c m3 = Some (False, rn, i, m3)" by (simp add: short_partial_def True)
    have "r1 + q1 * (D div LB ^ i) = N div LB ^ i + LB ^ rn * of_bool False"
      using e3(4) True by (simp add: A_def B_def N'_def D'_def P_def)
    moreover have "i + rn = dn \<or> i + qn = dn \<and> rn = qn + 1 \<and> \<not> False \<and> LB ^ qn \<le> r1 \<and> r1 < (q1 * mval m dp i) div LB ^ i + LB ^ qn"
    proof (cases "rn = qn")
      case False
      then have r: "rn = qn + 1" "LB ^ qn \<le> r1" "(r1 + 1) * P \<le> q1 * b + D'" using rn unfolding DB [symmetric] by auto
      have "D' < LB ^ qn * P" using E(3) unfolding P_def i(1) power_add by (simp add: mult.commute)
      moreover have "q1 * b < ((q1 * b) div P + 1) * P" unfolding P_def using dividend_less_div_times [of "LB ^ i" "q1 * b"] by simp
      ultimately have "(r1 + 1) * P < (((q1 * b) div P + 1) + LB ^ qn) * P" using r(3) unfolding distrib_right by linarith
      then have "r1 + 1 < ((q1 * b) div P + 1) + LB ^ qn" by (simp only: mult_less_cancel2)
      moreover have "b = mval m dp i" using b2 Dm(3) [OF F2] True mval_less [of m dp i] by (simp add: P_def)
      ultimately show ?thesis using r i by (simp add: P_def)
    qed (use i in simp)
    moreover have "n2p + rn \<le> fp + 3 * qn + 1" using n2 rn sz(1) by auto
    ultimately show ?thesis using e1 e2(1) e3 e4 n2(1) rn F3 [unfolded S_def] by blast
  next
    case False
    have rn': "rn = qn \<or> rn = qn + 1 \<and> LB ^ qn \<le> r1 \<and> r1 < 2 * LB ^ qn" using rn by blast
    have r: "(2 ^ c * mval m3 np nn) div LB ^ i = q1 * ((2 ^ c * mval m3 dp dn) div LB ^ i) + r1"
      using e3(4) unfolding Dm [OF F3] by (simp add: A_def B_def N'_def D'_def P_def)
    obtain big m4 where e4: "short_partial qp n2p np dp i qn rn c m3 = Some (big, qn + 1, i - 1, m4)"
      "mval m4 n2p (qn + 1) + q1 * (D div LB ^ (i - 1)) = N div LB ^ (i - 1) + LB ^ (qn + 1) * of_bool big"
      and f4: "only_in n2p (qn + 1) m3 m4"
      using short_partial_spec [OF False E(1) sz(1) i(2) i(4) i(3) rn' qn2 e3(2,3) r] unfolding Dm [OF F3] by blast
    have "mval m4 qp qn = q1" using only_in_mval [OF f4, of qp qn] qn2 e3(2) by simp
    moreover have "only_at S m m4" by (rule only_at_trans [OF F3 only_in_at [OF f4]]) (use n2 in \<open>auto simp: S_def\<close>)
    moreover have "i - 1 + (qn + 1) = dn" using i by simp
    moreover have "n2p + (qn + 1) \<le> fp + 3 * qn + 1" using n2 sz(1) by linarith
    ultimately show ?thesis using e1 e2(1) e3(1,5,6) e4 n2(1) unfolding S_def by blast
  qed
qed

lemma adjusted_quotient:
  fixes N D L :: nat
  assumes R: "R + q * D = N + L * of_bool b" and q: "N div D \<le> q" "q \<le> N div D + 1" and lt: "R < L" "D \<le> L" "0 < D"
  shows "if b then q = N div D + 1 \<and> R + D = N mod D + L else q = N div D \<and> R = N mod D"
proof (cases b)
  case True
  have "q = N div D + 1"
  proof (rule ccontr)
    assume "q \<noteq> N div D + 1"
    then have "q = N div D" using q by linarith
    then have "q * D \<le> N" by simp
    then show False using R lt True by simp
  qed
  moreover from this have "R + D = N mod D + L"
  proof -
    have "R + (N div D * D + D) = N + L" using R True \<open>q = N div D + 1\<close> by (simp add: distrib_right add.commute)
    then show ?thesis using div_mult_mod_eq [of N D] by linarith
  qed
  ultimately show ?thesis using True by simp
next
  case False
  then have "q * D \<le> N" using R by simp
  then have "q \<le> N div D" using lt(3) by (simp add: less_eq_div_iff_mult_less_eq)
  then have e: "q = N div D" using q(1) by simp
  have "R + N div D * D = N" using R False unfolding e by simp
  then have "R = N mod D" using div_mult_mod_eq [of N D] by linarith
  then show ?thesis using e False by simp
qed

lemma short_numerator_less:
  assumes "1 \<le> n" "m (np + n - 1) < m (dp + n - 1)"
  shows "mval m np n < mval m dp n"
proof -
  have "LB ^ (n - 1) * (unat (m (np + n - 1)) + 1) \<le> LB ^ (n - 1) * unat (m (dp + n - 1))"
    using assms(2) by (intro mult_le_mono2) (simp add: limb_less_iff)
  then show ?thesis using top_limb_bounds [OF assms(1), of m np] top_limb_bounds [OF assms(1), of m dp] by linarith
qed

lemma tdiv_qr_short_spec:
  fixes m :: mem and np dp nn dn qn :: nat
  defines "N \<equiv> mval m np nn" and "D \<equiv> mval m dp dn"
  assumes sz: "1 \<le> dn" "dn \<le> nn" "nn + adjust < 2 * dn" "adjust \<le> 1" "nn + adjust < dn + MUL_TOOM3_THRESHOLD"
    and d: "m (dp + dn - 1) \<noteq> 0" and top: "adjust = 0 \<Longrightarrow> m (np + nn - 1) < m (dp + dn - 1)"
    and o: "np + nn \<le> fp" "dp + dn \<le> fp" "qp + (nn - dn + 1) \<le> fp" "rp + dn \<le> fp"
      "qp + (nn - dn + 1) \<le> dp \<or> dp + dn \<le> qp" "qp + (nn - dn + 1) \<le> np \<or> np + nn \<le> qp"
      "qp + (nn - dn + 1) \<le> rp \<or> rp + dn \<le> qp" "rp + dn \<le> dp \<or> dp + dn \<le> rp" "rp + dn \<le> np \<or> np + nn \<le> rp"
  shows "\<exists>m'. tdiv_qr_short qp rp np nn dp dn adjust fp m = Some m'
    \<and> mval m' qp (nn - dn + 1) = N div D \<and> mval m' rp dn = N mod D
    \<and> only_at ({qp..<qp + (nn - dn + 1)} \<union> {rp..<rp + dn} \<union> {fp..}) m m'"
proof -
  define S where "S = {qp..<qp + (nn - dn + 1)} \<union> {rp..<rp + dn} \<union> {fp..}"
  define m0 where "m0 = m(qp + (nn - dn) := 0)"
  define qn where "qn = nn - dn + adjust"
  have V0: "mval m0 np nn = N" "mval m0 dp dn = D" unfolding m0_def N_def D_def by (rule mval_upd_out; use o in linarith)+
  have t0: "m0 (dp + dn - 1) = m (dp + dn - 1)" "m0 (np + nn - 1) = m (np + nn - 1)" using o sz by (auto simp: m0_def)
  have F0: "only_at S m m0" by (auto simp: only_at_def m0_def S_def)
  have lim: "m0 (qp + (nn - dn)) = 0" by (simp add: m0_def)
  have run: "tdiv_qr_short qp rp np nn dp dn adjust fp m =
    (if qn = 0 then Some (MPN_COPY rp np dn m0)
         else (let inn = dn - qn;
                   (cnt, d2p, n2p, m) = short_operands np nn dp dn qn adjust fp m0;
                   tp = fp + 3 * qn + 1
               in do {
                 m \<leftarrow> short_quotient qp n2p d2p qn tp m;
                 (rn, m) \<leftarrow> short_test qp n2p d2p dp inn qn cnt m;
                 (quotient_too_large, rn, inn, m) \<leftarrow> short_partial qp n2p np dp inn qn rn cnt m;
                 (quotient_too_large, m) \<leftarrow> short_remainder qp rp np dp dn n2p qn tp quotient_too_large rn inn m;
                 if quotient_too_large
                 then do {
                   m \<leftarrow> mpn_decr_u qp 1 m;
                   let (_, m) = mpn_add_n rp rp dp dn m;
                   Some m
                 }
                 else Some m
               }))"
    unfolding tdiv_qr_short_def Let_def m0_def qn_def ..
  show ?thesis
  proof (cases "qn = 0")
    case True
    then have q: "adjust = 0" "nn = dn" using sz by (auto simp: qn_def)
    define m1 where "m1 = MPN_COPY rp np dn m0"
    have m1: "m1 = mcopy rp np dn m0" unfolding m1_def by (rule MPN_COPY_spec) (use o q in \<open>auto simp: overlap_defs\<close>)
    have "N < D" using short_numerator_less [OF sz(1), of m np dp] top q unfolding N_def D_def by simp
    moreover have "only_at S m0 m1" unfolding m1 by (rule only_in_at [OF only_in_mcopy]) (auto simp: S_def)
    moreover have "m1 qp = 0" using lim o(7) q sz unfolding m1 by auto
    ultimately show ?thesis using run True V0 q only_at_trans [OF F0] unfolding m1_def [symmetric] S_def [symmetric] by (auto simp: m1)
  next
    case False
    have qn: "1 \<le> qn" "qn < dn" "nn + adjust = dn + qn" "qn < MUL_TOOM3_THRESHOLD" "qn \<le> nn - dn + 1" using sz False by (simp_all add: qn_def)
    have oq: "qp + qn \<le> fp" "qp + qn \<le> dp \<or> dp + dn \<le> qp" "qp + qn \<le> np \<or> np + nn \<le> qp" "qp + qn \<le> rp \<or> rp + dn \<le> qp"
      using o qn by linarith+
    have d0: "m0 (dp + dn - 1) \<noteq> 0" "adjust = 0 \<Longrightarrow> m0 (np + nn - 1) < m0 (dp + dn - 1)" using d top t0 by auto
    obtain c d2p n2p m1 m2 rn0 m3 big rn j m4 q X where e: "short_operands np nn dp dn qn adjust fp m0 = (c, d2p, n2p, m1)"
      "short_quotient qp n2p d2p qn (fp + 3 * qn + 1) m1 = Some m2" "short_test qp n2p d2p dp (dn - qn) qn c m2 = Some (rn0, m3)"
      "short_partial qp n2p np dp (dn - qn) qn rn0 c m3 = Some (big, rn, j, m4)"
      and n2: "fp \<le> n2p" "n2p + rn \<le> fp + 3 * qn + 1" "rn = qn \<or> rn = qn + 1"
      and q: "q = mval m4 qp qn" "X = mval m4 n2p rn" "X + q * (D div LB ^ j) = N div LB ^ j + LB ^ rn * of_bool big" "N div D \<le> q" "q \<le> N div D + 1"
      and j: "j + rn = dn \<or> j + qn = dn \<and> rn = qn + 1 \<and> \<not> big \<and> LB ^ qn \<le> X \<and> X < (q * mval m0 dp j) div LB ^ j + LB ^ qn"
      and F4: "only_at ({qp..<qp + qn} \<union> {fp..}) m0 m4"
      using short_estimate [OF qn(1-3) sz(4) qn(4) d0 o(1,2) oq(1-3)] unfolding V0 by blast
    have keep: "mval m4 p k = mval m0 p k" if "p + k \<le> fp" "qp + qn \<le> p \<or> p + k \<le> qp" for p k
      by (rule only_at_mval [OF F4]) (use that in auto)
    have V4: "mval m4 np nn = N" "mval m4 dp dn = D" using keep [of np nn] keep [of dp dn] V0 o oq by blast+
    have jd: "j \<le> dn" using j by auto
    have Dj: "mval m4 dp j = mval m0 dp j" by (rule keep) (use o oq jd in linarith)+
    have "LB ^ (dn - 1) \<le> D" unfolding D_def by (rule mval_lower) (use sz(1) d in simp_all)
    moreover have "0 < LB ^ (dn - 1)" by simp
    ultimately have D: "0 < D" by linarith
    have qD: "q * D \<le> N + D"
    proof -
      have "q * D \<le> (N div D + 1) * D" by (rule mult_le_mono1 [OF q(5)])
      also have "\<dots> \<le> N + D" by (simp add: distrib_right)
      finally show ?thesis .
    qed
    have o5: "rp + dn \<le> n2p" "qp + qn \<le> n2p" "np + nn \<le> n2p" "dp + dn \<le> n2p" using o oq n2 by linarith+
    obtain b m5 where e5: "short_remainder qp rp np dp dn n2p qn (fp + 3 * qn + 1) big rn j m4 = Some (b, m5)"
      "mval m5 rp dn + q * D = N + LB ^ dn * of_bool b" and f5: "only_at ({rp..<rp + dn} \<union> {n2p..}) m4 m5"
      using short_remainder_spec [where m = m4 and qp = qp and rp = rp and np = np and dp = dp and nn = nn and dn = dn and n2p = n2p and qn = qn and tp = "fp + 3 * qn + 1" and big = big and rn = rn and j = j]
        qn(1,4,2) sz(2) n2(3) q(3) qD j o5 n2(2) o(9) oq(2)
      unfolding V4 Dj q(1) [symmetric] q(2) [symmetric] by blast
    have F5: "only_at S m m5"
      by (rule only_at_trans [OF only_at_trans [OF F0 only_at_mono [OF F4]] only_at_mono [OF f5]]) (use n2(1) qn(5) in \<open>auto simp: S_def\<close>)
    have V5: "mval m5 qp qn = q" "mval m5 dp dn = D"
      unfolding q(1) V4(2) [symmetric]
      by (rule only_at_mval [OF f5], rule frame_disjoint; use o(8) oq(4) o5 in linarith)+
    have lim5: "m5 (qp + (nn - dn)) = 0 \<or> adjust = 1"
    proof (cases "adjust = 0")
      case True
      then have "m4 (qp + (nn - dn)) = m0 (qp + (nn - dn))" by (intro only_atD [OF F4]) (use o qn in \<open>auto simp: qn_def\<close>)
      moreover have "m5 (qp + (nn - dn)) = m4 (qp + (nn - dn))" by (intro only_atD [OF f5]) (use o o5 n2 in auto)
      ultimately show ?thesis using lim by simp
    qed (use sz(4) in simp)
    have L: "mval m5 rp dn < LB ^ dn" "D \<le> LB ^ dn" using mval_less [of m dp dn] by (simp_all add: mval_less D_def less_imp_le)
    note A = adjusted_quotient [OF e5(2) q(4,5) L D]
    have Q: "mval m' qp (nn - dn + 1) = mval m' qp qn" if "m' (qp + (nn - dn)) = 0 \<or> adjust = 1" for m'
    proof (cases "adjust = 0")
      case True
      then show ?thesis using that by (simp add: qn_def mval_high del: mval.simps)
    next
      case False
      then have "adjust = 1" using sz(4) by simp
      then show ?thesis by (simp add: qn_def)
    qed
    show ?thesis
    proof (cases b)
      case False
      then have "tdiv_qr_short qp rp np nn dp dn adjust fp m = Some m5" using run \<open>qn \<noteq> 0\<close> e e5(1) by (simp add: Let_def)
      then show ?thesis using A False V5(1) Q [of m5, OF lim5] F5 unfolding S_def by simp
    next
      case True
      have q1: "q = N div D + 1" "mval m5 rp dn + D = N mod D + LB ^ dn" using A True by simp_all
      obtain m6 where d6: "mpn_decr_u qp 1 m5 = Some m6" "mval m6 qp qn + 1 = q" "only_in qp qn m5 m6"
        using mpn_decr_u_spec [of 1 m5 qp qn] V5(1) q1(1) by auto
      obtain cy m7 where a7: "mpn_add_n rp rp dp dn m6 = (cy, m7)" by fastforce
      have "MPN_SAME_OR_INCR_P rp rp dn" "MPN_SAME_OR_INCR_P rp dp dn" using o by (auto simp: overlap_defs)
      note S7 = mpn_add_n_spec [OF a7 this]
      have "mval m6 rp dn = mval m5 rp dn" "mval m6 dp dn = D"
        unfolding V5(2) [symmetric] by (rule only_in_mval [OF d6(3)]; use oq in linarith)+
      then have "mval m7 rp dn + LB ^ dn * unat cy = N mod D + LB ^ dn * 1" using S7(1) q1(2) by simp
      moreover have "N mod D < LB ^ dn" using L(2) D by (meson mod_less_divisor less_le_trans)
      ultimately have R: "mval m7 rp dn = N mod D" by (rule mval_unique [OF _ mval_less])
      have q7: "mval m7 qp qn = N div D" using only_in_mval [OF S7(3), of qp qn] oq d6(2) q1(1) by auto
      have "m7 (qp + (nn - dn)) = 0 \<or> adjust = 1"
      proof (cases "adjust = 0")
        case True
        have "m7 (qp + (nn - dn)) = m6 (qp + (nn - dn))" by (rule only_inD [OF S7(3)]) (use o in linarith)
        also have "\<dots> = m5 (qp + (nn - dn))" by (rule only_inD [OF d6(3)]) (use True in \<open>simp add: qn_def\<close>)
        finally show ?thesis using lim5 by simp
      qed (use sz(4) in simp)
      moreover have "tdiv_qr_short qp rp np nn dp dn adjust fp m = Some m7"
        using run \<open>qn \<noteq> 0\<close> e e5(1) True d6(1) a7 by (simp add: Let_def)
      moreover have "only_at S m m7"
        by (rule only_at_trans [OF F5 only_at_trans [OF only_in_at [OF d6(3)] only_in_at [OF S7(3)]]]) (use qn(5) in \<open>auto simp: S_def\<close>)
      ultimately show ?thesis using R q7 Q [of m7] unfolding S_def by simp
    qed
  qed
qed

end
