(* ===== verification/Mpn_TdivQr.thy ===== *)
theory Mpn_TdivQr
  imports Mpn_TdivShort
begin

text \<open>
  Division of any two operands, completed (\<open>mpn/generic/tdiv_qr.c\<close>): the branches for divisors of two limbs and
  for long quotients, and \<open>mpn_tdiv_qr\<close> itself, which computes \<open>N div D\<close> and \<open>N mod D\<close>.
\<close>

unbundle bit_operations_syntax

section \<open>Normalized operands\<close>

text \<open>The conservative test on the top limbs bounds the size of the quotient.\<close>

lemma numerator_less:
  assumes "1 \<le> dn" "dn \<le> nn" "m (dp + dn - 1) \<noteq> 0" "adjust = 0 \<Longrightarrow> m (np + nn - 1) < m (dp + dn - 1)" "adjust \<le> (1 :: nat)"
  shows "mval m np nn < mval m dp dn * LB ^ (nn + adjust - dn)"
proof (cases "adjust = 0")
  case True
  define t where "t = unat (m (dp + dn - 1))"
  have nn: "1 \<le> nn" "nn - 1 = (dn - 1) + (nn - dn)" using assms(1,2) by simp_all
  have "LB ^ (nn - 1) * (unat (m (np + nn - 1)) + 1) \<le> LB ^ (nn - 1) * t"
    using assms(4) [OF True] by (intro mult_le_mono2) (simp add: limb_less_iff t_def)
  then have "mval m np nn < LB ^ (nn - 1) * t" using top_limb_bounds(2) [OF nn(1), of m np] by linarith
  also have "\<dots> = (LB ^ (dn - 1) * t) * LB ^ (nn - dn)" unfolding nn(2) power_add by simp
  also have "\<dots> \<le> mval m dp dn * LB ^ (nn - dn)"
    unfolding t_def by (rule mult_le_mono1 [OF top_limb_bounds(1) [OF assms(1)]])
  finally show ?thesis using True by simp
next
  case False
  then have a: "adjust = 1" using assms(5) by simp
  have "mval m np nn < LB ^ nn" by (rule mval_less)
  also have "\<dots> = LB ^ (dn - 1) * LB ^ (nn + adjust - dn)" using assms(1,2) a by (simp flip: power_add)
  also have "\<dots> \<le> mval m dp dn * LB ^ (nn + adjust - dn)"
    by (rule mult_le_mono1, rule mval_lower) (use assms(1,3) in simp_all)
  finally show ?thesis .
qed

lemma tdiv_qr_normalize_spec:
  assumes eq: "tdiv_qr_normalize np nn dp dn fp m = (c, d2p, n2p, m1)"
    and sz: "1 \<le> dn" "1 \<le> nn" and d: "m (dp + dn - 1) \<noteq> 0" and o: "np + nn \<le> fp" "dp + dn \<le> fp"
  shows "c < 32 \<and> LB ^ dn \<le> 2 * (2 ^ c * mval m dp dn) \<and> mval m1 d2p dn = 2 ^ c * mval m dp dn \<and> mval m1 n2p (nn + 1) = 2 ^ c * mval m np nn
    \<and> only_in fp (dn + nn + 1) m m1 \<and> (d2p = fp \<and> n2p = fp + dn \<or> d2p = dp \<and> n2p = fp)"
proof (cases "m (dp + dn - 1) AND GMP_LIMB_HIGHBIT = 0")
  case True
  define cnt where "cnt = unat (count_leading_zeros (m (dp + dn - 1)))"
  note Z = normalize_shift [of dn m dp, OF sz(1) d True, folded cnt_def]
  obtain r1 ma where l1: "mpn_lshift fp dp dn cnt m = (r1, ma)" by fastforce
  obtain cy mb where l2: "mpn_lshift (fp + dn) np nn cnt ma = (cy, mb)" by fastforce
  have "MPN_SAME_OR_DECR_P fp dp dn" using o by (auto simp: overlap_defs)
  note S1 = mpn_lshift_spec [OF l1 sz(1) Z(2) this]
  have "MPN_SAME_OR_DECR_P (fp + dn) np nn" using o by (auto simp: overlap_defs)
  note S2 = mpn_lshift_spec [OF l2 sz(2) Z(2) this]
  define m2 where "m2 = mb(fp + dn + nn := cy)"
  have R: "c = cnt" "d2p = fp" "n2p = fp + dn" "m1 = m2"
    using eq unfolding tdiv_qr_normalize_def if_P [OF True] cnt_def [symmetric] Let_def l1 prod.case l2 by (auto simp: m2_def)
  have "unat r1 = 0" using S1(1) Z(6) by (cases "unat r1") auto
  then have "mval ma fp dn = 2 ^ cnt * mval m dp dn" using S1(1) by simp
  moreover have "mval m2 fp dn = mval ma fp dn" using only_in_mval [OF S2(3), of fp dn] by (simp add: m2_def)
  moreover have "mval ma np nn = mval m np nn" by (rule only_in_mval [OF S1(3)]) (use o in simp)
  then have "mval m2 (fp + dn) (nn + 1) = 2 ^ cnt * mval m np nn" using S2(1) by (simp add: m2_def mval_high del: mval.simps)
  moreover have "only_in fp (dn + nn + 1) m m2" unfolding m2_def
    by (rule only_in_trans [OF only_in_mono [OF S1(3)] only_in_trans [OF only_in_mono [OF S2(3)] only_in_upd]]) simp_all
  ultimately show ?thesis using R Z(2,5) by simp
next
  case False
  then have "LB \<le> 2 * unat (m (dp + dn - 1))" by (simp add: highbit_iff)
  then have n: "LB ^ dn \<le> 2 * mval m dp dn" using normalized_iff [OF sz(1)] by blast
  define m2 where "m2 = (mcopy fp np nn m)(fp + nn := 0)"
  have "MPN_COPY fp np nn m = mcopy fp np nn m" by (rule MPN_COPY_spec) (use o in \<open>auto simp: overlap_defs\<close>)
  then have R: "c = 0" "d2p = dp" "n2p = fp" "m1 = m2"
    using eq False by (auto simp: tdiv_qr_normalize_def m2_def)
  have "only_in fp (dn + nn + 1) m m2" unfolding m2_def
    by (rule only_in_trans [OF only_in_mono [OF only_in_mcopy] only_in_upd]) simp_all
  moreover from this have "mval m2 dp dn = mval m dp dn" by (rule only_in_mval) (use o in simp)
  moreover have "mval m2 fp (nn + 1) = mval m np nn" by (simp add: m2_def mval_high del: mval.simps)
  ultimately show ?thesis using R n by simp
qed

text \<open>The remainder of the shifted operands, shifted back.\<close>

lemma remainder_shift_back:
  assumes "mval m n2p n = (2 ^ c * N) mod (2 ^ c * D)" "1 \<le> n" "c < 32" "rp + n \<le> n2p"
  shows "mval (if c \<noteq> 0 then snd (mpn_rshift rp n2p n c m) else MPN_COPY rp n2p n m) rp n = N mod D"
    and "only_in rp n m (if c \<noteq> 0 then snd (mpn_rshift rp n2p n c m) else MPN_COPY rp n2p n m)"
    and "mval (snd (mpn_rshift rp n2p n c m)) rp n = N mod D" and "only_in rp n m (snd (mpn_rshift rp n2p n c m))"
proof -
  obtain r m1 where s: "mpn_rshift rp n2p n c m = (r, m1)" by fastforce
  have c32: "c \<le> 32" using assms(3) by simp
  have "MPN_SAME_OR_INCR_P rp n2p n" using assms(4) by (auto simp: overlap_defs)
  note S = mpn_rshift_spec [OF s assms(2) c32 this]
  have "2 ^ c * (LB * (N mod D)) = 2 ^ c * (LB * mval m1 rp n + unat r)" using S(1) unfolding assms(1) mod_mult_mult1 [of "2 ^ c"] by simp
  then have "LB * (N mod D) = LB * mval m1 rp n + unat r" by simp
  then have "(LB * (N mod D)) div LB = (LB * mval m1 rp n + unat r) div LB" by simp
  then have v: "mval m1 rp n = N mod D" using unat_lt_LB [of r] by simp
  have "MPN_COPY rp n2p n m = mcopy rp n2p n m" by (rule MPN_COPY_spec) (use assms(4) in \<open>auto simp: overlap_defs\<close>)
  then show "mval (if c \<noteq> 0 then snd (mpn_rshift rp n2p n c m) else MPN_COPY rp n2p n m) rp n = N mod D"
    "only_in rp n m (if c \<noteq> 0 then snd (mpn_rshift rp n2p n c m) else MPN_COPY rp n2p n m)"
    using v s S(2) assms(1) by simp_all
  show "mval (snd (mpn_rshift rp n2p n c m)) rp n = N mod D" "only_in rp n m (snd (mpn_rshift rp n2p n c m))"
    using v s S(2) by simp_all
qed

section \<open>Long quotients\<close>

text \<open>The blocks and the rest: \<open>{n2p,dn}\<close> holds the partial remainder of the limbs above.\<close>

lemma dc_rest_spec:
  fixes N D :: nat
  assumes n: "3 \<le> dn" "dn \<le> nn" and V: "mval m np nn = N" "mval m dp dn = D" and D: "LB ^ dn \<le> 2 * D" and less: "N < D * LB ^ (nn - dn)"
    and reg: "dc_regions qp (nn - dn) np nn dp dn fp"
  shows "\<exists>m'. dc_rest qp (np + (nn - dn)) nn dp dn m = Some (np, m') \<and> mval m' qp (nn - dn) = N div D \<and> mval m' np dn = N mod D
    \<and> only_at ({qp..<qp + (nn - dn)} \<union> {np..<np + nn} \<union> {fp..}) m m'"
proof (cases "nn = dn")
  case True
  then have "N < D" using less by simp
  then show ?thesis using V True by (simp add: dc_rest_def)
next
  case False
  have n2: "2 \<le> dn" using n(1) by simp
  obtain h m' where e: "mpn_sb_divrem_mn qp np nn dp dn m = (h, m')" by fastforce
  have "dc_divides (Some (h, m')) qp (nn - dn) np nn dp dn fp m" using sb_divides [OF reg n2 n(2), of m] D unfolding e V by simp
  from dc_divides_low [OF this] less V have "mval m' qp (nn - dn) = N div D \<and> mval m' np dn = N mod D
    \<and> only_at ({qp..<qp + (nn - dn)} \<union> {np..<np + nn} \<union> {fp..}) m m'" by simp
  moreover have "dc_rest qp (np + (nn - dn)) nn dp dn m = Some (np, m')" using e n(1) False by (simp add: dc_rest_def)
  ultimately show ?thesis by blast
qed

lemma dc_block_step:
  fixes N D :: nat
  assumes n: "DIV_DC_THRESHOLD \<le> dn" "dn < 2 * MUL_TOOM3_THRESHOLD" "2 * dn \<le> nn" and V: "mval m np nn = N" "mval m dp dn = D"
    and D: "LB ^ dn \<le> 2 * D" and less: "N < D * LB ^ (nn - dn)" and reg: "dc_regions qp (nn - dn) np nn dp dn fp"
  defines "k \<equiv> nn - 2 * dn"
  shows "\<exists>m' N1 R. mpn_dc_divrem_n (qp + k) (np + k) dp dn fp m = Some (0, m') \<and> mval m' (qp + k) dn = N1
    \<and> N div D = R div D + LB ^ k * N1 \<and> N mod D = R mod D \<and> mval m' np (nn - dn) = R \<and> mval m' dp dn = D \<and> R < D * LB ^ k
    \<and> only_at ({qp + k..<qp + (nn - dn)} \<union> {np + k..<np + nn} \<union> {fp..}) m m'"
proof -
  note R = reg [unfolded dc_regions_def]
  have nk: "nn = k + 2 * dn" "nn - dn = k + dn" using n(3) by (simp_all add: k_def)
  have d4: "4 \<le> dn" using n(1) by (simp add: DIV_DC_THRESHOLD_def)
  define N1 N0 where "N1 = mval m (np + k) (2 * dn)" and "N0 = mval m np k"
  have N: "N = N0 + LB ^ k * N1" using mval_add [of m np k "2 * dn"] by (simp add: V(1) [symmetric] nk(1) N0_def N1_def)
  have Dp: "0 < D" using D by (cases "D = 0") (simp_all add: LB_def)
  have r1: "dc_regions (qp + k) dn (np + k) (2 * dn) dp dn fp" by (rule dc_sub_regions [OF reg]) (simp_all add: nk)
  have L: "mval m (np + k) (2 * dn) < mval m dp dn * LB ^ dn"
  proof -
    have "LB ^ k * N1 \<le> N" using N by simp
    also have "N < LB ^ k * (D * LB ^ dn)" using less unfolding nk(2) power_add by (simp add: mult.left_commute)
    finally show ?thesis unfolding V(2) N1_def [symmetric] by simp
  qed
  from dc_divides_low [OF mpn_dc_divrem_n_spec [OF d4 n(2) r1] L] D V(2)
  obtain m' where e: "mpn_dc_divrem_n (qp + k) (np + k) dp dn fp m = Some (0, m')" "mval m' (qp + k) dn = N1 div D" "mval m' (np + k) dn = N1 mod D"
    and f: "only_at ({qp + k..<qp + k + dn} \<union> {np + k..<np + k + 2 * dn} \<union> {fp..}) m m'"
    unfolding N1_def by auto
  have v: "mval m' np k = N0" "mval m' dp dn = D" unfolding N0_def V(2) [symmetric] by (rule only_at_mval [OF f]; use R nk in auto)+
  have "mval m' np (nn - dn) = N0 + LB ^ k * (N1 mod D)" unfolding nk(2) mval_add v e(3) ..
  moreover have "N0 + LB ^ k * (N1 mod D) < D * LB ^ k" by (rule two_part_less) (use Dp mval_less [of m np k] in \<open>simp_all add: N0_def\<close>)
  moreover have "only_at ({qp + k..<qp + (nn - dn)} \<union> {np + k..<np + nn} \<union> {fp..}) m m'" using f by (simp add: nk ac_simps)
  ultimately show ?thesis using e v(2) two_part_quotient [OF N Dp] by blast
qed

lemma dc_blocks_spec:
  fixes N D :: nat
  assumes n: "DIV_DC_THRESHOLD \<le> dn" "dn < 2 * MUL_TOOM3_THRESHOLD"
  shows "dn \<le> nn \<Longrightarrow> mval m np nn = N \<Longrightarrow> mval m dp dn = D \<Longrightarrow> LB ^ dn \<le> 2 * D \<Longrightarrow> N < D * LB ^ (nn - dn) \<Longrightarrow>
    dc_regions qp (nn - dn) np nn dp dn fp \<Longrightarrow>
    \<exists>m'. do { (n2p, nn, m) \<leftarrow> dc_blocks (qp + (nn - dn)) (np + (nn - dn)) dp nn dn fp m; dc_rest qp n2p nn dp dn m } = Some (np, m')
      \<and> mval m' qp (nn - dn) = N div D \<and> mval m' np dn = N mod D
      \<and> only_at ({qp..<qp + (nn - dn)} \<union> {np..<np + nn} \<union> {fp..}) m m'"
proof (induction nn arbitrary: m N rule: less_induct)
  case (less nn)
  let ?S = "{qp..<qp + (nn - dn)} \<union> {np..<np + nn} \<union> {fp..}"
  have d3: "3 \<le> dn" using n(1) by (simp add: DIV_DC_THRESHOLD_def)
  show ?case
  proof (cases "2 * dn \<le> nn")
    case False
    then have "dc_blocks (qp + (nn - dn)) (np + (nn - dn)) dp nn dn fp m = Some (np + (nn - dn), nn, m)" by (subst dc_blocks.simps) simp
    then show ?thesis using dc_rest_spec [OF d3 less.prems] by simp
  next
    case True
    define k where "k = nn - 2 * dn"
    have nk: "nn - dn = k + dn" "nn - dn - dn = k" "qp + (k + dn) - dn = qp + k" "np + (k + dn) - dn = np + k" using True by (simp_all add: k_def)
    obtain m1 N1 R where s: "mpn_dc_divrem_n (qp + k) (np + k) dp dn fp m = Some (0, m1)" and e: "mval m1 (qp + k) dn = N1"
        "N div D = R div D + LB ^ k * N1" "N mod D = R mod D" "mval m1 np (nn - dn) = R" "mval m1 dp dn = D" "R < D * LB ^ k"
      and f: "only_at ({qp + k..<qp + (nn - dn)} \<union> {np + k..<np + nn} \<union> {fp..}) m m1"
      using dc_block_step [OF n True less.prems(2-6)] unfolding k_def [symmetric] by blast
    have run: "dc_blocks (qp + (nn - dn)) (np + (nn - dn)) dp nn dn fp m = dc_blocks (qp + k) (np + k) dp (nn - dn) dn fp m1"
      using True s by (subst dc_blocks.simps) (simp add: nk)
    have reg: "dc_regions qp k np (nn - dn) dp dn fp" by (rule dc_sub_regions [OF less.prems(6)]) (use True in \<open>simp_all add: k_def\<close>)
    have "nn - dn < nn" "dn \<le> nn - dn" using True d3 by simp_all
    from less.IH [OF this e(4,5) less.prems(4), unfolded nk(2), OF e(6) reg]
    obtain m' where I: "do { (n2p, nn, m) \<leftarrow> dc_blocks (qp + k) (np + k) dp (nn - dn) dn fp m1; dc_rest qp n2p nn dp dn m } = Some (np, m')"
      "mval m' qp k = R div D" "mval m' np dn = R mod D" and g: "only_at ({qp..<qp + k} \<union> {np..<np + (nn - dn)} \<union> {fp..}) m1 m'"
      by blast
    have "mval m' (qp + k) dn = N1" unfolding e(1) [symmetric]
      by (rule only_at_mval [OF g]) (use less.prems(6) nk(1) in \<open>auto simp: dc_regions_def\<close>)
    then have "mval m' qp (nn - dn) = N div D" unfolding nk(1) mval_add e(2) I(2) by simp
    moreover have "only_at ?S m m'"
      by (rule only_at_trans [OF only_at_mono [OF f] only_at_mono [OF g]]) (use True in \<open>auto simp: k_def\<close>)
    ultimately show ?thesis using I(1,3) e(3) unfolding run by simp
  qed
qed

lemma long_quotient_spec:
  fixes N D :: nat
  assumes n: "3 \<le> dn" "dn < 2 * MUL_TOOM3_THRESHOLD" "dn \<le> nn" "DIV_DC_THRESHOLD \<le> dn \<Longrightarrow> 2 * dn \<le> nn"
    and V: "mval m np nn = N" "mval m dp dn = D" and D: "LB ^ dn \<le> 2 * D" and less: "N < D * LB ^ (nn - dn)"
    and reg: "dc_regions qp (nn - dn) np nn dp dn fp"
  shows "\<exists>m'. long_quotient qp np nn dp dn fp m = Some (np, m') \<and> mval m' qp (nn - dn) = N div D \<and> mval m' np dn = N mod D
    \<and> only_at ({qp..<qp + (nn - dn)} \<union> {np..<np + nn} \<union> {fp..}) m m'"
proof (cases "dn < DIV_DC_THRESHOLD")
  case True
  have n2: "2 \<le> dn" using n(1) by simp
  obtain h m' where e: "mpn_sb_divrem_mn qp np nn dp dn m = (h, m')" by fastforce
  have "dc_divides (Some (h, m')) qp (nn - dn) np nn dp dn fp m" using sb_divides [OF reg n2 n(3), of m] D unfolding e V by simp
  from dc_divides_low [OF this] less V have "mval m' qp (nn - dn) = N div D \<and> mval m' np dn = N mod D
    \<and> only_at ({qp..<qp + (nn - dn)} \<union> {np..<np + nn} \<union> {fp..}) m m'" by simp
  moreover have "long_quotient qp np nn dp dn fp m = Some (np, m')" using e n(1) True by (simp add: long_quotient_def)
  ultimately show ?thesis by blast
next
  case False
  then have t: "DIV_DC_THRESHOLD \<le> dn" "2 * dn \<le> nn" using n(4) by simp_all
  define k where "k = nn - 2 * dn"
  have nk: "nn - dn = k + dn" "nn - dn - dn = k" using t(2) by (simp_all add: k_def)
  obtain m1 N1 R where s: "mpn_dc_divrem_n (qp + k) (np + k) dp dn fp m = Some (0, m1)" and e: "mval m1 (qp + k) dn = N1"
      "N div D = R div D + LB ^ k * N1" "N mod D = R mod D" "mval m1 np (nn - dn) = R" "mval m1 dp dn = D" "R < D * LB ^ k"
    and f: "only_at ({qp + k..<qp + (nn - dn)} \<union> {np + k..<np + nn} \<union> {fp..}) m m1"
    using dc_block_step [OF t(1) n(2) t(2) V D less reg] unfolding k_def [symmetric] by blast
  have reg': "dc_regions qp k np (nn - dn) dp dn fp" by (rule dc_sub_regions [OF reg]) (use t in \<open>simp_all add: k_def\<close>)
  have "dn \<le> nn - dn" using t(2) by simp
  from dc_blocks_spec [OF t(1) n(2) this e(4,5) D, unfolded nk(2), OF e(6) reg']
  obtain m' where I: "do { (n2p, nn, m) \<leftarrow> dc_blocks (qp + k) (np + k) dp (nn - dn) dn fp m1; dc_rest qp n2p nn dp dn m } = Some (np, m')"
    "mval m' qp k = R div D" "mval m' np dn = R mod D" and g: "only_at ({qp..<qp + k} \<union> {np..<np + (nn - dn)} \<union> {fp..}) m1 m'"
    by blast
  have "mval m' (qp + k) dn = N1" unfolding e(1) [symmetric]
    by (rule only_at_mval [OF g]) (use reg nk(1) in \<open>auto simp: dc_regions_def\<close>)
  then have "mval m' qp (nn - dn) = N div D" unfolding nk(1) mval_add e(2) I(2) by simp
  moreover have "only_at ({qp..<qp + (nn - dn)} \<union> {np..<np + nn} \<union> {fp..}) m m'"
    by (rule only_at_trans [OF only_at_mono [OF f] only_at_mono [OF g]]) (use t in \<open>auto simp: k_def\<close>)
  moreover have "long_quotient qp np nn dp dn fp m = Some (np, m')"
    using I(1) n(1) False s by (simp add: long_quotient_def Let_def k_def)
  ultimately show ?thesis using I(3) e(3) by auto
qed

lemma tdiv_qr_long_spec:
  fixes m :: mem and np dp nn dn :: nat
  defines "N \<equiv> mval m np nn" and "D \<equiv> mval m dp dn"
  assumes sz: "3 \<le> dn" "dn \<le> nn" "2 * dn \<le> nn + adjust" "adjust \<le> 1" "dn < MUL_TOOM3_THRESHOLD"
    and d: "m (dp + dn - 1) \<noteq> 0" and top: "adjust = 0 \<Longrightarrow> m (np + nn - 1) < m (dp + dn - 1)"
    and o: "np + nn \<le> fp" "dp + dn \<le> fp" "qp + (nn - dn + 1) \<le> fp" "rp + dn \<le> fp"
      "qp + (nn - dn + 1) \<le> dp \<or> dp + dn \<le> qp" "qp + (nn - dn + 1) \<le> np \<or> np + nn \<le> qp" "qp + (nn - dn + 1) \<le> rp \<or> rp + dn \<le> qp"
  shows "\<exists>m'. tdiv_qr_long qp rp np nn dp dn adjust fp m = Some m'
    \<and> mval m' qp (nn - dn + 1) = N div D \<and> mval m' rp dn = N mod D
    \<and> only_at ({qp..<qp + (nn - dn + 1)} \<union> {rp..<rp + dn} \<union> {fp..}) m m'"
proof -
  define S where "S = {qp..<qp + (nn - dn + 1)} \<union> {rp..<rp + dn} \<union> {fp..}"
  define m0 where "m0 = m(qp + (nn - dn) := 0)"
  have V0: "mval m0 np nn = N" "mval m0 dp dn = D" unfolding m0_def N_def D_def by (rule mval_upd_out; use o in linarith)+
  have t0: "m0 (dp + dn - 1) = m (dp + dn - 1)" using o sz by (auto simp: m0_def)
  have F0: "only_at S m m0" by (auto simp: only_at_def m0_def S_def)
  have dn1: "1 \<le> dn" "2 \<le> dn" "1 \<le> nn" using sz by simp_all
  obtain c d2p n2p m1 where e1: "tdiv_qr_normalize np nn dp dn fp m0 = (c, d2p, n2p, m1)" by (metis prod_cases4)
  have E: "c < 32" "LB ^ dn \<le> 2 * (2 ^ c * D)" "mval m1 d2p dn = 2 ^ c * D" "mval m1 n2p (nn + 1) = 2 ^ c * N"
    "only_in fp (dn + nn + 1) m0 m1" "d2p = fp \<and> n2p = fp + dn \<or> d2p = dp \<and> n2p = fp"
    using tdiv_qr_normalize_spec [OF e1 dn1(1,3) _ o(1,2)] d unfolding t0 V0 by blast+
  define n' where "n' = nn + adjust"
  have n': "dn \<le> n'" "n' - dn \<le> nn - dn + 1" "nn \<le> n'" "n' \<le> nn + 1" using sz by (simp_all add: n'_def)
  have less: "N < D * LB ^ (n' - dn)" unfolding N_def D_def n'_def by (rule numerator_less [OF dn1(1) sz(2) d top sz(4)])
  have ft: "2 ^ c * N < (2 ^ c * D) * LB ^ (n' - dn)" using less by (simp add: mult.assoc)
  have vn: "mval m1 n2p n' = 2 ^ c * N"
  proof (cases "adjust = 0")
    case True
    have "2 ^ c * D \<le> LB ^ dn" using mval_less [of m1 d2p dn] E(3) by simp
    then have "(2 ^ c * D) * LB ^ (n' - dn) \<le> LB ^ dn * LB ^ (n' - dn)" by (rule mult_le_mono1)
    also have "\<dots> = LB ^ nn" using True n'(1) by (simp add: n'_def flip: power_add)
    finally have lt: "2 ^ c * N < LB ^ nn" using ft by linarith
    have "mval m1 n2p nn + LB ^ nn * unat (m1 (n2p + nn)) = 2 ^ c * N + LB ^ nn * 0"
      using E(4) by (simp add: mval_high del: mval.simps)
    from mval_unique(1) [OF this mval_less lt] show ?thesis using True by (simp add: n'_def)
  next
    case False
    then have "n' = nn + 1" using sz(4) by (simp add: n'_def)
    then show ?thesis using E(4) by simp
  qed
  have od: "dc_regions qp (n' - dn) n2p n' d2p dn (fp + dn + nn + 1)"
    unfolding dc_regions_def using E(6) o n' by linarith
  have dlim: "dn < 2 * MUL_TOOM3_THRESHOLD" "2 * dn \<le> n'" using sz(3,5) by (simp_all add: n'_def)
  from long_quotient_spec [OF sz(1) dlim(1) n'(1) dlim(2) vn E(3,2) ft od]
  obtain m2 where s2: "long_quotient qp n2p n' d2p dn (fp + dn + nn + 1) m1 = Some (n2p, m2)"
    and Q: "mval m2 qp (n' - dn) = N div D" "mval m2 n2p dn = (2 ^ c * N) mod (2 ^ c * D)"
    and S2: "only_at ({qp..<qp + (n' - dn)} \<union> {n2p..<n2p + n'} \<union> {fp + dn + nn + 1..}) m1 m2" by auto
  define m3 where "m3 = (if c \<noteq> 0 then snd (mpn_rshift rp n2p dn c m2) else MPN_COPY rp n2p dn m2)"
  have rn: "rp + dn \<le> n2p" using E(6) o by auto
  note S3 = remainder_shift_back [OF Q(2) dn1(1) E(1) rn, folded m3_def]
  have run: "tdiv_qr_long qp rp np nn dp dn adjust fp m = Some m3"
    using e1 s2 by (simp add: tdiv_qr_long_def m0_def n'_def m3_def Let_def)
  have F1: "only_at S m0 m1" by (rule only_in_at [OF E(5)]) (auto simp: S_def)
  have F2: "only_at S m1 m2" by (rule only_at_mono [OF S2]) (use E(6) n' in \<open>auto simp: S_def\<close>)
  have F3: "only_at S m2 m3" by (rule only_in_at [OF S3(2)]) (auto simp: S_def)
  have F: "only_at S m m3" using F0 F1 F2 F3 by (blast intro: only_at_trans)
  have q3: "mval m3 qp (n' - dn) = N div D"
    using only_in_mval [OF S3(2), of qp "n' - dn"] Q(1) o(7) n'(2) by auto
  have "mval m3 qp (nn - dn + 1) = N div D"
  proof (cases "adjust = 0")
    case True
    have "m3 (qp + (nn - dn)) = m2 (qp + (nn - dn))" by (rule only_inD [OF S3(2)]) (use o in linarith)
    also have "\<dots> = m1 (qp + (nn - dn))" by (rule only_atD [OF S2]) (use True o E(6) in \<open>auto simp: n'_def\<close>)
    also have "\<dots> = m0 (qp + (nn - dn))" by (rule only_inD [OF E(5)]) (use o in linarith)
    finally have "m3 (qp + (nn - dn)) = 0" by (simp add: m0_def)
    then show ?thesis using q3 True by (simp add: n'_def mval_high del: mval.simps)
  next
    case False
    then have "n' - dn = nn - dn + 1" using sz by (simp add: n'_def)
    then show ?thesis using q3 by simp
  qed
  then show ?thesis using run S3(1) F unfolding S_def by blast
qed

section \<open>Divisors of two limbs\<close>

lemma mval_two: "mval m p 2 = unat (m p) + LB * unat (m (p + 1))"
  by (simp add: numeral_2_eq_2)

text \<open>The divisor is shifted by hand: the high limb gets the bits that leave the low one.\<close>

lemma two_divisor:
  assumes "m (dp + 1) \<noteq> 0" "m (dp + 1) AND GMP_LIMB_HIGHBIT = 0"
  defines "c \<equiv> unat (count_leading_zeros (m (dp + 1)))"
  defines "h \<equiv> push_bit c (m (dp + 1)) OR drop_bit (32 - c) (m dp)" and "l \<equiv> push_bit c (m dp)"
  shows "c < 32" "unat l + LB * unat h = 2 ^ c * mval m dp 2" "LB \<le> 2 * unat h"
proof -
  have e: "dp + 2 - 1 = dp + 1" by simp
  note Z = normalize_shift [of 2 m dp, unfolded e, OF _ assms(1,2), folded c_def]
  show c: "c < 32" using Z(2) by simp
  then have c32: "c \<le> 32" by simp
  have "2 ^ c * unat (m (dp + 1)) + 2 ^ c \<le> LB" "(0 :: nat) < 2 ^ c" using Z(4) by (simp_all add: distrib_left)
  then have "2 ^ c * unat (m (dp + 1)) < LB" by linarith
  then have "unat (push_bit c (m (dp + 1))) = 2 ^ c * unat (m (dp + 1))" by (rule unat_push_small [OF c32])
  moreover have "unat h = unat (push_bit c (m (dp + 1))) + unat (drop_bit (32 - c) (m dp))"
    unfolding h_def by (rule unat_push_or [OF drop_top_less [OF c32]])
  ultimately have h: "unat h = 2 ^ c * unat (m (dp + 1)) + unat (drop_bit (32 - c) (m dp))" by simp
  have "unat l + LB * unat (drop_bit (32 - c) (m dp)) = 2 ^ c * unat (m dp)"
    unfolding l_def using limb_shift_split [OF c32, of "m dp"] by simp
  then show "unat l + LB * unat h = 2 ^ c * mval m dp 2" unfolding h mval_two by (simp add: algebra_simps)
  show "LB \<le> 2 * unat h" using Z(3) h by simp
qed

lemma quotient_unique: "N = r + q * d \<Longrightarrow> r < d \<Longrightarrow> r = N mod d" "N = r + q * d \<Longrightarrow> r < d \<Longrightarrow> q = N div (d :: nat)"
  by simp_all

lemma tdiv_qr_two_spec:
  fixes m :: mem and np dp nn :: nat
  defines "N \<equiv> mval m np nn" and "D \<equiv> mval m dp 2"
  assumes nn: "2 \<le> nn" and d: "m (dp + 1) \<noteq> 0"
    and o: "np + nn \<le> fp" "dp + 2 \<le> fp" "qp + (nn - 1) \<le> fp" "rp + 2 \<le> fp"
      "qp + (nn - 1) \<le> rp \<or> rp + 2 \<le> qp"
  shows "\<exists>m'. tdiv_qr_two qp rp np nn dp fp m = Some m'
    \<and> mval m' qp (nn - 1) = N div D \<and> mval m' rp 2 = N mod D
    \<and> only_at ({qp..<qp + (nn - 1)} \<union> {rp..<rp + 2} \<union> {fp..}) m m'"
proof -
  define S where "S = {qp..<qp + (nn - 1)} \<union> {rp..<rp + 2} \<union> {fp..}"
  have n1: "1 \<le> nn" "nn - 1 = Suc (nn - 2)" using nn by simp_all
  have DL: "LB ^ 1 \<le> D" unfolding D_def using mval_lower [of 2 m dp] d by simp
  have NL: "N < D * LB ^ (nn - 1)"
  proof -
    have "N < LB ^ nn" unfolding N_def by (rule mval_less)
    also have "\<dots> = LB ^ 1 * LB ^ (nn - 1)" using n1 by (simp flip: power_Suc)
    also have "\<dots> \<le> D * LB ^ (nn - 1)" by (rule mult_le_mono1 [OF DL])
    finally show ?thesis .
  qed
  show ?thesis
  proof (cases "m (dp + 1) AND GMP_LIMB_HIGHBIT = 0")
    case True
    define c where "c = unat (count_leading_zeros (m (dp + 1)))"
    define h l where "h = push_bit c (m (dp + 1)) OR drop_bit (32 - c) (m dp)" and "l = push_bit c (m dp)"
    note T = two_divisor [of m dp, OF d True, folded c_def, folded h_def l_def]
    define m1 where "m1 = m(fp + 1 := h, fp := l)"
    obtain cy ma where s2: "mpn_lshift (fp + 2) np nn c m1 = (cy, ma)" by fastforce
    define m2 where "m2 = ma(fp + 2 + nn := cy)"
    have "MPN_SAME_OR_DECR_P (fp + 2) np nn" using o by (auto simp: overlap_defs)
    note L = mpn_lshift_spec [OF s2 n1(1) T(1) this]
    have "mval m1 np nn = N" unfolding m1_def N_def using o(1) by simp
    then have V2: "mval m2 (fp + 2) (nn + 1) = 2 ^ c * N" using L(1) by (simp add: m2_def mval_high del: mval.simps)
    have D2: "m2 fp = l" "m2 (fp + 1) = h"
      using only_inD [OF L(3), of fp] only_inD [OF L(3), of "fp + 1"] by (simp_all add: m2_def m1_def)
    then have VD: "mval m2 fp 2 = 2 ^ c * D" unfolding mval_two using T(2) by (simp add: D_def)
    define n' where "n' = nn + of_bool (cy \<noteq> 0)"
    have n': "2 \<le> n'" "n' \<le> nn + 1" "n' - 2 \<le> nn - 1" using nn by (auto simp: n'_def)
    have Vn: "mval m2 (fp + 2) n' = 2 ^ c * N"
      using V2 by (cases "cy = 0") (auto simp: n'_def m2_def mval_high simp del: mval.simps)
    have "LB \<le> 2 * unat (m2 (fp + 1))" using D2 T(3) by simp
    from mpn_divrem_2_spec [of n' m2 fp qp 0 "fp + 2", OF n'(1) this] o(3) n'(3)
    obtain qh m3 where s3: "mpn_divrem_2 qp 0 (fp + 2) n' fp m2 = Some (qh, m3)"
      and v3: "(mval m3 qp (n' - 2) + LB ^ (n' - 2) * unat qh) * (2 ^ c * D) + mval m3 (fp + 2) 2 = 2 ^ c * N" "mval m3 (fp + 2) 2 < 2 ^ c * D"
      and f3: "only_at ({qp..<qp + (n' - 2)} \<union> {fp + 2..<fp + 2 + 2}) m2 m3"
      unfolding VD Vn by auto
    define m4 where "m4 = (if cy = 0 then m3(qp + (nn - 2) := qh) else m3)"
    have q4: "mval m4 qp (nn - 1) = mval m3 qp (n' - 2) + LB ^ (n' - 2) * unat qh"
    proof (cases "cy = 0")
      case True
      then show ?thesis unfolding n1(2) mval_high by (simp add: m4_def n'_def)
    next
      case False
      then have e: "n' - 2 = nn - 1" using nn by (simp add: n'_def)
      have "2 ^ c * N < (2 ^ c * D) * LB ^ (n' - 2)" using NL unfolding e by (simp add: mult.assoc)
      from quotient_high_zero [OF v3 this] show ?thesis using False by (simp add: m4_def e)
    qed
    have "qp + (nn - 2) < fp + 2" using o(3) n1(2) by linarith
    then have r4: "mval m4 (fp + 2) 2 = mval m3 (fp + 2) 2" unfolding m4_def by (cases "cy = 0") (simp_all only: if_True if_False mval_upd_out simp_thms)
    have QR: "mval m4 qp (nn - 1) = N div D" "mval m4 (fp + 2) 2 = (2 ^ c * N) mod (2 ^ c * D)"
    proof -
      have "2 ^ c * N = mval m4 (fp + 2) 2 + mval m4 qp (nn - 1) * (2 ^ c * D)" using v3(1) q4 r4 by simp
      then have "mval m4 (fp + 2) 2 = (2 ^ c * N) mod (2 ^ c * D)" "mval m4 qp (nn - 1) = (2 ^ c * N) div (2 ^ c * D)"
        using quotient_unique [OF _ v3(2)] r4 by simp_all
      then show "mval m4 qp (nn - 1) = N div D" "mval m4 (fp + 2) 2 = (2 ^ c * N) mod (2 ^ c * D)" by simp_all
    qed
    have rn: "rp + 2 \<le> fp + 2" using o by simp
    note B = remainder_shift_back(3,4) [OF QR(2) _ T(1) rn]
    define m5 where "m5 = snd (mpn_rshift rp (fp + 2) 2 c m4)"
    have run: "tdiv_qr_two qp rp np nn dp fp m = Some m5"
    proof -
      have a: "dp \<noteq> fp + 1" using o by simp
      have m1eq: "(m(fp + 1 := h))(fp := push_bit c ((m(fp + 1 := h)) dp)) = m1" using a by (simp add: m1_def l_def)
      show ?thesis
        unfolding tdiv_qr_two_def if_P [OF True] Let_def c_def [symmetric] h_def [symmetric] m1eq s2 prod.case
          m2_def [symmetric] n'_def [symmetric] s3 bind.bind_lunit m4_def [symmetric] m5_def
        by (simp split: prod.splits)
    qed
    have "only_at S m m1" by (auto simp: only_at_def m1_def S_def)
    moreover have "only_at S m1 ma" by (rule only_in_at [OF L(3)]) (auto simp: S_def)
    moreover have "only_at S ma m2" by (auto simp: only_at_def m2_def S_def)
    moreover have "only_at S m2 m3" by (rule only_at_mono [OF f3]) (use n'(3) in \<open>auto simp: S_def\<close>)
    moreover have "only_at S m3 m4" using nn by (auto simp: only_at_def m4_def S_def)
    moreover have "only_at S m4 m5" unfolding m5_def by (rule only_in_at [OF B(2)]) (auto simp: S_def)
    ultimately have F: "only_at S m m5" by (blast intro: only_at_trans)
    have "mval m5 qp (nn - 1) = mval m4 qp (nn - 1)" unfolding m5_def by (rule only_in_mval [OF B(2)]) (use o in simp_all)
    then show ?thesis using run QR(1) B(1) F unfolding S_def m5_def by simp
  next
    case False
    then have nm: "LB \<le> 2 * unat (m (dp + 1))" by (simp add: highbit_iff)
    define m1 where "m1 = MPN_COPY fp np nn m"
    have m1: "m1 = mcopy fp np nn m" unfolding m1_def by (rule MPN_COPY_spec) (use o in \<open>auto simp: overlap_defs\<close>)
    have f1: "only_in fp nn m m1" by (simp add: m1)
    have V1: "mval m1 fp nn = N" "mval m1 dp 2 = D" "m1 (dp + 1) = m (dp + 1)"
      using o only_in_mval [OF f1, of dp 2] by (simp_all add: m1 N_def D_def)
    have le2: "qp + (nn - 2 + 0) \<le> fp" using o(3) n1(2) by linarith
    have "LB \<le> 2 * unat (m1 (dp + 1))" using nm V1 by simp
    from mpn_divrem_2_spec [of nn m1 dp qp 0 fp, OF nn this] le2
    obtain qh m2 where s2: "mpn_divrem_2 qp 0 fp nn dp m1 = Some (qh, m2)"
      and v2: "(mval m2 qp (nn - 2) + LB ^ (nn - 2) * unat qh) * D + mval m2 fp 2 = N" "mval m2 fp 2 < D"
      and f2: "only_at ({qp..<qp + (nn - 2)} \<union> {fp..<fp + 2}) m1 m2"
      unfolding V1 by auto
    define m3 where "m3 = m2(qp + (nn - 2) := qh)"
    define m4 where "m4 = MPN_COPY rp fp 2 m3"
    have m4: "m4 = mcopy rp fp 2 m3" unfolding m4_def by (rule MPN_COPY_spec) (use o in \<open>auto simp: overlap_defs\<close>)
    have q3: "mval m3 qp (nn - 1) = mval m2 qp (nn - 2) + LB ^ (nn - 2) * unat qh"
      unfolding n1(2) mval_high by (simp add: m3_def)
    have "qp + (nn - 2) < fp" using o(3) n1(2) by linarith
    then have r3: "mval m3 fp 2 = mval m2 fp 2" unfolding m3_def by (simp only: mval_upd_out simp_thms)
    have "N = mval m2 fp 2 + mval m3 qp (nn - 1) * D" using v2(1) q3 by simp
    note QR = quotient_unique(2,1) [OF this v2(2)]
    have run: "tdiv_qr_two qp rp np nn dp fp m = Some m4"
      using False s2 by (simp add: tdiv_qr_two_def Let_def m1_def [symmetric] m3_def [symmetric] m4_def)
    have f4: "only_in rp 2 m3 m4" by (simp add: m4)
    have "only_at S m m1" by (rule only_in_at [OF f1]) (auto simp: S_def)
    moreover have "only_at S m1 m2" by (rule only_at_mono [OF f2]) (auto simp: S_def)
    moreover have "only_at S m2 m3" using nn by (auto simp: only_at_def m3_def S_def)
    moreover have "only_at S m3 m4" by (rule only_in_at [OF f4]) (auto simp: S_def)
    ultimately have F: "only_at S m m4" by (blast intro: only_at_trans)
    have "mval m4 qp (nn - 1) = mval m3 qp (nn - 1)" by (rule only_in_mval [OF f4]) (use o in simp_all)
    then show ?thesis using run QR F r3 unfolding S_def by (simp add: m4)
  qed
qed

section \<open>The function\<close>

theorem mpn_tdiv_qr_spec:
  fixes m :: mem and np dp nn dn :: nat
  defines "N \<equiv> mval m np nn" and "D \<equiv> mval m dp dn"
  assumes sz: "1 \<le> dn" "dn \<le> nn" "dn < MUL_TOOM3_THRESHOLD \<or> nn - dn + 1 < MUL_TOOM3_THRESHOLD" and d: "m (dp + dn - 1) \<noteq> 0"
    and o: "np + nn \<le> fp" "dp + dn \<le> fp" "qp + (nn - dn + 1) \<le> fp" "rp + dn \<le> fp"
      "\<not> MPN_OVERLAP_P qp (nn - dn + 1) dp dn" "\<not> MPN_OVERLAP_P qp (nn - dn + 1) np nn" "\<not> MPN_OVERLAP_P qp (nn - dn + 1) rp dn"
      "\<not> MPN_OVERLAP_P rp dn dp dn" "\<not> MPN_OVERLAP_P rp dn np nn"
  shows "\<exists>m'. mpn_tdiv_qr qp rp 0 np nn dp dn fp m = Some (Inr m')
    \<and> mval m' qp (nn - dn + 1) = N div D \<and> mval m' rp dn = N mod D
    \<and> only_at ({qp..<qp + (nn - dn + 1)} \<union> {rp..<rp + dn} \<union> {fp..}) m m'"
proof -
  note o' = o(5-9) [unfolded no_overlap_iff]
  consider "dn = 1" | "dn = 2" | "3 \<le> dn" using sz(1) by linarith
  then show ?thesis
  proof cases
    case 1
    obtain r m1 where s: "mpn_divrem_1 qp 0 np nn (m dp) m = (r, m1)" by fastforce
    have d0: "m dp \<noteq> 0" using d 1 by simp
    have "MPN_SAME_OR_DECR_P (qp + 0) np nn" using o'(2) sz 1 by (auto simp: overlap_defs)
    note S = mpn_divrem_1_spec [OF s d0 this]
    have "N = unat r + mval m1 qp nn * D" using S(1) by (simp add: N_def D_def 1)
    moreover have "unat r < D" using S(2) by (simp add: D_def 1 limb_less_iff)
    ultimately have QR: "mval m1 qp nn = N div D" "unat r = N mod D" by simp_all
    define m2 where "m2 = m1(rp := r)"
    have "mpn_tdiv_qr qp rp 0 np nn dp dn fp m = Some (Inr m2)" by (simp add: mpn_tdiv_qr_def 1 s m2_def)
    moreover have "mval m2 qp nn = N div D" using QR(1) o'(3) sz unfolding m2_def 1 by auto
    moreover have "only_at ({qp..<qp + nn} \<union> {rp..<rp + 1} \<union> {fp..}) m m2"
      by (rule only_at_trans [OF only_in_at [OF S(3)]]) (auto simp: only_at_def m2_def)
    ultimately show ?thesis using QR(2) sz by (simp add: 1 m2_def)
  next
    case 2
    have e: "nn - 2 + 1 = nn - 1" using sz 2 by simp
    have d1: "m (dp + 1) \<noteq> 0" using d 2 by simp
    have "mpn_tdiv_qr qp rp 0 np nn dp dn fp m = map_option Inr (tdiv_qr_two qp rp np nn dp fp m)" by (simp add: mpn_tdiv_qr_def 2)
    moreover obtain m' where "tdiv_qr_two qp rp np nn dp fp m = Some m'" "mval m' qp (nn - 1) = N div D" "mval m' rp 2 = N mod D"
      "only_at ({qp..<qp + (nn - 1)} \<union> {rp..<rp + 2} \<union> {fp..}) m m'"
      using tdiv_qr_two_spec [of nn m dp np fp qp rp, OF sz(2) [unfolded 2] d1 o(1-4) [unfolded 2 e] o'(3) [unfolded 2 e]] unfolding N_def D_def 2 by blast
    ultimately show ?thesis unfolding 2 e by simp
  next
    case 3
    define adjust where "adjust = (of_bool (m (np + nn - 1) \<ge> m (dp + dn - 1)) :: nat)"
    have a: "adjust \<le> 1" "adjust = 0 \<Longrightarrow> m (np + nn - 1) < m (dp + dn - 1)" by (auto simp: adjust_def not_le)
    have run: "mpn_tdiv_qr qp rp 0 np nn dp dn fp m = map_option Inr (if nn + adjust \<ge> 2 * dn then tdiv_qr_long qp rp np nn dp dn adjust fp m
       else tdiv_qr_short qp rp np nn dp dn adjust fp m)"
      using 3 unfolding mpn_tdiv_qr_def Let_def adjust_def [symmetric] by auto
    show ?thesis
    proof (cases "2 * dn \<le> nn + adjust")
      case True
      then have lt: "dn < MUL_TOOM3_THRESHOLD" using sz a(1) by linarith
      show ?thesis using tdiv_qr_long_spec [OF 3 sz(2) True a(1) lt d a(2) o(1-4) o'(1-3)] True run unfolding N_def D_def by auto
    next
      case False
      then have F: "nn + adjust < 2 * dn" "nn + adjust < dn + MUL_TOOM3_THRESHOLD" using sz a(1) by linarith+
      show ?thesis using tdiv_qr_short_spec [OF sz(1,2) F(1) a(1) F(2) d a(2) o(1-4) o'] False run unfolding N_def D_def by auto
    qed
  qed
qed

lemma mpn_tdiv_qr_zero: "mpn_tdiv_qr qp rp 0 np nn dp 0 fp m = Some DIVIDE_BY_ZERO"
  by (simp add: mpn_tdiv_qr_def)

end
