(* ===== verification/Mpn_Powm.thy ===== *)
theory Mpn_Powm
  imports Mpn_Product Mpn_TdivQr
begin

text \<open>
  Reduction modulo an odd number by exact division (\<open>redc\<close> of \<open>mpz/powm.c\<close>), and the modular squarings and products
  of \<open>mpz_powm\<close>, which use it or the division \<open>mpn_tdiv_qr\<close>.  Both ways to reduce are stated
  over \<open>powm_rep\<close>: numbers are represented modulo \<open>M\<close> multiplied by a factor, \<open>LB ^ n\<close> or 1.
\<close>

section \<open>Montgomery reduction\<close>

fun redc_loop :: "nat \<Rightarrow> ptr \<Rightarrow> ptr \<Rightarrow> nat \<Rightarrow> limb \<Rightarrow> mem \<Rightarrow> mem option" where
  "redc_loop 0 tp mp n Nprim m = Some m"
| "redc_loop (Suc j) tp mp n Nprim m =
     (let q = m tp * Nprim;
          (cy, m) = mpn_addmul_1 tp mp n q m
      in do {
        m \<leftarrow> mpn_incr_u (tp + n) cy m;
        redc_loop j (tp + 1) mp n Nprim m
      })"

definition redc :: "ptr \<Rightarrow> ptr \<Rightarrow> nat \<Rightarrow> limb \<Rightarrow> ptr \<Rightarrow> mem \<Rightarrow> mem option" where
  "redc cp mp n Nprim tp m =
     do {
       m \<leftarrow> redc_loop n tp mp n Nprim (m(tp + 2 * n := 0));
       let tp = tp + n;
       Some (if m (tp + n) \<noteq> 0 then snd (mpn_sub_n cp tp mp n m) else MPN_COPY cp tp n m)
     }"

lemma mval_Suc: "mval m p (Suc n) = unat (m p) + LB * mval m (p + 1) n"
  by simp

text \<open>One round clears the lowest limb.\<close>

lemma redc_round:
  fixes M :: nat
  assumes n: "1 \<le> n" and M: "mval m mp n = M" and N: "Nprim * m mp = - 1" and sep: "tp + (n + Suc j) \<le> mp \<or> mp + n \<le> tp"
    and V: "mval m tp (n + Suc j) + M * unat (m tp * Nprim) < LB ^ (n + Suc j)"
  shows "\<exists>cy m1 m2. mpn_addmul_1 tp mp n (m tp * Nprim) m = (cy, m1) \<and> mpn_incr_u (tp + n) cy m1 = Some m2
    \<and> LB * mval m2 (tp + 1) (n + j) = mval m tp (n + Suc j) + M * unat (m tp * Nprim) \<and> only_in tp (n + Suc j) m m2"
proof -
  define q where "q = m tp * Nprim"
  obtain cy m1 where eq: "mpn_addmul_1 tp mp n q m = (cy, m1)" by fastforce
  have "MPN_SAME_OR_INCR_P tp mp n" using sep by (auto simp: overlap_defs)
  note A = mpn_addmul_1_spec [OF eq this, unfolded M]
  have h1: "mval m1 (tp + n) (Suc j) = mval m (tp + n) (Suc j)" by (rule only_in_mval [OF A(2)]) simp
  have tot: "mval m1 tp n + LB ^ n * (mval m1 (tp + n) (Suc j) + unat cy) = mval m tp (n + Suc j) + M * unat q"
    unfolding mval_add [of m tp n "Suc j"] h1 using A(1) by (simp only: algebra_simps)
  have "mval m1 (tp + n) (Suc j) + unat cy < LB ^ Suc j"
  proof -
    have "LB ^ n * (mval m1 (tp + n) (Suc j) + unat cy) < LB ^ (n + Suc j)" using tot V unfolding q_def [symmetric] by linarith
    then show ?thesis unfolding power_add by simp
  qed
  from mpn_incr_u_spec [OF this] obtain m2 where m2: "mpn_incr_u (tp + n) cy m1 = Some m2"
    "mval m2 (tp + n) (Suc j) = mval m1 (tp + n) (Suc j) + unat cy" "only_in (tp + n) (Suc j) m1 m2" by auto
  have l2: "mval m2 tp n = mval m1 tp n" by (rule only_in_mval [OF m2(3)]) simp
  have v2: "mval m2 tp (n + Suc j) = mval m tp (n + Suc j) + M * unat q"
    unfolding mval_add [of m2 tp n "Suc j"] l2 m2(2) by (rule tot)
  obtain k where k: "n = Suc k" using n by (cases n) auto
  have zero: "m2 tp = 0"
  proof -
    have "m tp + m mp * q = m tp + m tp * (Nprim * m mp)" by (simp add: q_def algebra_simps)
    then have "m tp + m mp * q = 0" unfolding N by simp
    then have "(unat (m tp) + unat (m mp) * unat q) mod LB = 0"
      by (metis mod_add_right_eq unat_0 unat_plus_limb unat_times_limb)
    moreover have "mval m tp (n + Suc j) + M * unat q = (unat (m tp) + unat (m mp) * unat q) + LB * (mval m (tp + 1) (k + Suc j) + mval m (mp + 1) k * unat q)"
      unfolding k add_Suc mval_Suc M [symmetric] by (simp only: algebra_simps)
    ultimately have "mval m2 tp (n + Suc j) mod LB = 0" unfolding v2 by (simp only: mod_mult_self2)
    then have "unat (m2 tp) mod LB = 0" unfolding k add_Suc mval_Suc by (simp only: mod_mult_self2)
    then show ?thesis using unat_lt_LB [of "m2 tp"] by (simp add: unat_eq_0)
  qed
  have "LB * mval m2 (tp + 1) (n + j) = mval m2 tp (n + Suc j)" by (simp add: zero)
  moreover have "only_in tp (n + Suc j) m m2"
    by (rule only_in_trans [OF only_in_mono [OF A(2)] only_in_mono [OF m2(3)]]) simp_all
  ultimately show ?thesis using eq m2(1) v2 unfolding q_def by auto
qed

lemma redc_loop_spec:
  fixes M :: nat
  assumes n: "1 \<le> n" and M: "mval m mp n = M" and N: "Nprim * m mp = - 1" and sep: "tp + (n + j + 1) \<le> mp \<or> mp + n \<le> tp"
    and V: "mval m tp (n + j + 1) + (LB ^ j - 1) * M < LB ^ (n + j + 1)"
  shows "\<exists>m' Q. redc_loop j tp mp n Nprim m = Some m' \<and> LB ^ j * mval m' (tp + j) (n + 1) = mval m tp (n + j + 1) + Q * M
    \<and> Q < LB ^ j \<and> only_in tp (n + j + 1) m m'"
  using M N sep V
proof (induction j arbitrary: tp m)
  case 0
  then show ?case by (intro exI [of _ m] exI [of _ 0]) simp
next
  case (Suc j)
  define q where "q = m tp * Nprim"
  have P: "LB ^ Suc j = LB * LB ^ j" "1 \<le> LB ^ j" by simp_all
  have qM: "M * unat q \<le> M * (LB - 1)" using unat_lt_LB [of q] by (intro mult_le_mono2) simp
  have le: "(LB - 1) + (LB * LB ^ j - LB) = LB * LB ^ j - 1" using P(2) LB_gt(2)
    by (metis Nat.add_diff_assoc2 add.commute le_add_diff_inverse less_imp_le_nat mult.right_neutral mult_le_mono2)
  have W: "mval m tp (n + Suc (Suc j)) + M * unat q + (LB * LB ^ j - LB) * M < LB ^ (n + Suc (Suc j))"
  proof -
    have "M * unat q + (LB * LB ^ j - LB) * M \<le> ((LB - 1) + (LB * LB ^ j - LB)) * M"
      using qM by (simp only: add_mult_distrib mult.commute [of M] add_le_mono1)
    also have "\<dots> = (LB ^ Suc j - 1) * M" by (simp only: le P(1))
    finally show ?thesis using Suc.prems(4) by (simp only: add_Suc_right add_Suc add_0_right One_nat_def)
  qed
  then have V1: "mval m tp (n + Suc (Suc j)) + M * unat q < LB ^ (n + Suc (Suc j))" by linarith
  have s1: "tp + (n + Suc (Suc j)) \<le> mp \<or> mp + n \<le> tp" using Suc.prems(3) by auto
  obtain cy m1 m2 where R: "mpn_addmul_1 tp mp n q m = (cy, m1)" "mpn_incr_u (tp + n) cy m1 = Some m2"
    "LB * mval m2 (tp + 1) (n + Suc j) = mval m tp (n + Suc (Suc j)) + M * unat q" "only_in tp (n + Suc (Suc j)) m m2"
    using redc_round [OF n Suc.prems(1,2) s1 V1 [unfolded q_def]] unfolding q_def by blast
  have keep: "m2 (mp + i) = m (mp + i)" if "i < n" for i by (rule only_inD [OF R(4)]) (use s1 that in auto)
  have M2: "mval m2 mp n = M" unfolding Suc.prems(1) [symmetric] by (rule mval_cong) (rule keep)
  have N2: "Nprim * m2 mp = - 1" using keep [of 0] n Suc.prems(2) by simp
  have s2: "(tp + 1) + (n + j + 1) \<le> mp \<or> mp + n \<le> tp + 1" using Suc.prems(3) by auto
  have "LB * (mval m2 (tp + 1) (n + j + 1) + (LB ^ j - 1) * M) < LB * LB ^ (n + j + 1)"
  proof -
    have "LB * ((LB ^ j - 1) * M) = (LB * LB ^ j - LB) * M" by (simp only: mult.assoc [symmetric] diff_mult_distrib2 mult_1_right)
    moreover have "LB * mval m2 (tp + 1) (n + j + 1) = mval m tp (n + Suc (Suc j)) + M * unat q" using R(3) by (simp only: add_Suc_right add_0_right One_nat_def)
    moreover have "LB * LB ^ (n + j + 1) = LB ^ (n + Suc (Suc j))" by simp
    ultimately show ?thesis using W by (simp only: add_mult_distrib2)
  qed
  then have V2: "mval m2 (tp + 1) (n + j + 1) + (LB ^ j - 1) * M < LB ^ (n + j + 1)" by simp
  obtain m' Q where I: "redc_loop j (tp + 1) mp n Nprim m2 = Some m'" "LB ^ j * mval m' (tp + 1 + j) (n + 1) = mval m2 (tp + 1) (n + j + 1) + Q * M"
    "Q < LB ^ j" "only_in (tp + 1) (n + j + 1) m2 m'"
    using Suc.IH [OF M2 N2 s2 V2] by blast
  have run: "redc_loop (Suc j) tp mp n Nprim m = Some m'" using R(1,2) I(1) by (simp add: q_def)
  have "LB ^ Suc j * mval m' (tp + Suc j) (n + 1) = LB * (mval m2 (tp + 1) (n + j + 1) + Q * M)"
    using I(2) by (simp add: mult.assoc)
  also have "\<dots> = LB * mval m2 (tp + 1) (n + Suc j) + LB * Q * M" by (simp add: algebra_simps)
  also have "\<dots> = mval m tp (n + Suc j + 1) + (unat q + LB * Q) * M" unfolding R(3) by (simp add: algebra_simps)
  finally have v: "LB ^ Suc j * mval m' (tp + Suc j) (n + 1) = mval m tp (n + Suc j + 1) + (unat q + LB * Q) * M" .
  have "unat q + LB * Q < LB * (Q + 1)" using unat_lt_LB [of q] by simp
  also have "\<dots> \<le> LB ^ Suc j" using I(3) by (simp only: P(1) mult_le_mono2 Suc_eq_plus1 [symmetric] Suc_leI)
  finally have Q: "unat q + LB * Q < LB ^ Suc j" .
  have "only_in tp (n + Suc j + 1) m m'"
    by (rule only_in_trans [OF only_in_mono [OF R(4)] only_in_mono [OF I(4)]]) simp_all
  then show ?case using run v Q by blast
qed


text \<open>The result is congruent to the quotient by \<open>LB ^ n\<close>; it may still exceed the modulus, but not \<open>LB ^ n\<close>.\<close>

theorem redc_spec:
  fixes M :: nat
  assumes n: "1 \<le> n" and M: "mval m mp n = M" and N: "Nprim * m mp = - 1"
    and o: "\<not> MPN_OVERLAP_P tp (2 * n + 1) mp n" "\<not> MPN_OVERLAP_P cp n tp (2 * n + 1)" "\<not> MPN_OVERLAP_P cp n mp n"
  shows "\<exists>m' W Q. redc cp mp n Nprim tp m = Some m' \<and> LB ^ n * W = mval m tp (2 * n) + Q * M \<and> Q < LB ^ n
    \<and> mval m' cp n = (if W < LB ^ n then W else W - M) \<and> only_at ({cp..<cp + n} \<union> {tp..<tp + 2 * n + 1}) m m'"
proof -
  note o' = o [unfolded no_overlap_iff]
  define m0 where "m0 = m(tp + 2 * n := 0)"
  have T0: "mval m0 tp (n + n + 1) = mval m tp (2 * n)"
    by (simp add: m0_def mval_high mult_2 del: mval.simps)
  have M0: "mval m0 mp n = M" unfolding m0_def using M o'(1) by auto
  have N0: "Nprim * m0 mp = - 1" using N o'(1) n by (auto simp: m0_def)
  have Mn: "M < LB ^ n" unfolding M [symmetric] by (rule mval_less)
  have Tn: "mval m tp (2 * n) < LB ^ (n + n)" using mval_less [of m tp "2 * n"] by (simp add: mult_2)
  have "(LB ^ n - 1) * M \<le> LB ^ n * LB ^ n" using Mn by (intro mult_le_mono) simp_all
  then have "mval m tp (2 * n) + (LB ^ n - 1) * M < 2 * LB ^ (n + n)" using Tn unfolding power_add by linarith
  also have "2 * LB ^ (n + n) \<le> LB ^ (n + n + 1)" by (simp add: LB_def)
  finally have V: "mval m0 tp (n + n + 1) + (LB ^ n - 1) * M < LB ^ (n + n + 1)" unfolding T0 .
  have s: "tp + (n + n + 1) \<le> mp \<or> mp + n \<le> tp" using o'(1) by auto
  obtain m1 Q where L: "redc_loop n tp mp n Nprim m0 = Some m1" "LB ^ n * mval m1 (tp + n) (n + 1) = mval m tp (2 * n) + Q * M" "Q < LB ^ n"
    "only_in tp (n + n + 1) m0 m1"
    using redc_loop_spec [OF n M0 N0 s V] unfolding T0 by blast
  define W where "W = mval m1 (tp + n) (n + 1)"
  have W: "W = mval m1 (tp + n) n + LB ^ n * unat (m1 (tp + n + n))" unfolding W_def Suc_eq_plus1 [symmetric] mval_high by simp
  have low: "mval m1 (tp + n) n < LB ^ n" by (rule mval_less)
  have Wb: "W < LB ^ n + M"
  proof -
    have "Q * M \<le> LB ^ n * M" using L(3) by simp
    then have "LB ^ n * W < LB ^ n * (LB ^ n + M)" using L(2) Tn unfolding W_def [symmetric] power_add add_mult_distrib2 by linarith
    then show ?thesis by simp
  qed
  have M1: "mval m1 mp n = M" unfolding M0 [symmetric] by (rule only_in_mval [OF L(4)]) (use s in auto)
  have at1: "only_at ({cp..<cp + n} \<union> {tp..<tp + 2 * n + 1}) m m1"
  proof (rule only_at_trans)
    show "only_at ({cp..<cp + n} \<union> {tp..<tp + 2 * n + 1}) m m0" by (auto simp: only_at_def m0_def)
    show "only_at ({cp..<cp + n} \<union> {tp..<tp + 2 * n + 1}) m0 m1" by (rule only_in_at [OF L(4)]) auto
  qed
  show ?thesis
  proof (cases "m1 (tp + n + n) = 0")
    case True
    define m2 where "m2 = MPN_COPY cp (tp + n) n m1"
    have e: "m2 = mcopy cp (tp + n) n m1" unfolding m2_def by (rule MPN_COPY_spec) (use o'(2) in \<open>auto simp: overlap_defs\<close>)
    have "mval m2 cp n = W" "W < LB ^ n" using W True low by (simp_all add: e)
    moreover have "only_at ({cp..<cp + n} \<union> {tp..<tp + 2 * n + 1}) m1 m2" unfolding e by (rule only_in_at [OF only_in_mcopy]) auto
    moreover have "redc cp mp n Nprim tp m = Some m2" using L(1) True by (simp add: redc_def m0_def m2_def)
    ultimately show ?thesis using L(2,3) only_at_trans [OF at1] unfolding W_def by auto
  next
    case False
    obtain c m2 where e: "mpn_sub_n cp (tp + n) mp n m1 = (c, m2)" by fastforce
    have S: "mval m2 cp n + M = mval m1 (tp + n) n + LB ^ n * unat c" "unat c \<le> 1" "only_in cp n m1 m2"
      using mpn_sub_n_spec [OF e] o' by (auto simp: overlap_defs M1)
    have u: "1 \<le> unat (m1 (tp + n + n))" using False by (simp add: unat_gt_0 Suc_leI)
    then have le: "LB ^ n * 1 \<le> LB ^ n * unat (m1 (tp + n + n))" by (rule mult_le_mono2)
    have one: "unat (m1 (tp + n + n)) = 1"
    proof (rule ccontr)
      assume "unat (m1 (tp + n + n)) \<noteq> 1"
      then have "LB ^ n * 2 \<le> LB ^ n * unat (m1 (tp + n + n))" using u by (intro mult_le_mono2) simp
      then show False using W Wb Mn by linarith
    qed
    have Wl: "W = mval m1 (tp + n) n + LB ^ n" unfolding W one by simp
    then have "mval m1 (tp + n) n < M" using Wb by linarith
    then have "unat c \<noteq> 0" using S(1) by (cases "unat c = 0") auto
    then have "unat c = 1" using S(2) by simp
    then have "mval m2 cp n = W - M" "\<not> W < LB ^ n" using S(1) Wl by simp_all
    moreover have "only_at ({cp..<cp + n} \<union> {tp..<tp + 2 * n + 1}) m1 m2" by (rule only_in_at [OF S(3)]) auto
    moreover have "redc cp mp n Nprim tp m = Some m2" using L(1) False e by (simp add: redc_def m0_def)
    ultimately show ?thesis using L(2,3) only_at_trans [OF at1] unfolding W_def by auto
  qed
qed


section \<open>Modular squarings and products\<close>

text \<open>\<open>mpn_tdiv_qr\<close> for a divisor that is not zero, where it raises no error.\<close>

definition tdiv_qr_mem :: "ptr \<Rightarrow> ptr \<Rightarrow> ptr \<Rightarrow> nat \<Rightarrow> ptr \<Rightarrow> nat \<Rightarrow> ptr \<Rightarrow> mem \<Rightarrow> mem option" where
  "tdiv_qr_mem qp rp np nn dp dn fp m =
     (case mpn_tdiv_qr qp rp 0 np nn dp dn fp m of Some (Inr m) \<Rightarrow> Some m | _ \<Rightarrow> None)"

text \<open>The local variables of \<open>mpz_powm\<close> that its loops only read; \<open>L_fp\<close> is the end of the temporary blocks.\<close>

record powm_locals =
  L_redc :: bool
  L_mp :: ptr
  L_mn :: nat
  L_invm :: limb
  L_tp :: ptr
  L_qp :: ptr
  L_fp :: ptr

definition powm_reduce :: "powm_locals \<Rightarrow> ptr \<Rightarrow> mem \<Rightarrow> mem option" where
  "powm_reduce L rp m =
     (if L_redc L then redc rp (L_mp L) (L_mn L) (L_invm L) (L_tp L) m
      else tdiv_qr_mem (L_qp L) rp (L_tp L) (2 * L_mn L) (L_mp L) (L_mn L) (L_fp L) m)"

definition powm_sqr :: "powm_locals \<Rightarrow> ptr \<Rightarrow> ptr \<Rightarrow> mem \<Rightarrow> mem option" where
  "powm_sqr L rp xp m =
     do {
       m \<leftarrow> mpn_sqr_n (L_tp L) xp (L_mn L) (L_fp L) (L_fp L + MPN_KARA_SQR_N_TSIZE (L_mn L)) m;
       powm_reduce L rp m
     }"

definition powm_mul :: "powm_locals \<Rightarrow> ptr \<Rightarrow> ptr \<Rightarrow> ptr \<Rightarrow> mem \<Rightarrow> mem option" where
  "powm_mul L rp xp yp m =
     do {
       m \<leftarrow> mpn_mul_n (L_tp L) xp yp (L_mn L) (L_fp L) m;
       powm_reduce L rp m
     }"

text \<open>The modulus \<open>M\<close>, the factor \<open>F\<close> of the representation, and the layout of the blocks.\<close>

definition powm_ok :: "powm_locals \<Rightarrow> nat \<Rightarrow> nat \<Rightarrow> bool" where
  "powm_ok L M F \<longleftrightarrow> 1 \<le> L_mn L \<and> L_mn L < SQR_TOOM3_THRESHOLD \<and> 0 < M \<and> coprime F M
     \<and> (if L_redc L then F = LB ^ L_mn L \<and> L_invm L * of_nat M = - 1 else F = 1 \<and> LB ^ (L_mn L - 1) \<le> M)
     \<and> L_mp L + L_mn L \<le> L_fp L \<and> L_tp L + 2 * L_mn L + 1 \<le> L_fp L \<and> L_qp L + L_mn L + 1 \<le> L_fp L
     \<and> \<not> MPN_OVERLAP_P (L_tp L) (2 * L_mn L + 1) (L_qp L) (L_mn L + 1)
     \<and> \<not> MPN_OVERLAP_P (L_tp L) (2 * L_mn L + 1) (L_mp L) (L_mn L)
     \<and> \<not> MPN_OVERLAP_P (L_qp L) (L_mn L + 1) (L_mp L) (L_mn L)"

definition powm_scratch :: "powm_locals \<Rightarrow> nat set" where
  "powm_scratch L = {L_tp L..<L_tp L + 2 * L_mn L + 1} \<union> {L_qp L..<L_qp L + L_mn L + 1} \<union> {L_fp L..}"

text \<open>A block for a number, apart from the modulus and the scratch blocks.\<close>

definition powm_slot :: "powm_locals \<Rightarrow> ptr \<Rightarrow> bool" where
  "powm_slot L p \<longleftrightarrow> p + L_mn L \<le> L_fp L
     \<and> \<not> MPN_OVERLAP_P p (L_mn L) (L_tp L) (2 * L_mn L + 1) \<and> \<not> MPN_OVERLAP_P p (L_mn L) (L_qp L) (L_mn L + 1)
     \<and> \<not> MPN_OVERLAP_P p (L_mn L) (L_mp L) (L_mn L)"

text \<open>The block at \<open>p\<close> holds a power \<open>x\<close> modulo \<open>M\<close>.\<close>

definition powm_rep :: "powm_locals \<Rightarrow> nat \<Rightarrow> nat \<Rightarrow> mem \<Rightarrow> ptr \<Rightarrow> nat \<Rightarrow> bool" where
  "powm_rep L M F m p x \<longleftrightarrow> mval m p (L_mn L) mod M = (x * F) mod M \<and> (\<not> L_redc L \<longrightarrow> mval m p (L_mn L) < M)"

lemma powm_slot_scratch: "powm_slot L p \<Longrightarrow> powm_ok L M F \<Longrightarrow> {p..<p + L_mn L} \<inter> powm_scratch L = {}"
  unfolding powm_slot_def powm_scratch_def no_overlap_iff by auto

lemma powm_modulus_scratch: "powm_ok L M F \<Longrightarrow> {L_mp L..<L_mp L + L_mn L} \<inter> powm_scratch L = {}"
  unfolding powm_ok_def powm_scratch_def no_overlap_iff by auto

lemma powm_slot_modulus: "powm_slot L p \<Longrightarrow> {L_mp L..<L_mp L + L_mn L} \<inter> {p..<p + L_mn L} = {}"
  unfolding powm_slot_def no_overlap_iff by auto

lemma mod_limb:
  assumes "1 \<le> n" "mval m p n = M"
  shows "m p = of_nat M"
proof -
  obtain k where "n = Suc k" using assms(1) by (cases n) auto
  then have "M mod LB = unat (m p) mod LB" using assms(2) by (metis mval_Suc mod_mult_self2)
  then show ?thesis by (simp add: limb_eq_iff unat_of_nat_limb unat_lt_LB)
qed

lemma tdiv_qr_mem_spec:
  assumes "1 \<le> dn" "dn \<le> nn" "dn < SQR_TOOM3_THRESHOLD" "LB ^ (dn - 1) \<le> mval m dp dn"
    and "np + nn \<le> fp" "dp + dn \<le> fp" "qp + (nn - dn + 1) \<le> fp" "rp + dn \<le> fp"
    and "\<not> MPN_OVERLAP_P qp (nn - dn + 1) dp dn" "\<not> MPN_OVERLAP_P qp (nn - dn + 1) np nn" "\<not> MPN_OVERLAP_P qp (nn - dn + 1) rp dn"
      "\<not> MPN_OVERLAP_P rp dn dp dn" "\<not> MPN_OVERLAP_P rp dn np nn"
  shows "\<exists>m'. tdiv_qr_mem qp rp np nn dp dn fp m = Some m' \<and> mval m' rp dn = mval m np nn mod mval m dp dn
    \<and> only_at ({qp..<qp + (nn - dn + 1)} \<union> {rp..<rp + dn} \<union> {fp..}) m m'"
proof -
  obtain k where k: "dn = Suc k" using assms(1) by (cases dn) auto
  have "m (dp + dn - 1) \<noteq> 0"
  proof
    assume "m (dp + dn - 1) = 0"
    then have "mval m dp dn = mval m dp k" by (simp add: k mval_high del: mval.simps)
    then show False using assms(4) mval_less [of m dp k] k by simp
  qed
  moreover have "dn < MUL_TOOM3_THRESHOLD" using assms(3) by (simp add: MUL_TOOM3_THRESHOLD_def SQR_TOOM3_THRESHOLD_def)
  ultimately show ?thesis
    using mpn_tdiv_qr_spec [where m = m and np = np and dp = dp and nn = nn and dn = dn and fp = fp and qp = qp and rp = rp] assms
    by (auto simp: tdiv_qr_mem_def)
qed

lemma powm_reduce_spec:
  assumes ok: "powm_ok L M F" and M: "mval m (L_mp L) (L_mn L) = M" and r: "powm_slot L rp"
  shows "\<exists>m'. powm_reduce L rp m = Some m' \<and> (mval m' rp (L_mn L) * F) mod M = mval m (L_tp L) (2 * L_mn L) mod M
    \<and> (\<not> L_redc L \<longrightarrow> mval m' rp (L_mn L) < M) \<and> only_at ({rp..<rp + L_mn L} \<union> powm_scratch L) m m'"
proof (cases "L_redc L")
  case True
  have n: "1 \<le> L_mn L" using ok by (simp add: powm_ok_def)
  have F: "F = LB ^ L_mn L" and N: "L_invm L * m (L_mp L) = - 1"
    using ok True mod_limb [OF n M] by (simp_all add: powm_ok_def)
  have o: "\<not> MPN_OVERLAP_P (L_tp L) (2 * L_mn L + 1) (L_mp L) (L_mn L)" "\<not> MPN_OVERLAP_P rp (L_mn L) (L_tp L) (2 * L_mn L + 1)"
    "\<not> MPN_OVERLAP_P rp (L_mn L) (L_mp L) (L_mn L)" using ok r by (simp_all add: powm_ok_def powm_slot_def)
  obtain m' W Q where R: "redc rp (L_mp L) (L_mn L) (L_invm L) (L_tp L) m = Some m'" "LB ^ L_mn L * W = mval m (L_tp L) (2 * L_mn L) + Q * M"
    "Q < LB ^ L_mn L" "mval m' rp (L_mn L) = (if W < LB ^ L_mn L then W else W - M)"
    "only_at ({rp..<rp + L_mn L} \<union> {L_tp L..<L_tp L + 2 * L_mn L + 1}) m m'"
    using redc_spec [OF n M N o] by blast
  have "M < LB ^ L_mn L" unfolding M [symmetric] by (rule mval_less)
  then have "mval m' rp (L_mn L) mod M = W mod M"
    using R(4) by (auto simp: le_mod_geq [of M W])
  then have "(mval m' rp (L_mn L) * F) mod M = (LB ^ L_mn L * W) mod M" unfolding F by (metis mod_mult_left_eq mult.commute)
  also have "\<dots> = mval m (L_tp L) (2 * L_mn L) mod M" unfolding R(2) by simp
  finally have "(mval m' rp (L_mn L) * F) mod M = mval m (L_tp L) (2 * L_mn L) mod M" .
  moreover have "only_at ({rp..<rp + L_mn L} \<union> powm_scratch L) m m'"
    by (rule only_at_mono [OF R(5)]) (auto simp: powm_scratch_def)
  ultimately show ?thesis using True R(1) by (simp add: powm_reduce_def)
next
  case False
  have F: "F = 1" and n: "1 \<le> L_mn L" "L_mn L \<le> 2 * L_mn L" "L_mn L < SQR_TOOM3_THRESHOLD" and ge: "LB ^ (L_mn L - 1) \<le> mval m (L_mp L) (L_mn L)"
    and e: "2 * L_mn L - L_mn L + 1 = L_mn L + 1"
    using ok False M by (simp_all add: powm_ok_def)
  have b: "L_tp L + 2 * L_mn L \<le> L_fp L" "L_mp L + L_mn L \<le> L_fp L" "L_qp L + (L_mn L + 1) \<le> L_fp L" "rp + L_mn L \<le> L_fp L"
    using ok r by (simp_all add: powm_ok_def powm_slot_def)
  have o: "\<not> MPN_OVERLAP_P (L_qp L) (L_mn L + 1) (L_mp L) (L_mn L)" "\<not> MPN_OVERLAP_P (L_qp L) (L_mn L + 1) (L_tp L) (2 * L_mn L)"
    "\<not> MPN_OVERLAP_P (L_qp L) (L_mn L + 1) rp (L_mn L)" "\<not> MPN_OVERLAP_P rp (L_mn L) (L_mp L) (L_mn L)"
    "\<not> MPN_OVERLAP_P rp (L_mn L) (L_tp L) (2 * L_mn L)"
    using ok r unfolding powm_ok_def powm_slot_def no_overlap_iff by auto
  obtain m' where m': "tdiv_qr_mem (L_qp L) rp (L_tp L) (2 * L_mn L) (L_mp L) (L_mn L) (L_fp L) m = Some m'"
    "mval m' rp (L_mn L) = mval m (L_tp L) (2 * L_mn L) mod mval m (L_mp L) (L_mn L)"
    "only_at ({L_qp L..<L_qp L + (L_mn L + 1)} \<union> {rp..<rp + L_mn L} \<union> {L_fp L..}) m m'"
    using tdiv_qr_mem_spec [OF n ge b(1,2) _ b(4), unfolded e, OF b(3) o] by blast
  have "only_at ({rp..<rp + L_mn L} \<union> powm_scratch L) m m'"
    by (rule only_at_mono [OF m'(3)]) (auto simp: powm_scratch_def)
  moreover have "0 < M" using ok by (simp add: powm_ok_def)
  ultimately show ?thesis using False m'(1,2) unfolding M F by (simp add: powm_reduce_def)
qed


lemma mod_cancel:
  assumes "coprime F M" "(z * F) mod M = (y * F) mod (M :: nat)"
  shows "z mod M = y mod M"
proof -
  have "int M dvd int z * int F - int y * int F" using assms(2) unfolding mod_eq_dvd_iff [symmetric] by (metis of_nat_mod of_nat_mult)
  then have "int M dvd (int z - int y) * int F" by (simp only: left_diff_distrib)
  moreover have "coprime (int M) (int F)" using assms(1) by (simp add: ac_simps)
  ultimately have "int M dvd int z - int y" by (simp add: coprime_dvd_mult_left_iff)
  then show ?thesis unfolding mod_eq_dvd_iff [symmetric] by (metis of_nat_eq_iff of_nat_mod)
qed

text \<open>After a product of two represented numbers in \<open>tp\<close>, the reduction gives the representation of the product.\<close>

lemma powm_reduce_rep:
  assumes ok: "powm_ok L M F" and M: "mval m (L_mp L) (L_mn L) = M" and r: "powm_slot L rp"
    and x: "X mod M = (x * F) mod M" and y: "Y mod M = (y * F) mod M" and t: "mval m (L_tp L) (2 * L_mn L) = X * Y"
  shows "\<exists>m'. powm_reduce L rp m = Some m' \<and> powm_rep L M F m' rp (x * y) \<and> only_at ({rp..<rp + L_mn L} \<union> powm_scratch L) m m'"
proof -
  obtain m' where R: "powm_reduce L rp m = Some m'" "(mval m' rp (L_mn L) * F) mod M = (X * Y) mod M"
    "\<not> L_redc L \<longrightarrow> mval m' rp (L_mn L) < M" "only_at ({rp..<rp + L_mn L} \<union> powm_scratch L) m m'"
    using powm_reduce_spec [OF ok M r] unfolding t by blast
  have "(X * Y) mod M = (x * F * (y * F)) mod M" using x y by (metis mod_mult_eq)
  also have "x * F * (y * F) = x * y * F * F" by simp
  finally have e: "(mval m' rp (L_mn L) * F) mod M = (x * y * F * F) mod M" unfolding R(2) .
  have "coprime F M" using ok by (simp add: powm_ok_def)
  from mod_cancel [OF this e] have "mval m' rp (L_mn L) mod M = (x * y * F) mod M" .
  then show ?thesis using R by (auto simp: powm_rep_def)
qed

lemma powm_workspace:
  assumes "powm_ok L M F"
  shows "kara_room (L_mn L) \<le> MPN_KARA_SQR_N_TSIZE (L_mn L)" "kara_room (L_mn L) \<le> MPN_KARA_MUL_N_TSIZE (L_mn L)"
    "1 \<le> L_mn L" "L_mn L < MUL_TOOM3_THRESHOLD" "L_mn L < SQR_TOOM3_THRESHOLD"
proof -
  show n: "1 \<le> L_mn L" "L_mn L < MUL_TOOM3_THRESHOLD" "L_mn L < SQR_TOOM3_THRESHOLD"
    using assms by (simp_all add: powm_ok_def SQR_TOOM3_THRESHOLD_def MUL_TOOM3_THRESHOLD_def)
  have "L_mn L < LB" using n(2) by (simp add: LB_def MUL_TOOM3_THRESHOLD_def)
  from kara_room_TSIZE [OF this] show "kara_room (L_mn L) \<le> MPN_KARA_SQR_N_TSIZE (L_mn L)" "kara_room (L_mn L) \<le> MPN_KARA_MUL_N_TSIZE (L_mn L)"
    by blast+
qed

lemma no_overlap_above: "p + n \<le> q \<Longrightarrow> \<not> MPN_OVERLAP_P q r p n"
  by (simp add: no_overlap_iff)

lemma powm_layout:
  assumes "powm_ok L M F" "powm_slot L p"
  shows "\<not> MPN_OVERLAP_P (L_tp L) (2 * L_mn L) p (L_mn L)" "p + L_mn L \<le> L_fp L" "L_tp L + 2 * L_mn L \<le> L_fp L"
  using assms unfolding powm_slot_def powm_ok_def no_overlap_iff by auto

text \<open>The contract of a squaring and of a product: the destination may be a factor.\<close>

lemma powm_sqr_spec:
  assumes ok: "powm_ok L M F" and M: "mval m (L_mp L) (L_mn L) = M" and r: "powm_slot L rp" and xp: "powm_slot L xp"
    and x: "powm_rep L M F m xp x"
  shows "\<exists>m'. powm_sqr L rp xp m = Some m' \<and> powm_rep L M F m' rp (x * x) \<and> only_at ({rp..<rp + L_mn L} \<union> powm_scratch L) m m'"
proof -
  note W = powm_workspace [OF ok] and A = powm_layout [OF ok xp]
  define ws sp where "ws = L_fp L" and "sp = ws + MPN_KARA_SQR_N_TSIZE (L_mn L)"
  have "product_step (mpn_sqr_n (L_tp L) xp (L_mn L) ws sp) (L_tp L) xp (L_mn L) xp (L_mn L)
      ({L_tp L..<L_tp L + 2 * L_mn L} \<union> {ws..<ws + MPN_KARA_SQR_N_TSIZE (L_mn L)} \<union> {sp..<sp + 2 * SQR_KARATSUBA_THRESHOLD})"
  proof (rule mpn_sqr_n_step [OF W(3,5) A(1) _ _ W(1)])
    show "\<not> MPN_OVERLAP_P ws (MPN_KARA_SQR_N_TSIZE (L_mn L)) xp (L_mn L)" "\<not> MPN_OVERLAP_P ws (MPN_KARA_SQR_N_TSIZE (L_mn L)) (L_tp L) (2 * L_mn L)"
      unfolding ws_def by (rule no_overlap_above A)+
    have "xp + L_mn L \<le> sp" "L_tp L + 2 * L_mn L \<le> sp" "ws + MPN_KARA_SQR_N_TSIZE (L_mn L) \<le> sp"
      using A(2,3) by (simp_all add: sp_def ws_def)
    then show "\<not> MPN_OVERLAP_P sp (2 * SQR_KARATSUBA_THRESHOLD) xp (L_mn L)" "\<not> MPN_OVERLAP_P sp (2 * SQR_KARATSUBA_THRESHOLD) (L_tp L) (2 * L_mn L)"
      "\<not> MPN_OVERLAP_P sp (2 * SQR_KARATSUBA_THRESHOLD) ws (MPN_KARA_SQR_N_TSIZE (L_mn L))"
      by (simp_all only: no_overlap_above not_False_eq_True)
  qed
  then obtain m1 where m1: "mpn_sqr_n (L_tp L) xp (L_mn L) ws sp m = Some m1"
    "mval m1 (L_tp L) (L_mn L + L_mn L) = mval m xp (L_mn L) * mval m xp (L_mn L)"
    "only_at ({L_tp L..<L_tp L + 2 * L_mn L} \<union> {ws..<ws + MPN_KARA_SQR_N_TSIZE (L_mn L)} \<union> {sp..<sp + 2 * SQR_KARATSUBA_THRESHOLD}) m m1"
    by (rule product_stepE)
  have f1: "only_at (powm_scratch L) m m1" by (rule only_at_mono [OF m1(3)]) (auto simp: powm_scratch_def ws_def sp_def)
  have M1: "mval m1 (L_mp L) (L_mn L) = M" unfolding M [symmetric] by (rule only_at_mval [OF f1 powm_modulus_scratch [OF ok]])
  have X: "mval m xp (L_mn L) mod M = (x * F) mod M" using x by (simp add: powm_rep_def)
  obtain m2 where m2: "powm_reduce L rp m1 = Some m2" "powm_rep L M F m2 rp (x * x)" "only_at ({rp..<rp + L_mn L} \<union> powm_scratch L) m1 m2"
    using powm_reduce_rep [OF ok M1 r X X] m1(2) by (auto simp: mult_2)
  have "only_at ({rp..<rp + L_mn L} \<union> powm_scratch L) m m2" by (rule only_at_trans [OF only_at_mono [OF f1] m2(3)]) simp
  then show ?thesis using m1(1) m2(1,2) by (simp add: powm_sqr_def ws_def sp_def)
qed

lemma powm_mul_spec:
  assumes ok: "powm_ok L M F" and M: "mval m (L_mp L) (L_mn L) = M" and r: "powm_slot L rp" and xp: "powm_slot L xp" and yp: "powm_slot L yp"
    and x: "powm_rep L M F m xp x" and y: "powm_rep L M F m yp y"
  shows "\<exists>m'. powm_mul L rp xp yp m = Some m' \<and> powm_rep L M F m' rp (x * y) \<and> only_at ({rp..<rp + L_mn L} \<union> powm_scratch L) m m'"
proof -
  note W = powm_workspace [OF ok] and A = powm_layout [OF ok xp] and B = powm_layout [OF ok yp]
  define ws where "ws = L_fp L"
  have "product_step (mpn_mul_n (L_tp L) xp yp (L_mn L) ws) (L_tp L) xp (L_mn L) yp (L_mn L)
      ({L_tp L..<L_tp L + 2 * L_mn L} \<union> {ws..<ws + MPN_KARA_MUL_N_TSIZE (L_mn L)})"
    by (rule mpn_mul_n_step [OF W(3,4) A(1) B(1) _ _ _ W(2)]) (use A(2,3) B(2) in \<open>simp_all add: no_overlap_above ws_def\<close>)
  then obtain m1 where m1: "mpn_mul_n (L_tp L) xp yp (L_mn L) ws m = Some m1"
    "mval m1 (L_tp L) (L_mn L + L_mn L) = mval m xp (L_mn L) * mval m yp (L_mn L)"
    "only_at ({L_tp L..<L_tp L + 2 * L_mn L} \<union> {ws..<ws + MPN_KARA_MUL_N_TSIZE (L_mn L)}) m m1"
    by (rule product_stepE)
  have f1: "only_at (powm_scratch L) m m1" by (rule only_at_mono [OF m1(3)]) (auto simp: powm_scratch_def ws_def)
  have M1: "mval m1 (L_mp L) (L_mn L) = M" unfolding M [symmetric] by (rule only_at_mval [OF f1 powm_modulus_scratch [OF ok]])
  have X: "mval m xp (L_mn L) mod M = (x * F) mod M" "mval m yp (L_mn L) mod M = (y * F) mod M" using x y by (simp_all add: powm_rep_def)
  obtain m2 where m2: "powm_reduce L rp m1 = Some m2" "powm_rep L M F m2 rp (x * y)" "only_at ({rp..<rp + L_mn L} \<union> powm_scratch L) m1 m2"
    using powm_reduce_rep [OF ok M1 r X] m1(2) by (auto simp: mult_2)
  have "only_at ({rp..<rp + L_mn L} \<union> powm_scratch L) m m2" by (rule only_at_trans [OF only_at_mono [OF f1] m2(3)]) simp
  then show ?thesis using m1(1) m2(1,2) by (simp add: powm_mul_def ws_def)
qed

end
