(* ===== verification/Mpn_PowmLoop.thy ===== *)
theory Mpn_PowmLoop
  imports Mpn_Powm
begin

text \<open>
  The window loops of \<open>mpz_powm\<close>: reading the exponent from its limbs a few bits at a time, the table of odd powers,
  and the repeated squarings and products.  Loops of the code without a bound of their own are partial functions, which
  are shown to return.
\<close>

unbundle bit_operations_syntax

section \<open>The bits of a vector of limbs\<close>

lemma bit_limb: "bit (unat (x :: limb)) k \<longleftrightarrow> bit x k"
  by (simp add: bit_unsigned_iff)

lemma bit_limb_bound: "bit (x :: limb) k \<Longrightarrow> k < 32"
  using bit_imp_le_length [of x k] by simp

lemma bit_mval: "bit (mval m p n) k \<longleftrightarrow> k < 32 * n \<and> bit (m (p + k div 32)) (k mod 32)"
proof (induction n arbitrary: p k)
  case (Suc n)
  have d: "mval m p (Suc n) = unat (m p) OR push_bit 32 (mval m (p + 1) n)"
  proof -
    have "mval m p (Suc n) = unat (m p) + push_bit 32 (mval m (p + 1) n)" by (simp add: push_bit_eq_mult LB_power)
    also have "\<dots> = unat (m p) OR push_bit 32 (mval m (p + 1) n)"
      by (rule disjunctive_add_eq_or, rule bit_eqI) (auto simp: bit_and_iff bit_push_bit_iff bit_limb dest: bit_limb_bound)
    finally show ?thesis .
  qed
  show ?case
  proof (cases "k < 32")
    case True
    then show ?thesis unfolding d by (simp add: bit_or_iff bit_push_bit_iff bit_limb)
  next
    case False
    then obtain i where k: "k = i + 32" by (metis le_add_diff_inverse2 not_less)
    then have "\<not> bit (m p) k" using bit_limb_bound [of "m p" k] by auto
    moreover have "(i + 32) div 32 = Suc (i div 32)" by simp
    ultimately show ?thesis unfolding d k by (simp add: bit_or_iff bit_push_bit_iff bit_limb Suc.IH)
  qed
qed simp

section \<open>The functions\<close>

fun powm_sqrs :: "powm_locals \<Rightarrow> nat \<Rightarrow> ptr \<Rightarrow> mem \<Rightarrow> mem option" where
  "powm_sqrs L 0 xp m = Some m"
| "powm_sqrs L (Suc j) xp m = do { m \<leftarrow> powm_sqr L xp xp m; powm_sqrs L j xp m }"

text \<open>The remaining odd powers, from \<open>this_gp\<close> on.\<close>

fun powm_table :: "powm_locals \<Rightarrow> nat \<Rightarrow> ptr \<Rightarrow> ptr \<Rightarrow> mem \<Rightarrow> mem option" where
  "powm_table L 0 this_gp xp m = Some m"
| "powm_table L (Suc i) this_gp xp m =
     do {
       m \<leftarrow> powm_mul L (this_gp + L_mn L) this_gp xp m;
       powm_table L i (this_gp + L_mn L) xp m
     }"

text \<open>The number \<open>k\<close> of bits of a window; \<open>K\<close> of the code is \<open>2 ^ k\<close> throughout.\<close>

function window_bits :: "nat \<Rightarrow> nat \<Rightarrow> nat" where
  "window_bits enb k = (if 2 * enb > 2 ^ k * (2 + k * (3 + k)) then window_bits enb (k + 1) else k)"
  by auto
termination
proof (relation "measure (\<lambda>(enb, k). 2 * enb - k)")
  fix enb k :: nat
  assume a: "2 ^ k * (2 + k * (3 + k)) < 2 * enb"
  have "1 * k \<le> 2 ^ k * (2 + k * (3 + k))" by (intro mult_le_mono) (simp_all add: algebra_simps)
  then show "((enb, k + 1), enb, k) \<in> measure (\<lambda>(enb, k). 2 * enb - k)" using a by simp
qed simp

declare window_bits.simps [simp del]

partial_function (option) odd_loop :: "nat \<Rightarrow> limb \<Rightarrow> (nat \<times> limb) option" where
  "odd_loop j c = (if c mod 2 = 0 then odd_loop (j + 1) (drop_bit 1 c) else Some (j, c))"

text \<open>The first window: \<open>i\<close> and \<open>c\<close> are the top limb index and limb, \<open>sh\<close> its number of significant bits.\<close>

definition first_bits :: "nat \<Rightarrow> ptr \<Rightarrow> nat \<Rightarrow> int \<Rightarrow> limb \<Rightarrow> mem \<Rightarrow> nat \<times> int \<times> limb" where
  "first_bits k ep i sh c m =
     (let sh = sh - int k
      in if sh < 0
         then (if i > 0
               then (let i = i - 1;
                         c = push_bit (nat (- sh)) c;
                         sh = sh + 32;
                         c = c OR drop_bit (nat sh) (m (ep + i))
                     in (i, sh, c))
               else (i, sh, c))
         else (i, sh, drop_bit (nat sh) c))"

definition next_bits :: "nat \<Rightarrow> ptr \<Rightarrow> nat \<Rightarrow> int \<Rightarrow> mem \<Rightarrow> nat \<times> int \<times> nat \<times> limb" where
  "next_bits k ep i sh m =
     (let c = m (ep + i);
          l = k;
          sh = sh - int l;
          (i, sh, l, c) =
            (if sh < 0
             then (if i > 0
                   then (let i = i - 1;
                             c = push_bit (nat (- sh)) c;
                             sh = sh + 32;
                             c = c OR drop_bit (nat sh) (m (ep + i))
                         in (i, sh, l, c))
                   else (i, sh, nat (int l + sh), c))
             else (i, sh, l, drop_bit (nat sh) c));
          c = c AND (push_bit l 1 - 1)
      in (i, sh, l, c))"

text \<open>While the top bit of the window is zero, it moves down by a bit and the power is squared.\<close>

partial_function (option) powm_slide :: "powm_locals \<Rightarrow> ptr \<Rightarrow> nat \<Rightarrow> nat \<Rightarrow> int \<Rightarrow> limb \<Rightarrow> ptr \<Rightarrow> mem \<Rightarrow> (nat \<times> int \<times> limb \<times> mem) option" where
  "powm_slide L ep l i sh c xp m =
     (if drop_bit (l - 1) c = 0 \<and> (i > 0 \<or> sh > 0)
      then do {
        m \<leftarrow> powm_sqr L xp xp m;
        if sh \<noteq> 0
        then powm_slide L ep l i (sh - 1) (push_bit 1 c + (drop_bit (nat (sh - 1)) (m (ep + i)) AND 1)) xp m
        else powm_slide L ep l (i - 1) 31 (push_bit 1 c + drop_bit 31 (m (ep + (i - 1)))) xp m
      }
      else Some (i, sh, c, m))"

definition powm_window :: "powm_locals \<Rightarrow> ptr \<Rightarrow> nat \<Rightarrow> limb \<Rightarrow> ptr \<Rightarrow> mem \<Rightarrow> mem option" where
  "powm_window L gp l c xp m =
     (if c \<noteq> 0
      then do {
        (j, c) \<leftarrow> odd_loop 0 c;
        m \<leftarrow> powm_sqrs L (l - j) xp m;
        m \<leftarrow> powm_mul L xp xp (gp + L_mn L * unat (drop_bit 1 c)) m;
        powm_sqrs L j xp m
      }
      else powm_sqrs L l xp m)"

partial_function (option) powm_loop :: "powm_locals \<Rightarrow> ptr \<Rightarrow> ptr \<Rightarrow> nat \<Rightarrow> nat \<Rightarrow> int \<Rightarrow> ptr \<Rightarrow> mem \<Rightarrow> mem option" where
  "powm_loop L ep gp k i sh xp m =
     (if i > 0 \<or> sh > 0
      then (let (i, sh, l, c) = next_bits k ep i sh m
            in do {
              (i, sh, c, m) \<leftarrow> powm_slide L ep l i sh c xp m;
              m \<leftarrow> powm_window L gp l c xp m;
              powm_loop L ep gp k i sh xp m
            })
      else Some m)"

text \<open>\<open>xx\<close> to the power \<open>e\<close>, from the first window on.\<close>

definition powm_exp :: "powm_locals \<Rightarrow> ptr \<Rightarrow> nat \<Rightarrow> nat \<Rightarrow> ptr \<Rightarrow> nat \<Rightarrow> ptr \<Rightarrow> mem \<Rightarrow> mem option" where
  "powm_exp L ep en e_zero_cnt gp k xp m =
     (let i = en - 1;
          c = m (ep + i);
          sh = 32 - int e_zero_cnt;
          (i, sh, c) = first_bits k ep i sh c m
      in do {
        (j, c) \<leftarrow> odd_loop 0 c;
        let m = MPN_COPY xp (gp + L_mn L * unat (drop_bit 1 c)) (L_mn L) m;
        m \<leftarrow> powm_sqrs L j xp m;
        powm_loop L ep gp k i sh xp m
      })"


section \<open>Reading the exponent\<close>

text \<open>The number of exponent bits below the position \<open>sh\<close> of limb \<open>i\<close>.\<close>

definition bits_below :: "nat \<Rightarrow> int \<Rightarrow> nat" where
  "bits_below i sh = 32 * i + nat sh"

lemma bit_exponent_limb: "i < en \<Longrightarrow> bit (m (ep + i)) j \<longleftrightarrow> j < 32 \<and> bit (mval m ep en) (32 * i + j)"
  using bit_limb_bound [of "m (ep + i)" j] by (auto simp: bit_mval)

lemma limb_eq_bits: "(\<And>j. bit (unat (x :: limb)) j \<longleftrightarrow> bit (w :: nat) j) \<Longrightarrow> unat x = w"
  by (rule bit_eqI) simp

lemma and_low_ones: "(c :: limb) AND (push_bit l 1 - 1) = take_bit l c" "(c :: limb) AND (2 ^ l - 1) = take_bit l c"
  by (simp_all add: take_bit_eq_mask mask_eq_exp_minus_1 push_bit_eq_mult)

lemma window_low:
  assumes "i < en" "sh + l \<le> 32" and E: "mval m ep en = E"
  shows "unat (take_bit l (drop_bit sh (m (ep + i)))) = take_bit l (drop_bit (32 * i + sh) E)"
  by (rule limb_eq_bits)
    (use assms in \<open>auto simp: bit_limb bit_take_bit_iff bit_drop_bit_eq bit_exponent_limb add.assoc\<close>)

lemma window_across:
  assumes "i + 1 < en" "h < 32" "l \<le> 32" and E: "mval m ep en = E"
  shows "unat (take_bit l (push_bit h (m (ep + (i + 1))) OR drop_bit (32 - h) (m (ep + i)))) = take_bit l (drop_bit (32 * i + (32 - h)) E)"
proof (rule limb_eq_bits)
  fix j
  have "32 * i + (32 - h) + j = 32 * (i + 1) + (j - h)" if "h \<le> j" using assms(2) that by simp
  moreover have "32 - h + j < 32 \<longleftrightarrow> j < h" using assms(2) by auto
  ultimately show "bit (unat (take_bit l (push_bit h (m (ep + (i + 1))) OR drop_bit (32 - h) (m (ep + i))))) j
      \<longleftrightarrow> bit (take_bit l (drop_bit (32 * i + (32 - h)) E)) j"
    using assms unfolding bit_limb bit_take_bit_iff bit_or_iff bit_push_bit_iff bit_drop_bit_eq o_def bit_exponent_limb [OF assms(1), of m ep, unfolded E]
      bit_exponent_limb [OF add_lessD1 [OF assms(1)], of m ep, unfolded E]
    by (cases "h \<le> j") (auto simp: add.assoc)
qed

lemma next_bits_spec:
  assumes eq: "next_bits k ep i sh m = (i', sh', l, c)" and E: "mval m ep en = E" and i: "i < en" and k: "1 \<le> k" "k < 32"
    and sh: "i > 0 \<or> sh > 0" "i > 0 \<Longrightarrow> 0 \<le> sh" "sh < 32"
  shows "l = min k (bits_below i sh)" "bits_below i' sh' = bits_below i sh - l" "unat c = take_bit l (drop_bit (bits_below i' sh') E)"
    "i' \<le> i" "i' > 0 \<Longrightarrow> 0 \<le> sh'" "sh' < 32"
proof -
  consider "0 \<le> sh - int k" | "sh - int k < 0" "i > 0" | "sh - int k < 0" "i = 0" by linarith
  then have "l = min k (bits_below i sh) \<and> bits_below i' sh' = bits_below i sh - l \<and> unat c = take_bit l (drop_bit (bits_below i' sh') E)
    \<and> i' \<le> i \<and> (i' > 0 \<longrightarrow> 0 \<le> sh') \<and> sh' < 32"
  proof cases
    case 1
    then have r: "i' = i" "sh' = sh - int k" "l = k" "c = take_bit k (drop_bit (nat (sh - int k)) (m (ep + i)))"
      using eq k by (auto simp: next_bits_def Let_def and_low_ones)
    have "nat (sh - int k) + k \<le> 32" using 1 sh(3) by linarith
    from window_low [OF i this E] show ?thesis using 1 sh(3) by (simp add: r bits_below_def)
  next
    case 2
    define h where "h = nat (- (sh - int k))"
    have h: "h < 32" "nat (sh - int k + 32) = 32 - h" "int h = int k - sh" using 2 sh k by (simp_all add: h_def)+
    have hs: "nat (int k - sh) = h" by (simp add: h_def)
    obtain j where j: "i = j + 1" using 2(2) by (metis Suc_eq_plus1 gr0_implies_Suc)
    have r: "i' = j" "sh' = sh - int k + 32" "l = k" "c = take_bit k (push_bit h (m (ep + (j + 1))) OR drop_bit (32 - h) (m (ep + j)))"
      using eq k 2 h(2) hs by (auto simp: next_bits_def Let_def and_low_ones j)
    have "unat c = take_bit k (drop_bit (32 * j + (32 - h)) E)" unfolding r(4) by (rule window_across) (use i j h k E in simp_all)
    then show ?thesis using 2 sh h k by (simp add: r bits_below_def j)
  next
    case 3
    have "nat (int k + (sh - int k)) = nat sh" by simp
    then have r: "i' = 0" "sh' = sh - int k" "l = nat sh" "c = take_bit (nat sh) (m (ep + 0))"
      using eq k 3 sh by (auto simp: next_bits_def Let_def and_low_ones)
    have "0 + nat sh \<le> 32" using sh(3) by simp
    from window_low [where i = 0 and sh = 0 and l = "nat sh", OF _ _ E] show ?thesis using 3 i sh by (simp add: r bits_below_def)
  qed
  then show "l = min k (bits_below i sh)" "bits_below i' sh' = bits_below i sh - l" "unat c = take_bit l (drop_bit (bits_below i' sh') E)"
    "i' \<le> i" "i' > 0 \<Longrightarrow> 0 \<le> sh'" "sh' < 32" by blast+
qed

lemma first_bits_spec:
  assumes eq: "first_bits k ep (en - 1) (32 - int z) (m (ep + (en - 1))) m = (i', sh', c)" and E: "mval m ep en = E" and en: "1 \<le> en" and z: "z < 32"
    and k: "1 \<le> k" "k < 32" and top: "2 ^ z * unat (m (ep + (en - 1))) < LB"
  shows "bits_below i' sh' = (32 * en - z) - k" "unat c = drop_bit (bits_below i' sh') E" "i' < en" "i' > 0 \<Longrightarrow> 0 \<le> sh'" "sh' < 32"
proof -
  define i where "i = en - 1"
  define t where "t = m (ep + i)"
  have i: "i < en" "en = i + 1" using en by (simp_all add: i_def)
  have t: "unat t < 2 ^ (32 - z)"
  proof -
    have "LB = 2 ^ z * 2 ^ (32 - z)" using z by (simp add: LB_power flip: power_add)
    then have "2 ^ z * unat t < 2 ^ z * 2 ^ (32 - z)" using top unfolding t_def i_def by (simp only:)
    then show ?thesis by (simp only: mult_less_cancel1)
  qed
  have high: "j < 32 - z" if "bit t j" for j
  proof -
    have "take_bit (32 - z) (unat t) = unat t" using t by (simp add: take_bit_nat_eq_self)
    then have "bit (take_bit (32 - z) (unat t)) j" using that by (simp add: bit_limb)
    then show ?thesis by (simp add: bit_take_bit_iff)
  qed
  have bE: "bit E (32 * i + j) \<longleftrightarrow> bit t j" for j
    unfolding E [symmetric] bit_mval using i high [of j] bit_limb_bound [of "m (ep + i + j div 32)"]
    by (cases "j < 32") (auto simp: t_def add.assoc dest: bit_limb_bound)
  consider "0 \<le> 32 - int z - int k" | "32 - int z - int k < 0" "i > 0" | "32 - int z - int k < 0" "i = 0" by linarith
  then have "bits_below i' sh' = (32 * en - z) - k \<and> unat c = drop_bit (bits_below i' sh') E \<and> i' < en \<and> (i' > 0 \<longrightarrow> 0 \<le> sh') \<and> sh' < 32"
  proof cases
    case 1
    define s where "s = nat (32 - int z - int k)"
    have s: "int s = 32 - int z - int k" using 1 by (simp add: s_def)
    have r: "i' = i" "sh' = int s" "c = drop_bit s t"
      using eq 1 by (auto simp: first_bits_def Let_def i_def t_def s_def)
    have "unat c = drop_bit (32 * i + s) E"
      by (rule limb_eq_bits) (simp add: r(3) bit_limb bit_drop_bit_eq bE add.assoc)
    moreover have "s + z + k = 32" using s by linarith
    then have "32 * i + s = 32 * en - z - k" "int s < 32" using i(2) k by linarith+
    moreover have "bits_below i' sh' = 32 * i + s" by (simp add: r bits_below_def)
    ultimately show ?thesis using i by (simp only: r) simp
  next
    case 2
    define h where "h = nat (- (32 - int z - int k))"
    have h: "h < 32" "nat (32 - int z - int k + 32) = 32 - h" "int h = int k + int z - 32" using 2 z k by (simp_all add: h_def)
    obtain j where j: "i = j + 1" using 2(2) by (metis Suc_eq_plus1 gr0_implies_Suc)
    have r: "i' = j" "sh' = 32 - int z - int k + 32" "c = push_bit h t OR drop_bit (32 - h) (m (ep + j))"
      using eq 2 h(2) unfolding first_bits_def Let_def i_def [symmetric] t_def [symmetric] h_def [symmetric] by (auto simp: j)
    have "unat c = drop_bit (32 * j + (32 - h)) E"
    proof (rule limb_eq_bits)
      fix q
      show "bit (unat c) q \<longleftrightarrow> bit (drop_bit (32 * j + (32 - h)) E) q"
      proof (cases "h \<le> q")
        case True
        then obtain p where q: "q = h + p" by (metis le_Suc_ex)
        have e: "32 * j + (32 - h) + (h + p) = 32 * i + p" "\<not> 32 - h + (h + p) < 32" using h(1) j by simp_all
        have n: "\<not> bit (m (ep + j)) (32 - h + (h + p))" using bit_limb_bound [of "m (ep + j)" "32 - h + (h + p)"] e(2) by blast
        have "h + p < 32" if "bit t p" using high [OF that] h(3) k by simp
        then show ?thesis using n
          unfolding q r(3) bit_limb bit_or_iff bit_push_bit_iff bit_drop_bit_eq o_def e(1) bE by auto
      next
        case False
        then show ?thesis using h(1) i j
          by (auto simp: r(3) bit_limb bit_or_iff bit_push_bit_iff bit_drop_bit_eq bit_exponent_limb [of j en m ep, unfolded E] add.assoc)
      qed
    qed
    moreover have "bits_below i' sh' = 32 * j + (32 - h)" using h(2) by (simp add: r bits_below_def)
    moreover have "z + k = 32 + h" using h(3) by linarith
    then have "32 * j + (32 - h) = 32 * en - z - k" using i j h(1) by linarith
    moreover have "0 \<le> sh'" "sh' < 32" "i' < en" using 2 z k i j by (simp_all add: r)
    ultimately show ?thesis by metis
  next
    case 3
    have r: "i' = 0" "sh' = 32 - int z - int k" "c = t"
      using eq 3 unfolding first_bits_def Let_def i_def [symmetric] t_def [symmetric] by auto
    have "unat c = E" unfolding E [symmetric] using 3 i by (simp add: r t_def)
    then show ?thesis using 3 i by (simp add: r bits_below_def)
  qed
  then show "bits_below i' sh' = (32 * en - z) - k" "unat c = drop_bit (bits_below i' sh') E" "i' < en" "i' > 0 \<Longrightarrow> 0 \<le> sh'" "sh' < 32" by blast+
qed


section \<open>The loops\<close>

text \<open>The blocks of the computation: the base \<open>b\<close>, the exponent \<open>E\<close> in \<open>{ep,en}\<close>, the table of \<open>K\<close> odd powers at \<open>gp\<close>, the power
  itself at \<open>xp\<close>.\<close>

definition powm_setup :: "powm_locals \<Rightarrow> nat \<Rightarrow> nat \<Rightarrow> ptr \<Rightarrow> nat \<Rightarrow> ptr \<Rightarrow> nat \<Rightarrow> ptr \<Rightarrow> bool" where
  "powm_setup L M F ep en gp K xp \<longleftrightarrow> powm_ok L M F \<and> powm_slot L xp
     \<and> (\<forall>j < K. powm_slot L (gp + L_mn L * j) \<and> \<not> MPN_OVERLAP_P xp (L_mn L) (gp + L_mn L * j) (L_mn L))
     \<and> {ep..<ep + en} \<inter> ({xp..<xp + L_mn L} \<union> powm_scratch L) = {}"

definition powm_inv :: "powm_locals \<Rightarrow> nat \<Rightarrow> nat \<Rightarrow> nat \<Rightarrow> nat \<Rightarrow> ptr \<Rightarrow> nat \<Rightarrow> ptr \<Rightarrow> nat \<Rightarrow> ptr \<Rightarrow> mem \<Rightarrow> mem \<Rightarrow> nat \<Rightarrow> bool" where
  "powm_inv L M F b E ep en gp K xp m0 m x \<longleftrightarrow> mval m (L_mp L) (L_mn L) = M \<and> mval m ep en = E
     \<and> (\<forall>j < K. powm_rep L M F m (gp + L_mn L * j) (b ^ (2 * j + 1))) \<and> powm_rep L M F m xp x
     \<and> only_at ({xp..<xp + L_mn L} \<union> powm_scratch L) m0 m"

lemma powm_rep_keep:
  "powm_rep L M F m p x \<Longrightarrow> mval m' p (L_mn L) = mval m p (L_mn L) \<Longrightarrow> powm_rep L M F m' p x"
  by (simp add: powm_rep_def)

lemma powm_inv_step:
  assumes S: "powm_setup L M F ep en gp K xp" and I: "powm_inv L M F b E ep en gp K xp m0 m x"
    and at: "only_at ({xp..<xp + L_mn L} \<union> powm_scratch L) m m'" and x': "powm_rep L M F m' xp x'"
  shows "powm_inv L M F b E ep en gp K xp m0 m' x'"
proof -
  have ok: "powm_ok L M F" and sx: "powm_slot L xp" using S by (simp_all add: powm_setup_def)
  have "mval m' (L_mp L) (L_mn L) = mval m (L_mp L) (L_mn L)"
    by (rule only_at_mval [OF at]) (use powm_modulus_scratch [OF ok] powm_slot_modulus [OF sx] in blast)
  moreover have "mval m' ep en = mval m ep en" by (rule only_at_mval [OF at]) (use S in \<open>simp add: powm_setup_def\<close>)
  moreover have "mval m' (gp + L_mn L * j) (L_mn L) = mval m (gp + L_mn L * j) (L_mn L)" if "j < K" for j
  proof (rule only_at_mval [OF at])
    have "powm_slot L (gp + L_mn L * j)" "\<not> MPN_OVERLAP_P xp (L_mn L) (gp + L_mn L * j) (L_mn L)"
      using S that by (simp_all add: powm_setup_def)
    then show "{gp + L_mn L * j..<gp + L_mn L * j + L_mn L} \<inter> ({xp..<xp + L_mn L} \<union> powm_scratch L) = {}"
      using powm_slot_scratch [OF _ ok] sep_disjoint by blast
  qed
  ultimately show ?thesis using I x' only_at_trans [OF _ at] by (auto simp: powm_inv_def intro: powm_rep_keep)
qed

lemma powm_inv_sqr:
  assumes S: "powm_setup L M F ep en gp K xp" and I: "powm_inv L M F b E ep en gp K xp m0 m x"
  shows "\<exists>m'. powm_sqr L xp xp m = Some m' \<and> powm_inv L M F b E ep en gp K xp m0 m' (x * x)"
  using powm_sqr_spec [of L M F m xp xp x] powm_inv_step [OF S I] S I by (auto simp: powm_setup_def powm_inv_def)

lemma powm_inv_mul:
  assumes S: "powm_setup L M F ep en gp K xp" and I: "powm_inv L M F b E ep en gp K xp m0 m x" and j: "j < K"
  shows "\<exists>m'. powm_mul L xp xp (gp + L_mn L * j) m = Some m' \<and> powm_inv L M F b E ep en gp K xp m0 m' (x * b ^ (2 * j + 1))"
proof -
  have "powm_ok L M F" "mval m (L_mp L) (L_mn L) = M" "powm_slot L xp" "powm_slot L (gp + L_mn L * j)" "powm_rep L M F m xp x"
    "powm_rep L M F m (gp + L_mn L * j) (b ^ (2 * j + 1))" using S I j by (simp_all add: powm_setup_def powm_inv_def)
  from powm_mul_spec [OF this(1-3,3-6)] powm_inv_step [OF S I] show ?thesis by blast
qed

lemma powm_inv_sqrs:
  assumes S: "powm_setup L M F ep en gp K xp" and I: "powm_inv L M F b E ep en gp K xp m0 m x"
  shows "\<exists>m'. powm_sqrs L j xp m = Some m' \<and> powm_inv L M F b E ep en gp K xp m0 m' (x ^ 2 ^ j)"
  using I
proof (induction j arbitrary: m x)
  case (Suc j)
  obtain m1 where m1: "powm_sqr L xp xp m = Some m1" "powm_inv L M F b E ep en gp K xp m0 m1 (x * x)"
    using powm_inv_sqr [OF S Suc.prems] by blast
  have "x ^ 2 ^ Suc j = (x * x) ^ 2 ^ j" by (simp add: power_mult power2_eq_square)
  then show ?case using Suc.IH [OF m1(2)] m1(1) by simp
qed simp

lemma odd_loop_spec:
  assumes "c \<noteq> 0"
  shows "\<exists>j c'. odd_loop i c = Some (i + j, c') \<and> unat c = 2 ^ j * unat c' \<and> odd (unat c')"
  using assms
proof (induction "unat c" arbitrary: i c rule: less_induct)
  case less
  have c0: "0 < unat c" using less.prems by (simp add: unat_gt_0)
  have e: "c mod 2 = 0 \<longleftrightarrow> even (unat c)" by (simp add: limb_eq_iff unat_mod even_iff_mod_2_eq_zero)
  show ?case
  proof (cases "even (unat c)")
    case False
    then show ?thesis using e by (intro exI [of _ 0] exI [of _ c]) (simp add: odd_loop.simps)
  next
    case True
    have d: "unat (drop_bit 1 c) = unat c div 2" using unat_drop_limb [of 1 c] by simp
    have "unat (drop_bit 1 c) < unat c" "drop_bit 1 c \<noteq> 0" unfolding limb_eq_iff d using c0 True by auto
    from less.hyps [OF this, of "i + 1"] obtain j c' where "odd_loop (i + 1) (drop_bit 1 c) = Some (i + 1 + j, c')" "unat (drop_bit 1 c) = 2 ^ j * unat c'" "odd (unat c')"
      by blast
    moreover have "unat c = 2 * unat (drop_bit 1 c)" unfolding d using True by simp
    ultimately show ?thesis using e True by (intro exI [of _ "Suc j"] exI [of _ c']) (simp add: odd_loop.simps [of i c])
  qed
qed

text \<open>One window: the power is raised to \<open>2 ^ l\<close> and multiplied by the power \<open>c\<close> of the base.\<close>

lemma powm_inv_window:
  assumes S: "powm_setup L M F ep en gp K xp" and I: "powm_inv L M F b E ep en gp K xp m0 m x"
    and c: "unat c < 2 ^ l" "unat c < 2 * K"
  shows "\<exists>m'. powm_window L gp l c xp m = Some m' \<and> powm_inv L M F b E ep en gp K xp m0 m' (x ^ 2 ^ l * b ^ unat c)"
proof (cases "c = 0")
  case True
  then show ?thesis using powm_inv_sqrs [OF S I, of l] by (simp add: powm_window_def)
next
  case False
  obtain j c' where j: "odd_loop 0 c = Some (j, c')" "unat c = 2 ^ j * unat c'" "odd (unat c')"
    using odd_loop_spec [OF False, of 0] by auto
  define t where "t = unat (drop_bit 1 c')"
  have t: "unat c' = 2 * t + 1" using j(3) unat_drop_limb [of 1 c'] by (auto simp: t_def elim: oddE)
  have "(1 :: nat) * unat c' \<le> 2 ^ j * unat c'" by (rule mult_le_mono1) simp
  then have tK: "t < K" using c(2) t unfolding j(2) by linarith
  have "(2 :: nat) ^ j * 1 \<le> 2 ^ j * unat c'" by (rule mult_le_mono2) (simp add: t)
  then have "(2 :: nat) ^ j < 2 ^ l" using c(1) unfolding j(2) by linarith
  then have jl: "j \<le> l" by (simp add: less_imp_le)
  obtain m1 where m1: "powm_sqrs L (l - j) xp m = Some m1" "powm_inv L M F b E ep en gp K xp m0 m1 (x ^ 2 ^ (l - j))"
    using powm_inv_sqrs [OF S I] by blast
  obtain m2 where m2: "powm_mul L xp xp (gp + L_mn L * t) m1 = Some m2" "powm_inv L M F b E ep en gp K xp m0 m2 (x ^ 2 ^ (l - j) * b ^ (2 * t + 1))"
    using powm_inv_mul [OF S m1(2) tK] by blast
  obtain m3 where m3: "powm_sqrs L j xp m2 = Some m3" "powm_inv L M F b E ep en gp K xp m0 m3 ((x ^ 2 ^ (l - j) * b ^ (2 * t + 1)) ^ 2 ^ j)"
    using powm_inv_sqrs [OF S m2(2)] by blast
  have "(x ^ 2 ^ (l - j) * b ^ (2 * t + 1)) ^ 2 ^ j = x ^ (2 ^ (l - j) * 2 ^ j) * b ^ (2 ^ j * (2 * t + 1))"
    by (simp only: power_mult_distrib power_mult mult.commute [of "2 ^ j"])
  also have "2 ^ (l - j) * 2 ^ j = (2 :: nat) ^ l" using jl by (simp flip: power_add)
  finally have "(x ^ 2 ^ (l - j) * b ^ (2 * t + 1)) ^ 2 ^ j = x ^ 2 ^ l * b ^ unat c" unfolding j(2) t .
  then show ?thesis using m3 m1(1) m2(1) j(1) False by (simp add: powm_window_def t_def)
qed


text \<open>The window slides over a zero bit.\<close>

lemma slide_bits:
  fixes E P :: nat
  assumes P: "1 \<le> P" and l: "1 \<le> l" and c: "take_bit l (drop_bit P E) < 2 ^ (l - 1)"
  shows "drop_bit (P - 1 + l) E = 2 * drop_bit (P + l) E"
    and "take_bit l (drop_bit (P - 1) E) = 2 * take_bit l (drop_bit P E) + drop_bit (P - 1) E mod 2"
proof -
  define A where "A = drop_bit (P - 1) E"
  obtain p where p: "P = Suc p" using P by (cases P) auto
  obtain i where i: "l = Suc i" using l by (cases l) auto
  have dP: "drop_bit P E = A div 2" 
    by (simp only: A_def p drop_bit_eq_div div_mult2_eq [symmetric] power_Suc2 diff_Suc_1)
  have e1: "drop_bit (P + l) E = A div 2 div 2 ^ l" unfolding dP [symmetric] by (simp add: drop_bit_eq_div power_add div_mult2_eq)
  have e2: "drop_bit (P - 1 + l) E = A div 2 div 2 ^ i" 
    by (simp only: A_def p i diff_Suc_1 drop_bit_eq_div power_add power_Suc div_mult2_eq)
  have t: "take_bit l (A div 2) = A div 2 mod 2 ^ i"
  proof -
    have "A div 2 mod 2 ^ Suc i < 2 ^ i" using c unfolding dP by (simp add: i take_bit_eq_mod)
    then have "A div 2 mod 2 ^ Suc i mod 2 ^ i = A div 2 mod 2 ^ Suc i" by (rule mod_less)
    then show ?thesis by (simp add: i take_bit_eq_mod mod_mod_cancel)
  qed
  have "A div 2 div 2 ^ i = 2 * (A div 2 div 2 ^ l)"
  proof -
    have "A div 2 mod 2 ^ Suc i = A div 2 mod 2 ^ i" using t by (simp add: i take_bit_eq_mod)
    moreover have "A div 2 mod 2 ^ Suc i = A div 2 mod 2 ^ i + 2 ^ i * (A div 2 div 2 ^ i mod 2)"
      using mod_mult2_eq [of "A div 2" "2 ^ i" 2] by (simp add: mult.commute)
    ultimately have "A div 2 div 2 ^ i mod 2 = 0" by simp
    then show ?thesis by (simp add: i div_mult2_eq mult.commute [of 2] dvd_mult_div_cancel mod_0_imp_dvd)
  qed
  then show "drop_bit (P - 1 + l) E = 2 * drop_bit (P + l) E" unfolding e1 e2 .
  have "take_bit l A = 2 * (A div 2 mod 2 ^ i) + A mod 2" unfolding i take_bit_Suc by (simp add: take_bit_eq_mod)
  then show "take_bit l (drop_bit (P - 1) E) = 2 * take_bit l (drop_bit P E) + drop_bit (P - 1) E mod 2"
    unfolding A_def [symmetric] dP t .
qed

lemma exponent_bit:
  assumes "i < en" "s < 32" "mval m ep en = E"
  shows "unat (drop_bit s (m (ep + i)) AND 1) = drop_bit (32 * i + s) E mod 2"
proof -
  have "unat (take_bit 1 (drop_bit s (m (ep + i)))) = take_bit 1 (drop_bit (32 * i + s) E)"
    by (rule window_low) (use assms in simp_all)
  then show ?thesis by (simp add: take_bit_eq_mod and_one_eq)
qed

lemma powm_inv_slide:
  assumes S: "powm_setup L M F ep en gp K xp" and l: "1 \<le> l" "l < 32"
    and I: "powm_inv L M F b E ep en gp K xp m0 m (b ^ drop_bit (bits_below i sh + l) E)" and c: "unat c = take_bit l (drop_bit (bits_below i sh) E)"
    and i: "i < en" "i > 0 \<Longrightarrow> 0 \<le> sh" "sh < 32"
  shows "\<exists>i' sh' c' m'. powm_slide L ep l i sh c xp m = Some (i', sh', c', m')
    \<and> powm_inv L M F b E ep en gp K xp m0 m' (b ^ drop_bit (bits_below i' sh' + l) E) \<and> unat c' = take_bit l (drop_bit (bits_below i' sh') E)
    \<and> bits_below i' sh' \<le> bits_below i sh \<and> i' \<le> i \<and> (i' > 0 \<longrightarrow> 0 \<le> sh') \<and> sh' < 32
    \<and> (drop_bit (l - 1) c' \<noteq> 0 \<or> bits_below i' sh' = 0)"
  using I c i
proof (induction "bits_below i sh" arbitrary: i sh c m)
  case 0
  then have "i = 0" "\<not> 0 < sh" by (simp_all add: bits_below_def)
  then show ?case using 0 by (intro exI [of _ i] exI [of _ sh] exI [of _ c] exI [of _ m]) (simp add: powm_slide.simps)
next
  case (Suc P)
  have more: "i > 0 \<or> sh > 0" using Suc.hyps(2) by (auto simp: bits_below_def)
  show ?case
  proof (cases "drop_bit (l - 1) c = 0")
    case False
    then show ?thesis using Suc.prems more
      by (intro exI [of _ i] exI [of _ sh] exI [of _ c] exI [of _ m]) (simp add: powm_slide.simps)
  next
    case True
    have B: "bits_below i sh = Suc P" by (rule Suc.hyps(2) [symmetric])
    have "unat c div 2 ^ (l - 1) = 0" using True unat_drop_limb [of "l - 1" c] by simp
    then have cl: "unat c < 2 ^ (l - 1)" by (simp add: div_eq_0_iff)
    have W: "drop_bit (P + l) E = 2 * drop_bit (bits_below i sh + l) E" "take_bit l (drop_bit P E) = 2 * unat c + drop_bit P E mod 2"
      using slide_bits [where P = "bits_below i sh" and l = l and E = E] cl l(1) unfolding Suc.prems(2) B by simp_all
    obtain m1 where m1: "powm_sqr L xp xp m = Some m1"
      "powm_inv L M F b E ep en gp K xp m0 m1 (b ^ drop_bit (bits_below i sh + l) E * b ^ drop_bit (bits_below i sh + l) E)"
      using powm_inv_sqr [OF S Suc.prems(1)] by blast
    have I1: "powm_inv L M F b E ep en gp K xp m0 m1 (b ^ drop_bit (P + l) E)" using m1(2) unfolding W(1) mult_2 power_add .
    have E1: "mval m1 ep en = E" using I1 by (simp add: powm_inv_def)
    define bt i1 sh1 where "bt = (if sh \<noteq> 0 then drop_bit (nat (sh - 1)) (m1 (ep + i)) AND 1 else drop_bit 31 (m1 (ep + (i - 1))) AND 1)"
      and "i1 = (if sh \<noteq> 0 then i else i - 1)" and "sh1 = (if sh \<noteq> 0 then sh - 1 else 31)"
    have top: "drop_bit 31 x AND 1 = drop_bit 31 x" for x :: limb
    proof -
      have "unat (drop_bit 31 x) < 2" unfolding unat_drop_limb using unat_lt_LB [of x] by (simp add: LB_def)
      then show ?thesis by (auto simp: limb_eq_iff and_one_eq unat_mod)
    qed
    have sh: "sh \<noteq> 0 \<Longrightarrow> 1 \<le> sh" using more Suc.prems(4) by linarith
    have below1: "bits_below i1 sh1 = P"
      using B sh more by (cases "sh = 0"; cases i) (auto simp: bits_below_def i1_def sh1_def nat_diff_distrib)
    have bt: "unat bt = drop_bit P E mod 2"
    proof (cases "sh = 0")
      case True
      then have "32 * (i - 1) + 31 = P" using B more by (cases i) (auto simp: bits_below_def)
      then show ?thesis using exponent_bit [where i = "i - 1" and s = 31, OF _ _ E1] True Suc.prems(3) by (simp add: bt_def)
    next
      case False
      then have "32 * i + nat (sh - 1) = P" using B sh by (simp add: bits_below_def nat_diff_distrib)
      then show ?thesis using exponent_bit [where i = i and s = "nat (sh - 1)", OF _ _ E1] False sh Suc.prems(3,5) by (simp add: bt_def)
    qed
    define c1 where "c1 = push_bit 1 c + bt"
    have c1: "unat c1 = take_bit l (drop_bit P E)"
    proof -
      obtain j where j: "l = Suc j" using l(1) by (cases l) auto
      have "2 * unat c + 2 \<le> 2 * 2 ^ j" using cl by (simp add: j)
      also have "\<dots> \<le> 2 ^ 31" using l(2) power_increasing [of "Suc j" 31 "2 :: nat"] by (simp add: j)
      finally have s: "2 * unat c + 2 \<le> 2 ^ 31" .
      have "unat (push_bit 1 c) = 2 * unat c" using unat_push_small [of 1 c] s by (simp add: LB_def)
      moreover have "unat bt < 2" unfolding bt by simp
      ultimately have "unat c1 = 2 * unat c + unat bt" unfolding c1_def unat_plus_limb using s by (simp add: LB_def)
      then show ?thesis unfolding W(2) bt .
    qed
    have run: "powm_slide L ep l i sh c xp m = powm_slide L ep l i1 sh1 c1 xp m1"
      using True more m1(1) by (subst powm_slide.simps) (simp add: i1_def sh1_def c1_def bt_def top)
    have i1: "i1 < en" "i1 > 0 \<Longrightarrow> 0 \<le> sh1" "sh1 < 32" "i1 \<le> i" using Suc.prems(3-5) sh by (auto simp: i1_def sh1_def)
    from Suc.hyps(1) [OF below1 [symmetric] _ _ i1(1-3), of m1 c1] obtain i' sh' c' m' where
      "powm_slide L ep l i1 sh1 c1 xp m1 = Some (i', sh', c', m')"
      "powm_inv L M F b E ep en gp K xp m0 m' (b ^ drop_bit (bits_below i' sh' + l) E)" "unat c' = take_bit l (drop_bit (bits_below i' sh') E)"
      "bits_below i' sh' \<le> bits_below i1 sh1" "i' \<le> i1" "i' > 0 \<longrightarrow> 0 \<le> sh'" "sh' < 32" "drop_bit (l - 1) c' \<noteq> 0 \<or> bits_below i' sh' = 0"
      using I1 c1 below1 by auto
    then show ?thesis unfolding run below1 B using i1(4) by (intro exI [of _ i'] exI [of _ sh'] exI [of _ c'] exI [of _ m']) simp
  qed
qed


lemma take_drop_bits: "drop_bit (P + l) E * 2 ^ l + take_bit l (drop_bit P E) = drop_bit P (E :: nat)"
proof -
  have "drop_bit (P + l) E = drop_bit P E div 2 ^ l" by (simp add: drop_bit_eq_div power_add div_mult2_eq)
  then show ?thesis by (simp only: take_bit_eq_mod div_mult_mod_eq)
qed

lemma powm_inv_loop:
  assumes S: "powm_setup L M F ep en gp (2 ^ (k - 1)) xp" and k: "1 \<le> k" "k < 32"
    and I: "powm_inv L M F b E ep en gp (2 ^ (k - 1)) xp m0 m (b ^ drop_bit (bits_below i sh) E)" and i: "i < en" "i > 0 \<Longrightarrow> 0 \<le> sh" "sh < 32"
  shows "\<exists>m'. powm_loop L ep gp k i sh xp m = Some m' \<and> powm_inv L M F b E ep en gp (2 ^ (k - 1)) xp m0 m' (b ^ E)"
  using I i
proof (induction "bits_below i sh" arbitrary: i sh m rule: less_induct)
  case less
  show ?case
  proof (cases "i > 0 \<or> sh > 0")
    case False
    then show ?thesis using less.prems(1) by (simp add: powm_loop.simps bits_below_def)
  next
    case True
    have E: "mval m ep en = E" using less.prems(1) by (simp add: powm_inv_def)
    obtain i1 sh1 l c where eq: "next_bits k ep i sh m = (i1, sh1, l, c)" by (metis prod_cases4)
    note N = next_bits_spec [OF eq E less.prems(2) k True less.prems(3,4)]
    have P: "1 \<le> bits_below i sh" using True by (auto simp: bits_below_def)
    then have l: "1 \<le> l" "l \<le> k" "l \<le> bits_below i sh" using N(1) k by simp_all
    have "bits_below i1 sh1 + l = bits_below i sh" using N(2) l by simp
    then have I1: "powm_inv L M F b E ep en gp (2 ^ (k - 1)) xp m0 m (b ^ drop_bit (bits_below i1 sh1 + l) E)" using less.prems(1) by simp
    have l32: "l < 32" and i1: "i1 < en" using l k N(4) less.prems(2) by simp_all
    obtain i2 sh2 c2 m2 where R: "powm_slide L ep l i1 sh1 c xp m = Some (i2, sh2, c2, m2)"
      "powm_inv L M F b E ep en gp (2 ^ (k - 1)) xp m0 m2 (b ^ drop_bit (bits_below i2 sh2 + l) E)" "unat c2 = take_bit l (drop_bit (bits_below i2 sh2) E)"
      "bits_below i2 sh2 \<le> bits_below i1 sh1" "i2 \<le> i1" "i2 > 0 \<longrightarrow> 0 \<le> sh2" "sh2 < 32"
      using powm_inv_slide [OF S l(1) l32 I1 N(3) i1 N(5,6)] by blast
    have c2: "unat c2 < 2 ^ l" unfolding R(3) by simp
    moreover have "(2 :: nat) ^ l \<le> 2 ^ k" using l(2) by simp
    moreover have "(2 :: nat) ^ k = 2 * 2 ^ (k - 1)" using k(1) by (cases k) simp_all
    ultimately have c2': "unat c2 < 2 * 2 ^ (k - 1)" by linarith
    obtain m3 where m3: "powm_window L gp l c2 xp m2 = Some m3"
      "powm_inv L M F b E ep en gp (2 ^ (k - 1)) xp m0 m3 ((b ^ drop_bit (bits_below i2 sh2 + l) E) ^ 2 ^ l * b ^ unat c2)"
      using powm_inv_window [OF S R(2) c2 c2'] by blast
    have "(b ^ drop_bit (bits_below i2 sh2 + l) E) ^ 2 ^ l * b ^ unat c2 = b ^ drop_bit (bits_below i2 sh2) E"
      unfolding R(3) power_mult [symmetric] power_add [symmetric] take_drop_bits ..
    then have I3: "powm_inv L M F b E ep en gp (2 ^ (k - 1)) xp m0 m3 (b ^ drop_bit (bits_below i2 sh2) E)" using m3(2) by simp
    have lt: "bits_below i2 sh2 < bits_below i sh" using R(4) N(2) l P by linarith
    have i2: "i2 < en" using R(5) i1 by simp
    obtain m4 where "powm_loop L ep gp k i2 sh2 xp m3 = Some m4" "powm_inv L M F b E ep en gp (2 ^ (k - 1)) xp m0 m4 (b ^ E)"
      using less.hyps [OF lt I3 i2] R(6,7) by blast
    then show ?thesis using True eq R(1) m3(1) by (subst powm_loop.simps) simp
  qed
qed

text \<open>The number of bits of the exponent.\<close>

lemma exponent_size:
  assumes en: "1 \<le> en" and E: "mval m ep en = E" and z: "z < 32" and top: "2 ^ z * unat (m (ep + (en - 1))) < LB" "LB \<le> 2 * (2 ^ z * unat (m (ep + (en - 1))))"
  shows "E < 2 ^ (32 * en - z)" "2 ^ (32 * en - z) \<le> 2 * E"
proof -
  obtain n where n: "en = Suc n" using en by (cases en) auto
  define t where "t = unat (m (ep + n))"
  have v: "E = mval m ep n + LB ^ n * t" unfolding E [symmetric] n mval_high t_def by simp
  have LBz: "LB = 2 ^ z * 2 ^ (32 - z)" using z by (simp add: LB_power flip: power_add)
  have ex: "(2 :: nat) ^ (32 * en - z) = LB ^ n * 2 ^ (32 - z)"
  proof -
    have "32 * en - z = 32 * n + (32 - z)" using z by (simp add: n)
    then show ?thesis by (simp only: LB_power power_mult power_add)
  qed
  have "2 ^ z * t < 2 ^ z * 2 ^ (32 - z)" using top(1) n unfolding LBz [symmetric] by (simp add: t_def)
  then have "t + 1 \<le> 2 ^ (32 - z)" by simp
  then have "LB ^ n * (t + 1) \<le> LB ^ n * 2 ^ (32 - z)" by (rule mult_le_mono2)
  then show "E < 2 ^ (32 * en - z)" using mval_less [of m ep n] unfolding v ex by (simp add: algebra_simps)
  have "2 ^ z * 2 ^ (32 - z) \<le> 2 ^ z * (2 * t)" using top(2) n unfolding LBz [symmetric] by (simp add: t_def algebra_simps)
  then have "2 ^ (32 - z) \<le> 2 * t" by simp
  then have "LB ^ n * 2 ^ (32 - z) \<le> LB ^ n * (2 * t)" by (rule mult_le_mono2)
  also have "LB ^ n * (2 * t) = 2 * (LB ^ n * t)" by simp
  also have "\<dots> \<le> 2 * (mval m ep n + LB ^ n * t)" by simp
  finally show "2 ^ (32 * en - z) \<le> 2 * E" unfolding v ex .
qed

lemma first_window:
  assumes "E < 2 ^ n" "2 ^ n \<le> 2 * (E :: nat)" "1 \<le> k" "1 \<le> n"
  shows "0 < drop_bit (n - k) E" "drop_bit (n - k) E < 2 ^ k"
proof -
  obtain j where j: "n = Suc j" using assms(4) by (cases n) auto
  have "2 ^ (n - k) \<le> (2 :: nat) ^ j" using assms(3) by (intro power_increasing) (simp_all add: j)
  also have "\<dots> \<le> E" using assms(2) by (simp add: j)
  finally show "0 < drop_bit (n - k) E" by (simp add: drop_bit_eq_div div_greater_zero_iff)
  have "(2 :: nat) ^ n \<le> 2 ^ (k + (n - k))" by (intro power_increasing) simp_all
  then have "E < 2 ^ k * 2 ^ (n - k)" using assms(1) unfolding power_add by linarith
  then show "drop_bit (n - k) E < 2 ^ k" by (simp add: drop_bit_eq_div less_mult_imp_div_less)
qed

theorem powm_exp_spec:
  assumes S: "powm_setup L M F ep en gp (2 ^ (k - 1)) xp" and k: "1 \<le> k" "k < 32"
    and M: "mval m (L_mp L) (L_mn L) = M" and E: "mval m ep en = E" and T: "\<And>j. j < 2 ^ (k - 1) \<Longrightarrow> powm_rep L M F m (gp + L_mn L * j) (b ^ (2 * j + 1))"
    and en: "1 \<le> en" "m (ep + (en - 1)) \<noteq> 0" and z: "z = unat (count_leading_zeros (m (ep + (en - 1))))"
  shows "\<exists>m'. powm_exp L ep en z gp k xp m = Some m' \<and> powm_inv L M F b E ep en gp (2 ^ (k - 1)) xp m m' (b ^ E)"
proof -
  note Z = count_leading_zeros_correct [OF en(2), folded z]
  obtain i sh c where eq: "first_bits k ep (en - 1) (32 - int z) (m (ep + (en - 1))) m = (i, sh, c)" by (metis prod_cases3)
  note B = first_bits_spec [OF eq E en(1) Z(1) k Z(3)]
  note X = exponent_size [OF en(1) E Z(1,3,2)]
  have n1: "1 \<le> 32 * en - z" using en(1) Z(1) by linarith
  note W = first_window [OF X k(1) n1]
  have c: "c \<noteq> 0" using W(1) B(1,2) by auto
  obtain j c' where j: "odd_loop 0 c = Some (j, c')" "unat c = 2 ^ j * unat c'" "odd (unat c')"
    using odd_loop_spec [OF c, of 0] by auto
  define t where "t = unat (drop_bit 1 c')"
  have t: "unat c' = 2 * t + 1" using j(3) unat_drop_limb [of 1 c'] by (auto simp: t_def elim: oddE)
  have "(1 :: nat) * unat c' \<le> 2 ^ j * unat c'" by (rule mult_le_mono1) simp
  moreover have "unat c < 2 ^ k" using W(2) B(1,2) by simp
  moreover have "(2 :: nat) ^ k = 2 * 2 ^ (k - 1)" using k(1) by (cases k) simp_all
  ultimately have tK: "t < 2 ^ (k - 1)" using t unfolding j(2) by linarith
  define m1 where "m1 = MPN_COPY xp (gp + L_mn L * t) (L_mn L) m"
  have "\<not> MPN_OVERLAP_P xp (L_mn L) (gp + L_mn L * t) (L_mn L)" using S tK by (simp add: powm_setup_def)
  then have m1: "m1 = mcopy xp (gp + L_mn L * t) (L_mn L) m" unfolding m1_def by (intro MPN_COPY_spec) (simp add: overlap_defs)
  have at1: "only_at ({xp..<xp + L_mn L} \<union> powm_scratch L) m m1" unfolding m1 by (rule only_in_at [OF only_in_mcopy]) simp
  have r1: "powm_rep L M F m1 xp (b ^ (2 * t + 1))" using T [OF tK] by (simp add: powm_rep_def m1)
  have I1: "powm_inv L M F b E ep en gp (2 ^ (k - 1)) xp m m1 (b ^ (2 * t + 1))"
  proof -
    have ok: "powm_ok L M F" and sx: "powm_slot L xp" using S by (simp_all add: powm_setup_def)
    have o: "only_in xp (L_mn L) m m1" unfolding m1 by simp
    have k1: "mval m1 q r = mval m q r" if "{q..<q + r} \<inter> {xp..<xp + L_mn L} = {}" for q r
      by (rule only_at_mval [OF only_in_at [OF o order_refl] that])
    have "mval m1 (L_mp L) (L_mn L) = M" unfolding M [symmetric] by (rule k1 [OF powm_slot_modulus [OF sx]])
    moreover have "mval m1 ep en = E" unfolding E [symmetric] by (rule k1) (use S in \<open>unfold powm_setup_def, blast\<close>)
    moreover have "powm_rep L M F m1 (gp + L_mn L * j) (b ^ (2 * j + 1))" if "j < 2 ^ (k - 1)" for j
    proof (rule powm_rep_keep [OF T [OF that] k1])
      have "\<not> MPN_OVERLAP_P xp (L_mn L) (gp + L_mn L * j) (L_mn L)" using S that by (simp add: powm_setup_def)
      then show "{gp + L_mn L * j..<gp + L_mn L * j + L_mn L} \<inter> {xp..<xp + L_mn L} = {}" using sep_disjoint by blast
    qed
    ultimately show ?thesis using r1 at1 by (simp add: powm_inv_def)
  qed
  obtain m2 where m2: "powm_sqrs L j xp m1 = Some m2" "powm_inv L M F b E ep en gp (2 ^ (k - 1)) xp m m2 ((b ^ (2 * t + 1)) ^ 2 ^ j)"
    using powm_inv_sqrs [OF S I1] by blast
  have "(b ^ (2 * t + 1)) ^ 2 ^ j = b ^ drop_bit (bits_below i sh) E"
    unfolding B(2) [symmetric] j(2) t power_mult [symmetric] by (simp only: mult.commute)
  then have I2: "powm_inv L M F b E ep en gp (2 ^ (k - 1)) xp m m2 (b ^ drop_bit (bits_below i sh) E)" using m2(2) by simp
  obtain m3 where "powm_loop L ep gp k i sh xp m2 = Some m3" "powm_inv L M F b E ep en gp (2 ^ (k - 1)) xp m m3 (b ^ E)"
    using powm_inv_loop [OF S k I2 B(3-5)] by blast
  then show ?thesis using eq j(1) m2(1) by (simp add: powm_exp_def Let_def t_def m1_def)
qed


text \<open>The width of the windows fits a limb.\<close>

lemma window_bits_bound:
  assumes "enb < 2 ^ 32" "k \<le> 26"
  shows "k \<le> window_bits enb k" "window_bits enb k \<le> 26"
proof -
  have "k \<le> window_bits enb k \<and> window_bits enb k \<le> 26"
    using assms
  proof (induction enb k rule: window_bits.induct)
    case (1 enb k)
    show ?case
    proof (cases "2 * enb > 2 ^ k * (2 + k * (3 + k))")
      case True
      then have "k \<noteq> 26" using "1.prems"(1) by auto
      then have "k + 1 \<le> 26" using "1.prems"(2) by simp
      from "1.IH" [OF True "1.prems"(1) this] show ?thesis using True by (simp add: window_bits.simps [of enb k])
    next
      case False
      then show ?thesis using "1.prems"(2) by (simp add: window_bits.simps [of enb k])
    qed
  qed
  then show "k \<le> window_bits enb k" "window_bits enb k \<le> 26" by blast+
qed

text \<open>The table of odd powers: \<open>xp\<close> holds the square of the base.\<close>

lemma powm_table_spec:
  assumes S: "powm_setup L M F ep en gp K xp" and M: "mval m (L_mp L) (L_mn L) = M" and x: "powm_rep L M F m xp (b * b)"
    and T: "\<And>i. i \<le> j \<Longrightarrow> powm_rep L M F m (gp + L_mn L * i) (b ^ (2 * i + 1))" and r: "j + r < K"
  shows "\<exists>m'. powm_table L r (gp + L_mn L * j) xp m = Some m' \<and> (\<forall>i \<le> j + r. powm_rep L M F m' (gp + L_mn L * i) (b ^ (2 * i + 1)))
    \<and> only_at ({gp..<gp + L_mn L * K} \<union> powm_scratch L) m m'"
  using M x T r
proof (induction r arbitrary: j m)
  case 0
  then show ?case by auto
next
  case (Suc r)
  have ok: "powm_ok L M F" and sx: "powm_slot L xp" and sl: "\<And>i. i < K \<Longrightarrow> powm_slot L (gp + L_mn L * i)"
    and sep: "\<And>i. i < K \<Longrightarrow> \<not> MPN_OVERLAP_P xp (L_mn L) (gp + L_mn L * i) (L_mn L)" using S by (simp_all add: powm_setup_def)
  define np where "np = gp + L_mn L * (j + 1)"
  have e: "gp + L_mn L * j + L_mn L = np" by (simp add: np_def)
  have jK: "j < K" "j + 1 < K" using Suc.prems(4) by simp_all
  obtain m1 where m1: "powm_mul L np (gp + L_mn L * j) xp m = Some m1" "powm_rep L M F m1 np (b ^ (2 * j + 1) * (b * b))"
    "only_at ({np..<np + L_mn L} \<union> powm_scratch L) m m1"
    using powm_mul_spec [OF ok Suc.prems(1) _ sl [OF jK(1)] sx Suc.prems(3) [OF order_refl] Suc.prems(2), of np] sl [OF jK(2)] by (auto simp: np_def)
  have keep: "mval m1 q (L_mn L) = mval m q (L_mn L)" if "powm_slot L q" "{q..<q + L_mn L} \<inter> {np..<np + L_mn L} = {}" for q
    by (rule only_at_mval [OF m1(3)]) (use powm_slot_scratch [OF that(1) ok] that(2) in blast)
  have M1: "mval m1 (L_mp L) (L_mn L) = M" unfolding Suc.prems(1) [symmetric]
    by (rule only_at_mval [OF m1(3)]) (use powm_modulus_scratch [OF ok] powm_slot_modulus [OF sl [OF jK(2)]] in \<open>unfold np_def, blast\<close>)
  have "{xp..<xp + L_mn L} \<inter> {np..<np + L_mn L} = {}" unfolding np_def by (rule sep_disjoint [OF sep [OF jK(2)]])
  then have x1: "powm_rep L M F m1 xp (b * b)" by (rule powm_rep_keep [OF Suc.prems(2) keep [OF sx]])
  have T1: "powm_rep L M F m1 (gp + L_mn L * i) (b ^ (2 * i + 1))" if "i \<le> j + 1" for i
  proof (cases "i = j + 1")
    case True
    have "b ^ (2 * j + 1) * (b * b) = b ^ (2 * (j + 1) + 1)" by (simp add: ac_simps)
    then show ?thesis using m1(2) True by (simp only: np_def)
  next
    case False
    then have i: "i \<le> j" using that by simp
    then have "L_mn L * i + L_mn L \<le> L_mn L * (j + 1)" using mult_le_mono2 [of "i + 1" "j + 1" "L_mn L"] by simp
    then have "{gp + L_mn L * i..<gp + L_mn L * i + L_mn L} \<inter> {np..<np + L_mn L} = {}" unfolding np_def by (intro ivl_disjoint) simp
    from powm_rep_keep [OF Suc.prems(3) [OF i] keep [OF sl this]] show ?thesis using i jK by simp
  qed
  have "j + 1 + r < K" using Suc.prems(4) by simp
  from Suc.IH [OF M1 x1 T1 this] obtain m2 where m2: "powm_table L r np xp m1 = Some m2"
    "\<forall>i \<le> j + 1 + r. powm_rep L M F m2 (gp + L_mn L * i) (b ^ (2 * i + 1))" "only_at ({gp..<gp + L_mn L * K} \<union> powm_scratch L) m1 m2"
    unfolding np_def [symmetric] by blast
  have "L_mn L * (j + 2) \<le> L_mn L * K" using jK by (intro mult_le_mono2) simp
  then have "only_at ({gp..<gp + L_mn L * K} \<union> powm_scratch L) m m1"
    by (intro only_at_mono [OF m1(3)]) (auto simp: np_def)
  from only_at_trans [OF this m2(3)] m1(1) m2(1,2) show ?case by (simp add: e)
qed

end
