(* ===== verification/Mpz_Base.thy ===== *)
theory Mpz_Base
  imports Mpn_Basic
begin

text \<open>
  The integer variables of \<open>mpz\<close>: their representation (\<open>mpz_t\<close> of \<open>gmp.h\<close>), the store they live in,
  the allocation discipline (\<open>mpz/init.c\<close>, \<open>init2.c\<close>, \<open>clear.c\<close>, \<open>realloc.c\<close>, \<open>realloc2.c\<close>) and the
  invariant every operation keeps.

  A variable is named by a number (its address in C).  Its record has the allocated size, the signed
  size, whose sign is the sign of the value, and the pointer to its limbs.  The state is the limb
  memory, the variables, the set of variables that are initialised, and \<open>brk\<close>, the first address the
  allocator has not handed out: memory is taken from \<open>brk\<close> on and never reused, so a block moves
  whenever it is reallocated and a pointer kept across a reallocation is stale.
\<close>

section \<open>Variables and the store\<close>

record mpz =
  mp_alloc :: nat
  mp_size :: int
  mp_d :: ptr

type_synonym var = nat

record state =
  heap :: mem
  vars :: "var \<Rightarrow> mpz"
  live :: "var set"
  brk :: ptr

definition SIZ :: "state \<Rightarrow> var \<Rightarrow> int" where
  "SIZ st x = mp_size (vars st x)"

definition ABSIZ :: "state \<Rightarrow> var \<Rightarrow> nat" where
  "ABSIZ st x = nat \<bar>mp_size (vars st x)\<bar>"

definition PTR :: "state \<Rightarrow> var \<Rightarrow> ptr" where
  "PTR st x = mp_d (vars st x)"

definition ALLOC :: "state \<Rightarrow> var \<Rightarrow> nat" where
  "ALLOC st x = mp_alloc (vars st x)"

definition set_SIZ :: "var \<Rightarrow> int \<Rightarrow> state \<Rightarrow> state" where
  "set_SIZ x s st = st\<lparr>vars := (vars st)(x := (vars st x)\<lparr>mp_size := s\<rparr>)\<rparr>"

definition set_heap :: "mem \<Rightarrow> state \<Rightarrow> state" where
  "set_heap m st = st\<lparr>heap := m\<rparr>"

text \<open>The number a variable holds.\<close>

definition zval :: "state \<Rightarrow> var \<Rightarrow> int" where
  "zval st x = sgn (SIZ st x) * int (mval (heap st) (PTR st x) (ABSIZ st x))"

subsection \<open>The invariant\<close>

definition mpz_ok :: "state \<Rightarrow> var \<Rightarrow> bool" where
  "mpz_ok st x \<longleftrightarrow> 1 \<le> ALLOC st x \<and> ABSIZ st x \<le> ALLOC st x
    \<and> (SIZ st x \<noteq> 0 \<longrightarrow> heap st (PTR st x + ABSIZ st x - 1) \<noteq> 0)
    \<and> PTR st x + ALLOC st x \<le> brk st"

definition store_ok :: "state \<Rightarrow> bool" where
  "store_ok st \<longleftrightarrow> (\<forall>x \<in> live st. mpz_ok st x)
    \<and> (\<forall>x \<in> live st. \<forall>y \<in> live st. x \<noteq> y \<longrightarrow> \<not> MPN_OVERLAP_P (PTR st x) (ALLOC st x) (PTR st y) (ALLOC st y))"

subsection \<open>Allocation\<close>

text \<open>The bit counts of \<open>mpz_init2\<close> and \<open>mpz_realloc2\<close> are kept at their width: the rounding up to limbs is an
  addition on \<open>unsigned long\<close>, which wraps around for the last 31 of them.

  \<open>__GMP_ALLOCATE_FUNC_LIMBS\<close> and \<open>__GMP_REALLOCATE_FUNC_LIMBS\<close>: the contents of fresh memory are
  whatever the heap holds there.\<close>

definition ALLOCATE_FUNC_LIMBS :: "nat \<Rightarrow> state \<Rightarrow> ptr \<times> state" where
  "ALLOCATE_FUNC_LIMBS n st = (brk st, st\<lparr>brk := brk st + n\<rparr>)"

definition REALLOCATE_FUNC_LIMBS :: "ptr \<Rightarrow> nat \<Rightarrow> nat \<Rightarrow> state \<Rightarrow> ptr \<times> state" where
  "REALLOCATE_FUNC_LIMBS p old_size new_size st =
     (brk st, st\<lparr>heap := mcopy (brk st) p (min old_size new_size) (heap st), brk := brk st + new_size\<rparr>)"

definition mpz_init :: "var \<Rightarrow> state \<Rightarrow> state" where
  "mpz_init x st =
     (let (p, st) = ALLOCATE_FUNC_LIMBS 1 st
      in st\<lparr>vars := (vars st)(x := \<lparr>mp_alloc = 1, mp_size = 0, mp_d = p\<rparr>), live := insert x (live st)\<rparr>)"

definition mpz_init2 :: "var \<Rightarrow> limb \<Rightarrow> state \<Rightarrow> state" where
  "mpz_init2 x bits st =
     (let limbs = unat (bits + 32 - 1) div 32;
          limbs = max limbs 1;
          (p, st) = ALLOCATE_FUNC_LIMBS limbs st
      in st\<lparr>vars := (vars st)(x := \<lparr>mp_alloc = limbs, mp_size = 0, mp_d = p\<rparr>), live := insert x (live st)\<rparr>)"

definition mpz_clear :: "var \<Rightarrow> state \<Rightarrow> state" where
  "mpz_clear x st = st\<lparr>live := live st - {x}\<rparr>"

definition mpz_realloc :: "var \<Rightarrow> nat \<Rightarrow> state \<Rightarrow> state" where
  "mpz_realloc x new_alloc st =
     (let new_alloc = max new_alloc 1;
          (mp, st) = REALLOCATE_FUNC_LIMBS (PTR st x) (ALLOC st x) new_alloc st;
          st = st\<lparr>vars := (vars st)(x := (vars st x)\<lparr>mp_d := mp, mp_alloc := new_alloc\<rparr>)\<rparr>
      in if ABSIZ st x > new_alloc then set_SIZ x 0 st else st)"

definition mpz_realloc2 :: "var \<Rightarrow> limb \<Rightarrow> state \<Rightarrow> state" where
  "mpz_realloc2 x bits st =
     (let new_alloc = unat (bits + 32 - 1) div 32;
          new_alloc = max new_alloc 1;
          (mp, st) = REALLOCATE_FUNC_LIMBS (PTR st x) (ALLOC st x) new_alloc st;
          st = st\<lparr>vars := (vars st)(x := (vars st x)\<lparr>mp_d := mp, mp_alloc := new_alloc\<rparr>)\<rparr>
      in if ABSIZ st x > new_alloc then set_SIZ x 0 st else st)"

text \<open>\<open>MPZ_REALLOC\<close>, and the same test written out in many functions: make room for \<open>n\<close> limbs.\<close>

definition MPZ_REALLOC :: "var \<Rightarrow> nat \<Rightarrow> state \<Rightarrow> state" where
  "MPZ_REALLOC x n st = (if n > ALLOC st x then mpz_realloc x n st else st)"

section \<open>Reasoning about the store\<close>

lemma store_set [simp]:
  "heap (set_SIZ x s st) = heap st" "live (set_SIZ x s st) = live st" "brk (set_SIZ x s st) = brk st"
  "PTR (set_SIZ x s st) y = PTR st y" "ALLOC (set_SIZ x s st) y = ALLOC st y"
  "SIZ (set_SIZ x s st) y = (if y = x then s else SIZ st y)"
  "ABSIZ (set_SIZ x s st) y = (if y = x then nat \<bar>s\<bar> else ABSIZ st y)"
  "heap (set_heap m st) = m" "live (set_heap m st) = live st" "brk (set_heap m st) = brk st"
  "PTR (set_heap m st) y = PTR st y" "ALLOC (set_heap m st) y = ALLOC st y"
  "SIZ (set_heap m st) y = SIZ st y" "ABSIZ (set_heap m st) y = ABSIZ st y"
  by (simp_all add: set_SIZ_def set_heap_def PTR_def ALLOC_def SIZ_def ABSIZ_def)

lemma ABSIZ_SIZ: "ABSIZ st x = nat \<bar>SIZ st x\<bar>"
  by (simp add: ABSIZ_def SIZ_def)

lemma ABSIZ_0_iff [simp]: "ABSIZ st x = 0 \<longleftrightarrow> SIZ st x = 0"
  by (simp add: ABSIZ_def SIZ_def)

lemma ABSIZ_pos_iff [simp]: "0 < ABSIZ st x \<longleftrightarrow> SIZ st x \<noteq> 0"
  by (simp add: ABSIZ_def SIZ_def)

lemma wf_ok: "store_ok st \<Longrightarrow> x \<in> live st \<Longrightarrow> mpz_ok st x"
  by (simp add: store_ok_def)

lemma wf_sep:
  assumes "store_ok st" "x \<in> live st" "y \<in> live st" "x \<noteq> y"
  shows "PTR st x + ALLOC st x \<le> PTR st y \<or> PTR st y + ALLOC st y \<le> PTR st x"
proof -
  have "\<not> MPN_OVERLAP_P (PTR st x) (ALLOC st x) (PTR st y) (ALLOC st y)"
    using assms by (simp add: store_ok_def)
  then show ?thesis by (auto simp: MPN_OVERLAP_P_def)
qed

text \<open>The value only depends on the sign, the size and the limbs; the top limb bounds it from below.\<close>

lemma zval_abs: "store_ok st \<Longrightarrow> x \<in> live st \<Longrightarrow> \<bar>zval st x\<bar> = int (mval (heap st) (PTR st x) (ABSIZ st x))"
  by (cases "SIZ st x = 0") (auto simp: zval_def abs_mult ABSIZ_SIZ)

lemma mval_ABSIZ_ge:
  assumes "store_ok st" "x \<in> live st" "SIZ st x \<noteq> 0"
  shows "LB ^ (ABSIZ st x - 1) \<le> mval (heap st) (PTR st x) (ABSIZ st x)"
  using wf_ok [OF assms(1,2)] assms(3) by (intro mval_lower) (auto simp: mpz_ok_def)

lemma zval_sgn: "store_ok st \<Longrightarrow> x \<in> live st \<Longrightarrow> sgn (zval st x) = sgn (SIZ st x)"
proof (cases "SIZ st x = 0")
  case False
  assume "store_ok st" "x \<in> live st"
  from mval_ABSIZ_ge [OF this False] have "0 < mval (heap st) (PTR st x) (ABSIZ st x)"
    by (metis LB_gt(1) le_zero_eq neq0_conv zero_less_power)
  then show ?thesis by (simp add: zval_def sgn_mult)
qed (simp add: zval_def)

lemma zval_0_iff: "store_ok st \<Longrightarrow> x \<in> live st \<Longrightarrow> zval st x = 0 \<longleftrightarrow> SIZ st x = 0"
  using zval_sgn [of st x] by (metis sgn_0_0)

text \<open>How an operation ends: the limbs of \<open>w\<close> are rewritten inside its block and its size is set.  The
  invariant holds again and no other variable changed.\<close>

lemma write_result:
  assumes wf: "store_ok st" and w: "w \<in> live st" and m: "only_in (PTR st w) (ALLOC st w) (heap st) m"
    and s: "nat \<bar>s\<bar> \<le> ALLOC st w" and top: "s \<noteq> 0 \<Longrightarrow> m (PTR st w + nat \<bar>s\<bar> - 1) \<noteq> 0"
  defines "st' \<equiv> set_SIZ w s (set_heap m st)"
  shows "store_ok st'" and "live st' = live st" and "zval st' w = sgn s * int (mval m (PTR st w) (nat \<bar>s\<bar>))"
    and "x \<in> live st \<Longrightarrow> x \<noteq> w \<Longrightarrow> zval st' x = zval st x"
proof -
  have others: "m (PTR st x + i) = heap st (PTR st x + i)" if "x \<in> live st" "x \<noteq> w" "i < ALLOC st x" for x i
    by (rule only_inD [OF m]) (use wf_sep [OF wf that(1) w that(2)] that(3) in auto)
  have ok: "mpz_ok st' x" if "x \<in> live st" for x
  proof (cases "x = w")
    case True
    then show ?thesis using wf_ok [OF wf w] s top by (simp add: mpz_ok_def st'_def)
  next
    case False
    have "1 \<le> ALLOC st x" "ABSIZ st x \<le> ALLOC st x"
      using wf_ok [OF wf that] by (auto simp: mpz_ok_def)
    moreover have "m (PTR st x + ABSIZ st x - 1) = heap st (PTR st x + ABSIZ st x - 1)" if "SIZ st x \<noteq> 0"
      using others [OF \<open>x \<in> live st\<close> False, of "ABSIZ st x - 1"] calculation that
      by (cases "ABSIZ st x") auto
    ultimately show ?thesis using wf_ok [OF wf that] False by (simp add: mpz_ok_def st'_def)
  qed
  then show "store_ok st'" using wf by (simp add: store_ok_def st'_def)
  show "live st' = live st" by (simp add: st'_def)
  show "zval st' w = sgn s * int (mval m (PTR st w) (nat \<bar>s\<bar>))" by (simp add: zval_def st'_def)
  show "zval st' x = zval st x" if x: "x \<in> live st" "x \<noteq> w"
  proof -
    have "mval m (PTR st x) (ABSIZ st x) = mval (heap st) (PTR st x) (ABSIZ st x)"
      using wf_ok [OF wf x(1)] by (intro mval_cong others x) (auto simp: mpz_ok_def)
    then show ?thesis using x by (simp add: zval_def st'_def)
  qed
qed

text \<open>Reallocation gives the variable a block of the asked size, moved to fresh memory, with the value
  kept if it fits; the other variables do not change.  \<open>MPZ_REALLOC\<close> never shrinks, so it keeps the
  value.\<close>

lemma mval_other_block:
  assumes "store_ok st" "x \<in> live st" "\<And>i. i < ALLOC st x \<Longrightarrow> m (PTR st x + i) = heap st (PTR st x + i)"
  shows "mval m (PTR st x) (ABSIZ st x) = mval (heap st) (PTR st x) (ABSIZ st x)"
  using wf_ok [OF assms(1,2)] assms(3) by (intro mval_cong) (auto simp: mpz_ok_def)

lemma mpz_realloc_struct:
  fixes new_alloc :: nat
  defines "n \<equiv> max new_alloc 1"
  shows "PTR (mpz_realloc w new_alloc st) x = (if x = w then brk st else PTR st x)"
    and "ALLOC (mpz_realloc w new_alloc st) x = (if x = w then n else ALLOC st x)"
    and "SIZ (mpz_realloc w new_alloc st) x = (if x = w \<and> ABSIZ st w > n then 0 else SIZ st x)"
    and "heap (mpz_realloc w new_alloc st) = mcopy (brk st) (PTR st w) (min (ALLOC st w) n) (heap st)"
    and "brk (mpz_realloc w new_alloc st) = brk st + n"
    and "live (mpz_realloc w new_alloc st) = live st"
  by (auto simp: mpz_realloc_def REALLOCATE_FUNC_LIMBS_def Let_def n_def PTR_def ALLOC_def SIZ_def ABSIZ_def
      set_SIZ_def max_def)

lemma mpz_realloc_spec:
  fixes new_alloc :: nat
  assumes wf: "store_ok st" and w: "w \<in> live st"
  defines "st' \<equiv> mpz_realloc w new_alloc st"
  shows "store_ok st'" and "live st' = live st" and "ALLOC st' w = max new_alloc 1"
    and "zval st' w = (if ABSIZ st w \<le> max new_alloc 1 then zval st w else 0)"
    and "x \<in> live st \<Longrightarrow> x \<noteq> w \<Longrightarrow> zval st' x = zval st x"
    and "x \<noteq> w \<Longrightarrow> vars st' x = vars st x"
proof -
  define n where "n = max new_alloc 1"
  note S = mpz_realloc_struct [of w new_alloc st, folded st'_def n_def]
  have below: "PTR st x + ALLOC st x \<le> brk st" if "x \<in> live st" for x
    using wf_ok [OF wf that] by (simp add: mpz_ok_def)
  have same: "heap st' a = heap st a" if "a < brk st" for a
    unfolding S(4) using that by (intro mcopy_out) simp
  have other: "mpz_ok st' x" if x: "x \<in> live st" "x \<noteq> w" for x
  proof -
    have ok: "mpz_ok st x" by (rule wf_ok [OF wf x(1)])
    then have "ABSIZ st x \<le> ALLOC st x" by (simp add: mpz_ok_def)
    then have "heap st' (PTR st x + ABSIZ st x - 1) = heap st (PTR st x + ABSIZ st x - 1)" if "SIZ st x \<noteq> 0"
      using below [OF x(1)] that by (intro same) (cases "ABSIZ st x", auto)
    then show ?thesis using ok x unfolding mpz_ok_def ABSIZ_SIZ S by auto
  qed
  have copied: "heap st' (brk st + i) = heap st (PTR st w + i)" if "i < ALLOC st w" "i < n" for i
    unfolding S(4) using that by (intro mcopy_nth) simp
  have okw: "mpz_ok st' w"
  proof -
    have ok: "mpz_ok st w" by (rule wf_ok [OF wf w])
    have "heap st' (brk st + ABSIZ st w - 1) \<noteq> 0" if "SIZ st w \<noteq> 0" "ABSIZ st w \<le> n"
    proof -
      have "0 < ABSIZ st w" using that by simp
      then show ?thesis
        using copied [of "ABSIZ st w - 1"] ok that by (cases "ABSIZ st w") (auto simp: mpz_ok_def)
    qed
    then show ?thesis unfolding mpz_ok_def ABSIZ_SIZ S by (auto simp: n_def not_less)
  qed
  show "live st' = live st" by (rule S(6))
  show "store_ok st'"
    unfolding store_ok_def S(6)
  proof (intro conjI ballI impI)
    show "mpz_ok st' x" if "x \<in> live st" for x
      using okw other that by (cases "x = w") auto
  next
    fix x y
    assume xy: "x \<in> live st" "y \<in> live st" "x \<noteq> y"
    then show "\<not> MPN_OVERLAP_P (PTR st' x) (ALLOC st' x) (PTR st' y) (ALLOC st' y)"
      using wf_sep [OF wf xy] below [OF xy(1)] below [OF xy(2)] unfolding S by (auto simp: MPN_OVERLAP_P_def)
  qed
  show "ALLOC st' w = max new_alloc 1" unfolding S n_def by simp
  show "zval st' w = (if ABSIZ st w \<le> max new_alloc 1 then zval st w else 0)"
  proof (cases "ABSIZ st w \<le> n")
    case True
    have "ABSIZ st w \<le> ALLOC st w" using wf_ok [OF wf w] by (simp add: mpz_ok_def)
    then have "mval (heap st') (brk st) (ABSIZ st w) = mval (heap st) (PTR st w) (ABSIZ st w)"
      using True by (intro mval_cong copied) auto
    moreover have "SIZ st' w = SIZ st w" "PTR st' w = brk st" using S(1,3) True by simp_all
    ultimately show ?thesis using True by (simp add: zval_def ABSIZ_SIZ n_def)
  next
    case False
    then have "SIZ st' w = 0" using S(3) by simp
    then show ?thesis using False by (simp add: zval_def n_def)
  qed
  show "zval st' x = zval st x" if "x \<in> live st" "x \<noteq> w"
  proof -
    have "mval (heap st') (PTR st x) (ABSIZ st x) = mval (heap st) (PTR st x) (ABSIZ st x)"
      using below [OF that(1)] by (intro mval_other_block wf that same) auto
    moreover have "SIZ st' x = SIZ st x" "PTR st' x = PTR st x" using S(1,3) that by simp_all
    ultimately show ?thesis by (simp add: zval_def ABSIZ_SIZ)
  qed
  show "vars st' x = vars st x" if "x \<noteq> w"
    using that by (simp add: st'_def mpz_realloc_def REALLOCATE_FUNC_LIMBS_def Let_def set_SIZ_def)
qed

lemma MPZ_REALLOC_spec:
  fixes n :: nat
  assumes wf: "store_ok st" and w: "w \<in> live st"
  defines "st' \<equiv> MPZ_REALLOC w n st"
  shows "store_ok st'" and "live st' = live st" and "n \<le> ALLOC st' w"
    and "x \<in> live st \<Longrightarrow> zval st' x = zval st x"
    and "SIZ st' x = SIZ st x" and "x \<noteq> w \<Longrightarrow> vars st' x = vars st x"
proof -
  have fits: "ABSIZ st w \<le> max n 1" if "ALLOC st w < n"
    using wf_ok [OF wf w] that by (simp add: mpz_ok_def)
  note R = mpz_realloc_spec [OF wf w, where new_alloc = n]
  show "store_ok st'" "live st' = live st" "n \<le> ALLOC st' w"
    using R wf by (auto simp: st'_def MPZ_REALLOC_def)
  show "zval st' x = zval st x" if "x \<in> live st"
    using R that fits by (cases "x = w") (auto simp: st'_def MPZ_REALLOC_def)
  show "SIZ st' x = SIZ st x"
    using fits by (auto simp: st'_def MPZ_REALLOC_def mpz_realloc_struct)
  show "vars st' x = vars st x" if "x \<noteq> w"
    using R that by (auto simp: st'_def MPZ_REALLOC_def)
qed

text \<open>\<open>mpz_realloc2\<close> is \<open>mpz_realloc\<close> with the size given in bits.\<close>

lemma mpz_realloc2_eq: "mpz_realloc2 x bits st = mpz_realloc x (unat (bits + 31) div 32) st"
  by (simp add: mpz_realloc2_def mpz_realloc_def Let_def add.commute)

lemma unat_bits_limbs:
  "unat ((bits :: limb) + 31) div 32 = (if unat bits + 31 < LB then (unat bits + 31) div 32 else 0)"
proof (cases "unat bits + 31 < LB")
  case True
  then show ?thesis by (simp add: unat_plus_if)
next
  case False
  then have "unat (bits + 31) = unat bits + 31 - LB" by (simp add: unat_plus_if)
  then show ?thesis using False unat_lt_LB [of bits] by simp
qed

end
