(* ===== verification/Mpz_Core.thy ===== *)
theory Mpz_Core
  imports Mpz_Base
begin

text \<open>
  The contract \<open>updates\<close> of the operations of \<open>mpz\<close>, the interfaces of the unary and binary operations,
  and the operations that copy, change a sign or set a constant: \<open>mpz/set.c\<close>, \<open>neg.c\<close>, \<open>abs.c\<close>, \<open>set_ui.c\<close>,
  \<open>set_si.c\<close>, \<open>swap.c\<close>, with the specifications of \<open>init.c\<close>, \<open>init2.c\<close> and \<open>clear.c\<close>.
\<close>


section \<open>The contract of an operation\<close>

text \<open>\<open>updates st w k st'\<close>: from \<open>st\<close> to \<open>st'\<close> the variable \<open>w\<close> gets the value \<open>k\<close>, no other variable
  changes its value, the same variables are live and the store is well-formed.\<close>

definition updates :: "state \<Rightarrow> var \<Rightarrow> int \<Rightarrow> state \<Rightarrow> bool" where
  "updates st w k st' \<longleftrightarrow> store_ok st' \<and> live st' = live st \<and> zval st' w = k
    \<and> (\<forall>x \<in> live st. x \<noteq> w \<longrightarrow> zval st' x = zval st x)"

lemma updatesD:
  assumes "updates st w k st'"
  shows "store_ok st'" "live st' = live st" "zval st' w = k" "x \<in> live st \<Longrightarrow> x \<noteq> w \<Longrightarrow> zval st' x = zval st x"
  using assms by (auto simp: updates_def)

lemma updates_trans:
  "updates st w k st' \<Longrightarrow> updates st' w k' st'' \<Longrightarrow> updates st w k' st''"
  by (auto simp: updates_def)

lemma updates_realloc:
  assumes "store_ok st" "w \<in> live st" "updates (MPZ_REALLOC w n st) w k st'"
  shows "updates st w k st'"
  using assms(3) MPZ_REALLOC_spec(2,4) [OF assms(1,2), where n = n] by (auto simp: updates_def)

lemma updates_write:
  assumes "store_ok st" "w \<in> live st" "only_in (PTR st w) (ALLOC st w) (heap st) m"
    and "nat \<bar>s\<bar> \<le> ALLOC st w" "s \<noteq> 0 \<Longrightarrow> m (PTR st w + nat \<bar>s\<bar> - 1) \<noteq> 0"
    and "sgn s * int (mval m (PTR st w) (nat \<bar>s\<bar>)) = k"
  shows "updates st w k (set_SIZ w s (set_heap m st))"
  using write_result [OF assms(1-5)] assms(6) by (auto simp: updates_def)

text \<open>A binary operation on variables: any of the three may be the same variable.\<close>

locale mpz_binop =
  fixes opr :: "var \<Rightarrow> var \<Rightarrow> var \<Rightarrow> state \<Rightarrow> state" and f :: "int \<Rightarrow> int \<Rightarrow> int"
  assumes contract: "store_ok st \<Longrightarrow> w \<in> live st \<Longrightarrow> u \<in> live st \<Longrightarrow> v \<in> live st \<Longrightarrow>
    updates st w (f (zval st u) (zval st v)) (opr w u v st)"
begin

text \<open>The operation in place, repeated over a list of variables, folds the function over their values.\<close>

lemma accumulate:
  assumes "store_ok st" "w \<in> live st" "set vs \<subseteq> live st" "w \<notin> set vs"
  shows "updates st w (foldl f (zval st w) (map (zval st) vs)) (fold (\<lambda>v. opr w w v) vs st)"
  using assms
proof (induction vs arbitrary: st)
  case Nil
  then show ?case by (simp add: updates_def)
next
  case (Cons v vs)
  have 1: "updates st w (f (zval st w) (zval st v)) (opr w w v st)"
    using Cons.prems by (intro contract) auto
  have "updates (opr w w v st) w (foldl f (zval (opr w w v st) w) (map (zval (opr w w v st)) vs))
      (fold (\<lambda>v. opr w w v) vs (opr w w v st))"
    using Cons.prems updatesD [OF 1] by (intro Cons.IH) auto
  moreover have "map (zval (opr w w v st)) vs = map (zval st) vs"
    using Cons.prems updatesD(4) [OF 1] by (intro map_cong) auto
  ultimately show ?case
    using updatesD(3) [OF 1] updates_trans [OF 1] by simp
qed

end

text \<open>A unary operation.\<close>

locale mpz_unop =
  fixes opr :: "var \<Rightarrow> var \<Rightarrow> state \<Rightarrow> state" and f :: "int \<Rightarrow> int"
  assumes contract: "store_ok st \<Longrightarrow> w \<in> live st \<Longrightarrow> u \<in> live st \<Longrightarrow> updates st w (f (zval st u)) (opr w u st)"
begin

lemma twice:
  assumes "store_ok st" "w \<in> live st" "u \<in> live st"
  shows "updates st w (f (f (zval st u))) (opr w w (opr w u st))"
proof -
  note c = contract [OF assms]
  have "updates (opr w u st) w (f (zval (opr w u st) w)) (opr w w (opr w u st))"
    using updatesD [OF c] assms(2) by (intro contract) auto
  then show ?thesis using updatesD(3) [OF c] updates_trans [OF c] by simp
qed

end

text \<open>Where the blocks of two variables lie.\<close>

lemma blocks_separate:
  assumes "store_ok st" "x \<in> live st" "y \<in> live st" "a \<le> ALLOC st x" "b \<le> ALLOC st y"
  shows "MPN_SAME_OR_SEPARATE2_P (PTR st x) a (PTR st y) b"
  using wf_sep [OF assms(1-3)] assms(4,5) by (cases "x = y") (auto simp: overlap_defs)

lemma ABSIZ_le_ALLOC: "store_ok st \<Longrightarrow> x \<in> live st \<Longrightarrow> ABSIZ st x \<le> ALLOC st x"
  using wf_ok [of st x] by (simp add: mpz_ok_def)

lemma ALLOC_pos: "store_ok st \<Longrightarrow> x \<in> live st \<Longrightarrow> 1 \<le> ALLOC st x"
  using wf_ok [of st x] by (simp add: mpz_ok_def)

lemma incr_of_separate: "MPN_SAME_OR_SEPARATE2_P p n q n \<Longrightarrow> MPN_SAME_OR_INCR_P p q n"
  "MPN_SAME_OR_SEPARATE2_P p n q n \<Longrightarrow> MPN_SAME_OR_DECR_P p q n"
  "MPN_SAME_OR_SEPARATE2_P p n q n \<Longrightarrow> MPN_SAME_OR_SEPARATE_P p q n"
  by (auto simp: overlap_defs)

lemma signed_size:
  "(n = 0 \<longleftrightarrow> V = 0) \<Longrightarrow> sgn (if b then - int n else int n) * int V = (if b then - int V else int V)"
  by (cases "n = 0") auto

section \<open>Copying, sign, constants\<close>

definition mpz_set :: "var \<Rightarrow> var \<Rightarrow> state \<Rightarrow> state" where
  "mpz_set w u st =
     (let usize = SIZ st u;
          sz = nat \<bar>usize\<bar>;
          st = MPZ_REALLOC w sz st;
          wp = PTR st w;
          up = PTR st u
      in set_SIZ w usize (set_heap (MPN_COPY wp up sz (heap st)) st))"

definition mpz_neg :: "var \<Rightarrow> var \<Rightarrow> state \<Rightarrow> state" where
  "mpz_neg w u st =
     (let usize = SIZ st u;
          st = (if u \<noteq> w
                then (let sz = nat \<bar>usize\<bar>;
                          st = MPZ_REALLOC w sz st;
                          wp = PTR st w;
                          up = PTR st u
                      in set_heap (MPN_COPY wp up sz (heap st)) st)
                else st)
      in set_SIZ w (- usize) st)"

definition mpz_abs :: "var \<Rightarrow> var \<Rightarrow> state \<Rightarrow> state" where
  "mpz_abs w u st =
     (let sz = nat \<bar>SIZ st u\<bar>;
          st = (if u \<noteq> w
                then (let st = MPZ_REALLOC w sz st;
                          wp = PTR st w;
                          up = PTR st u
                      in set_heap (MPN_COPY wp up sz (heap st)) st)
                else st)
      in set_SIZ w (int sz) st)"

definition mpz_set_ui :: "var \<Rightarrow> limb \<Rightarrow> state \<Rightarrow> state" where
  "mpz_set_ui dest v st =
     (let m = (heap st)(PTR st dest := v);
          sz = of_bool (v \<noteq> 0)
      in set_SIZ dest sz (set_heap m st))"

definition mpz_set_si :: "var \<Rightarrow> limb \<Rightarrow> state \<Rightarrow> state" where
  "mpz_set_si dest v st =
     (let vl = (if sint v \<ge> 0 then v else - v);
          m = (heap st)(PTR st dest := vl);
          sz = of_bool (vl \<noteq> 0)
      in set_SIZ dest (if sint v \<ge> 0 then sz else - sz) (set_heap m st))"

definition mpz_swap :: "var \<Rightarrow> var \<Rightarrow> state \<Rightarrow> state" where
  "mpz_swap u v st =
     (let ualloc = mp_alloc (vars st u);
          valloc = mp_alloc (vars st v);
          st = st\<lparr>vars := (vars st)(v := (vars st v)\<lparr>mp_alloc := ualloc\<rparr>)\<rparr>;
          st = st\<lparr>vars := (vars st)(u := (vars st u)\<lparr>mp_alloc := valloc\<rparr>)\<rparr>;
          usize = mp_size (vars st u);
          vsize = mp_size (vars st v);
          st = st\<lparr>vars := (vars st)(v := (vars st v)\<lparr>mp_size := usize\<rparr>)\<rparr>;
          st = st\<lparr>vars := (vars st)(u := (vars st u)\<lparr>mp_size := vsize\<rparr>)\<rparr>;
          up = mp_d (vars st u);
          vp = mp_d (vars st v);
          st = st\<lparr>vars := (vars st)(v := (vars st v)\<lparr>mp_d := up\<rparr>)\<rparr>;
          st = st\<lparr>vars := (vars st)(u := (vars st u)\<lparr>mp_d := vp\<rparr>)\<rparr>
      in st)"

text \<open>The copy into \<open>w\<close> that \<open>mpz_set\<close>, \<open>mpz_neg\<close> and \<open>mpz_abs\<close> share, with the sign they give it.\<close>

lemma copy_signed:
  assumes ok: "store_ok st" and w: "w \<in> live st" and u: "u \<in> live st" and s: "\<bar>s\<bar> = \<bar>SIZ st u\<bar>"
  defines "st1 \<equiv> MPZ_REALLOC w (ABSIZ st u) st"
  shows "updates st w (sgn s * \<bar>zval st u\<bar>) (set_SIZ w s (set_heap (MPN_COPY (PTR st1 w) (PTR st1 u) (ABSIZ st u) (heap st1)) st1))"
proof -
  note R = MPZ_REALLOC_spec [OF ok w, where n = "ABSIZ st u", folded st1_def]
  have u1: "u \<in> live st1" "w \<in> live st1" using u w R(2) by simp_all
  have n: "ABSIZ st1 u = ABSIZ st u" by (simp add: ABSIZ_SIZ R(5))
  define n where "n = ABSIZ st u"
  have s_n: "nat \<bar>s\<bar> = n" by (simp add: n_def ABSIZ_SIZ s)
  have le: "n \<le> ALLOC st1 w" "n \<le> ALLOC st1 u"
    using R(3) ABSIZ_le_ALLOC [OF R(1) u1(1)] n by (simp_all add: n_def)
  define m where "m = MPN_COPY (PTR st1 w) (PTR st1 u) n (heap st1)"
  have m: "m = mcopy (PTR st1 w) (PTR st1 u) n (heap st1)"
    unfolding m_def by (rule MPN_COPY_spec) (rule incr_of_separate(3) [OF blocks_separate [OF R(1) u1(2,1) le]])
  have "updates st1 w (sgn s * \<bar>zval st u\<bar>) (set_SIZ w s (set_heap m st1))"
  proof (rule updates_write [OF R(1) u1(2)])
    show "only_in (PTR st1 w) (ALLOC st1 w) (heap st1) m"
      unfolding m by (rule only_in_mono [OF only_in_mcopy]) (use le in auto)
    show "nat \<bar>s\<bar> \<le> ALLOC st1 w" using le s_n by simp
    show "m (PTR st1 w + nat \<bar>s\<bar> - 1) \<noteq> 0" if "s \<noteq> 0"
    proof -
      have "SIZ st1 u \<noteq> 0" using that s R(5) by auto
      then have "heap st1 (PTR st1 u + n - 1) \<noteq> 0"
        using wf_ok [OF R(1) u1(1)] n by (simp add: mpz_ok_def n_def)
      moreover have "0 < n" using that s_n by simp
      ultimately show ?thesis
        using mcopy_nth [of "n - 1" n "PTR st1 w" "PTR st1 u" "heap st1"] unfolding m s_n by simp
    qed
    have "int (mval m (PTR st1 w) n) = \<bar>zval st1 u\<bar>"
      unfolding m zval_abs [OF R(1) u1(1)] n by (simp add: n_def)
    then show "sgn s * int (mval m (PTR st1 w) (nat \<bar>s\<bar>)) = sgn s * \<bar>zval st u\<bar>"
      using R(4) [OF u] s_n by simp
  qed
  then show ?thesis
    unfolding m_def n_def st1_def by (rule updates_realloc [OF ok w])
qed

lemma set_heap_same [simp]: "set_heap (heap st) st = st"
  by (simp add: set_heap_def)

lemma zval_of_abs: "store_ok st \<Longrightarrow> u \<in> live st \<Longrightarrow> sgn (SIZ st u) * \<bar>zval st u\<bar> = zval st u"
  by (simp add: zval_sgn [symmetric] sgn_mult_abs)

text \<open>Changing only the sign field.\<close>

lemma resign_spec:
  assumes "store_ok st" "w \<in> live st" "\<bar>s\<bar> = \<bar>SIZ st w\<bar>"
  shows "updates st w (sgn s * \<bar>zval st w\<bar>) (set_SIZ w s st)"
proof -
  have n: "nat \<bar>s\<bar> = ABSIZ st w" using assms(3) by (simp add: ABSIZ_SIZ)
  have top: "heap st (PTR st w + ABSIZ st w - 1) \<noteq> 0" if "s \<noteq> 0"
    using wf_ok [OF assms(1,2)] assms(3) that by (auto simp: mpz_ok_def)
  have "updates st w (sgn s * \<bar>zval st w\<bar>) (set_SIZ w s (set_heap (heap st) st))"
    by (rule updates_write [OF assms(1,2)], unfold n zval_abs [OF assms(1,2)])
       (use ABSIZ_le_ALLOC [OF assms(1,2)] top in simp_all)
  then show ?thesis by simp
qed

lemma mpz_set_spec:
  assumes "store_ok st" "w \<in> live st" "u \<in> live st"
  shows "updates st w (zval st u) (mpz_set w u st)"
  using copy_signed [OF assms, of "SIZ st u"] zval_of_abs [OF assms(1,3)]
  by (simp add: mpz_set_def Let_def ABSIZ_SIZ)

lemma mpz_neg_spec:
  assumes "store_ok st" "w \<in> live st" "u \<in> live st"
  shows "updates st w (- zval st u) (mpz_neg w u st)"
proof -
  have v: "sgn (- SIZ st u) * \<bar>zval st u\<bar> = - zval st u"
    using zval_of_abs [OF assms(1,3)] by simp
  show ?thesis
  proof (cases "u = w")
    case True
    then show ?thesis
      using resign_spec [OF assms(1,2), of "- SIZ st u"] v by (simp add: mpz_neg_def Let_def)
  next
    case False
    then show ?thesis
      using copy_signed [OF assms, of "- SIZ st u"] v by (simp add: mpz_neg_def Let_def ABSIZ_SIZ)
  qed
qed

lemma mpz_abs_spec:
  assumes "store_ok st" "w \<in> live st" "u \<in> live st"
  shows "updates st w \<bar>zval st u\<bar> (mpz_abs w u st)"
proof -
  have v: "sgn \<bar>SIZ st u\<bar> * \<bar>zval st u\<bar> = \<bar>zval st u\<bar>"
    using zval_0_iff [OF assms(1,3)] by (cases "SIZ st u = 0") auto
  show ?thesis
  proof (cases "u = w")
    case True
    then show ?thesis
      using resign_spec [OF assms(1,3), of "\<bar>SIZ st u\<bar>", unfolded v] by (simp add: mpz_abs_def Let_def)
  next
    case False
    then show ?thesis
      using copy_signed [OF assms, of "\<bar>SIZ st u\<bar>", unfolded v] by (simp add: mpz_abs_def Let_def ABSIZ_SIZ)
  qed
qed

interpretation mpz_set: mpz_unop mpz_set "\<lambda>a. a"
  by unfold_locales (rule mpz_set_spec)

interpretation mpz_neg: mpz_unop mpz_neg uminus
  by unfold_locales (rule mpz_neg_spec)

interpretation mpz_abs: mpz_unop mpz_abs abs
  by unfold_locales (rule mpz_abs_spec)

text \<open>One limb with a sign.\<close>

lemma one_limb_spec:
  assumes ok: "store_ok st" and w: "w \<in> live st" and s: "s = (if neg then - of_bool (v \<noteq> 0) else of_bool (v \<noteq> 0))"
  shows "updates st w (if neg then - int (unat v) else int (unat v)) (set_SIZ w s (set_heap ((heap st)(PTR st w := v)) st))"
proof (rule updates_write [OF ok w])
  show "only_in (PTR st w) (ALLOC st w) (heap st) ((heap st)(PTR st w := v))"
    using ALLOC_pos [OF ok w] by (intro only_in_upd) auto
  show "nat \<bar>s\<bar> \<le> ALLOC st w" using ALLOC_pos [OF ok w] s by auto
  show "((heap st)(PTR st w := v)) (PTR st w + nat \<bar>s\<bar> - 1) \<noteq> 0" if "s \<noteq> 0"
    using that s by (auto split: if_splits)
  show "sgn s * int (mval ((heap st)(PTR st w := v)) (PTR st w) (nat \<bar>s\<bar>)) = (if neg then - int (unat v) else int (unat v))"
    using s by (auto split: if_splits)
qed

lemma mpz_set_ui_spec:
  "store_ok st \<Longrightarrow> w \<in> live st \<Longrightarrow> updates st w (int (unat v)) (mpz_set_ui w v st)"
  using one_limb_spec [where st = st and w = w and s = "of_bool (v \<noteq> 0)" and v = v and neg = False] by (simp add: mpz_set_ui_def Let_def)

lemma sint_limb: "sint (v :: limb) = (if unat v < 2 ^ 31 then int (unat v) else int (unat v) - int LB)"
proof -
  have v: "0 \<le> uint v" "uint v < 2 ^ 32"
    using unsigned_less [of v, where 'a = int] by simp_all
  have s: "sint v = (uint v + 2 ^ 31) mod 2 ^ 32 - 2 ^ 31"
    by (simp add: sint_uint signed_take_bit_eq_take_bit_shift take_bit_eq_mod)
  show ?thesis
  proof (cases "unat v < 2 ^ 31")
    case True
    then have "int (unat v) < int (2 ^ 31)" by (simp only: of_nat_less_iff)
    then have "uint v < 2 ^ 31" by simp
    then have "(uint v + 2 ^ 31) mod 2 ^ 32 = uint v + 2 ^ 31"
      using v(1) by (intro mod_pos_pos_trivial) simp_all
    then show ?thesis unfolding s using True by simp
  next
    case False
    then have "int (2 ^ 31) \<le> int (unat v)" by (simp only: not_less of_nat_le_iff)
    then have "2 ^ 31 \<le> uint v" by simp
    then have "(uint v - 2 ^ 31 + 2 ^ 32) mod 2 ^ 32 = uint v - 2 ^ 31"
      using v(2) by (simp only: mod_add_self2) (intro mod_pos_pos_trivial, simp_all)
    then have "(uint v + 2 ^ 31) mod 2 ^ 32 = uint v - 2 ^ 31" by (simp add: add.commute)
    then show ?thesis unfolding s using False by (simp add: LB_def)
  qed
qed

lemma mpz_set_si_spec:
  assumes "store_ok st" "w \<in> live st"
  shows "updates st w (sint v) (mpz_set_si w v st)"
proof (cases "sint v \<ge> 0")
  case True
  then have "sint v = int (unat v)" using unat_lt_LB [of v] by (simp add: sint_limb split: if_splits)
  then show ?thesis
    using one_limb_spec [OF assms, where s = "of_bool (v \<noteq> 0)" and v = v and neg = False] True by (simp add: mpz_set_si_def Let_def)
next
  case False
  then have u: "\<not> unat v < 2 ^ 31" by (simp add: sint_limb split: if_splits)
  then have "v \<noteq> 0" by auto
  then have "unat (- v) + unat v = LB" using sub_borrow [of 0 v] by (simp add: word_greater_zero_iff)
  then have "int (unat v) - int LB = - int (unat (- v))" by linarith
  then have s: "sint v = - int (unat (- v))" using u by (simp only: sint_limb if_False)
  show ?thesis
    using one_limb_spec [OF assms, where s = "- of_bool (- v \<noteq> 0)" and v = "- v" and neg = True] False \<open>v \<noteq> 0\<close> s
    by (simp add: mpz_set_si_def Let_def)
qed

text \<open>\<open>mpz_swap\<close> exchanges the records, hence the values.\<close>

lemma mpz_swap_vars:
  "vars (mpz_swap u v st) x = (if x = u then vars st v else if x = v then vars st u else vars st x)"
  "heap (mpz_swap u v st) = heap st" "live (mpz_swap u v st) = live st" "brk (mpz_swap u v st) = brk st"
  by (simp_all add: mpz_swap_def Let_def)

lemma mpz_swap_spec:
  assumes "store_ok st" "u \<in> live st" "v \<in> live st"
  shows "store_ok (mpz_swap u v st)" and "live (mpz_swap u v st) = live st"
    and "zval (mpz_swap u v st) x = zval st (if x = u then v else if x = v then u else x)"
proof -
  define r where "r x = (if x = u then v else if x = v then u else x)" for x
  have V: "SIZ (mpz_swap u v st) x = SIZ st (r x)" "ABSIZ (mpz_swap u v st) x = ABSIZ st (r x)"
    "PTR (mpz_swap u v st) x = PTR st (r x)" "ALLOC (mpz_swap u v st) x = ALLOC st (r x)" for x
    by (simp_all add: SIZ_def ABSIZ_def PTR_def ALLOC_def mpz_swap_vars r_def)
  have rl: "r x \<in> live st" if "x \<in> live st" for x using that assms by (simp add: r_def)
  have inj: "r x \<noteq> r y" if "x \<noteq> y" for x y using that by (auto simp: r_def)
  show "store_ok (mpz_swap u v st)"
    using assms(1) rl inj unfolding store_ok_def mpz_ok_def V mpz_swap_vars by blast
  show "live (mpz_swap u v st) = live st" by (rule mpz_swap_vars)
  show "zval (mpz_swap u v st) x = zval st (if x = u then v else if x = v then u else x)"
    unfolding zval_def V mpz_swap_vars r_def by (rule refl)
qed

text \<open>Initialising a variable that is not live gives it the value 0 and fresh memory.\<close>

lemma init_fresh:
  assumes ok: "store_ok st" and x: "x \<notin> live st" and n: "1 \<le> n"
  defines "st' \<equiv> st\<lparr>brk := brk st + n, vars := (vars st)(x := \<lparr>mp_alloc = n, mp_size = 0, mp_d = brk st\<rparr>), live := insert x (live st)\<rparr>"
  shows "store_ok st'" and "zval st' x = 0" and "y \<in> live st \<Longrightarrow> zval st' y = zval st y"
proof -
  have V: "SIZ st' y = (if y = x then 0 else SIZ st y)" "ABSIZ st' y = (if y = x then 0 else ABSIZ st y)"
    "PTR st' y = (if y = x then brk st else PTR st y)" "ALLOC st' y = (if y = x then n else ALLOC st y)"
    "heap st' = heap st" "brk st' = brk st + n" "live st' = insert x (live st)" for y
    by (simp_all add: st'_def SIZ_def ABSIZ_def PTR_def ALLOC_def)
  have below: "PTR st y + ALLOC st y \<le> brk st" if "y \<in> live st" for y
    using wf_ok [OF ok that] by (simp add: mpz_ok_def)
  show "store_ok st'"
    unfolding store_ok_def V(7)
  proof (intro conjI ballI impI)
    show "mpz_ok st' y" if "y \<in> insert x (live st)" for y
      using that n x wf_ok [OF ok, of y] unfolding mpz_ok_def V by auto
  next
    fix y z
    assume yz: "y \<in> insert x (live st)" "z \<in> insert x (live st)" "y \<noteq> z"
    then show "\<not> MPN_OVERLAP_P (PTR st' y) (ALLOC st' y) (PTR st' z) (ALLOC st' z)"
      using below [of y] below [of z] wf_sep [OF ok, of y z] x unfolding V
      by (cases "y = x"; cases "z = x") (auto simp: MPN_OVERLAP_P_def)
  qed
  show "zval st' x = 0" by (simp add: zval_def V)
  show "zval st' y = zval st y" if "y \<in> live st"
    using that x by (auto simp: zval_def V)
qed

lemma mpz_init_spec:
  assumes "store_ok st" "x \<notin> live st"
  shows "store_ok (mpz_init x st)" and "live (mpz_init x st) = insert x (live st)" and "zval (mpz_init x st) x = 0"
    and "y \<in> live st \<Longrightarrow> zval (mpz_init x st) y = zval st y"
  using init_fresh [OF assms, of 1] by (simp_all add: mpz_init_def ALLOCATE_FUNC_LIMBS_def)

lemma mpz_init2_spec:
  assumes "store_ok st" "x \<notin> live st"
  shows "store_ok (mpz_init2 x bits st)" and "live (mpz_init2 x bits st) = insert x (live st)"
    and "zval (mpz_init2 x bits st) x = 0" and "y \<in> live st \<Longrightarrow> zval (mpz_init2 x bits st) y = zval st y"
    and "ALLOC (mpz_init2 x bits st) x = max 1 (if unat bits + 31 < LB then (unat bits + 31) div 32 else 0)"
proof -
  show "store_ok (mpz_init2 x bits st)" "live (mpz_init2 x bits st) = insert x (live st)"
    "zval (mpz_init2 x bits st) x = 0" "y \<in> live st \<Longrightarrow> zval (mpz_init2 x bits st) y = zval st y"
    using init_fresh [OF assms, of "max (unat (bits + 32 - 1) div 32) 1"]
    by (simp_all add: mpz_init2_def ALLOCATE_FUNC_LIMBS_def Let_def)
  have "ALLOC (mpz_init2 x bits st) x = max (unat (bits + 31) div 32) 1"
    by (simp add: mpz_init2_def ALLOCATE_FUNC_LIMBS_def Let_def ALLOC_def add.commute)
  then show "ALLOC (mpz_init2 x bits st) x = max 1 (if unat bits + 31 < LB then (unat bits + 31) div 32 else 0)"
    by (simp add: unat_bits_limbs max.commute)
qed

lemma mpz_clear_spec:
  "store_ok st \<Longrightarrow> store_ok (mpz_clear x st) \<and> zval (mpz_clear x st) y = zval st y"
  by (auto simp: mpz_clear_def store_ok_def mpz_ok_def zval_def SIZ_def ABSIZ_def PTR_def ALLOC_def)

end
