(* ===== verification/Mpz_Arith.thy ===== *)
theory Mpz_Arith
  imports Mpz_Core Mpn_Mul
begin

text \<open>
  Addition and subtraction on variables (\<open>mpz/aors.h\<close>, \<open>mpz/aors_ui.h\<close>), comparison (\<open>mpz/cmp.c\<close>,
  \<open>cmpabs.c\<close>, \<open>cmp_ui.c\<close>, \<open>cmp_si.c\<close>, \<open>cmpabs_ui.c\<close>) and multiplication by a limb (\<open>mpz/mul_i.h\<close>), each
  with its contract over the integers.
\<close>

section \<open>How an operation stores its result\<close>

text \<open>A size or a value with the sign \<open>neg\<close>.\<close>

definition with_sign :: "bool \<Rightarrow> nat \<Rightarrow> int" where
  "with_sign neg k = (if neg then - int k else int k)"

lemma with_sign_simps [simp]: "nat \<bar>with_sign neg k\<bar> = k" "with_sign neg k = 0 \<longleftrightarrow> k = 0" "\<bar>with_sign neg k\<bar> = int k"
  by (simp_all add: with_sign_def)

lemma sgn_with_sign: "k = 0 \<longleftrightarrow> V = 0 \<Longrightarrow> sgn (with_sign neg k) * int V = with_sign neg V"
  by (cases "k = 0") (auto simp: with_sign_def)

lemma with_sign_of: "(k < 0) = neg \<Longrightarrow> \<bar>k\<bar> = int V \<Longrightarrow> with_sign neg V = k"
  by (auto simp: with_sign_def)

text \<open>The limbs of the result are in the block of \<open>w\<close>, of which the size counts \<open>k\<close>.\<close>

lemma result_sized:
  assumes "store_ok st" "w \<in> live st" "only_in (PTR st w) (ALLOC st w) (heap st) m"
    and "k \<le> ALLOC st w" "k = 0 \<or> m (PTR st w + k - 1) \<noteq> 0"
  shows "updates st w (with_sign neg (mval m (PTR st w) k)) (set_SIZ w (with_sign neg k) (set_heap m st))"
proof (rule updates_write [OF assms(1-3)])
  have "k = 0 \<longleftrightarrow> mval m (PTR st w) k = 0"
  proof (cases "k = 0")
    case False
    then have "LB ^ (k - 1) \<le> mval m (PTR st w) k" using assms(5) by (intro mval_lower) auto
    then have "mval m (PTR st w) k \<noteq> 0" by (metis LB_gt(3) le_zero_eq power_not_zero)
    then show ?thesis using False by simp
  qed simp
  then show "sgn (with_sign neg k) * int (mval m (PTR st w) (nat \<bar>with_sign neg k\<bar>)) = with_sign neg (mval m (PTR st w) k)"
    by (simp add: sgn_with_sign)
qed (use assms(4,5) in auto)

lemma result_normalized:
  fixes n :: nat
  assumes "store_ok st" "w \<in> live st" "only_in (PTR st w) n (heap st) m" "n \<le> ALLOC st w"
  shows "updates st w (with_sign neg (mval m (PTR st w) n))
    (set_SIZ w (with_sign neg (MPN_NORMALIZE m (PTR st w) n)) (set_heap m st))"
proof -
  have "only_in (PTR st w) (ALLOC st w) (heap st) m"
    by (rule only_in_mono [OF assms(3)]) (use assms(4) in auto)
  from result_sized [OF assms(1,2) this, of "MPN_NORMALIZE m (PTR st w) n" neg]
  show ?thesis
    using MPN_NORMALIZE_top [of m "PTR st w" n] MPN_NORMALIZE_le [of m "PTR st w" n] assms(4)
    by (simp add: MPN_NORMALIZE_mval)
qed

text \<open>A result of \<open>n\<close> limbs and a carry limb, which is counted when it is not zero.\<close>

lemma result_carry:
  fixes n :: nat
  assumes "store_ok st" "w \<in> live st" "only_in (PTR st w) n (heap st) m" "Suc n \<le> ALLOC st w"
    and top: "c = 0 \<Longrightarrow> n = 0 \<or> m (PTR st w + n - 1) \<noteq> 0"
    and k: "k = n + of_bool (c \<noteq> 0)"
  shows "updates st w (with_sign neg (mval m (PTR st w) n + LB ^ n * unat c))
    (set_SIZ w (with_sign neg k) (set_heap (m(PTR st w + n := c)) st))"
proof -
  define m' where "m' = m(PTR st w + n := c)"
  have low: "mval m' (PTR st w) n = mval m (PTR st w) n" by (simp add: m'_def)
  have "mval m' (PTR st w) k = mval m (PTR st w) n + LB ^ n * unat c"
    by (cases "c = 0") (simp_all add: k mval_high low del: mval.simps, simp add: m'_def)
  moreover have "k = 0 \<or> m' (PTR st w + k - 1) \<noteq> 0"
    using top by (cases "c = 0"; cases n) (auto simp: k m'_def)
  moreover have "only_in (PTR st w) (ALLOC st w) (heap st) m'"
    unfolding m'_def using assms(4)
    by (intro only_in_trans [OF only_in_mono [OF assms(3)] only_in_upd]) auto
  moreover have "k \<le> ALLOC st w" using assms(4) by (simp add: k)
  ultimately have "updates st w (with_sign neg (mval m (PTR st w) n + LB ^ n * unat c)) (set_SIZ w (with_sign neg k) (set_heap m' st))"
    using result_sized [OF assms(1,2), of m' k neg] by simp
  then show ?thesis by (simp add: m'_def)
qed

text \<open>An operand after the destination got room for \<open>n\<close> limbs.\<close>

lemma operand_realloc:
  fixes n :: nat
  assumes "store_ok st" "w \<in> live st" "u \<in> live st"
  defines "st1 \<equiv> MPZ_REALLOC w n st"
  shows "store_ok st1" "w \<in> live st1" "u \<in> live st1" "n \<le> ALLOC st1 w" "ABSIZ st1 u = ABSIZ st u"
    "SIZ st1 u = SIZ st u" "ABSIZ st u \<le> ALLOC st1 u" "int (mval (heap st1) (PTR st1 u) (ABSIZ st u)) = \<bar>zval st u\<bar>"
    "a \<le> ALLOC st1 w \<Longrightarrow> b \<le> ABSIZ st u \<Longrightarrow> MPN_SAME_OR_SEPARATE2_P (PTR st1 w) a (PTR st1 u) b"
proof -
  note R = MPZ_REALLOC_spec [OF assms(1,2), where n = n, folded st1_def]
  show ok: "store_ok st1" and "w \<in> live st1" and u: "u \<in> live st1" and "n \<le> ALLOC st1 w"
    using R assms by simp_all
  show s: "SIZ st1 u = SIZ st u" by (rule R(5))
  then show a: "ABSIZ st1 u = ABSIZ st u" by (simp add: ABSIZ_SIZ)
  show l: "ABSIZ st u \<le> ALLOC st1 u" using ABSIZ_le_ALLOC [OF ok u] a by simp
  show "int (mval (heap st1) (PTR st1 u) (ABSIZ st u)) = \<bar>zval st u\<bar>"
    using zval_abs [OF ok u] R(4) [OF assms(3)] a by simp
  show "MPN_SAME_OR_SEPARATE2_P (PTR st1 w) a (PTR st1 u) b" if "a \<le> ALLOC st1 w" "b \<le> ABSIZ st u"
    using blocks_separate [OF ok _ u, of w a b] that l R(2) assms(2) by simp
qed

text \<open>A number of \<open>n\<close> limbs that needs all of them has a non-zero top limb.\<close>

lemma top_not_zero: "LB ^ (n - 1) \<le> mval m p n \<Longrightarrow> n = 0 \<or> m (p + n - 1) \<noteq> 0"
proof (cases n)
  case (Suc k)
  assume "LB ^ (n - 1) \<le> mval m p n"
  then show ?thesis using mval_less [of m p k] Suc by (auto simp: mval_high simp del: mval.simps)
qed simp

text \<open>A subtraction of a number that is not larger gives no borrow.\<close>

lemma no_borrow_le: "r + b = a + LB ^ n * unat c \<Longrightarrow> b \<le> a \<Longrightarrow> r < LB ^ n \<Longrightarrow> c = 0"
proof (rule ccontr)
  assume *: "r + b = a + LB ^ n * unat c" "b \<le> a" "r < LB ^ n" and "c \<noteq> 0"
  then have "LB ^ n * 1 \<le> LB ^ n * unat c" by (intro mult_le_mono2) (simp add: unat_gt_0 Suc_leI)
  then show False using * by linarith
qed

section \<open>Addition and subtraction (\<open>aors.h\<close>)\<close>

text \<open>The part of \<open>aors.h\<close> after the operands are ordered by size; the sizes carry the signs.\<close>

definition aors_ordered :: "var \<Rightarrow> var \<Rightarrow> var \<Rightarrow> int \<Rightarrow> int \<Rightarrow> nat \<Rightarrow> nat \<Rightarrow> state \<Rightarrow> state" where
  "aors_ordered w u v usize vsize abs_usize abs_vsize st =
     (let wsize = abs_usize + 1;
          st = MPZ_REALLOC w wsize st;
          up = PTR st u;
          vp = PTR st v;
          wp = PTR st w
      in if usize XOR vsize < 0
         then if abs_usize \<noteq> abs_vsize
              then (let (_, m) = mpn_sub wp up abs_usize vp abs_vsize (heap st);
                        wsize = int (MPN_NORMALIZE m wp abs_usize);
                        wsize = (if usize < 0 then - wsize else wsize)
                    in set_SIZ w wsize (set_heap m st))
              else if mpn_cmp (heap st) up vp abs_usize < 0
              then (let (_, m) = mpn_sub_n wp vp up abs_usize (heap st);
                        wsize = int (MPN_NORMALIZE m wp abs_usize);
                        wsize = (if usize \<ge> 0 then - wsize else wsize)
                    in set_SIZ w wsize (set_heap m st))
              else (let (_, m) = mpn_sub_n wp up vp abs_usize (heap st);
                        wsize = int (MPN_NORMALIZE m wp abs_usize);
                        wsize = (if usize < 0 then - wsize else wsize)
                    in set_SIZ w wsize (set_heap m st))
         else (let (cy_limb, m) = mpn_add wp up abs_usize vp abs_vsize (heap st);
                   m = m(wp + abs_usize := cy_limb);
                   wsize = int (abs_usize + unat cy_limb);
                   wsize = (if usize < 0 then - wsize else wsize)
               in set_SIZ w wsize (set_heap m st)))"

definition mpz_aors :: "bool \<Rightarrow> var \<Rightarrow> var \<Rightarrow> var \<Rightarrow> state \<Rightarrow> state" where
  "mpz_aors variation w u v st =
     (let usize = SIZ st u;
          vsize = (if variation then - SIZ st v else SIZ st v);
          abs_usize = nat \<bar>usize\<bar>;
          abs_vsize = nat \<bar>vsize\<bar>
      in if abs_usize < abs_vsize
         then aors_ordered w v u vsize usize abs_vsize abs_usize st
         else aors_ordered w u v usize vsize abs_usize abs_vsize st)"

definition mpz_add :: "var \<Rightarrow> var \<Rightarrow> var \<Rightarrow> state \<Rightarrow> state" where
  "mpz_add w u v st = mpz_aors False w u v st"

definition mpz_sub :: "var \<Rightarrow> var \<Rightarrow> var \<Rightarrow> state \<Rightarrow> state" where
  "mpz_sub w u v st = mpz_aors True w u v st"

lemma aors_ordered_spec:
  assumes ok: "store_ok st" and w: "w \<in> live st" and u: "u \<in> live st" and v: "v \<in> live st"
    and us: "\<bar>us\<bar> = \<bar>SIZ st u\<bar>" and vs: "\<bar>vs\<bar> = \<bar>SIZ st v\<bar>" and le: "\<bar>vs\<bar> \<le> \<bar>us\<bar>"
  shows "updates st w (sgn us * \<bar>zval st u\<bar> + sgn vs * \<bar>zval st v\<bar>) (aors_ordered w u v us vs (nat \<bar>us\<bar>) (nat \<bar>vs\<bar>) st)"
proof -
  define un vn st1 where "un = nat \<bar>us\<bar>" and "vn = nat \<bar>vs\<bar>" and "st1 = MPZ_REALLOC w (un + 1) st"
  have un: "ABSIZ st u = un" and vn: "ABSIZ st v = vn" by (simp_all add: un_def vn_def us vs ABSIZ_SIZ)
  note U = operand_realloc [OF ok w u, where n = "un + 1", folded st1_def, unfolded un]
  note V = operand_realloc [OF ok w v, where n = "un + 1", folded st1_def, unfolded vn]
  have room: "Suc un \<le> ALLOC st1 w" using U(4) by simp
  have vu: "vn \<le> un" using le by (simp add: un_def vn_def)
  have sep: "MPN_SAME_OR_SEPARATE2_P (PTR st1 w) un (PTR st1 u) un" "MPN_SAME_OR_SEPARATE2_P (PTR st1 w) un (PTR st1 v) vn"
    using U(9) V(9) room by simp_all
  define up vp wp where "up = PTR st1 u" and "vp = PTR st1 v" and "wp = PTR st1 w"
  note sep = sep [folded up_def vp_def wp_def]
  define A B where "A = mval (heap st1) up un" and "B = mval (heap st1) vp vn"
  have A: "int A = \<bar>zval st u\<bar>" and B: "int B = \<bar>zval st v\<bar>"
    using U(8) V(8) by (simp_all add: A_def B_def up_def vp_def)
  have topA: "LB ^ (un - 1) \<le> A" if "us \<noteq> 0"
    using mval_ABSIZ_ge [OF U(1,3)] that us U(5) by (auto simp: A_def up_def U(6))
  have up: "updates st w k st2" if "updates st1 w k st2" for k st2
    using updates_realloc [OF ok w] that unfolding st1_def by blast
  have norm: "updates st w k (set_SIZ w (with_sign neg (MPN_NORMALIZE m wp un)) (set_heap m st1))"
    if "only_in wp un (heap st1) m" "k = with_sign neg (mval m wp un)" for m neg k
    using up [OF result_normalized [OF U(1,2), of un m neg]] that room by (simp add: wp_def)
  have def_eq: "aors_ordered w u v us vs un vn st =
     (if us XOR vs < 0
      then if un \<noteq> vn
           then (let (_, m) = mpn_sub wp up un vp vn (heap st1)
                 in set_SIZ w (with_sign (us < 0) (MPN_NORMALIZE m wp un)) (set_heap m st1))
           else if mpn_cmp (heap st1) up vp un < 0
           then (let (_, m) = mpn_sub_n wp vp up un (heap st1)
                 in set_SIZ w (with_sign (us \<ge> 0) (MPN_NORMALIZE m wp un)) (set_heap m st1))
           else (let (_, m) = mpn_sub_n wp up vp un (heap st1)
                 in set_SIZ w (with_sign (us < 0) (MPN_NORMALIZE m wp un)) (set_heap m st1))
      else (let (c, m) = mpn_add wp up un vp vn (heap st1)
            in set_SIZ w (with_sign (us < 0) (un + unat c)) (set_heap (m(wp + un := c)) st1)))"
    by (simp only: aors_ordered_def Let_def st1_def [symmetric] up_def [symmetric] vp_def [symmetric] wp_def [symmetric] with_sign_def)
  have B0: "vs = 0 \<longleftrightarrow> B = 0"
    using zval_0_iff [OF ok v] vs B by auto
  have A0: "us = 0 \<longleftrightarrow> A = 0"
    using zval_0_iff [OF ok u] us A by auto
  have BA: "B < A" if "vn < un"
  proof -
    have "B < LB ^ vn" unfolding B_def by (rule mval_less)
    also have "\<dots> \<le> LB ^ (un - 1)" using that by (intro power_increasing) (auto simp: Suc_leI)
    also have "\<dots> \<le> A" using that by (intro topA) (auto simp: un_def)
    finally show ?thesis .
  qed
  have "updates st w (sgn us * int A + sgn vs * int B) (aors_ordered w u v us vs un vn st)"
  proof (cases "us XOR vs < 0")
    case True
    then have sg: "us < 0 \<longleftrightarrow> \<not> vs < 0" by simp
    have val: "with_sign (us < 0) d = sgn us * int A + sgn vs * int B" if "d + B = A" for d
      using that sg A0 B0 by (cases "us < 0"; cases "us = 0"; cases "vs = 0") (auto simp: with_sign_def)
    consider "un \<noteq> vn" | "un = vn" "A < B" | "un = vn" "B \<le> A" by linarith
    then show ?thesis
    proof cases
      case 1
      obtain c m where eq: "mpn_sub wp up un vp vn (heap st1) = (c, m)" by fastforce
      note S = mpn_sub_spec [OF eq vu sep, folded A_def B_def]
      have "c = 0" by (rule no_borrow_le [OF S(1)]) (use BA 1 vu mval_less in auto)
      then have "mval m wp un + B = A" using S(1) by simp
      from norm [OF S(3) val [OF this, symmetric]] show ?thesis
        unfolding def_eq using True 1 eq by simp
    next
      case 2
      have "mpn_cmp (heap st1) up vp un < 0" using 2 by (simp add: mpn_cmp_spec A_def B_def)
      obtain c m where eq: "mpn_sub_n wp vp up un (heap st1) = (c, m)" by fastforce
      note S = mpn_sub_n_spec [OF eq incr_of_separate(1) [OF sep(2) [folded 2(1)]] incr_of_separate(1) [OF sep(1)]]
      have S1: "mval m wp un + A = B + LB ^ un * unat c" using S(1) 2(1) by (simp add: A_def B_def)
      have "c = 0" by (rule no_borrow_le [OF S1]) (use 2 mval_less in auto)
      then have "with_sign (us \<ge> 0) (mval m wp un) = sgn us * int A + sgn vs * int B"
        using S1 sg A0 B0 2 by (cases "us < 0"; cases "us = 0"; cases "vs = 0") (auto simp: with_sign_def)
      then show ?thesis
        unfolding def_eq using True 2 eq \<open>mpn_cmp (heap st1) up vp un < 0\<close> norm [OF S(3), of _ "us \<ge> 0"] by simp
    next
      case 3
      have "\<not> mpn_cmp (heap st1) up vp un < 0" using 3 by (simp add: mpn_cmp_spec A_def B_def)
      obtain c m where eq: "mpn_sub_n wp up vp un (heap st1) = (c, m)" by fastforce
      note S = mpn_sub_n_spec [OF eq incr_of_separate(1) [OF sep(1)] incr_of_separate(1) [OF sep(2) [folded 3(1)]]]
      have S1: "mval m wp un + B = A + LB ^ un * unat c" using S(1) 3(1) by (simp add: A_def B_def)
      have "c = 0" by (rule no_borrow_le [OF S1]) (use 3 mval_less in auto)
      then have "mval m wp un + B = A" using S1 by simp
      from norm [OF S(3) [folded 3(1)] val [OF this, symmetric]] show ?thesis
        unfolding def_eq using True 3 eq \<open>\<not> mpn_cmp (heap st1) up vp un < 0\<close> by simp
    qed
  next
    case False
    then have sg: "us < 0 \<longleftrightarrow> vs < 0" by simp
    obtain c m where eq: "mpn_add wp up un vp vn (heap st1) = (c, m)" by fastforce
    note S = mpn_add_spec [OF eq vu sep, folded A_def B_def]
    have c: "unat c = of_bool (c \<noteq> 0)" using S(2) by (cases "unat c") (auto simp: unat_eq_0 unat_gt_0)
    have top: "un = 0 \<or> m (wp + un - 1) \<noteq> 0" if "c = 0"
    proof (cases "un = 0")
      case False
      then have "LB ^ (un - 1) \<le> mval m wp un" using topA S(1) that by (auto simp: un_def)
      then show ?thesis by (rule top_not_zero)
    qed simp
    have "with_sign (us < 0) (A + B) = sgn us * int A + sgn vs * int B"
      using sg A0 B0 le by (cases "us < 0"; cases "us = 0"; cases "vs = 0") (auto simp: with_sign_def)
    then show ?thesis
      unfolding def_eq using False eq S(1)
        up [OF result_carry [OF U(1,2), of un m c "un + unat c" "us < 0"]] S(3) room top c
      by (simp add: wp_def)
  qed
  then show ?thesis by (simp add: un_def vn_def A B)
qed

lemma mpz_aors_spec:
  assumes "store_ok st" "w \<in> live st" "u \<in> live st" "v \<in> live st"
  shows "updates st w (if variation then zval st u - zval st v else zval st u + zval st v) (mpz_aors variation w u v st)"
proof -
  define vs where "vs = (if variation then - SIZ st v else SIZ st v)"
  have vs: "\<bar>vs\<bar> = \<bar>SIZ st v\<bar>" by (simp add: vs_def)
  have V: "sgn vs * \<bar>zval st v\<bar> = (if variation then - zval st v else zval st v)"
    using zval_of_abs [OF assms(1,4)] by (simp add: vs_def)
  note U = zval_of_abs [OF assms(1,3)]
  have "updates st w (sgn (SIZ st u) * \<bar>zval st u\<bar> + sgn vs * \<bar>zval st v\<bar>) (mpz_aors variation w u v st)"
  proof (cases "nat \<bar>SIZ st u\<bar> < nat \<bar>vs\<bar>")
    case True
    then show ?thesis
      using aors_ordered_spec [OF assms(1,2,4,3) vs refl] unfolding mpz_aors_def Let_def vs_def [symmetric]
      by (simp add: add.commute)
  next
    case False
    then have "\<bar>vs\<bar> \<le> \<bar>SIZ st u\<bar>" by linarith
    with False show ?thesis
      using aors_ordered_spec [OF assms(1,2,3,4) refl vs] unfolding mpz_aors_def Let_def vs_def [symmetric]
      by (simp only: if_False)
  qed
  then show ?thesis by (simp add: U V split: if_splits)
qed

interpretation mpz_add: mpz_binop mpz_add "\<lambda>a b. a + b"
  using mpz_aors_spec [where variation = False] by unfold_locales (simp add: mpz_add_def)

interpretation mpz_sub: mpz_binop mpz_sub "\<lambda>a b. a - b"
  using mpz_aors_spec [where variation = True] by unfold_locales (simp add: mpz_sub_def)

section \<open>One-limb operands (\<open>aors_ui.h\<close>)\<close>

definition mpz_aors_ui :: "bool \<Rightarrow> var \<Rightarrow> var \<Rightarrow> limb \<Rightarrow> state \<Rightarrow> state" where
  "mpz_aors_ui variation w u vval st =
     (let usize = SIZ st u;
          abs_usize = nat \<bar>usize\<bar>;
          wsize = abs_usize + 1;
          st = MPZ_REALLOC w wsize st;
          up = PTR st u;
          wp = PTR st w
      in if abs_usize = 0
         then (let m = (heap st)(wp := vval);
                   sz = of_bool (vval \<noteq> 0)
               in set_SIZ w (if variation then - sz else sz) (set_heap m st))
         else if (if variation then usize < 0 else usize \<ge> 0)
         then (let (cy, m) = mpn_add_1 wp up abs_usize vval (heap st);
                   m = m(wp + abs_usize := cy);
                   wsize = int (abs_usize + unat cy);
                   wsize = (if variation then - wsize else wsize)
               in set_SIZ w wsize (set_heap m st))
         else if abs_usize = 1 \<and> heap st up < vval
         then (let m = (heap st)(wp := vval - heap st up);
                   wsize = (if variation then - 1 else 1)
               in set_SIZ w wsize (set_heap m st))
         else (let (_, m) = mpn_sub_1 wp up abs_usize vval (heap st);
                   wsize = int (abs_usize - of_bool (m (wp + abs_usize - 1) = 0));
                   wsize = (if variation then wsize else - wsize)
               in set_SIZ w wsize (set_heap m st)))"

definition mpz_add_ui :: "var \<Rightarrow> var \<Rightarrow> limb \<Rightarrow> state \<Rightarrow> state" where
  "mpz_add_ui w u vval st = mpz_aors_ui False w u vval st"

definition mpz_sub_ui :: "var \<Rightarrow> var \<Rightarrow> limb \<Rightarrow> state \<Rightarrow> state" where
  "mpz_sub_ui w u vval st = mpz_aors_ui True w u vval st"

text \<open>A difference whose top limb vanished has a non-zero limb below it, when the minuend had a limb above
  the subtrahend's.\<close>

lemma sub_small_top:
  fixes v :: limb
  assumes "mval m p n + unat v = A" "LB ^ (n - 1) \<le> A" "1 < n" "m (p + n - 1) = 0"
  shows "m (p + (n - 1) - 1) \<noteq> 0"
proof
  assume 0: "m (p + (n - 1) - 1) = 0"
  obtain k where k: "n = Suc (Suc k)" using assms(3) by (cases n; cases "n - 1") auto
  have "mval m p n = mval m p k" using 0 assms(4) k by (simp add: mval_high del: mval.simps)
  then have "LB ^ (Suc k) < LB ^ k + LB" using assms(1,2) mval_less [of m p k] unat_lt_LB [of v] k by simp
  moreover have "LB ^ k + LB \<le> LB ^ Suc k + 1"
  proof -
    obtain t where t: "LB ^ k = Suc t" by (metis LB_gt(3) not0_implies_Suc power_not_zero)
    have "t \<le> LB * t" by simp
    then show ?thesis using t by simp
  qed
  moreover have "mval m p k + 1 \<le> LB ^ k" "unat v + 1 \<le> LB" "LB ^ Suc k \<le> mval m p k + unat v"
    using mval_less [of m p k] unat_lt_LB [of v] assms(1,2) \<open>mval m p n = mval m p k\<close> k by simp_all
  ultimately show False by linarith
qed

lemma mpz_aors_ui_spec:
  assumes ok: "store_ok st" and w: "w \<in> live st" and u: "u \<in> live st"
  shows "updates st w (if variation then zval st u - int (unat v) else zval st u + int (unat v)) (mpz_aors_ui variation w u v st)"
proof -
  define un st1 where "un = ABSIZ st u" and "st1 = MPZ_REALLOC w (un + 1) st"
  note U = operand_realloc [OF ok w u, where n = "un + 1", folded st1_def, folded un_def]
  have room: "Suc un \<le> ALLOC st1 w" using U(4) by simp
  define up wp where "up = PTR st1 u" and "wp = PTR st1 w"
  have sep: "MPN_SAME_OR_SEPARATE_P wp up un"
    using U(9) room by (simp add: up_def wp_def MPN_SAME_OR_SEPARATE_P_def)
  define A us where "A = mval (heap st1) up un" and "us = SIZ st u"
  have A: "int A = \<bar>zval st u\<bar>" using U(8) by (simp add: A_def up_def)
  have un: "nat \<bar>us\<bar> = un" by (simp add: un_def us_def ABSIZ_SIZ)
  have z: "zval st u = with_sign (us < 0) A"
    using zval_sgn [OF ok u] A by (cases "us < 0") (auto simp: with_sign_def us_def abs_if sgn_if split: if_splits)
  have topA: "LB ^ (un - 1) \<le> A" if "un \<noteq> 0"
    using mval_ABSIZ_ge [OF U(1,3)] that U(5,6) by (simp add: A_def up_def un_def)
  have lift: "updates st w k st2" if "updates st1 w k st2" for k st2
    using updates_realloc [OF ok w] that unfolding st1_def by blast
  define res where "res = (if variation then zval st u - int (unat v) else zval st u + int (unat v))"
  have def_eq: "mpz_aors_ui variation w u v st =
     (if un = 0 then set_SIZ w (if variation then - of_bool (v \<noteq> 0) else of_bool (v \<noteq> 0)) (set_heap ((heap st1)(wp := v)) st1)
      else if (if variation then us < 0 else us \<ge> 0)
      then (let (cy, m) = mpn_add_1 wp up un v (heap st1)
            in set_SIZ w (with_sign variation (un + unat cy)) (set_heap (m(wp + un := cy)) st1))
      else if un = 1 \<and> heap st1 up < v
      then set_SIZ w (with_sign variation 1) (set_heap ((heap st1)(wp := v - heap st1 up)) st1)
      else (let (_, m) = mpn_sub_1 wp up un v (heap st1)
            in set_SIZ w (with_sign (\<not> variation) (un - of_bool (m (wp + un - 1) = 0))) (set_heap m st1)))"
    unfolding mpz_aors_ui_def Let_def us_def [symmetric] un st1_def [symmetric] up_def [symmetric] wp_def [symmetric]
      with_sign_def by simp
  consider "un = 0" | "un \<noteq> 0" "if variation then us < 0 else us \<ge> 0"
    | "un \<noteq> 0" "us < 0 \<longleftrightarrow> \<not> variation" "un = 1" "heap st1 up < v"
    | "un \<noteq> 0" "us < 0 \<longleftrightarrow> \<not> variation" "un = 1 \<longrightarrow> v \<le> heap st1 up"
    by (cases variation; cases "us < 0"; cases "un = 0"; cases "un = 1"; cases "heap st1 up < v") (auto simp: not_less)
  then have "updates st w res (mpz_aors_ui variation w u v st)"
  proof cases
    case 1
    then have "zval st u = 0" using z by (simp add: A_def with_sign_def)
    then have "res = (if variation then - int (unat v) else int (unat v))" by (simp add: res_def)
    then show ?thesis
      using lift [OF one_limb_spec [OF U(1,2), where neg = variation and v = v, OF refl]] 1
      unfolding def_eq by (simp add: wp_def)
  next
    case 2
    obtain c m where eq: "mpn_add_1 wp up un v (heap st1) = (c, m)" by fastforce
    note S = mpn_add_1_spec [OF eq _ sep, folded A_def]
    have un1: "1 \<le> un" using 2 by simp
    have c: "unat c = of_bool (c \<noteq> 0)" using S(2) [OF un1] by (cases "unat c") (auto simp: unat_eq_0 unat_gt_0)
    have top: "un = 0 \<or> m (wp + un - 1) \<noteq> 0" if "c = 0"
      by (rule top_not_zero) (use topA S(1) [OF un1] 2 that in simp)
    have "with_sign variation (A + unat v) = res"
      using 2(2) z by (cases variation) (simp_all add: res_def with_sign_def)
    then show ?thesis
      unfolding def_eq using 2 eq S(1) [OF un1]
        lift [OF result_carry [OF U(1,2), of un m c "un + unat c" variation]] S(3) [OF un1] room top c
      by (simp add: wp_def)
  next
    case 3
    define m where "m = (heap st1)(wp := v - heap st1 up)"
    have a: "A = unat (heap st1 up)" using 3 by (simp add: A_def)
    have d: "unat (v - heap st1 up) = unat v - A" "A < unat v"
      using unat_minus_limb [of "heap st1 up" v] 3(4) by (simp_all add: a limb_less_iff limb_le_iff)
    have "only_in wp (ALLOC st1 w) (heap st1) m" using room unfolding m_def by (intro only_in_upd) auto
    moreover have "m wp \<noteq> 0" using 3(4) by (auto simp: m_def)
    ultimately have "updates st1 w (with_sign variation (mval m wp 1)) (set_SIZ w (with_sign variation 1) (set_heap m st1))"
      using result_sized [OF U(1,2), of m 1 variation] room by (simp add: wp_def)
    moreover have "with_sign variation (mval m wp 1) = res"
      using 3(2) z d by (cases variation) (simp_all add: m_def res_def with_sign_def)
    ultimately show ?thesis
      unfolding def_eq m_def using 3 lift by (cases variation) simp_all
  next
    case 4
    obtain c m where eq: "mpn_sub_1 wp up un v (heap st1) = (c, m)" by fastforce
    note S = mpn_sub_1_spec [OF eq _ sep, folded A_def]
    have un1: "1 \<le> un" using 4 by simp
    have vA: "unat v \<le> A"
    proof (cases "un = 1")
      case True
      then show ?thesis using 4(3) by (simp add: A_def limb_le_iff)
    next
      case False
      then have "LB ^ 1 \<le> LB ^ (un - 1)" using un1 by (intro power_increasing) auto
      then show ?thesis using topA 4(1) unat_lt_LB [of v] by simp
    qed
    have "c = 0" by (rule no_borrow_le [OF S(1) [OF un1] vA mval_less])
    then have D: "mval m wp un + unat v = A" using S(1) [OF un1] by simp
    define k where "k = un - of_bool (m (wp + un - 1) = 0)"
    have "k = 0 \<or> m (wp + k - 1) \<noteq> 0"
      using sub_small_top [OF D topA] 4(1) by (cases "un = 1") (auto simp: k_def)
    moreover have "mval m wp k = mval m wp un"
      using un1 by (cases un) (auto simp: k_def mval_high simp del: mval.simps)
    moreover have "only_in wp (ALLOC st1 w) (heap st1) m"
      by (rule only_in_mono [OF S(3) [OF un1]]) (use room in auto)
    ultimately have "updates st1 w (with_sign (\<not> variation) (mval m wp un)) (set_SIZ w (with_sign (\<not> variation) k) (set_heap m st1))"
      using result_sized [OF U(1,2), of m k "\<not> variation"] room by (simp add: wp_def k_def)
    moreover have "with_sign (\<not> variation) (mval m wp un) = res"
      using 4(2) z D by (cases variation) (auto simp: res_def with_sign_def)
    moreover have "\<not> (if variation then us < 0 else us \<ge> 0)" using 4(2) by auto
    moreover have "\<not> (un = 1 \<and> heap st1 up < v)" using 4(3) by auto
    ultimately show ?thesis
      unfolding def_eq eq k_def using 4(1) lift by (simp only: if_False Let_def case_prod_conv)
  qed
  then show ?thesis by (simp add: res_def)
qed

interpretation mpz_add_ui: mpz_unop "\<lambda>w u. mpz_add_ui w u v" "\<lambda>a. a + int (unat v)" for v
  using mpz_aors_ui_spec [where variation = False] by unfold_locales (simp add: mpz_add_ui_def)

interpretation mpz_sub_ui: mpz_unop "\<lambda>w u. mpz_sub_ui w u v" "\<lambda>a. a - int (unat v)" for v
  using mpz_aors_ui_spec [where variation = True] by unfold_locales (simp add: mpz_sub_ui_def)

section \<open>Comparison\<close>

definition mpz_cmp :: "var \<Rightarrow> var \<Rightarrow> state \<Rightarrow> int" where
  "mpz_cmp u v st =
     (let usize = SIZ st u;
          vsize = SIZ st v;
          dsize = usize - vsize
      in if dsize \<noteq> 0 then dsize
         else (let asize = nat \<bar>usize\<bar>;
                   up = PTR st u;
                   vp = PTR st v;
                   cmp = mpn_cmp (heap st) up vp asize
               in if usize \<ge> 0 then cmp else - cmp))"

definition mpz_cmpabs :: "var \<Rightarrow> var \<Rightarrow> state \<Rightarrow> int" where
  "mpz_cmpabs u v st =
     (let usize = ABSIZ st u;
          vsize = ABSIZ st v;
          dsize = int usize - int vsize
      in if dsize \<noteq> 0 then dsize
         else (let up = PTR st u;
                   vp = PTR st v
               in mpn_cmp (heap st) up vp usize))"

definition mpz_cmp_ui :: "var \<Rightarrow> limb \<Rightarrow> state \<Rightarrow> int" where
  "mpz_cmp_ui u v_digit st =
     (let up = PTR st u;
          un = SIZ st u
      in if un = 0 then - of_bool (v_digit \<noteq> 0)
         else if un = 1
         then (let ul = heap st up
               in if ul > v_digit then 1 else if ul < v_digit then - 1 else 0)
         else if un > 0 then 1 else - 1)"

definition mpz_cmp_si :: "var \<Rightarrow> limb \<Rightarrow> state \<Rightarrow> int" where
  "mpz_cmp_si u v_digit st =
     (let usize = SIZ st u;
          (vsize, v_digit) = (if sint v_digit > 0 then (1, v_digit)
                              else if sint v_digit < 0 then (- 1, - v_digit) else (0, v_digit))
      in if usize \<noteq> vsize then usize - vsize
         else if usize = 0 then 0
         else (let u_digit = heap st (PTR st u)
               in if u_digit = v_digit then 0
                  else if u_digit > v_digit then usize else - usize))"

definition mpz_cmpabs_ui :: "var \<Rightarrow> limb \<Rightarrow> state \<Rightarrow> int" where
  "mpz_cmpabs_ui u v_digit st =
     (let up = PTR st u;
          un = SIZ st u
      in if un = 0 then - of_bool (v_digit \<noteq> 0)
         else (let un = \<bar>un\<bar>
               in if un = 1
                  then (let ul = heap st up
                        in if ul > v_digit then 1 else if ul < v_digit then - 1 else 0)
                  else 1))"

text \<open>A number with more limbs is larger.\<close>

lemma size_less:
  assumes "store_ok st" "u \<in> live st" "v \<in> live st" "SIZ st u < SIZ st v"
  shows "zval st u < zval st v"
proof -
  have B: "int (LB ^ (ABSIZ st x - 1)) \<le> \<bar>zval st x\<bar>" "\<bar>zval st x\<bar> < int (LB ^ ABSIZ st x)" if "x \<in> live st" "SIZ st x \<noteq> 0" for x
    using mval_ABSIZ_ge [OF assms(1) that] zval_abs [OF assms(1) that(1)] mval_less [of "heap st" "PTR st x" "ABSIZ st x"]
    by (simp_all only: of_nat_le_iff of_nat_less_iff)
  have S: "sgn (zval st u) = sgn (SIZ st u)" "sgn (zval st v) = sgn (SIZ st v)"
    using zval_sgn assms by auto
  have mono: "LB ^ a \<le> LB ^ (b - 1)" if "a < b" for a b
    using that by (intro power_increasing) auto
  consider "SIZ st u \<le> 0" "SIZ st v \<ge> 0" | "SIZ st u > 0" "SIZ st v > 0" | "SIZ st u < 0" "SIZ st v < 0"
    using assms(4) by (cases "SIZ st u > 0"; cases "SIZ st v < 0") auto
  then show ?thesis
  proof cases
    case 1
    then show ?thesis using S assms(4) by (auto simp: sgn_if split: if_splits)
  next
    case 2
    then have "ABSIZ st u < ABSIZ st v" using assms(4) by (simp add: ABSIZ_SIZ)
    then have "int (LB ^ ABSIZ st u) \<le> int (LB ^ (ABSIZ st v - 1))" using mono by (simp only: of_nat_le_iff)
    then have "\<bar>zval st u\<bar> < \<bar>zval st v\<bar>" using B(2) [of u] B(1) [of v] 2 assms(2,3) by linarith
    then show ?thesis using S 2 by (auto simp: sgn_if split: if_splits)
  next
    case 3
    then have "ABSIZ st v < ABSIZ st u" using assms(4) by (simp add: ABSIZ_SIZ)
    then have "int (LB ^ ABSIZ st v) \<le> int (LB ^ (ABSIZ st u - 1))" using mono by (simp only: of_nat_le_iff)
    then have "\<bar>zval st v\<bar> < \<bar>zval st u\<bar>" using B(2) [of v] B(1) [of u] 3 assms(2,3) by linarith
    then show ?thesis using S 3 by (auto simp: sgn_if split: if_splits)
  qed
qed

lemma mpz_cmp_spec:
  assumes "store_ok st" "u \<in> live st" "v \<in> live st"
  shows "sgn (mpz_cmp u v st) = sgn (zval st u - zval st v)"
proof (cases "SIZ st u = SIZ st v")
  case True
  have "mpz_cmp u v st = (let c = mpn_cmp (heap st) (PTR st u) (PTR st v) (ABSIZ st u) in if SIZ st u \<ge> 0 then c else - c)"
    using True by (simp add: mpz_cmp_def Let_def ABSIZ_SIZ)
  moreover have "ABSIZ st v = ABSIZ st u" using True by (simp add: ABSIZ_SIZ)
  ultimately show ?thesis
    using True by (cases "SIZ st u" "0 :: int" rule: linorder_cases)
      (auto simp: zval_def mpn_cmp_spec Let_def sgn_if ABSIZ_SIZ)
next
  case False
  then have "mpz_cmp u v st = SIZ st u - SIZ st v" by (simp add: mpz_cmp_def Let_def)
  then show ?thesis using size_less [OF assms] size_less [OF assms(1,3,2)] False by (auto simp: sgn_if)
qed

lemma mpz_cmpabs_spec:
  assumes "store_ok st" "u \<in> live st" "v \<in> live st"
  shows "sgn (mpz_cmpabs u v st) = sgn (\<bar>zval st u\<bar> - \<bar>zval st v\<bar>)"
proof -
  have less: "\<bar>zval st x\<bar> < \<bar>zval st y\<bar>" if "x \<in> live st" "y \<in> live st" "ABSIZ st x < ABSIZ st y" for x y
  proof -
    have "mval (heap st) (PTR st x) (ABSIZ st x) < LB ^ ABSIZ st x" by (rule mval_less)
    also have "\<dots> \<le> LB ^ (ABSIZ st y - 1)" using that(3) by (intro power_increasing) auto
    also have "\<dots> \<le> mval (heap st) (PTR st y) (ABSIZ st y)"
      using that(3) by (intro mval_ABSIZ_ge assms(1) that(2)) (auto simp: ABSIZ_SIZ)
    finally show ?thesis using zval_abs assms(1) that(1,2) by simp
  qed
  show ?thesis
  proof (cases "ABSIZ st u = ABSIZ st v")
    case True
    then show ?thesis using zval_abs assms by (simp add: mpz_cmpabs_def Let_def mpn_cmp_spec sgn_if)
  next
    case False
    then have "mpz_cmpabs u v st = int (ABSIZ st u) - int (ABSIZ st v)" by (simp add: mpz_cmpabs_def Let_def)
    then show ?thesis using less [of u v] less [of v u] assms False by (auto simp: sgn_if)
  qed
qed

lemma int_limb_less: "int (unat (v :: limb)) < int LB"
  using unat_lt_LB [of v] by (simp only: of_nat_less_iff)

text \<open>A variable against a number of one limb, by the number of limbs of the variable.\<close>

lemma one_limb_cases:
  assumes "store_ok st" "u \<in> live st"
  obtains "SIZ st u = 0" "zval st u = 0"
    | "SIZ st u = 1" "zval st u = int (unat (heap st (PTR st u)))" "0 < int (unat (heap st (PTR st u)))"
    | "SIZ st u = - 1" "zval st u = - int (unat (heap st (PTR st u)))" "0 < int (unat (heap st (PTR st u)))"
    | "1 < SIZ st u" "int LB \<le> zval st u"
    | "SIZ st u < - 1" "zval st u \<le> - int LB"
proof -
  have big: "int LB \<le> \<bar>zval st u\<bar>" if "1 < \<bar>SIZ st u\<bar>"
  proof -
    have "LB ^ 1 \<le> LB ^ (ABSIZ st u - 1)" using that by (intro power_increasing) (auto simp: ABSIZ_SIZ)
    also have "\<dots> \<le> mval (heap st) (PTR st u) (ABSIZ st u)" using that by (intro mval_ABSIZ_ge assms) auto
    finally show ?thesis using zval_abs [OF assms] by simp
  qed
  have one: "zval st u = sgn (SIZ st u) * int (unat (heap st (PTR st u)))" "0 < int (unat (heap st (PTR st u)))" if "\<bar>SIZ st u\<bar> = 1"
    using that wf_ok [OF assms] by (auto simp: zval_def mpz_ok_def ABSIZ_SIZ word_uint_eq_iff less_le)
  have sg: "sgn (zval st u) = sgn (SIZ st u)" by (rule zval_sgn [OF assms])
  consider "SIZ st u = 0" | "SIZ st u = 1" | "SIZ st u = - 1" | "1 < SIZ st u" | "SIZ st u < - 1" by linarith
  then show thesis
  proof cases
    case 1
    then show thesis using that(1) by (simp add: zval_def)
  next
    case 2
    then show thesis using that(2) one by simp
  next
    case 3
    then show thesis using that(3) one by simp
  next
    case 4
    then show thesis using that(4) big sg by (auto simp: sgn_if split: if_splits)
  next
    case 5
    then show thesis using that(5) big sg by (auto simp: sgn_if split: if_splits)
  qed
qed

lemma mpz_cmp_ui_spec:
  assumes "store_ok st" "u \<in> live st"
  shows "sgn (mpz_cmp_ui u v st) = sgn (zval st u - int (unat v))"
proof -
  obtain k where v: "k = uint v" "0 \<le> k" "k < int LB" using int_limb_less [of v] by simp
  from assms show ?thesis
  proof (cases rule: one_limb_cases)
    case 1
    then show ?thesis by (cases "v = 0") (simp_all add: mpz_cmp_ui_def Let_def sgn_if word_uint_eq_iff)
  next
    case 2
    then show ?thesis by (simp add: mpz_cmp_ui_def Let_def word_less_def sgn_if)
  qed (use v(2,3) in \<open>simp_all add: mpz_cmp_ui_def Let_def sgn_if v(1) [symmetric]\<close>)
qed

lemma mpz_cmpabs_ui_spec:
  assumes "store_ok st" "u \<in> live st"
  shows "sgn (mpz_cmpabs_ui u v st) = sgn (\<bar>zval st u\<bar> - int (unat v))"
proof -
  obtain k where v: "k = uint v" "0 \<le> k" "k < int LB" using int_limb_less [of v] by simp
  from assms show ?thesis
  proof (cases rule: one_limb_cases)
    case 1
    then show ?thesis by (cases "v = 0") (simp_all add: mpz_cmpabs_ui_def Let_def sgn_if word_uint_eq_iff)
  next
    case 2
    then show ?thesis by (simp add: mpz_cmpabs_ui_def Let_def word_less_def sgn_if)
  next
    case 3
    then show ?thesis by (simp add: mpz_cmpabs_ui_def Let_def word_less_def sgn_if)
  qed (use v(2,3) in \<open>simp_all add: mpz_cmpabs_ui_def Let_def sgn_if v(1) [symmetric]\<close>)
qed

lemma sint_limb_neg: "sint (v :: limb) < 0 \<Longrightarrow> sint v = - int (unat (- v)) \<and> 0 < unat (- v)"
proof -
  assume "sint v < 0"
  then have "\<not> unat v < 2 ^ 31" by (simp add: sint_limb split: if_splits)
  then have s: "sint v = int (unat v) - int LB" and "v \<noteq> 0" by (auto simp: sint_limb)
  then have "unat (- v) + unat v = LB" using sub_borrow [of 0 v] by (simp add: word_greater_zero_iff)
  then have "int (unat v) - int LB = - int (unat (- v))" by linarith
  then show ?thesis using s \<open>v \<noteq> 0\<close> by (simp add: unat_gt_0)
qed

lemma sint_limb_nonneg: "sint (v :: limb) \<ge> 0 \<Longrightarrow> sint v = int (unat v)"
  using unat_lt_LB [of v] by (simp add: sint_limb split: if_splits)

lemma mpz_cmp_si_spec:
  assumes "store_ok st" "u \<in> live st"
  shows "sgn (mpz_cmp_si u v st) = sgn (zval st u - sint v)"
proof -
  define d where "d = (if sint v < 0 then - v else v)"
  have d: "\<bar>sint v\<bar> = int (unat d)" "int (unat d) < int LB"
    using sint_limb_neg [of v] sint_limb_nonneg [of v] int_limb_less [of d] by (auto simp: d_def)
  have def_eq: "mpz_cmp_si u v st =
     (if SIZ st u \<noteq> sgn (sint v) then SIZ st u - sgn (sint v)
      else if SIZ st u = 0 then 0
      else if heap st (PTR st u) = d then 0
      else if heap st (PTR st u) > d then SIZ st u else - SIZ st u)"
    by (auto simp: mpz_cmp_si_def Let_def d_def sgn_if)
  from assms show ?thesis
  proof (cases rule: one_limb_cases)
    case 1
    then show ?thesis by (simp add: def_eq)
  next
    case 2
    then show ?thesis using d unfolding def_eq by (auto simp: word_less_def word_uint_eq_iff sgn_if)
  next
    case 3
    then show ?thesis using d unfolding def_eq by (auto simp: word_less_def word_uint_eq_iff sgn_if)
  next
    case 4
    then show ?thesis using d unfolding def_eq by (auto simp: sgn_if LB_def)
  next
    case 5
    then show ?thesis using d unfolding def_eq by (auto simp: sgn_if LB_def)
  qed
qed

section \<open>Multiplication by a limb (\<open>mul_i.h\<close>)\<close>

definition mpz_mul_i :: "bool \<Rightarrow> var \<Rightarrow> var \<Rightarrow> limb \<Rightarrow> state \<Rightarrow> state" where
  "mpz_mul_i is_signed prd mult small_mult st =
     (let sz = SIZ st mult;
          sign_product = sz
      in if sz = 0 \<or> small_mult = 0 then set_SIZ prd 0 st
         else (let sz = nat \<bar>sz\<bar>;
                   sml = (if is_signed \<and> sint small_mult < 0 then - small_mult else small_mult);
                   st = MPZ_REALLOC prd (sz + 1) st;
                   pp = PTR st prd;
                   (cy, m) = mpn_mul_1 pp (PTR st mult) sz sml (heap st);
                   m = m(pp + sz := cy);
                   sz = sz + of_bool (cy \<noteq> 0)
               in set_SIZ prd (if (sign_product < 0) \<noteq> (is_signed \<and> sint small_mult < 0) then - int sz else int sz)
                    (set_heap m st)))"

definition mpz_mul_ui :: "var \<Rightarrow> var \<Rightarrow> limb \<Rightarrow> state \<Rightarrow> state" where
  "mpz_mul_ui prd mult small_mult st = mpz_mul_i False prd mult small_mult st"

definition mpz_mul_si :: "var \<Rightarrow> var \<Rightarrow> limb \<Rightarrow> state \<Rightarrow> state" where
  "mpz_mul_si prd mult small_mult st = mpz_mul_i True prd mult small_mult st"

text \<open>The value 0, and the value by sign and magnitude.\<close>

lemma zero_result: "store_ok st \<Longrightarrow> w \<in> live st \<Longrightarrow> updates st w 0 (set_SIZ w 0 st)"
  using result_sized [of st w "heap st" 0 False] by (simp add: with_sign_def)

lemma zval_with_sign: "store_ok st \<Longrightarrow> u \<in> live st \<Longrightarrow> int A = \<bar>zval st u\<bar> \<Longrightarrow> zval st u = with_sign (SIZ st u < 0) A"
  using zval_sgn [of st u] by (auto simp: with_sign_def sgn_if split: if_splits)

lemma mpz_mul_i_spec:
  assumes ok: "store_ok st" and w: "w \<in> live st" and u: "u \<in> live st"
  shows "updates st w (zval st u * (if is_signed then sint v else int (unat v))) (mpz_mul_i is_signed w u v st)"
proof (cases "SIZ st u = 0 \<or> v = 0")
  case True
  then have z: "zval st u * (if is_signed then sint v else int (unat v)) = 0" by (auto simp: zval_def)
  show ?thesis unfolding z using zero_result [OF ok w] True by (simp add: mpz_mul_i_def Let_def)
next
  case False
  define un st1 where "un = ABSIZ st u" and "st1 = MPZ_REALLOC w (un + 1) st"
  note U = operand_realloc [OF ok w u, where n = "un + 1", folded st1_def, folded un_def]
  define neg sml where "neg = (is_signed \<and> sint v < 0)" and "sml = (if neg then - v else v)"
  define A where "A = mval (heap st1) (PTR st1 u) un"
  have A: "int A = \<bar>zval st u\<bar>" using U(8) by (simp add: A_def)
  obtain c m where eq: "mpn_mul_1 (PTR st1 w) (PTR st1 u) un sml (heap st1) = (c, m)" by fastforce
  have ov: "MPN_SAME_OR_INCR_P (PTR st1 w) (PTR st1 u) un"
    using U(4) by (intro incr_of_separate(1) U(9)) simp_all
  note S = mpn_mul_1_spec [OF eq ov, folded A_def]
  have v: "(if is_signed then sint v else int (unat v)) = with_sign neg (unat sml)" "sml \<noteq> 0"
    using sint_limb_neg [of v] sint_limb_nonneg [of v] False by (auto simp: neg_def sml_def with_sign_def)
  have val: "zval st u * (if is_signed then sint v else int (unat v)) = with_sign ((SIZ st u < 0) \<noteq> neg) (A * unat sml)"
    unfolding v(1) zval_with_sign [OF ok u A] by (simp add: with_sign_def)
  have top: "un = 0 \<or> m (PTR st1 w + un - 1) \<noteq> 0" if "c = 0"
  proof (rule top_not_zero)
    have "LB ^ (un - 1) \<le> A" using mval_ABSIZ_ge [OF U(1,3)] False U(5,6) by (simp add: A_def un_def)
    also have "A * 1 \<le> A * unat sml" using v(2) by (intro mult_le_mono2) (simp add: unat_gt_0 Suc_leI)
    finally show "LB ^ (un - 1) \<le> mval m (PTR st1 w) un" using S(1) that by simp
  qed
  have "mpz_mul_i is_signed w u v st
      = set_SIZ w (with_sign ((SIZ st u < 0) \<noteq> neg) (un + of_bool (c \<noteq> 0))) (set_heap (m(PTR st1 w + un := c)) st1)"
    unfolding mpz_mul_i_def Let_def ABSIZ_SIZ [symmetric] un_def [symmetric] st1_def [symmetric] neg_def [symmetric]
      sml_def [symmetric] eq using False by (simp add: with_sign_def)
  moreover have "updates st1 w (with_sign ((SIZ st u < 0) \<noteq> neg) (mval m (PTR st1 w) un + LB ^ un * unat c))
      (set_SIZ w (with_sign ((SIZ st u < 0) \<noteq> neg) (un + of_bool (c \<noteq> 0))) (set_heap (m(PTR st1 w + un := c)) st1))"
    using U(4) by (intro result_carry U S top refl) simp
  ultimately show ?thesis
    unfolding val S(1) using updates_realloc [OF ok w] by (simp add: st1_def)
qed

interpretation mpz_mul_ui: mpz_unop "\<lambda>w u. mpz_mul_ui w u v" "\<lambda>a. a * int (unat v)" for v
  using mpz_mul_i_spec [where is_signed = False] by unfold_locales (simp add: mpz_mul_ui_def)

interpretation mpz_mul_si: mpz_unop "\<lambda>w u. mpz_mul_si w u v" "\<lambda>a. a * sint v" for v
  using mpz_mul_i_spec [where is_signed = True] by unfold_locales (simp add: mpz_mul_si_def)

end
