(* ===== verification/Mpz_Mul.thy ===== *)
theory Mpz_Mul
  imports Mpn_Product Mpz_Arith
begin

text \<open>
  Multiplication of variables (\<open>mpz/mul.c\<close>).  The temporary blocks of the code (a copy of an operand that is also
  the destination, and the workspace of \<open>mpn_mul\<close>) are taken above \<open>brk\<close>; nothing is kept there.
\<close>

unbundle bit_operations_syntax

section \<open>Results with scratch memory\<close>

text \<open>Memory above the allocated blocks does not matter: it may hold anything, and may be handed out.\<close>

lemma above_brk:
  assumes "store_ok st" "\<And>a. a < brk st \<Longrightarrow> m a = heap st a" "brk st \<le> b"
  defines "st' \<equiv> st\<lparr>heap := m, brk := b\<rparr>"
  shows "store_ok st'" "x \<in> live st \<Longrightarrow> zval st' x = zval st x"
proof -
  have hb: "heap st' = m" "brk st' = b" by (simp_all add: st'_def)
  have same [simp]: "live st' = live st" "PTR st' = PTR st" "ALLOC st' = ALLOC st" "SIZ st' = SIZ st" "ABSIZ st' = ABSIZ st"
    by (simp_all add: st'_def PTR_def ALLOC_def SIZ_def ABSIZ_def fun_eq_iff)
  have blk: "m (PTR st x + i) = heap st (PTR st x + i)" if "x \<in> live st" "i < ALLOC st x" for x i
    using wf_ok [OF assms(1) that(1)] that(2) by (intro assms(2)) (simp add: mpz_ok_def)
  have "mpz_ok st' x" if x: "x \<in> live st" for x
  proof -
    have ok: "mpz_ok st x" by (rule wf_ok [OF assms(1) x])
    have "m (PTR st x + ABSIZ st x - 1) \<noteq> 0" if "SIZ st x \<noteq> 0"
      using blk [OF x, of "ABSIZ st x - 1"] ok that by (cases "ABSIZ st x") (auto simp: mpz_ok_def)
    then show ?thesis using ok assms(3) by (simp add: mpz_ok_def hb)
  qed
  then show "store_ok st'" using assms(1) by (simp add: store_ok_def)
  show "zval st' x = zval st x" if "x \<in> live st"
    using mval_other_block [OF assms(1) that, of m] blk [OF that] by (simp add: zval_def hb)
qed

lemma updates_above:
  assumes "updates st w k st'" "w \<in> live st" "\<And>a. a < brk st' \<Longrightarrow> m a = heap st' a" "brk st' \<le> b"
  shows "updates st w k (st'\<lparr>heap := m, brk := b\<rparr>)"
  using assms(1,2) above_brk [OF updatesD(1) [OF assms(1)] assms(3,4)] unfolding updates_def by auto

lemma result_sized_scratch:
  assumes ok: "store_ok st" and w: "w \<in> live st" and at: "only_at ({PTR st w..<PTR st w + ALLOC st w} \<union> {brk st..}) (heap st) m"
    and k: "k \<le> ALLOC st w" "k = 0 \<or> m (PTR st w + k - 1) \<noteq> 0"
  shows "updates st w (with_sign neg (mval m (PTR st w) k)) (set_SIZ w (with_sign neg k) (set_heap m st))"
proof -
  define m0 where "m0 = (\<lambda>a. if a < brk st then m a else heap st a)"
  have b: "PTR st w + ALLOC st w \<le> brk st" using wf_ok [OF ok w] by (simp add: mpz_ok_def)
  have in0: "m0 (PTR st w + i) = m (PTR st w + i)" if "i < ALLOC st w" for i using b that by (simp add: m0_def)
  have "only_in (PTR st w) (ALLOC st w) (heap st) m0"
    unfolding only_at_in [symmetric] using at by (auto simp: only_at_def m0_def)
  moreover have "k = 0 \<or> m0 (PTR st w + k - 1) \<noteq> 0" using k in0 [of "k - 1"] by (cases k) auto
  ultimately have U: "updates st w (with_sign neg (mval m0 (PTR st w) k)) (set_SIZ w (with_sign neg k) (set_heap m0 st))"
    using result_sized [OF ok w _ k(1)] by simp
  have v: "mval m0 (PTR st w) k = mval m (PTR st w) k" using k(1) by (intro mval_cong in0) simp
  have "updates st w (with_sign neg (mval m (PTR st w) k))
      ((set_SIZ w (with_sign neg k) (set_heap m0 st))\<lparr>heap := m, brk := brk (set_SIZ w (with_sign neg k) (set_heap m0 st))\<rparr>)"
    using U w unfolding v by (rule updates_above) (simp_all add: m0_def)
  moreover have "(set_SIZ w (with_sign neg k) (set_heap m0 st))\<lparr>heap := m, brk := brk (set_SIZ w (with_sign neg k) (set_heap m0 st))\<rparr>
      = set_SIZ w (with_sign neg k) (set_heap m st)" by (simp add: set_SIZ_def set_heap_def)
  ultimately show ?thesis by simp
qed

section \<open>Multiplication\<close>

text \<open>The operands of \<open>mpn_mul\<close>: room for the product, and no overlap of it with the factors.\<close>

definition mul_operands :: "var \<Rightarrow> ptr \<Rightarrow> ptr \<Rightarrow> nat \<Rightarrow> nat \<Rightarrow> state \<Rightarrow> ptr \<times> ptr \<times> ptr \<times> state" where
  "mul_operands w up vp usize vsize st =
     (let wp = PTR st w;
          wsize = usize + vsize
      in if ALLOC st w < wsize
         then (let (wp, st) = ALLOCATE_FUNC_LIMBS wsize st
               in (wp, up, vp, st\<lparr>vars := (vars st)(w := (vars st w)\<lparr>mp_alloc := wsize, mp_d := wp\<rparr>)\<rparr>))
         else if wp = up
         then (let (up, st) = ALLOCATE_FUNC_LIMBS usize st;
                   vp = (if wp = vp then up else vp)
               in (wp, up, vp, set_heap (MPN_COPY up wp usize (heap st)) st))
         else if wp = vp
         then (let (vp, st) = ALLOCATE_FUNC_LIMBS vsize st
               in (wp, up, vp, set_heap (MPN_COPY vp wp vsize (heap st)) st))
         else (wp, up, vp, st))"

definition mul_ordered :: "var \<Rightarrow> var \<Rightarrow> var \<Rightarrow> int \<Rightarrow> nat \<Rightarrow> nat \<Rightarrow> state \<Rightarrow> state option" where
  "mul_ordered w u v sign_product usize vsize st =
     (if vsize = 0 then Some (set_SIZ w 0 st)
      else if vsize = 1
      then (let st = MPZ_REALLOC w (usize + 1) st;
                wp = PTR st w;
                (cy_limb, m) = mpn_mul_1 wp (PTR st u) usize (heap st (PTR st v)) (heap st);
                m = m(wp + usize := cy_limb);
                usize = usize + of_bool (cy_limb \<noteq> 0)
            in Some (set_SIZ w (if sign_product \<ge> 0 then int usize else - int usize) (set_heap m st)))
      else (let (wp, up, vp, st) = mul_operands w (PTR st u) (PTR st v) usize vsize st;
                ws = brk st;
                tp = ws + MPN_KARA_SQR_N_TSIZE usize + 2 * vsize
            in do {
              (cy_limb, m) \<leftarrow> mpn_mul wp up usize vp vsize ws tp (heap st);
              let wsize = usize + vsize - of_bool (cy_limb = 0);
              Some (set_SIZ w (if sign_product < 0 then - int wsize else int wsize) (set_heap m st))
            }))"

definition mpz_mul :: "var \<Rightarrow> var \<Rightarrow> var \<Rightarrow> state \<Rightarrow> state option" where
  "mpz_mul w u v st =
     (let usize = SIZ st u;
          vsize = SIZ st v;
          sign_product = usize XOR vsize;
          usize = nat \<bar>usize\<bar>;
          vsize = nat \<bar>vsize\<bar>
      in if usize < vsize then mul_ordered w v u sign_product vsize usize st
         else mul_ordered w u v sign_product usize vsize st)"

text \<open>A fresh block in place of the old one, without a copy of the contents.\<close>

lemma fresh_block:
  assumes ok: "store_ok st" and w: "w \<in> live st" and n: "1 \<le> n"
  defines "st' \<equiv> set_SIZ w 0 (st\<lparr>brk := brk st + n, vars := (vars st)(w := (vars st w)\<lparr>mp_alloc := n, mp_d := brk st\<rparr>)\<rparr>)"
  shows "updates st w 0 st'"
proof -
  have h: "heap st' = heap st" "live st' = live st" "brk st' = brk st + n" by (simp_all add: st'_def)
  have W: "PTR st' w = brk st" "ALLOC st' w = n" "SIZ st' w = 0" "ABSIZ st' w = 0"
    by (simp_all add: st'_def set_SIZ_def PTR_def ALLOC_def SIZ_def ABSIZ_def)
  have X: "PTR st' x = PTR st x" "ALLOC st' x = ALLOC st x" "SIZ st' x = SIZ st x" "ABSIZ st' x = ABSIZ st x" if "x \<noteq> w" for x
    using that by (simp_all add: st'_def set_SIZ_def PTR_def ALLOC_def SIZ_def ABSIZ_def)
  have below: "PTR st x + ALLOC st x \<le> brk st" if "x \<in> live st" for x
    using wf_ok [OF ok that] by (simp add: mpz_ok_def)
  have "mpz_ok st' x" if "x \<in> live st" for x
    using wf_ok [OF ok that] n by (cases "x = w") (auto simp: mpz_ok_def W X h)
  moreover have "\<not> MPN_OVERLAP_P (PTR st' x) (ALLOC st' x) (PTR st' y) (ALLOC st' y)"
    if xy: "x \<in> live st" "y \<in> live st" "x \<noteq> y" for x y
    using wf_sep [OF ok xy] below [OF xy(1)] below [OF xy(2)] xy(3)
    by (cases "x = w"; cases "y = w") (auto simp: W X MPN_OVERLAP_P_def)
  ultimately have "store_ok st'" by (simp add: store_ok_def h)
  then show ?thesis using X by (auto simp: updates_def h zval_def W)
qed

lemma mul_operands_spec:
  assumes ok: "store_ok st" and w: "w \<in> live st" and u: "u \<in> live st" and v: "v \<in> live st"
    and n: "usize = ABSIZ st u" "vsize = ABSIZ st v" "1 \<le> vsize"
    and eq: "mul_operands w (PTR st u) (PTR st v) usize vsize st = (wp, up, vp, st1)"
  shows "updates st w 0 (set_SIZ w 0 st1) \<and> PTR st1 w = wp \<and> usize + vsize \<le> ALLOC st1 w
    \<and> int (mval (heap st1) up usize) = \<bar>zval st u\<bar> \<and> int (mval (heap st1) vp vsize) = \<bar>zval st v\<bar>
    \<and> \<not> MPN_OVERLAP_P wp (usize + vsize) up usize \<and> \<not> MPN_OVERLAP_P wp (usize + vsize) vp vsize
    \<and> up + usize \<le> brk st1 \<and> vp + vsize \<le> brk st1 \<and> (up = vp \<and> usize = vsize \<longrightarrow> u = v)"
proof -
  have below: "PTR st x + ALLOC st x \<le> brk st" "1 \<le> ALLOC st x" "ABSIZ st x \<le> ALLOC st x" if "x \<in> live st" for x
    using wf_ok [OF ok that] by (simp_all add: mpz_ok_def)
  have inj: "PTR st x = PTR st y \<longleftrightarrow> x = y" if "x \<in> live st" "y \<in> live st" for x y
    using wf_sep [OF ok that] below(2) [OF that(1)] below(2) [OF that(2)] by (cases "x = y") auto
  have val: "int (mval (heap st) (PTR st u) usize) = \<bar>zval st u\<bar>" "int (mval (heap st) (PTR st v) vsize) = \<bar>zval st v\<bar>"
    using zval_abs [OF ok] u v n by simp_all
  have copy: "updates st w 0 (set_SIZ w 0 (st\<lparr>brk := brk st + k, heap := mcopy (brk st) (PTR st w) k (heap st)\<rparr>))" for k
  proof -
    have "set_SIZ w 0 (st\<lparr>brk := brk st + k, heap := mcopy (brk st) (PTR st w) k (heap st)\<rparr>)
      = (set_SIZ w 0 st)\<lparr>heap := mcopy (brk st) (PTR st w) k (heap st), brk := brk st + k\<rparr>" by (simp add: set_SIZ_def)
    then show ?thesis
      using updates_above [OF zero_result [OF ok w] w, of "mcopy (brk st) (PTR st w) k (heap st)" "brk st + k"] by simp
  qed
  have cp: "MPN_COPY (brk st) (PTR st w) k m = mcopy (brk st) (PTR st w) k m" if "k \<le> ALLOC st w" for k m
    using below(1) [OF w] that by (intro MPN_COPY_spec) (auto simp: overlap_defs)
  have sep: "\<not> MPN_OVERLAP_P (PTR st w) k (PTR st x) (ABSIZ st x)" if "k \<le> ALLOC st w" "x \<in> live st" "x \<noteq> w" for k x
    using wf_sep [OF ok w that(2)] that(1,3) below(3) [OF that(2)] by (auto simp: MPN_OVERLAP_P_def)
  have copied: "mval (mcopy (brk st) (PTR st w) k m) (brk st) k = mval m (PTR st w) k" for k m
    by (rule mval_cong) simp
  have kept: "mval (mcopy (brk st) p k m) (PTR st x) (ABSIZ st x) = mval m (PTR st x) (ABSIZ st x)" if "x \<in> live st" for x p k m
    using below [OF that] by (intro mval_cong mcopy_out) auto
  consider (fresh) "ALLOC st w < usize + vsize" | (both) "usize + vsize \<le> ALLOC st w" "u = w" "v = w"
    | (fst) "usize + vsize \<le> ALLOC st w" "u = w" "v \<noteq> w" | (snd) "usize + vsize \<le> ALLOC st w" "u \<noteq> w" "v = w"
    | (none) "usize + vsize \<le> ALLOC st w" "u \<noteq> w" "v \<noteq> w" by linarith
  then show ?thesis
  proof cases
    case fresh
    then have r: "wp = brk st" "up = PTR st u" "vp = PTR st v"
      "st1 = st\<lparr>brk := brk st + (usize + vsize), vars := (vars st)(w := (vars st w)\<lparr>mp_alloc := usize + vsize, mp_d := brk st\<rparr>)\<rparr>"
      using eq by (auto simp: mul_operands_def Let_def ALLOCATE_FUNC_LIMBS_def)
    then show ?thesis
      using fresh_block [OF ok w, of "usize + vsize"] n val below [OF u] below [OF v] inj [OF u v]
      by (auto simp: PTR_def ALLOC_def MPN_OVERLAP_P_def)
  next
    case both
    then have us: "usize \<le> ALLOC st w" by simp
    have r: "wp = PTR st w" "up = brk st" "vp = brk st" "st1 = st\<lparr>brk := brk st + usize, heap := mcopy (brk st) (PTR st w) usize (heap st)\<rparr>"
      using eq both by (auto simp: mul_operands_def Let_def ALLOCATE_FUNC_LIMBS_def cp [OF us] set_heap_def)
    then show ?thesis
      using copy [of usize] n val below [OF w] both copied [of usize "heap st"] by (auto simp: PTR_def ALLOC_def MPN_OVERLAP_P_def)
  next
    case fst
    then have us: "usize \<le> ALLOC st w" by simp
    have r: "wp = PTR st w" "up = brk st" "vp = PTR st v" "st1 = st\<lparr>brk := brk st + usize, heap := mcopy (brk st) (PTR st w) usize (heap st)\<rparr>"
      using eq fst inj [OF w v] by (auto simp: mul_operands_def Let_def ALLOCATE_FUNC_LIMBS_def cp [OF us] set_heap_def)
    then show ?thesis
      using copy [of usize] n val below [OF w] below [OF v] fst copied [of usize "heap st"] kept [OF v] sep [OF fst(1) v fst(3)]
      by (auto simp: PTR_def ALLOC_def MPN_OVERLAP_P_def)
  next
    case snd
    then have vs: "vsize \<le> ALLOC st w" by simp
    have r: "wp = PTR st w" "up = PTR st u" "vp = brk st" "st1 = st\<lparr>brk := brk st + vsize, heap := mcopy (brk st) (PTR st w) vsize (heap st)\<rparr>"
      using eq snd inj [OF w u] by (auto simp: mul_operands_def Let_def ALLOCATE_FUNC_LIMBS_def cp [OF vs] set_heap_def)
    then show ?thesis
      using copy [of vsize] n val below [OF w] below [OF u] snd copied [of vsize "heap st"] kept [OF u] sep [OF snd(1) u snd(2)]
      by (auto simp: PTR_def ALLOC_def MPN_OVERLAP_P_def)
  next
    case none
    have r: "wp = PTR st w" "up = PTR st u" "vp = PTR st v" "st1 = st"
      using eq none inj [OF w u] inj [OF w v] by (auto simp: mul_operands_def Let_def)
    then show ?thesis
      using zero_result [OF ok w] val below [OF u] below [OF v] none sep [OF none(1) u none(2)] sep [OF none(1) v none(3)] n inj [OF u v]
      by auto
  qed
qed

lemma mul_ordered_spec:
  assumes ok: "store_ok st" and w: "w \<in> live st" and u: "u \<in> live st" and v: "v \<in> live st"
    and n: "vsize \<le> usize" "usize = ABSIZ st u" "vsize = ABSIZ st v" and sgn: "sgp = SIZ st u XOR SIZ st v"
    and small: "vsize < MUL_TOOM3_THRESHOLD" "u = v \<longrightarrow> usize < SQR_TOOM3_THRESHOLD"
  shows "\<exists>st'. mul_ordered w u v sgp usize vsize st = Some st' \<and> updates st w (zval st u * zval st v) st'"
proof -
  define neg where "neg = ((SIZ st u < 0) \<noteq> (SIZ st v < 0))"
  have neg: "sgp < 0 \<longleftrightarrow> neg" "0 \<le> sgp \<longleftrightarrow> \<not> neg" unfolding sgn neg_def not_le [symmetric] by (simp_all add: xor_nonnegative_int_iff)
  have val: "zval st u * zval st v = with_sign neg (A * B)"
    if "int A = \<bar>zval st u\<bar>" "int B = \<bar>zval st v\<bar>" for A B
    unfolding zval_with_sign [OF ok u that(1)] zval_with_sign [OF ok v that(2)] by (simp add: with_sign_def neg_def)
  consider "vsize = 0" | "vsize = 1" | "2 \<le> vsize" by linarith
  then show ?thesis
  proof cases
    case 1
    then have "zval st v = 0" using n(3) by (simp add: zval_def)
    then show ?thesis using 1 zero_result [OF ok w] by (simp add: mul_ordered_def)
  next
    case 2
    define st1 B where "st1 = MPZ_REALLOC w (usize + 1) st" and "B = heap st1 (PTR st1 v)"
    note U = operand_realloc [OF ok w u, where n = "usize + 1", folded st1_def, folded n(2)]
    note V = operand_realloc [OF ok w v, where n = "usize + 1", folded st1_def, folded n(3)]
    define A where "A = mval (heap st1) (PTR st1 u) usize"
    have A: "int A = \<bar>zval st u\<bar>" using U(8) by (simp add: A_def)
    have B: "int (unat B) = \<bar>zval st v\<bar>" using V(8) 2 by (simp add: B_def)
    have B0: "B \<noteq> 0" using B 2 n(3) zval_0_iff [OF ok v] by (auto simp: ABSIZ_SIZ)
    obtain c m where eq: "mpn_mul_1 (PTR st1 w) (PTR st1 u) usize B (heap st1) = (c, m)" by fastforce
    have ov: "MPN_SAME_OR_INCR_P (PTR st1 w) (PTR st1 u) usize"
      using U(4) by (intro incr_of_separate(1) U(9)) simp_all
    note S = mpn_mul_1_spec [OF eq ov, folded A_def]
    have top: "usize = 0 \<or> m (PTR st1 w + usize - 1) \<noteq> 0" if "c = 0"
    proof (rule top_not_zero)
      have "SIZ st u \<noteq> 0" using 2 n by (auto simp: ABSIZ_SIZ)
      then have "LB ^ (usize - 1) \<le> A" using mval_ABSIZ_ge [OF U(1,3)] U(5,6) n(2) by (simp add: A_def)
      also have "A * 1 \<le> A * unat B" using B0 by (intro mult_le_mono2) (simp add: unat_gt_0 Suc_leI)
      finally show "LB ^ (usize - 1) \<le> mval m (PTR st1 w) usize" using S(1) that by simp
    qed
    have "mul_ordered w u v sgp usize vsize st
        = Some (set_SIZ w (with_sign neg (usize + of_bool (c \<noteq> 0))) (set_heap (m(PTR st1 w + usize := c)) st1))"
      using 2 eq unfolding mul_ordered_def Let_def st1_def [symmetric] B_def [symmetric] by (simp add: neg with_sign_def)
    moreover have "updates st1 w (with_sign neg (mval m (PTR st1 w) usize + LB ^ usize * unat c))
        (set_SIZ w (with_sign neg (usize + of_bool (c \<noteq> 0))) (set_heap (m(PTR st1 w + usize := c)) st1))"
      using U(4) by (intro result_carry U S top refl) simp
    ultimately show ?thesis
      unfolding val [OF A B] S(1) using updates_realloc [OF ok w] by (simp add: st1_def)
  next
    case 3
    obtain wp up vp st1 where eq: "mul_operands w (PTR st u) (PTR st v) usize vsize st = (wp, up, vp, st1)" by (metis prod_cases4)
    have v1: "1 \<le> vsize" using 3 by simp
    note O = mul_operands_spec [OF ok w u v n(2,3) v1 eq]
    define st2 where "st2 = set_SIZ w 0 st1"
    have U2: "updates st w 0 st2" using O by (simp add: st2_def)
    note D = updatesD [OF U2]
    have same: "heap st2 = heap st1" "brk st2 = brk st1" "PTR st2 = PTR st1" "ALLOC st2 = ALLOC st1" by (auto simp: st2_def)
    have w2: "w \<in> live st2" using D(2) w by simp
    have wb: "wp + (usize + vsize) \<le> brk st1" using wf_ok [OF D(1) w2] O by (simp add: mpz_ok_def same)
    define s r ws tp where "s = MPN_KARA_SQR_N_TSIZE usize + 2 * vsize" and "r = MPN_KARA_MUL_N_TSIZE vsize + 2 * SQR_KARATSUBA_THRESHOLD"
      and "ws = brk st1" and "tp = ws + MPN_KARA_SQR_N_TSIZE usize + 2 * vsize"
    have tp: "tp = ws + s" by (simp add: tp_def s_def)
    have "vsize < LB" using small by (simp add: LB_def MUL_TOOM3_THRESHOLD_def)
    then have rm: "2 * vsize \<le> s" "kara_room vsize \<le> r" "2 * SQR_KARATSUBA_THRESHOLD \<le> r"
      using kara_room_TSIZE(1) [of vsize] by (simp_all add: s_def r_def)
    have sq: "usize < SQR_TOOM3_THRESHOLD \<and> kara_room usize \<le> s" if "up = vp \<and> usize = vsize"
    proof -
      have us: "usize < SQR_TOOM3_THRESHOLD" using that O small by blast
      then have "usize < LB" by (simp add: SQR_TOOM3_THRESHOLD_def LB_def)
      then show ?thesis using us kara_room_TSIZE(2) [of usize] by (simp add: s_def)
    qed
    obtain m where m: "mpn_mul wp up usize vp vsize ws tp (heap st1) = Some (m (wp + usize + vsize - 1), m)"
      "mval m wp (usize + vsize) = mval (heap st1) up usize * mval (heap st1) vp vsize"
      "only_at ({wp..<wp + (usize + vsize)} \<union> {ws..<ws + s} \<union> {tp..<tp + r}) (heap st1) m"
      using mpn_mul_spec [OF v1 n(1) small(1), where prodp = wp and up = up and vp = vp and ws = ws and s = s and tp = tp and r = r and m = "heap st1"]
        O sq rm wb by (auto simp: no_overlap_iff tp ws_def)
    define A B where "A = mval (heap st1) up usize" and "B = mval (heap st1) vp vsize"
    have AB: "int A = \<bar>zval st u\<bar>" "int B = \<bar>zval st v\<bar>" using O by (simp_all add: A_def B_def)
    define c k where "c = m (wp + usize + vsize - 1)" and "k = usize + vsize - of_bool (c = 0)"
    have ge: "LB ^ (usize + vsize - 2) \<le> A * B"
    proof -
      have "SIZ st u \<noteq> 0" "SIZ st v \<noteq> 0" using 3 n by (auto simp: ABSIZ_SIZ)
      then have "int (LB ^ (usize - 1)) \<le> int A" "int (LB ^ (vsize - 1)) \<le> int B"
        using mval_ABSIZ_ge [OF ok u] mval_ABSIZ_ge [OF ok v] zval_abs [OF ok u] zval_abs [OF ok v] AB n 3 by auto
      then have "LB ^ (usize - 1) * LB ^ (vsize - 1) \<le> A * B" by (intro mult_le_mono) simp_all
      moreover have "usize - 1 + (vsize - 1) = usize + vsize - 2" using n(1) 3 by simp
      ultimately show ?thesis by (simp only: power_add [symmetric])
    qed
    obtain j where j: "usize + vsize = Suc (Suc j)" using 3 n(1) by (metis add_2_eq_Suc le_Suc_ex add.assoc)
    have top: "k = 0 \<or> m (wp + k - 1) \<noteq> 0" and mk: "mval m wp k = A * B"
    proof -
      have c: "c = m (wp + Suc j)" using j by (simp add: c_def add.assoc)
      have full: "mval m wp (Suc (Suc j)) = A * B" using m(2) j by (simp add: A_def B_def del: mval.simps)
      have "k = Suc (Suc j) \<and> c \<noteq> 0 \<or> k = Suc j \<and> c = 0" using j by (simp add: k_def)
      moreover have "mval m wp (Suc j) = A * B" if "c = 0" using full that c by (simp add: mval_high [of m wp "Suc j"] del: mval.simps)
      ultimately show "mval m wp k = A * B" using full by auto
      have "m (wp + j) \<noteq> 0" if "c = 0"
      proof -
        have "mval m wp (Suc j) = A * B" using full that c by (simp add: mval_high [of m wp "Suc j"] del: mval.simps)
        then have "LB ^ (Suc j - 1) \<le> mval m wp (Suc j)" using ge j by (simp del: mval.simps)
        from top_not_zero [OF this] show ?thesis by simp
      qed
      then show "k = 0 \<or> m (wp + k - 1) \<noteq> 0" using \<open>k = Suc (Suc j) \<and> c \<noteq> 0 \<or> k = Suc j \<and> c = 0\<close> c by auto
    qed
    have at: "only_at ({PTR st2 w..<PTR st2 w + ALLOC st2 w} \<union> {brk st2..}) (heap st2) m"
      by (rule only_at_mono [OF m(3) [folded same]]) (use O in \<open>auto simp: same ws_def tp_def\<close>)
    have "updates st2 w (with_sign neg (mval m wp k)) (set_SIZ w (with_sign neg k) (set_heap m st2))"
    proof -
      have "k \<le> usize + vsize" by (simp add: k_def)
      then show ?thesis using result_sized_scratch [OF D(1) w2 at, of k neg] top O by (simp add: same)
    qed
    moreover have "set_SIZ w (with_sign neg k) (set_heap m st2) = set_SIZ w (with_sign neg k) (set_heap m st1)"
      by (simp add: st2_def set_SIZ_def set_heap_def)
    moreover have "mul_ordered w u v sgp usize vsize st = Some (set_SIZ w (with_sign neg k) (set_heap m st1))"
      using 3 eq m(1) unfolding mul_ordered_def Let_def by (simp add: neg with_sign_def c_def k_def ws_def tp_def)
    ultimately show ?thesis using updates_trans [OF U2] unfolding val [OF AB] mk by metis
  qed
qed

text \<open>The contract of \<open>mpz_mul\<close> below the sizes of Toom-3 multiplication; any of the variables may be the same.\<close>

theorem mpz_mul_spec:
  assumes ok: "store_ok st" and w: "w \<in> live st" and u: "u \<in> live st" and v: "v \<in> live st"
    and small: "min (ABSIZ st u) (ABSIZ st v) < MUL_TOOM3_THRESHOLD" "u = v \<longrightarrow> ABSIZ st u < SQR_TOOM3_THRESHOLD"
  shows "\<exists>st'. mpz_mul w u v st = Some st' \<and> updates st w (zval st u * zval st v) st'"
proof (cases "ABSIZ st u < ABSIZ st v")
  case True
  then show ?thesis
    using mul_ordered_spec [OF ok w v u _ refl refl refl] small
    unfolding mpz_mul_def Let_def ABSIZ_SIZ [symmetric] xor.commute [of "SIZ st u"] mult.commute [of "zval st u"] by auto
next
  case False
  then show ?thesis
    using mul_ordered_spec [OF ok w u v _ refl refl refl] small
    unfolding mpz_mul_def Let_def ABSIZ_SIZ [symmetric] by auto
qed

end
