(* ===== verification/Mpn_Logic.thy ===== *)
theory Mpn_Logic
  imports Mpn_PowmLoop Mpz_Mul
begin

text \<open>
  The limb loops of the bit operations on variables (\<open>mpz/and.c\<close>, \<open>ior.c\<close>, \<open>xor.c\<close>): they run from the high limb down,
  apply a limb operation to two vectors, and find the size of the result.  What the vectors then hold is an
  operation on integers, bit by bit.
\<close>

unbundle bit_operations_syntax

section \<open>The loops\<close>

fun logic_loop :: "(limb \<Rightarrow> limb \<Rightarrow> limb) \<Rightarrow> nat \<Rightarrow> ptr \<Rightarrow> ptr \<Rightarrow> ptr \<Rightarrow> mem \<Rightarrow> mem" where
  "logic_loop f 0 rp ap bp m = m"
| "logic_loop f (Suc i) rp ap bp m = logic_loop f i rp ap bp (m(rp + i := f (m (ap + i)) (m (bp + i))))"

fun logic_size :: "(limb \<Rightarrow> limb \<Rightarrow> limb) \<Rightarrow> nat \<Rightarrow> ptr \<Rightarrow> ptr \<Rightarrow> mem \<Rightarrow> nat" where
  "logic_size f 0 ap bp m = 0"
| "logic_size f (Suc i) ap bp m = (if f (m (ap + i)) (m (bp + i)) \<noteq> 0 then Suc i else logic_size f i ap bp m)"

lemma logic_loop_spec:
  assumes "MPN_SAME_OR_SEPARATE_P rp ap n" "MPN_SAME_OR_SEPARATE_P rp bp n"
  shows "logic_loop f n rp ap bp m = (\<lambda>a. if rp \<le> a \<and> a < rp + n then f (m (ap + (a - rp))) (m (bp + (a - rp))) else m a)"
  using assms
proof (induction n arbitrary: m)
  case (Suc n)
  have s: "MPN_SAME_OR_SEPARATE_P rp ap n" "MPN_SAME_OR_SEPARATE_P rp bp n" using Suc.prems by (auto simp: overlap_defs)
  have k: "ap + i \<noteq> rp + n" "bp + i \<noteq> rp + n" if "i < n" for i using Suc.prems that by (auto simp: overlap_defs)
  show ?case
  proof
    fix a
    have "ap + (a - rp) \<noteq> rp + n" "bp + (a - rp) \<noteq> rp + n" if "rp \<le> a" "a < rp + n" using k [of "a - rp"] that by simp_all
    then show "logic_loop f (Suc n) rp ap bp m a = (if rp \<le> a \<and> a < rp + Suc n then f (m (ap + (a - rp))) (m (bp + (a - rp))) else m a)"
      unfolding logic_loop.simps Suc.IH [OF s] by (cases "a = rp + n") auto
  qed
qed (auto simp: fun_eq_iff)

lemma only_in_logic_loop:
  assumes "MPN_SAME_OR_SEPARATE_P rp ap n" "MPN_SAME_OR_SEPARATE_P rp bp n"
  shows "only_in rp n m (logic_loop f n rp ap bp m)"
  unfolding logic_loop_spec [OF assms] by (rule only_inI) auto

lemma logic_size_spec:
  shows "logic_size f n ap bp m \<le> n"
    and "logic_size f n ap bp m = 0 \<or> f (m (ap + (logic_size f n ap bp m - 1))) (m (bp + (logic_size f n ap bp m - 1))) \<noteq> 0"
    and "logic_size f n ap bp m \<le> i \<Longrightarrow> i < n \<Longrightarrow> f (m (ap + i)) (m (bp + i)) = 0"
  by (induction n) (auto simp: less_Suc_eq split: if_splits)

lemma logic_loop_swap: "logic_loop f n rp ap bp m = logic_loop (\<lambda>x y. f y x) n rp bp ap m"
  by (induction n arbitrary: m) simp_all

section \<open>Limb operations and integer operations\<close>

text \<open>A limb operation that works bit by bit, and the operation on integers with the same truth table.\<close>

locale bitwise =
  fixes f :: "limb \<Rightarrow> limb \<Rightarrow> limb" and F :: "int \<Rightarrow> int \<Rightarrow> int" and g :: "bool \<Rightarrow> bool \<Rightarrow> bool"
  assumes limb_bit: "k < 32 \<Longrightarrow> bit (f x y) k = g (bit x k) (bit y k)"
    and int_bit: "bit (F a b) k = g (bit a k) (bit b k)"
    and zeros: "\<not> g False False"
begin

lemma loop_value:
  assumes "MPN_SAME_OR_SEPARATE_P rp ap n" "MPN_SAME_OR_SEPARATE_P rp bp n"
  shows "int (mval (logic_loop f n rp ap bp m) rp n) = F (int (mval m ap n)) (int (mval m bp n))"
proof (rule bit_eqI)
  fix k
  show "bit (int (mval (logic_loop f n rp ap bp m) rp n)) k = bit (F (int (mval m ap n)) (int (mval m bp n))) k"
  proof (cases "k < 32 * n")
    case True
    then have "k div 32 < n" by (simp add: less_mult_imp_div_less mult.commute)
    then show ?thesis using True by (simp add: bit_of_nat_iff_bit bit_mval int_bit logic_loop_spec [OF assms] limb_bit)
  next
    case False
    then show ?thesis using zeros by (simp add: bit_of_nat_iff_bit bit_mval int_bit)
  qed
qed

text \<open>Limbs from the size on are zero.\<close>

lemma size_value:
  assumes "logic_size f n ap bp m \<le> n"
  shows "F (int (mval m ap (logic_size f n ap bp m))) (int (mval m bp (logic_size f n ap bp m))) = F (int (mval m ap n)) (int (mval m bp n))"
proof (rule bit_eqI)
  fix k
  define s where "s = logic_size f n ap bp m"
  have "\<not> g (bit (m (ap + k div 32)) (k mod 32)) (bit (m (bp + k div 32)) (k mod 32))" if "\<not> k < 32 * s" "k < 32 * n"
  proof -
    have "s \<le> k div 32" "k div 32 < n" using that by (simp_all add: less_eq_div_iff_mult_less_eq mult.commute less_mult_imp_div_less)
    then have "f (m (ap + k div 32)) (m (bp + k div 32)) = 0" unfolding s_def by (intro logic_size_spec(3))
    then show ?thesis using limb_bit [of "k mod 32" "m (ap + k div 32)" "m (bp + k div 32)"] by simp
  qed
  moreover have "s \<le> n" unfolding s_def by (rule assms)
  ultimately show "bit (F (int (mval m ap (logic_size f n ap bp m))) (int (mval m bp (logic_size f n ap bp m)))) k = bit (F (int (mval m ap n)) (int (mval m bp n))) k"
    unfolding s_def [symmetric] using zeros
    by (cases "k < 32 * s"; cases "k < 32 * n") (simp_all add: bit_of_nat_iff_bit bit_mval int_bit)
qed

text \<open>The result of the size found, in a region that may be that of an operand.\<close>

lemma sized_loop:
  fixes m :: mem
  assumes "n \<le> N" "MPN_SAME_OR_SEPARATE_P rp ap N" "MPN_SAME_OR_SEPARATE_P rp bp N"
  defines "s \<equiv> logic_size f n ap bp m"
  shows "int (mval (logic_loop f s rp ap bp m) rp s) = F (int (mval m ap n)) (int (mval m bp n))"
    and "s = 0 \<or> logic_loop f s rp ap bp m (rp + s - 1) \<noteq> 0" and "only_in rp s m (logic_loop f s rp ap bp m)" and "s \<le> n"
proof -
  show s: "s \<le> n" unfolding s_def by (rule logic_size_spec)
  have o: "MPN_SAME_OR_SEPARATE_P rp ap s" "MPN_SAME_OR_SEPARATE_P rp bp s" using assms(1-3) s by (auto simp: overlap_defs)
  show "int (mval (logic_loop f s rp ap bp m) rp s) = F (int (mval m ap n)) (int (mval m bp n))"
    unfolding loop_value [OF o] unfolding s_def by (rule size_value) (rule logic_size_spec)
  show "s = 0 \<or> logic_loop f s rp ap bp m (rp + s - 1) \<noteq> 0"
    unfolding logic_loop_spec [OF o] using logic_size_spec(2) [of f n ap bp m] by (auto simp: s_def [symmetric])
  show "only_in rp s m (logic_loop f s rp ap bp m)" by (rule only_in_logic_loop [OF o])
qed

text \<open>A longer first operand, where its high limbs are copied.\<close>

lemma long_loop:
  fixes m :: mem
  assumes unit: "\<And>x. F x 0 = x" and k: "k \<le> n" and o: "MPN_SAME_OR_SEPARATE2_P rp n ap n" "MPN_SAME_OR_SEPARATE2_P rp n bp k"
  defines "m' \<equiv> logic_loop f k rp ap bp (mcopy (rp + k) (ap + k) (n - k) m)"
  shows "int (mval m' rp n) = F (int (mval m ap n)) (int (mval m bp k))" and "only_in rp n m m'"
    and "k < n \<Longrightarrow> m' (rp + (n - 1)) = m (ap + (n - 1))"
proof -
  define m1 where "m1 = mcopy (rp + k) (ap + k) (n - k) m"
  have ok: "MPN_SAME_OR_SEPARATE_P rp ap k" "MPN_SAME_OR_SEPARATE_P rp bp k" using o k by (auto simp: overlap_defs)
  have low: "m1 (ap + i) = m (ap + i)" "m1 (bp + i) = m (bp + i)" if "i < k" for i
    using o k that unfolding m1_def by (auto simp: mcopy_def overlap_defs)
  have r: "m' (rp + i) = (if i < k then f (m (ap + i)) (m (bp + i)) else m (ap + i))" if "i < n" for i
    unfolding m'_def m1_def [symmetric] logic_loop_spec [OF ok] using that low k by (auto simp: m1_def mcopy_def)
  have g0: "g a False = a" for a
    using int_bit [of "of_bool a" 0 0] unit [of "of_bool a"] by (cases a) (simp_all add: bit_0)
  show "int (mval m' rp n) = F (int (mval m ap n)) (int (mval m bp k))"
  proof (rule bit_eqI)
    fix j
    have D: "j div 32 < n" if "j < 32 * n" using that by (simp add: less_mult_imp_div_less mult.commute)
    have K: "j div 32 < k \<longleftrightarrow> j < 32 * k" by (simp add: div_less_iff_less_mult mult.commute)
    consider "j < 32 * k" "j < 32 * n" | "\<not> j < 32 * k" "j < 32 * n" | "\<not> j < 32 * k" "\<not> j < 32 * n" using k by fastforce
    then show "bit (int (mval m' rp n)) j = bit (F (int (mval m ap n)) (int (mval m bp k))) j"
    proof cases
      case 1
      then show ?thesis using r [OF D] K by (simp add: bit_of_nat_iff_bit bit_mval int_bit limb_bit)
    next
      case 2
      then show ?thesis using r [OF D] K g0 by (simp add: bit_of_nat_iff_bit bit_mval int_bit)
    next
      case 3
      then show ?thesis using zeros by (simp add: bit_of_nat_iff_bit bit_mval int_bit)
    qed
  qed
  show "only_in rp n m m'"
    unfolding m'_def using only_in_logic_loop [OF ok, of "mcopy (rp + k) (ap + k) (n - k) m" f] k
    by (auto simp: only_in_def mcopy_def)
  show "m' (rp + (n - 1)) = m (ap + (n - 1))" if "k < n"
  proof -
    have "n - 1 < n" "\<not> n - 1 < k" using that by simp_all
    then show ?thesis by (simp only: r if_False)
  qed
qed

end

interpretation limb_and: bitwise "(AND)" "(AND)" "(\<and>)"
  by unfold_locales (simp_all add: bit_and_iff)

interpretation limb_or: bitwise "(OR)" "(OR)" "(\<or>)"
  by unfold_locales (simp_all add: bit_or_iff)

interpretation limb_xor: bitwise "(XOR)" "(XOR)" "(\<noteq>)"
  by unfold_locales (simp_all add: bit_xor_iff)

text \<open>Both operands of an interpretation may be exchanged.\<close>

interpretation limb_andn: bitwise "\<lambda>x y. x AND NOT y" "\<lambda>a b. a AND NOT b" "\<lambda>a b. a \<and> \<not> b"
  by unfold_locales (simp_all add: bit_simps)

interpretation limb_nand: bitwise "\<lambda>x y. NOT x AND y" "\<lambda>a b. NOT a AND b" "\<lambda>a b. \<not> a \<and> b"
  by unfold_locales (simp_all add: bit_simps)

end
