(* ===== verification/Mpz_Shift.thy ===== *)
theory Mpz_Shift
  imports Mpz_Arith "HOL-Library.Signed_Division"
begin

text \<open>
  Multiplication by a power of two and division by one, truncating (\<open>mpz/mul_2exp.c\<close>,
  \<open>tdiv_q_2exp.c\<close>, \<open>tdiv_r_2exp.c\<close>), against the integer operations \<open>sdiv\<close> and \<open>smod\<close>.
\<close>

section \<open>Shifts by bits\<close>

definition mpz_mul_2exp :: "var \<Rightarrow> var \<Rightarrow> nat \<Rightarrow> state \<Rightarrow> state" where
  "mpz_mul_2exp w u cnt st =
     (let usize = SIZ st u;
          abs_usize = nat \<bar>usize\<bar>
      in if usize = 0 then set_SIZ w 0 st
         else (let limb_cnt = cnt div 32;
                   wsize = abs_usize + limb_cnt + 1;
                   st = MPZ_REALLOC w wsize st;
                   wp = PTR st w;
                   wsize = abs_usize + limb_cnt;
                   cnt = cnt mod 32;
                   (m, wsize) =
                     (if cnt \<noteq> 0
                      then (let (wlimb, m) = mpn_lshift (wp + limb_cnt) (PTR st u) abs_usize cnt (heap st)
                            in if wlimb \<noteq> 0 then (m(wp + wsize := wlimb), wsize + 1) else (m, wsize))
                      else (MPN_COPY_DECR (wp + limb_cnt) (PTR st u) abs_usize (heap st), wsize));
                   m = MPN_ZERO wp limb_cnt m
               in set_SIZ w (if usize \<ge> 0 then int wsize else - int wsize) (set_heap m st)))"

definition mpz_tdiv_q_2exp :: "var \<Rightarrow> var \<Rightarrow> nat \<Rightarrow> state \<Rightarrow> state" where
  "mpz_tdiv_q_2exp w u cnt st =
     (let usize = SIZ st u;
          limb_cnt = cnt div 32;
          wsize = \<bar>usize\<bar> - int limb_cnt
      in if wsize \<le> 0 then set_SIZ w 0 st
         else (let wsize = nat wsize;
                   st = MPZ_REALLOC w wsize st;
                   wp = PTR st w;
                   up = PTR st u;
                   cnt = cnt mod 32;
                   (m, wsize) =
                     (if cnt \<noteq> 0
                      then (let (_, m) = mpn_rshift wp (up + limb_cnt) wsize cnt (heap st)
                            in (m, wsize - of_bool (m (wp + wsize - 1) = 0)))
                      else (MPN_COPY_INCR wp (up + limb_cnt) wsize (heap st), wsize))
               in set_SIZ w (if usize \<ge> 0 then int wsize else - int wsize) (set_heap m st)))"

definition mpz_tdiv_r_2exp :: "var \<Rightarrow> var \<Rightarrow> nat \<Rightarrow> state \<Rightarrow> state" where
  "mpz_tdiv_r_2exp res inp cnt st =
     (let in_size = nat \<bar>SIZ st inp\<bar>;
          limb_cnt = cnt div 32;
          in_ptr = PTR st inp;
          (res_size, limb_cnt, st) =
            (if in_size > limb_cnt
             then (let x = heap st (in_ptr + limb_cnt) AND (push_bit (cnt mod 32) 1 - 1)
                   in if x \<noteq> 0
                      then (let res_size = limb_cnt + 1;
                                st = MPZ_REALLOC res res_size st
                            in (res_size, limb_cnt, set_heap ((heap st)(PTR st res + limb_cnt := x)) st))
                      else (let res_size = MPN_NORMALIZE (heap st) in_ptr limb_cnt;
                                st = MPZ_REALLOC res res_size st
                            in (res_size, res_size, st)))
             else (let res_size = in_size;
                       st = MPZ_REALLOC res res_size st
                   in (res_size, res_size, st)));
          m = (if res \<noteq> inp then MPN_COPY (PTR st res) (PTR st inp) limb_cnt (heap st) else heap st)
      in set_SIZ res (if SIZ st inp \<ge> 0 then int res_size else - int res_size) (set_heap m st))"

text \<open>The high part of a number is its quotient by a power of the base.\<close>

lemma mval_div: "k \<le> n \<Longrightarrow> mval m (p + k) (n - k) = mval m p n div LB ^ k"
proof -
  assume "k \<le> n"
  then have "mval m p n = mval m p k + LB ^ k * mval m (p + k) (n - k)" by (rule mval_split)
  then show ?thesis using mval_less [of m p k] by simp
qed

lemma mval_mod: "k \<le> n \<Longrightarrow> mval m p k = mval m p n mod LB ^ k"
proof -
  assume "k \<le> n"
  then have "mval m p n = mval m p k + LB ^ k * mval m (p + k) (n - k)" by (rule mval_split)
  then show ?thesis using mval_less [of m p k] by simp
qed

lemma two_power_limbs: "(2 :: nat) ^ cnt = LB ^ (cnt div 32) * 2 ^ (cnt mod 32)"
proof -
  have "(2 :: nat) ^ cnt = 2 ^ (32 * (cnt div 32) + cnt mod 32)" by simp
  then show ?thesis by (simp only: power_add power_mult LB_power)
qed

lemma mpz_mul_2exp_spec:
  assumes ok: "store_ok st" and w: "w \<in> live st" and u: "u \<in> live st"
  shows "updates st w (zval st u * 2 ^ cnt) (mpz_mul_2exp w u cnt st)"
proof (cases "SIZ st u = 0")
  case True
  then show ?thesis using zero_result [OF ok w] by (simp add: mpz_mul_2exp_def Let_def zval_def)
next
  case False
  define un lc st1 where "un = ABSIZ st u" and "lc = cnt div 32" and "st1 = MPZ_REALLOC w (un + lc + 1) st"
  note U = operand_realloc [OF ok w u, where n = "un + lc + 1", folded st1_def, folded un_def]
  define up wp where "up = PTR st1 u" and "wp = PTR st1 w"
  define A where "A = mval (heap st1) up un"
  have A: "int A = \<bar>zval st u\<bar>" using U(8) by (simp add: A_def up_def)
  have topA: "LB ^ (un - 1) \<le> A" using mval_ABSIZ_ge [OF U(1,3)] False U(5,6) by (simp add: A_def un_def up_def)
  have un1: "1 \<le> un" using False by (simp add: un_def Suc_leI)
  have "MPN_SAME_OR_SEPARATE2_P wp (un + lc + 1) up un" using U(4) U(9) by (simp add: wp_def up_def)
  then have ov: "MPN_SAME_OR_DECR_P (wp + lc) up un" by (auto simp: overlap_defs)
  define m k where "m = (if cnt mod 32 \<noteq> 0
      then (let (r, m) = mpn_lshift (wp + lc) up un (cnt mod 32) (heap st1) in if r \<noteq> 0 then m(wp + (un + lc) := r) else m)
      else MPN_COPY_DECR (wp + lc) up un (heap st1))"
    and "k = (if cnt mod 32 \<noteq> 0
      then un + lc + of_bool (fst (mpn_lshift (wp + lc) up un (cnt mod 32) (heap st1)) \<noteq> 0) else un + lc)"
  have M: "mval m (wp + lc) (k - lc) = A * 2 ^ (cnt mod 32) \<and> lc < k \<and> k \<le> un + lc + 1 \<and> m (wp + k - 1) \<noteq> 0
      \<and> only_in wp (un + lc + 1) (heap st1) m"
  proof (cases "cnt mod 32 = 0")
    case True
    then have m: "m = mcopy (wp + lc) up un (heap st1)" "k = un + lc"
      using MPN_COPY_DECR_spec [OF ov, of "heap st1"] by (simp_all add: m_def k_def)
    moreover have "only_in wp (un + lc + 1) (heap st1) m"
      unfolding m by (rule only_in_mono [OF only_in_mcopy]) auto
    moreover have "mval m (wp + lc) un = A" unfolding m A_def by simp
    moreover have "m (wp + lc + un - 1) \<noteq> 0"
      using top_not_zero [of un m "wp + lc"] topA un1 \<open>mval m (wp + lc) un = A\<close> by simp
    ultimately show ?thesis using True un1 by (simp add: ac_simps)
  next
    case False
    obtain r m1 where eq: "mpn_lshift (wp + lc) up un (cnt mod 32) (heap st1) = (r, m1)" by fastforce
    note S = mpn_lshift_spec [OF eq un1 _ ov, folded A_def]
    have S1: "mval m1 (wp + lc) un + LB ^ un * unat r = 2 ^ (cnt mod 32) * A" "only_in (wp + lc) un (heap st1) m1"
      using S by simp_all
    have m: "m = (if r \<noteq> 0 then m1(wp + lc + un := r) else m1)" "k = un + lc + of_bool (r \<noteq> 0)"
      unfolding m_def k_def eq using False by (auto simp: ac_simps)
    have f: "only_in wp (un + lc + 1) (heap st1) m1" by (rule only_in_mono [OF S1(2)]) auto
    show ?thesis
    proof (cases "r = 0")
      case True
      have "A * 1 \<le> A * 2 ^ (cnt mod 32)" by (intro mult_le_mono2) simp
      then have "LB ^ (un - 1) \<le> mval m1 (wp + lc) un" using topA S1(1) True by (simp add: mult.commute le_trans)
      then have "m1 (wp + lc + un - 1) \<noteq> 0" using top_not_zero un1 by fastforce
      then show ?thesis using True m S1(1) f un1 by (simp add: ac_simps)
    next
      case False
      have "only_in wp (un + lc + 1) (heap st1) m"
        using False by (simp only: m(1) if_True not_False_eq_True) (intro only_in_trans [OF f] only_in_upd, auto)
      moreover have "mval m (wp + lc) (Suc un) = 2 ^ (cnt mod 32) * A"
        using S1(1) False by (simp add: m mval_high del: mval.simps)
      ultimately show ?thesis using False m by (simp add: ac_simps)
    qed
  qed
  define m2 where "m2 = MPN_ZERO wp lc m"
  have Z: "m2 = (\<lambda>a. if wp \<le> a \<and> a < wp + lc then 0 else m a)" unfolding m2_def by (rule MPN_ZERO_spec)
  have "mval m2 wp lc = 0" by (simp add: Z)
  moreover have "mval m2 (wp + lc) (k - lc) = mval m (wp + lc) (k - lc)" by (rule mval_cong) (simp add: Z)
  ultimately have V: "mval m2 wp k = A * 2 ^ cnt"
    using mval_split [of lc k m2 wp] M unfolding two_power_limbs [of cnt] by (simp add: lc_def ac_simps)
  have top: "m2 (wp + k - 1) \<noteq> 0" using M by (auto simp: Z)
  have frame: "only_in wp (un + lc + 1) (heap st1) m2"
    using M by (auto simp: Z only_in_def)
  have "mpz_mul_2exp w u cnt st = set_SIZ w (with_sign (SIZ st u < 0) k) (set_heap m2 st1)"
    unfolding mpz_mul_2exp_def Let_def ABSIZ_SIZ [symmetric] un_def [symmetric] lc_def [symmetric] st1_def [symmetric]
      up_def [symmetric] wp_def [symmetric] m2_def m_def k_def using False
    by (auto simp: with_sign_def ac_simps split: prod.split intro: arg_cong [where f = "\<lambda>s. set_SIZ w s h" for h])
  moreover have "updates st1 w (with_sign (SIZ st u < 0) (mval m2 wp k)) (set_SIZ w (with_sign (SIZ st u < 0) k) (set_heap m2 st1))"
    using U(4) M top unfolding wp_def
    by (intro result_sized U only_in_mono [OF frame [unfolded wp_def]]) auto
  moreover have "with_sign (SIZ st u < 0) (A * 2 ^ cnt) = zval st u * 2 ^ cnt"
    unfolding zval_with_sign [OF ok u A] by (simp add: with_sign_def)
  ultimately show ?thesis using updates_realloc [OF ok w] V by (simp add: st1_def)
qed

interpretation mpz_mul_2exp: mpz_unop "\<lambda>w u. mpz_mul_2exp w u cnt" "\<lambda>a. a * 2 ^ cnt" for cnt
  by unfold_locales (rule mpz_mul_2exp_spec)

lemma sdiv_with_sign: "with_sign neg A sdiv int B = with_sign neg (A div B)"
  by (cases "A = 0"; cases "B = 0") (auto simp: with_sign_def signed_divide_int_def zdiv_int)

lemma smod_with_sign: "with_sign neg A smod int B = with_sign neg (A mod B)"
  by (cases "A = 0") (auto simp: with_sign_def signed_modulo_int_def zmod_int)

lemma div_rshift: "LB * X = 2 ^ c * (LB * Y + r) \<Longrightarrow> r < LB \<Longrightarrow> Y = X div 2 ^ c"
proof -
  assume *: "LB * X = 2 ^ c * (LB * Y + r)" "r < LB"
  have "X div 2 ^ c = (LB * X) div (LB * 2 ^ c)" by simp
  also have "\<dots> = (LB * Y + r) div LB" unfolding *(1) by (simp add: mult.commute)
  also have "\<dots> = Y" using *(2) by simp
  finally show ?thesis by simp
qed

text \<open>The limbs from \<open>src\<close> shifted down by \<open>cnt\<close> bits to \<open>wp\<close>, less a high limb that became 0.\<close>

lemma shift_down:
  fixes n cnt :: nat and m0 :: mem
  assumes n: "1 \<le> n" and c: "cnt < 32" and ov: "MPN_SAME_OR_INCR_P wp src n" and topX: "LB ^ (n - 1) \<le> mval m0 src n"
    and eq: "(r, m) = (if cnt \<noteq> 0 then mpn_rshift wp src n cnt m0 else (0, MPN_COPY_INCR wp src n m0))"
    and k: "k = (if cnt \<noteq> 0 then n - of_bool (m (wp + n - 1) = 0) else n)"
  shows "mval m wp n = mval m0 src n div 2 ^ cnt" and "only_in wp n m0 m" and "mval m wp k = mval m wp n"
    and "k = 0 \<or> m (wp + k - 1) \<noteq> 0" and "k \<le> n" and "r = 0 \<longleftrightarrow> mval m0 src n mod 2 ^ cnt = 0"
proof -
  define X where "X = mval m0 src n"
  have "mval m wp n = X div 2 ^ cnt \<and> only_in wp n m0 m \<and> mval m wp k = mval m wp n \<and> (k = 0 \<or> m (wp + k - 1) \<noteq> 0) \<and> k \<le> n
      \<and> (r = 0 \<longleftrightarrow> X mod 2 ^ cnt = 0)"
  proof (cases "cnt = 0")
    case True
    then have m: "m = mcopy wp src n m0" "k = n" "r = 0"
      using MPN_COPY_INCR_spec [OF ov, of m0] eq by (simp_all add: k)
    have v: "mval m wp n = X" unfolding m(1) X_def by simp
    then show ?thesis using True top_not_zero [of n m wp] topX by (simp add: m(2,3) flip: X_def) (simp add: m(1))
  next
    case False
    then have e: "mpn_rshift wp src n cnt m0 = (r, m)" using eq by simp
    note S = mpn_rshift_spec [OF e n less_imp_le [OF c] ov, folded X_def]
    have Y: "mval m wp n = X div 2 ^ cnt" by (rule div_rshift [OF S(1) unat_lt_LB])
    have kk: "k = n - of_bool (m (wp + n - 1) = 0)" using False by (simp add: k)
    have top: "k = 0 \<or> m (wp + k - 1) \<noteq> 0" if 0: "m (wp + n - 1) = 0" "1 < n"
    proof (rule top_not_zero)
      obtain j where j: "n = Suc (Suc j)" using 0(2) by (cases n; cases "n - 1") auto
      have "(2 :: nat) ^ cnt \<le> LB" unfolding LB_power using c by (intro power_increasing) auto
      then have "X div LB \<le> X div 2 ^ cnt" by (intro div_le_mono2) auto
      moreover have "LB ^ j \<le> X div LB" using topX [folded X_def] j by (simp add: less_eq_div_iff_mult_less_eq mult.commute)
      ultimately have "LB ^ j \<le> mval m wp n" unfolding Y by simp
      then show "LB ^ (k - 1) \<le> mval m wp k" using 0 j by (simp add: kk mval_high del: mval.simps)
    qed
    have v: "mval m wp k = mval m wp n" using n by (cases n) (auto simp: kk mval_high simp del: mval.simps)
    have z: "r = 0 \<longleftrightarrow> X mod 2 ^ cnt = 0"
    proof -
      have "LB * X = LB * (2 ^ cnt * (X div 2 ^ cnt)) + 2 ^ cnt * unat r" using S(1) unfolding Y by (simp add: algebra_simps)
      moreover have "LB * X = LB * (2 ^ cnt * (X div 2 ^ cnt)) + LB * (X mod 2 ^ cnt)" by (simp flip: distrib_left)
      ultimately have "2 ^ cnt * unat r = LB * (X mod 2 ^ cnt)" by linarith
      then show ?thesis by (metis LB_gt(3) mult_is_0 power_not_zero unat_eq_0 zero_neq_numeral)
    qed
    show ?thesis using Y S(2) v top z n kk by (cases "m (wp + n - 1) = 0"; cases "n = 1") auto
  qed
  then show "mval m wp n = mval m0 src n div 2 ^ cnt" "only_in wp n m0 m" "mval m wp k = mval m wp n"
    "k = 0 \<or> m (wp + k - 1) \<noteq> 0" "k \<le> n" "r = 0 \<longleftrightarrow> mval m0 src n mod 2 ^ cnt = 0"
    unfolding X_def by - (elim conjE, assumption)+
qed

lemma mpz_tdiv_q_2exp_spec:
  assumes ok: "store_ok st" and w: "w \<in> live st" and u: "u \<in> live st"
  shows "updates st w (zval st u sdiv 2 ^ cnt) (mpz_tdiv_q_2exp w u cnt st)"
proof -
  define un lc where "un = ABSIZ st u" and "lc = cnt div 32"
  have us: "\<bar>SIZ st u\<bar> = int un" by (simp add: un_def ABSIZ_SIZ)
  have pow: "(2 :: nat) ^ cnt = LB ^ lc * 2 ^ (cnt mod 32)" unfolding lc_def by (rule two_power_limbs)
  show ?thesis
  proof (cases "un \<le> lc")
    case True
    define A where "A = mval (heap st) (PTR st u) un"
    have "A < LB ^ un" unfolding A_def by (rule mval_less)
    also have "\<dots> \<le> LB ^ lc" using True by (intro power_increasing) auto
    also have "\<dots> \<le> 2 ^ cnt" unfolding pow by simp
    finally have "A div 2 ^ cnt = 0" by simp
    moreover have "zval st u = with_sign (SIZ st u < 0) A"
      using zval_abs [OF ok u] by (intro zval_with_sign ok u) (simp add: A_def un_def)
    ultimately have "zval st u sdiv 2 ^ cnt = 0"
      using sdiv_with_sign [of "SIZ st u < 0" A "2 ^ cnt"] by simp
    moreover have "mpz_tdiv_q_2exp w u cnt st = set_SIZ w 0 st"
      using True unfolding mpz_tdiv_q_2exp_def Let_def lc_def [symmetric] us by simp
    ultimately show ?thesis using zero_result [OF ok w] by simp
  next
    case False
    define n where "n = un - lc"
    have n: "1 \<le> n" "un = lc + n" using False by (auto simp: n_def)
    define st1 where "st1 = MPZ_REALLOC w n st"
    note U = operand_realloc [OF ok w u, where n = n, folded st1_def, folded un_def]
    define up wp where "up = PTR st1 u" and "wp = PTR st1 w"
    define A X where "A = mval (heap st1) up un" and "X = mval (heap st1) (up + lc) n"
    have A: "int A = \<bar>zval st u\<bar>" using U(8) by (simp add: A_def up_def)
    have X: "X = A div LB ^ lc" using mval_div [of lc un "heap st1" up] n(2) by (simp add: X_def A_def)
    have "SIZ st u \<noteq> 0" using us n by auto
    then have "heap st1 (up + un - 1) \<noteq> 0" using wf_ok [OF U(1,3)] U(5,6) by (simp add: mpz_ok_def up_def)
    then have topX: "LB ^ (n - 1) \<le> X"
      unfolding X_def using n by (intro mval_lower) (simp_all add: ac_simps)
    have "MPN_SAME_OR_SEPARATE2_P wp n up un" using U(4) U(9) by (simp add: wp_def up_def)
    then have ov: "MPN_SAME_OR_INCR_P wp (up + lc) n" using n(2) by (auto simp: overlap_defs)
    obtain r m where eq: "(r, m) = (if cnt mod 32 \<noteq> 0 then mpn_rshift wp (up + lc) n (cnt mod 32) (heap st1)
        else (0, MPN_COPY_INCR wp (up + lc) n (heap st1)))"
      by (metis surj_pair)
    define k where "k = (if cnt mod 32 \<noteq> 0 then n - of_bool (m (wp + n - 1) = 0) else n)"
    note M = shift_down [OF n(1) _ ov topX [unfolded X_def] eq k_def, folded X_def, unfolded X]
    have Q: "mval m wp k = A div 2 ^ cnt" using M(1,3) by (simp add: pow div_mult2_eq)
    have "mpz_tdiv_q_2exp w u cnt st = set_SIZ w (with_sign (SIZ st u < 0) k) (set_heap m st1)"
    proof -
      have nn: "nat (int un - int lc) = n" "(int un - int lc \<le> 0) = False" using n by simp_all
      have "mpz_tdiv_q_2exp w u cnt st =
        (let (m, wsize) = (if cnt mod 32 \<noteq> 0
              then (let (_, m) = mpn_rshift wp (up + lc) n (cnt mod 32) (heap st1) in (m, n - of_bool (m (wp + n - 1) = 0)))
              else (MPN_COPY_INCR wp (up + lc) n (heap st1), n))
         in set_SIZ w (with_sign (SIZ st u < 0) wsize) (set_heap m st1))"
        unfolding mpz_tdiv_q_2exp_def Let_def us lc_def [symmetric] nn if_False st1_def [symmetric]
          up_def [symmetric] wp_def [symmetric] by (cases "SIZ st u < 0") (simp_all add: with_sign_def)
      then show ?thesis
        using eq [symmetric] by (cases "cnt mod 32 = 0") (simp_all add: k_def Let_def)
    qed
    moreover have "updates st1 w (with_sign (SIZ st u < 0) (mval m wp k)) (set_SIZ w (with_sign (SIZ st u < 0) k) (set_heap m st1))"
      unfolding wp_def
    proof (rule result_sized [OF U(1,2)])
      show "only_in (PTR st1 w) (ALLOC st1 w) (heap st1) m"
        by (rule only_in_mono [of wp n]) (use M(2) U(4) wp_def in auto)
    qed (use M(4,5) U(4) wp_def in auto)
    moreover have "with_sign (SIZ st u < 0) (A div 2 ^ cnt) = zval st u sdiv 2 ^ cnt"
      using sdiv_with_sign [of "SIZ st u < 0" A "2 ^ cnt"] zval_with_sign [OF ok u A] by simp
    ultimately show ?thesis using updates_realloc [OF ok w] Q by (simp add: st1_def)
  qed
qed

interpretation mpz_tdiv_q_2exp: mpz_unop "\<lambda>w u. mpz_tdiv_q_2exp w u cnt" "\<lambda>a. a sdiv 2 ^ cnt" for cnt
  by unfold_locales (rule mpz_tdiv_q_2exp_spec)

lemma mod_limbs:
  assumes "lc = cnt div 32" "lc < n" "A = mval m p n"
  shows "A mod 2 ^ cnt = mval m p lc + LB ^ lc * (unat (m (p + lc)) mod 2 ^ (cnt mod 32))"
proof -
  have pow: "(2 :: nat) ^ cnt = LB ^ lc * 2 ^ (cnt mod 32)" unfolding assms(1) by (rule two_power_limbs)
  define X where "X = mval m (p + lc) (n - lc)"
  have X: "X = A div LB ^ lc" unfolding X_def assms(3) by (rule mval_div) (use assms(2) in simp)
  obtain k where k: "n - lc = Suc k" using assms(2) by (cases "n - lc") auto
  have "(2 :: nat) ^ (cnt mod 32) dvd LB" unfolding LB_power by (intro le_imp_power_dvd) simp
  then have "X mod 2 ^ (cnt mod 32) = unat (m (p + lc)) mod 2 ^ (cnt mod 32)"
    unfolding X_def k mval.simps by (metis dvd_mult2 mod_add_right_eq dvd_imp_mod_0 add.right_neutral)
  moreover have "A mod LB ^ lc = mval m p lc" unfolding assms(3) by (rule mval_mod [symmetric]) (use assms(2) in simp)
  ultimately show ?thesis unfolding pow mod_mult2_eq X [symmetric] by simp
qed

lemma mpz_tdiv_r_2exp_spec:
  assumes ok: "store_ok st" and w: "w \<in> live st" and u: "u \<in> live st"
  shows "updates st w (zval st u smod 2 ^ cnt) (mpz_tdiv_r_2exp w u cnt st)"
proof -
  define un lc where "un = ABSIZ st u" and "lc = cnt div 32"
  have us: "nat \<bar>SIZ st u\<bar> = un" by (simp add: un_def ABSIZ_SIZ)
  define A where "A = mval (heap st) (PTR st u) un"
  have A: "int A = \<bar>zval st u\<bar>" using zval_abs [OF ok u] by (simp add: A_def un_def)
  have val: "zval st u smod 2 ^ cnt = with_sign (SIZ st u < 0) (A mod 2 ^ cnt)"
    using smod_with_sign [of "SIZ st u < 0" A "2 ^ cnt"] zval_with_sign [OF ok u A] by simp
  define x where "x = heap st (PTR st u + lc) AND (push_bit (cnt mod 32) 1 - 1)"
  have x: "unat x = unat (heap st (PTR st u + lc)) mod 2 ^ (cnt mod 32)"
    unfolding x_def by (rule limb_and_low) simp
  txt \<open>All branches: the low \<open>n\<close> limbs of \<open>u\<close>, and a limb \<open>x\<close> above them that is not 0 or absent.\<close>
  define low where "low n st1 = (if w \<noteq> u then MPN_COPY (PTR st1 w) (PTR st1 u) n (heap st1) else heap st1)" for n st1
  have same: "low n (set_heap h (MPZ_REALLOC w k st)) = mcopy (PTR (MPZ_REALLOC w k st) w) (PTR (MPZ_REALLOC w k st) u) n h"
    if "n \<le> k" "n \<le> un" for n k h
  proof (cases "w = u")
    case False
    have "MPN_SAME_OR_SEPARATE_P (PTR (MPZ_REALLOC w k st) w) (PTR (MPZ_REALLOC w k st) u) n"
      using operand_realloc(4) [OF ok w u, of k] operand_realloc(9) [OF ok w u, of n k n] that
      by (auto simp: MPN_SAME_OR_SEPARATE_P_def un_def)
    then show ?thesis using False by (simp add: low_def MPN_COPY_spec)
  qed (simp add: low_def)
  have part: "mval (heap (MPZ_REALLOC w k st)) (PTR (MPZ_REALLOC w k st) u) n = mval (heap st) (PTR st u) n" if "n \<le> un" for n k
    unfolding mval_mod [OF that] using operand_realloc(8) [OF ok w u, of k] A [symmetric]
    by (simp only: un_def [symmetric] A_def [symmetric] of_nat_eq_iff)
  have def_eq: "mpz_tdiv_r_2exp w u cnt st =
     (if un > lc
      then if x \<noteq> 0
           then (let st1 = MPZ_REALLOC w (lc + 1) st; st2 = set_heap ((heap st1)(PTR st1 w + lc := x)) st1
                 in set_SIZ w (with_sign (SIZ st u < 0) (lc + 1)) (set_heap (low lc st2) st2))
           else (let k = MPN_NORMALIZE (heap st) (PTR st u) lc; st1 = MPZ_REALLOC w k st
                 in set_SIZ w (with_sign (SIZ st u < 0) k) (set_heap (low k st1) st1))
      else (let st1 = MPZ_REALLOC w un st
            in set_SIZ w (with_sign (SIZ st u < 0) un) (set_heap (low un st1) st1)))"
    unfolding mpz_tdiv_r_2exp_def Let_def us lc_def [symmetric] x_def [symmetric] low_def
    using MPZ_REALLOC_spec(5) [OF ok w] by (auto simp: with_sign_def)
  have whole: "updates st w (with_sign (SIZ st u < 0) (mval (heap st) (PTR st u) n))
      (set_SIZ w (with_sign (SIZ st u < 0) n) (set_heap (low n (MPZ_REALLOC w n st)) (MPZ_REALLOC w n st)))"
    if n: "n \<le> un" "n = 0 \<or> heap st (PTR st u + n - 1) \<noteq> 0" for n
  proof -
    define st1 m where "st1 = MPZ_REALLOC w n st" and "m = low n st1"
    note U = operand_realloc [OF ok w u, where n = n, folded st1_def, folded un_def]
    have m: "m = mcopy (PTR st1 w) (PTR st1 u) n (heap st1)"
      using same [of n n "heap st1"] n(1) by (simp add: m_def st1_def)
    have v: "mval m (PTR st1 w) n = mval (heap st) (PTR st u) n"
      using part [OF n(1), of n] by (simp add: m st1_def)
    have "n = 0 \<or> LB ^ (n - 1) \<le> mval m (PTR st1 w) n" unfolding v using n(2) by (cases "n = 0") (auto intro!: mval_lower [of n, unfolded One_nat_def])
    then have "n = 0 \<or> m (PTR st1 w + n - 1) \<noteq> 0" using top_not_zero by blast
    then have "updates st1 w (with_sign (SIZ st u < 0) (mval m (PTR st1 w) n)) (set_SIZ w (with_sign (SIZ st u < 0) n) (set_heap m st1))"
      using U(4) by (intro result_sized U) (auto simp: m intro: only_in_mono [OF only_in_mcopy])
    then show ?thesis unfolding v using updates_realloc [OF ok w] unfolding m_def st1_def by blast
  qed
  consider "un \<le> lc" | "lc < un" "x = 0" | "lc < un" "x \<noteq> 0" by linarith
  then have "updates st w (with_sign (SIZ st u < 0) (A mod 2 ^ cnt)) (mpz_tdiv_r_2exp w u cnt st)"
  proof cases
    case 1
    have "A < LB ^ un" unfolding A_def by (rule mval_less)
    also have "\<dots> \<le> LB ^ lc" using 1 by (intro power_increasing) auto
    also have "\<dots> \<le> 2 ^ cnt" unfolding two_power_limbs [of cnt] lc_def by simp
    finally have "A mod 2 ^ cnt = mval (heap st) (PTR st u) un" by (simp add: A_def)
    moreover have "un = 0 \<or> heap st (PTR st u + un - 1) \<noteq> 0"
      using wf_ok [OF ok u] by (auto simp: mpz_ok_def un_def)
    ultimately show ?thesis using whole [of un] 1 by (simp add: def_eq Let_def)
  next
    case 2
    define k where "k = MPN_NORMALIZE (heap st) (PTR st u) lc"
    have "A mod 2 ^ cnt = mval (heap st) (PTR st u) lc"
      using mod_limbs [OF lc_def 2(1) A_def] x 2(2) by simp
    also have "\<dots> = mval (heap st) (PTR st u) k" by (simp add: k_def MPN_NORMALIZE_mval)
    finally have "A mod 2 ^ cnt = mval (heap st) (PTR st u) k" .
    moreover have "k \<le> lc" by (simp add: k_def MPN_NORMALIZE_le)
    moreover have "k = 0 \<or> heap st (PTR st u + k - 1) \<noteq> 0" unfolding k_def by (rule MPN_NORMALIZE_top)
    ultimately show ?thesis using whole [of k] 2 by (simp add: def_eq Let_def k_def)
  next
    case 3
    define st1 h where "st1 = MPZ_REALLOC w (lc + 1) st" and "h = (heap st1)(PTR st1 w + lc := x)"
    note U = operand_realloc [OF ok w u, where n = "lc + 1", folded st1_def, folded un_def]
    define m where "m = low lc (set_heap h st1)"
    have m: "m = mcopy (PTR st1 w) (PTR st1 u) lc h"
      using same [of lc "lc + 1" h] 3(1) by (simp add: m_def st1_def)
    have sep: "MPN_SAME_OR_SEPARATE2_P (PTR st1 w) (lc + 1) (PTR st1 u) un" using U(4,9) by simp
    have "mval h (PTR st1 u) lc = mval (heap st1) (PTR st1 u) lc"
      unfolding h_def by (rule mval_upd_out) (use sep 3(1) in \<open>auto simp: overlap_defs\<close>)
    also have "\<dots> = mval (heap st) (PTR st u) lc" using part [of lc "lc + 1"] 3(1) by (simp add: st1_def)
    finally have l: "mval m (PTR st1 w) lc = mval (heap st) (PTR st u) lc" by (simp add: m)
    have t: "m (PTR st1 w + lc) = x" by (simp add: m h_def)
    have v: "mval m (PTR st1 w) (lc + 1) = A mod 2 ^ cnt"
      using mod_limbs [OF lc_def 3(1) A_def] l t x by (simp add: mval_high del: mval.simps)
    have "only_in (PTR st1 w) (ALLOC st1 w) (heap st1) m"
      unfolding m h_def by (rule only_in_trans [OF only_in_upd only_in_mono [OF only_in_mcopy]]) (use U(4) in auto)
    then have "updates st1 w (with_sign (SIZ st u < 0) (mval m (PTR st1 w) (lc + 1)))
        (set_SIZ w (with_sign (SIZ st u < 0) (lc + 1)) (set_heap m st1))"
      using U(4) 3(2) t by (intro result_sized U) auto
    then have "updates st w (with_sign (SIZ st u < 0) (A mod 2 ^ cnt)) (set_SIZ w (with_sign (SIZ st u < 0) (lc + 1)) (set_heap m st1))"
      using updates_realloc [OF ok w] v by (simp add: st1_def)
    moreover have "mpz_tdiv_r_2exp w u cnt st = set_SIZ w (with_sign (SIZ st u < 0) (lc + 1)) (set_heap m st1)"
      using 3 unfolding def_eq Let_def st1_def [symmetric] h_def [symmetric] m_def [symmetric] by (simp add: set_heap_def)
    ultimately show ?thesis by simp
  qed
  then show ?thesis unfolding val .
qed

interpretation mpz_tdiv_r_2exp: mpz_unop "\<lambda>w u. mpz_tdiv_r_2exp w u cnt" "\<lambda>a. a smod 2 ^ cnt" for cnt
  by unfold_locales (rule mpz_tdiv_r_2exp_spec)

end
