(* ===== verification/Mpz_DivUi.thy ===== *)
theory Mpz_DivUi
  imports Mpn_Div1 Mpz_Shift "HOL-Library.Monad_Syntax"
begin

text \<open>
  Division of a variable by an unsigned long (\<open>mpz/tdiv_q_ui.c\<close>, \<open>fdiv_q_ui.c\<close>, \<open>cdiv_q_ui.c\<close> and their variants
  with the suffixes \<open>_qr_ui\<close>, \<open>_r_ui\<close> and \<open>_ui\<close>): truncating, rounding down and rounding up.  A division by zero raises
  an exception, the left side of a sum.  The functions that round add 1 to the quotient by a
  carry propagation without bound, so their results are also optional; the contracts show that they return.
\<close>

section \<open>The functions\<close>

subsection \<open>Truncating\<close>

definition mpz_tdiv_q_ui :: "var \<Rightarrow> var \<Rightarrow> limb \<Rightarrow> state \<Rightarrow> gmp_error + (limb \<times> state)" where
  "mpz_tdiv_q_ui quot dividend divisor st =
     (if divisor = 0 then DIVIDE_BY_ZERO
      else let ns = SIZ st dividend
           in if ns = 0 then Inr (0, set_SIZ quot 0 st)
              else let nn = nat \<bar>ns\<bar>;
                       st = MPZ_REALLOC quot nn st;
                       qp = PTR st quot;
                       np = PTR st dividend;
                       (rl, m) = mpn_divrem_1 qp 0 np nn divisor (heap st);
                       qn = nn - of_bool (m (qp + nn - 1) = 0)
                   in Inr (rl, set_SIZ quot (if ns \<ge> 0 then int qn else - int qn) (set_heap m st)))"

definition mpz_tdiv_qr_ui :: "var \<Rightarrow> var \<Rightarrow> var \<Rightarrow> limb \<Rightarrow> state \<Rightarrow> gmp_error + (limb \<times> state)" where
  "mpz_tdiv_qr_ui quot rem dividend divisor st =
     (if divisor = 0 then DIVIDE_BY_ZERO
      else let ns = SIZ st dividend
           in if ns = 0 then Inr (0, set_SIZ rem 0 (set_SIZ quot 0 st))
              else let nn = nat \<bar>ns\<bar>;
                       st = MPZ_REALLOC quot nn st;
                       qp = PTR st quot;
                       np = PTR st dividend;
                       (rl, m) = mpn_divrem_1 qp 0 np nn divisor (heap st);
                       st = set_heap m st;
                       st = (if rl = 0 then set_SIZ rem 0 st
                             else let st = set_SIZ rem (if ns \<ge> 0 then 1 else - 1) st
                                  in set_heap ((heap st)(PTR st rem := rl)) st);
                       qn = nn - of_bool (heap st (qp + nn - 1) = 0)
                   in Inr (rl, set_SIZ quot (if ns \<ge> 0 then int qn else - int qn) st))"

definition mpz_tdiv_r_ui :: "var \<Rightarrow> var \<Rightarrow> limb \<Rightarrow> state \<Rightarrow> gmp_error + (limb \<times> state)" where
  "mpz_tdiv_r_ui rem dividend divisor st =
     (if divisor = 0 then DIVIDE_BY_ZERO
      else let ns = SIZ st dividend
           in if ns = 0 then Inr (0, set_SIZ rem 0 st)
              else let nn = nat \<bar>ns\<bar>;
                       np = PTR st dividend;
                       rl = mpn_mod_1 (heap st) np nn divisor
                   in if rl = 0 then Inr (rl, set_SIZ rem 0 st)
                      else let st = set_SIZ rem (if ns \<ge> 0 then 1 else - 1) st
                           in Inr (rl, set_heap ((heap st)(PTR st rem := rl)) st))"

definition mpz_tdiv_ui :: "var \<Rightarrow> limb \<Rightarrow> state \<Rightarrow> gmp_error + limb" where
  "mpz_tdiv_ui dividend divisor st =
     (if divisor = 0 then DIVIDE_BY_ZERO
      else let ns = SIZ st dividend
           in if ns = 0 then Inr 0
              else let nn = nat \<bar>ns\<bar>;
                       np = PTR st dividend
                   in Inr (mpn_mod_1 (heap st) np nn divisor))"

subsection \<open>Rounding down\<close>

definition mpz_fdiv_q_ui :: "var \<Rightarrow> var \<Rightarrow> limb \<Rightarrow> state \<Rightarrow> (gmp_error + (limb \<times> state)) option" where
  "mpz_fdiv_q_ui quot dividend divisor st =
     (if divisor = 0 then Some DIVIDE_BY_ZERO
      else let ns = SIZ st dividend
           in if ns = 0 then Some (Inr (0, set_SIZ quot 0 st))
              else let nn = nat \<bar>ns\<bar>;
                       st = MPZ_REALLOC quot nn st;
                       qp = PTR st quot;
                       np = PTR st dividend;
                       (rl, m) = mpn_divrem_1 qp 0 np nn divisor (heap st)
                   in do {
                     (rl, m) \<leftarrow> (if rl \<noteq> 0 \<and> ns < 0
                                 then do { m \<leftarrow> mpn_incr_u qp 1 m; Some (divisor - rl, m) }
                                 else Some (rl, m));
                     let qn = nn - of_bool (m (qp + nn - 1) = 0);
                     Some (Inr (rl, set_SIZ quot (if ns \<ge> 0 then int qn else - int qn) (set_heap m st)))
                   })"

definition mpz_fdiv_qr_ui :: "var \<Rightarrow> var \<Rightarrow> var \<Rightarrow> limb \<Rightarrow> state \<Rightarrow> (gmp_error + (limb \<times> state)) option" where
  "mpz_fdiv_qr_ui quot rem dividend divisor st =
     (if divisor = 0 then Some DIVIDE_BY_ZERO
      else let ns = SIZ st dividend
           in if ns = 0 then Some (Inr (0, set_SIZ rem 0 (set_SIZ quot 0 st)))
              else let nn = nat \<bar>ns\<bar>;
                       st = MPZ_REALLOC quot nn st;
                       qp = PTR st quot;
                       np = PTR st dividend;
                       (rl, m) = mpn_divrem_1 qp 0 np nn divisor (heap st)
                   in do {
                     (rl, st) \<leftarrow> (if rl = 0 then Some (rl, set_SIZ rem 0 (set_heap m st))
                                  else do {
                                    (rl, m) \<leftarrow> (if ns < 0
                                                then do { m \<leftarrow> mpn_incr_u qp 1 m; Some (divisor - rl, m) }
                                                else Some (rl, m));
                                    let m = m(PTR st rem := rl);
                                    Some (rl, set_SIZ rem (of_bool (rl \<noteq> 0)) (set_heap m st))
                                  });
                     let qn = nn - of_bool (heap st (qp + nn - 1) = 0);
                     Some (Inr (rl, set_SIZ quot (if ns \<ge> 0 then int qn else - int qn) st))
                   })"

definition mpz_fdiv_r_ui :: "var \<Rightarrow> var \<Rightarrow> limb \<Rightarrow> state \<Rightarrow> gmp_error + (limb \<times> state)" where
  "mpz_fdiv_r_ui rem dividend divisor st =
     (if divisor = 0 then DIVIDE_BY_ZERO
      else let ns = SIZ st dividend
           in if ns = 0 then Inr (0, set_SIZ rem 0 st)
              else let nn = nat \<bar>ns\<bar>;
                       np = PTR st dividend;
                       rl = mpn_mod_1 (heap st) np nn divisor
                   in if rl = 0 then Inr (rl, set_SIZ rem 0 st)
                      else let rl = (if ns < 0 then divisor - rl else rl);
                               st = set_heap ((heap st)(PTR st rem := rl)) st
                           in Inr (rl, set_SIZ rem 1 st))"

definition mpz_fdiv_ui :: "var \<Rightarrow> limb \<Rightarrow> state \<Rightarrow> gmp_error + limb" where
  "mpz_fdiv_ui dividend divisor st =
     (if divisor = 0 then DIVIDE_BY_ZERO
      else let ns = SIZ st dividend
           in if ns = 0 then Inr 0
              else let nn = nat \<bar>ns\<bar>;
                       np = PTR st dividend;
                       rl = mpn_mod_1 (heap st) np nn divisor
                   in if rl = 0 then Inr rl else if ns < 0 then Inr (divisor - rl) else Inr rl)"

subsection \<open>Rounding up\<close>

definition mpz_cdiv_q_ui :: "var \<Rightarrow> var \<Rightarrow> limb \<Rightarrow> state \<Rightarrow> (gmp_error + (limb \<times> state)) option" where
  "mpz_cdiv_q_ui quot dividend divisor st =
     (if divisor = 0 then Some DIVIDE_BY_ZERO
      else let ns = SIZ st dividend
           in if ns = 0 then Some (Inr (0, set_SIZ quot 0 st))
              else let nn = nat \<bar>ns\<bar>;
                       st = MPZ_REALLOC quot nn st;
                       qp = PTR st quot;
                       np = PTR st dividend;
                       (rl, m) = mpn_divrem_1 qp 0 np nn divisor (heap st)
                   in do {
                     (rl, m) \<leftarrow> (if rl \<noteq> 0 \<and> ns \<ge> 0
                                 then do { m \<leftarrow> mpn_incr_u qp 1 m; Some (divisor - rl, m) }
                                 else Some (rl, m));
                     let qn = nn - of_bool (m (qp + nn - 1) = 0);
                     Some (Inr (rl, set_SIZ quot (if ns \<ge> 0 then int qn else - int qn) (set_heap m st)))
                   })"

definition mpz_cdiv_qr_ui :: "var \<Rightarrow> var \<Rightarrow> var \<Rightarrow> limb \<Rightarrow> state \<Rightarrow> (gmp_error + (limb \<times> state)) option" where
  "mpz_cdiv_qr_ui quot rem dividend divisor st =
     (if divisor = 0 then Some DIVIDE_BY_ZERO
      else let ns = SIZ st dividend
           in if ns = 0 then Some (Inr (0, set_SIZ rem 0 (set_SIZ quot 0 st)))
              else let nn = nat \<bar>ns\<bar>;
                       st = MPZ_REALLOC quot nn st;
                       qp = PTR st quot;
                       np = PTR st dividend;
                       (rl, m) = mpn_divrem_1 qp 0 np nn divisor (heap st)
                   in do {
                     (rl, st) \<leftarrow> (if rl = 0 then Some (rl, set_SIZ rem 0 (set_heap m st))
                                  else do {
                                    (rl, m) \<leftarrow> (if ns \<ge> 0
                                                then do { m \<leftarrow> mpn_incr_u qp 1 m; Some (divisor - rl, m) }
                                                else Some (rl, m));
                                    let m = m(PTR st rem := rl);
                                    Some (rl, set_SIZ rem (- of_bool (rl \<noteq> 0)) (set_heap m st))
                                  });
                     let qn = nn - of_bool (heap st (qp + nn - 1) = 0);
                     Some (Inr (rl, set_SIZ quot (if ns \<ge> 0 then int qn else - int qn) st))
                   })"

definition mpz_cdiv_r_ui :: "var \<Rightarrow> var \<Rightarrow> limb \<Rightarrow> state \<Rightarrow> gmp_error + (limb \<times> state)" where
  "mpz_cdiv_r_ui rem dividend divisor st =
     (if divisor = 0 then DIVIDE_BY_ZERO
      else let ns = SIZ st dividend
           in if ns = 0 then Inr (0, set_SIZ rem 0 st)
              else let nn = nat \<bar>ns\<bar>;
                       np = PTR st dividend;
                       rl = mpn_mod_1 (heap st) np nn divisor
                   in if rl = 0 then Inr (rl, set_SIZ rem 0 st)
                      else let rl = (if ns \<ge> 0 then divisor - rl else rl);
                               st = set_heap ((heap st)(PTR st rem := rl)) st
                           in Inr (rl, set_SIZ rem (- 1) st))"

definition mpz_cdiv_ui :: "var \<Rightarrow> limb \<Rightarrow> state \<Rightarrow> gmp_error + limb" where
  "mpz_cdiv_ui dividend divisor st =
     (if divisor = 0 then DIVIDE_BY_ZERO
      else let ns = SIZ st dividend
           in if ns = 0 then Inr 0
              else let nn = nat \<bar>ns\<bar>;
                       np = PTR st dividend;
                       rl = mpn_mod_1 (heap st) np nn divisor
                   in if rl = 0 then Inr rl else if ns \<ge> 0 then Inr (divisor - rl) else Inr rl)"

section \<open>Rounding of the quotient of two integers\<close>

text \<open>The quotient and remainder the three families compute.  The functions that round up return the
  negated remainder.\<close>

definition cdiv :: "int \<Rightarrow> int \<Rightarrow> int" where
  "cdiv a b = - (- a div b)"

definition cmod :: "int \<Rightarrow> int \<Rightarrow> int" where
  "cmod a b = - (- a mod b)"

lemma cdiv_cmod: "cdiv a b * b + cmod a b = a"
proof -
  have "- a div b * b + - a mod b = - a" by (rule div_mult_mod_eq)
  then show ?thesis unfolding cdiv_def cmod_def minus_mult_left [symmetric] by linarith
qed

text \<open>The magnitudes: the truncated quotient is raised by 1 when the remainder is not 0 and the rounding goes away
  from 0.\<close>

definition rounds :: "bool \<Rightarrow> nat \<Rightarrow> nat \<Rightarrow> bool" where
  "rounds away a d \<longleftrightarrow> away \<and> a mod d \<noteq> 0"

lemma fdiv_with_sign:
  assumes "0 < d"
  shows "with_sign neg a div int d = with_sign neg (a div d + of_bool (rounds neg a d))"
    and "with_sign neg a mod int d = int (if rounds neg a d then d - a mod d else a mod d)"
  using assms less_imp_le [OF mod_less_divisor [OF assms, of a]]
  by (auto simp: with_sign_def rounds_def zdiv_zminus1_eq_if zmod_zminus1_eq_if of_nat_diff simp flip: zdiv_int zmod_int)

lemma cdiv_with_sign:
  assumes "0 < d"
  shows "cdiv (with_sign neg a) (int d) = with_sign neg (a div d + of_bool (rounds (\<not> neg) a d))"
    and "cmod (with_sign neg a) (int d) = - int (if rounds (\<not> neg) a d then d - a mod d else a mod d)"
proof -
  have m: "- with_sign neg a = with_sign (\<not> neg) a" by (simp add: with_sign_def)
  show "cdiv (with_sign neg a) (int d) = with_sign neg (a div d + of_bool (rounds (\<not> neg) a d))"
    unfolding cdiv_def m fdiv_with_sign(1) [OF assms] by (simp add: with_sign_def)
  show "cmod (with_sign neg a) (int d) = - int (if rounds (\<not> neg) a d then d - a mod d else a mod d)"
    unfolding cmod_def m fdiv_with_sign(2) [OF assms] ..
qed

section \<open>The common steps\<close>

text \<open>A quotient of \<open>n\<close> limbs by one limb has at most one high limb that is zero.\<close>

lemma quotient_size:
  fixes d :: limb
  assumes a: "1 \<le> n" "LB ^ (n - 1) \<le> a" and d: "d \<noteq> 0" and q: "a div unat d \<le> mval m p n"
    and k: "k = n - of_bool (m (p + n - 1) = 0)"
  shows "k \<le> n" "k = 0 \<or> m (p + k - 1) \<noteq> 0" "mval m p k = mval m p n"
proof -
  obtain j where j: "n = Suc j" using a(1) by (cases n) auto
  show "k \<le> n" by (simp add: k)
  show "mval m p k = mval m p n" using j by (simp add: k mval_high [of m p j] del: mval.simps)
  show "k = 0 \<or> m (p + k - 1) \<noteq> 0"
  proof (cases "m (p + n - 1) = 0 \<and> j \<noteq> 0")
    case True
    then obtain i where i: "j = Suc i" by (cases j) auto
    have "LB ^ i * unat d \<le> LB ^ i * LB" by (intro mult_le_mono2 less_imp_le) (rule unat_lt_LB)
    also have "LB ^ i * LB = LB ^ (n - 1)" using j i by simp
    also note a(2)
    finally have "LB ^ i * unat d \<le> a" .
    then have "LB ^ i \<le> a div unat d" using d by (simp add: less_eq_div_iff_mult_less_eq unat_gt_0)
    then have "LB ^ i \<le> mval m p j" using q True j by (simp add: mval_high [of m p j] del: mval.simps)
    then show ?thesis using top_not_zero [of j m p] True j i by (simp add: k)
  qed (use j in \<open>auto simp: k\<close>)
qed

text \<open>The quotient of the limbs of \<open>u\<close>, stored in \<open>w\<close>, possibly raised by 1.\<close>

lemma quotient_step:
  fixes d :: limb and st :: state
  assumes ok: "store_ok st" and w: "w \<in> live st" and u: "u \<in> live st" "SIZ st u \<noteq> 0" and d: "d \<noteq> 0"
    and st1: "st1 = MPZ_REALLOC w (ABSIZ st u) st"
    and eq: "mpn_divrem_1 (PTR st1 w) 0 (PTR st1 u) (ABSIZ st u) d (heap st1) = (r, m)"
    and A: "int A = \<bar>zval st u\<bar>"
  shows "unat r = A mod unat d"
    and "\<exists>m'. (if r \<noteq> 0 \<and> away then mpn_incr_u (PTR st1 w) 1 m else Some m) = Some m'
      \<and> updates st w (with_sign neg (A div unat d + of_bool (rounds away A (unat d))))
          (set_SIZ w (with_sign neg (ABSIZ st u - of_bool (m' (PTR st1 w + ABSIZ st u - 1) = 0))) (set_heap m' st1))"
proof -
  define n p where "n = ABSIZ st u" and "p = PTR st1 w"
  note U = operand_realloc [OF ok w u(1), where n = n, folded n_def]
  have U: "store_ok st1" "w \<in> live st1" "n \<le> ALLOC st1 w" "int (mval (heap st1) (PTR st1 u) n) = \<bar>zval st u\<bar>"
    "MPN_SAME_OR_SEPARATE2_P p n (PTR st1 u) n"
    using U st1 by (simp_all add: n_def p_def)
  have A1: "mval (heap st1) (PTR st1 u) n = A" using U(4) A by simp
  have n1: "1 \<le> n" using u(2) by (simp add: n_def Suc_leI)
  have lowA: "LB ^ (n - 1) \<le> A"
    using mval_ABSIZ_ge [OF ok u] zval_abs [OF ok u(1)] A by (simp add: n_def)
  have ltA: "A < LB ^ n" using mval_less [of "heap st1" "PTR st1 u" n] A1 by simp
  have ov: "MPN_SAME_OR_DECR_P (p + 0) (PTR st1 u) n" using U(5) by (auto simp: overlap_defs)
  note S = mpn_divrem_1_spec [OF eq [folded n_def p_def] d ov, unfolded A1]
  have d0: "0 < unat d" using d by (simp add: unat_gt_0)
  have Q: "mval m p n = A div unat d" and R: "unat r = A mod unat d"
    using S(1,2) div_mult_self3 [of "unat d" "mval m p n" "unat r"] d0
    by (simp_all add: limb_less_iff) (metis add.commute div_less div_mult_self1 mod_less mod_mult_self2 mult.commute add_0 add.right_neutral less_not_refl2)+
  show "unat r = A mod unat d" by (rule R)
  have rz: "r \<noteq> 0 \<longleftrightarrow> A mod unat d \<noteq> 0" using R by (simp add: unat_eq_0 [symmetric])
  have step: "\<exists>m'. (if r \<noteq> 0 \<and> away then mpn_incr_u p 1 m else Some m) = Some m'
      \<and> mval m' p n = A div unat d + of_bool (rounds away A (unat d)) \<and> only_in p n (heap st1) m'"
  proof (cases "r \<noteq> 0 \<and> away")
    case True
    then have "1 < unat d" using rz d0 by (cases "unat d = 1") auto
    then have "A div unat d \<le> A div 2" using d0 by (intro div_le_mono2) auto
    moreover have "LB ^ 1 \<le> LB ^ n" using n1 by (intro power_increasing) (auto simp: LB_def)
    ultimately have "mval m p n + unat (1 :: limb) < LB ^ n" using Q ltA by (simp add: LB_def)
    from mpn_incr_u_spec [OF this] obtain m' where "mpn_incr_u p 1 m = Some m'" "mval m' p n = mval m p n + 1" "only_in p n m m'"
      by auto
    then show ?thesis using True rz Q only_in_trans [OF S(3)] by (auto simp: rounds_def)
  next
    case False
    then show ?thesis using rz Q S(3) by (auto simp: rounds_def)
  qed
  then obtain m' where m': "(if r \<noteq> 0 \<and> away then mpn_incr_u p 1 m else Some m) = Some m'"
    "mval m' p n = A div unat d + of_bool (rounds away A (unat d))" "only_in p n (heap st1) m'" by blast
  have "A div unat d \<le> mval m' p n" using m'(2) by simp
  note N = quotient_size [OF n1 lowA d this refl]
  have "only_in p (ALLOC st1 w) (heap st1) m'" by (rule only_in_mono [OF m'(3)]) (use U(3) in auto)
  then have "updates st1 w (with_sign neg (mval m' p n)) (set_SIZ w (with_sign neg (n - of_bool (m' (p + n - 1) = 0))) (set_heap m' st1))"
    using result_sized [OF U(1,2), of m' "n - of_bool (m' (p + n - 1) = 0)" neg] N U(3) by (simp add: p_def)
  from updates_realloc [OF ok w this [unfolded st1]]
  have "updates st w (with_sign neg (mval m' p n)) (set_SIZ w (with_sign neg (n - of_bool (m' (p + n - 1) = 0))) (set_heap m' st1))"
    by (simp add: st1)
  then show "\<exists>m'. (if r \<noteq> 0 \<and> away then mpn_incr_u (PTR st1 w) 1 m else Some m) = Some m'
      \<and> updates st w (with_sign neg (A div unat d + of_bool (rounds away A (unat d))))
          (set_SIZ w (with_sign neg (ABSIZ st u - of_bool (m' (PTR st1 w + ABSIZ st u - 1) = 0))) (set_heap m' st1))"
    using m'(1,2) unfolding p_def n_def by auto
qed

lemma quotient_round:
  fixes d :: limb and st :: state
  assumes "store_ok st" "w \<in> live st" "u \<in> live st" "SIZ st u \<noteq> 0" "d \<noteq> 0" "st1 = MPZ_REALLOC w (ABSIZ st u) st"
    and "mpn_divrem_1 (PTR st1 w) 0 (PTR st1 u) (ABSIZ st u) d (heap st1) = (r, m)" and A: "int A = \<bar>zval st u\<bar>"
  obtains r' m' where "(if r \<noteq> 0 \<and> away then do { m \<leftarrow> mpn_incr_u (PTR st1 w) 1 m; Some (d - r, m) } else Some (r, m)) = Some (r', m')"
    and "unat r' = (if rounds away A (unat d) then unat d - A mod unat d else A mod unat d)" "r = 0 \<longrightarrow> r' = 0 \<and> m' = m"
    and "updates st w (with_sign neg (A div unat d + of_bool (rounds away A (unat d))))
          (set_SIZ w (with_sign neg (ABSIZ st u - of_bool (m' (PTR st1 w + ABSIZ st u - 1) = 0))) (set_heap m' st1))"
proof -
  note Q = quotient_step(1) [OF assms] quotient_step(2) [OF assms, where away = away and neg = neg]
  have lt: "A mod unat d < unat d" using assms(5) by (simp add: unat_gt_0)
  then have le: "r \<le> d" using Q(1) by (simp add: word_le_nat_alt)
  have sub: "unat (d - r) = unat d - A mod unat d" using le Q(1) by (simp add: unat_sub)
  have z: "r \<noteq> 0 \<longleftrightarrow> A mod unat d \<noteq> 0" using Q(1) by (simp add: unat_eq_0 [symmetric])
  from Q(2) obtain m' where m': "(if r \<noteq> 0 \<and> away then mpn_incr_u (PTR st1 w) 1 m else Some m) = Some m'"
    and "updates st w (with_sign neg (A div unat d + of_bool (rounds away A (unat d))))
          (set_SIZ w (with_sign neg (ABSIZ st u - of_bool (m' (PTR st1 w + ABSIZ st u - 1) = 0))) (set_heap m' st1))" by blast
  then show ?thesis
    using that [of "if r \<noteq> 0 \<and> away then d - r else r" m'] sub Q(1) z by (auto simp: rounds_def split: if_splits)
qed

text \<open>The state the contracts start from: an operand that is not 0, by sign and magnitude.\<close>

lemma magnitude:
  assumes "store_ok st" "u \<in> live st"
  obtains A where "int A = \<bar>zval st u\<bar>" "zval st u = with_sign (SIZ st u < 0) A"
    "A = mval (heap st) (PTR st u) (ABSIZ st u)"
  using zval_abs [OF assms] zval_with_sign [OF assms] that by metis

lemma sized_limb: "(if 0 \<le> (s :: int) then int k else - int k) = with_sign (s < 0) k"
  by (auto simp: with_sign_def)

lemma with_sign_0 [simp]: "with_sign neg 0 = 0"
  by (simp add: with_sign_def)

lemma zval_zero: "SIZ st u = 0 \<Longrightarrow> zval st u = 0"
  by (simp add: zval_def)

section \<open>The contract of a division by a limb\<close>

locale mpz_div_limb =
  fixes opr :: "var \<Rightarrow> var \<Rightarrow> limb \<Rightarrow> state \<Rightarrow> (gmp_error + (limb \<times> state)) option"
    and f :: "int \<Rightarrow> int \<Rightarrow> int" and g :: "int \<Rightarrow> int \<Rightarrow> int"
  assumes by_zero: "opr w u 0 st = Some DIVIDE_BY_ZERO"
    and contract: "store_ok st \<Longrightarrow> w \<in> live st \<Longrightarrow> u \<in> live st \<Longrightarrow> d \<noteq> 0 \<Longrightarrow>
      \<exists>r st'. opr w u d st = Some (Inr (r, st')) \<and> int (unat r) = g (zval st u) (int (unat d))
        \<and> updates st w (f (zval st u) (int (unat d))) st'"
begin

text \<open>It always returns, with an error exactly for the divisor 0.\<close>

lemma returns:
  assumes "store_ok st" "w \<in> live st" "u \<in> live st"
  shows "opr w u d st \<noteq> None" "opr w u d st = Some (Inl e) \<longleftrightarrow> d = 0 \<and> e = GMP_ERROR_DIVISION_BY_ZERO"
  using contract [OF assms, of d] by_zero [of w u st] by (cases "d = 0"; auto simp: DIVIDE_BY_ZERO_def)+

text \<open>Divisions of a variable in place by the limbs of a list.\<close>

primrec divide_all :: "var \<Rightarrow> limb list \<Rightarrow> state \<Rightarrow> (gmp_error + state) option" where
  "divide_all w [] st = Some (Inr st)"
| "divide_all w (d # ds) st =
     (case opr w w d st of None \<Rightarrow> None | Some (Inl e) \<Rightarrow> Some (Inl e) | Some (Inr (r, st)) \<Rightarrow> divide_all w ds st)"

lemma divide_all_spec:
  assumes "store_ok st" "w \<in> live st"
  shows "if 0 \<in> set ds then divide_all w ds st = Some DIVIDE_BY_ZERO
    else \<exists>st'. divide_all w ds st = Some (Inr st') \<and> updates st w (foldl f (zval st w) (map (\<lambda>d. int (unat d)) ds)) st'"
  using assms
proof (induction ds arbitrary: st)
  case Nil
  then show ?case by (simp add: updates_def)
next
  case (Cons d ds)
  show ?case
  proof (cases "d = 0")
    case True
    then show ?thesis using by_zero [of w w st] by (simp add: DIVIDE_BY_ZERO_def)
  next
    case False
    obtain r st1 where 1: "opr w w d st = Some (Inr (r, st1))" "updates st w (f (zval st w) (int (unat d))) st1"
      using contract [OF Cons.prems Cons.prems(2) False] by blast
    have "store_ok st1" "w \<in> live st1" using updatesD(1,2) [OF 1(2)] Cons.prems(2) by simp_all
    from Cons.IH [OF this] show ?thesis
      using False 1(1) updatesD(3) [OF 1(2)] updates_trans [OF 1(2)] by auto
  qed
qed

end

section \<open>Quotients\<close>

lemma mpz_tdiv_q_ui_spec:
  assumes ok: "store_ok st" and w: "w \<in> live st" and u: "u \<in> live st" and d: "d \<noteq> 0"
  shows "\<exists>r st'. mpz_tdiv_q_ui w u d st = Inr (r, st') \<and> int (unat r) = \<bar>zval st u\<bar> mod int (unat d)
    \<and> updates st w (zval st u sdiv int (unat d)) st'"
proof (cases "SIZ st u = 0")
  case True
  then show ?thesis using d zero_result [OF ok w] by (simp add: mpz_tdiv_q_ui_def zval_zero)
next
  case False
  obtain A where A: "int A = \<bar>zval st u\<bar>" "zval st u = with_sign (SIZ st u < 0) A" using magnitude [OF ok u] by metis
  define st1 where "st1 = MPZ_REALLOC w (ABSIZ st u) st"
  obtain r m where eq: "mpn_divrem_1 (PTR st1 w) 0 (PTR st1 u) (ABSIZ st u) d (heap st1) = (r, m)" by fastforce
  have Q: "unat r = A mod unat d" "updates st w (with_sign (SIZ st u < 0) (A div unat d))
      (set_SIZ w (with_sign (SIZ st u < 0) (ABSIZ st u - of_bool (m (PTR st1 w + ABSIZ st u - 1) = 0))) (set_heap m st1))"
    using quotient_step(1) [OF ok w u False d st1_def eq A(1)]
      quotient_step(2) [OF ok w u False d st1_def eq A(1), where away = False and neg = "SIZ st u < 0"] by (simp_all add: rounds_def)
  have "mpz_tdiv_q_ui w u d st = Inr (r, set_SIZ w (with_sign (SIZ st u < 0) (ABSIZ st u - of_bool (m (PTR st1 w + ABSIZ st u - 1) = 0))) (set_heap m st1))"
    using d False unfolding mpz_tdiv_q_ui_def Let_def ABSIZ_SIZ [symmetric] st1_def [symmetric] eq sized_limb by simp
  then show ?thesis
    using Q(2) unfolding A(1) [symmetric] A(2) sdiv_with_sign by (auto simp: Q(1) zmod_int simp del: of_nat_unat)
qed

lemma mpz_fdiv_q_ui_spec:
  assumes ok: "store_ok st" and w: "w \<in> live st" and u: "u \<in> live st" and d: "d \<noteq> 0"
  shows "\<exists>r st'. mpz_fdiv_q_ui w u d st = Some (Inr (r, st')) \<and> int (unat r) = zval st u mod int (unat d)
    \<and> updates st w (zval st u div int (unat d)) st'"
proof (cases "SIZ st u = 0")
  case True
  then show ?thesis using d zero_result [OF ok w] by (simp add: mpz_fdiv_q_ui_def zval_zero)
next
  case False
  obtain A where A: "int A = \<bar>zval st u\<bar>" "zval st u = with_sign (SIZ st u < 0) A" using magnitude [OF ok u] by metis
  define st1 where "st1 = MPZ_REALLOC w (ABSIZ st u) st"
  obtain r m where eq: "mpn_divrem_1 (PTR st1 w) 0 (PTR st1 u) (ABSIZ st u) d (heap st1) = (r, m)" by fastforce
  have d0: "0 < unat d" using d by (simp add: unat_gt_0)
  obtain r' m' where Q: "(if r \<noteq> 0 \<and> SIZ st u < 0 then do { m \<leftarrow> mpn_incr_u (PTR st1 w) 1 m; Some (d - r, m) } else Some (r, m)) = Some (r', m')"
    "unat r' = (if rounds (SIZ st u < 0) A (unat d) then unat d - A mod unat d else A mod unat d)"
    "updates st w (with_sign (SIZ st u < 0) (A div unat d + of_bool (rounds (SIZ st u < 0) A (unat d))))
          (set_SIZ w (with_sign (SIZ st u < 0) (ABSIZ st u - of_bool (m' (PTR st1 w + ABSIZ st u - 1) = 0))) (set_heap m' st1))"
    by (rule quotient_round [OF ok w u False d st1_def eq A(1), where away = "SIZ st u < 0" and neg = "SIZ st u < 0"])
  have "mpz_fdiv_q_ui w u d st = Some (Inr (r', set_SIZ w (with_sign (SIZ st u < 0) (ABSIZ st u - of_bool (m' (PTR st1 w + ABSIZ st u - 1) = 0))) (set_heap m' st1)))"
    using d False unfolding mpz_fdiv_q_ui_def Let_def ABSIZ_SIZ [symmetric] st1_def [symmetric] eq sized_limb case_prod_conv Q(1) by simp
  moreover have "int (unat r') = zval st u mod int (unat d)" unfolding A(2) fdiv_with_sign [OF d0] by (simp only: Q(2))
  ultimately show ?thesis using Q(3) unfolding A(2) fdiv_with_sign [OF d0] by blast
qed

lemma mpz_cdiv_q_ui_spec:
  assumes ok: "store_ok st" and w: "w \<in> live st" and u: "u \<in> live st" and d: "d \<noteq> 0"
  shows "\<exists>r st'. mpz_cdiv_q_ui w u d st = Some (Inr (r, st')) \<and> int (unat r) = - cmod (zval st u) (int (unat d))
    \<and> updates st w (cdiv (zval st u) (int (unat d))) st'"
proof (cases "SIZ st u = 0")
  case True
  then show ?thesis using d zero_result [OF ok w] by (simp add: mpz_cdiv_q_ui_def zval_zero cdiv_def cmod_def)
next
  case False
  obtain A where A: "int A = \<bar>zval st u\<bar>" "zval st u = with_sign (SIZ st u < 0) A" using magnitude [OF ok u] by metis
  define st1 where "st1 = MPZ_REALLOC w (ABSIZ st u) st"
  obtain r m where eq: "mpn_divrem_1 (PTR st1 w) 0 (PTR st1 u) (ABSIZ st u) d (heap st1) = (r, m)" by fastforce
  have d0: "0 < unat d" using d by (simp add: unat_gt_0)
  obtain r' m' where Q: "(if r \<noteq> 0 \<and> SIZ st u \<ge> 0 then do { m \<leftarrow> mpn_incr_u (PTR st1 w) 1 m; Some (d - r, m) } else Some (r, m)) = Some (r', m')"
    "unat r' = (if rounds (SIZ st u \<ge> 0) A (unat d) then unat d - A mod unat d else A mod unat d)"
    "updates st w (with_sign (SIZ st u < 0) (A div unat d + of_bool (rounds (SIZ st u \<ge> 0) A (unat d))))
          (set_SIZ w (with_sign (SIZ st u < 0) (ABSIZ st u - of_bool (m' (PTR st1 w + ABSIZ st u - 1) = 0))) (set_heap m' st1))"
    by (rule quotient_round [OF ok w u False d st1_def eq A(1), where away = "SIZ st u \<ge> 0" and neg = "SIZ st u < 0"])
  have "mpz_cdiv_q_ui w u d st = Some (Inr (r', set_SIZ w (with_sign (SIZ st u < 0) (ABSIZ st u - of_bool (m' (PTR st1 w + ABSIZ st u - 1) = 0))) (set_heap m' st1)))"
    using d False unfolding mpz_cdiv_q_ui_def Let_def ABSIZ_SIZ [symmetric] st1_def [symmetric] eq sized_limb case_prod_conv Q(1) by simp
  moreover have "int (unat r') = - cmod (zval st u) (int (unat d))" unfolding A(2) minus_minus cdiv_with_sign [OF d0] not_less minus_minus by (simp only: Q(2))
  ultimately show ?thesis using Q(3) unfolding A(2) cdiv_with_sign [OF d0] not_less by blast
qed

interpretation mpz_tdiv_q_ui: mpz_div_limb "\<lambda>w u d st. Some (mpz_tdiv_q_ui w u d st)" "(sdiv)" "\<lambda>a b. \<bar>a\<bar> mod b"
  using mpz_tdiv_q_ui_spec by unfold_locales (simp add: mpz_tdiv_q_ui_def, simp)

interpretation mpz_fdiv_q_ui: mpz_div_limb mpz_fdiv_q_ui "(div)" "(mod)"
  using mpz_fdiv_q_ui_spec by unfold_locales (simp add: mpz_fdiv_q_ui_def)

interpretation mpz_cdiv_q_ui: mpz_div_limb mpz_cdiv_q_ui cdiv "\<lambda>a b. - cmod a b"
  using mpz_cdiv_q_ui_spec by unfold_locales (simp add: mpz_cdiv_q_ui_def)

section \<open>Remainders\<close>

lemma remainder_limb:
  fixes d :: limb
  assumes "store_ok st" "u \<in> live st" "d \<noteq> 0" "int A = \<bar>zval st u\<bar>"
  shows "unat (mpn_mod_1 (heap st) (PTR st u) (ABSIZ st u) d) = A mod unat d"
    and "unat (if away then d - mpn_mod_1 (heap st) (PTR st u) (ABSIZ st u) d else mpn_mod_1 (heap st) (PTR st u) (ABSIZ st u) d)
      = (if away then unat d - A mod unat d else A mod unat d)"
proof -
  have "mval (heap st) (PTR st u) (ABSIZ st u) = A" using zval_abs [OF assms(1,2)] assms(4) by simp
  then show r: "unat (mpn_mod_1 (heap st) (PTR st u) (ABSIZ st u) d) = A mod unat d"
    using mpn_mod_1_spec [OF assms(3), of "heap st" "PTR st u" "ABSIZ st u"] by simp
  have "A mod unat d < unat d" using assms(3) by (simp add: unat_gt_0)
  then have "mpn_mod_1 (heap st) (PTR st u) (ABSIZ st u) d \<le> d" using r by (simp add: word_le_nat_alt)
  then show "unat (if away then d - mpn_mod_1 (heap st) (PTR st u) (ABSIZ st u) d else mpn_mod_1 (heap st) (PTR st u) (ABSIZ st u) d)
      = (if away then unat d - A mod unat d else A mod unat d)" using r by (simp add: unat_sub)
qed

lemma heap_SIZ_swap: "set_heap m (set_SIZ w s st) = set_SIZ w s (set_heap m st)"
  by (simp add: set_SIZ_def set_heap_def)

lemma one_limb_with_sign:
  assumes "store_ok st" "w \<in> live st" "s = with_sign neg (of_bool (v \<noteq> 0))"
  shows "updates st w (with_sign neg (unat v)) (set_SIZ w s (set_heap ((heap st)(PTR st w := v)) st))"
proof -
  have "s = (if neg then - of_bool (v \<noteq> 0) else of_bool (v \<noteq> 0))" using assms(3) by (simp add: with_sign_def)
  from one_limb_spec [OF assms(1,2) this] show ?thesis unfolding with_sign_def .
qed

lemma mpz_tdiv_r_ui_spec:
  assumes ok: "store_ok st" and w: "w \<in> live st" and u: "u \<in> live st" and d: "d \<noteq> 0"
  shows "\<exists>r st'. mpz_tdiv_r_ui w u d st = Inr (r, st') \<and> int (unat r) = \<bar>zval st u\<bar> mod int (unat d)
    \<and> updates st w (zval st u smod int (unat d)) st'"
proof (cases "SIZ st u = 0")
  case True
  then show ?thesis using d zero_result [OF ok w] by (simp add: mpz_tdiv_r_ui_def zval_zero)
next
  case False
  obtain A where A: "int A = \<bar>zval st u\<bar>" "zval st u = with_sign (SIZ st u < 0) A" using magnitude [OF ok u] by metis
  define r where "r = mpn_mod_1 (heap st) (PTR st u) (ABSIZ st u) d"
  have r: "unat r = A mod unat d" unfolding r_def by (rule remainder_limb(1) [OF ok u d A(1)])
  have v: "zval st u smod int (unat d) = with_sign (SIZ st u < 0) (unat r)" unfolding A(2) smod_with_sign r ..
  have i: "int (unat r) = \<bar>zval st u\<bar> mod int (unat d)" unfolding A(1) [symmetric] r by (rule zmod_int)
  show ?thesis
  proof (cases "r = 0")
    case True
    then have "mpz_tdiv_r_ui w u d st = Inr (r, set_SIZ w 0 st)"
      using d False unfolding mpz_tdiv_r_ui_def Let_def ABSIZ_SIZ [symmetric] r_def [symmetric] by simp
    then show ?thesis using zero_result [OF ok w] True v i by (auto simp: with_sign_def)
  next
    case False
    then have "mpz_tdiv_r_ui w u d st = Inr (r, set_SIZ w (with_sign (SIZ st u < 0) (of_bool (r \<noteq> 0))) (set_heap ((heap st)(PTR st w := r)) st))"
      using d \<open>SIZ st u \<noteq> 0\<close> unfolding mpz_tdiv_r_ui_def Let_def ABSIZ_SIZ [symmetric] r_def [symmetric]
      by (auto simp: heap_SIZ_swap with_sign_def)
    then show ?thesis using one_limb_with_sign [OF ok w refl, of "SIZ st u < 0" r] v i by auto
  qed
qed

lemma mpz_fdiv_r_ui_spec:
  assumes ok: "store_ok st" and w: "w \<in> live st" and u: "u \<in> live st" and d: "d \<noteq> 0"
  shows "\<exists>r st'. mpz_fdiv_r_ui w u d st = Inr (r, st') \<and> int (unat r) = zval st u mod int (unat d)
    \<and> updates st w (zval st u mod int (unat d)) st'"
proof (cases "SIZ st u = 0")
  case True
  then show ?thesis using d zero_result [OF ok w] by (simp add: mpz_fdiv_r_ui_def zval_zero)
next
  case False
  obtain A where A: "int A = \<bar>zval st u\<bar>" "zval st u = with_sign (SIZ st u < 0) A" using magnitude [OF ok u] by metis
  have d0: "0 < unat d" using d by (simp add: unat_gt_0)
  define r r' where "r = mpn_mod_1 (heap st) (PTR st u) (ABSIZ st u) d" and "r' = (if SIZ st u < 0 then d - r else r)"
  have r: "unat r = A mod unat d" "unat r' = (if SIZ st u < 0 then unat d - A mod unat d else A mod unat d)"
    unfolding r_def r'_def by (rule remainder_limb [OF ok u d A(1)])+
  have z: "r = 0 \<longleftrightarrow> A mod unat d = 0" using r(1) by (simp add: unat_eq_0 [symmetric])
  have lt: "A mod unat d < unat d" using d0 by simp
  show ?thesis
  proof (cases "r = 0")
    case True
    then have "mpz_fdiv_r_ui w u d st = Inr (r, set_SIZ w 0 st)"
      using d False unfolding mpz_fdiv_r_ui_def Let_def ABSIZ_SIZ [symmetric] r_def [symmetric] by simp
    then show ?thesis using zero_result [OF ok w] True z unfolding A(2) fdiv_with_sign(2) [OF d0] by (auto simp: rounds_def)
  next
    case False
    have nz: "r' \<noteq> 0" using z False r(2) lt by (auto simp: unat_eq_0 [symmetric] split: if_splits)
    have "mpz_fdiv_r_ui w u d st = Inr (r', set_SIZ w (with_sign False (of_bool (r' \<noteq> 0))) (set_heap ((heap st)(PTR st w := r')) st))"
      using d \<open>SIZ st u \<noteq> 0\<close> False nz unfolding mpz_fdiv_r_ui_def Let_def ABSIZ_SIZ [symmetric] r_def [symmetric] r'_def [symmetric]
      by (simp add: with_sign_def)
    moreover have "zval st u mod int (unat d) = with_sign False (unat r')" "int (unat r') = zval st u mod int (unat d)"
      unfolding A(2) fdiv_with_sign(2) [OF d0] r(2) using z False by (auto simp: rounds_def with_sign_def)
    ultimately show ?thesis using one_limb_with_sign [OF ok w refl, of False r'] by metis
  qed
qed

lemma mpz_cdiv_r_ui_spec:
  assumes ok: "store_ok st" and w: "w \<in> live st" and u: "u \<in> live st" and d: "d \<noteq> 0"
  shows "\<exists>r st'. mpz_cdiv_r_ui w u d st = Inr (r, st') \<and> int (unat r) = - cmod (zval st u) (int (unat d))
    \<and> updates st w (cmod (zval st u) (int (unat d))) st'"
proof (cases "SIZ st u = 0")
  case True
  then show ?thesis using d zero_result [OF ok w] by (simp add: mpz_cdiv_r_ui_def zval_zero cmod_def)
next
  case False
  obtain A where A: "int A = \<bar>zval st u\<bar>" "zval st u = with_sign (SIZ st u < 0) A" using magnitude [OF ok u] by metis
  have d0: "0 < unat d" using d by (simp add: unat_gt_0)
  define r r' where "r = mpn_mod_1 (heap st) (PTR st u) (ABSIZ st u) d" and "r' = (if SIZ st u \<ge> 0 then d - r else r)"
  have r: "unat r = A mod unat d" "unat r' = (if SIZ st u \<ge> 0 then unat d - A mod unat d else A mod unat d)"
    unfolding r_def r'_def by (rule remainder_limb [OF ok u d A(1)])+
  have z: "r = 0 \<longleftrightarrow> A mod unat d = 0" using r(1) by (simp add: unat_eq_0 [symmetric])
  have lt: "A mod unat d < unat d" using d0 by simp
  show ?thesis
  proof (cases "r = 0")
    case True
    then have "mpz_cdiv_r_ui w u d st = Inr (r, set_SIZ w 0 st)"
      using d False unfolding mpz_cdiv_r_ui_def Let_def ABSIZ_SIZ [symmetric] r_def [symmetric] by simp
    then show ?thesis using zero_result [OF ok w] True z unfolding A(2) cdiv_with_sign(2) [OF d0] by (auto simp: rounds_def)
  next
    case False
    have nz: "r' \<noteq> 0" using z False r(2) lt by (auto simp: unat_eq_0 [symmetric] split: if_splits)
    have "mpz_cdiv_r_ui w u d st = Inr (r', set_SIZ w (with_sign True (of_bool (r' \<noteq> 0))) (set_heap ((heap st)(PTR st w := r')) st))"
      using d \<open>SIZ st u \<noteq> 0\<close> False nz unfolding mpz_cdiv_r_ui_def Let_def ABSIZ_SIZ [symmetric] r_def [symmetric] r'_def [symmetric]
      by (simp add: with_sign_def)
    moreover have "cmod (zval st u) (int (unat d)) = with_sign True (unat r')" "int (unat r') = - cmod (zval st u) (int (unat d))"
      unfolding A(2) cdiv_with_sign(2) [OF d0] r(2) using z False by (auto simp: rounds_def with_sign_def not_less)
    ultimately show ?thesis using one_limb_with_sign [OF ok w refl, of True r'] by metis
  qed
qed

interpretation mpz_tdiv_r_ui: mpz_div_limb "\<lambda>w u d st. Some (mpz_tdiv_r_ui w u d st)" "(smod)" "\<lambda>a b. \<bar>a\<bar> mod b"
  using mpz_tdiv_r_ui_spec by unfold_locales (simp add: mpz_tdiv_r_ui_def, simp)

interpretation mpz_fdiv_r_ui: mpz_div_limb "\<lambda>w u d st. Some (mpz_fdiv_r_ui w u d st)" "(mod)" "(mod)"
  using mpz_fdiv_r_ui_spec by unfold_locales (simp add: mpz_fdiv_r_ui_def, simp)

interpretation mpz_cdiv_r_ui: mpz_div_limb "\<lambda>w u d st. Some (mpz_cdiv_r_ui w u d st)" cmod "\<lambda>a b. - cmod a b"
  using mpz_cdiv_r_ui_spec by unfold_locales (simp add: mpz_cdiv_r_ui_def, simp)

text \<open>The functions that only return the remainder.\<close>

lemma mpz_div_ui_spec:
  assumes ok: "store_ok st" and u: "u \<in> live st" and d: "d \<noteq> 0"
  shows "\<exists>r. mpz_tdiv_ui u d st = Inr r \<and> int (unat r) = \<bar>zval st u\<bar> mod int (unat d)"
    and "\<exists>r. mpz_fdiv_ui u d st = Inr r \<and> int (unat r) = zval st u mod int (unat d)"
    and "\<exists>r. mpz_cdiv_ui u d st = Inr r \<and> int (unat r) = - cmod (zval st u) (int (unat d))"
proof -
  obtain A where A: "int A = \<bar>zval st u\<bar>" "zval st u = with_sign (SIZ st u < 0) A" using magnitude [OF ok u] by metis
  have d0: "0 < unat d" using d by (simp add: unat_gt_0)
  define r where "r = mpn_mod_1 (heap st) (PTR st u) (ABSIZ st u) d"
  note R = remainder_limb [OF ok u d A(1), folded r_def]
  have z: "r = 0 \<longleftrightarrow> A mod unat d = 0" using R(1) by (simp add: unat_eq_0 [symmetric])
  have A0: "A = 0" if "SIZ st u = 0" using A(1) zval_zero [OF that] by simp
  have "mpz_tdiv_ui u d st = Inr (if SIZ st u = 0 then 0 else r)"
    using d unfolding mpz_tdiv_ui_def Let_def ABSIZ_SIZ [symmetric] r_def [symmetric] by simp
  moreover have "int (unat (if SIZ st u = 0 then 0 else r)) = \<bar>zval st u\<bar> mod int (unat d)"
    unfolding A(1) [symmetric] using R(1) A0 by (auto simp: zmod_int simp del: of_nat_unat)
  ultimately show "\<exists>r. mpz_tdiv_ui u d st = Inr r \<and> int (unat r) = \<bar>zval st u\<bar> mod int (unat d)" by blast
  have "mpz_fdiv_ui u d st = Inr (if SIZ st u = 0 then 0 else if r = 0 then r else if SIZ st u < 0 then d - r else r)"
    using d unfolding mpz_fdiv_ui_def Let_def ABSIZ_SIZ [symmetric] r_def [symmetric] by simp
  moreover have "int (unat (if SIZ st u = 0 then 0 else if r = 0 then r else if SIZ st u < 0 then d - r else r)) = zval st u mod int (unat d)"
    unfolding A(2) fdiv_with_sign(2) [OF d0] using R(1) R(2) [of True] A0 z by (auto simp: rounds_def simp del: of_nat_unat)
  ultimately show "\<exists>r. mpz_fdiv_ui u d st = Inr r \<and> int (unat r) = zval st u mod int (unat d)" by blast
  have "mpz_cdiv_ui u d st = Inr (if SIZ st u = 0 then 0 else if r = 0 then r else if SIZ st u \<ge> 0 then d - r else r)"
    using d unfolding mpz_cdiv_ui_def Let_def ABSIZ_SIZ [symmetric] r_def [symmetric] by simp
  moreover have "int (unat (if SIZ st u = 0 then 0 else if r = 0 then r else if SIZ st u \<ge> 0 then d - r else r)) = - cmod (zval st u) (int (unat d))"
    unfolding A(2) cdiv_with_sign(2) [OF d0] using R(1) R(2) [of True] A0 z by (auto simp: rounds_def not_less simp del: of_nat_unat)
  ultimately show "\<exists>r. mpz_cdiv_ui u d st = Inr r \<and> int (unat r) = - cmod (zval st u) (int (unat d))" by blast
qed

lemma mpz_div_ui_error:
  assumes "store_ok st" "u \<in> live st"
  shows "mpz_tdiv_ui u d st = Inl e \<longleftrightarrow> d = 0 \<and> e = GMP_ERROR_DIVISION_BY_ZERO"
    and "mpz_fdiv_ui u d st = Inl e \<longleftrightarrow> d = 0 \<and> e = GMP_ERROR_DIVISION_BY_ZERO"
    and "mpz_cdiv_ui u d st = Inl e \<longleftrightarrow> d = 0 \<and> e = GMP_ERROR_DIVISION_BY_ZERO"
  using mpz_div_ui_spec [OF assms, of d]
  by (cases "d = 0"; auto simp: mpz_tdiv_ui_def mpz_fdiv_ui_def mpz_cdiv_ui_def DIVIDE_BY_ZERO_def)+

section \<open>Quotient and remainder\<close>

text \<open>Two results: \<open>q\<close> gets the value \<open>k\<close> and \<open>r\<close> the value \<open>l\<close>.\<close>

definition updates2 :: "state \<Rightarrow> var \<Rightarrow> int \<Rightarrow> var \<Rightarrow> int \<Rightarrow> state \<Rightarrow> bool" where
  "updates2 st q k r l st' \<longleftrightarrow> store_ok st' \<and> live st' = live st \<and> zval st' q = k \<and> zval st' r = l
    \<and> (\<forall>x \<in> live st. x \<noteq> q \<longrightarrow> x \<noteq> r \<longrightarrow> zval st' x = zval st x)"

lemma updates2I: "updates st q k st1 \<Longrightarrow> updates st1 r l st2 \<Longrightarrow> q \<in> live st \<Longrightarrow> q \<noteq> r \<Longrightarrow> updates2 st q k r l st2"
  by (auto simp: updates_def updates2_def)

lemma set_SIZ_swap: "x \<noteq> y \<Longrightarrow> set_SIZ x a (set_SIZ y b st) = set_SIZ y b (set_SIZ x a st)"
  by (simp add: set_SIZ_def fun_upd_twist)

lemma set_heap_twice [simp]: "set_heap m (set_heap m' st) = set_heap m st"
  by (simp add: set_heap_def)

text \<open>After the quotient, in \<open>{qp,n}\<close>, the remainder limb is stored: it does not touch the quotient.\<close>

lemma remainder_store:
  fixes n :: nat and v :: limb
  assumes U: "updates st q k (set_SIZ q s (set_heap m st1))" and qr: "q \<in> live st" "r \<in> live st" "q \<noteq> r"
    and n: "1 \<le> n" "n \<le> ALLOC st1 q"
  shows "updates2 st q k r (with_sign neg (unat v))
      (set_SIZ q s (set_SIZ r (with_sign neg (of_bool (v \<noteq> 0))) (set_heap (m(PTR st1 r := v)) st1)))"
    and "updates2 st q k r 0 (set_SIZ q s (set_SIZ r 0 (set_heap m st1)))"
    and "(m(PTR st1 r := v)) (PTR st1 q + n - 1) = m (PTR st1 q + n - 1)"
proof -
  define st2 where "st2 = set_SIZ q s (set_heap m st1)"
  note D = updatesD [OF U [folded st2_def]]
  have P: "PTR st2 = PTR st1" "ALLOC st2 = ALLOC st1" "heap st2 = m" by (auto simp: st2_def)
  have l: "q \<in> live st2" "r \<in> live st2" using D(2) qr by simp_all
  have "set_SIZ r t (set_heap h st2) = set_SIZ q s (set_SIZ r t (set_heap h st1))" for t h
    unfolding st2_def using qr(3) by (simp add: heap_SIZ_swap set_SIZ_swap)
  note e = this [of _ "m(PTR st1 r := v)"] this [of _ m]
  show "updates2 st q k r (with_sign neg (unat v))
      (set_SIZ q s (set_SIZ r (with_sign neg (of_bool (v \<noteq> 0))) (set_heap (m(PTR st1 r := v)) st1)))"
    using updates2I [OF U [folded st2_def] one_limb_with_sign [OF D(1) l(2) refl, of neg v] qr(1,3)] unfolding P e .
  have "st2 = set_heap m st2" using P(3) by (metis set_heap_same)
  then have "updates st2 r 0 (set_SIZ r 0 (set_heap m st2))" using zero_result [OF D(1) l(2)] by metis
  from updates2I [OF U [folded st2_def] this qr(1,3)] show "updates2 st q k r 0 (set_SIZ q s (set_SIZ r 0 (set_heap m st1)))"
    unfolding e .
  have "PTR st1 r \<noteq> PTR st1 q + n - 1"
    using wf_sep [OF D(1) l qr(3)] ALLOC_pos [OF D(1) l(2)] n unfolding P by auto
  then show "(m(PTR st1 r := v)) (PTR st1 q + n - 1) = m (PTR st1 q + n - 1)" by simp
qed

locale mpz_div_limb_qr =
  fixes opr :: "var \<Rightarrow> var \<Rightarrow> var \<Rightarrow> limb \<Rightarrow> state \<Rightarrow> (gmp_error + (limb \<times> state)) option"
    and f :: "int \<Rightarrow> int \<Rightarrow> int" and g :: "int \<Rightarrow> int \<Rightarrow> int"
  assumes by_zero: "opr q r u 0 st = Some DIVIDE_BY_ZERO"
    and contract: "store_ok st \<Longrightarrow> q \<in> live st \<Longrightarrow> r \<in> live st \<Longrightarrow> q \<noteq> r \<Longrightarrow> u \<in> live st \<Longrightarrow> d \<noteq> 0 \<Longrightarrow>
      \<exists>rl st'. opr q r u d st = Some (Inr (rl, st')) \<and> int (unat rl) = \<bar>g (zval st u) (int (unat d))\<bar>
        \<and> updates2 st q (f (zval st u) (int (unat d))) r (g (zval st u) (int (unat d))) st'"
    and law: "b \<noteq> 0 \<Longrightarrow> f a b * b + g a b = a"
begin

lemma returns:
  assumes "store_ok st" "q \<in> live st" "r \<in> live st" "q \<noteq> r" "u \<in> live st"
  shows "opr q r u d st = Some (Inl e) \<longleftrightarrow> d = 0 \<and> e = GMP_ERROR_DIVISION_BY_ZERO"
  using contract [OF assms, of d] by_zero [of q r u st] by (cases "d = 0") (auto simp: DIVIDE_BY_ZERO_def)

text \<open>The dividend is put together again from the two results.\<close>

lemma recompose:
  assumes "store_ok st" "q \<in> live st" "r \<in> live st" "q \<noteq> r" "u \<in> live st" "d \<noteq> 0"
  shows "\<exists>rl st'. opr q r u d st = Some (Inr (rl, st')) \<and> zval st' q * int (unat d) + zval st' r = zval st u"
proof -
  have "int (unat d) \<noteq> 0" using assms(6) by (simp only: of_nat_eq_0_iff unat_eq_0 not_False_eq_True)
  then show ?thesis using contract [OF assms] law by (fastforce simp: updates2_def)
qed

end

lemma sdiv_smod_law: "a sdiv b * b + a smod b = (a :: int)"
  by (rule signed_division_class.sdiv_mult_smod_eq)

lemma mpz_tdiv_qr_ui_spec:
  assumes ok: "store_ok st" and q: "q \<in> live st" and r: "r \<in> live st" and qr: "q \<noteq> r" and u: "u \<in> live st" and d: "d \<noteq> 0"
  shows "\<exists>rl st'. mpz_tdiv_qr_ui q r u d st = Inr (rl, st') \<and> int (unat rl) = \<bar>zval st u smod int (unat d)\<bar>
    \<and> updates2 st q (zval st u sdiv int (unat d)) r (zval st u smod int (unat d)) st'"
proof (cases "SIZ st u = 0")
  case True
  have "updates2 st q 0 r 0 (set_SIZ r 0 (set_SIZ q 0 st))"
    using zero_result [OF ok q] by (intro updates2I [OF _ zero_result]) (auto simp: updates_def q r qr)
  then show ?thesis using d True by (simp add: mpz_tdiv_qr_ui_def zval_zero)
next
  case False
  obtain A where A: "int A = \<bar>zval st u\<bar>" "zval st u = with_sign (SIZ st u < 0) A" using magnitude [OF ok u] by metis
  define neg n st1 where "neg = (SIZ st u < 0)" and "n = ABSIZ st u" and "st1 = MPZ_REALLOC q n st"
  have sg: "SIZ st u < 0 \<longleftrightarrow> neg" "0 \<le> SIZ st u \<longleftrightarrow> \<not> neg" by (auto simp: neg_def)
  obtain rl m where eq: "mpn_divrem_1 (PTR st1 q) 0 (PTR st1 u) n d (heap st1) = (rl, m)" by fastforce
  have n: "1 \<le> n" "n \<le> ALLOC st1 q"
    using False MPZ_REALLOC_spec(3) [OF ok q, of n] by (simp_all add: n_def st1_def Suc_leI)
  define k where "k = n - of_bool (m (PTR st1 q + n - 1) = 0)"
  have Q: "unat rl = A mod unat d" "updates st q (with_sign neg (A div unat d)) (set_SIZ q (with_sign neg k) (set_heap m st1))"
    using quotient_step(1) [OF ok q u False d st1_def [unfolded n_def] eq [unfolded n_def] A(1)]
      quotient_step(2) [OF ok q u False d st1_def [unfolded n_def] eq [unfolded n_def] A(1), where away = False and neg = neg]
    by (simp_all add: rounds_def n_def k_def)
  note S = remainder_store(1) [OF Q(2) q r qr n, where v = rl and neg = neg] remainder_store(2) [OF Q(2) q r qr n] remainder_store(3) [OF Q(2) q r qr n, where v = rl]
  have run: "mpz_tdiv_qr_ui q r u d st = Inr (rl, set_SIZ q (with_sign neg k)
      (if rl = 0 then set_SIZ r 0 (set_heap m st1) else set_SIZ r (with_sign neg (of_bool (rl \<noteq> 0))) (set_heap (m(PTR st1 r := rl)) st1)))"
  proof (cases "rl = 0")
    case True
    then show ?thesis using d False
      unfolding mpz_tdiv_qr_ui_def Let_def ABSIZ_SIZ [symmetric] n_def [symmetric] st1_def [symmetric] eq sized_limb sg
      by (simp add: k_def)
  next
    case rl: False
    then have s1: "(if \<not> neg then 1 else - 1) = with_sign neg (of_bool (rl \<noteq> 0))" by (simp add: with_sign_def)
    show ?thesis using d False rl S(3)
      unfolding mpz_tdiv_qr_ui_def Let_def ABSIZ_SIZ [symmetric] n_def [symmetric] st1_def [symmetric] eq sized_limb sg s1
      by (simp add: k_def heap_SIZ_swap del: fun_upd_apply)
  qed
  have v: "zval st u sdiv int (unat d) = with_sign neg (A div unat d)" "zval st u smod int (unat d) = with_sign neg (unat rl)"
    unfolding A(2) sdiv_with_sign smod_with_sign Q(1) neg_def by (rule refl)+
  have "int (unat rl) = \<bar>with_sign neg (unat rl)\<bar>" by (rule with_sign_simps(3) [symmetric])
  moreover have "updates2 st q (with_sign neg (A div unat d)) r (with_sign neg (unat rl))
      (set_SIZ q (with_sign neg k)
        (if rl = 0 then set_SIZ r 0 (set_heap m st1) else set_SIZ r (with_sign neg (of_bool (rl \<noteq> 0))) (set_heap (m(PTR st1 r := rl)) st1)))"
    using S(1,2) by (cases "rl = 0") simp_all
  ultimately show ?thesis unfolding run v by blast
qed

lemma mpz_fdiv_qr_ui_spec:
  assumes ok: "store_ok st" and q: "q \<in> live st" and r: "r \<in> live st" and qr: "q \<noteq> r" and u: "u \<in> live st" and d: "d \<noteq> 0"
  shows "\<exists>rl st'. mpz_fdiv_qr_ui q r u d st = Some (Inr (rl, st')) \<and> int (unat rl) = \<bar>zval st u mod int (unat d)\<bar>
    \<and> updates2 st q (zval st u div int (unat d)) r (zval st u mod int (unat d)) st'"
proof (cases "SIZ st u = 0")
  case True
  have "updates2 st q 0 r 0 (set_SIZ r 0 (set_SIZ q 0 st))"
    using zero_result [OF ok q] by (intro updates2I [OF _ zero_result]) (auto simp: updates_def q r qr)
  then show ?thesis using d True by (simp add: mpz_fdiv_qr_ui_def zval_zero)
next
  case False
  obtain A where A: "int A = \<bar>zval st u\<bar>" "zval st u = with_sign (SIZ st u < 0) A" using magnitude [OF ok u] by metis
  define neg n st1 where "neg = (SIZ st u < 0)" and "n = ABSIZ st u" and "st1 = MPZ_REALLOC q n st"
  have sg: "SIZ st u < 0 \<longleftrightarrow> neg" "0 \<le> SIZ st u \<longleftrightarrow> \<not> neg" by (auto simp: neg_def)
  obtain rl m where eq: "mpn_divrem_1 (PTR st1 q) 0 (PTR st1 u) n d (heap st1) = (rl, m)" by fastforce
  have n: "1 \<le> n" "n \<le> ALLOC st1 q"
    using False MPZ_REALLOC_spec(3) [OF ok q, of n] by (simp_all add: n_def st1_def Suc_leI)
  have d0: "0 < unat d" using d by (simp add: unat_gt_0)
  obtain r' m' where Q: "(if rl \<noteq> 0 \<and> neg then do { m \<leftarrow> mpn_incr_u (PTR st1 q) 1 m; Some (d - rl, m) } else Some (rl, m)) = Some (r', m')"
    "unat r' = (if rounds neg A (unat d) then unat d - A mod unat d else A mod unat d)" "rl = 0 \<longrightarrow> r' = 0 \<and> m' = m"
    "updates st q (with_sign neg (A div unat d + of_bool (rounds neg A (unat d))))
          (set_SIZ q (with_sign neg (n - of_bool (m' (PTR st1 q + n - 1) = 0))) (set_heap m' st1))"
    unfolding n_def
    by (rule quotient_round [OF ok q u False d st1_def [unfolded n_def] eq [unfolded n_def] A(1), where away = neg and neg = neg])
  define k where "k = n - of_bool (m' (PTR st1 q + n - 1) = 0)"
  note S = remainder_store(1) [OF Q(4) [folded k_def] q r qr n, where v = r' and neg = False] remainder_store(2) [OF Q(4) [folded k_def] q r qr n] remainder_store(3) [OF Q(4) [folded k_def] q r qr n, where v = r']
  have st: "(if rl = 0 then set_SIZ r 0 (set_heap m st1)
      else set_SIZ r (with_sign False (of_bool (r' \<noteq> 0))) (set_heap (m'(PTR st1 r := r')) st1))
    = (if rl = 0 then set_SIZ r 0 (set_heap m' st1)
      else set_SIZ r (with_sign False (of_bool (r' \<noteq> 0))) (set_heap (m'(PTR st1 r := r')) st1))" using Q(3) by simp
  have run: "mpz_fdiv_qr_ui q r u d st = Some (Inr (r', set_SIZ q (with_sign neg k)
      (if rl = 0 then set_SIZ r 0 (set_heap m' st1) else set_SIZ r (with_sign False (of_bool (r' \<noteq> 0))) (set_heap (m'(PTR st1 r := r')) st1))))"
  proof (cases "rl = 0")
    case True
    then show ?thesis using d False Q(3)
      unfolding mpz_fdiv_qr_ui_def Let_def ABSIZ_SIZ [symmetric] n_def [symmetric] st1_def [symmetric] eq sized_limb sg
      by (simp add: k_def)
  next
    case rl: False
    then have Q': "(if neg then do { m \<leftarrow> mpn_incr_u (PTR st1 q) 1 m; Some (d - rl, m) } else Some (rl, m)) = Some (r', m')"
      using Q(1) by simp
    show ?thesis using d False rl S(3)
      unfolding mpz_fdiv_qr_ui_def Let_def ABSIZ_SIZ [symmetric] n_def [symmetric] st1_def [symmetric] eq sized_limb sg case_prod_conv Q'
      by (simp add: k_def with_sign_def del: fun_upd_apply)
  qed
  have qv: "zval st u div int (unat d) = with_sign neg (A div unat d + of_bool (rounds neg A (unat d)))"
    unfolding A(2) fdiv_with_sign(1) [OF d0] neg_def [symmetric] by (rule refl)
  have rv: "zval st u mod int (unat d) = with_sign False (unat r')"
    unfolding A(2) fdiv_with_sign(2) [OF d0] Q(2) neg_def [symmetric] by (simp add: with_sign_def)
  have "int (unat r') = \<bar>with_sign False (unat r')\<bar>" by (rule with_sign_simps(3) [symmetric])
  moreover have "updates2 st q (with_sign neg (A div unat d + of_bool (rounds neg A (unat d)))) r (with_sign False (unat r'))
      (set_SIZ q (with_sign neg k)
        (if rl = 0 then set_SIZ r 0 (set_heap m' st1) else set_SIZ r (with_sign False (of_bool (r' \<noteq> 0))) (set_heap (m'(PTR st1 r := r')) st1)))"
    using S(1,2) Q(3) by (cases "rl = 0") (simp_all add: with_sign_def)
  ultimately show ?thesis unfolding run qv rv by blast
qed

lemma mpz_cdiv_qr_ui_spec:
  assumes ok: "store_ok st" and q: "q \<in> live st" and r: "r \<in> live st" and qr: "q \<noteq> r" and u: "u \<in> live st" and d: "d \<noteq> 0"
  shows "\<exists>rl st'. mpz_cdiv_qr_ui q r u d st = Some (Inr (rl, st')) \<and> int (unat rl) = \<bar>cmod (zval st u) (int (unat d))\<bar>
    \<and> updates2 st q (cdiv (zval st u) (int (unat d))) r (cmod (zval st u) (int (unat d))) st'"
proof (cases "SIZ st u = 0")
  case True
  have "updates2 st q 0 r 0 (set_SIZ r 0 (set_SIZ q 0 st))"
    using zero_result [OF ok q] by (intro updates2I [OF _ zero_result]) (auto simp: updates_def q r qr)
  then show ?thesis using d True by (simp add: mpz_cdiv_qr_ui_def zval_zero cdiv_def cmod_def)
next
  case False
  obtain A where A: "int A = \<bar>zval st u\<bar>" "zval st u = with_sign (SIZ st u < 0) A" using magnitude [OF ok u] by metis
  define neg n st1 where "neg = (SIZ st u < 0)" and "n = ABSIZ st u" and "st1 = MPZ_REALLOC q n st"
  have sg: "SIZ st u < 0 \<longleftrightarrow> neg" "0 \<le> SIZ st u \<longleftrightarrow> \<not> neg" by (auto simp: neg_def)
  obtain rl m where eq: "mpn_divrem_1 (PTR st1 q) 0 (PTR st1 u) n d (heap st1) = (rl, m)" by fastforce
  have n: "1 \<le> n" "n \<le> ALLOC st1 q"
    using False MPZ_REALLOC_spec(3) [OF ok q, of n] by (simp_all add: n_def st1_def Suc_leI)
  have d0: "0 < unat d" using d by (simp add: unat_gt_0)
  obtain r' m' where Q: "(if rl \<noteq> 0 \<and> \<not> neg then do { m \<leftarrow> mpn_incr_u (PTR st1 q) 1 m; Some (d - rl, m) } else Some (rl, m)) = Some (r', m')"
    "unat r' = (if rounds (\<not> neg) A (unat d) then unat d - A mod unat d else A mod unat d)" "rl = 0 \<longrightarrow> r' = 0 \<and> m' = m"
    "updates st q (with_sign neg (A div unat d + of_bool (rounds (\<not> neg) A (unat d))))
          (set_SIZ q (with_sign neg (n - of_bool (m' (PTR st1 q + n - 1) = 0))) (set_heap m' st1))"
    unfolding n_def
    by (rule quotient_round [OF ok q u False d st1_def [unfolded n_def] eq [unfolded n_def] A(1), where away = "\<not> neg" and neg = neg])
  define k where "k = n - of_bool (m' (PTR st1 q + n - 1) = 0)"
  note S = remainder_store(1) [OF Q(4) [folded k_def] q r qr n, where v = r' and neg = True] remainder_store(2) [OF Q(4) [folded k_def] q r qr n] remainder_store(3) [OF Q(4) [folded k_def] q r qr n, where v = r']
  have st: "(if rl = 0 then set_SIZ r 0 (set_heap m st1)
      else set_SIZ r (with_sign True (of_bool (r' \<noteq> 0))) (set_heap (m'(PTR st1 r := r')) st1))
    = (if rl = 0 then set_SIZ r 0 (set_heap m' st1)
      else set_SIZ r (with_sign True (of_bool (r' \<noteq> 0))) (set_heap (m'(PTR st1 r := r')) st1))" using Q(3) by simp
  have run: "mpz_cdiv_qr_ui q r u d st = Some (Inr (r', set_SIZ q (with_sign neg k)
      (if rl = 0 then set_SIZ r 0 (set_heap m' st1) else set_SIZ r (with_sign True (of_bool (r' \<noteq> 0))) (set_heap (m'(PTR st1 r := r')) st1))))"
  proof (cases "rl = 0")
    case True
    then show ?thesis using d False Q(3)
      unfolding mpz_cdiv_qr_ui_def Let_def ABSIZ_SIZ [symmetric] n_def [symmetric] st1_def [symmetric] eq sized_limb sg
      by (simp add: k_def)
  next
    case rl: False
    then have Q': "(if \<not> neg then do { m \<leftarrow> mpn_incr_u (PTR st1 q) 1 m; Some (d - rl, m) } else Some (rl, m)) = Some (r', m')"
      using Q(1) by simp
    show ?thesis using d False rl S(3)
      unfolding mpz_cdiv_qr_ui_def Let_def ABSIZ_SIZ [symmetric] n_def [symmetric] st1_def [symmetric] eq sized_limb sg case_prod_conv Q'
      by (simp add: k_def with_sign_def del: fun_upd_apply)
  qed
  have qv: "cdiv (zval st u) (int (unat d)) = with_sign neg (A div unat d + of_bool (rounds (\<not> neg) A (unat d)))"
    unfolding A(2) cdiv_with_sign(1) [OF d0] neg_def [symmetric] by (rule refl)
  have rv: "cmod (zval st u) (int (unat d)) = with_sign True (unat r')"
    unfolding A(2) cdiv_with_sign(2) [OF d0] Q(2) neg_def [symmetric] by (simp add: with_sign_def)
  have "int (unat r') = \<bar>with_sign True (unat r')\<bar>" by (rule with_sign_simps(3) [symmetric])
  moreover have "updates2 st q (with_sign neg (A div unat d + of_bool (rounds (\<not> neg) A (unat d)))) r (with_sign True (unat r'))
      (set_SIZ q (with_sign neg k)
        (if rl = 0 then set_SIZ r 0 (set_heap m' st1) else set_SIZ r (with_sign True (of_bool (r' \<noteq> 0))) (set_heap (m'(PTR st1 r := r')) st1)))"
    using S(1,2) Q(3) by (cases "rl = 0") (simp_all add: with_sign_def)
  ultimately show ?thesis unfolding run qv rv by blast
qed

interpretation mpz_tdiv_qr_ui: mpz_div_limb_qr "\<lambda>q r u d st. Some (mpz_tdiv_qr_ui q r u d st)" "(sdiv)" "(smod)"
  using mpz_tdiv_qr_ui_spec by unfold_locales (simp add: mpz_tdiv_qr_ui_def, simp, rule sdiv_smod_law)

interpretation mpz_fdiv_qr_ui: mpz_div_limb_qr mpz_fdiv_qr_ui "(div)" "(mod)"
  using mpz_fdiv_qr_ui_spec by unfold_locales (simp_all add: mpz_fdiv_qr_ui_def)

interpretation mpz_cdiv_qr_ui: mpz_div_limb_qr mpz_cdiv_qr_ui cdiv cmod
  using mpz_cdiv_qr_ui_spec by unfold_locales (simp_all add: mpz_cdiv_qr_ui_def cdiv_cmod)

end
