(* ===== verification/Mpz_And.thy ===== *)
theory Mpz_And
  imports Mpn_Logic Mpz_DivUi
begin

text \<open>
  Conjunction of variables, \<open>mpz/and.c\<close>, and what it shares with \<open>ior.c\<close> and \<open>xor.c\<close>: a negative number stands for its
  infinite two's complement.  The operations work on magnitudes, with a negative operand \<open>- x\<close> as the complement of
  \<open>x - 1\<close>, which they compute in temporary memory.
\<close>

unbundle bit_operations_syntax

section \<open>Operands in temporary memory\<close>

text \<open>\<open>TMP_ALLOC\<close> and \<open>mpn_sub_1\<close>: a copy of the magnitude less one.\<close>

definition minus_one :: "ptr \<Rightarrow> nat \<Rightarrow> state \<Rightarrow> ptr \<times> state" where
  "minus_one p n st =
     (let (opx, st) = ALLOCATE_FUNC_LIMBS n st;
          (_, h) = mpn_sub_1 opx p n 1 (heap st)
      in (opx, set_heap h st))"

text \<open>The state only got temporary blocks.\<close>

definition only_temps :: "state \<Rightarrow> state \<Rightarrow> bool" where
  "only_temps st st' \<longleftrightarrow> st' = st\<lparr>heap := heap st', brk := brk st'\<rparr> \<and> brk st \<le> brk st' \<and> (\<forall>a < brk st. heap st' a = heap st a)"

lemma only_temps_refl: "only_temps st st"
  by (simp add: only_temps_def)

lemma only_temps_trans: "only_temps st st1 \<Longrightarrow> only_temps st1 st2 \<Longrightarrow> only_temps st st2"
proof -
  assume a: "only_temps st st1" "only_temps st1 st2"
  have "st2 = st1\<lparr>heap := heap st2, brk := brk st2\<rparr>" using a(2) by (simp add: only_temps_def)
  also have "\<dots> = (st\<lparr>heap := heap st1, brk := brk st1\<rparr>)\<lparr>heap := heap st2, brk := brk st2\<rparr>" using a(1) by (simp add: only_temps_def)
  finally show ?thesis using a by (auto simp: only_temps_def)
qed

lemma only_temps_same:
  assumes "only_temps st st'"
  shows "SIZ st' x = SIZ st x" "ABSIZ st' x = ABSIZ st x" "PTR st' x = PTR st x" "ALLOC st' x = ALLOC st x" "live st' = live st" "brk st \<le> brk st'"
proof -
  have e: "st' = st\<lparr>heap := heap st', brk := brk st'\<rparr>" using assms by (simp add: only_temps_def)
  show "SIZ st' x = SIZ st x" "ABSIZ st' x = ABSIZ st x" "PTR st' x = PTR st x" "ALLOC st' x = ALLOC st x" "live st' = live st"
    by (subst e, simp add: SIZ_def ABSIZ_def PTR_def ALLOC_def)+
  show "brk st \<le> brk st'" using assms by (simp add: only_temps_def)
qed

lemma only_temps_ok:
  assumes "store_ok st" "only_temps st st'"
  shows "store_ok st'" "x \<in> live st \<Longrightarrow> zval st' x = zval st x" "updates st' w k st2 \<Longrightarrow> updates st w k st2"
proof -
  have e: "st' = st\<lparr>heap := heap st', brk := brk st'\<rparr>" and b: "brk st \<le> brk st'" and h: "\<And>a. a < brk st \<Longrightarrow> heap st' a = heap st a"
    using assms(2) by (auto simp: only_temps_def)
  note A = above_brk [OF assms(1) h b, folded e]
  show "store_ok st'" "x \<in> live st \<Longrightarrow> zval st' x = zval st x" by (rule A, assumption?)+
  show "updates st w k st2" if "updates st' w k st2"
    using that A(2) only_temps_same(5) [OF assms(2)] by (auto simp: updates_def)
qed

lemma minus_one_spec:
  assumes n: "1 \<le> n" "p + n \<le> brk st" and eq: "minus_one p n st = (opx, st')"
  shows "opx = brk st" "brk st' = brk st + n" "only_temps st st'"
    and "mval (heap st') opx n = (mval (heap st) p n + (LB ^ n - 1)) mod LB ^ n"
proof -
  obtain c h where e: "mpn_sub_1 (brk st) p n 1 (heap st) = (c, h)" by fastforce
  have st': "opx = brk st" "st' = set_heap h (st\<lparr>brk := brk st + n\<rparr>)"
    using eq e by (auto simp: minus_one_def ALLOCATE_FUNC_LIMBS_def)
  have o: "MPN_SAME_OR_SEPARATE_P (brk st) p n" using n(2) by (simp add: overlap_defs)
  note S = mpn_sub_1_spec [OF e n(1) o]
  show "opx = brk st" "brk st' = brk st + n" using st' by simp_all
  show "only_temps st st'" using S(3) unfolding only_temps_def st' by (simp add: set_heap_def only_in_def)
  have lt: "mval h (brk st) n < LB ^ n" by (rule mval_less)
  have e1: "mval h (brk st) n + 1 = mval (heap st) p n + LB ^ n * unat c" using S(1) by simp
  have "mval (heap st) p n + (LB ^ n - 1) = mval h (brk st) n + LB ^ n * (1 - unat c)"
  proof (cases "unat c = 0")
    case True
    then show ?thesis using e1 lt by simp
  next
    case False
    then have "unat c = 1" using S(2) by simp
    then show ?thesis using e1 lt by simp
  qed
  then show "mval (heap st') opx n = (mval (heap st) p n + (LB ^ n - 1)) mod LB ^ n"
    using lt unfolding st' by (simp add: set_heap_def)
qed

text \<open>\<open>operand st w p n\<close>: the region may be read limb by limb while the block of \<open>w\<close> is written.\<close>

definition operand :: "state \<Rightarrow> var \<Rightarrow> ptr \<Rightarrow> nat \<Rightarrow> bool" where
  "operand st w p n \<longleftrightarrow> (\<forall>a \<le> ALLOC st w. \<forall>b \<le> n. MPN_SAME_OR_SEPARATE2_P (PTR st w) a p b)"

lemma operandD: "operand st w p n \<Longrightarrow> k \<le> ALLOC st w \<Longrightarrow> k \<le> n \<Longrightarrow> MPN_SAME_OR_SEPARATE_P (PTR st w) p k"
  by (simp add: operand_def MPN_SAME_OR_SEPARATE_P_def)

lemma operandD2: "operand st w p n \<Longrightarrow> a \<le> ALLOC st w \<Longrightarrow> b \<le> n \<Longrightarrow> MPN_SAME_OR_SEPARATE2_P (PTR st w) a p b"
  by (simp add: operand_def)

text \<open>Making room for the result keeps the limbs of the operands, in variables and in temporary memory.\<close>

lemma operand_variable:
  fixes k :: nat
  assumes "store_ok st" "w \<in> live st" "u \<in> live st"
  defines "st1 \<equiv> MPZ_REALLOC w k st"
  shows "operand st1 w (PTR st1 u) (ABSIZ st u)" "n \<le> ABSIZ st u \<Longrightarrow> mval (heap st1) (PTR st1 u) n = mval (heap st) (PTR st u) n"
proof -
  note U = operand_realloc [OF assms(1-3), where n = k, folded st1_def]
  show "operand st1 w (PTR st1 u) (ABSIZ st u)" unfolding operand_def using U(9) by blast
  have "mval (heap st1) (PTR st1 u) (ABSIZ st u) = mval (heap st) (PTR st u) (ABSIZ st u)"
    using U(8) zval_abs [OF assms(1,3)] by simp
  from mval_inj [OF this] have "heap st1 (PTR st1 u + i) = heap st (PTR st u + i)" if "i < ABSIZ st u" for i using that by blast
  then show "mval (heap st1) (PTR st1 u) n = mval (heap st) (PTR st u) n" if "n \<le> ABSIZ st u"
    using that by (intro mval_cong) simp
qed

lemma realloc_old_memory:
  fixes k :: nat
  assumes "a < brk st"
  shows "heap (MPZ_REALLOC w k st) a = heap st a"
  using assms by (simp add: MPZ_REALLOC_def mpz_realloc_struct)

lemma operand_temp:
  fixes k :: nat
  assumes "store_ok st0" "only_temps st0 st" "w \<in> live st" "brk st0 \<le> p" "p + n \<le> brk st"
  defines "st1 \<equiv> MPZ_REALLOC w k st"
  shows "operand st1 w p n" "b \<le> n \<Longrightarrow> mval (heap st1) p b = mval (heap st) p b" "i < n \<Longrightarrow> heap st1 (p + i) = heap st (p + i)"
proof -
  show m: "heap st1 (p + i) = heap st (p + i)" if "i < n" for i
    unfolding st1_def by (rule realloc_old_memory) (use that assms(5) in simp)
  then show "mval (heap st1) p b = mval (heap st) p b" if "b \<le> n" using that by (intro mval_cong) simp
  have w: "PTR st w + ALLOC st w \<le> brk st0"
    using wf_ok [OF assms(1), of w] assms(3) by (simp add: mpz_ok_def only_temps_same [OF assms(2)])
  have "PTR st1 w + ALLOC st1 w \<le> p \<or> p + n \<le> PTR st1 w"
    using w assms(4,5) by (auto simp: st1_def MPZ_REALLOC_def mpz_realloc_struct)
  then show "operand st1 w p n" by (auto simp: operand_def overlap_defs)
qed

text \<open>The size of a result only depends on the numbers.\<close>

lemma logic_size_cong:
  assumes "mval m ap n = mval m' ap' n" "mval m bp n = mval m' bp' n"
  shows "logic_size f n ap bp m = logic_size f n ap' bp' m'"
proof -
  have "\<And>i. i < n \<Longrightarrow> m (ap + i) = m' (ap' + i) \<and> m (bp + i) = m' (bp' + i)" using mval_inj assms by blast
  then show ?thesis by (induction n) auto
qed

section \<open>Results\<close>

text \<open>The three ways an operation stores its result: of the size found by the loop, of the size of the longer operand, and
  with one added.\<close>

context bitwise
begin

lemma sized_result:
  assumes ok: "store_ok st" "w \<in> live st" and o: "operand st w ap n" "operand st w bp n"
    and s: "s = logic_size f n ap bp (heap st)" "s \<le> ALLOC st w"
  shows "updates st w (F (int (mval (heap st) ap n)) (int (mval (heap st) bp n)))
    (set_SIZ w (int s) (set_heap (logic_loop f s (PTR st w) ap bp (heap st)) st))"
proof -
  define h where "h = logic_loop f s (PTR st w) ap bp (heap st)"
  have sn: "s \<le> n" unfolding s(1) by (rule logic_size_spec)
  note o' = operandD [OF o(1) s(2) sn] operandD [OF o(2) s(2) sn]
  have v: "int (mval h (PTR st w) s) = F (int (mval (heap st) ap n)) (int (mval (heap st) bp n))"
    unfolding h_def loop_value [OF o'] unfolding s(1) by (rule size_value) (rule logic_size_spec)
  have t: "s = 0 \<or> h (PTR st w + s - 1) \<noteq> 0"
    unfolding h_def logic_loop_spec [OF o'] using logic_size_spec(2) [of f n ap bp "heap st"] by (auto simp: s(1) [symmetric])
  have i: "only_in (PTR st w) (ALLOC st w) (heap st) h"
    unfolding h_def by (rule only_in_mono [OF only_in_logic_loop [OF o']]) (use s(2) in auto)
  show ?thesis using result_sized [OF ok i s(2) t, of False] unfolding h_def [symmetric] v [symmetric] by (simp add: with_sign_def)
qed

end

text \<open>The copied high limbs of the longer operand and the loop over the others; \<open>always\<close> is false where the code skips the
  copy in place.\<close>

definition logic_long :: "bool \<Rightarrow> (limb \<Rightarrow> limb \<Rightarrow> limb) \<Rightarrow> ptr \<Rightarrow> ptr \<Rightarrow> nat \<Rightarrow> ptr \<Rightarrow> nat \<Rightarrow> mem \<Rightarrow> nat \<times> mem" where
  "logic_long always f rp ap an bp bn m =
     (if an \<ge> bn
      then (let m = (if always \<or> rp \<noteq> ap then MPN_COPY (rp + bn) (ap + bn) (an - bn) m else m)
            in (an, logic_loop f bn rp ap bp m))
      else (let m = (if always \<or> rp \<noteq> bp then MPN_COPY (rp + an) (bp + an) (bn - an) m else m)
            in (bn, logic_loop f an rp ap bp m)))"

definition plus_one :: "ptr \<Rightarrow> nat \<Rightarrow> mem \<Rightarrow> nat \<times> mem" where
  "plus_one rp n m =
     (let (cy, m) = mpn_add_1 rp rp n 1 m
      in if cy \<noteq> 0 then (n + 1, m(rp + n := cy)) else (n, m))"

lemma copy_high:
  assumes "MPN_SAME_OR_SEPARATE2_P rp n ap n" "k \<le> n"
  shows "(if always \<or> rp \<noteq> ap then MPN_COPY (rp + k) (ap + k) (n - k) m else m) = mcopy (rp + k) (ap + k) (n - k) m"
proof -
  have "MPN_SAME_OR_SEPARATE_P (rp + k) (ap + k) (n - k)" using assms by (auto simp: overlap_defs)
  then show ?thesis by (auto simp: MPN_COPY_spec)
qed

context bitwise
begin

lemma long_result:
  assumes u1: "\<And>x. F x 0 = x" and u2: "\<And>y. F 0 y = y" and o: "operand st w ap an" "operand st w bp bn"
    and eq: "logic_long always f (PTR st w) ap an bp bn (heap st) = (n, h)" and A: "max an bn \<le> ALLOC st w"
  shows "n = max an bn" and "int (mval h (PTR st w) n) = F (int (mval (heap st) ap an)) (int (mval (heap st) bp bn))"
    and "only_in (PTR st w) n (heap st) h"
proof -
  have "n = max an bn \<and> int (mval h (PTR st w) n) = F (int (mval (heap st) ap an)) (int (mval (heap st) bp bn)) \<and> only_in (PTR st w) n (heap st) h"
  proof (cases "an \<ge> bn")
    case True
    have o': "MPN_SAME_OR_SEPARATE2_P (PTR st w) an ap an" "MPN_SAME_OR_SEPARATE2_P (PTR st w) an bp bn"
      using operandD2 [OF o(1)] operandD2 [OF o(2)] A by simp_all
    show ?thesis
      using eq True long_loop(1,2) [OF u1 True o', of "heap st"] unfolding logic_long_def Let_def copy_high [OF o'(1) True] by auto
  next
    case False
    then have le: "an \<le> bn" by simp
    have o': "MPN_SAME_OR_SEPARATE2_P (PTR st w) bn bp bn" "MPN_SAME_OR_SEPARATE2_P (PTR st w) bn ap an"
      using operandD2 [OF o(1)] operandD2 [OF o(2)] A by simp_all
    have flip: "bitwise (\<lambda>x y. f y x) (\<lambda>a b. F b a) (\<lambda>a b. g b a)"
      by unfold_locales (simp_all add: limb_bit int_bit zeros)
    show ?thesis
      using eq False bitwise.long_loop(1,2) [OF flip u2 le o', of "heap st"]
      unfolding logic_long_def Let_def copy_high [OF o'(1) le] logic_loop_swap [of f] by auto
  qed
  then show "n = max an bn" "int (mval h (PTR st w) n) = F (int (mval (heap st) ap an)) (int (mval (heap st) bp bn))"
    "only_in (PTR st w) n (heap st) h" by blast+
qed

end

lemma plus_one_spec:
  assumes n: "1 \<le> n" and eq: "plus_one rp n m = (k, m')"
  shows "mval m' rp k = mval m rp n + 1" "k = n + of_bool (mval m rp n + 1 = LB ^ n)" "only_in rp k m m'"
    and "LB ^ (n - 1) \<le> mval m rp n + 1 \<Longrightarrow> m' (rp + k - 1) \<noteq> 0"
proof -
  obtain c h where e: "mpn_add_1 rp rp n 1 m = (c, h)" by fastforce
  have "MPN_SAME_OR_SEPARATE_P rp rp n" by (simp add: overlap_defs)
  note S = mpn_add_1_spec [OF e n this]
  have lt: "mval h rp n < LB ^ n" "mval m rp n < LB ^ n" by (rule mval_less)+
  have v: "mval h rp n + LB ^ n * unat c = mval m rp n + 1" using S(1) by simp
  have "mval m' rp k = mval m rp n + 1 \<and> k = n + of_bool (mval m rp n + 1 = LB ^ n) \<and> only_in rp k m m'
    \<and> (LB ^ (n - 1) \<le> mval m rp n + 1 \<longrightarrow> m' (rp + k - 1) \<noteq> 0)"
  proof (cases "c = 0")
    case True
    then have r: "k = n" "m' = h" using eq e by (simp_all add: plus_one_def)
    show ?thesis using v lt S(3) top_not_zero [of n h rp] n True unfolding r by auto
  next
    case False
    then have r: "k = n + 1" "m' = h(rp + n := c)" using eq e by (simp_all add: plus_one_def)
    have c: "unat c = 1" using S(2) False by (auto simp: le_Suc_eq unat_eq_0)
    then have "mval m rp n + 1 = LB ^ n" using v lt by simp
    moreover have "mval m' rp k = mval h rp n + LB ^ n * unat c" by (simp add: r mval_high del: mval.simps)
    moreover have "only_in rp k m m'" using S(3) unfolding r by (auto simp: only_in_def)
    ultimately show ?thesis using v r False by simp
  qed
  then show "mval m' rp k = mval m rp n + 1" "k = n + of_bool (mval m rp n + 1 = LB ^ n)" "only_in rp k m m'"
    "LB ^ (n - 1) \<le> mval m rp n + 1 \<Longrightarrow> m' (rp + k - 1) \<noteq> 0" by blast+
qed

section \<open>The operations\<close>

definition and_plus :: "var \<Rightarrow> var \<Rightarrow> var \<Rightarrow> nat \<Rightarrow> nat \<Rightarrow> state \<Rightarrow> state" where
  "and_plus res op1 op2 op1_size op2_size st =
     (let res_size = min op1_size op2_size;
          res_size = logic_size (AND) res_size (PTR st op1) (PTR st op2) (heap st);
          st = MPZ_REALLOC res res_size st
      in set_SIZ res (int res_size) (set_heap (logic_loop (AND) res_size (PTR st res) (PTR st op1) (PTR st op2) (heap st)) st))"

definition and_minus :: "var \<Rightarrow> var \<Rightarrow> var \<Rightarrow> nat \<Rightarrow> nat \<Rightarrow> state \<Rightarrow> state" where
  "and_minus res op1 op2 op1_size op2_size st =
     (let res_alloc = 1 + max op1_size op2_size;
          (op1_ptr, st) = minus_one (PTR st op1) op1_size st;
          (op2_ptr, st) = minus_one (PTR st op2) op2_size st;
          st = MPZ_REALLOC res res_alloc st;
          (res_size, h) = logic_long True (OR) (PTR st res) op1_ptr op1_size op2_ptr op2_size (heap st);
          (res_size, h) = plus_one (PTR st res) res_size h
      in set_SIZ res (- int res_size) (set_heap h st))"

definition and_mixed :: "var \<Rightarrow> var \<Rightarrow> var \<Rightarrow> nat \<Rightarrow> nat \<Rightarrow> state \<Rightarrow> state" where
  "and_mixed res op1 op2 op1_size op2_size st =
     (let (op2_ptr, st) = minus_one (PTR st op2) op2_size st
      in if op1_size > op2_size
         then (let res_size = op1_size;
                   st = MPZ_REALLOC res res_size st;
                   res_ptr = PTR st res;
                   op1_ptr = PTR st op1;
                   h = MPN_COPY (res_ptr + op2_size) (op1_ptr + op2_size) (res_size - op2_size) (heap st);
                   h = logic_loop (\<lambda>x y. x AND NOT y) op2_size res_ptr op1_ptr op2_ptr h
               in set_SIZ res (int res_size) (set_heap h st))
         else (let res_size = logic_size (\<lambda>x y. x AND NOT y) op1_size (PTR st op1) op2_ptr (heap st);
                   st = MPZ_REALLOC res res_size st;
                   h = logic_loop (\<lambda>x y. x AND NOT y) res_size (PTR st res) (PTR st op1) op2_ptr (heap st)
               in set_SIZ res (int res_size) (set_heap h st)))"

definition mpz_and :: "var \<Rightarrow> var \<Rightarrow> var \<Rightarrow> state \<Rightarrow> state" where
  "mpz_and res op1 op2 st =
     (let op1_size = SIZ st op1;
          op2_size = SIZ st op2
      in if op1_size \<ge> 0
         then if op2_size \<ge> 0 then and_plus res op1 op2 (nat op1_size) (nat op2_size) st
              else and_mixed res op1 op2 (nat op1_size) (nat (- op2_size)) st
         else if op2_size < 0 then and_minus res op1 op2 (nat (- op1_size)) (nat (- op2_size)) st
              else and_mixed res op2 op1 (nat op2_size) (nat (- op1_size)) st)"

text \<open>Variables by their signs.\<close>

lemma nonneg_variable:
  assumes "store_ok st" "u \<in> live st" "0 \<le> SIZ st u"
  shows "zval st u = int (mval (heap st) (PTR st u) (ABSIZ st u))" "nat (SIZ st u) = ABSIZ st u"
  using zval_abs [OF assms(1,2)] zval_sgn [OF assms(1,2)] assms(3) by (auto simp: ABSIZ_SIZ sgn_if split: if_splits)

lemma negative_variable:
  assumes "store_ok st" "u \<in> live st" "SIZ st u < 0"
  shows "zval st u = - int (mval (heap st) (PTR st u) (ABSIZ st u))" "nat (- SIZ st u) = ABSIZ st u" "1 \<le> ABSIZ st u"
    "LB ^ (ABSIZ st u - 1) \<le> mval (heap st) (PTR st u) (ABSIZ st u)"
  using zval_abs [OF assms(1,2)] zval_sgn [OF assms(1,2)] assms(3) mval_ABSIZ_ge [OF assms(1,2)]
  by (auto simp: ABSIZ_SIZ sgn_if Suc_le_eq split: if_splits)

lemma of_nat_plus_one_neg: "- int (n + 1) = NOT (int n)"
  by (simp add: not_int_def)

lemma LB_pow_ge: "1 \<le> LB ^ n"
  by (rule one_le_power) simp

text \<open>The magnitude less one of a negative variable, and the low limbs of it.\<close>

lemma minus_one_low:
  assumes ok: "store_ok st" and u: "u \<in> live st" "SIZ st u < 0" and t: "only_temps st st1" and n: "1 \<le> n" "n \<le> ABSIZ st u"
    and eq: "minus_one (PTR st1 u) n st1 = (opx, st')"
  shows "only_temps st st'" "brk st \<le> opx" "opx + n \<le> brk st'" "brk st1 \<le> opx" "\<And>a. a < brk st1 \<Longrightarrow> heap st' a = heap st1 a"
    and "int (mval (heap st') opx n) = take_bit (32 * n) (- zval st u - 1)"
proof -
  note N = negative_variable [OF ok u]
  have b: "PTR st u + ABSIZ st u \<le> brk st" using wf_ok [OF ok u(1)] by (simp add: mpz_ok_def)
  have b1: "PTR st1 u + n \<le> brk st1" using b n(2) only_temps_same(3) [OF t, of u] only_temps_same(6) [OF t] by simp
  note M = minus_one_spec [OF n(1) b1 eq]
  show "only_temps st st'" by (rule only_temps_trans [OF t M(3)])
  show "brk st \<le> opx" "opx + n \<le> brk st'" "brk st1 \<le> opx" using M(1,2) only_temps_same(6) [OF t] by simp_all
  show "heap st' a = heap st1 a" if "a < brk st1" for a using M(3) that by (simp add: only_temps_def)
  have e: "mval (heap st1) (PTR st1 u) n = mval (heap st) (PTR st u) n"
    unfolding only_temps_same(3) [OF t] by (rule mval_cong) (use t b n(2) in \<open>simp add: only_temps_def\<close>)
  define P where "P = int LB ^ n"
  have P: "P = 2 ^ (32 * n)" by (simp add: P_def LB_power power_mult)
  have z: "- zval st u = int (mval (heap st) (PTR st u) n) + P * int (mval (heap st) (PTR st u + n) (ABSIZ st u - n))"
    unfolding N(1) mval_split [OF n(2), of "heap st" "PTR st u"] by (simp add: P_def)
  have "int (mval (heap st') opx n) = (int (mval (heap st) (PTR st u) n) + (P - 1)) mod P"
    unfolding M(4) e zmod_int of_nat_add of_nat_diff [OF LB_pow_ge] P_def by simp
  also have "\<dots> = (- zval st u - 1) mod P"
  proof -
    have "- zval st u - 1 = (int (mval (heap st) (PTR st u) n) + (P - 1)) + P * (int (mval (heap st) (PTR st u + n) (ABSIZ st u - n)) - 1)"
      unfolding z by (simp add: algebra_simps)
    then show ?thesis by (simp only: mod_mult_self2)
  qed
  finally show "int (mval (heap st') opx n) = take_bit (32 * n) (- zval st u - 1)" by (simp add: take_bit_eq_mod P)
qed

lemma full_take_bit:
  assumes "store_ok st" "u \<in> live st" "SIZ st u < 0"
  shows "NOT (take_bit (32 * ABSIZ st u) (- zval st u - 1)) = zval st u" "0 \<le> - zval st u - 1" "- zval st u - 1 < 2 ^ (32 * ABSIZ st u)"
proof -
  note N = negative_variable [OF assms]
  have "1 \<le> - zval st u" using order_trans [OF LB_pow_ge N(4)] N(1) by simp
  then show p: "0 \<le> - zval st u - 1" by simp
  have "- zval st u < int (LB ^ ABSIZ st u)" unfolding N(1) minus_minus of_nat_less_iff by (rule mval_less)
  then show b: "- zval st u - 1 < 2 ^ (32 * ABSIZ st u)" by (simp add: LB_power power_mult)
  show "NOT (take_bit (32 * ABSIZ st u) (- zval st u - 1)) = zval st u"
    using take_bit_int_eq_self [OF p b] by (simp add: not_int_def)
qed

lemma minus_one_variable:
  assumes ok: "store_ok st" and u: "u \<in> live st" "SIZ st u < 0" and t: "only_temps st st1" and eq: "minus_one (PTR st1 u) (ABSIZ st u) st1 = (opx, st')"
  shows "only_temps st st'" "brk st \<le> opx" "opx + ABSIZ st u \<le> brk st'" "int (mval (heap st') opx (ABSIZ st u)) = - zval st u - 1"
    "brk st1 \<le> opx" "\<And>a. a < brk st1 \<Longrightarrow> heap st' a = heap st1 a" "zval st u = NOT (int (mval (heap st') opx (ABSIZ st u)))"
proof -
  note N = negative_variable [OF ok u]
  note L = minus_one_low [OF ok u t N(3) order_refl eq]
  show "only_temps st st'" "brk st \<le> opx" "opx + ABSIZ st u \<le> brk st'" "brk st1 \<le> opx" "\<And>a. a < brk st1 \<Longrightarrow> heap st' a = heap st1 a"
    using L(1-5) by blast+
  show v: "int (mval (heap st') opx (ABSIZ st u)) = - zval st u - 1"
    unfolding L(6) using full_take_bit(2,3) [OF ok u] by (intro take_bit_int_eq_self)
  show "zval st u = NOT (int (mval (heap st') opx (ABSIZ st u)))" unfolding v by (simp add: not_int_def)
qed

text \<open>Two negative operands in temporary memory, after room is made for the result.\<close>

lemma two_minus_ones:
  fixes k :: nat
  assumes ok: "store_ok st" and l: "w \<in> live st" "u \<in> live st" "v \<in> live st" and s: "SIZ st u < 0" "SIZ st v < 0"
    and n: "1 \<le> un" "un \<le> ABSIZ st u" "1 \<le> vn" "vn \<le> ABSIZ st v"
    and e1: "minus_one (PTR st u) un st = (up, st1)" and e2: "minus_one (PTR st1 v) vn st1 = (vp, st2)"
  defines "st3 \<equiv> MPZ_REALLOC w k st2"
  shows "store_ok st3" "w \<in> live st3" "k \<le> ALLOC st3 w" "operand st3 w up un" "operand st3 w vp vn"
    and "int (mval (heap st3) up un) = take_bit (32 * un) (- zval st u - 1)"
    and "int (mval (heap st3) vp vn) = take_bit (32 * vn) (- zval st v - 1)"
    and "\<And>x st'. updates st3 w x st' \<Longrightarrow> updates st w x st'"
proof -
  note M1 = minus_one_low [OF ok l(2) s(1) only_temps_refl n(1,2) e1]
  note M2 = minus_one_low [OF ok l(3) s(2) M1(1) n(3,4) e2]
  note T = only_temps_same [OF M2(1)]
  note K = only_temps_ok [OF ok M2(1)]
  have w2: "w \<in> live st2" using l(1) T(5) by simp
  note R = MPZ_REALLOC_spec [OF K(1) w2, where n = k, folded st3_def]
  have b: "up + un \<le> brk st2" using M1(3) M2(3,4) by linarith
  note U = operand_temp [OF ok M2(1) w2 M1(2) b, where k = k, folded st3_def]
  note V = operand_temp [OF ok M2(1) w2 M2(2,3), where k = k, folded st3_def]
  have "mval (heap st2) up un = mval (heap st1) up un" by (rule mval_cong) (use M2(5) M1(3) in simp)
  then show "int (mval (heap st3) up un) = take_bit (32 * un) (- zval st u - 1)" unfolding U(2) [OF order_refl] using M1(6) by simp
  show "int (mval (heap st3) vp vn) = take_bit (32 * vn) (- zval st v - 1)" unfolding V(2) [OF order_refl] by (rule M2(6))
  show "store_ok st3" "k \<le> ALLOC st3 w" "operand st3 w up un" "operand st3 w vp vn" by (rule R(1,3) U(1) V(1))+
  show "w \<in> live st3" using w2 R(2) by simp
  show "updates st w x st'" if "updates st3 w x st'" for x st'
    using K(3) updates_realloc [OF K(1) w2, where n = k] that by (simp add: st3_def)
qed

text \<open>One operand that is not negative, and one in temporary memory.\<close>

lemma one_minus_one:
  fixes k :: nat
  assumes ok: "store_ok st" and l: "w \<in> live st" "u \<in> live st" "v \<in> live st" and s: "0 \<le> SIZ st u" "SIZ st v < 0"
    and e1: "minus_one (PTR st v) (ABSIZ st v) st = (vp, st1)"
  defines "st2 \<equiv> MPZ_REALLOC w k st1"
  shows "store_ok st2" "w \<in> live st2" "k \<le> ALLOC st2 w" "operand st2 w (PTR st2 u) (ABSIZ st u)" "operand st2 w vp (ABSIZ st v)"
    and "zval st u = int (mval (heap st2) (PTR st2 u) (ABSIZ st u))" "zval st v = NOT (int (mval (heap st2) vp (ABSIZ st v)))"
    and "\<And>x st'. updates st2 w x st' \<Longrightarrow> updates st w x st'"
    and "mval (heap st2) (PTR st2 u) (ABSIZ st u) = mval (heap st1) (PTR st1 u) (ABSIZ st u)"
    and "n \<le> ABSIZ st v \<Longrightarrow> mval (heap st2) vp n = mval (heap st1) vp n"
    and "ABSIZ st u \<noteq> 0 \<Longrightarrow> heap st2 (PTR st2 u + (ABSIZ st u - 1)) \<noteq> 0"
    and "i < ABSIZ st v \<Longrightarrow> heap st2 (vp + i) = heap st1 (vp + i)"
proof -
  note M = minus_one_variable [OF ok l(3) s(2) only_temps_refl e1]
  note T = only_temps_same [OF M(1)]
  note K = only_temps_ok [OF ok M(1)]
  have l1: "w \<in> live st1" "u \<in> live st1" using l T(5) by simp_all
  note R = MPZ_REALLOC_spec [OF K(1) l1(1), where n = k, folded st2_def]
  note U = operand_variable [OF K(1) l1, where k = k, folded st2_def, unfolded T]
  note V = operand_temp [OF ok M(1) l1(1) M(2,3), where k = k, folded st2_def]
  show "mval (heap st2) (PTR st2 u) (ABSIZ st u) = mval (heap st1) (PTR st1 u) (ABSIZ st u)" using U(2) [OF order_refl] T(3) by simp
  show "mval (heap st2) vp n = mval (heap st1) vp n" if "n \<le> ABSIZ st v" using V(2) that by blast
  show "zval st u = int (mval (heap st2) (PTR st2 u) (ABSIZ st u))"
    unfolding U(2) [OF order_refl] using nonneg_variable(1) [OF K(1) l1(2)] s(1) K(2) [OF l(2)] by (simp add: T)
  show "zval st v = NOT (int (mval (heap st2) vp (ABSIZ st v)))" unfolding V(2) [OF order_refl] by (rule M(7))
  show "store_ok st2" "k \<le> ALLOC st2 w" "operand st2 w (PTR st2 u) (ABSIZ st u)" "operand st2 w vp (ABSIZ st v)"
    "i < ABSIZ st v \<Longrightarrow> heap st2 (vp + i) = heap st1 (vp + i)" by (rule R(1,3) U(1) V(1,3), assumption?)+
  show "w \<in> live st2" using l1(1) R(2) by simp
  show "updates st w x st'" if "updates st2 w x st'" for x st'
    using K(3) updates_realloc [OF K(1) l1(1), where n = k] that by (simp add: st2_def)
  show "heap st2 (PTR st2 u + (ABSIZ st u - 1)) \<noteq> 0" if "ABSIZ st u \<noteq> 0"
    using wf_ok [OF R(1), of u] l1 R(2,5) that T(1) by (auto simp: mpz_ok_def ABSIZ_SIZ)
qed

subsection \<open>Conjunction\<close>

text \<open>High limbs of the longer operand that the operation ignores.\<close>

context bitwise
begin

lemma cut_second:
  assumes "\<And>y. \<not> g False y" "n \<le> N"
  shows "F (int (mval m ap n)) (int (mval m' bp n)) = F (int (mval m ap n)) (int (mval m' bp N))"
proof (rule bit_eqI)
  fix k
  show "bit (F (int (mval m ap n)) (int (mval m' bp n))) k = bit (F (int (mval m ap n)) (int (mval m' bp N))) k"
    using assms by (cases "k < 32 * n") (simp_all add: bit_of_nat_iff_bit bit_mval int_bit)
qed

lemma cut_first:
  assumes "\<And>x. \<not> g x False" "n \<le> N"
  shows "F (int (mval m ap n)) (int (mval m' bp n)) = F (int (mval m ap N)) (int (mval m' bp n))"
proof (rule bit_eqI)
  fix k
  show "bit (F (int (mval m ap n)) (int (mval m' bp n))) k = bit (F (int (mval m ap N)) (int (mval m' bp n))) k"
    using assms by (cases "k < 32 * n") (simp_all add: bit_of_nat_iff_bit bit_mval int_bit)
qed

end

lemma and_plus_spec:
  assumes ok: "store_ok st" and l: "w \<in> live st" "u \<in> live st" "v \<in> live st" and s: "0 \<le> SIZ st u" "0 \<le> SIZ st v"
  shows "updates st w (zval st u AND zval st v) (and_plus w u v (ABSIZ st u) (ABSIZ st v) st)"
proof -
  define n s st1 where "n = min (ABSIZ st u) (ABSIZ st v)" and "s = logic_size (AND) n (PTR st u) (PTR st v) (heap st)"
    and "st1 = MPZ_REALLOC w s st"
  note R = MPZ_REALLOC_spec [OF ok l(1), where n = s, folded st1_def]
  note U = operand_variable [OF ok l(1,2), where k = s, folded st1_def]
  note V = operand_variable [OF ok l(1,3), where k = s, folded st1_def]
  have m: "mval (heap st1) (PTR st1 u) n = mval (heap st) (PTR st u) n" "mval (heap st1) (PTR st1 v) n = mval (heap st) (PTR st v) n"
    by (rule U(2) V(2), simp add: n_def)+
  have o: "operand st1 w (PTR st1 u) n" "operand st1 w (PTR st1 v) n"
    using U(1) V(1) by (auto simp: operand_def n_def)
  have s1: "s = logic_size (AND) n (PTR st1 u) (PTR st1 v) (heap st1)"
    unfolding s_def by (rule logic_size_cong) (simp_all add: m)
  have w1: "w \<in> live st1" using l(1) R(2) by simp
  have "int (mval (heap st) (PTR st u) n) AND int (mval (heap st) (PTR st v) n) = zval st u AND zval st v"
    unfolding nonneg_variable(1) [OF ok l(2) s(1)] nonneg_variable(1) [OF ok l(3) s(2)]
    by (cases "ABSIZ st u \<le> ABSIZ st v") (simp_all add: n_def min_def limb_and.cut_second limb_and.cut_first)
  then have "updates st1 w (zval st u AND zval st v)
      (set_SIZ w (int s) (set_heap (logic_loop (AND) s (PTR st1 w) (PTR st1 u) (PTR st1 v) (heap st1)) st1))"
    using limb_and.sized_result [OF R(1) w1 o s1 R(3)] unfolding m by simp
  then show ?thesis
    unfolding and_plus_def Let_def n_def [symmetric] s_def [symmetric] st1_def [symmetric]
    using updates_realloc [OF ok l(1), where n = s] by (simp add: st1_def)
qed

text \<open>A result that is stored with one added, of a negative sign.\<close>

lemma plus_one_result:
  assumes ok: "store_ok st" "w \<in> live st" and i: "only_in (PTR st w) n (heap st) h" and n: "1 \<le> n"
    and eq: "plus_one (PTR st w) n h = (k, h')" and fit: "n \<le> ALLOC st w" "mval h (PTR st w) n + 1 = LB ^ n \<Longrightarrow> n < ALLOC st w"
    and top: "LB ^ (n - 1) \<le> mval h (PTR st w) n + 1"
  shows "updates st w (- int (mval h (PTR st w) n + 1)) (set_SIZ w (- int k) (set_heap h' st))"
proof -
  note P = plus_one_spec [OF n eq]
  have k: "k \<le> ALLOC st w" unfolding P(2) using fit by (cases "mval h (PTR st w) n + 1 = LB ^ n") simp_all
  have "only_in (PTR st w) (ALLOC st w) (heap st) h'"
    by (rule only_in_trans [where m' = h]; rule only_in_mono, rule i P(3)) (use fit(1) k in auto)
  from result_sized [OF ok this k, of True] show ?thesis using P(4) [OF top] P(1) by (simp add: with_sign_def)
qed

lemma plus_one_pos: "plus_one rp n m = (k, m') \<Longrightarrow> 1 \<le> n \<Longrightarrow> 1 \<le> k"
  using plus_one_spec(2) [of n rp m k m'] by simp

lemma and_minus_spec:
  assumes ok: "store_ok st" and l: "w \<in> live st" "u \<in> live st" "v \<in> live st" and s: "SIZ st u < 0" "SIZ st v < 0"
  shows "updates st w (zval st u AND zval st v) (and_minus w u v (ABSIZ st u) (ABSIZ st v) st)"
proof -
  define un vn where "un = ABSIZ st u" and "vn = ABSIZ st v"
  note N = negative_variable [OF ok l(2) s(1), folded un_def] negative_variable [OF ok l(3) s(2), folded vn_def]
  obtain up st1 where e1: "minus_one (PTR st u) un st = (up, st1)" by fastforce
  obtain vp st2 where e2: "minus_one (PTR st1 v) vn st1 = (vp, st2)" by fastforce
  define st3 where "st3 = MPZ_REALLOC w (1 + max un vn) st2"
  note O = two_minus_ones [OF ok l s N(3) _ N(7) _ e1 e2, where k = "1 + max un vn", folded st3_def, unfolded un_def vn_def, OF order_refl order_refl, folded un_def vn_def]
  note F = full_take_bit [OF ok l(2) s(1), folded un_def] full_take_bit [OF ok l(3) s(2), folded vn_def]
  obtain n h where e3: "logic_long True (OR) (PTR st3 w) up un vp vn (heap st3) = (n, h)" by fastforce
  have A: "max un vn \<le> ALLOC st3 w" using O(3) by (simp add: max_def split: if_splits)
  note L = limb_or.long_result [OF _ _ O(4,5) e3 A, simplified]
  obtain k h' where e4: "plus_one (PTR st3 w) n h = (k, h')" by fastforce
  have val: "zval st u AND zval st v = - int (mval h (PTR st3 w) n + 1)"
  proof -
    have "zval st u AND zval st v = NOT (int (mval (heap st3) up un)) AND NOT (int (mval (heap st3) vp vn))" using F(1,4) O(6,7) by simp
    also have "\<dots> = NOT (int (mval h (PTR st3 w) n))" unfolding L(2) by (rule bit_eqI) (simp add: bit_and_iff bit_or_iff bit_not_iff)
    finally show ?thesis unfolding of_nat_plus_one_neg .
  qed
  have n: "1 \<le> n" using L(1) N(3) by simp
  have top: "LB ^ (n - 1) \<le> mval h (PTR st3 w) n + 1"
  proof -
    have "int (mval (heap st3) up un) \<le> int (mval h (PTR st3 w) n)" "int (mval (heap st3) vp vn) \<le> int (mval h (PTR st3 w) n)"
      unfolding L(2) using or_greater_eq [of "int (mval (heap st3) up un)" "int (mval (heap st3) vp vn)"]
        or_greater_eq [of "int (mval (heap st3) vp vn)" "int (mval (heap st3) up un)"]
      by (simp_all add: or.commute)
    moreover have "- zval st u - 1 = int (mval (heap st3) up un)" "- zval st v - 1 = int (mval (heap st3) vp vn)"
      unfolding O(6,7) take_bit_int_eq_self [OF F(2,3)] take_bit_int_eq_self [OF F(5,6)] by simp_all
    ultimately have "LB ^ (un - 1) \<le> mval h (PTR st3 w) n + 1" "LB ^ (vn - 1) \<le> mval h (PTR st3 w) n + 1"
      using N(1,4,5,8) by linarith+
    then show ?thesis unfolding L(1) by (cases "un \<le> vn") (simp_all add: max_def)
  qed
  have "updates st3 w (- int (mval h (PTR st3 w) n + 1)) (set_SIZ w (- int k) (set_heap h' st3))"
    by (rule plus_one_result [OF O(1,2) L(3) n e4 _ _ top]) (use O(3) A L(1) in auto)
  then have "updates st w (zval st u AND zval st v) (set_SIZ w (- int k) (set_heap h' st3))" unfolding val by (rule O(8))
  then show ?thesis
    unfolding and_minus_def Let_def un_def [symmetric] vn_def [symmetric] e1 e2 prod.case st3_def [symmetric] e3 e4 by simp
qed

lemma and_mixed_spec:
  assumes ok: "store_ok st" and l: "w \<in> live st" "u \<in> live st" "v \<in> live st" and s: "0 \<le> SIZ st u" "SIZ st v < 0"
  shows "updates st w (zval st u AND zval st v) (and_mixed w u v (ABSIZ st u) (ABSIZ st v) st)"
proof -
  define un vn where "un = ABSIZ st u" and "vn = ABSIZ st v"
  obtain vp st1 where e1: "minus_one (PTR st v) vn st = (vp, st1)" by fastforce
  note O = one_minus_one [OF ok l s e1 [unfolded vn_def], folded un_def vn_def]
  show ?thesis
  proof (cases "un > vn")
    case True
    define st2 where "st2 = MPZ_REALLOC w un st1"
    note O = O [where k = un, folded st2_def]
    have vn: "vn \<le> un" using True by simp
    have o: "MPN_SAME_OR_SEPARATE2_P (PTR st2 w) un (PTR st2 u) un" "MPN_SAME_OR_SEPARATE2_P (PTR st2 w) un vp vn"
      using operandD2 [OF O(4)] operandD2 [OF O(5)] O(3) by simp_all
    define h where "h = logic_loop (\<lambda>x y. x AND NOT y) vn (PTR st2 w) (PTR st2 u) vp (MPN_COPY (PTR st2 w + vn) (PTR st2 u + vn) (un - vn) (heap st2))"
    have h: "h = logic_loop (\<lambda>x y. x AND NOT y) vn (PTR st2 w) (PTR st2 u) vp (mcopy (PTR st2 w + vn) (PTR st2 u + vn) (un - vn) (heap st2))"
      unfolding h_def using copy_high [OF o(1) vn, of True] by simp
    note L = limb_andn.long_loop [OF _ vn o, of "heap st2", folded h, simplified]
    have val: "int (mval h (PTR st2 w) un) = zval st u AND zval st v" unfolding L(1) O(6,7) by simp
    have "un = 0 \<or> h (PTR st2 w + un - 1) \<noteq> 0" using L(3) O(11) True by simp
    moreover have "only_in (PTR st2 w) (ALLOC st2 w) (heap st2) h" by (rule only_in_mono [OF L(2)]) (use O(3) in auto)
    ultimately have "updates st2 w (zval st u AND zval st v) (set_SIZ w (int un) (set_heap h st2))"
      using result_sized [OF O(1,2) _ O(3), of h False] val by (simp add: with_sign_def)
    then have "updates st w (zval st u AND zval st v) (set_SIZ w (int un) (set_heap h st2))" by (rule O(8))
    then show ?thesis
      using True unfolding and_mixed_def Let_def un_def [symmetric] vn_def [symmetric] e1 prod.case st2_def [symmetric] h_def by simp
  next
    case False
    define s st2 where "s = logic_size (\<lambda>x y. x AND NOT y) un (PTR st1 u) vp (heap st1)" and "st2 = MPZ_REALLOC w s st1"
    note O = O [where k = s, folded st2_def]
    have le: "un \<le> vn" using False by simp
    have s2: "s = logic_size (\<lambda>x y. x AND NOT y) un (PTR st2 u) vp (heap st2)"
      unfolding s_def by (rule logic_size_cong) (simp_all add: O(9,10) le)
    have o: "operand st2 w vp un" using O(5) le by (auto simp: operand_def)
    have "int (mval (heap st2) (PTR st2 u) un) AND NOT (int (mval (heap st2) vp un)) = zval st u AND zval st v"
      unfolding O(6,7) by (rule limb_andn.cut_second [OF _ le, simplified])
    then have "updates st2 w (zval st u AND zval st v) (set_SIZ w (int s) (set_heap (logic_loop (\<lambda>x y. x AND NOT y) s (PTR st2 w) (PTR st2 u) vp (heap st2)) st2))"
      using limb_andn.sized_result [OF O(1,2,4) o s2 O(3)] by simp
    then have "updates st w (zval st u AND zval st v) (set_SIZ w (int s) (set_heap (logic_loop (\<lambda>x y. x AND NOT y) s (PTR st2 w) (PTR st2 u) vp (heap st2)) st2))"
      by (rule O(8))
    then show ?thesis
      using False unfolding and_mixed_def Let_def un_def [symmetric] vn_def [symmetric] e1 prod.case s_def [symmetric] st2_def [symmetric] by simp
  qed
qed

theorem mpz_and_spec:
  assumes ok: "store_ok st" and l: "w \<in> live st" "u \<in> live st" "v \<in> live st"
  shows "updates st w (zval st u AND zval st v) (mpz_and w u v st)"
proof -
  note N = nonneg_variable(2) [OF ok] negative_variable(2) [OF ok]
  show ?thesis
    using and_plus_spec [OF ok l] and_minus_spec [OF ok l] and_mixed_spec [OF ok l] and_mixed_spec [OF ok l(1,3,2)] l N
    by (cases "0 \<le> SIZ st u"; cases "0 \<le> SIZ st v") (simp_all add: mpz_and_def Let_def and.commute)
qed

interpretation mpz_and: mpz_binop mpz_and "(AND)"
  by unfold_locales (rule mpz_and_spec)

end
