(* ===== verification/Mpz_Ior.thy ===== *)
theory Mpz_Ior
  imports Mpz_And
begin

text \<open>
  Disjunction, exclusive disjunction and complement of variables: \<open>mpz/ior.c\<close>, \<open>xor.c\<close> and \<open>com.c\<close>, on the steps of
  \<open>Mpz_And\<close>.
\<close>

unbundle bit_operations_syntax

section \<open>The operations\<close>

definition ior_plus :: "var \<Rightarrow> var \<Rightarrow> var \<Rightarrow> nat \<Rightarrow> nat \<Rightarrow> state \<Rightarrow> state" where
  "ior_plus res op1 op2 op1_size op2_size st =
     (let st = MPZ_REALLOC res (if op1_size \<ge> op2_size then op1_size else op2_size) st;
          (res_size, h) = logic_long False (OR) (PTR st res) (PTR st op1) op1_size (PTR st op2) op2_size (heap st)
      in set_SIZ res (int res_size) (set_heap h st))"

definition ior_minus :: "var \<Rightarrow> var \<Rightarrow> var \<Rightarrow> nat \<Rightarrow> nat \<Rightarrow> state \<Rightarrow> state" where
  "ior_minus res op1 op2 op1_size op2_size st =
     (let res_size = min op1_size op2_size;
          (op1_ptr, st) = minus_one (PTR st op1) res_size st;
          (op2_ptr, st) = minus_one (PTR st op2) res_size st;
          st = MPZ_REALLOC res res_size st;
          res_ptr = PTR st res;
          res_size = logic_size (AND) res_size op1_ptr op2_ptr (heap st);
          (res_size, h) =
            (if res_size \<noteq> 0 then plus_one res_ptr res_size (logic_loop (AND) res_size res_ptr op1_ptr op2_ptr (heap st))
             else (1, (heap st)(res_ptr := 1)))
      in set_SIZ res (- int res_size) (set_heap h st))"

definition ior_mixed :: "var \<Rightarrow> var \<Rightarrow> var \<Rightarrow> nat \<Rightarrow> nat \<Rightarrow> state \<Rightarrow> state" where
  "ior_mixed res op1 op2 op1_size op2_size st =
     (let res_alloc = op2_size;
          (op2_ptr, st) = minus_one (PTR st op2) op2_size st;
          op2_size = op2_size - of_bool (heap st (op2_ptr + (op2_size - 1)) = 0);
          st = MPZ_REALLOC res res_alloc st;
          op1_ptr = PTR st op1;
          res_ptr = PTR st res;
          (res_size, count, h) =
            (if op1_size \<ge> op2_size
             then (let res_size = logic_size (\<lambda>x y. NOT x AND y) op2_size op1_ptr op2_ptr (heap st)
                   in (res_size, res_size, heap st))
             else (op2_size, op1_size, MPN_COPY (res_ptr + op1_size) (op2_ptr + op1_size) (op2_size - op1_size) (heap st)));
          (res_size, h) =
            (if res_size \<noteq> 0 then plus_one res_ptr res_size (logic_loop (\<lambda>x y. NOT x AND y) count res_ptr op1_ptr op2_ptr h)
             else (1, h(res_ptr := 1)))
      in set_SIZ res (- int res_size) (set_heap h st))"

definition mpz_ior :: "var \<Rightarrow> var \<Rightarrow> var \<Rightarrow> state \<Rightarrow> state" where
  "mpz_ior res op1 op2 st =
     (let op1_size = SIZ st op1;
          op2_size = SIZ st op2
      in if op1_size \<ge> 0
         then if op2_size \<ge> 0 then ior_plus res op1 op2 (nat op1_size) (nat op2_size) st
              else ior_mixed res op1 op2 (nat op1_size) (nat (- op2_size)) st
         else if op2_size < 0 then ior_minus res op1 op2 (nat (- op1_size)) (nat (- op2_size)) st
              else ior_mixed res op2 op1 (nat op2_size) (nat (- op1_size)) st)"

definition xor_plus :: "var \<Rightarrow> var \<Rightarrow> var \<Rightarrow> nat \<Rightarrow> nat \<Rightarrow> state \<Rightarrow> state" where
  "xor_plus res op1 op2 op1_size op2_size st =
     (let st = MPZ_REALLOC res (if op1_size \<ge> op2_size then op1_size else op2_size) st;
          (res_size, h) = logic_long False (XOR) (PTR st res) (PTR st op1) op1_size (PTR st op2) op2_size (heap st);
          res_size = MPN_NORMALIZE h (PTR st res) res_size
      in set_SIZ res (int res_size) (set_heap h st))"

text \<open>Where both sizes are equal the code of the last two cases takes the other branch, which then copies nothing either.\<close>

definition xor_minus :: "var \<Rightarrow> var \<Rightarrow> var \<Rightarrow> nat \<Rightarrow> nat \<Rightarrow> state \<Rightarrow> state" where
  "xor_minus res op1 op2 op1_size op2_size st =
     (let (op1_ptr, st) = minus_one (PTR st op1) op1_size st;
          (op2_ptr, st) = minus_one (PTR st op2) op2_size st;
          res_alloc = max op1_size op2_size;
          st = MPZ_REALLOC res res_alloc st;
          (res_size, h) = logic_long True (XOR) (PTR st res) op1_ptr op1_size op2_ptr op2_size (heap st);
          res_size = MPN_NORMALIZE h (PTR st res) res_size
      in set_SIZ res (int res_size) (set_heap h st))"

definition xor_mixed :: "var \<Rightarrow> var \<Rightarrow> var \<Rightarrow> nat \<Rightarrow> nat \<Rightarrow> state \<Rightarrow> state" where
  "xor_mixed res op1 op2 op1_size op2_size st =
     (let (op2_ptr, st) = minus_one (PTR st op2) op2_size st;
          res_alloc = max op1_size op2_size + 1;
          st = MPZ_REALLOC res res_alloc st;
          (res_size, h) = logic_long True (XOR) (PTR st res) (PTR st op1) op1_size op2_ptr op2_size (heap st);
          (res_size, h) = plus_one (PTR st res) res_size h;
          res_size = MPN_NORMALIZE h (PTR st res) res_size
      in set_SIZ res (- int res_size) (set_heap h st))"

definition mpz_xor :: "var \<Rightarrow> var \<Rightarrow> var \<Rightarrow> state \<Rightarrow> state" where
  "mpz_xor res op1 op2 st =
     (let op1_size = SIZ st op1;
          op2_size = SIZ st op2
      in if op1_size \<ge> 0
         then if op2_size \<ge> 0 then xor_plus res op1 op2 (nat op1_size) (nat op2_size) st
              else xor_mixed res op1 op2 (nat op1_size) (nat (- op2_size)) st
         else if op2_size < 0 then xor_minus res op1 op2 (nat (- op1_size)) (nat (- op2_size)) st
              else xor_mixed res op2 op1 (nat op2_size) (nat (- op1_size)) st)"

definition mpz_com :: "var \<Rightarrow> var \<Rightarrow> state \<Rightarrow> state" where
  "mpz_com dst src st =
     (let size = SIZ st src
      in if size \<ge> 0
         then (let size = nat size;
                   st = MPZ_REALLOC dst (size + 1) st;
                   src_ptr = PTR st src;
                   dst_ptr = PTR st dst
               in if size = 0 then set_SIZ dst (- 1) (set_heap ((heap st)(dst_ptr := 1)) st)
                  else (let (cy, h) = mpn_add_1 dst_ptr src_ptr size 1 (heap st)
                        in if cy \<noteq> 0 then set_SIZ dst (- int (size + 1)) (set_heap (h(dst_ptr + size := cy)) st)
                           else set_SIZ dst (- int size) (set_heap h st)))
         else (let size = nat (- size);
                   st = MPZ_REALLOC dst size st;
                   src_ptr = PTR st src;
                   dst_ptr = PTR st dst;
                   (_, h) = mpn_sub_1 dst_ptr src_ptr size 1 (heap st);
                   size = size - of_bool (h (dst_ptr + (size - 1)) = 0)
               in set_SIZ dst (int size) (set_heap h st)))"

section \<open>Disjunction\<close>

text \<open>The first operand has no limbs above its size that are zero.\<close>

lemma limbs_needed: "store_ok st \<Longrightarrow> u \<in> live st \<Longrightarrow> ABSIZ st u \<noteq> 0 \<Longrightarrow> int (LB ^ (ABSIZ st u - 1)) \<le> \<bar>zval st u\<bar>"
  using mval_ABSIZ_ge [of st u] zval_abs [of st u] by simp

text \<open>Two operands that are not negative, after room is made for the result of the longer.\<close>

context bitwise
begin

lemma long_variables:
  assumes u1: "\<And>x. F x 0 = x" and u2: "\<And>y. F 0 y = y"
    and ok: "store_ok st" and l: "w \<in> live st" "u \<in> live st" "v \<in> live st" and s: "0 \<le> SIZ st u" "0 \<le> SIZ st v"
    and st1: "st1 = MPZ_REALLOC w (if ABSIZ st u \<ge> ABSIZ st v then ABSIZ st u else ABSIZ st v) st"
    and eq: "logic_long always f (PTR st1 w) (PTR st1 u) (ABSIZ st u) (PTR st1 v) (ABSIZ st v) (heap st1) = (n, h)"
  shows "store_ok st1" "w \<in> live st1" "n = max (ABSIZ st u) (ABSIZ st v)" "int (mval h (PTR st1 w) n) = F (zval st u) (zval st v)"
    and "only_in (PTR st1 w) (ALLOC st1 w) (heap st1) h" "n \<le> ALLOC st1 w" "\<And>x st'. updates st1 w x st' \<Longrightarrow> updates st w x st'"
proof -
  define N where "N = (if ABSIZ st u \<ge> ABSIZ st v then ABSIZ st u else ABSIZ st v)"
  have st1: "st1 = MPZ_REALLOC w N st" unfolding st1 N_def ..
  note R = MPZ_REALLOC_spec [OF ok l(1), where n = N, folded st1]
  note U = operand_variable [OF ok l(1,2), where k = N, folded st1]
  note V = operand_variable [OF ok l(1,3), where k = N, folded st1]
  have A: "max (ABSIZ st u) (ABSIZ st v) \<le> ALLOC st1 w" using R(3) by (simp add: N_def max_def split: if_splits)
  note L = long_result [OF u1 u2 U(1) V(1) eq A]
  show "store_ok st1" "n = max (ABSIZ st u) (ABSIZ st v)" by (rule R(1) L(1))+
  show "w \<in> live st1" using l(1) R(2) by simp
  show "int (mval h (PTR st1 w) n) = F (zval st u) (zval st v)"
    unfolding L(2) U(2) [OF order_refl] V(2) [OF order_refl] nonneg_variable(1) [OF ok l(2) s(1)] nonneg_variable(1) [OF ok l(3) s(2)] ..
  show A': "n \<le> ALLOC st1 w" using A L(1) by simp
  show "only_in (PTR st1 w) (ALLOC st1 w) (heap st1) h" by (rule only_in_mono [OF L(3)]) (use A' in auto)
  show "updates st w x st'" if "updates st1 w x st'" for x st'
    using updates_realloc [OF ok l(1), where n = N] that by (simp add: st1)
qed

end

lemma ior_plus_spec:
  assumes ok: "store_ok st" and l: "w \<in> live st" "u \<in> live st" "v \<in> live st" and s: "0 \<le> SIZ st u" "0 \<le> SIZ st v"
  shows "updates st w (zval st u OR zval st v) (ior_plus w u v (ABSIZ st u) (ABSIZ st v) st)"
proof -
  define st1 where "st1 = MPZ_REALLOC w (if ABSIZ st u \<ge> ABSIZ st v then ABSIZ st u else ABSIZ st v) st"
  obtain n h where e: "logic_long False (OR) (PTR st1 w) (PTR st1 u) (ABSIZ st u) (PTR st1 v) (ABSIZ st v) (heap st1) = (n, h)" by fastforce
  note L = limb_or.long_variables [OF _ _ ok l s st1_def e, simplified]
  have z: "0 \<le> zval st u" "0 \<le> zval st v" unfolding nonneg_variable(1) [OF ok l(2) s(1)] nonneg_variable(1) [OF ok l(3) s(2)] by simp_all
  have "n = 0 \<or> h (PTR st1 w + n - 1) \<noteq> 0"
  proof (cases "n = 0")
    case False
    have "zval st u \<le> zval st u OR zval st v" "zval st v \<le> zval st u OR zval st v"
      using or_greater_eq [OF z(2), of "zval st u"] or_greater_eq [OF z(1), of "zval st v"] by (simp_all add: or.commute)
    moreover have "n = ABSIZ st u \<or> n = ABSIZ st v" unfolding L(3) by (simp add: max_def)
    ultimately have "int (LB ^ (n - 1)) \<le> int (mval h (PTR st1 w) n)"
      unfolding L(4) using limbs_needed [OF ok l(2)] limbs_needed [OF ok l(3)] z False by (elim disjE) (hypsubst, linarith)+
    then show ?thesis by (intro top_not_zero) (simp only: of_nat_le_iff)
  qed simp
  from result_sized [OF L(1,2,5,6) this, of False] have "updates st1 w (zval st u OR zval st v) (set_SIZ w (int n) (set_heap h st1))"
    using L(4) by (simp add: with_sign_def)
  then show ?thesis unfolding ior_plus_def Let_def st1_def [symmetric] e prod.case by (rule L(7))
qed

text \<open>A single limb 1, with the sign of the result.\<close>

lemma minus_one_result:
  assumes "store_ok st" "w \<in> live st"
  shows "updates st w (- 1) (set_SIZ w (- 1) (set_heap ((heap st)(PTR st w := 1)) st))"
  using one_limb_spec [OF assms, of "- 1" True 1] by simp

lemma take_bit_and_below:
  fixes a b :: int
  assumes "0 \<le> a" "a < 2 ^ m" "0 \<le> b" "b < 2 ^ n" "k = min m n"
  shows "take_bit k a AND take_bit k b = a AND b"
proof -
  have "take_bit k a AND take_bit k b = take_bit k (a AND b)" by simp
  also have "\<dots> = a AND b"
  proof (rule take_bit_int_eq_self)
    show "0 \<le> a AND b" using assms by simp
    have "a AND b \<le> a" "a AND b \<le> b" using AND_upper1 [of a b] AND_upper2 [of b a] assms by simp_all
    then show "a AND b < 2 ^ k" using assms by (auto simp: min_def)
  qed
  finally show ?thesis .
qed

lemma ior_minus_spec:
  assumes ok: "store_ok st" and l: "w \<in> live st" "u \<in> live st" "v \<in> live st" and s: "SIZ st u < 0" "SIZ st v < 0"
  shows "updates st w (zval st u OR zval st v) (ior_minus w u v (ABSIZ st u) (ABSIZ st v) st)"
proof -
  define n where "n = min (ABSIZ st u) (ABSIZ st v)"
  have n: "1 \<le> n" "n \<le> ABSIZ st u" "n \<le> ABSIZ st v"
    using negative_variable(3) [OF ok l(2) s(1)] negative_variable(3) [OF ok l(3) s(2)] by (simp_all add: n_def)
  obtain up st1 where e1: "minus_one (PTR st u) n st = (up, st1)" by fastforce
  obtain vp st2 where e2: "minus_one (PTR st1 v) n st1 = (vp, st2)" by fastforce
  define st3 where "st3 = MPZ_REALLOC w n st2"
  note O = two_minus_ones [OF ok l s n(1,2) n(1,3) e1 e2, where k = n, folded st3_def]
  note F = full_take_bit(2,3) [OF ok l(2) s(1)] full_take_bit(2,3) [OF ok l(3) s(2)]
  define a b where "a = - zval st u - 1" and "b = - zval st v - 1"
  have V: "int (mval (heap st3) up n) AND int (mval (heap st3) vp n) = a AND b"
    unfolding O(6,7) a_def b_def by (rule take_bit_and_below [OF F]) (simp add: n_def)
  have val: "zval st u OR zval st v = - (a AND b) - 1"
  proof -
    have "zval st u = NOT a" "zval st v = NOT b" by (simp_all add: a_def b_def not_int_def)
    then have "zval st u OR zval st v = NOT (a AND b)" by (intro bit_eqI) (simp add: bit_and_iff bit_or_iff bit_not_iff)
    then show ?thesis by (simp add: not_int_def)
  qed
  define s where "s = logic_size (AND) n up vp (heap st3)"
  define h where "h = logic_loop (AND) s (PTR st3 w) up vp (heap st3)"
  have o: "MPN_SAME_OR_SEPARATE_P (PTR st3 w) up n" "MPN_SAME_OR_SEPARATE_P (PTR st3 w) vp n"
    using operandD [OF O(4,3)] operandD [OF O(5,3)] by simp_all
  note L = limb_and.sized_loop [OF order_refl o, of "heap st3", folded s_def, folded h_def, unfolded V]
  show ?thesis
  proof (cases "s = 0")
    case True
    then have "a AND b = 0" using L(1) by simp
    then have "zval st u OR zval st v = - 1" using val by simp
    then have "updates st w (zval st u OR zval st v) (set_SIZ w (- 1) (set_heap ((heap st3)(PTR st3 w := 1)) st3))"
      using O(8) [OF minus_one_result [OF O(1,2)]] by simp
    then show ?thesis
      using True unfolding ior_minus_def Let_def n_def [symmetric] e1 e2 prod.case st3_def [symmetric] s_def [symmetric] by simp
  next
    case False
    obtain k h' where e3: "plus_one (PTR st3 w) s h = (k, h')" by fastforce
    have "LB ^ (s - 1) \<le> mval h (PTR st3 w) s" using L(2) False by (intro mval_lower) auto
    then have top: "LB ^ (s - 1) \<le> mval h (PTR st3 w) s + 1" by simp
    have fit: "s < n" if "mval h (PTR st3 w) s + 1 = LB ^ s"
    proof -
      have "a AND b \<le> a" "a AND b \<le> b" using AND_upper1 [of a b] AND_upper2 [of b a] F by (simp_all add: a_def b_def)
      moreover have "int (LB ^ s) = (a AND b) + 1" unfolding that [symmetric] L(1) [symmetric] by simp
      moreover have "a + 1 < int (LB ^ ABSIZ st u)" "b + 1 < int (LB ^ ABSIZ st v)"
        unfolding a_def b_def negative_variable(1) [OF ok l(2) s(1)] negative_variable(1) [OF ok l(3) s(2)] using mval_less
        by (simp_all only: minus_minus diff_add_cancel of_nat_less_iff)
      ultimately have "int (LB ^ s) < int (LB ^ ABSIZ st u)" "int (LB ^ s) < int (LB ^ ABSIZ st v)" by linarith+
      then have "s < ABSIZ st u" "s < ABSIZ st v" by (simp_all only: of_nat_less_iff power_strict_increasing_iff [OF LB_gt(2)])
      then show ?thesis by (simp add: n_def)
    qed
    have "updates st3 w (- int (mval h (PTR st3 w) s + 1)) (set_SIZ w (- int k) (set_heap h' st3))"
      by (rule plus_one_result [OF O(1,2) L(3) _ e3 _ _ top]) (use False L(4) O(3) fit in auto)
    moreover have "- int (mval h (PTR st3 w) s + 1) = zval st u OR zval st v" unfolding val using L(1) by simp
    ultimately have "updates st w (zval st u OR zval st v) (set_SIZ w (- int k) (set_heap h' st3))" using O(8) by simp
    then show ?thesis
      using False unfolding ior_minus_def Let_def n_def [symmetric] e1 e2 prod.case st3_def [symmetric] s_def [symmetric] h_def [symmetric] by (simp add: e3)
  qed
qed

text \<open>The loop where the operand that is copied is the second.\<close>

interpretation limb_notand: bitwise "\<lambda>y x. NOT x AND y" "\<lambda>b a. NOT a AND b" "\<lambda>b a. \<not> a \<and> b"
  by unfold_locales (simp_all add: bit_simps)

text \<open>The size of the number less one: it may lose the top limb.\<close>

lemma less_one_top:
  assumes b: "int (mval m p n) = A - 1" and A: "int (LB ^ (n - 1)) \<le> A" and n: "1 \<le> n"
  defines "k \<equiv> n - of_bool (m (p + (n - 1)) = 0)"
  shows "mval m p k = mval m p n" "k = 0 \<or> m (p + (k - 1)) \<noteq> 0" "k \<le> n"
proof -
  have e: "mval m p n = mval m p (n - 1) + LB ^ (n - 1) * unat (m (p + (n - 1)))" using mval_high [of m p "n - 1"] n by simp
  show "k \<le> n" by (simp add: k_def)
  show "mval m p k = mval m p n"
  proof (cases "m (p + (n - 1)) = 0")
    case True
    then show ?thesis using e by (simp add: k_def)
  qed (simp add: k_def)
  show "k = 0 \<or> m (p + (k - 1)) \<noteq> 0"
  proof (cases "m (p + (n - 1)) = 0 \<and> 1 < n")
    case True
    have "int (mval m p n + unat (1 :: limb)) = A" using b by simp
    then have "mval m p n + unat (1 :: limb) = nat A" by linarith
    moreover have "LB ^ (n - 1) \<le> nat A" using nat_mono [OF A] by (simp only: nat_int)
    ultimately have "m (p + (n - 1) - 1) \<noteq> 0" using True by (intro sub_small_top [where v = 1]) auto
    then show ?thesis using True by (simp add: k_def)
  next
    case False
    then show ?thesis using n by (cases "m (p + (n - 1)) = 0") (auto simp: k_def)
  qed
qed

lemma ior_mixed_spec:
  assumes ok: "store_ok st" and l: "w \<in> live st" "u \<in> live st" "v \<in> live st" and s: "0 \<le> SIZ st u" "SIZ st v < 0"
  shows "updates st w (zval st u OR zval st v) (ior_mixed w u v (ABSIZ st u) (ABSIZ st v) st)"
proof -
  define un vn where "un = ABSIZ st u" and "vn = ABSIZ st v"
  obtain vp st1 where e1: "minus_one (PTR st v) vn st = (vp, st1)" by fastforce
  define st2 where "st2 = MPZ_REALLOC w vn st1"
  note O = one_minus_one [OF ok l s e1 [unfolded vn_def], where k = vn, folded st2_def, folded un_def vn_def]
  note N = negative_variable [OF ok l(3) s(2), folded vn_def]
  define h0 wp up where "h0 = heap st2" and "wp = PTR st2 w" and "up = PTR st2 u"
  note O' = O(4,5,6,7,11) [folded h0_def wp_def up_def]
  define V where "V = mval h0 vp vn"
  have V: "int V = - zval st v - 1" using O(7) by (simp add: V_def h0_def not_int_def)
  define k where "k = vn - of_bool (h0 (vp + (vn - 1)) = 0)"
  have k: "mval h0 vp k = V" "k = 0 \<or> h0 (vp + (k - 1)) \<noteq> 0" "k \<le> vn"
  proof -
    have "int (mval h0 vp vn) = - zval st v - 1" "int (LB ^ (vn - 1)) \<le> - zval st v" using V N(1,4) by (simp_all add: V_def)
    from less_one_top [OF this N(3), folded k_def] show "mval h0 vp k = V" "k = 0 \<or> h0 (vp + (k - 1)) \<noteq> 0" "k \<le> vn" by (simp_all add: V_def)
  qed
  have k1: "k = vn - of_bool (heap st1 (vp + (vn - 1)) = 0)" unfolding k_def h0_def using O(12) [of "vn - 1"] N(3) by simp
  have "\<exists>s count h. (if un \<ge> k then (let s = logic_size (\<lambda>x y. NOT x AND y) k up vp h0 in (s, s, h0))
         else (k, un, MPN_COPY (wp + un) (vp + un) (k - un) h0)) = (s, count, h)
    \<and> int (mval (logic_loop (\<lambda>x y. NOT x AND y) count wp up vp h) wp s) = NOT (zval st u) AND int V
    \<and> (s = 0 \<or> logic_loop (\<lambda>x y. NOT x AND y) count wp up vp h (wp + s - 1) \<noteq> 0) \<and> s \<le> vn
    \<and> only_in wp s h0 (logic_loop (\<lambda>x y. NOT x AND y) count wp up vp h) \<and> (s = 0 \<longrightarrow> h = h0)"
  proof (cases "un \<ge> k")
    case True
    define s where "s = logic_size (\<lambda>x y. NOT x AND y) k up vp h0"
    have o: "MPN_SAME_OR_SEPARATE_P wp up k" "MPN_SAME_OR_SEPARATE_P wp vp k"
      using operandD [OF O(4), of k] operandD [OF O(5), of k] True O(3) k(3) by (simp_all add: wp_def up_def)
    note L = limb_nand.sized_loop [OF order_refl o, of h0, folded s_def]
    have "NOT (int (mval h0 up k)) AND int (mval h0 vp k) = NOT (zval st u) AND int V"
      unfolding O'(3) k(1) [symmetric] by (rule limb_nand.cut_first [OF _ True]) simp
    then show ?thesis using True L k(3) unfolding s_def [symmetric] by simp
  next
    case False
    have o: "MPN_SAME_OR_SEPARATE2_P wp k vp k" "MPN_SAME_OR_SEPARATE2_P wp k up un"
      using operandD2 [OF O(5), of k k] operandD2 [OF O(4), of k un] O(3) k(3) by (simp_all add: wp_def up_def)
    have le: "un \<le> k" using False by simp
    note L = limb_notand.long_loop [OF _ le o, of h0, simplified]
    have c: "MPN_COPY (wp + un) (vp + un) (k - un) h0 = mcopy (wp + un) (vp + un) (k - un) h0"
      using copy_high [OF o(1) le, of True] by simp
    show ?thesis
      using False L k O'(3) unfolding c logic_loop_swap [of "\<lambda>x y. NOT x AND y"] by simp
  qed
  then obtain s count h where e2: "(if un \<ge> k then (let s = logic_size (\<lambda>x y. NOT x AND y) k up vp h0 in (s, s, h0))
         else (k, un, MPN_COPY (wp + un) (vp + un) (k - un) h0)) = (s, count, h)"
    and L: "int (mval (logic_loop (\<lambda>x y. NOT x AND y) count wp up vp h) wp s) = NOT (zval st u) AND int V"
      "s = 0 \<or> logic_loop (\<lambda>x y. NOT x AND y) count wp up vp h (wp + s - 1) \<noteq> 0" "s \<le> vn"
      "only_in wp s h0 (logic_loop (\<lambda>x y. NOT x AND y) count wp up vp h)" "s = 0 \<Longrightarrow> h = h0" by blast
  define g where "g = logic_loop (\<lambda>x y. NOT x AND y) count wp up vp h"
  note L = L [folded g_def]
  have val: "zval st u OR zval st v = - (NOT (zval st u) AND int V) - 1"
  proof -
    have "zval st v = NOT (int V)" using V by (simp add: not_int_def)
    then have "zval st u OR zval st v = NOT (NOT (zval st u) AND int V)" by (intro bit_eqI) (simp add: bit_and_iff bit_or_iff bit_not_iff)
    then show ?thesis by (simp add: not_int_def)
  qed
  obtain z h' where e3: "(if s \<noteq> 0 then plus_one wp s g else (1, h(wp := 1))) = (z, h')" by fastforce
  have run: "ior_mixed w u v un vn st = set_SIZ w (- int z) (set_heap h' st2)"
    unfolding ior_mixed_def Let_def e1 prod.case k1 [symmetric] st2_def [symmetric] wp_def [symmetric] up_def [symmetric] h0_def [symmetric]
      e2 [unfolded Let_def] g_def [symmetric] e3 ..
  have "updates st2 w (zval st u OR zval st v) (set_SIZ w (- int z) (set_heap h' st2))"
  proof (cases "s = 0")
    case True
    then have "zval st u OR zval st v = - 1" using L(1) val by simp
    then show ?thesis using minus_one_result [OF O(1,2)] True L(5) e3 by (auto simp: h0_def wp_def)
  next
    case False
    have "LB ^ (s - 1) \<le> mval g wp s" using L(2) False by (intro mval_lower) auto
    then have top: "LB ^ (s - 1) \<le> mval g wp s + 1" by simp
    have fit: "s < vn" if "mval g wp s + 1 = LB ^ s"
    proof -
      have "int (mval g wp s) \<le> int V" unfolding L(1) by (rule AND_upper2) simp
      then have "LB ^ s \<le> V + 1" using that by linarith
      also have "V + 1 < LB ^ vn"
      proof -
        have "int (V + 1) = int (mval (heap st) (PTR st v) vn)" using V N(1) by simp
        then show ?thesis using mval_less [of "heap st" "PTR st v" vn] by (simp only: of_nat_eq_iff)
      qed
      finally show ?thesis by (simp only: power_strict_increasing_iff [OF LB_gt(2)])
    qed
    have "updates st2 w (- int (mval g (PTR st2 w) s + 1)) (set_SIZ w (- int z) (set_heap h' st2))"
      by (rule plus_one_result [OF O(1,2) L(4) [unfolded h0_def wp_def] _ _ _ _ top [unfolded wp_def]])
        (use False L(3) O(3) fit e3 in \<open>auto simp: wp_def\<close>)
    moreover have "- int (mval g wp s + 1) = zval st u OR zval st v" unfolding val using L(1) by simp
    ultimately show ?thesis by (simp add: wp_def)
  qed
  then show ?thesis unfolding un_def [symmetric] vn_def [symmetric] run by (rule O(8))
qed

theorem mpz_ior_spec:
  assumes ok: "store_ok st" and l: "w \<in> live st" "u \<in> live st" "v \<in> live st"
  shows "updates st w (zval st u OR zval st v) (mpz_ior w u v st)"
proof -
  note N = nonneg_variable(2) [OF ok] negative_variable(2) [OF ok]
  show ?thesis
    using ior_plus_spec [OF ok l] ior_minus_spec [OF ok l] ior_mixed_spec [OF ok l] ior_mixed_spec [OF ok l(1,3,2)] l N
    by (cases "0 \<le> SIZ st u"; cases "0 \<le> SIZ st v") (simp_all add: mpz_ior_def Let_def or.commute)
qed

interpretation mpz_ior: mpz_binop mpz_ior "(OR)"
  by unfold_locales (rule mpz_ior_spec)

section \<open>Exclusive disjunction\<close>

text \<open>A result whose high limbs may be zero.\<close>

lemma normalized_result:
  assumes "store_ok st" "w \<in> live st" "only_in (PTR st w) (ALLOC st w) (heap st) h" "n \<le> ALLOC st w"
  defines "k \<equiv> MPN_NORMALIZE h (PTR st w) n"
  shows "updates st w (with_sign neg (mval h (PTR st w) n)) (set_SIZ w (with_sign neg k) (set_heap h st))"
  using result_sized [OF assms(1-3), of k neg] MPN_NORMALIZE_le [of h "PTR st w" n] MPN_NORMALIZE_top [of h "PTR st w" n] assms(4)
  by (simp add: k_def MPN_NORMALIZE_mval)

lemma xor_plus_spec:
  assumes ok: "store_ok st" and l: "w \<in> live st" "u \<in> live st" "v \<in> live st" and s: "0 \<le> SIZ st u" "0 \<le> SIZ st v"
  shows "updates st w (zval st u XOR zval st v) (xor_plus w u v (ABSIZ st u) (ABSIZ st v) st)"
proof -
  define st1 where "st1 = MPZ_REALLOC w (if ABSIZ st u \<ge> ABSIZ st v then ABSIZ st u else ABSIZ st v) st"
  obtain n h where e: "logic_long False (XOR) (PTR st1 w) (PTR st1 u) (ABSIZ st u) (PTR st1 v) (ABSIZ st v) (heap st1) = (n, h)" by fastforce
  note L = limb_xor.long_variables [OF _ _ ok l s st1_def e, simplified]
  have "updates st1 w (zval st u XOR zval st v) (set_SIZ w (int (MPN_NORMALIZE h (PTR st1 w) n)) (set_heap h st1))"
    using normalized_result [OF L(1,2,5,6), of False] L(4) by (simp add: with_sign_def)
  then show ?thesis unfolding xor_plus_def Let_def st1_def [symmetric] e prod.case by (rule L(7))
qed

lemma xor_minus_spec:
  assumes ok: "store_ok st" and l: "w \<in> live st" "u \<in> live st" "v \<in> live st" and s: "SIZ st u < 0" "SIZ st v < 0"
  shows "updates st w (zval st u XOR zval st v) (xor_minus w u v (ABSIZ st u) (ABSIZ st v) st)"
proof -
  define un vn where "un = ABSIZ st u" and "vn = ABSIZ st v"
  note N = negative_variable(3) [OF ok l(2) s(1), folded un_def] negative_variable(3) [OF ok l(3) s(2), folded vn_def]
  obtain up st1 where e1: "minus_one (PTR st u) un st = (up, st1)" by fastforce
  obtain vp st2 where e2: "minus_one (PTR st1 v) vn st1 = (vp, st2)" by fastforce
  define st3 where "st3 = MPZ_REALLOC w (max un vn) st2"
  note O = two_minus_ones [OF ok l s N(1) _ N(2) _ e1 e2, where k = "max un vn", folded st3_def, unfolded un_def vn_def, OF order_refl order_refl, folded un_def vn_def]
  obtain n h where e3: "logic_long True (XOR) (PTR st3 w) up un vp vn (heap st3) = (n, h)" by fastforce
  note L = limb_xor.long_result [OF _ _ O(4,5) e3 O(3), simplified]
  have n: "n \<le> ALLOC st3 w" using O(3) unfolding L(1) .
  have val: "int (mval h (PTR st3 w) n) = zval st u XOR zval st v"
  proof -
    have "zval st u XOR zval st v = NOT (int (mval (heap st3) up un)) XOR NOT (int (mval (heap st3) vp vn))"
      using full_take_bit(1) [OF ok l(2) s(1)] full_take_bit(1) [OF ok l(3) s(2)] O(6,7) by (simp add: un_def vn_def)
    also have "\<dots> = int (mval h (PTR st3 w) n)" unfolding L(2) by (rule bit_eqI) (simp add: bit_xor_iff bit_not_iff)
    finally show ?thesis ..
  qed
  have "only_in (PTR st3 w) (ALLOC st3 w) (heap st3) h" by (rule only_in_mono [OF L(3)]) (use n in auto)
  from normalized_result [OF O(1,2) this n, of False]
  have "updates st3 w (zval st u XOR zval st v) (set_SIZ w (int (MPN_NORMALIZE h (PTR st3 w) n)) (set_heap h st3))"
    using val by (simp add: with_sign_def)
  then have "updates st w (zval st u XOR zval st v) (set_SIZ w (int (MPN_NORMALIZE h (PTR st3 w) n)) (set_heap h st3))" by (rule O(8))
  then show ?thesis
    unfolding xor_minus_def Let_def un_def [symmetric] vn_def [symmetric] e1 e2 prod.case st3_def [symmetric] e3 .
qed

lemma xor_mixed_spec:
  assumes ok: "store_ok st" and l: "w \<in> live st" "u \<in> live st" "v \<in> live st" and s: "0 \<le> SIZ st u" "SIZ st v < 0"
  shows "updates st w (zval st u XOR zval st v) (xor_mixed w u v (ABSIZ st u) (ABSIZ st v) st)"
proof -
  define un vn where "un = ABSIZ st u" and "vn = ABSIZ st v"
  obtain vp st1 where e1: "minus_one (PTR st v) vn st = (vp, st1)" by fastforce
  define st2 where "st2 = MPZ_REALLOC w (max un vn + 1) st1"
  note O = one_minus_one [OF ok l s e1 [unfolded vn_def], where k = "max un vn + 1", folded st2_def, folded un_def vn_def]
  obtain n h where e2: "logic_long True (XOR) (PTR st2 w) (PTR st2 u) un vp vn (heap st2) = (n, h)" by fastforce
  have A: "max un vn \<le> ALLOC st2 w" using O(3) by (simp add: max_def split: if_splits)
  note L = limb_xor.long_result [OF _ _ O(4,5) e2 A, simplified]
  have n: "1 \<le> n" using L(1) negative_variable(3) [OF ok l(3) s(2)] by (simp add: vn_def)
  obtain k h' where e3: "plus_one (PTR st2 w) n h = (k, h')" by fastforce
  note P = plus_one_spec [OF n e3]
  have k: "k \<le> ALLOC st2 w" using P(2) O(3) L(1) by (cases "mval h (PTR st2 w) n + 1 = LB ^ n") auto
  have val: "- int (mval h' (PTR st2 w) k) = zval st u XOR zval st v"
    unfolding P(1) of_nat_plus_one_neg L(2) O(6,7) by (rule bit_eqI) (simp add: bit_xor_iff bit_not_iff)
  have "only_in (PTR st2 w) (ALLOC st2 w) (heap st2) h'"
    by (rule only_in_trans [where m' = h]; rule only_in_mono, rule L(3) P(3)) (use A L(1) k in auto)
  from normalized_result [OF O(1,2) this k, of True]
  have "updates st2 w (zval st u XOR zval st v) (set_SIZ w (- int (MPN_NORMALIZE h' (PTR st2 w) k)) (set_heap h' st2))"
    unfolding val [symmetric] by (simp add: with_sign_def)
  then have "updates st w (zval st u XOR zval st v) (set_SIZ w (- int (MPN_NORMALIZE h' (PTR st2 w) k)) (set_heap h' st2))" by (rule O(8))
  then show ?thesis
    unfolding xor_mixed_def Let_def un_def [symmetric] vn_def [symmetric] e1 prod.case st2_def [symmetric] e2 e3 .
qed

theorem mpz_xor_spec:
  assumes ok: "store_ok st" and l: "w \<in> live st" "u \<in> live st" "v \<in> live st"
  shows "updates st w (zval st u XOR zval st v) (mpz_xor w u v st)"
proof -
  note N = nonneg_variable(2) [OF ok] negative_variable(2) [OF ok]
  show ?thesis
    using xor_plus_spec [OF ok l] xor_minus_spec [OF ok l] xor_mixed_spec [OF ok l] xor_mixed_spec [OF ok l(1,3,2)] l N
    by (cases "0 \<le> SIZ st u"; cases "0 \<le> SIZ st v") (simp_all add: mpz_xor_def Let_def xor.commute)
qed

interpretation mpz_xor: mpz_binop mpz_xor "(XOR)"
  by unfold_locales (rule mpz_xor_spec)

section \<open>Complement\<close>

lemma mpz_com_spec:
  assumes ok: "store_ok st" and l: "w \<in> live st" "u \<in> live st"
  shows "updates st w (NOT (zval st u)) (mpz_com w u st)"
proof (cases "0 \<le> SIZ st u")
  case True
  define n st1 where "n = ABSIZ st u" and "st1 = MPZ_REALLOC w (n + 1) st"
  note U = operand_realloc [OF ok l, where n = "n + 1", folded st1_def, folded n_def]
  have N: "zval st u = int (mval (heap st1) (PTR st1 u) n)" "nat (SIZ st u) = n"
    using U(8) nonneg_variable [OF ok l(2) True] by (simp_all add: n_def)
  have lift: "updates st w (NOT (zval st u)) st'" if "updates st1 w (NOT (zval st u)) st'" for st'
    using updates_realloc [OF ok l(1), where n = "n + 1"] that by (simp add: st1_def)
  show ?thesis
  proof (cases "n = 0")
    case 0: True
    then have "NOT (zval st u) = - 1" using N(1) by simp
    then have "updates st1 w (NOT (zval st u)) (set_SIZ w (- 1) (set_heap ((heap st1)(PTR st1 w := 1)) st1))"
      using minus_one_result [OF U(1,2)] by simp
    from lift [OF this] show ?thesis using 0 True unfolding mpz_com_def Let_def N(2) st1_def [symmetric] by simp
  next
    case False
    obtain c h where e: "mpn_add_1 (PTR st1 w) (PTR st1 u) n 1 (heap st1) = (c, h)" by fastforce
    have sep: "MPN_SAME_OR_SEPARATE_P (PTR st1 w) (PTR st1 u) n" using U(4) by (intro incr_of_separate(3) U(9)) simp_all
    have n1: "1 \<le> n" using False by simp
    note S = mpn_add_1_spec [OF e n1 sep]
    have v: "mval h (PTR st1 w) n + LB ^ n * unat c = mval (heap st1) (PTR st1 u) n + 1" using S(1) by simp
    have "LB ^ (n - 1) \<le> mval (heap st1) (PTR st1 u) n"
      using limbs_needed [OF ok l(2)] False N(1) by (simp add: n_def)
    then have top: "n = 0 \<or> h (PTR st1 w + n - 1) \<noteq> 0" if "c = 0" using v that by (intro top_not_zero) simp
    have neg: "with_sign True (mval h (PTR st1 w) n + LB ^ n * unat c) = NOT (zval st u)"
      unfolding v N(1) of_nat_plus_one_neg [symmetric] by (simp add: with_sign_def)
    show ?thesis
    proof (cases "c = 0")
      case 0: True
      have "only_in (PTR st1 w) (ALLOC st1 w) (heap st1) h" by (rule only_in_mono [OF S(3)]) (use U(4) in auto)
      then have "updates st1 w (NOT (zval st u)) (set_SIZ w (- int n) (set_heap h st1))"
        using result_sized [OF U(1,2), of h n True] top [OF 0] U(4) 0 neg by (simp add: with_sign_def)
      from lift [OF this] show ?thesis
        using 0 False True unfolding mpz_com_def Let_def N(2) st1_def [symmetric] e by simp
    next
      case c: False
      have "updates st1 w (NOT (zval st u)) (set_SIZ w (with_sign True (n + of_bool (c \<noteq> 0))) (set_heap (h(PTR st1 w + n := c)) st1))"
        unfolding neg [symmetric] by (intro result_carry U S(3) top refl) (use U(4) in simp)
      then have "updates st1 w (NOT (zval st u)) (set_SIZ w (- int (n + 1)) (set_heap (h(PTR st1 w + n := c)) st1))"
        using c by (simp add: with_sign_def)
      from lift [OF this] show ?thesis
        using c False True unfolding mpz_com_def Let_def N(2) st1_def [symmetric] e by simp
    qed
  qed
next
  case False
  then have neg: "SIZ st u < 0" by simp
  define n st1 where "n = ABSIZ st u" and "st1 = MPZ_REALLOC w n st"
  note U = operand_realloc [OF ok l, where n = n, folded st1_def, folded n_def]
  note N = negative_variable [OF ok l(2) neg, folded n_def]
  obtain c h where e: "mpn_sub_1 (PTR st1 w) (PTR st1 u) n 1 (heap st1) = (c, h)" by fastforce
  have sep: "MPN_SAME_OR_SEPARATE_P (PTR st1 w) (PTR st1 u) n" using U(4) by (intro incr_of_separate(3) U(9)) simp_all
  note S = mpn_sub_1_spec [OF e N(3) sep]
  have A: "int (mval (heap st1) (PTR st1 u) n) = - zval st u" using U(8) N(1) by simp
  have "1 \<le> - zval st u" using full_take_bit(2) [OF ok l(2) neg] by simp
  then have "c = 0" using A by (intro no_borrow_le [OF S(1) _ mval_less]) simp
  then have v: "int (mval h (PTR st1 w) n) = - zval st u - 1" using S(1) A by simp
  have top: "int (LB ^ (n - 1)) \<le> - zval st u" using N(1,4) by simp
  define k where "k = n - of_bool (h (PTR st1 w + (n - 1)) = 0)"
  note K = less_one_top [OF v top N(3), folded k_def]
  have i: "only_in (PTR st1 w) (ALLOC st1 w) (heap st1) h" by (rule only_in_mono [OF S(3)]) (use U(4) in auto)
  have "updates st1 w (with_sign False (mval h (PTR st1 w) k)) (set_SIZ w (with_sign False k) (set_heap h st1))"
    by (rule result_sized [OF U(1,2) i]) (use K U(4) in auto)
  then have "updates st1 w (NOT (zval st u)) (set_SIZ w (int k) (set_heap h st1))"
    using v K(1) by (simp add: with_sign_def not_int_def)
  then have "updates st w (NOT (zval st u)) (set_SIZ w (int k) (set_heap h st1))"
    using updates_realloc [OF ok l(1), where n = n] by (simp add: st1_def)
  then show ?thesis using False unfolding mpz_com_def Let_def N(2) st1_def [symmetric] e prod.case k_def by simp
qed

interpretation mpz_com: mpz_unop mpz_com "NOT"
  by unfold_locales (rule mpz_com_spec)

end
