(* ===== verification/Mpz_Bit.thy ===== *)
theory Mpz_Bit
  imports Mpz_Ior
begin

text \<open>
  Single bits of variables, in two's complement: \<open>mpz/tstbit.c\<close>, \<open>setbit.c\<close> and \<open>clrbit.c\<close>.  The code works on the
  magnitude; a bit of a negative number is a bit of the complemented limb, or of the negated limb where only zero limbs
  are below it.
\<close>

unbundle bit_operations_syntax

section \<open>The functions\<close>

text \<open>Whether a limb below the given one is not zero, searched from the top.\<close>

fun nonzero_below :: "mem \<Rightarrow> ptr \<Rightarrow> nat \<Rightarrow> bool" where
  "nonzero_below m u_ptr 0 = False"
| "nonzero_below m u_ptr (Suc i) = (if m (u_ptr + i) \<noteq> 0 then True else nonzero_below m u_ptr i)"

definition mpz_tstbit :: "var \<Rightarrow> nat \<Rightarrow> state \<Rightarrow> nat" where
  "mpz_tstbit u bit_index st =
     (let u_ptr = PTR st u;
          size = SIZ st u;
          abs_size = nat \<bar>size\<bar>;
          limb_index = bit_index div 32
      in if limb_index \<ge> abs_size then of_bool (size < 0)
         else (let limb = heap st (u_ptr + limb_index);
                   limb = (if size < 0
                           then (let limb = - limb
                                 in if nonzero_below (heap st) u_ptr limb_index then limb - 1 else limb)
                           else limb)
               in unat (drop_bit (bit_index mod 32) limb AND 1)))"

text \<open>The lowest limb that is not zero; the loop has no bound.\<close>

partial_function (option) first_nonzero :: "ptr \<Rightarrow> nat \<Rightarrow> mem \<Rightarrow> nat option" where
  "first_nonzero dp i m = (if m (dp + i) \<noteq> 0 then Some i else first_nonzero dp (i + 1) m)"

text \<open>A bit above the number.\<close>

definition bit_outside :: "bool \<Rightarrow> var \<Rightarrow> nat \<Rightarrow> nat \<Rightarrow> state \<Rightarrow> state" where
  "bit_outside neg d bit_index dsize st =
     (let limb_index = bit_index div 32;
          st = MPZ_REALLOC d (limb_index + 1) st;
          dp = PTR st d;
          h = MPN_ZERO (dp + dsize) (limb_index - dsize) (heap st);
          h = h(dp + limb_index := push_bit (bit_index mod 32) 1)
      in set_SIZ d (if neg then - int (limb_index + 1) else int (limb_index + 1)) (set_heap h st))"

text \<open>A carry out of the limb that was changed, up to the end of the number or beyond it.\<close>

fun carry_limbs :: "nat \<Rightarrow> ptr \<Rightarrow> nat \<Rightarrow> mem \<Rightarrow> bool \<times> mem" where
  "carry_limbs 0 dp i m = (False, m)"
| "carry_limbs (Suc k) dp i m =
     (let m = m(dp + i := m (dp + i) + 1)
      in if m (dp + i) \<noteq> 0 then (True, m) else carry_limbs k dp (i + 1) m)"

definition bit_carry :: "var \<Rightarrow> nat \<Rightarrow> nat \<Rightarrow> state \<Rightarrow> state" where
  "bit_carry d limb_index dsize st =
     (let dp = PTR st d
      in if heap st (dp + limb_index) = 0
         then (let (fin, h) = carry_limbs (dsize - (limb_index + 1)) dp (limb_index + 1) (heap st);
                   st = set_heap h st
               in if fin then st
                  else (let st = MPZ_REALLOC d (dsize + 1) st;
                            h = (heap st)(PTR st d + dsize := 1)
                        in set_SIZ d (- int (dsize + 1)) (set_heap h st)))
         else st)"

definition mpz_setbit :: "var \<Rightarrow> nat \<Rightarrow> state \<Rightarrow> state option" where
  "mpz_setbit d bit_index st =
     (let dsize = SIZ st d;
          dp = PTR st d;
          limb_index = bit_index div 32;
          x = heap st (dp + limb_index)
      in if dsize \<ge> 0
         then (let dsize = nat dsize
               in if limb_index < dsize
                  then Some (set_SIZ d (int dsize) (set_heap ((heap st)(dp + limb_index := x OR push_bit (bit_index mod 32) 1)) st))
                  else Some (bit_outside False d bit_index dsize st))
         else (let dsize = nat (- dsize)
               in do {
                 zero_bound \<leftarrow> first_nonzero dp 0 (heap st);
                 if limb_index > zero_bound
                 then if limb_index < dsize
                      then (let h = (heap st)(dp + limb_index := x AND NOT (push_bit (bit_index mod 32) 1));
                                dsize = MPN_NORMALIZE h dp dsize
                            in Some (set_SIZ d (- int dsize) (set_heap h st)))
                      else Some st
                 else if limb_index = zero_bound
                 then Some (bit_carry d limb_index dsize
                        (set_heap ((heap st)(dp + limb_index := ((x - 1) AND NOT (push_bit (bit_index mod 32) 1)) + 1)) st))
                 else do {
                   h \<leftarrow> mpn_decr_u (dp + limb_index) (push_bit (bit_index mod 32) 1) (heap st);
                   let dsize = dsize - of_bool (h (dp + (dsize - 1)) = 0);
                   Some (set_SIZ d (- int dsize) (set_heap h st))
                 }
               }))"

definition mpz_clrbit :: "var \<Rightarrow> nat \<Rightarrow> state \<Rightarrow> state option" where
  "mpz_clrbit d bit_index st =
     (let dsize = SIZ st d;
          dp = PTR st d;
          limb_index = bit_index div 32;
          x = heap st (dp + limb_index)
      in if dsize \<ge> 0
         then (let dsize = nat dsize
               in if limb_index < dsize
                  then (let h = (heap st)(dp + limb_index := x AND NOT (push_bit (bit_index mod 32) 1));
                            dsize = MPN_NORMALIZE h dp dsize
                        in Some (set_SIZ d (int dsize) (set_heap h st)))
                  else Some st)
         else (let dsize = nat (- dsize)
               in do {
                 zero_bound \<leftarrow> first_nonzero dp 0 (heap st);
                 if limb_index > zero_bound
                 then if limb_index < dsize
                      then Some (set_heap ((heap st)(dp + limb_index := x OR push_bit (bit_index mod 32) 1)) st)
                      else Some (bit_outside True d bit_index dsize st)
                 else if limb_index = zero_bound
                 then Some (bit_carry d limb_index dsize
                        (set_heap ((heap st)(dp + limb_index := ((x - 1) OR push_bit (bit_index mod 32) 1) + 1)) st))
                 else Some st
               }))"

section \<open>Bits of limbs and of numbers\<close>

lemma nonzero_below_iff: "nonzero_below m p j \<longleftrightarrow> mval m p j \<noteq> 0"
  by (induction j) (auto simp: mval_eq_0_iff less_Suc_eq simp del: mval.simps)

lemma bit_limb_int: "i < 32 \<Longrightarrow> bit k i \<longleftrightarrow> bit (word_of_int k :: limb) i"
  by (simp add: bit_word_of_int_iff)

lemma bit_limbs: "bit (k :: int) (32 * j + i) \<longleftrightarrow> bit (k div int (LB ^ j)) i"
proof -
  have "k div int (LB ^ j) = drop_bit (32 * j) k" by (simp add: drop_bit_eq_div LB_power power_mult)
  then show ?thesis by (simp add: bit_drop_bit_eq)
qed

text \<open>The number above and below a limb.\<close>

lemma mval_around:
  assumes "j < n"
  shows "mval m p n = mval m p j + LB ^ j * (unat (m (p + j)) + LB * mval m (p + j + 1) (n - j - 1))"
proof -
  have "mval m p n = mval m p j + LB ^ j * mval m (p + j) (n - j)" by (rule mval_split) (use assms in simp)
  moreover have "n - j = Suc (n - j - 1)" using assms by simp
  ultimately show ?thesis by (metis Suc_eq_plus1 mval.simps(2))
qed

lemma bit_positive:
  assumes "j < n" "i < 32"
  shows "bit (int (mval m p n)) (32 * j + i) \<longleftrightarrow> bit (m (p + j)) i"
  using assms by (simp add: bit_of_nat_iff_bit bit_mval)

lemma bit_negative:
  assumes "j < n" "i < 32"
  shows "bit (- int (mval m p n)) (32 * j + i) \<longleftrightarrow> bit (if mval m p j \<noteq> 0 then - m (p + j) - 1 else - m (p + j)) i"
proof -
  define L P Q where "L = int (mval m p j)" and "P = int (LB ^ j)" and "Q = int (unat (m (p + j))) + int LB * int (mval m (p + j + 1) (n - j - 1))"
  have e: "- int (mval m p n) = - L + P * (- Q)" unfolding mval_around [OF assms(1)] by (simp add: L_def P_def Q_def algebra_simps)
  have L: "0 \<le> L" "L < P" unfolding L_def P_def using mval_less [of m p j] by (simp_all only: of_nat_less_iff)
  have P: "0 < P" by (simp add: P_def)
  have w: "word_of_int Q = m (p + j)"
  proof -
    have "word_of_int (int LB) = (0 :: limb)" by (simp add: LB_def word_of_int_eq_0_iff)
    then show ?thesis unfolding Q_def by simp
  qed
  have "(- L + P * (- Q)) div P = - Q + (- L) div P" using P by (intro div_mult_self2) simp
  moreover have "(- L) div P = (if L = 0 then 0 else - 1)"
  proof (cases "L = 0")
    case False
    then have "(- L) div P = - 1" using L by (intro int_div_pos_eq [where r = "P - L"]) simp_all
    then show ?thesis using False by simp
  qed simp
  ultimately have d: "(- int (mval m p n)) div P = (if L = 0 then - Q else - Q - 1)" unfolding e by simp
  have "bit (- int (mval m p n)) (32 * j + i) \<longleftrightarrow> bit (if L = 0 then - Q else - Q - 1) i"
    unfolding bit_limbs P_def [symmetric] d ..
  then show ?thesis unfolding bit_limb_int [OF assms(2)] by (simp add: w L_def)
qed

lemma bit_negative_above:
  assumes "0 < mval m p n" "n \<le> j"
  shows "bit (- int (mval m p n)) (32 * j + i)"
proof -
  define A where "A = int (mval m p n) - 1"
  have "mval m p n < LB ^ n" by (rule mval_less)
  also have "LB ^ n = 2 ^ (32 * n)" by (simp add: LB_power power_mult)
  also have "\<dots> \<le> (2 :: nat) ^ (32 * j + i)" using assms(2) by (intro power_increasing) auto
  finally have "mval m p n < 2 ^ (32 * j + i)" .
  then have "int (mval m p n) < int (2 ^ (32 * j + i))" by (simp only: of_nat_less_iff)
  then have "int (mval m p n) < 2 ^ (32 * j + i)" unfolding of_nat_power of_nat_numeral .
  then have "A < 2 ^ (32 * j + i)" unfolding A_def by linarith
  moreover have "0 \<le> A" using assms(1) by (simp add: A_def)
  ultimately have "take_bit (32 * j + i) A = A" by (intro take_bit_int_eq_self)
  then have "\<not> bit A (32 * j + i)" by (metis bit_take_bit_iff less_irrefl)
  then show ?thesis by (simp add: bit_minus_iff A_def)
qed

section \<open>Reading a bit\<close>

lemma bit_index_split: "32 * (i div 32) + i mod 32 = (i :: nat)"
  by simp

theorem mpz_tstbit_spec:
  assumes ok: "store_ok st" and u: "u \<in> live st"
  shows "mpz_tstbit u i st = of_bool (bit (zval st u) i)"
proof -
  define n m p j where "n = ABSIZ st u" and "m = heap st" and "p = PTR st u" and "j = i div 32"
  have i: "i = 32 * j + i mod 32" "i mod 32 < 32" by (simp_all add: j_def)
  have s: "nat \<bar>SIZ st u\<bar> = n" by (simp add: n_def ABSIZ_SIZ)
  have b1: "unat (drop_bit (i mod 32) x AND 1) = of_bool (bit x (i mod 32))" for x :: limb
    by (simp add: and_one_eq mod2_eq_if bit_iff_odd_drop_bit)
  show ?thesis
  proof (cases "j < n")
    case True
    show ?thesis
    proof (cases "SIZ st u < 0")
      case neg: True
      have "zval st u = - int (mval m p n)" using negative_variable(1) [OF ok u neg] by (simp add: m_def p_def n_def)
      then have "bit (zval st u) i \<longleftrightarrow> bit (if mval m p j \<noteq> 0 then - m (p + j) - 1 else - m (p + j)) (i mod 32)"
        by (subst i(1)) (simp only: bit_negative [OF True i(2)])
      then show ?thesis
        unfolding mpz_tstbit_def Let_def s j_def [symmetric] p_def [symmetric] m_def [symmetric] b1 nonzero_below_iff using neg True by simp
    next
      case False
      then have "zval st u = int (mval m p n)" using nonneg_variable(1) [OF ok u] by (simp add: m_def p_def n_def)
      then have "bit (zval st u) i \<longleftrightarrow> bit (m (p + j)) (i mod 32)" by (subst i(1)) (simp only: bit_positive [OF True i(2)])
      then show ?thesis
        unfolding mpz_tstbit_def Let_def s j_def [symmetric] p_def [symmetric] m_def [symmetric] b1 using False True by simp
    qed
  next
    case False
    then have nj: "n \<le> j" by simp
    have "bit (zval st u) i \<longleftrightarrow> SIZ st u < 0"
    proof (cases "SIZ st u < 0")
      case True
      note N = negative_variable [OF ok u True, folded n_def m_def p_def]
      have "0 < mval m p n" using order_trans [OF LB_pow_ge N(4)] by simp
      then show ?thesis using True N(1) bit_negative_above [OF _ nj, of m p "i mod 32"] i(1) by simp
    next
      case False
      then have "zval st u = int (mval m p n)" using nonneg_variable(1) [OF ok u] by (simp add: m_def p_def n_def)
      moreover have "\<not> i < 32 * n" using nj i(1) by linarith
      ultimately show ?thesis using False by (simp add: bit_of_nat_iff_bit bit_mval)
    qed
    then show ?thesis unfolding mpz_tstbit_def Let_def s j_def [symmetric] using nj by simp
  qed
qed

section \<open>Changing a limb\<close>

lemma mval_update:
  assumes "j < n"
  shows "int (mval (m(p + j := x)) p n) = int (mval m p n) + int (LB ^ j) * (int (unat x) - int (unat (m (p + j))))"
proof -
  have "mval (m(p + j := x)) p j = mval m p j" "mval (m(p + j := x)) (p + j + 1) (n - j - 1) = mval m (p + j + 1) (n - j - 1)" by simp_all
  then show ?thesis unfolding mval_around [OF assms] by (simp add: algebra_simps del: mval.simps)
qed

lemma unat_one_bit: "b < 32 \<Longrightarrow> unat (push_bit b 1 :: limb) = 2 ^ b"
proof -
  assume b: "b < 32"
  then have "1 < (2 :: nat) ^ (32 - b)" by (intro one_less_power) simp_all
  then show ?thesis using unat_push_limb [of b 1] b by (simp del: push_bit_of_1)
qed

lemma two_power_bit: "int (LB ^ (i div 32)) * 2 ^ (i mod 32) = 2 ^ i"
  using two_power_limbs [of i] by (metis of_nat_mult of_nat_power of_nat_numeral)

lemma or_bit_value:
  assumes "b < 32"
  shows "int (unat (x OR push_bit b 1 :: limb)) = int (unat x) + of_bool (\<not> bit x b) * 2 ^ b"
proof -
  have "unat (x OR push_bit b 1) = set_bit b (unat x)"
    using assms by (intro bit_eqI) (auto simp: bit_limb bit_or_iff bit_push_bit_iff bit_set_bit_iff bit_exp_iff)
  then show ?thesis by (simp add: set_bit_eq bit_limb of_nat_set_bit_eq)
qed

lemma andn_bit_value:
  assumes "b < 32"
  shows "int (unat (x AND NOT (push_bit b 1) :: limb)) = int (unat x) - of_bool (bit x b) * 2 ^ b"
proof -
  have "int (unat (x AND NOT (push_bit b 1))) = unset_bit b (int (unat x))"
    using assms by (intro bit_eqI) (auto simp: bit_of_nat_iff_bit bit_limb bit_and_iff bit_not_iff bit_push_bit_iff bit_unset_bit_iff bit_exp_iff dest: bit_limb_bound simp del: of_nat_unat)
  then show ?thesis using assms by (simp add: unset_bit_eq bit_uint_iff)
qed

section \<open>Results\<close>

lemma last_limb: "SIZ st x \<noteq> 0 \<Longrightarrow> p + ABSIZ st x - 1 = p + (ABSIZ st x - 1)"
  using ABSIZ_pos_iff [of st x] by linarith

lemma set_SIZ_same [simp]: "set_SIZ x (SIZ st x) st = st"
  by (simp add: set_SIZ_def SIZ_def)

text \<open>Only a limb of \<open>d\<close> was changed.\<close>

lemma only_in_limb: "store_ok st \<Longrightarrow> d \<in> live st \<Longrightarrow> j < ABSIZ st d \<Longrightarrow> only_in (PTR st d) (ALLOC st d) (heap st) ((heap st)(PTR st d + j := x))"
  using ABSIZ_le_ALLOC [of st d] by (intro only_in_upd) auto

text \<open>A larger block for \<open>d\<close> whose limbs were changed before: the size that is set at the end does not matter before.\<close>

lemma extend_result:
  fixes N :: nat
  assumes ok: "store_ok st" and d: "d \<in> live st" and h: "only_in (PTR st d) (ALLOC st d) (heap st) h"
  defines "st1 \<equiv> MPZ_REALLOC d N (set_heap h st)"
  shows "\<And>i. i < ALLOC st d \<Longrightarrow> heap st1 (PTR st1 d + i) = h (PTR st d + i)" and "N \<le> ALLOC st1 d"
    and "only_in (PTR st1 d) (ALLOC st1 d) (heap st1) h1 \<Longrightarrow> N = 0 \<or> h1 (PTR st1 d + (N - 1)) \<noteq> 0 \<Longrightarrow>
      updates st d (with_sign neg (mval h1 (PTR st1 d) N)) (set_SIZ d (with_sign neg N) (set_heap h1 st1))"
proof -
  define st0 st2 where "st0 = set_SIZ d 0 (set_heap h st)" and "st2 = MPZ_REALLOC d N st0"
  have z: "updates st d 0 st0" using result_sized [OF ok d h, of 0 False] by (simp add: st0_def with_sign_def)
  note Z = updatesD [OF z]
  have d0: "d \<in> live st0" using Z(2) d by simp
  note R = MPZ_REALLOC_spec [OF Z(1) d0, where n = N, folded st2_def]
  have same: "heap st2 = heap st1" "PTR st2 d = PTR st1 d" "ALLOC st2 d = ALLOC st1 d" "set_SIZ d s (set_heap g st2) = set_SIZ d s (set_heap g st1)" for s g
    by (auto simp: st1_def st2_def st0_def MPZ_REALLOC_def mpz_realloc_def REALLOCATE_FUNC_LIMBS_def Let_def set_SIZ_def set_heap_def PTR_def ALLOC_def ABSIZ_def)
  show "heap st1 (PTR st1 d + i) = h (PTR st d + i)" if "i < ALLOC st d" for i
    using that by (auto simp: st1_def MPZ_REALLOC_def mpz_realloc_struct)
  show "N \<le> ALLOC st1 d" using R(3) same by simp
  show "updates st d (with_sign neg (mval h1 (PTR st1 d) N)) (set_SIZ d (with_sign neg N) (set_heap h1 st1))"
    if "only_in (PTR st1 d) (ALLOC st1 d) (heap st1) h1" "N = 0 \<or> h1 (PTR st1 d + (N - 1)) \<noteq> 0"
  proof -
    have "d \<in> live st2" using d0 R(2) by simp
    moreover have "N = 0 \<or> h1 (PTR st1 d + N - 1) \<noteq> 0" using that(2) by (cases N) auto
    ultimately have "updates st2 d (with_sign neg (mval h1 (PTR st2 d) N)) (set_SIZ d (with_sign neg N) (set_heap h1 st2))"
      using that(1) result_sized [OF R(1) _ _ R(3), of h1 neg] by (simp add: same)
    then have "updates st0 d (with_sign neg (mval h1 (PTR st2 d) N)) (set_SIZ d (with_sign neg N) (set_heap h1 st2))"
      using updates_realloc [OF Z(1) d0, where n = N] by (simp add: st2_def)
    from updates_trans [OF z this] show ?thesis by (simp only: same)
  qed
qed

lemma bit_outside_spec:
  assumes ok: "store_ok st" and d: "d \<in> live st" and j: "ABSIZ st d \<le> i div 32"
  shows "updates st d (with_sign neg (mval (heap st) (PTR st d) (ABSIZ st d) + 2 ^ i)) (bit_outside neg d i (ABSIZ st d) st)"
proof -
  define n J st1 where "n = ABSIZ st d" and "J = i div 32" and "st1 = MPZ_REALLOC d (J + 1) st"
  note E = extend_result [OF ok d only_in_refl, where N = "J + 1", unfolded set_heap_same, folded st1_def]
  have nJ: "n \<le> J" "n \<le> ALLOC st d" using j ABSIZ_le_ALLOC [OF ok d] by (simp_all add: n_def J_def)
  define p g h where "p = PTR st1 d" and "g = MPN_ZERO (p + n) (J - n) (heap st1)" and "h = g(p + J := push_bit (i mod 32) 1)"
  have b: "unat (push_bit (i mod 32) 1 :: limb) = 2 ^ (i mod 32)" by (rule unat_one_bit) simp
  have "mval h p (J + 1) = mval g p J + LB ^ J * 2 ^ (i mod 32)"
    using b by (simp add: h_def mval_high del: mval.simps push_bit_of_1)
  moreover have "mval g p J = mval (heap st) (PTR st d) n"
  proof -
    have "mval g p J = mval g p n + LB ^ n * mval g (p + n) (J - n)" by (rule mval_split) (use nJ in simp)
    moreover have "mval g p n = mval (heap st) (PTR st d) n"
      using nJ E(1) by (intro mval_cong) (simp add: g_def MPN_ZERO_spec p_def)
    ultimately show ?thesis by (simp add: g_def)
  qed
  moreover have "LB ^ J * 2 ^ (i mod 32) = 2 ^ i" using two_power_limbs [of i] by (simp add: J_def)
  ultimately have v: "mval h p (J + 1) = mval (heap st) (PTR st d) n + 2 ^ i" by simp
  have "only_in p (ALLOC st1 d) (heap st1) h"
    unfolding h_def g_def MPN_ZERO_spec by (rule only_inI) (use E(2) nJ in auto)
  moreover have "h (p + J) \<noteq> 0" using b by (auto simp: h_def simp del: push_bit_of_1 dest: arg_cong [where f = unat])
  ultimately have "updates st d (with_sign neg (mval h p (J + 1))) (set_SIZ d (with_sign neg (J + 1)) (set_heap h st1))"
    using E(3) [of h neg] by (simp add: p_def)
  then show ?thesis
    unfolding v with_sign_def bit_outside_def Let_def J_def [symmetric] st1_def [symmetric] p_def [symmetric] n_def [symmetric]
      g_def [symmetric] h_def [symmetric] .
qed

text \<open>The carry out of a limb of the magnitude.\<close>

lemma carry_limbs_spec:
  assumes "carry_limbs k p i m = (fin, h)"
  shows "mval h (p + i) k + LB ^ k * of_bool (\<not> fin) = mval m (p + i) k + 1" "only_in (p + i) k m h"
    and "fin \<Longrightarrow> k \<noteq> 0 \<Longrightarrow> m (p + i + (k - 1)) \<noteq> 0 \<Longrightarrow> h (p + i + (k - 1)) \<noteq> 0"
proof -
  have "mval h (p + i) k + LB ^ k * of_bool (\<not> fin) = mval m (p + i) k + 1 \<and> only_in (p + i) k m h
    \<and> (fin \<and> k \<noteq> 0 \<and> m (p + i + (k - 1)) \<noteq> 0 \<longrightarrow> h (p + i + (k - 1)) \<noteq> 0)"
    using assms
  proof (induction k arbitrary: i m)
    case (Suc k)
    define m1 where "m1 = m(p + i := m (p + i) + 1)"
    have l: "unat (m (p + i) + 1) + LB * of_bool (m (p + i) + 1 = 0) = unat (m (p + i)) + 1"
      using add_carry' [of "m (p + i)" 1] by (simp add: word_less_1)
    show ?case
    proof (cases "m (p + i) + 1 = 0")
      case False
      then have r: "fin = True" "h = m1" using Suc.prems by (simp_all add: m1_def)
      have "mval h (p + i) (Suc k) = mval m (p + i) (Suc k) + 1" using l False unfolding r m1_def by simp
      moreover have "only_in (p + i) (Suc k) m h" unfolding r m1_def by (rule only_in_upd) auto
      moreover have "h (p + i + k) \<noteq> 0" if "m (p + i + k) \<noteq> 0" using that False unfolding r m1_def by simp
      ultimately show ?thesis using r by simp
    next
      case True
      then have "carry_limbs k p (i + 1) m1 = (fin, h)" using Suc.prems by (simp add: m1_def)
      note IH = Suc.IH [OF this]
      have a: "p + (i + 1) = p + i + 1" by simp
      have i1: "only_in (p + i + 1) k m1 h" using IH unfolding a by blast
      have e: "mval m1 (p + i + 1) k = mval m (p + i + 1) k" by (simp add: m1_def)
      have "h (p + i) = 0" using only_inD [OF i1, of "p + i"] True by (simp add: m1_def)
      then have "mval h (p + i) (Suc k) + LB ^ Suc k * of_bool (\<not> fin) = LB * (mval h (p + i + 1) k + LB ^ k * of_bool (\<not> fin))" by (simp add: algebra_simps)
      also have "\<dots> = LB * (mval m (p + i + 1) k + 1)" using IH e unfolding a by simp
      also have "\<dots> = mval m (p + i) (Suc k) + 1" using l True by (simp add: algebra_simps)
      finally have v: "mval h (p + i) (Suc k) + LB ^ Suc k * of_bool (\<not> fin) = mval m (p + i) (Suc k) + 1" .
      have "only_in (p + i) (Suc k) m h" using i1 unfolding m1_def by (auto simp: only_in_def)
      moreover have "h (p + i + k) \<noteq> 0" if "fin" "m (p + i + k) \<noteq> 0"
      proof (cases k)
        case 0
        then show ?thesis using v that(1) IH by simp
      next
        case (Suc j)
        then have "m1 (p + i + 1 + (k - 1)) \<noteq> 0" using that(2) by (simp add: m1_def)
        then have "h (p + i + 1 + (k - 1)) \<noteq> 0" using IH that(1) Suc unfolding a by simp
        then show ?thesis using Suc by simp
      qed
      ultimately show ?thesis using v by simp
    qed
  qed simp
  then show "mval h (p + i) k + LB ^ k * of_bool (\<not> fin) = mval m (p + i) k + 1" "only_in (p + i) k m h"
    "fin \<Longrightarrow> k \<noteq> 0 \<Longrightarrow> m (p + i + (k - 1)) \<noteq> 0 \<Longrightarrow> h (p + i + (k - 1)) \<noteq> 0" by blast+
qed

text \<open>The limbs of \<open>d\<close> were changed and its size is kept.\<close>

lemma same_size_result:
  assumes ok: "store_ok st" and d: "d \<in> live st" and h: "only_in (PTR st d) (ALLOC st d) (heap st) h"
    and top: "SIZ st d \<noteq> 0 \<Longrightarrow> h (PTR st d + (ABSIZ st d - 1)) \<noteq> 0"
  shows "updates st d (with_sign (SIZ st d < 0) (mval h (PTR st d) (ABSIZ st d))) (set_heap h st)"
proof -
  have "ABSIZ st d = 0 \<or> h (PTR st d + ABSIZ st d - 1) \<noteq> 0"
  proof (cases "SIZ st d = 0")
    case False
    then show ?thesis using top last_limb [OF False] by simp
  qed simp
  note R = result_sized [OF ok d h ABSIZ_le_ALLOC [OF ok d] this, of "SIZ st d < 0"]
  have "with_sign (SIZ st d < 0) (ABSIZ st d) = SIZ (set_heap h st) d" by (simp add: with_sign_def ABSIZ_SIZ)
  then show ?thesis using R by (simp only: set_SIZ_same)
qed

lemma bit_carry_spec:
  fixes x :: limb
  assumes ok: "store_ok st" and d: "d \<in> live st" "SIZ st d < 0" and j: "j < ABSIZ st d"
  defines "h0 \<equiv> (heap st)(PTR st d + j := x)"
  shows "updates st d (- (int (mval h0 (PTR st d) (ABSIZ st d)) + of_bool (x = 0) * int (LB ^ (j + 1)))) (bit_carry d j (ABSIZ st d) (set_heap h0 st))"
proof -
  define n p where "n = ABSIZ st d" and "p = PTR st d"
  have top: "heap st (p + (n - 1)) \<noteq> 0"
    using wf_ok [OF ok d(1)] d(2) negative_variable(3) [OF ok d] by (simp add: mpz_ok_def p_def n_def)
  have n: "n \<le> ALLOC st d" "j < n" "p = PTR st d" using ABSIZ_le_ALLOC [OF ok d(1)] j by (simp_all add: n_def p_def)
  note S = same_size_result [OF ok d(1), folded p_def n_def]
  have i0: "only_in p (ALLOC st d) (heap st) h0" unfolding h0_def p_def by (rule only_in_limb [OF ok d(1) j])
  show ?thesis
  proof (cases "x = 0")
    case False
    then have "h0 (p + (n - 1)) \<noteq> 0" using top unfolding h0_def p_def by simp
    then show ?thesis using S [OF i0] d(2) False by (simp add: bit_carry_def Let_def h0_def p_def n_def with_sign_def)
  next
    case True
    obtain fin h where e: "carry_limbs (n - (j + 1)) p (j + 1) h0 = (fin, h)" by fastforce
    note C = carry_limbs_spec [OF e]
    have a: "p + (j + 1) = p + j + 1" by simp
    have i1: "only_in p (ALLOC st d) (heap st) h"
      by (rule only_in_trans [OF i0 only_in_mono [OF C(2)]]) (use n in auto)
    have "n = (j + 1) + (n - (j + 1))" using n(2) by simp
    then have sp: "mval g p n = mval g p (j + 1) + LB ^ (j + 1) * mval g (p + (j + 1)) (n - (j + 1))" for g
      using mval_add [of g p "j + 1" "n - (j + 1)"] by simp
    have low: "mval h p (j + 1) = mval h0 p (j + 1)" by (rule only_in_mval [OF C(2)]) simp
    have P: "LB ^ (j + 1) * LB ^ (n - (j + 1)) = LB ^ n" using n(2) unfolding power_add [symmetric] by simp
    have v: "mval h p n + LB ^ n * of_bool (\<not> fin) = mval h0 p n + LB ^ (j + 1)"
    proof -
      have "mval h p n + LB ^ n * of_bool (\<not> fin)
          = mval h p (j + 1) + LB ^ (j + 1) * (mval h (p + (j + 1)) (n - (j + 1)) + LB ^ (n - (j + 1)) * of_bool (\<not> fin))"
        unfolding sp P [symmetric] by (simp only: distrib_left ac_simps)
      also have "\<dots> = mval h0 p n + LB ^ (j + 1)" unfolding C(1) low sp [of h0] by (simp only: distrib_left mult_1_right ac_simps)
      finally show ?thesis .
    qed
    have x0: "h0 (p + j) = 0" using True by (simp add: h0_def p_def)
    show ?thesis
    proof (cases fin)
      case fin: True
      then have k0: "n - (j + 1) \<noteq> 0" using e by (cases "n - (j + 1)") auto
      then have idx: "p + (j + 1) + (n - (j + 1) - 1) = p + (n - 1)" and nj: "n - 1 \<noteq> j" by simp_all
      have "h0 (p + (n - 1)) \<noteq> 0" using top nj by (simp add: h0_def p_def)
      then have "h (p + (n - 1)) \<noteq> 0" using C(3) [OF fin k0] unfolding idx by blast
      from S [OF i1 this] have "updates st d (- int (mval h p n)) (set_heap h st)" using d(2) by (simp add: with_sign_def)
      moreover have "mval h p n = mval h0 p n + LB ^ (j + 1)" using v fin by simp
      moreover have "bit_carry d j n (set_heap h0 st) = set_heap h st"
        unfolding bit_carry_def Let_def using e x0 fin by (simp add: p_def set_heap_twice)
      ultimately show ?thesis using True by (simp add: n_def p_def)
    next
      case nofin: False
      define st1 where "st1 = MPZ_REALLOC d (n + 1) (set_heap h st)"
      note E = extend_result [OF ok d(1) i1 [unfolded p_def], where N = "n + 1", folded st1_def]
      define h1 where "h1 = (heap st1)(PTR st1 d + n := 1)"
      have "mval h1 (PTR st1 d) (n + 1) = mval (heap st1) (PTR st1 d) n + LB ^ n" by (simp add: h1_def mval_high del: mval.simps)
      moreover have "mval (heap st1) (PTR st1 d) n = mval h p n" using E(1) n by (intro mval_cong) simp
      ultimately have v1: "mval h1 (PTR st1 d) (n + 1) = mval h0 p n + LB ^ (j + 1)" using v nofin by simp
      have "only_in (PTR st1 d) (ALLOC st1 d) (heap st1) h1" unfolding h1_def by (rule only_in_upd) (use E(2) in auto)
      from E(3) [OF this, of True] have "updates st d (- int (mval h0 p n + LB ^ (j + 1))) (set_SIZ d (- int (n + 1)) (set_heap h1 st1))"
        unfolding v1 by (simp add: h1_def with_sign_def)
      moreover have "bit_carry d j n (set_heap h0 st) = set_SIZ d (- int (n + 1)) (set_heap h1 st1)"
        unfolding bit_carry_def Let_def using e x0 nofin by (simp add: p_def h1_def st1_def set_heap_twice)
      ultimately show ?thesis using True by (simp add: n_def p_def)
    qed
  qed
qed

section \<open>Setting and clearing\<close>

lemma first_nonzero_from:
  assumes "i \<le> k" "k < n" "m (p + k) \<noteq> 0"
  shows "\<exists>z. first_nonzero p i m = Some z \<and> i \<le> z \<and> z < n \<and> m (p + z) \<noteq> 0 \<and> (\<forall>j < z. i \<le> j \<longrightarrow> m (p + j) = 0)"
  using assms
proof (induction "k - i" arbitrary: i)
  case 0
  then show ?case by (subst first_nonzero.simps) auto
next
  case (Suc d)
  show ?case
  proof (cases "m (p + i) = 0")
    case True
    then have "i + 1 \<le> k" using Suc.prems by (cases "i = k") auto
    moreover have "d = k - (i + 1)" using Suc.hyps(2) by simp
    ultimately obtain z where "first_nonzero p (i + 1) m = Some z" "i + 1 \<le> z" "z < n" "m (p + z) \<noteq> 0" "\<forall>j < z. i + 1 \<le> j \<longrightarrow> m (p + j) = 0"
      using Suc.hyps(1) [of "i + 1"] Suc.prems by blast
    moreover have "first_nonzero p i m = first_nonzero p (i + 1) m" using True by (subst first_nonzero.simps) simp
    ultimately show ?thesis using True by (auto simp: le_eq_less_or_eq Suc_le_eq)
  next
    case False
    then have "first_nonzero p i m = Some i" by (subst first_nonzero.simps) simp
    then show ?thesis using Suc.prems False by auto
  qed
qed

lemma first_nonzero_spec:
  assumes "mval m p n \<noteq> 0"
  shows "\<exists>z. first_nonzero p 0 m = Some z \<and> z < n \<and> m (p + z) \<noteq> 0 \<and> mval m p z = 0"
proof -
  obtain k where "k < n" "m (p + k) \<noteq> 0" using assms by (auto simp: mval_eq_0_iff)
  then obtain z where "first_nonzero p 0 m = Some z" "z < n" "m (p + z) \<noteq> 0" "\<forall>j < z. m (p + j) = 0"
    using first_nonzero_from [of 0 k n m p] by auto
  then show ?thesis by (auto simp: mval_eq_0_iff)
qed

text \<open>Below, at and above the lowest limb that is not zero of a negative number.\<close>

lemma bit_of_negative:
  assumes z: "mval m p z = 0" "m (p + z) \<noteq> 0" "z < n" and b: "b < 32"
  shows "j < z \<Longrightarrow> \<not> bit (- int (mval m p n)) (32 * j + b)"
    and "bit (- int (mval m p n)) (32 * z + b) \<longleftrightarrow> \<not> bit (m (p + z) - 1) b"
    and "z < j \<Longrightarrow> j < n \<Longrightarrow> bit (- int (mval m p n)) (32 * j + b) \<longleftrightarrow> \<not> bit (m (p + j)) b"
    and "n \<le> j \<Longrightarrow> bit (- int (mval m p n)) (32 * j + b)"
proof -
  have neg: "- x - 1 = NOT x" "- x = NOT (x - 1)" for x :: limb by (simp_all only: not_eq_complement minus_eq_not_minus_1 [of x])
  show "\<not> bit (- int (mval m p n)) (32 * j + b)" if "j < z"
  proof -
    have "mval m p j = 0" "m (p + j) = 0" using z(1) that by (auto simp: mval_eq_0_iff)
    then show ?thesis using bit_negative [of j n b m p] that z(3) b by simp
  qed
  show "bit (- int (mval m p n)) (32 * z + b) \<longleftrightarrow> \<not> bit (m (p + z) - 1) b"
    using bit_negative [OF z(3) b] z(1) neg(2) [of "m (p + z)"] b by (simp add: bit_not_iff)
  show "bit (- int (mval m p n)) (32 * j + b) \<longleftrightarrow> \<not> bit (m (p + j)) b" if "z < j" "j < n"
  proof -
    have "mval m p j \<noteq> 0" using z(2) that by (auto simp: mval_eq_0_iff)
    then show ?thesis using bit_negative [OF that(2) b] neg(1) [of "m (p + j)"] b by (simp add: bit_not_iff)
  qed
  show "bit (- int (mval m p n)) (32 * j + b)" if "n \<le> j"
  proof (rule bit_negative_above [OF _ that])
    have "mval m p n \<noteq> 0" using z(2,3) by (auto simp: mval_eq_0_iff)
    then show "0 < mval m p n" by simp
  qed
qed

lemma limb_step:
  assumes "i div 32 < n" "int (unat x) = int (unat (m (p + i div 32))) + s * 2 ^ (i mod 32)"
  shows "int (mval (m(p + i div 32 := x)) p n) = int (mval m p n) + s * 2 ^ i"
  unfolding mval_update [OF assms(1)] assms(2) two_power_bit [symmetric, of i] by (simp add: algebra_simps)

lemma carry_limb: "int (unat (y + 1 :: limb)) + int LB * of_bool (y + 1 = 0) = int (unat y) + 1"
proof -
  have "unat (y + 1) + LB * of_bool (y + 1 < 1) = unat y + 1" using add_carry' [of y 1] by simp
  then have "int (unat (y + 1) + LB * of_bool (y + 1 < 1)) = int (unat y + 1)" by (simp only:)
  then show ?thesis by (simp add: word_less_1)
qed

text \<open>The carry of a limb \<open>y + 1\<close> in place of a limb \<open>x\<close>, in numbers.\<close>

lemma bit_carry_value:
  assumes ok: "store_ok st" and d: "d \<in> live st" "SIZ st d < 0" and j: "i div 32 < ABSIZ st d"
    and y: "int (unat (y :: limb)) + 1 = int (unat (heap st (PTR st d + i div 32))) + s * 2 ^ (i mod 32)"
  shows "updates st d (zval st d - s * 2 ^ i)
    (bit_carry d (i div 32) (ABSIZ st d) (set_heap ((heap st)(PTR st d + i div 32 := y + 1)) st))"
proof -
  define J where "J = i div 32"
  have "int (mval ((heap st)(PTR st d + J := y + 1)) (PTR st d) (ABSIZ st d)) + of_bool (y + 1 = 0) * int (LB ^ (J + 1))
    = int (mval (heap st) (PTR st d) (ABSIZ st d)) + int (LB ^ J) * ((int (unat (y + 1)) + int LB * of_bool (y + 1 = 0)) - int (unat (heap st (PTR st d + J))))"
    unfolding mval_update [OF j [folded J_def]] by (simp add: algebra_simps)
  also have "\<dots> = int (mval (heap st) (PTR st d) (ABSIZ st d)) + int (LB ^ J) * (s * 2 ^ (i mod 32))"
    unfolding carry_limb y [folded J_def] by simp
  also have "\<dots> = - (zval st d - s * 2 ^ i)"
    unfolding negative_variable(1) [OF ok d] two_power_bit [symmetric, of i] J_def by (simp add: algebra_simps)
  finally show ?thesis using bit_carry_spec [OF ok d j, where x = "y + 1"] unfolding J_def by simp
qed

text \<open>A variable whose limbs were replaced by those of a number that is not smaller, or of any number and normalized.\<close>

lemma replace_limbs:
  assumes ok: "store_ok st" and d: "d \<in> live st" and h: "only_in (PTR st d) (ALLOC st d) (heap st) h"
  shows "mval (heap st) (PTR st d) (ABSIZ st d) \<le> mval h (PTR st d) (ABSIZ st d) \<Longrightarrow>
      updates st d (with_sign (SIZ st d < 0) (mval h (PTR st d) (ABSIZ st d))) (set_heap h st)"
    and "updates st d (with_sign neg (mval h (PTR st d) (ABSIZ st d)))
      (set_SIZ d (with_sign neg (MPN_NORMALIZE h (PTR st d) (ABSIZ st d))) (set_heap h st))"
proof -
  show "updates st d (with_sign (SIZ st d < 0) (mval h (PTR st d) (ABSIZ st d))) (set_heap h st)"
    if le: "mval (heap st) (PTR st d) (ABSIZ st d) \<le> mval h (PTR st d) (ABSIZ st d)"
  proof (rule same_size_result [OF ok d h])
    assume s: "SIZ st d \<noteq> 0"
    have "LB ^ (ABSIZ st d - 1) \<le> mval h (PTR st d) (ABSIZ st d)" using mval_ABSIZ_ge [OF ok d s] le by simp
    from top_not_zero [OF this] show "h (PTR st d + (ABSIZ st d - 1)) \<noteq> 0" using s last_limb [OF s] by simp
  qed
  show "updates st d (with_sign neg (mval h (PTR st d) (ABSIZ st d)))
      (set_SIZ d (with_sign neg (MPN_NORMALIZE h (PTR st d) (ABSIZ st d))) (set_heap h st))"
    by (rule normalized_result [OF ok d h ABSIZ_le_ALLOC [OF ok d]])
qed

lemma updates_refl: "store_ok st \<Longrightarrow> updates st d (zval st d) st"
  by (simp add: updates_def)

lemma not_bit_above:
  assumes "n \<le> i div 32"
  shows "\<not> bit (int (mval m p n)) i"
proof -
  have "\<not> i < 32 * n" using assms by linarith
  then show ?thesis by (simp add: bit_of_nat_iff_bit bit_mval)
qed

lemma setbit_low:
  assumes ok: "store_ok st" and d: "d \<in> live st" "SIZ st d < 0" and z: "mval (heap st) (PTR st d) z = 0" "z < ABSIZ st d" "i div 32 < z"
  shows "\<exists>h. mpn_decr_u (PTR st d + i div 32) (push_bit (i mod 32) 1) (heap st) = Some h
    \<and> updates st d (zval st d + 2 ^ i) (set_SIZ d (- int (ABSIZ st d - of_bool (h (PTR st d + (ABSIZ st d - 1)) = 0))) (set_heap h st))"
proof -
  define n p m j where "n = ABSIZ st d" and "p = PTR st d" and "m = heap st" and "j = i div 32"
  note N = negative_variable [OF ok d, folded n_def p_def m_def]
  have j: "j < n" "j < z" using z(2,3) by (simp_all add: n_def j_def)
  have sp: "mval g p n = mval g p j + LB ^ j * mval g (p + j) (n - j)" for g by (rule mval_split) (use j in simp)
  have low: "mval m p j = 0" "m (p + j) = 0" using z(1) j(2) by (auto simp: mval_eq_0_iff m_def p_def)
  define Q where "Q = mval m (p + j) (n - j)"
  have A: "mval m p n = LB ^ j * Q" using sp [of m] low(1) by (simp add: Q_def)
  have b: "unat (push_bit (i mod 32) 1 :: limb) = 2 ^ (i mod 32)" by (rule unat_one_bit) simp
  have nz: "push_bit (i mod 32) 1 \<noteq> (0 :: limb)"
  proof
    assume "push_bit (i mod 32) 1 = (0 :: limb)"
    then have "unat (push_bit (i mod 32) 1 :: limb) = 0" by (simp only: unat_0)
    then show False unfolding b by simp
  qed
  have two: "LB ^ j * 2 ^ (i mod 32) = 2 ^ i" using two_power_limbs [of i] by (simp add: j_def)
  have half: "2 * 2 ^ i \<le> LB ^ (n - 1)"
  proof -
    have "Suc i \<le> 32 * (n - 1)" using z(2,3) by (simp add: n_def)
    then have "(2 :: nat) ^ Suc i \<le> 2 ^ (32 * (n - 1))" by (rule power_increasing) simp
    then show ?thesis by (simp add: LB_power power_mult)
  qed
  have "LB ^ j * 2 ^ (i mod 32) \<le> LB ^ j * Q" using half N(4) unfolding two A [symmetric] by linarith
  then have "unat (push_bit (i mod 32) 1 :: limb) \<le> mval m (p + j) (n - j)" unfolding b Q_def [symmetric] by simp
  from mpn_decr_u_spec [OF this] obtain h where h: "mpn_decr_u (p + j) (push_bit (i mod 32) 1) m = Some h"
      "mval h (p + j) (n - j) + 2 ^ (i mod 32) = Q" "only_in (p + j) (n - j) m h"
    unfolding b Q_def [symmetric] using nz by blast
  have "mval h p j = 0" using only_in_mval [OF h(3), of p j] low(1) by simp
  then have "mval h p n + 2 ^ i = LB ^ j * (mval h (p + j) (n - j) + 2 ^ (i mod 32))" unfolding sp [of h] two [symmetric] by (simp add: algebra_simps)
  then have v: "mval h p n + 2 ^ i = mval m p n" unfolding h(2) A .
  define k where "k = n - of_bool (h (p + (n - 1)) = 0)"
  have top: "mval h p k = mval h p n \<and> (k = 0 \<or> h (p + k - 1) \<noteq> 0)"
  proof (cases "h (p + (n - 1)) = 0")
    case True
    have e: "mval h p n = mval h p (n - 1)" using mval_high [of h p "n - 1"] N(3) True by simp
    have "LB ^ (n - 1 - 1) * 2 \<le> LB ^ (n - 1 - 1) * LB" by (intro mult_le_mono2) (simp add: LB_def)
    also have "\<dots> = LB ^ (n - 1)"
    proof -
      have "Suc (n - 1 - 1) = n - 1" using z(2,3) by (simp add: n_def)
      then show ?thesis unfolding power_Suc2 [symmetric] by simp
    qed
    finally have "LB ^ (n - 1 - 1) \<le> mval h p (n - 1)" using half v N(4) e by linarith
    from top_not_zero [OF this] show ?thesis using True e by (simp add: k_def)
  next
    case False
    then show ?thesis using N(3) by (simp add: k_def)
  qed
  have n: "n \<le> ALLOC st d" using ABSIZ_le_ALLOC [OF ok d(1)] by (simp add: n_def)
  have "only_in (PTR st d) (ALLOC st d) (heap st) h" by (rule only_in_mono [OF h(3) [unfolded m_def]]) (use j n in \<open>auto simp: p_def\<close>)
  moreover have "k \<le> ALLOC st d" using n by (simp add: k_def)
  ultimately have "updates st d (- int (mval h p n)) (set_SIZ d (- int k) (set_heap h st))"
    using result_sized [OF ok d(1), of h k True] top by (simp add: with_sign_def p_def)
  moreover have "- int (mval h p n) = zval st d + 2 ^ i"
  proof -
    have "int (mval h p n + 2 ^ i) = int (mval m p n)" using v by (simp only:)
    then show ?thesis unfolding N(1) by simp
  qed
  ultimately show ?thesis using h(1) by (simp add: k_def n_def p_def m_def j_def)
qed

theorem mpz_setbit_spec:
  assumes ok: "store_ok st" and d: "d \<in> live st"
  shows "\<exists>st'. mpz_setbit d i st = Some st' \<and> updates st d (set_bit i (zval st d)) st'"
proof -
  define n p m j b x where "n = ABSIZ st d" and "p = PTR st d" and "m = heap st" and "j = i div 32" and "b = i mod 32" and "x = m (p + j)"
  note defs = n_def [symmetric] p_def [symmetric] m_def [symmetric] j_def [symmetric] b_def [symmetric] x_def [symmetric]
  have b: "b < 32" and i: "32 * j + b = i" by (simp_all add: b_def j_def)
  have fr: "only_in p (ALLOC st d) m (m(p + j := y))" if "j < n" for y
    using only_in_limb [OF ok d] that by (simp add: n_def p_def m_def)
  have V: "int (mval (m(p + j := y)) p n) = int (mval m p n) + s * 2 ^ i" if "j < n" "int (unat y) = int (unat x) + s * 2 ^ b" for y s
    using limb_step [of i n y m p s] that by (simp add: j_def b_def x_def)
  note R = replace_limbs [OF ok d, folded n_def p_def m_def]
  show ?thesis
  proof (cases "SIZ st d < 0")
    case False
    then have z: "zval st d = int (mval m p n)" "nat (SIZ st d) = n" "SIZ st d = int n"
      using nonneg_variable [OF ok d] by (auto simp: n_def p_def m_def)
    show ?thesis
    proof (cases "j < n")
      case True
      have v: "int (mval (m(p + j := x OR push_bit b 1)) p n) = set_bit i (zval st d)"
        using V [OF True or_bit_value [OF b]] bit_positive [OF True b, of m p] by (simp add: set_bit_eq z(1) i x_def)
      have "int (mval m p n) \<le> int (mval (m(p + j := x OR push_bit b 1)) p n)" unfolding V [OF True or_bit_value [OF b]] by simp
      then have "updates st d (set_bit i (zval st d)) (set_heap (m(p + j := x OR push_bit b 1)) st)"
        unfolding v [symmetric] using R(1) [OF fr [OF True]] False by (simp add: with_sign_def)
      moreover have "mpz_setbit d i st = Some (set_heap (m(p + j := x OR push_bit b 1)) st)"
      proof -
        have "set_SIZ d (int n) (set_heap g st) = set_heap g st" for g using set_SIZ_same [of d "set_heap g st"] z(3) by simp
        then show ?thesis unfolding mpz_setbit_def Let_def defs z(2) using False True by simp
      qed
      ultimately show ?thesis by blast
    next
      case False
      then have "mpz_setbit d i st = Some (bit_outside False d i n st)" unfolding mpz_setbit_def Let_def defs z(2) using \<open>\<not> SIZ st d < 0\<close> by simp
      moreover have "set_bit i (zval st d) = int (mval m p n) + 2 ^ i"
        using not_bit_above [of n i m p] False by (simp add: set_bit_eq z(1) j_def)
      ultimately show ?thesis using bit_outside_spec [OF ok d, of i False] False by (simp add: n_def p_def m_def j_def with_sign_def)
    qed
  next
    case True
    note N = negative_variable [OF ok d True, folded n_def p_def m_def]
    have "mval m p n \<noteq> 0" using order_trans [OF LB_pow_ge N(4)] by simp
    from first_nonzero_spec [OF this] obtain z where z: "first_nonzero p 0 m = Some z" "z < n" "m (p + z) \<noteq> 0" "mval m p z = 0" by blast
    note B = bit_of_negative [OF z(4,3,2) b]
    have run: "mpz_setbit d i st =
       (if j > z
        then if j < n then Some (set_SIZ d (- int (MPN_NORMALIZE (m(p + j := x AND NOT (push_bit b 1))) p n)) (set_heap (m(p + j := x AND NOT (push_bit b 1))) st))
             else Some st
        else if j = z then Some (bit_carry d j n (set_heap (m(p + j := ((x - 1) AND NOT (push_bit b 1)) + 1)) st))
        else do {
          h \<leftarrow> mpn_decr_u (p + j) (push_bit b 1) m;
          Some (set_SIZ d (- int (n - of_bool (h (p + (n - 1)) = 0))) (set_heap h st))
        })"
      unfolding mpz_setbit_def Let_def defs N(2) z(1) using True by simp
    consider "z < j" "j < n" | "z < j" "n \<le> j" | "j = z" | "j < z" by linarith
    then show ?thesis
    proof cases
      case 1
      have "updates st d (- int (mval (m(p + j := x AND NOT (push_bit b 1))) p n))
          (set_SIZ d (- int (MPN_NORMALIZE (m(p + j := x AND NOT (push_bit b 1))) p n)) (set_heap (m(p + j := x AND NOT (push_bit b 1))) st))"
        using R(2) [OF fr [OF 1(2)], of True] by (simp add: with_sign_def)
      moreover have v: "int (mval (m(p + j := x AND NOT (push_bit b 1))) p n) = int (mval m p n) + - of_bool (bit x b) * 2 ^ i"
        by (rule V [OF 1(2)]) (unfold andn_bit_value [OF b], simp)
      have "set_bit i (zval st d) = - int (mval (m(p + j := x AND NOT (push_bit b 1))) p n)"
        using B(3) [OF 1] unfolding v by (simp add: set_bit_eq N(1) i x_def)
      ultimately show ?thesis unfolding run using 1 by simp
    next
      case 2
      then have "set_bit i (zval st d) = zval st d" using B(4) [OF 2(2)] by (simp add: set_bit_eq N(1) i)
      then show ?thesis unfolding run using 2 updates_refl [OF ok, of d] by simp
    next
      case 3
      have "int (unat ((x - 1) AND NOT (push_bit b 1))) + 1 = int (unat x) + - of_bool (bit (x - 1) b) * 2 ^ b"
        unfolding andn_bit_value [OF b] using unat_minus_limb [of 1 x] z(3) 3 by (simp add: x_def limb_le_iff unat_gt_0 Suc_leI of_nat_diff)
      from bit_carry_value [OF ok d True _ this [unfolded b_def x_def m_def p_def j_def]] 3 z(2)
      have "updates st d (zval st d - - of_bool (bit (x - 1) b) * 2 ^ i) (bit_carry d j n (set_heap (m(p + j := ((x - 1) AND NOT (push_bit b 1)) + 1)) st))"
        by (simp add: b_def x_def m_def p_def j_def n_def)
      moreover have "set_bit i (zval st d) = zval st d + of_bool (bit (x - 1) b) * 2 ^ i"
        using B(2) 3 by (simp add: set_bit_eq N(1) i [symmetric] x_def)
      ultimately show ?thesis unfolding run using 3 by simp
    next
      case 4
      have "set_bit i (zval st d) = zval st d + 2 ^ i" using B(1) [OF 4] by (simp add: set_bit_eq N(1) i)
      moreover obtain h where "mpn_decr_u (p + j) (push_bit b 1) m = Some h"
        "updates st d (zval st d + 2 ^ i) (set_SIZ d (- int (n - of_bool (h (p + (n - 1)) = 0))) (set_heap h st))"
        using setbit_low [OF ok d True z(4) [unfolded m_def p_def] z(2) [unfolded n_def] 4 [unfolded j_def]] unfolding defs by blast
      ultimately show ?thesis unfolding run using 4 by simp
    qed
  qed
qed

theorem mpz_clrbit_spec:
  assumes ok: "store_ok st" and d: "d \<in> live st"
  shows "\<exists>st'. mpz_clrbit d i st = Some st' \<and> updates st d (unset_bit i (zval st d)) st'"
proof -
  define n p m j b x where "n = ABSIZ st d" and "p = PTR st d" and "m = heap st" and "j = i div 32" and "b = i mod 32" and "x = m (p + j)"
  note defs = n_def [symmetric] p_def [symmetric] m_def [symmetric] j_def [symmetric] b_def [symmetric] x_def [symmetric]
  have b: "b < 32" and i: "32 * j + b = i" by (simp_all add: b_def j_def)
  have fr: "only_in p (ALLOC st d) m (m(p + j := y))" if "j < n" for y
    using only_in_limb [OF ok d] that by (simp add: n_def p_def m_def)
  have V: "int (mval (m(p + j := y)) p n) = int (mval m p n) + s * 2 ^ i" if "j < n" "int (unat y) = int (unat x) + s * 2 ^ b" for y s
    using limb_step [of i n y m p s] that by (simp add: j_def b_def x_def)
  note R = replace_limbs [OF ok d, folded n_def p_def m_def]
  show ?thesis
  proof (cases "SIZ st d < 0")
    case False
    then have z: "zval st d = int (mval m p n)" "nat (SIZ st d) = n"
      using nonneg_variable [OF ok d] by (auto simp: n_def p_def m_def)
    have run: "mpz_clrbit d i st = Some (if j < n
        then set_SIZ d (int (MPN_NORMALIZE (m(p + j := x AND NOT (push_bit b 1))) p n)) (set_heap (m(p + j := x AND NOT (push_bit b 1))) st) else st)"
      unfolding mpz_clrbit_def Let_def defs z(2) using False by simp
    show ?thesis
    proof (cases "j < n")
      case True
      have "int (mval (m(p + j := x AND NOT (push_bit b 1))) p n) = int (mval m p n) + - of_bool (bit x b) * 2 ^ i"
        by (rule V [OF True]) (unfold andn_bit_value [OF b], simp)
      then have v: "unset_bit i (zval st d) = int (mval (m(p + j := x AND NOT (push_bit b 1))) p n)"
        using bit_positive [OF True b, of m p] by (simp add: unset_bit_eq z(1) i x_def)
      then show ?thesis unfolding run v using R(2) [OF fr [OF True], where neg = False] True by (simp add: with_sign_def)
    next
      case False
      then have "unset_bit i (zval st d) = zval st d" using not_bit_above [of n i m p] by (simp add: unset_bit_eq z(1) j_def)
      then show ?thesis unfolding run using False updates_refl [OF ok, of d] by simp
    qed
  next
    case True
    note N = negative_variable [OF ok d True, folded n_def p_def m_def]
    have "mval m p n \<noteq> 0" using order_trans [OF LB_pow_ge N(4)] by simp
    from first_nonzero_spec [OF this] obtain z where z: "first_nonzero p 0 m = Some z" "z < n" "m (p + z) \<noteq> 0" "mval m p z = 0" by blast
    note B = bit_of_negative [OF z(4,3,2) b]
    have run: "mpz_clrbit d i st = Some
       (if j > z then if j < n then set_heap (m(p + j := x OR push_bit b 1)) st else bit_outside True d i n st
        else if j = z then bit_carry d j n (set_heap (m(p + j := ((x - 1) OR push_bit b 1) + 1)) st) else st)"
      unfolding mpz_clrbit_def Let_def defs N(2) z(1) using True by simp
    consider "z < j" "j < n" | "z < j" "n \<le> j" | "j = z" | "j < z" by linarith
    then show ?thesis
    proof cases
      case 1
      have v: "int (mval (m(p + j := x OR push_bit b 1)) p n) = int (mval m p n) + of_bool (\<not> bit x b) * 2 ^ i"
        by (rule V [OF 1(2) or_bit_value [OF b]])
      then have "mval m p n \<le> mval (m(p + j := x OR push_bit b 1)) p n" by (simp add: of_nat_le_iff [where 'a = int, symmetric] del: of_nat_le_iff)
      from R(1) [OF fr [OF 1(2)] this] have "updates st d (- int (mval (m(p + j := x OR push_bit b 1)) p n)) (set_heap (m(p + j := x OR push_bit b 1)) st)"
        using True by (simp add: with_sign_def)
      moreover have "unset_bit i (zval st d) = - int (mval (m(p + j := x OR push_bit b 1)) p n)"
        using B(3) [OF 1] unfolding v by (simp add: unset_bit_eq N(1) i x_def)
      ultimately show ?thesis unfolding run using 1 by simp
    next
      case 2
      then have "unset_bit i (zval st d) = - int (mval m p n) - 2 ^ i" using B(4) [OF 2(2)] by (simp add: unset_bit_eq N(1) i)
      then show ?thesis unfolding run using 2 bit_outside_spec [OF ok d, of i True] by (simp add: n_def p_def m_def j_def with_sign_def)
    next
      case 3
      have "int (unat ((x - 1) OR push_bit b 1)) + 1 = int (unat x) + of_bool (\<not> bit (x - 1) b) * 2 ^ b"
        unfolding or_bit_value [OF b] using unat_minus_limb [of 1 x] z(3) 3 by (simp add: x_def limb_le_iff unat_gt_0 Suc_leI of_nat_diff)
      from bit_carry_value [OF ok d True _ this [unfolded b_def x_def m_def p_def j_def]] 3 z(2)
      have "updates st d (zval st d - of_bool (\<not> bit (x - 1) b) * 2 ^ i) (bit_carry d j n (set_heap (m(p + j := ((x - 1) OR push_bit b 1) + 1)) st))"
        by (simp add: b_def x_def m_def p_def j_def n_def)
      moreover have "unset_bit i (zval st d) = zval st d - of_bool (\<not> bit (x - 1) b) * 2 ^ i"
        using B(2) 3 by (simp add: unset_bit_eq N(1) i [symmetric] x_def)
      ultimately show ?thesis unfolding run using 3 by simp
    next
      case 4
      have "unset_bit i (zval st d) = zval st d" using B(1) [OF 4] by (simp add: unset_bit_eq N(1) i)
      then show ?thesis unfolding run using 4 updates_refl [OF ok, of d] by simp
    qed
  qed
qed

end
