(* ===== verification/Mpz_Scan.thy ===== *)
theory Mpz_Scan
  imports Mpz_Bit
begin

text \<open>
  Searching for a bit of a variable, in two's complement: \<open>mpz/scan0.c\<close> and \<open>mpz/scan1.c\<close>.  Both return \<open>ULONG_MAX\<close>
  when there is no such bit.
\<close>

unbundle bit_operations_syntax

section \<open>The functions\<close>

definition ULONG_MAX :: nat where
  "ULONG_MAX = 2 ^ 32 - 1"

text \<open>The end of both functions: the index of the lowest bit of a limb.\<close>

definition low_bit_index :: "nat \<Rightarrow> limb \<Rightarrow> nat" where
  "low_bit_index p limb =
     (let limb = limb AND - limb;
          cnt = unat (count_leading_zeros limb)
      in p * 32 + 32 - 1 - cnt)"

text \<open>The search for a limb that is not all ones; the first argument is the number of limbs above.  No such limb is \<open>None\<close>.\<close>

fun ones_loop :: "nat \<Rightarrow> ptr \<Rightarrow> nat \<Rightarrow> limb \<Rightarrow> mem \<Rightarrow> (nat \<times> limb) option" where
  "ones_loop 0 u_ptr p limb m = (if limb = - 1 then None else Some (p, limb))"
| "ones_loop (Suc k) u_ptr p limb m =
     (if limb = - 1 then ones_loop k u_ptr (p + 1) (m (u_ptr + (p + 1))) m else Some (p, limb))"

definition scan_for_zero :: "ptr \<Rightarrow> nat \<Rightarrow> nat \<Rightarrow> limb \<Rightarrow> mem \<Rightarrow> nat" where
  "scan_for_zero u_ptr abs_size p limb m =
     (case ones_loop (abs_size - 1 - p) u_ptr p limb m of
        None \<Rightarrow> abs_size * 32
      | Some (p, limb) \<Rightarrow> low_bit_index p (NOT limb))"

definition scan_for_one :: "ptr \<Rightarrow> nat \<Rightarrow> nat \<Rightarrow> limb \<Rightarrow> mem \<Rightarrow> nat option" where
  "scan_for_one u_ptr abs_size p limb m =
     (if limb = 0
      then (let p = p + 1
            in if p = abs_size then Some ULONG_MAX
               else do {
                 p \<leftarrow> first_nonzero u_ptr p m;
                 Some (low_bit_index p (m (u_ptr + p)))
               })
      else Some (low_bit_index p limb))"

definition mpz_scan0 :: "var \<Rightarrow> nat \<Rightarrow> state \<Rightarrow> nat option" where
  "mpz_scan0 u starting_bit st =
     (let u_ptr = PTR st u;
          size = SIZ st u;
          abs_size = nat \<bar>size\<bar>;
          starting_limb = starting_bit div 32;
          limb = heap st (u_ptr + starting_limb)
      in if starting_limb \<ge> abs_size then Some (if size \<ge> 0 then starting_bit else ULONG_MAX)
         else if size \<ge> 0
         then (let limb = limb OR (push_bit (starting_bit mod 32) 1 - 1)
               in Some (scan_for_zero u_ptr abs_size starting_limb limb (heap st)))
         else (let limb = (if nonzero_below (heap st) u_ptr starting_limb then limb else limb - 1);
                   limb = limb AND push_bit (starting_bit mod 32) (- 1)
               in scan_for_one u_ptr abs_size starting_limb limb (heap st)))"

definition mpz_scan1 :: "var \<Rightarrow> nat \<Rightarrow> state \<Rightarrow> nat option" where
  "mpz_scan1 u starting_bit st =
     (let u_ptr = PTR st u;
          size = SIZ st u;
          abs_size = nat \<bar>size\<bar>;
          starting_limb = starting_bit div 32;
          limb = heap st (u_ptr + starting_limb)
      in if starting_limb \<ge> abs_size then Some (if size \<ge> 0 then ULONG_MAX else starting_bit)
         else if size \<ge> 0
         then (let limb = limb AND push_bit (starting_bit mod 32) (- 1)
               in scan_for_one u_ptr abs_size starting_limb limb (heap st))
         else if \<not> nonzero_below (heap st) u_ptr starting_limb \<and> limb = 0
         then do {
           p \<leftarrow> first_nonzero u_ptr (starting_limb + 1) (heap st);
           Some (low_bit_index p (- heap st (u_ptr + p)))
         }
         else (let limb = (if nonzero_below (heap st) u_ptr starting_limb then limb else limb - 1);
                   limb = limb OR (push_bit (starting_bit mod 32) 1 - 1)
               in Some (scan_for_zero u_ptr abs_size starting_limb limb (heap st))))"

section \<open>The lowest bit from a limb on\<close>

text \<open>The first bit of \<open>z\<close> from \<open>s\<close> on.\<close>

definition first_bit :: "int \<Rightarrow> nat \<Rightarrow> nat \<Rightarrow> bool" where
  "first_bit z s r \<longleftrightarrow> s \<le> r \<and> bit z r \<and> (\<forall>k. s \<le> k \<and> k < r \<longrightarrow> \<not> bit z k)"

lemma low_bit_index_spec:
  assumes "x \<noteq> 0"
  obtains b where "low_bit_index p x = 32 * p + b" "b < 32" "bit x b" "\<And>c. c < b \<Longrightarrow> \<not> bit x c"
proof -
  define b where "b = unat (count_trailing_zeros x)"
  obtain j where j: "unat x = 2 ^ b * (2 * j + 1)" and b: "b < 32"
    unfolding b_def by (rule count_trailing_zeros_correct [OF assms]) blast
  have "of_nat (unat x) = (of_nat (2 ^ b * (2 * j + 1)) :: limb)" by (simp only: j)
  then have "x = push_bit (Suc b) (of_nat j) + push_bit b 1" by (simp add: push_bit_eq_mult algebra_simps)
  then have low: "x AND - x = push_bit b 1" using b by (rule lowest_bit)
  have "unat (push_bit b 1 :: limb) \<noteq> 0" unfolding unat_one_bit [OF b] by simp
  then have "push_bit b 1 \<noteq> (0 :: limb)" by (metis unat_0)
  then have c: "unat (count_leading_zeros (x AND - x)) < 32" unfolding low by (rule count_leading_zeros_correct(1))
  have "count_trailing_zeros x = 31 - count_leading_zeros (x AND - x)" by (simp add: count_trailing_zeros_def Let_def W_TYPE_SIZE_def)
  then have "b = 31 - unat (count_leading_zeros (x AND - x))" using c by (simp add: b_def unat_minus_if)
  then have "low_bit_index p x = 32 * p + b" using c by (simp add: low_bit_index_def Let_def)
  moreover have "bit x b" "\<And>c. c < b \<Longrightarrow> \<not> bit x c"
  proof -
    show "bit x b" unfolding bit_limb [symmetric] j by (simp add: bit_iff_odd)
    show "\<not> bit x c" if "c < b" for c
    proof -
      have "(2 :: nat) ^ b = 2 ^ c * 2 ^ (b - c)" using that by (simp flip: power_add)
      then have "unat x div 2 ^ c = 2 ^ (b - c) * (2 * j + 1)" unfolding j by simp
      then show ?thesis unfolding bit_limb [symmetric] using that by (simp add: bit_iff_odd)
    qed
  qed
  ultimately show thesis using that b by blast
qed

text \<open>The bits of \<open>z\<close> come in limbs \<open>D j\<close>; the search starts in the limb of \<open>s\<close> with the bits below \<open>s\<close> removed.\<close>

definition in_limbs :: "int \<Rightarrow> (nat \<Rightarrow> limb) \<Rightarrow> bool" where
  "in_limbs z D \<longleftrightarrow> (\<forall>j b. b < 32 \<longrightarrow> bit z (32 * j + b) = bit (D j) b)"

lemma in_limbsD: "in_limbs z D \<Longrightarrow> bit z k = bit (D (k div 32)) (k mod 32)"
proof -
  assume "in_limbs z D"
  from this [unfolded in_limbs_def, rule_format, of "k mod 32" "k div 32"] show ?thesis by simp
qed

lemma in_limbs_not: "in_limbs z D \<Longrightarrow> in_limbs (NOT z) (\<lambda>j. NOT (D j))"
  by (simp add: in_limbs_def bit_not_iff)

definition from_bit :: "(nat \<Rightarrow> limb) \<Rightarrow> nat \<Rightarrow> nat \<Rightarrow> limb" where
  "from_bit D s j = (if j = s div 32 then D j AND push_bit (s mod 32) (- 1) else D j)"

lemma bit_from_bit: "bit (from_bit D s j) c \<longleftrightarrow> bit (D j) c \<and> (j = s div 32 \<longrightarrow> s mod 32 \<le> c)"
  by (auto simp: from_bit_def bit_simps dest: bit_limb_bound)

lemma first_bit_limb:
  assumes D: "in_limbs z D" and j: "s div 32 \<le> j" "from_bit D s j \<noteq> 0" and zero: "\<And>t. s div 32 \<le> t \<Longrightarrow> t < j \<Longrightarrow> from_bit D s t = 0"
  shows "first_bit z s (low_bit_index j (from_bit D s j))"
proof -
  obtain b where b: "low_bit_index j (from_bit D s j) = 32 * j + b" "b < 32" "bit (from_bit D s j) b"
    "\<And>c. c < b \<Longrightarrow> \<not> bit (from_bit D s j) c" by (rule low_bit_index_spec [OF j(2), of j]) blast
  have F: "bit (from_bit D s (k div 32)) (k mod 32) \<longleftrightarrow> bit z k" if "s \<le> k" for k
  proof (cases "k div 32 = s div 32")
    case True
    then have "s mod 32 \<le> k mod 32" using that by (metis add_le_cancel_left bit_index_split)
    then show ?thesis using True in_limbsD [OF D, of k] by (simp add: bit_from_bit)
  next
    case False
    then show ?thesis using in_limbsD [OF D, of k] by (simp add: bit_from_bit)
  qed
  have r: "(32 * j + b) div 32 = j" "(32 * j + b) mod 32 = b" using b(2) by simp_all
  have s: "s \<le> 32 * j + b"
  proof (cases "j = s div 32")
    case True
    then have "s mod 32 \<le> b" using b(3) by (simp add: bit_from_bit)
    then show ?thesis using True by (metis add_le_cancel_left bit_index_split)
  next
    case False
    then have "s div 32 + 1 \<le> j" using j(1) by simp
    then show ?thesis by linarith
  qed
  have "bit z (32 * j + b)" using F [OF s] b(3) r by simp
  moreover have "\<not> bit z k" if "s \<le> k" "k < 32 * j + b" for k
  proof (cases "k div 32 = j")
    case True
    then have "k mod 32 < b" using that(2) by (metis add_less_cancel_left bit_index_split)
    then show ?thesis using F [OF that(1)] b(4) True by simp
  next
    case False
    then have "s div 32 \<le> k div 32" "k div 32 < j" using that b(2) by (auto intro: div_le_mono)
    then show ?thesis using F [OF that(1)] zero by simp
  qed
  ultimately show ?thesis unfolding b(1) first_bit_def using s by blast
qed

section \<open>The two searches\<close>

text \<open>The result of a search in a number whose limbs are \<open>D j\<close>: the first bit, or \<open>ULONG_MAX\<close>.\<close>

definition scan_result :: "int \<Rightarrow> nat \<Rightarrow> nat \<Rightarrow> bool" where
  "scan_result z s r \<longleftrightarrow> (if \<exists>k \<ge> s. bit z k then first_bit z s r else r = ULONG_MAX)"

lemma scan_result_iff:
  "scan_result z s r \<longleftrightarrow>
     (if \<exists>k \<ge> s. bit z k then s \<le> r \<and> bit z r \<and> {k. s \<le> k \<and> k < r \<and> bit z k} = {} else r = ULONG_MAX)"
  unfolding scan_result_def first_bit_def by (auto simp: not_less)

lemma scan_result_first: "first_bit z s r \<Longrightarrow> scan_result z s r"
  by (auto simp: scan_result_def first_bit_def)

lemma no_bit_from:
  assumes D: "in_limbs z D" and zero: "\<And>t. s div 32 \<le> t \<Longrightarrow> from_bit D s t = 0" and k: "s \<le> k"
  shows "\<not> bit z k"
proof -
  have "s div 32 \<le> k div 32" using k by (rule div_le_mono)
  then have "\<not> bit (from_bit D s (k div 32)) (k mod 32)" using zero by simp
  moreover have "s mod 32 \<le> k mod 32" if "k div 32 = s div 32" using that k by (metis add_le_cancel_left bit_index_split)
  ultimately show ?thesis using in_limbsD [OF D, of k] by (auto simp: bit_from_bit)
qed

lemma ones_loop_spec:
  assumes "\<And>i. p < i \<Longrightarrow> i \<le> p + k \<Longrightarrow> E i = m (u + i)" "E p = limb"
  shows "case ones_loop k u p limb m of
      None \<Rightarrow> \<forall>i. p \<le> i \<and> i \<le> p + k \<longrightarrow> E i = - 1
    | Some (q, x) \<Rightarrow> p \<le> q \<and> q \<le> p + k \<and> x = E q \<and> x \<noteq> - 1 \<and> (\<forall>i. p \<le> i \<and> i < q \<longrightarrow> E i = - 1)"
  using assms
proof (induction k arbitrary: p limb)
  case (Suc k)
  show ?case
  proof (cases "limb = - 1")
    case True
    have "E i = m (u + i)" if "p + 1 < i" "i \<le> p + 1 + k" for i using Suc.prems(1) [of i] that by simp
    moreover have "E (p + 1) = m (u + (p + 1))" using Suc.prems(1) [of "p + 1"] by simp
    ultimately have IH: "case ones_loop k u (p + 1) (m (u + (p + 1))) m of
      None \<Rightarrow> \<forall>i. p + 1 \<le> i \<and> i \<le> p + 1 + k \<longrightarrow> E i = - 1
    | Some (q, x) \<Rightarrow> p + 1 \<le> q \<and> q \<le> p + 1 + k \<and> x = E q \<and> x \<noteq> - 1 \<and> (\<forall>i. p + 1 \<le> i \<and> i < q \<longrightarrow> E i = - 1)" by (rule Suc.IH)
    have P: "p \<le> i \<longleftrightarrow> i = p \<or> p + 1 \<le> i" for i by auto
    show ?thesis using IH True Suc.prems(2) by (auto simp: P split: option.splits)
  qed (use Suc.prems in auto)
qed (auto simp: le_antisym)

lemma scan_for_zero_spec:
  assumes D: "in_limbs z D" and p: "s div 32 < n" and limb: "NOT limb = from_bit D s (s div 32)"
    and low: "\<And>j. s div 32 < j \<Longrightarrow> j < n \<Longrightarrow> D j = NOT (m (u + j))" and high: "\<And>j. n \<le> j \<Longrightarrow> D j = - 1"
  shows "first_bit z s (scan_for_zero u n (s div 32) limb m)"
proof -
  define p E where "p = s div 32" and "E j = NOT (from_bit D s j)" for j
  have E: "E i = m (u + i)" if "p < i" "i \<le> p + (n - 1 - p)" for i
    using that low [of i] p by (simp add: E_def p_def from_bit_def)
  have Ep: "E p = limb" unfolding E_def p_def limb [symmetric] by simp
  have O: "case ones_loop (n - 1 - p) u p limb m of
      None \<Rightarrow> \<forall>i. p \<le> i \<and> i \<le> p + (n - 1 - p) \<longrightarrow> E i = - 1
    | Some (q, x) \<Rightarrow> p \<le> q \<and> q \<le> p + (n - 1 - p) \<and> x = E q \<and> x \<noteq> - 1 \<and> (\<forall>i. p \<le> i \<and> i < q \<longrightarrow> E i = - 1)"
    by (rule ones_loop_spec [where E = E]) (use E Ep in blast)+
  have zero: "from_bit D s i = 0 \<longleftrightarrow> E i = - 1" for i unfolding E_def by (metis bit.compl_zero bit.double_compl)
  show ?thesis
  proof (cases "ones_loop (n - 1 - p) u p limb m")
    case None
    then have ones: "E i = - 1" if "p \<le> i" "i < n" for i using O that by auto
    have "from_bit D s n = - 1" using p high [of n] by (simp add: from_bit_def)
    moreover have "first_bit z s (low_bit_index n (from_bit D s n))"
      by (rule first_bit_limb [OF D]) (use p ones zero calculation in \<open>auto simp: p_def\<close>)
    moreover have "low_bit_index n (- 1) = n * 32"
    proof -
      have "(- 1 :: limb) \<noteq> 0" by simp
      from low_bit_index_spec [OF this, of n] obtain b where b: "low_bit_index n (- 1) = 32 * n + b" "\<And>c. c < b \<Longrightarrow> \<not> bit (- 1 :: limb) c" by blast
      then have "b = 0" using b(2) [of 0] by (cases b) auto
      then show ?thesis using b(1) by simp
    qed
    ultimately show ?thesis unfolding scan_for_zero_def p_def [symmetric] None by simp
  next
    case (Some r)
    obtain q x where r: "r = (q, x)" by fastforce
    then have q: "p \<le> q" "x = E q" "E q \<noteq> - 1" "\<And>i. p \<le> i \<Longrightarrow> i < q \<Longrightarrow> E i = - 1" using O Some by auto
    have "first_bit z s (low_bit_index q (from_bit D s q))"
      by (rule first_bit_limb [OF D]) (use q zero in \<open>auto simp: p_def\<close>)
    moreover have "NOT x = from_bit D s q" unfolding q(2) E_def by simp
    ultimately show ?thesis unfolding scan_for_zero_def p_def [symmetric] Some r by simp
  qed
qed

lemma scan_for_one_spec:
  assumes D: "in_limbs z D" and p: "s div 32 < n" and limb: "limb = from_bit D s (s div 32)"
    and low: "\<And>j. s div 32 < j \<Longrightarrow> j < n \<Longrightarrow> D j = m (u + j)" and high: "\<And>j. n \<le> j \<Longrightarrow> D j = 0" and top: "m (u + (n - 1)) \<noteq> 0"
  shows "\<exists>r. scan_for_one u n (s div 32) limb m = Some r \<and> scan_result z s r"
proof -
  define p where "p = s div 32"
  show ?thesis
  proof (cases "limb = 0")
    case False
    then have "first_bit z s (low_bit_index p limb)" unfolding limb p_def by (intro first_bit_limb [OF D]) simp_all
    then show ?thesis using False scan_result_first by (auto simp: scan_for_one_def p_def)
  next
    case zero: True
    show ?thesis
    proof (cases "p + 1 = n")
      case True
      have "from_bit D s t = 0" if "s div 32 \<le> t" for t
        using zero limb high [of t] that True by (cases "t = p") (auto simp: p_def from_bit_def)
      then have "\<not> bit z k" if "s \<le> k" for k using no_bit_from [OF D _ that] by blast
      then show ?thesis using zero True by (auto simp: scan_for_one_def p_def scan_result_def)
    next
      case False
      then have pn: "p + 1 < n" using p by (simp add: p_def)
      then obtain q where q: "first_nonzero u (p + 1) m = Some q" "p < q" "q < n" "m (u + q) \<noteq> 0" "\<And>j. p < j \<Longrightarrow> j < q \<Longrightarrow> m (u + j) = 0"
      proof -
        have "p + 1 \<le> n - 1" "n - 1 < n" using pn by simp_all
        from first_nonzero_from [where p = u and m = m, OF this top] show thesis using that by (auto simp: Suc_le_eq)
      qed
      have f: "from_bit D s j = m (u + j)" if "p < j" "j < n" for j using low [of j] that by (simp add: p_def from_bit_def)
      have "first_bit z s (low_bit_index q (from_bit D s q))"
      proof (rule first_bit_limb [OF D])
        show "s div 32 \<le> q" "from_bit D s q \<noteq> 0" using q f by (simp_all add: p_def)
        show "from_bit D s t = 0" if "s div 32 \<le> t" "t < q" for t
          using zero limb f [of t] q that by (cases "t = p") (auto simp: p_def)
      qed
      then show ?thesis using zero False q f [of q] scan_result_first by (auto simp: scan_for_one_def p_def [symmetric] Let_def)
    qed
  qed
qed

section \<open>The limbs of a variable\<close>

definition digits :: "state \<Rightarrow> var \<Rightarrow> nat \<Rightarrow> limb" where
  "digits st u j =
     (let m = heap st; p = PTR st u
      in if j < ABSIZ st u
         then if SIZ st u < 0 then (if mval m p j \<noteq> 0 then NOT (m (p + j)) else NOT (m (p + j) - 1)) else m (p + j)
         else if SIZ st u < 0 then - 1 else 0)"

lemma digits_spec:
  assumes ok: "store_ok st" and u: "u \<in> live st"
  shows "in_limbs (zval st u) (digits st u)"
  unfolding in_limbs_def
proof (intro allI impI)
  fix j b :: nat
  assume b: "b < 32"
  define n p m where "n = ABSIZ st u" and "p = PTR st u" and "m = heap st"
  show "bit (zval st u) (32 * j + b) = bit (digits st u j) b"
  proof (cases "SIZ st u < 0")
    case True
    note N = negative_variable [OF ok u True, folded n_def p_def m_def]
    have neg: "- x - 1 = NOT x" "- x = NOT (x - 1)" for x :: limb by (simp_all only: not_eq_complement minus_eq_not_minus_1 [of x])
    show ?thesis
    proof (cases "j < n")
      case j: True
      have "bit (zval st u) (32 * j + b) \<longleftrightarrow> bit (if mval m p j \<noteq> 0 then NOT (m (p + j)) else NOT (m (p + j) - 1)) b"
        unfolding N(1) bit_negative [OF j b] neg(1) unfolding neg(2) [of "m (p + j)"] ..
      then show ?thesis unfolding digits_def Let_def n_def [symmetric] p_def [symmetric] m_def [symmetric] using j True by simp
    next
      case False
      have "0 < mval m p n" using order_trans [OF LB_pow_ge N(4)] by simp
      then have "bit (zval st u) (32 * j + b)" unfolding N(1) by (rule bit_negative_above) (use False in simp)
      then show ?thesis unfolding digits_def Let_def n_def [symmetric] using False True b by simp
    qed
  next
    case False
    then have z: "zval st u = int (mval m p n)" using nonneg_variable(1) [OF ok u] by (simp add: m_def p_def n_def)
    show ?thesis
    proof (cases "j < n")
      case True
      then show ?thesis using False b unfolding z bit_positive [OF True b] digits_def Let_def n_def [symmetric] p_def [symmetric] m_def [symmetric] by simp
    next
      case out: False
      then have "\<not> bit (zval st u) (32 * j + b)" unfolding z by (intro not_bit_above) (use b in simp)
      then show ?thesis using False out by (simp add: digits_def Let_def n_def)
    qed
  qed
qed

text \<open>The masks.\<close>

lemma not_or_mask: "NOT (x OR (push_bit b 1 - 1)) = NOT x AND push_bit b (- 1 :: limb)"
proof -
  have "push_bit b 1 - 1 = (mask b :: limb)" by (simp add: mask_eq_exp_minus_1)
  moreover have "push_bit b (- 1) = NOT (mask b :: limb)" by simp
  ultimately show ?thesis by (simp only: bit.de_Morgan_disj)
qed

lemma top_limb: "store_ok st \<Longrightarrow> u \<in> live st \<Longrightarrow> SIZ st u \<noteq> 0 \<Longrightarrow> heap st (PTR st u + (ABSIZ st u - 1)) \<noteq> 0"
  using wf_ok [of st u] last_limb [of st u "PTR st u"] by (simp add: mpz_ok_def)

theorem mpz_scan1_spec:
  assumes ok: "store_ok st" and u: "u \<in> live st"
  shows "\<exists>r. mpz_scan1 u s st = Some r \<and> scan_result (zval st u) s r"
proof -
  define n p m j where "n = ABSIZ st u" and "p = PTR st u" and "m = heap st" and "j = s div 32"
  note defs = n_def [symmetric] p_def [symmetric] m_def [symmetric] j_def [symmetric]
  have size: "nat \<bar>SIZ st u\<bar> = n" by (simp add: n_def ABSIZ_SIZ)
  note D = digits_spec [OF ok u]
  show ?thesis
  proof (cases "j < n")
    case out: False
    show ?thesis
    proof (cases "SIZ st u < 0")
      case True
      have "s mod 32 < 32" by simp
      then have "bit (zval st u) s" using in_limbsD [OF D, of s] out True by (simp add: digits_def Let_def n_def j_def)
      then have "first_bit (zval st u) s s" by (auto simp: first_bit_def)
      then show ?thesis using True out scan_result_first unfolding mpz_scan1_def Let_def size defs by auto
    next
      case False
      have "digits st u t = 0" if "j \<le> t" for t using that out False by (simp add: digits_def Let_def n_def)
      then have "from_bit (digits st u) s t = 0" if "s div 32 \<le> t" for t using that by (simp add: from_bit_def j_def)
      then have "\<not> bit (zval st u) k" if "s \<le> k" for k using no_bit_from [OF D _ that] by blast
      then show ?thesis using False out unfolding mpz_scan1_def Let_def size defs by (auto simp: scan_result_def)
    qed
  next
    case j: True
    have top: "m (p + (n - 1)) \<noteq> 0" using top_limb [OF ok u] j by (auto simp: m_def p_def n_def ABSIZ_SIZ)
    show ?thesis
    proof (cases "SIZ st u < 0")
      case False
      then have dj: "digits st u t = (if t < n then m (p + t) else 0)" for t by (simp add: digits_def Let_def n_def p_def m_def)
      have "\<exists>r. scan_for_one p n (s div 32) (m (p + j) AND push_bit (s mod 32) (- 1)) m = Some r \<and> scan_result (zval st u) s r"
        by (rule scan_for_one_spec [OF D]) (use j top in \<open>simp_all add: dj from_bit_def j_def [symmetric]\<close>)
      then show ?thesis unfolding mpz_scan1_def Let_def size defs using j False by (simp add: j_def)
    next
      case True
      have dj: "digits st u t = (if t < n then (if mval m p t \<noteq> 0 then NOT (m (p + t)) else NOT (m (p + t) - 1)) else - 1)" for t
        using True by (simp add: digits_def Let_def n_def p_def m_def)
      have nz: "mval m p t \<noteq> 0" if "m (p + i) \<noteq> 0" "i < t" for t i using that by (auto simp: mval_eq_0_iff)
      define limb where "limb = (if mval m p j \<noteq> 0 then m (p + j) else m (p + j) - 1)"
      have run: "mpz_scan1 u s st =
          (if mval m p j = 0 \<and> m (p + j) = 0
           then (do { q \<leftarrow> first_nonzero p (j + 1) m; Some (low_bit_index q (- m (p + q))) })
           else Some (scan_for_zero p n j (limb OR (push_bit (s mod 32) 1 - 1)) m))"
        unfolding mpz_scan1_def Let_def size defs nonzero_below_iff limb_def using j True by simp
      show ?thesis
      proof (cases "mval m p j = 0 \<and> m (p + j) = 0")
        case zero: True
        then have "j < n - 1" using top j by (cases "j = n - 1") auto
        then obtain q where q: "first_nonzero p (j + 1) m = Some q" "j + 1 \<le> q" "q < n" "m (p + q) \<noteq> 0" "\<forall>i < q. j + 1 \<le> i \<longrightarrow> m (p + i) = 0"
          using first_nonzero_from [of "j + 1" "n - 1" n m p] top by auto
        have low: "m (p + t) = 0" if "t < q" for t
          using zero q(5) that by (cases "t \<le> j") (auto simp: mval_eq_0_iff le_less)
        then have mz: "mval m p t = 0" if "t \<le> q" for t using that by (auto simp: mval_eq_0_iff)
        have fq: "from_bit (digits st u) s q = - m (p + q)"
          using q(2,3) mz [of q] minus_eq_not_minus_1 [of "m (p + q)"] by (simp add: from_bit_def dj j_def [symmetric])
        have "first_bit (zval st u) s (low_bit_index q (from_bit (digits st u) s q))"
        proof (rule first_bit_limb [OF D])
          show "s div 32 \<le> q" using q(2) by (simp add: j_def)
          show "from_bit (digits st u) s q \<noteq> 0" unfolding fq using q(4) by simp
          show "from_bit (digits st u) s t = 0" if "s div 32 \<le> t" "t < q" for t
          proof -
            have "t < n" "mval m p t = 0" "m (p + t) = 0" using that low mz [of t] q(3) by auto
            then have "digits st u t = 0" by (simp add: dj)
            then show ?thesis by (auto simp: from_bit_def)
          qed
        qed
        then show ?thesis unfolding run fq using zero q(1) scan_result_first by auto
      next
        case False
        have "first_bit (zval st u) s (scan_for_zero p n (s div 32) (limb OR (push_bit (s mod 32) 1 - 1)) m)"
        proof (rule scan_for_zero_spec [OF D])
          show "s div 32 < n" using j by (simp add: j_def)
          show "NOT (limb OR (push_bit (s mod 32) 1 - 1)) = from_bit (digits st u) s (s div 32)"
            unfolding not_or_mask using j by (simp add: from_bit_def dj limb_def j_def [symmetric])
          show "digits st u t = NOT (m (p + t))" if "s div 32 < t" "t < n" for t
          proof -
            have "mval m p t \<noteq> 0"
            proof (cases "m (p + j) = 0")
              case True
              then obtain i where "i < j" "m (p + i) \<noteq> 0" using False by (auto simp: mval_eq_0_iff)
              then show ?thesis using nz [of i t] that by (simp add: j_def)
            next
              case False
              then show ?thesis using nz [of j t] that by (simp add: j_def)
            qed
            then show ?thesis using that by (simp add: dj)
          qed
          show "digits st u t = - 1" if "n \<le> t" for t using that by (simp add: dj)
        qed
        then show ?thesis unfolding run if_not_P [OF False] using scan_result_first by (auto simp: j_def)
      qed
    qed
  qed
qed

theorem mpz_scan0_spec:
  assumes ok: "store_ok st" and u: "u \<in> live st"
  shows "\<exists>r. mpz_scan0 u s st = Some r \<and> scan_result (NOT (zval st u)) s r"
proof -
  define n p m j where "n = ABSIZ st u" and "p = PTR st u" and "m = heap st" and "j = s div 32"
  note defs = n_def [symmetric] p_def [symmetric] m_def [symmetric] j_def [symmetric]
  have size: "nat \<bar>SIZ st u\<bar> = n" by (simp add: n_def ABSIZ_SIZ)
  note D = in_limbs_not [OF digits_spec [OF ok u]]
  show ?thesis
  proof (cases "j < n")
    case out: False
    show ?thesis
    proof (cases "SIZ st u < 0")
      case True
      have "NOT (digits st u t) = 0" if "j \<le> t" for t using that out True by (simp add: digits_def Let_def n_def)
      then have "from_bit (\<lambda>j. NOT (digits st u j)) s t = 0" if "s div 32 \<le> t" for t using that by (simp add: from_bit_def j_def)
      then have "\<not> bit (NOT (zval st u)) k" if "s \<le> k" for k using no_bit_from [OF D _ that] by blast
      then show ?thesis using True out unfolding mpz_scan0_def Let_def size defs by (auto simp: scan_result_def)
    next
      case False
      then have "bit (NOT (zval st u)) s" using in_limbsD [OF D, of s] out by (simp add: digits_def Let_def n_def j_def)
      then have "first_bit (NOT (zval st u)) s s" by (auto simp: first_bit_def)
      then show ?thesis using False out scan_result_first unfolding mpz_scan0_def Let_def size defs by auto
    qed
  next
    case j: True
    have top: "m (p + (n - 1)) \<noteq> 0" using top_limb [OF ok u] j by (auto simp: m_def p_def n_def ABSIZ_SIZ)
    show ?thesis
    proof (cases "SIZ st u < 0")
      case False
      then have dj: "digits st u t = (if t < n then m (p + t) else 0)" for t by (simp add: digits_def Let_def n_def p_def m_def)
      have "first_bit (NOT (zval st u)) s (scan_for_zero p n (s div 32) (m (p + j) OR (push_bit (s mod 32) 1 - 1)) m)"
        by (rule scan_for_zero_spec [OF D]) (use j in \<open>simp_all only: not_or_mask, simp_all add: dj from_bit_def j_def [symmetric]\<close>)
      then show ?thesis unfolding mpz_scan0_def Let_def size defs using j False scan_result_first by (simp add: j_def)
    next
      case True
      have dj: "digits st u t = (if t < n then (if mval m p t \<noteq> 0 then NOT (m (p + t)) else NOT (m (p + t) - 1)) else - 1)" for t
        using True by (simp add: digits_def Let_def n_def p_def m_def)
      define limb where "limb = (if mval m p j \<noteq> 0 then m (p + j) else m (p + j) - 1)"
      have run: "mpz_scan0 u s st = scan_for_one p n j (limb AND push_bit (s mod 32) (- 1)) m"
        unfolding mpz_scan0_def Let_def size defs nonzero_below_iff limb_def using j True by simp
      have lim: "limb AND push_bit (s mod 32) (- 1) = from_bit (\<lambda>j. NOT (digits st u j)) s j"
        using j by (simp add: from_bit_def dj limb_def j_def [symmetric])
      show ?thesis
      proof (cases "mval m p j = 0 \<and> m (p + j) = 0")
        case zero: True
        then have l: "limb AND push_bit (s mod 32) (- 1) = push_bit (s mod 32) (- 1)" by (simp add: limb_def)
        have "bit (push_bit (s mod 32) (- 1) :: limb) 31" by (simp add: bit_simps less_Suc_eq_le not_less)
        then have "limb AND push_bit (s mod 32) (- 1) \<noteq> 0" unfolding l by (metis bit_0_eq bot_apply bot_bool_def)
        then show ?thesis
          unfolding run scan_for_one_def using first_bit_limb [OF D, of s j] lim scan_result_first by (simp add: j_def)
      next
        case False
        have nz: "mval m p t \<noteq> 0" if "j < t" for t using False that by (auto simp: mval_eq_0_iff) (meson less_trans)
        show ?thesis unfolding run
          by (unfold j_def, rule scan_for_one_spec [OF D]) (use j top lim nz in \<open>simp_all add: dj j_def\<close>)
      qed
    qed
  qed
qed

end
