(* ===== verification/Mpn_Gcd1.thy ===== *)
theory Mpn_Gcd1
  imports Mpn_Div1
begin

text \<open>
  The greatest common divisor of a vector and a limb (\<open>mpn/generic/gcd_1.c\<close>), with the exact-division style
  remainder it reduces by (\<open>mpn/generic/mode1o.c\<close>).
\<close>

unbundle bit_operations_syntax

section \<open>A remainder from the low end\<close>

definition SUBC_LIMB :: "limb \<Rightarrow> limb \<Rightarrow> limb \<times> limb" where
  "SUBC_LIMB x y = (let w = x - y in (of_bool (w > x), w))"

text \<open>The body of the loop, for one limb of the source.\<close>

definition modexact_step :: "limb \<Rightarrow> limb \<Rightarrow> limb \<Rightarrow> limb \<Rightarrow> limb" where
  "modexact_step di d s c =
     (let (c, l) = SUBC_LIMB s c;
          l = l * di;
          (h, dummy) = umul_ppmm l d
      in c + h)"

fun modexact_loop :: "nat \<Rightarrow> ptr \<Rightarrow> limb \<Rightarrow> limb \<Rightarrow> limb \<Rightarrow> mem \<Rightarrow> limb" where
  "modexact_loop 0 src di d c m = c"
| "modexact_loop (Suc k) src di d c m = modexact_loop k (src + 1) di d (modexact_step di d (m src) c) m"

definition mpn_modexact_1c_odd :: "mem \<Rightarrow> ptr \<Rightarrow> nat \<Rightarrow> limb \<Rightarrow> limb \<Rightarrow> limb" where
  "mpn_modexact_1c_odd m src sz d c =
     (if sz = 1
      then (let s = m src
            in if s > c
               then (let l = s - c;
                         h = l mod d
                     in if h \<noteq> 0 then d - h else h)
               else (let l = c - s in l mod d))
      else (let di = modlimb_invert d;
                c = modexact_loop (sz - 1) src di d c m;
                s = m (src + (sz - 1))
            in if s \<le> d
               then (let l = c - s in if l > c then l + d else l)
               else modexact_step di d s c))"

definition MODEXACT_1_ODD_THRESHOLD :: nat where
  "MODEXACT_1_ODD_THRESHOLD = 25"

definition MPN_MOD_OR_MODEXACT_1_ODD :: "mem \<Rightarrow> ptr \<Rightarrow> nat \<Rightarrow> limb \<Rightarrow> limb" where
  "MPN_MOD_OR_MODEXACT_1_ODD m src sz divisor =
     (if ABOVE_THRESHOLD sz MODEXACT_1_ODD_THRESHOLD then mpn_modexact_1c_odd m src sz divisor 0
      else mpn_mod_1 m src sz divisor)"

text \<open>With borrow \<open>c\<close> in and \<open>c'\<close> out a limb \<open>s\<close> satisfies \<open>LB * c' = q * d - s + c\<close>.\<close>

lemma modexact_step_spec:
  assumes inv: "di * d = 1" and d: "d \<noteq> 0"
  shows "LB * unat (modexact_step di d s c) + unat s = unat ((s - c) * di) * unat d + unat c"
    and "unat (modexact_step di d s c) \<le> unat d"
    and "unat c < unat d \<Longrightarrow> unat (modexact_step di d s c) < unat d"
proof -
  define l where "l = s - c"
  define q where "q = l * di"
  obtain h x where u: "umul_ppmm q d = (h, x)" by fastforce
  have Q: "LB * unat h + unat x = unat q * unat d" using umul_ppmm_correct [of q d] by (simp add: u)
  have "unat x = (unat q * unat d) mod LB" using unat_lt_LB [of x] by (simp flip: Q)
  also have "\<dots> = unat (q * d)" by (simp add: unat_times_limb)
  also have "q * d = l" unfolding q_def using inv by (simp add: mult.assoc)
  finally have x: "unat x = unat l" .
  have "LB * unat h < LB * unat d"
  proof -
    have "unat q * unat d < LB * unat d" using d unat_lt_LB [of q] by (simp add: unat_gt_0)
    then show ?thesis using Q by linarith
  qed
  then have h: "unat h < unat d" by simp
  define b where "b = of_bool (l > s) + h"
  have r: "modexact_step di d s c = b"
    by (simp add: modexact_step_def SUBC_LIMB_def Let_def u b_def flip: l_def q_def)
  have bb: "unat b = of_bool (s < c) + unat h"
    using h unat_lt_LB [of d] unat_plus_if [of "of_bool (l > s)" h] by (simp add: b_def l_def sub_borrow_iff)
  have l: "unat l + unat c = unat s + LB * of_bool (s < c)" unfolding l_def by (rule sub_borrow)
  have "LB * unat b + unat s = unat q * unat d + unat c" using Q x l unfolding bb by (simp add: distrib_left)
  then show "LB * unat (modexact_step di d s c) + unat s = unat ((s - c) * di) * unat d + unat c"
    unfolding r q_def l_def .
  show "unat (modexact_step di d s c) \<le> unat d" unfolding r bb using h by simp
  show "unat (modexact_step di d s c) < unat d" if "unat c < unat d"
  proof (cases "s < c")
    case True
    have "unat h \<noteq> unat d - 1"
    proof
      assume e: "unat h = unat d - 1"
      then obtain k where k: "unat d = Suc k" "unat h = k" using h by (cases "unat d") auto
      have "LB * k + unat l = unat q * Suc k" using Q x k by simp
      also have "\<dots> \<le> (LB - 1) * Suc k" using unat_lt_LB [of q] by (intro mult_le_mono1) (simp add: LB_def)
      finally have "LB * k + unat l \<le> LB * k + LB - Suc k" by (simp add: LB_def algebra_simps)
      then have "unat l + Suc k \<le> LB" using k unat_lt_LB [of d] by simp
      then show False using l True that k by simp
    qed
    then show ?thesis unfolding r bb using h True by simp
  qed (use h bb r in simp)
qed

lemma modexact_loop_spec:
  assumes inv: "di * d = 1" and d: "d \<noteq> 0"
  shows "unat c < unat d \<Longrightarrow> \<exists>q. LB ^ k * unat (modexact_loop k src di d c m) + mval m src k = q * unat d + unat c
    \<and> unat (modexact_loop k src di d c m) < unat d"
proof (induction k arbitrary: src c)
  case (Suc k)
  define c1 where "c1 = modexact_step di d (m src) c"
  note S = modexact_step_spec [OF inv d, where s = "m src" and c = c, folded c1_def]
  obtain q1 where q1: "LB * unat c1 + unat (m src) = q1 * unat d + unat c" using S(1) by blast
  have "unat c1 < unat d" using S(3) Suc.prems by blast
  then obtain q where q2: "LB ^ k * unat (modexact_loop k (src + 1) di d c1 m) + mval m (src + 1) k = q * unat d + unat c1"
    and r: "unat (modexact_loop k (src + 1) di d c1 m) < unat d"
    using Suc.IH [of c1 "src + 1"] by blast
  have "LB * (LB ^ k * unat (modexact_loop k (src + 1) di d c1 m) + mval m (src + 1) k) = LB * (q * unat d + unat c1)"
    using q2 by simp
  then have "LB ^ Suc k * unat (modexact_loop k (src + 1) di d c1 m) + mval m src (Suc k) = (LB * q + q1) * unat d + unat c"
    using q1 by (simp add: algebra_simps)
  moreover have "modexact_loop (Suc k) src di d c m = modexact_loop k (src + 1) di d c1 m" by (simp add: c1_def)
  ultimately show ?case using r by metis
qed auto

text \<open>The result is, up to a power of the limb base, the negated remainder.\<close>

lemma mpn_modexact_1c_odd_spec:
  fixes m :: mem and src :: ptr
  assumes n: "1 \<le> sz" and odd: "odd d" and c: "unat c < unat d"
  defines "r \<equiv> mpn_modexact_1c_odd m src sz d c"
  shows "\<exists>q. int (LB ^ (sz - 1) * unat r) + int (mval m src sz) - int (unat c) = q * int (unat d)
      \<or> int (LB ^ sz * unat r) + int (mval m src sz) - int (unat c) = q * int (unat d)"
    and "unat r < unat d"
proof -
  have d0: "d \<noteq> 0" using c by auto
  have dp: "0 < unat d" using c by simp
  have "(\<exists>q. int (LB ^ (sz - 1) * unat r) + int (mval m src sz) - int (unat c) = q * int (unat d)
      \<or> int (LB ^ sz * unat r) + int (mval m src sz) - int (unat c) = q * int (unat d)) \<and> unat r < unat d"
  proof (cases "sz = 1")
    case True
    define s where "s = m src"
    show ?thesis
    proof (cases "s > c")
      case True
      define h where "h = (s - c) mod d"
      have ul: "unat (s - c) = unat s - unat c" using True by (simp add: unat_minus_limb less_imp_le)
      have uh: "unat h = (unat s - unat c) mod unat d" by (simp add: h_def unat_mod ul)
      have hl: "unat h < unat d" unfolding uh using dp by simp
      have r: "r = (if h \<noteq> 0 then d - h else h)" using True \<open>sz = 1\<close> by (simp add: r_def mpn_modexact_1c_odd_def s_def h_def Let_def)
      have ur: "unat r = (if h \<noteq> 0 then unat d - unat h else 0)" unfolding r using hl by (simp add: unat_minus_limb limb_le_iff)
      define Q where "Q = (unat s - unat c) div unat d"
      have "unat s - unat c = Q * unat d + unat h" unfolding Q_def uh by simp
      then have e: "int (unat s) - int (unat c) = int Q * int (unat d) + int (unat h)"
      proof -
        have "unat s = Q * unat d + unat h + unat c" using \<open>unat s - unat c = Q * unat d + unat h\<close> True by (simp add: limb_less_iff)
        then have "int (unat s) = int (Q * unat d + unat h + unat c)" by (simp only:)
        then show ?thesis unfolding of_nat_add of_nat_mult by linarith
      qed
      have "int (unat r) + int (unat s) - int (unat c) = (int Q + of_bool (h \<noteq> 0)) * int (unat d)"
        using e hl unfolding ur by (simp add: algebra_simps of_nat_diff)
      moreover have "unat r < unat d" unfolding ur using hl dp by (auto simp: unat_gt_0)
      ultimately show ?thesis using \<open>sz = 1\<close> by (auto simp: s_def)
    next
      case False
      have ul: "unat (c - s) = unat c - unat s" using False by (simp add: unat_minus_limb not_less)
      have ur: "unat r = (unat c - unat s) mod unat d"
        using False \<open>sz = 1\<close> by (simp add: r_def mpn_modexact_1c_odd_def s_def unat_mod ul [unfolded s_def])
      then have "unat r = unat c - unat s" using c by simp
      then have "int (unat r) + int (unat s) - int (unat c) = 0 * int (unat d)" using False by (simp add: limb_le_iff not_less of_nat_diff)
      moreover have "unat r < unat d" unfolding ur using dp by simp
      ultimately show ?thesis using \<open>sz = 1\<close> by (auto simp: s_def)
    qed
  next
    case False
    define di where "di = modlimb_invert d"
    have inv: "di * d = 1" using modlimb_invert_correct [OF odd] by (simp add: di_def)
    define c1 s where "c1 = modexact_loop (sz - 1) src di d c m" and "s = m (src + (sz - 1))"
    obtain q where q: "LB ^ (sz - 1) * unat c1 + mval m src (sz - 1) = q * unat d + unat c" and c1: "unat c1 < unat d"
      using modexact_loop_spec [OF inv d0 c, where k = "sz - 1" and src = src and m = m, folded c1_def] by blast
    have v: "mval m src sz = mval m src (sz - 1) + LB ^ (sz - 1) * unat s" using mval_high [of m src "sz - 1"] n by (simp add: s_def)
    have r: "r = (if s \<le> d then (let l = c1 - s in if l > c1 then l + d else l) else modexact_step di d s c1)"
      using False unfolding r_def mpn_modexact_1c_odd_def Let_def c1_def s_def di_def by simp
    show ?thesis
    proof (cases "s \<le> d")
      case True
      define b where "b = of_bool (c1 < s)"
      have "unat r + unat s = unat c1 + unat d * of_bool (c1 < s)"
      proof (cases "c1 < s")
        case b: True
        have e: "unat (c1 - s) + unat s = unat c1 + LB" using sub_borrow [of c1 s] b by simp
        have "unat (c1 - s) + unat d \<ge> LB" using e True b by (simp add: limb_le_iff limb_less_iff)
        then have "unat (c1 - s + d) + LB = unat (c1 - s) + unat d"
          using unat_plus_if [of "c1 - s" d] by simp
        moreover have "r = c1 - s + d" using True b by (simp add: r sub_borrow_iff)
        ultimately show ?thesis using e b by simp
      next
        case b: False
        then show ?thesis using True sub_borrow [of c1 s] by (simp add: r sub_borrow_iff)
      qed
      note e = this
      have "LB ^ (sz - 1) * (unat r + unat s) = LB ^ (sz - 1) * (unat c1 + unat d * of_bool (c1 < s))" using e by simp
      then have "LB ^ (sz - 1) * unat r + mval m src sz = (q + LB ^ (sz - 1) * of_bool (c1 < s)) * unat d + unat c"
        using q unfolding v by (simp add: algebra_simps)
      then have "int (LB ^ (sz - 1) * unat r) + int (mval m src sz) - int (unat c) = int (q + LB ^ (sz - 1) * of_bool (c1 < s)) * int (unat d)"
        by (simp only: flip: of_nat_add of_nat_mult)
      moreover have "unat r < unat d" using e c1 by (cases "c1 < s") (simp_all add: limb_less_iff)
      ultimately show ?thesis by blast
    next
      case False
      then have rr: "r = modexact_step di d s c1" by (simp add: r)
      note S = modexact_step_spec [OF inv d0, where s = s and c = c1, folded rr]
      obtain q1 where q1: "LB * unat r + unat s = q1 * unat d + unat c1" using S(1) by blast
      obtain k where k: "sz = Suc k" using n by (cases sz) auto
      have p: "LB ^ sz * unat r = LB ^ (sz - 1) * (LB * unat r)" by (simp add: k)
      have "LB ^ (sz - 1) * (LB * unat r) + LB ^ (sz - 1) * unat s = LB ^ (sz - 1) * (LB * unat r + unat s)"
        by (simp only: distrib_left)
      also have "\<dots> = LB ^ (sz - 1) * q1 * unat d + LB ^ (sz - 1) * unat c1" unfolding q1 by (simp add: distrib_left)
      finally have "LB ^ sz * unat r + mval m src sz = (q + LB ^ (sz - 1) * q1) * unat d + unat c"
        using q unfolding v p distrib_right by linarith
      then have "int (LB ^ sz * unat r) + int (mval m src sz) - int (unat c) = int (q + LB ^ (sz - 1) * q1) * int (unat d)"
        by (simp only: flip: of_nat_add of_nat_mult)
      then show ?thesis using S(3) c1 by blast
    qed
  qed
  then show "\<exists>q. int (LB ^ (sz - 1) * unat r) + int (mval m src sz) - int (unat c) = q * int (unat d)
      \<or> int (LB ^ sz * unat r) + int (mval m src sz) - int (unat c) = q * int (unat d)" "unat r < unat d"
    by blast+
qed

section \<open>The greatest common divisor with a limb\<close>

text \<open>The loops \<open>do u >>= 1; while ((u & 1) == 0)\<close>, entered at the test; the first never ends at zero.\<close>

partial_function (option) strip_zeros :: "limb \<Rightarrow> limb option" where
  "strip_zeros u = (if u AND 1 = 0 then strip_zeros (drop_bit 1 u) else Some u)"

partial_function (option) gcd_1_loop :: "limb \<Rightarrow> limb \<Rightarrow> limb option" where
  "gcd_1_loop ulimb vlimb =
     (if ulimb \<noteq> vlimb
      then (if ulimb > vlimb
            then (case strip_zeros (drop_bit 1 (ulimb - vlimb)) of
                    None \<Rightarrow> None
                  | Some ulimb \<Rightarrow> gcd_1_loop ulimb vlimb)
            else (case strip_zeros (drop_bit 1 (vlimb - ulimb)) of
                    None \<Rightarrow> None
                  | Some vlimb \<Rightarrow> gcd_1_loop ulimb vlimb))
      else Some vlimb)"

text \<open>From a remainder \<open>ulimb\<close>: the jump to \<open>done\<close> when it is zero, else the one to \<open>strip_u_maybe\<close>.\<close>

definition gcd_1_from :: "limb \<Rightarrow> limb \<Rightarrow> limb option" where
  "gcd_1_from ulimb vlimb =
     (if ulimb = 0 then Some vlimb
      else (case strip_zeros ulimb of None \<Rightarrow> None | Some ulimb \<Rightarrow> gcd_1_loop ulimb vlimb))"

definition mpn_gcd_1 :: "mem \<Rightarrow> ptr \<Rightarrow> nat \<Rightarrow> limb \<Rightarrow> limb option" where
  "mpn_gcd_1 m up sz vlimb =
     (let ulimb = m up;
          zero_bits = count_trailing_zeros vlimb;
          vlimb = drop_bit (unat zero_bits) vlimb
      in if sz > 1
         then (let zero_bits = (if ulimb \<noteq> 0 then min zero_bits (count_trailing_zeros ulimb) else zero_bits)
               in map_option (push_bit (unat zero_bits)) (gcd_1_from (MPN_MOD_OR_MODEXACT_1_ODD m up sz vlimb) vlimb))
         else (let u_low_zero_bits = count_trailing_zeros ulimb;
                   ulimb = drop_bit (unat u_low_zero_bits) ulimb;
                   zero_bits = min zero_bits u_low_zero_bits;
                   (ulimb, vlimb) = (if vlimb > ulimb then (vlimb, ulimb) else (ulimb, vlimb))
               in map_option (push_bit (unat zero_bits))
                    (if drop_bit 16 ulimb > vlimb then gcd_1_from (ulimb mod vlimb) vlimb
                     else gcd_1_loop ulimb vlimb)))"

subsection \<open>Facts on common divisors\<close>

lemma gcd_two_power: "odd (v :: nat) \<Longrightarrow> gcd (2 ^ k * u) v = gcd u v"
  by (rule gcd_mult_left_left_cancel) simp

lemma gcd_low_zeros:
  assumes v: "odd (v :: nat)" and u: "u = 2 ^ a * u'" and a: "z \<le> a \<or> odd u'"
  shows "gcd u (2 ^ z * v) = 2 ^ min z a * gcd u v"
proof (cases "z \<le> a")
  case True
  have e: "u = 2 ^ z * (2 ^ (a - z) * u')" using True by (simp add: u flip: power_add)
  have "gcd u (2 ^ z * v) = 2 ^ z * gcd (2 ^ (a - z) * u') v" by (subst e) (rule gcd_mult_distrib_nat [symmetric])
  also have "gcd (2 ^ (a - z) * u') v = gcd u v" by (subst e) (simp only: gcd_two_power [OF v])
  finally show ?thesis using True by simp
next
  case False
  then have o: "odd u'" and az: "a < z" using a by auto
  have "2 ^ z * v = 2 ^ a * (2 ^ (z - a) * v)" using az by (simp flip: power_add)
  then have "gcd u (2 ^ z * v) = 2 ^ a * gcd u' (2 ^ (z - a) * v)" by (simp only: u gcd_mult_distrib_nat)
  also have "gcd u' (2 ^ (z - a) * v) = gcd u' v" using gcd_two_power [OF o] by (simp only: gcd.commute)
  also have "gcd u' v = gcd u v" by (simp only: u gcd_two_power [OF v])
  finally show ?thesis using az by simp
qed

lemma gcd_odd_difference:
  fixes u v x :: nat
  assumes "odd v" "v < u" "u - v = 2 ^ k * x"
  shows "gcd x v = gcd u v"
proof -
  have "gcd u v = gcd (u - v) v" using assms(2) by (simp add: gcd_diff1_nat)
  then show ?thesis using gcd_two_power [OF assms(1), of k x] assms(3) by simp
qed

text \<open>What the remainder from the low end shares with the remainder: its common divisors with the odd divisor.\<close>

lemma gcd_of_negated:
  fixes r v d :: nat
  assumes d: "odd d" and e: "int (LB ^ k * r) + int v - int 0 = q * int d"
  shows "gcd r d = gcd v d"
proof -
  have L: "LB ^ k * r = 2 ^ (32 * k) * r" by (simp add: LB_power power_mult)
  have "int (LB ^ k * r) = q * int d + - int v" using e by simp
  then have "gcd (int (LB ^ k * r)) (int d) = gcd (- int v) (int d)" by (metis gcd_add_mult gcd.commute add.commute)
  then have "int (gcd (LB ^ k * r) d) = int (gcd v d)" unfolding gcd_neg1_int gcd_int_int_eq .
  then have "gcd (LB ^ k * r) d = gcd v d" by (simp only: of_nat_eq_iff)
  then show ?thesis unfolding L gcd_two_power [OF d] .
qed

lemma even_limb_iff: "even (x :: limb) \<longleftrightarrow> even (unat x)"
  by transfer (simp add: even_take_bit_eq even_nat_iff)

lemma odd_limb_iff: "(x :: limb) AND 1 = 0 \<longleftrightarrow> even (unat x)"
  by (simp only: and_one_eq even_limb_iff [symmetric] even_iff_mod_2_eq_zero [symmetric])

subsection \<open>Correctness\<close>

lemma strip_zeros_spec:
  "x \<noteq> 0 \<Longrightarrow> \<exists>y k. strip_zeros x = Some y \<and> odd (unat y) \<and> unat x = 2 ^ k * unat y"
proof (induction "unat x" arbitrary: x rule: less_induct)
  case less
  show ?case
  proof (cases "even (unat x)")
    case True
    define x1 where "x1 = drop_bit 1 x"
    have u: "unat x = 2 * unat x1" using True by (simp add: x1_def unat_drop_limb)
    have "x1 \<noteq> 0" "unat x1 < unat x" using u less.prems by (auto simp: limb_eq_iff)
    then obtain y k where y: "strip_zeros x1 = Some y" "odd (unat y)" "unat x1 = 2 ^ k * unat y"
      using less.hyps [of x1] by blast
    have "strip_zeros x = Some y" using True y(1) by (subst strip_zeros.simps) (simp add: odd_limb_iff x1_def)
    moreover have "unat x = 2 ^ Suc k * unat y" using u y(3) by simp
    ultimately show ?thesis using y(2) by blast
  next
    case False
    then have "strip_zeros x = Some x" by (subst strip_zeros.simps) (simp add: odd_limb_iff)
    moreover have "unat x = 2 ^ 0 * unat x" by simp
    ultimately show ?thesis using False by blast
  qed
qed

lemma strip_difference:
  assumes o: "odd (unat u)" "odd (unat v)" and l: "v < u"
  obtains x where "strip_zeros (drop_bit 1 (u - v)) = Some x" "odd (unat x)"
    and "gcd (unat x) (unat v) = gcd (unat u) (unat v)" "unat x < unat u"
proof -
  have d: "unat (u - v) = unat u - unat v" using l by (simp add: unat_minus_limb less_imp_le)
  have e: "even (unat u - unat v)" "0 < unat u - unat v" using o l by (auto simp: limb_less_iff)
  define x1 where "x1 = drop_bit 1 (u - v)"
  have u1: "unat u - unat v = 2 * unat x1" using e by (simp add: x1_def unat_drop_limb d)
  have "x1 \<noteq> 0" using u1 e by auto
  then obtain x k where x: "strip_zeros x1 = Some x" "odd (unat x)" "unat x1 = 2 ^ k * unat x"
    using strip_zeros_spec by blast
  have k: "unat u - unat v = 2 ^ Suc k * unat x" using u1 x(3) by simp
  have "gcd (unat x) (unat v) = gcd (unat u) (unat v)"
    using gcd_odd_difference [OF o(2) _ k] l by (simp add: limb_less_iff)
  moreover have "unat x < unat u"
  proof -
    have "unat x \<le> unat x1" unfolding x(3) by simp
    then show ?thesis using u1 e(2) by linarith
  qed
  ultimately show ?thesis using that x(1,2) x1_def by blast
qed

lemma gcd_1_loop_spec:
  "odd (unat u) \<Longrightarrow> odd (unat v) \<Longrightarrow> \<exists>g. gcd_1_loop u v = Some g \<and> unat g = gcd (unat u) (unat v)"
proof (induction "unat u + unat v" arbitrary: u v rule: less_induct)
  case less
  consider "u = v" | "v < u" | "u < v" by fastforce
  then show ?case
  proof cases
    case 1
    then show ?thesis by (subst gcd_1_loop.simps) simp
  next
    case 2
    then obtain x where x: "strip_zeros (drop_bit 1 (u - v)) = Some x" "odd (unat x)"
      "gcd (unat x) (unat v) = gcd (unat u) (unat v)" "unat x < unat u"
      using strip_difference less.prems by blast
    have "gcd_1_loop u v = gcd_1_loop x v" using 2 x(1) by (subst gcd_1_loop.simps) auto
    then show ?thesis using less.hyps [of x v] x less.prems by auto
  next
    case 3
    then obtain x where x: "strip_zeros (drop_bit 1 (v - u)) = Some x" "odd (unat x)"
      "gcd (unat x) (unat u) = gcd (unat v) (unat u)" "unat x < unat v"
      using strip_difference less.prems by blast
    have "gcd_1_loop u v = gcd_1_loop u x" using 3 x(1) by (subst gcd_1_loop.simps) auto
    then show ?thesis using less.hyps [of u x] x less.prems by (auto simp: gcd.commute)
  qed
qed

lemma gcd_1_from_spec:
  assumes "odd (unat v)" "gcd (unat r) (unat v) = G"
  shows "\<exists>g. gcd_1_from r v = Some g \<and> unat g = G"
proof (cases "r = 0")
  case True
  then show ?thesis using assms by (simp add: gcd_1_from_def)
next
  case False
  then obtain y k where y: "strip_zeros r = Some y" "odd (unat y)" "unat r = 2 ^ k * unat y"
    using strip_zeros_spec by blast
  obtain g where g: "gcd_1_loop y v = Some g" "unat g = gcd (unat y) (unat v)" using gcd_1_loop_spec [OF y(2) assms(1)] by blast
  have "unat g = G" using g(2) y(3) assms by (simp add: gcd_two_power)
  then show ?thesis using False y(1) g(1) by (simp add: gcd_1_from_def)
qed

lemma reduced_gcd:
  assumes n: "1 \<le> sz" and o: "odd (unat v)"
  shows "gcd (unat (MPN_MOD_OR_MODEXACT_1_ODD m up sz v)) (unat v) = gcd (mval m up sz) (unat v)"
proof -
  have v: "v \<noteq> 0" "odd v" "unat (0 :: limb) < unat v" using o by (auto simp: even_limb_iff unat_gt_0)
  show ?thesis
  proof (cases "ABOVE_THRESHOLD sz MODEXACT_1_ODD_THRESHOLD")
    case True
    then show ?thesis
      using mpn_modexact_1c_odd_spec(1) [OF n v(2,3), where m = m and src = up] gcd_of_negated [OF o]
      unfolding MPN_MOD_OR_MODEXACT_1_ODD_def by (auto simp only: if_True unat_0)
  next
    case False
    then show ?thesis
      using mpn_mod_1_spec [OF v(1)] by (simp add: MPN_MOD_OR_MODEXACT_1_ODD_def gcd.commute gcd_red_nat [symmetric])
  qed
qed

lemma trailing_zeros:
  assumes "x \<noteq> 0"
  shows "unat x = 2 ^ unat (count_trailing_zeros x) * unat (drop_bit (unat (count_trailing_zeros x)) x)"
    and "odd (unat (drop_bit (unat (count_trailing_zeros x)) x))" and "unat (count_trailing_zeros x) < 32"
proof -
  obtain j where j: "unat x = 2 ^ unat (count_trailing_zeros x) * (2 * j + 1)" and l: "unat (count_trailing_zeros x) < 32"
    using count_trailing_zeros_correct [OF assms] by blast
  have d: "unat (drop_bit (unat (count_trailing_zeros x)) x) = 2 * j + 1" unfolding unat_drop_limb by (subst j) simp
  show "unat x = 2 ^ unat (count_trailing_zeros x) * unat (drop_bit (unat (count_trailing_zeros x)) x)" using j d by simp
  show "odd (unat (drop_bit (unat (count_trailing_zeros x)) x))" using d by simp
  show "unat (count_trailing_zeros x) < 32" by (rule l)
qed

lemma unat_min: "unat (min (x :: limb) y) = min (unat x) (unat y)"
  by (simp add: min_def) (simp add: limb_le_iff)

lemma mpn_gcd_1_spec:
  assumes n: "1 \<le> sz" and v: "v \<noteq> 0" and u: "sz = 1 \<Longrightarrow> m up \<noteq> 0"
  shows "\<exists>g. mpn_gcd_1 m up sz v = Some g \<and> unat g = gcd (mval m up sz) (unat v)"
proof -
  define z v' where "z = count_trailing_zeros v" and "v' = drop_bit (unat z) v"
  note T = trailing_zeros [OF v, folded z_def, folded v'_def]
  have le: "gcd (mval m up sz) (unat v) < LB"
    using le_less_trans [OF gcd_le2_nat [of "unat v" "mval m up sz"]] v unat_lt_LB [of v] by (simp add: unat_eq_0)
  obtain b g :: limb where b: "unat b < 32" and r: "mpn_gcd_1 m up sz v = Some (push_bit (unat b) g)"
    and e: "gcd (mval m up sz) (unat v) = 2 ^ unat b * unat g"
  proof (cases "sz > 1")
    case True
    define b where "b = (if m up \<noteq> 0 then min z (count_trailing_zeros (m up)) else z)"
    obtain g where g: "gcd_1_from (MPN_MOD_OR_MODEXACT_1_ODD m up sz v') v' = Some g" "unat g = gcd (mval m up sz) (unat v')"
      using gcd_1_from_spec [OF T(2) reduced_gcd [OF n T(2)]] by blast
    have V: "mval m up sz = unat (m up) + LB * mval m (up + 1) (sz - 1)" using n by (cases sz) auto
    have "gcd (mval m up sz) (2 ^ unat z * unat v') = 2 ^ unat b * gcd (mval m up sz) (unat v')"
    proof (cases "m up = 0")
      case True
      have "mval m up sz = 2 ^ 32 * mval m (up + 1) (sz - 1)" using V True by (simp add: LB_def)
      then show ?thesis using gcd_low_zeros [OF T(2), of _ 32 _ "unat z"] T(3) True by (simp add: b_def)
    next
      case False
      define a where "a = count_trailing_zeros (m up)"
      note A = trailing_zeros [OF False, folded a_def]
      have "LB = 2 ^ unat a * 2 ^ (32 - unat a)" using A(3) by (simp add: LB_power flip: power_add)
      then have "mval m up sz = 2 ^ unat a * (unat (drop_bit (unat a) (m up)) + 2 ^ (32 - unat a) * mval m (up + 1) (sz - 1))"
        using V A(1) by (simp add: distrib_left mult.assoc)
      moreover have "odd (unat (drop_bit (unat a) (m up)) + 2 ^ (32 - unat a) * mval m (up + 1) (sz - 1))"
        using A(2,3) by simp
      ultimately show ?thesis using gcd_low_zeros [OF T(2)] False by (simp add: b_def unat_min flip: a_def)
    qed
    then have "gcd (mval m up sz) (unat v) = 2 ^ unat b * unat g" using g(2) T(1) by simp
    moreover have "unat b < 32" using T(3) by (auto simp: b_def unat_min)
    moreover have "mpn_gcd_1 m up sz v = Some (push_bit (unat b) g)"
      using True g(1) unfolding mpn_gcd_1_def Let_def by (simp add: b_def flip: z_def) (simp flip: v'_def)
    ultimately show ?thesis by (rule that [rotated 2])
  next
    case False
    then have s1: "sz = 1" using n by simp
    define a u' where "a = count_trailing_zeros (m up)" and "u' = drop_bit (unat a) (m up)"
    note A = trailing_zeros [OF u [OF s1], folded a_def, folded u'_def]
    define b x y where "b = min z a" and "x = max u' v'" and "y = min u' v'"
    have o: "odd (unat x)" "odd (unat y)" using A(2) T(2) by (auto simp: x_def y_def max_def min_def)
    have y0: "y \<noteq> 0" using o by auto
    have G: "gcd (unat x) (unat y) = gcd (unat u') (unat v')" by (auto simp: x_def y_def max_def min_def gcd.commute)
    have "\<exists>g. (if drop_bit 16 x > y then gcd_1_from (x mod y) y else gcd_1_loop x y) = Some g \<and> unat g = gcd (unat x) (unat y)"
      using gcd_1_from_spec [OF o(2), of "x mod y" "gcd (unat x) (unat y)"] gcd_1_loop_spec [OF o]
      by (auto simp: unat_mod gcd.commute gcd_red_nat [symmetric])
    then obtain g where g: "(if drop_bit 16 x > y then gcd_1_from (x mod y) y else gcd_1_loop x y) = Some g"
      "unat g = gcd (unat u') (unat v')" unfolding G by blast
    have V: "mval m up sz = 2 ^ unat a * unat u'" using A(1) by (simp add: s1)
    have "gcd (mval m up sz) (2 ^ unat z * unat v') = 2 ^ unat b * gcd (mval m up sz) (unat v')"
      using gcd_low_zeros [OF T(2) V] A(2) by (simp add: b_def unat_min)
    then have "gcd (mval m up sz) (unat v) = 2 ^ unat b * unat g"
      using g(2) T(1) gcd_two_power [OF T(2), of "unat a" "unat u'"] by (simp add: V)
    moreover have "unat b < 32" using T(3) by (simp add: b_def unat_min)
    moreover have "mpn_gcd_1 m up sz v = Some (push_bit (unat b) g)"
    proof -
      have p: "(if v' > u' then (v', u') else (u', v')) = (x, y)" by (auto simp: x_def y_def max_def min_def)
      have "mpn_gcd_1 m up sz v = map_option (push_bit (unat b)) (if drop_bit 16 x > y then gcd_1_from (x mod y) y else gcd_1_loop x y)"
        unfolding mpn_gcd_1_def Let_def a_def [symmetric] z_def [symmetric] u'_def [symmetric] v'_def [symmetric] b_def [symmetric] p
        using s1 by simp
      then show ?thesis using g(1) by simp
    qed
    ultimately show ?thesis by (rule that [rotated 2])
  qed
  have "unat (push_bit (unat b) g) = 2 ^ unat b * unat g" by (rule unat_push_small) (use b le e in simp_all)
  then show ?thesis using r e by simp
qed

end
