(* ===== verification/Mpz_GcdUi.thy ===== *)
theory Mpz_GcdUi
  imports Mpn_Gcd1 Mpz_Arith
begin

text \<open>
  Greatest common divisor and least common multiple of a variable and an unsigned long (\<open>mpz/gcd_ui.c\<close>,
  \<open>mpz/lcm_ui.c\<close>). The result variable of \<open>mpz_gcd_ui\<close> may be a null pointer, here \<open>None\<close>; the
  returned limb is the greatest common divisor when that fits a limb, else 0.
\<close>

section \<open>The operations\<close>

definition mpz_gcd_ui :: "var option \<Rightarrow> var \<Rightarrow> limb \<Rightarrow> state \<Rightarrow> (limb \<times> state) option" where
  "mpz_gcd_ui w u v st =
     (let un = ABSIZ st u;
          ret = (\<lambda>res. (res, case w of None \<Rightarrow> st
                               | Some w \<Rightarrow> set_SIZ w (of_bool (res \<noteq> 0)) (set_heap ((heap st)(PTR st w := res)) st)))
      in if un = 0 then Some (ret v)
         else if v = 0
         then (let st = (case w of None \<Rightarrow> st
                         | Some w \<Rightarrow>
                             let st = (if u \<noteq> w
                                       then (let st = MPZ_REALLOC w un st
                                             in set_heap (MPN_COPY (PTR st w) (PTR st u) un (heap st)) st)
                                       else st)
                             in set_SIZ w (int un) st)
               in Some (if un > 1 then 0 else heap st (PTR st u), st))
         else map_option ret (mpn_gcd_1 (heap st) (PTR st u) un v))"

definition mpz_lcm_ui :: "var \<Rightarrow> var \<Rightarrow> limb \<Rightarrow> state \<Rightarrow> state option" where
  "mpz_lcm_ui r u v st =
     (let usize = SIZ st u
      in if usize = 0 \<or> v = 0 then Some (set_SIZ r 0 st)
         else (let usize = nat \<bar>usize\<bar>;
                   st = MPZ_REALLOC r (usize + 1) st;
                   up = PTR st u
               in map_option (\<lambda>g. let v = v div g;
                                      rp = PTR st r;
                                      (c, m) = mpn_mul_1 rp up usize v (heap st);
                                      m = m(rp + usize := c);
                                      usize = usize + of_bool (c \<noteq> 0)
                                  in set_SIZ r (int usize) (set_heap m st))
                    (mpn_gcd_1 (heap st) up usize v)))"

section \<open>Correctness\<close>

text \<open>The limbs of a variable against a limb.\<close>

lemma mpn_gcd_1_variable:
  assumes ok: "store_ok st" and u: "u \<in> live st" and n: "SIZ st u \<noteq> 0" and v: "v \<noteq> 0"
  shows "\<exists>g. mpn_gcd_1 (heap st) (PTR st u) (ABSIZ st u) v = Some g \<and> int (unat g) = gcd (zval st u) (int (unat v))"
proof -
  have "1 \<le> ABSIZ st u" using n by (simp add: ABSIZ_SIZ)
  moreover have "heap st (PTR st u) \<noteq> 0" if "ABSIZ st u = 1"
    using mval_ABSIZ_ge [OF ok u n] that by (auto simp: unat_eq_0)
  ultimately obtain g where g: "mpn_gcd_1 (heap st) (PTR st u) (ABSIZ st u) v = Some g"
    "unat g = gcd (mval (heap st) (PTR st u) (ABSIZ st u)) (unat v)"
    using mpn_gcd_1_spec [OF _ v] by blast
  have "int (unat g) = gcd \<bar>zval st u\<bar> (int (unat v))" unfolding g(2) zval_abs [OF ok u] gcd_int_int_eq ..
  then show ?thesis using g(1) by simp
qed

lemma mpz_gcd_ui_spec:
  assumes ok: "store_ok st" and u: "u \<in> live st" and w: "\<And>x. w = Some x \<Longrightarrow> x \<in> live st"
  shows "\<exists>res st'. mpz_gcd_ui w u v st = Some (res, st')
    \<and> int (unat res) = (if gcd (zval st u) (int (unat v)) < int LB then gcd (zval st u) (int (unat v)) else 0)
    \<and> (case w of None \<Rightarrow> st' = st | Some x \<Rightarrow> updates st x (gcd (zval st u) (int (unat v))) st')"
proof -
  define G where "G = gcd (zval st u) (int (unat v))"
  define R where "R res = (case w of None \<Rightarrow> st
    | Some w \<Rightarrow> set_SIZ w (of_bool (res \<noteq> 0)) (set_heap ((heap st)(PTR st w := res)) st))" for res
  have limb_result: "case w of None \<Rightarrow> R res = st | Some x \<Rightarrow> updates st x (int (unat res)) (R res)" for res
    using one_limb_spec [OF ok w, where neg = False and v = res] by (cases w) (simp_all add: R_def)
  have one_limb: ?thesis if "mpz_gcd_ui w u v st = Some (g, R g)" "int (unat g) = G" for g
  proof -
    have "G < int LB" using unat_lt_LB [of g] unfolding that(2) [symmetric] by (simp only: of_nat_less_iff)
    then show ?thesis using that limb_result [of g] unfolding G_def [symmetric] by (simp only: if_True) blast
  qed
  show ?thesis
  proof (cases "SIZ st u = 0")
    case True
    then have "G = int (unat v)" by (simp add: G_def zval_def)
    then show ?thesis
      using True by (intro one_limb [of v]) (simp_all add: mpz_gcd_ui_def Let_def ABSIZ_SIZ R_def)
  next
    case u0: False
    show ?thesis
    proof (cases "v = 0")
      case False
      obtain g where g: "mpn_gcd_1 (heap st) (PTR st u) (ABSIZ st u) v = Some g" "int (unat g) = G"
        using mpn_gcd_1_variable [OF ok u u0 False] unfolding G_def by blast
      then show ?thesis
        using u0 False by (intro one_limb [of g]) (simp_all add: mpz_gcd_ui_def Let_def ABSIZ_SIZ R_def)
    next
      case True
      define A where "A = mval (heap st) (PTR st u) (ABSIZ st u)"
      have G: "G = int A" using zval_abs [OF ok u] by (simp add: G_def True A_def)
      have v0: "int (unat v) = 0" using True by simp
      have res: "int (unat (if ABSIZ st u > 1 then 0 else m p)) = (if int A < int LB then int A else 0)"
        if "mval m p (ABSIZ st u) = A" for m p
      proof (cases "ABSIZ st u > 1")
        case True
        have "LB ^ 1 \<le> LB ^ (ABSIZ st u - 1)" using True by (intro power_increasing) (auto simp: LB_def)
        then have "LB \<le> A" using mval_ABSIZ_ge [OF ok u u0] by (simp add: A_def)
        then show ?thesis using True by simp
      next
        case False
        then have "ABSIZ st u = 1" using u0 by (simp add: ABSIZ_SIZ)
        then show ?thesis using that unat_lt_LB [of "m p"] by auto
      qed
      show ?thesis
      proof (cases w)
        case None
        note R = res [OF A_def [symmetric]]
        have "mpz_gcd_ui w u v st = Some (if ABSIZ st u > 1 then 0 else heap st (PTR st u), st)"
          using u0 True None by (simp add: mpz_gcd_ui_def Let_def ABSIZ_SIZ)
        then show ?thesis unfolding G_def [symmetric] using R None by (simp add: G)
      next
        case (Some x)
        have x: "x \<in> live st" using w Some by blast
        define st' where "st' = (if u \<noteq> x
          then set_SIZ x (int (ABSIZ st u)) (set_heap (MPN_COPY (PTR (MPZ_REALLOC x (ABSIZ st u) st) x)
            (PTR (MPZ_REALLOC x (ABSIZ st u) st) u) (ABSIZ st u) (heap (MPZ_REALLOC x (ABSIZ st u) st))) (MPZ_REALLOC x (ABSIZ st u) st))
          else set_SIZ x (int (ABSIZ st u)) st)"
        have sg: "sgn (int (ABSIZ st u)) * \<bar>zval st u\<bar> = G" using u0 by (simp add: ABSIZ_SIZ G_def True sgn_if)
        have up: "updates st x G st'"
        proof (cases "u = x")
          case True
          then show ?thesis using resign_spec [OF ok x, of "int (ABSIZ st u)"] sg by (simp add: st'_def ABSIZ_SIZ)
        next
          case False
          then show ?thesis using copy_signed [OF ok x u, of "int (ABSIZ st u)"] sg by (simp add: st'_def ABSIZ_SIZ)
        qed
        have "ABSIZ st' u = ABSIZ st u"
        proof (cases "u = x")
          case False
          then have "SIZ st' u = SIZ (MPZ_REALLOC x (ABSIZ st u) st) u" by (simp add: st'_def)
          also have "\<dots> = SIZ st u" by (rule MPZ_REALLOC_spec(5) [OF ok x])
          finally show ?thesis by (simp add: ABSIZ_SIZ)
        qed (simp add: st'_def ABSIZ_SIZ)
        moreover have "\<bar>zval st' u\<bar> = int A"
          using updatesD(3) [OF up] updatesD(4) [OF up u] zval_abs [OF ok u, folded A_def] by (cases "u = x") (simp_all add: G)
        ultimately have "mval (heap st') (PTR st' u) (ABSIZ st u) = A" using zval_abs [OF updatesD(1) [OF up], of u] u updatesD(2) [OF up] by simp
        note R = res [OF this]
        have "mpz_gcd_ui w u v st = Some (if ABSIZ st u > 1 then 0 else heap st' (PTR st' u), st')"
          using u0 True unfolding mpz_gcd_ui_def Let_def Some st'_def by (simp add: ABSIZ_SIZ)
        then show ?thesis unfolding G_def [symmetric] using R up Some by (simp add: G)
      qed
    qed
  qed
qed

lemma mpz_lcm_ui_spec:
  assumes ok: "store_ok st" and r: "r \<in> live st" and u: "u \<in> live st"
  shows "\<exists>st'. mpz_lcm_ui r u v st = Some st' \<and> updates st r (lcm (zval st u) (int (unat v))) st'"
proof (cases "SIZ st u = 0 \<or> v = 0")
  case True
  then have "lcm (zval st u) (int (unat v)) = 0" by (auto simp: zval_def)
  then show ?thesis using zero_result [OF ok r] True by (simp only: mpz_lcm_ui_def Let_def if_True) blast
next
  case False
  define un st1 where "un = ABSIZ st u" and "st1 = MPZ_REALLOC r (un + 1) st"
  note U = operand_realloc [OF ok r u, where n = "un + 1", folded st1_def, folded un_def]
  have u1: "SIZ st1 u \<noteq> 0" "ABSIZ st1 u = un" using False U(5,6) by (simp_all add: un_def)
  obtain g where g: "mpn_gcd_1 (heap st1) (PTR st1 u) un v = Some g" "int (unat g) = gcd (zval st1 u) (int (unat v))"
    using mpn_gcd_1_variable [OF U(1,3) u1(1)] False u1(2) by metis
  define A where "A = mval (heap st1) (PTR st1 u) un"
  have A: "int A = \<bar>zval st u\<bar>" using U(8) by (simp add: A_def)
  have gA: "unat g = gcd A (unat v)"
  proof -
    have "int (unat g) = gcd \<bar>zval st1 u\<bar> (int (unat v))" using g(2) by simp
    also have "\<bar>zval st1 u\<bar> = int A" using zval_abs [OF U(1,3)] u1(2) by (simp add: A_def)
    finally show ?thesis by (simp only: gcd_int_int_eq of_nat_eq_iff)
  qed
  have q: "unat (v div g) = unat v div unat g" by (rule unat_div)
  have Av: "A * unat (v div g) = lcm A (unat v)" by (simp add: q gA lcm_nat_def div_mult_swap)
  obtain c m where eq: "mpn_mul_1 (PTR st1 r) (PTR st1 u) un (v div g) (heap st1) = (c, m)" by fastforce
  have ov: "MPN_SAME_OR_INCR_P (PTR st1 r) (PTR st1 u) un"
    using U(4) by (intro incr_of_separate(1) U(9)) simp_all
  note S = mpn_mul_1_spec [OF eq ov, folded A_def, unfolded Av]
  have Ap: "LB ^ (un - 1) \<le> A" using mval_ABSIZ_ge [OF U(1,3)] u1 by (simp add: A_def)
  then have A0: "A \<noteq> 0" by (intro notI) (simp add: LB_def)
  have top: "un = 0 \<or> m (PTR st1 r + un - 1) \<noteq> 0" if "c = 0"
  proof (rule top_not_zero)
    have "A \<le> lcm A (unat v)" using A0 False by (intro dvd_imp_le) (auto simp: lcm_eq_0_iff limb_eq_iff intro!: Nat.gr0I)
    then show "LB ^ (un - 1) \<le> mval m (PTR st1 r) un" using S(1) that Ap by simp
  qed
  have "mpz_lcm_ui r u v st
      = Some (set_SIZ r (with_sign False (un + of_bool (c \<noteq> 0))) (set_heap (m(PTR st1 r + un := c)) st1))"
    unfolding mpz_lcm_ui_def Let_def ABSIZ_SIZ [symmetric] un_def [symmetric] st1_def [symmetric] g(1)
    using False eq by (simp add: with_sign_def)
  moreover have "updates st1 r (with_sign False (mval m (PTR st1 r) un + LB ^ un * unat c))
      (set_SIZ r (with_sign False (un + of_bool (c \<noteq> 0))) (set_heap (m(PTR st1 r + un := c)) st1))"
    using U(4) by (intro result_carry U S top refl) simp
  moreover have "with_sign False (lcm A (unat v)) = lcm (zval st u) (int (unat v))"
  proof -
    have "lcm (zval st u) (int (unat v)) = lcm \<bar>zval st u\<bar> (int (unat v))" by simp
    then show ?thesis unfolding A [symmetric] lcm_int_int_eq by (simp add: with_sign_def)
  qed
  ultimately show ?thesis
    using S(1) updates_realloc [OF ok r] by (simp add: st1_def)
qed

end
