(* ===== verification/Mpz_Cfdiv.thy ===== *)
theory Mpz_Cfdiv
  imports Mpz_DivUi
begin

text \<open>
  Division by a power of two rounding down or up (\<open>mpz/cfdiv_q_2exp.c\<close>, \<open>mpz/cfdiv_r_2exp.c\<close>). The C code has one
  function for both directions, \<open>dir\<close> being 1 for the ceiling and -1 for the floor; \<open>(usize ^ dir) < 0\<close> tells
  that their signs differ.
\<close>

unbundle bit_operations_syntax

definition MP_LIMB_T_MAX :: limb where
  "MP_LIMB_T_MAX = NOT 0"

definition GMP_NUMB_MAX :: limb where
  "GMP_NUMB_MAX = drop_bit 0 (NOT 0)"

section \<open>Quotients\<close>

text \<open>The first limb that is not 0 among those skipped, or 0.\<close>

fun round_limbs :: "nat \<Rightarrow> ptr \<Rightarrow> mem \<Rightarrow> limb" where
  "round_limbs 0 up m = 0"
| "round_limbs (Suc n) up m = (if m up = 0 then round_limbs n (up + 1) m else m up)"

definition cfdiv_q_2exp :: "var \<Rightarrow> var \<Rightarrow> nat \<Rightarrow> int \<Rightarrow> state \<Rightarrow> state" where
  "cfdiv_q_2exp w u cnt dir st =
     (let usize = SIZ st u;
          abs_usize = \<bar>usize\<bar>;
          limb_cnt = cnt div 32;
          wsize = abs_usize - int limb_cnt
      in if wsize \<le> 0
         then set_SIZ w (if usize = 0 \<or> (usize < 0) \<noteq> (dir < 0) then 0 else dir) (set_heap ((heap st)(PTR st w := 1)) st)
         else (let wsize = nat wsize;
                   st = MPZ_REALLOC w (wsize + 1) st;
                   up = PTR st u;
                   rmask = (if (usize < 0) = (dir < 0) then MP_LIMB_T_MAX else 0);
                   round = (if rmask \<noteq> 0 then round_limbs limb_cnt up (heap st) else 0);
                   wp = PTR st w;
                   cnt = cnt mod 32;
                   (m, wsize, round) =
                     (if cnt \<noteq> 0
                      then (let (l, m) = mpn_rshift wp (up + limb_cnt) wsize cnt (heap st)
                            in (m, wsize - of_bool (m (wp + wsize - 1) = 0), round OR (rmask AND l)))
                      else (MPN_COPY_INCR wp (up + limb_cnt) wsize (heap st), wsize, round));
                   (m, wsize) =
                     (if round \<noteq> 0
                      then (if wsize \<noteq> 0
                            then (let (cy, m) = mpn_add_1 wp wp wsize 1 m in (m(wp + wsize := cy), wsize + unat cy))
                            else (m(wp := 1), 1))
                      else (m, wsize))
               in set_SIZ w (if usize \<ge> 0 then int wsize else - int wsize) (set_heap m st)))"

definition mpz_cdiv_q_2exp :: "var \<Rightarrow> var \<Rightarrow> nat \<Rightarrow> state \<Rightarrow> state" where
  "mpz_cdiv_q_2exp w u cnt st = cfdiv_q_2exp w u cnt 1 st"

definition mpz_fdiv_q_2exp :: "var \<Rightarrow> var \<Rightarrow> nat \<Rightarrow> state \<Rightarrow> state" where
  "mpz_fdiv_q_2exp w u cnt st = cfdiv_q_2exp w u cnt (- 1) st"

section \<open>Remainders\<close>

definition LOW_MASK :: "nat \<Rightarrow> limb" where
  "LOW_MASK n = push_bit n 1 - 1"

text \<open>The end of the function: the high limb is masked, and high zeros are stripped as \<open>MPN_NORMALIZE\<close> does.\<close>

definition cfdiv_r_mask :: "var \<Rightarrow> int \<Rightarrow> nat \<Rightarrow> nat \<Rightarrow> state \<Rightarrow> state" where
  "cfdiv_r_mask w usize limb_cnt cnt st =
     (let wp = PTR st w;
          high = heap st (wp + limb_cnt);
          high = high AND LOW_MASK cnt;
          m = (heap st)(wp + limb_cnt := high);
          limb_cnt = MPN_NORMALIZE m wp (limb_cnt + 1)
      in if limb_cnt = 0 then set_SIZ w 0 (set_heap m st)
         else set_SIZ w (if usize \<ge> 0 then int limb_cnt else - int limb_cnt) (set_heap m st))"

fun fill_max :: "nat \<Rightarrow> ptr \<Rightarrow> mem \<Rightarrow> mem" where
  "fill_max 0 p m = m"
| "fill_max (Suc n) p m = fill_max n (p + 1) (m(p := GMP_NUMB_MAX))"

text \<open>The branch at \<open>negate\<close>: the two's complement of the low part.\<close>

definition cfdiv_r_negate :: "var \<Rightarrow> var \<Rightarrow> nat \<Rightarrow> state \<Rightarrow> state option" where
  "cfdiv_r_negate w u limb_cnt st =
     (let abs_usize = nat \<bar>SIZ st u\<bar>;
          st = MPZ_REALLOC w (limb_cnt + 1) st;
          up = PTR st u;
          wp = PTR st w;
          i = min abs_usize (limb_cnt + 1);
          m = mpn_com_n wp up i (heap st);
          m = fill_max (limb_cnt + 1 - i) (wp + i) m
      in map_option (\<lambda>m. set_heap m st) (mpn_incr_u wp 1 m))"

definition cfdiv_r_2exp :: "var \<Rightarrow> var \<Rightarrow> nat \<Rightarrow> int \<Rightarrow> state \<Rightarrow> state option" where
  "cfdiv_r_2exp w u cnt dir st =
     (let usize = SIZ st u
      in if usize = 0 then Some (set_SIZ w 0 st)
         else (let limb_cnt = cnt div 32;
                   cnt = cnt mod 32;
                   abs_usize = nat \<bar>usize\<bar>;
                   up = PTR st u
               in if (usize < 0) \<noteq> (dir < 0)
                  then (if w = u
                        then (if abs_usize \<le> limb_cnt then Some st else Some (cfdiv_r_mask w usize limb_cnt cnt st))
                        else (let i = min abs_usize (limb_cnt + 1);
                                  st = MPZ_REALLOC w i st;
                                  st = set_heap (MPN_COPY (PTR st w) up i (heap st)) st
                              in if abs_usize \<le> limb_cnt then Some (set_SIZ w usize st)
                                 else Some (cfdiv_r_mask w usize limb_cnt cnt st)))
                  else if abs_usize \<le> limb_cnt \<or> round_limbs limb_cnt up (heap st) \<noteq> 0
                          \<or> heap st (up + limb_cnt) AND LOW_MASK cnt \<noteq> 0
                  then map_option (cfdiv_r_mask w (- usize) limb_cnt cnt) (cfdiv_r_negate w u limb_cnt st)
                  else Some (set_SIZ w 0 st)))"

definition mpz_cdiv_r_2exp :: "var \<Rightarrow> var \<Rightarrow> nat \<Rightarrow> state \<Rightarrow> state option" where
  "mpz_cdiv_r_2exp w u cnt st = cfdiv_r_2exp w u cnt 1 st"

definition mpz_fdiv_r_2exp :: "var \<Rightarrow> var \<Rightarrow> nat \<Rightarrow> state \<Rightarrow> state option" where
  "mpz_fdiv_r_2exp w u cnt st = cfdiv_r_2exp w u cnt (- 1) st"

section \<open>Correctness of the quotients\<close>

lemma round_limbs_0_iff: "round_limbs n up m = 0 \<longleftrightarrow> mval m up n = 0"
  by (induction n arbitrary: up) (auto simp: unat_eq_0)

text \<open>One more than a normalized vector, which may grow by a limb.\<close>

lemma round_up:
  fixes n k :: nat and m :: mem
  assumes eq: "(m', k) = (if n \<noteq> 0 then (let (cy, m) = mpn_add_1 wp wp n 1 m in (m(wp + n := cy), n + unat cy)) else (m(wp := 1), 1))"
    and top: "n = 0 \<or> m (wp + n - 1) \<noteq> 0"
  shows "mval m' wp k = mval m wp n + 1 \<and> m' (wp + k - 1) \<noteq> 0 \<and> k \<noteq> 0 \<and> k \<le> n + 1 \<and> only_in wp (n + 1) m m'"
proof (cases "n = 0")
  case True
  then show ?thesis using eq by (auto simp: only_in_def)
next
  case False
  obtain cy m1 where e: "mpn_add_1 wp wp n 1 m = (cy, m1)" by fastforce
  have S1: "mval m1 wp n + LB ^ n * unat cy = mval m wp n + 1" "unat cy \<le> 1" "only_in wp n m m1"
    using mpn_add_1_spec [OF e] False by (auto simp: overlap_defs)
  have m': "m' = m1(wp + n := cy)" "k = n + unat cy" using eq e False by simp_all
  have low: "mval m' wp n = mval m1 wp n" by (simp add: m')
  have "LB ^ (n - 1) \<le> mval m wp n" using top False by (intro mval_lower) auto
  then have t: "LB ^ (n - 1) \<le> mval m1 wp n" if "cy = 0" using S1(1) that by simp
  consider "cy = 0" | "unat cy = 1" using S1(2) by (auto simp: le_Suc_eq unat_eq_0)
  then have "mval m' wp k = mval m wp n + 1 \<and> m' (wp + k - 1) \<noteq> 0"
  proof cases
    case 1
    have "m1 (wp + n - 1) \<noteq> 0" using top_not_zero [of n m1 wp] t [OF 1] False by blast
    then show ?thesis using S1(1) low 1 False by (simp add: m')
  next
    case 2
    then have "cy \<noteq> 0" by auto
    then show ?thesis using S1(1) low 2 by (simp add: m' mval_high del: mval.simps)
  qed
  moreover have "only_in wp (n + 1) m m'"
    unfolding m'(1) by (intro only_in_trans [OF only_in_mono [OF S1(3)] only_in_upd]) auto
  ultimately show ?thesis using False S1(2) m'(2) by simp
qed

lemma two_power_mod_0:
  fixes A :: nat
  shows "A mod 2 ^ cnt = 0 \<longleftrightarrow> A mod LB ^ (cnt div 32) = 0 \<and> (A div LB ^ (cnt div 32)) mod 2 ^ (cnt mod 32) = 0"
  unfolding two_power_limbs [of cnt] mod_mult2_eq by auto

lemma cfdiv_q_2exp_spec:
  assumes ok: "store_ok st" and w: "w \<in> live st" and u: "u \<in> live st" and dir: "dir = 1 \<or> dir = - 1" and A: "int A = \<bar>zval st u\<bar>"
  defines "neg \<equiv> SIZ st u < 0"
  shows "updates st w (with_sign neg (A div 2 ^ cnt + of_bool (rounds (neg = (dir < 0)) A (2 ^ cnt)))) (cfdiv_q_2exp w u cnt dir st)"
proof -
  define un lc where "un = ABSIZ st u" and "lc = cnt div 32"
  have us: "\<bar>SIZ st u\<bar> = int un" by (simp add: un_def ABSIZ_SIZ)
  have pow: "(2 :: nat) ^ cnt = LB ^ lc * 2 ^ (cnt mod 32)" unfolding lc_def by (rule two_power_limbs)
  have A': "A = mval (heap st) (PTR st u) un" using zval_abs [OF ok u] A by (simp add: un_def)
  show ?thesis
  proof (cases "un \<le> lc")
    case True
    have "A < LB ^ un" unfolding A' by (rule mval_less)
    also have "\<dots> \<le> LB ^ lc" using True by (intro power_increasing) auto
    also have "\<dots> \<le> 2 ^ cnt" unfolding pow by simp
    finally have lt: "A < 2 ^ cnt" .
    have A0: "A = 0 \<longleftrightarrow> SIZ st u = 0" using A zval_0_iff [OF ok u] by auto
    have "cfdiv_q_2exp w u cnt dir st
        = set_SIZ w (if SIZ st u = 0 \<or> neg \<noteq> (dir < 0) then 0 else dir) (set_heap ((heap st)(PTR st w := 1)) st)"
      using True unfolding cfdiv_q_2exp_def Let_def lc_def [symmetric] us neg_def by simp
    moreover have "updates st w (with_sign neg (of_bool (neg = (dir < 0) \<and> A \<noteq> 0)))
        (set_SIZ w (if SIZ st u = 0 \<or> neg \<noteq> (dir < 0) then 0 else dir) (set_heap ((heap st)(PTR st w := 1)) st))"
    proof -
      define k :: nat where "k = of_bool (neg = (dir < 0) \<and> A \<noteq> 0)"
      have "with_sign neg k = (if SIZ st u = 0 \<or> neg \<noteq> (dir < 0) then 0 else dir)"
        using dir A0 by (auto simp: k_def with_sign_def)
      moreover have "updates st w (with_sign neg (mval ((heap st)(PTR st w := 1)) (PTR st w) k))
          (set_SIZ w (with_sign neg k) (set_heap ((heap st)(PTR st w := 1)) st))"
        using ALLOC_pos [OF ok w] by (intro result_sized [OF ok w]) (auto simp: k_def)
      moreover have "mval ((heap st)(PTR st w := 1)) (PTR st w) k = k" by (simp add: k_def)
      ultimately show ?thesis by (simp only: k_def)
    qed
    ultimately show ?thesis using lt by (simp add: rounds_def)
  next
    case False
    define n where "n = un - lc"
    have n: "1 \<le> n" "un = lc + n" using False by (auto simp: n_def)
    define st1 where "st1 = MPZ_REALLOC w (n + 1) st"
    note U = operand_realloc [OF ok w u, where n = "n + 1", folded st1_def, folded un_def]
    define up wp where "up = PTR st1 u" and "wp = PTR st1 w"
    define X where "X = mval (heap st1) (up + lc) n"
    have A1: "A = mval (heap st1) up un" using U(8) A by (simp add: up_def)
    have X: "X = A div LB ^ lc" using mval_div [of lc un "heap st1" up] n(2) by (simp add: X_def A1)
    have low: "A mod LB ^ lc = mval (heap st1) up lc" using mval_mod [of lc un "heap st1" up] n(2) by (simp add: A1)
    have u0: "SIZ st u \<noteq> 0" using us n by auto
    then have "heap st1 (up + un - 1) \<noteq> 0" using wf_ok [OF U(1,3)] U(5,6) by (simp add: mpz_ok_def up_def)
    then have topX: "LB ^ (n - 1) \<le> X"
      unfolding X_def using n by (intro mval_lower) (simp_all add: ac_simps)
    have "MPN_SAME_OR_SEPARATE2_P wp n up un" using U(4) U(9) by (simp add: wp_def up_def)
    then have ov: "MPN_SAME_OR_INCR_P wp (up + lc) n" using n(2) by (auto simp: overlap_defs)
    obtain l m where eq: "(l, m) = (if cnt mod 32 \<noteq> 0 then mpn_rshift wp (up + lc) n (cnt mod 32) (heap st1)
        else (0, MPN_COPY_INCR wp (up + lc) n (heap st1)))"
      by (metis surj_pair)
    define k where "k = (if cnt mod 32 \<noteq> 0 then n - of_bool (m (wp + n - 1) = 0) else n)"
    note M = shift_down [OF n(1) _ ov topX [unfolded X_def] eq k_def, folded X_def]
    have Q: "mval m wp k = A div 2 ^ cnt" using M(1,3) by (simp add: pow X div_mult2_eq)
    define away where "away \<longleftrightarrow> neg = (dir < 0)"
    define rmask where "rmask = (if away then MP_LIMB_T_MAX else 0)"
    define r0 where "r0 = (if rmask \<noteq> 0 then round_limbs lc up (heap st1) else 0)"
    define r where "r = (if cnt mod 32 \<noteq> 0 then r0 OR (rmask AND l) else r0)"
    have r: "r \<noteq> 0 \<longleftrightarrow> rounds away A (2 ^ cnt)"
    proof -
      have "l = 0 \<longleftrightarrow> X mod 2 ^ (cnt mod 32) = 0" by (rule M(6)) simp
      moreover have "l = 0" if "cnt mod 32 = 0" using eq that by simp
      moreover have "round_limbs lc up (heap st1) = 0 \<longleftrightarrow> A mod LB ^ lc = 0" by (simp add: round_limbs_0_iff low)
      moreover have "(x OR y = 0) = (x = 0 \<and> y = 0)" for x y :: limb by (metis or_eq_0_iff)
      ultimately show ?thesis
        unfolding rounds_def two_power_mod_0 [of A cnt] lc_def [symmetric] X [symmetric]
        by (auto simp: r_def r0_def rmask_def MP_LIMB_T_MAX_def)
    qed
    define R where "R = (if r \<noteq> 0
        then (if k \<noteq> 0 then (let (cy, m) = mpn_add_1 wp wp k 1 m in (m(wp + k := cy), k + unat cy)) else (m(wp := 1), 1))
        else (m, k))"
    obtain m' k' where "(m', k') = R" by (metis surj_pair)
    note fin = this [unfolded R_def]
    have F: "mval m' wp k' = mval m wp k + of_bool (r \<noteq> 0) \<and> (k' = 0 \<or> m' (wp + k' - 1) \<noteq> 0) \<and> k' \<le> n + 1
        \<and> only_in wp (n + 1) (heap st1) m'"
    proof (cases "r = 0")
      case True
      then show ?thesis using fin M by (auto intro: only_in_mono)
    next
      case False
      then have e: "(m', k') = (if k \<noteq> 0 then (let (cy, m) = mpn_add_1 wp wp k 1 m in (m(wp + k := cy), k + unat cy)) else (m(wp := 1), 1))"
        using fin by (simp only: if_True not_False_eq_True)
      have "k = 0 \<or> m (wp + k - 1) \<noteq> 0" by (rule M(4)) simp
      note R = round_up [OF e this]
      have kn: "k \<le> n" by (rule M(5)) simp
      have "only_in wp (n + 1) (heap st1) m" by (rule only_in_mono [OF M(2)]) auto
      moreover have "only_in wp (n + 1) m m'" by (rule only_in_mono [of wp "k + 1"]) (use R kn in auto)
      ultimately have "only_in wp (n + 1) (heap st1) m'" by (rule only_in_trans)
      moreover have "k' \<le> n + 1" using R kn by linarith
      ultimately show ?thesis using R False by simp
    qed
    have "cfdiv_q_2exp w u cnt dir st = set_SIZ w (with_sign neg k') (set_heap m' st1)"
    proof -
      have nn: "nat (int un - int lc) = n" "(int un - int lc \<le> 0) = False" using n by simp_all
      have "cfdiv_q_2exp w u cnt dir st =
        (let (m, wsize, round) = (if cnt mod 32 \<noteq> 0
              then (let (l, m) = mpn_rshift wp (up + lc) n (cnt mod 32) (heap st1)
                    in (m, n - of_bool (m (wp + n - 1) = 0), r0 OR (rmask AND l)))
              else (MPN_COPY_INCR wp (up + lc) n (heap st1), n, r0));
             (m, wsize) = (if round \<noteq> 0
              then (if wsize \<noteq> 0 then (let (cy, m) = mpn_add_1 wp wp wsize 1 m in (m(wp + wsize := cy), wsize + unat cy)) else (m(wp := 1), 1))
              else (m, wsize))
         in set_SIZ w (if SIZ st u \<ge> 0 then int wsize else - int wsize) (set_heap m st1))"
        unfolding cfdiv_q_2exp_def Let_def us lc_def [symmetric] nn if_False st1_def [symmetric]
          up_def [symmetric] wp_def [symmetric] neg_def [symmetric] away_def [symmetric] rmask_def [symmetric] r0_def [symmetric] ..
      also have "\<dots> = (let (m, wsize) = (if r \<noteq> 0
              then (if k \<noteq> 0 then (let (cy, m) = mpn_add_1 wp wp k 1 m in (m(wp + k := cy), k + unat cy)) else (m(wp := 1), 1))
              else (m, k))
         in set_SIZ w (if SIZ st u \<ge> 0 then int wsize else - int wsize) (set_heap m st1))"
        using eq [symmetric] by (cases "cnt mod 32 = 0") (simp_all add: k_def r_def)
      also have "\<dots> = set_SIZ w (with_sign neg k') (set_heap m' st1)"
        unfolding fin [symmetric] by (simp add: with_sign_def neg_def)
      finally show ?thesis .
    qed
    moreover have "updates st1 w (with_sign neg (mval m' (PTR st1 w) k')) (set_SIZ w (with_sign neg k') (set_heap m' st1))"
    proof (rule result_sized [OF U(1,2)])
      show "only_in (PTR st1 w) (ALLOC st1 w) (heap st1) m'"
        by (rule only_in_mono [of wp "n + 1"]) (use F U(4) wp_def in auto)
    qed (use F U(4) wp_def in auto)
    ultimately show ?thesis
      using updates_realloc [OF ok w] F Q r unfolding away_def [symmetric] by (simp add: st1_def wp_def)
  qed
qed

lemma mpz_fdiv_q_2exp_spec:
  assumes "store_ok st" "w \<in> live st" "u \<in> live st"
  shows "updates st w (zval st u div 2 ^ cnt) (mpz_fdiv_q_2exp w u cnt st)"
proof -
  obtain A where A: "int A = \<bar>zval st u\<bar>" "zval st u = with_sign (SIZ st u < 0) A" using magnitude [OF assms(1,3)] .
  show ?thesis
    using cfdiv_q_2exp_spec [OF assms _ A(1), of "- 1" cnt] fdiv_with_sign(1) [of "2 ^ cnt" "SIZ st u < 0" A]
    by (simp add: mpz_fdiv_q_2exp_def A(2) [symmetric])
qed

lemma mpz_cdiv_q_2exp_spec:
  assumes "store_ok st" "w \<in> live st" "u \<in> live st"
  shows "updates st w (cdiv (zval st u) (2 ^ cnt)) (mpz_cdiv_q_2exp w u cnt st)"
proof -
  obtain A where A: "int A = \<bar>zval st u\<bar>" "zval st u = with_sign (SIZ st u < 0) A" using magnitude [OF assms(1,3)] .
  show ?thesis
    using cfdiv_q_2exp_spec [OF assms _ A(1), of 1 cnt] cdiv_with_sign(1) [of "2 ^ cnt" "SIZ st u < 0" A]
    by (simp add: mpz_cdiv_q_2exp_def A(2) [symmetric])
qed

interpretation mpz_fdiv_q_2exp: mpz_unop "\<lambda>w u. mpz_fdiv_q_2exp w u cnt" "\<lambda>a. a div 2 ^ cnt" for cnt
  by unfold_locales (rule mpz_fdiv_q_2exp_spec)

interpretation mpz_cdiv_q_2exp: mpz_unop "\<lambda>w u. mpz_cdiv_q_2exp w u cnt" "\<lambda>a. cdiv a (2 ^ cnt)" for cnt
  by unfold_locales (rule mpz_cdiv_q_2exp_spec)

section \<open>Correctness of the remainders\<close>

lemma cfdiv_r_mask_spec:
  assumes ok: "store_ok st" and w: "w \<in> live st" and m: "only_in (PTR st w) (ALLOC st w) (heap st) m" and n: "lc + 1 \<le> ALLOC st w"
    and lc: "lc = cnt div 32"
  shows "updates st w (with_sign (usize < 0) (mval m (PTR st w) (lc + 1) mod 2 ^ cnt)) (cfdiv_r_mask w usize lc (cnt mod 32) (set_heap m st))"
proof -
  define wp where "wp = PTR st w"
  define m' where "m' = m(wp + lc := m (wp + lc) AND LOW_MASK (cnt mod 32))"
  define k where "k = MPN_NORMALIZE m' wp (lc + 1)"
  have h: "unat (m (wp + lc) AND LOW_MASK (cnt mod 32)) = unat (m (wp + lc)) mod 2 ^ (cnt mod 32)"
    unfolding LOW_MASK_def by (rule limb_and_low) simp
  have "mval m' wp (lc + 1) = mval m wp (lc + 1) mod 2 ^ cnt"
    using mod_limbs [OF lc _ refl, where n = "lc + 1" and m = m and p = wp] h
    by (simp only: m'_def Suc_eq_plus1 [symmetric] mval_high lessI) (simp del: mval.simps)
  then have v: "mval m' wp k = mval m wp (lc + 1) mod 2 ^ cnt" by (simp only: k_def MPN_NORMALIZE_mval)
  have "cfdiv_r_mask w usize lc (cnt mod 32) (set_heap m st) = set_SIZ w (with_sign (usize < 0) k) (set_heap m' st)"
    unfolding cfdiv_r_mask_def Let_def store_set wp_def [symmetric] m'_def [symmetric] k_def [symmetric]
    by (simp add: with_sign_def)
  moreover have "updates st w (with_sign (usize < 0) (mval m' (PTR st w) k)) (set_SIZ w (with_sign (usize < 0) k) (set_heap m' st))"
  proof (rule result_sized [OF ok w])
    show "only_in (PTR st w) (ALLOC st w) (heap st) m'"
      unfolding m'_def wp_def by (rule only_in_trans [OF m only_in_upd]) (use n in auto)
    show "k \<le> ALLOC st w" using MPN_NORMALIZE_le [of m' wp "lc + 1"] n by (simp add: k_def)
    show "k = 0 \<or> m' (PTR st w + k - 1) \<noteq> 0" unfolding k_def wp_def by (rule MPN_NORMALIZE_top)
  qed
  ultimately show ?thesis using v by (simp add: wp_def)
qed

lemma fill_max_spec: "fill_max n p m = (\<lambda>a. if p \<le> a \<and> a < p + n then GMP_NUMB_MAX else m a)"
  by (induction n arbitrary: p m) (auto simp: fun_eq_iff)

lemma mval_max: "(\<And>i. i < n \<Longrightarrow> m (p + i) = GMP_NUMB_MAX) \<Longrightarrow> mval m p n + 1 = LB ^ n"
proof (induction n)
  case (Suc n)
  have "unat (m (p + n)) + 1 = LB" using Suc.prems [of n] by (simp add: GMP_NUMB_MAX_def LB_def unsigned_minus_1_eq_mask mask_eq_exp_minus_1)
  then have "LB ^ n * (unat (m (p + n)) + 1) = LB ^ n * LB" by simp
  then show ?case using Suc by (simp add: mval_high algebra_simps del: mval.simps)
qed simp

lemma negated_mod:
  fixes M L D :: nat
  assumes "D dvd M" "L \<le> M" "L mod D \<noteq> 0"
  shows "(M - L) mod D = D - L mod D"
proof -
  have D: "0 < D" using assms by (intro Nat.gr0I) auto
  have "((M - L) mod D + L mod D) mod D = (M - L + L) mod D" by (rule mod_add_eq)
  also have "\<dots> = 0" using assms by simp
  finally obtain k where k: "(M - L) mod D + L mod D = D * k" by (auto simp: mod_eq_0_iff_dvd elim: dvdE)
  have "(M - L) mod D + L mod D < D * 2" using mod_less_divisor [OF D, of "M - L"] mod_less_divisor [OF D, of L] by linarith
  then have "k < 2" unfolding k by simp
  moreover have "k \<noteq> 0" using k assms(3) by (intro notI) simp
  ultimately have "k = 1" by linarith
  then show ?thesis using k by simp
qed

text \<open>The two's complement over \<open>lc + 1\<close> limbs.\<close>

lemma cfdiv_r_negate_spec:
  assumes ok: "store_ok st" and w: "w \<in> live st" and u: "u \<in> live st" and A: "int A = \<bar>zval st u\<bar>"
    and lc: "lc = cnt div 32" and nz: "A mod 2 ^ cnt \<noteq> 0"
  defines "st1 \<equiv> MPZ_REALLOC w (lc + 1) st"
  shows "\<exists>m. cfdiv_r_negate w u lc st = Some (set_heap m st1) \<and> only_in (PTR st1 w) (ALLOC st1 w) (heap st1) m
    \<and> mval m (PTR st1 w) (lc + 1) mod 2 ^ cnt = 2 ^ cnt - A mod 2 ^ cnt"
proof -
  define un where "un = ABSIZ st u"
  note U = operand_realloc [OF ok w u, where n = "lc + 1", folded st1_def, folded un_def]
  define up wp where "up = PTR st1 u" and "wp = PTR st1 w"
  define i where "i = min un (lc + 1)"
  define L where "L = mval (heap st1) up i"
  have A1: "A = mval (heap st1) up un" using U(8) A by (simp add: up_def)
  have "LB ^ (lc + 1) = LB ^ lc * LB" by simp
  have "(2 :: nat) ^ (cnt mod 32) dvd LB" unfolding LB_power by (intro le_imp_power_dvd) simp
  then have dvd: "(2 :: nat) ^ cnt dvd LB ^ (lc + 1)" unfolding two_power_limbs [of cnt] lc by simp
  have Lm: "L mod 2 ^ cnt = A mod 2 ^ cnt"
  proof (cases "un \<le> lc + 1")
    case True
    then show ?thesis by (simp add: L_def A1 i_def)
  next
    case False
    then have "L = A mod LB ^ (lc + 1)" using mval_mod [of "lc + 1" un "heap st1" up] by (simp add: L_def A1 i_def)
    then show ?thesis using dvd by (simp add: mod_mod_cancel)
  qed
  have Ll: "L < LB ^ i" unfolding L_def by (rule mval_less)
  have "MPN_SAME_OR_SEPARATE2_P wp (lc + 1) up un" using U(4,9) by (simp add: wp_def up_def)
  then have ov: "MPN_SAME_OR_INCR_P wp up i" by (auto simp: overlap_defs i_def)
  define m1 m2 where "m1 = mpn_com_n wp up i (heap st1)" and "m2 = fill_max (lc + 1 - i) (wp + i) m1"
  have C: "mval m1 wp i + L + 1 = LB ^ i" "only_in wp i (heap st1) m1"
    using mpn_com_n_mval [OF ov, of "heap st1"] by (simp_all add: m1_def L_def)
  have i: "i + (lc + 1 - i) = lc + 1" "i \<le> lc + 1" by (simp_all add: i_def)
  have lo: "mval m2 wp i = mval m1 wp i" by (rule mval_cong) (simp add: m2_def fill_max_spec)
  have hi: "mval m2 (wp + i) (lc + 1 - i) + 1 = LB ^ (lc + 1 - i)" by (rule mval_max) (simp add: m2_def fill_max_spec less_diff_conv add.commute)
  have "mval m2 wp (lc + 1) + L + 1 = LB ^ (lc + 1)"
  proof -
    have "LB ^ (lc + 1) = LB ^ i * (mval m2 (wp + i) (lc + 1 - i) + 1)" unfolding hi power_add [symmetric] i(1) ..
    then show ?thesis using mval_split [OF i(2), of m2 wp] C(1) lo by (simp add: distrib_left)
  qed
  moreover have L0: "L \<noteq> 0" using Lm nz by (intro notI) simp
  ultimately have lt: "mval m2 wp (lc + 1) + unat (1 :: limb) < LB ^ (lc + 1)"
    and s: "mval m2 wp (lc + 1) + 1 = LB ^ (lc + 1) - L" and le: "L \<le> LB ^ (lc + 1)" by simp_all
  obtain m3 where m3: "mpn_incr_u wp 1 m2 = Some m3" "mval m3 wp (lc + 1) = mval m2 wp (lc + 1) + 1" "only_in wp (lc + 1) m2 m3"
    using mpn_incr_u_spec [OF lt] by auto
  have f: "only_in wp (ALLOC st1 w) (heap st1) m3"
  proof (rule only_in_trans)
    show "only_in wp (ALLOC st1 w) (heap st1) m2"
      using C(2) U(4) i unfolding m2_def fill_max_spec by (auto simp: only_in_def)
    show "only_in wp (ALLOC st1 w) m2 m3" by (rule only_in_mono [OF m3(3)]) (use U(4) in auto)
  qed
  have v: "mval m3 wp (lc + 1) mod 2 ^ cnt = 2 ^ cnt - A mod 2 ^ cnt"
    unfolding m3(2) s using negated_mod [OF dvd le] Lm nz by simp
  have "cfdiv_r_negate w u lc st = map_option (\<lambda>m. set_heap m st1) (mpn_incr_u wp 1 m2)"
    unfolding cfdiv_r_negate_def Let_def ABSIZ_SIZ [symmetric] un_def [symmetric] st1_def [symmetric] up_def [symmetric]
      wp_def [symmetric] i_def [symmetric] m1_def [symmetric] m2_def [symmetric] ..
  then show ?thesis unfolding m3(1) using f v wp_def by (intro exI [of _ m3]) simp
qed

lemma cfdiv_r_2exp_spec:
  assumes ok: "store_ok st" and w: "w \<in> live st" and u: "u \<in> live st" and A: "int A = \<bar>zval st u\<bar>"
  defines "neg \<equiv> SIZ st u < 0"
  shows "\<exists>st'. cfdiv_r_2exp w u cnt dir st = Some st' \<and> updates st w
    (if rounds (neg = (dir < 0)) A (2 ^ cnt) then with_sign (\<not> neg) (2 ^ cnt - A mod 2 ^ cnt) else with_sign neg (A mod 2 ^ cnt)) st'"
proof (cases "SIZ st u = 0")
  case True
  then have "A = 0" using A zval_0_iff [OF ok u] by auto
  then show ?thesis using True zero_result [OF ok w] by (simp add: cfdiv_r_2exp_def Let_def rounds_def with_sign_def)
next
  case u0: False
  define un lc where "un = ABSIZ st u" and "lc = cnt div 32"
  have us: "nat \<bar>SIZ st u\<bar> = un" by (simp add: un_def ABSIZ_SIZ)
  have pow: "(2 :: nat) ^ cnt = LB ^ lc * 2 ^ (cnt mod 32)" unfolding lc_def by (rule two_power_limbs)
  define up where "up = PTR st u"
  have A': "A = mval (heap st) up un" using zval_abs [OF ok u] A by (simp add: un_def up_def)
  have A0: "A \<noteq> 0" using A u0 zval_0_iff [OF ok u] by auto
  have sgn: "zval st u = with_sign neg A" unfolding neg_def by (rule zval_with_sign [OF ok u A])
  have low: "A mod 2 ^ cnt = A" if "un \<le> lc"
  proof -
    have "A < LB ^ un" unfolding A' by (rule mval_less)
    also have "\<dots> \<le> LB ^ lc" using that by (intro power_increasing) auto
    also have "\<dots> \<le> 2 ^ cnt" unfolding pow by simp
    finally show ?thesis by simp
  qed
  have part: "mval (heap st) up (lc + 1) mod 2 ^ cnt = A mod 2 ^ cnt" if "lc < un"
    using mod_limbs [OF lc_def that A'] mod_limbs [OF lc_def, of "lc + 1", OF _ refl, of "heap st" up] by simp
  show ?thesis
  proof (cases "neg = (dir < 0)")
    case dir: False
    have goal: ?thesis if "cfdiv_r_2exp w u cnt dir st = Some st'" "updates st w (with_sign neg (A mod 2 ^ cnt)) st'" for st'
      using that dir by (simp add: rounds_def)
    show ?thesis
    proof (cases "w = u")
      case True
      show ?thesis
      proof (cases "un \<le> lc")
        case le: True
        have "cfdiv_r_2exp w u cnt dir st = Some st"
          using u0 dir True le unfolding cfdiv_r_2exp_def Let_def neg_def us lc_def by simp
        moreover have "updates st w (with_sign neg (A mod 2 ^ cnt)) st"
          using ok True sgn low [OF le] by (simp add: updates_def)
        ultimately show ?thesis by (rule goal)
      next
        case gt: False
        have "cfdiv_r_2exp w u cnt dir st = Some (cfdiv_r_mask w (SIZ st u) lc (cnt mod 32) st)"
          using u0 dir True gt unfolding cfdiv_r_2exp_def Let_def neg_def us lc_def by simp
        moreover have "updates st w (with_sign neg (A mod 2 ^ cnt)) (cfdiv_r_mask w (SIZ st u) lc (cnt mod 32) (set_heap (heap st) st))"
          using cfdiv_r_mask_spec [OF ok w only_in_refl _ lc_def, of "SIZ st u"] part gt True ABSIZ_le_ALLOC [OF ok u]
          by (simp add: neg_def up_def un_def)
        ultimately show ?thesis by (intro goal) (simp_all add: set_heap_same)
      qed
    next
      case wu: False
      define i st1 where "i = min un (lc + 1)" and "st1 = MPZ_REALLOC w i st"
      note U = operand_realloc [OF ok w u, where n = i, folded st1_def, folded un_def]
      define m where "m = MPN_COPY (PTR st1 w) up i (heap st1)"
      have p: "PTR st1 u = up" using MPZ_REALLOC_spec(6) [OF ok w] wu by (simp add: st1_def up_def PTR_def)
      have "MPN_SAME_OR_SEPARATE_P (PTR st1 w) up i"
        using U(4,9) by (auto simp: MPN_SAME_OR_SEPARATE_P_def i_def p)
      then have m: "m = mcopy (PTR st1 w) up i (heap st1)" unfolding m_def by (rule MPN_COPY_spec)
      have f: "only_in (PTR st1 w) (ALLOC st1 w) (heap st1) m"
        unfolding m by (rule only_in_mono [OF only_in_mcopy]) (use U(4) in auto)
      have A1: "A = mval (heap st1) up un" using U(8) A by (simp add: p)
      have v: "mval m (PTR st1 w) i = mval (heap st1) up i" by (simp add: m)
      have def_eq: "cfdiv_r_2exp w u cnt dir st = Some (if un \<le> lc then set_SIZ w (SIZ st u) (set_heap m st1)
          else cfdiv_r_mask w (SIZ st u) lc (cnt mod 32) (set_heap m st1))"
        using u0 dir wu unfolding cfdiv_r_2exp_def Let_def us lc_def [symmetric] neg_def [symmetric] up_def [symmetric]
          i_def [symmetric] st1_def [symmetric] m_def [symmetric] by (simp add: neg_def)
      show ?thesis
      proof (cases "un \<le> lc")
        case True
        then have iu: "i = un" by (simp add: i_def)
        have sz: "SIZ st u = with_sign neg un" by (simp add: with_sign_def neg_def un_def ABSIZ_SIZ)
        have un1: "1 \<le> un" using u0 by (simp add: un_def ABSIZ_SIZ)
        have "LB ^ (un - 1) \<le> A" using mval_ABSIZ_ge [OF ok u u0] by (simp add: A' up_def un_def)
        then have "m (PTR st1 w + un - 1) \<noteq> 0" using top_not_zero [of un m "PTR st1 w"] v un1 by (simp add: iu A1)
        then have "updates st1 w (with_sign neg (mval m (PTR st1 w) un)) (set_SIZ w (with_sign neg un) (set_heap m st1))"
          using U(4) f by (intro result_sized U) (auto simp: iu)
        then have "updates st w (with_sign neg (A mod 2 ^ cnt)) (set_SIZ w (SIZ st u) (set_heap m st1))"
          using updates_realloc [OF ok w] v low [OF True] by (simp add: sz iu A1 st1_def)
        then show ?thesis using def_eq True by (intro goal) simp_all
      next
        case False
        then have il: "i = lc + 1" by (simp add: i_def)
        have "mval (heap st1) up (lc + 1) mod 2 ^ cnt = A mod 2 ^ cnt"
          using mod_limbs [OF lc_def _ A1] mod_limbs [OF lc_def, of "lc + 1", OF _ refl, of "heap st1" up] False by simp
        then have "updates st1 w (with_sign neg (A mod 2 ^ cnt)) (cfdiv_r_mask w (SIZ st u) lc (cnt mod 32) (set_heap m st1))"
          using cfdiv_r_mask_spec [OF U(1,2) f _ lc_def, of "SIZ st u"] U(4) v by (simp add: il neg_def)
        then show ?thesis using def_eq False updates_realloc [OF ok w] by (intro goal) (simp_all add: st1_def)
      qed
    qed
  next
    case dir: True
    have nz: "(un \<le> lc \<or> round_limbs lc up (heap st) \<noteq> 0 \<or> heap st (up + lc) AND LOW_MASK (cnt mod 32) \<noteq> 0) \<longleftrightarrow> A mod 2 ^ cnt \<noteq> 0"
    proof (cases "un \<le> lc")
      case True
      then show ?thesis using low A0 by simp
    next
      case False
      have "unat (heap st (up + lc) AND LOW_MASK (cnt mod 32)) = unat (heap st (up + lc)) mod 2 ^ (cnt mod 32)"
        unfolding LOW_MASK_def by (rule limb_and_low) simp
      then have "heap st (up + lc) AND LOW_MASK (cnt mod 32) = 0 \<longleftrightarrow> unat (heap st (up + lc)) mod 2 ^ (cnt mod 32) = 0"
        by (simp add: unat_eq_0 [symmetric])
      then show ?thesis using False mod_limbs [OF lc_def _ A'] by (simp add: round_limbs_0_iff)
    qed
    have def_eq: "cfdiv_r_2exp w u cnt dir st = (if A mod 2 ^ cnt \<noteq> 0
        then map_option (cfdiv_r_mask w (- SIZ st u) lc (cnt mod 32)) (cfdiv_r_negate w u lc st) else Some (set_SIZ w 0 st))"
      using u0 dir unfolding nz [symmetric] cfdiv_r_2exp_def Let_def us lc_def [symmetric] neg_def [symmetric] up_def [symmetric]
      by (simp add: neg_def)
    show ?thesis
    proof (cases "A mod 2 ^ cnt = 0")
      case True
      then show ?thesis using zero_result [OF ok w] by (simp add: def_eq rounds_def with_sign_def)
    next
      case False
      define st1 where "st1 = MPZ_REALLOC w (lc + 1) st"
      note U = operand_realloc [OF ok w u, where n = "lc + 1", folded st1_def]
      obtain m where m: "cfdiv_r_negate w u lc st = Some (set_heap m st1)" "only_in (PTR st1 w) (ALLOC st1 w) (heap st1) m"
        "mval m (PTR st1 w) (lc + 1) mod 2 ^ cnt = 2 ^ cnt - A mod 2 ^ cnt"
        using cfdiv_r_negate_spec [OF ok w u A lc_def False] unfolding st1_def by blast
      have s: "(- SIZ st u < 0) = (\<not> neg)" using u0 by (auto simp: neg_def)
      have "updates st1 w (with_sign (\<not> neg) (2 ^ cnt - A mod 2 ^ cnt)) (cfdiv_r_mask w (- SIZ st u) lc (cnt mod 32) (set_heap m st1))"
        using cfdiv_r_mask_spec [OF U(1,2) m(2) U(4) lc_def, of "- SIZ st u"] unfolding m(3) s .
      then show ?thesis
        using updates_realloc [OF ok w] m(1) False dir by (auto simp: def_eq rounds_def st1_def)
    qed
  qed
qed

lemma mpz_fdiv_r_2exp_spec:
  assumes "store_ok st" "w \<in> live st" "u \<in> live st"
  shows "\<exists>st'. mpz_fdiv_r_2exp w u cnt st = Some st' \<and> updates st w (zval st u mod 2 ^ cnt) st'"
proof -
  obtain A where A: "int A = \<bar>zval st u\<bar>" "zval st u = with_sign (SIZ st u < 0) A" using magnitude [OF assms(1,3)] .
  have "zval st u mod 2 ^ cnt = (if rounds ((SIZ st u < 0) = (- 1 < (0 :: int))) A (2 ^ cnt)
      then with_sign (\<not> SIZ st u < 0) (2 ^ cnt - A mod 2 ^ cnt) else with_sign (SIZ st u < 0) (A mod 2 ^ cnt))"
    using fdiv_with_sign(2) [of "2 ^ cnt" "SIZ st u < 0" A] unfolding A(2) by (auto simp: rounds_def with_sign_def)
  then show ?thesis
    using cfdiv_r_2exp_spec [OF assms A(1), of cnt "- 1"] unfolding mpz_fdiv_r_2exp_def by (simp only:)
qed

lemma mpz_cdiv_r_2exp_spec:
  assumes "store_ok st" "w \<in> live st" "u \<in> live st"
  shows "\<exists>st'. mpz_cdiv_r_2exp w u cnt st = Some st' \<and> updates st w (cmod (zval st u) (2 ^ cnt)) st'"
proof -
  obtain A where A: "int A = \<bar>zval st u\<bar>" "zval st u = with_sign (SIZ st u < 0) A" using magnitude [OF assms(1,3)] .
  have "cmod (zval st u) (2 ^ cnt) = (if rounds ((SIZ st u < 0) = (1 < (0 :: int))) A (2 ^ cnt)
      then with_sign (\<not> SIZ st u < 0) (2 ^ cnt - A mod 2 ^ cnt) else with_sign (SIZ st u < 0) (A mod 2 ^ cnt))"
    using cdiv_with_sign(2) [of "2 ^ cnt" "SIZ st u < 0" A] unfolding A(2) by (auto simp: rounds_def with_sign_def)
  then show ?thesis
    using cfdiv_r_2exp_spec [OF assms A(1), of cnt 1] unfolding mpz_cdiv_r_2exp_def by (simp only:)
qed

end
