(* ===== verification/Mpn_Bdivmod.thy ===== *)
theory Mpn_Bdivmod
  imports Mpn_Mul
begin

text \<open>
  Division of a vector by an odd vector modulo a power of two (\<open>mpn/generic/bdivmod.c\<close>): the quotient limbs
  are found from the low end, each making one more low limb of the dividend zero.
\<close>

unbundle bit_operations_syntax

section \<open>The operation\<close>

text \<open>The dividend less \<open>q\<close> times the divisor, modulo the size of the dividend.\<close>

definition bdivmod_submul :: "ptr \<Rightarrow> nat \<Rightarrow> ptr \<Rightarrow> nat \<Rightarrow> limb \<Rightarrow> mem \<Rightarrow> mem" where
  "bdivmod_submul up usize vp vsize q m =
     (let (b, m) = mpn_submul_1 up vp (min usize vsize) q m
      in if usize > vsize then snd (mpn_sub_1 (up + vsize) (up + vsize) (usize - vsize) b m) else m)"

fun bdivmod_loop :: "nat \<Rightarrow> ptr \<Rightarrow> ptr \<Rightarrow> nat \<Rightarrow> ptr \<Rightarrow> nat \<Rightarrow> limb \<Rightarrow> mem \<Rightarrow> mem" where
  "bdivmod_loop 0 qp up usize vp vsize v_inv m = m"
| "bdivmod_loop (Suc k) qp up usize vp vsize v_inv m =
     (let q = m up * v_inv;
          m = bdivmod_submul up usize vp vsize q m
      in bdivmod_loop k (qp + 1) (up + 1) (usize - 1) vp vsize v_inv (m(qp := q)))"

definition mpn_bdivmod :: "ptr \<Rightarrow> ptr \<Rightarrow> nat \<Rightarrow> ptr \<Rightarrow> nat \<Rightarrow> nat \<Rightarrow> mem \<Rightarrow> limb \<times> mem" where
  "mpn_bdivmod qp up usize vp vsize d m =
     (let v_inv = modlimb_invert (m vp)
      in if usize = 2 \<and> vsize = 2 \<and> (d = 32 \<or> d = 2 * 32)
         then (let q = m up * v_inv;
                   (hi, lo) = umul_ppmm q (m vp);
                   m = m(up := 0);
                   m = m(up + 1 := m (up + 1) - (hi + q * m (vp + 1)));
                   m = m(qp := q)
               in if d = 2 * 32
                  then (let q = m (up + 1) * v_inv;
                            m = m(up + 1 := 0)
                        in (0, m(qp + 1 := q)))
                  else (0, m))
         else (let k = d div 32;
                   m = bdivmod_loop k qp up usize vp vsize v_inv m;
                   d = d mod 32;
                   up = up + k;
                   usize = usize - k
               in if d \<noteq> 0
                  then (let q = (m up * v_inv) AND (push_bit d 1 - 1)
                        in if q \<le> 1
                           then (if q = 0 then (0, m)
                                 else (let (b, m) = mpn_sub_n up up vp (min usize vsize) m
                                       in (q, if usize > vsize then snd (mpn_sub_1 (up + vsize) (up + vsize) (usize - vsize) b m) else m)))
                           else (q, bdivmod_submul up usize vp vsize q m))
                  else (0, m)))"

section \<open>One quotient digit\<close>

text \<open>\<open>R + q * V\<close> is \<open>U\<close> modulo the size of \<open>U\<close>; the natural number \<open>t\<close> counts the wraps.\<close>

lemma propagate_borrow:
  fixes q u n :: nat
  assumes low: "mval m1 up (min u n) + mval m vp (min u n) * q = mval m up (min u n) + LB ^ min u n * unat b"
    and f: "only_in up (min u n) m m1"
    and m2: "m2 = (if u > n then snd (mpn_sub_1 (up + n) (up + n) (u - n) b m1) else m1)"
  shows "\<exists>t. mval m2 up u + q * mval m vp n = mval m up u + t * LB ^ u" and "only_in up u m m2"
proof -
  have "(\<exists>t. mval m2 up u + q * mval m vp n = mval m up u + t * LB ^ u) \<and> only_in up u m m2"
  proof (cases "u > n")
    case True
    obtain c where e: "mpn_sub_1 (up + n) (up + n) (u - n) b m1 = (c, m2)"
      using m2 True by (cases "mpn_sub_1 (up + n) (up + n) (u - n) b m1") simp
    have S: "mval m2 (up + n) (u - n) + unat b = mval m1 (up + n) (u - n) + LB ^ (u - n) * unat c" "only_in (up + n) (u - n) m1 m2"
      using mpn_sub_1_spec [OF e] True by (auto simp: overlap_defs)
    have l: "mval m2 up n = mval m1 up n" by (rule only_in_mval [OF S(2)]) auto
    have h: "mval m1 (up + n) (u - n) = mval m (up + n) (u - n)" using f True by (intro only_in_mval [OF f]) auto
    have s: "mval x up u = mval x up n + LB ^ n * mval x (up + n) (u - n)" for x by (rule mval_split) (use True in simp)
    have p: "LB ^ u = LB ^ n * LB ^ (u - n)" using True by (simp flip: power_add)
    have "LB ^ n * (mval m2 (up + n) (u - n) + unat b) = LB ^ n * (mval m (up + n) (u - n) + LB ^ (u - n) * unat c)"
      using S(1) h by simp
    then have "mval m2 up u + q * mval m vp n = mval m up u + unat c * LB ^ u"
      using low True unfolding s [of m2] s [of m] l p by (simp add: algebra_simps)
    moreover have "only_in up u m m2"
      by (rule only_in_trans [OF only_in_mono [OF f] only_in_mono [OF S(2)]]) (use True in auto)
    ultimately show ?thesis by blast
  next
    case False
    then have mu: "min u n = u" by simp
    have s: "mval m vp n = mval m vp u + LB ^ u * mval m (vp + u) (n - u)" by (rule mval_split) (use False in simp)
    have "mval m1 up u + q * mval m vp n = mval m up u + (unat b + q * mval m (vp + u) (n - u)) * LB ^ u"
      using low unfolding mu s by (simp add: algebra_simps)
    then show ?thesis using f m2 False by (auto simp: mu)
  qed
  then show "\<exists>t. mval m2 up u + q * mval m vp n = mval m up u + t * LB ^ u" "only_in up u m m2" by blast+
qed

lemma bdivmod_submul_spec:
  assumes ov: "MPN_SAME_OR_INCR_P up vp (min u n)"
  shows "\<exists>t. mval (bdivmod_submul up u vp n q m) up u + unat q * mval m vp n = mval m up u + t * LB ^ u"
    and "only_in up u m (bdivmod_submul up u vp n q m)"
proof -
  obtain b m1 where e: "mpn_submul_1 up vp (min u n) q m = (b, m1)" by fastforce
  have eq: "bdivmod_submul up u vp n q m = (if u > n then snd (mpn_sub_1 (up + n) (up + n) (u - n) b m1) else m1)"
    by (simp add: bdivmod_submul_def e)
  note S = mpn_submul_1_spec [OF e ov]
  show "\<exists>t. mval (bdivmod_submul up u vp n q m) up u + unat q * mval m vp n = mval m up u + t * LB ^ u"
    and "only_in up u m (bdivmod_submul up u vp n q m)"
    using propagate_borrow [OF S eq] by (simp_all add: mult.commute)
qed

text \<open>With the inverse of the divisor's low limb the digit clears the low limb.\<close>

lemma low_limb_of:
  assumes "x + q * mval m vp n = U + t * LB ^ u" "1 \<le> u" "1 \<le> n" "x = unat r + LB * X" "U = unat a + LB * Y"
  shows "r = a - of_nat q * m vp"
proof -
  obtain j i where j: "u = Suc j" and i: "n = Suc i" using assms(2,3) by (cases u; cases n) auto
  have "unat r + q * unat (m vp) + LB * (X + q * mval m (vp + 1) i) = unat a + LB * (Y + t * LB ^ j)"
    using assms(1,4,5) by (simp add: i j algebra_simps)
  then have "(unat r + q * unat (m vp)) mod LB = unat a mod LB" by (metis mod_mult_self2)
  then have "of_nat (unat r + q * unat (m vp)) = (of_nat (unat a) :: limb)"
    by (simp only: limb_eq_iff unat_of_nat_limb)
  then have "r + of_nat q * m vp = a" by simp
  then show ?thesis by (simp add: eq_diff_eq)
qed

lemma bdivmod_step_spec:
  assumes vi: "vi * m vp = 1" and u: "1 \<le> u" and n: "1 \<le> n" and sep: "up + u \<le> vp \<or> vp + n \<le> up"
  defines "q \<equiv> m up * vi"
  defines "m1 \<equiv> bdivmod_submul up u vp n q m"
  shows "\<exists>t. LB * mval m1 (up + 1) (u - 1) + unat q * mval m vp n = mval m up u + t * LB ^ u" and "only_in up u m m1"
proof -
  have "MPN_SAME_OR_INCR_P up vp (min u n)" using sep by (auto simp: overlap_defs)
  note S = bdivmod_submul_spec [OF this, where q = q and m = m, folded m1_def]
  obtain t where t: "mval m1 up u + unat q * mval m vp n = mval m up u + t * LB ^ u" using S(1) by blast
  have c: "mval x up u = unat (x up) + LB * mval x (up + 1) (u - 1)" for x using u by (cases u) auto
  have "m1 up = m up - of_nat (unat q) * m vp" by (rule low_limb_of [OF t u n c c])
  then have "m1 up = 0" by (simp add: q_def mult.assoc vi)
  then show "\<exists>t. LB * mval m1 (up + 1) (u - 1) + unat q * mval m vp n = mval m up u + t * LB ^ u"
    using t c [of m1] by auto
  show "only_in up u m m1" by (rule S(2))
qed

lemma bdivmod_loop_spec:
  assumes n: "1 \<le> n"
  shows "vi * m vp = 1 \<Longrightarrow> k \<le> u \<Longrightarrow> up + u \<le> vp \<or> vp + n \<le> up \<Longrightarrow> qp + k \<le> vp \<or> vp + n \<le> qp \<Longrightarrow>
    MPN_SAME_OR_INCR2_P qp k up u \<Longrightarrow>
    (\<exists>t. LB ^ k * mval (bdivmod_loop k qp up u vp n vi m) (up + k) (u - k) + mval (bdivmod_loop k qp up u vp n vi m) qp k * mval m vp n
       = mval m up u + t * LB ^ u)
    \<and> only_at ({up..<up + u} \<union> {qp..<qp + k}) m (bdivmod_loop k qp up u vp n vi m)"
proof (induction k arbitrary: qp up u m)
  case (Suc k)
  define q m1 m2 where "q = m up * vi" and "m1 = bdivmod_submul up u vp n q m" and "m2 = m1(qp := q)"
  have u: "1 \<le> u" using Suc.prems(2) by simp
  have A: "\<exists>t. LB * mval m1 (up + 1) (u - 1) + unat q * mval m vp n = mval m up u + t * LB ^ u" "only_in up u m m1"
    unfolding m1_def q_def
    by (rule bdivmod_step_spec [where vi = vi and m = m and vp = vp and up = up, OF Suc.prems(1) u n Suc.prems(3)])+
  obtain t1 where t1: "LB * mval m1 (up + 1) (u - 1) + unat q * mval m vp n = mval m up u + t1 * LB ^ u" using A(1) by blast
  have f2: "only_at ({up..<up + u} \<union> {qp..<qp + Suc k}) m m2"
    unfolding m2_def by (intro only_at_trans [OF only_in_at [OF A(2)] only_at_upd]) auto
  have q2: "mval m2 (up + 1) (u - 1) = mval m1 (up + 1) (u - 1)"
    unfolding m2_def by (rule mval_upd_out) (use Suc.prems(2,5) in \<open>auto simp: overlap_defs\<close>)
  have v2: "m2 vp = m vp" "mval m2 vp n = mval m vp n"
  proof -
    have d: "{vp..<vp + n} \<inter> ({up..<up + u} \<union> {qp..<qp + Suc k}) = {}" using Suc.prems(3,4) by auto
    show "mval m2 vp n = mval m vp n" by (rule only_at_mval [OF f2 d])
    show "m2 vp = m vp" using only_atD [OF f2, of vp] d n by (auto simp: disjoint_iff)
  qed
  define m3 where "m3 = bdivmod_loop k (qp + 1) (up + 1) (u - 1) vp n vi m2"
  have P: "vi * m2 vp = 1" "k \<le> u - 1" "up + 1 + (u - 1) \<le> vp \<or> vp + n \<le> up + 1" "qp + 1 + k \<le> vp \<or> vp + n \<le> qp + 1"
    "MPN_SAME_OR_INCR2_P (qp + 1) k (up + 1) (u - 1)"
    using Suc.prems v2(1) u by (auto simp: overlap_defs)
  obtain t2 where t2: "LB ^ k * mval m3 (up + 1 + k) (u - 1 - k) + mval m3 (qp + 1) k * mval m vp n = mval m1 (up + 1) (u - 1) + t2 * LB ^ (u - 1)"
    and f3: "only_at ({up + 1..<up + 1 + (u - 1)} \<union> {qp + 1..<qp + 1 + k}) m2 m3"
    using Suc.IH [where m = m2 and up = "up + 1" and u = "u - 1" and qp = "qp + 1", OF P] unfolding v2(2) q2 m3_def [symmetric] by blast
  have eq: "bdivmod_loop (Suc k) qp up u vp n vi m = m3"
    by (simp add: m3_def m2_def m1_def q_def Let_def)
  have "m3 qp = m2 qp" using only_atD [OF f3, of qp] Suc.prems(2,5) by (auto simp: overlap_defs)
  then have qv: "mval m3 qp (Suc k) = unat q + LB * mval m3 (qp + 1) k" by (simp add: m2_def)
  have pu: "LB ^ u = LB * LB ^ (u - 1)" using u by (cases u) auto
  have "LB * (LB ^ k * mval m3 (up + 1 + k) (u - 1 - k) + mval m3 (qp + 1) k * mval m vp n) = LB * (mval m1 (up + 1) (u - 1) + t2 * LB ^ (u - 1))"
    using t2 by simp
  then have "LB ^ Suc k * mval m3 (up + Suc k) (u - Suc k) + mval m3 qp (Suc k) * mval m vp n = mval m up u + (t1 + t2) * LB ^ u"
    using t1 unfolding qv pu by (simp add: algebra_simps)
  moreover have "only_at ({up..<up + u} \<union> {qp..<qp + Suc k}) m m3"
    by (rule only_at_trans [OF f2 only_at_mono [OF f3]]) auto
  ultimately show ?case unfolding eq by blast
qed (auto simp: only_at_refl)

section \<open>Correctness\<close>

text \<open>The digits at \<open>qp\<close> and the returned bits are the quotient modulo \<open>2 ^ d\<close>; what is left of the dividend is
  above the digits.\<close>

text \<open>The last digit, of \<open>d\<close> bits.\<close>

lemma last_digit_divides:
  fixes R U V t u d :: nat and a vi v :: limb
  assumes e: "R + q * V = U + t * LB ^ u" and u: "1 \<le> u" and d: "d < 32" and q: "q mod 2 ^ d = (unat a * unat vi) mod 2 ^ d"
    and vi: "vi * v = 1" and V: "V = unat v + LB * V1" and U: "U = unat a + LB * U1"
  shows "2 ^ d dvd R"
proof -
  define D :: nat where "D = 2 ^ d"
  have D: "D dvd LB" unfolding LB_power D_def using d by (intro le_imp_power_dvd) simp
  have Du: "D dvd t * LB ^ u" using D u by (cases u) auto
  have mod: "D dvd y \<Longrightarrow> (x + y) mod D = x mod D" for x y by (auto elim!: dvdE)
  have "unat vi * unat v mod LB = 1" using unat_times_limb [of vi v] vi by simp
  then have w: "unat vi * unat v = 1 + LB * (unat vi * unat v div LB)" using div_mult_mod_eq [of "unat vi * unat v" LB] by (simp only: mult.commute add.commute)
  have "q * V mod D = (unat a * unat vi) * V mod D" using q unfolding D_def by (rule mod_mult_cong) simp
  also have "(unat a * unat vi) * V = unat a * (unat vi * unat v) + LB * (unat a * unat vi * V1)"
    by (simp add: V algebra_simps)
  also have "\<dots> = unat a + LB * (unat a * (unat vi * unat v div LB) + unat a * unat vi * V1)"
    by (subst w) (simp add: distrib_left)
  also have "\<dots> mod D = unat a mod D" using D by (intro mod dvd_mult2)
  finally have "(R + unat a) mod D = (R + q * V) mod D" by (metis mod_add_right_eq)
  also have "\<dots> = U mod D" unfolding e by (rule mod [OF Du])
  also have "\<dots> = unat a mod D" unfolding U using D by (intro mod dvd_mult2)
  finally show ?thesis unfolding D_def by (metis add_diff_cancel_right' le_add2 mod_eq_dvd_iff_nat)
qed

text \<open>What the call leaves: \<open>bdivides\<close>.\<close>

definition bdivides :: "ptr \<Rightarrow> ptr \<Rightarrow> nat \<Rightarrow> nat \<Rightarrow> nat \<Rightarrow> mem \<Rightarrow> limb \<Rightarrow> mem \<Rightarrow> bool" where
  "bdivides qp up u V d m r m' \<longleftrightarrow>
     (\<exists>t. LB ^ (d div 32) * mval m' (up + d div 32) (u - d div 32) + (mval m' qp (d div 32) + LB ^ (d div 32) * unat r) * V
        = mval m up u + t * LB ^ u)
     \<and> unat r < 2 ^ (d mod 32) \<and> 2 ^ (d mod 32) dvd mval m' (up + d div 32) (u - d div 32)
     \<and> only_at ({up..<up + u} \<union> {qp..<qp + d div 32}) m m'"

lemma bdivmod_two:
  fixes m :: mem
  assumes vi: "vi * m vp = 1" and d: "d = 32 \<or> d = 64" and sep: "\<not> MPN_OVERLAP_P up 2 vp 2"
    and ov: "MPN_SAME_OR_INCR2_P qp (d div 32) up 2" and h: "umul_ppmm q (m vp) = (hi, lo)" and q: "q = m up * vi"
    and x: "x = m (up + 1) - (hi + q * m (vp + 1))"
    and m': "m' = (if d = 64 then m(up := 0, up + 1 := x, qp := q, up + 1 := 0, qp + 1 := x * vi) else m(up := 0, up + 1 := x, qp := q))"
  shows "bdivides qp up 2 (mval m vp 2) d m 0 m'"
proof -
  define V where "V = mval m vp 2"
  have V: "V = unat (m vp) + LB * unat (m (vp + 1))" by (simp add: V_def numeral_2_eq_2)
  have "q * m vp = m up" by (simp add: q mult.assoc vi)
  then have "unat (m up) = (unat q * unat (m vp)) mod LB" by (metis unat_times_limb)
  moreover have H: "unat q * unat (m vp) = unat lo + LB * unat hi" using umul_ppmm_correct [of q "m vp"] by (simp add: h)
  ultimately have "unat (m up) = unat lo" using unat_lt_LB [of lo] by simp
  then have lo: "LB * unat hi + unat (m up) = unat q * unat (m vp)" using H by simp
  have "x + (hi + q * m (vp + 1)) = m (up + 1)" by (simp add: x)
  then have "unat (x + (hi + q * m (vp + 1))) = unat (m (up + 1))" by simp
  then have "(unat x + unat hi + unat q * unat (m (vp + 1))) mod LB = unat (m (up + 1))"
    by (simp add: unat_plus_limb unat_times_limb mod_simps add.assoc)
  then obtain s where s: "unat x + unat hi + unat q * unat (m (vp + 1)) = unat (m (up + 1)) + LB * s"
    by (metis mod_div_decomp mult.commute add.commute)
  have U: "mval m up 2 = unat (m up) + LB * unat (m (up + 1))" by (simp add: numeral_2_eq_2)
  have one: "LB * unat x + unat q * V = mval m up 2 + s * LB ^ 2"
  proof -
    have "LB * (unat x + unat hi + unat q * unat (m (vp + 1))) = LB * (unat (m (up + 1)) + LB * s)" using s by simp
    then show ?thesis using lo unfolding V U by (simp add: algebra_simps power2_eq_square)
  qed
  show ?thesis
  proof (cases "d = 64")
    case False
    then have d': "d = 32" using d by simp
    have "m' (up + 1) = x" "m' qp = q" using ov m' d' by (auto simp: overlap_defs)
    moreover have "only_at ({up..<up + 2} \<union> {qp..<qp + 1}) m m'" using m' d' by (auto simp: only_at_def)
    ultimately show ?thesis using one d' by (auto simp: bdivides_def V_def)
  next
    case True
    have "unat (x * vi * m vp) = unat x" by (simp add: mult.assoc vi)
    then have "(unat (x * vi) * unat (m vp)) mod LB = unat x" by (simp add: unat_times_limb)
    then obtain s' where s': "unat (x * vi) * unat (m vp) = unat x + LB * s'"
      by (metis mod_div_decomp mult.commute add.commute)
    have "unat (x * vi) * V = unat x + LB * (s' + unat (x * vi) * unat (m (vp + 1)))"
      using s' unfolding V by (simp add: algebra_simps)
    then have "LB * (unat (x * vi) * V) = LB * (unat x + LB * (s' + unat (x * vi) * unat (m (vp + 1))))" by simp
    then have two: "(unat q + LB * unat (x * vi)) * V = mval m up 2 + (s + s' + unat (x * vi) * unat (m (vp + 1))) * LB ^ 2"
      using one by (simp add: algebra_simps power2_eq_square)
    have "m' qp = q" "m' (qp + 1) = x * vi" using ov m' True by (auto simp: overlap_defs)
    then have "mval m' qp 2 = unat q + LB * unat (x * vi)" by (simp add: numeral_2_eq_2)
    moreover have "only_at ({up..<up + 2} \<union> {qp..<qp + 2}) m m'" using m' True by (auto simp: only_at_def)
    ultimately show ?thesis using two True by (auto simp: bdivides_def V_def)
  qed
qed

lemma last_digit_spec:
  fixes m :: mem and d :: nat
  assumes vi: "vi * m vp = 1" and n: "1 \<le> n" and u: "1 \<le> u" and d: "d < 32" and sep: "up + u \<le> vp \<or> vp + n \<le> up"
    and q: "q = (m up * vi) AND (push_bit d 1 - 1)"
    and m1: "m1 = (if q \<le> 1 then (if q = 0 then m
        else (let (b, m) = mpn_sub_n up up vp (min u n) m
              in if u > n then snd (mpn_sub_1 (up + n) (up + n) (u - n) b m) else m))
      else bdivmod_submul up u vp n q m)"
  shows "\<exists>t. mval m1 up u + unat q * mval m vp n = mval m up u + t * LB ^ u" and "unat q < 2 ^ d" and "2 ^ d dvd mval m1 up u"
    and "only_in up u m m1"
proof -
  have ov: "MPN_SAME_OR_INCR_P up vp (min u n)" "MPN_SAME_OR_INCR_P up up (min u n)" using sep by (auto simp: overlap_defs)
  have uq: "unat q = unat (m up * vi) mod 2 ^ d" unfolding q by (rule limb_and_low [OF d])
  have *: "(\<exists>t. mval m1 up u + unat q * mval m vp n = mval m up u + t * LB ^ u) \<and> only_in up u m m1"
  proof -
    consider "q = 0" | "q = 1" | "\<not> q \<le> 1" by (auto simp: limb_le_iff limb_eq_iff le_Suc_eq)
    then show ?thesis
    proof cases
      case 1
      then show ?thesis using m1 by (auto intro: exI [of _ 0])
    next
      case 2
      obtain b m2 where e: "mpn_sub_n up up vp (min u n) m = (b, m2)" by fastforce
      note S = mpn_sub_n_spec [OF e ov(2,1)]
      have "m1 = (if u > n then snd (mpn_sub_1 (up + n) (up + n) (u - n) b m2) else m2)" using m1 2 by (simp add: e)
      moreover have "mval m2 up (min u n) + mval m vp (min u n) * 1 = mval m up (min u n) + LB ^ min u n * unat b" using S(1) by simp
      ultimately show ?thesis using propagate_borrow [OF _ S(3), where q = 1] 2 by simp
    next
      case 3
      then have "q \<noteq> 0" by auto
      then show ?thesis using bdivmod_submul_spec [OF ov(1), where q = q and m = m] m1 3 by simp
    qed
  qed
  then show "\<exists>t. mval m1 up u + unat q * mval m vp n = mval m up u + t * LB ^ u" and "only_in up u m m1" by blast+
  show "unat q < 2 ^ d" unfolding uq by simp
  obtain t where t: "mval m1 up u + unat q * mval m vp n = mval m up u + t * LB ^ u" using * by blast
  show "2 ^ d dvd mval m1 up u"
  proof (rule last_digit_divides [OF t u d _ vi])
    have "(2 :: nat) ^ d dvd LB" unfolding LB_power using d by (intro le_imp_power_dvd) simp
    then show "unat q mod 2 ^ d = unat (m up) * unat vi mod 2 ^ d" by (simp add: uq unat_times_limb mod_mod_cancel)
    show "mval m vp n = unat (m vp) + LB * mval m (vp + 1) (n - 1)" using n by (cases n) auto
    show "mval m up u = unat (m up) + LB * mval m (up + 1) (u - 1)" using u by (cases u) auto
  qed
qed

lemma mpn_bdivmod_spec:
  assumes odd: "odd (m vp)" and n: "1 \<le> n" and d: "d \<le> u * 32" and u: "1 \<le> u"
    and sep: "\<not> MPN_OVERLAP_P up u vp n" "\<not> MPN_OVERLAP_P qp (d div 32) vp n" and ov: "MPN_SAME_OR_INCR2_P qp (d div 32) up u"
    and eq: "mpn_bdivmod qp up u vp n d m = (r, m')"
  shows "bdivides qp up u (mval m vp n) d m r m'"
proof -
  define vi where "vi = modlimb_invert (m vp)"
  have vi: "vi * m vp = 1" using modlimb_invert_correct [OF odd] by (simp add: vi_def)
  show ?thesis
  proof (cases "u = 2 \<and> n = 2 \<and> (d = 32 \<or> d = 2 * 32)")
    case True
    define q where "q = m up * vi"
    obtain hi lo where h: "umul_ppmm q (m vp) = (hi, lo)" by fastforce
    define x where "x = m (up + 1) - (hi + q * m (vp + 1))"
    have "qp \<noteq> up + 1" "vp + 1 \<noteq> up" using ov sep(1) True by (auto simp: overlap_defs)
    then have "r = 0 \<and> m' = (if d = 64 then m(up := 0, up + 1 := x, qp := q, up + 1 := 0, qp + 1 := x * vi) else m(up := 0, up + 1 := x, qp := q))"
      using eq True unfolding mpn_bdivmod_def vi_def [symmetric] by (auto simp: Let_def h x_def simp flip: q_def)
    then show ?thesis using bdivmod_two [where m = m and vp = vp and up = up, OF vi _ _ _ h q_def x_def] True sep(1) ov by auto
  next
    case False
    define k u' p where "k = d div 32" and "u' = u - k" and "p = up + k"
    define m1 where "m1 = bdivmod_loop k qp up u vp n vi m"
    have k: "k \<le> u" using d by (simp add: k_def)
    have P: "up + u \<le> vp \<or> vp + n \<le> up" "qp + k \<le> vp \<or> vp + n \<le> qp" "MPN_SAME_OR_INCR2_P qp k up u"
      using sep ov n u by (auto simp: overlap_defs k_def)
    obtain t1 where t1: "LB ^ k * mval m1 p u' + mval m1 qp k * mval m vp n = mval m up u + t1 * LB ^ u"
      and f1: "only_at ({up..<up + u} \<union> {qp..<qp + k}) m m1"
      using bdivmod_loop_spec [where m = m and vp = vp, OF n vi k P] unfolding m1_def p_def u'_def by blast
    show ?thesis
    proof (cases "d mod 32 = 0")
      case True
      then have "r = 0" "m' = m1" using eq True unfolding mpn_bdivmod_def Let_def if_not_P [OF False] by (simp_all add: m1_def k_def vi_def)
      then show ?thesis using t1 f1 True by (auto simp: bdivides_def k_def p_def u'_def)
    next
      case dd: False
      have u': "1 \<le> u'" using d div_mult_mod_eq [of d 32] dd unfolding u'_def k_def by linarith
      have d': "{vp..<vp + n} \<inter> ({up..<up + u} \<union> {qp..<qp + k}) = {}" using P(1,2) by auto
      have V: "mval m1 vp n = mval m vp n" by (rule only_at_mval [OF f1 d'])
      have "m1 vp = m vp" using only_atD [OF f1, of vp] d' n by (auto simp: disjoint_iff)
      then have vi1: "vi * m1 vp = 1" using vi by simp
      define q where "q = (m1 p * vi) AND (push_bit (d mod 32) 1 - 1)"
      define m2 where "m2 = (if q \<le> 1 then (if q = 0 then m1
          else (let (b, m) = mpn_sub_n p p vp (min u' n) m1 in if u' > n then snd (mpn_sub_1 (p + n) (p + n) (u' - n) b m) else m))
        else bdivmod_submul p u' vp n q m1)"
      have r: "r = q" "m' = m2"
        using eq dd unfolding mpn_bdivmod_def Let_def if_not_P [OF False] vi_def [symmetric] k_def [symmetric] p_def [symmetric]
          u'_def [symmetric] m1_def [symmetric] q_def [symmetric]
        by (auto simp: m2_def split: if_splits prod.splits)
      have sp: "p + u' \<le> vp \<or> vp + n \<le> p" using P(1) k by (auto simp: p_def u'_def)
      have L: "\<exists>t. mval m2 p u' + unat q * mval m1 vp n = mval m1 p u' + t * LB ^ u'" "unat q < 2 ^ (d mod 32)"
        "2 ^ (d mod 32) dvd mval m2 p u'" "only_in p u' m1 m2"
        by (rule last_digit_spec [where m = m1 and vp = vp and up = p, OF vi1 n u' _ sp q_def m2_def], simp)+
      obtain t where t: "mval m2 p u' + unat q * mval m vp n = mval m1 p u' + t * LB ^ u'" using L(1) unfolding V by blast
      have qk: "mval m2 qp k = mval m1 qp k"
        by (rule only_in_mval [OF L(4)]) (use P(3) k in \<open>auto simp: overlap_defs p_def u'_def\<close>)
      have pu: "LB ^ u = LB ^ k * LB ^ u'" using k by (simp add: u'_def flip: power_add)
      have "LB ^ k * (mval m2 p u' + unat q * mval m vp n) = LB ^ k * (mval m1 p u' + t * LB ^ u')" using t by simp
      then have "LB ^ k * mval m2 p u' + (mval m2 qp k + LB ^ k * unat q) * mval m vp n = mval m up u + (t1 + t) * LB ^ u"
        using t1 unfolding qk pu by (simp add: algebra_simps)
      moreover have "only_at ({up..<up + u} \<union> {qp..<qp + k}) m m2"
        by (rule only_at_trans [OF f1 only_in_at [OF L(4)]]) (use k in \<open>auto simp: p_def u'_def\<close>)
      ultimately show ?thesis using L(2,3) unfolding bdivides_def r k_def [symmetric] p_def [symmetric] u'_def [symmetric] by blast
    qed
  qed
qed

end
