(* ===== verification/Mpn_Divexact.thy ===== *)
theory Mpn_Divexact
  imports Mpn_Gcd1 Mpn_Bdivmod
begin

text \<open>
  Exact division by a limb (\<open>mpn/generic/dive_1.c\<close>) and by 3 (\<open>mpn/generic/diveby3.c\<close>): quotient limbs from the
  low end, by the inverse of the odd part of the divisor modulo the limb base.
\<close>

unbundle bit_operations_syntax

section \<open>The operations\<close>

text \<open>The loops are entered with the quotient limb \<open>l\<close> last stored. With an even divisor the source is shifted
  on the fly, \<open>s\<close> being the limb of which the low bits are used up.\<close>

fun divexact_odd_loop :: "nat \<Rightarrow> ptr \<Rightarrow> ptr \<Rightarrow> limb \<Rightarrow> limb \<Rightarrow> limb \<Rightarrow> limb \<Rightarrow> mem \<Rightarrow> mem" where
  "divexact_odd_loop 0 dst src di divisor l c m = m"
| "divexact_odd_loop (Suc n) dst src di divisor l c m =
     (let (l, dummy) = umul_ppmm l divisor;
          c = c + l;
          s = m src;
          (c, l) = SUBC_LIMB s c;
          l = l * di
      in divexact_odd_loop n (dst + 1) (src + 1) di divisor l c (m(dst := l)))"

fun divexact_even_loop :: "nat \<Rightarrow> ptr \<Rightarrow> ptr \<Rightarrow> nat \<Rightarrow> limb \<Rightarrow> limb \<Rightarrow> limb \<Rightarrow> limb \<Rightarrow> mem \<Rightarrow> mem" where
  "divexact_even_loop 0 dst src shift di divisor s c m =
     (let ls = drop_bit shift s;
          l = ls - c;
          l = l * di
      in m(dst := l))"
| "divexact_even_loop (Suc n) dst src shift di divisor s c m =
     (let s_next = m (src + 1);
          ls = drop_bit shift s OR push_bit (32 - shift) s_next;
          s = s_next;
          (c, l) = SUBC_LIMB ls c;
          l = l * di;
          m = m(dst := l);
          (l, dummy) = umul_ppmm l divisor;
          c = c + l
      in divexact_even_loop n (dst + 1) (src + 1) shift di divisor s c m)"

definition mpn_divexact_1 :: "ptr \<Rightarrow> ptr \<Rightarrow> nat \<Rightarrow> limb \<Rightarrow> mem \<Rightarrow> mem" where
  "mpn_divexact_1 dst src sz divisor m =
     (if sz = 1 then m(dst := m src div divisor)
      else (let (shift, divisor) =
                  (if divisor AND 1 = 0
                   then (let shift = unat (count_trailing_zeros divisor) in (shift, drop_bit shift divisor))
                   else (0, divisor));
                di = modlimb_invert divisor
            in if shift \<noteq> 0
               then divexact_even_loop (sz - 1) dst src shift di divisor (m src) 0 m
               else (let l = m src;
                         l = l * di;
                         m = m(dst := l)
                     in divexact_odd_loop (sz - 1) (dst + 1) (src + 1) di divisor l 0 m)))"

definition DIVEXACT_1_THRESHOLD :: nat where
  "DIVEXACT_1_THRESHOLD = 0"

definition MPN_DIVREM_OR_DIVEXACT_1 :: "ptr \<Rightarrow> ptr \<Rightarrow> nat \<Rightarrow> limb \<Rightarrow> mem \<Rightarrow> mem" where
  "MPN_DIVREM_OR_DIVEXACT_1 dst src sz divisor m =
     (if BELOW_THRESHOLD sz DIVEXACT_1_THRESHOLD then snd (mpn_divrem_1 dst 0 src sz divisor m)
      else mpn_divexact_1 dst src sz divisor m)"

definition MODLIMB_INVERSE_3 :: limb where
  "MODLIMB_INVERSE_3 = (NOT 0 div 3) * 2 + 1"

fun mpn_divexact_by3c :: "ptr \<Rightarrow> ptr \<Rightarrow> nat \<Rightarrow> limb \<Rightarrow> mem \<Rightarrow> limb \<times> mem" where
  "mpn_divexact_by3c dst src 0 c m = (c, m)"
| "mpn_divexact_by3c dst src (Suc n) c m =
     (let s = m src;
          l = s - c;
          c = of_bool (l > s);
          l = l * MODLIMB_INVERSE_3;
          m = m(dst := l);
          c = c + of_bool (l > NOT 0 div 3);
          c = c + of_bool (l > (NOT 0 div 3) * 2)
      in mpn_divexact_by3c (dst + 1) (src + 1) n c m)"

section \<open>Correctness\<close>

lemma exact_quotient:
  fixes Q X d C L :: nat
  assumes e: "Q * d = X + L * C" and d: "d dvd X" and cop: "coprime d L" and lt: "Q < L"
  shows "Q = X div d"
proof -
  obtain Y where Y: "X = d * Y" using d by (elim dvdE)
  have d0: "d \<noteq> 0 \<or> L = 1" using cop by (cases "d = 0") auto
  show ?thesis
  proof (cases "d = 0")
    case True
    then show ?thesis using d0 lt by simp
  next
    case False
    have "Y \<le> Q" using e Y False by (metis le_add1 mult.commute mult_le_cancel1 neq0_conv)
    have "d * (Q - Y) = L * C" using e Y by (simp add: diff_mult_distrib2 mult.commute)
    then have "L dvd Q - Y" using cop by (metis coprime_commute coprime_dvd_mult_right_iff dvd_triv_left)
    then have "Q - Y = 0" using lt by (metis dvd_imp_le le_less_trans diff_le_self not_less gr0I)
    then show ?thesis using \<open>Y \<le> Q\<close> Y False by simp
  qed
qed

lemma coprime_LB: "odd (unat (d :: limb)) \<Longrightarrow> coprime (unat d) (LB ^ n)"
  by (simp only: LB_power coprime_power_right_iff coprime_right_2_iff_odd simp_thms)

lemma exact_carry:
  assumes "umul_ppmm ((s - c) * di) d = (h, x)"
  shows "of_bool (s - c > s) + h = modexact_step di d s c"
  using assms by (simp add: modexact_step_def SUBC_LIMB_def Let_def)

lemma divexact_odd_loop_spec:
  assumes inv: "di * d = 1" and d: "d \<noteq> 0"
  shows "umul_ppmm l d = (h, x) \<Longrightarrow> MPN_SAME_OR_INCR_P dst src n \<Longrightarrow>
    (\<exists>C. mval (divexact_odd_loop n dst src di d l c m) dst n * unat d + unat (c + h) = mval m src n + LB ^ n * C)
    \<and> only_in dst n m (divexact_odd_loop n dst src di d l c m)"
proof (induction n arbitrary: dst src l c h x m)
  case (Suc n)
  define c1 s where "c1 = c + h" and "s = m src"
  define l1 m1 where "l1 = (s - c1) * di" and "m1 = m(dst := l1)"
  obtain h1 x1 where u: "umul_ppmm l1 d = (h1, x1)" by fastforce
  define c2 where "c2 = modexact_step di d s c1"
  have c2: "of_bool (s - c1 > s) + h1 = c2" unfolding c2_def by (rule exact_carry [OF u [unfolded l1_def]])
  define m2 where "m2 = divexact_odd_loop n (dst + 1) (src + 1) di d l1 (of_bool (s - c1 > s)) m1"
  have eq: "divexact_odd_loop (Suc n) dst src di d l c m = m2"
    by (simp add: Suc.prems(1) SUBC_LIMB_def Let_def c1_def [symmetric] s_def [symmetric] l1_def [symmetric] m1_def [symmetric] m2_def)
  have ov: "MPN_SAME_OR_INCR_P (dst + 1) (src + 1) n" using Suc.prems(2) by (auto simp: overlap_defs)
  obtain C where C: "mval m2 (dst + 1) n * unat d + unat c2 = mval m1 (src + 1) n + LB ^ n * C" and f: "only_in (dst + 1) n m1 m2"
    using Suc.IH [OF u ov, of "of_bool (s - c1 > s)" m1] unfolding m2_def [symmetric] c2 by blast
  have v1: "mval m1 (src + 1) n = mval m (src + 1) n"
    unfolding m1_def by (rule mval_upd_out) (use Suc.prems(2) in \<open>auto simp: overlap_defs\<close>)
  have S: "LB * unat c2 + unat s = unat l1 * unat d + unat c1"
    unfolding c2_def l1_def by (rule modexact_step_spec(1) [OF inv d])
  have "m2 dst = m1 dst" using only_inD [OF f, of dst] by simp
  then have "mval m2 dst (Suc n) = unat l1 + LB * mval m2 (dst + 1) n" by (simp add: m1_def)
  moreover have "LB * (mval m2 (dst + 1) n * unat d + unat c2) = LB * (mval m (src + 1) n + LB ^ n * C)" using C v1 by simp
  ultimately have "mval m2 dst (Suc n) * unat d + unat c1 = mval m src (Suc n) + LB ^ Suc n * C"
    using S by (simp add: s_def algebra_simps)
  moreover have "only_in dst (Suc n) m m2"
    unfolding m1_def by (rule only_in_trans [OF only_in_upd only_in_mono [OF f [unfolded m1_def]]]) auto
  ultimately show ?case unfolding eq c1_def by blast
qed auto

text \<open>The next limb of the shifted source.\<close>

lemma shifted_limb:
  fixes s t :: limb and W :: nat
  assumes sh: "0 < sh" "sh < 32" and W: "W = unat t + LB * W'"
  shows "(unat s + LB * W) div 2 ^ sh = unat (drop_bit sh s OR push_bit (32 - sh) t) + LB * (W div 2 ^ sh)"
proof -
  have B: "LB = 2 ^ sh * 2 ^ (32 - sh)" using sh by (simp add: LB_power flip: power_add)
  have p: "unat (push_bit (32 - sh) t) = 2 ^ (32 - sh) * (unat t mod 2 ^ sh)" using unat_push_limb [of "32 - sh" t] sh by simp
  have o: "unat (drop_bit sh s OR push_bit (32 - sh) t) = unat s div 2 ^ sh + 2 ^ (32 - sh) * (unat t mod 2 ^ sh)"
    using unat_or_push [of "drop_bit sh s" "32 - sh" t] drop_low_less [of sh s] sh by (simp add: p unat_drop_limb)
  have m: "W mod 2 ^ sh = unat t mod 2 ^ sh" unfolding W by (subst B) (simp add: mult.assoc)
  have "(unat s + LB * W) div 2 ^ sh = unat s div 2 ^ sh + 2 ^ (32 - sh) * W" by (subst B) (simp add: mult.assoc)
  also have "2 ^ (32 - sh) * W = 2 ^ (32 - sh) * (2 ^ sh * (W div 2 ^ sh) + unat t mod 2 ^ sh)" by (simp flip: m)
  also have "\<dots> = LB * (W div 2 ^ sh) + 2 ^ (32 - sh) * (unat t mod 2 ^ sh)" by (subst B) (simp add: algebra_simps)
  finally show ?thesis unfolding o by simp
qed

lemma divexact_even_loop_spec:
  assumes inv: "di * d = 1" and d: "d \<noteq> 0" and sh: "0 < sh" "sh < 32"
  shows "MPN_SAME_OR_INCR_P dst src (Suc n) \<Longrightarrow>
    (\<exists>C. mval (divexact_even_loop n dst src sh di d s c m) dst (Suc n) * unat d + unat c
        = (unat s + LB * mval m (src + 1) n) div 2 ^ sh + LB ^ Suc n * C)
    \<and> only_in dst (Suc n) m (divexact_even_loop n dst src sh di d s c m)"
proof (induction n arbitrary: dst src s c m)
  case 0
  have "LB * unat (modexact_step di d (drop_bit sh s) c) + unat (drop_bit sh s) = unat ((drop_bit sh s - c) * di) * unat d + unat c"
    by (rule modexact_step_spec(1) [OF inv d])
  then have "unat ((drop_bit sh s - c) * di) * unat d + unat c = unat s div 2 ^ sh + LB * unat (modexact_step di d (drop_bit sh s) c)"
    by (simp add: unat_drop_limb)
  then show ?case by (auto simp: Let_def only_in_def)
next
  case (Suc n)
  define t where "t = m (src + 1)"
  define ls where "ls = drop_bit sh s OR push_bit (32 - sh) t"
  define l1 m1 where "l1 = (ls - c) * di" and "m1 = m(dst := l1)"
  obtain h1 x1 where u: "umul_ppmm l1 d = (h1, x1)" by fastforce
  define c2 where "c2 = modexact_step di d ls c"
  have c2: "of_bool (ls - c > ls) + h1 = c2" unfolding c2_def by (rule exact_carry [OF u [unfolded l1_def]])
  define m2 where "m2 = divexact_even_loop n (dst + 1) (src + 1) sh di d t c2 m1"
  have eq: "divexact_even_loop (Suc n) dst src sh di d s c m = m2"
    unfolding divexact_even_loop.simps Let_def t_def [symmetric] ls_def [symmetric] SUBC_LIMB_def
    by (simp add: l1_def [symmetric] m1_def [symmetric] u c2 m2_def)
  have ov: "MPN_SAME_OR_INCR_P (dst + 1) (src + 1) (Suc n)" using Suc.prems by (auto simp: overlap_defs)
  define W where "W = mval m (src + 1) (Suc n)"
  have W: "W = unat t + LB * mval m (src + 1 + 1) n" by (simp add: W_def t_def)
  have v1: "mval m1 (src + 1 + 1) n = mval m (src + 1 + 1) n"
    unfolding m1_def by (rule mval_upd_out) (use Suc.prems in \<open>auto simp: overlap_defs\<close>)
  obtain C where C: "mval m2 (dst + 1) (Suc n) * unat d + unat c2 = W div 2 ^ sh + LB ^ Suc n * C"
    and f: "only_in (dst + 1) (Suc n) m1 m2"
    using Suc.IH [OF ov, of t c2 m1] unfolding m2_def [symmetric] v1 W [symmetric] by blast
  have S: "LB * unat c2 + unat ls = unat l1 * unat d + unat c"
    unfolding c2_def l1_def by (rule modexact_step_spec(1) [OF inv d])
  have "m2 dst = m1 dst" using only_inD [OF f, of dst] by simp
  then have v2: "mval m2 dst (Suc (Suc n)) = unat l1 + LB * mval m2 (dst + 1) (Suc n)" by (simp add: m1_def)
  have "LB * (mval m2 (dst + 1) (Suc n) * unat d + unat c2) = LB * (W div 2 ^ sh + LB ^ Suc n * C)" using C by simp
  then have "mval m2 dst (Suc (Suc n)) * unat d + unat c = unat ls + LB * (W div 2 ^ sh) + LB ^ Suc (Suc n) * C"
    using S unfolding v2 by (simp add: algebra_simps del: mval.simps)
  also have "unat ls + LB * (W div 2 ^ sh) = (unat s + LB * W) div 2 ^ sh"
    unfolding ls_def by (rule shifted_limb [OF sh W, symmetric])
  finally have "\<exists>C. mval m2 dst (Suc (Suc n)) * unat d + unat c = (unat s + LB * W) div 2 ^ sh + LB ^ Suc (Suc n) * C" by blast
  moreover have "only_in dst (Suc (Suc n)) m m2"
    unfolding m1_def by (rule only_in_trans [OF only_in_upd only_in_mono [OF f [unfolded m1_def]]]) auto
  ultimately show ?case unfolding eq W_def by blast
qed

lemma mpn_divexact_1_spec:
  assumes n: "1 \<le> n" and d: "d \<noteq> 0" and dvd: "unat d dvd mval m src n" and ov: "MPN_SAME_OR_SEPARATE_P dst src n"
  shows "mval (mpn_divexact_1 dst src n d m) dst n = mval m src n div unat d" and "only_in dst n m (mpn_divexact_1 dst src n d m)"
proof -
  define m' where "m' = mpn_divexact_1 dst src n d m"
  have ov': "MPN_SAME_OR_INCR_P dst src n" using ov by (auto simp: overlap_defs)
  have "mval m' dst n = mval m src n div unat d \<and> only_in dst n m m'"
  proof (cases "n = 1")
    case True
    then show ?thesis by (simp add: m'_def mpn_divexact_1_def unat_div)
  next
    case False
    obtain k where k: "n = Suc (Suc k)" using n False by (cases n; cases "n - 1") auto
    have lt: "mval m' dst n < LB ^ n" by (rule mval_less)
    show ?thesis
    proof (cases "d AND 1 = 0")
      case True
      define sh where "sh = unat (count_trailing_zeros d)"
      define d' where "d' = drop_bit sh d"
      note T = trailing_zeros [OF d, folded sh_def, folded d'_def]
      have sh0: "0 < sh" using T(1,2) True by (intro Nat.gr0I) (simp add: odd_limb_iff)
      have inv: "modlimb_invert d' * d' = 1" using modlimb_invert_correct T(2) by (simp add: even_limb_iff)
      have d0: "d' \<noteq> 0" using T(2) by auto
      have eq: "m' = divexact_even_loop (Suc k) dst src sh (modlimb_invert d') d' (m src) 0 m"
        using True sh0 unfolding m'_def mpn_divexact_1_def Let_def k sh_def [symmetric] by (simp add: d'_def)
      obtain C where C: "mval m' dst n * unat d' + unat (0 :: limb) = (unat (m src) + LB * mval m (src + 1) (Suc k)) div 2 ^ sh + LB ^ n * C"
        and f: "only_in dst n m m'"
        using divexact_even_loop_spec [OF inv d0 sh0 T(3), of dst src "Suc k" "m src" 0 m] ov' unfolding eq k by blast
      have X: "unat (m src) + LB * mval m (src + 1) (Suc k) = mval m src n" by (simp add: k)
      obtain Y where Y: "mval m src n = 2 ^ sh * unat d' * Y" using dvd T(1) by (auto elim: dvdE)
      have "mval m src n div 2 ^ sh = unat d' * Y" by (simp add: Y mult.assoc)
      then have e: "mval m' dst n * unat d' = unat d' * Y + LB ^ n * C" using C by (simp only: X) simp
      have "mval m' dst n = unat d' * Y div unat d'"
        by (rule exact_quotient [OF e _ coprime_LB [OF T(2)] lt]) simp
      also have "\<dots> = mval m src n div unat d"
        unfolding Y T(1) using d0 by (simp add: mult.assoc limb_eq_iff div_mult2_eq)
      finally show ?thesis using f by simp
    next
      case False
      then have od: "odd (unat d)" by (simp add: odd_limb_iff)
      have inv: "modlimb_invert d * d = 1" using modlimb_invert_correct od by (simp add: even_limb_iff)
      define di l where "di = modlimb_invert d" and "l = m src * di"
      obtain h x where u: "umul_ppmm l d = (h, x)" by fastforce
      have c: "h = modexact_step di d (m src) 0"
        using exact_carry [of "m src" 0 di d h x] u by (simp add: l_def)
      define m1 where "m1 = m(dst := l)"
      have eq: "m' = divexact_odd_loop (Suc k) (dst + 1) (src + 1) di d l 0 m1"
        using False unfolding m'_def mpn_divexact_1_def Let_def k by (simp add: di_def l_def m1_def)
      have ov1: "MPN_SAME_OR_INCR_P (dst + 1) (src + 1) (Suc k)" using ov' k by (auto simp: overlap_defs)
      obtain C where C: "mval m' (dst + 1) (Suc k) * unat d + unat (0 + h) = mval m1 (src + 1) (Suc k) + LB ^ Suc k * C"
        and f: "only_in (dst + 1) (Suc k) m1 m'"
        using divexact_odd_loop_spec [OF inv [folded di_def] d u ov1, of 0 m1] unfolding eq [symmetric] by blast
      have v1: "mval m1 (src + 1) (Suc k) = mval m (src + 1) (Suc k)"
        unfolding m1_def by (rule mval_upd_out) (use ov' k in \<open>auto simp: overlap_defs\<close>)
      have S: "LB * unat h + unat (m src) = unat l * unat d"
        using modexact_step_spec(1) [OF inv [folded di_def] d, of "m src" 0] by (simp add: c l_def)
      have "m' dst = m1 dst" using only_inD [OF f, of dst] by simp
      then have "mval m' dst n = unat l + LB * mval m' (dst + 1) (Suc k)" by (simp add: m1_def k)
      moreover have "LB * (mval m' (dst + 1) (Suc k) * unat d + unat h) = LB * (mval m (src + 1) (Suc k) + LB ^ Suc k * C)"
        using C v1 by simp
      ultimately have e: "mval m' dst n * unat d = mval m src n + LB ^ n * C"
        using S unfolding k by (simp add: algebra_simps del: mval.simps) (simp add: algebra_simps)
      have "mval m' dst n = mval m src n div unat d"
        by (rule exact_quotient [OF e dvd coprime_LB [OF od] lt])
      moreover have "only_in dst n m m'"
        unfolding k by (rule only_in_trans [OF only_in_upd only_in_mono [OF f [unfolded m1_def]]]) auto
      ultimately show ?thesis by blast
    qed
  qed
  then show "mval (mpn_divexact_1 dst src n d m) dst n = mval m src n div unat d" "only_in dst n m (mpn_divexact_1 dst src n d m)"
    unfolding m'_def by blast+
qed

lemma MPN_DIVREM_OR_DIVEXACT_1_eq: "MPN_DIVREM_OR_DIVEXACT_1 dst src n d m = mpn_divexact_1 dst src n d m"
  by (simp add: MPN_DIVREM_OR_DIVEXACT_1_def BELOW_THRESHOLD_def ABOVE_THRESHOLD_def DIVEXACT_1_THRESHOLD_def)

text \<open>By 3, with a carry in and out of at most 2.\<close>

lemma third_limb:
  fixes s c :: limb
  assumes c: "unat c \<le> 2"
  defines "l \<equiv> (s - c) * MODLIMB_INVERSE_3"
  defines "c' \<equiv> (of_bool (s - c > s) + of_bool (l > NOT 0 div 3) + of_bool (l > (NOT 0 div 3) * 2) :: limb)"
  shows "3 * unat l + unat c = unat s + LB * unat c'" and "unat c' \<le> 2"
proof -
  define y where "y = s - c"
  have y: "unat y + unat c = unat s + LB * of_bool (y > s)" unfolding y_def by (rule sub_borrow')
  have "MODLIMB_INVERSE_3 * 3 = 1" by (simp add: MODLIMB_INVERSE_3_def)
  then have "l * 3 = y" by (simp add: l_def y_def mult.assoc)
  then have "(unat l * 3) mod LB = unat y" using unat_times_limb [of l 3] by simp
  then have h: "unat l * 3 = unat y + LB * (unat l * 3 div LB)" by (metis mod_mult_div_eq)
  have t: "(l > NOT 0 div 3) = (unat l > 1431655765)" "(l > (NOT 0 div 3) * 2) = (unat l > 2863311530)"
    by (simp_all add: limb_less_iff)
  have q: "unat l * 3 div LB = of_bool (l > NOT 0 div 3) + of_bool (l > (NOT 0 div 3) * 2)"
    unfolding t using unat_lt_LB [of l] unfolding LB_def by (simp add: div_nat_eqI split: if_splits)
  have u: "unat c' = of_bool (y > s) + unat l * 3 div LB"
  proof -
    have "c' = of_nat (of_bool (y > s) + unat l * 3 div LB)" unfolding q c'_def y_def by simp
    moreover have "of_bool (y > s) + unat l * 3 div LB < LB" unfolding q by (simp add: LB_def)
    ultimately show ?thesis by (simp only: of_nat_unat_small)
  qed
  show e: "3 * unat l + unat c = unat s + LB * unat c'" using y h unfolding u by (simp add: distrib_left)
  show "unat c' \<le> 2"
  proof (rule ccontr)
    assume "\<not> unat c' \<le> 2"
    then have "LB * 3 \<le> LB * unat c'" by simp
    then show False using e c unat_lt_LB [of l] by linarith
  qed
qed

lemma mpn_divexact_by3c_spec:
  "mpn_divexact_by3c dst src n c m = (c', m') \<Longrightarrow> unat c \<le> 2 \<Longrightarrow> MPN_SAME_OR_INCR_P dst src n \<Longrightarrow>
   3 * mval m' dst n + unat c = mval m src n + LB ^ n * unat c' \<and> unat c' \<le> 2 \<and> only_in dst n m m'"
proof (induction n arbitrary: dst src c m)
  case (Suc n)
  define s where "s = m src"
  define l where "l = (s - c) * MODLIMB_INVERSE_3"
  define c1 m1 where "c1 = (of_bool (s - c > s) + of_bool (l > NOT 0 div 3) + of_bool (l > (NOT 0 div 3) * 2) :: limb)" and "m1 = m(dst := l)"
  have L: "3 * unat l + unat c = unat s + LB * unat c1" "unat c1 \<le> 2"
    using third_limb [OF Suc.prems(2), of s] unfolding c1_def l_def by blast+
  have e: "mpn_divexact_by3c (dst + 1) (src + 1) n c1 m1 = (c', m')"
    using Suc.prems(1) by (simp add: Let_def s_def l_def c1_def m1_def)
  have ov: "MPN_SAME_OR_INCR_P (dst + 1) (src + 1) n" using Suc.prems(3) by (auto simp: overlap_defs)
  note I = Suc.IH [OF e L(2) ov]
  have v1: "mval m1 (src + 1) n = mval m (src + 1) n"
    unfolding m1_def by (rule mval_upd_out) (use Suc.prems(3) in \<open>auto simp: overlap_defs\<close>)
  have f: "only_in (dst + 1) n m1 m'" using I by blast
  have "m' dst = m1 dst" using only_inD [OF f, of dst] by simp
  then have "mval m' dst (Suc n) = unat l + LB * mval m' (dst + 1) n" by (simp add: m1_def)
  moreover have "LB * (3 * mval m' (dst + 1) n + unat c1) = LB * (mval m (src + 1) n + LB ^ n * unat c')" using I v1 by simp
  ultimately have "3 * mval m' dst (Suc n) + unat c = mval m src (Suc n) + LB ^ Suc n * unat c'"
    using L(1) by (simp add: s_def algebra_simps)
  moreover have "only_in dst (Suc n) m m'"
    unfolding m1_def by (rule only_in_trans [OF only_in_upd only_in_mono [OF f [unfolded m1_def]]]) auto
  ultimately show ?case using I by blast
qed auto

end
