(* ===== verification/Mpz_Tdiv.thy ===== *)
theory Mpz_Tdiv
  imports Mpn_TdivQr Mpz_DivUi Mpz_Mul
begin

text \<open>
  Truncating division of variables (\<open>mpz/tdiv_qr.c\<close>, \<open>tdiv_q.c\<close>, \<open>tdiv_r.c\<close>).  Operands that are also results
  are copied first; the copies, a result that is not asked for and the temporaries of \<open>mpn_tdiv_qr\<close> are taken
  above \<open>brk\<close>.
\<close>

unbundle bit_operations_syntax

section \<open>The functions\<close>

text \<open>\<open>TMP_ALLOC\<close> and \<open>MPN_COPY\<close> of an operand that overlaps a result.\<close>

definition separate_operand :: "bool \<Rightarrow> ptr \<Rightarrow> nat \<Rightarrow> state \<Rightarrow> ptr \<times> state" where
  "separate_operand clash p n st =
     (if clash
      then (let (tp, st) = ALLOCATE_FUNC_LIMBS n st
            in (tp, set_heap (MPN_COPY tp p n (heap st)) st))
      else (p, st))"

definition mpz_tdiv_qr :: "var \<Rightarrow> var \<Rightarrow> var \<Rightarrow> var \<Rightarrow> state \<Rightarrow> (gmp_error + state) option" where
  "mpz_tdiv_qr quot rem num den st =
     (let ns = SIZ st num;
          ds = SIZ st den;
          nl = nat \<bar>ns\<bar>;
          dl = nat \<bar>ds\<bar>;
          ql = int nl - int dl + 1
      in if dl = 0 then Some DIVIDE_BY_ZERO
         else let st = MPZ_REALLOC rem dl st
         in if ql \<le> 0
            then (let st = (if num \<noteq> rem
                            then (let np = PTR st num;
                                      rp = PTR st rem
                                  in set_SIZ rem (SIZ st num) (set_heap (MPN_COPY rp np nl (heap st)) st))
                            else st)
                  in Some (Inr (set_SIZ quot 0 st)))
            else (let ql = nat ql;
                      st = MPZ_REALLOC quot ql st;
                      qp = PTR st quot;
                      rp = PTR st rem;
                      np = PTR st num;
                      dp = PTR st den;
                      (dp, st) = separate_operand (dp = rp \<or> dp = qp) dp dl st;
                      (np, st) = separate_operand (np = rp \<or> np = qp) np nl st
                  in map_option (map_sum id (\<lambda>m.
                       let ql = ql - of_bool (m (qp + ql - 1) = 0);
                           dl = MPN_NORMALIZE m rp dl;
                           st = set_SIZ quot (if ns XOR ds \<ge> 0 then int ql else - int ql) (set_heap m st)
                       in set_SIZ rem (if ns \<ge> 0 then int dl else - int dl) st))
                     (mpn_tdiv_qr qp rp 0 np nl dp dl (brk st) (heap st))))"

definition mpz_tdiv_q :: "var \<Rightarrow> var \<Rightarrow> var \<Rightarrow> state \<Rightarrow> (gmp_error + state) option" where
  "mpz_tdiv_q quot num den st =
     (let ns = SIZ st num;
          ds = SIZ st den;
          nl = nat \<bar>ns\<bar>;
          dl = nat \<bar>ds\<bar>;
          ql = int nl - int dl + 1
      in if dl = 0 then Some DIVIDE_BY_ZERO
         else if ql \<le> 0 then Some (Inr (set_SIZ quot 0 st))
         else (let ql = nat ql;
                   st = MPZ_REALLOC quot ql st;
                   qp = PTR st quot;
                   (rp, st) = ALLOCATE_FUNC_LIMBS dl st;
                   np = PTR st num;
                   dp = PTR st den;
                   (dp, st) = separate_operand (dp = qp) dp dl st;
                   (np, st) = separate_operand (np = qp) np nl st
               in map_option (map_sum id (\<lambda>m.
                    let ql = ql - of_bool (m (qp + ql - 1) = 0)
                    in set_SIZ quot (if ns XOR ds \<ge> 0 then int ql else - int ql) (set_heap m st)))
                  (mpn_tdiv_qr qp rp 0 np nl dp dl (brk st) (heap st))))"

definition mpz_tdiv_r :: "var \<Rightarrow> var \<Rightarrow> var \<Rightarrow> state \<Rightarrow> (gmp_error + state) option" where
  "mpz_tdiv_r rem num den st =
     (let ns = SIZ st num;
          ds = SIZ st den;
          nl = nat \<bar>ns\<bar>;
          dl = nat \<bar>ds\<bar>;
          ql = int nl - int dl + 1
      in if dl = 0 then Some DIVIDE_BY_ZERO
         else let st = MPZ_REALLOC rem dl st
         in if ql \<le> 0
            then Some (Inr (if num \<noteq> rem
                            then (let np = PTR st num;
                                      rp = PTR st rem
                                  in set_SIZ rem (SIZ st num) (set_heap (MPN_COPY rp np nl (heap st)) st))
                            else st))
            else (let ql = nat ql;
                      (qp, st) = ALLOCATE_FUNC_LIMBS ql st;
                      rp = PTR st rem;
                      np = PTR st num;
                      dp = PTR st den;
                      (dp, st) = separate_operand (dp = rp) dp dl st;
                      (np, st) = separate_operand (np = rp) np nl st
                  in map_option (map_sum id (\<lambda>m.
                       let dl = MPN_NORMALIZE m rp dl
                       in set_SIZ rem (if ns \<ge> 0 then int dl else - int dl) (set_heap m st)))
                     (mpn_tdiv_qr qp rp 0 np nl dp dl (brk st) (heap st))))"

section \<open>Operands and results\<close>

lemma separate_operand_spec:
  assumes eq: "separate_operand clash p n st = (p', st')" and b: "p + n \<le> brk st"
  shows "st' = st\<lparr>heap := heap st', brk := brk st'\<rparr>" "only_at {brk st..} (heap st) (heap st')" "brk st \<le> brk st'"
    "mval (heap st') p' n = mval (heap st) p n" "p' + n \<le> brk st'" "1 \<le> n \<Longrightarrow> heap st' (p' + n - 1) = heap st (p + n - 1)"
    "if clash then p' = brk st else p' = p"
proof -
  have cp: "MPN_COPY (brk st) p n (heap st) = mcopy (brk st) p n (heap st)"
    by (rule MPN_COPY_spec) (use b in \<open>auto simp: overlap_defs\<close>)
  have "(if clash then p' = brk st \<and> st' = st\<lparr>heap := mcopy (brk st) p n (heap st), brk := brk st + n\<rparr> else p' = p \<and> st' = st)"
    using eq cp by (auto simp: separate_operand_def ALLOCATE_FUNC_LIMBS_def set_heap_def)
  moreover have "mcopy (brk st) p n (heap st) (brk st + n - 1) = heap st (p + n - 1)" if "1 \<le> n"
    using that mcopy_nth [of "n - 1" n "brk st" p "heap st"] by simp
  moreover have "only_at {brk st..} (heap st) (mcopy (brk st) p n (heap st))"
    by (rule only_in_at [OF only_in_mcopy]) auto
  ultimately show "st' = st\<lparr>heap := heap st', brk := brk st'\<rparr>" "only_at {brk st..} (heap st) (heap st')" "brk st \<le> brk st'"
    "mval (heap st') p' n = mval (heap st) p n" "p' + n \<le> brk st'" "1 \<le> n \<Longrightarrow> heap st' (p' + n - 1) = heap st (p + n - 1)"
    "if clash then p' = brk st else p' = p"
    using b by (auto split: if_splits)
qed

text \<open>The call of \<open>mpn_tdiv_qr\<close> behind the three functions.\<close>

lemma division_call:
  assumes ok: "store_ok st" and n: "num \<in> live st" and d: "den \<in> live st" and d0: "SIZ st den \<noteq> 0"
    and sz: "nl = ABSIZ st num" "dl = ABSIZ st den" "dl \<le> nl" "dl < MUL_TOOM3_THRESHOLD \<or> nl - dl + 1 < MUL_TOOM3_THRESHOLD"
    and o: "qp + (nl - dl + 1) \<le> b" "rp + dl \<le> b" "brk st \<le> b" "\<not> MPN_OVERLAP_P qp (nl - dl + 1) rp dl"
    and cd: "\<not> cd \<Longrightarrow> \<not> MPN_OVERLAP_P qp (nl - dl + 1) (PTR st den) dl \<and> \<not> MPN_OVERLAP_P rp dl (PTR st den) dl"
    and cn: "\<not> cn \<Longrightarrow> \<not> MPN_OVERLAP_P qp (nl - dl + 1) (PTR st num) nl \<and> \<not> MPN_OVERLAP_P rp dl (PTR st num) nl"
    and e1: "separate_operand cd (PTR st den) dl (st\<lparr>brk := b\<rparr>) = (dp, st1)" and e2: "separate_operand cn (PTR st num) nl st1 = (np, st2)"
  shows "\<exists>m. mpn_tdiv_qr qp rp 0 np nl dp dl (brk st2) (heap st2) = Some (Inr m)
    \<and> mval m qp (nl - dl + 1) = nat \<bar>zval st num\<bar> div nat \<bar>zval st den\<bar> \<and> mval m rp dl = nat \<bar>zval st num\<bar> mod nat \<bar>zval st den\<bar>
    \<and> only_at ({qp..<qp + (nl - dl + 1)} \<union> {rp..<rp + dl} \<union> {brk st..}) (heap st) m
    \<and> set_heap m st2 = st\<lparr>heap := m, brk := brk st2\<rparr> \<and> brk st \<le> brk st2"
proof -
  have bl: "PTR st x + ABSIZ st x \<le> brk st" if "x \<in> live st" for x
    using wf_ok [OF ok that] by (simp add: mpz_ok_def)
  have dn: "1 \<le> dl" using d0 sz by (simp add: Suc_leI)
  have b1: "PTR st den + dl \<le> brk (st\<lparr>brk := b\<rparr>)" using bl [OF d] sz o(3) by simp
  note S1 = separate_operand_spec [OF e1 b1, simplified]
  have b2: "PTR st num + nl \<le> brk st1" using bl [OF n] sz o(3) S1(3) by simp
  note S2 = separate_operand_spec [OF e2 b2]
  have N: "mval (heap st2) np nl = nat \<bar>zval st num\<bar>"
  proof -
    have "mval (heap st1) (PTR st num) nl = mval (heap st) (PTR st num) nl"
      by (rule only_at_mval [OF S1(2)]) (use bl [OF n] sz o(3) in auto)
    then show ?thesis using S2(4) zval_abs [OF ok n] sz by simp
  qed
  have dpb: "dp + dl \<le> brk st1" by (rule S1(5))
  have keep: "heap st2 a = heap st1 a" if "a < brk st1" for a by (rule only_atD [OF S2(2)]) (use that in simp)
  have D: "mval (heap st2) dp dl = nat \<bar>zval st den\<bar>"
    using mval_cong [of dl "heap st2" dp "heap st1"] keep dpb S1(4) zval_abs [OF ok d] sz by simp
  have top: "heap st2 (dp + dl - 1) \<noteq> 0"
    using keep [of "dp + dl - 1"] dpb dn S1(6) wf_ok [OF ok d] d0 sz by (simp add: mpz_ok_def)
  have br: "b \<le> brk st1" "brk st1 \<le> brk st2" using S1(3) S2(3) by simp_all
  have ov: "\<not> MPN_OVERLAP_P qp (nl - dl + 1) dp dl" "\<not> MPN_OVERLAP_P rp dl dp dl"
    using S1(7) cd o unfolding no_overlap_iff by (auto split: if_splits)
  have ov2: "\<not> MPN_OVERLAP_P qp (nl - dl + 1) np nl" "\<not> MPN_OVERLAP_P rp dl np nl"
    using S2(7) cn o br unfolding no_overlap_iff by (auto split: if_splits)
  obtain m where m: "mpn_tdiv_qr qp rp 0 np nl dp dl (brk st2) (heap st2) = Some (Inr m)"
    "mval m qp (nl - dl + 1) = nat \<bar>zval st num\<bar> div nat \<bar>zval st den\<bar>" "mval m rp dl = nat \<bar>zval st num\<bar> mod nat \<bar>zval st den\<bar>"
    "only_at ({qp..<qp + (nl - dl + 1)} \<union> {rp..<rp + dl} \<union> {brk st2..}) (heap st2) m"
    using mpn_tdiv_qr_spec [where m = "heap st2" and np = np and dp = dp and nn = nl and dn = dl and fp = "brk st2" and qp = qp and rp = rp, OF dn sz(3,4) top S2(5) _ _ _ ov(1) ov2(1) o(4) ov(2) ov2(2)] dpb br o(1,2) unfolding N D by auto
  have "only_at {brk st..} (heap st) (heap st2)"
    by (rule only_at_trans [OF only_at_mono [OF S1(2)] only_at_mono [OF S2(2)]]) (use br o(3) in auto)
  then have "only_at ({qp..<qp + (nl - dl + 1)} \<union> {rp..<rp + dl} \<union> {brk st..}) (heap st) m"
    by (intro only_at_trans [OF only_at_mono only_at_mono [OF m(4)]]) (use br o(3) in auto)
  moreover have "set_heap m st2 = st\<lparr>heap := m, brk := brk st2\<rparr>"
  proof -
    have "set_heap m st2 = set_heap m (st1\<lparr>heap := heap st2, brk := brk st2\<rparr>)" by (subst S2(1)) (rule refl)
    also have "\<dots> = st1\<lparr>heap := m, brk := brk st2\<rparr>" by (simp add: set_heap_def)
    also have "\<dots> = (st\<lparr>brk := b, heap := heap st1, brk := brk st1\<rparr>)\<lparr>heap := m, brk := brk st2\<rparr>" by (subst S1(1)) simp
    finally show ?thesis by simp
  qed
  ultimately show ?thesis using m br o(3) by auto
qed

text \<open>One and two results in memory \<open>m\<close>, with anything above the old \<open>brk\<close>.\<close>

lemma one_result:
  assumes "store_ok st" "w \<in> live st" "only_at ({PTR st w..<PTR st w + ALLOC st w} \<union> {brk st..}) (heap st) m"
    and "k \<le> ALLOC st w" "k = 0 \<or> m (PTR st w + k - 1) \<noteq> 0" "brk st \<le> b"
  shows "updates st w (with_sign neg (mval m (PTR st w) k)) (set_SIZ w (with_sign neg k) (st\<lparr>heap := m, brk := b\<rparr>))"
proof -
  note U = result_sized_scratch [OF assms(1-5), of neg]
  have "(set_SIZ w (with_sign neg k) (set_heap m st))\<lparr>heap := m, brk := b\<rparr> = set_SIZ w (with_sign neg k) (st\<lparr>heap := m, brk := b\<rparr>)"
    by (simp add: set_SIZ_def set_heap_def)
  then show ?thesis using updates_above [OF U assms(2), of m b] assms(6) by simp
qed

lemma two_results:
  assumes ok: "store_ok st" and l: "q \<in> live st" "r \<in> live st" "q \<noteq> r"
    and at: "only_at ({PTR st q..<PTR st q + ALLOC st q} \<union> {PTR st r..<PTR st r + ALLOC st r} \<union> {brk st..}) (heap st) m"
    and kq: "k \<le> ALLOC st q" "k = 0 \<or> m (PTR st q + k - 1) \<noteq> 0" and kr: "j \<le> ALLOC st r" "j = 0 \<or> m (PTR st r + j - 1) \<noteq> 0" and b: "brk st \<le> b"
  shows "updates2 st q (with_sign a (mval m (PTR st q) k)) r (with_sign c (mval m (PTR st r) j))
    (set_SIZ r (with_sign c j) (set_SIZ q (with_sign a k) (st\<lparr>heap := m, brk := b\<rparr>)))"
proof -
  define m1 where "m1 = (\<lambda>x. if PTR st q \<le> x \<and> x < PTR st q + ALLOC st q then m x else heap st x)"
  have i1: "m1 (PTR st q + i) = m (PTR st q + i)" if "i < ALLOC st q" for i using that by (simp add: m1_def)
  have v1: "mval m1 (PTR st q) k = mval m (PTR st q) k" by (rule mval_cong) (use i1 kq(1) in simp)
  have f1: "only_at ({PTR st q..<PTR st q + ALLOC st q} \<union> {brk st..}) (heap st) m1" by (auto simp: only_at_def m1_def)
  have t1: "k = 0 \<or> m1 (PTR st q + k - 1) \<noteq> 0" using kq i1 [of "k - 1"] by (cases k) auto
  define st1 where "st1 = set_SIZ q (with_sign a k) (set_heap m1 st)"
  have U1: "updates st q (with_sign a (mval m (PTR st q) k)) st1"
    using result_sized_scratch [OF ok l(1) f1 kq(1) t1, of a] unfolding v1 st1_def .
  have r1: "r \<in> live st1" using updatesD(2) [OF U1] l by simp
  have P: "PTR st1 r = PTR st r" "ALLOC st1 r = ALLOC st r" "brk st1 = brk st" "heap st1 = m1" by (simp_all add: st1_def)
  have "only_at ({PTR st1 r..<PTR st1 r + ALLOC st1 r} \<union> {brk st1..}) (heap st1) m"
    unfolding P using at by (auto simp: only_at_def m1_def)
  from one_result [OF updatesD(1) [OF U1] r1 this, of j b c] kr b
  have "updates st1 r (with_sign c (mval m (PTR st r) j)) (set_SIZ r (with_sign c j) (st1\<lparr>heap := m, brk := b\<rparr>))"
    unfolding P by simp
  moreover have "st1\<lparr>heap := m, brk := b\<rparr> = set_SIZ q (with_sign a k) (st\<lparr>heap := m, brk := b\<rparr>)"
    by (simp add: st1_def set_SIZ_def set_heap_def)
  ultimately show ?thesis using updates2I [OF U1 _ l(1,3)] by simp
qed

text \<open>The limbs of the quotient: at most one high limb is zero.\<close>

lemma quotient_top:
  fixes nl dl :: nat
  assumes v: "mval m p (nl - dl + 1) = N div D" and sz: "1 \<le> dl" "dl \<le> nl" "LB ^ (nl - 1) \<le> N" "D < LB ^ dl" "0 < D"
    and k: "k = (nl - dl + 1) - of_bool (m (p + (nl - dl + 1) - 1) = 0)"
  shows "mval m p k = N div D" "k = 0 \<or> m (p + k - 1) \<noteq> 0" "k \<le> nl - dl + 1"
proof -
  define j where "j = nl - dl"
  have k': "k = (if m (p + j) = 0 then j else Suc j)" using k by (simp add: j_def)
  show "k \<le> nl - dl + 1" using k by simp
  have v': "mval m p j + LB ^ j * unat (m (p + j)) = N div D" using v unfolding j_def [symmetric] Suc_eq_plus1 [symmetric] mval_high .
  show "mval m p k = N div D" using v' unfolding k' by (cases "m (p + j) = 0") (simp_all add: mval_high del: mval.simps)
  show "k = 0 \<or> m (p + k - 1) \<noteq> 0"
  proof (cases "m (p + j) = 0")
    case True
    then have mj: "mval m p j = N div D" using v' by simp
    show ?thesis
    proof (cases j)
      case (Suc i)
      have "LB ^ i * D \<le> LB ^ i * LB ^ dl" by (rule mult_le_mono2) (use sz(4) in simp)
      also have "\<dots> = LB ^ (nl - 1)" using Suc sz(1,2) by (simp add: j_def flip: power_add)
      also note sz(3)
      finally have "LB ^ i \<le> N div D" using sz(5) by (simp add: less_eq_div_iff_mult_less_eq)
      then have "LB ^ (j - 1) \<le> mval m p j" unfolding mj unfolding Suc by simp
      from top_not_zero [OF this] show ?thesis using True by (simp add: k')
    qed (use True in \<open>simp add: k'\<close>)
  qed (simp add: k')
qed

lemma tdiv_with_sign:
  "with_sign a N sdiv with_sign b D = with_sign (a \<noteq> b) (N div D)" "with_sign a N smod with_sign b D = with_sign a (N mod D)"
proof -
  have m: "x sdiv - int D = - (x sdiv int D)" "x smod - int D = x smod int D" for x
    by (cases "D = 0"; simp add: signed_divide_int_def signed_modulo_int_def sgn_if)+
  show "with_sign a N sdiv with_sign b D = with_sign (a \<noteq> b) (N div D)" "with_sign a N smod with_sign b D = with_sign a (N mod D)"
    using sdiv_with_sign [of a N D] smod_with_sign [of a N D] unfolding with_sign_def [of b] by (auto simp: m with_sign_def split: if_splits)
qed

lemma tdiv_signed:
  assumes "x = with_sign a N" "y = with_sign b D"
  shows "x sdiv y = with_sign (a \<noteq> b) (N div D)" "x smod y = with_sign a (N mod D)"
  unfolding assms by (rule tdiv_with_sign)+

section \<open>Quotient and remainder\<close>

lemma sign_cases: "0 \<le> (s :: int) \<longleftrightarrow> \<not> s < 0" "0 \<le> s XOR t \<longleftrightarrow> (s < 0) = (t < 0)"
  by (auto simp: xor_nonnegative_int_iff)

text \<open>The numerator is shorter than the divisor: it is the remainder.\<close>

lemma short_numerator:
  assumes ok: "store_ok st" and r: "r \<in> live st" and n: "num \<in> live st" and d: "den \<in> live st"
    and lt: "ABSIZ st num < ABSIZ st den"
  defines "st1 \<equiv> MPZ_REALLOC r (ABSIZ st den) st"
  defines "st2 \<equiv> (if num \<noteq> r then set_SIZ r (SIZ st1 num) (set_heap (MPN_COPY (PTR st1 r) (PTR st1 num) (ABSIZ st num) (heap st1)) st1) else st1)"
  shows "updates st r (zval st num smod zval st den) st2" "zval st num sdiv zval st den = 0"
proof -
  note R = MPZ_REALLOC_spec [OF ok r, where n = "ABSIZ st den", folded st1_def]
  obtain N where N: "zval st num = with_sign (SIZ st num < 0) N" "N = mval (heap st) (PTR st num) (ABSIZ st num)"
    by (rule magnitude [OF ok n])
  obtain D where D: "zval st den = with_sign (SIZ st den < 0) D" "D = mval (heap st) (PTR st den) (ABSIZ st den)"
    by (rule magnitude [OF ok d])
  have dn: "SIZ st den \<noteq> 0" using lt by (auto simp: ABSIZ_SIZ)
  have ND: "N < D"
  proof -
    have "N < LB ^ ABSIZ st num" unfolding N(2) by (rule mval_less)
    also have "\<dots> \<le> LB ^ (ABSIZ st den - 1)" using lt by (intro power_increasing) simp_all
    also have "\<dots> \<le> D" unfolding D(2) by (rule mval_ABSIZ_ge [OF ok d dn])
    finally show ?thesis .
  qed
  show "zval st num sdiv zval st den = 0" unfolding N(1) D(1) tdiv_with_sign using ND by simp
  have v: "zval st num smod zval st den = zval st num" unfolding N(1) D(1) tdiv_with_sign using ND by simp
  show "updates st r (zval st num smod zval st den) st2"
  proof (cases "num = r")
    case True
    then show ?thesis using R(1,2,4) r v by (auto simp: updates_def st2_def)
  next
    case False
    have l: "r \<in> live st1" "num \<in> live st1" using R(2) r n by simp_all
    have sz: "ABSIZ st1 num = ABSIZ st num" by (simp add: ABSIZ_SIZ R(5))
    have a: "ABSIZ st num \<le> ALLOC st1 r" using lt R(3) by simp
    have mr: "MPZ_REALLOC r (ABSIZ st num) st1 = st1" using a by (simp add: MPZ_REALLOC_def)
    have "updates st1 r (sgn (SIZ st1 num) * \<bar>zval st1 num\<bar>) st2"
      using copy_signed [OF R(1) l refl, unfolded sz mr] False by (simp add: st2_def)
    moreover have "sgn (SIZ st1 num) * \<bar>zval st1 num\<bar> = zval st num"
      using zval_sgn [OF R(1) l(2)] R(4) [OF n] by (metis sgn_mult_abs)
    ultimately show ?thesis unfolding v using updates_realloc [OF ok r] unfolding st1_def by simp
  qed
qed

abbreviation small_division :: "state \<Rightarrow> var \<Rightarrow> var \<Rightarrow> bool" where
  "small_division st num den \<equiv> ABSIZ st den < MUL_TOOM3_THRESHOLD \<or> ABSIZ st num - ABSIZ st den + 1 < MUL_TOOM3_THRESHOLD"

lemma long_numerator:
  assumes ok: "store_ok st" and n: "num \<in> live st" and d: "den \<in> live st" and d0: "SIZ st den \<noteq> 0" and le: "ABSIZ st den \<le> ABSIZ st num"
  shows "1 \<le> ABSIZ st den" "LB ^ (ABSIZ st num - 1) \<le> nat \<bar>zval st num\<bar>" "nat \<bar>zval st den\<bar> < LB ^ ABSIZ st den" "0 < nat \<bar>zval st den\<bar>"
    "zval st num = with_sign (SIZ st num < 0) (nat \<bar>zval st num\<bar>)" "zval st den = with_sign (SIZ st den < 0) (nat \<bar>zval st den\<bar>)"
proof -
  show 1: "1 \<le> ABSIZ st den" using d0 by (simp add: Suc_leI)
  then have n0: "SIZ st num \<noteq> 0" using le by (auto simp: ABSIZ_SIZ)
  show "LB ^ (ABSIZ st num - 1) \<le> nat \<bar>zval st num\<bar>" using mval_ABSIZ_ge [OF ok n n0] zval_abs [OF ok n] by simp
  show "nat \<bar>zval st den\<bar> < LB ^ ABSIZ st den" using zval_abs [OF ok d] by (simp add: mval_less)
  show "0 < nat \<bar>zval st den\<bar>" using zval_0_iff [OF ok d] d0 by simp
  show "zval st num = with_sign (SIZ st num < 0) (nat \<bar>zval st num\<bar>)" "zval st den = with_sign (SIZ st den < 0) (nat \<bar>zval st den\<bar>)"
    by (rule zval_with_sign [OF ok]; use n d in simp)+
qed

theorem mpz_tdiv_qr_spec:
  assumes ok: "store_ok st" and q: "quot \<in> live st" and r: "rem \<in> live st" and qr: "quot \<noteq> rem" and n: "num \<in> live st" and d: "den \<in> live st"
    and d0: "zval st den \<noteq> 0" and small: "small_division st num den"
  shows "\<exists>st'. mpz_tdiv_qr quot rem num den st = Some (Inr st')
    \<and> updates2 st quot (zval st num sdiv zval st den) rem (zval st num smod zval st den) st'"
proof -
  define nl dl st1 where "nl = ABSIZ st num" and "dl = ABSIZ st den" and "st1 = MPZ_REALLOC rem dl st"
  have dz: "SIZ st den \<noteq> 0" using d0 zval_0_iff [OF ok d] by simp
  note R1 = MPZ_REALLOC_spec [OF ok r, where n = dl, folded st1_def]
  have l1: "quot \<in> live st1" "rem \<in> live st1" "num \<in> live st1" "den \<in> live st1" using R1(2) q r n d by simp_all
  have sz: "nat \<bar>SIZ st num\<bar> = nl" "nat \<bar>SIZ st den\<bar> = dl" "dl \<noteq> 0" using dz by (simp_all add: nl_def dl_def ABSIZ_SIZ)
  show ?thesis
  proof (cases "nl < dl")
    case True
    define st2 where "st2 = (if num \<noteq> rem then set_SIZ rem (SIZ st1 num) (set_heap (MPN_COPY (PTR st1 rem) (PTR st1 num) nl (heap st1)) st1) else st1)"
    note S = short_numerator [OF ok r n d True [unfolded nl_def dl_def], folded dl_def nl_def, folded st1_def, folded st2_def]
    have run: "mpz_tdiv_qr quot rem num den st = Some (Inr (set_SIZ quot 0 st2))"
      using True sz unfolding mpz_tdiv_qr_def Let_def by (simp add: st1_def [symmetric] st2_def)
    have "updates st2 quot 0 (set_SIZ quot 0 st2)" by (rule zero_result) (use updatesD [OF S(1)] q in simp_all)
    then have "updates2 st quot 0 rem (zval st num smod zval st den) (set_SIZ quot 0 st2)"
      using S(1) r qr by (auto simp: updates_def updates2_def)
    then show ?thesis using run S(2) by simp
  next
    case False
    define ql st2 where "ql = nl - dl + 1" and "st2 = MPZ_REALLOC quot ql st1"
    note R2 = MPZ_REALLOC_spec [OF R1(1) l1(1), where n = ql, folded st2_def]
    have l2: "quot \<in> live st2" "rem \<in> live st2" "num \<in> live st2" "den \<in> live st2" using R2(2) l1 by simp_all
    have S2: "SIZ st2 x = SIZ st x" "ABSIZ st2 x = ABSIZ st x" for x using R1(5) R2(5) by (simp_all add: ABSIZ_SIZ)
    have Z2: "zval st2 x = zval st x" if "x \<in> live st" for x using R1(2,4) R2(4) that by simp
    have dz2: "SIZ st2 den \<noteq> 0" using dz S2 by simp
    have al: "dl \<le> ALLOC st2 rem" "ql \<le> ALLOC st2 quot" "nl \<le> ALLOC st2 num" "dl \<le> ALLOC st2 den"
      using R1(3) R2(3,6) qr ABSIZ_le_ALLOC [OF R2(1) l2(3)] ABSIZ_le_ALLOC [OF R2(1) l2(4)] S2
      by (auto simp: ALLOC_def nl_def dl_def)
    define qp rp where "qp = PTR st2 quot" and "rp = PTR st2 rem"
    have below: "PTR st2 x + ALLOC st2 x \<le> brk st2" if "x \<in> live st2" for x using wf_ok [OF R2(1) that] by (simp add: mpz_ok_def)
    have sep: "\<not> MPN_OVERLAP_P (PTR st2 x) a (PTR st2 y) b" if "x \<in> live st2" "y \<in> live st2" "PTR st2 y \<noteq> PTR st2 x" "a \<le> ALLOC st2 x" "b \<le> ALLOC st2 y" for x y a b
      using wf_sep [OF R2(1) that(1,2)] that(3-5) by (cases "x = y") (auto simp: MPN_OVERLAP_P_def)
    have qrp: "rp \<noteq> qp" using wf_sep [OF R2(1) l2(1,2) qr] ALLOC_pos [OF R2(1) l2(1)] ALLOC_pos [OF R2(1) l2(2)] by (auto simp: qp_def rp_def)
    define cd cn where "cd \<longleftrightarrow> PTR st2 den = rp \<or> PTR st2 den = qp" and "cn \<longleftrightarrow> PTR st2 num = rp \<or> PTR st2 num = qp"
    obtain dp st3 where e1: "separate_operand cd (PTR st2 den) dl st2 = (dp, st3)" by fastforce
    obtain np st4 where e2: "separate_operand cn (PTR st2 num) nl st3 = (np, st4)" by fastforce
    have nd: "dl \<le> nl" using False by simp
    have e1': "separate_operand cd (PTR st2 den) dl (st2\<lparr>brk := brk st2\<rparr>) = (dp, st3)" using e1 by simp
    have p3: "PTR st3 num = PTR st2 num"
      using separate_operand_spec(1) [OF e1] below [OF l2(4)] al by (metis (no_types, lifting) PTR_def state.select_convs(2) state.surjective state.update_convs(1,4) le_trans add_le_mono order_refl)
    obtain m where M: "mpn_tdiv_qr qp rp 0 np nl dp dl (brk st4) (heap st4) = Some (Inr m)"
      "mval m qp ql = nat \<bar>zval st num\<bar> div nat \<bar>zval st den\<bar>" "mval m rp dl = nat \<bar>zval st num\<bar> mod nat \<bar>zval st den\<bar>"
      "only_at ({qp..<qp + ql} \<union> {rp..<rp + dl} \<union> {brk st2..}) (heap st2) m" "set_heap m st4 = st2\<lparr>heap := m, brk := brk st4\<rparr>" "brk st2 \<le> brk st4"
      using division_call [OF R2(1) l2(3,4) dz2 _ _ nd _ _ _ order_refl _ _ _ e1' e2, where qp = qp and rp = rp] small
        below [OF l2(1)] below [OF l2(2)] al sep [OF l2(1,2)] sep [OF l2(1,3)] sep [OF l2(1,4)] sep [OF l2(2,3)] sep [OF l2(2,4)] qrp
      unfolding S2 nl_def [symmetric] dl_def [symmetric] Z2 [OF n] Z2 [OF d] ql_def [symmetric]
      by (auto simp: cd_def cn_def qp_def rp_def)
    note L = long_numerator [OF ok n d dz nd [unfolded nl_def dl_def], folded nl_def dl_def]
    define k j where "k = ql - of_bool (m (qp + ql - 1) = 0)" and "j = MPN_NORMALIZE m rp dl"
    note T = quotient_top [OF M(2) [unfolded ql_def] L(1) nd L(2,3,4) k_def [unfolded ql_def]]
    have "only_at ({PTR st2 quot..<PTR st2 quot + ALLOC st2 quot} \<union> {PTR st2 rem..<PTR st2 rem + ALLOC st2 rem} \<union> {brk st2..}) (heap st2) m"
      by (rule only_at_mono [OF M(4)]) (use al in \<open>auto simp: qp_def rp_def\<close>)
    note W = two_results [OF R2(1) l2(1,2) qr this, of k j "brk st4" "(SIZ st num < 0) \<noteq> (SIZ st den < 0)" "SIZ st num < 0", folded qp_def rp_def]
    have j: "j \<le> dl" "j = 0 \<or> m (rp + j - 1) \<noteq> 0" "mval m rp j = mval m rp dl"
      unfolding j_def by (rule MPN_NORMALIZE_le MPN_NORMALIZE_top MPN_NORMALIZE_mval)+
    have "updates2 st2 quot (zval st num sdiv zval st den) rem (zval st num smod zval st den)
      (set_SIZ rem (with_sign (SIZ st num < 0) j) (set_SIZ quot (with_sign ((SIZ st num < 0) \<noteq> (SIZ st den < 0)) k) (set_heap m st4)))"
      using W T j M(3,5,6) al unfolding tdiv_signed [OF L(5,6)] ql_def [symmetric] by simp
    then have U: "updates2 st quot (zval st num sdiv zval st den) rem (zval st num smod zval st den)
      (set_SIZ rem (with_sign (SIZ st num < 0) j) (set_SIZ quot (with_sign ((SIZ st num < 0) \<noteq> (SIZ st den < 0)) k) (set_heap m st4)))"
      using R1(2) R2(2) Z2 by (simp add: updates2_def)
    have nq: "nat (int nl - int dl + 1) = ql" "\<not> int nl - int dl + 1 \<le> 0" using nd by (simp_all add: ql_def)
    have "mpz_tdiv_qr quot rem num den st = Some (Inr (set_SIZ rem (if SIZ st num \<ge> 0 then int j else - int j)
        (set_SIZ quot (if SIZ st num XOR SIZ st den \<ge> 0 then int k else - int k) (set_heap m st4))))"
      unfolding mpz_tdiv_qr_def Let_def sz(1,2) nq(1) st1_def [symmetric] st2_def [symmetric] if_not_P [OF nq(2)] if_not_P [OF sz(3)]
        cd_def [symmetric] cn_def [symmetric] qp_def [symmetric] rp_def [symmetric]
      using e1 e2 M(1) p3 by (simp add: cd_def cn_def qp_def rp_def k_def j_def)
    then show ?thesis using U unfolding with_sign_def sign_cases by (auto split: if_splits)
  qed
qed

section \<open>Quotient or remainder alone\<close>

lemma blocks:
  assumes "store_ok st" "x \<in> live st" "y \<in> live st" "PTR st y \<noteq> PTR st x" "a \<le> ALLOC st x" "b \<le> ALLOC st y"
  shows "\<not> MPN_OVERLAP_P (PTR st x) a (PTR st y) b"
  using wf_sep [OF assms(1-3)] assms(4-6) by (cases "x = y") (auto simp: MPN_OVERLAP_P_def)

lemma below_brk: "store_ok st \<Longrightarrow> x \<in> live st \<Longrightarrow> PTR st x + ALLOC st x \<le> brk st"
  using wf_ok [of st x] by (simp add: mpz_ok_def)

lemma PTR_brk [simp]: "PTR (st\<lparr>brk := b\<rparr>) = PTR st"
  by (simp add: PTR_def fun_eq_iff)

lemma separate_PTR: "separate_operand c p n st = (p', st') \<Longrightarrow> PTR st' = PTR st"
  by (auto simp: separate_operand_def ALLOCATE_FUNC_LIMBS_def set_heap_def PTR_def fun_eq_iff split: if_splits)

text \<open>A fresh block at \<open>brk\<close> overlaps no variable.\<close>

lemma fresh_separate: "store_ok st \<Longrightarrow> x \<in> live st \<Longrightarrow> b \<le> ALLOC st x \<Longrightarrow> \<not> MPN_OVERLAP_P (brk st) a (PTR st x) b"
  "store_ok st \<Longrightarrow> x \<in> live st \<Longrightarrow> b \<le> ALLOC st x \<Longrightarrow> \<not> MPN_OVERLAP_P (PTR st x) b (brk st) a"
  using below_brk [of st x] by (auto simp: MPN_OVERLAP_P_def)

theorem mpz_tdiv_q_spec:
  assumes ok: "store_ok st" and q: "quot \<in> live st" and n: "num \<in> live st" and d: "den \<in> live st"
    and d0: "zval st den \<noteq> 0" and small: "small_division st num den"
  shows "\<exists>st'. mpz_tdiv_q quot num den st = Some (Inr st') \<and> updates st quot (zval st num sdiv zval st den) st'"
proof -
  define nl dl where "nl = ABSIZ st num" and "dl = ABSIZ st den"
  have dz: "SIZ st den \<noteq> 0" using d0 zval_0_iff [OF ok d] by simp
  have sz: "nat \<bar>SIZ st num\<bar> = nl" "nat \<bar>SIZ st den\<bar> = dl" "dl \<noteq> 0" using dz by (simp_all add: nl_def dl_def ABSIZ_SIZ)
  show ?thesis
  proof (cases "nl < dl")
    case True
    then have "mpz_tdiv_q quot num den st = Some (Inr (set_SIZ quot 0 st))"
      using sz unfolding mpz_tdiv_q_def Let_def by simp
    then show ?thesis using zero_result [OF ok q] short_numerator(2) [OF ok q n d] True by (simp add: nl_def dl_def)
  next
    case False
    define ql st2 where "ql = nl - dl + 1" and "st2 = MPZ_REALLOC quot ql st"
    note R2 = MPZ_REALLOC_spec [OF ok q, where n = ql, folded st2_def]
    have l2: "quot \<in> live st2" "num \<in> live st2" "den \<in> live st2" using R2(2) q n d by simp_all
    have S2: "SIZ st2 x = SIZ st x" "ABSIZ st2 x = ABSIZ st x" for x using R2(5) by (simp_all add: ABSIZ_SIZ)
    have al: "ql \<le> ALLOC st2 quot" "nl \<le> ALLOC st2 num" "dl \<le> ALLOC st2 den"
      using R2(3) ABSIZ_le_ALLOC [OF R2(1) l2(2)] ABSIZ_le_ALLOC [OF R2(1) l2(3)] S2 by (simp_all add: nl_def dl_def)
    define qp rp where "qp = PTR st2 quot" and "rp = brk st2"
    have dz2: "SIZ st2 den \<noteq> 0" using dz S2 by simp
    have nd: "dl \<le> nl" using False by simp
    define cd cn where "cd \<longleftrightarrow> PTR st2 den = qp" and "cn \<longleftrightarrow> PTR st2 num = qp"
    obtain dp st3 where e1: "separate_operand cd (PTR st2 den) dl (st2\<lparr>brk := brk st2 + dl\<rparr>) = (dp, st3)" by fastforce
    obtain np st4 where e2: "separate_operand cn (PTR st2 num) nl st3 = (np, st4)" by fastforce
    have p3: "PTR st3 = PTR st2" using separate_PTR [OF e1] by simp
    have qb: "qp + ql \<le> brk st2" using below_brk [OF R2(1) l2(1)] al by (simp add: qp_def)
    obtain m where M: "mpn_tdiv_qr qp rp 0 np nl dp dl (brk st4) (heap st4) = Some (Inr m)"
      "mval m qp ql = nat \<bar>zval st num\<bar> div nat \<bar>zval st den\<bar>"
      "only_at ({qp..<qp + ql} \<union> {rp..<rp + dl} \<union> {brk st2..}) (heap st2) m" "set_heap m st4 = st2\<lparr>heap := m, brk := brk st4\<rparr>" "brk st2 \<le> brk st4"
      using division_call [OF R2(1) l2(2,3) dz2 _ _ nd _ _ _ _ _ _ _ e1 e2, where qp = qp and rp = rp] small
        qb al blocks [OF R2(1) l2(1,2)] blocks [OF R2(1) l2(1,3)] fresh_separate(1) [OF R2(1) l2(2)] fresh_separate(1) [OF R2(1) l2(3)] fresh_separate(2) [OF R2(1) l2(1)]
      unfolding S2 nl_def [symmetric] dl_def [symmetric] R2(4) [OF n] R2(4) [OF d] ql_def [symmetric]
      by (auto simp: cd_def cn_def qp_def rp_def)
    note L = long_numerator [OF ok n d dz nd [unfolded nl_def dl_def], folded nl_def dl_def]
    define k where "k = ql - of_bool (m (qp + ql - 1) = 0)"
    note T = quotient_top [OF M(2) [unfolded ql_def] L(1) nd L(2,3,4) k_def [unfolded ql_def], folded ql_def]
    have "only_at ({PTR st2 quot..<PTR st2 quot + ALLOC st2 quot} \<union> {brk st2..}) (heap st2) m"
      by (rule only_at_mono [OF M(3)]) (use al in \<open>auto simp: qp_def rp_def\<close>)
    note W = one_result [OF R2(1) l2(1) this, of k "brk st4" "(SIZ st num < 0) \<noteq> (SIZ st den < 0)", folded qp_def]
    have "updates st2 quot (zval st num sdiv zval st den) (set_SIZ quot (with_sign ((SIZ st num < 0) \<noteq> (SIZ st den < 0)) k) (set_heap m st4))"
      using W T M(4,5) al unfolding tdiv_signed [OF L(5,6)] by simp
    then have U: "updates st quot (zval st num sdiv zval st den) (set_SIZ quot (with_sign ((SIZ st num < 0) \<noteq> (SIZ st den < 0)) k) (set_heap m st4))"
      unfolding st2_def by (rule updates_realloc [OF ok q])
    have nq: "nat (int nl - int dl + 1) = ql" "\<not> int nl - int dl + 1 \<le> 0" using nd by (simp_all add: ql_def)
    have "mpz_tdiv_q quot num den st = Some (Inr (set_SIZ quot (if SIZ st num XOR SIZ st den \<ge> 0 then int k else - int k) (set_heap m st4)))"
      unfolding mpz_tdiv_q_def Let_def sz(1,2) nq(1) st2_def [symmetric] if_not_P [OF nq(2)] if_not_P [OF sz(3)] ALLOCATE_FUNC_LIMBS_def prod.case
      using e1 e2 M(1) p3 by (simp add: cd_def cn_def qp_def rp_def k_def)
    then show ?thesis using U unfolding with_sign_def sign_cases by (auto split: if_splits)
  qed
qed

theorem mpz_tdiv_r_spec:
  assumes ok: "store_ok st" and r: "rem \<in> live st" and n: "num \<in> live st" and d: "den \<in> live st"
    and d0: "zval st den \<noteq> 0" and small: "small_division st num den"
  shows "\<exists>st'. mpz_tdiv_r rem num den st = Some (Inr st') \<and> updates st rem (zval st num smod zval st den) st'"
proof -
  define nl dl st2 where "nl = ABSIZ st num" and "dl = ABSIZ st den" and "st2 = MPZ_REALLOC rem dl st"
  have dz: "SIZ st den \<noteq> 0" using d0 zval_0_iff [OF ok d] by simp
  have sz: "nat \<bar>SIZ st num\<bar> = nl" "nat \<bar>SIZ st den\<bar> = dl" "dl \<noteq> 0" using dz by (simp_all add: nl_def dl_def ABSIZ_SIZ)
  show ?thesis
  proof (cases "nl < dl")
    case True
    define st3 where "st3 = (if num \<noteq> rem then set_SIZ rem (SIZ st2 num) (set_heap (MPN_COPY (PTR st2 rem) (PTR st2 num) nl (heap st2)) st2) else st2)"
    note S = short_numerator(1) [OF ok r n d True [unfolded nl_def dl_def], folded dl_def nl_def, folded st2_def, folded st3_def]
    have "mpz_tdiv_r rem num den st = Some (Inr st3)"
      using True sz unfolding mpz_tdiv_r_def Let_def by (simp add: st2_def [symmetric] st3_def)
    then show ?thesis using S by simp
  next
    case False
    define ql where "ql = nl - dl + 1"
    note R2 = MPZ_REALLOC_spec [OF ok r, where n = dl, folded st2_def]
    have l2: "rem \<in> live st2" "num \<in> live st2" "den \<in> live st2" using R2(2) r n d by simp_all
    have S2: "SIZ st2 x = SIZ st x" "ABSIZ st2 x = ABSIZ st x" for x using R2(5) by (simp_all add: ABSIZ_SIZ)
    have al: "dl \<le> ALLOC st2 rem" "nl \<le> ALLOC st2 num" "dl \<le> ALLOC st2 den"
      using R2(3) ABSIZ_le_ALLOC [OF R2(1) l2(2)] ABSIZ_le_ALLOC [OF R2(1) l2(3)] S2 by (simp_all add: nl_def dl_def)
    define qp rp where "qp = brk st2" and "rp = PTR st2 rem"
    have dz2: "SIZ st2 den \<noteq> 0" using dz S2 by simp
    have nd: "dl \<le> nl" using False by simp
    define cd cn where "cd \<longleftrightarrow> PTR st2 den = rp" and "cn \<longleftrightarrow> PTR st2 num = rp"
    obtain dp st3 where e1: "separate_operand cd (PTR st2 den) dl (st2\<lparr>brk := brk st2 + ql\<rparr>) = (dp, st3)" by fastforce
    obtain np st4 where e2: "separate_operand cn (PTR st2 num) nl st3 = (np, st4)" by fastforce
    have p3: "PTR st3 = PTR st2" using separate_PTR [OF e1] by simp
    have rb: "rp + dl \<le> brk st2" using below_brk [OF R2(1) l2(1)] al by (simp add: rp_def)
    obtain m where M: "mpn_tdiv_qr qp rp 0 np nl dp dl (brk st4) (heap st4) = Some (Inr m)"
      "mval m rp dl = nat \<bar>zval st num\<bar> mod nat \<bar>zval st den\<bar>"
      "only_at ({qp..<qp + ql} \<union> {rp..<rp + dl} \<union> {brk st2..}) (heap st2) m" "set_heap m st4 = st2\<lparr>heap := m, brk := brk st4\<rparr>" "brk st2 \<le> brk st4"
      using division_call [OF R2(1) l2(2,3) dz2 _ _ nd _ _ _ _ _ _ _ e1 e2, where qp = qp and rp = rp] small
        rb al blocks [OF R2(1) l2(1,2)] blocks [OF R2(1) l2(1,3)] fresh_separate(1) [OF R2(1) l2(2)] fresh_separate(1) [OF R2(1) l2(3)] fresh_separate(1) [OF R2(1) l2(1)]
      unfolding S2 nl_def [symmetric] dl_def [symmetric] R2(4) [OF n] R2(4) [OF d] ql_def [symmetric]
      by (auto simp: cd_def cn_def qp_def rp_def)
    note L = long_numerator [OF ok n d dz nd [unfolded nl_def dl_def], folded nl_def dl_def]
    define j where "j = MPN_NORMALIZE m rp dl"
    have j: "j \<le> dl" "j = 0 \<or> m (rp + j - 1) \<noteq> 0" "mval m rp j = mval m rp dl"
      unfolding j_def by (rule MPN_NORMALIZE_le MPN_NORMALIZE_top MPN_NORMALIZE_mval)+
    have "only_at ({PTR st2 rem..<PTR st2 rem + ALLOC st2 rem} \<union> {brk st2..}) (heap st2) m"
      by (rule only_at_mono [OF M(3)]) (use al in \<open>auto simp: qp_def rp_def\<close>)
    note W = one_result [OF R2(1) l2(1) this, of j "brk st4" "SIZ st num < 0", folded rp_def]
    have "updates st2 rem (zval st num smod zval st den) (set_SIZ rem (with_sign (SIZ st num < 0) j) (set_heap m st4))"
      using W j M(2,4,5) al unfolding tdiv_signed [OF L(5,6)] by simp
    then have U: "updates st rem (zval st num smod zval st den) (set_SIZ rem (with_sign (SIZ st num < 0) j) (set_heap m st4))"
      unfolding st2_def by (rule updates_realloc [OF ok r])
    have nq: "nat (int nl - int dl + 1) = ql" "\<not> int nl - int dl + 1 \<le> 0" using nd by (simp_all add: ql_def)
    have "mpz_tdiv_r rem num den st = Some (Inr (set_SIZ rem (if SIZ st num \<ge> 0 then int j else - int j) (set_heap m st4)))"
      unfolding mpz_tdiv_r_def Let_def sz(1,2) nq(1) st2_def [symmetric] if_not_P [OF nq(2)] if_not_P [OF sz(3)] ALLOCATE_FUNC_LIMBS_def prod.case
      using e1 e2 M(1) p3 by (simp add: cd_def cn_def qp_def rp_def j_def)
    then show ?thesis using U unfolding with_sign_def sign_cases by (auto split: if_splits)
  qed
qed

end
