(* ===== verification/Mpz_Divexact.thy ===== *)
theory Mpz_Divexact
  imports Mpn_Divexact Mpz_Tdiv
begin

text \<open>
  Division of variables known to be exact (\<open>mpz/divexact.c\<close>, \<open>mpz/dive_ui.c\<close>): common low zeros are taken off and
  the quotient is found from the low end. The temporary copy of the divisor is taken above \<open>brk\<close>.
\<close>

unbundle bit_operations_syntax

section \<open>The functions\<close>

text \<open>\<open>while (dp[0] == 0) np += 1, nsize -= 1, dp += 1, dsize -= 1;\<close> does not end on a zero divisor.\<close>

partial_function (option) divexact_skip :: "mem \<Rightarrow> ptr \<Rightarrow> nat \<Rightarrow> ptr \<Rightarrow> nat \<Rightarrow> (ptr \<times> nat \<times> ptr \<times> nat) option" where
  "divexact_skip m np nsize dp dsize =
     (if m dp = 0 then divexact_skip m (np + 1) (nsize - 1) (dp + 1) (dsize - 1) else Some (np, nsize, dp, dsize))"

text \<open>The low \<open>n\<close> limbs of \<open>N\<close> limbs shifted down by \<open>r\<close> bits.\<close>

definition low_rshift :: "ptr \<Rightarrow> ptr \<Rightarrow> nat \<Rightarrow> nat \<Rightarrow> nat \<Rightarrow> mem \<Rightarrow> mem" where
  "low_rshift wp src n N r m =
     (let (_, m) = mpn_rshift wp src n r m
      in if N > n then m(wp + n - 1 := m (wp + n - 1) OR push_bit (32 - r) (m (src + n))) else m)"

text \<open>\<open>QUOT <-- NUM/2^r, T <-- DEN/2^r where = r number of twos in DEN\<close>: the odd divisor stays in place when the
  quotient is another variable.\<close>

definition divexact_operands :: "bool \<Rightarrow> ptr \<Rightarrow> ptr \<Rightarrow> nat \<Rightarrow> ptr \<Rightarrow> nat \<Rightarrow> nat \<Rightarrow> state \<Rightarrow> ptr \<times> state" where
  "divexact_operands quot_is_den qp np nsize dp dsize qsize st =
     (let tsize = min qsize dsize
      in if heap st dp AND 1 \<noteq> 0
         then (let (tp, st) =
                     (if quot_is_den
                      then (let (tp, st) = ALLOCATE_FUNC_LIMBS tsize st
                            in (tp, set_heap (MPN_COPY tp dp tsize (heap st)) st))
                      else (dp, st))
               in (tp, if qp \<noteq> np then set_heap (MPN_COPY_INCR qp np qsize (heap st)) st else st))
         else (let (tp, st) = ALLOCATE_FUNC_LIMBS tsize st;
                   r = unat (count_trailing_zeros (heap st dp));
                   m = low_rshift tp dp tsize dsize r (heap st);
                   m = low_rshift qp np qsize nsize r m
               in (tp, set_heap m st)))"

definition mpz_divexact :: "var \<Rightarrow> var \<Rightarrow> var \<Rightarrow> state \<Rightarrow> (gmp_error + state) option" where
  "mpz_divexact quot num den st =
     (let nsize = nat \<bar>SIZ st num\<bar>;
          dsize = nat \<bar>SIZ st den\<bar>;
          qsize = int nsize - int dsize + 1;
          st = MPZ_REALLOC quot (nat qsize) st;
          qsize = nat qsize;
          np = PTR st num;
          dp = PTR st den;
          qp = PTR st quot
      in if nsize = 0 then (if dsize = 0 then Some DIVIDE_BY_ZERO else Some (Inr (set_SIZ quot 0 st)))
         else if dsize \<le> 1
         then (if dsize = 1
               then (let m = MPN_DIVREM_OR_DIVEXACT_1 qp np nsize (heap st dp) (heap st);
                         qsize = qsize - of_bool (m (qp + qsize - 1) = 0)
                     in Some (Inr (set_SIZ quot (if SIZ st num XOR SIZ st den \<ge> 0 then int qsize else - int qsize) (set_heap m st))))
               else Some DIVIDE_BY_ZERO)
         else map_option (\<lambda>(np, nsize, dp, dsize).
                let (tp, st) = divexact_operands (quot = den) qp np nsize dp dsize qsize st;
                    tsize = min qsize dsize;
                    (_, m) = mpn_bdivmod qp qp qsize tp tsize (qsize * 32) (heap st);
                    qsize = MPN_NORMALIZE m qp qsize
                in Inr (set_SIZ quot (if SIZ st num XOR SIZ st den \<ge> 0 then int qsize else - int qsize) (set_heap m st)))
              (divexact_skip (heap st) np nsize dp dsize))"

definition mpz_divexact_ui :: "var \<Rightarrow> var \<Rightarrow> limb \<Rightarrow> state \<Rightarrow> gmp_error + state" where
  "mpz_divexact_ui dst src divisor st =
     (if divisor = 0 then DIVIDE_BY_ZERO
      else let sz = SIZ st src
           in if sz = 0 then Inr (set_SIZ dst 0 st)
              else (let abs_size = nat \<bar>sz\<bar>;
                        st = MPZ_REALLOC dst abs_size st;
                        dst_ptr = PTR st dst;
                        m = MPN_DIVREM_OR_DIVEXACT_1 dst_ptr (PTR st src) abs_size divisor (heap st);
                        abs_size = abs_size - of_bool (m (dst_ptr + abs_size - 1) = 0)
                    in Inr (set_SIZ dst (if sz \<ge> 0 then int abs_size else - int abs_size) (set_heap m st))))"

section \<open>By a limb\<close>

lemma divexact_limb:
  assumes ok: "store_ok st" and w: "w \<in> live st" and u: "u \<in> live st" and u0: "SIZ st u \<noteq> 0" and d: "d \<noteq> 0"
    and n: "ABSIZ st u \<le> ALLOC st w" and A: "int A = \<bar>zval st u\<bar>" and dvd: "unat d dvd A"
  defines "m \<equiv> mpn_divexact_1 (PTR st w) (PTR st u) (ABSIZ st u) d (heap st)"
  defines "k \<equiv> ABSIZ st u - of_bool (m (PTR st w + ABSIZ st u - 1) = 0)"
  shows "updates st w (with_sign neg (A div unat d)) (set_SIZ w (with_sign neg k) (set_heap m st))"
proof -
  define un where "un = ABSIZ st u"
  have un: "1 \<le> un" using u0 by (simp add: un_def ABSIZ_SIZ)
  have A': "mval (heap st) (PTR st u) un = A" using zval_abs [OF ok u] A by (simp add: un_def)
  have "MPN_SAME_OR_SEPARATE_P (PTR st w) (PTR st u) un"
    using wf_sep [OF ok w u] ABSIZ_le_ALLOC [OF ok u] n by (cases "w = u") (auto simp: overlap_defs un_def)
  note S = mpn_divexact_1_spec [OF un d dvd [folded A'] this, folded un_def [symmetric], folded m_def, unfolded A' [unfolded un_def]]
  have v: "mval m (PTR st w) un = A div unat d" using S(1) by (simp add: un_def)
  have "LB ^ (un - 1) \<le> A" using mval_ABSIZ_ge [OF ok u u0] A' by (simp add: un_def)
  then have g: "LB ^ (un - 1) \<le> A" .
  have e: "un - 1 + 1 = un" using un by simp
  have k: "k = (un - 1 + 1) - of_bool (m (PTR st w + (un - 1 + 1) - 1) = 0)" unfolding e by (simp add: k_def un_def)
  have dl: "unat d < LB ^ 1" "0 < unat d" using unat_lt_LB [of d] d by (simp_all add: limb_eq_iff)
  have v': "mval m (PTR st w) (un - 1 + 1) = A div unat d" unfolding e by (rule v)
  note q = quotient_top [OF v' order_refl un g dl k, unfolded e]
  have "updates st w (with_sign neg (mval m (PTR st w) k)) (set_SIZ w (with_sign neg k) (set_heap m st))"
    using q un n S(2) by (intro result_sized [OF ok w]) (auto simp: un_def intro: only_in_mono)
  then show ?thesis unfolding q(1) .
qed

theorem mpz_divexact_ui_spec:
  assumes ok: "store_ok st" and w: "w \<in> live st" and u: "u \<in> live st" and d: "d \<noteq> 0" and dvd: "int (unat d) dvd zval st u"
  shows "\<exists>st'. mpz_divexact_ui w u d st = Inr st' \<and> updates st w (zval st u div int (unat d)) st'"
proof (cases "SIZ st u = 0")
  case True
  then show ?thesis using zero_result [OF ok w] d by (simp add: mpz_divexact_ui_def Let_def zval_def)
next
  case False
  define st1 where "st1 = MPZ_REALLOC w (ABSIZ st u) st"
  note U = operand_realloc [OF ok w u, where n = "ABSIZ st u", folded st1_def]
  obtain A where A: "int A = \<bar>zval st u\<bar>" "zval st u = with_sign (SIZ st u < 0) A" by (rule magnitude [OF ok u])
  have dA: "unat d dvd A" using dvd A(1) by (metis dvd_abs_iff of_nat_dvd_iff)
  have A1: "int A = \<bar>zval st1 u\<bar>" using zval_abs [OF U(1,3)] U(5,8) A(1) by simp
  have q: "with_sign (SIZ st u < 0) (A div unat d) = zval st u div int (unat d)"
    using fdiv_with_sign(1) [of "unat d" "SIZ st u < 0" A] d dA by (simp add: A(2) rounds_def unat_gt_0)
  have "mpz_divexact_ui w u d st = Inr (set_SIZ w (with_sign (SIZ st u < 0)
      (ABSIZ st u - of_bool (mpn_divexact_1 (PTR st1 w) (PTR st1 u) (ABSIZ st u) d (heap st1) (PTR st1 w + ABSIZ st u - 1) = 0)))
      (set_heap (mpn_divexact_1 (PTR st1 w) (PTR st1 u) (ABSIZ st u) d (heap st1)) st1))"
    using d False unfolding mpz_divexact_ui_def Let_def ABSIZ_SIZ [symmetric] st1_def [symmetric] MPN_DIVREM_OR_DIVEXACT_1_eq
    by (auto simp: with_sign_def)
  moreover note divexact_limb [OF U(1,2,3) _ d _ A1 dA, of "SIZ st u < 0", unfolded U(5)]
  ultimately show ?thesis using updates_realloc [OF ok w] False U(4,6) unfolding q by (simp add: st1_def)
qed

section \<open>By a divisor of several limbs\<close>

text \<open>The zero limbs taken off both operands.\<close>

lemma divexact_skip_spec:
  "mval m dp dsize \<noteq> 0 \<Longrightarrow> \<exists>z. divexact_skip m np nsize dp dsize = Some (np + z, nsize - z, dp + z, dsize - z)
     \<and> z < dsize \<and> m (dp + z) \<noteq> 0 \<and> mval m dp z = 0"
proof (induction dsize arbitrary: np nsize dp)
  case (Suc k)
  show ?case
  proof (cases "m dp = 0")
    case True
    then have "mval m (dp + 1) k \<noteq> 0" using Suc.prems by simp
    then obtain z where z: "divexact_skip m (np + 1) (nsize - 1) (dp + 1) k = Some (np + 1 + z, nsize - 1 - z, dp + 1 + z, k - z)"
      "z < k" "m (dp + 1 + z) \<noteq> 0" "mval m (dp + 1) z = 0" using Suc.IH by blast
    have "divexact_skip m np nsize dp (Suc k) = divexact_skip m (np + 1) (nsize - 1) (dp + 1) k"
      using True by (subst divexact_skip.simps) simp
    then show ?thesis using z True by (intro exI [of _ "Suc z"]) simp
  next
    case False
    then show ?thesis by (intro exI [of _ 0], subst divexact_skip.simps) simp
  qed
qed simp

lemma low_rshift_spec:
  fixes m :: mem
  assumes n: "1 \<le> n" "n \<le> N" and r: "0 < r" "r < 32" and ov: "MPN_SAME_OR_INCR_P wp src n"
    and nx: "N = n \<or> src + n < wp \<or> wp + n \<le> src + n"
  shows "mval (low_rshift wp src n N r m) wp n = (mval m src N div 2 ^ r) mod LB ^ n" and "only_in wp n m (low_rshift wp src n N r m)"
proof -
  obtain j where j: "n = Suc j" using n(1) by (cases n) auto
  obtain c m1 where e: "mpn_rshift wp src n r m = (c, m1)" by fastforce
  note S = mpn_rshift_spec [OF e n(1) less_imp_le [OF r(2)] ov]
  define X where "X = mval m src n"
  have Y: "mval m1 wp n = X div 2 ^ r" using div_rshift [OF S(1) unat_lt_LB] by (simp add: X_def)
  have B: "LB = 2 ^ r * 2 ^ (32 - r)" using r by (simp add: LB_power flip: power_add)
  have Xl: "X div 2 ^ r < LB ^ j * 2 ^ (32 - r)"
  proof -
    have "X < LB ^ n" unfolding X_def by (rule mval_less)
    then have "X < LB ^ j * 2 ^ (32 - r) * 2 ^ r" unfolding j by (simp add: B ac_simps)
    then show ?thesis by (simp add: less_mult_imp_div_less)
  qed
  show "mval (low_rshift wp src n N r m) wp n = (mval m src N div 2 ^ r) mod LB ^ n" and "only_in wp n m (low_rshift wp src n N r m)"
  proof (atomize (full), cases "N = n")
    case True
    have "X div 2 ^ r < LB ^ n" unfolding j using Xl by (rule less_le_trans) (simp add: B)
    then show "mval (low_rshift wp src n N r m) wp n = (mval m src N div 2 ^ r) mod LB ^ n \<and> only_in wp n m (low_rshift wp src n N r m)"
      using S(2) Y True by (simp add: low_rshift_def e X_def)
  next
    case False
    define x where "x = m (src + n)"
    have x: "m1 (src + n) = x" using only_inD [OF S(2), of "src + n"] nx False by (auto simp: x_def)
    have N: "mval m src N = X + LB ^ n * (unat x + LB * mval m (src + n + 1) (N - n - 1))"
    proof -
      obtain i where i: "N - n = Suc i" using False n(2) by (cases "N - n") auto
      show ?thesis using mval_split [OF n(2), of m src] by (simp add: X_def x_def i)
    qed
    define m2 where "m2 = m1(wp + n - 1 := m1 (wp + n - 1) OR push_bit (32 - r) x)"
    have eq: "low_rshift wp src n N r m = m2" using False n(2) by (simp add: low_rshift_def e x m2_def)
    have top: "unat (m1 (wp + j)) < 2 ^ (32 - r)"
    proof -
      have "LB ^ j * unat (m1 (wp + j)) \<le> mval m1 wp n" unfolding j mval_high by simp
      then have "LB ^ j * unat (m1 (wp + j)) < LB ^ j * 2 ^ (32 - r)" using Xl unfolding Y by (rule le_less_trans)
      then show ?thesis by simp
    qed
    have p: "unat (push_bit (32 - r) x) = 2 ^ (32 - r) * (unat x mod 2 ^ r)" using unat_push_limb [of "32 - r" x] r by simp
    have "mval m2 wp n = mval m1 wp n + LB ^ j * (2 ^ (32 - r) * (unat x mod 2 ^ r))"
    proof -
      have "mval m2 wp j = mval m1 wp j" by (simp add: m2_def j)
      moreover have "unat (m2 (wp + j)) = unat (m1 (wp + j)) + 2 ^ (32 - r) * (unat x mod 2 ^ r)"
        using unat_or_push [OF top, of x] by (simp add: m2_def j p)
      ultimately show ?thesis unfolding j mval_high by (simp add: distrib_left)
    qed
    also have "\<dots> = (mval m src N div 2 ^ r) mod LB ^ n"
    proof -
      define t w where "t = unat x div 2 ^ r" and "w = mval m (src + n + 1) (N - n - 1)"
      have u: "unat x = 2 ^ r * t + unat x mod 2 ^ r" by (simp add: t_def)
      have L: "LB ^ n = 2 ^ r * (LB ^ j * 2 ^ (32 - r))" by (simp add: j B ac_simps)
      have "mval m src N div 2 ^ r = X div 2 ^ r + LB ^ j * 2 ^ (32 - r) * (unat x + LB * w)"
        unfolding N w_def [symmetric] L by (simp add: mult.assoc)
      also have "\<dots> = X div 2 ^ r + LB ^ j * 2 ^ (32 - r) * (unat x mod 2 ^ r) + LB ^ n * (t + 2 ^ (32 - r) * w)"
        by (subst u, subst (2) B) (simp add: L algebra_simps)
      finally have "(mval m src N div 2 ^ r) mod LB ^ n = (X div 2 ^ r + LB ^ j * 2 ^ (32 - r) * (unat x mod 2 ^ r)) mod LB ^ n" by simp
      also have "\<dots> = X div 2 ^ r + LB ^ j * 2 ^ (32 - r) * (unat x mod 2 ^ r)"
      proof (rule mod_less)
        have "unat x mod 2 ^ r + 1 \<le> 2 ^ r" by (simp add: Suc_leI)
        then have "LB ^ j * 2 ^ (32 - r) * (unat x mod 2 ^ r + 1) \<le> LB ^ j * 2 ^ (32 - r) * 2 ^ r" by (rule mult_le_mono2)
        then show "X div 2 ^ r + LB ^ j * 2 ^ (32 - r) * (unat x mod 2 ^ r) < LB ^ n" using Xl unfolding L by (simp add: algebra_simps)
      qed
      finally show ?thesis using Y by (simp add: mult.assoc)
    qed
    finally have "mval m2 wp n = (mval m src N div 2 ^ r) mod LB ^ n" .
    moreover have "only_in wp n m m2"
      unfolding m2_def by (rule only_in_trans [OF S(2) only_in_upd]) (use n in auto)
    ultimately show "mval (low_rshift wp src n N r m) wp n = (mval m src N div 2 ^ r) mod LB ^ n \<and> only_in wp n m (low_rshift wp src n N r m)"
      unfolding eq by blast
  qed
qed

text \<open>The quotient is determined modulo a power of the base.\<close>

lemma quotient_mod:
  fixes Q q B :: nat
  assumes e: "(Q * B) mod LB ^ k = (q * B) mod LB ^ k" and o: "odd B" and lt: "Q < LB ^ k" "q < LB ^ k"
  shows "Q = q"
proof -
  have cop: "coprime (int (LB ^ k)) (int B)"
    using o by (simp only: coprime_int_iff LB_power coprime_power_left_iff coprime_left_2_iff_odd simp_thms)
  have "int (LB ^ k) dvd int (Q * B) - int (q * B)" using e by (metis mod_eq_dvd_iff of_nat_mod)
  then have "int (LB ^ k) dvd (int Q - int q) * int B" by (simp add: algebra_simps)
  then have "int (LB ^ k) dvd int Q - int q" using cop by (simp only: coprime_dvd_mult_left_iff)
  then show ?thesis using lt by (metis mod_eq_dvd_iff of_nat_eq_iff of_nat_mod mod_less)
qed

lemma divexact_operands_spec:
  assumes eq: "divexact_operands clash qp np N dp D q st = (tp, st')" and sz: "1 \<le> q" "1 \<le> D" "q \<le> N" and d0: "heap st dp \<noteq> 0"
    and b: "np + N \<le> brk st" "dp + D \<le> brk st" "qp + q \<le> brk st" and ov: "qp \<le> np \<or> np + N \<le> qp"
    and sep: "\<not> clash \<Longrightarrow> \<not> MPN_OVERLAP_P qp q dp D" and A: "A = mval (heap st) np N" and B: "B = mval (heap st) dp D"
  shows "\<exists>r. 2 ^ r dvd B \<and> odd (B div 2 ^ r) \<and> mval (heap st') tp (min q D) = (B div 2 ^ r) mod LB ^ min q D
    \<and> mval (heap st') qp q = (A div 2 ^ r) mod LB ^ q"
    and "\<not> MPN_OVERLAP_P qp q tp (min q D)" and "st' = st\<lparr>heap := heap st', brk := brk st'\<rparr>" and "brk st \<le> brk st'"
    and "only_at ({qp..<qp + q} \<union> {brk st..}) (heap st) (heap st')"
proof -
  define t where "t = min q D"
  have t: "1 \<le> t" "t \<le> D" "t \<le> q" using sz by (simp_all add: t_def)
  obtain i where D: "D = Suc i" using sz(2) by (cases D) auto
  have Bs: "B = unat (heap st dp) + LB * mval (heap st) (dp + 1) i" by (simp add: B D)
  have inc: "MPN_SAME_OR_INCR_P qp np q" using ov sz(3) by (auto simp: overlap_defs)
  have "(\<exists>r. 2 ^ r dvd B \<and> odd (B div 2 ^ r) \<and> mval (heap st') tp t = (B div 2 ^ r) mod LB ^ t \<and> mval (heap st') qp q = (A div 2 ^ r) mod LB ^ q)
    \<and> \<not> MPN_OVERLAP_P qp q tp t \<and> st' = st\<lparr>heap := heap st', brk := brk st'\<rparr> \<and> brk st \<le> brk st'
    \<and> only_at ({qp..<qp + q} \<union> {brk st..}) (heap st) (heap st')"
  proof (cases "heap st dp AND 1 = 0")
    case False
    have od: "odd (B div 2 ^ 0)" using False by (simp add: Bs odd_limb_iff LB_def)
    define m1 where "m1 = (if clash then MPN_COPY (brk st) dp t (heap st) else heap st)"
    define m2 where "m2 = (if qp \<noteq> np then MPN_COPY_INCR qp np q m1 else m1)"
    have R: "tp = (if clash then brk st else dp)" "st' = st\<lparr>heap := m2, brk := (if clash then brk st + t else brk st)\<rparr>"
      using eq False unfolding divexact_operands_def Let_def ALLOCATE_FUNC_LIMBS_def t_def [symmetric]
      by (auto simp: m1_def m2_def set_heap_def split: if_splits)
    have cp: "MPN_COPY (brk st) dp t (heap st) = mcopy (brk st) dp t (heap st)"
      by (rule MPN_COPY_spec) (use b t in \<open>auto simp: overlap_defs\<close>)
    have f1: "only_at {brk st..} (heap st) m1" unfolding m1_def cp by (auto intro: only_in_at [OF only_in_mcopy] only_at_refl)
    have v1: "mval m1 tp t = B mod LB ^ t"
      using mval_mod [OF t(2), of "heap st" dp] by (auto simp: m1_def cp R(1) B)
    have m2: "m2 = mcopy qp np q m1"
      unfolding m2_def using MPN_COPY_INCR_spec [OF inc, of m1] by (simp add: mcopy_same)
    have "{np..<np + q} \<inter> {brk st..} = {}" using b(1) sz(3) by auto
    from only_at_mval [OF f1 this] have np1: "mval m1 np q = A mod LB ^ q"
      using mval_mod [OF sz(3), of "heap st" np] by (simp add: A)
    have v2: "mval m2 qp q = A mod LB ^ q" by (simp add: m2 np1)
    have so: "\<not> MPN_OVERLAP_P qp q tp t" using sep b(3) t(2) by (auto simp: R(1) MPN_OVERLAP_P_def)
    have "mval m2 tp t = mval m1 tp t"
      unfolding m2 by (rule only_in_mval [OF only_in_mcopy]) (use so in \<open>auto simp: MPN_OVERLAP_P_def\<close>)
    moreover have "only_at ({qp..<qp + q} \<union> {brk st..}) (heap st) m2"
      unfolding m2 by (rule only_at_trans [OF only_at_mono [OF f1] only_in_at [OF only_in_mcopy]]) auto
    ultimately show ?thesis using v1 v2 so od R(2) by (intro conjI exI [of _ 0]) auto
  next
    case True
    define r where "r = unat (count_trailing_zeros (heap st dp))"
    note T = trailing_zeros [OF d0, folded r_def]
    have r0: "0 < r" using T(1,2) True by (intro Nat.gr0I) (simp add: odd_limb_iff)
    define m1 m2 where "m1 = low_rshift (brk st) dp t D r (heap st)" and "m2 = low_rshift qp np q N r m1"
    have R: "tp = brk st" "st' = st\<lparr>heap := m2, brk := brk st + t\<rparr>"
      using eq True unfolding divexact_operands_def Let_def ALLOCATE_FUNC_LIMBS_def t_def [symmetric]
      by (auto simp: m1_def m2_def r_def set_heap_def)
    have ov1: "MPN_SAME_OR_INCR_P (brk st) dp t" using b(2) t(2) by (auto simp: overlap_defs)
    have nx1: "D = t \<or> dp + t < brk st \<or> brk st + t \<le> dp + t" using b(2) t(2) by linarith
    have S1: "mval m1 (brk st) t = (B div 2 ^ r) mod LB ^ t" "only_in (brk st) t (heap st) m1"
      using low_rshift_spec [OF t(1,2) r0 T(3) ov1 nx1, of "heap st"] by (simp_all add: m1_def B)
    have A1: "mval m1 np N = A" using only_in_mval [OF S1(2), of np N] b(1) by (simp add: A)
    have nx: "N = q \<or> np + q < qp \<or> qp + q \<le> np + q" using ov sz(3) by linarith
    note S2 = low_rshift_spec [OF sz(1,3) r0 T(3) inc nx, of m1, folded m2_def, unfolded A1]
    have so: "\<not> MPN_OVERLAP_P qp q tp t" using b(3) by (auto simp: R(1) MPN_OVERLAP_P_def)
    have v: "mval m2 tp t = mval m1 tp t"
      by (rule only_in_mval [OF S2(2)]) (use so in \<open>auto simp: MPN_OVERLAP_P_def\<close>)
    have L: "LB = 2 ^ r * 2 ^ (32 - r)" using T(3) by (simp add: LB_power flip: power_add)
    have Br: "B = 2 ^ r * (unat (drop_bit r (heap st dp)) + 2 ^ (32 - r) * mval (heap st) (dp + 1) i)"
      unfolding Bs by (subst T(1), subst L) (simp add: distrib_left mult.assoc)
    then have "2 ^ r dvd B" "odd (B div 2 ^ r)" using T(2,3) by (metis dvd_triv_left, simp add: Br)
    moreover have "only_at ({qp..<qp + q} \<union> {brk st..}) (heap st) m2"
      by (rule only_at_trans [OF only_in_at [OF S1(2)] only_in_at [OF S2(2)]]) auto
    ultimately show ?thesis using S1(1) S2(1) v so R by (intro conjI exI [of _ r]) auto
  qed
  then show "\<exists>r. 2 ^ r dvd B \<and> odd (B div 2 ^ r) \<and> mval (heap st') tp (min q D) = (B div 2 ^ r) mod LB ^ min q D
    \<and> mval (heap st') qp q = (A div 2 ^ r) mod LB ^ q"
    and "\<not> MPN_OVERLAP_P qp q tp (min q D)" and "st' = st\<lparr>heap := heap st', brk := brk st'\<rparr>" and "brk st \<le> brk st'"
    and "only_at ({qp..<qp + q} \<union> {brk st..}) (heap st) (heap st')"
    unfolding t_def by blast+
qed

text \<open>The quotient limbs from the reduced operands.\<close>

lemma bdivides_quotient:
  assumes bd: "bdivides qp qp q T (q * 32) m r m'" and e: "A = q0 * B" and lt: "q0 < LB ^ q"
    and r: "2 ^ s dvd B" "odd (B div 2 ^ s)" and B: "B < LB ^ D" and T: "T = (B div 2 ^ s) mod LB ^ min q D"
    and N: "mval m qp q = (A div 2 ^ s) mod LB ^ q"
  shows "mval m' qp q = q0"
proof -
  define B' where "B' = B div 2 ^ s"
  have B': "B' < LB ^ D" using B by (simp add: B'_def le_less_trans [OF div_le_dividend])
  obtain t where "mval m' qp q * T = (A div 2 ^ s) mod LB ^ q + t * LB ^ q"
    using bd unfolding bdivides_def N by auto
  then have "(mval m' qp q * T) mod LB ^ q = (A div 2 ^ s) mod LB ^ q" by simp
  also have "A div 2 ^ s = q0 * B'" using r(1) by (simp add: e B'_def div_mult_swap)
  finally have "(mval m' qp q * T) mod LB ^ q = (q0 * B') mod LB ^ q" .
  moreover have "(mval m' qp q * T) mod LB ^ q = (mval m' qp q * B') mod LB ^ q"
  proof (cases "q \<le> D")
    case True
    then show ?thesis unfolding T B'_def [symmetric] by (simp add: min_absorb1 mod_mult_right_eq)
  next
    case False
    then show ?thesis unfolding T B'_def [symmetric] using B' by (simp add: min_absorb2)
  qed
  ultimately show ?thesis using quotient_mod [of "mval m' qp q" B' q q0] r(2) lt mval_less [of m' qp q] by (simp add: B'_def)
qed

lemma exact_with_sign: "B \<noteq> 0 \<Longrightarrow> with_sign a (q * B) div with_sign b B = with_sign (a \<noteq> b) q"
proof -
  assume B: "B \<noteq> 0"
  have "with_sign a (q * B) = with_sign (a \<noteq> b) q * with_sign b B" by (simp add: with_sign_def)
  then show ?thesis using B by simp
qed

theorem mpz_divexact_spec:
  assumes ok: "store_ok st" and w: "w \<in> live st" and n: "num \<in> live st" and d: "den \<in> live st"
    and d0: "zval st den \<noteq> 0" and dvd: "zval st den dvd zval st num"
  shows "\<exists>st'. mpz_divexact w num den st = Some (Inr st') \<and> updates st w (zval st num div zval st den) st'"
proof -
  define nn dn where "nn = ABSIZ st num" and "dn = ABSIZ st den"
  define st1 where "st1 = MPZ_REALLOC w (nat (int nn - int dn + 1)) st"
  note R = MPZ_REALLOC_spec [OF ok w, where n = "nat (int nn - int dn + 1)", folded st1_def]
  have l: "w \<in> live st1" "num \<in> live st1" "den \<in> live st1" using R(2) w n d by simp_all
  have sz: "SIZ st1 x = SIZ st x" "ABSIZ st1 x = ABSIZ st x" for x by (simp_all add: R(5) ABSIZ_SIZ)
  have dn0: "SIZ st den \<noteq> 0" using d0 zval_0_iff [OF ok d] by simp
  then have dn: "1 \<le> dn" by (simp add: dn_def ABSIZ_SIZ)
  obtain B where B: "int B = \<bar>zval st den\<bar>" "zval st den = with_sign (SIZ st den < 0) B" by (rule magnitude [OF ok d])
  obtain A where A: "int A = \<bar>zval st num\<bar>" "zval st num = with_sign (SIZ st num < 0) A" by (rule magnitude [OF ok n])
  have B0: "B \<noteq> 0" using B(1) d0 by auto
  have "B dvd A" using dvd A(1) B(1) by (metis abs_dvd_iff dvd_abs_iff of_nat_dvd_iff)
  then obtain q0 where q0: "A = q0 * B" by (metis dvdE mult.commute)
  define neg where "neg \<longleftrightarrow> (SIZ st num < 0) \<noteq> (SIZ st den < 0)"
  have val: "zval st num div zval st den = with_sign neg q0"
    unfolding A(2) B(2) q0 neg_def by (rule exact_with_sign [OF B0])
  have sgn: "(if SIZ st num XOR SIZ st den \<ge> 0 then int k else - int k) = with_sign neg k" for k
    unfolding with_sign_def sign_cases(2) neg_def by simp
  have A1: "A = mval (heap st1) (PTR st1 num) nn" using zval_abs [OF R(1) l(2)] R(4) [OF n] A(1) by (simp add: nn_def sz)
  have B1: "B = mval (heap st1) (PTR st1 den) dn" using zval_abs [OF R(1) l(3)] R(4) [OF d] B(1) by (simp add: dn_def sz)
  show ?thesis
  proof (cases "nn = 0")
    case True
    then have "A = 0" unfolding A1 by simp
    then have "zval st num div zval st den = 0" using A(1) by simp
    moreover have "mpz_divexact w num den st = Some (Inr (set_SIZ w 0 st1))"
      using True dn unfolding mpz_divexact_def Let_def ABSIZ_SIZ [symmetric] nn_def [symmetric] dn_def [symmetric] st1_def [symmetric] by simp
    ultimately show ?thesis using updates_realloc [OF ok w zero_result [OF R(1) l(1), unfolded st1_def]] by (simp add: st1_def)
  next
    case nn0: False
    then have nz: "SIZ st num \<noteq> 0" by (auto simp: nn_def ABSIZ_SIZ)
    have lA: "LB ^ (nn - 1) \<le> A" using mval_ABSIZ_ge [OF R(1) l(2)] nz by (simp add: A1 nn_def sz)
    have lB: "LB ^ (dn - 1) \<le> B" using mval_ABSIZ_ge [OF R(1) l(3)] dn0 by (simp add: B1 dn_def sz)
    have uA: "A < LB ^ nn" and uB: "B < LB ^ dn" unfolding A1 B1 by (rule mval_less)+
    have q00: "q0 \<noteq> 0" using lA q0 by (intro notI) simp
    have le: "dn \<le> nn"
    proof -
      have "B \<le> A" unfolding q0 using q00 by simp
      then have "LB ^ (dn - 1) < LB ^ nn" using lB uA by linarith
      then show ?thesis by (simp add: LB_def)
    qed
    define q where "q = nn - dn + 1"
    have q: "nat (int nn - int dn + 1) = q" using le by (simp add: q_def)
    have ql: "q0 < LB ^ q"
    proof -
      have "q0 * LB ^ (dn - 1) < LB ^ nn" using lB uA unfolding q0 by (meson le_less_trans mult_le_mono2)
      also have "nn = q + (dn - 1)" using le dn by (simp add: q_def)
      then have "LB ^ nn = LB ^ q * LB ^ (dn - 1)" by (simp only: power_add)
      finally show ?thesis by simp
    qed
    show ?thesis
    proof (cases "dn = 1")
      case True
      define x where "x = heap st1 (PTR st1 den)"
      have x: "unat x = B" using B1 True by (simp add: x_def)
      have x0: "x \<noteq> 0" using x B0 by auto
      have A2: "int A = \<bar>zval st1 num\<bar>" using R(4) [OF n] A(1) by simp
      have qn: "q = nn" using True nn0 by (simp add: q_def)
      define m where "m = mpn_divexact_1 (PTR st1 w) (PTR st1 num) nn x (heap st1)"
      define k where "k = nn - of_bool (m (PTR st1 w + nn - 1) = 0)"
      have "mpz_divexact w num den st = Some (Inr (set_SIZ w (with_sign neg k) (set_heap m st1)))"
        using True nn0 unfolding mpz_divexact_def Let_def ABSIZ_SIZ [symmetric] nn_def [symmetric] dn_def [symmetric] st1_def [symmetric]
        unfolding q qn sz(1) x_def [symmetric] MPN_DIVREM_OR_DIVEXACT_1_eq m_def [symmetric] k_def [symmetric] sgn by simp
      moreover have "updates st1 w (with_sign neg (A div unat x)) (set_SIZ w (with_sign neg k) (set_heap m st1))"
        using divexact_limb [OF R(1) l(1,2) _ x0 _ A2, of neg] nz x q0 R(3) nn_def sz qn q
        by (auto simp: m_def k_def)
      moreover have "A div unat x = q0" using x q0 B0 by simp
      ultimately show ?thesis using updates_realloc [OF ok w] val by (simp add: st1_def)
    next
      case False
      obtain z where z: "divexact_skip (heap st1) (PTR st1 num) nn (PTR st1 den) dn
          = Some (PTR st1 num + z, nn - z, PTR st1 den + z, dn - z)" "z < dn" "heap st1 (PTR st1 den + z) \<noteq> 0" "mval (heap st1) (PTR st1 den) z = 0"
        using divexact_skip_spec [of "heap st1" "PTR st1 den" dn "PTR st1 num" nn] B0 B1 by auto
      define np dp N D where "np = PTR st1 num + z" and "dp = PTR st1 den + z" and "N = nn - z" and "D = dn - z"
      define A' B' where "A' = A div LB ^ z" and "B' = B div LB ^ z"
      have "B mod LB ^ z = 0" using mval_mod [of z dn "heap st1" "PTR st1 den"] z(2,4) by (simp add: B1)
      then have Bz: "B = LB ^ z * B'" using mult_div_mod_eq [of "LB ^ z" B] by (simp add: B'_def)
      have Aq: "A' = q0 * B'" unfolding A'_def q0 Bz by (simp add: LB_def)
      have mv: "mval (heap st1) np N = A'" "mval (heap st1) dp D = B'"
        using mval_div [of z nn "heap st1" "PTR st1 num"] mval_div [of z dn "heap st1" "PTR st1 den"] z(2) le
        by (simp_all add: np_def dp_def N_def D_def A'_def B'_def A1 B1)
      have szs: "1 \<le> q" "1 \<le> D" "q \<le> N" using z(2) le by (simp_all add: q_def D_def N_def)
      have al: "nn \<le> ALLOC st1 num" "dn \<le> ALLOC st1 den" "q \<le> ALLOC st1 w"
        using ABSIZ_le_ALLOC [OF R(1) l(2)] ABSIZ_le_ALLOC [OF R(1) l(3)] R(3) [unfolded q] by (simp_all add: nn_def dn_def sz)
      have "PTR st1 x + ALLOC st1 x \<le> brk st1" if "x \<in> live st1" for x using wf_ok [OF R(1) that] by (simp add: mpz_ok_def)
      note this [OF l(1)] this [OF l(2)] this [OF l(3)]
      with al have blk: "PTR st1 num + nn \<le> brk st1" "PTR st1 den + dn \<le> brk st1" "PTR st1 w + q \<le> brk st1" by linarith+
      have ov: "PTR st1 w \<le> np \<or> np + N \<le> PTR st1 w"
        using wf_sep [OF R(1) l(1,2)] al z(2) le by (cases "w = num") (auto simp: MPN_OVERLAP_P_def np_def N_def)
      have sep: "\<not> MPN_OVERLAP_P (PTR st1 w) q dp D" if "w \<noteq> den"
        using wf_sep [OF R(1) l(1,3) that] al z(2) by (auto simp: MPN_OVERLAP_P_def dp_def D_def)
      obtain tp st2 where e: "divexact_operands (w = den) (PTR st1 w) np N dp D q st1 = (tp, st2)" by fastforce
      have bnd: "np + N \<le> brk st1" "dp + D \<le> brk st1" using blk z(2) le by (simp_all add: np_def dp_def N_def D_def)
      note O = divexact_operands_spec [OF e szs z(3) [folded dp_def] bnd blk(3) ov sep mv(1) [symmetric] mv(2) [symmetric], simplified]
      obtain s where s: "2 ^ s dvd B'" "odd (B' div 2 ^ s)" "mval (heap st2) tp (min q D) = (B' div 2 ^ s) mod LB ^ min q D"
        "mval (heap st2) (PTR st1 w) q = (A' div 2 ^ s) mod LB ^ q" using O(1) by blast
      obtain r m where bd: "mpn_bdivmod (PTR st1 w) (PTR st1 w) q tp (min q D) (q * 32) (heap st2) = (r, m)" by fastforce
      have "odd (heap st2 tp)"
      proof -
        obtain i where i: "min q D = Suc i" using szs by (cases "min q D") auto
        have "LB dvd LB ^ min q D" unfolding i by simp
        then have "even (mval (heap st2) tp (min q D)) = even (B' div 2 ^ s)"
          unfolding s(3) using dvd_mod_iff [of 2 "LB ^ min q D" "B' div 2 ^ s"] by (simp add: LB_def i)
        then show ?thesis using s(2) unfolding i by (simp add: even_limb_iff LB_def)
      qed
      then have bds: "bdivides (PTR st1 w) (PTR st1 w) q (mval (heap st2) tp (min q D)) (q * 32) (heap st2) r m"
        using mpn_bdivmod_spec [OF _ _ _ szs(1) _ _ _ bd] szs O(2) by (auto simp: overlap_defs)
      have Q: "mval m (PTR st1 w) q = q0"
      proof (rule bdivides_quotient [OF bds Aq ql s(1,2) _ s(3,4)])
        show "B' < LB ^ D" unfolding mv(2) [symmetric] by (rule mval_less)
      qed
      define k where "k = MPN_NORMALIZE m (PTR st1 w) q"
      have "only_at ({PTR st1 w..<PTR st1 w + ALLOC st1 w} \<union> {brk st1..}) (heap st1) m"
        using bds al(3) unfolding bdivides_def
        by (intro only_at_trans [OF only_at_mono [OF O(5)] only_at_mono]) auto
      moreover have "k \<le> ALLOC st1 w" using MPN_NORMALIZE_le [of m "PTR st1 w" q] al(3) by (simp add: k_def)
      moreover have "k = 0 \<or> m (PTR st1 w + k - 1) \<noteq> 0" unfolding k_def by (rule MPN_NORMALIZE_top)
      ultimately have U: "updates st1 w (with_sign neg (mval m (PTR st1 w) k)) (set_SIZ w (with_sign neg k) (st1\<lparr>heap := m, brk := brk st2\<rparr>))"
        using one_result [OF R(1) l(1), of m k "brk st2" neg] O(4) by blast
      have st2: "set_heap m st2 = st1\<lparr>heap := m, brk := brk st2\<rparr>" "SIZ st2 x = SIZ st x" for x
        by (subst O(3), simp add: set_heap_def) (subst O(3), simp add: SIZ_def sz(1) [unfolded SIZ_def])
      have dn2: "\<not> dn \<le> 1" "dn \<noteq> 1" using False dn by simp_all
      have "mpz_divexact w num den st = Some (Inr (set_SIZ w (with_sign neg k) (set_heap m st2)))"
        unfolding mpz_divexact_def Let_def ABSIZ_SIZ [symmetric] nn_def [symmetric] dn_def [symmetric] st1_def [symmetric]
        unfolding q z(1) if_not_P [OF nn0] if_not_P [OF dn2(1)] option.map case_prod_conv np_def [symmetric] dp_def [symmetric] N_def [symmetric]
          D_def [symmetric] e bd st2(2) k_def [symmetric] sgn ..
      then show ?thesis
        using updates_realloc [OF ok w] U Q val MPN_NORMALIZE_mval [of m "PTR st1 w" q] by (simp add: st1_def st2(1) k_def)
    qed
  qed
qed

lemma mpz_divexact_by_zero: "store_ok st \<Longrightarrow> den \<in> live st \<Longrightarrow> zval st den = 0 \<Longrightarrow> mpz_divexact w num den st = Some DIVIDE_BY_ZERO"
  using zval_0_iff [of st den] by (simp add: mpz_divexact_def Let_def)

lemma mpz_divexact_ui_by_zero: "mpz_divexact_ui w num 0 st = DIVIDE_BY_ZERO"
  by (simp add: mpz_divexact_ui_def)

end
