(* ===== verification/Mpn_PowmUi.thy ===== *)
theory Mpn_PowmUi
  imports Mpn_PowmLoop
begin

text \<open>
  The limb computations of \<open>mpz/powm_ui.c\<close>: exponentiation by a limb, a bit at a time from the top, where the power has a
  variable number of limbs and is reduced by \<open>mpn_tdiv_qr\<close> when it has as many as the modulus.  The local variables are
  those of \<open>mpz_powm\<close> with \<open>L_redc\<close> false.  Also the steps that both functions share: \<open>reduce\<close>, and the last reduction by
  the modulus as it was before its normalization.
\<close>

unbundle bit_operations_syntax

section \<open>The functions\<close>

definition reduce :: "ptr \<Rightarrow> ptr \<Rightarrow> nat \<Rightarrow> ptr \<Rightarrow> nat \<Rightarrow> ptr \<Rightarrow> mem \<Rightarrow> mem option" where
  "reduce tp ap an mp mn fp m =
     (let qp = fp
      in tdiv_qr_mem qp tp ap an mp mn (fp + (an - mn + 1)) m)"

text \<open>The number \<open>{tp,tn}\<close> is moved to \<open>xp\<close>, reduced if it is not short.\<close>

definition powm_ui_reduce :: "powm_locals \<Rightarrow> ptr \<Rightarrow> nat \<Rightarrow> mem \<Rightarrow> (nat \<times> mem) option" where
  "powm_ui_reduce L xp tn m =
     (if tn < L_mn L then Some (tn, MPN_COPY xp (L_tp L) tn m)
      else do {
        m \<leftarrow> tdiv_qr_mem (L_qp L) xp (L_tp L) tn (L_mp L) (L_mn L) (L_fp L) m;
        Some (L_mn L, m)
      })"

definition powm_ui_sqr :: "powm_locals \<Rightarrow> ptr \<Rightarrow> nat \<Rightarrow> mem \<Rightarrow> (nat \<times> mem) option" where
  "powm_ui_sqr L xp xn m =
     do {
       m \<leftarrow> mpn_sqr_n (L_tp L) xp xn (L_fp L) (L_fp L + MPN_KARA_SQR_N_TSIZE xn) m;
       let tn = 2 * xn;
       let tn = tn - of_bool (m (L_tp L + (tn - 1)) = 0);
       powm_ui_reduce L xp tn m
     }"

definition powm_ui_mul :: "powm_locals \<Rightarrow> ptr \<Rightarrow> nat \<Rightarrow> ptr \<Rightarrow> nat \<Rightarrow> mem \<Rightarrow> (nat \<times> mem) option" where
  "powm_ui_mul L xp xn bp bn m =
     do {
       (_, m) \<leftarrow> mpn_mul (L_tp L) xp xn bp bn (L_fp L) (L_fp L + MPN_KARA_SQR_N_TSIZE xn + 2 * bn) m;
       let tn = xn + bn;
       let tn = tn - of_bool (m (L_tp L + (tn - 1)) = 0);
       powm_ui_reduce L xp tn m
     }"

fun powm_ui_loop :: "powm_locals \<Rightarrow> nat \<Rightarrow> limb \<Rightarrow> ptr \<Rightarrow> nat \<Rightarrow> ptr \<Rightarrow> nat \<Rightarrow> mem \<Rightarrow> (nat \<times> mem) option" where
  "powm_ui_loop L 0 e xp xn bp bn m = Some (xn, m)"
| "powm_ui_loop L (Suc c) e xp xn bp bn m =
     do {
       (xn, m) \<leftarrow> powm_ui_sqr L xp xn m;
       (xn, m) \<leftarrow> (if sint e < 0 then powm_ui_mul L xp xn bp bn m else Some (xn, m));
       powm_ui_loop L c (push_bit 1 e) xp xn bp bn m
     }"

text \<open>The modulus was shifted left: the result is reduced modulo the original one.\<close>

definition powm_ui_unshift :: "powm_locals \<Rightarrow> nat \<Rightarrow> ptr \<Rightarrow> nat \<Rightarrow> mem \<Rightarrow> (nat \<times> mem) option" where
  "powm_ui_unshift L m_zero_cnt xp xn m =
     (if m_zero_cnt \<noteq> 0
      then (let (cy, m) = mpn_lshift (L_tp L) xp xn m_zero_cnt m;
                m = m(L_tp L + xn := cy);
                xn = xn + of_bool (cy \<noteq> 0)
            in do {
              (xn, m) \<leftarrow> powm_ui_reduce L xp xn m;
              let (_, m) = mpn_rshift xp xp xn m_zero_cnt m;
              Some (xn, m)
            })
      else Some (xn, m))"

section \<open>Correctness\<close>

lemma powm_ui_reduce_spec:
  assumes ok: "powm_ok L M F" "\<not> L_redc L" and M: "mval m (L_mp L) (L_mn L) = M" and x: "powm_slot L xp" and tn: "tn \<le> 2 * L_mn L"
  shows "\<exists>m'. powm_ui_reduce L xp tn m = Some (min tn (L_mn L), m') \<and> mval m' xp (min tn (L_mn L)) = mval m (L_tp L) tn mod M
    \<and> only_at ({xp..<xp + L_mn L} \<union> powm_scratch L) m m'"
proof (cases "tn < L_mn L")
  case True
  define m1 where "m1 = MPN_COPY xp (L_tp L) tn m"
  have "\<not> MPN_OVERLAP_P xp (L_mn L) (L_tp L) (2 * L_mn L + 1)" using x by (simp add: powm_slot_def)
  then have "MPN_SAME_OR_SEPARATE_P xp (L_tp L) tn" using True by (auto simp: overlap_defs)
  then have m1: "m1 = mcopy xp (L_tp L) tn m" unfolding m1_def by (rule MPN_COPY_spec)
  have "mval m (L_tp L) tn < LB ^ tn" by (rule mval_less)
  also have "\<dots> \<le> LB ^ (L_mn L - 1)" using True by (intro power_increasing) simp_all
  also have "\<dots> \<le> M" using ok by (simp add: powm_ok_def)
  finally have "mval m (L_tp L) tn mod M = mval m (L_tp L) tn" by simp
  moreover have "only_at ({xp..<xp + L_mn L} \<union> powm_scratch L) m m1"
    unfolding m1 by (rule only_in_at [OF only_in_mcopy]) (use True in auto)
  moreover have "min tn (L_mn L) = tn" using True by simp
  ultimately show ?thesis using True by (simp add: powm_ui_reduce_def m1_def [symmetric] m1)
next
  case False
  have n: "1 \<le> L_mn L" "L_mn L \<le> tn" "L_mn L < SQR_TOOM3_THRESHOLD" "LB ^ (L_mn L - 1) \<le> mval m (L_mp L) (L_mn L)"
    using ok False M by (simp_all add: powm_ok_def)
  have b: "L_tp L + tn \<le> L_fp L" "L_mp L + L_mn L \<le> L_fp L" "L_qp L + (tn - L_mn L + 1) \<le> L_fp L" "xp + L_mn L \<le> L_fp L"
    using ok x tn unfolding powm_ok_def powm_slot_def by linarith+
  have o: "\<not> MPN_OVERLAP_P (L_qp L) (tn - L_mn L + 1) (L_mp L) (L_mn L)" "\<not> MPN_OVERLAP_P (L_qp L) (tn - L_mn L + 1) (L_tp L) tn"
    "\<not> MPN_OVERLAP_P (L_qp L) (tn - L_mn L + 1) xp (L_mn L)" "\<not> MPN_OVERLAP_P xp (L_mn L) (L_mp L) (L_mn L)" "\<not> MPN_OVERLAP_P xp (L_mn L) (L_tp L) tn"
    using ok x tn False unfolding powm_ok_def powm_slot_def no_overlap_iff by auto
  obtain m' where m': "tdiv_qr_mem (L_qp L) xp (L_tp L) tn (L_mp L) (L_mn L) (L_fp L) m = Some m'"
    "mval m' xp (L_mn L) = mval m (L_tp L) tn mod mval m (L_mp L) (L_mn L)"
    "only_at ({L_qp L..<L_qp L + (tn - L_mn L + 1)} \<union> {xp..<xp + L_mn L} \<union> {L_fp L..}) m m'"
    using tdiv_qr_mem_spec [OF n b o] by blast
  have "only_at ({xp..<xp + L_mn L} \<union> powm_scratch L) m m'"
    by (rule only_at_mono [OF m'(3)]) (use tn in \<open>auto simp: powm_scratch_def\<close>)
  then show ?thesis using False m'(1,2) M by (simp add: powm_ui_reduce_def)
qed

text \<open>The top limb of a product is dropped when it is zero.\<close>

lemma drop_top:
  assumes "1 \<le> n"
  shows "mval m p (n - of_bool (m (p + (n - 1)) = 0)) = mval m p n"
proof -
  obtain k where "n = Suc k" using assms by (cases n) auto
  then show ?thesis by (cases "m (p + k) = 0") (simp_all add: mval_high del: mval.simps)
qed

text \<open>The power \<open>x\<close> in \<open>{xp,xn}\<close>, and the base in \<open>{bp,bn}\<close>, which is not longer.\<close>

definition powm_ui_setup :: "powm_locals \<Rightarrow> nat \<Rightarrow> ptr \<Rightarrow> ptr \<Rightarrow> nat \<Rightarrow> bool" where
  "powm_ui_setup L M xp bp bn \<longleftrightarrow> powm_ok L M 1 \<and> \<not> L_redc L \<and> powm_slot L xp \<and> 1 \<le> bn
     \<and> bp + bn \<le> L_fp L \<and> \<not> MPN_OVERLAP_P bp bn xp (L_mn L) \<and> \<not> MPN_OVERLAP_P bp bn (L_tp L) (2 * L_mn L + 1)
     \<and> \<not> MPN_OVERLAP_P bp bn (L_qp L) (L_mn L + 1)"

definition powm_ui_inv :: "powm_locals \<Rightarrow> nat \<Rightarrow> nat \<Rightarrow> ptr \<Rightarrow> ptr \<Rightarrow> nat \<Rightarrow> mem \<Rightarrow> nat \<Rightarrow> mem \<Rightarrow> nat \<Rightarrow> bool" where
  "powm_ui_inv L M B xp bp bn m0 xn m x \<longleftrightarrow> mval m (L_mp L) (L_mn L) = M \<and> mval m bp bn = B \<and> bn \<le> xn \<and> xn \<le> L_mn L
     \<and> mval m xp xn mod M = x mod M \<and> only_at ({xp..<xp + L_mn L} \<union> powm_scratch L) m0 m"

lemma powm_ui_inv_step:
  assumes S: "powm_ui_setup L M xp bp bn" and I: "powm_ui_inv L M B xp bp bn m0 xn m x"
    and at: "only_at ({xp..<xp + L_mn L} \<union> powm_scratch L) m m'" and x': "mval m' xp xn' mod M = x' mod M" "bn \<le> xn'" "xn' \<le> L_mn L"
  shows "powm_ui_inv L M B xp bp bn m0 xn' m' x'"
proof -
  have ok: "powm_ok L M 1" and sx: "powm_slot L xp" using S by (simp_all add: powm_ui_setup_def)
  have "mval m' (L_mp L) (L_mn L) = mval m (L_mp L) (L_mn L)"
    by (rule only_at_mval [OF at]) (use powm_modulus_scratch [OF ok] powm_slot_modulus [OF sx] in blast)
  moreover have "mval m' bp bn = mval m bp bn"
  proof (rule only_at_mval [OF at])
    have o: "\<not> MPN_OVERLAP_P bp bn xp (L_mn L)" "\<not> MPN_OVERLAP_P bp bn (L_tp L) (2 * L_mn L + 1)" "\<not> MPN_OVERLAP_P bp bn (L_qp L) (L_mn L + 1)"
      using S by (simp_all add: powm_ui_setup_def)
    note sep_disjoint [OF o(1)] sep_disjoint [OF o(2)] sep_disjoint [OF o(3)]
    moreover have "{bp..<bp + bn} \<inter> {L_fp L..} = {}" using S by (auto simp: powm_ui_setup_def)
    ultimately show "{bp..<bp + bn} \<inter> ({xp..<xp + L_mn L} \<union> powm_scratch L) = {}" unfolding powm_scratch_def add.assoc by blast
  qed
  ultimately show ?thesis using I x' only_at_trans [OF _ at] by (auto simp: powm_ui_inv_def)
qed

text \<open>A product \<open>y\<close> of two represented numbers in \<open>tp\<close> is reduced.\<close>

lemma powm_ui_finish_product:
  assumes S: "powm_ui_setup L M xp bp bn" and I: "powm_ui_inv L M B xp bp bn m0 xn m x" and at: "only_at (powm_scratch L) m m1"
    and t: "mval m1 (L_tp L) tn = X * Y" "X mod M = x mod M" "Y mod M = y mod M" and tn: "xn + bn \<le> tn" "tn \<le> 2 * L_mn L"
  shows "\<exists>xn' m'. powm_ui_reduce L xp (tn - of_bool (m1 (L_tp L + (tn - 1)) = 0)) m1 = Some (xn', m') \<and> powm_ui_inv L M B xp bp bn m0 xn' m' (x * y)
    \<and> mval m' xp xn' < M"
proof -
  have ok: "powm_ok L M 1" "\<not> L_redc L" "powm_slot L xp" and bn: "1 \<le> bn" using S by (simp_all add: powm_ui_setup_def)
  have xn: "bn \<le> xn" "xn \<le> L_mn L" using I by (simp_all add: powm_ui_inv_def)
  have M1: "mval m1 (L_mp L) (L_mn L) = M"
    using only_at_mval [OF at powm_modulus_scratch [OF ok(1)]] I by (simp add: powm_ui_inv_def)
  define k where "k = tn - of_bool (m1 (L_tp L + (tn - 1)) = 0)"
  have k: "k \<le> 2 * L_mn L" "bn \<le> k" "mval m1 (L_tp L) k = X * Y"
    using tn xn bn drop_top [of tn m1 "L_tp L"] t(1) by (auto simp: k_def)
  obtain m' where m': "powm_ui_reduce L xp k m1 = Some (min k (L_mn L), m')" "mval m' xp (min k (L_mn L)) = mval m1 (L_tp L) k mod M"
    "only_at ({xp..<xp + L_mn L} \<union> powm_scratch L) m1 m'"
    using powm_ui_reduce_spec [OF ok(1,2) M1 ok(3) k(1)] by blast
  have "mval m' xp (min k (L_mn L)) mod M = (x * y) mod M"
    unfolding m'(2) k(3) mod_mod_trivial using t(2,3) by (rule mod_mult_cong)
  then have "powm_ui_inv L M B xp bp bn m0 (min k (L_mn L)) m' (x * y)"
    by (intro powm_ui_inv_step [OF S I only_at_trans [OF only_at_mono [OF at] m'(3)]]) (use k xn in auto)
  moreover have "mval m' xp (min k (L_mn L)) < M" unfolding m'(2) using ok(1) by (simp add: powm_ok_def)
  ultimately show ?thesis using m'(1) unfolding k_def by blast
qed

lemma powm_ui_sqr_spec:
  assumes S: "powm_ui_setup L M xp bp bn" and I: "powm_ui_inv L M B xp bp bn m0 xn m x"
  shows "\<exists>xn' m'. powm_ui_sqr L xp xn m = Some (xn', m') \<and> powm_ui_inv L M B xp bp bn m0 xn' m' (x * x) \<and> mval m' xp xn' < M"
proof -
  have ok: "powm_ok L M 1" "powm_slot L xp" and bn: "1 \<le> bn" using S by (simp_all add: powm_ui_setup_def)
  have xn: "1 \<le> xn" "bn \<le> xn" "xn \<le> L_mn L" and X: "mval m xp xn mod M = x mod M" using I bn by (simp_all add: powm_ui_inv_def)
  note W = powm_workspace [OF ok(1)] and A = powm_layout [OF ok]
  have sq: "xn < SQR_TOOM3_THRESHOLD" using W(5) xn by simp
  then have "xn < LB" by (simp add: SQR_TOOM3_THRESHOLD_def LB_def)
  note room = kara_room_TSIZE(2) [OF this]
  define ws sp where "ws = L_fp L" and "sp = ws + MPN_KARA_SQR_N_TSIZE xn"
  have x': "xp + xn \<le> ws" "L_tp L + 2 * xn \<le> ws" using A(2,3) xn by (simp_all add: ws_def)
  have ov: "\<not> MPN_OVERLAP_P (L_tp L) (2 * xn) xp xn" using A(1) xn unfolding no_overlap_iff by auto
  have "product_step (mpn_sqr_n (L_tp L) xp xn ws sp) (L_tp L) xp xn xp xn
      ({L_tp L..<L_tp L + 2 * xn} \<union> {ws..<ws + MPN_KARA_SQR_N_TSIZE xn} \<union> {sp..<sp + 2 * SQR_KARATSUBA_THRESHOLD})"
  proof (rule mpn_sqr_n_step [OF xn(1) sq ov _ _ room])
    show "\<not> MPN_OVERLAP_P ws (MPN_KARA_SQR_N_TSIZE xn) xp xn" "\<not> MPN_OVERLAP_P ws (MPN_KARA_SQR_N_TSIZE xn) (L_tp L) (2 * xn)"
      by (rule no_overlap_above x')+
    have "xp + xn \<le> sp" "L_tp L + 2 * xn \<le> sp" "ws + MPN_KARA_SQR_N_TSIZE xn \<le> sp" using x' by (simp_all add: sp_def)
    then show "\<not> MPN_OVERLAP_P sp (2 * SQR_KARATSUBA_THRESHOLD) xp xn" "\<not> MPN_OVERLAP_P sp (2 * SQR_KARATSUBA_THRESHOLD) (L_tp L) (2 * xn)"
      "\<not> MPN_OVERLAP_P sp (2 * SQR_KARATSUBA_THRESHOLD) ws (MPN_KARA_SQR_N_TSIZE xn)"
      by (simp_all only: no_overlap_above not_False_eq_True)
  qed
  then obtain m1 where m1: "mpn_sqr_n (L_tp L) xp xn ws sp m = Some m1" "mval m1 (L_tp L) (xn + xn) = mval m xp xn * mval m xp xn"
    "only_at ({L_tp L..<L_tp L + 2 * xn} \<union> {ws..<ws + MPN_KARA_SQR_N_TSIZE xn} \<union> {sp..<sp + 2 * SQR_KARATSUBA_THRESHOLD}) m m1"
    by (rule product_stepE)
  have f1: "only_at (powm_scratch L) m m1" by (rule only_at_mono [OF m1(3)]) (use xn in \<open>auto simp: powm_scratch_def ws_def sp_def\<close>)
  show ?thesis
    using powm_ui_finish_product [OF S I f1 m1(2) X X] m1(1) xn by (simp add: powm_ui_sqr_def Let_def ws_def sp_def mult_2)
qed

lemma powm_ui_mul_spec:
  assumes S: "powm_ui_setup L M xp bp bn" and I: "powm_ui_inv L M B xp bp bn m0 xn m x"
  shows "\<exists>xn' m'. powm_ui_mul L xp xn bp bn m = Some (xn', m') \<and> powm_ui_inv L M B xp bp bn m0 xn' m' (x * B) \<and> mval m' xp xn' < M"
proof -
  have ok: "powm_ok L M 1" "powm_slot L xp" and bn: "1 \<le> bn" "bp + bn \<le> L_fp L" "\<not> MPN_OVERLAP_P bp bn xp (L_mn L)"
    "\<not> MPN_OVERLAP_P bp bn (L_tp L) (2 * L_mn L + 1)" using S by (simp_all add: powm_ui_setup_def)
  have xn: "1 \<le> xn" "bn \<le> xn" "xn \<le> L_mn L" and X: "mval m xp xn mod M = x mod M" and B: "mval m bp bn = B"
    using I bn by (simp_all add: powm_ui_inv_def)
  note W = powm_workspace [OF ok(1)] and A = powm_layout [OF ok]
  have ne: "\<not> (xp = bp \<and> xn = bn)" using bn(1,3) xn by (auto simp: MPN_OVERLAP_P_def)
  have sm: "bn < MUL_TOOM3_THRESHOLD" using W(4) xn by simp
  then have "bn < LB" by (simp add: MUL_TOOM3_THRESHOLD_def LB_def)
  note room = kara_room_TSIZE(1) [OF this]
  define s r ws sp where "s = MPN_KARA_SQR_N_TSIZE xn + 2 * bn" and "r = MPN_KARA_MUL_N_TSIZE bn + 2 * SQR_KARATSUBA_THRESHOLD"
    and "ws = L_fp L" and "sp = ws + MPN_KARA_SQR_N_TSIZE xn + 2 * bn"
  have sz: "2 * bn \<le> s" "kara_room bn \<le> r" "2 * SQR_KARATSUBA_THRESHOLD \<le> r" using room by (simp_all add: s_def r_def)
  have b: "xp + xn \<le> ws" "L_tp L + (xn + bn) \<le> ws" "bp + bn \<le> ws" "ws + s = sp" using A(2,3) xn bn by (simp_all add: ws_def sp_def s_def)
  have b2: "xp + xn \<le> sp" "L_tp L + (xn + bn) \<le> sp" "bp + bn \<le> sp" "ws + s \<le> sp" using b by simp_all
  have sw: "\<not> MPN_OVERLAP_P p n q k" if "p + n \<le> q" for p n q k using that by (simp add: no_overlap_iff)
  have o1: "\<not> MPN_OVERLAP_P (L_tp L) (xn + bn) xp xn" "\<not> MPN_OVERLAP_P (L_tp L) (xn + bn) bp bn"
    using A(1) bn(4) xn unfolding no_overlap_iff by auto
  have t1: "xp = bp \<and> xn = bn \<longrightarrow> xn < SQR_TOOM3_THRESHOLD" "xp = bp \<and> xn = bn \<longrightarrow> kara_room xn \<le> s" using ne by blast+
  obtain m1 where m1: "mpn_mul (L_tp L) xp xn bp bn ws sp m = Some (m1 (L_tp L + xn + bn - 1), m1)"
    "mval m1 (L_tp L) (xn + bn) = mval m xp xn * mval m bp bn"
    "only_at ({L_tp L..<L_tp L + (xn + bn)} \<union> {ws..<ws + s} \<union> {sp..<sp + r}) m m1"
    using mpn_mul_spec [OF bn(1) xn(2) sm t1(1) t1(2) sz o1 sw [OF b(2)] sw [OF b2(2)] no_overlap_above [OF b(1)] no_overlap_above [OF b(3)]
      sw [OF b2(4)] no_overlap_above [OF b2(1)] no_overlap_above [OF b2(3)]] by blast
  have f1: "only_at (powm_scratch L) m m1" by (rule only_at_mono [OF m1(3)]) (use xn in \<open>auto simp: powm_scratch_def ws_def sp_def\<close>)
  have "mval m1 (L_tp L) (xn + bn) = mval m xp xn * B" using m1(2) B by simp
  from powm_ui_finish_product [OF S I f1 this X refl] m1(1) xn show ?thesis
    by (simp add: powm_ui_mul_def Let_def ws_def sp_def)
qed


text \<open>The bits of the exponent from the top: \<open>e\<close> holds the \<open>c\<close> next ones in its high end.\<close>

lemma sign_limb: "sint (e :: limb) < 0 \<longleftrightarrow> unat e div 2 ^ 31 = 1"
proof -
  have "sint e < 0 \<longleftrightarrow> bit e 31" using bit_last_iff [of e] by simp
  also have "\<dots> \<longleftrightarrow> odd (unat e div 2 ^ 31)" unfolding bit_limb [symmetric] bit_iff_odd ..
  also have "\<dots> \<longleftrightarrow> unat e div 2 ^ 31 = 1"
  proof -
    have "unat e div 2 ^ 31 < 2" using unat_lt_LB [of e] by (simp add: LB_def)
    then have "unat e div 2 ^ 31 = 0 \<or> unat e div 2 ^ 31 = 1" by linarith
    then show ?thesis by auto
  qed
  finally show ?thesis .
qed

lemma next_top_bit:
  fixes P :: nat and e :: limb
  assumes "Suc c \<le> 31"
  shows "(2 * P + unat e div 2 ^ 31) * 2 ^ c + unat (push_bit 1 e) div 2 ^ (32 - c) = P * 2 ^ Suc c + unat e div 2 ^ (32 - Suc c)"
proof -
  define t r where "t = unat e div 2 ^ 31" and "r = unat e mod 2 ^ 31"
  have u: "unat e = t * 2 ^ 31 + r" unfolding t_def r_def by (rule div_mult_mod_eq [symmetric])
  have d: "32 - Suc c = 31 - c" "32 - c = Suc (31 - c)" using assms by simp_all
  have p: "unat (push_bit 1 e) = 2 * r" using unat_push_limb [of 1 e] by (simp add: r_def)
  have "(2 :: nat) ^ 31 = 2 ^ c * 2 ^ (31 - c)" using assms by (simp flip: power_add)
  then have "unat e = r + t * 2 ^ c * 2 ^ (31 - c)" unfolding u by simp
  then have "unat e div 2 ^ (31 - c) = t * 2 ^ c + r div 2 ^ (31 - c)" by (simp only: div_mult_self1 power_not_zero numeral_neq_zero add.commute not_False_eq_True)
  moreover have "2 * r div 2 ^ Suc (31 - c) = r div 2 ^ (31 - c)" by simp
  ultimately show ?thesis unfolding d p t_def [symmetric] by (simp add: algebra_simps)
qed

lemma powm_ui_loop_spec:
  assumes S: "powm_ui_setup L M xp bp bn" and I: "powm_ui_inv L M B xp bp bn m0 xn m (B ^ P)" and c: "c \<le> 31"
  shows "\<exists>xn' m'. powm_ui_loop L c e xp xn bp bn m = Some (xn', m') \<and> powm_ui_inv L M B xp bp bn m0 xn' m' (B ^ (P * 2 ^ c + unat e div 2 ^ (32 - c)))
    \<and> (1 \<le> c \<or> mval m xp xn < M \<longrightarrow> mval m' xp xn' < M)"
  using I c
proof (induction c arbitrary: e xn m P)
  case 0
  have "unat e div 2 ^ 32 = 0" using unat_lt_LB [of e] by (simp add: LB_def)
  then show ?case using 0 by simp
next
  case (Suc c)
  obtain xn1 m1 where 1: "powm_ui_sqr L xp xn m = Some (xn1, m1)" "powm_ui_inv L M B xp bp bn m0 xn1 m1 (B ^ P * B ^ P)" "mval m1 xp xn1 < M"
    using powm_ui_sqr_spec [OF S Suc.prems(1)] by blast
  define t where "t = unat e div 2 ^ 31"
  have t: "t = 0 \<or> t = 1" using unat_lt_LB [of e] by (auto simp: t_def LB_def)
  obtain xn2 m2 where 2: "(if sint e < 0 then powm_ui_mul L xp xn1 bp bn m1 else Some (xn1, m1)) = Some (xn2, m2)"
    "powm_ui_inv L M B xp bp bn m0 xn2 m2 (B ^ (2 * P + t))" "mval m2 xp xn2 < M"
  proof (cases "t = 1")
    case True
    obtain xn2 m2 where "powm_ui_mul L xp xn1 bp bn m1 = Some (xn2, m2)" "powm_ui_inv L M B xp bp bn m0 xn2 m2 (B ^ P * B ^ P * B)" "mval m2 xp xn2 < M"
      using powm_ui_mul_spec [OF S 1(2)] by blast
    moreover have "B ^ P * B ^ P * B = B ^ (2 * P + t)" by (simp add: True power_add mult_2)
    moreover have "sint e < 0" using True by (simp add: sign_limb t_def)
    ultimately show thesis using that by simp
  next
    case False
    then have "t = 0" "\<not> sint e < 0" using t by (simp_all add: sign_limb t_def)
    moreover have "B ^ P * B ^ P = B ^ (2 * P + t)" by (simp add: \<open>t = 0\<close> power_add mult_2)
    ultimately show thesis using that 1(2,3) by simp
  qed
  have c: "c \<le> 31" using Suc.prems(2) by simp
  obtain xn3 m3 where 3: "powm_ui_loop L c (push_bit 1 e) xp xn2 bp bn m2 = Some (xn3, m3)"
    "powm_ui_inv L M B xp bp bn m0 xn3 m3 (B ^ ((2 * P + t) * 2 ^ c + unat (push_bit 1 e) div 2 ^ (32 - c)))" "mval m3 xp xn3 < M"
    using Suc.IH [OF 2(2) c, of "push_bit 1 e"] 2(3) by blast
  have "powm_ui_loop L (Suc c) e xp xn bp bn m = Some (xn3, m3)" using 1(1) 2(1) 3(1) by simp
  moreover have "powm_ui_inv L M B xp bp bn m0 xn3 m3 (B ^ (P * 2 ^ Suc c + unat e div 2 ^ (32 - Suc c)))"
    using 3(2) unfolding t_def next_top_bit [OF Suc.prems(2)] .
  ultimately show ?case using 3(3) by blast
qed

text \<open>The whole exponent: its leading one is the base itself.\<close>

lemma exponent_after_top:
  fixes el :: limb
  assumes "el \<noteq> 0"
  defines "z \<equiv> unat (count_leading_zeros el)"
  shows "1 * 2 ^ (31 - z) + unat (push_bit 1 (push_bit z el)) div 2 ^ (32 - (31 - z)) = unat el"
proof -
  note C = count_leading_zeros_correct [OF assms(1), folded z_def]
  define A where "A = 2 ^ z * unat el"
  have A: "A < LB" "LB \<le> 2 * A" using C(2,3) by (simp_all add: A_def)
  have p: "unat (push_bit z el) = A" using unat_push_small [of z el] C(1,3) by (simp add: A_def)
  have "2 ^ 31 \<le> A" using A(2) by (simp add: LB_def)
  then obtain r where r: "A = 2 ^ 31 + r" by (metis le_Suc_ex)
  have "r < 2 ^ 31" using A(1) r by (simp add: LB_def)
  then have "unat (push_bit 1 (push_bit z el)) = 2 * r" using unat_push_limb [of 1 "push_bit z el"] p r by simp
  moreover have e: "32 - (31 - z) = Suc z" using C(1) by simp
  moreover have "2 * r div 2 ^ Suc z = r div 2 ^ z" by simp
  moreover have "unat el = 2 ^ (31 - z) + r div 2 ^ z"
  proof -
    have "unat el = A div 2 ^ z" by (simp add: A_def)
    also have "(2 :: nat) ^ 31 = 2 ^ (31 - z) * 2 ^ z" using C(1) by (simp flip: power_add)
    then have "A = r + 2 ^ (31 - z) * 2 ^ z" using r by simp
    also have "\<dots> div 2 ^ z = 2 ^ (31 - z) + r div 2 ^ z" by (simp only: div_mult_self1 power_not_zero numeral_neq_zero add.commute not_False_eq_True)
    finally show ?thesis .
  qed
  ultimately show ?thesis by simp
qed


text \<open>A number shifted left, reduced by the shifted modulus and shifted back.\<close>

lemma unshift_exact:
  assumes eq: "mpn_rshift xp xp n cnt m = (r, m')" and n: "1 \<le> n" and cnt: "cnt < 32" and v: "mval m xp n = 2 ^ cnt * Y"
  shows "mval m' xp n = Y" "only_in xp n m m'"
proof -
  have "MPN_SAME_OR_INCR_P xp xp n" by (simp add: overlap_defs)
  note R = mpn_rshift_spec [OF eq n less_imp_le [OF cnt] this]
  have "2 ^ cnt * (LB * Y) = 2 ^ cnt * (LB * mval m' xp n + unat r)" using R(1) unfolding v by simp
  then have "LB * Y = LB * mval m' xp n + unat r" by simp
  then have "LB * Y div LB = (unat r + LB * mval m' xp n) div LB" by simp
  then show "mval m' xp n = Y" using unat_lt_LB [of r] by simp
  show "only_in xp n m m'" by (rule R(2))
qed

lemma powm_ui_unshift_spec:
  assumes ok: "powm_ok L M 1" "\<not> L_redc L" and x: "powm_slot L xp" and M: "mval m (L_mp L) (L_mn L) = M" "M = 2 ^ cnt * M0" and cnt: "cnt < 32"
    and xn: "1 \<le> xn" "xn \<le> L_mn L" and X: "cnt = 0 \<Longrightarrow> mval m xp xn < M"
  shows "\<exists>xn' m'. powm_ui_unshift L cnt xp xn m = Some (xn', m') \<and> xn' \<le> L_mn L \<and> mval m' xp xn' = mval m xp xn mod M0
    \<and> only_at ({xp..<xp + L_mn L} \<union> powm_scratch L) m m'"
proof (cases "cnt = 0")
  case True
  then show ?thesis using X xn M(2) by (simp add: powm_ui_unshift_def)
next
  case False
  define X where "X = mval m xp xn"
  obtain cy m1 where s: "mpn_lshift (L_tp L) xp xn cnt m = (cy, m1)" by fastforce
  note A = powm_layout [OF ok(1) x]
  have "MPN_SAME_OR_DECR_P (L_tp L) xp xn" using A(1) xn by (auto simp: overlap_defs)
  note L = mpn_lshift_spec [OF s xn(1) cnt this, folded X_def]
  define m2 tn where "m2 = m1(L_tp L + xn := cy)" and "tn = xn + of_bool (cy \<noteq> 0)"
  have tn: "1 \<le> tn" "tn \<le> 2 * L_mn L" using xn by (auto simp: tn_def)
  have v2: "mval m2 (L_tp L) tn = 2 ^ cnt * X"
    using L(1) by (cases "cy = 0") (simp_all add: m2_def tn_def mval_high del: mval.simps)
  have f2: "only_at (powm_scratch L) m m2"
  proof (rule only_at_trans)
    show "only_at (powm_scratch L) m m1" by (rule only_in_at [OF L(3)]) (use xn in \<open>auto simp: powm_scratch_def\<close>)
    show "only_at (powm_scratch L) m1 m2" unfolding m2_def by (rule only_at_upd) (use xn in \<open>simp add: powm_scratch_def\<close>)
  qed
  have M2: "mval m2 (L_mp L) (L_mn L) = M" unfolding M(1) [symmetric] by (rule only_at_mval [OF f2 powm_modulus_scratch [OF ok(1)]])
  obtain m3 where m3: "powm_ui_reduce L xp tn m2 = Some (min tn (L_mn L), m3)" "mval m3 xp (min tn (L_mn L)) = mval m2 (L_tp L) tn mod M"
    "only_at ({xp..<xp + L_mn L} \<union> powm_scratch L) m2 m3"
    using powm_ui_reduce_spec [OF ok M2 x tn(2)] by blast
  define k where "k = min tn (L_mn L)"
  have k: "1 \<le> k" "k \<le> L_mn L" using tn xn by (simp_all add: k_def)
  have v3: "mval m3 xp k = 2 ^ cnt * (X mod M0)" unfolding k_def m3(2) v2 M(2) by (rule mult_mod_right [symmetric])
  obtain r m4 where r: "mpn_rshift xp xp k cnt m3 = (r, m4)" by fastforce
  note B = unshift_exact [OF r k(1) cnt v3]
  have "only_at ({xp..<xp + L_mn L} \<union> powm_scratch L) m m4"
    by (rule only_at_trans [OF only_at_mono [OF f2] only_at_trans [OF m3(3) only_in_at [OF B(2)]]]) (use k in auto)
  moreover have "powm_ui_unshift L cnt xp xn m = Some (k, m4)"
    using False s m3(1) r by (simp add: powm_ui_unshift_def m2_def [symmetric] tn_def [symmetric] k_def)
  ultimately show ?thesis using k B(1) unfolding X_def by blast
qed

lemma reduce_spec:
  assumes n: "1 \<le> mn" "mn \<le> an" "mn < SQR_TOOM3_THRESHOLD" "LB ^ (mn - 1) \<le> mval m mp mn"
    and b: "ap + an \<le> fp" "mp + mn \<le> fp" "tp + mn \<le> fp" and o: "\<not> MPN_OVERLAP_P tp mn mp mn" "\<not> MPN_OVERLAP_P tp mn ap an"
  shows "\<exists>m'. reduce tp ap an mp mn fp m = Some m' \<and> mval m' tp mn = mval m ap an mod mval m mp mn \<and> only_at ({tp..<tp + mn} \<union> {fp..}) m m'"
proof -
  define gp where "gp = fp + (an - mn + 1)"
  have g: "ap + an \<le> gp" "mp + mn \<le> gp" "fp + (an - mn + 1) \<le> gp" "tp + mn \<le> gp" using b by (simp_all add: gp_def)
  have sw: "\<not> MPN_OVERLAP_P fp k q j" if "q + j \<le> fp" for k q j using that by (simp add: no_overlap_iff)
  obtain m' where m': "tdiv_qr_mem fp tp ap an mp mn gp m = Some m'" "mval m' tp mn = mval m ap an mod mval m mp mn"
    "only_at ({fp..<fp + (an - mn + 1)} \<union> {tp..<tp + mn} \<union> {gp..}) m m'"
    using tdiv_qr_mem_spec [OF n g sw [OF b(2)] sw [OF b(1)] sw [OF b(3)] o] by blast
  have "only_at ({tp..<tp + mn} \<union> {fp..}) m m'" by (rule only_at_mono [OF m'(3)]) (auto simp: gp_def)
  then show ?thesis using m' by (simp add: reduce_def gp_def)
qed

end
