(* ===== verification/Mpz_Div.thy ===== *)
theory Mpz_Div
  imports Mpz_Tdiv
begin

text \<open>
  Division of variables rounded down and up (\<open>mpz/fdiv_qr.c\<close>, \<open>fdiv_q.c\<close>, \<open>fdiv_r.c\<close>, \<open>cdiv_qr.c\<close>, \<open>cdiv_q.c\<close>,
  \<open>cdiv_r.c\<close>) and the non-negative remainder (\<open>mpz/mod.c\<close>), by a correction of the truncated division.  A local
  \<open>mpz_t\<close> of the code is a variable \<open>t\<close> that is not live when the function is called; \<open>MPZ_TMP_INIT\<close> does not set its
  size, so the old contents of the record stay there.
\<close>

unbundle bit_operations_syntax

section \<open>Local variables\<close>

definition MPZ_TMP_INIT :: "var \<Rightarrow> nat \<Rightarrow> state \<Rightarrow> state" where
  "MPZ_TMP_INIT x n st =
     (let (p, st) = ALLOCATE_FUNC_LIMBS n st
      in st\<lparr>vars := (vars st)(x := (vars st x)\<lparr>mp_alloc := n, mp_d := p\<rparr>), live := insert x (live st)\<rparr>)"

definition TMP_FREE :: "var \<Rightarrow> state \<Rightarrow> state" where
  "TMP_FREE x st = st\<lparr>live := live st - {x}\<rparr>"

text \<open>The copy of a divisor that is also a result.\<close>

definition local_divisor :: "bool \<Rightarrow> var \<Rightarrow> var \<Rightarrow> int \<Rightarrow> state \<Rightarrow> var \<times> state" where
  "local_divisor clash t divisor divisor_size st =
     (if clash then (t, mpz_set t divisor (MPZ_TMP_INIT t (nat \<bar>divisor_size\<bar>) st)) else (divisor, st))"

definition local_end :: "bool \<Rightarrow> var \<Rightarrow> state \<Rightarrow> state" where
  "local_end clash t st = (if clash then TMP_FREE t st else st)"

section \<open>The functions\<close>

definition mpz_fdiv_qr :: "var \<Rightarrow> var \<Rightarrow> var \<Rightarrow> var \<Rightarrow> var \<Rightarrow> state \<Rightarrow> (gmp_error + state) option" where
  "mpz_fdiv_qr quot rem dividend divisor t st =
     (let divisor_size = SIZ st divisor;
          clash = (quot = divisor \<or> rem = divisor);
          (divisor, st) = local_divisor clash t divisor divisor_size st;
          xsize = SIZ st dividend XOR divisor_size
      in map_option (map_sum id (\<lambda>st.
           local_end clash t
             (if xsize < 0 \<and> SIZ st rem \<noteq> 0
              then mpz_add rem rem divisor (mpz_sub_ui quot quot 1 st)
              else st)))
         (mpz_tdiv_qr quot rem dividend divisor st))"

definition mpz_cdiv_qr :: "var \<Rightarrow> var \<Rightarrow> var \<Rightarrow> var \<Rightarrow> var \<Rightarrow> state \<Rightarrow> (gmp_error + state) option" where
  "mpz_cdiv_qr quot rem dividend divisor t st =
     (let divisor_size = SIZ st divisor;
          clash = (quot = divisor \<or> rem = divisor);
          (divisor, st) = local_divisor clash t divisor divisor_size st;
          xsize = SIZ st dividend XOR divisor_size
      in map_option (map_sum id (\<lambda>st.
           local_end clash t
             (if xsize \<ge> 0 \<and> SIZ st rem \<noteq> 0
              then mpz_sub rem rem divisor (mpz_add_ui quot quot 1 st)
              else st)))
         (mpz_tdiv_qr quot rem dividend divisor st))"

definition mpz_fdiv_q :: "var \<Rightarrow> var \<Rightarrow> var \<Rightarrow> var \<Rightarrow> state \<Rightarrow> (gmp_error + state) option" where
  "mpz_fdiv_q quot dividend divisor rem st =
     (let dividend_size = SIZ st dividend;
          divisor_size = SIZ st divisor;
          st = MPZ_TMP_INIT rem (nat \<bar>divisor_size\<bar>) st
      in map_option (map_sum id (\<lambda>st.
           TMP_FREE rem
             (if divisor_size XOR dividend_size < 0 \<and> SIZ st rem \<noteq> 0 then mpz_sub_ui quot quot 1 st else st)))
         (mpz_tdiv_qr quot rem dividend divisor st))"

definition mpz_cdiv_q :: "var \<Rightarrow> var \<Rightarrow> var \<Rightarrow> var \<Rightarrow> state \<Rightarrow> (gmp_error + state) option" where
  "mpz_cdiv_q quot dividend divisor rem st =
     (let dividend_size = SIZ st dividend;
          divisor_size = SIZ st divisor;
          st = MPZ_TMP_INIT rem (nat \<bar>divisor_size\<bar>) st
      in map_option (map_sum id (\<lambda>st.
           TMP_FREE rem
             (if divisor_size XOR dividend_size \<ge> 0 \<and> SIZ st rem \<noteq> 0 then mpz_add_ui quot quot 1 st else st)))
         (mpz_tdiv_qr quot rem dividend divisor st))"

definition mpz_fdiv_r :: "var \<Rightarrow> var \<Rightarrow> var \<Rightarrow> var \<Rightarrow> state \<Rightarrow> (gmp_error + state) option" where
  "mpz_fdiv_r rem dividend divisor t st =
     (let divisor_size = SIZ st divisor;
          clash = (rem = divisor);
          (divisor, st) = local_divisor clash t divisor divisor_size st
      in map_option (map_sum id (\<lambda>st.
           local_end clash t
             (if divisor_size XOR SIZ st dividend < 0 \<and> SIZ st rem \<noteq> 0 then mpz_add rem rem divisor st else st)))
         (mpz_tdiv_r rem dividend divisor st))"

definition mpz_cdiv_r :: "var \<Rightarrow> var \<Rightarrow> var \<Rightarrow> var \<Rightarrow> state \<Rightarrow> (gmp_error + state) option" where
  "mpz_cdiv_r rem dividend divisor t st =
     (let divisor_size = SIZ st divisor;
          clash = (rem = divisor);
          (divisor, st) = local_divisor clash t divisor divisor_size st
      in map_option (map_sum id (\<lambda>st.
           local_end clash t
             (if divisor_size XOR SIZ st dividend \<ge> 0 \<and> SIZ st rem \<noteq> 0 then mpz_sub rem rem divisor st else st)))
         (mpz_tdiv_r rem dividend divisor st))"

definition mpz_mod :: "var \<Rightarrow> var \<Rightarrow> var \<Rightarrow> var \<Rightarrow> state \<Rightarrow> (gmp_error + state) option" where
  "mpz_mod rem dividend divisor t st =
     (let divisor_size = SIZ st divisor;
          clash = (rem = divisor);
          (divisor, st) = local_divisor clash t divisor divisor_size st
      in map_option (map_sum id (\<lambda>st.
           local_end clash t
             (if SIZ st rem \<noteq> 0
              then (if SIZ st dividend < 0
                    then (if SIZ st divisor < 0 then mpz_sub rem rem divisor st else mpz_add rem rem divisor st)
                    else st)
              else st)))
         (mpz_tdiv_r rem dividend divisor st))"

section \<open>Correctness of the local variables\<close>

lemma MPZ_TMP_INIT_simps [simp]:
  "SIZ (MPZ_TMP_INIT x n st) y = SIZ st y" "heap (MPZ_TMP_INIT x n st) = heap st" "live (MPZ_TMP_INIT x n st) = insert x (live st)"
  "ALLOC (MPZ_TMP_INIT x n st) x = n" "PTR (MPZ_TMP_INIT x n st) x = brk st" "y \<noteq> x \<Longrightarrow> PTR (MPZ_TMP_INIT x n st) y = PTR st y"
  by (simp_all add: MPZ_TMP_INIT_def ALLOCATE_FUNC_LIMBS_def SIZ_def ALLOC_def PTR_def)

text \<open>Once the size is set to 0, it is a variable as \<open>mpz_init\<close> makes one.\<close>

lemma tmp_init:
  assumes "store_ok st" "x \<notin> live st" "1 \<le> n"
  defines "st' \<equiv> set_SIZ x 0 (MPZ_TMP_INIT x n st)"
  shows "store_ok st'" "live st' = insert x (live st)" "zval st' x = 0" "y \<in> live st \<Longrightarrow> zval st' y = zval st y" "y \<in> live st \<Longrightarrow> SIZ st' y = SIZ st y"
proof -
  have e: "st' = st\<lparr>brk := brk st + n, vars := (vars st)(x := \<lparr>mp_alloc = n, mp_size = 0, mp_d = brk st\<rparr>), live := insert x (live st)\<rparr>"
    by (cases "vars st x") (simp add: st'_def set_SIZ_def MPZ_TMP_INIT_def ALLOCATE_FUNC_LIMBS_def)
  show "store_ok st'" "zval st' x = 0" "y \<in> live st \<Longrightarrow> zval st' y = zval st y"
    unfolding e by (rule init_fresh [OF assms(1-3)])+
  show "live st' = insert x (live st)" "y \<in> live st \<Longrightarrow> SIZ st' y = SIZ st y" using assms(2) by (auto simp: st'_def)
qed

lemma set_SIZ_twice [simp]: "set_SIZ x s (set_SIZ x t st) = set_SIZ x s st"
  by (simp add: set_SIZ_def)

lemma mpz_set_SIZ:
  assumes "w \<noteq> u" "ABSIZ st u \<le> ALLOC st w"
  shows "mpz_set w u (set_SIZ w s st) = mpz_set w u st"
  using assms by (simp add: mpz_set_def MPZ_REALLOC_def Let_def ABSIZ_SIZ heap_SIZ_swap)

lemma local_copy:
  assumes ok: "store_ok st" and t: "t \<notin> live st" and d: "d \<in> live st" and nz: "SIZ st d \<noteq> 0"
  defines "st' \<equiv> mpz_set t d (MPZ_TMP_INIT t (nat \<bar>SIZ st d\<bar>) st)"
  shows "store_ok st'" "live st' = insert t (live st)" "zval st' t = zval st d" "y \<in> live st \<Longrightarrow> zval st' y = zval st y"
    "y \<in> live st \<Longrightarrow> SIZ st' y = SIZ st y" "SIZ st' t = SIZ st d"
proof -
  define n where "n = nat \<bar>SIZ st d\<bar>"
  define st1 where "st1 = set_SIZ t 0 (MPZ_TMP_INIT t n st)"
  have n: "1 \<le> n" using nz by (simp add: n_def)
  have td: "t \<noteq> d" using t d by auto
  note I = tmp_init [OF ok t n, folded st1_def]
  have e: "st' = mpz_set t d st1"
    unfolding st'_def st1_def n_def by (rule mpz_set_SIZ [symmetric]) (use td in \<open>simp_all add: ABSIZ_SIZ\<close>)
  have l: "t \<in> live st1" "d \<in> live st1" using I(2) d by simp_all
  note U = updatesD [OF mpz_set_spec [OF I(1) l], folded e]
  show "store_ok st'" by (rule U(1))
  show "live st' = insert t (live st)" using U(2) I(2) by simp
  show "zval st' t = zval st d" using U(3) I(4) [OF d] by simp
  show "zval st' y = zval st y" if "y \<in> live st"
    using U(4) [of y] I(2) I(4) [OF that] that t by auto
  have S: "SIZ st' x = (if x = t then SIZ st1 d else SIZ (MPZ_REALLOC t (nat \<bar>SIZ st1 d\<bar>) st1) x)" for x
    unfolding e mpz_set_def Let_def by simp
  have "MPZ_REALLOC t (nat \<bar>SIZ st1 d\<bar>) st1 = st1"
    using td by (simp add: MPZ_REALLOC_def st1_def n_def)
  then show "y \<in> live st \<Longrightarrow> SIZ st' y = SIZ st y" "SIZ st' t = SIZ st d"
    using S I(5) d t by auto
qed

lemma local_divisor_spec:
  assumes ok: "store_ok st" and t: "t \<notin> live st" and d: "d \<in> live st" and nz: "SIZ st d \<noteq> 0"
    and eq: "local_divisor c t d (SIZ st d) st = (d', st')"
  shows "store_ok st'" "live st' = (if c then insert t (live st) else live st)" "d' \<in> live st'" "zval st' d' = zval st d"
    "y \<in> live st \<Longrightarrow> zval st' y = zval st y" "y \<in> live st \<Longrightarrow> SIZ st' y = SIZ st y" "SIZ st' d' = SIZ st d"
    "d' = (if c then t else d)"
  using local_copy [OF ok t d nz] eq ok d by (auto simp: local_divisor_def split: if_splits)

lemma local_divisor_zero:
  assumes "SIZ st d = 0" "local_divisor c t d (SIZ st d) st = (d', st')" "t \<noteq> d"
  shows "SIZ st' d' = 0"
  using assms by (auto simp: local_divisor_def mpz_set_def MPZ_REALLOC_def Let_def split: if_splits)

lemma local_end_spec:
  assumes "store_ok st"
  shows "store_ok (local_end c t st)" "zval (local_end c t st) y = zval st y" "live (local_end c t st) = (if c then live st - {t} else live st)"
  using mpz_clear_spec [OF assms, of t y] assms by (auto simp: local_end_def TMP_FREE_def mpz_clear_def)

text \<open>The remainder variable of \<open>mpz_tdiv_qr\<close>: the size it has before the call does not matter.\<close>

lemma MPZ_REALLOC_SIZ: "x \<noteq> t \<Longrightarrow> MPZ_REALLOC x n (set_SIZ t s st) = set_SIZ t s (MPZ_REALLOC x n st)"
  by (auto simp: MPZ_REALLOC_def mpz_realloc_def REALLOCATE_FUNC_LIMBS_def Let_def ALLOC_def PTR_def ABSIZ_def set_SIZ_def fun_eq_iff)

lemma separate_operand_SIZ: "separate_operand c p n (set_SIZ t s st) = (case separate_operand c p n st of (p', st') \<Rightarrow> (p', set_SIZ t s st'))"
  by (simp add: separate_operand_def ALLOCATE_FUNC_LIMBS_def set_SIZ_def set_heap_def)

lemma mpz_tdiv_qr_SIZ:
  assumes "t \<noteq> quot" "t \<noteq> num" "t \<noteq> den" "ABSIZ st den \<le> ALLOC st t"
  shows "mpz_tdiv_qr quot t num den (set_SIZ t s st) = mpz_tdiv_qr quot t num den st"
proof -
  define nl dl ql where "nl = nat \<bar>SIZ st num\<bar>" and "dl = nat \<bar>SIZ st den\<bar>" and "ql = nat (int nl - int dl + 1)"
  define st1 where "st1 = MPZ_REALLOC quot ql st"
  have S: "SIZ (set_SIZ t s st) num = SIZ st num" "SIZ (set_SIZ t s st) den = SIZ st den" using assms(2,3) by simp_all
  have r: "MPZ_REALLOC t dl (set_SIZ t s st) = set_SIZ t s st" "MPZ_REALLOC t dl st = st"
    using assms(4) by (simp_all add: MPZ_REALLOC_def ABSIZ_SIZ dl_def)
  have q: "MPZ_REALLOC quot ql (set_SIZ t s st) = set_SIZ t s st1" using assms(1) by (simp add: MPZ_REALLOC_SIZ st1_def)
  have h: "set_heap m (set_SIZ t s st') = set_SIZ t s (set_heap m st')" for m st' by (rule heap_SIZ_swap)
  have w: "set_SIZ t a (set_SIZ quot b (set_SIZ t s st')) = set_SIZ t a (set_SIZ quot b st')" for a b st'
    using assms(1) by (subst set_SIZ_swap) simp_all
  have z: "set_SIZ quot 0 (set_SIZ t a (set_SIZ t s st')) = set_SIZ quot 0 (set_SIZ t a st')" for a st' by simp
  have c: "num \<noteq> t" using assms(2) by simp
  show ?thesis
    unfolding mpz_tdiv_qr_def Let_def S nl_def [symmetric] dl_def [symmetric] ql_def [symmetric] r q st1_def [symmetric]
      separate_operand_SIZ h if_P [OF c] store_set(1,3,4)
    by (simp add: separate_operand_SIZ h w split: prod.splits)
qed

section \<open>Rounding\<close>

lemma smod_bounds:
  assumes "(b :: int) \<noteq> 0"
  shows "\<bar>a smod b\<bar> < \<bar>b\<bar>" "0 \<le> a \<Longrightarrow> 0 \<le> a smod b" "a < 0 \<Longrightarrow> a smod b \<le> 0" "a = a sdiv b * b + a smod b"
proof -
  obtain N D where a: "a = with_sign (a < 0) N" and b: "b = with_sign (b < 0) D"
    using with_sign_of [of a "a < 0" "nat \<bar>a\<bar>"] with_sign_of [of b "b < 0" "nat \<bar>b\<bar>"] by (metis abs_ge_zero int_nat_eq)
  have r: "a smod b = with_sign (a < 0) (N mod D)" by (rule tdiv_signed(2) [OF a b])
  have "0 < D" using assms b by (metis with_sign_0 gr0I)
  then have "N mod D < D" by simp
  moreover have "\<bar>b\<bar> = int D" by (subst b) simp
  ultimately show "\<bar>a smod b\<bar> < \<bar>b\<bar>" unfolding r by simp
  show "0 \<le> a \<Longrightarrow> 0 \<le> a smod b" "a < 0 \<Longrightarrow> a smod b \<le> 0" unfolding r by (simp_all add: with_sign_def)
  show "a = a sdiv b * b + a smod b" using sdiv_smod_law [of a b] by simp
qed

lemma div_mod_int_unique:
  assumes "a = q * b + r" "(0 < b \<and> 0 \<le> r \<and> r < b) \<or> (b < 0 \<and> r \<le> 0 \<and> b < (r :: int))"
  shows "a div b = q" "a mod b = r"
proof -
  have e: "a = b * q + r" using assms(1) by (simp add: mult.commute)
  show "a div b = q" using assms(2) int_div_pos_eq [OF e] int_div_neg_eq [OF e] by blast
  show "a mod b = r" using assms(2) int_mod_pos_eq [OF e] int_mod_neg_eq [OF e] by blast
qed

lemma floor_from_trunc:
  assumes "(b :: int) \<noteq> 0"
  shows "a div b = (if (a < 0) \<noteq> (b < 0) \<and> a smod b \<noteq> 0 then a sdiv b - 1 else a sdiv b)"
    and "a mod b = (if (a < 0) \<noteq> (b < 0) \<and> a smod b \<noteq> 0 then a smod b + b else a smod b)"
proof -
  define q r where "q = a sdiv b" and "r = a smod b"
  have b: "b < 0 \<or> 0 < b" using assms by linarith
  note B = smod_bounds [OF assms, of a, folded q_def r_def]
  have n: "a = (q - 1) * b + (r + b)" using B(4) by (simp add: algebra_simps)
  have 1: "a div b = q - 1 \<and> a mod b = r + b" if "(a < 0) \<noteq> (b < 0) \<and> r \<noteq> 0"
    using div_mod_int_unique [OF n] B(1-3) that b by (cases "a < 0") auto
  have 2: "a div b = q \<and> a mod b = r" if "\<not> ((a < 0) \<noteq> (b < 0) \<and> r \<noteq> 0)"
    using div_mod_int_unique [OF B(4)] B(1-3) that b by (cases "a < 0"; cases "r = 0") auto
  show "a div b = (if (a < 0) \<noteq> (b < 0) \<and> a smod b \<noteq> 0 then a sdiv b - 1 else a sdiv b)"
    "a mod b = (if (a < 0) \<noteq> (b < 0) \<and> a smod b \<noteq> 0 then a smod b + b else a smod b)"
    using 1 2 unfolding q_def r_def by auto
qed

lemma ceiling_from_trunc:
  assumes "(b :: int) \<noteq> 0"
  shows "cdiv a b = (if (a < 0) = (b < 0) \<and> a smod b \<noteq> 0 then a sdiv b + 1 else a sdiv b)"
    and "cmod a b = (if (a < 0) = (b < 0) \<and> a smod b \<noteq> 0 then a smod b - b else a smod b)"
proof -
  define q r where "q = a sdiv b" and "r = a smod b"
  have b: "b < 0 \<or> 0 < b" using assms by linarith
  note B = smod_bounds [OF assms, of a, folded q_def r_def]
  have n: "- a = (- q - 1) * b + (b - r)" "- a = (- q) * b + (- r)" using B(4) by (simp_all add: algebra_simps)
  have 1: "- a div b = - q - 1 \<and> - a mod b = b - r" if "(a < 0) = (b < 0) \<and> r \<noteq> 0"
    using div_mod_int_unique [OF n(1)] B(1-3) that b by (cases "a < 0") auto
  have 2: "- a div b = - q \<and> - a mod b = - r" if "\<not> ((a < 0) = (b < 0) \<and> r \<noteq> 0)"
    using div_mod_int_unique [OF n(2)] B(1-3) that b by (cases "a < 0"; cases "r = 0") auto
  show "cdiv a b = (if (a < 0) = (b < 0) \<and> a smod b \<noteq> 0 then a sdiv b + 1 else a sdiv b)"
    "cmod a b = (if (a < 0) = (b < 0) \<and> a smod b \<noteq> 0 then a smod b - b else a smod b)"
    using 1 2 unfolding q_def r_def cdiv_def cmod_def by auto
qed

lemma mod_from_trunc:
  assumes "(b :: int) \<noteq> 0"
  shows "a mod \<bar>b\<bar> = (if a smod b \<noteq> 0 \<and> a < 0 then a smod b + \<bar>b\<bar> else a smod b)"
proof -
  define r where "r = a smod b"
  have b: "b < 0 \<or> 0 < b" using assms by linarith
  note B = smod_bounds [OF assms, of a, folded r_def]
  define q where "q = a sdiv b * sgn b"
  have "a sdiv b * b = q * \<bar>b\<bar>" unfolding q_def by (simp add: mult.assoc mult.commute [of "sgn b"] abs_mult_sgn mult_sgn_abs)
  then have n: "a = q * \<bar>b\<bar> + r" "a = (q - 1) * \<bar>b\<bar> + (r + \<bar>b\<bar>)" using B(4) by (simp_all add: algebra_simps)
  show ?thesis unfolding r_def [symmetric]
    using div_mod_int_unique(2) [OF n(1)] div_mod_int_unique(2) [OF n(2)] B(1-3) b by (cases "a < 0"; cases "r = 0") auto
qed

section \<open>Correction of the truncated division\<close>

lemma size_sign:
  assumes "store_ok st" "x \<in> live st"
  shows "SIZ st x < 0 \<longleftrightarrow> zval st x < 0" "SIZ st x = 0 \<longleftrightarrow> zval st x = 0"
  using zval_sgn [OF assms] by (auto simp: sgn_if split: if_splits)

lemma xor_sizes: "(s XOR t < (0 :: int)) \<longleftrightarrow> (s < 0) \<noteq> (t < 0)"
  using sign_cases(2) [of s t] by linarith

text \<open>With the divisor kept apart from the results, \<open>mpz_tdiv_qr\<close> leaves it for the correction.\<close>

lemma local_tdiv_qr:
  assumes ok: "store_ok st" and l: "quot \<in> live st" "rem \<in> live st" "quot \<noteq> rem" "num \<in> live st" "den \<in> live st" "t \<notin> live st"
    and d0: "zval st den \<noteq> 0" and small: "small_division st num den"
  defines "c \<equiv> (quot = den \<or> rem = den)"
  obtains d st1 st2 where "local_divisor c t den (SIZ st den) st = (d, st1)" "mpz_tdiv_qr quot rem num d st1 = Some (Inr st2)"
    "store_ok st2" "live st2 = (if c then insert t (live st) else live st)" "d \<in> live st2" "d \<noteq> quot" "d \<noteq> rem" "zval st2 d = zval st den"
    "updates2 st1 quot (zval st num sdiv zval st den) rem (zval st num smod zval st den) st2"
    "SIZ st1 num XOR SIZ st den < 0 \<longleftrightarrow> (zval st num < 0) \<noteq> (zval st den < 0)" "SIZ st2 rem = 0 \<longleftrightarrow> zval st num smod zval st den = 0"
    "\<And>y. y \<in> live st \<Longrightarrow> zval st1 y = zval st y" "live st1 = live st2"
proof -
  obtain d st1 where e: "local_divisor c t den (SIZ st den) st = (d, st1)" by fastforce
  have nz: "SIZ st den \<noteq> 0" using d0 size_sign(2) [OF ok l(5)] by simp
  note L = local_divisor_spec [OF ok l(6,5) nz e]
  have m: "quot \<in> live st1" "rem \<in> live st1" "num \<in> live st1" using L(2) l by auto
  have sm: "small_division st1 num d" using small L(6) [OF l(4)] L(7) by (simp add: ABSIZ_SIZ)
  have d1: "zval st1 d \<noteq> 0" using d0 L(4) by simp
  obtain st2 where t: "mpz_tdiv_qr quot rem num d st1 = Some (Inr st2)"
    "updates2 st1 quot (zval st num sdiv zval st den) rem (zval st num smod zval st den) st2"
    using mpz_tdiv_qr_spec [OF L(1) m(1,2) l(3) m(3) L(3) d1 sm] L(4,5) l(4) by auto
  have ne: "d \<noteq> quot" "d \<noteq> rem" using L(8) l unfolding c_def by (auto split: if_splits)
  have U: "store_ok st2" "live st2 = live st1" "zval st2 rem = zval st num smod zval st den" using t(2) by (simp_all add: updates2_def)
  have r2: "rem \<in> live st2" using U(2) m by simp
  have "zval st2 d = zval st den" using t(2) ne L(3,4) by (simp add: updates2_def)
  moreover have "SIZ st1 num XOR SIZ st den < 0 \<longleftrightarrow> (zval st num < 0) \<noteq> (zval st den < 0)"
    unfolding xor_sizes L(6) [OF l(4)] size_sign(1) [OF ok l(4)] size_sign(1) [OF ok l(5)] ..
  moreover have "SIZ st2 rem = 0 \<longleftrightarrow> zval st num smod zval st den = 0" using size_sign(2) [OF U(1) r2] U(3) by simp
  ultimately show thesis using that [OF e t(1) U(1) _ _ ne _ t(2)] U(2) L by simp
qed

lemma local_finish2:
  assumes "updates2 st1 quot k rem l st2" "live st1 = (if c then insert t (live st) else live st)" "t \<notin> live st"
    and "\<And>y. y \<in> live st \<Longrightarrow> zval st1 y = zval st y"
  shows "updates2 st quot k rem l (local_end c t st2)"
proof -
  have ok: "store_ok st2" using assms(1) by (simp add: updates2_def)
  show ?thesis using assms local_end_spec [OF ok, of c t] by (auto simp: updates2_def)
qed

text \<open>The second step: both results are corrected.\<close>

lemma correct2:
  assumes "updates2 st1 q k r l st2" "updates st2 q k' st3" "updates st3 r l' st4" "q \<in> live st1" "q \<noteq> r"
  shows "updates2 st1 q k' r l' st4"
  using assms by (auto simp: updates2_def updates_def)

theorem mpz_fdiv_qr_spec:
  assumes ok: "store_ok st" and l: "quot \<in> live st" "rem \<in> live st" "quot \<noteq> rem" "num \<in> live st" "den \<in> live st" "t \<notin> live st"
    and d0: "zval st den \<noteq> 0" and small: "small_division st num den"
  shows "\<exists>st'. mpz_fdiv_qr quot rem num den t st = Some (Inr st')
    \<and> updates2 st quot (zval st num div zval st den) rem (zval st num mod zval st den) st'"
proof -
  define c where "c \<longleftrightarrow> quot = den \<or> rem = den"
  obtain d st1 st2 where T: "local_divisor c t den (SIZ st den) st = (d, st1)" "mpz_tdiv_qr quot rem num d st1 = Some (Inr st2)"
    "store_ok st2" "live st2 = (if c then insert t (live st) else live st)" "d \<in> live st2" "d \<noteq> quot" "d \<noteq> rem" "zval st2 d = zval st den"
    "updates2 st1 quot (zval st num sdiv zval st den) rem (zval st num smod zval st den) st2"
    "SIZ st1 num XOR SIZ st den < 0 \<longleftrightarrow> (zval st num < 0) \<noteq> (zval st den < 0)" "SIZ st2 rem = 0 \<longleftrightarrow> zval st num smod zval st den = 0"
    "\<And>y. y \<in> live st \<Longrightarrow> zval st1 y = zval st y" "live st1 = live st2"
    by (rule local_tdiv_qr [OF ok l d0 small, folded c_def]) blast
  define st3 st4 where "st3 = mpz_sub_ui quot quot 1 st2" and "st4 = mpz_add rem rem d st3"
  have l2: "quot \<in> live st2" "rem \<in> live st2" using T(4) l by auto
  note U3 = mpz_sub_ui.contract [OF T(3) l2(1) l2(1), of 1, folded st3_def]
  have l3: "rem \<in> live st3" "d \<in> live st3" using updatesD(2) [OF U3] l2 T(5) by simp_all
  note U4 = mpz_add.contract [OF updatesD(1) [OF U3] l3(1) l3, folded st4_def]
  have v: "zval st2 quot = zval st num sdiv zval st den" "zval st2 rem = zval st num smod zval st den" using T(9) by (simp_all add: updates2_def)
  have v3: "zval st3 rem = zval st num smod zval st den" "zval st3 d = zval st den"
    using updatesD(4) [OF U3 l2(2)] updatesD(4) [OF U3 T(5)] l(3) T(6,8) v by auto
  have "quot \<in> live st1" using T(13) l2 by simp
  note C = correct2 [OF T(9) U3 U4 this l(3), unfolded v v3]
  have "updates2 st1 quot (zval st num div zval st den) rem (zval st num mod zval st den)
      (if SIZ st1 num XOR SIZ st den < 0 \<and> SIZ st2 rem \<noteq> 0 then st4 else st2)"
    unfolding floor_from_trunc [OF d0] T(10,11) using C T(9) by (cases "zval st num smod zval st den = 0") auto
  from local_finish2 [OF this _ l(6) T(12), of c]
  have "updates2 st quot (zval st num div zval st den) rem (zval st num mod zval st den)
      (local_end c t (if SIZ st1 num XOR SIZ st den < 0 \<and> SIZ st2 rem \<noteq> 0 then st4 else st2))" using T(4,13) by simp
  moreover have "mpz_fdiv_qr quot rem num den t st
      = Some (Inr (local_end c t (if SIZ st1 num XOR SIZ st den < 0 \<and> SIZ st2 rem \<noteq> 0 then st4 else st2)))"
    using T(1,2) by (simp add: mpz_fdiv_qr_def Let_def c_def [symmetric] st3_def st4_def)
  ultimately show ?thesis by blast
qed

theorem mpz_cdiv_qr_spec:
  assumes ok: "store_ok st" and l: "quot \<in> live st" "rem \<in> live st" "quot \<noteq> rem" "num \<in> live st" "den \<in> live st" "t \<notin> live st"
    and d0: "zval st den \<noteq> 0" and small: "small_division st num den"
  shows "\<exists>st'. mpz_cdiv_qr quot rem num den t st = Some (Inr st')
    \<and> updates2 st quot (cdiv (zval st num) (zval st den)) rem (cmod (zval st num) (zval st den)) st'"
proof -
  define c where "c \<longleftrightarrow> quot = den \<or> rem = den"
  obtain d st1 st2 where T: "local_divisor c t den (SIZ st den) st = (d, st1)" "mpz_tdiv_qr quot rem num d st1 = Some (Inr st2)"
    "store_ok st2" "live st2 = (if c then insert t (live st) else live st)" "d \<in> live st2" "d \<noteq> quot" "d \<noteq> rem" "zval st2 d = zval st den"
    "updates2 st1 quot (zval st num sdiv zval st den) rem (zval st num smod zval st den) st2"
    "SIZ st1 num XOR SIZ st den < 0 \<longleftrightarrow> (zval st num < 0) \<noteq> (zval st den < 0)" "SIZ st2 rem = 0 \<longleftrightarrow> zval st num smod zval st den = 0"
    "\<And>y. y \<in> live st \<Longrightarrow> zval st1 y = zval st y" "live st1 = live st2"
    by (rule local_tdiv_qr [OF ok l d0 small, folded c_def]) blast
  define st3 st4 where "st3 = mpz_add_ui quot quot 1 st2" and "st4 = mpz_sub rem rem d st3"
  have l2: "quot \<in> live st2" "rem \<in> live st2" using T(4) l by auto
  note U3 = mpz_add_ui.contract [OF T(3) l2(1) l2(1), of 1, folded st3_def]
  have l3: "rem \<in> live st3" "d \<in> live st3" using updatesD(2) [OF U3] l2 T(5) by simp_all
  note U4 = mpz_sub.contract [OF updatesD(1) [OF U3] l3(1) l3, folded st4_def]
  have v: "zval st2 quot = zval st num sdiv zval st den" "zval st2 rem = zval st num smod zval st den" using T(9) by (simp_all add: updates2_def)
  have v3: "zval st3 rem = zval st num smod zval st den" "zval st3 d = zval st den"
    using updatesD(4) [OF U3 l2(2)] updatesD(4) [OF U3 T(5)] l(3) T(6,8) v by auto
  have "quot \<in> live st1" using T(13) l2 by simp
  note C = correct2 [OF T(9) U3 U4 this l(3), unfolded v v3]
  have x: "SIZ st1 num XOR SIZ st den \<ge> 0 \<longleftrightarrow> (zval st num < 0) = (zval st den < 0)" using T(10) by linarith
  have "updates2 st1 quot (cdiv (zval st num) (zval st den)) rem (cmod (zval st num) (zval st den))
      (if SIZ st1 num XOR SIZ st den \<ge> 0 \<and> SIZ st2 rem \<noteq> 0 then st4 else st2)"
    unfolding ceiling_from_trunc [OF d0] x T(11) using C T(9) by (cases "zval st num smod zval st den = 0") auto
  from local_finish2 [OF this _ l(6) T(12), of c]
  have "updates2 st quot (cdiv (zval st num) (zval st den)) rem (cmod (zval st num) (zval st den))
      (local_end c t (if SIZ st1 num XOR SIZ st den \<ge> 0 \<and> SIZ st2 rem \<noteq> 0 then st4 else st2))" using T(4,13) by simp
  moreover have "mpz_cdiv_qr quot rem num den t st
      = Some (Inr (local_end c t (if SIZ st1 num XOR SIZ st den \<ge> 0 \<and> SIZ st2 rem \<noteq> 0 then st4 else st2)))"
    using T(1,2) by (simp add: mpz_cdiv_qr_def Let_def c_def [symmetric] st3_def st4_def)
  ultimately show ?thesis by blast
qed

subsection \<open>Quotients: the remainder is a local variable\<close>

lemma local_remainder:
  assumes ok: "store_ok st" and l: "quot \<in> live st" "num \<in> live st" "den \<in> live st" "t \<notin> live st"
    and d0: "zval st den \<noteq> 0" and small: "small_division st num den"
  obtains st2 where "mpz_tdiv_qr quot t num den (MPZ_TMP_INIT t (nat \<bar>SIZ st den\<bar>) st) = Some (Inr st2)"
    "updates2 (set_SIZ t 0 (MPZ_TMP_INIT t (nat \<bar>SIZ st den\<bar>) st)) quot (zval st num sdiv zval st den) t (zval st num smod zval st den) st2"
    "SIZ st2 t = 0 \<longleftrightarrow> zval st num smod zval st den = 0" "store_ok st2" "quot \<in> live st2" "zval st2 quot = zval st num sdiv zval st den"
proof -
  define n where "n = nat \<bar>SIZ st den\<bar>"
  define st1 where "st1 = set_SIZ t 0 (MPZ_TMP_INIT t n st)"
  have n: "1 \<le> n" using d0 size_sign(2) [OF ok l(3)] by (simp add: n_def)
  note I = tmp_init [OF ok l(4) n, folded st1_def]
  have m: "quot \<in> live st1" "t \<in> live st1" "num \<in> live st1" "den \<in> live st1" using I(2) l by simp_all
  have ne: "quot \<noteq> t" "t \<noteq> quot" "t \<noteq> num" "t \<noteq> den" using l by auto
  have e: "mpz_tdiv_qr quot t num den st1 = mpz_tdiv_qr quot t num den (MPZ_TMP_INIT t n st)"
    unfolding st1_def by (rule mpz_tdiv_qr_SIZ [OF ne(2-4)]) (simp add: n_def ABSIZ_SIZ)
  have sm: "small_division st1 num den" using small I(5) [OF l(2)] I(5) [OF l(3)] by (simp add: ABSIZ_SIZ)
  have d1: "zval st1 den \<noteq> 0" using d0 I(4) [OF l(3)] by simp
  obtain st2 where t: "mpz_tdiv_qr quot t num den st1 = Some (Inr st2)"
    "updates2 st1 quot (zval st num sdiv zval st den) t (zval st num smod zval st den) st2"
    using mpz_tdiv_qr_spec [OF I(1) m(1,2) ne(1) m(3,4) d1 sm] I(4) [OF l(2)] I(4) [OF l(3)] by auto
  have U: "store_ok st2" "live st2 = live st1" "zval st2 t = zval st num smod zval st den" "zval st2 quot = zval st num sdiv zval st den"
    using t(2) by (simp_all add: updates2_def)
  have t2: "t \<in> live st2" using U(2) m by simp
  show thesis
    by (rule that [of st2, folded n_def st1_def]) (use e t U m size_sign(2) [OF U(1) t2] in simp_all)
qed

lemma local_finish1:
  assumes "updates2 (set_SIZ t 0 (MPZ_TMP_INIT t n st)) quot k t l st2" "store_ok st" "t \<notin> live st" "1 \<le> n" "quot \<in> live st"
  shows "updates st quot k (TMP_FREE t st2)"
proof -
  note I = tmp_init [OF assms(2-4)]
  have ok: "store_ok st2" using assms(1) by (simp add: updates2_def)
  have "TMP_FREE t st2 = local_end True t st2" by (simp add: local_end_def)
  then show ?thesis using assms I(2,4) local_end_spec [OF ok, of True t] by (auto simp: updates2_def updates_def)
qed

lemma correct1:
  assumes "updates2 st1 q k r l st2" "updates st2 q k' st3" "q \<in> live st1" "r \<in> live st1" "q \<noteq> r"
  shows "updates2 st1 q k' r l st3"
  using assms by (auto simp: updates2_def updates_def)

theorem mpz_fdiv_q_spec:
  assumes ok: "store_ok st" and l: "quot \<in> live st" "num \<in> live st" "den \<in> live st" "t \<notin> live st"
    and d0: "zval st den \<noteq> 0" and small: "small_division st num den"
  shows "\<exists>st'. mpz_fdiv_q quot num den t st = Some (Inr st') \<and> updates st quot (zval st num div zval st den) st'"
proof -
  define n st1 where "n = nat \<bar>SIZ st den\<bar>" and "st1 = set_SIZ t 0 (MPZ_TMP_INIT t n st)"
  have n: "1 \<le> n" using d0 size_sign(2) [OF ok l(3)] by (simp add: n_def)
  obtain st2 where T: "mpz_tdiv_qr quot t num den (MPZ_TMP_INIT t n st) = Some (Inr st2)"
    "updates2 st1 quot (zval st num sdiv zval st den) t (zval st num smod zval st den) st2"
    "SIZ st2 t = 0 \<longleftrightarrow> zval st num smod zval st den = 0" "store_ok st2" "quot \<in> live st2" "zval st2 quot = zval st num sdiv zval st den"
    by (rule local_remainder [OF ok l d0 small, folded n_def, folded st1_def]) blast
  have x: "SIZ st den XOR SIZ st num < 0 \<longleftrightarrow> (zval st num < 0) \<noteq> (zval st den < 0)"
    unfolding xor_sizes size_sign(1) [OF ok l(2)] size_sign(1) [OF ok l(3)] by auto
  define st3 where "st3 = mpz_sub_ui quot quot 1 st2"
  note U3 = mpz_sub_ui.contract [OF T(4,5,5), of 1, folded st3_def, unfolded T(6)]
  have ql: "quot \<in> live st1" "t \<in> live st1" "quot \<noteq> t" using l by (auto simp: st1_def)
  note C = correct1 [OF T(2) U3 ql]
  have "updates2 st1 quot (zval st num div zval st den) t (zval st num smod zval st den)
      (if SIZ st den XOR SIZ st num < 0 \<and> SIZ st2 t \<noteq> 0 then st3 else st2)"
    unfolding floor_from_trunc(1) [OF d0] x T(3) using C T(2) by (cases "zval st num smod zval st den = 0") auto
  note U = local_finish1 [OF this [unfolded st1_def] ok l(4) n l(1)]
  have "mpz_fdiv_q quot num den t st = Some (Inr (TMP_FREE t (if SIZ st den XOR SIZ st num < 0 \<and> SIZ st2 t \<noteq> 0 then st3 else st2)))"
    using T(1) by (simp add: mpz_fdiv_q_def Let_def n_def [symmetric] st3_def)
  then show ?thesis using U by blast
qed

theorem mpz_cdiv_q_spec:
  assumes ok: "store_ok st" and l: "quot \<in> live st" "num \<in> live st" "den \<in> live st" "t \<notin> live st"
    and d0: "zval st den \<noteq> 0" and small: "small_division st num den"
  shows "\<exists>st'. mpz_cdiv_q quot num den t st = Some (Inr st') \<and> updates st quot (cdiv (zval st num) (zval st den)) st'"
proof -
  define n st1 where "n = nat \<bar>SIZ st den\<bar>" and "st1 = set_SIZ t 0 (MPZ_TMP_INIT t n st)"
  have n: "1 \<le> n" using d0 size_sign(2) [OF ok l(3)] by (simp add: n_def)
  obtain st2 where T: "mpz_tdiv_qr quot t num den (MPZ_TMP_INIT t n st) = Some (Inr st2)"
    "updates2 st1 quot (zval st num sdiv zval st den) t (zval st num smod zval st den) st2"
    "SIZ st2 t = 0 \<longleftrightarrow> zval st num smod zval st den = 0" "store_ok st2" "quot \<in> live st2" "zval st2 quot = zval st num sdiv zval st den"
    by (rule local_remainder [OF ok l d0 small, folded n_def, folded st1_def]) blast
  have x: "0 \<le> SIZ st den XOR SIZ st num \<longleftrightarrow> (zval st num < 0) = (zval st den < 0)"
    unfolding sign_cases(2) size_sign(1) [OF ok l(2)] size_sign(1) [OF ok l(3)] by auto
  define st3 where "st3 = mpz_add_ui quot quot 1 st2"
  note U3 = mpz_add_ui.contract [OF T(4,5,5), of 1, folded st3_def, unfolded T(6)]
  have ql: "quot \<in> live st1" "t \<in> live st1" "quot \<noteq> t" using l by (auto simp: st1_def)
  note C = correct1 [OF T(2) U3 ql]
  have "updates2 st1 quot (cdiv (zval st num) (zval st den)) t (zval st num smod zval st den)
      (if SIZ st den XOR SIZ st num \<ge> 0 \<and> SIZ st2 t \<noteq> 0 then st3 else st2)"
    unfolding ceiling_from_trunc(1) [OF d0] x T(3) using C T(2) by (cases "zval st num smod zval st den = 0") auto
  note U = local_finish1 [OF this [unfolded st1_def] ok l(4) n l(1)]
  have "mpz_cdiv_q quot num den t st = Some (Inr (TMP_FREE t (if SIZ st den XOR SIZ st num \<ge> 0 \<and> SIZ st2 t \<noteq> 0 then st3 else st2)))"
    using T(1) by (simp add: mpz_cdiv_q_def Let_def n_def [symmetric] st3_def)
  then show ?thesis using U by blast
qed

subsection \<open>Remainders\<close>

lemma local_tdiv_r:
  assumes ok: "store_ok st" and l: "rem \<in> live st" "num \<in> live st" "den \<in> live st" "t \<notin> live st"
    and d0: "zval st den \<noteq> 0" and small: "small_division st num den"
  obtains d st1 st2 where "local_divisor (rem = den) t den (SIZ st den) st = (d, st1)" "mpz_tdiv_r rem num d st1 = Some (Inr st2)"
    "store_ok st2" "live st2 = (if rem = den then insert t (live st) else live st)" "d \<in> live st2" "rem \<in> live st2" "zval st2 d = zval st den"
    "updates st1 rem (zval st num smod zval st den) st2" "SIZ st2 d < 0 \<longleftrightarrow> zval st den < 0"
    "SIZ st2 rem = 0 \<longleftrightarrow> zval st num smod zval st den = 0"
    "zval st num smod zval st den \<noteq> 0 \<Longrightarrow> SIZ st2 num < 0 \<longleftrightarrow> zval st num < 0"
    "\<And>y. y \<in> live st \<Longrightarrow> zval st1 y = zval st y" "live st1 = live st2"
proof -
  obtain d st1 where e: "local_divisor (rem = den) t den (SIZ st den) st = (d, st1)" by fastforce
  have nz: "SIZ st den \<noteq> 0" using d0 size_sign(2) [OF ok l(3)] by simp
  note L = local_divisor_spec [OF ok l(4,3) nz e]
  have m: "rem \<in> live st1" "num \<in> live st1" using L(2) l by auto
  have sm: "small_division st1 num d" using small L(6) [OF l(2)] L(7) by (simp add: ABSIZ_SIZ)
  have d1: "zval st1 d \<noteq> 0" using d0 L(4) by simp
  obtain st2 where t: "mpz_tdiv_r rem num d st1 = Some (Inr st2)" "updates st1 rem (zval st num smod zval st den) st2"
    using mpz_tdiv_r_spec [OF L(1) m(1,2) L(3) d1 sm] L(4,5) l(2) by auto
  have ne: "d \<noteq> rem" using L(8) l by (auto split: if_splits)
  note U = updatesD [OF t(2)]
  have l2: "rem \<in> live st2" "num \<in> live st2" "d \<in> live st2" using U(2) m L(3) by simp_all
  have zd: "zval st2 d = zval st den" using U(4) [OF L(3) ne] L(4) by simp
  have sn: "SIZ st2 num < 0 \<longleftrightarrow> zval st num < 0" if "zval st num smod zval st den \<noteq> 0"
  proof (cases "num = rem")
    case True
    have "zval st num smod zval st den < 0 \<longleftrightarrow> zval st num < 0"
      using smod_bounds(2,3) [OF d0, of "zval st num"] that by linarith
    then show ?thesis unfolding size_sign(1) [OF U(1) l2(2)] using U(3) True by simp
  next
    case False
    then show ?thesis unfolding size_sign(1) [OF U(1) l2(2)] using U(4) [OF m(2)] L(5) [OF l(2)] by simp
  qed
  show thesis
    by (rule that [OF e t(1) U(1) _ l2(3,1) zd t(2) _ _ sn L(5)])
      (use U(2,3) L(2) zd size_sign(1) [OF U(1) l2(3)] size_sign(2) [OF U(1) l2(1)] in auto)
qed

lemma local_finish:
  assumes "updates st1 rem k st2" "live st1 = (if c then insert t (live st) else live st)" "t \<notin> live st"
    and "\<And>y. y \<in> live st \<Longrightarrow> zval st1 y = zval st y"
  shows "updates st rem k (local_end c t st2)"
  using assms local_end_spec [OF updatesD(1) [OF assms(1)], of c t] by (auto simp: updates_def)

theorem mpz_fdiv_r_spec:
  assumes ok: "store_ok st" and l: "rem \<in> live st" "num \<in> live st" "den \<in> live st" "t \<notin> live st"
    and d0: "zval st den \<noteq> 0" and small: "small_division st num den"
  shows "\<exists>st'. mpz_fdiv_r rem num den t st = Some (Inr st') \<and> updates st rem (zval st num mod zval st den) st'"
proof -
  obtain d st1 st2 where T: "local_divisor (rem = den) t den (SIZ st den) st = (d, st1)" "mpz_tdiv_r rem num d st1 = Some (Inr st2)"
    "store_ok st2" "live st2 = (if rem = den then insert t (live st) else live st)" "d \<in> live st2" "rem \<in> live st2" "zval st2 d = zval st den"
    "updates st1 rem (zval st num smod zval st den) st2" "SIZ st2 rem = 0 \<longleftrightarrow> zval st num smod zval st den = 0"
    "zval st num smod zval st den \<noteq> 0 \<Longrightarrow> SIZ st2 num < 0 \<longleftrightarrow> zval st num < 0"
    "\<And>y. y \<in> live st \<Longrightarrow> zval st1 y = zval st y" "live st1 = live st2"
    by (rule local_tdiv_r [OF ok l d0 small]) blast
  define st3 where "st3 = mpz_add rem rem d st2"
  note U3 = mpz_add.contract [OF T(3,6,6,5), folded st3_def, unfolded updatesD(3) [OF T(8)] T(7)]
  have "updates st1 rem (zval st num mod zval st den) (if SIZ st den XOR SIZ st2 num < 0 \<and> SIZ st2 rem \<noteq> 0 then st3 else st2)"
    unfolding floor_from_trunc(2) [OF d0] xor_sizes T(9) size_sign(1) [OF ok l(3)]
    using updates_trans [OF T(8) U3] T(8,10) by (cases "zval st num smod zval st den = 0") auto
  from local_finish [where c = "rem = den", OF this _ l(4) T(11)] T(4,12)
  have U: "updates st rem (zval st num mod zval st den) (local_end (rem = den) t (if SIZ st den XOR SIZ st2 num < 0 \<and> SIZ st2 rem \<noteq> 0 then st3 else st2))" by simp
  have "mpz_fdiv_r rem num den t st = Some (Inr (local_end (rem = den) t (if SIZ st den XOR SIZ st2 num < 0 \<and> SIZ st2 rem \<noteq> 0 then st3 else st2)))"
    using T(1,2) by (simp add: mpz_fdiv_r_def Let_def st3_def)
  then show ?thesis using U by blast
qed

theorem mpz_cdiv_r_spec:
  assumes ok: "store_ok st" and l: "rem \<in> live st" "num \<in> live st" "den \<in> live st" "t \<notin> live st"
    and d0: "zval st den \<noteq> 0" and small: "small_division st num den"
  shows "\<exists>st'. mpz_cdiv_r rem num den t st = Some (Inr st') \<and> updates st rem (cmod (zval st num) (zval st den)) st'"
proof -
  obtain d st1 st2 where T: "local_divisor (rem = den) t den (SIZ st den) st = (d, st1)" "mpz_tdiv_r rem num d st1 = Some (Inr st2)"
    "store_ok st2" "live st2 = (if rem = den then insert t (live st) else live st)" "d \<in> live st2" "rem \<in> live st2" "zval st2 d = zval st den"
    "updates st1 rem (zval st num smod zval st den) st2" "SIZ st2 rem = 0 \<longleftrightarrow> zval st num smod zval st den = 0"
    "zval st num smod zval st den \<noteq> 0 \<Longrightarrow> SIZ st2 num < 0 \<longleftrightarrow> zval st num < 0"
    "\<And>y. y \<in> live st \<Longrightarrow> zval st1 y = zval st y" "live st1 = live st2"
    by (rule local_tdiv_r [OF ok l d0 small]) blast
  define st3 where "st3 = mpz_sub rem rem d st2"
  note U3 = mpz_sub.contract [OF T(3,6,6,5), folded st3_def, unfolded updatesD(3) [OF T(8)] T(7)]
  have "updates st1 rem (cmod (zval st num) (zval st den)) (if SIZ st den XOR SIZ st2 num \<ge> 0 \<and> SIZ st2 rem \<noteq> 0 then st3 else st2)"
    unfolding ceiling_from_trunc(2) [OF d0] sign_cases(2) T(9) size_sign(1) [OF ok l(3)]
    using updates_trans [OF T(8) U3] T(8,10) by (cases "zval st num smod zval st den = 0") auto
  from local_finish [where c = "rem = den", OF this _ l(4) T(11)] T(4,12)
  have U: "updates st rem (cmod (zval st num) (zval st den)) (local_end (rem = den) t (if SIZ st den XOR SIZ st2 num \<ge> 0 \<and> SIZ st2 rem \<noteq> 0 then st3 else st2))" by simp
  have "mpz_cdiv_r rem num den t st = Some (Inr (local_end (rem = den) t (if SIZ st den XOR SIZ st2 num \<ge> 0 \<and> SIZ st2 rem \<noteq> 0 then st3 else st2)))"
    using T(1,2) by (simp add: mpz_cdiv_r_def Let_def st3_def)
  then show ?thesis using U by blast
qed

theorem mpz_mod_spec:
  assumes ok: "store_ok st" and l: "rem \<in> live st" "num \<in> live st" "den \<in> live st" "t \<notin> live st"
    and d0: "zval st den \<noteq> 0" and small: "small_division st num den"
  shows "\<exists>st'. mpz_mod rem num den t st = Some (Inr st') \<and> updates st rem (zval st num mod \<bar>zval st den\<bar>) st'"
proof -
  obtain d st1 st2 where T: "local_divisor (rem = den) t den (SIZ st den) st = (d, st1)" "mpz_tdiv_r rem num d st1 = Some (Inr st2)"
    "store_ok st2" "live st2 = (if rem = den then insert t (live st) else live st)" "d \<in> live st2" "rem \<in> live st2" "zval st2 d = zval st den"
    "updates st1 rem (zval st num smod zval st den) st2" "SIZ st2 d < 0 \<longleftrightarrow> zval st den < 0" "SIZ st2 rem = 0 \<longleftrightarrow> zval st num smod zval st den = 0"
    "zval st num smod zval st den \<noteq> 0 \<Longrightarrow> SIZ st2 num < 0 \<longleftrightarrow> zval st num < 0"
    "\<And>y. y \<in> live st \<Longrightarrow> zval st1 y = zval st y" "live st1 = live st2"
    by (rule local_tdiv_r [OF ok l d0 small]) blast
  define st3 where "st3 = (if SIZ st2 d < 0 then mpz_sub rem rem d st2 else mpz_add rem rem d st2)"
  have "updates st2 rem (zval st num smod zval st den + \<bar>zval st den\<bar>) st3"
    using mpz_sub.contract [OF T(3,6,6,5)] mpz_add.contract [OF T(3,6,6,5)] unfolding updatesD(3) [OF T(8)] T(7) st3_def T(9) by auto
  note U3 = updates_trans [OF T(8) this]
  have "updates st1 rem (zval st num mod \<bar>zval st den\<bar>) (if SIZ st2 rem \<noteq> 0 then if SIZ st2 num < 0 then st3 else st2 else st2)"
    unfolding mod_from_trunc [OF d0] T(10) using U3 T(8,11) by (cases "zval st num smod zval st den = 0") auto
  from local_finish [where c = "rem = den", OF this _ l(4) T(12)] T(4,13)
  have U: "updates st rem (zval st num mod \<bar>zval st den\<bar>) (local_end (rem = den) t (if SIZ st2 rem \<noteq> 0 then if SIZ st2 num < 0 then st3 else st2 else st2))" by simp
  have "mpz_mod rem num den t st = Some (Inr (local_end (rem = den) t (if SIZ st2 rem \<noteq> 0 then if SIZ st2 num < 0 then st3 else st2 else st2)))"
    using T(1,2) by (simp add: mpz_mod_def Let_def st3_def)
  then show ?thesis using U by blast
qed

section \<open>The contracts\<close>

lemma tdiv_by_zero: "SIZ st den = 0 \<Longrightarrow> mpz_tdiv_qr q r num den st = Some DIVIDE_BY_ZERO"
  "SIZ st den = 0 \<Longrightarrow> mpz_tdiv_q q num den st = Some DIVIDE_BY_ZERO" "SIZ st den = 0 \<Longrightarrow> mpz_tdiv_r r num den st = Some DIVIDE_BY_ZERO"
  by (simp_all add: mpz_tdiv_qr_def mpz_tdiv_q_def mpz_tdiv_r_def)

lemma map_DIVIDE_BY_ZERO [simp]: "map_sum id f DIVIDE_BY_ZERO = DIVIDE_BY_ZERO"
  by (simp add: DIVIDE_BY_ZERO_def)

lemma div_by_zero:
  assumes "SIZ st den = 0" "t \<noteq> den"
  shows "mpz_fdiv_qr q r num den t st = Some DIVIDE_BY_ZERO" "mpz_cdiv_qr q r num den t st = Some DIVIDE_BY_ZERO"
    "mpz_fdiv_q q num den t st = Some DIVIDE_BY_ZERO" "mpz_cdiv_q q num den t st = Some DIVIDE_BY_ZERO"
    "mpz_fdiv_r r num den t st = Some DIVIDE_BY_ZERO" "mpz_cdiv_r r num den t st = Some DIVIDE_BY_ZERO" "mpz_mod r num den t st = Some DIVIDE_BY_ZERO"
proof -
  have z: "\<exists>d st'. local_divisor c t den (SIZ st den) st = (d, st') \<and> SIZ st' d = 0" for c
    using local_divisor_zero [OF assms(1) _ assms(2)] by (cases "local_divisor c t den (SIZ st den) st") auto
  show "mpz_fdiv_qr q r num den t st = Some DIVIDE_BY_ZERO" "mpz_cdiv_qr q r num den t st = Some DIVIDE_BY_ZERO"
    using z [of "q = den \<or> r = den"] by (auto simp: mpz_fdiv_qr_def mpz_cdiv_qr_def Let_def tdiv_by_zero)
  show "mpz_fdiv_q q num den t st = Some DIVIDE_BY_ZERO" "mpz_cdiv_q q num den t st = Some DIVIDE_BY_ZERO"
    using assms(1) by (simp_all add: mpz_fdiv_q_def mpz_cdiv_q_def Let_def tdiv_by_zero)
  show "mpz_fdiv_r r num den t st = Some DIVIDE_BY_ZERO" "mpz_cdiv_r r num den t st = Some DIVIDE_BY_ZERO" "mpz_mod r num den t st = Some DIVIDE_BY_ZERO"
    using z [of "r = den"] by (auto simp: mpz_fdiv_r_def mpz_cdiv_r_def mpz_mod_def Let_def tdiv_by_zero)
qed

text \<open>A division with two results, of quotient \<open>f\<close> and remainder \<open>g\<close>; \<open>t\<close> is its local variable.\<close>

locale mpz_division =
  fixes opr :: "var \<Rightarrow> var \<Rightarrow> var \<Rightarrow> var \<Rightarrow> var \<Rightarrow> state \<Rightarrow> (gmp_error + state) option"
    and f :: "int \<Rightarrow> int \<Rightarrow> int" and g :: "int \<Rightarrow> int \<Rightarrow> int"
  assumes by_zero: "SIZ st den = 0 \<Longrightarrow> t \<noteq> den \<Longrightarrow> opr quot rem num den t st = Some DIVIDE_BY_ZERO"
    and contract: "store_ok st \<Longrightarrow> quot \<in> live st \<Longrightarrow> rem \<in> live st \<Longrightarrow> quot \<noteq> rem \<Longrightarrow> num \<in> live st \<Longrightarrow> den \<in> live st \<Longrightarrow> t \<notin> live st \<Longrightarrow>
      zval st den \<noteq> 0 \<Longrightarrow> small_division st num den \<Longrightarrow>
      \<exists>st'. opr quot rem num den t st = Some (Inr st') \<and> updates2 st quot (f (zval st num) (zval st den)) rem (g (zval st num) (zval st den)) st'"
    and law: "b \<noteq> 0 \<Longrightarrow> f a b * b + g a b = a"
begin

lemma returns:
  assumes "store_ok st" "quot \<in> live st" "rem \<in> live st" "quot \<noteq> rem" "num \<in> live st" "den \<in> live st" "t \<notin> live st" "small_division st num den"
  shows "opr quot rem num den t st = Some (Inl e) \<longleftrightarrow> zval st den = 0 \<and> e = GMP_ERROR_DIVISION_BY_ZERO"
proof (cases "zval st den = 0")
  case True
  moreover have "t \<noteq> den" using assms(6,7) by auto
  ultimately show ?thesis using by_zero size_sign(2) [OF assms(1,6)] by (auto simp: DIVIDE_BY_ZERO_def)
next
  case False
  then show ?thesis using contract [OF assms(1-7) False assms(8)] by auto
qed

lemma outcome:
  assumes "store_ok st" "q \<in> live st" "x \<in> live st" "q \<noteq> x" "u \<in> live st" "v \<in> live st" "t \<notin> live st" "zval st v \<noteq> 0 \<Longrightarrow> small_division st u v"
  shows "if zval st v = 0 then opr q x u v t st = Some DIVIDE_BY_ZERO
    else \<exists>st'. opr q x u v t st = Some (Inr st') \<and> updates2 st q (f (zval st u) (zval st v)) x (g (zval st u) (zval st v)) st'"
proof (cases "zval st v = 0")
  case True
  moreover have "t \<noteq> v" using assms(6,7) by auto
  ultimately show ?thesis using by_zero size_sign(2) [OF assms(1,6)] by simp
next
  case False
  then show ?thesis using contract [OF assms(1-7) False] assms(8) by simp
qed

lemma recompose:
  assumes "store_ok st" "quot \<in> live st" "rem \<in> live st" "quot \<noteq> rem" "num \<in> live st" "den \<in> live st" "t \<notin> live st"
    "zval st den \<noteq> 0" "small_division st num den"
  shows "\<exists>st'. opr quot rem num den t st = Some (Inr st') \<and> zval st' quot * zval st den + zval st' rem = zval st num"
  using contract [OF assms] law [OF assms(8)] by (fastforce simp: updates2_def)

end

interpretation mpz_tdiv_qr: mpz_division "\<lambda>q r n d t. mpz_tdiv_qr q r n d" "(sdiv)" "(smod)"
  using mpz_tdiv_qr_spec by unfold_locales (simp_all add: tdiv_by_zero sdiv_smod_law)

interpretation mpz_fdiv_qr: mpz_division mpz_fdiv_qr "(div)" "(mod)"
  using mpz_fdiv_qr_spec by unfold_locales (simp_all add: div_by_zero)

interpretation mpz_cdiv_qr: mpz_division mpz_cdiv_qr cdiv cmod
  using mpz_cdiv_qr_spec by unfold_locales (simp_all add: div_by_zero cdiv_cmod)

text \<open>A division with one result.\<close>

locale mpz_division1 =
  fixes opr :: "var \<Rightarrow> var \<Rightarrow> var \<Rightarrow> var \<Rightarrow> state \<Rightarrow> (gmp_error + state) option" and f :: "int \<Rightarrow> int \<Rightarrow> int"
  assumes by_zero: "SIZ st den = 0 \<Longrightarrow> t \<noteq> den \<Longrightarrow> opr w num den t st = Some DIVIDE_BY_ZERO"
    and contract: "store_ok st \<Longrightarrow> w \<in> live st \<Longrightarrow> num \<in> live st \<Longrightarrow> den \<in> live st \<Longrightarrow> t \<notin> live st \<Longrightarrow> zval st den \<noteq> 0 \<Longrightarrow> small_division st num den \<Longrightarrow>
      \<exists>st'. opr w num den t st = Some (Inr st') \<and> updates st w (f (zval st num) (zval st den)) st'"
begin

lemma outcome:
  assumes "store_ok st" "w \<in> live st" "num \<in> live st" "den \<in> live st" "t \<notin> live st"
    "zval st den \<noteq> 0 \<Longrightarrow> small_division st num den"
  shows "if zval st den = 0 then opr w num den t st = Some DIVIDE_BY_ZERO
    else \<exists>st'. opr w num den t st = Some (Inr st') \<and> updates st w (f (zval st num) (zval st den)) st'"
proof (cases "zval st den = 0")
  case True
  moreover have "t \<noteq> den" using assms(4,5) by auto
  ultimately show ?thesis using by_zero size_sign(2) [OF assms(1,4)] by simp
next
  case False
  then show ?thesis using contract [OF assms(1-5) False] assms(6) by simp
qed

end

interpretation mpz_tdiv_q: mpz_division1 "\<lambda>q n d t. mpz_tdiv_q q n d" "(sdiv)"
  using mpz_tdiv_q_spec by unfold_locales (simp_all add: tdiv_by_zero)

interpretation mpz_tdiv_r: mpz_division1 "\<lambda>r n d t. mpz_tdiv_r r n d" "(smod)"
  using mpz_tdiv_r_spec by unfold_locales (simp_all add: tdiv_by_zero)

interpretation mpz_fdiv_q: mpz_division1 mpz_fdiv_q "(div)"
  using mpz_fdiv_q_spec by unfold_locales (simp_all add: div_by_zero)

interpretation mpz_cdiv_q: mpz_division1 mpz_cdiv_q cdiv
  using mpz_cdiv_q_spec by unfold_locales (simp_all add: div_by_zero)

interpretation mpz_fdiv_r: mpz_division1 mpz_fdiv_r "(mod)"
  using mpz_fdiv_r_spec by unfold_locales (simp_all add: div_by_zero)

interpretation mpz_cdiv_r: mpz_division1 mpz_cdiv_r cmod
  using mpz_cdiv_r_spec by unfold_locales (simp_all add: div_by_zero)

interpretation mpz_mod: mpz_division1 mpz_mod "\<lambda>a b. a mod \<bar>b\<bar>"
  using mpz_mod_spec by unfold_locales (simp_all add: div_by_zero)

end
