(* ===== verification/Mpz_PowmUi.thy ===== *)
theory Mpz_PowmUi
  imports Mpn_PowmUi Mpz_Div
begin

text \<open>
  Modular exponentiation with an exponent of one limb, \<open>mpz/powm_ui.c\<close>, and the steps it shares with \<open>mpz/powm.c\<close>:
  the normalized copy of the modulus, the exponent zero, and storing the result.  The temporary blocks are taken from
  \<open>brk\<close> on and only the result is written below it.
\<close>

unbundle bit_operations_syntax

section \<open>The functions\<close>

text \<open>The modulus shifted left until its top bit is set, in a temporary block unless nothing is to be shifted.\<close>

definition normalize_modulus :: "ptr \<Rightarrow> nat \<Rightarrow> state \<Rightarrow> nat \<times> ptr \<times> state" where
  "normalize_modulus mp mn st =
     (let m_zero_cnt = unat (count_leading_zeros (heap st (mp + (mn - 1))))
      in if m_zero_cnt \<noteq> 0
         then (let (new_mp, st) = ALLOCATE_FUNC_LIMBS mn st;
                   (_, h) = mpn_lshift new_mp mp mn m_zero_cnt (heap st)
               in (m_zero_cnt, new_mp, set_heap h st))
         else (m_zero_cnt, mp, st))"

text \<open>Exponent 0: the result is 1, or 0 modulo 1.\<close>

definition powm_one :: "var \<Rightarrow> ptr \<Rightarrow> nat \<Rightarrow> state \<Rightarrow> state" where
  "powm_one r mp mn st =
     (let st = set_SIZ r (if mn = 1 \<and> heap st mp = 1 then 0 else 1) st
      in set_heap ((heap st)(PTR st r := 1)) st)"

text \<open>The end of both functions: a negative base with an odd exponent (\<open>neg\<close>) gives the difference to the modulus, and
  the limbs at \<open>xp\<close> are copied to the result.\<close>

definition powm_result :: "bool \<Rightarrow> var \<Rightarrow> ptr \<Rightarrow> nat \<Rightarrow> ptr \<Rightarrow> nat \<Rightarrow> state \<Rightarrow> state" where
  "powm_result neg r xp xn mp mn st =
     (let xn = MPN_NORMALIZE (heap st) xp xn;
          (xn, st) =
            (if neg \<and> xn \<noteq> 0
             then (let (_, h) = mpn_sub xp mp mn xp xn (heap st)
                   in (MPN_NORMALIZE h xp mn, set_heap h st))
             else (xn, st));
          st = MPZ_REALLOC r xn st;
          st = set_SIZ r (int xn) st
      in set_heap (MPN_COPY (PTR st r) xp xn (heap st)) st)"

definition powm_ui_base :: "ptr \<Rightarrow> nat \<Rightarrow> ptr \<Rightarrow> nat \<Rightarrow> state \<Rightarrow> (ptr \<times> nat \<times> state) option" where
  "powm_ui_base bp bn mp mn st =
     (if bn > mn
      then (let (new_bp, st) = ALLOCATE_FUNC_LIMBS mn st
            in do {
              h \<leftarrow> reduce new_bp bp bn mp mn (brk st) (heap st);
              Some (new_bp, MPN_NORMALIZE h new_bp mn, set_heap h st)
            })
      else Some (bp, bn, st))"

definition mpz_powm_ui :: "var \<Rightarrow> var \<Rightarrow> limb \<Rightarrow> var \<Rightarrow> state \<Rightarrow> (gmp_error + state) option" where
  "mpz_powm_ui r b el m st =
     (let mp = PTR st m;
          mn = ABSIZ st m
      in if mn = 0 then Some DIVIDE_BY_ZERO
         else if el = 0 then Some (Inr (powm_one r mp mn st))
         else let (m_zero_cnt, mp, st) = normalize_modulus mp mn st;
                  bn = ABSIZ st b;
                  bp = PTR st b
              in do {
                (bp, bn, st) \<leftarrow> powm_ui_base bp bn mp mn st;
                if bn = 0 then Some (Inr (set_SIZ r 0 st))
                else let (tp, st) = ALLOCATE_FUNC_LIMBS (2 * mn + 1) st;
                         (xp, st) = ALLOCATE_FUNC_LIMBS mn st;
                         (qp, st) = ALLOCATE_FUNC_LIMBS (mn + 1) st;
                         L = \<lparr>L_redc = False, L_mp = mp, L_mn = mn, L_invm = 0, L_tp = tp, L_qp = qp, L_fp = brk st\<rparr>;
                         h = MPN_COPY xp bp bn (heap st);
                         xn = bn;
                         c = unat (count_leading_zeros el);
                         e = push_bit 1 (push_bit c el);
                         c = 32 - 1 - c
                     in do {
                       (xn, h) \<leftarrow>
                         (if c = 0
                          then Some (xn, if xn = mn \<and> mpn_cmp h xp mp mn \<ge> 0 then snd (mpn_sub_n xp xp mp mn h) else h)
                          else powm_ui_loop L c e xp xn bp bn h);
                       (xn, h) \<leftarrow> powm_ui_unshift L m_zero_cnt xp xn h;
                       Some (Inr (powm_result (el AND 1 \<noteq> 0 \<and> SIZ st b < 0) r xp xn (PTR st m) mn (set_heap h st)))
                     }
              })"

section \<open>Results in temporary memory\<close>

lemma powm_one_spec:
  assumes ok: "store_ok st" and r: "r \<in> live st" and m: "m \<in> live st" and nz: "SIZ st m \<noteq> 0"
  shows "updates st r (1 mod \<bar>zval st m\<bar>) (powm_one r (PTR st m) (ABSIZ st m) st)"
proof -
  define one where "one \<longleftrightarrow> ABSIZ st m = 1 \<and> heap st (PTR st m) = 1"
  define h where "h = (heap st)(PTR st r := 1)"
  have e: "powm_one r (PTR st m) (ABSIZ st m) st = set_SIZ r (with_sign False (if one then 0 else 1)) (set_heap h st)"
    unfolding powm_one_def Let_def one_def [symmetric] store_set h_def [symmetric] heap_SIZ_swap by (simp add: with_sign_def)
  have f: "only_in (PTR st r) (ALLOC st r) (heap st) h" using ALLOC_pos [OF ok r] by (simp add: h_def)
  have U: "updates st r (with_sign False (mval h (PTR st r) (if one then 0 else 1))) (set_SIZ r (with_sign False (if one then 0 else 1)) (set_heap h st))"
    by (rule result_sized [OF ok r f]) (use ALLOC_pos [OF ok r] in \<open>auto simp: h_def\<close>)
  have "1 mod \<bar>zval st m\<bar> = (if one then 0 else 1)"
  proof (cases "ABSIZ st m = 1")
    case True
    define A where "A = unat (heap st (PTR st m))"
    have z: "\<bar>zval st m\<bar> = int A" using zval_abs [OF ok m] True by (simp add: A_def)
    have "A \<noteq> 0" using wf_ok [OF ok m] nz True by (simp add: A_def mpz_ok_def unat_eq_0)
    then have e: "1 mod int A = int (if A = 1 then 0 else 1)" by (cases "A = 1") (simp_all add: mod_pos_pos_trivial)
    have "one \<longleftrightarrow> A = 1" using True by (auto simp: one_def A_def limb_eq_iff)
    then show ?thesis unfolding z e by simp
  next
    case False
    then have "2 \<le> ABSIZ st m" using nz by (metis ABSIZ_0_iff One_nat_def Suc_leI less_2_cases not_le numeral_2_eq_2)
    then have "LB ^ 1 \<le> LB ^ (ABSIZ st m - 1)" by (intro power_increasing) simp_all
    also have "\<dots> \<le> mval (heap st) (PTR st m) (ABSIZ st m)" by (rule mval_ABSIZ_ge [OF ok m nz])
    finally have "1 < mval (heap st) (PTR st m) (ABSIZ st m)" using LB_gt(2) unfolding power_one_right by linarith
    then have "1 < \<bar>zval st m\<bar>" unfolding zval_abs [OF ok m] by simp
    then show ?thesis using False by (simp add: one_def)
  qed
  moreover have "with_sign False (mval h (PTR st r) (if one then 0 else 1)) = (if one then 0 else 1)" by (simp add: with_sign_def h_def)
  ultimately show ?thesis using U unfolding e by simp
qed

text \<open>The limbs of a temporary block become the value of \<open>r\<close>.\<close>

lemma store_limbs:
  assumes ok: "store_ok st" and r: "r \<in> live st" and x: "PTR st r + ALLOC st r \<le> xp" "xp + xn \<le> brk st" "xn = 0 \<or> heap st (xp + xn - 1) \<noteq> 0"
  defines "st1 \<equiv> set_SIZ r (int xn) (MPZ_REALLOC r xn st)"
  shows "updates st r (int (mval (heap st) xp xn)) (set_heap (MPN_COPY (PTR st1 r) xp xn (heap st1)) st1)"
proof -
  define st2 where "st2 = MPZ_REALLOC r xn st"
  note R = MPZ_REALLOC_spec [OF ok r, where n = xn, folded st2_def]
  have r2: "r \<in> live st2" using R(2) r by simp
  have keep: "heap st2 (xp + i) = heap st (xp + i)" if "i < xn" for i
    using that x(2) by (auto simp: st2_def MPZ_REALLOC_def mpz_realloc_struct mcopy_def)
  have sep: "MPN_SAME_OR_SEPARATE_P (PTR st2 r) xp xn"
    using x(1,2) R(3) by (auto simp: st2_def MPZ_REALLOC_def mpz_realloc_struct overlap_defs)
  define h where "h = MPN_COPY (PTR st2 r) xp xn (heap st2)"
  have h: "h = mcopy (PTR st2 r) xp xn (heap st2)" unfolding h_def by (rule MPN_COPY_spec [OF sep])
  have f: "only_in (PTR st2 r) (ALLOC st2 r) (heap st2) h" unfolding h by (rule only_in_mono [OF only_in_mcopy]) (use R(3) in auto)
  have top: "xn = 0 \<or> h (PTR st2 r + xn - 1) \<noteq> 0"
  proof (cases xn)
    case (Suc k)
    then show ?thesis using x(3) keep [of k] mcopy_nth [of k xn "PTR st2 r" xp "heap st2"] by (simp add: h)
  qed simp
  have v: "mval h (PTR st2 r) xn = mval (heap st) xp xn" unfolding h by (simp add: mval_cong [of xn "heap st2" xp "heap st" xp, OF keep])
  have "updates st2 r (with_sign False (mval h (PTR st2 r) xn)) (set_SIZ r (with_sign False xn) (set_heap h st2))"
    by (rule result_sized [OF R(1) r2 f R(3) top])
  moreover have "set_SIZ r (with_sign False xn) (set_heap h st2) = set_heap (MPN_COPY (PTR st1 r) xp xn (heap st1)) st1"
    unfolding st1_def st2_def [symmetric] store_set h_def [symmetric] by (simp add: heap_SIZ_swap with_sign_def)
  ultimately show ?thesis using updates_realloc [OF ok r, where n = xn, folded st2_def] unfolding v by (simp add: with_sign_def)
qed


text \<open>The sign: \<open>X\<close> modulo \<open>M\<close>, or \<open>- X\<close> modulo \<open>M\<close>.\<close>

lemma powm_result_spec:
  fixes b :: nat and xp mp xn mn :: nat
  assumes ok: "store_ok st" and r: "r \<in> live st" and m: "m \<in> live st" and h: "\<And>a. a < brk st \<Longrightarrow> h a = heap st a" and b: "brk st \<le> b"
    and x: "brk st \<le> xp" "xp + mn \<le> b" "xn \<le> mn" and mp: "mp = PTR st m" "mn = ABSIZ st m"
    and M: "M = mval (heap st) mp mn" "mval h xp xn = X mod M"
  shows "updates st r ((if neg then - int X else int X) mod int M) (powm_result neg r xp xn mp mn (st\<lparr>heap := h, brk := b\<rparr>))"
proof -
  define st1 where "st1 = st\<lparr>heap := h, brk := b\<rparr>"
  have mb: "mp + mn \<le> brk st" using wf_ok [OF ok m] by (simp add: mpz_ok_def mp)
  define k where "k = MPN_NORMALIZE h xp xn"
  have k: "k \<le> xn" "k = 0 \<or> h (xp + k - 1) \<noteq> 0" "mval h xp k = X mod M" "k = 0 \<longleftrightarrow> X mod M = 0"
    using MPN_NORMALIZE_le [of h xp xn] MPN_NORMALIZE_top [of h xp xn] MPN_NORMALIZE_mval [of h xp xn] MPN_NORMALIZE_0_iff [of h xp xn]
    unfolding M(2) k_def [symmetric] by blast+
  obtain c h1 where s: "mpn_sub xp mp mn xp k h = (c, h1)" by fastforce
  define h2 j where "h2 = (if neg \<and> k \<noteq> 0 then h1 else h)" and "j = (if neg \<and> k \<noteq> 0 then MPN_NORMALIZE h1 xp mn else k)"
  have hM: "mval h mp mn = M" unfolding M(1) by (rule mval_cong) (use h mb in simp)
  have Mpos: "X mod M < M" if "k \<noteq> 0"
  proof (cases "M = 0")
    case True
    have "mval h mp mn = 0" using hM True by simp
    then have "SIZ st m = 0" using mval_ABSIZ_ge [OF ok m] M(1) True mp by (metis LB_gt(3) le_zero_eq power_not_zero)
    then have "mn = 0" by (simp add: mp)
    then show ?thesis using that k(1) x(3) by simp
  qed simp
  have sub: "mval h1 xp mn = M - X mod M" "only_in xp mn h h1" if k0: "k \<noteq> 0"
  proof -
    have le: "k \<le> mn" using k(1) x(3) by simp
    have o: "MPN_SAME_OR_SEPARATE2_P xp mn mp mn" "MPN_SAME_OR_SEPARATE2_P xp mn xp k" using mb x(1) by (auto simp: overlap_defs)
    note S = mpn_sub_spec [OF s le o, unfolded hM k(3)]
    have "unat c = 0"
    proof (rule ccontr)
      assume "unat c \<noteq> 0"
      then have "LB ^ mn * 1 \<le> LB ^ mn * unat c" by (intro mult_le_mono2) simp
      then show False using S(1) Mpos [OF k0] mval_less [of h1 xp mn] by linarith
    qed
    then show "mval h1 xp mn = M - X mod M" using S(1) by simp
    show "only_in xp mn h h1" by (rule S(3))
  qed
  have res: "powm_result neg r xp xn mp mn st1 = (let st = set_SIZ r (int j) (MPZ_REALLOC r j (set_heap h2 st1)) in set_heap (MPN_COPY (PTR st r) xp j (heap st)) st)"
  proof -
    have "heap st1 = h" "set_heap h st1 = st1" by (simp_all add: st1_def set_heap_def)
    then show ?thesis using s by (simp add: powm_result_def Let_def k_def [symmetric] h2_def j_def)
  qed
  have st2: "set_heap h2 st1 = st\<lparr>heap := h2, brk := b\<rparr>" by (simp add: st1_def set_heap_def)
  have keep: "h2 a = heap st a" if "a < brk st" for a
    using h [OF that] only_inD [OF sub(2), of a] that x(1) by (auto simp: h2_def)
  note A = above_brk [OF ok keep b]
  have j: "j \<le> mn" "j = 0 \<or> h2 (xp + j - 1) \<noteq> 0" "mval h2 xp j = (if neg \<and> k \<noteq> 0 then M - X mod M else X mod M)"
    using k x(3) sub(1) MPN_NORMALIZE_le [of h1 xp mn] MPN_NORMALIZE_top [of h1 xp mn] MPN_NORMALIZE_mval [of h1 xp mn]
    by (auto simp: h2_def j_def)
  define st3 where "st3 = st\<lparr>heap := h2, brk := b\<rparr>"
  have same: "PTR st3 = PTR st" "ALLOC st3 = ALLOC st" "heap st3 = h2" "brk st3 = b" "live st3 = live st"
    by (simp_all add: st3_def PTR_def ALLOC_def fun_eq_iff)
  have "updates st3 r (int (mval h2 xp j)) (powm_result neg r xp xn mp mn st1)"
    unfolding res st2 st3_def [symmetric] Let_def
    using store_limbs [OF A(1) [folded st3_def], of r xp j] r x(1,2) j(1,2) below_brk [OF ok r] unfolding same by simp
  then have "updates st r (int (mval h2 xp j)) (powm_result neg r xp xn mp mn st1)"
    using A(2) by (auto simp: updates_def st3_def)
  moreover have "int (mval h2 xp j) = (if neg then - int X else int X) mod int M"
  proof (cases "neg \<and> k \<noteq> 0")
    case True
    then have "X mod M \<noteq> 0" using k(4) by simp
    then have "(- int X) mod int M = int M - int X mod int M"
      by (subst zmod_zminus1_eq_if) (simp flip: of_nat_mod)
    then show ?thesis using True Mpos by (simp add: j(3) of_nat_diff of_nat_mod)
  next
    case False
    then have "neg \<Longrightarrow> X mod M = 0" using k(4) by simp
    then have "neg \<Longrightarrow> (- int X) mod int M = 0" by (subst zmod_zminus1_eq_if) (simp flip: of_nat_mod)
    then show ?thesis using False k(4) by (auto simp: j(3) of_nat_mod)
  qed
  ultimately show ?thesis unfolding st1_def by simp
qed


section \<open>Modulus and base\<close>

lemma normalize_modulus_spec:
  assumes ok: "store_ok st" and m: "m \<in> live st" and nz: "SIZ st m \<noteq> 0" and eq: "normalize_modulus (PTR st m) (ABSIZ st m) st = (cnt, mp, st')"
  shows "cnt < 32" "mval (heap st') mp (ABSIZ st m) = 2 ^ cnt * nat \<bar>zval st m\<bar>" "LB ^ ABSIZ st m \<le> 2 * (2 ^ cnt * nat \<bar>zval st m\<bar>)"
    "only_at {brk st..} (heap st) (heap st')" "st' = st\<lparr>heap := heap st', brk := brk st'\<rparr>" "brk st \<le> brk st'" "mp + ABSIZ st m \<le> brk st'"
proof -
  define mn V t where "mn = ABSIZ st m" and "V = mval (heap st) (PTR st m) mn" and "t = heap st (PTR st m + (mn - 1))"
  have mn: "1 \<le> mn" using nz by (simp add: mn_def Suc_leI)
  have t: "t \<noteq> 0" using wf_ok [OF ok m] nz mn by (simp add: mpz_ok_def mn_def t_def)
  define z where "z = unat (count_leading_zeros t)"
  note Z = count_leading_zeros_correct [OF t, folded z_def]
  have V: "nat \<bar>zval st m\<bar> = V" using zval_abs [OF ok m] by (simp add: V_def mn_def)
  have X: "V < 2 ^ (32 * mn - z)" "2 ^ (32 * mn - z) \<le> 2 * V"
    using exponent_size [OF mn, of "heap st" "PTR st m" V z] Z unfolding t_def by (simp_all add: V_def)
  have p: "LB ^ mn = 2 ^ z * 2 ^ (32 * mn - z)"
  proof -
    have "z + (32 * mn - z) = 32 * mn" using Z(1) mn by linarith
    then show ?thesis by (simp only: LB_power power_mult [symmetric] power_add [symmetric])
  qed
  have b: "2 ^ z * V < LB ^ mn" "LB ^ mn \<le> 2 * (2 ^ z * V)" using X unfolding p by simp_all
  have mb: "PTR st m + mn \<le> brk st" using wf_ok [OF ok m] by (simp add: mpz_ok_def mn_def)
  have R: "cnt < 32 \<and> mval (heap st') mp mn = 2 ^ cnt * V \<and> LB ^ mn \<le> 2 * (2 ^ cnt * V) \<and> only_at {brk st..} (heap st) (heap st')
    \<and> st' = st\<lparr>heap := heap st', brk := brk st'\<rparr> \<and> brk st \<le> brk st' \<and> mp + mn \<le> brk st'"
  proof (cases "z = 0")
    case True
    then have "cnt = 0" "mp = PTR st m" "st' = st" using eq True
      unfolding normalize_modulus_def Let_def mn_def [symmetric] t_def [symmetric] z_def [symmetric] by auto
    then show ?thesis using b True mb by (simp add: V_def)
  next
    case False
    obtain cy h where s: "mpn_lshift (brk st) (PTR st m) mn z (heap st) = (cy, h)" by fastforce
    have r: "cnt = z" "mp = brk st" "st' = st\<lparr>heap := h, brk := brk st + mn\<rparr>"
      using eq False s unfolding normalize_modulus_def Let_def mn_def [symmetric] t_def [symmetric] z_def [symmetric]
      by (cases st; auto simp: ALLOCATE_FUNC_LIMBS_def set_heap_def)+
    have "MPN_SAME_OR_DECR_P (brk st) (PTR st m) mn" using mb by (auto simp: overlap_defs)
    note S = mpn_lshift_spec [OF s mn Z(1) this, folded V_def]
    have "unat cy = 0"
    proof (rule ccontr)
      assume "unat cy \<noteq> 0"
      then have "LB ^ mn * 1 \<le> LB ^ mn * unat cy" by (intro mult_le_mono2) simp
      then show False using S(1) b(1) by linarith
    qed
    moreover have "only_at {brk st..} (heap st) h" by (rule only_in_at [OF S(3)]) auto
    ultimately show ?thesis using S(1) Z(1) b(2) by (simp add: r)
  qed
  then show "cnt < 32" "mval (heap st') mp (ABSIZ st m) = 2 ^ cnt * nat \<bar>zval st m\<bar>" "LB ^ ABSIZ st m \<le> 2 * (2 ^ cnt * nat \<bar>zval st m\<bar>)"
    "only_at {brk st..} (heap st) (heap st')" "st' = st\<lparr>heap := heap st', brk := brk st'\<rparr>" "brk st \<le> brk st'" "mp + ABSIZ st m \<le> brk st'"
    unfolding V mn_def by blast+
qed

lemma powm_ui_base_spec:
  fixes st :: state
  assumes b: "bp + bn \<le> brk st" and mp: "mp + mn \<le> brk st" and n: "1 \<le> mn" "mn < SQR_TOOM3_THRESHOLD" and M: "mval (heap st) mp mn = M" "LB ^ (mn - 1) \<le> M"
  shows "\<exists>bp' bn' st'. powm_ui_base bp bn mp mn st = Some (bp', bn', st') \<and> bn' \<le> mn \<and> mval (heap st') bp' bn' mod M = mval (heap st) bp bn mod M
    \<and> only_at {brk st..} (heap st) (heap st') \<and> st' = st\<lparr>heap := heap st', brk := brk st'\<rparr> \<and> brk st \<le> brk st' \<and> bp' + bn' \<le> brk st'
    \<and> mval (heap st') mp mn = M"
proof (cases "bn > mn")
  case False
  then show ?thesis using b M by (simp add: powm_ui_base_def)
next
  case True
  define tp fp where "tp = brk st" and "fp = brk st + mn"
  have c: "mn \<le> bn" "bp + bn \<le> fp" "mp + mn \<le> fp" "tp + mn \<le> fp" using True b mp by (simp_all add: tp_def fp_def)
  have o: "\<not> MPN_OVERLAP_P tp mn mp mn" "\<not> MPN_OVERLAP_P tp mn bp bn" using b mp by (simp_all add: no_overlap_iff tp_def)
  obtain h where h: "reduce tp bp bn mp mn fp (heap st) = Some h" "mval h tp mn = mval (heap st) bp bn mod M" "only_at ({tp..<tp + mn} \<union> {fp..}) (heap st) h"
    using reduce_spec [OF n(1) c(1) n(2) _ c(2-4) o, of "heap st"] M by auto
  define k where "k = MPN_NORMALIZE h tp mn"
  have k: "k \<le> mn" "mval h tp k = mval h tp mn" unfolding k_def by (rule MPN_NORMALIZE_le MPN_NORMALIZE_mval)+
  have f: "only_at {brk st..} (heap st) h" by (rule only_at_mono [OF h(3)]) (auto simp: tp_def fp_def)
  have M': "mval h mp mn = M" unfolding M(1) [symmetric] by (rule only_at_mval [OF f]) (use mp in auto)
  have "powm_ui_base bp bn mp mn st = Some (tp, k, st\<lparr>heap := h, brk := fp\<rparr>)"
    using True h(1) by (simp add: powm_ui_base_def Let_def ALLOCATE_FUNC_LIMBS_def set_heap_def tp_def fp_def k_def)
  then show ?thesis using k h(2) f M' by (simp add: tp_def fp_def)
qed

section \<open>An exponent of one limb\<close>

lemma powm_ui_power:
  fixes el :: limb
  assumes S: "powm_ui_setup L M xp bp bn" and I: "powm_ui_inv L M B xp bp bn h bn h B" and el: "el \<noteq> 0"
    and M: "LB ^ L_mn L \<le> 2 * M"
  defines "z \<equiv> unat (count_leading_zeros el)"
  shows "\<exists>xn' h'. (if 32 - 1 - z = 0
       then Some (bn, if bn = L_mn L \<and> mpn_cmp h xp (L_mp L) (L_mn L) \<ge> 0 then snd (mpn_sub_n xp xp (L_mp L) (L_mn L) h) else h)
       else powm_ui_loop L (32 - 1 - z) (push_bit 1 (push_bit z el)) xp bn bp bn h) = Some (xn', h')
    \<and> powm_ui_inv L M B xp bp bn h xn' h' (B ^ unat el) \<and> mval h' xp xn' < M"
proof -
  note C = count_leading_zeros_correct [OF el, folded z_def] and T = exponent_after_top [OF el, folded z_def]
  have ok: "powm_ok L M 1" "\<not> L_redc L" "powm_slot L xp" and n1: "1 \<le> bn" using S by (simp_all add: powm_ui_setup_def)
  have v: "mval h (L_mp L) (L_mn L) = M" and bn: "bn \<le> L_mn L" and X: "mval h xp bn mod M = B mod M" using I by (simp_all add: powm_ui_inv_def)
  show ?thesis
  proof (cases "31 - z = 0")
    case False
    have "powm_ui_inv L M B xp bp bn h bn h (B ^ 1)" using I by simp
    from powm_ui_loop_spec [OF S this, of "31 - z" "push_bit 1 (push_bit z el)"] False T show ?thesis by auto
  next
    case True
    then have z: "z = 31" using C(1) by simp
    have e1: "unat el = 1" using C(2,3) by (simp add: z LB_def)
    define X where "X = mval h xp bn"
    show ?thesis
    proof (cases "bn = L_mn L \<and> M \<le> X")
      case True
      then have "mpn_cmp h xp (L_mp L) (L_mn L) \<ge> 0" using v by (auto simp: mpn_cmp_spec X_def)
      obtain c h1 where s: "mpn_sub_n xp xp (L_mp L) (L_mn L) h = (c, h1)" by fastforce
      have "MPN_SAME_OR_INCR_P xp xp (L_mn L)" "MPN_SAME_OR_INCR_P xp (L_mp L) (L_mn L)" using ok(3) by (auto simp: powm_slot_def overlap_defs)
      note R = mpn_sub_n_spec [OF s this, unfolded v]
      have Xn: "mval h xp (L_mn L) = X" using True by (simp add: X_def)
      have "unat c = 0"
      proof (rule ccontr)
        assume "unat c \<noteq> 0"
        then have "LB ^ L_mn L * 1 \<le> LB ^ L_mn L * unat c" by (intro mult_le_mono2) simp
        then show False using R(1) True Xn mval_less [of h1 xp "L_mn L"] by linarith
      qed
      then have v1: "mval h1 xp (L_mn L) = X - M" using R(1) Xn by simp
      have "X < LB ^ L_mn L" unfolding Xn [symmetric] by (rule mval_less)
      then have lt: "X - M < M" using M True by linarith
      have "(X - M) mod M = X mod M" using True by (simp add: le_mod_geq)
      moreover have "X mod M = B mod M" using X by (simp only: X_def)
      ultimately have "mval h1 xp bn mod M = B mod M" using v1 True by simp
      then have "powm_ui_inv L M B xp bp bn h bn h1 (B ^ unat el)"
        by (intro powm_ui_inv_step [OF S I only_in_at [OF R(3)]]) (use bn e1 in auto)
      then show ?thesis using True z s \<open>mpn_cmp h xp (L_mp L) (L_mn L) \<ge> 0\<close> v1 lt by auto
    next
      case False
      have lt: "X < M"
      proof (cases "bn = L_mn L")
        case True
        then show ?thesis using False by simp
      next
        case False
        then have "LB ^ bn \<le> LB ^ (L_mn L - 1)" using bn by (intro power_increasing) simp_all
        then have "X < LB ^ (L_mn L - 1)" using mval_less [of h xp bn] unfolding X_def by linarith
        then show ?thesis using ok by (simp add: powm_ok_def)
      qed
      have "\<not> (bn = L_mn L \<and> mpn_cmp h xp (L_mp L) (L_mn L) \<ge> 0)" using lt v by (auto simp: mpn_cmp_spec X_def)
      then show ?thesis using z I lt e1 by (auto simp: X_def)
    qed
  qed
qed


lemma odd_limb: "(el :: limb) AND 1 \<noteq> 0 \<longleftrightarrow> odd (unat el)"
proof -
  have "el AND 1 = el mod 2" by (simp add: and_one_eq)
  then show ?thesis by (simp add: limb_eq_iff unat_mod odd_iff_mod_2_eq_one)
qed

lemma signed_power:
  assumes "x = with_sign neg B"
  shows "x ^ n = (if odd n \<and> neg then - int (B ^ n) else int (B ^ n))"
  using assms by (auto simp: with_sign_def power_minus_odd)

lemma mod_of_multiple: "(x :: nat) mod (k * M) = y mod (k * M) \<Longrightarrow> x mod M = y mod M"
  by (metis mod_mult_self2_is_0 mod_mod_cancel dvd_triv_right)

theorem mpz_powm_ui_spec:
  assumes ok: "store_ok st" and l: "r \<in> live st" "b \<in> live st" "m \<in> live st" and m0: "zval st m \<noteq> 0" and small: "ABSIZ st m < SQR_TOOM3_THRESHOLD"
  shows "\<exists>st'. mpz_powm_ui r b el m st = Some (Inr st') \<and> updates st r (zval st b ^ unat el mod \<bar>zval st m\<bar>) st'"
proof -
  define mn M0 B where "mn = ABSIZ st m" and "M0 = nat \<bar>zval st m\<bar>" and "B = nat \<bar>zval st b\<bar>"
  have nz: "SIZ st m \<noteq> 0" using m0 size_sign(2) [OF ok l(3)] by simp
  have mn: "1 \<le> mn" using nz by (simp add: mn_def Suc_leI)
  have M0: "int M0 = \<bar>zval st m\<bar>" "M0 = mval (heap st) (PTR st m) mn" "0 < M0" using zval_abs [OF ok l(3)] m0 by (simp_all add: M0_def mn_def)
  show ?thesis
  proof (cases "el = 0")
    case True
    then show ?thesis using powm_one_spec [OF ok l(1,3) nz] mn nz by (simp add: mpz_powm_ui_def Let_def mn_def)
  next
    case False
    obtain cnt mp st1 where e1: "normalize_modulus (PTR st m) mn st = (cnt, mp, st1)" by (metis prod_cases3)
    note N = normalize_modulus_spec [OF ok l(3) nz e1 [unfolded mn_def], folded mn_def M0_def]
    define M where "M = 2 ^ cnt * M0"
    have M: "mval (heap st1) mp mn = M" "LB ^ mn \<le> 2 * M" "LB ^ (mn - 1) \<le> M" "0 < M"
    proof -
      show "mval (heap st1) mp mn = M" "LB ^ mn \<le> 2 * M" "0 < M" using N(2,3) M0(3) by (simp_all add: M_def)
      have "2 * LB ^ (mn - 1) \<le> LB * LB ^ (mn - 1)" by (intro mult_le_mono1) (simp add: LB_def)
      also have "\<dots> = LB ^ mn" using mn by (cases mn) simp_all
      finally show "LB ^ (mn - 1) \<le> M" using \<open>LB ^ mn \<le> 2 * M\<close> by linarith
    qed
    have P1: "PTR st1 = PTR st" "ABSIZ st1 = ABSIZ st" "SIZ st1 = SIZ st" by (subst N(5), simp add: PTR_def ABSIZ_def SIZ_def fun_eq_iff)+
    define bn bp where "bn = ABSIZ st b" and "bp = PTR st b"
    have bb: "bp + bn \<le> brk st" using wf_ok [OF ok l(2)] by (simp add: mpz_ok_def bn_def bp_def)
    have vb: "mval (heap st1) bp bn = B"
    proof -
      have "mval (heap st1) bp bn = mval (heap st) bp bn" by (rule only_at_mval [OF N(4)]) (use bb in auto)
      then show ?thesis using zval_abs [OF ok l(2)] by (simp add: B_def bn_def bp_def)
    qed
    have bb1: "bp + bn \<le> brk st1" using bb N(6) by simp
    obtain bp' bn' st2 where e2: "powm_ui_base bp bn mp mn st1 = Some (bp', bn', st2)" and Q: "bn' \<le> mn" "mval (heap st2) bp' bn' mod M = B mod M"
      "only_at {brk st1..} (heap st1) (heap st2)" "st2 = st1\<lparr>heap := heap st2, brk := brk st2\<rparr>" "brk st1 \<le> brk st2" "bp' + bn' \<le> brk st2" "mval (heap st2) mp mn = M"
      using powm_ui_base_spec [OF bb1 N(7) mn _ M(1,3)] small unfolding vb mn_def by auto
    have P2: "PTR st2 = PTR st" "SIZ st2 = SIZ st" by (subst Q(4), simp add: PTR_def SIZ_def fun_eq_iff P1 [unfolded PTR_def SIZ_def fun_eq_iff])+
    have st2: "st2 = st\<lparr>heap := heap st2, brk := brk st2\<rparr>" by (subst Q(4), subst N(5)) simp
    have h2: "heap st2 a = heap st a" if "a < brk st" for a
      using only_atD [OF N(4), of a] only_atD [OF Q(3), of a] that N(6) by simp
    have pow: "(if odd (unat el) \<and> SIZ st b < 0 then - int (B ^ unat el) else int (B ^ unat el)) = zval st b ^ unat el"
    proof -
      have "zval st b = with_sign (SIZ st b < 0) B" by (rule zval_with_sign [OF ok l(2)]) (simp add: B_def)
      from signed_power [OF this] show ?thesis by simp
    qed
    define head where "head f = (case powm_ui_base bp bn mp mn st1 of None \<Rightarrow> None | Some (bp, bn, st) \<Rightarrow> f bp bn st)"
      for f :: "ptr \<Rightarrow> nat \<Rightarrow> state \<Rightarrow> (gmp_error + state) option"
    show ?thesis
    proof (cases "bn' = 0")
      case True
      have run: "mpz_powm_ui r b el m st = Some (Inr (set_SIZ r 0 st2))"
        using False mn e1 e2 True unfolding mpz_powm_ui_def Let_def mn_def [symmetric] by (simp add: P1 bn_def bp_def)
      have "B mod M = 0" using Q(2) True by simp
      then have "M0 dvd B" unfolding M_def by (meson dvd_mult_right mod_0_imp_dvd)
      moreover have "unat el \<noteq> 0" using False by (simp add: unat_eq_0)
      ultimately have "M0 dvd B ^ unat el" by (meson dvd_power dvd_trans gr0I)
      then have "int M0 dvd zval st b ^ unat el" unfolding pow [symmetric] by (auto simp del: of_nat_power)
      then have "zval st b ^ unat el mod \<bar>zval st m\<bar> = 0" unfolding M0(1) by simp
      moreover have "updates st r 0 (set_SIZ r 0 st2)"
      proof -
        have "brk st \<le> brk st2" using N(6) Q(5) by simp
        note A = above_brk [OF ok h2 this, folded st2]
        have "live st2 = live st" by (subst st2) simp
        then show ?thesis using zero_result [OF A(1), of r] l(1) A(2) by (auto simp: updates_def)
      qed
      ultimately show ?thesis using run by simp
    next
      case bn0: False
      define tp xp qp fp where "tp = brk st2" and "xp = tp + (2 * mn + 1)" and "qp = xp + mn" and "fp = qp + (mn + 1)"
      note lay = tp_def xp_def qp_def fp_def
      define L where "L = \<lparr>L_redc = False, L_mp = mp, L_mn = mn, L_invm = 0, L_tp = tp, L_qp = qp, L_fp = fp\<rparr>"
      have Ls: "L_redc L = False" "L_mp L = mp" "L_mn L = mn" "L_tp L = tp" "L_qp L = qp" "L_fp L = fp" by (simp_all add: L_def)
      have mpb: "mp + mn \<le> tp" "bp' + bn' \<le> tp" "brk st \<le> tp" using N(6,7) Q(5,6) by (simp_all add: tp_def)
      have okL: "powm_ok L M 1"
        unfolding powm_ok_def Ls no_overlap_iff using mn small M mpb(1) by (simp add: mn_def [symmetric] xp_def qp_def fp_def)
      have sl: "powm_slot L xp" unfolding powm_slot_def Ls no_overlap_iff using mpb(1) by (simp add: xp_def qp_def fp_def)
      have bn1: "1 \<le> bn'" using bn0 by simp
      have S: "powm_ui_setup L M xp bp' bn'"
        unfolding powm_ui_setup_def Ls no_overlap_iff using okL sl bn1 mpb(2) by (simp add: Ls xp_def qp_def fp_def)
      define h where "h = MPN_COPY xp bp' bn' (heap st2)"
      have h: "h = mcopy xp bp' bn' (heap st2)" unfolding h_def by (rule MPN_COPY_spec) (use mpb(2) in \<open>auto simp: overlap_defs xp_def\<close>)
      have kh: "h a = heap st2 a" if "a < tp" for a using that by (simp add: h mcopy_def xp_def)
      define B' where "B' = mval (heap st2) bp' bn'"
      have I: "powm_ui_inv L M B' xp bp' bn' h bn' h B'"
      proof -
        have "mval h mp mn = M" unfolding Q(7) [symmetric] by (rule mval_cong) (use kh mpb in simp)
        moreover have "mval h bp' bn' = B'" unfolding B'_def by (rule mval_cong) (use kh mpb in simp)
        moreover have "mval h xp bn' = B'" by (simp add: h B'_def)
        ultimately show ?thesis using Q(1) by (simp add: powm_ui_inv_def Ls)
      qed
      define z where "z = unat (count_leading_zeros el)"
      have M2: "LB ^ L_mn L \<le> 2 * M" using M(2) by (simp add: Ls)
      obtain xn1 h1 where p1: "(if 32 - 1 - z = 0 then Some (bn', if bn' = mn \<and> mpn_cmp h xp mp mn \<ge> 0 then snd (mpn_sub_n xp xp mp mn h) else h)
           else powm_ui_loop L (32 - 1 - z) (push_bit 1 (push_bit z el)) xp bn' bp' bn' h) = Some (xn1, h1)"
        and I1: "powm_ui_inv L M B' xp bp' bn' h xn1 h1 (B' ^ unat el)" and lt: "mval h1 xp xn1 < M"
        using powm_ui_power [OF S I False M2] unfolding z_def [symmetric] Ls by blast
      have J: "mval h1 (L_mp L) (L_mn L) = M" "1 \<le> xn1" "xn1 \<le> L_mn L" "mval h1 xp xn1 mod M = B' ^ unat el mod M"
        "only_at ({xp..<xp + mn} \<union> powm_scratch L) h h1"
        using I1 bn1 by (simp_all add: powm_ui_inv_def Ls)
      obtain xn2 h3 where p2: "powm_ui_unshift L cnt xp xn1 h1 = Some (xn2, h3)" and u: "xn2 \<le> mn" "mval h3 xp xn2 = mval h1 xp xn1 mod M0"
        "only_at ({xp..<xp + mn} \<union> powm_scratch L) h1 h3"
        using powm_ui_unshift_spec [OF okL _ sl J(1) M_def N(1) J(2,3) lt] unfolding Ls by auto
      have val: "mval h3 xp xn2 = B ^ unat el mod M0"
      proof -
        have "mval h1 xp xn1 mod M = B ^ unat el mod M" unfolding J(4) using Q(2) unfolding B'_def [symmetric] by (metis power_mod)
        then show ?thesis unfolding u(2) M_def by (rule mod_of_multiple)
      qed
      have kb: "h3 a = heap st a" if "a < brk st" for a
      proof -
        have na: "a \<notin> {xp..<xp + mn} \<union> powm_scratch L" using that mpb(3) by (auto simp: powm_scratch_def Ls xp_def qp_def fp_def)
        have "a < tp" using that mpb(3) by simp
        then show ?thesis using only_atD [OF J(5) na] only_atD [OF u(3) na] kh [of a] h2 [OF that] by simp
      qed
      have fin: "brk st \<le> fp" "brk st \<le> xp" "xp + mn \<le> fp" using mpb(3) by (simp_all add: xp_def qp_def fp_def)
      note U = powm_result_spec [OF ok l(1,3) kb fin(1-3) u(1) refl mn_def M0(2) val, of "odd (unat el) \<and> SIZ st b < 0"]
      have run: "mpz_powm_ui r b el m st
          = Some (Inr (powm_result (odd (unat el) \<and> SIZ st b < 0) r xp xn2 (PTR st m) mn (st\<lparr>heap := h3, brk := fp\<rparr>)))"
      proof -
        have c1: "PTR (st2\<lparr>brk := x\<rparr>) = PTR st" "SIZ (st2\<lparr>brk := x\<rparr>) = SIZ st" for x
          using P2 by (simp_all add: PTR_def SIZ_def fun_eq_iff)
        have c2: "set_heap h3 (st2\<lparr>brk := fp\<rparr>) = st\<lparr>heap := h3, brk := fp\<rparr>"
          by (subst st2) (simp add: set_heap_def)
        have f: "ABSIZ st m \<noteq> 0" using nz by simp
        have u: "brk (st\<lparr>brk := x\<rparr>) = x" "heap (st\<lparr>brk := x\<rparr>) = heap st" "st\<lparr>brk := x, brk := y\<rparr> = st\<lparr>brk := y\<rparr>" for st :: state and x y by simp_all
        show ?thesis
          unfolding mpz_powm_ui_def Let_def if_not_P [OF f] if_not_P [OF False] unfolding mn_def [symmetric] e1 prod.case P1 bn_def [symmetric] bp_def [symmetric]
            e2 Option.bind.bind_lunit if_not_P [OF bn0] ALLOCATE_FUNC_LIMBS_def prod.case u lay [symmetric] L_def [symmetric] h_def [symmetric] z_def [symmetric]
            p1 p2 odd_limb c1 c2 ..
      qed
      then show ?thesis using U unfolding pow M0(1) by auto
    qed
  qed
qed

end
