(* ===== verification/Mpz_Powm.thy ===== *)
theory Mpz_Powm
  imports Mpz_PowmUi
begin

text \<open>
  Modular exponentiation with an exponent of any size: \<open>mpz/powm.c\<close>, with the sliding windows of \<open>Mpn_PowmLoop\<close>, and
  Montgomery reduction when the modulus is odd.  A negative exponent goes on to \<open>mpz_invert\<close>, which is not modelled: the
  model is \<open>None\<close> there.  The code takes the block of \<open>xp\<close> after the base is reduced, the model too.
\<close>

unbundle bit_operations_syntax

definition POWM_THRESHOLD :: nat where
  "POWM_THRESHOLD = 125"

text \<open>The base modulo \<open>m\<close>, times \<open>LB ^ mn\<close> for Montgomery reduction, in the first entry of the table.\<close>

definition powm_base :: "bool \<Rightarrow> ptr \<Rightarrow> ptr \<Rightarrow> nat \<Rightarrow> ptr \<Rightarrow> nat \<Rightarrow> ptr \<Rightarrow> ptr \<Rightarrow> ptr \<Rightarrow> mem \<Rightarrow> mem option" where
  "powm_base use_redc gp bp bn mp mn tp qp fp m =
     (if bn > mn \<or> (bn = mn \<and> mpn_cmp m bp mp mn \<ge> 0)
      then (if use_redc
            then do {
              m \<leftarrow> reduce (tp + mn) bp bn mp mn fp m;
              let m = MPN_ZERO tp mn m;
              tdiv_qr_mem qp gp tp (2 * mn) mp mn fp m
            }
            else reduce gp bp bn mp mn fp m)
      else (if use_redc
            then (let m = MPN_ZERO tp mn m;
                      m = MPN_COPY (tp + mn) bp bn m;
                      m = MPN_ZERO (tp + mn + bn) (mn - bn) m
                  in tdiv_qr_mem qp gp tp (2 * mn) mp mn fp m)
            else (let m = MPN_COPY gp bp bn m
                  in Some (MPN_ZERO (gp + bn) (mn - bn) m))))"

text \<open>The result of the loop, converted back.\<close>

definition powm_leave :: "powm_locals \<Rightarrow> nat \<Rightarrow> ptr \<Rightarrow> mem \<Rightarrow> mem option" where
  "powm_leave L m_zero_cnt xp m =
     (if L_redc L
      then (let m = MPN_COPY (L_tp L) xp (L_mn L) m;
                m = MPN_ZERO (L_tp L + L_mn L) (L_mn L) m
            in do {
              m \<leftarrow> redc xp (L_mp L) (L_mn L) (L_invm L) (L_tp L) m;
              Some (if mpn_cmp m xp (L_mp L) (L_mn L) \<ge> 0 then snd (mpn_sub_n xp xp (L_mp L) (L_mn L) m) else m)
            })
      else if m_zero_cnt \<noteq> 0
      then (let (cy, m) = mpn_lshift (L_tp L) xp (L_mn L) m_zero_cnt m;
                m = m(L_tp L + L_mn L := cy)
            in do {
              m \<leftarrow> tdiv_qr_mem (L_qp L) xp (L_tp L) (L_mn L + of_bool (cy \<noteq> 0)) (L_mp L) (L_mn L) (L_fp L) m;
              Some (snd (mpn_rshift xp xp (L_mn L) m_zero_cnt m))
            })
      else Some m)"

definition mpz_powm :: "var \<Rightarrow> var \<Rightarrow> var \<Rightarrow> var \<Rightarrow> state \<Rightarrow> (gmp_error + state) option" where
  "mpz_powm r b e m st =
     (let mp = PTR st m;
          mn = ABSIZ st m
      in if mn = 0 then Some DIVIDE_BY_ZERO
         else let es = SIZ st e
         in if es = 0 then Some (Inr (powm_one r mp mn st))
         else if es < 0 then None
         else let en = nat es;
                  use_redc = (mn < POWM_THRESHOLD \<and> heap st mp mod 2 \<noteq> 0);
                  invm = (if use_redc then - modlimb_invert (heap st mp) else 0);
                  (m_zero_cnt, mp, st) = (if use_redc then (0, mp, st) else normalize_modulus mp mn st);
                  e_zero_cnt = unat (count_leading_zeros (heap st (PTR st e + (en - 1))));
                  enb = en * 32 - e_zero_cnt;
                  k = window_bits enb 1;
                  K = 2 ^ k;
                  (tp, st) = ALLOCATE_FUNC_LIMBS (2 * mn + 1) st;
                  (qp, st) = ALLOCATE_FUNC_LIMBS (mn + 1) st;
                  (gp, st) = ALLOCATE_FUNC_LIMBS (K div 2 * mn) st;
                  bn = ABSIZ st b;
                  bp = PTR st b
              in do {
                h \<leftarrow> powm_base use_redc gp bp bn mp mn tp qp (brk st) (heap st);
                let (xp, st) = ALLOCATE_FUNC_LIMBS mn st;
                let L = \<lparr>L_redc = use_redc, L_mp = mp, L_mn = mn, L_invm = invm, L_tp = tp, L_qp = qp, L_fp = brk st\<rparr>;
                h \<leftarrow> powm_sqr L xp gp h;
                h \<leftarrow> powm_table L (K div 2 - 1) gp xp h;
                h \<leftarrow> powm_exp L (PTR st e) en e_zero_cnt gp k xp h;
                h \<leftarrow> powm_leave L m_zero_cnt xp h;
                Some (Inr (powm_result (h (PTR st e) AND 1 \<noteq> 0 \<and> SIZ st b < 0) r xp mn (PTR st m) mn (set_heap h st)))
              })"

section \<open>Base and result\<close>

text \<open>The base is reduced into the block at \<open>gp\<close>.\<close>

lemma powm_base_spec:
  fixes M mn :: nat
  defines "F \<equiv> \<lambda>c. if c then LB ^ mn else 1"
  assumes n: "1 \<le> mn" "mn < SQR_TOOM3_THRESHOLD" and M: "mval m mp mn = M" "LB ^ (mn - 1) \<le> M" and B: "mval m bp bn = B"
    and b: "mp + mn \<le> tp" "bp + bn \<le> tp" "tp + (2 * mn + 1) \<le> qp" "qp + (mn + 1) \<le> gp" "gp + mn \<le> fp"
  shows "\<exists>m'. powm_base c gp bp bn mp mn tp qp fp m = Some m' \<and> mval m' gp mn = (B * F c) mod M \<and> only_at {tp..} m m'"
proof -
  have sw: "\<not> MPN_OVERLAP_P p k q j" if "p + k \<le> q \<or> q + j \<le> p" for p k q j using that by (simp add: no_overlap_iff)
  have M0: "0 < M" using M(2) LB_gt(1) by (metis le_zero_eq neq0_conv power_not_zero LB_gt(3))
  have scale: "\<exists>m'. tdiv_qr_mem qp gp tp (2 * mn) mp mn fp m1 = Some m' \<and> mval m' gp mn = (V * LB ^ mn) mod M \<and> only_at {tp..} m m'"
    if z: "mval m1 tp mn = 0" "mval m1 (tp + mn) mn = V" "only_at {tp..} m m1" for m1 V
  proof -
    have M1: "mval m1 mp mn = M" unfolding M(1) [symmetric] by (rule only_at_mval [OF z(3)]) (use b(1) in auto)
    have V: "mval m1 tp (2 * mn) = V * LB ^ mn" using mval_add [of m1 tp mn mn] z(1,2) by (simp add: mult_2)
    have e: "2 * mn - mn + 1 = mn + 1" by simp
    have "\<exists>m'. tdiv_qr_mem qp gp tp (2 * mn) mp mn fp m1 = Some m' \<and> mval m' gp mn = mval m1 tp (2 * mn) mod mval m1 mp mn
        \<and> only_at ({qp..<qp + (2 * mn - mn + 1)} \<union> {gp..<gp + mn} \<union> {fp..}) m1 m'"
      by (rule tdiv_qr_mem_spec) (use n b M M1 in \<open>simp_all add: e sw\<close>)
    then obtain m' where m': "tdiv_qr_mem qp gp tp (2 * mn) mp mn fp m1 = Some m'" "mval m' gp mn = (V * LB ^ mn) mod M"
      "only_at ({qp..<qp + (2 * mn - mn + 1)} \<union> {gp..<gp + mn} \<union> {fp..}) m1 m'" unfolding M1 V by blast
    have "only_at {tp..} m1 m'" by (rule only_at_mono [OF m'(3)]) (use b in auto)
    then show ?thesis using m'(1,2) only_at_trans [OF z(3)] by blast
  qed
  have red: "\<exists>m'. reduce p bp bn mp mn fp m = Some m' \<and> mval m' p mn = B mod M \<and> only_at ({p..<p + mn} \<union> {fp..}) m m'"
    if "mn \<le> bn" "tp \<le> p" "p + mn \<le> fp" for p
    using reduce_spec [OF n(1) that(1) n(2), of m mp bp fp p] M B b that by (auto simp: sw)
  consider "bn > mn \<or> (bn = mn \<and> mpn_cmp m bp mp mn \<ge> 0)" | "\<not> (bn > mn \<or> (bn = mn \<and> mpn_cmp m bp mp mn \<ge> 0))" by blast
  then show ?thesis
  proof cases
    case 1
    then have le: "mn \<le> bn" by auto
    show ?thesis
    proof (cases c)
      case True
      have "tp \<le> tp + mn" "tp + mn + mn \<le> fp" using b by simp_all
      from red [OF le this] obtain m1 where m1: "reduce (tp + mn) bp bn mp mn fp m = Some m1" "mval m1 (tp + mn) mn = B mod M"
        "only_at ({tp + mn..<tp + mn + mn} \<union> {fp..}) m m1" by blast
      define m2 where "m2 = MPN_ZERO tp mn m1"
      have z: "mval m2 tp mn = 0" "mval m2 (tp + mn) mn = B mod M"
        unfolding m2_def m1(2) [symmetric] by (simp_all add: only_in_mval [OF only_in_MPN_ZERO])
      have "only_at {tp..} m m2" unfolding m2_def
        by (rule only_at_trans [OF only_at_mono [OF m1(3)] only_in_at [OF only_in_MPN_ZERO]]) (use b in auto)
      from scale [OF z this] show ?thesis using 1 True m1(1) by (simp add: powm_base_def m2_def F_def mod_mult_left_eq)
    next
      case False
      have "tp \<le> gp" using b by simp
      from red [OF le this b(5)] obtain m1 where m1: "reduce gp bp bn mp mn fp m = Some m1" "mval m1 gp mn = B mod M"
        "only_at ({gp..<gp + mn} \<union> {fp..}) m m1" by blast
      have "only_at {tp..} m m1" by (rule only_at_mono [OF m1(3)]) (use b in auto)
      then show ?thesis using 1 False m1(1,2) by (simp add: powm_base_def F_def)
    qed
  next
    case 2
    then have le: "bn \<le> mn" by auto
    have BM: "B < M"
    proof (cases "bn = mn")
      case True
      then show ?thesis using 2 M B by (auto simp: mpn_cmp_spec split: if_splits)
    next
      case False
      then have "LB ^ bn \<le> LB ^ (mn - 1)" using le by (intro power_increasing) simp_all
      then show ?thesis using mval_less [of m bp bn] M(2) unfolding B by linarith
    qed
    have pad: "mval (MPN_ZERO (p + bn) (mn - bn) (MPN_COPY p bp bn m1)) p mn = B"
      "only_in p mn m1 (MPN_ZERO (p + bn) (mn - bn) (MPN_COPY p bp bn m1))" if "tp \<le> p" "mval m1 bp bn = B" for p m1
    proof -
      have c: "MPN_COPY p bp bn m1 = mcopy p bp bn m1" by (rule MPN_COPY_spec) (use that b(2) in \<open>auto simp: overlap_defs\<close>)
      have "mval (MPN_ZERO (p + bn) (mn - bn) (mcopy p bp bn m1)) p (bn + (mn - bn)) = B"
        unfolding mval_add MPN_ZERO_mval using only_in_mval [OF only_in_MPN_ZERO, of p bn "p + bn"] that(2) by simp
      then show "mval (MPN_ZERO (p + bn) (mn - bn) (MPN_COPY p bp bn m1)) p mn = B" using le unfolding c by simp
      show "only_in p mn m1 (MPN_ZERO (p + bn) (mn - bn) (MPN_COPY p bp bn m1))" unfolding c
        by (rule only_in_trans [OF only_in_mono [OF only_in_mcopy] only_in_mono [OF only_in_MPN_ZERO]]) (use le in auto)
    qed
    show ?thesis
    proof (cases c)
      case True
      define m1 where "m1 = MPN_ZERO tp mn m"
      have B1: "mval m1 bp bn = B" unfolding m1_def B [symmetric] by (rule only_in_mval [OF only_in_MPN_ZERO]) (use b(2) in auto)
      define m2 where "m2 = MPN_ZERO (tp + mn + bn) (mn - bn) (MPN_COPY (tp + mn) bp bn m1)"
      note P = pad [of "tp + mn", OF _ B1, folded m2_def]
      have "mval m2 tp mn = mval m1 tp mn" by (rule only_in_mval [OF P(2)]) simp_all
      then have z: "mval m2 tp mn = 0" by (simp add: m1_def)
      have "only_at {tp..} m m2"
        by (rule only_at_trans [OF only_in_at [OF only_in_MPN_ZERO [of tp mn m, folded m1_def]] only_in_at [OF P(2)]]) auto
      from scale [OF z P(1) this] show ?thesis using True unfolding powm_base_def if_not_P [OF 2] by (simp add: m2_def m1_def F_def Let_def)
    next
      case False
      define m2 where "m2 = MPN_ZERO (gp + bn) (mn - bn) (MPN_COPY gp bp bn m)"
      have g: "tp \<le> gp" using b by simp
      note P = pad [OF g B, folded m2_def]
      have "only_at {tp..} m m2" by (rule only_in_at [OF P(2)]) (use g in auto)
      then show ?thesis using False P(1) BM unfolding powm_base_def if_not_P [OF 2] by (simp add: m2_def [symmetric] F_def Let_def)
    qed
  qed
qed


text \<open>Without Montgomery reduction the end is that of \<open>mpz_powm_ui\<close>.\<close>

lemma powm_leave_unshift:
  assumes "\<not> L_redc L"
  shows "powm_leave L cnt xp m = map_option snd (powm_ui_unshift L cnt xp (L_mn L) m)"
  using assms
  by (cases "tdiv_qr_mem (L_qp L) xp (L_tp L) (L_mn L + of_bool (fst (mpn_lshift (L_tp L) xp (L_mn L) cnt m) \<noteq> 0)) (L_mp L) (L_mn L) (L_fp L)
      ((snd (mpn_lshift (L_tp L) xp (L_mn L) cnt m))(L_tp L + L_mn L := fst (mpn_lshift (L_tp L) xp (L_mn L) cnt m)))")
    (auto simp: powm_leave_def powm_ui_unshift_def powm_ui_reduce_def Let_def split: prod.splits)

lemma powm_leave_spec:
  assumes ok: "powm_ok L M F" and M: "mval m (L_mp L) (L_mn L) = M" "M = 2 ^ cnt * M0" "cnt < 32" "L_redc L \<Longrightarrow> cnt = 0"
    and x: "powm_slot L xp" and rep: "powm_rep L M F m xp x"
  shows "\<exists>m'. powm_leave L cnt xp m = Some m' \<and> mval m' xp (L_mn L) = x mod M0 \<and> only_at ({xp..<xp + L_mn L} \<union> powm_scratch L) m m'"
proof (cases "L_redc L")
  case False
  have n: "1 \<le> L_mn L" and F: "F = 1" and X: "mval m xp (L_mn L) mod M = x mod M" "mval m xp (L_mn L) < M"
    using ok rep False by (simp_all add: powm_ok_def powm_rep_def)
  have ok1: "powm_ok L M 1" using ok F by simp
  obtain xn' m' where u: "powm_ui_unshift L cnt xp (L_mn L) m = Some (xn', m')" "xn' \<le> L_mn L" "mval m' xp xn' = mval m xp (L_mn L) mod M0"
    "only_at ({xp..<xp + L_mn L} \<union> powm_scratch L) m m'"
    using powm_ui_unshift_spec [OF ok1 False x M(1-3) n order_refl X(2)] by blast
  have "xn' = L_mn L"
    using u(1) by (auto simp: powm_ui_unshift_def powm_ui_reduce_def Let_def bind_eq_Some_conv split: if_splits prod.splits) (metis surj_pair)
  moreover have "mval m xp (L_mn L) mod M0 = x mod M0" using X(1) unfolding M(2) by (rule mod_of_multiple)
  ultimately show ?thesis using u by (simp add: powm_leave_unshift [OF False])
next
  case True
  define n X where "n = L_mn L" and "X = mval m xp n"
  have n1: "1 \<le> n" and F: "F = LB ^ n" and inv: "L_invm L * of_nat M = - 1" and M0: "M0 = M" "0 < M"
    using ok True M(2,4) by (simp_all add: powm_ok_def n_def)
  have cop: "coprime F M" using ok unfolding powm_ok_def by blast
  have ov: "\<not> MPN_OVERLAP_P (L_tp L) (2 * n + 1) (L_mp L) n" "\<not> MPN_OVERLAP_P xp n (L_tp L) (2 * n + 1)" "\<not> MPN_OVERLAP_P xp n (L_mp L) n"
    using ok x by (simp_all add: powm_ok_def powm_slot_def n_def)
  define m1 m2 where "m1 = MPN_COPY (L_tp L) xp n m" and "m2 = MPN_ZERO (L_tp L + n) n m1"
  have m1: "m1 = mcopy (L_tp L) xp n m" unfolding m1_def by (rule MPN_COPY_spec) (use ov(2) in \<open>auto simp: overlap_defs\<close>)
  have T: "mval m2 (L_tp L) (2 * n) = X"
  proof -
    have "mval m2 (L_tp L) (n + n) = mval m2 (L_tp L) n" unfolding mval_add [of m2 "L_tp L" n n] by (simp add: m2_def)
    also have "\<dots> = mval m1 (L_tp L) n" unfolding m2_def by (rule only_in_mval [OF only_in_MPN_ZERO]) simp
    finally show ?thesis by (simp add: m1 X_def mult_2)
  qed
  have f2: "only_in (L_tp L) (2 * n + 1) m m2" unfolding m2_def m1
    by (rule only_in_trans [OF only_in_mono [OF only_in_mcopy] only_in_mono [OF only_in_MPN_ZERO]]) simp_all
  have M2: "mval m2 (L_mp L) n = M" using only_in_mval [OF f2, of "L_mp L" n] ov(1) M(1) unfolding no_overlap_iff n_def by auto
  have N: "L_invm L * m2 (L_mp L) = - 1" using inv mod_limb [OF n1 M2] by simp
  obtain m3 W Q where R: "redc xp (L_mp L) n (L_invm L) (L_tp L) m2 = Some m3" "LB ^ n * W = X + Q * M" "Q < LB ^ n"
    "mval m3 xp n = (if W < LB ^ n then W else W - M)" "only_at ({xp..<xp + n} \<union> {L_tp L..<L_tp L + 2 * n + 1}) m2 m3"
    using redc_spec [OF n1 M2 N ov] unfolding T by blast
  have WM: "W \<le> M"
  proof -
    have "X < LB ^ n" unfolding X_def by (rule mval_less)
    moreover have "Q * M + M \<le> LB ^ n * M" using R(3) mult_le_mono1 [of "Q + 1" "LB ^ n" M] by simp
    ultimately have "LB ^ n * W + M < LB ^ n * (M + 1)" unfolding R(2) by (simp add: algebra_simps)
    then have "LB ^ n * W < LB ^ n * (M + 1)" by linarith
    then have "W < M + 1" by (simp only: mult_less_cancel1)
    then show ?thesis by simp
  qed
  have Mn: "M < LB ^ n" unfolding M2 [symmetric] by (rule mval_less)
  then have v3: "mval m3 xp n = W" using R(4) WM by simp
  have "(W * F) mod M = X mod M" unfolding F using R(2) by (simp add: mult.commute)
  also have "\<dots> = (x * F) mod M" using rep unfolding powm_rep_def X_def n_def by blast
  finally have Wx: "W mod M = x mod M" by (rule mod_cancel [OF cop])
  have at: "only_at ({xp..<xp + n} \<union> powm_scratch L) m m3"
    by (rule only_at_trans [OF only_in_at [OF f2] only_at_mono [OF R(5)]]) (auto simp: powm_scratch_def n_def)
  have M3: "mval m3 (L_mp L) n = M" unfolding M2 [symmetric]
    by (rule only_at_mval [OF R(5)]) (use ov(1,3) in \<open>auto simp: no_overlap_iff\<close>)
  obtain c m4 where s: "mpn_sub_n xp xp (L_mp L) n m3 = (c, m4)" by fastforce
  define m5 where "m5 = (if mpn_cmp m3 xp (L_mp L) n \<ge> 0 then m4 else m3)"
  have run: "powm_leave L cnt xp m = Some m5"
    using True R(1) s unfolding powm_leave_def n_def [symmetric] Let_def m1_def [symmetric] m2_def [symmetric] by (simp add: m5_def)
  have ge: "mpn_cmp m3 xp (L_mp L) n \<ge> 0 \<longleftrightarrow> W = M" using WM unfolding mpn_cmp_spec v3 M3 by auto
  show ?thesis
  proof (cases "W = M")
    case False
    then show ?thesis using run at v3 ge WM Wx by (simp add: m5_def M0 n_def)
  next
    case eq: True
    have "MPN_SAME_OR_INCR_P xp xp n" "MPN_SAME_OR_INCR_P xp (L_mp L) n" using ov(3) by (auto simp: overlap_defs)
    note S = mpn_sub_n_spec [OF s this, unfolded v3 M3]
    have "mval m4 xp n = LB ^ n * unat c" using S(1) eq by simp
    then have "mval m4 xp n = 0" using mval_less [of m4 xp n] by (cases "unat c") auto
    moreover have "x mod M = 0" using Wx eq by simp
    moreover have "only_at ({xp..<xp + n} \<union> powm_scratch L) m m4" by (rule only_at_trans [OF at only_in_at [OF S(3)]]) simp
    ultimately show ?thesis using run ge eq by (simp add: m5_def M0 n_def)
  qed
qed


section \<open>The function\<close>

lemma odd_vector:
  assumes "1 \<le> n"
  shows "odd (mval m p n) \<longleftrightarrow> odd (unat (m p))"
proof -
  obtain k where "n = Suc k" using assms by (cases n) auto
  moreover have "even LB" by (simp add: LB_def)
  ultimately show ?thesis by simp
qed

lemma montgomery_inverse:
  assumes n: "1 \<le> n" and M: "mval m p n = M" and o: "m p mod 2 \<noteq> 0"
  shows "- modlimb_invert (m p) * of_nat M = - 1" "coprime (LB ^ n) M"
proof -
  have w: "odd (m p)" using o by (simp add: odd_iff_mod_2_eq_one)
  show "- modlimb_invert (m p) * of_nat M = - 1"
    using modlimb_invert_correct [OF w] mod_limb [OF n M] by simp
  have "m p mod 2 \<noteq> 0 \<longleftrightarrow> odd (unat (m p))" by (simp add: limb_eq_iff unat_mod odd_iff_mod_2_eq_one)
  then have "odd M" using o odd_vector [OF n, of m p] M by simp
  then have "coprime (2 :: nat) M" by (simp add: coprime_left_2_iff_odd)
  then have "coprime ((2 :: nat) ^ 32) M" by (rule coprime_power_left_iff [THEN iffD2, OF disjI1])
  then have "coprime LB M" by (simp add: LB_def)
  then show "coprime (LB ^ n) M" by (rule coprime_power_left_iff [THEN iffD2, OF disjI1])
qed

text \<open>From the base in the table to the reduced power, in memory above \<open>tp\<close>.\<close>

lemma powm_compute:
  assumes S: "powm_setup L M F ep en gp (2 ^ (k - 1)) xp" and k: "1 \<le> k" "k < 32"
    and b: "L_mp L + L_mn L \<le> L_tp L" "ep + en \<le> L_tp L" "L_tp L \<le> gp" "L_tp L \<le> xp" "L_tp L \<le> L_qp L"
    and M: "mval m (L_mp L) (L_mn L) = M" "M = 2 ^ cnt * M0" "cnt < 32" "L_redc L \<Longrightarrow> cnt = 0" and E: "mval m ep en = E"
    and g: "powm_rep L M F m gp B" and en: "1 \<le> en" "m (ep + (en - 1)) \<noteq> 0" and z: "z = unat (count_leading_zeros (m (ep + (en - 1))))"
  shows "\<exists>m1 m2 m3 m4. powm_sqr L xp gp m = Some m1 \<and> powm_table L (2 ^ (k - 1) - 1) gp xp m1 = Some m2 \<and> powm_exp L ep en z gp k xp m2 = Some m3
    \<and> powm_leave L cnt xp m3 = Some m4 \<and> mval m4 xp (L_mn L) = B ^ E mod M0 \<and> only_at {L_tp L..} m m4"
proof -
  have ok: "powm_ok L M F" and sx: "powm_slot L xp" and sg: "\<And>j. j < 2 ^ (k - 1) \<Longrightarrow> powm_slot L (gp + L_mn L * j)"
    and sep: "\<And>j. j < 2 ^ (k - 1) \<Longrightarrow> \<not> MPN_OVERLAP_P xp (L_mn L) (gp + L_mn L * j) (L_mn L)" using S by (simp_all add: powm_setup_def)
  have K: "(0 :: nat) < 2 ^ (k - 1)" by simp
  have sg0: "powm_slot L gp" using sg [OF K] by simp
  have scr: "powm_scratch L \<subseteq> {L_tp L..}" using b(5) ok unfolding powm_scratch_def powm_ok_def by auto
  have fr: "{xp..<xp + L_mn L} \<union> powm_scratch L \<subseteq> {L_tp L..}" "{gp..<gp + L_mn L * 2 ^ (k - 1)} \<union> powm_scratch L \<subseteq> {L_tp L..}"
    using scr b(3,4) by auto
  have keepM: "mval h (L_mp L) (L_mn L) = M" if "only_at {L_tp L..} m h" for h
    unfolding M(1) [symmetric] by (rule only_at_mval [OF that]) (use b(1) in auto)
  have keepE: "mval h ep en = E" if "only_at {L_tp L..} m h" for h
    unfolding E [symmetric] by (rule only_at_mval [OF that]) (use b(2) in auto)
  obtain m1 where m1: "powm_sqr L xp gp m = Some m1" "powm_rep L M F m1 xp (B * B)" "only_at ({xp..<xp + L_mn L} \<union> powm_scratch L) m m1"
    using powm_sqr_spec [OF ok M(1) sx sg0 g] by blast
  have f1: "only_at {L_tp L..} m m1" by (rule only_at_mono [OF m1(3) fr(1)])
  have g1: "powm_rep L M F m1 gp B"
  proof (rule powm_rep_keep [OF g], rule only_at_mval [OF m1(3)])
    show "{gp..<gp + L_mn L} \<inter> ({xp..<xp + L_mn L} \<union> powm_scratch L) = {}"
      using powm_slot_scratch [OF sg0 ok] sep_disjoint [OF sep [OF K]] by auto
  qed
  have T: "powm_rep L M F m1 (gp + L_mn L * i) (B ^ (2 * i + 1))" if "i \<le> 0" for i using g1 that by simp
  have r: "0 + (2 ^ (k - 1) - 1) < (2 :: nat) ^ (k - 1)" by simp
  obtain m2 where m2: "powm_table L (2 ^ (k - 1) - 1) gp xp m1 = Some m2"
    "\<forall>i \<le> 2 ^ (k - 1) - 1. powm_rep L M F m2 (gp + L_mn L * i) (B ^ (2 * i + 1))" "only_at ({gp..<gp + L_mn L * 2 ^ (k - 1)} \<union> powm_scratch L) m1 m2"
    using powm_table_spec [OF S keepM [OF f1] m1(2) T r] by auto
  have f2: "only_at {L_tp L..} m m2" by (rule only_at_trans [OF f1 only_at_mono [OF m2(3) fr(2)]])
  have T2: "powm_rep L M F m2 (gp + L_mn L * j) (B ^ (2 * j + 1))" if "j < 2 ^ (k - 1)" for j using m2(2) that by simp
  have top: "m2 (ep + (en - 1)) = m (ep + (en - 1))" by (rule only_atD [OF f2]) (use b(2) en(1) in simp)
  have "\<exists>m3. powm_exp L ep en z gp k xp m2 = Some m3 \<and> powm_inv L M F B E ep en gp (2 ^ (k - 1)) xp m2 m3 (B ^ E)"
    by (rule powm_exp_spec [OF S k keepM [OF f2] keepE [OF f2] T2 en(1)]) (use en(2) z top in simp_all)
  then obtain m3 where m3: "powm_exp L ep en z gp k xp m2 = Some m3" "powm_inv L M F B E ep en gp (2 ^ (k - 1)) xp m2 m3 (B ^ E)" by blast
  have I: "mval m3 (L_mp L) (L_mn L) = M" "powm_rep L M F m3 xp (B ^ E)" "only_at ({xp..<xp + L_mn L} \<union> powm_scratch L) m2 m3"
    using m3(2) by (simp_all add: powm_inv_def)
  obtain m4 where m4: "powm_leave L cnt xp m3 = Some m4" "mval m4 xp (L_mn L) = B ^ E mod M0" "only_at ({xp..<xp + L_mn L} \<union> powm_scratch L) m3 m4"
    using powm_leave_spec [OF ok I(1) M(2-4) sx I(2)] by blast
  have "only_at {L_tp L..} m m4"
    by (rule only_at_trans [OF only_at_trans [OF f2 only_at_mono [OF I(3) fr(1)]] only_at_mono [OF m4(3) fr(1)]])
  then show ?thesis using m1(1) m2(1) m3(1) m4(1,2) by blast
qed

theorem mpz_powm_spec:
  assumes ok: "store_ok st" and l: "r \<in> live st" "b \<in> live st" "e \<in> live st" "m \<in> live st" and m0: "zval st m \<noteq> 0" and e0: "0 \<le> zval st e"
    and small: "ABSIZ st m < SQR_TOOM3_THRESHOLD" "ABSIZ st e < 2 ^ 27"
  shows "\<exists>st'. mpz_powm r b e m st = Some (Inr st') \<and> updates st r (zval st b ^ nat (zval st e) mod \<bar>zval st m\<bar>) st'"
proof -
  define mn M0 B E en ep where "mn = ABSIZ st m" and "M0 = nat \<bar>zval st m\<bar>" and "B = nat \<bar>zval st b\<bar>" and "E = nat (zval st e)"
    and "en = ABSIZ st e" and "ep = PTR st e"
  have nz: "SIZ st m \<noteq> 0" using m0 size_sign(2) [OF ok l(4)] by simp
  have mn: "1 \<le> mn" using nz by (simp add: mn_def Suc_leI)
  have M0: "int M0 = \<bar>zval st m\<bar>" "mval (heap st) (PTR st m) mn = M0" "0 < M0" using zval_abs [OF ok l(4)] m0 by (simp_all add: M0_def mn_def)
  have f: "ABSIZ st m \<noteq> 0" using nz by simp
  show ?thesis
  proof (cases "SIZ st e = 0")
    case True
    then have "zval st e = 0" using size_sign(2) [OF ok l(3)] by simp
    then show ?thesis using powm_one_spec [OF ok l(1,4) nz] True nz by (simp add: mpz_powm_def Let_def)
  next
    case False
    have ep0: "\<not> SIZ st e < 0" using size_sign(1) [OF ok l(3)] e0 by simp
    have en: "1 \<le> en" "nat (SIZ st e) = en" using False ep0 by (simp_all add: en_def ABSIZ_SIZ Suc_leI)
    have E: "mval (heap st) ep en = E" using zval_abs [OF ok l(3)] e0 by (simp add: E_def ep_def en_def)
    have et: "heap st (ep + (en - 1)) \<noteq> 0" using wf_ok [OF ok l(3)] False en(1) by (simp add: mpz_ok_def ep_def en_def)
    have eb: "ep + en \<le> brk st" using wf_ok [OF ok l(3)] by (simp add: mpz_ok_def ep_def en_def)
    have mb: "PTR st m + mn \<le> brk st" using wf_ok [OF ok l(4)] by (simp add: mpz_ok_def mn_def)
    define c where "c \<longleftrightarrow> mn < POWM_THRESHOLD \<and> heap st (PTR st m) mod 2 \<noteq> 0"
    define invm where "invm = (if c then - modlimb_invert (heap st (PTR st m)) else 0)"
    obtain cnt mp st1 where e1: "(if c then (0, PTR st m, st) else normalize_modulus (PTR st m) mn st) = (cnt, mp, st1)" by (metis prod_cases3)
    define M where "M = 2 ^ cnt * M0"
    have N: "cnt < 32" "mval (heap st1) mp mn = M" "only_at {brk st..} (heap st) (heap st1)" "st1 = st\<lparr>heap := heap st1, brk := brk st1\<rparr>"
      "brk st \<le> brk st1" "mp + mn \<le> brk st1" "LB ^ (mn - 1) \<le> M" "c \<Longrightarrow> cnt = 0 \<and> mp = PTR st m \<and> st1 = st"
    proof -
      show "c \<Longrightarrow> cnt = 0 \<and> mp = PTR st m \<and> st1 = st" using e1 by auto
      have "cnt < 32 \<and> mval (heap st1) mp mn = M \<and> only_at {brk st..} (heap st) (heap st1) \<and> st1 = st\<lparr>heap := heap st1, brk := brk st1\<rparr>
        \<and> brk st \<le> brk st1 \<and> mp + mn \<le> brk st1 \<and> LB ^ (mn - 1) \<le> M"
      proof (cases c)
        case True
        then have "cnt = 0" "mp = PTR st m" "st1 = st" using e1 by auto
        then show ?thesis using M0(2) mb mval_ABSIZ_ge [OF ok l(4) nz] by (simp add: M_def mn_def)
      next
        case False
        then have "normalize_modulus (PTR st m) mn st = (cnt, mp, st1)" using e1 by simp
        note R = normalize_modulus_spec [OF ok l(4) nz this [unfolded mn_def], folded mn_def M0_def]
        have "2 * LB ^ (mn - 1) \<le> LB * LB ^ (mn - 1)" by (intro mult_le_mono1) (simp add: LB_def)
        also have "\<dots> = LB ^ mn" using mn by (cases mn) simp_all
        finally have "LB ^ (mn - 1) \<le> M" using R(3) unfolding M_def by linarith
        then show ?thesis using R(1,2,4-7) unfolding M_def by blast
      qed
      then show "cnt < 32" "mval (heap st1) mp mn = M" "only_at {brk st..} (heap st) (heap st1)" "st1 = st\<lparr>heap := heap st1, brk := brk st1\<rparr>"
        "brk st \<le> brk st1" "mp + mn \<le> brk st1" "LB ^ (mn - 1) \<le> M" by blast+
    qed
    have P1: "PTR st1 = PTR st" "ABSIZ st1 = ABSIZ st" "SIZ st1 = SIZ st" by (subst N(4), simp add: PTR_def ABSIZ_def SIZ_def fun_eq_iff)+
    have h1: "heap st1 a = heap st a" if "a < brk st" for a by (rule only_atD [OF N(3)]) (use that in simp)
    define bn bp where "bn = ABSIZ st b" and "bp = PTR st b"
    have bb: "bp + bn \<le> brk st" using wf_ok [OF ok l(2)] by (simp add: mpz_ok_def bn_def bp_def)
    have vb: "mval (heap st1) bp bn = B"
    proof -
      have "mval (heap st1) bp bn = mval (heap st) bp bn" by (rule only_at_mval [OF N(3)]) (use bb in auto)
      then show ?thesis using zval_abs [OF ok l(2)] by (simp add: B_def bn_def bp_def)
    qed
    have E1: "mval (heap st1) ep en = E" unfolding E [symmetric] by (rule only_at_mval [OF N(3)]) (use eb in auto)
    have top: "heap st1 (ep + (en - 1)) = heap st (ep + (en - 1))" using h1 eb en(1) by simp
    define z where "z = unat (count_leading_zeros (heap st1 (ep + (en - 1))))"
    define k where "k = window_bits (en * 32 - z) 1"
    have "en * 32 - z < 2 ^ 32" using small(2) by (simp add: en_def)
    then have k: "1 \<le> k" "k < 32" using window_bits_bound [of "en * 32 - z" 1] by (simp_all add: k_def)
    define K where "K = (2 :: nat) ^ (k - 1)"
    have K: "2 ^ k div 2 = K" using k(1) by (cases k) (simp_all add: K_def)
    define tp qp gp xp fp where "tp = brk st1" and "qp = tp + (2 * mn + 1)" and "gp = qp + (mn + 1)" and "xp = gp + K * mn" and "fp = xp + mn"
    note lay = tp_def qp_def gp_def xp_def fp_def
    define L where "L = \<lparr>L_redc = c, L_mp = mp, L_mn = mn, L_invm = invm, L_tp = tp, L_qp = qp, L_fp = fp\<rparr>"
    define F where "F = (if c then LB ^ mn else 1)"
    have Ls: "L_redc L = c" "L_mp L = mp" "L_mn L = mn" "L_invm L = invm" "L_tp L = tp" "L_qp L = qp" "L_fp L = fp" by (simp_all add: L_def)
    have bd: "mp + mn \<le> tp" "ep + en \<le> tp" "bp + bn \<le> tp" "brk st \<le> tp" using N(5,6) eb bb by (simp_all add: tp_def)
    have M1: "0 < M" using M0(3) by (simp add: M_def)
    have "\<exists>h. powm_base c gp bp bn mp mn tp qp xp (heap st1) = Some h \<and> mval h gp mn = (B * (if c then LB ^ mn else 1)) mod M \<and> only_at {tp..} (heap st1) h"
    proof (rule powm_base_spec [OF mn _ N(2,7) vb bd(1,3)])
      have "1 * mn \<le> K * mn" by (rule mult_le_mono1) (simp add: K_def Suc_leI)
      then show "gp + mn \<le> xp" by (simp add: xp_def)
    qed (use small in \<open>simp_all add: mn_def [symmetric] qp_def gp_def\<close>)
    then obtain h2 where h2: "powm_base c gp bp bn mp mn tp qp xp (heap st1) = Some h2" "mval h2 gp mn = (B * F) mod M" "only_at {tp..} (heap st1) h2"
      unfolding F_def by blast
    have inv: "if c then F = LB ^ mn \<and> invm * of_nat M = - 1 else F = 1 \<and> LB ^ (mn - 1) \<le> M" and cop: "coprime F M"
    proof -
      have "c \<Longrightarrow> M = M0" using N(8) by (simp add: M_def)
      then show "if c then F = LB ^ mn \<and> invm * of_nat M = - 1 else F = 1 \<and> LB ^ (mn - 1) \<le> M" "coprime F M"
        using montgomery_inverse [OF mn M0(2)] N(7) by (auto simp: F_def invm_def c_def)
    qed
    have okL: "powm_ok L M F"
      unfolding powm_ok_def Ls no_overlap_iff using mn small M1 inv cop bd(1)
      by (simp add: mn_def [symmetric] qp_def gp_def xp_def fp_def)
    have S: "powm_setup L M F ep en gp (2 ^ (k - 1)) xp"
    proof -
      have below_xp: "gp + mn * j + mn \<le> xp" if "j < K" for j
        using mult_le_mono1 [of "j + 1" K mn] that by (simp add: xp_def algebra_simps)
      have "powm_slot L (gp + mn * j) \<and> \<not> MPN_OVERLAP_P xp mn (gp + mn * j) mn" if "j < K" for j
        using below_xp [OF that] bd(1) unfolding powm_slot_def Ls no_overlap_iff by (simp add: fp_def qp_def gp_def)
      moreover have "powm_slot L xp" using bd(1) unfolding powm_slot_def Ls no_overlap_iff by (simp add: fp_def qp_def gp_def xp_def)
      moreover have "{ep..<ep + en} \<inter> ({xp..<xp + mn} \<union> powm_scratch L) = {}"
        using bd(2) by (auto simp: powm_scratch_def Ls qp_def gp_def xp_def fp_def)
      ultimately show ?thesis using okL by (simp add: powm_setup_def Ls K_def)
    qed
    have g: "powm_rep L M F h2 gp B" using h2(2) M1 by (simp add: powm_rep_def Ls)
    have M2: "mval h2 mp mn = M" unfolding N(2) [symmetric] by (rule only_at_mval [OF h2(3)]) (use bd(1) in auto)
    have E2: "mval h2 ep en = E" unfolding E1 [symmetric] by (rule only_at_mval [OF h2(3)]) (use bd(2) in auto)
    have top2: "h2 (ep + (en - 1)) = heap st1 (ep + (en - 1))" by (rule only_atD [OF h2(3)]) (use bd(2) en(1) in simp)
    have "\<exists>m1 m2 m3 m4. powm_sqr L xp gp h2 = Some m1 \<and> powm_table L (2 ^ (k - 1) - 1) gp xp m1 = Some m2 \<and> powm_exp L ep en z gp k xp m2 = Some m3
      \<and> powm_leave L cnt xp m3 = Some m4 \<and> mval m4 xp (L_mn L) = B ^ E mod M0 \<and> only_at {L_tp L..} h2 m4"
    proof (rule powm_compute [OF S k])
      show "M = 2 ^ cnt * M0" by (rule M_def)
    qed (use bd M2 E2 N(1,8) g en(1) et top top2 in \<open>simp_all add: Ls z_def qp_def gp_def xp_def\<close>)
    then obtain h3 h4 h5 h6 where C: "powm_sqr L xp gp h2 = Some h3" "powm_table L (K - 1) gp xp h3 = Some h4" "powm_exp L ep en z gp k xp h4 = Some h5"
      "powm_leave L cnt xp h5 = Some h6" "mval h6 xp mn = B ^ E mod M0" "only_at {tp..} h2 h6" unfolding Ls K_def by blast
    have kb: "h6 a = heap st a" if "a < brk st" for a
      using only_atD [OF C(6), of a] only_atD [OF h2(3), of a] h1 [OF that] that bd(4) by simp
    have fin: "brk st \<le> fp" "brk st \<le> xp" "xp + mn \<le> fp" "mn \<le> mn" using bd(4) by (simp_all add: lay)
    note U = powm_result_spec [OF ok l(1,4) kb fin refl mn_def M0(2) [symmetric] C(5), of "odd E \<and> SIZ st b < 0"]
    have oddE: "h6 ep AND 1 \<noteq> 0 \<longleftrightarrow> odd E"
    proof -
      have "h6 ep = heap st ep" using kb eb en(1) by simp
      then show ?thesis using odd_vector [OF en(1), of "heap st" ep] E by (simp add: odd_limb)
    qed
    have pow: "(if odd E \<and> SIZ st b < 0 then - int (B ^ E) else int (B ^ E)) = zval st b ^ E"
    proof -
      have "zval st b = with_sign (SIZ st b < 0) B" by (rule zval_with_sign [OF ok l(2)]) (simp add: B_def)
      from signed_power [OF this] show ?thesis by simp
    qed
    have run: "mpz_powm r b e m st = Some (Inr (powm_result (odd E \<and> SIZ st b < 0) r xp mn (PTR st m) mn (st\<lparr>heap := h6, brk := fp\<rparr>)))"
    proof -
      have c1: "PTR (st1\<lparr>brk := x\<rparr>) = PTR st" "SIZ (st1\<lparr>brk := x\<rparr>) = SIZ st" "ABSIZ (st1\<lparr>brk := x\<rparr>) = ABSIZ st" for x
        using P1 by (simp_all add: PTR_def SIZ_def ABSIZ_def fun_eq_iff)
      have c2: "set_heap h6 (st1\<lparr>brk := fp\<rparr>) = st\<lparr>heap := h6, brk := fp\<rparr>" by (subst N(4)) (simp add: set_heap_def)
      have u: "brk (st\<lparr>brk := x\<rparr>) = x" "heap (st\<lparr>brk := x\<rparr>) = heap st" "st\<lparr>brk := x, brk := y\<rparr> = st\<lparr>brk := y\<rparr>" for st :: state and x y by simp_all
      show ?thesis
        unfolding mpz_powm_def Let_def if_not_P [OF f] if_not_P [OF False] if_not_P [OF ep0]
        unfolding mn_def [symmetric] en(2) c_def [symmetric] invm_def [symmetric] e1 prod.case P1 ep_def [symmetric] z_def [symmetric] k_def [symmetric] K
          ALLOCATE_FUNC_LIMBS_def prod.case u c1 bn_def [symmetric] bp_def [symmetric] lay [symmetric] h2(1) Option.bind.bind_lunit L_def [symmetric] C(1-4)
          c2 oddE ..
    qed
    then show ?thesis using U unfolding pow M0(1) unfolding E_def by blast
  qed
qed

end
