(* ===== verification/Mpz_Program.thy ===== *)
theory Mpz_Program
  imports Mpz_Powm Mpz_Bit
begin

text \<open>
  Sequences of calls: a program over the integer variables as a list of instructions, its execution with the
  operations of the model, and its abstract execution over an environment that gives each initialised
  variable an integer.  The execution refines the abstract one: whatever the abstract program computes, the
  store holds afterwards, and the store stays well-formed.  The step relation and the reachable stores are
  for the invariants.
\<close>

unbundle bit_operations_syntax

section \<open>Instructions\<close>

datatype instr =
    Init var | Init2 var limb | Clear var
  | Set var var | Set_ui var limb | Set_si var limb | Neg var var | Abs var var | Swap var var
  | Add var var var | Sub var var var | Add_ui var var limb | Sub_ui var var limb
  | Mul var var var | Mul_ui var var limb | Mul_si var var limb | Mul_2exp var var nat
  | Tdiv_q_2exp var var nat | Tdiv_r_2exp var var nat
  | Tdiv_q_ui var var limb | Fdiv_q_ui var var limb | Cdiv_q_ui var var limb
  | Tdiv_r_ui var var limb | Fdiv_r_ui var var limb | Cdiv_r_ui var var limb
  | Fdiv_qr_ui var var var limb
  | Tdiv_qr var var var var | Tdiv_q var var var | Tdiv_r var var var
  | Fdiv_qr var var var var var | Fdiv_q var var var var | Fdiv_r var var var var
  | Cdiv_qr var var var var var | Cdiv_q var var var var | Cdiv_r var var var var | Mod var var var var
  | And var var var | Ior var var var | Xor var var var | Com var var | Setbit var nat | Clrbit var nat
  | Powm var var var var | Powm_ui var var limb var

text \<open>The last variable of the divisions that round down or up is their local variable.\<close>

type_synonym outcome = "(gmp_error + state) option"

definition quot_of :: "(gmp_error + (limb \<times> state)) option \<Rightarrow> outcome" where
  "quot_of r = (case r of None \<Rightarrow> None | Some (Inl e) \<Rightarrow> Some (Inl e) | Some (Inr (_, st)) \<Rightarrow> Some (Inr st))"

fun exec :: "instr \<Rightarrow> state \<Rightarrow> outcome" where
  "exec (Init x) st = Some (Inr (mpz_init x st))"
| "exec (Init2 x bits) st = Some (Inr (mpz_init2 x bits st))"
| "exec (Clear x) st = Some (Inr (mpz_clear x st))"
| "exec (Set w u) st = Some (Inr (mpz_set w u st))"
| "exec (Set_ui w v) st = Some (Inr (mpz_set_ui w v st))"
| "exec (Set_si w v) st = Some (Inr (mpz_set_si w v st))"
| "exec (Neg w u) st = Some (Inr (mpz_neg w u st))"
| "exec (Abs w u) st = Some (Inr (mpz_abs w u st))"
| "exec (Swap u v) st = Some (Inr (mpz_swap u v st))"
| "exec (Add w u v) st = Some (Inr (mpz_add w u v st))"
| "exec (Sub w u v) st = Some (Inr (mpz_sub w u v st))"
| "exec (Add_ui w u v) st = Some (Inr (mpz_add_ui w u v st))"
| "exec (Sub_ui w u v) st = Some (Inr (mpz_sub_ui w u v st))"
| "exec (Mul w u v) st = map_option Inr (mpz_mul w u v st)"
| "exec (Mul_ui w u v) st = Some (Inr (mpz_mul_ui w u v st))"
| "exec (Mul_si w u v) st = Some (Inr (mpz_mul_si w u v st))"
| "exec (Mul_2exp w u n) st = Some (Inr (mpz_mul_2exp w u n st))"
| "exec (Tdiv_q_2exp w u n) st = Some (Inr (mpz_tdiv_q_2exp w u n st))"
| "exec (Tdiv_r_2exp w u n) st = Some (Inr (mpz_tdiv_r_2exp w u n st))"
| "exec (Tdiv_q_ui w u d) st = quot_of (Some (mpz_tdiv_q_ui w u d st))"
| "exec (Fdiv_q_ui w u d) st = quot_of (mpz_fdiv_q_ui w u d st)"
| "exec (Cdiv_q_ui w u d) st = quot_of (mpz_cdiv_q_ui w u d st)"
| "exec (Tdiv_r_ui w u d) st = quot_of (Some (mpz_tdiv_r_ui w u d st))"
| "exec (Fdiv_r_ui w u d) st = quot_of (Some (mpz_fdiv_r_ui w u d st))"
| "exec (Cdiv_r_ui w u d) st = quot_of (Some (mpz_cdiv_r_ui w u d st))"
| "exec (Fdiv_qr_ui q r u d) st = quot_of (mpz_fdiv_qr_ui q r u d st)"
| "exec (Tdiv_qr q r u v) st = mpz_tdiv_qr q r u v st"
| "exec (Tdiv_q w u v) st = mpz_tdiv_q w u v st"
| "exec (Tdiv_r w u v) st = mpz_tdiv_r w u v st"
| "exec (Fdiv_qr q r u v t) st = mpz_fdiv_qr q r u v t st"
| "exec (Fdiv_q w u v t) st = mpz_fdiv_q w u v t st"
| "exec (Fdiv_r w u v t) st = mpz_fdiv_r w u v t st"
| "exec (Cdiv_qr q r u v t) st = mpz_cdiv_qr q r u v t st"
| "exec (Cdiv_q w u v t) st = mpz_cdiv_q w u v t st"
| "exec (Cdiv_r w u v t) st = mpz_cdiv_r w u v t st"
| "exec (Mod w u v t) st = mpz_mod w u v t st"
| "exec (And w u v) st = Some (Inr (mpz_and w u v st))"
| "exec (Ior w u v) st = Some (Inr (mpz_ior w u v st))"
| "exec (Xor w u v) st = Some (Inr (mpz_xor w u v st))"
| "exec (Com w u) st = Some (Inr (mpz_com w u st))"
| "exec (Setbit d i) st = map_option Inr (mpz_setbit d i st)"
| "exec (Clrbit d i) st = map_option Inr (mpz_clrbit d i st)"
| "exec (Powm w b e m) st = mpz_powm w b e m st"
| "exec (Powm_ui w b k m) st = mpz_powm_ui w b k m st"

section \<open>The abstract machine\<close>

text \<open>An environment has a value for each initialised variable; \<open>None\<close> is a call outside the contract (a
  variable that is not initialised, or initialised twice; operands too large for the multiplications
  that are modelled).\<close>

type_synonym env = "var \<Rightarrow> int option"

definition env :: "state \<Rightarrow> env" where
  "env st = (\<lambda>x. if x \<in> live st then Some (zval st x) else None)"

definition new :: "var \<Rightarrow> env \<Rightarrow> (gmp_error + env) option" where
  "new x e = (if e x = None then Some (Inr (e(x \<mapsto> 0))) else None)"

definition const :: "var \<Rightarrow> int \<Rightarrow> env \<Rightarrow> (gmp_error + env) option" where
  "const w k e = (if e w = None then None else Some (Inr (e(w \<mapsto> k))))"

definition unary :: "var \<Rightarrow> var \<Rightarrow> (int \<Rightarrow> int) \<Rightarrow> env \<Rightarrow> (gmp_error + env) option" where
  "unary w u f e = (case e u of None \<Rightarrow> None | Some a \<Rightarrow> const w (f a) e)"

definition binary :: "var \<Rightarrow> var \<Rightarrow> var \<Rightarrow> (int \<Rightarrow> int \<Rightarrow> int) \<Rightarrow> env \<Rightarrow> (gmp_error + env) option" where
  "binary w u v f e = (case e v of None \<Rightarrow> None | Some b \<Rightarrow> unary w u (\<lambda>a. f a b) e)"

definition by_limb :: "limb \<Rightarrow> (gmp_error + env) option \<Rightarrow> env \<Rightarrow> (gmp_error + env) option" where
  "by_limb d r e = (if r = None then None else if d = 0 then Some DIVIDE_BY_ZERO else r)"

text \<open>The bounds on the operands of \<open>mpz_mul\<close>, as values.\<close>

definition mul_small :: "var \<Rightarrow> var \<Rightarrow> env \<Rightarrow> bool" where
  "mul_small u v e \<longleftrightarrow> (case (e u, e v) of
     (Some a, Some b) \<Rightarrow> min \<bar>a\<bar> \<bar>b\<bar> < int LB ^ (MUL_TOOM3_THRESHOLD - 1) \<and> (u = v \<longrightarrow> \<bar>a\<bar> < int LB ^ (SQR_TOOM3_THRESHOLD - 1))
   | _ \<Rightarrow> False)"

text \<open>The divisor is a variable, and the bound is on one of the operands.  \<open>None\<close> in the place of a result is a call
  outside the contract.\<close>

definition by_value :: "var \<Rightarrow> (gmp_error + env) option \<Rightarrow> env \<Rightarrow> (gmp_error + env) option" where
  "by_value v r e = (if r = None then None else if e v = Some 0 then Some DIVIDE_BY_ZERO else r)"

definition div_small :: "var \<Rightarrow> var \<Rightarrow> env \<Rightarrow> bool" where
  "div_small u v e \<longleftrightarrow> (case (e u, e v) of
     (Some a, Some b) \<Rightarrow> min \<bar>a\<bar> \<bar>b\<bar> < int LB ^ (MUL_TOOM3_THRESHOLD - 1) | _ \<Rightarrow> False)"

definition quot_rem :: "var \<Rightarrow> var \<Rightarrow> var \<Rightarrow> var \<Rightarrow> (int \<Rightarrow> int \<Rightarrow> int) \<Rightarrow> (int \<Rightarrow> int \<Rightarrow> int) \<Rightarrow> env \<Rightarrow> (gmp_error + env) option" where
  "quot_rem q r u v f g e = (case (e u, e v) of
     (Some a, Some b) \<Rightarrow> if e q = None \<or> e r = None \<or> q = r then None else Some (Inr (e(q \<mapsto> f a b, r \<mapsto> g a b)))
   | _ \<Rightarrow> None)"

definition divided :: "var \<Rightarrow> var \<Rightarrow> (gmp_error + env) option \<Rightarrow> env \<Rightarrow> (gmp_error + env) option" where
  "divided u v r e = (if div_small u v e then by_value v r e else None)"

text \<open>A local variable must not be one of the program.\<close>

definition with_local :: "var \<Rightarrow> (gmp_error + env) option \<Rightarrow> env \<Rightarrow> (gmp_error + env) option" where
  "with_local t r e = (if e t = None then r else None)"

definition pow_small :: "var \<Rightarrow> env \<Rightarrow> bool" where
  "pow_small m e \<longleftrightarrow> (case e m of Some b \<Rightarrow> \<bar>b\<bar> < int LB ^ (SQR_TOOM3_THRESHOLD - 1) | None \<Rightarrow> False)"

definition pow_mod :: "var \<Rightarrow> var \<Rightarrow> var \<Rightarrow> var \<Rightarrow> env \<Rightarrow> (gmp_error + env) option" where
  "pow_mod w b k m e = (case e k of
     Some i \<Rightarrow> if i < 0 \<or> \<not> pow_small k e \<or> \<not> pow_small m e then None else by_value m (binary w b m (\<lambda>a c. a ^ nat i mod \<bar>c\<bar>) e) e
   | None \<Rightarrow> None)"

fun aexec :: "instr \<Rightarrow> env \<Rightarrow> (gmp_error + env) option" where
  "aexec (Init x) e = new x e"
| "aexec (Init2 x bits) e = new x e"
| "aexec (Clear x) e = (if e x = None then None else Some (Inr (e(x := None))))"
| "aexec (Set w u) e = unary w u (\<lambda>a. a) e"
| "aexec (Set_ui w v) e = const w (int (unat v)) e"
| "aexec (Set_si w v) e = const w (sint v) e"
| "aexec (Neg w u) e = unary w u uminus e"
| "aexec (Abs w u) e = unary w u abs e"
| "aexec (Swap u v) e = (if e u = None \<or> e v = None then None else Some (Inr (e(u := e v, v := e u))))"
| "aexec (Add w u v) e = binary w u v (+) e"
| "aexec (Sub w u v) e = binary w u v (-) e"
| "aexec (Add_ui w u v) e = unary w u (\<lambda>a. a + int (unat v)) e"
| "aexec (Sub_ui w u v) e = unary w u (\<lambda>a. a - int (unat v)) e"
| "aexec (Mul w u v) e = (if mul_small u v e then binary w u v (*) e else None)"
| "aexec (Mul_ui w u v) e = unary w u (\<lambda>a. a * int (unat v)) e"
| "aexec (Mul_si w u v) e = unary w u (\<lambda>a. a * sint v) e"
| "aexec (Mul_2exp w u n) e = unary w u (\<lambda>a. a * 2 ^ n) e"
| "aexec (Tdiv_q_2exp w u n) e = unary w u (\<lambda>a. a sdiv 2 ^ n) e"
| "aexec (Tdiv_r_2exp w u n) e = unary w u (\<lambda>a. a smod 2 ^ n) e"
| "aexec (Tdiv_q_ui w u d) e = by_limb d (unary w u (\<lambda>a. a sdiv int (unat d)) e) e"
| "aexec (Fdiv_q_ui w u d) e = by_limb d (unary w u (\<lambda>a. a div int (unat d)) e) e"
| "aexec (Cdiv_q_ui w u d) e = by_limb d (unary w u (\<lambda>a. cdiv a (int (unat d))) e) e"
| "aexec (Tdiv_r_ui w u d) e = by_limb d (unary w u (\<lambda>a. a smod int (unat d)) e) e"
| "aexec (Fdiv_r_ui w u d) e = by_limb d (unary w u (\<lambda>a. a mod int (unat d)) e) e"
| "aexec (Cdiv_r_ui w u d) e = by_limb d (unary w u (\<lambda>a. cmod a (int (unat d))) e) e"
| "aexec (Fdiv_qr_ui q r u d) e = by_limb d
     (case e u of None \<Rightarrow> None | Some a \<Rightarrow>
        if e q = None \<or> e r = None \<or> q = r then None
        else Some (Inr (e(q \<mapsto> a div int (unat d), r \<mapsto> a mod int (unat d))))) e"
| "aexec (Tdiv_qr q r u v) e = divided u v (quot_rem q r u v (sdiv) (smod) e) e"
| "aexec (Tdiv_q w u v) e = divided u v (binary w u v (sdiv) e) e"
| "aexec (Tdiv_r w u v) e = divided u v (binary w u v (smod) e) e"
| "aexec (Fdiv_qr q r u v t) e = with_local t (divided u v (quot_rem q r u v (div) (mod) e) e) e"
| "aexec (Fdiv_q w u v t) e = with_local t (divided u v (binary w u v (div) e) e) e"
| "aexec (Fdiv_r w u v t) e = with_local t (divided u v (binary w u v (mod) e) e) e"
| "aexec (Cdiv_qr q r u v t) e = with_local t (divided u v (quot_rem q r u v cdiv cmod e) e) e"
| "aexec (Cdiv_q w u v t) e = with_local t (divided u v (binary w u v cdiv e) e) e"
| "aexec (Cdiv_r w u v t) e = with_local t (divided u v (binary w u v cmod e) e) e"
| "aexec (Mod w u v t) e = with_local t (divided u v (binary w u v (\<lambda>a b. a mod \<bar>b\<bar>) e) e) e"
| "aexec (And w u v) e = binary w u v (AND) e"
| "aexec (Ior w u v) e = binary w u v (OR) e"
| "aexec (Xor w u v) e = binary w u v (XOR) e"
| "aexec (Com w u) e = unary w u NOT e"
| "aexec (Setbit d i) e = unary d d (set_bit i) e"
| "aexec (Clrbit d i) e = unary d d (unset_bit i) e"
| "aexec (Powm w b k m) e = pow_mod w b k m e"
| "aexec (Powm_ui w b k m) e = (if pow_small m e then by_value m (binary w b m (\<lambda>a c. a ^ unat k mod \<bar>c\<bar>) e) e else None)"

section \<open>Refinement\<close>

text \<open>An outcome of the code that implements an abstract outcome.\<close>

fun implements :: "outcome \<Rightarrow> gmp_error + env \<Rightarrow> bool" where
  "implements (Some (Inl c)) (Inl a) = (c = a)"
| "implements (Some (Inr st)) (Inr e) = (store_ok st \<and> env st = e)"
| "implements _ _ = False"

lemma env_Some [simp]: "env st x = Some a \<longleftrightarrow> x \<in> live st \<and> a = zval st x"
  by (auto simp: env_def)

lemma env_None [simp]: "env st x = None \<longleftrightarrow> x \<notin> live st"
  by (simp add: env_def)

lemma updates_implements:
  assumes "updates st w k st'" "w \<in> live st"
  shows "implements (Some (Inr st')) (Inr ((env st)(w \<mapsto> k)))"
  using assms by (auto simp: updates_def env_def fun_eq_iff)

lemma const_refines: "const w k (env st) = Some r \<Longrightarrow> (w \<in> live st \<Longrightarrow> updates st w k st') \<Longrightarrow> implements (Some (Inr st')) r"
  using updates_implements [of st w k st'] by (auto simp: const_def split: if_splits)

lemma unary_refines:
  "unary w u f (env st) = Some r \<Longrightarrow> (w \<in> live st \<Longrightarrow> u \<in> live st \<Longrightarrow> updates st w (f (zval st u)) st') \<Longrightarrow> implements (Some (Inr st')) r"
  by (auto simp: unary_def split: option.splits intro!: const_refines)

lemma binary_refines:
  "binary w u v f (env st) = Some r \<Longrightarrow>
   (w \<in> live st \<Longrightarrow> u \<in> live st \<Longrightarrow> v \<in> live st \<Longrightarrow> updates st w (f (zval st u) (zval st v)) st') \<Longrightarrow> implements (Some (Inr st')) r"
  by (auto simp: binary_def split: option.splits intro!: unary_refines [where f = "\<lambda>a. f a (zval st v)"])

lemma new_refines:
  assumes "new x (env st) = Some r" and "x \<notin> live st \<Longrightarrow> store_ok st' \<and> live st' = insert x (live st) \<and> zval st' x = 0
    \<and> (\<forall>y \<in> live st. zval st' y = zval st y)"
  shows "implements (Some (Inr st')) r"
  using assms by (auto simp: new_def env_def fun_eq_iff split: if_splits)

text \<open>Each interface gives the refinement for all the operations that meet it.\<close>

context mpz_unop
begin

lemma refines: "unary w u f (env st) = Some r \<Longrightarrow> store_ok st \<Longrightarrow> implements (Some (Inr (opr w u st))) r"
  using unary_refines contract by blast

end

context mpz_binop
begin

lemma refines: "binary w u v f (env st) = Some r \<Longrightarrow> store_ok st \<Longrightarrow> implements (Some (Inr (opr w u v st))) r"
  using binary_refines contract by blast

end

context mpz_div_limb
begin

lemma refines:
  assumes "by_limb d (unary w u (\<lambda>a. f a (int (unat d))) (env st)) (env st) = Some r" "store_ok st"
  shows "implements (quot_of (opr w u d st)) r"
proof (cases "d = 0")
  case True
  then show ?thesis using assms(1) by_zero [of w u st] by (auto simp: by_limb_def quot_of_def DIVIDE_BY_ZERO_def split: if_splits)
next
  case False
  then have u: "unary w u (\<lambda>a. f a (int (unat d))) (env st) = Some r" using assms(1) by (auto simp: by_limb_def split: if_splits)
  then have l: "w \<in> live st" "u \<in> live st" by (auto simp: unary_def const_def split: option.splits if_splits)
  obtain rl st' where "opr w u d st = Some (Inr (rl, st'))" "updates st w (f (zval st u) (int (unat d))) st'"
    using contract [OF assms(2) l False] by blast
  then show ?thesis using unary_refines [OF u] by (simp add: quot_of_def)
qed

end

lemma ABSIZ_bound:
  assumes "store_ok st" "x \<in> live st" "\<bar>zval st x\<bar> < int LB ^ k"
  shows "ABSIZ st x \<le> k"
proof (rule ccontr)
  assume n: "\<not> ABSIZ st x \<le> k"
  then have "SIZ st x \<noteq> 0" by (auto simp: ABSIZ_SIZ)
  from mval_ABSIZ_ge [OF assms(1,2) this] have "int (LB ^ (ABSIZ st x - 1)) \<le> \<bar>zval st x\<bar>"
    unfolding zval_abs [OF assms(1,2)] by linarith
  moreover have "int LB ^ k \<le> int LB ^ (ABSIZ st x - 1)" using n by (intro power_increasing) (auto simp: LB_def)
  ultimately show False using assms(3) unfolding of_nat_power by linarith
qed

lemma mul_refines:
  assumes "mul_small u v (env st)" "binary w u v (*) (env st) = Some r" "store_ok st"
  shows "implements (map_option Inr (mpz_mul w u v st)) r"
proof -
  have l: "w \<in> live st" "u \<in> live st" "v \<in> live st"
    using assms(2) by (auto simp: binary_def unary_def const_def split: option.splits if_splits)
  have s: "min \<bar>zval st u\<bar> \<bar>zval st v\<bar> < int LB ^ (MUL_TOOM3_THRESHOLD - 1)" "u = v \<longrightarrow> \<bar>zval st u\<bar> < int LB ^ (SQR_TOOM3_THRESHOLD - 1)"
    using assms(1) l by (auto simp: mul_small_def env_def)
  have "ABSIZ st u \<le> MUL_TOOM3_THRESHOLD - 1 \<or> ABSIZ st v \<le> MUL_TOOM3_THRESHOLD - 1"
    using s(1) ABSIZ_bound [OF assms(3)] l by (auto simp: min_def split: if_splits)
  moreover have "u = v \<longrightarrow> ABSIZ st u \<le> SQR_TOOM3_THRESHOLD - 1" using s(2) ABSIZ_bound [OF assms(3) l(2)] by blast
  ultimately have "min (ABSIZ st u) (ABSIZ st v) < MUL_TOOM3_THRESHOLD" "u = v \<longrightarrow> ABSIZ st u < SQR_TOOM3_THRESHOLD"
    by (auto simp: MUL_TOOM3_THRESHOLD_def SQR_TOOM3_THRESHOLD_def)
  from mpz_mul_spec [OF assms(3) l this] obtain st' where "mpz_mul w u v st = Some st'" "updates st w (zval st u * zval st v) st'"
    by blast
  then show ?thesis using binary_refines [OF assms(2)] by simp
qed

lemma fdiv_qr_refines:
  assumes "aexec (Fdiv_qr_ui q x u d) (env st) = Some r" "store_ok st"
  shows "implements (exec (Fdiv_qr_ui q x u d) st) r"
proof (cases "d = 0")
  case True
  then show ?thesis using assms(1) mpz_fdiv_qr_ui.by_zero [of q x u st]
    by (auto simp: by_limb_def quot_of_def DIVIDE_BY_ZERO_def split: if_splits)
next
  case False
  then have l: "q \<in> live st" "x \<in> live st" "q \<noteq> x" "u \<in> live st"
    and r: "r = Inr ((env st)(q \<mapsto> zval st u div int (unat d), x \<mapsto> zval st u mod int (unat d)))"
    using assms(1) by (auto simp: by_limb_def split: if_splits option.splits)
  obtain rl st' where "mpz_fdiv_qr_ui q x u d st = Some (Inr (rl, st'))"
    and U: "updates2 st q (zval st u div int (unat d)) x (zval st u mod int (unat d)) st'"
    using mpz_fdiv_qr_ui.contract [OF assms(2) l False] by blast
  moreover have "env st' = (env st)(q \<mapsto> zval st u div int (unat d), x \<mapsto> zval st u mod int (unat d))" "store_ok st'"
    using U l by (auto simp: updates2_def env_def fun_eq_iff)
  ultimately show ?thesis unfolding r by (simp add: quot_of_def)
qed

text \<open>Divisions by a variable.\<close>

lemma divideD:
  assumes "divided u v r0 (env st) = Some r" "store_ok st"
  shows "u \<in> live st" "v \<in> live st" "zval st v \<noteq> 0 \<Longrightarrow> small_division st u v"
    "if zval st v = 0 then r = DIVIDE_BY_ZERO \<and> r0 \<noteq> None else r0 = Some r"
proof -
  have m: "div_small u v (env st)" "by_value v r0 (env st) = Some r" using assms(1) by (auto simp: divided_def split: if_splits)
  then show l: "u \<in> live st" "v \<in> live st" by (auto simp: div_small_def split: option.splits)
  show "if zval st v = 0 then r = DIVIDE_BY_ZERO \<and> r0 \<noteq> None else r0 = Some r" using m(2) l by (auto simp: by_value_def split: if_splits)
  have "\<bar>zval st u\<bar> < int LB ^ (MUL_TOOM3_THRESHOLD - 1) \<or> \<bar>zval st v\<bar> < int LB ^ (MUL_TOOM3_THRESHOLD - 1)"
    using m(1) l by (auto simp: div_small_def env_def min_def split: if_splits)
  then have s: "ABSIZ st u \<le> MUL_TOOM3_THRESHOLD - 1 \<or> ABSIZ st v \<le> MUL_TOOM3_THRESHOLD - 1"
    using ABSIZ_bound [OF assms(2)] l by blast
  assume "zval st v \<noteq> 0"
  then have "1 \<le> ABSIZ st v" using zval_0_iff [OF assms(2) l(2)] by (simp add: ABSIZ_SIZ)
  with s show "small_division st u v" by (auto simp: MUL_TOOM3_THRESHOLD_def)
qed

lemma binaryD: "binary w u v f (env st) \<noteq> None \<Longrightarrow> w \<in> live st \<and> u \<in> live st \<and> v \<in> live st"
  by (auto simp: binary_def unary_def const_def split: option.splits if_splits)

lemma division_refines:
  assumes "divided u v (binary w u v f (env st)) (env st) = Some r" "store_ok st"
    and c: "w \<in> live st \<Longrightarrow> u \<in> live st \<Longrightarrow> v \<in> live st \<Longrightarrow> (zval st v \<noteq> 0 \<Longrightarrow> small_division st u v) \<Longrightarrow>
      if zval st v = 0 then out = Some DIVIDE_BY_ZERO else \<exists>st'. out = Some (Inr st') \<and> updates st w (f (zval st u) (zval st v)) st'"
  shows "implements out r"
proof -
  note D = divideD [OF assms(1,2)]
  have "w \<in> live st" using D(4) binaryD [of w u v f st] by (auto split: if_splits)
  note C = c [OF this D(1-3)]
  show ?thesis
  proof (cases "zval st v = 0")
    case True
    then show ?thesis using C D(4) by (simp add: DIVIDE_BY_ZERO_def)
  next
    case False
    then obtain st' where "out = Some (Inr st')" "updates st w (f (zval st u) (zval st v)) st'" using C by auto
    then show ?thesis using binary_refines [of w u v f st r st'] D(4) False by simp
  qed
qed

lemma division2_refines:
  assumes "divided u v (quot_rem q x u v f g (env st)) (env st) = Some r" "store_ok st"
    and c: "q \<in> live st \<Longrightarrow> x \<in> live st \<Longrightarrow> q \<noteq> x \<Longrightarrow> u \<in> live st \<Longrightarrow> v \<in> live st \<Longrightarrow> (zval st v \<noteq> 0 \<Longrightarrow> small_division st u v) \<Longrightarrow>
      if zval st v = 0 then out = Some DIVIDE_BY_ZERO
      else \<exists>st'. out = Some (Inr st') \<and> updates2 st q (f (zval st u) (zval st v)) x (g (zval st u) (zval st v)) st'"
  shows "implements out r"
proof -
  note D = divideD [OF assms(1,2)]
  have l: "q \<in> live st" "x \<in> live st" "q \<noteq> x" using D(4) by (auto simp: quot_rem_def split: if_splits option.splits)
  note C = c [OF l D(1-3)]
  show ?thesis
  proof (cases "zval st v = 0")
    case True
    then show ?thesis using C D(4) by (simp add: DIVIDE_BY_ZERO_def)
  next
    case False
    then obtain st' where s: "out = Some (Inr st')" "updates2 st q (f (zval st u) (zval st v)) x (g (zval st u) (zval st v)) st'"
      using C by auto
    have "r = Inr ((env st)(q \<mapsto> f (zval st u) (zval st v), x \<mapsto> g (zval st u) (zval st v)))"
      using D(1,2,4) l False by (auto simp: quot_rem_def env_def split: if_splits)
    moreover have "env st' = (env st)(q \<mapsto> f (zval st u) (zval st v), x \<mapsto> g (zval st u) (zval st v))" "store_ok st'"
      using s(2) l by (auto simp: updates2_def env_def fun_eq_iff)
    ultimately show ?thesis using s(1) by simp
  qed
qed

lemma tdiv_refines:
  assumes "store_ok st"
  shows "divided u v (binary w u v (sdiv) (env st)) (env st) = Some r \<Longrightarrow> implements (mpz_tdiv_q w u v st) r"
    and "divided u v (binary w u v (smod) (env st)) (env st) = Some r \<Longrightarrow> implements (mpz_tdiv_r w u v st) r"
    and "divided u v (quot_rem q x u v (sdiv) (smod) (env st)) (env st) = Some r \<Longrightarrow> implements (mpz_tdiv_qr q x u v st) r"
  using assms mpz_tdiv_q_spec [of st w u v] mpz_tdiv_r_spec [of st w u v] mpz_tdiv_qr_spec [of st q x u v]
    tdiv_by_zero [of st v] size_sign(2) [of st v]
  by (auto elim!: division_refines division2_refines)

context mpz_division1
begin

lemma refines:
  assumes "with_local t (divided u v (binary w u v f (env st)) (env st)) (env st) = Some r" "store_ok st"
  shows "implements (opr w u v t st) r"
proof -
  have "divided u v (binary w u v f (env st)) (env st) = Some r" "t \<notin> live st" using assms(1) by (auto simp: with_local_def split: if_splits)
  then show ?thesis using division_refines [of u v w f st r "opr w u v t st"] outcome [OF assms(2), of w u v t] assms(2) by blast
qed

end

context mpz_division
begin

lemma refines:
  assumes "with_local t (divided u v (quot_rem q x u v f g (env st)) (env st)) (env st) = Some r" "store_ok st"
  shows "implements (opr q x u v t st) r"
proof -
  have "divided u v (quot_rem q x u v f g (env st)) (env st) = Some r" "t \<notin> live st" using assms(1) by (auto simp: with_local_def split: if_splits)
  then show ?thesis using division2_refines [of u v q x f g st r "opr q x u v t st"] outcome [OF assms(2), of q x u v t] assms(2) by blast
qed

end

lemmas divisions = tdiv_refines mpz_fdiv_q.refines mpz_fdiv_r.refines mpz_cdiv_q.refines mpz_cdiv_r.refines mpz_mod.refines
  mpz_fdiv_qr.refines mpz_cdiv_qr.refines

text \<open>Single bits.\<close>

lemma bit_refines:
  assumes "unary d d f (env st) = Some r" "d \<in> live st \<Longrightarrow> \<exists>st'. out = Some st' \<and> updates st d (f (zval st d)) st'"
  shows "implements (map_option Inr out) r"
proof -
  have "d \<in> live st" using assms(1) by (auto simp: unary_def split: option.splits)
  then obtain st' where "out = Some st'" "updates st d (f (zval st d)) st'" using assms(2) by blast
  then show ?thesis using unary_refines [OF assms(1)] by simp
qed

text \<open>Powers.\<close>

lemma pow_smallD: "pow_small m (env st) \<Longrightarrow> store_ok st \<Longrightarrow> m \<in> live st \<and> ABSIZ st m < SQR_TOOM3_THRESHOLD"
  using ABSIZ_bound [of st m "SQR_TOOM3_THRESHOLD - 1"]
  by (auto simp: pow_small_def env_def SQR_TOOM3_THRESHOLD_def split: if_splits option.splits)

lemma powm_by_zero: "SIZ st m = 0 \<Longrightarrow> mpz_powm w b k m st = Some DIVIDE_BY_ZERO" "SIZ st m = 0 \<Longrightarrow> mpz_powm_ui w b j m st = Some DIVIDE_BY_ZERO"
  by (simp_all add: mpz_powm_def mpz_powm_ui_def)

lemma modular_refines:
  assumes "by_value m (binary w b m f (env st)) (env st) = Some r" "store_ok st"
    and z: "SIZ st m = 0 \<Longrightarrow> out = Some DIVIDE_BY_ZERO"
    and c: "w \<in> live st \<Longrightarrow> b \<in> live st \<Longrightarrow> m \<in> live st \<Longrightarrow> zval st m \<noteq> 0 \<Longrightarrow> \<exists>st'. out = Some (Inr st') \<and> updates st w (f (zval st b) (zval st m)) st'"
  shows "implements out r"
proof -
  have l: "w \<in> live st \<and> b \<in> live st \<and> m \<in> live st" using assms(1) binaryD [of w b m f st] by (auto simp: by_value_def split: if_splits)
  show ?thesis
  proof (cases "zval st m = 0")
    case True
    then have "out = Some DIVIDE_BY_ZERO" "r = DIVIDE_BY_ZERO"
      using z l zval_0_iff [OF assms(2), of m] assms(1) by (auto simp: by_value_def split: if_splits)
    then show ?thesis by (simp add: DIVIDE_BY_ZERO_def)
  next
    case False
    then have "binary w b m f (env st) = Some r" using assms(1) by (auto simp: by_value_def split: if_splits)
    with c False l show ?thesis using binary_refines [of w b m f st r] by auto
  qed
qed

lemma powm_refines:
  assumes "pow_mod w b k m (env st) = Some r" "store_ok st"
  shows "implements (mpz_powm w b k m st) r"
proof -
  obtain s: "pow_small k (env st)" "pow_small m (env st)" and k: "0 \<le> zval st k"
    and v: "by_value m (binary w b m (\<lambda>a c. a ^ nat (zval st k) mod \<bar>c\<bar>) (env st)) (env st) = Some r"
    using assms(1) by (auto simp: pow_mod_def split: option.splits if_splits)
  have l: "k \<in> live st" "ABSIZ st k < 2 ^ 27" "ABSIZ st m < SQR_TOOM3_THRESHOLD"
    using pow_smallD [OF s(1) assms(2)] pow_smallD [OF s(2) assms(2)] by (auto simp: SQR_TOOM3_THRESHOLD_def)
  show ?thesis
    by (rule modular_refines [OF v assms(2) powm_by_zero(1)]) (use mpz_powm_spec [OF assms(2), of w b k m] k l in auto)
qed

lemma powm_ui_refines:
  assumes "aexec (Powm_ui w b j m) (env st) = Some r" "store_ok st"
  shows "implements (mpz_powm_ui w b j m st) r"
proof -
  obtain s: "pow_small m (env st)" and v: "by_value m (binary w b m (\<lambda>a c. a ^ unat j mod \<bar>c\<bar>) (env st)) (env st) = Some r"
    using assms(1) by (auto split: if_splits)
  have l: "ABSIZ st m < SQR_TOOM3_THRESHOLD" using pow_smallD [OF s assms(2)] by simp
  show ?thesis
    by (rule modular_refines [OF v assms(2) powm_by_zero(2)]) (use mpz_powm_ui_spec [OF assms(2), of w b m j] l in auto)
qed

lemmas unary_operations = mpz_set.refines mpz_com.refines mpz_neg.refines mpz_abs.refines mpz_add_ui.refines mpz_sub_ui.refines
  mpz_mul_ui.refines mpz_mul_si.refines mpz_mul_2exp.refines mpz_tdiv_q_2exp.refines mpz_tdiv_r_2exp.refines

lemmas divisions_by_limb = mpz_tdiv_q_ui.refines mpz_fdiv_q_ui.refines mpz_cdiv_q_ui.refines
  mpz_tdiv_r_ui.refines mpz_fdiv_r_ui.refines mpz_cdiv_r_ui.refines

theorem exec_refines:
  assumes "aexec i (env st) = Some r" "store_ok st"
  shows "implements (exec i st) r"
proof (cases i)
  case (Init x)
  then show ?thesis using assms mpz_init_spec [of st x] by (auto intro!: new_refines)
next
  case (Init2 x bits)
  then show ?thesis using assms mpz_init2_spec(1-4) [of st x] by (auto intro!: new_refines)
next
  case (Clear x)
  then show ?thesis using assms mpz_clear_spec [of st x] by (auto simp: env_def fun_eq_iff mpz_clear_def split: if_splits)
next
  case (Swap u v)
  then show ?thesis using assms mpz_swap_spec [of st u v] by (auto simp: env_def fun_eq_iff split: if_splits)
next
  case (Set_ui w v)
  then show ?thesis using assms mpz_set_ui_spec [of st w v] by (auto intro!: const_refines)
next
  case (Set_si w v)
  then show ?thesis using assms mpz_set_si_spec [of st w v] by (auto intro!: const_refines)
next
  case (Add w u v)
  then show ?thesis using assms mpz_add.refines [of w u v] by simp
next
  case (Sub w u v)
  then show ?thesis using assms mpz_sub.refines [of w u v] by simp
next
  case (Mul w u v)
  then show ?thesis using assms mul_refines [of u v st w] by (simp split: if_splits)
next
  case (Fdiv_qr_ui q x u d)
  then show ?thesis using assms fdiv_qr_refines by blast
next
  case (And w u v)
  then show ?thesis using assms mpz_and.refines [of w u v] by simp
next
  case (Ior w u v)
  then show ?thesis using assms mpz_ior.refines [of w u v] by simp
next
  case (Xor w u v)
  then show ?thesis using assms mpz_xor.refines [of w u v] by simp
next
  case (Setbit d i)
  then show ?thesis using assms bit_refines [of d "set_bit i" st r "mpz_setbit d i st"] mpz_setbit_spec by auto
next
  case (Clrbit d i)
  then show ?thesis using assms bit_refines [of d "unset_bit i" st r "mpz_clrbit d i st"] mpz_clrbit_spec by auto
next
  case (Powm w b k m)
  then show ?thesis using assms powm_refines by simp
next
  case (Powm_ui w b j m)
  then show ?thesis using assms powm_ui_refines by simp
qed (use assms in \<open>simp_all add: unary_operations divisions_by_limb divisions del: of_nat_unat\<close>)

section \<open>Programs\<close>

text \<open>A program stops at the first error.\<close>

fun run :: "instr list \<Rightarrow> state \<Rightarrow> outcome" where
  "run [] st = Some (Inr st)"
| "run (i # is) st = (case exec i st of Some (Inr st') \<Rightarrow> run is st' | r \<Rightarrow> r)"

fun arun :: "instr list \<Rightarrow> env \<Rightarrow> (gmp_error + env) option" where
  "arun [] e = Some (Inr e)"
| "arun (i # is) e = (case aexec i e of Some (Inr e') \<Rightarrow> arun is e' | r \<Rightarrow> r)"

theorem run_refines: "arun is (env st) = Some r \<Longrightarrow> store_ok st \<Longrightarrow> implements (run is st) r"
proof (induction "is" arbitrary: st)
  case (Cons i "is")
  from Cons.prems(1) obtain r1 where r1: "aexec i (env st) = Some r1" by (auto split: option.splits)
  note E = exec_refines [OF r1 Cons.prems(2)]
  show ?case
  proof (cases r1)
    case (Inl e)
    then have "exec i st = Some (Inl e)" using E by (cases "exec i st") (auto elim: implements.elims)
    then show ?thesis using Cons.prems(1) r1 Inl by auto
  next
    case (Inr e)
    then obtain st1 where "exec i st = Some (Inr st1)" "store_ok st1" "env st1 = e" using E by (auto elim: implements.elims)
    then show ?thesis using Cons r1 Inr by auto
  qed
qed auto

section \<open>Reachable stores\<close>

text \<open>A step is a call inside the contract that returns; the calls start from a store without variables.\<close>

inductive step :: "state \<Rightarrow> state \<Rightarrow> bool" where
  call: "aexec i (env st) = Some (Inr e) \<Longrightarrow> exec i st = Some (Inr st') \<Longrightarrow> step st st'"

inductive reachable :: "state \<Rightarrow> bool" where
  start: "live st = {} \<Longrightarrow> reachable st"
| step: "reachable st \<Longrightarrow> step st st' \<Longrightarrow> reachable st'"

inductive_cases stepE: "step st st'"

theorem reachable_store_ok: "reachable st \<Longrightarrow> store_ok st"
proof (induction rule: reachable.induct)
  case (start st)
  then show ?case by (simp add: store_ok_def)
next
  case (step st st')
  from step.hyps(2) show ?case
  proof (rule stepE)
    fix i e
    assume "aexec i (env st) = Some (Inr e)" "exec i st = Some (Inr st')"
    then show "store_ok st'" using exec_refines [of i st "Inr e"] step.IH by simp
  qed
qed

text \<open>A call inside the contract never gets stuck: it returns, or it raises the error of the abstract machine.\<close>

lemma progress: "aexec i (env st) = Some r \<Longrightarrow> store_ok st \<Longrightarrow> exec i st \<noteq> None"
  using exec_refines [of i st r] by (cases r; cases "exec i st") auto

section \<open>The representation is canonical\<close>

text \<open>Two variables with the same value have the same size and the same limbs.\<close>

lemma size_from_value:
  assumes "store_ok st" "x \<in> live st" "y \<in> live st" "\<bar>zval st x\<bar> = \<bar>zval st y\<bar>"
  shows "ABSIZ st x \<le> ABSIZ st y"
proof -
  have "\<bar>zval st x\<bar> < int LB ^ ABSIZ st y"
    unfolding assms(4) zval_abs [OF assms(1,3)] using mval_less [of "heap st" "PTR st y" "ABSIZ st y"]
    by (metis of_nat_less_iff of_nat_power)
  then show ?thesis by (rule ABSIZ_bound [OF assms(1,2)])
qed

theorem representation_canonical:
  assumes "store_ok st" "x \<in> live st" "y \<in> live st" "zval st x = zval st y"
  shows "SIZ st x = SIZ st y" "i < ABSIZ st x \<Longrightarrow> heap st (PTR st x + i) = heap st (PTR st y + i)"
proof -
  have a: "ABSIZ st x = ABSIZ st y"
    using size_from_value [OF assms(1-3)] size_from_value [OF assms(1,3,2)] assms(4) by simp
  moreover have "sgn (SIZ st x) = sgn (SIZ st y)" using zval_sgn [OF assms(1,2)] zval_sgn [OF assms(1,3)] assms(4) by simp
  ultimately show "SIZ st x = SIZ st y" unfolding ABSIZ_SIZ by (auto simp: sgn_if split: if_splits)
  have "mval (heap st) (PTR st x) (ABSIZ st x) = mval (heap st) (PTR st y) (ABSIZ st x)"
    using zval_abs [OF assms(1,2)] zval_abs [OF assms(1,3)] assms(4) a by simp
  then show "i < ABSIZ st x \<Longrightarrow> heap st (PTR st x + i) = heap st (PTR st y + i)" by (rule mval_inj)
qed

end
