(* ===== verification/Spec2Isabelle.thy ===== *)
theory Spec2Isabelle
  imports Mpz_Scan Mpz_GcdUi Mpz_Cfdiv Mpz_Divexact Mpz_Program "HOL-Library.Code_Target_Numeral"
begin

text \<open>
  This development verifies the integer core of the multi-precision library the repository builds its
  protocols on: GMP 4.1.0 in \<open>src/Libs/gmp-vc\<close>, as the Windows build compiles it (32-bit limbs, no nail
  bits, no assembler, generic C routines, the thresholds of \<open>gmp-mparam.h\<close>, assertions off).

  The program.  GMP has layers.  \<open>longlong.h\<close> gives arithmetic on pairs of limbs.  The \<open>mpn\<close> layer
  (\<open>mpn/generic\<close>, and macros of \<open>gmp-impl.h\<close> and \<open>gmp.h\<close>) works on vectors of limbs, given by a pointer and a
  length, least significant limb first; the caller allocates, and overlap of the regions is restricted per
  routine.  The \<open>mpz\<close> layer (\<open>mpz\<close>) keeps variables with an allocated size, a signed size and a pointer;
  its functions reallocate the destination, call \<open>mpn\<close> routines and set the size and sign.  Any of the
  arguments of an \<open>mpz\<close> function may be the same variable.

  The model.  A limb is a \<open>32 word\<close>, a pointer a number, the memory a function from addresses to limbs; an
  \<open>mpn\<close> routine takes the memory and returns it updated, so every aliasing of its regions is a call of the
  same definition.  The state of the \<open>mpz\<close> layer has the memory, the variables (records of \<open>mp_alloc\<close>,
  \<open>mp_size\<close>, \<open>mp_d\<close>), the set of initialised ones, and the first free address.  Loops are recursion on the
  counter; loops without a bound on a counter (carries, the quotient corrections of \<open>divrem_2.c\<close> and
  \<open>dc_divrem_n.c\<close>, searches for a nonzero limb) are partial functions, whose callers are proved to return.  An error is the left side of a sum.  Local arrays and
  temporary blocks of the \<open>mpn\<close> routines are pointer arguments of the definitions (\<open>tp\<close>, \<open>ws\<close>), with their
  sizes in the specifications.

  The theories, each with the definitions, then the lemmas:
  \<^item> \<open>Prelude\<close>: limbs, memory, \<open>mval\<close> (the number a vector of limbs holds), the frames \<open>only_in\<close> and \<open>only_at\<close>
    (what a routine may write), the overlap predicates of \<open>gmp-impl.h\<close>, thresholds.
  \<^item> \<open>Longlong\<close>: \<open>longlong.h\<close> and the division by an inverse (\<open>gmp-impl.h\<close>): exact products, quotients and
    remainders of double limbs, leading and trailing zeros, the inverse modulo the limb base.
  \<^item> \<open>Mpn_Basic\<close>: copies, normalization, addition, subtraction, comparison, shifts, carry propagation, logical
    operations.
  \<^item> \<open>Mpn_Mul\<close>: products with a limb, schoolbook multiplication and squaring.  \<open>Mpn_Kara\<close>: Karatsuba
    multiplication and squaring (\<open>mul_n.c\<close>), with the workspace bound.  \<open>Mpn_Product\<close>: \<open>mpn_mul_n\<close>, \<open>mpn_sqr_n\<close>
    and \<open>mpn_mul\<close>, which cuts the longer operand into blocks (\<open>mul.c\<close>).
  \<^item> \<open>Mpn_Div1\<close>: division by a limb (\<open>divrem_1.c\<close>, \<open>mod_1.c\<close>).  \<open>Mpn_Div\<close>: division by two limbs
    (\<open>divrem_2.c\<close>) and schoolbook division (\<open>sb_divrem_mn.c\<close>).
    \<open>Mpn_DivDc\<close>: divide-and-conquer division (\<open>dc_divrem_n.c\<close>).
    \<open>Mpn_TdivOps\<close>, \<open>Mpn_TdivShort\<close> and \<open>Mpn_TdivQr\<close>: division of any two operands (\<open>tdiv_qr.c\<close>); the first has all
    definitions and the estimate of a short quotient, the second its remainder and correction, the third the
    other branches and the specification of \<open>mpn_tdiv_qr\<close>.
  \<^item> \<open>Mpz_Base\<close>: variables, the invariant \<open>store_ok\<close> (sizes fit, no zero top limbs, blocks disjoint), allocation.
    \<open>Mpz_Core\<close>: the contract \<open>updates\<close> and the interfaces of the operations as locales, assignment and sign.
    \<open>Mpz_Arith\<close>: addition, subtraction, comparison, product with a limb.  \<open>Mpz_Shift\<close>: products and
    truncated quotients with powers of two.  \<open>Mpz_Mul\<close>: \<open>mpz/mul.c\<close>.  \<open>Mpz_DivUi\<close>: the twelve divisions by an
    unsigned long, with their errors.  \<open>Mpz_Tdiv\<close>: division of a variable by a variable, truncating (\<open>tdiv_qr.c\<close>,
    \<open>tdiv_q.c\<close>, \<open>tdiv_r.c\<close>).  \<open>Mpz_Div\<close>: the divisions that round down or up and \<open>mpz_mod\<close>, which correct the truncated
    ones; their local \<open>mpz_t\<close> is a variable argument that is not live.
  \<^item> \<open>Mpn_Powm\<close>: Montgomery reduction (\<open>redc\<close>) and the modular squarings and products of \<open>mpz/powm.c\<close>.
    \<open>Mpn_PowmLoop\<close>: its sliding-window loops over the limbs of the exponent.  \<open>Mpn_PowmUi\<close>: the binary exponentiation
    of \<open>mpz/powm_ui.c\<close>.  \<open>Mpz_PowmUi\<close> and \<open>Mpz_Powm\<close>: the functions on variables.  The local variables that stay the
    same in a call are the record \<open>powm_locals\<close>; its last field is the first address that is free for the
    temporaries of the called routines.
  \<^item> \<open>Mpn_Logic\<close>: the limb loops of the logical functions.  \<open>Mpz_And\<close>, \<open>Mpz_Ior\<close>: \<open>mpz/and.c\<close>, \<open>ior.c\<close>, \<open>xor.c\<close> and
    \<open>com.c\<close>; a negative operand is replaced by its magnitude less one, whose bits are the complement.
    \<open>Mpz_Bit\<close>: reading, setting and clearing a bit.  \<open>Mpz_Scan\<close>: the search for the next 1 or 0 bit.  Bit positions are
    unbounded numbers, as sizes are.
  \<^item> \<open>Mpz_Cfdiv\<close>: quotients and remainders by a power of two, rounding down and up.
  \<^item> \<open>Mpn_Bdivmod\<close> and \<open>Mpn_Divexact\<close>: division from the low limbs up, modulo a power of two (\<open>bdivmod.c\<close>) and exact
    division by a limb (\<open>dive_1.c\<close>, \<open>diveby3.c\<close>).  \<open>Mpz_Divexact\<close>: \<open>mpz/divexact.c\<close> and \<open>dive_ui.c\<close>.
  \<^item> \<open>Mpn_Gcd1\<close>: the greatest common divisor of a vector and a limb (\<open>gcd_1.c\<close>) and the remainder from the low end it
    starts with (\<open>mode1o.c\<close>).  \<open>Mpz_GcdUi\<close>: \<open>mpz/gcd_ui.c\<close> and \<open>lcm_ui.c\<close>.
  \<^item> \<open>Mpz_Program\<close>: sequences of calls as programs, the abstract machine over integers they refine, and the
    reachable stores.

  What the lemmas show.  Each \<open>mpn\<close> routine has a specification with the value it leaves, the carry, borrow
  or limb it returns, and the addresses it writes, for the overlaps the code allows.  Each \<open>mpz\<close> function
  has a contract: from a well-formed store it returns (or raises the error of its arguments), the
  destination gets the exact integer result, all other variables keep their values, and the store is
  well-formed again.  The interfaces are locales (\<open>mpz_unop\<close>, \<open>mpz_binop\<close>, \<open>mpz_div_limb\<close>, \<open>mpz_div_limb_qr\<close>,
  \<open>mpz_division\<close>, \<open>mpz_division1\<close>, and
  \<open>aors\<close>, \<open>mul_row\<close>, \<open>udiv_step\<close> in the \<open>mpn\<close> layer), interpreted for every function that meets them; what
  follows from a contract alone is proved once in the locale.

  Bounds.  There is no fuel: all loops have a measure or are partial functions shown to return.  Sizes are
  unbounded numbers, so the limits of \<open>int\<close> sizes (2^31 limbs) are outside the model.  The allocator hands
  out fresh memory and never fails; a block that is reallocated moves, so a stale pointer is
  visible in the model; freed memory is not reused.

  Not modelled.  Toom-3 and FFT multiplication (the multiplications are \<open>None\<close> from 278 limbs on, 226 for
  squares), and what rests on them without a bound: the division \<open>mpn_tdiv_qr\<close> is proved for
  divisors or quotients below 278 limbs, the powers for moduli below 226 limbs; negative exponents of
  \<open>mpz_powm\<close> (\<open>None\<close>, they need \<open>mpz_invert\<close>); greatest common divisors of two vectors, roots, radix
  conversion, population counts, rationals and floats; the assembler routines of other processors; failure of
  \<open>malloc\<close>; the C++ wrapper.  The rest of the repository (\<open>src/Apps\<close> and the other directories of
  \<open>src/Libs\<close>) is C# and C++ code, and other vendored libraries (PBC, NTL, OpenSSL headers).
\<close>

section \<open>Properties\<close>

lemma div_mod_unique: "q * d + r = n \<Longrightarrow> r < d \<Longrightarrow> q = n div d \<and> r = n mod (d :: nat)"
  by auto

text \<open>A well-formed store with three variables, of two, three (negative) and one limb, on which the
  properties of the \<open>mpz\<close> operations are instantiated.\<close>

definition sample_store :: state where
  "sample_store = \<lparr>heap = (\<lambda>a. of_nat (a + 1)),
     vars = (\<lambda>x. \<lparr>mp_alloc = 4, mp_size = [2, - 3, 1] ! x, mp_d = 10 * x\<rparr>), live = {0, 1, 2}, brk = 40\<rparr>"

lemma sample_store_live: "live sample_store = {0, 1, 2}"
  by (simp add: sample_store_def)

lemma sample_store_ok: "store_ok sample_store"
  unfolding store_ok_def sample_store_live
  by (simp add: mpz_ok_def SIZ_def ABSIZ_def PTR_def ALLOC_def MPN_OVERLAP_P_def sample_store_def)

lemma sample_store_small: "ABSIZ sample_store 0 = 2" "ABSIZ sample_store (Suc 0) = 3" "ABSIZ sample_store 2 = 1"
  by (simp_all add: ABSIZ_def sample_store_def)

lemma product_limbs:
  assumes "product_step f p a n b n S" "mval (g m) p (n + n) = mval m a n * mval m b n"
  shows "\<exists>m'. f m = Some m' \<and> (\<forall>i < 2 * n. m' (p + i) = g m (p + i))"
proof -
  obtain m' where m': "f m = Some m'" "mval m' p (n + n) = mval m a n * mval m b n" by (rule product_stepE [OF assms(1)])
  then have "mval m' p (n + n) = mval (g m) p (n + n)" using assms(2) by simp
  then show ?thesis using m'(1) mval_inj [of m' p "n + n" "g m" p] unfolding mult_2 by blast
qed


text \<open>A store without variables, from which programs start.\<close>

definition empty_store :: state where
  "empty_store = sample_store\<lparr>live := {}\<rparr>"

lemma two_variables: "reachable (mpz_init 1 (mpz_init 0 empty_store))"
proof (rule reachable.step [OF reachable.step [OF reachable.start]])
  show "live empty_store = {}" by (simp add: empty_store_def)
  then show "step empty_store (mpz_init 0 empty_store)"
    by (intro step.call [of "Init 0"]) (simp_all add: new_def)
  show "step (mpz_init 0 empty_store) (mpz_init 1 (mpz_init 0 empty_store))"
    by (rule step.call [of "Init 1"]) (simp_all add: new_def mpz_init_def ALLOCATE_FUNC_LIMBS_def empty_store_def)
qed

text \<open>C1.  Any sequence of calls of 44 modelled mpz functions (allocation, assignment, arithmetic, divisions by longs and variables in the three roundings, powers modulo, logical and bit operations) implements the same sequence over an environment of integers: if the abstract program stays inside the contracts, the calls return, a division by zero is raised exactly where the abstract program raises it, and otherwise every initialised variable of the final store holds the integer the abstract program gives it and the store is well-formed.\<close>

theorem mpz_programs_refine:
  "arun is (env st) = Some r \<Longrightarrow> store_ok st \<Longrightarrow> implements (run is st) r"
  by (rule run_refines)

theorem mpz_programs_refine_witness:
  "implements (run [Init 3, Set_ui 3 7, Mul_ui 3 3 6, Neg 0 3] sample_store) (Inr ((env sample_store)(3 \<mapsto> 42, 0 \<mapsto> - 42))) \<and>
   implements (run [Set_ui 0 7, Set_ui 1 10, Powm_ui 2 0 5 1, Fdiv_q 2 1 2 9, Xor 0 0 1, Setbit 1 2] sample_store)
     (Inr ((env sample_store)(0 \<mapsto> 13, 1 \<mapsto> 14, 2 \<mapsto> 1))) \<and>
   implements (run [Set_si 1 5, Tdiv_q_ui 1 1 0] sample_store) (Inl GMP_ERROR_DIVISION_BY_ZERO)"
  by (intro conjI; rule mpz_programs_refine)
    (auto simp: sample_store_ok sample_store_live new_def const_def unary_def binary_def by_limb_def by_value_def divided_def div_small_def
      with_local_def pow_small_def DIVIDE_BY_ZERO_def env_def fun_eq_iff LB_def MUL_TOOM3_THRESHOLD_def SQR_TOOM3_THRESHOLD_def set_bit_eq)



text \<open>C3.  mpn_tdiv_qr, division of any nn limbs by any dn limbs (top divisor limb nonzero, not normalized): it returns, the nn - dn + 1 limbs at qp become the quotient and the dn limbs at rp the remainder; the operands are not changed, and apart from the two results only temporary memory from fp on is written.  All branches: one and two limb divisors, long quotients, and short quotients, where an estimate from the high limbs is corrected.  The sizes at which the code goes on to divide-and-conquer division are excluded.\<close>

theorem mpn_tdiv_qr_correct:
  "1 \<le> dn \<Longrightarrow> dn \<le> nn \<Longrightarrow> dn < MUL_TOOM3_THRESHOLD \<or> nn - dn + 1 < MUL_TOOM3_THRESHOLD \<Longrightarrow> m (dp + dn - 1) \<noteq> 0 \<Longrightarrow>
   np + nn \<le> fp \<Longrightarrow> dp + dn \<le> fp \<Longrightarrow> qp + (nn - dn + 1) \<le> fp \<Longrightarrow> rp + dn \<le> fp \<Longrightarrow>
   \<not> MPN_OVERLAP_P qp (nn - dn + 1) dp dn \<Longrightarrow> \<not> MPN_OVERLAP_P qp (nn - dn + 1) np nn \<Longrightarrow> \<not> MPN_OVERLAP_P qp (nn - dn + 1) rp dn \<Longrightarrow>
   \<not> MPN_OVERLAP_P rp dn dp dn \<Longrightarrow> \<not> MPN_OVERLAP_P rp dn np nn \<Longrightarrow>
   \<exists>m'. mpn_tdiv_qr qp rp 0 np nn dp dn fp m = Some (Inr m')
     \<and> mval m' qp (nn - dn + 1) = mval m np nn div mval m dp dn \<and> mval m' rp dn = mval m np nn mod mval m dp dn
     \<and> only_at ({qp..<qp + (nn - dn + 1)} \<union> {rp..<rp + dn} \<union> {fp..}) m m'"
  by (rule mpn_tdiv_qr_spec)

theorem mpn_tdiv_qr_correct_witness:
  "\<exists>m'. mpn_tdiv_qr 0 10 0 20 7 30 5 40 (\<lambda>a. of_nat (a + 1)) = Some (Inr m')
     \<and> mval m' 0 3 = mval (\<lambda>a. of_nat (a + 1)) 20 7 div mval (\<lambda>a. of_nat (a + 1)) 30 5
     \<and> mval m' 10 5 = mval (\<lambda>a. of_nat (a + 1)) 20 7 mod mval (\<lambda>a. of_nat (a + 1)) 30 5
     \<and> only_at ({0..<3} \<union> {10..<15} \<union> {40..}) (\<lambda>a. of_nat (a + 1)) m'"
  using mpn_tdiv_qr_correct [of 5 7 "\<lambda>a. of_nat (a + 1)" 30 20 40 0 10]
  by (simp add: MPN_OVERLAP_P_def MUL_TOOM3_THRESHOLD_def del: mval.simps)

text \<open>C4.  mpn_mul returns (all carry propagations and the loop over the blocks end) with the product of {up,un} and {vp,vn} at prodp and its top limb as the result, for any sizes un >= vn >= 1 below the Toom-3 sizes and also for squaring; besides the product only the workspace is written.\<close>

theorem mpn_mul_correct:
  "1 \<le> vn \<Longrightarrow> vn \<le> un \<Longrightarrow> vn < MUL_TOOM3_THRESHOLD \<Longrightarrow> up = vp \<and> un = vn \<longrightarrow> un < SQR_TOOM3_THRESHOLD \<Longrightarrow>
   up = vp \<and> un = vn \<longrightarrow> kara_room un \<le> s \<Longrightarrow> 2 * vn \<le> s \<Longrightarrow> kara_room vn \<le> r \<Longrightarrow> 2 * SQR_KARATSUBA_THRESHOLD \<le> r \<Longrightarrow>
   \<not> MPN_OVERLAP_P prodp (un + vn) up un \<Longrightarrow> \<not> MPN_OVERLAP_P prodp (un + vn) vp vn \<Longrightarrow>
   \<not> MPN_OVERLAP_P prodp (un + vn) ws s \<Longrightarrow> \<not> MPN_OVERLAP_P prodp (un + vn) tp r \<Longrightarrow>
   \<not> MPN_OVERLAP_P ws s up un \<Longrightarrow> \<not> MPN_OVERLAP_P ws s vp vn \<Longrightarrow> \<not> MPN_OVERLAP_P ws s tp r \<Longrightarrow>
   \<not> MPN_OVERLAP_P tp r up un \<Longrightarrow> \<not> MPN_OVERLAP_P tp r vp vn \<Longrightarrow>
   \<exists>m'. mpn_mul prodp up un vp vn ws tp m = Some (m' (prodp + un + vn - 1), m')
     \<and> mval m' prodp (un + vn) = mval m up un * mval m vp vn
     \<and> only_at ({prodp..<prodp + (un + vn)} \<union> {ws..<ws + s} \<union> {tp..<tp + r}) m m'"
  by (rule mpn_mul_spec)

theorem mpn_mul_correct_witness:
  "\<exists>m'. mpn_mul 0 300 60 400 25 500 1000 (\<lambda>a. of_nat a) = Some (m' 84, m')
     \<and> mval m' 0 85 = mval (\<lambda>a. of_nat a) 300 60 * mval (\<lambda>a. of_nat a) 400 25
     \<and> only_at ({0..<85} \<union> {500..<550} \<union> {1000..<1300}) (\<lambda>a. of_nat a) m'"
proof -
  have "kara_room 25 \<le> 300" using kara_room_TSIZE(1) [of 25] by (simp add: MPN_KARA_MUL_N_TSIZE_def LB_def)
  then show ?thesis
    using mpn_mul_correct [of 25 60 300 400 50 300 0 500 1000 "\<lambda>a. of_nat a"]
    by (simp add: MUL_TOOM3_THRESHOLD_def SQR_KARATSUBA_THRESHOLD_def MPN_OVERLAP_P_def del: mval.simps)
qed

text \<open>C5.  mpz_and, mpz_ior, mpz_xor and mpz_com compute the conjunction, disjunction, exclusive disjunction and complement of numbers in twos complement with infinitely many sign bits, on the signed magnitudes of the variables, for all four sign combinations and every aliasing.\<close>

theorem mpz_logic_correct:
  "store_ok st \<Longrightarrow> w \<in> live st \<Longrightarrow> u \<in> live st \<Longrightarrow> v \<in> live st \<Longrightarrow>
   updates st w (zval st u AND zval st v) (mpz_and w u v st) \<and>
   updates st w (zval st u OR zval st v) (mpz_ior w u v st) \<and>
   updates st w (zval st u XOR zval st v) (mpz_xor w u v st) \<and>
   updates st w (NOT (zval st u)) (mpz_com w u st)"
  using mpz_and.contract mpz_ior.contract mpz_xor.contract mpz_com.contract by blast

theorem mpz_logic_correct_witness:
  "updates sample_store 1 (zval sample_store 0 AND zval sample_store 1) (mpz_and 1 0 1 sample_store) \<and>
   updates sample_store 1 (zval sample_store 0 OR zval sample_store 1) (mpz_ior 1 0 1 sample_store) \<and>
   updates sample_store 1 (zval sample_store 0 XOR zval sample_store 1) (mpz_xor 1 0 1 sample_store) \<and>
   updates sample_store 1 (NOT (zval sample_store 0)) (mpz_com 1 0 sample_store)"
  by (rule mpz_logic_correct) (simp_all add: sample_store_ok sample_store_live)







text \<open>C9.  mpz_mul returns and stores the product of u and v in w, for all signs and every aliasing of the variables (an operand that is the destination is copied first, a destination that is too small gets a new block), as long as the smaller operand is below the Toom-3 sizes.\<close>

theorem mpz_mul_correct:
  "store_ok st \<Longrightarrow> w \<in> live st \<Longrightarrow> u \<in> live st \<Longrightarrow> v \<in> live st \<Longrightarrow>
   min (ABSIZ st u) (ABSIZ st v) < MUL_TOOM3_THRESHOLD \<Longrightarrow> u = v \<longrightarrow> ABSIZ st u < SQR_TOOM3_THRESHOLD \<Longrightarrow>
   \<exists>st'. mpz_mul w u v st = Some st' \<and> updates st w (zval st u * zval st v) st'"
  by (rule mpz_mul_spec)

theorem mpz_mul_correct_witness:
  "(\<exists>st'. mpz_mul 1 1 0 sample_store = Some st' \<and> updates sample_store 1 (zval sample_store 1 * zval sample_store 0) st') \<and>
   (\<exists>st'. mpz_mul 1 1 1 sample_store = Some st' \<and> updates sample_store 1 (zval sample_store 1 * zval sample_store 1) st')"
  by (intro conjI; rule mpz_mul_correct)
    (simp_all add: sample_store_ok sample_store_live sample_store_small MUL_TOOM3_THRESHOLD_def SQR_TOOM3_THRESHOLD_def)

text \<open>C10.  mpz_tdiv_qr for any aliasing of its two different results with the operands: for the divisor 0 it raises the division-by-zero error; otherwise it returns, the two results get the quotient rounded to zero and the remainder with the sign of the dividend, and all other variables keep their values.  Sizes at which a multiplication goes on to Toom-3 are excluded.\<close>

theorem mpz_tdiv_qr_correct:
  "store_ok st \<Longrightarrow> quot \<in> live st \<Longrightarrow> rem \<in> live st \<Longrightarrow> quot \<noteq> rem \<Longrightarrow> num \<in> live st \<Longrightarrow> den \<in> live st \<Longrightarrow>
   ABSIZ st den < MUL_TOOM3_THRESHOLD \<or> ABSIZ st num - ABSIZ st den + 1 < MUL_TOOM3_THRESHOLD \<Longrightarrow>
   if zval st den = 0 then mpz_tdiv_qr quot rem num den st = Some (Inl GMP_ERROR_DIVISION_BY_ZERO)
   else \<exists>st'. mpz_tdiv_qr quot rem num den st = Some (Inr st') \<and> updates2 st quot (zval st num sdiv zval st den) rem (zval st num smod zval st den) st'"
  using mpz_tdiv_qr_spec [of st quot rem num den] tdiv_by_zero(1) [of st den] size_sign(2) [of st den]
  by (simp add: DIVIDE_BY_ZERO_def)

theorem mpz_tdiv_qr_correct_witness:
  "\<exists>st'. mpz_tdiv_qr 2 1 1 0 sample_store = Some (Inr st') \<and>
     updates2 sample_store 2 (zval sample_store 1 sdiv zval sample_store 0) 1 (zval sample_store 1 smod zval sample_store 0) st'"
proof -
  have "zval sample_store 0 \<noteq> 0"
    using size_sign(2) [OF sample_store_ok, of 0] sample_store_live by (simp add: SIZ_def sample_store_def)
  then show ?thesis
    using mpz_tdiv_qr_correct [of sample_store 2 1 1 0] by (simp add: sample_store_ok sample_store_live sample_store_small MUL_TOOM3_THRESHOLD_def)
qed

text \<open>C11.  mpz_setbit and mpz_clrbit set and clear a bit of the twos complement in place, mpz_tstbit reads it, for both signs and for bits below, at and above the lowest nonzero limb and beyond the number: the searches and the borrow end, and a carry out of the top limb gets a new limb.  A bit that was set or cleared reads back as 1 or 0.\<close>

theorem mpz_bit_correct:
  "store_ok st \<Longrightarrow> d \<in> live st \<Longrightarrow>
   mpz_tstbit d i st = of_bool (bit (zval st d) i) \<and>
   (\<exists>st'. mpz_setbit d i st = Some st' \<and> updates st d (set_bit i (zval st d)) st' \<and> mpz_tstbit d i st' = 1) \<and>
   (\<exists>st'. mpz_clrbit d i st = Some st' \<and> updates st d (unset_bit i (zval st d)) st' \<and> mpz_tstbit d i st' = 0)"
  using mpz_tstbit_spec [of st d i] mpz_setbit_spec [of st d i] mpz_clrbit_spec [of st d i]
    mpz_tstbit_spec [of _ d i] by (fastforce simp: updates_def bit_simps)

theorem mpz_bit_correct_witness:
  "mpz_tstbit 1 70 sample_store = of_bool (bit (zval sample_store 1) 70) \<and>
   (\<exists>st'. mpz_setbit 1 70 sample_store = Some st' \<and> updates sample_store 1 (set_bit 70 (zval sample_store 1)) st' \<and> mpz_tstbit 1 70 st' = 1) \<and>
   (\<exists>st'. mpz_clrbit 1 70 sample_store = Some st' \<and> updates sample_store 1 (unset_bit 70 (zval sample_store 1)) st' \<and> mpz_tstbit 1 70 st' = 0)"
  by (rule mpz_bit_correct) (simp_all add: sample_store_ok sample_store_live)



text \<open>C13.  Karatsuba multiplication of n >= 2 limbs returns with the product at p, and besides the product it writes only the workspace: MPN_KARA_MUL_N_TSIZE n limbs are enough for the whole recursion.\<close>

theorem mpn_kara_mul_n_correct:
  "2 \<le> n \<Longrightarrow> n < LB \<Longrightarrow> \<not> MPN_OVERLAP_P p (2 * n) a n \<Longrightarrow> \<not> MPN_OVERLAP_P p (2 * n) b n \<Longrightarrow>
   \<not> MPN_OVERLAP_P ws (MPN_KARA_MUL_N_TSIZE n) a n \<Longrightarrow> \<not> MPN_OVERLAP_P ws (MPN_KARA_MUL_N_TSIZE n) b n \<Longrightarrow>
   \<not> MPN_OVERLAP_P ws (MPN_KARA_MUL_N_TSIZE n) p (2 * n) \<Longrightarrow>
   \<exists>m'. mpn_kara_mul_n p a b n ws m = Some m' \<and> mval m' p (2 * n) = mval m a n * mval m b n
     \<and> only_at ({p..<p + 2 * n} \<union> {ws..<ws + MPN_KARA_MUL_N_TSIZE n}) m m'"
proof -
  assume n: "2 \<le> n" "n < LB" and o: "\<not> MPN_OVERLAP_P p (2 * n) a n" "\<not> MPN_OVERLAP_P p (2 * n) b n"
    and w: "\<not> MPN_OVERLAP_P ws (MPN_KARA_MUL_N_TSIZE n) a n" "\<not> MPN_OVERLAP_P ws (MPN_KARA_MUL_N_TSIZE n) b n"
      "\<not> MPN_OVERLAP_P ws (MPN_KARA_MUL_N_TSIZE n) p (2 * n)"
  have r: "kara_room n \<le> MPN_KARA_MUL_N_TSIZE n" by (rule kara_room_TSIZE [OF n(2)])
  have "product_step (mpn_kara_mul_n p a b n ws) p a n b n ({p..<p + 2 * n} \<union> {ws..<ws + kara_room n})"
    by (rule mpn_kara_mul_n_spec [OF n(1) o]) (use r no_overlap_sub [OF w(1), of ws "kara_room n" a n] no_overlap_sub [OF w(2), of ws "kara_room n" b n]
        no_overlap_sub [OF w(3), of ws "kara_room n" p "2 * n"] in simp_all)
  then have "product_step (mpn_kara_mul_n p a b n ws) p a n b n ({p..<p + 2 * n} \<union> {ws..<ws + MPN_KARA_MUL_N_TSIZE n})"
    by (rule product_step_mono) (use r in auto)
  then show ?thesis unfolding product_step_def mult_2 by blast
qed

theorem mpn_kara_mul_n_correct_witness:
  "\<exists>m'. mpn_kara_mul_n 0 100 200 45 300 (\<lambda>a. - of_nat (a + 1)) = Some m'
     \<and> mval m' 0 90 = mval (\<lambda>a. - of_nat (a + 1)) 100 45 * mval (\<lambda>a. - of_nat (a + 1)) 200 45
     \<and> only_at ({0..<90} \<union> {300..<300 + MPN_KARA_MUL_N_TSIZE 45}) (\<lambda>a. - of_nat (a + 1)) m'"
  using mpn_kara_mul_n_correct [of 45 0 100 200 300 "\<lambda>a. - of_nat (a + 1)"]
  by (simp add: LB_def MPN_OVERLAP_P_def MPN_KARA_MUL_N_TSIZE_def del: mval.simps)





text \<open>C16.  mpz_gcd_ui returns: it leaves the greatest common divisor of a variable and an unsigned long in w, or leaves the store alone when w is NULL, and its result is that divisor, or 0 when it does not fit a limb (an operand of several limbs with 0); mpz_lcm_ui leaves the least common multiple.  The loops of the binary algorithm in mpn_gcd_1 end; operands may alias.\<close>

theorem mpz_gcd_ui_correct:
  "store_ok st \<Longrightarrow> w \<in> live st \<Longrightarrow> u \<in> live st \<Longrightarrow>
   (\<exists>res st'. mpz_gcd_ui (Some w) u v st = Some (res, st') \<and> updates st w (gcd (zval st u) (int (unat v))) st' \<and>
      int (unat res) = (if gcd (zval st u) (int (unat v)) < int LB then gcd (zval st u) (int (unat v)) else 0) \<and>
      mpz_gcd_ui None u v st = Some (res, st)) \<and>
   (\<exists>st'. mpz_lcm_ui w u v st = Some st' \<and> updates st w (lcm (zval st u) (int (unat v))) st')"
proof -
  assume a: "store_ok st" "w \<in> live st" "u \<in> live st"
  obtain r1 st1 where 1: "mpz_gcd_ui (Some w) u v st = Some (r1, st1)" "updates st w (gcd (zval st u) (int (unat v))) st1"
    "int (unat r1) = (if gcd (zval st u) (int (unat v)) < int LB then gcd (zval st u) (int (unat v)) else 0)"
    using mpz_gcd_ui_spec [OF a(1,3), of "Some w" v] a(2) by auto
  obtain r2 where 2: "mpz_gcd_ui None u v st = Some (r2, st)"
    "int (unat r2) = (if gcd (zval st u) (int (unat v)) < int LB then gcd (zval st u) (int (unat v)) else 0)"
    using mpz_gcd_ui_spec [OF a(1,3), of None v] by auto
  have "int (unat r2) = int (unat r1)" unfolding 1(3) 2(2) ..
  then have "r2 = r1" by (simp only: of_nat_eq_iff limb_eq_iff)
  then show ?thesis using 1 2(1) mpz_lcm_ui_spec [OF a] by blast
qed

theorem mpz_gcd_ui_correct_witness:
  "(\<exists>res st'. mpz_gcd_ui (Some 1) 1 12 sample_store = Some (res, st') \<and> updates sample_store 1 (gcd (zval sample_store 1) 12) st') \<and>
   (\<exists>st'. mpz_lcm_ui 1 1 12 sample_store = Some st' \<and> updates sample_store 1 (lcm (zval sample_store 1) 12) st')"
  using mpz_gcd_ui_correct [of sample_store 1 1 12] sample_store_ok sample_store_live by auto



text \<open>C18.  mpz_add and mpz_sub store the sum and the difference of u and v in w, for all signs and sizes and for every aliasing of the three variables: the store stays well-formed (no leading zero limbs, blocks disjoint), no other variable changes its value.\<close>

theorem mpz_add_sub_correct:
  "store_ok st \<Longrightarrow> w \<in> live st \<Longrightarrow> u \<in> live st \<Longrightarrow> v \<in> live st \<Longrightarrow>
   updates st w (zval st u + zval st v) (mpz_add w u v st) \<and> updates st w (zval st u - zval st v) (mpz_sub w u v st)"
  using mpz_add.contract mpz_sub.contract by blast

theorem mpz_add_sub_correct_witness:
  "updates sample_store 1 (zval sample_store 0 + zval sample_store 1) (mpz_add 1 0 1 sample_store) \<and>
   updates sample_store 0 0 (mpz_sub 0 0 0 sample_store)"
  using mpz_add_sub_correct [of sample_store 1 0 1] mpz_add_sub_correct [of sample_store 0 0 0] sample_store_ok sample_store_live by simp

text \<open>C19.  mpn_divrem_2, division by a normalized two-limb divisor with qxn fraction limbs, returns (its correction loop ends) and gives the quotient limbs, the high quotient limb 0 or 1 and the two-limb remainder, writing the quotient region and the two low numerator limbs only.\<close>

theorem mpn_divrem_2_correct:
  "2 \<le> nn \<Longrightarrow> m (dp + 1) AND GMP_LIMB_HIGHBIT \<noteq> 0 \<Longrightarrow> qp + (nn - 2 + qxn) \<le> np \<or> np + 2 \<le> qp \<Longrightarrow>
   \<exists>qh m'. mpn_divrem_2 qp qxn np nn dp m = Some (qh, m')
     \<and> mval m' qp (qxn + nn - 2) + LB ^ (qxn + nn - 2) * unat qh = LB ^ qxn * mval m np nn div mval m dp 2
     \<and> mval m' np 2 = LB ^ qxn * mval m np nn mod mval m dp 2 \<and> qh \<le> 1
     \<and> only_at ({qp..<qp + (qxn + nn - 2)} \<union> {np..<np + 2}) m m'"
proof -
  assume a: "2 \<le> nn" "m (dp + 1) AND GMP_LIMB_HIGHBIT \<noteq> 0" "qp + (nn - 2 + qxn) \<le> np \<or> np + 2 \<le> qp"
  then obtain qh m' where eq: "mpn_divrem_2 qp qxn np nn dp m = Some (qh, m')" and qh: "qh \<le> 1"
    and frame: "only_at ({qp..<qp + (qxn + nn - 2)} \<union> {np..<np + 2}) m m'"
    and v: "(mval m' qp (qxn + nn - 2) + LB ^ (qxn + nn - 2) * unat qh) * mval m dp 2 + mval m' np 2 = LB ^ qxn * mval m np nn"
    and r: "mval m' np 2 < mval m dp 2"
    using mpn_divrem_2_spec [of nn m dp qp qxn np] by (auto simp only: highbit_iff)
  show ?thesis using eq qh frame div_mod_unique [OF v r] by blast
qed

theorem mpn_divrem_2_correct_witness:
  "\<exists>qh m'. mpn_divrem_2 2 1 0 5 20 (\<lambda>a. - of_nat (a + 1)) = Some (qh, m')
     \<and> mval m' 2 (1 + 5 - 2) + LB ^ (1 + 5 - 2) * unat qh
         = LB ^ 1 * mval (\<lambda>a. - of_nat (a + 1)) 0 5 div mval (\<lambda>a. - of_nat (a + 1)) 20 2
     \<and> mval m' 0 2 = LB ^ 1 * mval (\<lambda>a. - of_nat (a + 1)) 0 5 mod mval (\<lambda>a. - of_nat (a + 1)) 20 2 \<and> qh \<le> 1
     \<and> only_at ({2..<2 + (1 + 5 - 2)} \<union> {0..<0 + 2}) (\<lambda>a. - of_nat (a + 1)) m'"
  by (rule mpn_divrem_2_correct) (simp_all add: highbit_iff LB_def)

text \<open>C20.  Karatsuba squaring computes limb for limb what the schoolbook product of the operand with itself computes.\<close>

theorem mpn_kara_equals_basecase:
  "2 \<le> n \<Longrightarrow> \<not> MPN_OVERLAP_P p (2 * n) a n \<Longrightarrow> \<not> MPN_OVERLAP_P ws (kara_room n) a n \<Longrightarrow>
   \<not> MPN_OVERLAP_P ws (kara_room n) p (2 * n) \<Longrightarrow> \<not> MPN_OVERLAP_P tp (2 * SQR_KARATSUBA_THRESHOLD) a n \<Longrightarrow>
   \<not> MPN_OVERLAP_P tp (2 * SQR_KARATSUBA_THRESHOLD) p (2 * n) \<Longrightarrow> \<not> MPN_OVERLAP_P tp (2 * SQR_KARATSUBA_THRESHOLD) ws (kara_room n) \<Longrightarrow>
   \<exists>m'. mpn_kara_sqr_n p a n ws tp m = Some m' \<and> (\<forall>i < 2 * n. m' (p + i) = mpn_mul_basecase p a n a n m (p + i))"
proof -
  assume a: "2 \<le> n" "\<not> MPN_OVERLAP_P p (2 * n) a n" and o: "\<not> MPN_OVERLAP_P ws (kara_room n) a n"
    "\<not> MPN_OVERLAP_P ws (kara_room n) p (2 * n)" "\<not> MPN_OVERLAP_P tp (2 * SQR_KARATSUBA_THRESHOLD) a n"
    "\<not> MPN_OVERLAP_P tp (2 * SQR_KARATSUBA_THRESHOLD) p (2 * n)" "\<not> MPN_OVERLAP_P tp (2 * SQR_KARATSUBA_THRESHOLD) ws (kara_room n)"
  have "mval (mpn_mul_basecase p a n a n m) p (n + n) = mval m a n * mval m a n"
    using a by (intro mpn_mul_basecase_spec [OF refl]) (auto simp: mult_2)
  with mpn_kara_sqr_n_spec [OF a o] show ?thesis by (rule product_limbs)
qed

theorem mpn_kara_equals_basecase_witness:
  "\<exists>m'. mpn_kara_sqr_n 0 200 61 1000 5000 (\<lambda>a. of_nat (a * a)) = Some m' \<and>
     m' 121 = mpn_mul_basecase 0 200 61 200 61 (\<lambda>a. of_nat (a * a)) 121"
proof -
  have "kara_room 61 \<le> 200" using kara_room_TSIZE(2) [of 61] by (simp add: MPN_KARA_SQR_N_TSIZE_def LB_def)
  then show ?thesis
    using mpn_kara_equals_basecase [of 61 0 200 1000 5000 "\<lambda>a. of_nat (a * a)"]
    by (auto simp: SQR_KARATSUBA_THRESHOLD_def MPN_OVERLAP_P_def)
qed

text \<open>C21.  In every store that a sequence of calls inside the contracts can reach from a store without variables, the blocks of any two different variables are disjoint and below the break, every size fits its block, and no number has a zero top limb.\<close>

theorem reachable_stores_safe:
  "reachable st \<Longrightarrow> x \<in> live st \<Longrightarrow> y \<in> live st \<Longrightarrow> x \<noteq> y \<Longrightarrow>
   \<not> MPN_OVERLAP_P (PTR st x) (ALLOC st x) (PTR st y) (ALLOC st y) \<and> PTR st x + ALLOC st x \<le> brk st \<and>
   ABSIZ st x \<le> ALLOC st x \<and> (SIZ st x = 0 \<or> heap st (PTR st x + ABSIZ st x - 1) \<noteq> 0)"
  using reachable_store_ok [of st] by (auto simp: store_ok_def mpz_ok_def)

theorem reachable_stores_safe_witness:
  "let st = mpz_init 1 (mpz_init 0 empty_store) in
   \<not> MPN_OVERLAP_P (PTR st 0) (ALLOC st 0) (PTR st 1) (ALLOC st 1) \<and> PTR st 0 + ALLOC st 0 \<le> brk st \<and>
   ABSIZ st 0 \<le> ALLOC st 0 \<and> (SIZ st 0 = 0 \<or> heap st (PTR st 0 + ABSIZ st 0 - 1) \<noteq> 0)"
  unfolding Let_def by (rule reachable_stores_safe [OF two_variables])
    (simp_all add: mpz_init_def ALLOCATE_FUNC_LIMBS_def empty_store_def)



text \<open>C23.  Division by an unsigned long: mpz_fdiv_qr_ui leaves the quotient rounded down and the non-negative remainder in two different variables, of which either may be the dividend, and returns the remainder; mpz_cdiv_q_ui leaves the quotient rounded up and returns the negated remainder, which is not negative.  Both return; nothing else changes.\<close>

theorem mpz_div_ui_correct:
  "store_ok st \<Longrightarrow> q \<in> live st \<Longrightarrow> r \<in> live st \<Longrightarrow> q \<noteq> r \<Longrightarrow> u \<in> live st \<Longrightarrow> d \<noteq> 0 \<Longrightarrow>
   (\<exists>rl st'. mpz_fdiv_qr_ui q r u d st = Some (Inr (rl, st')) \<and> int (unat rl) = zval st u mod int (unat d)
     \<and> updates2 st q (zval st u div int (unat d)) r (zval st u mod int (unat d)) st') \<and>
   (\<exists>rl st'. mpz_cdiv_q_ui q u d st = Some (Inr (rl, st')) \<and> int (unat rl) = - zval st u mod int (unat d)
     \<and> updates st q (- (- zval st u div int (unat d))) st')"
proof -
  assume a: "store_ok st" "q \<in> live st" "r \<in> live st" "q \<noteq> r" "u \<in> live st" "d \<noteq> 0"
  then have "0 < int (unat d)" by (simp only: of_nat_0_less_iff unat_gt_0 not_False_eq_True)
  then have "\<bar>zval st u mod int (unat d)\<bar> = zval st u mod int (unat d)" by (intro abs_of_nonneg pos_mod_sign)
  then show ?thesis using mpz_fdiv_qr_ui.contract [OF a] mpz_cdiv_q_ui.contract [OF a(1,2,5,6)] by (simp add: cdiv_def cmod_def)
qed

theorem mpz_div_ui_correct_witness:
  "\<exists>rl st'. mpz_fdiv_qr_ui 0 1 1 7 sample_store = Some (Inr (rl, st')) \<and> int (unat rl) = zval sample_store 1 mod 7
     \<and> updates2 sample_store 0 (zval sample_store 1 div 7) 1 (zval sample_store 1 mod 7) st'"
  using mpz_div_ui_correct [of sample_store 0 1 1 7] sample_store_ok sample_store_live by simp

text \<open>C24.  The twelve functions that divide by an unsigned long raise the division-by-zero error for the divisor 0, and no error for any other divisor.\<close>

theorem mpz_division_errors:
  "store_ok st \<Longrightarrow> q \<in> live st \<Longrightarrow> r \<in> live st \<Longrightarrow> q \<noteq> r \<Longrightarrow> u \<in> live st \<Longrightarrow>
   (mpz_tdiv_q_ui q u d st = Inl e) = (d = 0 \<and> e = GMP_ERROR_DIVISION_BY_ZERO) \<and>
   (mpz_fdiv_q_ui q u d st = Some (Inl e)) = (d = 0 \<and> e = GMP_ERROR_DIVISION_BY_ZERO) \<and>
   (mpz_cdiv_q_ui q u d st = Some (Inl e)) = (d = 0 \<and> e = GMP_ERROR_DIVISION_BY_ZERO) \<and>
   (mpz_tdiv_r_ui r u d st = Inl e) = (d = 0 \<and> e = GMP_ERROR_DIVISION_BY_ZERO) \<and>
   (mpz_fdiv_r_ui r u d st = Inl e) = (d = 0 \<and> e = GMP_ERROR_DIVISION_BY_ZERO) \<and>
   (mpz_cdiv_r_ui r u d st = Inl e) = (d = 0 \<and> e = GMP_ERROR_DIVISION_BY_ZERO) \<and>
   (mpz_tdiv_qr_ui q r u d st = Inl e) = (d = 0 \<and> e = GMP_ERROR_DIVISION_BY_ZERO) \<and>
   (mpz_fdiv_qr_ui q r u d st = Some (Inl e)) = (d = 0 \<and> e = GMP_ERROR_DIVISION_BY_ZERO) \<and>
   (mpz_cdiv_qr_ui q r u d st = Some (Inl e)) = (d = 0 \<and> e = GMP_ERROR_DIVISION_BY_ZERO) \<and>
   (mpz_tdiv_ui u d st = Inl e) = (d = 0 \<and> e = GMP_ERROR_DIVISION_BY_ZERO) \<and>
   (mpz_fdiv_ui u d st = Inl e) = (d = 0 \<and> e = GMP_ERROR_DIVISION_BY_ZERO) \<and>
   (mpz_cdiv_ui u d st = Inl e) = (d = 0 \<and> e = GMP_ERROR_DIVISION_BY_ZERO)"
  using mpz_tdiv_q_ui.returns(2) mpz_fdiv_q_ui.returns(2) mpz_cdiv_q_ui.returns(2) mpz_tdiv_r_ui.returns(2)
    mpz_fdiv_r_ui.returns(2) mpz_cdiv_r_ui.returns(2) mpz_tdiv_qr_ui.returns mpz_fdiv_qr_ui.returns
    mpz_cdiv_qr_ui.returns mpz_div_ui_error by simp

theorem mpz_division_errors_witness:
  "mpz_tdiv_q_ui 0 2 0 sample_store = Inl GMP_ERROR_DIVISION_BY_ZERO \<and> mpz_fdiv_qr_ui 0 1 2 5 sample_store \<noteq> Some (Inl GMP_ERROR_DIVISION_BY_ZERO)"
  using mpz_division_errors [of sample_store 0 1 2 0 GMP_ERROR_DIVISION_BY_ZERO]
    mpz_division_errors [of sample_store 0 1 2 5 GMP_ERROR_DIVISION_BY_ZERO] sample_store_ok sample_store_live by simp



text \<open>C26.  mpz_mul_si multiplies by a signed long: the value and its sign are right for every multiplier, LONG_MIN included (its absolute value is the wrapped negation), and the operands may alias.\<close>

theorem mpz_mul_si_correct:
  "store_ok st \<Longrightarrow> w \<in> live st \<Longrightarrow> u \<in> live st \<Longrightarrow> updates st w (zval st u * sint v) (mpz_mul_si w u v st)"
  by (rule mpz_mul_si.contract)

theorem mpz_mul_si_correct_witness:
  "updates sample_store 0 (zval sample_store 1 * - 2147483648) (mpz_mul_si 0 1 0x80000000 sample_store)"
  using mpz_mul_si_correct [of sample_store 0 1 "0x80000000"] sample_store_ok sample_store_live by simp

text \<open>C27.  mpz_add_ui and mpz_sub_ui add and subtract an unsigned long: where the magnitudes subtract, the result has the right sign and at most one limb is dropped from the size.\<close>

theorem mpz_aors_ui_correct:
  "store_ok st \<Longrightarrow> w \<in> live st \<Longrightarrow> u \<in> live st \<Longrightarrow>
   updates st w (zval st u + int (unat v)) (mpz_add_ui w u v st) \<and>
   updates st w (zval st u - int (unat v)) (mpz_sub_ui w u v st)"
  using mpz_add_ui.contract mpz_sub_ui.contract by blast

theorem mpz_aors_ui_correct_witness:
  "updates sample_store 0 (zval sample_store 1 + 7) (mpz_add_ui 0 1 7 sample_store)"
  using mpz_aors_ui_correct [of sample_store 0 1 7] sample_store_ok sample_store_live by simp

text \<open>C28.  Adding the values of a list of variables one after the other into an accumulator keeps the store well-formed at every step and leaves the exact sum, whatever reallocations happen on the way.\<close>

theorem mpz_add_accumulates:
  "store_ok st \<Longrightarrow> w \<in> live st \<Longrightarrow> set vs \<subseteq> live st \<Longrightarrow> w \<notin> set vs \<Longrightarrow>
   updates st w (zval st w + sum_list (map (zval st) vs)) (fold (\<lambda>v. mpz_add w w v) vs st)"
proof -
  assume a: "store_ok st" "w \<in> live st" "set vs \<subseteq> live st" "w \<notin> set vs"
  have "foldl (+) x ys = x + sum_list ys" for x and ys :: "int list"
    by (induction ys arbitrary: x) (simp_all add: add.assoc)
  then show ?thesis using mpz_add.accumulate [OF a] by simp
qed

theorem mpz_add_accumulates_witness:
  "updates sample_store 0 (zval sample_store 0 + sum_list (map (zval sample_store) [1, 2, 1]))
     (fold (\<lambda>v. mpz_add 0 0 v) [1, 2, 1] sample_store)"
  using mpz_add_accumulates [of sample_store 0 "[1, 2, 1]"] sample_store_ok sample_store_live by simp

text \<open>C29.  mpn_add and mpn_sub on operands of different lengths: sum and carry, difference and borrow are exact, the flag is 0 or 1 and only the result region is written, in place or with the result separate from the operands.\<close>

theorem mpn_add_sub_correct:
  "yn \<le> xn \<Longrightarrow> MPN_SAME_OR_SEPARATE2_P wp xn xp xn \<Longrightarrow> MPN_SAME_OR_SEPARATE2_P wp xn yp yn \<Longrightarrow>
   (case mpn_add wp xp xn yp yn m of (c, m') \<Rightarrow>
      mval m' wp xn + LB ^ xn * unat c = mval m xp xn + mval m yp yn \<and> unat c \<le> 1 \<and> only_in wp xn m m') \<and>
   (case mpn_sub wp xp xn yp yn m of (c, m') \<Rightarrow>
      int (mval m' wp xn) - int (LB ^ xn * unat c) = int (mval m xp xn) - int (mval m yp yn) \<and> unat c \<le> 1 \<and> only_in wp xn m m')"
proof -
  assume a: "yn \<le> xn" "MPN_SAME_OR_SEPARATE2_P wp xn xp xn" "MPN_SAME_OR_SEPARATE2_P wp xn yp yn"
  obtain c m1 d m2 where eq: "mpn_add wp xp xn yp yn m = (c, m1)" "mpn_sub wp xp xn yp yn m = (d, m2)" by fastforce
  note A = mpn_add_spec [OF eq(1) a] and S = mpn_sub_spec [OF eq(2) a]
  have "int (mval m2 wp xn + mval m yp yn) = int (mval m xp xn + LB ^ xn * unat d)" using S(1) by (simp only:)
  then have "int (mval m2 wp xn) - int (LB ^ xn * unat d) = int (mval m xp xn) - int (mval m yp yn)"
    unfolding of_nat_add by linarith
  then show ?thesis using A S(2,3) unfolding eq by blast
qed

theorem mpn_add_sub_correct_witness:
  "case mpn_sub 0 0 4 10 2 (\<lambda>a. of_nat (a + 5)) of (c, m') \<Rightarrow>
      int (mval m' 0 4) - int (LB ^ 4 * unat c) = int (mval (\<lambda>a. of_nat (a + 5)) 0 4) - int (mval (\<lambda>a. of_nat (a + 5)) 10 2)
      \<and> unat c \<le> 1 \<and> only_in 0 4 (\<lambda>a. of_nat (a + 5)) m'"
  using mpn_add_sub_correct [of 2 4 0 0 10 "\<lambda>a. of_nat (a + 5)", THEN conjunct2] by (simp add: overlap_defs del: mval.simps)









text \<open>C34.  mpn_incr_u, the carry propagation without a bound, returns whenever the sum fits in n limbs, with the sum in these limbs and nothing above them touched.\<close>

theorem mpn_incr_u_returns:
  "1 \<le> n \<Longrightarrow> mval m p n + unat v < LB ^ n \<Longrightarrow>
   \<exists>m'. mpn_incr_u p v m = Some m' \<and> mval m' p n = mval m p n + unat v \<and> only_in p n m m'"
  using mpn_incr_u_spec [of m p n v] by (auto simp: max_def split: if_splits)

theorem mpn_incr_u_returns_witness:
  "\<exists>m'. mpn_incr_u 0 7 (\<lambda>a. if a = 0 then 0xFFFFFFFF else 5) = Some m' \<and> mval m' 0 2 = mval (\<lambda>a. if a = 0 then 0xFFFFFFFF else 5) 0 2 + 7
     \<and> only_in 0 2 (\<lambda>a. if a = 0 then 0xFFFFFFFF else 5) m'"
proof -
  have "mval (\<lambda>a. if a = 0 then 0xFFFFFFFF else 5) 0 (Suc (Suc 0)) + unat (7 :: limb) < LB ^ Suc (Suc 0)" by (simp add: LB_def)
  then have "mval (\<lambda>a. if a = 0 then 0xFFFFFFFF else 5) 0 2 + unat (7 :: limb) < LB ^ 2" by (simp only: numeral_2_eq_2)
  from mpn_incr_u_returns [OF _ this] show ?thesis by (simp del: mval.simps)
qed

text \<open>C35.  mpz_init2 gives a new variable the value 0 and room for the asked number of bits, unless the rounding up to limbs wraps around: for the last 31 bit counts it allocates a single limb.\<close>

theorem mpz_init2_size:
  "store_ok st \<Longrightarrow> x \<notin> live st \<Longrightarrow>
   store_ok (mpz_init2 x bits st) \<and> zval (mpz_init2 x bits st) x = 0 \<and>
   (if unat bits + 31 < LB then unat bits \<le> 32 * ALLOC (mpz_init2 x bits st) x
    else ALLOC (mpz_init2 x bits st) x = 1)"
  using mpz_init2_spec(1,3,5) [of st x bits] by auto

theorem mpz_init2_size_witness:
  "ALLOC (mpz_init2 5 0xFFFFFFFF sample_store) 5 = 1 \<and> 100 \<le> 32 * ALLOC (mpz_init2 5 100 sample_store) 5"
  using mpz_init2_size [of sample_store 5 "0xFFFFFFFF"] mpz_init2_size [of sample_store 5 100] sample_store_ok sample_store_live
  by (simp add: LB_def)


text \<open>C37.  The comparisons return a number whose sign is that of the difference: of two values, of two absolute values, of a value and an unsigned or signed long (the most negative one too).  Comparing the signed sizes first is right because a well-formed variable has no leading zero limb.\<close>

theorem mpz_compare_correct:
  "store_ok st \<Longrightarrow> u \<in> live st \<Longrightarrow> v \<in> live st \<Longrightarrow>
   sgn (mpz_cmp u v st) = sgn (zval st u - zval st v) \<and>
   sgn (mpz_cmpabs u v st) = sgn (\<bar>zval st u\<bar> - \<bar>zval st v\<bar>) \<and>
   sgn (mpz_cmp_ui u x st) = sgn (zval st u - int (unat x)) \<and>
   sgn (mpz_cmp_si u x st) = sgn (zval st u - sint x) \<and>
   sgn (mpz_cmpabs_ui u x st) = sgn (\<bar>zval st u\<bar> - int (unat x))"
  using mpz_cmp_spec mpz_cmpabs_spec mpz_cmp_ui_spec mpz_cmp_si_spec mpz_cmpabs_ui_spec by blast

theorem mpz_compare_correct_witness:
  "sgn (mpz_cmp 0 1 sample_store) = sgn (zval sample_store 0 - zval sample_store 1) \<and>
   sgn (mpz_cmp_si 0 0x80000000 sample_store) = sgn (zval sample_store 0 - sint (0x80000000 :: limb))"
  using mpz_compare_correct [of sample_store 0 1 "0x80000000"] sample_store_ok sample_store_live by simp

text \<open>C38.  Negating or complementing a number into w and then w in place gives the number back, also when w is the variable itself and when the complement needs one limb more or less.\<close>

theorem mpz_involutions:
  "store_ok st \<Longrightarrow> w \<in> live st \<Longrightarrow> u \<in> live st \<Longrightarrow>
   updates st w (zval st u) (mpz_neg w w (mpz_neg w u st)) \<and> updates st w (zval st u) (mpz_com w w (mpz_com w u st))"
  using mpz_neg.twice [of st w u] mpz_com.twice [of st w u] by simp

theorem mpz_involutions_witness:
  "updates sample_store 0 (zval sample_store 1) (mpz_neg 0 0 (mpz_neg 0 1 sample_store)) \<and>
   updates sample_store 0 (zval sample_store 1) (mpz_com 0 0 (mpz_com 0 1 sample_store))"
  by (rule mpz_involutions) (simp_all add: sample_store_ok sample_store_live)

text \<open>C39.  Powers of two: mpz_mul_2exp multiplies by 2^cnt; mpz_tdiv_q_2exp, mpz_fdiv_q_2exp and mpz_cdiv_q_2exp leave the quotient rounded to zero, down and up; mpz_tdiv_r_2exp, mpz_fdiv_r_2exp and mpz_cdiv_r_2exp the matching remainders (the last two return: their increment ends), for every bit count (whole limbs, partial limbs, more bits than the operand has), in place or into another variable, and normalized also when high limbs of the result vanish or a carry adds one.\<close>

theorem mpz_2exp_correct:
  "store_ok st \<Longrightarrow> w \<in> live st \<Longrightarrow> u \<in> live st \<Longrightarrow>
   updates st w (zval st u * 2 ^ cnt) (mpz_mul_2exp w u cnt st) \<and>
   updates st w (zval st u sdiv 2 ^ cnt) (mpz_tdiv_q_2exp w u cnt st) \<and>
   updates st w (zval st u smod 2 ^ cnt) (mpz_tdiv_r_2exp w u cnt st) \<and>
   updates st w (zval st u div 2 ^ cnt) (mpz_fdiv_q_2exp w u cnt st) \<and>
   updates st w (- (- zval st u div 2 ^ cnt)) (mpz_cdiv_q_2exp w u cnt st) \<and>
   (\<exists>st'. mpz_fdiv_r_2exp w u cnt st = Some st' \<and> updates st w (zval st u mod 2 ^ cnt) st') \<and>
   (\<exists>st'. mpz_cdiv_r_2exp w u cnt st = Some st' \<and> updates st w (- (- zval st u mod 2 ^ cnt)) st')"
  by (intro conjI mpz_mul_2exp.contract mpz_tdiv_q_2exp.contract mpz_tdiv_r_2exp.contract mpz_fdiv_q_2exp.contract
    mpz_cdiv_q_2exp.contract [unfolded cdiv_def] mpz_fdiv_r_2exp_spec mpz_cdiv_r_2exp_spec [unfolded cmod_def]; assumption)

theorem mpz_2exp_correct_witness:
  "updates sample_store 1 (zval sample_store 1 * 2 ^ 40) (mpz_mul_2exp 1 1 40 sample_store) \<and>
   updates sample_store 1 (zval sample_store 1 sdiv 2 ^ 40) (mpz_tdiv_q_2exp 1 1 40 sample_store) \<and>
   updates sample_store 1 (zval sample_store 1 smod 2 ^ 40) (mpz_tdiv_r_2exp 1 1 40 sample_store) \<and>
   updates sample_store 1 (zval sample_store 1 div 2 ^ 40) (mpz_fdiv_q_2exp 1 1 40 sample_store) \<and>
   updates sample_store 1 (- (- zval sample_store 1 div 2 ^ 40)) (mpz_cdiv_q_2exp 1 1 40 sample_store) \<and>
   (\<exists>st'. mpz_fdiv_r_2exp 1 1 40 sample_store = Some st' \<and> updates sample_store 1 (zval sample_store 1 mod 2 ^ 40) st') \<and>
   (\<exists>st'. mpz_cdiv_r_2exp 1 1 40 sample_store = Some st' \<and> updates sample_store 1 (- (- zval sample_store 1 mod 2 ^ 40)) st')"
  by (rule mpz_2exp_correct) (simp_all add: sample_store_ok sample_store_live)

end
